(* ===== verification/Prelude.thy ===== *)
theory Prelude
  imports Main "HOL-Library.Word"
begin

text \<open>
  Shared vocabulary of the development: the machine types of the C sources, the collections of
  rewrite rules the component proofs use, checked access to C arrays, and the handful of
  \<^verbatim>\<open>ctype.h\<close> and \<^verbatim>\<open>string.h\<close> functions that the sources call.

  A C array or buffer is a HOL list whose length is the number of bytes allocated. A read or a
  write outside it is undefined behaviour in C: \<open>peek\<close> and \<open>poke\<close> return \<open>None\<close> there, and every
  operation of the models passes that \<open>None\<close> on as an explicit fault, so a theorem that an
  operation returns \<open>Some\<close> (or a non-fault outcome) is a memory-safety statement.
\<close>

unbundle bit_operations_syntax

section \<open>Machine types\<close>

type_synonym u8 = "8 word"
type_synonym u16 = "16 word"
type_synonym u32 = "32 word"
type_synonym u64 = "64 word"

text \<open>Collections: \<open>c_eval\<close> unfolds model definitions in evaluation proofs, \<open>inv_simps\<close> unfolds
  well-formedness invariants.\<close>

named_theorems c_eval
named_theorems inv_simps

section \<open>Checked array access\<close>

definition peek :: "'a list \<Rightarrow> nat \<Rightarrow> 'a option" where
  [c_eval]: "peek xs i = (if i < length xs then Some (xs ! i) else None)"

definition poke :: "'a list \<Rightarrow> nat \<Rightarrow> 'a \<Rightarrow> 'a list option" where
  [c_eval]: "poke xs i v = (if i < length xs then Some (xs[i := v]) else None)"

lemma peek_Some_iff: "peek xs i = Some x \<longleftrightarrow> i < length xs \<and> xs ! i = x"
  by (auto simp: peek_def)

lemma peek_None_iff: "peek xs i = None \<longleftrightarrow> length xs \<le> i"
  by (auto simp: peek_def)

lemma poke_Some_iff: "poke xs i v = Some ys \<longleftrightarrow> i < length xs \<and> ys = xs[i := v]"
  by (auto simp: poke_def)

lemma peek_drop: "peek xs i = Some x \<Longrightarrow> drop i xs = x # drop (Suc i) xs"
  by (auto simp: peek_Some_iff Cons_nth_drop_Suc)

lemma drop_Cons_peek: "drop i xs = x # ys \<Longrightarrow> peek xs i = Some x \<and> drop (Suc i) xs = ys"
proof -
  assume d: "drop i xs = x # ys"
  then have "i < length xs" by (metis drop_eq_Nil leI list.distinct(1))
  then show ?thesis using d by (auto simp: peek_def Cons_nth_drop_Suc[symmetric])
qed

lemma take_Suc_poke:
  "i < length xs \<Longrightarrow> take (Suc i) (xs[i := v]) = take i xs @ [v]"
  by (simp add: take_Suc_conv_app_nth)

section \<open>Folding exclusive or\<close>

definition xor_all :: "'a::semiring_bit_operations list \<Rightarrow> 'a" where
  "xor_all xs = fold (XOR) xs 0"

lemma fold_xor_acc: "fold (XOR) xs (a::'b::len word) = a XOR fold (XOR) xs 0"
proof (induction xs arbitrary: a)
  case Nil
  then show ?case by simp
next
  case (Cons x xs)
  show ?case
    by (simp only: fold_Cons comp_def Cons[of "x XOR a"] Cons[of "x XOR 0"]) (simp add: ac_simps)
qed

lemma xor_all_Nil [simp]: "xor_all [] = 0"
  by (simp add: xor_all_def)

lemma xor_all_Cons [simp]: "xor_all ((x::'b::len word) # xs) = x XOR xor_all xs"
  by (simp add: xor_all_def fold_xor_acc[of xs x])

lemma xor_all_append [simp]: "xor_all ((xs::'b::len word list) @ ys) = xor_all xs XOR xor_all ys"
  by (induction xs) (simp_all add: ac_simps)

lemma word_xor_eq_0_iff: "(a::'b::len word) XOR b = 0 \<longleftrightarrow> a = b"
  by (metis xor.right_neutral xor_self_eq word_bw_assocs(3))

lemma word_xor_cancel_left: "(a::'b::len word) XOR b = a XOR c \<longleftrightarrow> b = c"
  by (metis word_xor_eq_0_iff word_bw_assocs(3) xor.left_neutral xor_self_eq)

lemma word_xor_cancel_right: "(b::'b::len word) XOR a = c XOR a \<longleftrightarrow> b = c"
  by (simp add: xor.commute[of _ a] word_xor_cancel_left)

lemma word_xor_xor_same [simp]: "((a::'b::len word) XOR b) XOR b = a"
  by (simp add: word_bw_assocs(3))

section \<open>Words and naturals\<close>

lemma unat_of_nat_u8 [simp]: "j < 256 \<Longrightarrow> unat (of_nat j :: u8) = j"
  by (simp add: unat_of_nat take_bit_nat_eq_self)

lemma unat_of_nat_u16 [simp]: "j < 65536 \<Longrightarrow> unat (of_nat j :: u16) = j"
  by (simp add: unat_of_nat take_bit_nat_eq_self)

lemma unat_of_nat_u32 [simp]: "j < 4294967296 \<Longrightarrow> unat (of_nat j :: u32) = j"
  by (simp add: unat_of_nat take_bit_nat_eq_self)

lemma mask8_255: "(255 :: 'a::len word) = mask 8"
  by (simp add: mask_eq_exp_minus_1)

section \<open>Signed arithmetic\<close>

text \<open>A C \<^verbatim>\<open>int\<close> is an \<open>int\<close> in the range of 32 bits. Signed overflow is undefined behaviour in C, so an
  operation whose exact result leaves the range is a fault, \<open>None\<close>.\<close>

definition INT_MAX :: int where [c_eval]: "INT_MAX = 2147483647"
definition INT_MIN :: int where [c_eval]: "INT_MIN = - 2147483648"

definition c_int :: "int \<Rightarrow> int option" where
  "c_int x = (if INT_MIN \<le> x \<and> x \<le> INT_MAX then Some x else None)"

lemma c_int_Some [simp]: "INT_MIN \<le> x \<Longrightarrow> x \<le> INT_MAX \<Longrightarrow> c_int x = Some x"
  by (simp add: c_int_def)

lemma c_int_eq_Some: "c_int x = Some y \<longleftrightarrow> x = y \<and> INT_MIN \<le> x \<and> x \<le> INT_MAX"
  by (auto simp: c_int_def)

text \<open>Array accesses with a signed index.\<close>

definition ipeek :: "'a list \<Rightarrow> int \<Rightarrow> 'a option" where
  "ipeek xs i = (if 0 \<le> i then peek xs (nat i) else None)"

definition ipoke :: "'a list \<Rightarrow> int \<Rightarrow> 'a \<Rightarrow> 'a list option" where
  "ipoke xs i v = (if 0 \<le> i then poke xs (nat i) v else None)"

text \<open>\<^verbatim>\<open>memcpy\<close> and \<^verbatim>\<open>memset\<close> into an array at an offset: a fault if the range leaves the array.\<close>

definition mem_write :: "'a list \<Rightarrow> int \<Rightarrow> 'a list \<Rightarrow> 'a list option" where
  "mem_write xs off ys =
     (if 0 \<le> off \<and> nat off + length ys \<le> length xs
      then Some (take (nat off) xs @ ys @ drop (nat off + length ys) xs) else None)"

lemma mem_write_length: "mem_write xs off ys = Some zs \<Longrightarrow> length zs = length xs"
  by (auto simp: mem_write_def split: if_splits)

end
