(* ===== verification/SerialLink.thy ===== *)
theory SerialLink
  imports Prelude
begin

text \<open>
  The serial link between the gateway host and the Zigbee radio: the byte-stuffed frames
  \<^verbatim>\<open>01 <type> <length> <crc> <data> 03\<close>. The receiver is \<^verbatim>\<open>src/SerialLink/SerialLink.c\<close>, a state
  machine fed from a buffer that it overwrites in place with the decoded payload; the sender is
  \<^verbatim>\<open>src/LinkMessage/Serial_LinkCommand.c\<close>. The statics of the receiver are a record, its
  out-parameters and the caller's buffer are another; the outcome of one byte is a value of
  \<open>sl_outcome\<close>, with \<open>SL_FAULT\<close> for an access outside the buffer.
\<close>

section \<open>Receiver: data\<close>

definition SL_START_CHAR :: u8 where [c_eval]: "SL_START_CHAR = 0x01"
definition SL_ESC_CHAR :: u8 where [c_eval]: "SL_ESC_CHAR = 0x02"
definition SL_END_CHAR :: u8 where [c_eval]: "SL_END_CHAR = 0x03"
definition RX_MAX_LENGTH :: u16 where [c_eval]: "RX_MAX_LENGTH = 256"

datatype teSL_RxState =
    E_STATE_RX_WAIT_START
  | E_STATE_RX_WAIT_TYPEMSB
  | E_STATE_RX_WAIT_TYPELSB
  | E_STATE_RX_WAIT_LENMSB
  | E_STATE_RX_WAIT_LENLSB
  | E_STATE_RX_WAIT_CRC
  | E_STATE_RX_WAIT_DATA

text \<open>The function-level statics of \<^verbatim>\<open>eSL_ReadMessage\<close>.\<close>

record sl_static =
  eRxState :: teSL_RxState
  u8CRC :: u8
  u16Bytes :: u16
  bInEsc :: bool

definition sl_static_init :: sl_static where
  [c_eval]: "sl_static_init =
     \<lparr>eRxState = E_STATE_RX_WAIT_START, u8CRC = 0, u16Bytes = 0, bInEsc = False\<rparr>"

text \<open>What the pointer arguments of \<^verbatim>\<open>eSL_ReadMessage\<close> point to.\<close>

record sl_mem =
  pu16Type :: u16
  pu16Length :: u16
  pu8Message :: "u8 list"

datatype sl_outcome = SL_CONT | SL_RET bool | SL_FAULT

section \<open>Receiver: operations\<close>

text \<open>The checksum loop \<^verbatim>\<open>for (n = 0; n < u16Length; n++) u8CRC ^= pu8Data[n]\<close>, \<open>k\<close> iterations
  from index \<open>n\<close> on.\<close>

fun sl_crc_loop :: "nat \<Rightarrow> nat \<Rightarrow> u8 list \<Rightarrow> u8 \<Rightarrow> u8 option" where
  "sl_crc_loop 0 n pu8Data crc = Some crc"
| "sl_crc_loop (Suc k) n pu8Data crc =
     (case peek pu8Data n of
        None \<Rightarrow> None
      | Some b \<Rightarrow> sl_crc_loop k (Suc n) pu8Data (crc XOR b))"

definition u8SL_CalculateCRC :: "u16 \<Rightarrow> u16 \<Rightarrow> u8 list \<Rightarrow> u8 option" where
  [c_eval]: "u8SL_CalculateCRC u16Type u16Length pu8Data =
     (let crc = ucast (drop_bit 0 u16Type AND 0xff);
          crc = crc XOR ucast (drop_bit 8 u16Type AND 0xff);
          crc = crc XOR ucast (drop_bit 0 u16Length AND 0xff);
          crc = crc XOR ucast (drop_bit 8 u16Length AND 0xff)
      in sl_crc_loop (unat u16Length) 0 pu8Data crc)"

text \<open>The inner \<^verbatim>\<open>switch (eRxState)\<close>, on a byte that is no control character and is already
  un-escaped. \<^verbatim>\<open>eRxState++\<close> moves to the next state of the enumeration.\<close>

fun sl_rx_byte :: "u8 \<Rightarrow> sl_static \<Rightarrow> sl_mem \<Rightarrow> sl_outcome \<times> sl_static \<times> sl_mem" where
  "sl_rx_byte u8Data s m =
     (case eRxState s of
        E_STATE_RX_WAIT_START \<Rightarrow> (SL_CONT, s, m)
      | E_STATE_RX_WAIT_TYPEMSB \<Rightarrow>
          (SL_CONT, s\<lparr>eRxState := E_STATE_RX_WAIT_TYPELSB\<rparr>,
           m\<lparr>pu16Type := push_bit 8 (ucast u8Data)\<rparr>)
      | E_STATE_RX_WAIT_TYPELSB \<Rightarrow>
          (SL_CONT, s\<lparr>eRxState := E_STATE_RX_WAIT_LENMSB\<rparr>,
           m\<lparr>pu16Type := pu16Type m + ucast u8Data\<rparr>)
      | E_STATE_RX_WAIT_LENMSB \<Rightarrow>
          (SL_CONT, s\<lparr>eRxState := E_STATE_RX_WAIT_LENLSB\<rparr>,
           m\<lparr>pu16Length := push_bit 8 (ucast u8Data)\<rparr>)
      | E_STATE_RX_WAIT_LENLSB \<Rightarrow>
          (let m' = m\<lparr>pu16Length := pu16Length m + ucast u8Data\<rparr>
           in if pu16Length m' > RX_MAX_LENGTH
              then (SL_CONT, s\<lparr>eRxState := E_STATE_RX_WAIT_START\<rparr>, m')
              else (SL_CONT, s\<lparr>eRxState := E_STATE_RX_WAIT_CRC\<rparr>, m'))
      | E_STATE_RX_WAIT_CRC \<Rightarrow>
          (SL_CONT, s\<lparr>u8CRC := u8Data, eRxState := E_STATE_RX_WAIT_DATA\<rparr>, m)
      | E_STATE_RX_WAIT_DATA \<Rightarrow>
          (if u16Bytes s < pu16Length m
           then (case poke (pu8Message m) (unat (u16Bytes s)) u8Data of
                   None \<Rightarrow> (SL_FAULT, s, m)
                 | Some buf \<Rightarrow>
                     (SL_CONT, s\<lparr>u16Bytes := u16Bytes s + 1\<rparr>, m\<lparr>pu8Message := buf\<rparr>))
           else (SL_CONT, s, m)))"

text \<open>The outer \<^verbatim>\<open>switch (u8Data)\<close>: the three control characters, then the default case.\<close>

definition sl_byte :: "u8 \<Rightarrow> sl_static \<Rightarrow> sl_mem \<Rightarrow> sl_outcome \<times> sl_static \<times> sl_mem" where
  [c_eval]: "sl_byte u8Data s m =
     (if u8Data = SL_START_CHAR
      then (SL_CONT, s\<lparr>u16Bytes := 0, bInEsc := False, eRxState := E_STATE_RX_WAIT_TYPEMSB\<rparr>, m)
      else if u8Data = SL_ESC_CHAR
      then (SL_CONT, s\<lparr>bInEsc := True\<rparr>, m)
      else if u8Data = SL_END_CHAR
      then (if pu16Length m > RX_MAX_LENGTH
            then (SL_CONT, s\<lparr>eRxState := E_STATE_RX_WAIT_START\<rparr>, m)
            else (case u8SL_CalculateCRC (pu16Type m) (pu16Length m) (pu8Message m) of
                    None \<Rightarrow> (SL_FAULT, s, m)
                  | Some c \<Rightarrow>
                      if u8CRC s = c
                      then (SL_RET True, s\<lparr>eRxState := E_STATE_RX_WAIT_START\<rparr>, m)
                      else (SL_CONT, s, m)))
      else if bInEsc s
      then sl_rx_byte (u8Data XOR 0x10) (s\<lparr>bInEsc := False\<rparr>) m
      else sl_rx_byte u8Data s m)"

text \<open>The loop \<^verbatim>\<open>while (u16MsgLen > i)\<close>. The index \<open>i\<close> is a \<^verbatim>\<open>uint8\<close>, so it wraps at 256 and the
  loop may run forever: it takes fuel, one unit per iteration, and is \<open>None\<close> when it runs out.\<close>

fun sl_read_loop ::
  "nat \<Rightarrow> u16 \<Rightarrow> u8 \<Rightarrow> sl_static \<Rightarrow> sl_mem \<Rightarrow> (sl_outcome \<times> sl_static \<times> sl_mem) option" where
  "sl_read_loop 0 u16MsgLen i s m = None"
| "sl_read_loop (Suc fuel) u16MsgLen i s m =
     (if unat u16MsgLen > unat i
      then (case peek (pu8Message m) (unat i) of
              None \<Rightarrow> Some (SL_FAULT, s, m)
            | Some u8Data \<Rightarrow>
                (case sl_byte u8Data s m of
                   (SL_CONT, s', m') \<Rightarrow> sl_read_loop fuel u16MsgLen (i + 1) s' m'
                 | r \<Rightarrow> Some r))
      else Some (SL_RET False, s, m))"

definition eSL_ReadMessage ::
  "nat \<Rightarrow> u16 \<Rightarrow> sl_static \<Rightarrow> sl_mem \<Rightarrow> (sl_outcome \<times> sl_static \<times> sl_mem) option" where
  [c_eval]: "eSL_ReadMessage fuel u16MsgLen s m = sl_read_loop fuel u16MsgLen 0 s m"

section \<open>Sender: message types\<close>

text \<open>The enumeration as the list of its enumerators with their codes.\<close>

definition teSL_MsgType :: "(string \<times> u32) list" where
  [c_eval]: "teSL_MsgType =
    [(''E_SL_MSG_STATUS'', 0x8000),
     (''E_SL_MSG_LOG'', 0x8001),
     (''E_SL_MSG_DATA_INDICATION'', 0x8002),
     (''E_SL_MSG_NODE_CLUSTER_LIST'', 0x8003),
     (''E_SL_MSG_NODE_ATTRIBUTE_LIST'', 0x8004),
     (''E_SL_MSG_NODE_COMMAND_ID_LIST'', 0x8005),
     (''E_SL_MSG_RESTART_PROVISIONED'', 0x8006),
     (''E_SL_MSG_RESTART_FACTORY_NEW'', 0x8007),
     (''E_SL_MSG_GET_VERSION'', 0x0010),
     (''E_SL_MSG_VERSION_LIST'', 0x8010),
     (''E_SL_MSG_SET_EXT_PANID'', 0x0020),
     (''E_SL_MSG_SET_CHANNELMASK'', 0x0021),
     (''E_SL_MSG_SET_SECURITY'', 0x0022),
     (''E_SL_MSG_SET_DEVICETYPE'', 0x0023),
     (''E_SL_MSG_START_NETWORK'', 0x0024),
     (''E_SL_MSG_NETWORK_JOINED_FORMED'', 0x8024),
     (''E_SL_MSG_RESET'', 0x0011),
     (''E_SL_MSG_ERASE_PERSISTENT_DATA'', 0x0012),
     (''E_SL_MSG_GET_PERMIT_JOIN'', 0x0014),
     (''E_SL_MSG_GET_PERMIT_JOIN_RESPONSE'', 0x8014),
     (''E_SL_MSG_BIND'', 0x0030),
     (''E_SL_MSG_UNBIND'', 0x0031),
     (''E_SL_MSG_NETWORK_ADDRESS_REQUEST'', 0x0040),
     (''E_SL_MSG_IEEE_ADDRESS_REQUEST'', 0x0041),
     (''E_SL_MSG_IEEE_ADDRESS_RESPONSE'', 0x8041),
     (''E_SL_MSG_NODE_DESCRIPTOR_REQUEST'', 0x0042),
     (''E_SL_MSG_SIMPLE_DESCRIPTOR_REQUEST'', 0x0043),
     (''E_SL_MSG_SIMPLE_DESCRIPTOR_RESPONSE'', 0x8043),
     (''E_SL_MSG_POWER_DESCRIPTOR_REQUEST'', 0x0044),
     (''E_SL_MSG_ACTIVE_ENDPOINT_REQUEST'', 0x0045),
     (''E_SL_MSG_MATCH_DESCRIPTOR_REQUEST'', 0x0046),
     (''E_SL_MSG_MATCH_DESCRIPTOR_RESPONSE'', 0x8046),
     (''E_SL_MSG_MANAGEMENT_LEAVE_REQUEST'', 0x0047),
     (''E_SL_MSG_LEAVE_CONFIRMATION'', 0x8047),
     (''E_SL_MSG_LEAVE_INDICATION'', 0x8048),
     (''E_SL_MSG_PERMIT_JOINING_REQUEST'', 0x0049),
     (''E_SL_MSG_MANAGEMENT_NETWPRK_UPDATE_REQUEST'', 0x004A),
     (''E_SL_MSG_SYSTEM_SERVER_DISCOVERY'', 0x004B),
     (''E_SL_MSG_COMPLEX_DESCRIPTOR_REQUEST'', 0x004C),
     (''E_SL_MSG_DEVICE_ANNOUNCE'', 0x004D),
     (''E_SL_MSG_READ_ATTRIBUTE_REQUEST'', 0x0100),
     (''E_SL_MSG_READ_ATTRIBUTE_RESPONSE'', 0x8100),
     (''E_SL_MSG_DEFAULT_RESPONSE'', 0x8101),
     (''E_SL_MSG_ADD_GROUP_REQUEST'', 0x0060),
     (''E_SL_MSG_ADD_GROUP_RESPONSE'', 0x8060),
     (''E_SL_MSG_VIEW_GROUP'', 0x0061),
     (''E_SL_MSG_GET_GROUP_MEMBERSHIP_REQUEST'', 0x0062),
     (''E_SL_MSG_GET_GROUP_MEMBERSHIP_RESPONSE'', 0x8062),
     (''E_SL_MSG_REMOVE_GROUP_REQUEST'', 0x0063),
     (''E_SL_MSG_REMOVE_GROUP_RESPONSE'', 0x8063),
     (''E_SL_MSG_REMOVE_ALL_GROUPS'', 0x0064),
     (''E_SL_MSG_ADD_GROUP_IF_IDENTIFY'', 0x0065),
     (''E_SL_MSG_IDENTIFY_SEND'', 0x0070),
     (''E_SL_MSG_IDENTIFY_QUERY'', 0x0071),
     (''E_SL_MSG_MOVE_TO_LEVEL'', 0x0080),
     (''E_SL_MSG_MOVE_TO_LEVEL_ONOFF'', 0x0081),
     (''E_SL_MSG_MOVE_STEP'', 0x0082),
     (''E_SL_MSG_MOVE_STOP_MOVE'', 0x0083),
     (''E_SL_MSG_MOVE_STOP_ONOFF'', 0x0084),
     (''E_SL_MSG_ONOFF'', 0x0092),
     (''E_SL_MSG_VIEW_SCENE'', 0x00A0),
     (''E_SL_MSG_ADD_SCENE'', 0x00A1),
     (''E_SL_MSG_REMOVE_SCENE'', 0x00A2),
     (''E_SL_MSG_REMOVE_SCENE_RESPONSE'', 0x80A2),
     (''E_SL_MSG_REMOVE_ALL_SCENES'', 0x00A3),
     (''E_SL_MSG_STORE_SCENE'', 0x00A4),
     (''E_SL_MSG_STORE_SCENE_RESPONSE'', 0x80A4),
     (''E_SL_MSG_RECALL_SCENE'', 0x00A5),
     (''E_SL_MSG_SCENE_MEMBERSHIP_REQUEST'', 0x00A6),
     (''E_SL_MSG_SCENE_MEMBERSHIP_RESPONSE'', 0x80A6),
     (''E_SL_MSG_MOVE_TO_HUE'', 0x00B0),
     (''E_SL_MSG_MOVE_HUE'', 0x00B1),
     (''E_SL_MSG_STEP_HUE'', 0x00B2),
     (''E_SL_MSG_MOVE_TO_SATURATION'', 0x00B3),
     (''E_SL_MSG_MOVE_SATURATION'', 0x00B4),
     (''E_SL_MSG_STEP_SATURATION'', 0x00B5),
     (''E_SL_MSG_MOVE_TO_HUE_SATURATION'', 0x00B6),
     (''E_SL_MSG_MOVE_TO_COLOUR'', 0x00B7),
     (''E_SL_MSG_MOVE_COLOUR'', 0x00B8),
     (''E_SL_MSG_STEP_COLOUR'', 0x00B9),
     (''E_SL_MSG_INITIATE_TOUCHLINK'', 0x00D0),
     (''E_SL_MSG_TOUCHLINK_STATUS'', 0x00D1),
     (''E_SL_MSG_IDENTIFY_TRIGGER_EFFECT'', 0x00E0),
     (''E_SL_MSG_ONOFF_TIMED'', 0x0093),
     (''E_SL_MSG_ONOFF_EFFECTS'', 0x0094),
     (''E_SL_MSG_ADD_ENHANCED_SCENE'', 0x00A7),
     (''E_SL_MSG_VIEW_ENHANCED_SCENE'', 0x00A8),
     (''E_SL_MSG_COPY_SCENE'', 0x00A9),
     (''E_SL_MSG_ENHANCED_MOVE_TO_HUE'', 0x00BA),
     (''E_SL_MSG_ENHANCED_MOVE_HUE'', 0x00BB),
     (''E_SL_MSG_ENHANCED_STEP_HUE'', 0x00BC),
     (''E_SL_MSG_ENHANCED_MOVE_TO_HUE_SATURATION'', 0x00BD),
     (''E_SL_MSG_COLOUR_LOOP_SET'', 0x00BE),
     (''E_SL_MSG_STOP_MOVE_STEP'', 0x00BF),
     (''E_SL_MSG_MOVE_TO_COLOUR_TEMPERATURE'', 0x00C0),
     (''E_SL_MSG_MOVE_COLOUR_TEMPERATURE'', 0x00C1),
     (''E_SL_MSG_STEP_COLOUR_TEMPERATURE'', 0x00C2),
     (''E_SL_MSG_LOCK_UNLOCK_DOOR'', 0x00F0),
     (''E_SL_MSG_PDM_AVAILABLE_REQUEST'', 0x0300),
     (''E_SL_MSG_PDM_AVAILABLE_RESPONSE'', 0x8300),
     (''E_SL_MSG_PDM_SAVE_RECORD_REQUEST'', 0x0200),
     (''E_SL_MSG_PDM_SAVE_RECORD_RESPONSE'', 0x8200),
     (''E_SL_MSG_PDM_LOAD_RECORD_REQUEST'', 0x0201),
     (''E_SL_MSG_PDM_LOAD_RECORD_RESPONSE'', 0x8201),
     (''E_SL_MSG_PDM_DELETE_ALL_RECORDS_REQUEST'', 0x0202),
     (''E_SL_MSG_PDM_DELETE_ALL_RECORDS_RESPONSE'', 0x8202),
     (''E_SL_MSG_WRITE_ATTRIBUTE_REQUEST'', 0x0400),
     (''E_SL_MSG_WRITE_ATTRIBUTE_RESPONSE'', 0x8400)]"

text \<open>The enumerators that the message table uses.\<close>

definition E_SL_MSG_GET_VERSION :: u32 where [c_eval]: "E_SL_MSG_GET_VERSION = 0x0010"
definition E_SL_MSG_SET_EXT_PANID :: u32 where [c_eval]: "E_SL_MSG_SET_EXT_PANID = 0x0020"
definition E_SL_MSG_SET_CHANNELMASK :: u32 where [c_eval]: "E_SL_MSG_SET_CHANNELMASK = 0x0021"
definition E_SL_MSG_SET_SECURITY :: u32 where [c_eval]: "E_SL_MSG_SET_SECURITY = 0x0022"
definition E_SL_MSG_SET_DEVICETYPE :: u32 where [c_eval]: "E_SL_MSG_SET_DEVICETYPE = 0x0023"
definition E_SL_MSG_START_NETWORK :: u32 where [c_eval]: "E_SL_MSG_START_NETWORK = 0x0024"
definition E_SL_MSG_RESET :: u32 where [c_eval]: "E_SL_MSG_RESET = 0x0011"
definition E_SL_MSG_ERASE_PERSISTENT_DATA :: u32 where [c_eval]: "E_SL_MSG_ERASE_PERSISTENT_DATA = 0x0012"
definition E_SL_MSG_BIND :: u32 where [c_eval]: "E_SL_MSG_BIND = 0x0030"
definition E_SL_MSG_MATCH_DESCRIPTOR_REQUEST :: u32 where [c_eval]: "E_SL_MSG_MATCH_DESCRIPTOR_REQUEST = 0x0046"
definition E_SL_MSG_MANAGEMENT_LEAVE_REQUEST :: u32 where [c_eval]: "E_SL_MSG_MANAGEMENT_LEAVE_REQUEST = 0x0047"
definition E_SL_MSG_PERMIT_JOINING_REQUEST :: u32 where [c_eval]: "E_SL_MSG_PERMIT_JOINING_REQUEST = 0x0049"
definition E_SL_MSG_READ_ATTRIBUTE_REQUEST :: u32 where [c_eval]: "E_SL_MSG_READ_ATTRIBUTE_REQUEST = 0x0100"
definition E_SL_MSG_ONOFF :: u32 where [c_eval]: "E_SL_MSG_ONOFF = 0x0092"
definition E_SL_MSG_VIEW_SCENE :: u32 where [c_eval]: "E_SL_MSG_VIEW_SCENE = 0x00A0"
definition E_SL_MSG_REMOVE_SCENE :: u32 where [c_eval]: "E_SL_MSG_REMOVE_SCENE = 0x00A2"
definition E_SL_MSG_STORE_SCENE :: u32 where [c_eval]: "E_SL_MSG_STORE_SCENE = 0x00A4"
definition E_SL_MSG_RECALL_SCENE :: u32 where [c_eval]: "E_SL_MSG_RECALL_SCENE = 0x00A5"
definition E_SL_MSG_MOVE_TO_HUE :: u32 where [c_eval]: "E_SL_MSG_MOVE_TO_HUE = 0x00B0"
definition E_SL_MSG_MOVE_TO_SATURATION :: u32 where [c_eval]: "E_SL_MSG_MOVE_TO_SATURATION = 0x00B3"
definition E_SL_MSG_MOVE_TO_HUE_SATURATION :: u32 where [c_eval]: "E_SL_MSG_MOVE_TO_HUE_SATURATION = 0x00B6"
definition E_SL_MSG_MOVE_TO_COLOUR :: u32 where [c_eval]: "E_SL_MSG_MOVE_TO_COLOUR = 0x00B7"
definition E_SL_MSG_WRITE_ATTRIBUTE_REQUEST :: u32 where [c_eval]: "E_SL_MSG_WRITE_ATTRIBUTE_REQUEST = 0x0400"

datatype teZCL_AddressMode =
    E_ZCL_AM_BOUND
  | E_ZCL_AM_GROUP
  | E_ZCL_AM_SHORT
  | E_ZCL_AM_IEEE
  | E_ZCL_AM_BROADCAST
  | E_ZCL_AM_NO_TRANSMIT
  | E_ZCL_AM_BOUND_NO_ACK
  | E_ZCL_AM_SHORT_NO_ACK
  | E_ZCL_AM_IEEE_NO_ACK
  | E_ZCL_AM_ENUM_END

primrec zcl_am :: "teZCL_AddressMode \<Rightarrow> u8" where
  "zcl_am E_ZCL_AM_BOUND = 0"
| "zcl_am E_ZCL_AM_GROUP = 1"
| "zcl_am E_ZCL_AM_SHORT = 2"
| "zcl_am E_ZCL_AM_IEEE = 3"
| "zcl_am E_ZCL_AM_BROADCAST = 4"
| "zcl_am E_ZCL_AM_NO_TRANSMIT = 5"
| "zcl_am E_ZCL_AM_BOUND_NO_ACK = 6"
| "zcl_am E_ZCL_AM_SHORT_NO_ACK = 7"
| "zcl_am E_ZCL_AM_IEEE_NO_ACK = 8"
| "zcl_am E_ZCL_AM_ENUM_END = 9"

section \<open>Sender: data and operations\<close>

text \<open>\<^verbatim>\<open>Serial_LinkCommand.h\<close> redefines \<^verbatim>\<open>uint16_t\<close> as \<^verbatim>\<open>unsigned int\<close>, so the sender's type, length and
  index are 32 bits wide.\<close>

record LinkMessage_t =
  lm_index :: u32
  lm_name :: string
  lm_message :: "u8 list"
  lm_length :: u8

definition lm_entry :: "u32 \<Rightarrow> string \<Rightarrow> u8 list \<Rightarrow> LinkMessage_t" where
  [c_eval]: "lm_entry idx nm msg =
     \<lparr>lm_index = idx, lm_name = nm, lm_message = msg, lm_length = of_nat (length msg)\<rparr>"

definition PermitJoiningRequest :: "u8 list" where
  [c_eval]: "PermitJoiningRequest = [0x00,0x49,0x00,0x04,0x00,0xFF,0xFC,0x64,0x00]"
definition ReadAttributeRequest :: "u8 list" where
  [c_eval]: "ReadAttributeRequest = [0x01,0x00,0x00,14,0x00,zcl_am E_ZCL_AM_BROADCAST,0xFF,0xFE,
     0x01,0x01,0x00,0x00,0x00,0x00,0x00,0x00,0x01,0x00,0x00]"
definition WriteAttributeRequest :: "u8 list" where
  [c_eval]: "WriteAttributeRequest = [0x04,0x00,0x00,18,0x00,zcl_am E_ZCL_AM_BROADCAST,0xFF,0xFE,
     0x01,0x01,0x04,0x00,0x00,0x00,0x00,0x00,0x01,0x00,0x01]"
definition OnOffLight :: "u8 list" where
  [c_eval]: "OnOffLight = [0x00,0x92,0x00,0x06,0x00,zcl_am E_ZCL_AM_BROADCAST,0xFF,0xFE,0x01,0x02,0x00]"
definition ViewScene :: "u8 list" where
  [c_eval]: "ViewScene = [0x00,0xA0,0x00,0x09,0x00,zcl_am E_ZCL_AM_BROADCAST,0xFF,0xFE,0x01,0x01,0x00,0x00]"
definition SotreScene :: "u8 list" where
  [c_eval]: "SotreScene = [0x00,0xA4,0x00,0x09,0x00,zcl_am E_ZCL_AM_BROADCAST,0xFF,0xFE,0x01,0x01,0x00,0x00]"
definition RemoveScene :: "u8 list" where
  [c_eval]: "RemoveScene = [0x00,0xA2,0x00,0x09,0x00,zcl_am E_ZCL_AM_BROADCAST,0xFF,0xFE,0x01,0x01,0x00,0x00]"
definition RecallScene :: "u8 list" where
  [c_eval]: "RecallScene = [0x00,0xA5,0x00,0x09,0x00,zcl_am E_ZCL_AM_BROADCAST,0xFF,0xFE,0x01,0x01,0x00,0x00]"
definition BindRequest :: "u8 list" where
  [c_eval]: "BindRequest = [0x00,0x30,0x00,21,0x00,
     0x00,0x15,0x8d,0x00,0x00,0x35,0xf4,0x2f,0x01,0x00,0x06,0x03,
     0x00,0x15,0x8d,0x00,0x00,0x53,0x66,0x4a,0x01]"
definition MoveHueToSaturation :: "u8 list" where
  [c_eval]: "MoveHueToSaturation =
     [0x00,0xB3,0x00,0x08,0x00,zcl_am E_ZCL_AM_BROADCAST,0xFF,0xFE,0x01,0x01]"
definition MatchDescriptorRequest :: "u8 list" where
  [c_eval]: "MatchDescriptorRequest =
     [0x00,0x46,0x00,0x08,0x00,0xFF,0xFD,0x01,0x04,0x01,0x00,0x05,0x01]"
definition MoveToHueAndStaturation :: "u8 list" where
  [c_eval]: "MoveToHueAndStaturation =
     [0x00,0xb6,0x00,0x09,0x00,zcl_am E_ZCL_AM_BROADCAST,0xFF,0xFD,0x01,0x01,87,0xff,0x00,0x05]"
definition MoveToColor :: "u8 list" where
  [c_eval]: "MoveToColor = [0x00,0xb7,0x00,11,0x00,zcl_am E_ZCL_AM_BROADCAST,0xFF,0xFD,0x01,0x01,
     0x00,0xFF,0x00,0xff,0x00,0x05]"
definition MoveToHue :: "u8 list" where
  [c_eval]: "MoveToHue = [0x00,0xb0,0x00,0x09,0x00,zcl_am E_ZCL_AM_BROADCAST,0xFF,0xFD,0x01,0x01,
     0xaa,0x01,0x00,0x05]"
definition ErasePersistentData :: "u8 list" where
  [c_eval]: "ErasePersistentData = [0x00,0x12,0x00,0x00,0x00]"
definition Reset :: "u8 list" where [c_eval]: "Reset = [0x00,0x11,0x00,0x00,0x00]"
definition GetVersion :: "u8 list" where [c_eval]: "GetVersion = [0x00,0x10,0x00,0x00,0x00]"
definition SetExtendedPanID :: "u8 list" where
  [c_eval]: "SetExtendedPanID = [0x00,0x20,0x00,0x08,0x00,0x00,0x00,0x00,0x00,0x00,0x00,0x00,0x00]"
definition SetChannelMask :: "u8 list" where
  [c_eval]: "SetChannelMask = [0x00,0x21,0x00,0x04,0x00,0x00,0x00,0x00,0x0f]"
definition SetSecurityAndKey :: "u8 list" where
  [c_eval]: "SetSecurityAndKey = [0x00,0x22,0x00,0x02,0x00,0x00,0x00]"
definition SetDeviceType :: "u8 list" where
  [c_eval]: "SetDeviceType = [0x00,0x23,0x00,0x01,0x00,0x00]"
definition StartNetwork :: "u8 list" where [c_eval]: "StartNetwork = [0x00,0x24,0x00,0x00,0x00]"
definition ManageLeaveDevice :: "u8 list" where
  [c_eval]: "ManageLeaveDevice = [0x00,0x47,0x00,11,0x00,0x70,0x9f,
     0x00,0x15,0x8d,0x00,0x00,0x53,0x66,0x32]"

definition LinkMessage :: "LinkMessage_t list" where
  [c_eval]: "LinkMessage =
     [lm_entry E_SL_MSG_PERMIT_JOINING_REQUEST ''Permit Joining Request'' PermitJoiningRequest,
      lm_entry E_SL_MSG_READ_ATTRIBUTE_REQUEST ''Read Attribute Request'' ReadAttributeRequest,
      lm_entry E_SL_MSG_ONOFF ''OnOff Light'' OnOffLight,
      lm_entry E_SL_MSG_STORE_SCENE ''Store Scene'' SotreScene,
      lm_entry E_SL_MSG_VIEW_SCENE ''View Scene'' ViewScene,
      lm_entry E_SL_MSG_REMOVE_SCENE ''Remove Scene'' RemoveScene,
      lm_entry E_SL_MSG_RECALL_SCENE ''Recall Scene'' RecallScene,
      lm_entry E_SL_MSG_BIND ''Bind Request'' BindRequest,
      lm_entry E_SL_MSG_WRITE_ATTRIBUTE_REQUEST ''WriteAttributeRequest'' WriteAttributeRequest,
      lm_entry E_SL_MSG_MOVE_TO_SATURATION ''Color Light'' MoveHueToSaturation,
      lm_entry E_SL_MSG_MATCH_DESCRIPTOR_REQUEST ''MatchDescriptorRequest'' MatchDescriptorRequest,
      lm_entry E_SL_MSG_MOVE_TO_HUE_SATURATION ''MoveToHueAndStaturation'' MoveToHueAndStaturation,
      lm_entry E_SL_MSG_MOVE_TO_COLOUR ''MoveToColor'' MoveToColor,
      lm_entry E_SL_MSG_MOVE_TO_HUE ''MoveToHue'' MoveToHue,
      lm_entry E_SL_MSG_ERASE_PERSISTENT_DATA ''ErasePersistentData'' ErasePersistentData,
      lm_entry E_SL_MSG_RESET ''Reset'' Reset,
      lm_entry E_SL_MSG_GET_VERSION ''GetVersion'' GetVersion,
      lm_entry E_SL_MSG_SET_EXT_PANID ''SetExtendedPanID'' SetExtendedPanID,
      lm_entry E_SL_MSG_SET_CHANNELMASK ''SetChannelMask'' SetChannelMask,
      lm_entry E_SL_MSG_SET_SECURITY ''SetSecurityAndKey'' SetSecurityAndKey,
      lm_entry E_SL_MSG_SET_DEVICETYPE ''SetDeviceType'' SetDeviceType,
      lm_entry E_SL_MSG_START_NETWORK ''StartNetwork'' StartNetwork,
      lm_entry E_SL_MSG_MANAGEMENT_LEAVE_REQUEST ''ManageLeaveDevice'' ManageLeaveDevice]"

definition LM_u8SL_CalculateCRC :: "u32 \<Rightarrow> u32 \<Rightarrow> u8 list \<Rightarrow> u8 option" where
  [c_eval]: "LM_u8SL_CalculateCRC u16Type u16Length pu8Data =
     (let crc = 0;
          crc = crc XOR ucast (drop_bit 8 u16Type AND 0xff);
          crc = crc XOR ucast (drop_bit 0 u16Type AND 0xff);
          crc = crc XOR ucast (drop_bit 8 u16Length AND 0xff);
          crc = crc XOR ucast (drop_bit 0 u16Length AND 0xff)
      in sl_crc_loop (unat u16Length) 0 pu8Data crc)"

text \<open>\<^verbatim>\<open>printf("%02x ", b)\<close>.\<close>

definition hex_digit :: "nat \<Rightarrow> char" where
  [c_eval]: "hex_digit n = ''0123456789abcdef'' ! n"

definition printf_02x :: "u8 \<Rightarrow> string" where
  [c_eval]: "printf_02x b = [hex_digit (unat b div 16), hex_digit (unat b mod 16), CHR '' '']"

text \<open>The escaping loop: \<open>k\<close> iterations from index \<open>n\<close>, over the buffer and the text printed so
  far.\<close>

fun lm_write_loop :: "nat \<Rightarrow> nat \<Rightarrow> u8 list \<Rightarrow> string \<Rightarrow> (u8 list \<times> string) option" where
  "lm_write_loop 0 n pu8Data out = Some (pu8Data, out)"
| "lm_write_loop (Suc k) n pu8Data out =
     (case peek pu8Data n of
        None \<Rightarrow> None
      | Some b \<Rightarrow>
          if b < 0x10
          then lm_write_loop k (Suc n) (pu8Data[n := b XOR 0x10])
                 (out @ ''02 '' @ printf_02x (b XOR 0x10))
          else lm_write_loop k (Suc n) pu8Data (out @ printf_02x b))"

definition lm_banner :: string where
  [c_eval]: "lm_banner = CHR 0x0A # ''------------The Link Message Is:------------'' @ [CHR 0x0A]"

text \<open>\<^verbatim>\<open>eSL_WriteMessage\<close>: the buffer after the call and the text it printed.\<close>

definition eSL_WriteMessage :: "u32 \<Rightarrow> u32 \<Rightarrow> u8 list \<Rightarrow> u8 \<Rightarrow> (u8 list \<times> string) option" where
  [c_eval]: "eSL_WriteMessage u16Type u16Length pu8Data pu8Length =
     (if length pu8Data < 5 then None
      else case LM_u8SL_CalculateCRC u16Type u16Length (drop 5 pu8Data) of
        None \<Rightarrow> None
      | Some crc \<Rightarrow>
          (case lm_write_loop (unat pu8Length) 0 (pu8Data[4 := crc]) (lm_banner @ ''01 '') of
             None \<Rightarrow> None
           | Some (buf, out) \<Rightarrow> Some (buf, out @ ''03'' @ [CHR 0x0A])))"

text \<open>One round of the menu loop of \<^verbatim>\<open>main\<close>: \<open>u16Index\<close> and \<open>cluster\<close> are what the two \<^verbatim>\<open>scanf\<close>s
  stored. The table is returned because \<^verbatim>\<open>message[10]\<close> and \<^verbatim>\<open>message[11]\<close> are patched in place. When
  no entry matches, the loop leaves \<^verbatim>\<open>i\<close> at the table's size and \<^verbatim>\<open>LinkMessage[i]\<close> is read outside the
  table: \<open>None\<close>.\<close>

fun lm_find :: "LinkMessage_t list \<Rightarrow> nat \<Rightarrow> u32 \<Rightarrow> nat" where
  "lm_find [] i u16Index = i"
| "lm_find (e # es) i u16Index = (if lm_index e = u16Index then i else lm_find es (Suc i) u16Index)"

definition lm_main_round ::
  "LinkMessage_t list \<Rightarrow> u32 \<Rightarrow> u32 \<Rightarrow> (LinkMessage_t list \<times> u8 list \<times> string) option" where
  [c_eval]: "lm_main_round tbl u16Index cluster =
     (let i = lm_find tbl 0 u16Index in
      case peek tbl i of
        None \<Rightarrow> None
      | Some e \<Rightarrow>
          (let reads = (E_SL_MSG_READ_ATTRIBUTE_REQUEST = u16Index);
               e' = (if reads
                     then e\<lparr>lm_message := (lm_message e)[10 := ucast (drop_bit 8 cluster),
                                                         11 := ucast (cluster AND 0xff)]\<rparr>
                     else e);
               msg = lm_message e';
               len = unat (lm_length e')
           in if length msg < 4 \<or> reads \<and> length msg < 12 \<or> length msg < len \<or> 100 < len
              then None
              else
                (case eSL_WriteMessage (push_bit 8 (ucast (msg ! 0)) OR ucast (msg ! 1))
                        (push_bit 8 (ucast (msg ! 2)) OR ucast (msg ! 3))
                        (take len msg @ replicate (100 - len) 0) (lm_length e') of
                   None \<Rightarrow> None
                 | Some (buf, out) \<Rightarrow> Some (tbl[i := e'], buf, out))))"

section \<open>The wire format\<close>

text \<open>The specification both sides are measured against: stuffing of one byte, the frame of a
  message, and its printed form.\<close>

definition sl_escape :: "u8 \<Rightarrow> u8 list" where
  "sl_escape b = (if b < 0x10 then [SL_ESC_CHAR, b XOR 0x10] else [b])"

definition sl_stuff :: "u8 list \<Rightarrow> u8 list" where
  "sl_stuff bs = concat (map sl_escape bs)"

definition sl_wire :: "u8 list \<Rightarrow> u8 list" where
  "sl_wire bs = SL_START_CHAR # sl_stuff bs @ [SL_END_CHAR]"

definition sl_header :: "u16 \<Rightarrow> u16 \<Rightarrow> u8 \<Rightarrow> u8 list" where
  "sl_header typ len crc =
     [ucast (drop_bit 8 typ), ucast typ, ucast (drop_bit 8 len), ucast len, crc]"

definition sl_checksum :: "u16 \<Rightarrow> u8 list \<Rightarrow> u8" where
  "sl_checksum typ bs =
     (let len = of_nat (length bs) :: u16
      in ucast typ XOR ucast (drop_bit 8 typ) XOR ucast len XOR ucast (drop_bit 8 len) XOR xor_all bs)"

definition sl_frame :: "u16 \<Rightarrow> u8 list \<Rightarrow> u8 list" where
  "sl_frame typ bs = sl_wire (sl_header typ (of_nat (length bs)) (sl_checksum typ bs) @ bs)"

definition wire_text :: "u8 list \<Rightarrow> string" where
  "wire_text bs = concat (map printf_02x (butlast bs)) @ butlast (printf_02x (last bs)) @ [CHR 0x0A]"

section \<open>Lemmas on the receiver\<close>

lemma sl_crc_loop_eq:
  "n + k \<le> length d \<Longrightarrow> sl_crc_loop k n d c = Some (c XOR xor_all (take k (drop n d)))"
proof (induction k arbitrary: n c)
  case 0
  then show ?case by simp
next
  case (Suc k)
  then have n: "n < length d" by simp
  then have "drop n d = d ! n # drop (Suc n) d" by (simp add: Cons_nth_drop_Suc)
  then show ?case using Suc n by (simp add: peek_def word_bw_assocs(3))
qed

lemma sl_crc_loop_None: "length d < n + k \<Longrightarrow> n \<le> length d \<Longrightarrow> sl_crc_loop k n d c = None"
  by (induction k arbitrary: n c) (auto simp: peek_def not_less split: option.splits)

lemma ucast_low_byte: "(ucast ((x::u16) AND 0xff) :: u8) = ucast x"
  by (simp only: mask8_255, rule bit_word_eqI) (auto simp: bit_simps)

lemma ucast_low_byte32: "(ucast ((x::u32) AND 0xff) :: u8) = ucast x"
  by (simp only: mask8_255, rule bit_word_eqI) (auto simp: bit_simps)

lemma u8SL_CalculateCRC_eq:
  assumes "unat len \<le> length d"
  shows "u8SL_CalculateCRC typ len d = Some (ucast typ XOR ucast (drop_bit 8 typ) XOR ucast len XOR
           ucast (drop_bit 8 len) XOR xor_all (take (unat len) d))"
  using assms by (simp add: u8SL_CalculateCRC_def Let_def sl_crc_loop_eq ucast_low_byte xor.assoc)

lemma u8SL_CalculateCRC_fault: "length d < unat len \<Longrightarrow> u8SL_CalculateCRC typ len d = None"
  by (simp add: u8SL_CalculateCRC_def Let_def sl_crc_loop_None)

lemma sl_escape_cases:
  obtains (esc) "b < 0x10" "sl_escape b = [SL_ESC_CHAR, b XOR 0x10]"
  | (plain) "\<not> b < 0x10" "sl_escape b = [b]"
  by (auto simp: sl_escape_def)

lemma sl_stuff_Nil [simp]: "sl_stuff [] = []"
  and sl_stuff_Cons [simp]: "sl_stuff (b # bs) = sl_escape b @ sl_stuff bs"
  and sl_stuff_append [simp]: "sl_stuff (bs @ cs) = sl_stuff bs @ sl_stuff cs"
  by (simp_all add: sl_stuff_def)

lemma length_sl_escape_pos: "0 < length (sl_escape b)"
  by (simp add: sl_escape_def)

lemma small_byte_xor: "(b::u8) < 0x10 \<Longrightarrow> 0x10 \<le> b XOR 0x10"
proof -
  assume "b < 0x10"
  then have "b = of_nat (unat b)" and "unat b < 16"
    by (simp_all add: word_less_nat_alt)
  moreover have "\<forall>n<16. (0x10::u8) \<le> of_nat n XOR 0x10" by code_simp
  ultimately show ?thesis by metis
qed

lemma not_control: "(0x10::u8) \<le> b \<Longrightarrow> b \<noteq> SL_START_CHAR \<and> b \<noteq> SL_ESC_CHAR \<and> b \<noteq> SL_END_CHAR"
  by (auto simp: c_eval word_le_nat_alt)

lemma sl_byte_plain: "\<not> (b::u8) < 0x10 \<Longrightarrow> \<not> bInEsc s \<Longrightarrow> sl_byte b s m = sl_rx_byte b s m"
  using not_control[of b] by (simp add: sl_byte_def not_less)

lemma sl_byte_escaped:
  "(b::u8) < 0x10 \<Longrightarrow> bInEsc s \<Longrightarrow> sl_byte (b XOR 0x10) s m = sl_rx_byte b (s\<lparr>bInEsc := False\<rparr>) m"
  using not_control[OF small_byte_xor, of b] by (simp add: sl_byte_def)

lemma sl_byte_esc: "sl_byte SL_ESC_CHAR s m = (SL_CONT, s\<lparr>bInEsc := True\<rparr>, m)"
  by (simp add: sl_byte_def c_eval)

text \<open>The loop, indexed by a natural number below 256.\<close>

lemma sl_read_loop_nat:
  assumes "j < 256"
  shows "sl_read_loop (Suc fuel) L (of_nat j) s m =
     (if j < unat L
      then (case peek (pu8Message m) j of
              None \<Rightarrow> Some (SL_FAULT, s, m)
            | Some u8Data \<Rightarrow>
                (case sl_byte u8Data s m of
                   (SL_CONT, s', m') \<Rightarrow> sl_read_loop fuel L (of_nat (Suc j)) s' m'
                 | r \<Rightarrow> Some r))
      else Some (SL_RET False, s, m))"
proof -
  have "unat (of_nat j :: u8) = j" using assms by simp
  moreover have "(of_nat j :: u8) + 1 = of_nat (Suc j)" by simp
  ultimately show ?thesis by (simp only: sl_read_loop.simps)
qed

text \<open>One stuffed byte of the frame is one step of the inner switch on the byte itself.\<close>

lemma sl_read_escaped:
  assumes d: "drop j (pu8Message m) = sl_escape b @ rest"
    and j: "j + length (sl_escape b) \<le> unat L" "j + length (sl_escape b) \<le> 256"
    and e: "\<not> bInEsc s"
  shows "sl_read_loop (length (sl_escape b) + fuel) L (of_nat j) s m =
     (case sl_rx_byte b s m of
        (SL_CONT, s', m') \<Rightarrow> sl_read_loop fuel L (of_nat (j + length (sl_escape b))) s' m'
      | r \<Rightarrow> Some r)"
proof (cases rule: sl_escape_cases[of b])
  case esc
  from d esc have "drop j (pu8Message m) = SL_ESC_CHAR # (b XOR 0x10) # rest" by simp
  then have p: "peek (pu8Message m) j = Some SL_ESC_CHAR"
    "peek (pu8Message m) (Suc j) = Some (b XOR 0x10)"
    by (auto dest: drop_Cons_peek)
  have s: "s\<lparr>bInEsc := True, bInEsc := False\<rparr> = s" using e by simp
  from esc j have "j < 256" "Suc j < 256" "Suc j < unat L" by simp_all
  then show ?thesis
    using esc p s sl_byte_escaped[of b "s\<lparr>bInEsc := True\<rparr>" m]
    by (simp add: sl_read_loop_nat sl_byte_esc del: of_nat_Suc sl_rx_byte.simps sl_read_loop.simps
        split: prod.splits sl_outcome.splits)
next
  case plain
  from d plain have p: "peek (pu8Message m) j = Some b" by (auto dest: drop_Cons_peek)
  from plain j have "j < 256" "j < unat L" by simp_all
  then show ?thesis
    using plain p e
    by (simp add: sl_read_loop_nat sl_byte_plain del: of_nat_Suc sl_rx_byte.simps sl_read_loop.simps
        split: prod.splits sl_outcome.splits)
qed

text \<open>The payload phase: the bytes read are written to the front of the buffer, always behind the
  read index, so the unread part of the frame stays intact.\<close>

lemma sl_read_data:
  assumes "drop j (pu8Message m) = sl_stuff ds @ rest" "k \<le> j"
    and "j + length (sl_stuff ds) \<le> unat L" "j + length (sl_stuff ds) \<le> 256"
    and "k + length ds = unat (pu16Length m)" "u16Bytes s = of_nat k"
    and "eRxState s = E_STATE_RX_WAIT_DATA" "\<not> bInEsc s"
  shows "\<exists>buf. sl_read_loop (length (sl_stuff ds) + fuel) L (of_nat j) s m =
             sl_read_loop fuel L (of_nat (j + length (sl_stuff ds)))
               (s\<lparr>u16Bytes := pu16Length m\<rparr>) (m\<lparr>pu8Message := buf\<rparr>)
           \<and> length buf = length (pu8Message m)
           \<and> drop (j + length (sl_stuff ds)) buf = rest
           \<and> take (unat (pu16Length m)) buf = take k (pu8Message m) @ ds"
  using assms
proof (induction ds arbitrary: j k s m)
  case Nil
  then have "s\<lparr>u16Bytes := pu16Length m\<rparr> = s" by (cases s) simp
  then show ?case using Nil by (intro exI[of _ "pu8Message m"]) (simp only: sl_stuff_Nil, simp)
next
  case (Cons d ds)
  let ?msg = "pu8Message m"
  let ?n = "length (sl_escape d)"
  let ?s = "s\<lparr>u16Bytes := u16Bytes s + 1\<rparr>" and ?m = "m\<lparr>pu8Message := ?msg[k := d]\<rparr>"
  have n: "0 < ?n" by (rule length_sl_escape_pos)
  have jl: "j < length ?msg" using Cons.prems(1) n
    by (metis append_is_Nil_conv drop_all leI length_greater_0_conv sl_stuff_Cons)
  have k: "k < unat (pu16Length m)" "k < 65536" "k < length ?msg"
    using Cons.prems(2,5) jl unsigned_less[of "pu16Length m", where 'a = nat] by simp_all
  then have "u16Bytes s < pu16Length m" "unat (u16Bytes s) = k"
    using Cons.prems(6) by (simp_all add: word_less_nat_alt)
  then have rx: "sl_rx_byte d s m = (SL_CONT, ?s, ?m)"
    using k Cons.prems(7) by (simp add: poke_def)
  have step: "sl_read_loop (length (sl_stuff (d # ds)) + fuel) L (of_nat j) s m =
        sl_read_loop (length (sl_stuff ds) + fuel) L (of_nat (j + ?n)) ?s ?m"
    using sl_read_escaped[of j m d "sl_stuff ds @ rest" L s "length (sl_stuff ds) + fuel"] Cons.prems rx
    by (simp add: add.assoc)
  have dr: "drop (j + ?n) (pu8Message ?m) = sl_stuff ds @ rest"
  proof -
    have "drop (j + ?n) ?msg = drop ?n (drop j ?msg)" by (simp add: add.commute)
    then have "drop (j + ?n) ?msg = sl_stuff ds @ rest" using Cons.prems(1) by simp
    moreover have "k < j + ?n" using Cons.prems(2) n by linarith
    ultimately show ?thesis by (simp add: drop_update_cancel)
  qed
  have kj: "Suc k \<le> j + ?n" using Cons.prems(2) n by linarith
  have tk: "take (Suc k) (pu8Message ?m) = take k ?msg @ [d]" using k by (simp add: take_Suc_poke)
  have "\<exists>buf. sl_read_loop (length (sl_stuff ds) + fuel) L (of_nat (j + ?n)) ?s ?m =
      sl_read_loop fuel L (of_nat (j + ?n + length (sl_stuff ds))) (?s\<lparr>u16Bytes := pu16Length ?m\<rparr>)
        (?m\<lparr>pu8Message := buf\<rparr>)
      \<and> length buf = length (pu8Message ?m) \<and> drop (j + ?n + length (sl_stuff ds)) buf = rest
      \<and> take (unat (pu16Length ?m)) buf = take (Suc k) (pu8Message ?m) @ ds"
    by (rule Cons.IH[OF dr kj]) (use Cons.prems in simp_all)
  then show ?case using step tk by (simp add: add.assoc)
qed

lemma u16_from_bytes: "push_bit 8 (ucast (ucast (drop_bit 8 x) :: u8)) + ucast (ucast x :: u8) = (x::u16)"
proof -
  have "(ucast (ucast x :: u8) :: u16) = take_bit 8 x"
    by (rule bit_word_eqI) (auto simp: bit_simps)
  moreover have "(ucast (ucast (drop_bit 8 x) :: u8) :: u16) = drop_bit 8 x"
    by (rule bit_word_eqI) (auto simp: bit_simps dest: bit_imp_le_length)
  ultimately show ?thesis by (simp add: bits_ident)
qed

lemma sl_read_byte:
  assumes "drop j (pu8Message m) = sl_escape b @ rest"
    and "j + length (sl_escape b) \<le> unat L" "j + length (sl_escape b) \<le> 256"
    and "\<not> bInEsc s" "sl_rx_byte b s m = (SL_CONT, s', m')"
  shows "sl_read_loop (length (sl_escape b) + fuel) L (of_nat j) s m =
         sl_read_loop fuel L (of_nat (j + length (sl_escape b))) s' m'"
  using sl_read_escaped[OF assms(1-4)] assms(5) by simp

text \<open>The header phase: the five header bytes after a start character.\<close>

lemma sl_read_header:
  assumes d: "drop j (pu8Message m) = sl_stuff (sl_header typ len crc) @ rest"
    and "j + length (sl_stuff (sl_header typ len crc)) \<le> unat L"
      "j + length (sl_stuff (sl_header typ len crc)) \<le> 256"
    and "\<not> bInEsc s" "eRxState s = E_STATE_RX_WAIT_TYPEMSB" "len \<le> RX_MAX_LENGTH"
  shows "sl_read_loop (length (sl_stuff (sl_header typ len crc)) + fuel) L (of_nat j) s m =
         sl_read_loop fuel L (of_nat (j + length (sl_stuff (sl_header typ len crc))))
           (s\<lparr>u8CRC := crc, eRxState := E_STATE_RX_WAIT_DATA\<rparr>) (m\<lparr>pu16Type := typ, pu16Length := len\<rparr>)"
proof -
  let ?t1 = "ucast (drop_bit 8 typ) :: u8" and ?t0 = "ucast typ :: u8"
  let ?l1 = "ucast (drop_bit 8 len) :: u8" and ?l0 = "ucast len :: u8"
  let ?a = "length (sl_escape ?t1)" and ?b = "length (sl_escape ?t0)"
  let ?c = "length (sl_escape ?l1)" and ?d = "length (sl_escape ?l0)" and ?e = "length (sl_escape crc)"
  have st: "sl_stuff (sl_header typ len crc) =
      sl_escape ?t1 @ sl_escape ?t0 @ sl_escape ?l1 @ sl_escape ?l0 @ sl_escape crc"
    by (simp add: sl_header_def)
  have dr: "drop (j + n) (pu8Message m) = drop n (sl_stuff (sl_header typ len crc) @ rest)" for n
    using d by (metis add.commute drop_drop)
  note len = assms(2,3)[unfolded st, simplified]
  let ?m1 = "m\<lparr>pu16Type := push_bit 8 (ucast ?t1)\<rparr>"
  let ?m2 = "?m1\<lparr>pu16Type := typ\<rparr>"
  let ?m3 = "?m2\<lparr>pu16Length := push_bit 8 (ucast ?l1)\<rparr>"
  have 1: "sl_read_loop (?a + (?b + (?c + (?d + (?e + fuel))))) L (of_nat j) s m =
    sl_read_loop (?b + (?c + (?d + (?e + fuel)))) L (of_nat (j + ?a))
      (s\<lparr>eRxState := E_STATE_RX_WAIT_TYPELSB\<rparr>) ?m1"
    using assms(4,5) len d by (intro sl_read_byte) (simp_all add: st)
  have 2: "sl_read_loop (?b + (?c + (?d + (?e + fuel)))) L (of_nat (j + ?a))
      (s\<lparr>eRxState := E_STATE_RX_WAIT_TYPELSB\<rparr>) ?m1 =
    sl_read_loop (?c + (?d + (?e + fuel))) L (of_nat (j + ?a + ?b))
      (s\<lparr>eRxState := E_STATE_RX_WAIT_LENMSB\<rparr>) ?m2"
    using assms(4) len dr[of ?a] by (intro sl_read_byte) (simp_all add: st u16_from_bytes)
  have 3: "sl_read_loop (?c + (?d + (?e + fuel))) L (of_nat (j + ?a + ?b))
      (s\<lparr>eRxState := E_STATE_RX_WAIT_LENMSB\<rparr>) ?m2 =
    sl_read_loop (?d + (?e + fuel)) L (of_nat (j + ?a + ?b + ?c))
      (s\<lparr>eRxState := E_STATE_RX_WAIT_LENLSB\<rparr>) ?m3"
    using assms(4) len dr[of "?a + ?b"] by (intro sl_read_byte) (simp_all add: st add.assoc)
  have 4: "sl_read_loop (?d + (?e + fuel)) L (of_nat (j + ?a + ?b + ?c))
      (s\<lparr>eRxState := E_STATE_RX_WAIT_LENLSB\<rparr>) ?m3 =
    sl_read_loop (?e + fuel) L (of_nat (j + ?a + ?b + ?c + ?d))
      (s\<lparr>eRxState := E_STATE_RX_WAIT_CRC\<rparr>) (?m3\<lparr>pu16Length := len\<rparr>)"
    using assms(4,6) len dr[of "?a + ?b + ?c"]
    by (intro sl_read_byte) (simp_all add: st add.assoc u16_from_bytes Let_def not_less[symmetric])
  have 5: "sl_read_loop (?e + fuel) L (of_nat (j + ?a + ?b + ?c + ?d))
      (s\<lparr>eRxState := E_STATE_RX_WAIT_CRC\<rparr>) (?m3\<lparr>pu16Length := len\<rparr>) =
    sl_read_loop fuel L (of_nat (j + ?a + ?b + ?c + ?d + ?e))
      (s\<lparr>u8CRC := crc, eRxState := E_STATE_RX_WAIT_DATA\<rparr>) (m\<lparr>pu16Type := typ, pu16Length := len\<rparr>)"
    using assms(4) len dr[of "?a + ?b + ?c + ?d"] by (intro sl_read_byte) (simp_all add: st add.assoc)
  show ?thesis
    using 1 2 3 4 5 by (simp only: st length_append add.assoc)
qed

section \<open>Round trip\<close>

lemma sl_read_frame:
  fixes bs :: "u8 list"
  assumes len: "length bs \<le> 256"
    and L: "length (sl_frame typ bs) \<le> unat L" "length (sl_frame typ bs) \<le> 256"
    and msg: "pu8Message m = sl_frame typ bs @ rest"
    and fuel: "length (sl_frame typ bs) \<le> fuel"
  shows "\<exists>buf s'. eSL_ReadMessage fuel L s m =
           Some (SL_RET True, s', \<lparr>pu16Type = typ, pu16Length = of_nat (length bs), pu8Message = buf\<rparr>)
         \<and> take (length bs) buf = bs \<and> length buf = length (pu8Message m)
         \<and> eRxState s' = E_STATE_RX_WAIT_START"
proof -
  let ?len = "of_nat (length bs) :: u16"
  let ?crc = "sl_checksum typ bs" and ?h = "sl_stuff (sl_header typ ?len (sl_checksum typ bs))"
  let ?d = "sl_stuff bs"
  have fr: "sl_frame typ bs = SL_START_CHAR # ?h @ ?d @ [SL_END_CHAR]"
    by (simp add: sl_frame_def sl_wire_def)
  obtain f where f: "fuel = Suc (length ?h + (length ?d + Suc f))"
    using fuel by (metis add_Suc_right fr le_Suc_ex length_Cons length_append list.size(3)
        add.assoc add_Suc)
  have ul: "unat ?len = length bs" using len by simp
  then have lenle: "?len \<le> RX_MAX_LENGTH" using len by (simp add: word_le_nat_alt RX_MAX_LENGTH_def)
  let ?s1 = "s\<lparr>u16Bytes := 0, bInEsc := False, eRxState := E_STATE_RX_WAIT_TYPEMSB\<rparr>"
  let ?s2 = "?s1\<lparr>u8CRC := ?crc, eRxState := E_STATE_RX_WAIT_DATA\<rparr>"
  let ?m2 = "m\<lparr>pu16Type := typ, pu16Length := ?len\<rparr>"
  have p0: "peek (pu8Message m) 0 = Some SL_START_CHAR" and d0: "drop 1 (pu8Message m) = ?h @ ?d @ [SL_END_CHAR] @ rest"
    using msg fr by (simp_all add: peek_def)
  have "eSL_ReadMessage fuel L s m = sl_read_loop (length ?h + (length ?d + Suc f)) L (of_nat 1) ?s1 m"
    using L fr p0 sl_read_loop_nat[of 0 "length ?h + (length ?d + Suc f)" L s m] f
    by (simp add: eSL_ReadMessage_def sl_byte_def c_eval)
  also have "\<dots> = sl_read_loop (length ?d + Suc f) L (of_nat (1 + length ?h)) ?s2 ?m2"
    using L fr lenle d0 by (intro sl_read_header) simp_all
  finally have 1: "eSL_ReadMessage fuel L s m = \<dots>" .
  have d1: "drop (1 + length ?h) (pu8Message ?m2) = ?d @ [SL_END_CHAR] @ rest"
    using msg fr by simp
  obtain buf where b: "sl_read_loop (length ?d + Suc f) L (of_nat (1 + length ?h)) ?s2 ?m2 =
      sl_read_loop (Suc f) L (of_nat (1 + length ?h + length ?d)) (?s2\<lparr>u16Bytes := ?len\<rparr>) (?m2\<lparr>pu8Message := buf\<rparr>)"
    "length buf = length (pu8Message m)" "drop (1 + length ?h + length ?d) buf = [SL_END_CHAR] @ rest"
    "take (length bs) buf = bs"
    using sl_read_data[OF d1, of 0 L ?s2 "Suc f"] L fr ul by auto
  let ?j = "1 + length ?h + length ?d"
  have pe: "peek buf ?j = Some SL_END_CHAR" using b(3) drop_Cons_peek by fastforce
  have "length bs \<le> length buf" using b(4) by (metis length_take min.cobounded1)
  then have crc: "u8SL_CalculateCRC typ ?len buf = Some ?crc"
    using ul b(4) by (simp add: u8SL_CalculateCRC_eq sl_checksum_def Let_def)
  have "sl_byte SL_END_CHAR (?s2\<lparr>u16Bytes := ?len\<rparr>) (?m2\<lparr>pu8Message := buf\<rparr>) =
      (SL_RET True, ?s2\<lparr>u16Bytes := ?len, eRxState := E_STATE_RX_WAIT_START\<rparr>, ?m2\<lparr>pu8Message := buf\<rparr>)"
    using crc lenle by (simp add: sl_byte_def SL_START_CHAR_def SL_ESC_CHAR_def SL_END_CHAR_def not_less[symmetric])
  then have "sl_read_loop (Suc f) L (of_nat ?j) (?s2\<lparr>u16Bytes := ?len\<rparr>) (?m2\<lparr>pu8Message := buf\<rparr>) =
      Some (SL_RET True, ?s2\<lparr>u16Bytes := ?len, eRxState := E_STATE_RX_WAIT_START\<rparr>, ?m2\<lparr>pu8Message := buf\<rparr>)"
    using L fr pe by (subst sl_read_loop_nat) simp_all
  then show ?thesis using 1 b by (intro exI[of _ buf]) (auto simp del: sl_read_loop.simps)
qed

section \<open>Lemmas on the sender\<close>

lemma printf_02x_esc: "printf_02x SL_ESC_CHAR = ''02 ''"
  by code_simp

lemma lm_write_loop_eq:
  "n + k \<le> length d \<Longrightarrow> \<exists>buf. lm_write_loop k n d out =
     Some (buf, out @ concat (map printf_02x (sl_stuff (take k (drop n d)))))"
proof (induction k arbitrary: n d out)
  case 0
  then show ?case by simp
next
  case (Suc k)
  then have n: "n < length d" by simp
  then have dn: "drop n d = d ! n # drop (Suc n) d" by (simp add: Cons_nth_drop_Suc)
  let ?d = "d[n := d ! n XOR 0x10]"
  have upd: "drop (Suc n) ?d = drop (Suc n) d" by (simp add: drop_update_cancel)
  show ?case
  proof (cases "d ! n < 0x10")
    case True
    with Suc.IH[of "Suc n" ?d "out @ ''02 '' @ printf_02x (d ! n XOR 0x10)"] Suc.prems n upd
    show ?thesis by (simp add: peek_def dn sl_escape_def printf_02x_esc)
  next
    case False
    with Suc.IH[of "Suc n" d "out @ printf_02x (d ! n)"] Suc.prems n
    show ?thesis by (simp add: peek_def dn sl_escape_def)
  qed
qed

lemma LM_CRC_ucast:
  assumes "unat len \<le> length d"
  shows "LM_u8SL_CalculateCRC (ucast (typ::u16)) (ucast (len::u16)) d = u8SL_CalculateCRC typ len d"
proof -
  have lo: "(ucast ((ucast x :: u32) AND 255) :: u8) = ucast (x::u16)" for x
    by (simp only: mask8_255, rule bit_word_eqI) (auto simp: bit_simps)
  have hi: "(ucast (drop_bit 8 (ucast x :: u32) AND 255) :: u8) = ucast (drop_bit 8 (x::u16))" for x
    by (simp only: mask8_255, rule bit_word_eqI) (auto simp: bit_simps)
  have "unat len < 2 ^ 32" using unsigned_less[of len, where 'a = nat] by simp
  then have "unat (ucast len :: u32) = unat len" by (simp add: unsigned_ucast_eq take_bit_nat_eq_self)
  then show ?thesis
    using assms by (simp add: LM_u8SL_CalculateCRC_def u8SL_CalculateCRC_def Let_def sl_crc_loop_eq
        ucast_low_byte lo hi xor.assoc xor.commute xor.left_commute)
qed

lemma LM_CRC_eq:
  assumes "length bs < 256"
  shows "LM_u8SL_CalculateCRC (ucast (typ::u16)) (of_nat (length bs)) (bs @ pad) = Some (sl_checksum typ bs)"
proof -
  have u: "unat (of_nat (length bs) :: u16) = length bs" using assms by simp
  then have "(of_nat (length bs) :: u32) = ucast (of_nat (length bs) :: u16)"
    by (metis of_nat_unat)
  then show ?thesis
    using u LM_CRC_ucast[of "of_nat (length bs)" "bs @ pad" "typ"]
      u8SL_CalculateCRC_eq[of "of_nat (length bs)" "bs @ pad" "typ"]
    by (simp add: sl_checksum_def Let_def)
qed

lemma wire_text_wire:
  "wire_text (sl_wire bs) = ''01 '' @ concat (map printf_02x (sl_stuff bs)) @ ''03'' @ [CHR 0x0A]"
proof -
  have "printf_02x SL_START_CHAR = ''01 ''" "butlast (printf_02x SL_END_CHAR) = ''03''"
    by code_simp+
  then show ?thesis by (simp add: wire_text_def sl_wire_def butlast_append)
qed

lemma length_sl_stuff: "length (sl_stuff bs) \<le> 2 * length bs"
  by (induction bs) (auto simp: sl_escape_def)

lemma length_sl_frame: "length (sl_frame typ bs) \<le> 2 * length bs + 12"
  using length_sl_stuff[of "sl_header typ (of_nat (length bs)) (sl_checksum typ bs) @ bs"]
  by (simp add: sl_frame_def sl_wire_def sl_header_def)

lemma eSL_WriteMessage_frame:
  assumes len: "length bs \<le> 95"
  shows "\<exists>buf. eSL_WriteMessage (ucast (typ::u16)) (of_nat (length bs))
           (sl_header typ (of_nat (length bs)) x @ bs @ pad) (of_nat (5 + length bs)) =
         Some (buf, lm_banner @ wire_text (sl_frame typ bs))"
proof -
  let ?h = "sl_header typ (of_nat (length bs))"
  let ?d = "?h (sl_checksum typ bs) @ bs @ pad"
  have upd: "(?h x @ bs @ pad)[4 := sl_checksum typ bs] = ?d"
    by (simp add: sl_header_def)
  have l: "length (?h c) = 5" for c by (simp add: sl_header_def)
  have u: "unat (of_nat (5 + length bs) :: u8) = 5 + length bs" using len by (subst unat_of_nat_u8) simp_all
  obtain buf where b: "lm_write_loop (5 + length bs) 0 ?d (lm_banner @ ''01 '') =
     Some (buf, (lm_banner @ ''01 '') @ concat (map printf_02x (sl_stuff (take (5 + length bs) (drop 0 ?d)))))"
    using lm_write_loop_eq[of 0 "5 + length bs" ?d] l by fastforce
  have t: "take (5 + length bs) (drop 0 ?d) = ?h (sl_checksum typ bs) @ bs" using l by simp
  have dd: "drop 5 (?h x @ bs @ pad) = bs @ pad" using l by simp
  show ?thesis
    using LM_CRC_eq[of bs "typ" pad] len l u b t dd upd
    by (simp add: eSL_WriteMessage_def sl_frame_def wire_text_wire del: of_nat_add)
qed

section \<open>Safety and termination of the receiver\<close>

text \<open>The state in which a payload byte may be stored implies that the announced length passed the
  \<^verbatim>\<open>RX_MAX_LENGTH\<close> check.\<close>

definition sl_inv :: "sl_static \<Rightarrow> sl_mem \<Rightarrow> bool" where
  [inv_simps]: "sl_inv s m \<longleftrightarrow>
     (eRxState s \<in> {E_STATE_RX_WAIT_CRC, E_STATE_RX_WAIT_DATA} \<longrightarrow> pu16Length m \<le> RX_MAX_LENGTH)"

lemma sl_rx_byte_safe:
  assumes "sl_inv s m" "256 \<le> length (pu8Message m)"
  shows "\<exists>s' m'. sl_rx_byte b s m = (SL_CONT, s', m') \<and> sl_inv s' m'
           \<and> length (pu8Message m') = length (pu8Message m)"
proof (cases "eRxState s = E_STATE_RX_WAIT_DATA \<and> u16Bytes s < pu16Length m")
  case True
  then have "unat (u16Bytes s) < length (pu8Message m)"
    using assms by (auto simp: inv_simps c_eval word_le_nat_alt word_less_nat_alt)
  then show ?thesis using assms True by (auto simp: poke_def inv_simps)
next
  case False
  then show ?thesis using assms by (cases "eRxState s") (auto simp: inv_simps Let_def)
qed

lemma sl_byte_safe:
  assumes "sl_inv s m" "256 \<le> length (pu8Message m)"
  shows "\<exists>r s' m'. sl_byte b s m = (r, s', m') \<and> r \<noteq> SL_FAULT \<and> sl_inv s' m'
           \<and> length (pu8Message m') = length (pu8Message m)"
proof -
  have "sl_inv (s\<lparr>bInEsc := False\<rparr>) m" using assms by (simp add: inv_simps)
  then have rx: "\<exists>s' m'. sl_rx_byte c t m = (SL_CONT, s', m') \<and> sl_inv s' m'
      \<and> length (pu8Message m') = length (pu8Message m)" if "t = s \<or> t = s\<lparr>bInEsc := False\<rparr>" for c t
    using that assms sl_rx_byte_safe by blast
  have crc: "\<exists>c. u8SL_CalculateCRC t (pu16Length m) (pu8Message m) = Some c"
    if "pu16Length m \<le> RX_MAX_LENGTH" for t
    using that assms(2) by (subst u8SL_CalculateCRC_eq) (auto simp: word_le_nat_alt RX_MAX_LENGTH_def)
  show ?thesis
    using assms rx[of s b] rx[of "s\<lparr>bInEsc := False\<rparr>" "b XOR 0x10"] crc[of "pu16Type m"]
    by (fastforce simp: sl_byte_def inv_simps not_less simp del: sl_rx_byte.simps split: option.splits)
qed

lemma sl_read_loop_safe:
  assumes "sl_inv s m" "256 \<le> length (pu8Message m)"
    and "j \<le> unat L" "unat L \<le> 255" "unat L < j + fuel"
  shows "\<exists>b s' m'. sl_read_loop fuel L (of_nat j) s m = Some (SL_RET b, s', m') \<and> sl_inv s' m'"
  using assms
proof (induction fuel arbitrary: j s m)
  case 0
  then show ?case by simp
next
  case (Suc fuel)
  show ?case
  proof (cases "j < unat L")
    case True
    then have p: "peek (pu8Message m) j = Some (pu8Message m ! j)" using Suc.prems by (simp add: peek_def)
    obtain r s' m' where st: "sl_byte (pu8Message m ! j) s m = (r, s', m')" "r \<noteq> SL_FAULT" "sl_inv s' m'"
      "length (pu8Message m') = length (pu8Message m)"
      using sl_byte_safe[OF Suc.prems(1,2)] by blast
    then show ?thesis
      using Suc.IH[of s' m' "Suc j"] Suc.prems True p
      by (cases r) (auto simp: sl_read_loop_nat simp del: sl_read_loop.simps of_nat_Suc)
  next
    case False
    then show ?thesis using Suc.prems by (subst sl_read_loop_nat) auto
  qed
qed

section \<open>The sender's menu\<close>

lemma lm_find_eq: "lm_find tbl i idx = i + length (takeWhile (\<lambda>e. lm_index e \<noteq> idx) tbl)"
  by (induction tbl arbitrary: i) auto

lemma lm_find_nth:
  "idx \<in> lm_index ` set tbl \<Longrightarrow> lm_find tbl 0 idx < length tbl \<and> lm_index (tbl ! lm_find tbl 0 idx) = idx"
proof -
  assume "idx \<in> lm_index ` set tbl"
  then have "takeWhile (\<lambda>e. lm_index e \<noteq> idx) tbl \<noteq> tbl" by (auto simp: takeWhile_eq_all_conv)
  then have "length (takeWhile (\<lambda>e. lm_index e \<noteq> idx) tbl) < length tbl"
    by (metis length_takeWhile_le le_neq_implies_less takeWhile_eq_take take_all_iff order_refl)
  then show ?thesis using nth_length_takeWhile[of "\<lambda>e. lm_index e \<noteq> idx" tbl] by (simp add: lm_find_eq)
qed

lemma eSL_WriteMessage_Some:
  assumes "length d = 100" "unat len \<le> 95" "unat plen \<le> 100"
  shows "\<exists>buf out. eSL_WriteMessage t len d plen = Some (buf, out)"
proof -
  obtain crc where "LM_u8SL_CalculateCRC t len (drop 5 d) = Some crc"
    using assms by (simp add: LM_u8SL_CalculateCRC_def Let_def sl_crc_loop_eq)
  moreover obtain buf where "lm_write_loop (unat plen) 0 (d[4 := crc]) (lm_banner @ ''01 '') =
      Some (buf, (lm_banner @ ''01 '') @ concat (map printf_02x (sl_stuff (take (unat plen) (drop 0 (d[4 := crc]))))))"
    using lm_write_loop_eq[of 0 "unat plen" "d[4 := crc]" "lm_banner @ ''01 ''"] assms by auto
  ultimately show ?thesis using assms by (simp add: eSL_WriteMessage_def)
qed

text \<open>What \<^verbatim>\<open>main\<close> relies on for every entry of its table.\<close>

definition lm_entry_ok :: "LinkMessage_t \<Rightarrow> bool" where
  [inv_simps]: "lm_entry_ok e \<longleftrightarrow>
     4 \<le> length (lm_message e) \<and> (lm_index e = E_SL_MSG_READ_ATTRIBUTE_REQUEST \<longrightarrow> 12 \<le> length (lm_message e))
   \<and> unat (lm_length e) \<le> length (lm_message e) \<and> unat (lm_length e) \<le> 100
   \<and> unat (push_bit 8 (ucast (lm_message e ! 2)) OR ucast (lm_message e ! 3) :: u32) \<le> 95"

lemma LinkMessage_ok: "e \<in> set LinkMessage \<Longrightarrow> lm_entry_ok e"
  by (auto simp: inv_simps c_eval)

lemma lm_main_round_None:
  "u16Index \<notin> lm_index ` set tbl \<Longrightarrow> lm_main_round tbl u16Index cluster = None"
proof -
  assume "u16Index \<notin> lm_index ` set tbl"
  then have "takeWhile (\<lambda>e. lm_index e \<noteq> u16Index) tbl = tbl" by (force simp: takeWhile_eq_all_conv)
  then have "peek tbl (lm_find tbl 0 u16Index) = None" by (simp only: lm_find_eq peek_def) simp
  then show ?thesis by (simp add: lm_main_round_def)
qed

lemma lm_main_round_Some:
  assumes "u16Index \<in> lm_index ` set tbl" "\<And>e. e \<in> set tbl \<Longrightarrow> lm_entry_ok e"
  shows "lm_main_round tbl u16Index cluster \<noteq> None"
proof -
  let ?i = "lm_find tbl 0 u16Index"
  have i: "?i < length tbl" and e: "lm_index (tbl ! ?i) = u16Index"
    using assms(1) lm_find_nth by blast+
  then have ok: "lm_entry_ok (tbl ! ?i)" using assms(2) by simp
  let ?e = "tbl ! ?i" and ?reads = "E_SL_MSG_READ_ATTRIBUTE_REQUEST = u16Index"
  define e' where "e' = (if ?reads then ?e\<lparr>lm_message := (lm_message ?e)[10 := ucast (drop_bit 8 cluster),
      11 := ucast (cluster AND 0xff)]\<rparr> else ?e)"
  have e': "length (lm_message e') = length (lm_message ?e)" "lm_length e' = lm_length ?e"
    "lm_message e' ! 2 = lm_message ?e ! 2" "lm_message e' ! 3 = lm_message ?e ! 3"
    by (simp_all add: e'_def)
  let ?len = "unat (lm_length e')"
  have c: "\<not> (length (lm_message e') < 4 \<or> ?reads \<and> length (lm_message e') < 12
      \<or> length (lm_message e') < ?len \<or> 100 < ?len)"
    using ok e e' by (auto simp: inv_simps)
  obtain buf out where w: "eSL_WriteMessage (push_bit 8 (ucast (lm_message e' ! 0)) OR ucast (lm_message e' ! 1))
      (push_bit 8 (ucast (lm_message e' ! 2)) OR ucast (lm_message e' ! 3))
      (take ?len (lm_message e') @ replicate (100 - ?len) 0) (lm_length e') = Some (buf, out)"
    using ok e' eSL_WriteMessage_Some[of "take ?len (lm_message e') @ replicate (100 - ?len) 0"]
    by (fastforce simp: inv_simps)
  have "lm_main_round tbl u16Index cluster = Some (tbl[?i := e'], buf, out)"
    unfolding lm_main_round_def Let_def peek_def
    by (simp only: i if_True option.case e'_def[symmetric] c if_False w prod.case)
  then show ?thesis by simp
qed

section \<open>Properties\<close>

text \<open>C2: Round trip of the serial link. Whatever 16-bit type and payload of at most 95 bytes
  the host lays out in its buffer, \<^verbatim>\<open>eSL_WriteMessage\<close> prints exactly the frame of that message, and the
  receiver, started in any state on a buffer that begins with that frame, returns TRUE with the
  same type and length and with the payload decoded at the front of its buffer.\<close>

theorem sl_write_read_roundtrip:
  assumes "length bs \<le> 95" "pu8Message m = sl_frame t bs @ rest"
    and "length (sl_frame t bs) \<le> unat L" "length (sl_frame t bs) \<le> fuel"
  shows "(\<exists>buf. eSL_WriteMessage (ucast t) (of_nat (length bs))
              (sl_header t (of_nat (length bs)) x @ bs @ pad) (of_nat (5 + length bs)) =
            Some (buf, lm_banner @ wire_text (sl_frame t bs)))
       \<and> (\<exists>buf s'. eSL_ReadMessage fuel L s m =
            Some (SL_RET True, s', \<lparr>pu16Type = t, pu16Length = of_nat (length bs), pu8Message = buf\<rparr>)
          \<and> take (length bs) buf = bs \<and> length buf = length (pu8Message m)
          \<and> eRxState s' = E_STATE_RX_WAIT_START)"
  using eSL_WriteMessage_frame[OF assms(1)] sl_read_frame[OF _ assms(3) _ assms(2,4)]
    length_sl_frame[of t bs] assms(1) by simp

theorem sl_write_read_roundtrip_witness:
  "\<exists>buf s'. eSL_ReadMessage 100 15 sl_static_init
      \<lparr>pu16Type = 0, pu16Length = 0, pu8Message = sl_frame 0x49 [0xff, 0xfc, 0x64, 0x00]\<rparr> =
     Some (SL_RET True, s', \<lparr>pu16Type = 0x49, pu16Length = 4, pu8Message = buf\<rparr>)
   \<and> take 4 buf = [0xff, 0xfc, 0x64, 0x00]"
proof -
  have l: "length (sl_frame 0x49 [0xff, 0xfc, 0x64, 0x00]) = 15" by code_simp
  have four: "(4::nat) = Suc (Suc (Suc (Suc 0)))" by simp
  show ?thesis unfolding four
    using sl_write_read_roundtrip[of "[0xff, 0xfc, 0x64, 0x00]" "\<lparr>pu16Type = 0, pu16Length = 0,
        pu8Message = sl_frame 0x49 [0xff, 0xfc, 0x64, 0x00]\<rparr>" "0x49" "[]" "15" "100" "0" "[]" sl_static_init] l
    by auto
qed

text \<open>C18: The receiver is memory safe and returns: on a buffer of at least 256 bytes and at most 255
  bytes to read, from any state in which a stored length has passed the length check (in particular
  the initial one), 256 iterations are enough for it to return a truth value, no access leaves the
  buffer, and the state it leaves behind is again such a state.\<close>

theorem sl_read_safe:
  assumes "sl_inv s m" "256 \<le> length (pu8Message m)" "unat L \<le> 255" "256 \<le> fuel"
  shows "\<exists>b s' m'. eSL_ReadMessage fuel L s m = Some (SL_RET b, s', m') \<and> sl_inv s' m'"
  using sl_read_loop_safe[OF assms(1,2), of 0 L fuel] assms(3,4) by (simp add: eSL_ReadMessage_def)

theorem sl_read_safe_witness:
  "\<exists>b s' m'. eSL_ReadMessage 256 255 sl_static_init
      \<lparr>pu16Type = 0, pu16Length = 0, pu8Message = replicate 256 0x20\<rparr> = Some (SL_RET b, s', m') \<and> sl_inv s' m'"
  by (rule sl_read_safe) (simp_all add: inv_simps sl_static_init_def)


text \<open>C23: The checksum detects every change of a single payload byte: replacing byte \<open>i\<close> of the
  checked range changes the value of \<^verbatim>\<open>u8SL_CalculateCRC\<close> unless the byte stays the same.\<close>

theorem sl_crc_detects:
  assumes "unat len \<le> length d" "i < unat len"
  shows "u8SL_CalculateCRC t len (d[i := b]) = u8SL_CalculateCRC t len d \<longleftrightarrow> b = d ! i"
proof -
  let ?d = "take (unat len) d"
  have "i < length ?d" using assms by simp
  then have "?d = take i ?d @ d ! i # drop (Suc i) ?d" and "?d[i := b] = take i ?d @ b # drop (Suc i) ?d"
    using id_take_nth_drop[of i ?d] upd_conv_take_nth_drop[of i ?d b] assms by simp_all
  then have "xor_all ?d = xor_all (take i ?d) XOR (d ! i XOR xor_all (drop (Suc i) ?d))"
    and "xor_all (?d[i := b]) = xor_all (take i ?d) XOR (b XOR xor_all (drop (Suc i) ?d))"
    by (metis xor_all_Cons xor_all_append)+
  then have "xor_all (?d[i := b]) = xor_all ?d \<longleftrightarrow> b = d ! i"
    by (simp only: word_xor_cancel_left word_xor_cancel_right)
  moreover have "take (unat len) (d[i := b]) = ?d[i := b]" by (simp add: take_update_swap)
  ultimately show ?thesis
    using assms by (simp add: u8SL_CalculateCRC_eq word_xor_cancel_left)
qed

theorem sl_crc_detects_witness:
  "u8SL_CalculateCRC 0x49 4 ([0xff, 0xfc, 0x64, 0x00][2 := 0x65]) \<noteq>
   u8SL_CalculateCRC 0x49 4 [0xff, 0xfc, 0x64, 0x00]"
  using sl_crc_detects[of "4" "[0xff, 0xfc, 0x64, 0x00]" "2" "0x49" "0x65"] by simp

text \<open>The sender's message table announces a wrong payload length in exactly seven entries: there
  the length field (bytes 2 and 3) differs from the number of payload bytes the template holds, so
  the frame sent is not the frame of its own header.\<close>

theorem LinkMessage_bad_lengths:
  "map lm_name (filter (\<lambda>e. push_bit 8 (ucast (lm_message e ! 2)) + ucast (lm_message e ! 3) \<noteq>
                              (of_nat (length (lm_message e) - 5) :: u16)) LinkMessage) =
   [''Store Scene'', ''View Scene'', ''Remove Scene'', ''Recall Scene'', ''WriteAttributeRequest'',
    ''Color Light'', ''ManageLeaveDevice'']"
  by (simp add: c_eval)

text \<open>A menu choice that names no entry of the table makes \<^verbatim>\<open>main\<close> read past the end of the table
  (the model's fault), while every choice that names an entry prints a message.\<close>

theorem lm_main_round_fault_iff:
  "lm_main_round LinkMessage u16Index cluster = None \<longleftrightarrow> u16Index \<notin> lm_index ` set LinkMessage"
  using lm_main_round_None[of u16Index LinkMessage] lm_main_round_Some[of u16Index LinkMessage]
    LinkMessage_ok by blast

end
