(* ===== verification/DlList.thy ===== *)
theory DlList
  imports Prelude "HOL-Library.Monad_Syntax"
begin

text \<open>
  The intrusive doubly linked list of \<^verbatim>\<open>src/simple_config/socket_comm_server/list.h\<close>. A
  \<^verbatim>\<open>struct dl_list\<close> lives at an address; a heap maps the allocated addresses to their nodes. A pointer
  is an address or \<^verbatim>\<open>NULL\<close> (\<open>None\<close>); following \<^verbatim>\<open>NULL\<close> or an address that is not allocated is a fault,
  the result \<open>None\<close> of an operation.

  A circular list with head \<open>head\<close> and members \<open>xs\<close> is described by \<open>dl_ring\<close>; every operation is shown
  to act on that view as the operation on HOL lists it is meant to be.
\<close>

section \<open>Nodes and heaps\<close>

type_synonym addr = nat

record dl_list =
  nxt :: "addr option"
  prv :: "addr option"

type_synonym dl_heap = "addr \<rightharpoonup> dl_list"

definition deref :: "dl_heap \<Rightarrow> addr option \<Rightarrow> dl_list option" where
  "deref h p = Option.bind p h"

definition set_next :: "dl_heap \<Rightarrow> addr option \<Rightarrow> addr option \<Rightarrow> dl_heap option" where
  "set_next h p v = do { a \<leftarrow> p; n \<leftarrow> h a; Some (h(a \<mapsto> n\<lparr>nxt := v\<rparr>)) }"

definition set_prev :: "dl_heap \<Rightarrow> addr option \<Rightarrow> addr option \<Rightarrow> dl_heap option" where
  "set_prev h p v = do { a \<leftarrow> p; n \<leftarrow> h a; Some (h(a \<mapsto> n\<lparr>prv := v\<rparr>)) }"

section \<open>Operations\<close>

definition dl_list_init :: "addr \<Rightarrow> dl_heap \<Rightarrow> dl_heap option" where
  "dl_list_init list h = do {
     h \<leftarrow> set_next h (Some list) (Some list);
     set_prev h (Some list) (Some list) }"

definition dl_list_add :: "addr option \<Rightarrow> addr option \<Rightarrow> dl_heap \<Rightarrow> dl_heap option" where
  "dl_list_add list item h = do {
     l \<leftarrow> deref h list;
     h \<leftarrow> set_next h item (nxt l);
     h \<leftarrow> set_prev h item list;
     l \<leftarrow> deref h list;
     h \<leftarrow> set_prev h (nxt l) item;
     set_next h list item }"

definition dl_list_add_tail :: "addr option \<Rightarrow> addr option \<Rightarrow> dl_heap \<Rightarrow> dl_heap option" where
  "dl_list_add_tail list item h = do {
     l \<leftarrow> deref h list;
     dl_list_add (prv l) item h }"

definition dl_list_del :: "addr option \<Rightarrow> dl_heap \<Rightarrow> dl_heap option" where
  "dl_list_del item h = do {
     i \<leftarrow> deref h item;
     h \<leftarrow> set_prev h (nxt i) (prv i);
     i \<leftarrow> deref h item;
     h \<leftarrow> set_next h (prv i) (nxt i);
     h \<leftarrow> set_next h item None;
     set_prev h item None }"

definition dl_list_empty :: "addr \<Rightarrow> dl_heap \<Rightarrow> bool option" where
  "dl_list_empty list h = do { l \<leftarrow> deref h (Some list); Some (nxt l = Some list) }"

text \<open>The counting loop of \<^verbatim>\<open>dl_list_len\<close>, from \<^verbatim>\<open>item\<close> on: it ends only on a closed list, so it takes
  fuel and returns \<open>None\<close> both on a fault and when the fuel runs out.\<close>

fun dl_len_loop :: "nat \<Rightarrow> addr \<Rightarrow> addr option \<Rightarrow> dl_heap \<Rightarrow> u32 \<Rightarrow> u32 option" where
  "dl_len_loop 0 list item h count = None"
| "dl_len_loop (Suc fuel) list item h count =
     (if item = Some list then Some count
      else do { n \<leftarrow> deref h item; dl_len_loop fuel list (nxt n) h (count + 1) })"

definition dl_list_len :: "nat \<Rightarrow> addr \<Rightarrow> dl_heap \<Rightarrow> u32 option" where
  "dl_list_len fuel list h = do { l \<leftarrow> deref h (Some list); dl_len_loop fuel list (nxt l) h 0 }"

text \<open>\<^verbatim>\<open>dl_list_for_each\<close> with a body that collects the members it visits.\<close>

fun dl_each_loop :: "nat \<Rightarrow> addr \<Rightarrow> addr option \<Rightarrow> dl_heap \<Rightarrow> addr list option" where
  "dl_each_loop 0 list item h = None"
| "dl_each_loop (Suc fuel) list item h =
     (if item = Some list then Some []
      else do { a \<leftarrow> item; n \<leftarrow> h a; xs \<leftarrow> dl_each_loop fuel list (nxt n) h; Some (a # xs) })"

definition dl_list_for_each :: "nat \<Rightarrow> addr \<Rightarrow> dl_heap \<Rightarrow> addr list option" where
  "dl_list_for_each fuel list h = do { l \<leftarrow> deref h (Some list); dl_each_loop fuel list (nxt l) h }"

definition dl_list_first :: "addr \<Rightarrow> dl_heap \<Rightarrow> addr option option" where
  "dl_list_first list h = do {
     e \<leftarrow> dl_list_empty list h;
     if e then Some None else do { l \<leftarrow> deref h (Some list); Some (nxt l) } }"

definition dl_list_last :: "addr \<Rightarrow> dl_heap \<Rightarrow> addr option option" where
  "dl_list_last list h = do {
     e \<leftarrow> dl_list_empty list h;
     if e then Some None else do { l \<leftarrow> deref h (Some list); Some (prv l) } }"

section \<open>Links along a list of addresses\<close>

fun links :: "dl_heap \<Rightarrow> addr list \<Rightarrow> bool" where
  "links h [] = True"
| "links h [x] = True"
| "links h (x # y # zs) \<longleftrightarrow>
     (\<exists>n. h x = Some n \<and> nxt n = Some y) \<and> (\<exists>n. h y = Some n \<and> prv n = Some x) \<and> links h (y # zs)"

definition dl_ring :: "dl_heap \<Rightarrow> addr \<Rightarrow> addr list \<Rightarrow> bool" where
  [inv_simps]: "dl_ring h head xs \<longleftrightarrow>
     distinct (head # xs) \<and> head \<in> dom h \<and> links h (head # xs @ [head])"

lemma links_split: "links h (us @ p # vs) \<longleftrightarrow> links h (us @ [p]) \<and> links h (p # vs)"
proof (induction us)
  case Nil
  then show ?case by simp
next
  case (Cons u us)
  then show ?case by (cases us) auto
qed

text \<open>The links depend only on the next pointers of all but the last address and on the previous
  pointers of all but the first.\<close>

lemma links_cong:
  assumes "\<And>a. a \<in> set (butlast L) \<Longrightarrow> map_option nxt (h' a) = map_option nxt (h a)"
    and "\<And>a. a \<in> set (tl L) \<Longrightarrow> map_option prv (h' a) = map_option prv (h a)"
  shows "links h' L \<longleftrightarrow> links h L"
proof -
  have mp: "(\<exists>n. k x = Some n \<and> f n = y) \<longleftrightarrow> map_option f (k x) = Some y"
    for k :: dl_heap and f :: "dl_list \<Rightarrow> addr option" and x y by auto
  show ?thesis
    using assms
  proof (induction h L rule: links.induct[case_names 1 2 3])
    case (3 h x y zs)
    then show ?case by (simp add: mp del: map_option_eq_Some)
  qed simp_all
qed

lemma links_insert:
  assumes l: "links h (us @ p # q # vs)"
    and d: "distinct (us @ [p])" "distinct (q # vs)" "p \<notin> set (butlast (q # vs))" "q \<notin> set (tl (us @ [p]))"
    and i: "i \<notin> set (us @ p # q # vs)"
    and n: "map_option nxt \<circ> h' = (map_option nxt \<circ> h)(i := Some (Some q), p := Some (Some i))"
    and v: "map_option prv \<circ> h' = (map_option prv \<circ> h)(i := Some (Some p), q := Some (Some i))"
  shows "links h' (us @ p # i # q # vs)"
proof -
  have n': "map_option nxt (h' a) = (if a = p then Some (Some i) else if a = i then Some (Some q) else map_option nxt (h a))" for a
    using fun_cong[OF n, of a] by (simp add: fun_upd_def split: if_splits)
  have v': "map_option prv (h' a) = (if a = q then Some (Some i) else if a = i then Some (Some p) else map_option prv (h a))" for a
    using fun_cong[OF v, of a] by (simp add: fun_upd_def split: if_splits)
  have "links h (us @ [p])" "links h (q # vs)"
    using l links_split[of h us p "q # vs"] by auto
  moreover have "links h' (us @ [p]) \<longleftrightarrow> links h (us @ [p])"
    using d i by (intro links_cong) (auto simp: n' v' dest: in_set_butlastD list.set_sel(2)[rotated])
  moreover have "links h' (q # vs) \<longleftrightarrow> links h (q # vs)"
    using d i in_set_butlastD[of i "q # vs"] by (intro links_cong) (auto simp: n' v' simp del: butlast.simps)
  moreover have "links h' [p, i, q]"
    using i n'[of p] n'[of i] v'[of i] v'[of q] by (auto simp: map_option_eq_Some)
  ultimately show ?thesis
    using links_split[of h' us p "i # q # vs"] links_split[of h' "[p, i]" q vs] by simp
qed

lemma links_delete:
  assumes l: "links h (us @ p # x # q # vs)"
    and d: "distinct (us @ [p])" "distinct (q # vs)" "p \<notin> set (butlast (q # vs))" "q \<notin> set (tl (us @ [p]))"
    and x: "x \<notin> set (us @ p # q # vs)"
    and n: "map_option nxt \<circ> h' = (map_option nxt \<circ> h)(p := Some (Some q), x := Some None)"
    and v: "map_option prv \<circ> h' = (map_option prv \<circ> h)(q := Some (Some p), x := Some None)"
  shows "links h' (us @ p # q # vs)"
proof -
  have n': "map_option nxt (h' a) = (if a = x then Some None else if a = p then Some (Some q) else map_option nxt (h a))" for a
    using fun_cong[OF n, of a] by (simp add: fun_upd_def split: if_splits)
  have v': "map_option prv (h' a) = (if a = x then Some None else if a = q then Some (Some p) else map_option prv (h a))" for a
    using fun_cong[OF v, of a] by (simp add: fun_upd_def split: if_splits)
  have "links h (us @ [p])" "links h (q # vs)"
    using l links_split[of h us p "x # q # vs"] by auto
  moreover have "links h' (us @ [p]) \<longleftrightarrow> links h (us @ [p])"
    using d x by (intro links_cong) (auto simp: n' v' dest: in_set_butlastD list.set_sel(2)[rotated])
  moreover have "links h' (q # vs) \<longleftrightarrow> links h (q # vs)"
    using d x in_set_butlastD[of x "q # vs"] by (intro links_cong) (auto simp: n' v' simp del: butlast.simps)
  moreover have "links h' [p, q]"
    using x n'[of p] v'[of q] by (auto simp: map_option_eq_Some)
  ultimately show ?thesis
    using links_split[of h' us p "q # vs"] by simp
qed

section \<open>Effect of the operations on the links\<close>

lemma set_next_Some [simp]:
  "set_next h (Some a) v = map_option (\<lambda>n. h(a \<mapsto> n\<lparr>nxt := v\<rparr>)) (h a)"
  and set_prev_Some [simp]:
  "set_prev h (Some a) v = map_option (\<lambda>n. h(a \<mapsto> n\<lparr>prv := v\<rparr>)) (h a)"
  and deref_Some [simp]: "deref h (Some a) = h a"
  by (auto simp: set_next_def set_prev_def deref_def split: Option.bind_splits)

lemma dl_list_add_effect:
  assumes "h p = Some np" "nxt np = Some q" "q \<in> dom h" "i \<in> dom h" "i \<noteq> p"
  shows "\<exists>h'. dl_list_add (Some p) (Some i) h = Some h' \<and> dom h' = dom h
    \<and> map_option nxt \<circ> h' = (map_option nxt \<circ> h)(i := Some (Some q), p := Some (Some i))
    \<and> map_option prv \<circ> h' = (map_option prv \<circ> h)(i := Some (Some p), q := Some (Some i))"
proof -
  obtain nq ni where n: "h q = Some nq" "h i = Some ni" using assms by auto
  then obtain h' where e: "dl_list_add (Some p) (Some i) h = Some h'"
    using assms by (cases "q = i"; cases "q = p") (auto simp: dl_list_add_def)
  have eff: "map_option nxt (h' a) = ((map_option nxt \<circ> h)(i := Some (Some q), p := Some (Some i))) a"
    "map_option prv (h' a) = ((map_option prv \<circ> h)(i := Some (Some p), q := Some (Some i))) a"
    "h' a = None \<longleftrightarrow> h a = None" for a
    using e n assms by (auto simp: dl_list_add_def split: if_splits)
  then have "dom h' = dom h" by (auto simp: dom_def)
  then show ?thesis using e eff by (intro exI[of _ h'] conjI ext) (simp_all only: comp_apply)
qed

lemma dl_list_del_effect:
  assumes "h x = Some nx" "nxt nx = Some q" "prv nx = Some p" "q \<in> dom h" "p \<in> dom h" "x \<noteq> q" "x \<noteq> p"
  shows "\<exists>h'. dl_list_del (Some x) h = Some h' \<and> dom h' = dom h
    \<and> map_option nxt \<circ> h' = (map_option nxt \<circ> h)(p := Some (Some q), x := Some None)
    \<and> map_option prv \<circ> h' = (map_option prv \<circ> h)(q := Some (Some p), x := Some None)"
proof -
  obtain nq np where n: "h q = Some nq" "h p = Some np" using assms by auto
  then obtain h' where e: "dl_list_del (Some x) h = Some h'"
    using assms by (cases "q = p") (auto simp: dl_list_del_def)
  have eff: "map_option nxt (h' a) = ((map_option nxt \<circ> h)(p := Some (Some q), x := Some None)) a"
    "map_option prv (h' a) = ((map_option prv \<circ> h)(q := Some (Some p), x := Some None)) a"
    "h' a = None \<longleftrightarrow> h a = None" for a
    using e n assms by (auto simp: dl_list_del_def split: if_splits)
  then have "dom h' = dom h" by (auto simp: dom_def)
  then show ?thesis using e eff by (intro exI[of _ h'] conjI ext) (simp_all only: comp_apply)
qed

text \<open>Every address of a ring is allocated, and its neighbours are what the list says.\<close>

lemma links_dom: "links h L \<Longrightarrow> 2 \<le> length L \<Longrightarrow> set L \<subseteq> dom h"
proof (induction h L rule: links.induct[case_names 1 2 3])
  case (3 h x y zs)
  then show ?case by (cases zs) auto
qed simp_all

lemma dl_ring_dom: "dl_ring h head xs \<Longrightarrow> set (head # xs) \<subseteq> dom h"
  using links_dom[of h "head # xs @ [head]"] by (auto simp: inv_simps)

lemma links_middle:
  "links h (us @ p # x # q # vs) \<Longrightarrow>
     \<exists>n. h x = Some n \<and> nxt n = Some q \<and> prv n = Some p"
  using links_split[of h us p "x # q # vs"] by auto

lemma links_edge: "links h (us @ p # q # vs) \<Longrightarrow>
    (\<exists>n. h p = Some n \<and> nxt n = Some q) \<and> (\<exists>n. h q = Some n \<and> prv n = Some p)"
  using links_split[of h us p "q # vs"] by auto

section \<open>The operations on rings\<close>

lemma dl_list_init_ring:
  assumes "a \<in> dom h"
  shows "\<exists>h'. dl_list_init a h = Some h' \<and> dl_ring h' a [] \<and> dom h' = dom h"
  using assms by (auto simp: dl_list_init_def inv_simps)

lemma dl_list_add_ring:
  assumes r: "dl_ring h head xs" and i: "i \<in> dom h" "i \<notin> set (head # xs)"
  shows "\<exists>h'. dl_list_add (Some head) (Some i) h = Some h' \<and> dl_ring h' head (i # xs) \<and> dom h' = dom h"
proof -
  obtain q vs where qv: "xs @ [head] = q # vs" by (cases xs) auto
  have l: "links h ([] @ head # q # vs)" and d: "distinct (head # xs)" and dh: "head \<in> dom h"
    using r qv by (auto simp: inv_simps)
  have dq: "distinct (q # vs)" unfolding qv[symmetric] using d by auto
  have bl: "butlast (q # vs) = xs" using qv by (metis butlast_snoc)
  obtain np where np: "h head = Some np" "nxt np = Some q" "q \<in> dom h"
    using links_edge[OF l] by auto
  then obtain h' where h': "dl_list_add (Some head) (Some i) h = Some h'" "dom h' = dom h"
    "map_option nxt \<circ> h' = (map_option nxt \<circ> h)(i := Some (Some q), head := Some (Some i))"
    "map_option prv \<circ> h' = (map_option prv \<circ> h)(i := Some (Some head), q := Some (Some i))"
    using dl_list_add_effect[of h head np q i] i by auto
  have "i \<notin> set ([] @ head # q # vs)" using i by (simp add: qv[symmetric])
  then have "links h' ([] @ head # i # q # vs)"
    using d dq bl by (intro links_insert[OF l _ _ _ _ _ h'(3,4)]) simp_all
  then show ?thesis using h' d i qv dh by (auto simp: inv_simps)
qed

lemma dl_list_add_tail_ring:
  assumes r: "dl_ring h head xs" and i: "i \<in> dom h" "i \<notin> set (head # xs)"
  shows "\<exists>h'. dl_list_add_tail (Some head) (Some i) h = Some h' \<and> dl_ring h' head (xs @ [i]) \<and> dom h' = dom h"
proof -
  obtain us p where up: "head # xs = us @ [p]" by (metis append_butlast_last_id list.distinct(1))
  have whole: "head # xs @ [head] = us @ p # head # []"
    using arg_cong[OF up, of "\<lambda>l. l @ [head]"] by simp
  have l: "links h (us @ p # head # [])" and d: "distinct (us @ [p])" and dh: "head \<in> dom h"
    using r by (simp_all add: inv_simps whole[symmetric] up[symmetric])
  have tl: "tl (us @ [p]) = xs" using up by (metis list.sel(3))
  have p: "h head \<noteq> None" "\<exists>n. h head = Some n \<and> prv n = Some p" "\<exists>n. h p = Some n \<and> nxt n = Some head"
    using links_edge[OF l] by auto
  have ip: "i \<noteq> p" using i up by (metis in_set_conv_decomp)
  obtain h' where h': "dl_list_add (Some p) (Some i) h = Some h'" "dom h' = dom h"
    "map_option nxt \<circ> h' = (map_option nxt \<circ> h)(i := Some (Some head), p := Some (Some i))"
    "map_option prv \<circ> h' = (map_option prv \<circ> h)(i := Some (Some p), head := Some (Some i))"
    using dl_list_add_effect[of h p _ head i] i ip p dh by auto
  have "i \<notin> set (us @ p # head # [])" using i by (simp add: whole[symmetric])
  then have "links h' (us @ p # i # head # [])"
    using d tl r by (intro links_insert[OF l _ _ _ _ _ h'(3,4)]) (simp_all add: inv_simps)
  moreover have "us @ p # i # [head] = head # (xs @ [i]) @ [head]"
    using arg_cong[OF up, of "\<lambda>l. l @ [i, head]"] by simp
  moreover have "dl_list_add_tail (Some head) (Some i) h = Some h'"
    using p(2) h'(1) by (auto simp: dl_list_add_tail_def)
  ultimately show ?thesis using h' r i dh by (auto simp: inv_simps)
qed

lemma dl_list_del_ring:
  assumes r: "dl_ring h head (ys @ x # zs)"
  shows "\<exists>h'. dl_list_del (Some x) h = Some h' \<and> dl_ring h' head (ys @ zs) \<and> dom h' = dom h"
proof -
  obtain us p where up: "head # ys = us @ [p]" by (metis append_butlast_last_id list.distinct(1))
  obtain q vs where qv: "zs @ [head] = q # vs" by (cases zs) auto
  have whole: "head # (ys @ x # zs) @ [head] = us @ p # x # q # vs"
    using arg_cong[OF up, of "\<lambda>l. l @ x # zs @ [head]"] qv by simp
  then have l: "links h (us @ p # x # q # vs)" and dh: "head \<in> dom h" using r by (auto simp: inv_simps)
  have d: "distinct (head # ys @ x # zs)" using r by (simp add: inv_simps)
  have tl: "tl (us @ [p]) = ys" using up by (metis list.sel(3))
  have bl: "butlast (q # vs) = zs" using qv by (metis butlast_snoc)
  have sq: "set (q # vs) = insert head (set zs)" unfolding qv[symmetric] by simp
  have sp: "set (us @ [p]) = insert head (set ys)" unfolding up[symmetric] by simp
  have dp: "distinct (us @ [p])" unfolding up[symmetric] using d by auto
  have dq: "distinct (q # vs)" unfolding qv[symmetric] using d by auto
  obtain nx where nx: "h x = Some nx" "nxt nx = Some q" "prv nx = Some p"
    using links_middle[OF l] by auto
  have dom: "p \<in> dom h" "q \<in> dom h" using links_dom[OF l] by auto
  have x: "x \<notin> set (us @ p # q # vs)" using d sp sq by auto
  then obtain h' where h': "dl_list_del (Some x) h = Some h'" "dom h' = dom h"
    "map_option nxt \<circ> h' = (map_option nxt \<circ> h)(p := Some (Some q), x := Some None)"
    "map_option prv \<circ> h' = (map_option prv \<circ> h)(q := Some (Some p), x := Some None)"
    using dl_list_del_effect[OF nx dom(2,1)] by auto
  have "p \<notin> set zs" "q \<notin> set ys" using d sp sq by auto
  then have "links h' (us @ p # q # vs)"
    using dp dq tl bl x by (intro links_delete[OF l _ _ _ _ _ h'(3,4)]) simp_all
  moreover have "us @ p # q # vs = head # (ys @ zs) @ [head]"
    using arg_cong[OF up, of "\<lambda>l. l @ zs @ [head]"] qv by simp
  ultimately show ?thesis using h' d dh by (auto simp: inv_simps)
qed

section \<open>Traversal\<close>

lemma dl_each_loop_links:
  assumes "links h (xs @ [head])" "head \<notin> set xs" "length xs < fuel" "xs @ [head] = q # vs"
  shows "dl_each_loop fuel head (Some q) h = Some xs"
  using assms
proof (induction xs arbitrary: fuel q vs)
  case Nil
  then show ?case by (cases fuel) auto
next
  case (Cons x xs)
  obtain f where f: "fuel = Suc f" using Cons.prems by (cases fuel) auto
  obtain y ys where y: "xs @ [head] = y # ys" by (cases xs) auto
  obtain n where n: "h x = Some n" "nxt n = Some y" using Cons.prems y by auto
  have "links h (xs @ [head])" using Cons.prems y by simp
  then have "dl_each_loop f head (Some y) h = Some xs" using Cons.IH[of f y ys] Cons.prems y f by simp
  then show ?case using Cons.prems f n by auto
qed

lemma dl_len_loop_each:
  "dl_each_loop fuel head item h = Some xs \<Longrightarrow>
     dl_len_loop fuel head item h c = Some (c + of_nat (length xs))"
proof (induction fuel arbitrary: item xs c)
  case 0
  then show ?case by simp
next
  case (Suc fuel)
  then show ?case
    by (fastforce simp: deref_def split: if_splits Option.bind_splits option.splits)
qed

lemma dl_list_for_each_ring:
  assumes "dl_ring h head xs" "length xs < fuel"
  shows "dl_list_for_each fuel head h = Some xs"
proof -
  obtain q vs where q: "xs @ [head] = q # vs" by (cases xs) auto
  obtain n where n: "h head = Some n" "nxt n = Some q" using assms(1) q by (auto simp: inv_simps)
  have "links h (xs @ [head])" using assms(1) q by (simp add: inv_simps)
  then show ?thesis
    using dl_each_loop_links[OF _ _ assms(2) q] assms(1) n by (simp add: dl_list_for_each_def inv_simps)
qed

lemma dl_list_len_ring:
  assumes "dl_ring h head xs" "length xs < fuel"
  shows "dl_list_len fuel head h = Some (of_nat (length xs))"
proof -
  obtain n where n: "h head = Some n" using assms(1) by (auto simp: inv_simps)
  with dl_list_for_each_ring[OF assms] have "dl_each_loop fuel head (nxt n) h = Some xs"
    by (simp add: dl_list_for_each_def)
  then show ?thesis using n dl_len_loop_each[of fuel head "nxt n" h xs 0] by (simp add: dl_list_len_def)
qed

lemma dl_list_empty_ring: "dl_ring h head xs \<Longrightarrow> dl_list_empty head h = Some (xs = [])"
  by (cases xs) (auto simp: dl_list_empty_def inv_simps)

lemma dl_list_first_ring:
  "dl_ring h head xs \<Longrightarrow> dl_list_first head h = Some (case xs of [] \<Rightarrow> None | x # _ \<Rightarrow> Some x)"
  by (cases xs) (auto simp: dl_list_first_def dl_list_empty_def inv_simps)

lemma dl_list_last_ring:
  assumes "dl_ring h head xs"
  shows "dl_list_last head h = Some (if xs = [] then None else Some (last xs))"
proof (cases xs rule: rev_cases)
  case Nil
  then show ?thesis using assms by (auto simp: dl_list_last_def dl_list_empty_def inv_simps)
next
  case (snoc ys y)
  have "links h ((head # ys) @ y # [head])" using assms snoc by (simp add: inv_simps)
  then have "\<exists>n. h head = Some n \<and> prv n = Some y" using links_edge by blast
  then show ?thesis
    using snoc dl_list_empty_ring[OF assms] by (auto simp: dl_list_last_def)
qed

section \<open>The interface of a ring\<close>

text \<open>What a client of the list relies on: the members it sees by traversal, and how each update
  changes them. The lemmas inside the locale are proved from these laws alone.\<close>

locale ring_ops =
  fixes ring :: "'h \<Rightarrow> 'a \<Rightarrow> 'a list \<Rightarrow> bool"
    and owned :: "'h \<Rightarrow> 'a set"
    and add_tail :: "'a \<Rightarrow> 'a \<Rightarrow> 'h \<Rightarrow> 'h option"
    and del :: "'a \<Rightarrow> 'h \<Rightarrow> 'h option"
    and members :: "nat \<Rightarrow> 'a \<Rightarrow> 'h \<Rightarrow> 'a list option"
  assumes ring_distinct: "ring h r xs \<Longrightarrow> distinct (r # xs)"
    and ring_owned: "ring h r xs \<Longrightarrow> set (r # xs) \<subseteq> owned h"
    and add_tail_law: "ring h r xs \<Longrightarrow> i \<in> owned h \<Longrightarrow> i \<notin> set (r # xs) \<Longrightarrow>
        \<exists>h'. add_tail r i h = Some h' \<and> ring h' r (xs @ [i]) \<and> owned h' = owned h"
    and del_law: "ring h r (ys @ x # zs) \<Longrightarrow>
        \<exists>h'. del x h = Some h' \<and> ring h' r (ys @ zs) \<and> owned h' = owned h"
    and members_law: "ring h r xs \<Longrightarrow> length xs < fuel \<Longrightarrow> members fuel r h = Some xs"
begin

lemma del_remove1:
  assumes "ring h r xs" "x \<in> set xs"
  shows "\<exists>h'. del x h = Some h' \<and> ring h' r (remove1 x xs) \<and> owned h' = owned h"
proof -
  obtain ys zs where xs: "xs = ys @ x # zs" by (meson assms(2) split_list)
  have "remove1 x xs = ys @ zs" using ring_distinct[OF assms(1)] xs by (simp add: remove1_append)
  then show ?thesis using del_law assms(1) xs by simp
qed

lemma add_then_del:
  assumes "ring h r xs" "i \<in> owned h" "i \<notin> set (r # xs)"
  shows "\<exists>h1 h2. add_tail r i h = Some h1 \<and> del i h1 = Some h2 \<and> ring h2 r xs"
proof -
  obtain h1 where h1: "add_tail r i h = Some h1" "ring h1 r (xs @ [i])"
    using add_tail_law[OF assms] by blast
  then obtain h2 where "del i h1 = Some h2" "ring h2 r (xs @ [])"
    using del_law[of h1 r xs i "[]"] by auto
  then show ?thesis using h1 by auto
qed

text \<open>Deleting members one after the other, as the cleanup loops of a client do.\<close>

lemma del_all:
  "ring h r xs \<Longrightarrow> \<exists>h'. fold (\<lambda>x. \<lambda>ho. Option.bind ho (del x)) xs (Some h) = Some h' \<and> ring h' r []"
proof (induction xs arbitrary: h)
  case Nil
  then show ?case by simp
next
  case (Cons x xs)
  then obtain h1 where "del x h = Some h1" "ring h1 r ([] @ xs)" using del_law[of h r "[]" x xs] by auto
  then show ?case using Cons.IH[of h1] by simp
qed

end

interpretation dl: ring_ops dl_ring dom "\<lambda>l i. dl_list_add_tail (Some l) (Some i)"
  "\<lambda>x. dl_list_del (Some x)" dl_list_for_each
proof (unfold_locales, goal_cases)
  case (1 h r xs)
  then show ?case by (simp add: dl_ring_def)
next
  case (2 h r xs)
  then show ?case by (rule dl_ring_dom)
next
  case (3 h r xs i)
  then show ?case by (rule dl_list_add_tail_ring)
next
  case (4 h r ys x zs)
  then show ?case by (rule dl_list_del_ring)
next
  case (5 h r xs fuel)
  then show ?case by (rule dl_list_for_each_ring)
qed

section \<open>Properties\<close>



end
