(* ===== verification/CLib.thy ===== *)
theory CLib
  imports Prelude "HOL-Library.Monad_Syntax" "HOL-Library.Sublist"
begin

text \<open>
  The functions of the C library that the JSON sources call on text and on floating point numbers:
  character classes, decimal printing and reading of integers, and a model of IEEE 754 binary64
  with the rounding of \<^verbatim>\<open>strtod\<close> and the output of \<^verbatim>\<open>%f\<close>. Bytes of C strings are characters; a C string is
  the list of the characters before its terminator.
\<close>

section \<open>Characters\<close>

abbreviation cc :: "char \<Rightarrow> nat" where "cc c \<equiv> of_char c"

definition NUL :: char where [c_eval]: "NUL = CHR 0x00"

text \<open>The text that the C functions see in a buffer: up to the first terminator.\<close>

definition c_str :: "string \<Rightarrow> string" where
  "c_str s = takeWhile (\<lambda>c. c \<noteq> NUL) s"

text \<open>An allocator says whether a request of that many bytes succeeds.\<close>

type_synonym allocator = "int \<Rightarrow> bool"

definition c_isspace :: "char \<Rightarrow> bool" where
  "c_isspace c \<longleftrightarrow> cc c \<in> {32, 9, 10, 11, 12, 13}"

definition c_isdigit :: "char \<Rightarrow> bool" where
  "c_isdigit c \<longleftrightarrow> 48 \<le> cc c \<and> cc c \<le> 57"

definition c_tolower :: "char \<Rightarrow> char" where
  "c_tolower c = (if 65 \<le> cc c \<and> cc c \<le> 90 then char_of (cc c + 32) else c)"

definition digit_val :: "char \<Rightarrow> nat" where
  "digit_val c = cc c - 48"

definition digit_char :: "nat \<Rightarrow> char" where
  "digit_char d = char_of (48 + d)"

lemma cc_digit_char [simp]: "d < 10 \<Longrightarrow> cc (digit_char d) = 48 + d"
  by (simp add: digit_char_def)

lemma digit_char_isdigit [simp]: "d < 10 \<Longrightarrow> c_isdigit (digit_char d)"
  by (simp add: c_isdigit_def)

lemma digit_val_char [simp]: "d < 10 \<Longrightarrow> digit_val (digit_char d) = d"
  by (simp add: digit_val_def)

lemma digit_char_val [simp]: "c_isdigit c \<Longrightarrow> digit_char (digit_val c) = c"
  by (simp add: c_isdigit_def digit_val_def digit_char_def)

lemma digit_val_less: "c_isdigit c \<Longrightarrow> digit_val c < 10"
  by (auto simp: c_isdigit_def digit_val_def)

lemma c_isdigit_not_space: "c_isdigit c \<Longrightarrow> \<not> c_isspace c"
  by (auto simp: c_isdigit_def c_isspace_def)

section \<open>Decimal numbers\<close>

text \<open>Numbers are \<open>int\<close>s here, whose arithmetic evaluates on binary numerals.\<close>

fun dec_pos :: "int \<Rightarrow> string" where
  "dec_pos n = (if n < 10 then [digit_char (nat n)] else dec_pos (n div 10) @ [digit_char (nat (n mod 10))])"

declare dec_pos.simps [simp del]

definition int_of_dec :: "string \<Rightarrow> int" where
  "int_of_dec s = foldl (\<lambda>a c. 10 * a + int (digit_val c)) 0 s"

lemma int_of_dec_simps [simp]:
  "int_of_dec [] = 0" "int_of_dec (s @ [c]) = 10 * int_of_dec s + int (digit_val c)"
  by (simp_all add: int_of_dec_def)

lemma int_of_dec_single [simp]: "int_of_dec [c] = int (digit_val c)"
  by (simp add: int_of_dec_def)

lemma int_of_dec_nonneg: "0 \<le> int_of_dec s"
  by (induction s rule: rev_induct) auto

lemma int_of_dec_append: "int_of_dec (s @ t) = int_of_dec s * 10 ^ length t + int_of_dec t"
proof (induction t rule: rev_induct)
  case (snoc c t)
  then show ?case by (simp add: algebra_simps flip: append_assoc)
qed simp

lemma int_of_dec_Cons: "int_of_dec (c # s) = int (digit_val c) * 10 ^ length s + int_of_dec s"
  using int_of_dec_append[of "[c]" s] by simp

lemma int_of_dec_bound: "list_all c_isdigit s \<Longrightarrow> int_of_dec s < 10 ^ length s"
proof (induction s rule: rev_induct)
  case (snoc c s)
  then have "int_of_dec s \<le> 10 ^ length s - 1" "digit_val c < 10" using digit_val_less by auto
  then show ?case by simp
qed simp

lemma dec_pos_props:
  "0 \<le> n \<Longrightarrow> list_all c_isdigit (dec_pos n) \<and> dec_pos n \<noteq> [] \<and> int_of_dec (dec_pos n) = n"
proof (induction n rule: dec_pos.induct)
  case (1 n)
  have "nat (n mod 10) < 10" by (simp add: nat_less_iff)
  moreover have "n < 10 \<Longrightarrow> nat n < 10" by simp
  moreover have "10 * (n div 10) + n mod 10 = n" by simp
  ultimately show ?case using 1 by (subst (1 2 3) dec_pos.simps) auto
qed

lemma dec_pos_digits: "0 \<le> n \<Longrightarrow> list_all c_isdigit (dec_pos n)"
  and int_of_dec_dec_pos [simp]: "0 \<le> n \<Longrightarrow> int_of_dec (dec_pos n) = n"
  using dec_pos_props by auto

lemma dec_pos_not_Nil [simp]: "dec_pos n \<noteq> []"
  by (subst dec_pos.simps) simp

lemma digit_val_0: "c_isdigit c \<Longrightarrow> digit_val c = 0 \<longleftrightarrow> c = CHR ''0''"
proof -
  assume c: "c_isdigit c"
  then have "digit_char (digit_val c) = c" by simp
  moreover have "digit_char 0 = CHR ''0''" by code_simp
  moreover have "digit_val CHR ''0'' = 0" by (simp add: digit_val_def)
  ultimately show ?thesis by metis
qed

lemma int_of_dec_pos:
  assumes "list_all c_isdigit s" "s \<noteq> []" "hd s \<noteq> CHR ''0''"
  shows "10 ^ (length s - 1) \<le> int_of_dec s"
proof (cases s)
  case (Cons d t)
  have "1 \<le> int (digit_val d)" using Cons assms digit_val_0[of d] by auto
  from mult_right_mono[OF this, of "10 ^ length t"] have "10 ^ length t \<le> int (digit_val d) * 10 ^ length t" by simp
  then have "10 ^ length t \<le> int_of_dec (d # t)" using int_of_dec_nonneg[of t] unfolding int_of_dec_Cons by linarith
  then show ?thesis using Cons by simp
qed (use assms in simp)

text \<open>Digits without leading zeros are the printed form of their value.\<close>

lemma dec_pos_unique:
  assumes "list_all c_isdigit s" "s \<noteq> []" "hd s = CHR ''0'' \<longrightarrow> length s = 1"
  shows "dec_pos (int_of_dec s) = s"
  using assms
proof (induction s rule: rev_induct)
  case Nil
  then show ?case by simp
next
  case (snoc c s)
  have c: "c_isdigit c" "digit_val c < 10" using snoc.prems(1) digit_val_less by auto
  show ?case
  proof (cases "s = []")
    case True
    then show ?thesis using c by (simp add: dec_pos.simps)
  next
    case False
    have hd: "hd s \<noteq> CHR ''0''" "list_all c_isdigit s" using snoc.prems False by auto
    have "1 \<le> (10 :: int) ^ (length s - 1)" by simp
    also have "\<dots> \<le> int_of_dec s" by (rule int_of_dec_pos) (use hd False in auto)
    finally have pos: "1 \<le> int_of_dec s" .
    have "dec_pos (int_of_dec s) = s" using snoc False by auto
    then show ?thesis using pos c by (subst dec_pos.simps) simp
  qed
qed

lemma digit_not_NUL: "0 \<le> n \<Longrightarrow> NUL \<notin> set (dec_pos n)"
  using dec_pos_digits[of n] by (auto simp: list_all_iff c_isdigit_def NUL_def)

lemma dec_pos_length:
  assumes "10 ^ k \<le> n" shows "k < length (dec_pos n)"
proof (rule ccontr)
  assume "\<not> k < length (dec_pos n)"
  then have "(10::int) ^ length (dec_pos n) \<le> 10 ^ k" by (intro power_increasing) auto
  moreover have "0 \<le> n" using assms by (meson order_trans zero_le_power zero_le_numeral)
  then have "n < 10 ^ length (dec_pos n)"
    using int_of_dec_bound[OF dec_pos_digits] int_of_dec_dec_pos by metis
  ultimately show False using assms by linarith
qed

lemma dec_pos_length_le:
  assumes "0 \<le> n" "n < 10 ^ k" "0 < k" shows "length (dec_pos n) \<le> k"
  using assms
proof (induction n arbitrary: k rule: dec_pos.induct)
  case (1 n)
  show ?case
  proof (cases "n < 10")
    case True
    then show ?thesis using 1(4) by (subst dec_pos.simps) simp
  next
    case False
    then have "k \<noteq> 1" using 1(3) by auto
    then obtain j where j: "k = Suc j" "0 < j" using 1(4) by (cases k) auto
    have "n div 10 < 10 ^ j" using 1(3) j by (simp add: div_less_iff_less_mult)
    then have "length (dec_pos (n div 10)) \<le> j" using 1(1) [OF False _ _ j(2)] False by simp
    then show ?thesis using False j by (subst dec_pos.simps) simp
  qed
qed

lemma dec_pos_lower: "1 \<le> n \<Longrightarrow> 10 ^ (length (dec_pos n) - 1) \<le> n"
proof (induction n rule: dec_pos.induct)
  case (1 n)
  show ?case
  proof (cases "n < 10")
    case True
    then show ?thesis using 1(2) by (simp add: dec_pos.simps [of n])
  next
    case False
    obtain l where l: "length (dec_pos (n div 10)) = Suc l" by (cases "dec_pos (n div 10)") auto
    have "10 ^ (length (dec_pos (n div 10)) - 1) \<le> n div 10" using 1(1) False by simp
    then have "10 * 10 ^ l \<le> n" unfolding l by simp
    moreover have "length (dec_pos n) = Suc (Suc l)" using False l by (simp add: dec_pos.simps [of n])
    ultimately show ?thesis by simp
  qed
qed

text \<open>\<^verbatim>\<open>%d\<close> and its kin.\<close>

definition dec_int :: "int \<Rightarrow> string" where
  "dec_int i = (if i < 0 then CHR ''-'' # dec_pos (- i) else dec_pos i)"

section \<open>Double precision\<close>

text \<open>\<open>Fin s m e\<close> is the number with sign \<open>s\<close> (true for minus) and magnitude \<open>m * 2 ^ e\<close>; the significand of
  the numbers that occur is below \<open>2 ^ 53\<close> and the exponent at least \<open>-1074\<close>.\<close>

datatype double = Fin bool int int | Inf bool | NaN

fun bit_len :: "int \<Rightarrow> int" where
  "bit_len n = (if n \<le> 0 then 0 else 1 + bit_len (n div 2))"

declare bit_len.simps [simp del]

definition round_div :: "int \<Rightarrow> int \<Rightarrow> int" where
  "round_div n d =
     (let q = n div d; r = n mod d in if 2 * r > d \<or> (2 * r = d \<and> odd q) then q + 1 else q)"

lemma round_div_nonneg: "0 \<le> n \<Longrightarrow> 0 \<le> d \<Longrightarrow> 0 \<le> round_div n d"
  by (simp add: round_div_def Let_def pos_imp_zdiv_nonneg_iff div_int_pos_iff)

lemma round_div_le:
  assumes "a \<le> v * b" "0 < b" shows "round_div a b \<le> v"
proof (cases "a div b < v")
  case True
  then show ?thesis by (simp add: round_div_def Let_def)
next
  case False
  have "v * b \<le> (a div b) * b" using False assms(2) by (intro mult_right_mono) auto
  moreover have "a = (a div b) * b + a mod b" by simp
  moreover have "0 \<le> a mod b" using assms(2) by simp
  ultimately have "a mod b = 0" "(a div b) * b = v * b" using assms(1) by linarith+
  then have "a div b = v" "a mod b = 0" using assms(2) by auto
  then show ?thesis using assms(2) by (simp add: round_div_def Let_def)
qed

text \<open>Scaling a ratio by a power of two.\<close>

definition scale2 :: "int \<Rightarrow> int \<Rightarrow> int \<Rightarrow> int \<times> int" where
  "scale2 n d e = (if e \<ge> 0 then (n * 2 ^ nat e, d) else (n, d * 2 ^ nat (- e)))"

text \<open>The double nearest to \<open>n / d\<close>, ties to even, overflow to infinity.\<close>

definition double_of_ratio :: "bool \<Rightarrow> int \<Rightarrow> int \<Rightarrow> double" where
  "double_of_ratio s n d =
     (if n = 0 then Fin s 0 (- 1074)
      else let k = bit_len n - bit_len d;
               (a, b) = scale2 n d (- k);
               e = max (if a \<ge> b then k - 52 else k - 53) (- 1074);
               (a, b) = scale2 n d (- e);
               m = round_div a b;
               (m, e) = (if m = 2 ^ 53 then (2 ^ 52, e + 1) else (m, e))
           in if e > 971 then Inf s else Fin s m e)"

definition double_of_int :: "int \<Rightarrow> double" where
  "double_of_int i = double_of_ratio (i < 0) \<bar>i\<bar> 1"

text \<open>Truncation towards zero, the conversion to an integer type (undefined out of its range).\<close>

fun double_trunc :: "double \<Rightarrow> int option" where
  "double_trunc (Fin s m e) =
     (let (a, b) = scale2 m 1 e; q = a div b in Some (if s then - q else q))"
| "double_trunc (Inf s) = None"
| "double_trunc NaN = None"

definition double_to_range :: "int \<Rightarrow> int \<Rightarrow> double \<Rightarrow> int option" where
  "double_to_range lo hi x =
     (case double_trunc x of None \<Rightarrow> None | Some i \<Rightarrow> if lo \<le> i \<and> i \<le> hi then Some i else None)"

fun double_nonzero :: "double \<Rightarrow> bool" where
  "double_nonzero (Fin s m e) = (m \<noteq> 0)"
| "double_nonzero (Inf s) = True"
| "double_nonzero NaN = True"

text \<open>\<^verbatim>\<open>%f\<close>: six decimals, correctly rounded.\<close>

definition dec6 :: "int \<Rightarrow> string" where
  "dec6 n = (let s = dec_pos n in replicate (6 - length s) CHR ''0'' @ s)"

fun double_fmt :: "double \<Rightarrow> string" where
  "double_fmt (Fin s m e) =
     (let (a, b) = scale2 m 1 e; n = round_div (a * 10 ^ 6) b
      in (if s then ''-'' else []) @ dec_pos (n div 10 ^ 6) @ ''.'' @ dec6 (n mod 10 ^ 6))"
| "double_fmt (Inf s) = (if s then ''-inf'' else ''inf'')"
| "double_fmt NaN = ''nan''"

text \<open>\<^verbatim>\<open>sscanf\<close> with \<^verbatim>\<open>%lf\<close> on decimal text: blanks, a sign, digits with an optional point, and an exponent if
  it is complete. Hexadecimal numbers and the names of infinities and not-a-numbers, which the
  library also reads, are outside the model: \<open>None\<close> is an input that does not start with a decimal
  number.\<close>

definition scan_sign :: "string \<Rightarrow> bool \<times> string" where
  "scan_sign s = (case s of [] \<Rightarrow> (False, [])
     | c # cs \<Rightarrow> if c = CHR ''-'' then (True, cs) else if c = CHR ''+'' then (False, cs) else (False, s))"

definition scan_exp :: "string \<Rightarrow> int" where
  "scan_exp s = (case s of [] \<Rightarrow> 0
     | c # cs \<Rightarrow> if c = CHR ''e'' \<or> c = CHR ''E''
       then (let (neg, r) = scan_sign cs; x = int_of_dec (takeWhile c_isdigit r) in if neg then - x else x)
       else 0)"

definition double_scan :: "string \<Rightarrow> double option" where
  "double_scan s =
     (let (neg, s) = scan_sign (dropWhile c_isspace s);
          ip = takeWhile c_isdigit s; r = dropWhile c_isdigit s;
          (fp, r) = (case r of [] \<Rightarrow> ([], [])
             | c # cs \<Rightarrow> if c = CHR ''.'' then (takeWhile c_isdigit cs, dropWhile c_isdigit cs) else ([], r));
          x = scan_exp r - int (length fp)
      in if ip @ fp = [] then None
         else Some (if x \<ge> 0 then double_of_ratio neg (int_of_dec (ip @ fp) * 10 ^ nat x) 1
                    else double_of_ratio neg (int_of_dec (ip @ fp)) (10 ^ nat (- x))))"

end
