(* ===== verification/ArrayList.thy ===== *)
theory ArrayList
  imports CLib "HOL-Library.Multiset"
begin

text \<open>
  The growing pointer array of \<^verbatim>\<open>src/Json/arraylist.c\<close>. The array of \<^verbatim>\<open>void*\<close> is a list of optional
  elements (\<open>None\<close> is \<^verbatim>\<open>NULL\<close>) of length \<^verbatim>\<open>size\<close>. Whether an allocation of \<open>n\<close> slots succeeds is asked
  of an allocator \<open>A\<close>, an argument of the operations that allocate. The calls of \<^verbatim>\<open>free_fn\<close> are returned
  as the list of the elements passed to it, in order. The result \<open>None\<close> is a fault: an access outside
  the array or a signed overflow.
\<close>

definition ARRAY_LIST_DEFAULT_SIZE :: int where [c_eval]: "ARRAY_LIST_DEFAULT_SIZE = 32"

record 'a array_list =
  al_array :: "'a option list"
  al_length :: int
  al_size :: int

definition array_list_new :: "allocator \<Rightarrow> 'a array_list option" where
  "array_list_new A =
     (if A 1 \<and> A ARRAY_LIST_DEFAULT_SIZE
      then Some \<lparr>al_array = replicate (nat ARRAY_LIST_DEFAULT_SIZE) None, al_length = 0,
                 al_size = ARRAY_LIST_DEFAULT_SIZE\<rparr>
      else None)"

text \<open>The loop of \<^verbatim>\<open>array_list_free\<close>, \<open>k\<close> iterations from index \<open>i\<close>.\<close>

fun al_free_loop :: "nat \<Rightarrow> nat \<Rightarrow> 'a option list \<Rightarrow> 'a list option" where
  "al_free_loop 0 i array = Some []"
| "al_free_loop (Suc k) i array = do {
     x \<leftarrow> peek array i;
     freed \<leftarrow> al_free_loop k (Suc i) array;
     Some (case x of None \<Rightarrow> freed | Some d \<Rightarrow> d # freed) }"

definition array_list_free :: "'a array_list \<Rightarrow> 'a list option" where
  "array_list_free arr = al_free_loop (nat (al_length arr)) 0 (al_array arr)"

definition array_list_get_idx :: "'a array_list \<Rightarrow> int \<Rightarrow> 'a option option" where
  "array_list_get_idx arr i =
     (if i \<ge> al_length arr then Some None else ipeek (al_array arr) i)"

definition array_list_expand_internal ::
  "allocator \<Rightarrow> 'a array_list \<Rightarrow> int \<Rightarrow> (int \<times> 'a array_list) option" where
  "array_list_expand_internal A arr mx =
     (if mx < al_size arr then Some (0, arr)
      else do {
        dbl \<leftarrow> c_int (al_size arr * 2);
        let new_size = (if dbl > mx then dbl else mx);
        if A new_size
        then Some (0, arr\<lparr>al_array := al_array arr @ replicate (nat (new_size - al_size arr)) None,
                          al_size := new_size\<rparr>)
        else Some (-1, arr) })"

definition array_list_put_idx ::
  "allocator \<Rightarrow> 'a array_list \<Rightarrow> int \<Rightarrow> 'a option \<Rightarrow> (int \<times> 'a list \<times> 'a array_list) option" where
  "array_list_put_idx A arr idx data = do {
     mx \<leftarrow> c_int (idx + 1);
     (r, arr) \<leftarrow> array_list_expand_internal A arr mx;
     if r \<noteq> 0 then Some (-1, [], arr)
     else do {
       old \<leftarrow> ipeek (al_array arr) idx;
       array \<leftarrow> ipoke (al_array arr) idx data;
       let arr = arr\<lparr>al_array := array\<rparr>;
       Some (0, (case old of None \<Rightarrow> [] | Some d \<Rightarrow> [d]),
             if al_length arr \<le> idx then arr\<lparr>al_length := idx + 1\<rparr> else arr) } }"

definition array_list_add ::
  "allocator \<Rightarrow> 'a array_list \<Rightarrow> 'a option \<Rightarrow> (int \<times> 'a list \<times> 'a array_list) option" where
  "array_list_add A arr data = array_list_put_idx A arr (al_length arr) data"

text \<open>\<^verbatim>\<open>qsort\<close> of the C library is a parameter: a function on the slots in use.\<close>

definition array_list_sort ::
  "('a option list \<Rightarrow> 'a option list) \<Rightarrow> 'a array_list \<Rightarrow> 'a array_list" where
  "array_list_sort qsort arr =
     arr\<lparr>al_array := qsort (take (nat (al_length arr)) (al_array arr)) @
                     drop (nat (al_length arr)) (al_array arr)\<rparr>"

definition array_list_length :: "'a array_list \<Rightarrow> int" where
  "array_list_length arr = al_length arr"

section \<open>Well-formed arrays and their contents\<close>

definition al_ok :: "'a array_list \<Rightarrow> bool" where
  [inv_simps]: "al_ok arr \<longleftrightarrow>
     0 \<le> al_length arr \<and> al_length arr \<le> al_size arr \<and> 0 < al_size arr \<and> al_size arr \<le> INT_MAX
   \<and> int (length (al_array arr)) = al_size arr
   \<and> (\<forall>i. nat (al_length arr) \<le> i \<longrightarrow> i < length (al_array arr) \<longrightarrow> al_array arr ! i = None)"

definition al_list :: "'a array_list \<Rightarrow> 'a option list" where
  "al_list arr = take (nat (al_length arr)) (al_array arr)"

lemma length_al_list: "al_ok arr \<Longrightarrow> int (length (al_list arr)) = al_length arr"
  by (auto simp: al_list_def inv_simps)

text \<open>Storing at index \<open>i\<close> of a list, padding with \<^verbatim>\<open>NULL\<close>s where the list is too short.\<close>

definition list_put :: "'a option list \<Rightarrow> nat \<Rightarrow> 'a option \<Rightarrow> 'a option list" where
  "list_put xs i d =
     (if i < length xs then xs[i := d] else xs @ replicate (i - length xs) None @ [d])"

lemma list_put_nth:
  "j < max (length xs) (Suc i) \<Longrightarrow>
     list_put xs i d ! j = (if j = i then d else if j < length xs then xs ! j else None)"
  by (auto simp: list_put_def nth_append nth_list_update)

lemma length_list_put [simp]: "length (list_put xs i d) = max (length xs) (Suc i)"
  by (auto simp: list_put_def)

lemma array_list_new_ok:
  "array_list_new A = Some arr \<Longrightarrow> al_ok arr \<and> al_list arr = []"
  by (auto simp: array_list_new_def inv_simps al_list_def c_eval split: if_splits)

lemma expand_ok:
  assumes "al_ok arr" "al_size arr * 2 \<le> INT_MAX" "mx \<le> INT_MAX"
  shows "\<exists>r arr'. array_list_expand_internal A arr mx = Some (r, arr') \<and> al_ok arr'
      \<and> al_list arr' = al_list arr \<and> al_length arr' = al_length arr
      \<and> (r = 0 \<longrightarrow> mx \<le> al_size arr') \<and> (r \<noteq> 0 \<longrightarrow> arr' = arr \<and> \<not> A (max (al_size arr * 2) mx))"
proof (cases "mx < al_size arr")
  case True
  then show ?thesis using assms by (simp add: array_list_expand_internal_def)
next
  case False
  have d: "c_int (al_size arr * 2) = Some (al_size arr * 2)"
    using assms by (intro c_int_Some) (auto simp: inv_simps c_eval)
  define ns where "ns = (if al_size arr * 2 > mx then al_size arr * 2 else mx)"
  have ns: "ns = max (al_size arr * 2) mx" "al_size arr \<le> ns" "ns \<le> INT_MAX"
    using False assms by (auto simp: ns_def inv_simps)
  let ?arr = "arr\<lparr>al_array := al_array arr @ replicate (nat (ns - al_size arr)) None, al_size := ns\<rparr>"
  have "al_ok ?arr" "al_list ?arr = al_list arr"
    using assms ns by (auto simp: inv_simps al_list_def nth_append)
  then show ?thesis
    using False d ns assms by (cases "A ns") (auto simp: array_list_expand_internal_def ns_def Let_def)
qed

lemma put_idx_ok:
  assumes ok: "al_ok arr" and sz: "al_size arr * 2 \<le> INT_MAX" and i: "0 \<le> idx" "idx < INT_MAX"
  shows "\<exists>r freed arr'. array_list_put_idx A arr idx data = Some (r, freed, arr') \<and> al_ok arr'
      \<and> (r = 0 \<longrightarrow> al_list arr' = list_put (al_list arr) (nat idx) data
           \<and> freed = (if idx < al_length arr \<and> al_list arr ! nat idx \<noteq> None
                      then [the (al_list arr ! nat idx)] else []))
      \<and> (r \<noteq> 0 \<longrightarrow> r = -1 \<and> arr' = arr \<and> freed = [] \<and> al_size arr \<le> idx + 1 \<and> \<not> A (max (al_size arr * 2) (idx + 1)))"
proof -
  have mx: "c_int (idx + 1) = Some (idx + 1)" using i by (intro c_int_Some) (auto simp: c_eval)
  obtain r arr1 where e: "array_list_expand_internal A arr (idx + 1) = Some (r, arr1)" "al_ok arr1"
    "al_list arr1 = al_list arr" "al_length arr1 = al_length arr" "r = 0 \<longrightarrow> idx + 1 \<le> al_size arr1"
    "r \<noteq> 0 \<longrightarrow> arr1 = arr \<and> \<not> A (max (al_size arr * 2) (idx + 1))"
    using expand_ok[OF ok sz, of "idx + 1" A] i by auto
  show ?thesis
  proof (cases "r = 0")
    case False
    have "al_size arr \<le> idx + 1" using e(1) False by (auto simp: array_list_expand_internal_def split: if_splits)
    then show ?thesis using False e mx ok by (auto simp: array_list_put_idx_def)
  next
    case True
    let ?n = "nat idx"
    have n: "?n < length (al_array arr1)" using e True i by (auto simp: inv_simps)
    let ?arr = "arr1\<lparr>al_array := (al_array arr1)[?n := data],
                     al_length := (if al_length arr1 \<le> idx then idx + 1 else al_length arr1)\<rparr>"
    have res: "array_list_put_idx A arr idx data =
        Some (0, (case al_array arr1 ! ?n of None \<Rightarrow> [] | Some d \<Rightarrow> [d]), ?arr)"
      using mx e(1) True n i by (simp add: array_list_put_idx_def ipeek_def ipoke_def peek_def poke_def)
    have ok': "al_ok ?arr"
      using e(2) True n i e(5) by (auto simp: inv_simps nth_list_update)
    have "al_list ?arr = list_put (al_list arr1) ?n data"
    proof (rule nth_equalityI)
      show "length (al_list ?arr) = length (list_put (al_list arr1) ?n data)"
        using length_al_list[OF ok'] length_al_list[OF e(2)] i by (auto split: if_splits)
    next
      fix j assume "j < length (al_list ?arr)"
      then have "j < nat (al_length ?arr)" "j < length (al_array arr1)" by (simp_all add: al_list_def)
      then show "al_list ?arr ! j = list_put (al_list arr1) ?n data ! j"
        using e(2) n i length_al_list[OF e(2)]
        by (subst list_put_nth) (auto simp: al_list_def inv_simps nth_list_update split: if_splits)
    qed
    moreover have "al_array arr1 ! ?n = (if idx < al_length arr then al_list arr ! ?n else None)"
      using e(2,4) n i unfolding e(3)[symmetric] by (auto simp: al_list_def inv_simps)
    ultimately show ?thesis using res ok' e(3) by (auto split: option.splits)
  qed
qed

lemma al_free_loop_eq:
  "i + k \<le> length xs \<Longrightarrow> al_free_loop k i xs = Some (List.map_filter id (take k (drop i xs)))"
proof (induction k arbitrary: i)
  case 0
  then show ?case by (simp add: List.map_filter_simps)
next
  case (Suc k)
  then have "drop i xs = xs ! i # drop (Suc i) xs" by (simp add: Cons_nth_drop_Suc)
  then show ?case using Suc by (auto simp: peek_def List.map_filter_simps split: option.splits)
qed

lemma array_list_free_ok: "al_ok arr \<Longrightarrow> array_list_free arr = Some (List.map_filter id (al_list arr))"
  using al_free_loop_eq[of 0 "nat (al_length arr)" "al_array arr"]
  by (auto simp: array_list_free_def al_list_def inv_simps)

lemma get_idx_ok:
  "al_ok arr \<Longrightarrow> 0 \<le> i \<Longrightarrow>
     array_list_get_idx arr i = Some (if i < al_length arr then al_list arr ! nat i else None)"
  by (auto simp: array_list_get_idx_def ipeek_def peek_def al_list_def inv_simps)

lemma get_idx_negative_faults: "al_ok arr \<Longrightarrow> i < 0 \<Longrightarrow> array_list_get_idx arr i = None"
  by (auto simp: array_list_get_idx_def ipeek_def inv_simps)

lemma sort_ok:
  assumes "al_ok arr" "mset (qsort (al_list arr)) = mset (al_list arr)"
  shows "al_ok (array_list_sort qsort arr) \<and> al_list (array_list_sort qsort arr) = qsort (al_list arr)"
proof -
  let ?n = "nat (al_length arr)"
  have l: "length (qsort (al_list arr)) = ?n"
    using assms length_al_list[OF assms(1)] by (metis nat_int size_mset)
  have d: "drop ?n (al_array arr) ! i = None" if "i < length (al_array arr) - ?n" for i
    using assms(1) that by (auto simp: inv_simps)
  show ?thesis
    using assms(1) l d by (auto simp: array_list_sort_def al_list_def inv_simps nth_append)
qed

lemma list_put_end: "list_put xs (length xs) d = xs @ [d]"
  by (simp add: list_put_def)

lemma add_ok:
  assumes "al_ok arr" "al_size arr * 2 \<le> INT_MAX" "al_length arr < INT_MAX"
  shows "\<exists>r arr'. array_list_add A arr data = Some (r, [], arr') \<and> al_ok arr'
      \<and> (r = 0 \<longrightarrow> al_list arr' = al_list arr @ [data]) \<and> (r \<noteq> 0 \<longrightarrow> r = -1 \<and> arr' = arr)
      \<and> ((\<forall>n. A n) \<longrightarrow> r = 0)"
proof -
  have "nat (al_length arr) = length (al_list arr)" using length_al_list[OF assms(1)] by simp
  moreover have "0 \<le> al_length arr" using assms(1) by (simp add: inv_simps)
  ultimately show ?thesis
    using put_idx_ok[OF assms(1,2), of "al_length arr" A data] assms(3)
    by (auto simp: array_list_add_def list_put_end)
qed

section \<open>The interface of a growing array\<close>

text \<open>What the JSON arrays rely on: contents as a list, appending, and reading by index.\<close>

locale growing_array =
  fixes ok :: "'s \<Rightarrow> bool" and contents :: "'s \<Rightarrow> 'a list"
    and append :: "'s \<Rightarrow> 'a \<Rightarrow> 's option" and get :: "'s \<Rightarrow> nat \<Rightarrow> 'a option"
    and room :: "'s \<Rightarrow> bool"
  assumes append_law: "ok s \<Longrightarrow> room s \<Longrightarrow> \<exists>s'. append s x = Some s' \<and> ok s' \<and> contents s' = contents s @ [x]"
    and get_law: "ok s \<Longrightarrow> i < length (contents s) \<Longrightarrow> get s i = Some (contents s ! i)"
begin

lemma get_after_append:
  assumes "ok s" "room s" "append s x = Some s'" "i \<le> length (contents s)"
  shows "get s' i = Some (if i = length (contents s) then x else contents s ! i)"
  using append_law[OF assms(1,2), of x] assms(3,4) get_law[of s' i] by (auto simp: nth_append)

end

interpretation al: growing_array al_ok al_list
  "\<lambda>arr d. (case array_list_add (\<lambda>_. True) arr d of Some (r, _, arr') \<Rightarrow> Some arr' | None \<Rightarrow> None)"
  "\<lambda>arr i. array_list_get_idx arr (int i)"
  "\<lambda>arr. al_size arr * 2 \<le> INT_MAX"
proof (unfold_locales, goal_cases)
  case (1 arr d)
  have "al_length arr < INT_MAX" using 1 by (auto simp: inv_simps)
  then show ?case using add_ok[OF 1, of "\<lambda>_. True" d] by auto
next
  case (2 arr i)
  then show ?case using get_idx_ok[of arr "int i"] length_al_list[of arr] by simp
qed

section \<open>Properties\<close>

text \<open>\<^verbatim>\<open>array_list_put_idx\<close> on a well-formed array, at a non-negative index and while doubling the
  array does not overflow, never faults and keeps the array well formed. On success the contents
  are the old ones with the value stored at the index (the gap filled with NULL) and the only
  element passed to \<^verbatim>\<open>free_fn\<close> is the overwritten one; it fails, with \<^verbatim>\<open>-1\<close> and the array unchanged,
  only when the array is too small and the allocator refuses the larger block.\<close>

theorem array_list_put_idx_correct:
  assumes "al_ok arr" "al_size arr * 2 \<le> INT_MAX" "0 \<le> idx" "idx < INT_MAX"
  shows "\<exists>r freed arr'. array_list_put_idx A arr idx data = Some (r, freed, arr') \<and> al_ok arr'
      \<and> (r = 0 \<longrightarrow> al_list arr' = list_put (al_list arr) (nat idx) data
           \<and> freed = (if idx < al_length arr \<and> al_list arr ! nat idx \<noteq> None
                      then [the (al_list arr ! nat idx)] else []))
      \<and> (r \<noteq> 0 \<longrightarrow> r = -1 \<and> arr' = arr \<and> freed = [] \<and> al_size arr \<le> idx + 1
           \<and> \<not> A (max (al_size arr * 2) (idx + 1)))"
  by (rule put_idx_ok[OF assms])

theorem array_list_put_idx_correct_witness:
  "\<exists>arr'. array_list_put_idx (\<lambda>_. True)
      \<lparr>al_array = [Some ''a'', None], al_length = 1, al_size = 2\<rparr> 3 (Some ''b'') = Some (0, [], arr')
    \<and> al_list arr' = [Some ''a'', None, None, Some ''b'']"
proof -
  let ?arr = "\<lparr>al_array = [Some ''a'', None], al_length = 1, al_size = 2\<rparr>"
  have "al_ok ?arr" by (auto simp: inv_simps c_eval nth_Cons split: nat.splits)
  moreover have "list_put (al_list ?arr) 3 (Some ''b'') = [Some ''a'', None, None, Some ''b'']"
    by (simp add: list_put_def al_list_def numeral_2_eq_2)
  ultimately show ?thesis
    using array_list_put_idx_correct[of ?arr 3 "\<lambda>_. True" "Some ''b''"]
    by (auto simp: INT_MAX_def array_list_put_idx_def)
qed

end
