(* ===== verification/LinkHash.thy ===== *)
theory LinkHash
  imports ArrayList
begin

text \<open>
  The hash table of \<^verbatim>\<open>src/Json/linkhash.c\<close> and \<^verbatim>\<open>linkhash.h\<close>: open addressing with linear probing in an array
  of entries, and a doubly linked list through the entries in the order of insertion. A pointer to
  an entry is its index in the table's own array (\<open>None\<close> is \<^verbatim>\<open>NULL\<close>). A value is an optional ('v):
  \<open>None\<close> is \<^verbatim>\<open>NULL\<close>.

  An operation whose result is \<open>None\<close> does not return to its caller: \<^verbatim>\<open>lh_abort\<close> has called \<^verbatim>\<open>exit(1)\<close>
  because \<^verbatim>\<open>calloc\<close> failed, or there is undefined behaviour (an access outside the table, a null
  dereference, a division by zero, a signed overflow), or a loop does not end. The statistics
  counters, which no code reads, are 32-bit words. The callback \<^verbatim>\<open>free_fn\<close> is not run by the table
  operations of the model; they return the entries it is called on, in order, to the caller.
\<close>

section \<open>Operations\<close>

datatype 'k lh_key = LH_EMPTY | LH_FREED | Key 'k

record ('k, 'v) lh_entry =
  e_k :: "'k lh_key"
  e_v :: "'v option"
  e_next :: "nat option"
  e_prev :: "nat option"

record ('k, 'v) lh_table =
  lh_size :: int
  lh_count :: int
  lh_collisions :: u32
  lh_resizes :: u32
  lh_lookups :: u32
  lh_inserts :: u32
  lh_deletes :: u32
  lh_name :: string
  lh_head :: "nat option"
  lh_tail :: "nat option"
  lh_tab :: "('k, 'v) lh_entry list"
  lh_free_fn :: bool
  lh_hash_fn :: "'k \<Rightarrow> u64"
  lh_equal_fn :: "'k \<Rightarrow> 'k \<Rightarrow> bool"

definition LH_PRIME :: u64 where "LH_PRIME = 0x9e370001"

definition lh_ptr_hash :: "u64 \<Rightarrow> u64" where
  "lh_ptr_hash k = drop_bit 4 (k * LH_PRIME) AND (- 1)"

definition lh_ptr_equal :: "u64 \<Rightarrow> u64 \<Rightarrow> bool" where
  "lh_ptr_equal k1 k2 \<longleftrightarrow> k1 = k2"

text \<open>A C string is the list of its characters before the terminator. A \<^verbatim>\<open>char\<close> is signed, so its
  conversion to \<^verbatim>\<open>unsigned int\<close> extends the sign.\<close>

definition char_uint :: "char \<Rightarrow> u32" where
  "char_uint c = scast (of_char c :: u8)"

fun lh_char_hash_loop :: "u32 \<Rightarrow> string \<Rightarrow> u32" where
  "lh_char_hash_loop h [] = h"
| "lh_char_hash_loop h (c # data) =
     lh_char_hash_loop (ucast (ucast (h * 129 + char_uint c) + LH_PRIME)) data"

definition lh_char_hash :: "string \<Rightarrow> u64" where
  "lh_char_hash k = ucast (lh_char_hash_loop 0 k)"

definition lh_char_equal :: "string \<Rightarrow> string \<Rightarrow> bool" where
  "lh_char_equal k1 k2 \<longleftrightarrow> k1 = k2"

definition lh_blank :: "('k, 'v) lh_entry" where
  "lh_blank = \<lparr>e_k = LH_EMPTY, e_v = None, e_next = None, e_prev = None\<rparr>"

text \<open>\<open>A n\<close> says whether an allocation of \<open>n\<close> elements succeeds; a negative \<^verbatim>\<open>size\<close> becomes a huge
  \<^verbatim>\<open>size_t\<close> that \<^verbatim>\<open>calloc\<close> refuses.\<close>

definition lh_table_new ::
  "allocator \<Rightarrow> int \<Rightarrow> string \<Rightarrow> bool \<Rightarrow> ('k \<Rightarrow> u64) \<Rightarrow> ('k \<Rightarrow> 'k \<Rightarrow> bool) \<Rightarrow> ('k, 'v) lh_table option" where
  "lh_table_new A sz name free_fn hash_fn equal_fn =
     (if \<not> A 1 then None
      else if sz < 0 \<or> \<not> A sz then None
      else Some \<lparr>lh_size = sz, lh_count = 0, lh_collisions = 0, lh_resizes = 0, lh_lookups = 0,
             lh_inserts = 0, lh_deletes = 0, lh_name = name, lh_head = None, lh_tail = None,
             lh_tab = replicate (nat sz) lh_blank, lh_free_fn = free_fn, lh_hash_fn = hash_fn,
             lh_equal_fn = equal_fn\<rparr>)"

definition lh_kchar_table_new :: "allocator \<Rightarrow> int \<Rightarrow> string \<Rightarrow> bool \<Rightarrow> (string, 'v) lh_table option" where
  "lh_kchar_table_new A sz name free_fn = lh_table_new A sz name free_fn lh_char_hash lh_char_equal"

definition lh_kptr_table_new :: "allocator \<Rightarrow> int \<Rightarrow> string \<Rightarrow> bool \<Rightarrow> (u64, 'v) lh_table option" where
  "lh_kptr_table_new A sz name free_fn = lh_table_new A sz name free_fn lh_ptr_hash lh_ptr_equal"

text \<open>An assignment through a pointer to an entry.\<close>

definition lh_upd ::
  "('k, 'v) lh_entry list \<Rightarrow> nat option \<Rightarrow> (('k, 'v) lh_entry \<Rightarrow> ('k, 'v) lh_entry) \<Rightarrow> ('k, 'v) lh_entry list option" where
  "lh_upd tb p f = do { i \<leftarrow> p; e \<leftarrow> peek tb i; poke tb i (f e) }"

text \<open>The start of a probe sequence, \<^verbatim>\<open>hash_fn(k) % size\<close>, and its step.\<close>

definition lh_slot :: "('k, 'v) lh_table \<Rightarrow> 'k \<Rightarrow> nat option" where
  "lh_slot t k = (if lh_size t > 0 then Some (unat (lh_hash_fn t k) mod nat (lh_size t)) else None)"

definition lh_step :: "int \<Rightarrow> nat \<Rightarrow> nat" where
  "lh_step sz n = (if int (Suc n) = sz then 0 else Suc n)"

text \<open>The probing loop of \<^verbatim>\<open>lh_table_insert\<close>; it visits every slot within \<^verbatim>\<open>size\<close> rounds, so running out
  of that many rounds means that it does not end. It returns the slot and the number of collisions.\<close>

fun lh_probe :: "nat \<Rightarrow> ('k, 'v) lh_entry list \<Rightarrow> int \<Rightarrow> nat \<Rightarrow> u32 \<Rightarrow> (nat \<times> u32) option" where
  "lh_probe 0 tb sz n coll = None"
| "lh_probe (Suc fuel) tb sz n coll = do {
     e \<leftarrow> peek tb n;
     if e_k e = LH_EMPTY \<or> e_k e = LH_FREED then Some (n, coll)
     else lh_probe fuel tb sz (lh_step sz n) (coll + 1) }"

text \<open>The test \<^verbatim>\<open>count >= size * LH_LOAD_FACTOR\<close> with the factor 0.66: the product of an \<^verbatim>\<open>int\<close> with the
  double nearest to 33/50 is the exact integer when 50 divides \<^verbatim>\<open>size\<close> (the relative error of the
  factor is below half a unit in the last place), and otherwise lies strictly between the same two
  integers as the exact quotient, so the comparison with an integer is exact.\<close>

definition lh_loaded :: "('k, 'v) lh_table \<Rightarrow> bool" where
  "lh_loaded t \<longleftrightarrow> 50 * lh_count t \<ge> 33 * lh_size t"

text \<open>Placing an entry: the part of \<^verbatim>\<open>lh_table_insert\<close> after the resize.\<close>

definition lh_link ::
  "('k, 'v) lh_table \<Rightarrow> nat \<Rightarrow> u32 \<Rightarrow> 'k \<Rightarrow> 'v option \<Rightarrow> ('k, 'v) lh_table option" where
  "lh_link t n coll k v = do {
     tb \<leftarrow> lh_upd (lh_tab t) (Some n) (\<lambda>e. e\<lparr>e_k := Key k, e_v := v\<rparr>);
     let t = t\<lparr>lh_collisions := coll, lh_count := lh_count t + 1\<rparr>;
     if lh_head t = None
     then do {
       tb \<leftarrow> lh_upd tb (Some n) (\<lambda>e. e\<lparr>e_next := None, e_prev := None\<rparr>);
       Some (t\<lparr>lh_head := Some n, lh_tail := Some n, lh_tab := tb\<rparr>) }
     else do {
       tb \<leftarrow> lh_upd tb (lh_tail t) (\<lambda>e. e\<lparr>e_next := Some n\<rparr>);
       tb \<leftarrow> lh_upd tb (Some n) (\<lambda>e. e\<lparr>e_prev := lh_tail t, e_next := None\<rparr>);
       Some (t\<lparr>lh_tail := Some n, lh_tab := tb\<rparr>) } }"

definition lh_place ::
  "('k, 'v) lh_table \<Rightarrow> 'k \<Rightarrow> 'v option \<Rightarrow> ('k, 'v) lh_table option" where
  "lh_place t k v = do {
     n \<leftarrow> lh_slot t k;
     (n, coll) \<leftarrow> lh_probe (nat (lh_size t)) (lh_tab t) (lh_size t) n (lh_collisions t);
     lh_link t n coll k v }"

text \<open>The copying loop of \<^verbatim>\<open>lh_table_resize\<close> and the resize itself, over the insertion it calls.\<close>

fun lh_copy ::
  "(('k, 'v) lh_table \<Rightarrow> 'k \<Rightarrow> 'v option \<Rightarrow> ('k, 'v) lh_table option) \<Rightarrow> nat \<Rightarrow> ('k, 'v) lh_entry list
   \<Rightarrow> nat option \<Rightarrow> ('k, 'v) lh_table \<Rightarrow> ('k, 'v) lh_table option" where
  "lh_copy ins fuel tb None new_t = Some new_t"
| "lh_copy ins 0 tb (Some i) new_t = None"
| "lh_copy ins (Suc fuel) tb (Some i) new_t = do {
     e \<leftarrow> peek tb i;
     new_t \<leftarrow> (case e_k e of Key k \<Rightarrow> ins new_t k (e_v e) | _ \<Rightarrow> None);
     lh_copy ins fuel tb (e_next e) new_t }"

definition lh_resize_with ::
  "(('k, 'v) lh_table \<Rightarrow> 'k \<Rightarrow> 'v option \<Rightarrow> ('k, 'v) lh_table option) \<Rightarrow> allocator
   \<Rightarrow> ('k, 'v) lh_table \<Rightarrow> int \<Rightarrow> ('k, 'v) lh_table option" where
  "lh_resize_with ins A t new_size = do {
     new_t \<leftarrow> lh_table_new A new_size (lh_name t) False (lh_hash_fn t) (lh_equal_fn t);
     new_t \<leftarrow> lh_copy ins (length (lh_tab t)) (lh_tab t) (lh_head t) new_t;
     Some (t\<lparr>lh_tab := lh_tab new_t, lh_size := new_size, lh_head := lh_head new_t,
             lh_tail := lh_tail new_t, lh_resizes := lh_resizes t + 1\<rparr>) }"

text \<open>Insertion and resizing call each other; \<open>d\<close> bounds the depth of these calls.\<close>

fun lh_insert_fuel ::
  "nat \<Rightarrow> allocator \<Rightarrow> ('k, 'v) lh_table \<Rightarrow> 'k \<Rightarrow> 'v option \<Rightarrow> ('k, 'v) lh_table option" where
  "lh_insert_fuel 0 A t k v = None"
| "lh_insert_fuel (Suc d) A t k v = do {
     let t = t\<lparr>lh_inserts := lh_inserts t + 1\<rparr>;
     t \<leftarrow> (if lh_loaded t
          then do { sz \<leftarrow> c_int (lh_size t * 2); lh_resize_with (lh_insert_fuel d A) A t sz }
          else Some t);
     lh_place t k v }"

declare lh_insert_fuel.simps [simp del]

text \<open>The depth that is enough: an insertion resizes a table, and copying into the doubled table does
  not resize again.\<close>

definition lh_depth :: nat where "lh_depth = 2"

definition lh_table_insert ::
  "allocator \<Rightarrow> ('k, 'v) lh_table \<Rightarrow> 'k \<Rightarrow> 'v option \<Rightarrow> ('k, 'v) lh_table option" where
  "lh_table_insert A t k v = lh_insert_fuel lh_depth A t k v"

definition lh_table_resize :: "allocator \<Rightarrow> ('k, 'v) lh_table \<Rightarrow> int \<Rightarrow> ('k, 'v) lh_table option" where
  "lh_table_resize A t new_size = lh_resize_with (lh_table_insert A) A t new_size"

text \<open>The iterators \<^verbatim>\<open>lh_foreach\<close> and \<^verbatim>\<open>lh_foreach_safe\<close>: the entries visited from a given one.\<close>

fun lh_walk :: "nat \<Rightarrow> ('k, 'v) lh_entry list \<Rightarrow> nat option \<Rightarrow> nat list option" where
  "lh_walk fuel tb None = Some []"
| "lh_walk 0 tb (Some i) = None"
| "lh_walk (Suc fuel) tb (Some i) = do {
     e \<leftarrow> peek tb i;
     is \<leftarrow> lh_walk fuel tb (e_next e);
     Some (i # is) }"

definition lh_foreach :: "('k, 'v) lh_table \<Rightarrow> nat list option" where
  "lh_foreach t = lh_walk (length (lh_tab t)) (lh_tab t) (lh_head t)"

text \<open>\<^verbatim>\<open>lh_table_free\<close>: the entries handed to \<^verbatim>\<open>free_fn\<close>, in order.\<close>

definition lh_table_free :: "('k, 'v) lh_table \<Rightarrow> ('k, 'v) lh_entry list option" where
  "lh_table_free t = do {
     is \<leftarrow> lh_foreach t;
     Some (if lh_free_fn t then map ((!) (lh_tab t)) is else []) }"

text \<open>The lookup loop, with \<open>left = size - count\<close> rounds to go.\<close>

fun lh_lookup_loop :: "nat \<Rightarrow> ('k, 'v) lh_table \<Rightarrow> 'k \<Rightarrow> nat \<Rightarrow> nat option option" where
  "lh_lookup_loop 0 t k n = Some None"
| "lh_lookup_loop (Suc left) t k n = do {
     e \<leftarrow> peek (lh_tab t) n;
     case e_k e of
       LH_EMPTY \<Rightarrow> Some None
     | LH_FREED \<Rightarrow> lh_lookup_loop left t k (lh_step (lh_size t) n)
     | Key k' \<Rightarrow> (if lh_equal_fn t k' k then Some (Some n)
                else lh_lookup_loop left t k (lh_step (lh_size t) n)) }"

definition lh_table_lookup_entry ::
  "('k, 'v) lh_table \<Rightarrow> 'k \<Rightarrow> (nat option \<times> ('k, 'v) lh_table) option" where
  "lh_table_lookup_entry t k = do {
     n \<leftarrow> lh_slot t k;
     let t = t\<lparr>lh_lookups := lh_lookups t + 1\<rparr>;
     e \<leftarrow> lh_lookup_loop (nat (lh_size t)) t k n;
     Some (e, t) }"

definition lh_table_lookup_ex ::
  "('k, 'v) lh_table \<Rightarrow> 'k \<Rightarrow> (bool \<times> 'v option \<times> ('k, 'v) lh_table) option" where
  "lh_table_lookup_ex t k = do {
     (e, t) \<leftarrow> lh_table_lookup_entry t k;
     case e of
       Some i \<Rightarrow> do { x \<leftarrow> peek (lh_tab t) i; Some (True, e_v x, t) }
     | None \<Rightarrow> Some (False, None, t) }"

definition lh_table_lookup ::
  "('k, 'v) lh_table \<Rightarrow> 'k \<Rightarrow> ('v option \<times> ('k, 'v) lh_table) option" where
  "lh_table_lookup t k = do { (b, result, t) \<leftarrow> lh_table_lookup_ex t k; Some (result, t) }"

text \<open>Removal of entry \<open>n\<close>. The pointer \<^verbatim>\<open>e\<close> is the offset \<open>n\<close> from the start of the table; the last component
  of the result is the entry given to \<^verbatim>\<open>free_fn\<close>.\<close>

definition lh_unlink ::
  "('k, 'v) lh_table \<Rightarrow> nat \<Rightarrow> ('k, 'v) lh_table option" where
  "lh_unlink t n =
     (if lh_tail t = Some n \<and> lh_head t = Some n
      then Some (t\<lparr>lh_head := None, lh_tail := None\<rparr>)
      else if lh_head t = Some n
      then do {
        tb \<leftarrow> lh_upd (lh_tab t) (e_next (lh_tab t ! n)) (\<lambda>e. e\<lparr>e_prev := None\<rparr>);
        Some (t\<lparr>lh_tab := tb, lh_head := e_next (tb ! n)\<rparr>) }
      else if lh_tail t = Some n
      then do {
        tb \<leftarrow> lh_upd (lh_tab t) (e_prev (lh_tab t ! n)) (\<lambda>e. e\<lparr>e_next := None\<rparr>);
        Some (t\<lparr>lh_tab := tb, lh_tail := e_prev (tb ! n)\<rparr>) }
      else do {
        tb \<leftarrow> lh_upd (lh_tab t) (e_prev (lh_tab t ! n)) (\<lambda>e. e\<lparr>e_next := e_next (lh_tab t ! n)\<rparr>);
        tb \<leftarrow> lh_upd tb (e_next (tb ! n)) (\<lambda>e. e\<lparr>e_prev := e_prev (tb ! n)\<rparr>);
        Some (t\<lparr>lh_tab := tb\<rparr>) })"

definition lh_table_delete_entry ::
  "('k, 'v) lh_table \<Rightarrow> int \<Rightarrow> (int \<times> ('k, 'v) lh_table \<times> ('k, 'v) lh_entry list) option" where
  "lh_table_delete_entry t n =
     (if n < 0 then Some (-2, t, [])
      else do {
        e \<leftarrow> peek (lh_tab t) (nat n);
        if e_k e = LH_EMPTY \<or> e_k e = LH_FREED then Some (-1, t, [])
        else do {
          let t = t\<lparr>lh_count := lh_count t - 1\<rparr>;
          let freed = (if lh_free_fn t then [e] else []);
          tb \<leftarrow> lh_upd (lh_tab t) (Some (nat n)) (\<lambda>e. e\<lparr>e_v := None, e_k := LH_FREED\<rparr>);
          t \<leftarrow> lh_unlink (t\<lparr>lh_tab := tb\<rparr>) (nat n);
          tb \<leftarrow> lh_upd (lh_tab t) (Some (nat n)) (\<lambda>e. e\<lparr>e_next := None, e_prev := None\<rparr>);
          Some (0, t\<lparr>lh_tab := tb\<rparr>, freed) } })"

definition lh_table_delete ::
  "('k, 'v) lh_table \<Rightarrow> 'k \<Rightarrow> (int \<times> ('k, 'v) lh_table \<times> ('k, 'v) lh_entry list) option" where
  "lh_table_delete t k = do {
     (e, t) \<leftarrow> lh_table_lookup_entry t k;
     case e of None \<Rightarrow> Some (-1, t, []) | Some i \<Rightarrow> lh_table_delete_entry t (int i) }"

definition lh_table_length :: "('k, 'v) lh_table \<Rightarrow> int" where
  "lh_table_length t = lh_count t"

section \<open>Chains of entries\<close>

definition lh_keyed :: "('k, 'v) lh_entry \<Rightarrow> bool" where
  "lh_keyed e \<longleftrightarrow> e_k e \<noteq> LH_EMPTY \<and> e_k e \<noteq> LH_FREED"

definition first_of :: "nat list \<Rightarrow> nat option \<Rightarrow> nat option" where
  "first_of xs q = (case xs of [] \<Rightarrow> q | x # _ \<Rightarrow> Some x)"

definition last_of :: "nat option \<Rightarrow> nat list \<Rightarrow> nat option" where
  "last_of p xs = (if xs = [] then p else Some (last xs))"

fun lh_seg :: "('k, 'v) lh_entry list \<Rightarrow> nat option \<Rightarrow> nat list \<Rightarrow> nat option \<Rightarrow> bool" where
  "lh_seg tb p [] q \<longleftrightarrow> True"
| "lh_seg tb p (x # xs) q \<longleftrightarrow>
     e_prev (tb ! x) = p \<and> e_next (tb ! x) = first_of xs q \<and> lh_seg tb (Some x) xs q"

lemma first_of_simps [simp]:
  "first_of [] q = q" "first_of (x # xs) q = Some x" "first_of (xs @ ys) q = first_of xs (first_of ys q)"
  by (simp_all add: first_of_def split: list.split)

lemma last_of_simps [simp]:
  "last_of p [] = p" "last_of p (xs @ x # ys) = last_of (Some x) ys" "last_of p (x # xs) = last_of (Some x) xs"
  by (simp_all add: last_of_def)

lemma lh_seg_append [simp]:
  "lh_seg tb p (xs @ ys) q \<longleftrightarrow> lh_seg tb p xs (first_of ys q) \<and> lh_seg tb (last_of p xs) ys q"
  by (induction xs arbitrary: p) auto

lemma lh_seg_cong:
  "(\<And>i. i \<in> set xs \<Longrightarrow> e_next (tb ! i) = e_next (tb' ! i) \<and> e_prev (tb ! i) = e_prev (tb' ! i))
   \<Longrightarrow> lh_seg tb p xs q = lh_seg tb' p xs q"
  by (induction xs arbitrary: p) auto

lemma lh_seg_frame [simp]: "j \<notin> set xs \<Longrightarrow> lh_seg (tb[j := e]) p xs q = lh_seg tb p xs q"
  by (rule lh_seg_cong) (metis nth_list_update_neq)

lemma lh_seg_set_next:
  assumes "lh_seg tb p (xs @ [x]) q" "distinct (xs @ [x])" "x < length tb"
  shows "lh_seg (tb[x := (tb ! x)\<lparr>e_next := q'\<rparr>]) p (xs @ [x]) q'"
  using assms by auto

lemma lh_seg_set_prev:
  assumes "lh_seg tb p (x # xs) q" "distinct (x # xs)" "x < length tb"
  shows "lh_seg (tb[x := (tb ! x)\<lparr>e_prev := p'\<rparr>]) p' (x # xs) q"
  using assms by auto

lemma lh_walk_seg:
  "lh_seg tb p xs None \<Longrightarrow> set xs \<subseteq> {..<length tb} \<Longrightarrow> length xs \<le> fuel \<Longrightarrow> lh_walk fuel tb (first_of xs None) = Some xs"
proof (induction xs arbitrary: p fuel)
  case Nil
  then show ?case by (cases fuel) auto
next
  case (Cons x xs)
  then show ?case by (cases fuel) (auto simp: peek_def)
qed

section \<open>The representation invariant\<close>

text \<open>Every used slot is reached from its key's start slot over slots that are not empty.\<close>

definition lh_path :: "('k, 'v) lh_entry list \<Rightarrow> nat \<Rightarrow> nat \<Rightarrow> nat \<Rightarrow> bool" where
  "lh_path tb h d i \<longleftrightarrow> d < length tb \<and> i = (h + d) mod length tb
     \<and> (\<forall>d' < d. e_k (tb ! ((h + d') mod length tb)) \<noteq> LH_EMPTY)"

definition lh_rep :: "('k, 'v) lh_table \<Rightarrow> nat list \<Rightarrow> bool" where
  "lh_rep t ord \<longleftrightarrow> 0 < lh_size t \<and> lh_size t = int (length (lh_tab t)) \<and> lh_count t = int (length ord)
     \<and> distinct ord \<and> set ord = {i. i < length (lh_tab t) \<and> lh_keyed (lh_tab t ! i)}
     \<and> lh_head t = first_of ord None \<and> lh_tail t = last_of None ord \<and> lh_seg (lh_tab t) None ord None
     \<and> (\<forall>i k. i < length (lh_tab t) \<longrightarrow> e_k (lh_tab t ! i) = Key k
          \<longrightarrow> (\<exists>d. lh_path (lh_tab t) (unat (lh_hash_fn t k)) d i))
     \<and> lh_equal_fn t = (=)"

definition lh_ok :: "('k, 'v) lh_table \<Rightarrow> bool" where
  "lh_ok t \<longleftrightarrow> (\<exists>ord. lh_rep t ord)"

text \<open>The contents in the order of the list.\<close>

fun lh_the_key :: "'k lh_key \<Rightarrow> 'k" where
  "lh_the_key (Key k) = k"
| "lh_the_key LH_EMPTY = undefined"
| "lh_the_key LH_FREED = undefined"

definition lh_item :: "('k, 'v) lh_entry \<Rightarrow> 'k \<times> 'v option" where
  "lh_item e = (lh_the_key (e_k e), e_v e)"

definition lh_items :: "('k, 'v) lh_table \<Rightarrow> ('k \<times> 'v option) list" where
  "lh_items t = (case lh_foreach t of None \<Rightarrow> [] | Some is \<Rightarrow> map (\<lambda>i. lh_item (lh_tab t ! i)) is)"

lemma lh_rep_bounds:
  assumes "lh_rep t ord"
  shows "set ord \<subseteq> {..<length (lh_tab t)}" "length ord \<le> length (lh_tab t)"
proof -
  show sub: "set ord \<subseteq> {..<length (lh_tab t)}" using assms by (auto simp: lh_rep_def)
  have "card (set ord) \<le> card {..<length (lh_tab t)}" by (intro card_mono sub) simp
  moreover have "distinct ord" using assms by (simp add: lh_rep_def)
  ultimately show "length ord \<le> length (lh_tab t)" by (simp add: distinct_card)
qed

lemma lh_rep_foreach: "lh_rep t ord \<Longrightarrow> lh_foreach t = Some ord"
  using lh_rep_bounds[of t ord] lh_walk_seg[of "lh_tab t" None ord "length (lh_tab t)"]
  by (auto simp: lh_foreach_def lh_rep_def)

lemma lh_rep_items: "lh_rep t ord \<Longrightarrow> lh_items t = map (\<lambda>i. lh_item (lh_tab t ! i)) ord"
  by (simp add: lh_items_def lh_rep_foreach)

lemma lh_ok_count: "lh_ok t \<Longrightarrow> lh_count t = int (length (lh_items t)) \<and> length (lh_items t) \<le> nat (lh_size t)"
proof -
  assume "lh_ok t"
  then obtain ord where r: "lh_rep t ord" by (auto simp: lh_ok_def)
  then have "lh_count t = int (length ord)" "nat (lh_size t) = length (lh_tab t)" by (simp_all add: lh_rep_def)
  then show ?thesis using lh_rep_bounds(2)[OF r] lh_rep_items[OF r] by simp
qed

lemma lh_keyed_Key: "lh_keyed e \<longleftrightarrow> (\<exists>k. e_k e = Key k)"
  by (cases "e_k e") (auto simp: lh_keyed_def)

lemma lh_new_ok:
  assumes "lh_table_new A sz name fr h (=) = Some t" "0 < sz"
  shows "lh_rep t [] \<and> lh_items t = []"
proof -
  have "lh_rep t []" using assms by (auto simp: lh_table_new_def lh_rep_def lh_blank_def lh_keyed_def split: if_splits)
  then show ?thesis by (simp add: lh_rep_items)
qed

section \<open>Probing\<close>

lemma lh_step_mod: "0 < N \<Longrightarrow> lh_step (int N) (h mod N) = Suc h mod N"
  by (auto simp: lh_step_def mod_Suc)

lemma lh_probe_finds:
  assumes "0 < length tb" "\<not> lh_keyed (tb ! ((h + d) mod length tb))" "d < fuel"
  shows "\<exists>d0 \<le> d. lh_probe fuel tb (int (length tb)) (h mod length tb) c = Some ((h + d0) mod length tb, c + of_nat d0)
    \<and> \<not> lh_keyed (tb ! ((h + d0) mod length tb)) \<and> (\<forall>d' < d0. lh_keyed (tb ! ((h + d') mod length tb)))"
  using assms(2,3)
proof (induction fuel arbitrary: h d c)
  case 0
  then show ?case by simp
next
  case (Suc fuel)
  have pk: "peek tb (h mod length tb) = Some (tb ! (h mod length tb))" using assms(1) by (simp add: peek_def)
  show ?case
  proof (cases "lh_keyed (tb ! (h mod length tb))")
    case False
    then show ?thesis using pk by (intro exI[of _ 0]) (auto simp: lh_keyed_def)
  next
    case True
    then have "d \<noteq> 0" using Suc.prems by (intro notI) auto
    then obtain e where e: "d = Suc e" by (cases d) auto
    obtain d0 where d0: "d0 \<le> e"
      "lh_probe fuel tb (int (length tb)) (Suc h mod length tb) (c + 1) = Some ((Suc h + d0) mod length tb, c + 1 + of_nat d0)"
      "\<not> lh_keyed (tb ! ((Suc h + d0) mod length tb))" "\<forall>d' < d0. lh_keyed (tb ! ((Suc h + d') mod length tb))"
      using Suc.IH[of "Suc h" e "c + 1"] Suc.prems e by auto
    have "\<forall>d' < Suc d0. lh_keyed (tb ! ((h + d') mod length tb))"
      using True d0(4) by (auto simp: less_Suc_eq_0_disj)
    then show ?thesis
      using True d0 e pk assms(1) lh_step_mod[of "length tb" h]
      by (intro exI[of _ "Suc d0"]) (auto simp: lh_keyed_def ac_simps)
  qed
qed

lemma mod_shift_reaches:
  assumes "i < (N::nat)" shows "\<exists>d < N. (h + d) mod N = i"
proof -
  have "h mod N < N" using assms by simp
  then have "h mod N + (i + (N - h mod N)) = i + N" by simp
  then have "(h + (i + (N - h mod N)) mod N) mod N = i"
    using assms by (metis mod_add_eq mod_add_self2 mod_less mod_mod_trivial)
  then show ?thesis using assms by (intro exI[of _ "(i + (N - h mod N)) mod N"]) auto
qed

lemma lh_probe_total:
  assumes "i < length tb" "\<not> lh_keyed (tb ! i)"
  shows "\<exists>d. lh_probe (length tb) tb (int (length tb)) (h mod length tb) c = Some ((h + d) mod length tb, c + of_nat d)
    \<and> d < length tb \<and> \<not> lh_keyed (tb ! ((h + d) mod length tb)) \<and> (\<forall>d' < d. lh_keyed (tb ! ((h + d') mod length tb)))"
proof -
  obtain d where "d < length tb" "(h + d) mod length tb = i" using mod_shift_reaches[OF assms(1)] by blast
  then show ?thesis using lh_probe_finds[of tb h d "length tb" c] assms by fastforce
qed

lemma lh_lookup_sound:
  assumes "lh_size t = int (length (lh_tab t))" "0 < length (lh_tab t)"
  shows "\<exists>r. lh_lookup_loop m t k (h mod length (lh_tab t)) = Some r \<and>
    (case r of
       Some i \<Rightarrow> i < length (lh_tab t) \<and> (\<exists>k'. e_k (lh_tab t ! i) = Key k' \<and> lh_equal_fn t k' k)
     | None \<Rightarrow> \<forall>d < m. (\<forall>d' < d. e_k (lh_tab t ! ((h + d') mod length (lh_tab t))) \<noteq> LH_EMPTY)
         \<longrightarrow> (\<forall>k'. e_k (lh_tab t ! ((h + d) mod length (lh_tab t))) = Key k' \<longrightarrow> \<not> lh_equal_fn t k' k))"
proof (induction m arbitrary: h)
  case 0
  then show ?case by simp
next
  case (Suc m)
  let ?N = "length (lh_tab t)" and ?e = "lh_tab t ! (h mod length (lh_tab t))"
  let ?P = "\<lambda>h r m. case r of
       Some i \<Rightarrow> i < ?N \<and> (\<exists>k'. e_k (lh_tab t ! i) = Key k' \<and> lh_equal_fn t k' k)
     | None \<Rightarrow> \<forall>d < m. (\<forall>d' < d. e_k (lh_tab t ! ((h + d') mod ?N)) \<noteq> LH_EMPTY)
         \<longrightarrow> (\<forall>k'. e_k (lh_tab t ! ((h + d) mod ?N)) = Key k' \<longrightarrow> \<not> lh_equal_fn t k' k)"
  have pk: "peek (lh_tab t) (h mod ?N) = Some ?e" using assms(2) by (simp add: peek_def)
  have st: "lh_step (lh_size t) (h mod ?N) = Suc h mod ?N" using assms lh_step_mod[of ?N h] by simp
  obtain r where r: "lh_lookup_loop m t k (Suc h mod ?N) = Some r" "?P (Suc h) r m" using Suc by blast
  have up: "?P h r (Suc m)" if "\<And>k'. e_k ?e = Key k' \<Longrightarrow> \<not> lh_equal_fn t k' k"
  proof (cases r)
    case (Some i)
    then show ?thesis using r(2) by simp
  next
    case None
    { fix d k' assume d: "d < Suc m" "\<forall>d' < d. e_k (lh_tab t ! ((h + d') mod ?N)) \<noteq> LH_EMPTY"
        "e_k (lh_tab t ! ((h + d) mod ?N)) = Key k'"
      have "\<not> lh_equal_fn t k' k"
      proof (cases d)
        case 0
        then show ?thesis using that d(3) by simp
      next
        case (Suc e)
        then have "\<forall>d' < e. e_k (lh_tab t ! ((Suc h + d') mod ?N)) \<noteq> LH_EMPTY" using d(2) by auto
        then show ?thesis using r(2) None Suc d(1,3) by auto
      qed }
    then show ?thesis using None by simp
  qed
  show ?case
  proof (cases "e_k ?e")
    case LH_EMPTY
    have "\<not> lh_equal_fn t k' k"
      if "\<forall>d' < d. e_k (lh_tab t ! ((h + d') mod ?N)) \<noteq> LH_EMPTY"
        "e_k (lh_tab t ! ((h + d) mod ?N)) = Key k'" for d k'
      using that LH_EMPTY by (cases d) auto
    then show ?thesis using pk LH_EMPTY by simp
  next
    case LH_FREED
    then show ?thesis using pk st r(1) up by (intro exI[of _ r]) simp
  next
    case (Key k')
    then show ?thesis using pk st r(1) up assms(2)
      by (cases "lh_equal_fn t k' k") (auto intro!: exI[of _ r])
  qed
qed

section \<open>Insertion\<close>

lemma lh_upd_Some [simp]: "i < length tb \<Longrightarrow> lh_upd tb (Some i) f = Some (tb[i := f (tb ! i)])"
  by (simp add: lh_upd_def peek_def poke_def)

lemma lh_entry_all_upd [simp]:
  "(e :: ('k, 'v) lh_entry)\<lparr>e_k := a, e_v := b, e_next := c, e_prev := d\<rparr>
     = \<lparr>e_k = a, e_v = b, e_next = c, e_prev = d\<rparr>"
  "(e :: ('k, 'v) lh_entry)\<lparr>e_k := a, e_v := b, e_prev := d, e_next := c\<rparr>
     = \<lparr>e_k = a, e_v = b, e_next = c, e_prev = d\<rparr>"
  "(e :: ('k, 'v) lh_entry)\<lparr>e_v := b, e_k := a, e_next := c, e_prev := d\<rparr>
     = \<lparr>e_k = a, e_v = b, e_next = c, e_prev = d\<rparr>"
  by (cases e; simp)+

lemma lh_path_mono:
  assumes "lh_path tb h d i" "length tb' = length tb"
    "\<And>j. j < length tb \<Longrightarrow> e_k (tb ! j) \<noteq> LH_EMPTY \<Longrightarrow> e_k (tb' ! j) \<noteq> LH_EMPTY"
  shows "lh_path tb' h d i"
proof -
  have "0 < length tb" using assms(1) by (auto simp: lh_path_def)
  then show ?thesis using assms by (auto simp: lh_path_def)
qed

lemma lh_link_ok:
  assumes rep: "lh_rep t ord" and n: "n < length (lh_tab t)" "\<not> lh_keyed (lh_tab t ! n)"
    and path: "lh_path (lh_tab t) (unat (lh_hash_fn t k)) d n"
  shows "\<exists>t'. lh_link t n c k v = Some t' \<and> lh_rep t' (ord @ [n]) \<and> lh_items t' = lh_items t @ [(k, v)]
    \<and> lh_size t' = lh_size t \<and> lh_free_fn t' = lh_free_fn t \<and> lh_hash_fn t' = lh_hash_fn t"
proof -
  let ?tb = "lh_tab t" and ?e = "\<lparr>e_k = Key k, e_v = v, e_next = None, e_prev = lh_tail t\<rparr>"
  note R = rep[unfolded lh_rep_def]
  have nord: "n \<notin> set ord" using R n by auto
  define tb' where "tb' = (if ord = [] then ?tb else ?tb[last ord := (?tb ! last ord)\<lparr>e_next := Some n\<rparr>])[n := ?e]"
  let ?t' = "t\<lparr>lh_collisions := c, lh_count := lh_count t + 1, lh_head := first_of (ord @ [n]) None, lh_tail := Some n, lh_tab := tb'\<rparr>"
  have last: "ord \<noteq> [] \<Longrightarrow> last ord < length ?tb \<and> last ord \<noteq> n \<and> last ord \<in> set ord"
    using R nord last_in_set[of ord] by auto
  have len: "length tb' = length ?tb" by (simp add: tb'_def)
  have k': "e_k (tb' ! i) = (if i = n then Key k else e_k (?tb ! i))" if "i < length ?tb" for i
    using that n by (cases "i = last ord") (auto simp: tb'_def)
  have v': "e_v (tb' ! i) = (if i = n then v else e_v (?tb ! i))" if "i < length ?tb" for i
    using that n by (cases "i = last ord") (auto simp: tb'_def)
  have link: "lh_link t n c k v = Some ?t'"
  proof (cases ord rule: rev_cases)
    case Nil
    then have "lh_head t = None" "lh_tail t = None" using R by simp_all
    then show ?thesis using n(1) Nil
      by (simp add: lh_link_def Let_def tb'_def nth_list_update lh_entry.defs)
  next
    case (snoc xs x)
    then have hd: "lh_head t = first_of ord None" "lh_tail t = Some x" "lh_head t \<noteq> None"
      "first_of (ord @ [n]) None = first_of ord None" "x < length ?tb" "x \<noteq> n" "last ord = x" "ord \<noteq> []"
      using R last by (cases xs; auto)+
    then have "?tb[n := a, x := b, n := e] = ?tb[x := b, n := e]" for a b e
      by (metis list_update_overwrite list_update_swap)
    moreover obtain h where "lh_head t = Some h" "first_of (ord @ [n]) None = Some h" using hd(1,3,4) by auto
    ultimately show ?thesis using n(1) hd(2,5-8) by (cases t) (simp add: lh_link_def Let_def tb'_def)
  qed
  have seg: "lh_seg tb' None (ord @ [n]) None"
  proof (cases ord rule: rev_cases)
    case Nil
    then show ?thesis using n R by (simp add: tb'_def)
  next
    case (snoc xs x)
    have "lh_seg (?tb[x := (?tb ! x)\<lparr>e_next := Some n\<rparr>]) None (xs @ [x]) (Some n)"
      using lh_seg_set_next[of ?tb None xs x None "Some n"] R snoc last by auto
    then show ?thesis using snoc nord n R by (auto simp: tb'_def)
  qed
  have paths: "\<forall>i k'. i < length tb' \<longrightarrow> e_k (tb' ! i) = Key k'
      \<longrightarrow> (\<exists>d. lh_path tb' (unat (lh_hash_fn t k')) d i)"
  proof (intro allI impI)
    fix i k' assume i: "i < length tb'" "e_k (tb' ! i) = Key k'"
    have "\<exists>d. lh_path ?tb (unat (lh_hash_fn t k')) d i"
      using i k'[of i] len path R by (cases "i = n") auto
    then show "\<exists>d. lh_path tb' (unat (lh_hash_fn t k')) d i"
      using lh_path_mono[of ?tb _ _ _ tb'] len k' by (metis lh_key.distinct(3))
  qed
  have keyed: "{i. i < length tb' \<and> lh_keyed (tb' ! i)} = insert n {i. i < length ?tb \<and> lh_keyed (?tb ! i)}"
    using n k' len by (auto simp: lh_keyed_Key)
  have rep': "lh_rep ?t' (ord @ [n])"
    using R nord seg paths keyed len by (auto simp: lh_rep_def)
  have "lh_items ?t' = lh_items t @ [(k, v)]"
    using lh_rep_items[OF rep'] lh_rep_items[OF rep] k' v' n nord R by (auto simp: lh_item_def)
  then show ?thesis using link rep' by (intro exI[of _ ?t']) simp
qed

lemma lh_place_ok:
  assumes rep: "lh_ok t" and room: "lh_count t < lh_size t"
  shows "\<exists>t'. lh_place t k v = Some t' \<and> lh_ok t' \<and> lh_items t' = lh_items t @ [(k, v)]
    \<and> lh_size t' = lh_size t \<and> lh_free_fn t' = lh_free_fn t \<and> lh_hash_fn t' = lh_hash_fn t"
proof -
  obtain ord where r: "lh_rep t ord" using rep by (auto simp: lh_ok_def)
  let ?tb = "lh_tab t" and ?h = "unat (lh_hash_fn t k)"
  have sz: "lh_size t = int (length ?tb)" "0 < lh_size t" using r by (auto simp: lh_rep_def)
  have "\<exists>i < length ?tb. \<not> lh_keyed (?tb ! i)"
  proof (rule ccontr)
    assume "\<not> ?thesis"
    then have "set ord = {..<length ?tb}" using r by (auto simp: lh_rep_def)
    moreover have "distinct ord" "lh_count t = int (length ord)" using r by (simp_all add: lh_rep_def)
    ultimately show False using room sz(1) distinct_card[of ord] by simp
  qed
  then obtain i where "i < length ?tb" "\<not> lh_keyed (?tb ! i)" by blast
  from lh_probe_total[OF this, of ?h "lh_collisions t"] obtain d where
    d: "lh_probe (length ?tb) ?tb (int (length ?tb)) (?h mod length ?tb) (lh_collisions t) = Some ((?h + d) mod length ?tb, lh_collisions t + of_nat d)"
    "d < length ?tb" "\<not> lh_keyed (?tb ! ((?h + d) mod length ?tb))" "\<forall>d' < d. lh_keyed (?tb ! ((?h + d') mod length ?tb))"
    by blast
  have "lh_path ?tb ?h d ((?h + d) mod length ?tb)" using d by (auto simp: lh_path_def lh_keyed_def)
  moreover have "(?h + d) mod length ?tb < length ?tb" using d(2) by (intro mod_less_divisor) linarith
  moreover have "lh_place t k v = lh_link t ((?h + d) mod length ?tb) (lh_collisions t + of_nat d) k v"
    using d(1) sz by (simp add: lh_place_def lh_slot_def)
  ultimately show ?thesis
    using lh_link_ok[OF r _ d(3), of k d "lh_collisions t + of_nat d" v] by (auto simp: lh_ok_def)
qed

text \<open>Copying a chain: \<open>I j\<close> is an invariant of the target table while \<open>j\<close> entries are still to come.\<close>

lemma lh_copy_ok:
  assumes step: "\<And>j s k v. I (Suc j) s \<Longrightarrow> \<exists>s'. ins s k v = Some s' \<and> I j s' \<and> lh_items s' = lh_items s @ [(k, v)]"
    and seg: "lh_seg tb p xs None" "set xs \<subseteq> {i. i < length tb \<and> lh_keyed (tb ! i)}" "length xs \<le> fuel" "I (length xs) s"
  shows "\<exists>s'. lh_copy ins fuel tb (first_of xs None) s = Some s' \<and> I 0 s' \<and> lh_items s' = lh_items s @ map (\<lambda>i. lh_item (tb ! i)) xs"
  using seg
proof (induction xs arbitrary: p fuel s)
  case Nil
  then show ?case by (cases fuel) auto
next
  case (Cons x xs)
  obtain f where f: "fuel = Suc f" using Cons.prems(3) by (cases fuel) auto
  obtain k where k: "e_k (tb ! x) = Key k" using Cons.prems(2) by (auto simp: lh_keyed_Key)
  obtain s1 where s1: "ins s k (e_v (tb ! x)) = Some s1" "I (length xs) s1" "lh_items s1 = lh_items s @ [(k, e_v (tb ! x))]"
    using step[of "length xs" s k "e_v (tb ! x)"] Cons.prems(4) by auto
  then show ?case
    using Cons.IH[of "Some x" f s1] Cons.prems f k by (auto simp: peek_def lh_item_def)
qed

text \<open>A resize whose copying never resizes in turn keeps the contents and their order.\<close>

lemma lh_resize_ok:
  fixes t :: "('k, 'v) lh_table" and ins :: "('k, 'v) lh_table \<Rightarrow> 'k \<Rightarrow> 'v option \<Rightarrow> ('k, 'v) lh_table option"
  assumes ins: "\<And>s k v. lh_ok s \<Longrightarrow> lh_size s = m \<Longrightarrow> 50 * lh_count s < 33 * m \<Longrightarrow> lh_hash_fn s = lh_hash_fn t \<Longrightarrow>
      \<exists>s'. ins s k v = Some s' \<and> lh_ok s' \<and> lh_items s' = lh_items s @ [(k, v)] \<and> lh_size s' = m \<and> lh_hash_fn s' = lh_hash_fn t"
    and t: "lh_ok t" and m: "0 < m" "50 * lh_count t < 33 * m + 50" and A: "A 1" "A m"
  shows "\<exists>t'. lh_resize_with ins A t m = Some t' \<and> lh_ok t' \<and> lh_items t' = lh_items t \<and> lh_size t' = m
    \<and> lh_count t' = lh_count t \<and> lh_free_fn t' = lh_free_fn t \<and> lh_hash_fn t' = lh_hash_fn t"
proof -
  obtain ord where r: "lh_rep t ord" using t by (auto simp: lh_ok_def)
  have eq: "lh_equal_fn t = (=)" using r by (simp add: lh_rep_def)
  obtain s :: "('k, 'v) lh_table" where s: "lh_table_new A m (lh_name t) False (lh_hash_fn t) (lh_equal_fn t) = Some s"
    "lh_size s = m" "lh_hash_fn s = lh_hash_fn t"
    using A m(1) by (auto simp: lh_table_new_def)
  have s0: "lh_rep s []" "lh_items s = []" using lh_new_ok[OF s(1)[unfolded eq] m(1)] by auto
  define I where "I = (\<lambda>j (s :: ('k, 'v) lh_table). lh_ok s \<and> lh_size s = m \<and> lh_hash_fn s = lh_hash_fn t \<and> 50 * (lh_count s + int j) < 33 * m + 50)"
  have step: "\<exists>s'. ins s k v = Some s' \<and> I j s' \<and> lh_items s' = lh_items s @ [(k, v)]" if "I (Suc j) s" for j s k v
  proof -
    have I: "lh_ok s" "lh_size s = m" "lh_hash_fn s = lh_hash_fn t" "50 * (lh_count s + int (Suc j)) < 33 * m + 50"
      using that by (simp_all add: I_def)
    then obtain s' where s': "ins s k v = Some s'" "lh_ok s'" "lh_items s' = lh_items s @ [(k, v)]" "lh_size s' = m"
      "lh_hash_fn s' = lh_hash_fn t"
      using ins[of s k v] by auto
    have "lh_count s' = lh_count s + 1" using lh_ok_count[OF s'(2)] lh_ok_count[OF I(1)] s'(3) by simp
    then have "I j s'" using I s' by (simp add: I_def)
    then show ?thesis using s' by blast
  qed
  have "I (length ord) s" using s0 s m(2) r by (auto simp: I_def lh_ok_def lh_rep_def)
  then obtain s' where s': "lh_copy ins (length (lh_tab t)) (lh_tab t) (first_of ord None) s = Some s'" "I 0 s'"
    "lh_items s' = lh_items s @ map (\<lambda>i. lh_item (lh_tab t ! i)) ord"
    using lh_copy_ok[of I ins "lh_tab t" None ord "length (lh_tab t)" s] step lh_rep_bounds[OF r] r
    by (auto simp: lh_rep_def)
  let ?t' = "t\<lparr>lh_tab := lh_tab s', lh_size := m, lh_head := lh_head s', lh_tail := lh_tail s', lh_resizes := lh_resizes t + 1\<rparr>"
  have items: "lh_items s' = lh_items t" using s'(3) s0 lh_rep_items[OF r] by simp
  have S': "lh_ok s'" "lh_size s' = m" "lh_hash_fn s' = lh_hash_fn t" using s'(2) by (simp_all add: I_def)
  obtain ord' where r': "lh_rep s' ord'" using S'(1) by (auto simp: lh_ok_def)
  have "lh_count s' = lh_count t" using lh_ok_count[OF S'(1)] lh_ok_count[OF t] items by simp
  then have rt: "lh_rep ?t' ord'" using r' S' eq by (auto simp: lh_rep_def)
  have "lh_items ?t' = lh_items t" using lh_rep_items[OF rt] lh_rep_items[OF r'] items by simp
  then show ?thesis
    using s(1) s'(1) r rt by (auto simp: lh_resize_with_def lh_rep_def lh_ok_def)
qed

lemma lh_ok_inserts [simp]:
  "lh_ok (t\<lparr>lh_inserts := x\<rparr>) = lh_ok t" "lh_items (t\<lparr>lh_inserts := x\<rparr>) = lh_items t"
  "lh_ok (t\<lparr>lh_lookups := x\<rparr>) = lh_ok t" "lh_items (t\<lparr>lh_lookups := x\<rparr>) = lh_items t"
  by (simp_all add: lh_ok_def lh_rep_def lh_items_def lh_foreach_def cong: option.case_cong)

lemma lh_insert_fuel_light:
  assumes "lh_ok t" "50 * lh_count t < 33 * lh_size t"
  shows "\<exists>t'. lh_insert_fuel (Suc d) A t k v = Some t' \<and> lh_ok t' \<and> lh_items t' = lh_items t @ [(k, v)]
    \<and> lh_size t' = lh_size t \<and> lh_free_fn t' = lh_free_fn t \<and> lh_hash_fn t' = lh_hash_fn t"
proof -
  have "0 < lh_size t" using assms(1) by (auto simp: lh_ok_def lh_rep_def)
  then show ?thesis
    using assms lh_place_ok[of "t\<lparr>lh_inserts := lh_inserts t + 1\<rparr>" k v]
    by (auto simp: lh_insert_fuel.simps Let_def lh_loaded_def)
qed

text \<open>The bound on the depth: two levels are enough, and any larger bound gives the same.\<close>

lemma lh_insert_fuel_ok:
  assumes t: "lh_ok t" and sz: "lh_size t * 2 \<le> INT_MAX" and A: "A 1" "A (lh_size t * 2)"
  shows "\<exists>t'. lh_insert_fuel (Suc (Suc d)) A t k v = Some t' \<and> lh_ok t' \<and> lh_items t' = lh_items t @ [(k, v)]
    \<and> (lh_size t' = lh_size t \<or> lh_size t' = lh_size t * 2) \<and> lh_free_fn t' = lh_free_fn t \<and> lh_hash_fn t' = lh_hash_fn t"
proof (cases "50 * lh_count t < 33 * lh_size t")
  case True
  then show ?thesis using lh_insert_fuel_light[OF t, of "Suc d" A k v] by auto
next
  case False
  let ?t = "t\<lparr>lh_inserts := lh_inserts t + 1\<rparr>" and ?m = "lh_size t * 2"
  have pos: "0 < lh_size t" using t by (auto simp: lh_ok_def lh_rep_def)
  have cnt: "lh_count t \<le> lh_size t" using lh_ok_count[OF t] pos by linarith
  have "\<exists>s'. lh_insert_fuel (Suc d) A s k v = Some s' \<and> lh_ok s' \<and> lh_items s' = lh_items s @ [(k, v)] \<and> lh_size s' = ?m \<and> lh_hash_fn s' = lh_hash_fn ?t"
    if "lh_ok s" "lh_size s = ?m" "50 * lh_count s < 33 * ?m" "lh_hash_fn s = lh_hash_fn ?t" for s k v
    using lh_insert_fuel_light[of s d A k v] that by auto
  note ins = this
  obtain t1 where t1: "lh_resize_with (lh_insert_fuel (Suc d) A) A ?t ?m = Some t1" "lh_ok t1" "lh_items t1 = lh_items ?t"
    "lh_size t1 = ?m" "lh_count t1 = lh_count ?t" "lh_free_fn t1 = lh_free_fn ?t" "lh_hash_fn t1 = lh_hash_fn ?t"
    using lh_resize_ok[of ?m ?t "lh_insert_fuel (Suc d) A" A, OF ins] t pos cnt A by auto
  have "c_int ?m = Some ?m" using sz pos by (intro c_int_Some) (auto simp: c_eval)
  then have "lh_insert_fuel (Suc (Suc d)) A t k v = lh_place t1 k v"
    using False t1(1) by (simp add: Let_def lh_loaded_def lh_insert_fuel.simps(2)[of "Suc d"])
  then show ?thesis using lh_place_ok[OF t1(2), of k v] t1 cnt pos by auto
qed

section \<open>Lookup\<close>

lemma lh_items_keys:
  assumes "lh_rep t ord" "i \<in> set ord"
  shows "e_k (lh_tab t ! i) = Key (fst (lh_item (lh_tab t ! i)))" "i < length (lh_tab t)"
  using assms by (auto simp: lh_rep_def lh_keyed_Key lh_item_def)

lemma lh_rep_path:
  "lh_rep t ord \<Longrightarrow> i < length (lh_tab t) \<Longrightarrow> e_k (lh_tab t ! i) = Key k \<Longrightarrow> \<exists>d. lh_path (lh_tab t) (unat (lh_hash_fn t k)) d i"
  unfolding lh_rep_def by blast

lemma lh_lookup_entry_ok:
  assumes rep: "lh_rep t ord"
  shows "\<exists>r. lh_table_lookup_entry t k = Some (r, t\<lparr>lh_lookups := lh_lookups t + 1\<rparr>) \<and>
    (case r of Some i \<Rightarrow> i \<in> set ord \<and> fst (lh_item (lh_tab t ! i)) = k
     | None \<Rightarrow> k \<notin> fst ` set (lh_items t))"
proof -
  let ?t = "t\<lparr>lh_lookups := lh_lookups t + 1\<rparr>" and ?N = "length (lh_tab t)" and ?h = "unat (lh_hash_fn t k)"
  have R: "lh_size t = int ?N" "0 < ?N" "lh_equal_fn t = (=)" "set ord = {i. i < ?N \<and> lh_keyed (lh_tab t ! i)}"
    using rep by (auto simp: lh_rep_def)
  obtain r where r: "lh_lookup_loop ?N ?t k (?h mod ?N) = Some r"
    "case r of
       Some i \<Rightarrow> i < ?N \<and> (\<exists>k'. e_k (lh_tab t ! i) = Key k' \<and> lh_equal_fn t k' k)
     | None \<Rightarrow> \<forall>d < ?N. (\<forall>d' < d. e_k (lh_tab t ! ((?h + d') mod ?N)) \<noteq> LH_EMPTY)
         \<longrightarrow> (\<forall>k'. e_k (lh_tab t ! ((?h + d) mod ?N)) = Key k' \<longrightarrow> \<not> lh_equal_fn t k' k)"
    using lh_lookup_sound[of ?t ?N k ?h] R by (auto cong: option.case_cong)
  have "case r of Some i \<Rightarrow> i \<in> set ord \<and> fst (lh_item (lh_tab t ! i)) = k
     | None \<Rightarrow> k \<notin> fst ` set (lh_items t)"
  proof (cases r)
    case (Some i)
    then show ?thesis using r(2) R by (auto simp: lh_keyed_Key lh_item_def)
  next
    case None
    have "k \<notin> fst ` set (lh_items t)"
    proof
      assume "k \<in> fst ` set (lh_items t)"
      then obtain i where i: "i \<in> set ord" "fst (lh_item (lh_tab t ! i)) = k" using lh_rep_items[OF rep] by auto
      then have "e_k (lh_tab t ! i) = Key k" "i < ?N" using lh_items_keys[OF rep] by auto
      moreover then obtain d where "lh_path (lh_tab t) ?h d i" using lh_rep_path[OF rep] by blast
      ultimately show False using r(2) None R(3) by (auto simp: lh_path_def)
    qed
    then show ?thesis using None by simp
  qed
  moreover have "lh_table_lookup_entry t k = Some (r, ?t)"
    using r(1) R by (simp add: lh_table_lookup_entry_def lh_slot_def Let_def)
  ultimately show ?thesis by blast
qed

lemma lh_lookup_ex_ok:
  assumes ok: "lh_ok t" and dist: "distinct (map fst (lh_items t))"
  shows "lh_table_lookup_ex t k = Some (k \<in> fst ` set (lh_items t), Option.bind (map_of (lh_items t) k) id, t\<lparr>lh_lookups := lh_lookups t + 1\<rparr>)"
proof -
  obtain ord where rep: "lh_rep t ord" using ok by (auto simp: lh_ok_def)
  obtain r where r: "lh_table_lookup_entry t k = Some (r, t\<lparr>lh_lookups := lh_lookups t + 1\<rparr>)"
    "case r of Some i \<Rightarrow> i \<in> set ord \<and> fst (lh_item (lh_tab t ! i)) = k | None \<Rightarrow> k \<notin> fst ` set (lh_items t)"
    using lh_lookup_entry_ok[OF rep] by blast
  show ?thesis
  proof (cases r)
    case None
    then have "map_of (lh_items t) k = None" using r(2) by (simp add: map_of_eq_None_iff)
    then show ?thesis using r None by (simp add: lh_table_lookup_ex_def)
  next
    case (Some i)
    then have "(k, e_v (lh_tab t ! i)) \<in> set (lh_items t)" using r(2) lh_rep_items[OF rep] by (auto simp: lh_item_def)
    then have "map_of (lh_items t) k = Some (e_v (lh_tab t ! i))" "k \<in> fst ` set (lh_items t)"
      using dist by (auto intro: rev_image_eqI)
    moreover have "peek (lh_tab t) i = Some (lh_tab t ! i)"
      using lh_items_keys(2)[OF rep, of i] r(2) Some by (simp add: peek_def)
    ultimately show ?thesis using r Some by (simp add: lh_table_lookup_ex_def)
  qed
qed

section \<open>Removal\<close>

text \<open>The table after the removal of \<open>n\<close> from the chain \<open>xs @ n # ys\<close>.\<close>

definition lh_cut :: "('k, 'v) lh_entry list \<Rightarrow> nat list \<Rightarrow> nat \<Rightarrow> nat list \<Rightarrow> ('k, 'v) lh_entry list" where
  "lh_cut tb xs n ys =
     (let a = (if xs = [] then tb else tb[last xs := (tb ! last xs)\<lparr>e_next := first_of ys None\<rparr>]);
          b = (if ys = [] then a else a[hd ys := (a ! hd ys)\<lparr>e_prev := last_of None xs\<rparr>])
      in b[n := \<lparr>e_k = LH_FREED, e_v = None, e_next = None, e_prev = None\<rparr>])"

lemma nth_upd_if: "xs[j := x] ! i = (if i = j \<and> j < length xs then x else xs ! i)"
  by (cases "i = j"; cases "j < length xs") (simp_all add: list_update_beyond)

lemma upd_overwritten:
  "xs[n := a, y := b, n := c] = xs[y := b, n := c]"
  "xs[n := a, x := d, y := b, n := c] = xs[x := d, y := b, n := c]"
  by (rule nth_equalityI; simp add: nth_upd_if)+

lemma lh_relink_content [simp]:
  "e_k (tb[j := (tb ! j)\<lparr>e_next := q\<rparr>] ! i) = e_k (tb ! i)" "e_v (tb[j := (tb ! j)\<lparr>e_next := q\<rparr>] ! i) = e_v (tb ! i)"
  "e_k (tb[j := (tb ! j)\<lparr>e_prev := q\<rparr>] ! i) = e_k (tb ! i)" "e_v (tb[j := (tb ! j)\<lparr>e_prev := q\<rparr>] ! i) = e_v (tb ! i)"
  by (simp_all add: nth_upd_if)

lemma lh_cut_content:
  assumes "n < length tb"
  shows "length (lh_cut tb xs n ys) = length tb"
    "e_k (lh_cut tb xs n ys ! i) = (if i = n then LH_FREED else e_k (tb ! i))"
    "i \<noteq> n \<Longrightarrow> lh_item (lh_cut tb xs n ys ! i) = lh_item (tb ! i)"
  using assms by (simp_all add: lh_cut_def Let_def lh_item_def)

lemma lh_cut_seg:
  assumes seg: "lh_seg tb None (xs @ n # ys) None" and dist: "distinct (xs @ n # ys)"
    and sub: "set (xs @ n # ys) \<subseteq> {..<length tb}"
  shows "lh_seg (lh_cut tb xs n ys) None (xs @ ys) None"
proof -
  define a where "a = (if xs = [] then tb else tb[last xs := (tb ! last xs)\<lparr>e_next := first_of ys None\<rparr>])"
  have xs: "lh_seg a None xs (first_of ys None)"
  proof (cases xs rule: rev_cases)
    case (snoc zs z)
    then show ?thesis using lh_seg_set_next[of tb None zs z "Some n" "first_of ys None"] seg dist sub by (simp add: a_def)
  qed simp
  have ys: "lh_seg a (Some n) ys None"
  proof (cases "xs = []")
    case False
    then have "last xs \<notin> set ys" by (metis dist distinct_append disjoint_iff last_in_set list.set_intros(2))
    then show ?thesis using seg by (simp add: a_def)
  qed (use seg in \<open>simp add: a_def\<close>)
  define b where "b = (if ys = [] then a else a[hd ys := (a ! hd ys)\<lparr>e_prev := last_of None xs\<rparr>])"
  have "lh_seg b None xs (first_of ys None) \<and> lh_seg b (last_of None xs) ys None"
  proof (cases ys)
    case (Cons y zs)
    then have "lh_seg (a[y := (a ! y)\<lparr>e_prev := last_of None xs\<rparr>]) (last_of None xs) ys None"
      using lh_seg_set_prev[of a "Some n" y zs None "last_of None xs"] ys dist sub by (simp add: a_def)
    then show ?thesis using Cons xs dist by (simp add: b_def)
  qed (use xs in \<open>simp add: b_def\<close>)
  moreover have "lh_cut tb xs n ys = b[n := \<lparr>e_k = LH_FREED, e_v = None, e_next = None, e_prev = None\<rparr>]"
    by (simp add: lh_cut_def a_def b_def Let_def)
  ultimately show ?thesis using dist by simp
qed

lemma last_of_notin: "n \<notin> set (y # zs) \<Longrightarrow> \<exists>l. last_of (Some y) zs = Some l \<and> l \<noteq> n"
  using last_in_set[of "y # zs"] by (auto simp: last_of_def simp del: last_in_set split: if_splits)

lemma distinct_mid: "distinct (xs @ k # ys) \<Longrightarrow> k \<notin> set (xs @ ys)"
  by simp

lemma lh_delete_entry_cut:
  assumes rep: "lh_rep t (xs @ n # ys)"
  shows "lh_table_delete_entry t (int n) = Some (0, t\<lparr>lh_count := lh_count t - 1, lh_head := first_of (xs @ ys) None,
      lh_tail := last_of None (xs @ ys), lh_tab := lh_cut (lh_tab t) xs n ys\<rparr>,
      if lh_free_fn t then [lh_tab t ! n] else [])"
proof -
  let ?tb = "lh_tab t"
  note R = rep[unfolded lh_rep_def]
  have n: "n < length ?tb" "lh_keyed (?tb ! n)" using R by auto
  have nk: "e_k (?tb ! n) \<noteq> LH_EMPTY" "e_k (?tb ! n) \<noteq> LH_FREED" using n(2) by (simp_all add: lh_keyed_def)
  have ht: "lh_head t = first_of (xs @ n # ys) None" "lh_tail t = last_of None (xs @ n # ys)" using R by simp_all
  have nx: "e_next (?tb ! n) = first_of ys None" "e_prev (?tb ! n) = last_of None xs" using R by simp_all
  have dist: "distinct (xs @ n # ys)" using R by simp
  have sub: "set (xs @ n # ys) \<subseteq> {..<length ?tb}" using lh_rep_bounds(1)[OF rep] .
  show ?thesis
  proof (cases xs rule: rev_cases)
    case Nil
    show ?thesis
    proof (cases ys)
      case Nil
      then show ?thesis using \<open>xs = []\<close> n nk ht
        by (cases t) (simp add: lh_table_delete_entry_def lh_unlink_def lh_cut_def peek_def Let_def upd_overwritten)
    next
      case (Cons y zs)
      obtain l where l: "last_of (Some y) zs = Some l" "l \<noteq> n" using Cons dist last_of_notin[of n y zs] by auto
      show ?thesis using l Cons \<open>xs = []\<close> n nk ht nx dist sub
        by (cases t) (simp add: lh_table_delete_entry_def lh_unlink_def lh_cut_def peek_def Let_def upd_overwritten)
    qed
  next
    case (snoc zs z)
    obtain h where hd: "\<And>q. first_of zs (Some z) = Some h" "h \<noteq> n" using snoc dist by (cases zs; auto)
    show ?thesis
    proof (cases ys)
      case Nil
      then show ?thesis using snoc hd n nk ht nx dist sub
        by (cases t) (simp add: lh_table_delete_entry_def lh_unlink_def lh_cut_def peek_def Let_def upd_overwritten)
    next
      case (Cons y ws)
      obtain l where l: "last_of (Some y) ws = Some l" "l \<noteq> n" using Cons dist last_of_notin[of n y ws] by auto
      show ?thesis using l Cons snoc hd n nk ht nx dist sub
        by (cases t) (simp add: lh_table_delete_entry_def lh_unlink_def lh_cut_def peek_def Let_def upd_overwritten)
    qed
  qed
qed

lemma lh_delete_entry_ok:
  assumes rep: "lh_rep t (xs @ n # ys)"
  shows "\<exists>t'. lh_table_delete_entry t (int n) = Some (0, t', if lh_free_fn t then [lh_tab t ! n] else [])
    \<and> lh_rep t' (xs @ ys) \<and> lh_items t' = map (\<lambda>i. lh_item (lh_tab t ! i)) (xs @ ys)
    \<and> lh_size t' = lh_size t \<and> lh_free_fn t' = lh_free_fn t \<and> lh_hash_fn t' = lh_hash_fn t"
proof -
  let ?tb = "lh_tab t" and ?tb' = "lh_cut (lh_tab t) xs n ys"
  let ?t' = "t\<lparr>lh_count := lh_count t - 1, lh_head := first_of (xs @ ys) None,
      lh_tail := last_of None (xs @ ys), lh_tab := ?tb'\<rparr>"
  note R = rep[unfolded lh_rep_def]
  have n: "n < length ?tb" using R by auto
  note C = lh_cut_content[OF n, where xs = xs and ys = ys]
  have "lh_seg ?tb' None (xs @ ys) None" using lh_cut_seg lh_rep_bounds[OF rep] R by blast
  moreover have "set (xs @ ys) = {i. i < length ?tb' \<and> lh_keyed (?tb' ! i)}"
  proof -
    have "set (xs @ ys) = set (xs @ n # ys) - {n}" using R by auto
    also have "set (xs @ n # ys) = {i. i < length ?tb \<and> lh_keyed (?tb ! i)}" using R by blast
    also have "\<dots> - {n} = {i. i < length ?tb' \<and> lh_keyed (?tb' ! i)}" using C by (auto simp: lh_keyed_def)
    finally show ?thesis .
  qed
  moreover have "\<exists>d. lh_path ?tb' (unat (lh_hash_fn t k)) d i" if "i < length ?tb'" "e_k (?tb' ! i) = Key k" for i k
  proof -
    have "i < length ?tb" "e_k (?tb ! i) = Key k" using that C by (auto split: if_splits)
    then obtain d where "lh_path ?tb (unat (lh_hash_fn t k)) d i" using R by blast
    then have "lh_path ?tb' (unat (lh_hash_fn t k)) d i" by (rule lh_path_mono) (simp_all add: C)
    then show ?thesis by blast
  qed
  ultimately have rep': "lh_rep ?t' (xs @ ys)" using R C(1) by (auto simp: lh_rep_def)
  moreover have "lh_items ?t' = map (\<lambda>i. lh_item (lh_tab t ! i)) (xs @ ys)"
  proof -
    have "n \<notin> set (xs @ ys)" using R by auto
    then have "map (\<lambda>i. lh_item (?tb' ! i)) (xs @ ys) = map (\<lambda>i. lh_item (?tb ! i)) (xs @ ys)"
      by (intro map_cong refl C(3)) blast
    then show ?thesis using lh_rep_items[OF rep'] by simp
  qed
  ultimately show ?thesis using lh_delete_entry_cut[OF rep] by (intro exI[of _ ?t']) simp
qed

lemma lh_rep_lookups [simp]: "lh_rep (t\<lparr>lh_lookups := x\<rparr>) ord = lh_rep t ord"
  by (simp add: lh_rep_def)

text \<open>Deleting a key removes the entry that the lookup finds, and no other.\<close>

lemma lh_delete_ok:
  assumes ok: "lh_ok t" and dist: "distinct (map fst (lh_items t))"
  shows "\<exists>t' freed. lh_table_delete t k = Some (if k \<in> fst ` set (lh_items t) then 0 else -1, t', freed)
    \<and> lh_ok t' \<and> lh_items t' = filter (\<lambda>(k', _). k' \<noteq> k) (lh_items t)
    \<and> map lh_item freed = (if lh_free_fn t then filter (\<lambda>(k', _). k' = k) (lh_items t) else [])
    \<and> lh_size t' = lh_size t \<and> lh_free_fn t' = lh_free_fn t \<and> lh_hash_fn t' = lh_hash_fn t"
proof -
  obtain ord where rep: "lh_rep t ord" using ok by (auto simp: lh_ok_def)
  obtain r where r: "lh_table_lookup_entry t k = Some (r, t\<lparr>lh_lookups := lh_lookups t + 1\<rparr>)"
    "case r of Some i \<Rightarrow> i \<in> set ord \<and> fst (lh_item (lh_tab t ! i)) = k | None \<Rightarrow> k \<notin> fst ` set (lh_items t)"
    using lh_lookup_entry_ok[OF rep] by blast
  show ?thesis
  proof (cases r)
    case None
    then have "filter (\<lambda>(k', _). k' \<noteq> k) (lh_items t) = lh_items t" "filter (\<lambda>(k', _). k' = k) (lh_items t) = []"
      using r(2) by (force simp: filter_id_conv filter_empty_conv)+
    then show ?thesis using r None ok by (simp add: lh_table_delete_def)
  next
    case (Some i)
    then have "i \<in> set ord" using r(2) by simp
    then obtain xs ys where ord: "ord = xs @ i # ys" by (meson split_list)
    have k: "fst (lh_item (lh_tab t ! i)) = k" using r(2) Some by simp
    let ?f = "\<lambda>i. lh_item (lh_tab t ! i)"
    have it: "lh_items t = map ?f xs @ ?f i # map ?f ys" using lh_rep_items[OF rep] ord by simp
    have "map fst (lh_items t) = map (\<lambda>j. fst (?f j)) xs @ k # map (\<lambda>j. fst (?f j)) ys" using it k by (simp add: comp_def)
    then have "distinct (map (\<lambda>j. fst (?f j)) xs @ k # map (\<lambda>j. fst (?f j)) ys)" using dist by metis
    from distinct_mid[OF this] have "k \<notin> set (map (\<lambda>j. fst (?f j)) (xs @ ys))" by simp
    then have nk: "\<And>j. j \<in> set (xs @ ys) \<Longrightarrow> fst (?f j) \<noteq> k" unfolding set_map by blast
    have "(case ?f j of (k', _) \<Rightarrow> k' \<noteq> k)" if "j \<in> set (xs @ ys)" for j
      using nk[OF that] by (simp add: case_prod_beta)
    then have keep: "filter (\<lambda>(k', _). k' \<noteq> k) (map ?f (xs @ ys)) = map ?f (xs @ ys)"
      "filter (\<lambda>(k', _). k' = k) (map ?f (xs @ ys)) = []"
      unfolding filter_id_conv filter_empty_conv set_map using nk by (fastforce simp: case_prod_beta)+
    then have "filter (\<lambda>(k', _). k' \<noteq> k) (lh_items t) = map ?f (xs @ ys)" "filter (\<lambda>(k', _). k' = k) (lh_items t) = [?f i]"
      using it k by (auto split: prod.splits)
    moreover have "k \<in> fst ` set (lh_items t)" using it k by auto
    moreover obtain t' where "lh_table_delete_entry (t\<lparr>lh_lookups := lh_lookups t + 1\<rparr>) (int i)
        = Some (0, t', if lh_free_fn t then [lh_tab t ! i] else [])" "lh_rep t' (xs @ ys)" "lh_items t' = map ?f (xs @ ys)"
      "lh_size t' = lh_size t \<and> lh_free_fn t' = lh_free_fn t \<and> lh_hash_fn t' = lh_hash_fn t"
      using lh_delete_entry_ok[of "t\<lparr>lh_lookups := lh_lookups t + 1\<rparr>" xs i ys] rep ord by auto
    moreover have "lh_ok t'" using calculation by (auto simp: lh_ok_def)
    ultimately show ?thesis using r Some by (simp add: lh_table_delete_def)
  qed
qed

lemma lh_table_free_ok:
  "lh_ok t \<Longrightarrow> \<exists>freed. lh_table_free t = Some freed \<and> map lh_item freed = (if lh_free_fn t then lh_items t else [])"
  by (auto simp: lh_ok_def lh_table_free_def lh_rep_foreach lh_rep_items)

section \<open>The interface of an ordered dictionary\<close>

text \<open>What the users of the table rely on. \<open>room\<close> is the condition under which an insertion cannot
  overflow; every operation of the interface returns.\<close>

locale ordered_dict =
  fixes ok :: "'t \<Rightarrow> bool" and room :: "'t \<Rightarrow> bool" and items :: "'t \<Rightarrow> ('k \<times> 'v option) list"
    and ins :: "'t \<Rightarrow> 'k \<Rightarrow> 'v option \<Rightarrow> 't option"
    and look :: "'t \<Rightarrow> 'k \<Rightarrow> (bool \<times> 'v option \<times> 't) option"
    and del :: "'t \<Rightarrow> 'k \<Rightarrow> (int \<times> 't \<times> 'e list) option"
  assumes ins_law: "ok t \<Longrightarrow> room t \<Longrightarrow> \<exists>t'. ins t k v = Some t' \<and> ok t' \<and> items t' = items t @ [(k, v)]"
    and look_law: "ok t \<Longrightarrow> distinct (map fst (items t)) \<Longrightarrow>
      \<exists>t'. look t k = Some (k \<in> fst ` set (items t), Option.bind (map_of (items t) k) id, t') \<and> ok t' \<and> items t' = items t"
    and del_law: "ok t \<Longrightarrow> distinct (map fst (items t)) \<Longrightarrow>
      \<exists>r t' fs. del t k = Some (r, t', fs) \<and> ok t' \<and> items t' = filter (\<lambda>(k', _). k' \<noteq> k) (items t)"
begin

lemma look_after_ins:
  assumes "ok t" "room t" "distinct (map fst (items t))" "k \<notin> fst ` set (items t)"
  shows "\<exists>t1 t2. ins t k v = Some t1 \<and> look t1 k = Some (True, v, t2)"
    and "k' \<noteq> k \<Longrightarrow> \<exists>t1 t2 t3. ins t k v = Some t1
      \<and> map_option (\<lambda>(b, x, _). (b, x)) (look t1 k') = map_option (\<lambda>(b, x, _). (b, x)) (look t k')"
proof -
  obtain t1 where t1: "ins t k v = Some t1" "ok t1" "items t1 = items t @ [(k, v)]" using ins_law assms by blast
  have d: "distinct (map fst (items t1))" using t1(3) assms(3,4) by simp
  have "map_of (items t) k = None" using assms(4) by (simp add: map_of_eq_None_iff)
  then show "\<exists>t1 t2. ins t k v = Some t1 \<and> look t1 k = Some (True, v, t2)"
    using look_law[OF t1(2) d, of k] t1 by (auto simp: map_add_def)
  assume ne: "k' \<noteq> k"
  show "\<exists>t1 t2 t3. ins t k v = Some t1
      \<and> map_option (\<lambda>(b, x, _). (b, x)) (look t1 k') = map_option (\<lambda>(b, x, _). (b, x)) (look t k')"
    using look_law[OF t1(2) d, of k'] look_law[OF assms(1,3), of k'] t1 ne by (auto simp: map_add_def split: option.splits)
qed

lemma look_after_del:
  assumes "ok t" "distinct (map fst (items t))"
  shows "\<exists>r t1 fs t2. del t k = Some (r, t1, fs) \<and> look t1 k = Some (False, None, t2)
    \<and> distinct (map fst (items t1))"
proof -
  obtain r t1 fs where t1: "del t k = Some (r, t1, fs)" "ok t1" "items t1 = filter (\<lambda>(k', _). k' \<noteq> k) (items t)"
    using del_law assms by blast
  have d: "distinct (map fst (items t1))" using t1(3) assms(2) by (simp add: distinct_map_filter)
  have "k \<notin> fst ` set (items t1)" using t1(3) by auto
  moreover then have "map_of (items t1) k = None" by (simp add: map_of_eq_None_iff)
  ultimately show ?thesis using look_law[OF t1(2) d, of k] t1(1) d by auto
qed

end

definition lh_room :: "('k, 'v) lh_table \<Rightarrow> bool" where
  "lh_room t \<longleftrightarrow> lh_size t * 2 \<le> INT_MAX"

lemma lh_table_insert_ok:
  assumes "lh_ok t" "lh_room t" "A 1" "A (lh_size t * 2)"
  shows "\<exists>t'. lh_table_insert A t k v = Some t' \<and> lh_ok t' \<and> lh_items t' = lh_items t @ [(k, v)]
    \<and> (lh_size t' = lh_size t \<or> lh_size t' = lh_size t * 2) \<and> lh_free_fn t' = lh_free_fn t \<and> lh_hash_fn t' = lh_hash_fn t"
proof -
  have "lh_depth = Suc (Suc 0)" by (simp add: lh_depth_def)
  then show ?thesis
    using lh_insert_fuel_ok[of t A 0 k v] assms unfolding lh_table_insert_def lh_room_def by metis
qed

interpretation lhd: ordered_dict lh_ok lh_room lh_items "lh_table_insert (\<lambda>_. True)" lh_table_lookup_ex lh_table_delete
proof unfold_locales
  fix t :: "('a, 'b) lh_table" and k v
  show "lh_ok t \<Longrightarrow> lh_room t \<Longrightarrow>
      \<exists>t'. lh_table_insert (\<lambda>_. True) t k v = Some t' \<and> lh_ok t' \<and> lh_items t' = lh_items t @ [(k, v)]"
    using lh_table_insert_ok[of t "\<lambda>_. True" k v] by auto
  assume t: "lh_ok t" "distinct (map fst (lh_items t))"
  show "\<exists>t'. lh_table_lookup_ex t k = Some (k \<in> fst ` set (lh_items t), Option.bind (map_of (lh_items t) k) id, t')
      \<and> lh_ok t' \<and> lh_items t' = lh_items t"
    using lh_lookup_ex_ok[OF t, of k] t by auto
  show "\<exists>r t' fs. lh_table_delete t k = Some (r, t', fs) \<and> lh_ok t'
      \<and> lh_items t' = filter (\<lambda>(k', _). k' \<noteq> k) (lh_items t)"
    using lh_delete_ok[OF t, of k] by auto
qed

section \<open>Properties\<close>

text \<open>C4: On a table that satisfies the representation invariant and holds each key once, with room to
  double, insertion (resizing when the load factor is reached, through a chain of copies), lookup
  and deletion all return, within the bound on the depth of the calls and the rounds of the probing
  loops. They act on the ordered contents as on an association list: insertion appends, lookup finds
  exactly the value of a stored key, deletion removes exactly that key, keeps the order of the rest
  and passes the removed entry to the release function. Each preserves the invariant.\<close>

theorem lh_table_refines:
  assumes "lh_ok t" "lh_room t" "distinct (map fst (lh_items t))"
  shows "(\<exists>t'. lh_table_insert (\<lambda>_. True) t k v = Some t' \<and> lh_ok t' \<and> lh_items t' = lh_items t @ [(k, v)])
    \<and> (\<exists>t'. lh_table_lookup_ex t k = Some (k \<in> fst ` set (lh_items t), Option.bind (map_of (lh_items t) k) id, t')
         \<and> lh_ok t' \<and> lh_items t' = lh_items t)
    \<and> (\<exists>t' freed. lh_table_delete t k = Some (if k \<in> fst ` set (lh_items t) then 0 else -1, t', freed)
         \<and> lh_ok t' \<and> lh_items t' = filter (\<lambda>(k', _). k' \<noteq> k) (lh_items t)
         \<and> map lh_item freed = (if lh_free_fn t then filter (\<lambda>(k', _). k' = k) (lh_items t) else []))"
  using lhd.ins_law[OF assms(1,2), of k v] lhd.look_law[OF assms(1,3), of k] lh_delete_ok[OF assms(1,3), of k]
  by blast

lemma lh_new_string_ok:
  "0 < sz \<Longrightarrow> \<exists>t. lh_kchar_table_new (\<lambda>_. True) sz name b = Some t \<and> lh_ok t \<and> lh_items t = [] \<and> lh_size t = sz"
proof -
  assume sz: "0 < sz"
  have eq: "lh_char_equal = (=)" by (auto simp: lh_char_equal_def fun_eq_iff)
  obtain t :: "(string, 'a) lh_table" where t: "lh_table_new (\<lambda>_. True) sz name b lh_char_hash lh_char_equal = Some t" "lh_size t = sz"
    using sz by (simp add: lh_table_new_def)
  then show ?thesis using lh_new_ok[of _ sz name b lh_char_hash t] sz eq
    by (auto simp: lh_kchar_table_new_def lh_ok_def)
qed

theorem lh_table_refines_witness:
  "\<exists>t t'. lh_kchar_table_new (\<lambda>_. True) 16 ''t'' True = Some (t :: (string, nat) lh_table)
     \<and> lh_table_insert (\<lambda>_. True) t ''key'' (Some 7) = Some t' \<and> lh_items t' = [(''key'', Some 7)]"
proof -
  obtain t :: "(string, nat) lh_table" where t: "lh_kchar_table_new (\<lambda>_. True) 16 ''t'' True = Some t" "lh_ok t" "lh_items t = []" "lh_size t = 16"
    using lh_new_string_ok[of 16 "''t''" True] by auto
  then show ?thesis
    using lh_table_refines[of t "''key''" "Some (7 :: nat)"] by (auto simp: lh_room_def INT_MAX_def)
qed

text \<open>C25: \<^verbatim>\<open>lh_table_resize\<close> keeps the contents, their order and the invariant whenever the new size is large enough
  for no insertion of the copy to resize the temporary table again, the way \<^verbatim>\<open>lh_table_insert\<close> calls it.\<close>

theorem lh_table_resize_keeps:
  assumes "lh_ok t" "0 < m" "m * 2 \<le> INT_MAX" "50 * (lh_count t - 1) < 33 * m"
  shows "\<exists>t'. lh_table_resize (\<lambda>_. True) t m = Some t' \<and> lh_ok t' \<and> lh_items t' = lh_items t \<and> lh_size t' = m"
proof -
  have d: "lh_depth = Suc (Suc 0)" by (simp add: lh_depth_def)
  have "\<exists>s'. lh_table_insert (\<lambda>_. True) s k v = Some s' \<and> lh_ok s' \<and> lh_items s' = lh_items s @ [(k, v)]
      \<and> lh_size s' = m \<and> lh_hash_fn s' = lh_hash_fn t"
    if "lh_ok s" "lh_size s = m" "50 * lh_count s < 33 * m" "lh_hash_fn s = lh_hash_fn t" for s and k :: 'a and v :: "'b option"
    using lh_insert_fuel_light[of s "Suc 0" "\<lambda>_. True" k v] that by (auto simp: lh_table_insert_def d)
  then show ?thesis
    using lh_resize_ok[of m t "lh_table_insert (\<lambda>_. True)" "\<lambda>_. True"] assms by (auto simp: lh_table_resize_def)
qed

theorem lh_table_resize_keeps_witness:
  "\<exists>t t'. lh_kchar_table_new (\<lambda>_. True) 16 ''t'' True = Some (t :: (string, nat) lh_table)
     \<and> lh_table_resize (\<lambda>_. True) t 8 = Some t' \<and> lh_size t' = 8 \<and> lh_items t' = []"
proof -
  obtain t :: "(string, nat) lh_table" where t: "lh_kchar_table_new (\<lambda>_. True) 16 ''t'' True = Some t" "lh_ok t" "lh_items t = []" "lh_size t = 16"
    using lh_new_string_ok[of 16 "''t''" True] by auto
  then show ?thesis
    using lh_table_resize_keeps[of t 8] lh_ok_count[of t] by (auto simp: INT_MAX_def)
qed

text \<open>A table of two slots with a hash function that is the identity, shrunk to one slot: the copy
  grows the temporary table, \<^verbatim>\<open>size\<close> is set to the requested value all the same, and the lookup of a
  stored key misses it.\<close>

definition lh_two :: "(u64, nat) lh_table option" where
  "lh_two = do {
     t \<leftarrow> lh_table_new (\<lambda>_. True) 4 ''t'' False id (=);
     t \<leftarrow> lh_table_insert (\<lambda>_. True) t 2 (Some 20);
     lh_table_insert (\<lambda>_. True) t 1 (Some 10) }"

text \<open>The public \<^verbatim>\<open>lh_table_resize\<close> with a size too small for the contents loses keys: on a table holding the
  keys 2 and 1, a resize to one slot succeeds, the contents are still chained in the list, the array
  has two slots while \<^verbatim>\<open>size\<close> says one, and the lookup of key 1 answers that it is absent.\<close>

theorem lh_table_resize_loses:
  "case lh_two of None \<Rightarrow> False | Some t \<Rightarrow>
     (case lh_table_resize (\<lambda>_. True) t 1 of None \<Rightarrow> False | Some t' \<Rightarrow>
        lh_items t = [(2, Some 20), (1, Some 10)] \<and> lh_items t' = lh_items t
        \<and> map_option fst (lh_table_lookup_ex t 1) = Some True
        \<and> lh_size t' = 1 \<and> length (lh_tab t') = 2
        \<and> map_option fst (lh_table_lookup_ex t' 1) = Some False)"
  by code_simp

end
