(* ===== verification/PrintBuf.thy ===== *)
theory PrintBuf
  imports ArrayList
begin

text \<open>
  The growing string buffer of \<^verbatim>\<open>src/Json/printbuf.c\<close> and \<^verbatim>\<open>printbuf.h\<close>. The bytes of \<^verbatim>\<open>buf\<close> are optional
  characters: \<open>None\<close> is a byte that \<^verbatim>\<open>malloc\<close> or \<^verbatim>\<open>realloc\<close> returned uninitialised, and reading it as text
  is a fault. The allocator \<open>A\<close> says whether a request of that many bytes succeeds. The results of
  operations are \<open>None\<close> on a fault (an access outside the buffer or a signed overflow).
\<close>

section \<open>Operations\<close>

record printbuf =
  pb_buf :: "char option list"
  pb_bpos :: int
  pb_size :: int

definition printbuf_new :: "allocator \<Rightarrow> printbuf option" where
  "printbuf_new A =
     (if A 1 \<and> A 32 then Some \<lparr>pb_buf = replicate 32 None, pb_bpos = 0, pb_size = 32\<rparr> else None)"

definition printbuf_extend :: "allocator \<Rightarrow> printbuf \<Rightarrow> int \<Rightarrow> (int \<times> printbuf) option" where
  "printbuf_extend A p min_size =
     (if pb_size p \<ge> min_size then Some (0, p)
      else do {
        dbl \<leftarrow> c_int (pb_size p * 2);
        mn \<leftarrow> c_int (min_size + 8);
        let new_size = (if dbl > mn then dbl else mn);
        if A new_size
        then Some (0, p\<lparr>pb_size := new_size,
                        pb_buf := pb_buf p @ replicate (nat (new_size - pb_size p)) None\<rparr>)
        else Some (-1, p) })"

text \<open>Copying \<^verbatim>\<open>size\<close> bytes and the terminator to the end of the text, the tail common to
  \<^verbatim>\<open>printbuf_memappend\<close> and the macro \<^verbatim>\<open>printbuf_memappend_fast\<close>.\<close>

definition pb_copy :: "printbuf \<Rightarrow> string \<Rightarrow> printbuf option" where
  "pb_copy p s = do {
     buf \<leftarrow> mem_write (pb_buf p) (pb_bpos p) (map Some s);
     let bpos = pb_bpos p + int (length s);
     buf \<leftarrow> ipoke buf bpos (Some NUL);
     Some (p\<lparr>pb_buf := buf, pb_bpos := bpos\<rparr>) }"

definition printbuf_memappend :: "allocator \<Rightarrow> printbuf \<Rightarrow> string \<Rightarrow> (int \<times> printbuf) option" where
  "printbuf_memappend A p s = do {
     need \<leftarrow> c_int (pb_bpos p + int (length s) + 1);
     (r, p) \<leftarrow> (if pb_size p \<le> need then printbuf_extend A p need else Some (0, p));
     if r < 0 then Some (-1, p)
     else do { p \<leftarrow> pb_copy p s; Some (int (length s), p) } }"

definition printbuf_memappend_fast :: "allocator \<Rightarrow> printbuf \<Rightarrow> string \<Rightarrow> printbuf option" where
  "printbuf_memappend_fast A p s =
     (if pb_size p - pb_bpos p > int (length s) then pb_copy p s
      else do { (r, p) \<leftarrow> printbuf_memappend A p s; Some p })"

definition printbuf_length :: "printbuf \<Rightarrow> int" where
  "printbuf_length p = pb_bpos p"

definition printbuf_memset ::
  "allocator \<Rightarrow> printbuf \<Rightarrow> int \<Rightarrow> char \<Rightarrow> int \<Rightarrow> (int \<times> printbuf) option" where
  "printbuf_memset A pb offset charvalue len = do {
     let offset = (if offset = -1 then pb_bpos pb else offset);
     size_needed \<leftarrow> c_int (offset + len);
     (r, pb) \<leftarrow> (if pb_size pb < size_needed then printbuf_extend A pb size_needed else Some (0, pb));
     if r < 0 then Some (-1, pb)
     else if len < 0 then None
     else do {
       buf \<leftarrow> mem_write (pb_buf pb) offset (replicate (nat len) (Some charvalue));
       let pb = pb\<lparr>pb_buf := buf\<rparr>;
       Some (0, if pb_bpos pb < size_needed then pb\<lparr>pb_bpos := size_needed\<rparr> else pb) } }"

text \<open>\<^verbatim>\<open>sprintbuf\<close>: \<open>msg\<close> is the formatted text that \<^verbatim>\<open>vsnprintf\<close> produces. A text of more than 127 bytes
  goes through a string that \<^verbatim>\<open>vasprintf\<close> allocates; the result of \<^verbatim>\<open>printbuf_memappend\<close> is ignored.\<close>

definition sprintbuf :: "allocator \<Rightarrow> printbuf \<Rightarrow> string \<Rightarrow> (int \<times> printbuf) option" where
  "sprintbuf A p msg = do {
     let size = int (length msg);
     if size > 127
     then (if A (size + 1)
           then do { (r, p) \<leftarrow> printbuf_memappend A p msg; Some (size, p) }
           else Some (-1, p))
     else do { (r, p) \<leftarrow> printbuf_memappend A p msg; Some (size, p) } }"

definition printbuf_reset :: "printbuf \<Rightarrow> printbuf option" where
  "printbuf_reset p = do {
     buf \<leftarrow> ipoke (pb_buf p) 0 (Some NUL);
     Some (p\<lparr>pb_buf := buf, pb_bpos := 0\<rparr>) }"

text \<open>Reading the buffer as a C string: the bytes up to the first terminator.\<close>

fun c_string :: "char option list \<Rightarrow> string option" where
  "c_string [] = None"
| "c_string (None # bs) = None"
| "c_string (Some c # bs) = (if c = NUL then Some [] else map_option ((#) c) (c_string bs))"

section \<open>Well-formed buffers and their text\<close>

definition pb_ok :: "printbuf \<Rightarrow> bool" where
  [inv_simps]: "pb_ok p \<longleftrightarrow> 0 \<le> pb_bpos p \<and> pb_bpos p \<le> pb_size p \<and> 0 < pb_size p \<and> pb_size p \<le> INT_MAX
     \<and> int (length (pb_buf p)) = pb_size p
     \<and> (\<forall>i < nat (pb_bpos p). pb_buf p ! i \<noteq> None)"

definition pb_text :: "printbuf \<Rightarrow> string" where
  "pb_text p = map the (take (nat (pb_bpos p)) (pb_buf p))"

definition pb_terminated :: "printbuf \<Rightarrow> bool" where
  [inv_simps]: "pb_terminated p \<longleftrightarrow> pb_bpos p < pb_size p \<and> pb_buf p ! nat (pb_bpos p) = Some NUL"

lemma length_pb_text: "pb_ok p \<Longrightarrow> int (length (pb_text p)) = pb_bpos p"
  by (auto simp: pb_text_def inv_simps)

lemma pb_take_text: "pb_ok p \<Longrightarrow> take (nat (pb_bpos p)) (pb_buf p) = map Some (pb_text p)"
  by (rule nth_equalityI) (auto simp: pb_text_def inv_simps)

lemma pb_okI:
  assumes "take n (pb_buf p) = map Some s" "length s = n" "pb_bpos p = int n"
    "n \<le> length (pb_buf p)" "int (length (pb_buf p)) = pb_size p" "0 < pb_size p" "pb_size p \<le> INT_MAX"
  shows "pb_ok p" "pb_text p = s"
proof -
  have "pb_buf p ! i = Some (s ! i)" if "i < n" for i
    using that assms(1,2,4) by (metis nth_map nth_take)
  then show "pb_ok p" using assms by (auto simp: inv_simps)
  show "pb_text p = s" using assms by (simp add: pb_text_def comp_def)
qed

lemma printbuf_new_ok: "printbuf_new A = Some p \<Longrightarrow> pb_ok p \<and> pb_text p = []"
  by (auto simp: printbuf_new_def inv_simps pb_text_def c_eval split: if_splits)

lemma printbuf_extend_ok:
  assumes ok: "pb_ok p" and sz: "pb_size p * 2 \<le> INT_MAX" "mn + 8 \<le> INT_MAX" "INT_MIN \<le> mn"
  shows "\<exists>r q. printbuf_extend A p mn = Some (r, q) \<and> pb_ok q \<and> pb_text q = pb_text p \<and> pb_bpos q = pb_bpos p
      \<and> (r = 0 \<and> mn \<le> pb_size q \<and> pb_size q \<le> max (pb_size p) (max (pb_size p * 2) (mn + 8))
         \<or> r = -1 \<and> q = p \<and> (\<exists>n. \<not> A n))"
proof (cases "pb_size p \<ge> mn")
  case True
  then show ?thesis using ok by (simp add: printbuf_extend_def)
next
  case False
  define ns where "ns = (if pb_size p * 2 > mn + 8 then pb_size p * 2 else mn + 8)"
  have ns: "pb_size p \<le> ns" "mn \<le> ns" "ns \<le> INT_MAX" "ns \<le> max (pb_size p * 2) (mn + 8)"
    using False ok sz by (auto simp: ns_def inv_simps)
  have c: "c_int (pb_size p * 2) = Some (pb_size p * 2)" "c_int (mn + 8) = Some (mn + 8)"
    using ok sz False by (auto simp: inv_simps c_eval c_int_def)
  let ?q = "p\<lparr>pb_size := ns, pb_buf := pb_buf p @ replicate (nat (ns - pb_size p)) None\<rparr>"
  have "pb_ok ?q" "pb_text ?q = pb_text p"
    using ok ns by (auto simp: inv_simps pb_text_def nth_append)
  then show ?thesis
    using False c ns ok by (cases "A ns") (auto simp: printbuf_extend_def ns_def Let_def)
qed

lemma pb_copy_ok:
  assumes ok: "pb_ok p" and room: "pb_bpos p + int (length s) < pb_size p"
  shows "\<exists>q. pb_copy p s = Some q \<and> pb_ok q \<and> pb_text q = pb_text p @ s \<and> pb_terminated q
     \<and> pb_size q = pb_size p"
proof -
  let ?n = "nat (pb_bpos p)"
  have n: "?n + length s < length (pb_buf p)" using ok room by (auto simp: inv_simps)
  define b1 where "b1 = take ?n (pb_buf p) @ map Some s @ drop (?n + length s) (pb_buf p)"
  have mw: "mem_write (pb_buf p) (pb_bpos p) (map Some s) = Some b1"
    using n ok by (simp add: mem_write_def b1_def inv_simps)
  have lb: "length b1 = length (pb_buf p)" using n by (simp add: b1_def)
  define b2 where "b2 = b1[?n + length s := Some NUL]"
  have bp: "nat (pb_bpos p + int (length s)) = ?n + length s" using ok by (simp add: inv_simps nat_add_distrib)
  have ip: "ipoke b1 (pb_bpos p + int (length s)) (Some NUL) = Some b2"
    using n lb bp ok by (simp add: ipoke_def poke_def b2_def inv_simps)
  let ?q = "p\<lparr>pb_buf := b2, pb_bpos := pb_bpos p + int (length s)\<rparr>"
  have lt: "length (pb_text p) = ?n" using length_pb_text[OF ok] by simp
  have tk: "take (?n + length s) b2 = map Some (pb_text p @ s)"
    using n pb_take_text[OF ok] lt by (simp add: b2_def b1_def take_update_cancel)
  have q: "pb_ok ?q" "pb_text ?q = pb_text p @ s"
    using tk length_pb_text[OF ok] n lb bp ok
    by (intro pb_okI[of "?n + length s" ?q "pb_text p @ s"]; simp add: b2_def inv_simps)+
  moreover have "pb_terminated ?q" using n lb bp room by (simp add: inv_simps b2_def)
  ultimately show ?thesis using mw ip by (intro exI[of _ ?q]) (simp add: pb_copy_def Let_def)
qed

lemma printbuf_memappend_ok:
  assumes ok: "pb_ok p" and sz: "pb_size p * 2 \<le> INT_MAX" "pb_bpos p + int (length s) + 9 \<le> INT_MAX"
  shows "\<exists>r q. printbuf_memappend A p s = Some (r, q) \<and> pb_ok q
      \<and> (r = int (length s) \<and> pb_text q = pb_text p @ s \<and> pb_terminated q
           \<and> pb_size q \<le> max (pb_size p * 2) (pb_bpos p + int (length s) + 9)
         \<or> r = -1 \<and> q = p \<and> (\<exists>n. \<not> A n))"
proof -
  let ?need = "pb_bpos p + int (length s) + 1"
  have need: "c_int ?need = Some ?need" using ok sz by (intro c_int_Some) (auto simp: inv_simps c_eval)
  have mn: "?need + 8 \<le> INT_MAX" "INT_MIN \<le> ?need" using ok sz by (auto simp: inv_simps c_eval)
  obtain r p1 where p1: "(if pb_size p \<le> ?need then printbuf_extend A p ?need else Some (0, p)) = Some (r, p1)"
    "pb_ok p1" "pb_text p1 = pb_text p" "pb_bpos p1 = pb_bpos p"
    "r = 0 \<and> ?need \<le> pb_size p1 \<and> pb_size p1 \<le> max (pb_size p * 2) (?need + 8) \<or> r = -1 \<and> p1 = p \<and> (\<exists>n. \<not> A n)"
  proof (cases "pb_size p \<le> ?need")
    case True
    obtain r q where e: "printbuf_extend A p ?need = Some (r, q)" "pb_ok q" "pb_text q = pb_text p"
      "pb_bpos q = pb_bpos p" "r = 0 \<and> ?need \<le> pb_size q \<and> pb_size q \<le> max (pb_size p) (max (pb_size p * 2) (?need + 8))
         \<or> r = -1 \<and> q = p \<and> (\<exists>n. \<not> A n)"
      using printbuf_extend_ok[OF ok sz(1) mn, of A] by blast
    moreover have "max (pb_size p) (max (pb_size p * 2) (?need + 8)) = max (pb_size p * 2) (?need + 8)"
      using ok by (auto simp: inv_simps max_def)
    ultimately show ?thesis using that[of r q] True by simp
  next
    case False
    then show ?thesis using that[of 0 p] ok by (simp add: inv_simps max_def)
  qed
  show ?thesis
  proof (cases "r = -1")
    case True
    then show ?thesis using p1 need ok by (auto simp: printbuf_memappend_def)
  next
    case False
    then obtain q where "pb_copy p1 s = Some q" "pb_ok q" "pb_text q = pb_text p1 @ s" "pb_terminated q"
      "pb_size q = pb_size p1"
      using pb_copy_ok[OF p1(2), of s] p1(4,5) by auto
    then show ?thesis using False p1 need by (auto simp: printbuf_memappend_def)
  qed
qed

lemma pb_terminated_c_string:
  assumes "pb_ok p" "pb_terminated p" "NUL \<notin> set (pb_text p)"
  shows "c_string (pb_buf p) = Some (pb_text p)"
proof -
  have gen: "c_string (map Some s @ Some NUL # rest) = Some s" if "NUL \<notin> set s" for s rest
    using that by (induction s) auto
  let ?n = "nat (pb_bpos p)"
  have "?n < length (pb_buf p)" using assms by (auto simp: inv_simps)
  then have "pb_buf p = take ?n (pb_buf p) @ pb_buf p ! ?n # drop (Suc ?n) (pb_buf p)"
    by (rule id_take_nth_drop)
  then have "pb_buf p = map Some (pb_text p) @ Some NUL # drop (Suc ?n) (pb_buf p)"
    using assms(2) pb_take_text[OF assms(1)] by (simp add: inv_simps)
  then show ?thesis using gen[OF assms(3)] by metis
qed

section \<open>Appending without failures\<close>

text \<open>With an allocator that never refuses, and as long as the text stays below \<open>pb_limit\<close> bytes, every
  operation succeeds: a buffer is extended only when it is smaller than the text it has to hold, so
  its size stays below about twice the limit and no \<^verbatim>\<open>int\<close> overflows.\<close>

definition pb_limit :: nat where "pb_limit = 536870000"

definition pb_good :: "printbuf \<Rightarrow> bool" where
  [inv_simps]: "pb_good p \<longleftrightarrow> pb_ok p \<and> pb_size p \<le> 2 * int pb_limit + 64"

abbreviation room_for :: "printbuf \<Rightarrow> nat \<Rightarrow> bool" where
  "room_for p n \<equiv> length (pb_text p) + n \<le> pb_limit"

lemma pb_new_good: "printbuf_new A = Some p \<Longrightarrow> pb_good p \<and> pb_text p = []"
  using printbuf_new_ok[of A p] by (auto simp: pb_good_def pb_limit_def printbuf_new_def split: if_splits)

lemma pb_good_bpos: "pb_good p \<Longrightarrow> pb_bpos p = int (length (pb_text p))"
  using length_pb_text[of p] by (simp add: pb_good_def)

lemma pb_bpos_eq: "pb_ok p \<Longrightarrow> pb_bpos p = int (length (pb_text p))"
  using length_pb_text[of p] by simp

lemma extend_good:
  assumes p: "pb_good p" and n: "int (length (pb_text p)) \<le> need" "need \<le> int pb_limit + 1" "pb_size p \<le> need"
  shows "\<exists>q. printbuf_extend (\<lambda>_. True) p need = Some (0, q) \<and> pb_good q \<and> pb_text q = pb_text p
    \<and> pb_bpos q = pb_bpos p \<and> need \<le> pb_size q"
proof -
  have sz: "pb_size p * 2 \<le> INT_MAX" "need + 8 \<le> INT_MAX" "INT_MIN \<le> need"
    using n by (simp_all add: pb_limit_def INT_MAX_def INT_MIN_def)
  obtain r q where "printbuf_extend (\<lambda>_. True) p need = Some (r, q)" "pb_ok q" "pb_text q = pb_text p" "pb_bpos q = pb_bpos p"
    "r = 0 \<and> need \<le> pb_size q \<and> pb_size q \<le> max (pb_size p) (max (pb_size p * 2) (need + 8))"
    using printbuf_extend_ok[OF _ sz, of "\<lambda>_. True"] p by (auto simp: pb_good_def)
  then show ?thesis using n p by (auto simp: pb_good_def max_def split: if_splits)
qed

lemma copy_good:
  assumes p: "pb_good p" and room: "pb_bpos p + int (length s) < pb_size p"
  shows "\<exists>q. pb_copy p s = Some q \<and> pb_good q \<and> pb_terminated q \<and> pb_text q = pb_text p @ s"
  using pb_copy_ok[of p s] assms by (auto simp: pb_good_def)

lemma memappend_good:
  assumes p: "pb_good p" and room: "room_for p (length s)"
  shows "\<exists>q. printbuf_memappend (\<lambda>_. True) p s = Some (int (length s), q) \<and> pb_good q \<and> pb_terminated q
     \<and> pb_text q = pb_text p @ s"
proof -
  let ?need = "pb_bpos p + int (length s) + 1"
  have b: "pb_bpos p = int (length (pb_text p))" using pb_good_bpos[OF p] .
  have need: "c_int ?need = Some ?need" using b room by (intro c_int_Some) (auto simp: pb_limit_def c_eval)
  obtain p1 where p1: "(if pb_size p \<le> ?need then printbuf_extend (\<lambda>_. True) p ?need else Some (0, p)) = Some (0, p1)"
    "pb_good p1" "pb_text p1 = pb_text p" "pb_bpos p1 = pb_bpos p" "?need \<le> pb_size p1"
  proof (cases "pb_size p \<le> ?need")
    case True
    then show ?thesis using that extend_good[OF p, of ?need] b room by auto
  next
    case False
    then show ?thesis using that[of p] p by simp
  qed
  obtain q where q: "pb_copy p1 s = Some q" "pb_good q" "pb_terminated q" "pb_text q = pb_text p1 @ s"
    using copy_good[OF p1(2), of s] p1(4,5) by auto
  then show ?thesis using p1 need by (simp add: printbuf_memappend_def)
qed

lemma fast_good:
  assumes p: "pb_good p" and room: "room_for p (length s)"
  shows "\<exists>q. printbuf_memappend_fast (\<lambda>_. True) p s = Some q \<and> pb_good q \<and> pb_terminated q
     \<and> pb_text q = pb_text p @ s"
proof (cases "pb_size p - pb_bpos p > int (length s)")
  case True
  then show ?thesis using copy_good[OF p, of s] by (auto simp: printbuf_memappend_fast_def)
next
  case False
  then show ?thesis using memappend_good[OF p room] by (auto simp: printbuf_memappend_fast_def)
qed

lemma sprintbuf_good:
  assumes "pb_good p" "room_for p (length s)"
  shows "\<exists>q. sprintbuf (\<lambda>_. True) p s = Some (int (length s), q) \<and> pb_good q \<and> pb_terminated q
     \<and> pb_text q = pb_text p @ s"
  using memappend_good[OF assms] by (auto simp: sprintbuf_def Let_def)

lemma reset_good:
  assumes "pb_good p"
  shows "\<exists>q. printbuf_reset p = Some q \<and> pb_good q \<and> pb_text q = [] \<and> pb_terminated q"
  using assms by (auto simp: printbuf_reset_def ipoke_def poke_def inv_simps pb_text_def)

lemma memset_good:
  assumes p: "pb_good p" and room: "room_for p n"
  shows "\<exists>q. printbuf_memset (\<lambda>_. True) p (-1) c (int n) = Some (0, q) \<and> pb_good q
     \<and> pb_text q = pb_text p @ replicate n c"
proof -
  let ?need = "pb_bpos p + int n"
  have b: "pb_bpos p = int (length (pb_text p))" using pb_good_bpos[OF p] .
  have need: "c_int ?need = Some ?need" using b room by (intro c_int_Some) (auto simp: pb_limit_def c_eval)
  obtain p1 where p1: "(if pb_size p < ?need then printbuf_extend (\<lambda>_. True) p ?need else Some (0, p)) = Some (0, p1)"
    "pb_good p1" "pb_text p1 = pb_text p" "pb_bpos p1 = pb_bpos p" "?need \<le> pb_size p1"
  proof (cases "pb_size p < ?need")
    case True
    then show ?thesis using that extend_good[OF p, of ?need] b room by auto
  next
    case False
    then show ?thesis using that[of p] p by simp
  qed
  let ?k = "nat (pb_bpos p)" and ?w = "replicate n (Some c)"
  have ok1: "pb_ok p1" using p1(2) by (simp add: pb_good_def)
  have k: "?k + n \<le> length (pb_buf p1)" using ok1 p1(5) b by (auto simp: inv_simps)
  define b1 where "b1 = take ?k (pb_buf p1) @ ?w @ drop (?k + n) (pb_buf p1)"
  have mw: "mem_write (pb_buf p1) (pb_bpos p) ?w = Some b1"
    using k b by (simp add: mem_write_def b1_def)
  let ?q = "p1\<lparr>pb_buf := b1, pb_bpos := ?need\<rparr>"
  have lt: "length (pb_text p) = ?k" using b by simp
  have tk: "take (?k + n) b1 = map Some (pb_text p @ replicate n c)"
    using k pb_take_text[OF ok1] p1(3,4) lt by (simp add: b1_def)
  have lb: "length b1 = length (pb_buf p1)" using k by (simp add: b1_def)
  have sz: "int (length (pb_buf p1)) = pb_size p1" "0 < pb_size p1" "pb_size p1 \<le> INT_MAX"
    using ok1 by (simp_all add: pb_ok_def)
  have q: "pb_ok ?q" "pb_text ?q = pb_text p @ replicate n c"
    by (rule pb_okI[of "?k + n" ?q "pb_text p @ replicate n c"]; use tk k b lb sz in simp)+
  have "(if pb_bpos (p1\<lparr>pb_buf := b1\<rparr>) < ?need then p1\<lparr>pb_buf := b1, pb_bpos := ?need\<rparr> else p1\<lparr>pb_buf := b1\<rparr>) = ?q"
    using p1(4) by (cases p1) auto
  then have "printbuf_memset (\<lambda>_. True) p (-1) c (int n) = Some (0, ?q)"
    using p1(1,4) need mw by (simp add: printbuf_memset_def Let_def)
  then show ?thesis using q p1(2) by (auto simp: pb_good_def)
qed

section \<open>The interface of a text sink\<close>

text \<open>What the printers rely on: an operation that appends a given text, as long as the total stays
  below a limit.\<close>

locale text_sink =
  fixes ok :: "'s \<Rightarrow> bool" and view :: "'s \<Rightarrow> string" and put :: "'s \<Rightarrow> string \<Rightarrow> 's option"
    and limit :: nat
  assumes put_law: "ok s \<Longrightarrow> length (view s) + length w \<le> limit \<Longrightarrow>
      \<exists>s'. put s w = Some s' \<and> ok s' \<and> view s' = view s @ w"
begin

lemma put_all:
  assumes "ok s" "length (view s) + length (concat ws) \<le> limit"
  shows "\<exists>s'. fold (\<lambda>w so. Option.bind so (\<lambda>s. put s w)) ws (Some s) = Some s' \<and> ok s' \<and> view s' = view s @ concat ws"
  using assms
proof (induction ws arbitrary: s)
  case Nil
  then show ?case by simp
next
  case (Cons w ws)
  obtain s1 where s1: "put s w = Some s1" "ok s1" "view s1 = view s @ w"
    using put_law[of s w] Cons.prems by auto
  then show ?case using Cons.IH[of s1] Cons.prems by (auto simp: add.assoc)
qed

end

interpretation pb_sink: text_sink pb_good pb_text "printbuf_memappend_fast (\<lambda>_. True)" pb_limit
  by unfold_locales (use fast_good in blast)

interpretation sp_sink: text_sink pb_good pb_text
  "\<lambda>p s. map_option snd (sprintbuf (\<lambda>_. True) p s)" pb_limit
  by unfold_locales (use sprintbuf_good in force)

text \<open>Writers: \<open>emits b F w\<close> says that the computation \<open>F\<close> on buffers appends \<open>w\<close> to every good buffer with
  room for it, and, where \<open>b\<close> holds, leaves the text terminated.\<close>

definition emits :: "bool \<Rightarrow> (printbuf \<Rightarrow> printbuf option) \<Rightarrow> string \<Rightarrow> bool" where
  "emits b F w \<longleftrightarrow> (\<forall>p. pb_good p \<longrightarrow> room_for p (length w)
     \<longrightarrow> (\<exists>q. F p = Some q \<and> pb_good q \<and> pb_text q = pb_text p @ w \<and> (b \<longrightarrow> pb_terminated q)))"

named_theorems emits_intro

lemma emits_then [emits_intro]:
  assumes "emits b F u" "emits c G v"
  shows "emits c (\<lambda>p. Option.bind (F p) G) (u @ v)"
  unfolding emits_def
proof (intro allI impI)
  fix p assume p: "pb_good p" "room_for p (length (u @ v))"
  then obtain q where q: "F p = Some q" "pb_good q" "pb_text q = pb_text p @ u"
    using assms(1) by (auto simp: emits_def)
  then obtain r where "G q = Some r" "pb_good r" "pb_text r = pb_text q @ v" "c \<longrightarrow> pb_terminated r"
    using assms(2) p by (auto simp: emits_def)
  then show "\<exists>q. Option.bind (F p) G = Some q \<and> pb_good q \<and> pb_text q = pb_text p @ u @ v \<and> (c \<longrightarrow> pb_terminated q)"
    using q by auto
qed

lemma emits_skip [emits_intro]: "emits False Some []"
  by (simp add: emits_def)

lemma emits_weaken: "emits b F w \<Longrightarrow> emits False F w"
  by (auto simp: emits_def)

lemma emits_if [emits_intro]:
  "(c \<Longrightarrow> emits b F u) \<Longrightarrow> (\<not> c \<Longrightarrow> emits b G v) \<Longrightarrow> emits b (\<lambda>p. if c then F p else G p) (if c then u else v)"
  by simp

definition sp :: "allocator \<Rightarrow> string \<Rightarrow> printbuf \<Rightarrow> printbuf option" where
  "sp A s p = map_option snd (sprintbuf A p s)"

definition ap :: "allocator \<Rightarrow> string \<Rightarrow> printbuf \<Rightarrow> printbuf option" where
  "ap A s p = map_option snd (printbuf_memappend A p s)"

lemma emits_sp [emits_intro]: "emits True (sp (\<lambda>_. True) s) s"
  using sprintbuf_good by (fastforce simp: emits_def sp_def)

lemma emits_ap [emits_intro]: "emits True (ap (\<lambda>_. True) s) s"
  using memappend_good by (fastforce simp: emits_def ap_def)

lemma emits_memset [emits_intro]:
  "emits False (\<lambda>p. map_option snd (printbuf_memset (\<lambda>_. True) p (-1) c (int n))) (replicate n c)"
  using memset_good by (fastforce simp: emits_def)

section \<open>Properties\<close>

text \<open>C24: \<^verbatim>\<open>printbuf_memappend\<close> on a well-formed buffer, while doubling it stays in the range of \<^verbatim>\<open>int\<close>, never
  writes outside the buffer. It either appends the bytes, leaves a terminated buffer and returns
  their number, or returns \<^verbatim>\<open>-1\<close> with the buffer unchanged, and then the allocator has refused a
  request. Where the text holds no NUL, reading the buffer as a C string afterwards gives exactly
  the old text followed by the new bytes.\<close>

theorem printbuf_memappend_correct:
  assumes "pb_ok p" "pb_size p * 2 \<le> INT_MAX" "pb_bpos p + int (length s) + 9 \<le> INT_MAX"
  shows "\<exists>r q. printbuf_memappend A p s = Some (r, q) \<and> pb_ok q
      \<and> (r = int (length s) \<and> pb_text q = pb_text p @ s
           \<and> (NUL \<notin> set (pb_text p @ s) \<longrightarrow> c_string (pb_buf q) = Some (pb_text p @ s))
         \<or> r = -1 \<and> q = p \<and> (\<exists>n. \<not> A n))"
  using printbuf_memappend_ok[OF assms, of A] pb_terminated_c_string by metis

theorem printbuf_memappend_correct_witness:
  "\<exists>r q. printbuf_memappend (\<lambda>_. True) \<lparr>pb_buf = replicate 32 None, pb_bpos = 0, pb_size = 32\<rparr> ''hello'' = Some (r, q)
     \<and> r = 5 \<and> c_string (pb_buf q) = Some ''hello''"
proof -
  let ?p = "\<lparr>pb_buf = replicate 32 None, pb_bpos = 0, pb_size = 32\<rparr>"
  have "pb_ok ?p" "pb_text ?p = []" by (simp_all add: inv_simps c_eval pb_text_def)
  then show ?thesis
    using printbuf_memappend_correct[of ?p "''hello''" "\<lambda>_. True"] by (auto simp: c_eval)
qed

end
