(* ===== verification/JsonUtil.thy ===== *)
theory JsonUtil
  imports CLib
begin

text \<open>
  The number parsing and the type names of \<^verbatim>\<open>src/Json/json_util.c\<close>. The conversion \<^verbatim>\<open>sscanf(buf, "%" SCNd64)\<close> is an
  argument of \<open>json_parse_int64\<close>, because the code is written for implementations that differ on numbers
  out of range: \<open>scan s\<close> is \<open>None\<close> when nothing is converted, and otherwise the number stored and
  whether \<^verbatim>\<open>errno\<close> is \<^verbatim>\<open>ERANGE\<close>. Two implementations are given: \<open>scan_saturating\<close>, which is what the GNU and
  BSD libraries do, and \<open>scan_wrapping\<close>, which reduces the number modulo \<open>2 ^ 64\<close> and reports nothing; the
  file input and output of \<^verbatim>\<open>json_util.c\<close> is not modelled.
\<close>

section \<open>Integers\<close>

definition INT64_MIN :: int where [c_eval]: "INT64_MIN = - 9223372036854775808"
definition INT64_MAX :: int where [c_eval]: "INT64_MAX = 9223372036854775807"

text \<open>\<^verbatim>\<open>sscanf_is_broken_test\<close>: the flag it sets, from the conversions of its two probes.\<close>

definition sscanf_is_broken_test :: "(string \<Rightarrow> (int \<times> bool) option) \<Rightarrow> bool" where
  "sscanf_is_broken_test scan =
     (let probe = (\<lambda>s. case scan s of None \<Rightarrow> (0, False) | Some r \<Rightarrow> r);
          (num64, erange) = probe '' -01234567890123456789012345'';
          (num64', erange') = probe '' 01234567890123456789012345''
      in \<not> erange \<or> num64 \<noteq> INT64_MIN \<or> \<not> erange' \<or> num64' \<noteq> INT64_MAX)"

text \<open>Skipping leading zeros while another character follows.\<close>

fun skip_zeros :: "string \<Rightarrow> string" where
  "skip_zeros (c # d # s) = (if c = CHR ''0'' then skip_zeros (d # s) else c # d # s)"
| "skip_zeros s = s"

definition starts_minus :: "string \<Rightarrow> bool" where
  "starts_minus s = (case s of [] \<Rightarrow> False | c # _ \<Rightarrow> c = CHR ''-'')"

text \<open>The check of the workaround: the sign to saturate with, and whether the digits differ.\<close>

definition recheck_digits :: "int \<Rightarrow> bool \<Rightarrow> string \<Rightarrow> bool \<times> bool" where
  "recheck_digits num64 orig_has_neg buf_sig_digits =
     (let sig = skip_zeros buf_sig_digits;
          orig_has_neg = (if num64 = 0 then False else orig_has_neg);
          buf_cmp = dec_int num64;
          recheck_has_neg = starts_minus buf_cmp;
          buf_cmp = (if recheck_has_neg then tl buf_cmp else buf_cmp)
      in (orig_has_neg,
          orig_has_neg \<noteq> recheck_has_neg \<or> \<not> prefix buf_cmp sig
          \<or> (length sig \<noteq> length buf_cmp \<and> c_isdigit (sig ! length buf_cmp))))"

text \<open>The result is \<open>None\<close> when the function returns 1, and otherwise the number stored in \<^verbatim>\<open>*retval\<close>.\<close>

definition json_parse_int64 :: "(string \<Rightarrow> (int \<times> bool) option) \<Rightarrow> string \<Rightarrow> int option" where
  "json_parse_int64 scan buf =
     (let broken = sscanf_is_broken_test scan; buf = dropWhile c_isspace buf
      in case scan buf of
           None \<Rightarrow> None
         | Some (num64, erange) \<Rightarrow>
             (let orig_has_neg = starts_minus buf;
                  sig = (if orig_has_neg then tl buf else buf);
                  (orig_has_neg, erange) =
                    (if broken \<and> \<not> erange then recheck_digits num64 orig_has_neg sig
                     else (orig_has_neg, erange))
              in Some (if erange then (if orig_has_neg then INT64_MIN else INT64_MAX) else num64)))"

definition json_parse_double :: "string \<Rightarrow> double option" where
  "json_parse_double buf = double_scan buf"

text \<open>The integer at the start of a text: blanks, a sign and digits.\<close>

definition scan_integer :: "string \<Rightarrow> int option" where
  "scan_integer s =
     (let (neg, r) = scan_sign (dropWhile c_isspace s); ds = takeWhile c_isdigit r
      in if ds = [] then None else Some (if neg then - int_of_dec ds else int_of_dec ds))"

definition clamp64 :: "int \<Rightarrow> int" where
  "clamp64 x = (if x < INT64_MIN then INT64_MIN else if x > INT64_MAX then INT64_MAX else x)"

definition scan_saturating :: "string \<Rightarrow> (int \<times> bool) option" where
  "scan_saturating s = map_option (\<lambda>x. (clamp64 x, clamp64 x \<noteq> x)) (scan_integer s)"

definition wrap64 :: "int \<Rightarrow> int" where
  "wrap64 x = (x + 2 ^ 63) mod 2 ^ 64 - 2 ^ 63"

definition scan_wrapping :: "string \<Rightarrow> (int \<times> bool) option" where
  "scan_wrapping s = map_option (\<lambda>x. (wrap64 x, False)) (scan_integer s)"

section \<open>Type names\<close>

datatype json_type = json_type_null | json_type_boolean | json_type_double | json_type_int
  | json_type_object | json_type_array | json_type_string

definition json_type_name :: "string list" where
  "json_type_name = [''null'', ''boolean'', ''double'', ''int'', ''object'', ''array'', ''string'']"

fun json_type_code :: "json_type \<Rightarrow> int" where
  "json_type_code json_type_null = 0"
| "json_type_code json_type_boolean = 1"
| "json_type_code json_type_double = 2"
| "json_type_code json_type_int = 3"
| "json_type_code json_type_object = 4"
| "json_type_code json_type_array = 5"
| "json_type_code json_type_string = 6"

text \<open>\<open>Some None\<close> is the result \<^verbatim>\<open>NULL\<close>, for a number that is not a type.\<close>

definition json_type_to_name :: "int \<Rightarrow> string option option" where
  "json_type_to_name o_type =
     (if o_type < 0 \<or> o_type \<ge> int (length json_type_name) then Some None
      else map_option Some (ipeek json_type_name o_type))"

lemma json_type_to_name_total:
  "json_type_to_name (json_type_code t) \<noteq> None \<and> json_type_to_name (json_type_code t) \<noteq> Some None"
  by (cases t) (auto simp: json_type_to_name_def json_type_name_def ipeek_def peek_def)

section \<open>Saturating conversions\<close>

lemma saturating_not_broken: "\<not> sscanf_is_broken_test scan_saturating"
  by code_simp

lemma wrapping_broken: "sscanf_is_broken_test scan_wrapping"
  by code_simp

lemma dropWhile_idem: "dropWhile P (dropWhile P s) = dropWhile P s"
  by (induction s) auto

lemma scan_integer_skip: "scan_integer (dropWhile c_isspace s) = scan_integer s"
  by (simp add: scan_integer_def dropWhile_idem)

lemma scan_sign_minus: "fst (scan_sign s) = starts_minus s"
  by (simp add: scan_sign_def starts_minus_def split: list.split)

lemma clamp64_sign:
  assumes "scan_integer s = Some x" "clamp64 x \<noteq> x"
  shows "clamp64 x = (if starts_minus (dropWhile c_isspace s) then INT64_MIN else INT64_MAX)"
proof -
  obtain neg r where nr: "scan_sign (dropWhile c_isspace s) = (neg, r)" by force
  then have neg: "neg = starts_minus (dropWhile c_isspace s)" using scan_sign_minus by (metis fst_conv)
  have x: "x = (if neg then - int_of_dec (takeWhile c_isdigit r) else int_of_dec (takeWhile c_isdigit r))"
    using assms(1) nr by (simp add: scan_integer_def Let_def split: if_splits)
  have "0 \<le> int_of_dec (takeWhile c_isdigit r)" by (rule int_of_dec_nonneg)
  then have "neg \<Longrightarrow> x \<le> 0" "\<not> neg \<Longrightarrow> 0 \<le> x" using x by auto
  then show ?thesis using assms(2) neg by (auto simp: clamp64_def c_eval split: if_splits)
qed

lemma json_parse_int64_saturating:
  "json_parse_int64 scan_saturating s = map_option clamp64 (scan_integer s)"
  using clamp64_sign[of s]
  by (cases "scan_integer s")
    (auto simp: json_parse_int64_def saturating_not_broken scan_saturating_def scan_integer_skip Let_def)

section \<open>The workaround for wrapping conversions\<close>

lemma wrap64_range: "INT64_MIN \<le> wrap64 x \<and> wrap64 x \<le> INT64_MAX"
proof -
  have "0 \<le> (x + 2 ^ 63) mod 2 ^ 64" "(x + 2 ^ 63) mod 2 ^ 64 < 2 ^ 64" by simp_all
  then show ?thesis by (simp add: wrap64_def c_eval)
qed

lemma wrap64_id: "INT64_MIN \<le> x \<Longrightarrow> x \<le> INT64_MAX \<Longrightarrow> wrap64 x = x"
  by (simp add: wrap64_def c_eval mod_pos_pos_trivial)

lemma skip_zeros_digits:
  assumes "list_all c_isdigit s" "s \<noteq> []"
  shows "list_all c_isdigit (skip_zeros s) \<and> skip_zeros s \<noteq> [] \<and> int_of_dec (skip_zeros s) = int_of_dec s
    \<and> (hd (skip_zeros s) = CHR ''0'' \<longrightarrow> length (skip_zeros s) = 1)"
  using assms
proof (induction s rule: skip_zeros.induct)
  case (1 c d s)
  then show ?case by (auto simp: int_of_dec_Cons digit_val_0)
qed auto

lemma skip_zeros_dec:
  assumes "list_all c_isdigit s" "s \<noteq> []"
  shows "skip_zeros s = dec_pos (int_of_dec s)"
  using skip_zeros_digits[OF assms] dec_pos_unique by metis

lemma dec_pos_prefix:
  assumes "0 \<le> a" "0 \<le> b" "prefix (dec_pos a) (dec_pos b)"
    "length (dec_pos b) \<noteq> length (dec_pos a) \<longrightarrow> \<not> c_isdigit (dec_pos b ! length (dec_pos a))"
  shows "a = b"
proof -
  obtain r where r: "dec_pos b = dec_pos a @ r" using assms(3) by (auto simp: prefix_def)
  have "list_all c_isdigit r" using dec_pos_digits[OF assms(2)] r by simp
  then have "r = []" using assms(4) r by (cases r) auto
  then show ?thesis using r assms(1,2) by (metis append_Nil2 int_of_dec_dec_pos)
qed

lemma starts_minus_dec_pos: "0 \<le> n \<Longrightarrow> \<not> starts_minus (dec_pos n)"
  using dec_pos_digits[of n] by (auto simp: starts_minus_def c_isdigit_def split: list.splits)

lemma dec_int_split:
  "starts_minus (dec_int n) \<longleftrightarrow> n < 0"
  "(if n < 0 then tl (dec_int n) else dec_int n) = dec_pos \<bar>n\<bar>"
  using starts_minus_dec_pos[of n] by (auto simp: dec_int_def starts_minus_def)

text \<open>On a whole text of an optional minus and digits, the check of the workaround fails exactly when the
  conversion was not exact.\<close>

lemma recheck_digits_exact:
  assumes "list_all c_isdigit ds" "ds \<noteq> []" "n = wrap64 (if neg then - int_of_dec ds else int_of_dec ds)"
  shows "recheck_digits n neg ds = (n \<noteq> 0 \<and> neg, n \<noteq> (if neg then - int_of_dec ds else int_of_dec ds))"
proof -
  let ?v = "int_of_dec ds" and ?a = "dec_pos \<bar>n\<bar>"
  have v: "0 \<le> ?v" by (rule int_of_dec_nonneg)
  have sz: "skip_zeros ds = dec_pos ?v" using skip_zeros_dec assms(1,2) by blast
  have same: "\<not> prefix ?a (dec_pos ?v) \<or> (length (dec_pos ?v) \<noteq> length ?a \<and> c_isdigit (dec_pos ?v ! length ?a))
      \<longleftrightarrow> \<bar>n\<bar> \<noteq> ?v"
    using dec_pos_prefix[of "\<bar>n\<bar>" ?v] v by auto
  have cond: "(n \<noteq> 0 \<and> neg) \<noteq> (n < 0) \<or> \<bar>n\<bar> \<noteq> ?v \<longleftrightarrow> n \<noteq> (if neg then - ?v else ?v)"
    using v by auto
  have eq: "recheck_digits n neg ds = (if n = 0 then False else neg,
      (if n = 0 then False else neg) \<noteq> (n < 0) \<or> \<not> prefix ?a (dec_pos ?v)
      \<or> (length (dec_pos ?v) \<noteq> length ?a \<and> c_isdigit (dec_pos ?v ! length ?a)))"
    by (simp only: recheck_digits_def Let_def sz dec_int_split)
  have "(if n = 0 then False else neg) = (n \<noteq> 0 \<and> neg)" by simp
  then show ?thesis using cond same unfolding eq by presburger
qed

definition int_text :: "bool \<Rightarrow> string \<Rightarrow> string" where
  "int_text neg ds = (if neg then CHR ''-'' # ds else ds)"

lemma scan_integer_text:
  assumes "list_all c_isdigit ds" "ds \<noteq> []"
  shows "scan_integer (int_text neg ds) = Some (if neg then - int_of_dec ds else int_of_dec ds)"
    "dropWhile c_isspace (int_text neg ds) = int_text neg ds" "starts_minus (int_text neg ds) = neg"
    "(if neg then tl (int_text neg ds) else int_text neg ds) = ds"
proof -
  have tw: "takeWhile c_isdigit ds = ds" using assms(1) by (simp add: list_all_iff takeWhile_eq_all_conv)
  obtain d t where d: "ds = d # t" "c_isdigit d" using assms by (cases ds) auto
  have nd: "\<not> c_isspace d" "d \<noteq> CHR ''-''" "d \<noteq> CHR ''+''" using d by (auto simp: c_isdigit_def c_isspace_def)
  have sp: "\<not> c_isspace CHR ''-''" by (simp add: c_isspace_def)
  show dw: "dropWhile c_isspace (int_text neg ds) = int_text neg ds" using d nd sp by (simp add: int_text_def)
  show "starts_minus (int_text neg ds) = neg" using d nd by (simp add: int_text_def starts_minus_def)
  have "scan_sign (int_text neg ds) = (neg, ds)" using d nd by (simp add: int_text_def scan_sign_def)
  then show "scan_integer (int_text neg ds) = Some (if neg then - int_of_dec ds else int_of_dec ds)"
    using dw assms(2) by (simp add: scan_integer_def tw)
  show "(if neg then tl (int_text neg ds) else int_text neg ds) = ds" by (simp add: int_text_def)
qed

section \<open>Properties\<close>



text \<open>The limits of the workaround of \<^verbatim>\<open>json_parse_int64\<close> for a conversion that wraps around: the number
  \<open>- 2 ^ 64\<close> is saturated to the largest instead of the smallest integer, because a converted 0 clears
  the sign, and a number with a plus sign, or a zero followed by a letter, is taken for one out of
  range although it is converted exactly.\<close>

theorem json_parse_int64_workaround_limits:
  "json_parse_int64 scan_wrapping ''-18446744073709551616'' = Some INT64_MAX
   \<and> json_parse_int64 scan_wrapping ''+5'' = Some INT64_MAX
   \<and> json_parse_int64 scan_wrapping ''0x'' = Some INT64_MAX"
  by code_simp

end
