(* ===== verification/JsonObject.thy ===== *)
theory JsonObject
  imports LinkHash PrintBuf JsonUtil
begin

text \<open>
  The reference-counted objects of \<^verbatim>\<open>src/Json/json_object.c\<close>. The heap maps the addresses of allocated
  \<^verbatim>\<open>struct json_object\<close>s to their contents; a fresh address is used for every allocation, so an access
  through a pointer to a freed object always finds nothing and is a fault. Operations return \<open>None\<close> on
  a fault (or when \<^verbatim>\<open>lh_abort\<close> ends the process), and otherwise their result with the new heap. \<open>A\<close> is
  the allocator. The calls of user delete functions are logged in the heap; user serializers are given
  by a function \<open>U\<close>, from the identity of the serializer, the object, the level and the flags to the text it
  appends and its result.
\<close>

section \<open>Objects and the heap\<close>

definition JSON_OBJECT_DEF_HASH_ENTRIES :: int where "JSON_OBJECT_DEF_HASH_ENTRIES = 16"

definition JSON_C_TO_STRING_PLAIN :: u32 where "JSON_C_TO_STRING_PLAIN = 0"
definition JSON_C_TO_STRING_SPACED :: u32 where "JSON_C_TO_STRING_SPACED = 1"
definition JSON_C_TO_STRING_PRETTY :: u32 where "JSON_C_TO_STRING_PRETTY = 2"
definition JSON_C_TO_STRING_NOZERO :: u32 where "JSON_C_TO_STRING_NOZERO = 4"

datatype json_union =
    C_boolean int
  | C_double double
  | C_int64 int
  | C_object "(string, nat) lh_table"
  | C_array "nat array_list option"
  | C_string "string option" int

text \<open>The serializer of an object: one of the functions of the file, named by its type, or a user's.\<close>

datatype serializer = Std json_type | User nat

datatype deleter = generic_delete | object_delete | string_delete | array_delete

record json_object =
  jo_type :: json_type
  jo_delete :: deleter
  jo_to_json :: "serializer option"
  jo_ref :: int
  jo_pb :: "printbuf option"
  jo_o :: "json_union option"
  jo_user_delete :: "nat option"
  jo_userdata :: "nat option"

record jheap =
  jh_map :: "nat \<Rightarrow> json_object option"
  jh_next :: nat
  jh_log :: "(nat \<times> nat \<times> nat option) list"

definition jh_set :: "jheap \<Rightarrow> nat \<Rightarrow> json_object \<Rightarrow> jheap" where
  "jh_set h a o' = h\<lparr>jh_map := (jh_map h)(a := Some o')\<rparr>"

section \<open>Reference counting\<close>

definition json_object_get :: "jheap \<Rightarrow> nat option \<Rightarrow> (nat option \<times> jheap) option" where
  "json_object_get h jso =
     (case jso of None \<Rightarrow> Some (None, h)
      | Some a \<Rightarrow> do {
          ob \<leftarrow> jh_map h a;
          rc \<leftarrow> c_int (jo_ref ob + 1);
          Some (Some a, jh_set h a (ob\<lparr>jo_ref := rc\<rparr>)) })"

text \<open>\<^verbatim>\<open>json_object_generic_delete\<close> releases the print buffer and the object.\<close>

definition json_object_generic_delete :: "jheap \<Rightarrow> nat \<Rightarrow> jheap option" where
  "json_object_generic_delete h a = do {
     ob \<leftarrow> jh_map h a;
     Some (h\<lparr>jh_map := (jh_map h)(a := None)\<rparr>) }"

text \<open>A sequence of calls of \<^verbatim>\<open>json_object_put\<close>, the effect of the release callbacks of a container.\<close>

fun put_all ::
  "(jheap \<Rightarrow> nat option \<Rightarrow> (int \<times> jheap) option) \<Rightarrow> jheap \<Rightarrow> nat option list \<Rightarrow> jheap option" where
  "put_all put h [] = Some h"
| "put_all put h (r # rs) = do { (x, h) \<leftarrow> put h r; put_all put h rs }"

definition json_object_lh_entry_free :: "(string, nat) lh_entry \<Rightarrow> nat option" where
  "json_object_lh_entry_free ent = e_v ent"

definition json_object_object_delete ::
  "(jheap \<Rightarrow> nat option \<Rightarrow> (int \<times> jheap) option) \<Rightarrow> jheap \<Rightarrow> nat \<Rightarrow> jheap option" where
  "json_object_object_delete put h a = do {
     ob \<leftarrow> jh_map h a;
     case jo_o ob of
       Some (C_object t) \<Rightarrow> do {
         ents \<leftarrow> lh_table_free t;
         h \<leftarrow> put_all put h (map json_object_lh_entry_free ents);
         json_object_generic_delete h a }
     | _ \<Rightarrow> None }"

definition json_object_array_delete ::
  "(jheap \<Rightarrow> nat option \<Rightarrow> (int \<times> jheap) option) \<Rightarrow> jheap \<Rightarrow> nat \<Rightarrow> jheap option" where
  "json_object_array_delete put h a = do {
     ob \<leftarrow> jh_map h a;
     case jo_o ob of
       Some (C_array (Some arr)) \<Rightarrow> do {
         xs \<leftarrow> array_list_free arr;
         h \<leftarrow> put_all put h (map Some xs);
         json_object_generic_delete h a }
     | _ \<Rightarrow> None }"

definition json_object_string_delete :: "jheap \<Rightarrow> nat \<Rightarrow> jheap option" where
  "json_object_string_delete h a = json_object_generic_delete h a"

text \<open>\<^verbatim>\<open>json_object_put\<close>; the fuel bounds the depth of the nested releases.\<close>

fun json_put :: "nat \<Rightarrow> jheap \<Rightarrow> nat option \<Rightarrow> (int \<times> jheap) option" where
  "json_put fuel h None = Some (0, h)"
| "json_put 0 h (Some a) = None"
| "json_put (Suc fuel) h (Some a) = do {
     ob \<leftarrow> jh_map h a;
     rc \<leftarrow> c_int (jo_ref ob - 1);
     let h = jh_set h a (ob\<lparr>jo_ref := rc\<rparr>);
     if rc \<noteq> 0 then Some (0, h)
     else do {
       let h = (case jo_user_delete ob of None \<Rightarrow> h
                | Some f \<Rightarrow> h\<lparr>jh_log := jh_log h @ [(f, a, jo_userdata ob)]\<rparr>);
       h \<leftarrow> (case jo_delete ob of
               generic_delete \<Rightarrow> json_object_generic_delete h a
             | object_delete \<Rightarrow> json_object_object_delete (json_put fuel) h a
             | string_delete \<Rightarrow> json_object_string_delete h a
             | array_delete \<Rightarrow> json_object_array_delete (json_put fuel) h a);
       Some (1, h) } }"

definition json_object_put :: "jheap \<Rightarrow> nat option \<Rightarrow> (int \<times> jheap) option" where
  "json_object_put h jso = json_put (Suc (jh_next h)) h jso"

section \<open>Constructors\<close>

definition json_object_new :: "allocator \<Rightarrow> jheap \<Rightarrow> json_type \<Rightarrow> nat option \<times> jheap" where
  "json_object_new A h ty =
     (if A 1
      then (Some (jh_next h),
            h\<lparr>jh_next := jh_next h + 1,
              jh_map := (jh_map h)(jh_next h := Some
                \<lparr>jo_type = ty, jo_delete = generic_delete, jo_to_json = None, jo_ref = 1, jo_pb = None,
                 jo_o = None, jo_user_delete = None, jo_userdata = None\<rparr>)\<rparr>)
      else (None, h))"

text \<open>The common tail of the constructors: the fields they set after \<^verbatim>\<open>json_object_new\<close>.\<close>

definition json_new_with ::
  "allocator \<Rightarrow> jheap \<Rightarrow> json_type \<Rightarrow> (json_object \<Rightarrow> json_object) \<Rightarrow> (nat option \<times> jheap) option" where
  "json_new_with A h ty f =
     (case json_object_new A h ty of
        (None, h) \<Rightarrow> Some (None, h)
      | (Some a, h) \<Rightarrow> do { ob \<leftarrow> jh_map h a; Some (Some a, jh_set h a (f ob)) })"

definition json_object_new_boolean :: "allocator \<Rightarrow> jheap \<Rightarrow> int \<Rightarrow> (nat option \<times> jheap) option" where
  "json_object_new_boolean A h b = json_new_with A h json_type_boolean
     (\<lambda>jso. jso\<lparr>jo_to_json := Some (Std json_type_boolean), jo_o := Some (C_boolean b)\<rparr>)"

definition json_object_new_int :: "allocator \<Rightarrow> jheap \<Rightarrow> int \<Rightarrow> (nat option \<times> jheap) option" where
  "json_object_new_int A h i = json_new_with A h json_type_int
     (\<lambda>jso. jso\<lparr>jo_to_json := Some (Std json_type_int), jo_o := Some (C_int64 i)\<rparr>)"

definition json_object_new_int64 :: "allocator \<Rightarrow> jheap \<Rightarrow> int \<Rightarrow> (nat option \<times> jheap) option" where
  "json_object_new_int64 A h i = json_new_with A h json_type_int
     (\<lambda>jso. jso\<lparr>jo_to_json := Some (Std json_type_int), jo_o := Some (C_int64 i)\<rparr>)"

definition json_object_new_double :: "allocator \<Rightarrow> jheap \<Rightarrow> double \<Rightarrow> (nat option \<times> jheap) option" where
  "json_object_new_double A h d = json_new_with A h json_type_double
     (\<lambda>jso. jso\<lparr>jo_to_json := Some (Std json_type_double), jo_o := Some (C_double d)\<rparr>)"

text \<open>A string object holds the bytes of its buffer before the terminator; \<^verbatim>\<open>strdup\<close> may return \<^verbatim>\<open>NULL\<close>.\<close>

definition json_object_new_string :: "allocator \<Rightarrow> jheap \<Rightarrow> string \<Rightarrow> (nat option \<times> jheap) option" where
  "json_object_new_string A h s = json_new_with A h json_type_string
     (\<lambda>jso. jso\<lparr>jo_delete := string_delete, jo_to_json := Some (Std json_type_string),
              jo_o := Some (C_string (if A (int (length s) + 1) then Some s else None) (int (length s)))\<rparr>)"

text \<open>\<open>s\<close> is the memory at the pointer given; a read beyond it, a negative length or a refused allocation
  (the result of \<^verbatim>\<open>malloc\<close> is not checked) is a fault.\<close>

definition json_object_new_string_len ::
  "allocator \<Rightarrow> jheap \<Rightarrow> string \<Rightarrow> int \<Rightarrow> (nat option \<times> jheap) option" where
  "json_object_new_string_len A h s len =
     (if A 1 \<and> (len < 0 \<or> nat len > length s \<or> \<not> A (len + 1)) then None
      else json_new_with A h json_type_string
        (\<lambda>jso. jso\<lparr>jo_delete := string_delete, jo_to_json := Some (Std json_type_string),
                 jo_o := Some (C_string (Some (take (nat len) s)) len)\<rparr>))"

definition json_object_new_object :: "allocator \<Rightarrow> jheap \<Rightarrow> (nat option \<times> jheap) option" where
  "json_object_new_object A h =
     (case lh_kchar_table_new A JSON_OBJECT_DEF_HASH_ENTRIES [] True of
        None \<Rightarrow> if A 1 then None else Some (None, h)
      | Some t \<Rightarrow> json_new_with A h json_type_object
          (\<lambda>jso. jso\<lparr>jo_delete := object_delete, jo_to_json := Some (Std json_type_object),
                   jo_o := Some (C_object t)\<rparr>))"

definition json_object_new_array :: "allocator \<Rightarrow> jheap \<Rightarrow> (nat option \<times> jheap) option" where
  "json_object_new_array A h = json_new_with A h json_type_array
     (\<lambda>jso. jso\<lparr>jo_delete := array_delete, jo_to_json := Some (Std json_type_array),
              jo_o := Some (C_array (array_list_new A))\<rparr>)"

section \<open>Types and serializers\<close>

definition json_object_is_type :: "jheap \<Rightarrow> nat option \<Rightarrow> json_type \<Rightarrow> bool option" where
  "json_object_is_type h jso ty =
     (case jso of None \<Rightarrow> Some (ty = json_type_null)
      | Some a \<Rightarrow> map_option (\<lambda>ob. jo_type ob = ty) (jh_map h a))"

definition json_object_get_type :: "jheap \<Rightarrow> nat option \<Rightarrow> json_type option" where
  "json_object_get_type h jso =
     (case jso of None \<Rightarrow> Some json_type_null | Some a \<Rightarrow> map_option jo_type (jh_map h a))"

text \<open>The clean-up of \<^verbatim>\<open>json_object_set_serializer\<close>, a call of the old user delete function, is logged.\<close>

definition json_object_set_serializer ::
  "jheap \<Rightarrow> nat \<Rightarrow> nat option \<Rightarrow> nat option \<Rightarrow> nat option \<Rightarrow> jheap option" where
  "json_object_set_serializer h a to_string_func userdata user_delete = do {
     ob \<leftarrow> jh_map h a;
     let h = (case jo_user_delete ob of None \<Rightarrow> h
              | Some f \<Rightarrow> h\<lparr>jh_log := jh_log h @ [(f, a, jo_userdata ob)]\<rparr>);
     let ob = ob\<lparr>jo_userdata := None, jo_user_delete := None\<rparr>;
     Some (jh_set h a
       (case to_string_func of
          None \<Rightarrow> ob\<lparr>jo_to_json := (case jo_type ob of json_type_null \<Rightarrow> None | ty \<Rightarrow> Some (Std ty))\<rparr>
        | Some f \<Rightarrow> ob\<lparr>jo_to_json := Some (User f), jo_userdata := userdata, jo_user_delete := user_delete\<rparr>)) }"

section \<open>Object members\<close>

definition jo_table :: "json_object \<Rightarrow> (string, nat) lh_table option" where
  "jo_table ob = (case jo_o ob of Some (C_object t) \<Rightarrow> Some t | _ \<Rightarrow> None)"

definition jo_array :: "json_object \<Rightarrow> nat array_list option" where
  "jo_array ob = (case jo_o ob of Some (C_array (Some arr)) \<Rightarrow> Some arr | _ \<Rightarrow> None)"

text \<open>\<^verbatim>\<open>json_object_get_object\<close>: the table of an object, \<open>Some None\<close> for \<^verbatim>\<open>NULL\<close>.\<close>

definition json_object_get_object :: "jheap \<Rightarrow> nat option \<Rightarrow> (string, nat) lh_table option option" where
  "json_object_get_object h jso =
     (case jso of None \<Rightarrow> Some None
      | Some a \<Rightarrow> do {
          ob \<leftarrow> jh_map h a;
          if jo_type ob = json_type_object then map_option Some (jo_table ob) else Some None })"

text \<open>A refused \<^verbatim>\<open>strdup\<close> is a fault: the hash function reads through its result.\<close>

definition json_object_object_add ::
  "allocator \<Rightarrow> jheap \<Rightarrow> nat \<Rightarrow> string \<Rightarrow> nat option \<Rightarrow> jheap option" where
  "json_object_object_add A h a key val = do {
     ob \<leftarrow> jh_map h a;
     t \<leftarrow> jo_table ob;
     (existing_entry, t) \<leftarrow> lh_table_lookup_entry t key;
     case existing_entry of
       None \<Rightarrow> do {
         k \<leftarrow> (if A (int (length key) + 1) then Some key else None);
         t \<leftarrow> lh_table_insert A t k val;
         Some (jh_set h a (ob\<lparr>jo_o := Some (C_object t)\<rparr>)) }
     | Some i \<Rightarrow> do {
         e \<leftarrow> peek (lh_tab t) i;
         let h = jh_set h a (ob\<lparr>jo_o := Some (C_object t)\<rparr>);
         h \<leftarrow> (case e_v e of None \<Rightarrow> Some h
               | Some existing_value \<Rightarrow> do { (r, h) \<leftarrow> json_object_put h (Some existing_value); Some h });
         ob \<leftarrow> jh_map h a;
         t \<leftarrow> jo_table ob;
         tb \<leftarrow> lh_upd (lh_tab t) (Some i) (\<lambda>e. e\<lparr>e_v := val\<rparr>);
         Some (jh_set h a (ob\<lparr>jo_o := Some (C_object (t\<lparr>lh_tab := tb\<rparr>))\<rparr>)) } }"

definition json_object_object_length :: "jheap \<Rightarrow> nat \<Rightarrow> int option" where
  "json_object_object_length h a = do { ob \<leftarrow> jh_map h a; t \<leftarrow> jo_table ob; Some (lh_table_length t) }"

definition json_object_object_get_ex ::
  "jheap \<Rightarrow> nat option \<Rightarrow> string \<Rightarrow> (bool \<times> nat option \<times> jheap) option" where
  "json_object_object_get_ex h jso key =
     (case jso of None \<Rightarrow> Some (False, None, h)
      | Some a \<Rightarrow> do {
          ob \<leftarrow> jh_map h a;
          if jo_type ob = json_type_object
          then do {
            t \<leftarrow> jo_table ob;
            (found, v, t) \<leftarrow> lh_table_lookup_ex t key;
            Some (found, v, jh_set h a (ob\<lparr>jo_o := Some (C_object t)\<rparr>)) }
          else Some (False, None, h) })"

definition json_object_object_get ::
  "jheap \<Rightarrow> nat option \<Rightarrow> string \<Rightarrow> (nat option \<times> jheap) option" where
  "json_object_object_get h jso key = do {
     (found, v, h) \<leftarrow> json_object_object_get_ex h jso key;
     Some (v, h) }"

text \<open>\<^verbatim>\<open>json_object_object_del\<close>; \<^verbatim>\<open>free_fn\<close> releases the value of the entry removed.\<close>

definition json_object_object_del :: "jheap \<Rightarrow> nat \<Rightarrow> string \<Rightarrow> jheap option" where
  "json_object_object_del h a key = do {
     ob \<leftarrow> jh_map h a;
     t \<leftarrow> jo_table ob;
     (r, t, freed) \<leftarrow> lh_table_delete t key;
     let h = jh_set h a (ob\<lparr>jo_o := Some (C_object t)\<rparr>);
     put_all json_object_put h (map json_object_lh_entry_free freed) }"

section \<open>Array elements\<close>

definition json_object_get_array :: "jheap \<Rightarrow> nat option \<Rightarrow> nat array_list option option" where
  "json_object_get_array h jso =
     (case jso of None \<Rightarrow> Some None
      | Some a \<Rightarrow> do {
          ob \<leftarrow> jh_map h a;
          if jo_type ob = json_type_array
          then (case jo_o ob of Some (C_array arr) \<Rightarrow> Some arr | _ \<Rightarrow> None) else Some None })"

definition json_object_array_sort ::
  "(nat option list \<Rightarrow> nat option list) \<Rightarrow> jheap \<Rightarrow> nat \<Rightarrow> jheap option" where
  "json_object_array_sort qsort h a = do {
     ob \<leftarrow> jh_map h a;
     arr \<leftarrow> jo_array ob;
     Some (jh_set h a (ob\<lparr>jo_o := Some (C_array (Some (array_list_sort qsort arr)))\<rparr>)) }"

definition json_object_array_length :: "jheap \<Rightarrow> nat \<Rightarrow> int option" where
  "json_object_array_length h a = do { ob \<leftarrow> jh_map h a; arr \<leftarrow> jo_array ob; Some (array_list_length arr) }"

text \<open>The element replaced is released with \<^verbatim>\<open>json_object_array_entry_free\<close>.\<close>

definition json_object_array_put_idx ::
  "allocator \<Rightarrow> jheap \<Rightarrow> nat \<Rightarrow> int \<Rightarrow> nat option \<Rightarrow> (int \<times> jheap) option" where
  "json_object_array_put_idx A h a idx val = do {
     ob \<leftarrow> jh_map h a;
     arr \<leftarrow> jo_array ob;
     (r, freed, arr) \<leftarrow> array_list_put_idx A arr idx val;
     let h = jh_set h a (ob\<lparr>jo_o := Some (C_array (Some arr))\<rparr>);
     h \<leftarrow> put_all json_object_put h (map Some freed);
     Some (r, h) }"

definition json_object_array_add ::
  "allocator \<Rightarrow> jheap \<Rightarrow> nat \<Rightarrow> nat option \<Rightarrow> (int \<times> jheap) option" where
  "json_object_array_add A h a val = do {
     ob \<leftarrow> jh_map h a;
     arr \<leftarrow> jo_array ob;
     json_object_array_put_idx A h a (al_length arr) val }"

definition json_object_array_get_idx :: "jheap \<Rightarrow> nat \<Rightarrow> int \<Rightarrow> nat option option" where
  "json_object_array_get_idx h a idx = do {
     ob \<leftarrow> jh_map h a;
     arr \<leftarrow> jo_array ob;
     array_list_get_idx arr idx }"

section \<open>Values of the scalar types\<close>

definition json_object_get_boolean :: "jheap \<Rightarrow> nat option \<Rightarrow> int option" where
  "json_object_get_boolean h jso =
     (case jso of None \<Rightarrow> Some 0
      | Some a \<Rightarrow> do {
          ob \<leftarrow> jh_map h a;
          case jo_type ob of
            json_type_boolean \<Rightarrow> (case jo_o ob of Some (C_boolean b) \<Rightarrow> Some b | _ \<Rightarrow> None)
          | json_type_int \<Rightarrow> (case jo_o ob of Some (C_int64 i) \<Rightarrow> Some (if i \<noteq> 0 then 1 else 0) | _ \<Rightarrow> None)
          | json_type_double \<Rightarrow>
              (case jo_o ob of Some (C_double d) \<Rightarrow> Some (if double_nonzero d then 1 else 0) | _ \<Rightarrow> None)
          | json_type_string \<Rightarrow>
              (case jo_o ob of Some (C_string s len) \<Rightarrow> Some (if len \<noteq> 0 then 1 else 0) | _ \<Rightarrow> None)
          | _ \<Rightarrow> Some 0 })"

definition clamp32 :: "int \<Rightarrow> int" where
  "clamp32 i = (if i \<le> INT_MIN then INT_MIN else if i \<ge> INT_MAX then INT_MAX else i)"

definition json_object_get_int :: "jheap \<Rightarrow> nat option \<Rightarrow> int option" where
  "json_object_get_int h jso =
     (case jso of None \<Rightarrow> Some 0
      | Some a \<Rightarrow> do {
          ob \<leftarrow> jh_map h a;
          case jo_type ob of
            json_type_string \<Rightarrow>
              (case jo_o ob of
                 Some (C_string (Some s) len) \<Rightarrow>
                   (case json_parse_int64 scan_saturating (c_str s) of None \<Rightarrow> Some 0 | Some cint64 \<Rightarrow> Some (clamp32 cint64))
               | _ \<Rightarrow> None)
          | json_type_int \<Rightarrow> (case jo_o ob of Some (C_int64 i) \<Rightarrow> Some (clamp32 i) | _ \<Rightarrow> None)
          | json_type_double \<Rightarrow> (case jo_o ob of Some (C_double d) \<Rightarrow> double_to_range INT_MIN INT_MAX d | _ \<Rightarrow> None)
          | json_type_boolean \<Rightarrow> (case jo_o ob of Some (C_boolean b) \<Rightarrow> Some b | _ \<Rightarrow> None)
          | _ \<Rightarrow> Some 0 })"

definition json_object_get_int64 :: "jheap \<Rightarrow> nat option \<Rightarrow> int option" where
  "json_object_get_int64 h jso =
     (case jso of None \<Rightarrow> Some 0
      | Some a \<Rightarrow> do {
          ob \<leftarrow> jh_map h a;
          case jo_type ob of
            json_type_int \<Rightarrow> (case jo_o ob of Some (C_int64 i) \<Rightarrow> Some i | _ \<Rightarrow> None)
          | json_type_double \<Rightarrow> (case jo_o ob of Some (C_double d) \<Rightarrow> double_to_range INT64_MIN INT64_MAX d | _ \<Rightarrow> None)
          | json_type_boolean \<Rightarrow> (case jo_o ob of Some (C_boolean b) \<Rightarrow> Some b | _ \<Rightarrow> None)
          | json_type_string \<Rightarrow>
              (case jo_o ob of
                 Some (C_string (Some s) len) \<Rightarrow>
                   (case json_parse_int64 scan_saturating (c_str s) of None \<Rightarrow> Some 0 | Some cint \<Rightarrow> Some cint)
               | _ \<Rightarrow> None)
          | _ \<Rightarrow> Some 0 })"

definition json_object_get_double :: "jheap \<Rightarrow> nat option \<Rightarrow> double option" where
  "json_object_get_double h jso =
     (case jso of None \<Rightarrow> Some (double_of_int 0)
      | Some a \<Rightarrow> do {
          ob \<leftarrow> jh_map h a;
          case jo_type ob of
            json_type_double \<Rightarrow> (case jo_o ob of Some (C_double d) \<Rightarrow> Some d | _ \<Rightarrow> None)
          | json_type_int \<Rightarrow> (case jo_o ob of Some (C_int64 i) \<Rightarrow> Some (double_of_int i) | _ \<Rightarrow> None)
          | json_type_boolean \<Rightarrow> (case jo_o ob of Some (C_boolean b) \<Rightarrow> Some (double_of_int b) | _ \<Rightarrow> None)
          | json_type_string \<Rightarrow>
              (case jo_o ob of
                 Some (C_string (Some s) len) \<Rightarrow>
                   (case double_scan (c_str s) of None \<Rightarrow> Some (double_of_int 0) | Some d \<Rightarrow> Some d)
               | _ \<Rightarrow> None)
          | _ \<Rightarrow> Some (double_of_int 0) })"

definition json_object_get_string_len :: "jheap \<Rightarrow> nat option \<Rightarrow> int option" where
  "json_object_get_string_len h jso =
     (case jso of None \<Rightarrow> Some 0
      | Some a \<Rightarrow> do {
          ob \<leftarrow> jh_map h a;
          case jo_type ob of
            json_type_string \<Rightarrow> (case jo_o ob of Some (C_string s len) \<Rightarrow> Some len | _ \<Rightarrow> None)
          | _ \<Rightarrow> Some 0 })"

end
