(* ===== verification/JsonPrint.thy ===== *)
theory JsonPrint
  imports JsonObject
begin

text \<open>
  The conversion of objects to text, the second part of \<^verbatim>\<open>src/Json/json_object.c\<close>: escaping, the
  serializers of every type with their flags, and \<^verbatim>\<open>json_object_to_json_string_ext\<close> with the buffer that
  an object keeps. The specification is \<open>render\<close>, a function on plain values; the main results are that the
  serializers write exactly what \<open>render\<close> says.
\<close>

section \<open>Escaping\<close>

definition json_number_chars :: string where "json_number_chars = ''0123456789.+-eE''"
definition json_hex_chars :: string where "json_hex_chars = ''0123456789abcdefABCDEF''"

definition has_flag :: "u32 \<Rightarrow> u32 \<Rightarrow> bool" where
  "has_flag flags f \<longleftrightarrow> flags AND f \<noteq> 0"

text \<open>The escapes with a letter of their own.\<close>

definition short_escape :: "char \<Rightarrow> string option" where
  "short_escape c =
     (if c = CHR 0x08 then Some [CHR 0x5C, CHR ''b'']
      else if c = CHR 0x0A then Some [CHR 0x5C, CHR ''n'']
      else if c = CHR 0x0D then Some [CHR 0x5C, CHR ''r'']
      else if c = CHR 0x09 then Some [CHR 0x5C, CHR ''t'']
      else if c = CHR 0x0C then Some [CHR 0x5C, CHR ''f'']
      else if c = CHR 0x22 then Some [CHR 0x5C, CHR 0x22]
      else if c = CHR 0x5C then Some [CHR 0x5C, CHR 0x5C]
      else if c = CHR ''/'' then Some [CHR 0x5C, CHR ''/'']
      else None)"

definition u_escape :: "char \<Rightarrow> string" where
  "u_escape c = CHR 0x5C # ''u00'' @ [json_hex_chars ! (cc c div 16), json_hex_chars ! (cc c mod 16)]"

text \<open>Writing the plain characters from \<^verbatim>\<open>start_offset\<close> up to \<^verbatim>\<open>pos\<close>.\<close>

definition esc_flush :: "allocator \<Rightarrow> string \<Rightarrow> nat \<Rightarrow> nat \<Rightarrow> printbuf \<Rightarrow> printbuf option" where
  "esc_flush A mem start pos pb =
     (if pos > start then ap A (take (pos - start) (drop start mem)) pb else Some pb)"

text \<open>The loop of \<^verbatim>\<open>json_escape_str\<close> with \<open>left\<close> rounds to go, over the memory \<open>mem\<close> of the string and its terminator.\<close>

fun esc_loop :: "allocator \<Rightarrow> nat \<Rightarrow> string \<Rightarrow> nat \<Rightarrow> nat \<Rightarrow> printbuf \<Rightarrow> printbuf option" where
  "esc_loop A 0 mem pos start pb = esc_flush A mem start pos pb"
| "esc_loop A (Suc left) mem pos start pb = do {
     c \<leftarrow> peek mem pos;
     case short_escape c of
       Some e \<Rightarrow> do {
         pb \<leftarrow> esc_flush A mem start pos pb;
         pb \<leftarrow> ap A e pb;
         esc_loop A left mem (pos + 1) (pos + 1) pb }
     | None \<Rightarrow>
         (if cc c < 32
          then do {
            pb \<leftarrow> esc_flush A mem start pos pb;
            pb \<leftarrow> sp A (u_escape c) pb;
            esc_loop A left mem (pos + 1) (pos + 1) pb }
          else esc_loop A left mem (pos + 1) start pb) }"

text \<open>A negative length counts down through the whole range of \<^verbatim>\<open>int\<close>, past the end of the memory.\<close>

definition json_escape_str :: "allocator \<Rightarrow> string \<Rightarrow> int \<Rightarrow> printbuf \<Rightarrow> printbuf option" where
  "json_escape_str A mem len pb = (if len < 0 then None else esc_loop A (nat len) mem 0 0 pb)"

section \<open>Serializers\<close>

definition indent :: "allocator \<Rightarrow> int \<Rightarrow> u32 \<Rightarrow> printbuf \<Rightarrow> printbuf option" where
  "indent A level flags pb =
     (if has_flag flags JSON_C_TO_STRING_PRETTY
      then map_option snd (printbuf_memset A pb (-1) CHR '' '' (level * 2)) else Some pb)"

definition when_flag :: "bool \<Rightarrow> (printbuf \<Rightarrow> printbuf option) \<Rightarrow> printbuf \<Rightarrow> printbuf option" where
  "when_flag b F pb = (if b then F pb else Some pb)"

definition NL :: string where "NL = [CHR 0x0A]"
definition QUOTE :: string where "QUOTE = [CHR 0x22]"

type_synonym child_fn = "nat \<Rightarrow> int \<Rightarrow> printbuf \<Rightarrow> (int \<times> printbuf) option"

text \<open>The start of an element: the comma after a previous one, the space and the indentation.\<close>

definition print_sep :: "allocator \<Rightarrow> u32 \<Rightarrow> int \<Rightarrow> bool \<Rightarrow> printbuf \<Rightarrow> printbuf option" where
  "print_sep A flags level had_children pb = do {
     pb \<leftarrow> when_flag had_children (\<lambda>pb. do {
             pb \<leftarrow> sp A '','' pb;
             when_flag (has_flag flags JSON_C_TO_STRING_PRETTY) (sp A NL) pb }) pb;
     pb \<leftarrow> when_flag (has_flag flags JSON_C_TO_STRING_SPACED) (sp A '' '') pb;
     indent A (level + 1) flags pb }"

definition print_child :: "allocator \<Rightarrow> child_fn \<Rightarrow> int \<Rightarrow> nat option \<Rightarrow> printbuf \<Rightarrow> printbuf option" where
  "print_child A child level v pb =
     (case v of None \<Rightarrow> sp A ''null'' pb | Some c \<Rightarrow> map_option snd (child c (level + 1) pb))"

fun print_entries ::
  "allocator \<Rightarrow> u32 \<Rightarrow> child_fn \<Rightarrow> int \<Rightarrow> (string \<times> nat option) list \<Rightarrow> bool \<Rightarrow> printbuf \<Rightarrow> printbuf option" where
  "print_entries A flags child level [] had_children pb = Some pb"
| "print_entries A flags child level ((key, v) # es) had_children pb = do {
     pb \<leftarrow> print_sep A flags level had_children pb;
     pb \<leftarrow> sp A QUOTE pb;
     pb \<leftarrow> json_escape_str A (key @ [NUL]) (int (length key)) pb;
     pb \<leftarrow> sp A (if has_flag flags JSON_C_TO_STRING_SPACED then QUOTE @ '': '' else QUOTE @ '':'') pb;
     pb \<leftarrow> print_child A child level v pb;
     print_entries A flags child level es True pb }"

text \<open>The end of a container: the line break and the indentation, and the closing text, whose length is
  the result.\<close>

definition print_close :: "allocator \<Rightarrow> u32 \<Rightarrow> int \<Rightarrow> bool \<Rightarrow> string \<Rightarrow> printbuf \<Rightarrow> (int \<times> printbuf) option" where
  "print_close A flags level had_children close pb = do {
     pb \<leftarrow> when_flag (has_flag flags JSON_C_TO_STRING_PRETTY) (\<lambda>pb. do {
             pb \<leftarrow> when_flag had_children (sp A NL) pb;
             indent A level flags pb }) pb;
     sprintbuf A pb (if has_flag flags JSON_C_TO_STRING_SPACED then '' '' @ close else close) }"

definition json_object_object_to_json_string ::
  "allocator \<Rightarrow> u32 \<Rightarrow> child_fn \<Rightarrow> (string, nat) lh_table \<Rightarrow> int \<Rightarrow> printbuf \<Rightarrow> (int \<times> printbuf) option" where
  "json_object_object_to_json_string A flags child t level pb = do {
     pb \<leftarrow> sp A ''{'' pb;
     pb \<leftarrow> when_flag (has_flag flags JSON_C_TO_STRING_PRETTY) (sp A NL) pb;
     is \<leftarrow> lh_foreach t;
     let es = map (\<lambda>i. lh_item (lh_tab t ! i)) is;
     pb \<leftarrow> print_entries A flags child level es False pb;
     print_close A flags level (es \<noteq> []) ''}'' pb }"

text \<open>The loop over the elements, \<open>left\<close> to go from index \<open>ii\<close>.\<close>

fun print_elems ::
  "allocator \<Rightarrow> u32 \<Rightarrow> child_fn \<Rightarrow> int \<Rightarrow> nat array_list \<Rightarrow> nat \<Rightarrow> int \<Rightarrow> bool \<Rightarrow> printbuf \<Rightarrow> printbuf option" where
  "print_elems A flags child level arr 0 ii had_children pb = Some pb"
| "print_elems A flags child level arr (Suc left) ii had_children pb = do {
     pb \<leftarrow> print_sep A flags level had_children pb;
     v \<leftarrow> array_list_get_idx arr ii;
     pb \<leftarrow> print_child A child level v pb;
     print_elems A flags child level arr left (ii + 1) True pb }"

definition json_object_array_to_json_string ::
  "allocator \<Rightarrow> u32 \<Rightarrow> child_fn \<Rightarrow> nat array_list \<Rightarrow> int \<Rightarrow> printbuf \<Rightarrow> (int \<times> printbuf) option" where
  "json_object_array_to_json_string A flags child arr level pb = do {
     pb \<leftarrow> sp A ''['' pb;
     pb \<leftarrow> when_flag (has_flag flags JSON_C_TO_STRING_PRETTY) (sp A NL) pb;
     pb \<leftarrow> print_elems A flags child level arr (nat (array_list_length arr)) 0 False pb;
     print_close A flags level (array_list_length arr > 0) '']'' pb }"

definition json_object_boolean_to_json_string :: "allocator \<Rightarrow> int \<Rightarrow> printbuf \<Rightarrow> (int \<times> printbuf) option" where
  "json_object_boolean_to_json_string A b pb = (if b \<noteq> 0 then sprintbuf A pb ''true'' else sprintbuf A pb ''false'')"

definition json_object_int_to_json_string :: "allocator \<Rightarrow> int \<Rightarrow> printbuf \<Rightarrow> (int \<times> printbuf) option" where
  "json_object_int_to_json_string A i pb = sprintbuf A pb (dec_int i)"

text \<open>The position of a character in the text of a buffer (\<^verbatim>\<open>strchr\<close>).\<close>

definition strchr :: "string \<Rightarrow> char \<Rightarrow> nat option" where
  "strchr s c = (if c \<in> set s then Some (length (takeWhile ((\<noteq>) c) s)) else None)"

text \<open>The loop over the decimals: the position of the last one that is not a zero.\<close>

fun last_useful :: "string \<Rightarrow> nat \<Rightarrow> nat \<Rightarrow> nat" where
  "last_useful [] q p = p"
| "last_useful (c # cs) q p = last_useful cs (q + 1) (if c \<noteq> CHR ''0'' then q else p)"

text \<open>The 128 bytes of \<^verbatim>\<open>buf\<close>: the formatted text, cut to 127 characters, its terminator, and bytes that are
  not initialised. The size returned by \<^verbatim>\<open>snprintf\<close> is the one of the whole text.\<close>

definition json_object_double_to_json_string ::
  "allocator \<Rightarrow> double \<Rightarrow> u32 \<Rightarrow> printbuf \<Rightarrow> (int \<times> printbuf) option" where
  "json_object_double_to_json_string A d flags pb = do {
     let s = double_fmt d;
     let sz = length s;
     let s = take 127 s;
     let s = (case strchr s CHR '','' of Some p \<Rightarrow> s[p := CHR ''.''] | None \<Rightarrow> s);
     let buf = map Some s @ Some NUL # replicate (127 - length s) None;
     (sz, buf) \<leftarrow> (case strchr s CHR ''.'' of
         Some p \<Rightarrow>
           (if has_flag flags JSON_C_TO_STRING_NOZERO
            then do {
              let p = last_useful (drop (p + 1) s) (p + 1) (p + 1);
              buf \<leftarrow> poke buf (p + 1) (Some NUL);
              Some (p + 1, buf) }
            else Some (sz, buf))
       | None \<Rightarrow> Some (sz, buf));
     bytes \<leftarrow> (if sz \<le> 128 then those (take sz buf) else None);
     pb \<leftarrow> ap A bytes pb;
     Some (int sz, pb) }"

definition json_object_string_to_json_string ::
  "allocator \<Rightarrow> string option \<Rightarrow> int \<Rightarrow> printbuf \<Rightarrow> (int \<times> printbuf) option" where
  "json_object_string_to_json_string A str len pb = do {
     let mem = (case str of None \<Rightarrow> [] | Some s \<Rightarrow> s @ [NUL]);
     pb \<leftarrow> sp A QUOTE pb;
     pb \<leftarrow> json_escape_str A mem len pb;
     pb \<leftarrow> sp A QUOTE pb;
     Some (0, pb) }"

type_synonym user_serializer = "nat \<Rightarrow> nat \<Rightarrow> int \<Rightarrow> u32 \<Rightarrow> string \<times> int"

text \<open>A call through \<^verbatim>\<open>_to_json_string\<close>; the fuel bounds the nesting of the objects.\<close>

fun to_json ::
  "nat \<Rightarrow> allocator \<Rightarrow> user_serializer \<Rightarrow> u32 \<Rightarrow> jheap \<Rightarrow> nat \<Rightarrow> int \<Rightarrow> printbuf \<Rightarrow> (int \<times> printbuf) option" where
  "to_json 0 A U flags h a level pb = None"
| "to_json (Suc fuel) A U flags h a level pb = do {
     ob \<leftarrow> jh_map h a;
     case jo_to_json ob of
       None \<Rightarrow> None
     | Some (User f) \<Rightarrow> (case U f a level flags of (s, r) \<Rightarrow> do { pb \<leftarrow> ap A s pb; Some (r, pb) })
     | Some (Std ty) \<Rightarrow>
         (case (ty, jo_o ob) of
            (json_type_boolean, Some (C_boolean b)) \<Rightarrow> json_object_boolean_to_json_string A b pb
          | (json_type_int, Some (C_int64 i)) \<Rightarrow> json_object_int_to_json_string A i pb
          | (json_type_double, Some (C_double d)) \<Rightarrow> json_object_double_to_json_string A d flags pb
          | (json_type_string, Some (C_string str len)) \<Rightarrow> json_object_string_to_json_string A str len pb
          | (json_type_object, Some (C_object t)) \<Rightarrow>
              json_object_object_to_json_string A flags (to_json fuel A U flags h) t level pb
          | (json_type_array, Some (C_array (Some arr))) \<Rightarrow>
              json_object_array_to_json_string A flags (to_json fuel A U flags h) arr level pb
          | _ \<Rightarrow> None) }"

text \<open>The result is the text at \<^verbatim>\<open>jso->_pb->buf\<close>, \<open>Some None\<close> for \<^verbatim>\<open>NULL\<close>.\<close>

definition json_object_to_json_string_ext ::
  "allocator \<Rightarrow> user_serializer \<Rightarrow> jheap \<Rightarrow> nat option \<Rightarrow> u32 \<Rightarrow> (string option \<times> jheap) option" where
  "json_object_to_json_string_ext A U h jso flags =
     (case jso of None \<Rightarrow> Some (Some ''null'', h)
      | Some a \<Rightarrow> do {
          ob \<leftarrow> jh_map h a;
          case (case jo_pb ob of Some pb \<Rightarrow> Some pb | None \<Rightarrow> printbuf_new A) of
            None \<Rightarrow> Some (None, h)
          | Some pb \<Rightarrow> do {
              pb \<leftarrow> printbuf_reset pb;
              (r, pb) \<leftarrow> to_json (jh_next h) A U flags h a 0 pb;
              let h = jh_set h a (ob\<lparr>jo_pb := Some pb\<rparr>);
              if r < 0 then Some (None, h)
              else do { s \<leftarrow> c_string (pb_buf pb); Some (Some s, h) } } })"

definition json_object_to_json_string ::
  "allocator \<Rightarrow> user_serializer \<Rightarrow> jheap \<Rightarrow> nat option \<Rightarrow> (string option \<times> jheap) option" where
  "json_object_to_json_string A U h jso = json_object_to_json_string_ext A U h jso JSON_C_TO_STRING_SPACED"

definition json_object_get_string ::
  "allocator \<Rightarrow> user_serializer \<Rightarrow> jheap \<Rightarrow> nat option \<Rightarrow> (string option \<times> jheap) option" where
  "json_object_get_string A U h jso =
     (case jso of None \<Rightarrow> Some (None, h)
      | Some a \<Rightarrow> do {
          ob \<leftarrow> jh_map h a;
          if jo_type ob = json_type_string
          then (case jo_o ob of Some (C_string s len) \<Rightarrow> Some (map_option c_str s, h) | _ \<Rightarrow> None)
          else json_object_to_json_string A U h jso })"

section \<open>Plain values and their text\<close>

datatype jval = VNull | VBool bool | VInt int | VDouble double | VStr string
  | VArr "jval list" | VObj "(string \<times> jval) list"

definition esc_char :: "char \<Rightarrow> string" where
  "esc_char c = (case short_escape c of Some e \<Rightarrow> e | None \<Rightarrow> if cc c < 32 then u_escape c else [c])"

definition esc :: "string \<Rightarrow> string" where
  "esc s = concat (map esc_char s)"

definition nl_text :: "u32 \<Rightarrow> string" where
  "nl_text flags = (if has_flag flags JSON_C_TO_STRING_PRETTY then NL else [])"

definition sp_text :: "u32 \<Rightarrow> string" where
  "sp_text flags = (if has_flag flags JSON_C_TO_STRING_SPACED then '' '' else [])"

definition indent_text :: "u32 \<Rightarrow> nat \<Rightarrow> string" where
  "indent_text flags level = (if has_flag flags JSON_C_TO_STRING_PRETTY then replicate (2 * level) CHR '' '' else [])"

definition sep_text :: "u32 \<Rightarrow> nat \<Rightarrow> bool \<Rightarrow> string" where
  "sep_text flags level had =
     (if had then '','' @ nl_text flags else []) @ sp_text flags @ indent_text flags (level + 1)"

definition close_text :: "u32 \<Rightarrow> nat \<Rightarrow> bool \<Rightarrow> string \<Rightarrow> string" where
  "close_text flags level had close =
     (if has_flag flags JSON_C_TO_STRING_PRETTY then (if had then NL else []) @ indent_text flags level else [])
     @ sp_text flags @ close"

definition colon_text :: "u32 \<Rightarrow> string" where
  "colon_text flags = (if has_flag flags JSON_C_TO_STRING_SPACED then QUOTE @ '': '' else QUOTE @ '':'')"

text \<open>The decimals without the trailing zeros, but for the first.\<close>

definition trim_decimals :: "string \<Rightarrow> string" where
  "trim_decimals s =
     (let ip = takeWhile ((\<noteq>) CHR ''.'') s; fp = drop (length ip + 1) s
      in ip @ ''.'' @ hd fp # rev (dropWhile ((=) CHR ''0'') (rev (tl fp))))"

definition double_text :: "u32 \<Rightarrow> double \<Rightarrow> string" where
  "double_text flags d =
     (if has_flag flags JSON_C_TO_STRING_NOZERO \<and> CHR ''.'' \<in> set (double_fmt d)
      then trim_decimals (double_fmt d) else double_fmt d)"

fun render :: "u32 \<Rightarrow> nat \<Rightarrow> jval \<Rightarrow> string"
  and render_list :: "u32 \<Rightarrow> nat \<Rightarrow> bool \<Rightarrow> jval list \<Rightarrow> string"
  and render_items :: "u32 \<Rightarrow> nat \<Rightarrow> bool \<Rightarrow> (string \<times> jval) list \<Rightarrow> string" where
  "render flags level VNull = ''null''"
| "render flags level (VBool b) = (if b then ''true'' else ''false'')"
| "render flags level (VInt i) = dec_int i"
| "render flags level (VDouble d) = double_text flags d"
| "render flags level (VStr s) = QUOTE @ esc s @ QUOTE"
| "render flags level (VArr vs) =
     ''['' @ nl_text flags @ render_list flags level False vs @ close_text flags level (vs \<noteq> []) '']''"
| "render flags level (VObj kvs) =
     ''{'' @ nl_text flags @ render_items flags level False kvs @ close_text flags level (kvs \<noteq> []) ''}''"
| "render_list flags level had [] = []"
| "render_list flags level had (v # vs) =
     sep_text flags level had @ render flags (level + 1) v @ render_list flags level True vs"
| "render_items flags level had [] = []"
| "render_items flags level had ((k, v) # kvs) =
     sep_text flags level had @ QUOTE @ esc k @ colon_text flags @ render flags (level + 1) v
     @ render_items flags level True kvs"

text \<open>A pointer represents a value: the objects below it carry the standard serializers of their types and
  hold the parts of the value.\<close>

definition std_obj :: "jheap \<Rightarrow> nat option \<Rightarrow> json_type \<Rightarrow> json_union \<Rightarrow> bool" where
  "std_obj h r ty u \<longleftrightarrow> (\<exists>a ob. r = Some a \<and> jh_map h a = Some ob \<and> jo_to_json ob = Some (Std ty) \<and> jo_o ob = Some u)"

fun double_ok :: "double \<Rightarrow> bool" where
  "double_ok (Fin s m e) \<longleftrightarrow> 0 \<le> m"
| "double_ok (Inf s) \<longleftrightarrow> True"
| "double_ok NaN \<longleftrightarrow> True"

fun reprs :: "jheap \<Rightarrow> nat option \<Rightarrow> jval \<Rightarrow> bool"
  and reprs_list :: "jheap \<Rightarrow> nat option list \<Rightarrow> jval list \<Rightarrow> bool"
  and reprs_items :: "jheap \<Rightarrow> (string \<times> nat option) list \<Rightarrow> (string \<times> jval) list \<Rightarrow> bool" where
  "reprs h r VNull \<longleftrightarrow> r = None"
| "reprs h r (VBool b) \<longleftrightarrow> (\<exists>i. std_obj h r json_type_boolean (C_boolean i) \<and> b = (i \<noteq> 0))"
| "reprs h r (VInt i) \<longleftrightarrow> std_obj h r json_type_int (C_int64 i)"
| "reprs h r (VDouble d) \<longleftrightarrow> std_obj h r json_type_double (C_double d) \<and> double_ok d
     \<and> length (double_fmt d) \<le> 127"
| "reprs h r (VStr s) \<longleftrightarrow> std_obj h r json_type_string (C_string (Some s) (int (length s)))"
| "reprs h r (VArr vs) \<longleftrightarrow>
     (\<exists>arr. std_obj h r json_type_array (C_array (Some arr)) \<and> al_ok arr \<and> reprs_list h (al_list arr) vs)"
| "reprs h r (VObj kvs) \<longleftrightarrow>
     (\<exists>t. std_obj h r json_type_object (C_object t) \<and> lh_ok t \<and> reprs_items h (lh_items t) kvs)"
| "reprs_list h [] [] \<longleftrightarrow> True"
| "reprs_list h (r # rs) (v # vs) \<longleftrightarrow> reprs h r v \<and> reprs_list h rs vs"
| "reprs_list h [] (v # vs) \<longleftrightarrow> False"
| "reprs_list h (r # rs) [] \<longleftrightarrow> False"
| "reprs_items h [] [] \<longleftrightarrow> True"
| "reprs_items h ((k', r) # rs) ((k, v) # kvs) \<longleftrightarrow> k' = k \<and> reprs h r v \<and> reprs_items h rs kvs"
| "reprs_items h [] (kv # kvs) \<longleftrightarrow> False"
| "reprs_items h (r # rs) [] \<longleftrightarrow> False"

section \<open>The writers emit the text\<close>

abbreviation AT :: allocator where "AT \<equiv> \<lambda>_. True"

lemma emits_when:
  "emits c F w \<Longrightarrow> emits False (when_flag b F) (if b then w else [])"
  by (auto simp: when_flag_def emits_def)

lemma emits_flush: "emits False (esc_flush AT mem start pos) (take (pos - start) (drop start mem))"
  unfolding esc_flush_def using emits_ap emits_weaken emits_skip by (cases "pos > start") auto

lemma emits_esc_loop:
  "start \<le> pos \<Longrightarrow> pos + left \<le> length mem \<Longrightarrow>
   emits False (esc_loop AT left mem pos start) (take (pos - start) (drop start mem) @ esc (take left (drop pos mem)))"
proof (induction left arbitrary: pos start)
  case 0
  then show ?case using emits_flush by (simp add: esc_def)
next
  case (Suc left)
  have p: "pos < length mem" using Suc.prems by simp
  have pk: "peek mem pos = Some (mem ! pos)" using p by (simp add: peek_def)
  let ?c = "mem ! pos"
  have tk: "esc (take (Suc left) (drop pos mem)) = esc_char ?c @ esc (take left (drop (Suc pos) mem))"
    using p by (simp add: esc_def Cons_nth_drop_Suc[symmetric])
  have next': "emits False (esc_loop AT left mem (Suc pos) (Suc pos)) (esc (take left (drop (Suc pos) mem)))"
    using Suc.IH[of "Suc pos" "Suc pos"] Suc.prems by simp
  have ap2: "emits False (\<lambda>p. Option.bind (esc_flush AT mem start pos p) (\<lambda>p. Option.bind (F p) (esc_loop AT left mem (Suc pos) (Suc pos))))
     (take (pos - start) (drop start mem) @ w @ esc (take left (drop (Suc pos) mem)))" if "emits True F w" for F w
    by (rule emits_then[OF emits_flush emits_then[OF that next']])
  show ?case
  proof (cases "short_escape ?c")
    case (Some e)
    then have "esc_loop AT (Suc left) mem pos start =
        (\<lambda>p. Option.bind (esc_flush AT mem start pos p) (\<lambda>p. Option.bind (ap AT e p) (esc_loop AT left mem (Suc pos) (Suc pos))))"
      using pk by (simp add: fun_eq_iff)
    then show ?thesis using ap2[OF emits_ap] Some tk by (simp add: esc_char_def)
  next
    case None
    show ?thesis
    proof (cases "cc ?c < 32")
      case True
      then have "esc_loop AT (Suc left) mem pos start =
          (\<lambda>p. Option.bind (esc_flush AT mem start pos p) (\<lambda>p. Option.bind (sp AT (u_escape ?c) p) (esc_loop AT left mem (Suc pos) (Suc pos))))"
        using pk None by (simp add: fun_eq_iff)
      then show ?thesis using ap2[OF emits_sp] None True tk by (simp add: esc_char_def)
    next
      case False
      then have "esc_loop AT (Suc left) mem pos start = esc_loop AT left mem (Suc pos) start"
        using pk None by (simp add: fun_eq_iff)
      moreover have "take (Suc pos - start) (drop start mem) = take (pos - start) (drop start mem) @ [?c]"
        using Suc.prems p by (simp add: Suc_diff_le take_Suc_conv_app_nth)
      ultimately show ?thesis using Suc.IH[of start "Suc pos"] Suc.prems None False tk by (simp add: esc_char_def)
    qed
  qed
qed

lemma emits_escape: "emits False (json_escape_str AT (s @ [NUL]) (int (length s))) (esc s)"
proof -
  have "json_escape_str AT (s @ [NUL]) (int (length s)) = esc_loop AT (length s) (s @ [NUL]) 0 0"
    by (simp add: json_escape_str_def fun_eq_iff)
  then show ?thesis using emits_esc_loop[of 0 0 "length s" "s @ [NUL]"] by simp
qed

lemma emits_indent: "emits False (indent AT (int level) flags) (indent_text flags level)"
proof -
  have "int level * 2 = int (2 * level)" by simp
  then show ?thesis using emits_memset[of "CHR '' ''" "2 * level"] emits_skip
    unfolding indent_def indent_text_def by (cases "has_flag flags JSON_C_TO_STRING_PRETTY") (simp_all add: mult.commute)
qed

lemma emits_nl: "emits False (when_flag (has_flag flags JSON_C_TO_STRING_PRETTY) (sp AT NL)) (nl_text flags)"
  unfolding nl_text_def by (rule emits_when[OF emits_sp])

lemma emits_sep: "emits False (print_sep AT flags (int level) had) (sep_text flags level had)"
proof -
  have "emits False (when_flag (has_flag flags JSON_C_TO_STRING_SPACED) (sp AT '' '')) (sp_text flags)"
    unfolding sp_text_def by (rule emits_when[OF emits_sp])
  moreover have "emits False (when_flag had (\<lambda>pb. Option.bind (sp AT '','' pb)
      (when_flag (has_flag flags JSON_C_TO_STRING_PRETTY) (sp AT NL)))) (if had then '','' @ nl_text flags else [])"
    by (rule emits_when[OF emits_then[OF emits_sp emits_nl]])
  moreover have "emits False (indent AT (int level + 1) flags) (indent_text flags (level + 1))"
    using emits_indent[of "level + 1" flags] by (simp add: add.commute)
  ultimately show ?thesis unfolding print_sep_def sep_text_def by (blast intro: emits_then)
qed

text \<open>Serializers return a result as well: \<open>emits_r\<close> also says that it is not negative.\<close>

definition emits_r :: "(printbuf \<Rightarrow> (int \<times> printbuf) option) \<Rightarrow> string \<Rightarrow> bool" where
  "emits_r F w \<longleftrightarrow> (\<forall>p. pb_good p \<longrightarrow> room_for p (length w)
     \<longrightarrow> (\<exists>r q. F p = Some (r, q) \<and> 0 \<le> r \<and> pb_good q \<and> pb_text q = pb_text p @ w \<and> pb_terminated q))"

lemma emits_r_snd: "emits_r F w \<Longrightarrow> emits True (\<lambda>p. map_option snd (F p)) w"
  by (fastforce simp: emits_r_def emits_def)

lemma emits_r_sprintbuf: "emits_r (\<lambda>p. sprintbuf AT p w) w"
  unfolding emits_r_def using sprintbuf_good by (metis of_nat_0_le_iff)

lemma emits_r_then:
  assumes "emits b F u" "emits_r G v"
  shows "emits_r (\<lambda>p. Option.bind (F p) G) (u @ v)"
  unfolding emits_r_def
proof (intro allI impI)
  fix p assume p: "pb_good p" "room_for p (length (u @ v))"
  then obtain q where q: "F p = Some q" "pb_good q" "pb_text q = pb_text p @ u"
    using assms(1) by (auto simp: emits_def)
  then show "\<exists>r q. Option.bind (F p) G = Some (r, q) \<and> 0 \<le> r \<and> pb_good q \<and> pb_text q = pb_text p @ u @ v \<and> pb_terminated q"
    using assms(2) p by (fastforce simp: emits_r_def)
qed

lemma emits_r_return:
  assumes "emits True F u" "0 \<le> r"
  shows "emits_r (\<lambda>p. Option.bind (F p) (\<lambda>p. Some (r, p))) u"
  using assms by (fastforce simp: emits_r_def emits_def)

lemma emits_close: "emits_r (print_close AT flags (int level) had close) (close_text flags level had close)"
proof -
  have "emits False (when_flag (has_flag flags JSON_C_TO_STRING_PRETTY) (\<lambda>pb. Option.bind (when_flag had (sp AT NL) pb) (indent AT (int level) flags)))
    (if has_flag flags JSON_C_TO_STRING_PRETTY then (if had then NL else []) @ indent_text flags level else [])"
    by (rule emits_when[OF emits_then[OF emits_when[OF emits_sp] emits_indent]])
  moreover have "(if has_flag flags JSON_C_TO_STRING_SPACED then '' '' @ close else close) = sp_text flags @ close"
    by (simp add: sp_text_def)
  ultimately show ?thesis unfolding print_close_def close_text_def
    using emits_r_then[OF _ emits_r_sprintbuf] by (simp del: append_assoc)
qed

lemma emits_boolean: "emits_r (json_object_boolean_to_json_string AT b) (if b \<noteq> 0 then ''true'' else ''false'')"
  using emits_r_sprintbuf[of "''true''"] emits_r_sprintbuf[of "''false''"]
  by (cases "b = 0") (simp_all add: json_object_boolean_to_json_string_def[abs_def])

lemma emits_int: "emits_r (json_object_int_to_json_string AT i) (dec_int i)"
  using emits_r_sprintbuf by (simp add: json_object_int_to_json_string_def[abs_def])

lemma emits_string:
  "emits_r (json_object_string_to_json_string AT (Some s) (int (length s))) (QUOTE @ esc s @ QUOTE)"
proof -
  have "emits_r (\<lambda>p. Option.bind (sp AT QUOTE p) (\<lambda>p. Option.bind (json_escape_str AT (s @ [NUL]) (int (length s)) p)
      (\<lambda>p. Option.bind (sp AT QUOTE p) (\<lambda>p. Some (0, p))))) (QUOTE @ esc s @ QUOTE)"
    by (rule emits_r_then[OF emits_sp emits_r_then[OF emits_escape emits_r_return[OF emits_sp]]]) simp
  then show ?thesis by (simp add: json_object_string_to_json_string_def[abs_def])
qed

subsection \<open>Doubles\<close>

lemma last_useful_eq:
  "p < q \<Longrightarrow> last_useful s q p =
     (let r = dropWhile ((=) CHR ''0'') (rev s) in if r = [] then p else q + length r - 1)"
proof (induction s arbitrary: q p)
  case Nil
  then show ?case by simp
next
  case (Cons c s)
  obtain R where R: "dropWhile ((=) CHR ''0'') (rev s) = R" by blast
  have dw: "dropWhile ((=) CHR ''0'') (rev s @ [c]) = (if R = [] then dropWhile ((=) CHR ''0'') [c] else R @ [c])"
    unfolding R[symmetric] by (induction "rev s") (auto simp: dropWhile_append)
  have IH: "last_useful s (Suc q) x = (if R = [] then x else q + length R)" if "x < Suc q" for x
    using Cons.IH[OF that] by (simp add: Let_def R)
  show ?case using Cons.prems unfolding rev.simps dw by (auto simp: Let_def IH)
qed

text \<open>The printed form of a finite number has at least one decimal; no form has a comma.\<close>

lemma no_comma_dec_pos: "0 \<le> n \<Longrightarrow> CHR '','' \<notin> set (dec_pos n) \<and> CHR ''.'' \<notin> set (dec_pos n)"
  using dec_pos_digits[of n] by (auto simp: list_all_iff c_isdigit_def)

lemma double_fmt_shape:
  assumes "double_ok d"
  shows "CHR '','' \<notin> set (double_fmt d)
    \<and> (CHR ''.'' \<in> set (double_fmt d) \<longrightarrow> (\<exists>ip fp. double_fmt d = ip @ CHR ''.'' # fp \<and> CHR ''.'' \<notin> set ip \<and> fp \<noteq> []))"
proof (cases d)
  case (Fin s m e)
  obtain a b where ab: "scale2 m 1 e = (a, b)" by force
  have "0 \<le> a" "0 \<le> b" using ab assms Fin by (auto simp: scale2_def split: if_splits)
  then have n: "0 \<le> round_div (a * 10 ^ 6) b" by (simp add: round_div_nonneg)
  let ?n = "round_div (a * 10 ^ 6) b"
  let ?ip = "(if s then ''-'' else []) @ dec_pos (?n div 10 ^ 6)" and ?fp = "dec6 (?n mod 10 ^ 6)"
  have "0 \<le> ?n div 10 ^ 6" "0 \<le> ?n mod 10 ^ 6" using n by (simp_all add: pos_imp_zdiv_nonneg_iff)
  then have "CHR '','' \<notin> set ?ip" "CHR ''.'' \<notin> set ?ip" "CHR '','' \<notin> set ?fp"
    using no_comma_dec_pos[of "?n div 10 ^ 6"] no_comma_dec_pos[of "?n mod 10 ^ 6"] by (auto simp: dec6_def Let_def)
  moreover have "?fp \<noteq> []" by (simp add: dec6_def Let_def)
  moreover have "double_fmt d = ?ip @ CHR ''.'' # ?fp" using Fin ab by (simp add: Let_def)
  ultimately show ?thesis by (intro conjI impI exI[of _ ?ip] exI[of _ ?fp]) auto
qed auto

lemma those_map_Some [simp]: "those (map Some xs) = Some xs"
  by (induction xs) auto

lemma emits_double:
  assumes d: "double_ok d" and len: "length (double_fmt d) \<le> 127"
  shows "emits_r (json_object_double_to_json_string AT d flags) (double_text flags d)"
proof -
  let ?s = "double_fmt d" and ?nz = "has_flag flags JSON_C_TO_STRING_NOZERO"
  have com: "strchr ?s CHR '','' = None" using double_fmt_shape[OF d] by (simp add: strchr_def)
  have tk: "take 127 ?s = ?s" using len by simp
  have "\<exists>n. 0 \<le> n \<and> json_object_double_to_json_string AT d flags = (\<lambda>p. Option.bind (ap AT (double_text flags d) p) (\<lambda>p. Some (n, p)))"
  proof (cases "?nz \<and> CHR ''.'' \<in> set ?s")
    case False
    have sc: "strchr ?s CHR ''.'' = None \<or> \<not> ?nz" using False by (auto simp: strchr_def)
    have dt: "double_text flags d = ?s" using False by (auto simp: double_text_def)
    have buf: "those (take (length ?s) (map Some ?s @ x)) = Some ?s" for x by simp
    have "json_object_double_to_json_string AT d flags = (\<lambda>p. Option.bind (ap AT (double_text flags d) p) (\<lambda>p. Some (int (length ?s), p)))"
      unfolding fun_eq_iff dt
      by (cases "strchr ?s CHR ''.''") (use sc com tk len buf in \<open>auto simp: json_object_double_to_json_string_def Let_def\<close>)
    then show ?thesis by (intro exI[of _ "int (length ?s)"]) simp
  next
    case True
    then obtain ip fp where s: "?s = ip @ CHR ''.'' # fp" "CHR ''.'' \<notin> set ip" "fp \<noteq> []"
      using double_fmt_shape[OF d] by blast
    have "takeWhile ((\<noteq>) CHR ''.'') (ip @ CHR ''.'' # fp) = ip" using s(2)
      by (subst takeWhile_append2) auto
    then have tw: "takeWhile ((\<noteq>) CHR ''.'') ?s = ip" using s(1) by simp
    then have sc: "strchr ?s CHR ''.'' = Some (length ip)" using True by (simp add: strchr_def)
    obtain f fs where fp: "fp = f # fs" using s(3) by (cases fp) auto
    let ?r = "dropWhile ((=) CHR ''0'') (rev fs)"
    define p where "p = last_useful fp (length ip + 1) (length ip + 1)"
    have p: "p = length ip + 1 + length ?r"
      using last_useful_eq[of "length ip + 1" "length ip + 2" fs] by (auto simp: p_def fp Let_def)
    have kept: "double_text flags d = ip @ CHR ''.'' # f # rev ?r"
      using True tw s(1) fp by (simp add: double_text_def trim_decimals_def Let_def)
    have "fs = rev ?r @ rev (takeWhile ((=) CHR ''0'') (rev fs))"
      by (metis rev_append rev_rev_ident takeWhile_dropWhile_id)
    then have pre: "\<exists>z. ?s = double_text flags d @ z" using s(1) fp kept by auto
    have ld: "length (double_text flags d) = p + 1" using kept p by simp
    have p127: "p + 1 \<le> length ?s" using pre ld by (metis le_add1 length_append)
    let ?buf = "map Some ?s @ Some NUL # replicate (127 - length ?s) None"
    have tb: "take (p + 1) (?buf[p + 1 := Some NUL]) = map Some (double_text flags d)"
    proof -
      have "take (p + 1) (?buf[p + 1 := Some NUL]) = map Some (take (p + 1) ?s)"
        using p127 by (simp add: take_map)
      also have "take (p + 1) ?s = double_text flags d" using pre ld by auto
      finally show ?thesis .
    qed
    have "poke ?buf (p + 1) (Some NUL) = Some (?buf[p + 1 := Some NUL])" using p127 len by (simp add: poke_def)
    then have "json_object_double_to_json_string AT d flags = (\<lambda>q. Option.bind (ap AT (double_text flags d) q) (\<lambda>q. Some (int (p + 1), q)))"
      using True com tk len sc tb p127 s(1) unfolding fun_eq_iff
      by (simp add: json_object_double_to_json_string_def Let_def p_def)
    then show ?thesis by (intro exI[of _ "int (p + 1)"]) simp
  qed
  then show ?thesis using emits_r_return[OF emits_ap] by metis
qed

section \<open>Containers\<close>

fun words_text :: "u32 \<Rightarrow> nat \<Rightarrow> bool \<Rightarrow> string list \<Rightarrow> string" where
  "words_text flags level had [] = []"
| "words_text flags level had (w # ws) = sep_text flags level had @ w @ words_text flags level True ws"

lemma render_list_words: "render_list flags level had vs = words_text flags level had (map (render flags (level + 1)) vs)"
  by (induction vs arbitrary: had) auto

lemma render_items_words:
  "render_items flags level had kvs =
     words_text flags level had (map (\<lambda>(k, v). QUOTE @ esc k @ colon_text flags @ render flags (level + 1) v) kvs)"
  by (induction kvs arbitrary: had) auto

lemma reprs_list_iff: "reprs_list h rs vs \<longleftrightarrow> list_all2 (reprs h) rs vs"
proof (induction rs arbitrary: vs)
  case Nil
  then show ?case by (cases vs) auto
next
  case (Cons r rs)
  then show ?case by (cases vs) auto
qed

lemma reprs_items_iff: "reprs_items h rs kvs \<longleftrightarrow> list_all2 (\<lambda>(k', r) (k, v). k' = k \<and> reprs h r v) rs kvs"
proof (induction rs arbitrary: kvs)
  case Nil
  then show ?case by (cases kvs) auto
next
  case (Cons r rs)
  obtain k' r' where r: "r = (k', r')" by force
  show ?case
  proof (cases kvs)
    case (Cons kv kvs')
    obtain k v where "kv = (k, v)" by force
    then show ?thesis using Cons r by (simp add: Cons.IH)
  qed simp
qed

lemma emits_elems:
  assumes ok: "al_ok arr" and el: "\<And>i. i < length (al_list arr) \<Longrightarrow>
      emits True (print_child AT child (int level) (al_list arr ! i)) (ws ! i)"
    and len: "length ws = length (al_list arr)"
  shows "ii + left = length ws \<Longrightarrow> emits False (print_elems AT flags child (int level) arr left (int ii) had) (words_text flags level had (drop ii ws))"
proof (induction left arbitrary: ii had)
  case 0
  then show ?case using emits_skip by simp
next
  case (Suc left)
  have i: "ii < length (al_list arr)" using Suc.prems len by simp
  then have "ii < length (al_array arr)" "int ii < al_length arr" "al_array arr ! ii = al_list arr ! ii"
    using length_al_list[OF ok] by (auto simp: al_list_def)
  then have get: "array_list_get_idx arr (int ii) = Some (al_list arr ! ii)"
    by (simp add: array_list_get_idx_def ipeek_def peek_def)
  have "emits False (\<lambda>p. Option.bind (print_sep AT flags (int level) had p)
      (\<lambda>p. Option.bind (print_child AT child (int level) (al_list arr ! ii) p)
             (print_elems AT flags child (int level) arr left (int (Suc ii)) True)))
     (sep_text flags level had @ ws ! ii @ words_text flags level True (drop (Suc ii) ws))"
    using Suc.IH[of "Suc ii" True] Suc.prems by (intro emits_then[OF emits_sep emits_then[OF el[OF i]]]) simp
  moreover have "drop ii ws = ws ! ii # drop (Suc ii) ws" using i len by (simp add: Cons_nth_drop_Suc)
  ultimately show ?case using get by (simp add: add.commute)
qed

lemma emits_entries:
  assumes "list_all2 (\<lambda>(k, r) (k', w). k' = k \<and> emits True (print_child AT child (int level) r) w) es kws"
  shows "emits False (print_entries AT flags child (int level) es had)
    (words_text flags level had (map (\<lambda>(k, w). QUOTE @ esc k @ colon_text flags @ w) kws))"
  using assms
proof (induction es kws arbitrary: had rule: list_all2_induct)
  case Nil
  then show ?case using emits_skip by simp
next
  case (Cons e es kw kws)
  obtain k r w where e: "e = (k, r)" "kw = (k, w)" "emits True (print_child AT child (int level) r) w"
    using Cons(1) by (cases e; cases kw) auto
  have "emits False (\<lambda>p. Option.bind (print_sep AT flags (int level) had p) (\<lambda>p. Option.bind (sp AT QUOTE p)
      (\<lambda>p. Option.bind (json_escape_str AT (k @ [NUL]) (int (length k)) p) (\<lambda>p. Option.bind (sp AT (colon_text flags) p)
      (\<lambda>p. Option.bind (print_child AT child (int level) r p) (print_entries AT flags child (int level) es True))))))
    (sep_text flags level had @ QUOTE @ esc k @ colon_text flags @ w
       @ words_text flags level True (map (\<lambda>(k, w). QUOTE @ esc k @ colon_text flags @ w) kws))"
    by (rule emits_then[OF emits_sep emits_then[OF emits_sp emits_then[OF emits_escape emits_then[OF emits_sp
          emits_then[OF e(3) Cons(3)]]]]])
  then show ?case by (simp add: e(1,2) colon_text_def)
qed

lemma emits_array:
  assumes ok: "al_ok arr" and el: "list_all2 (\<lambda>r w. emits True (print_child AT child (int level) r) w) (al_list arr) ws"
  shows "emits_r (json_object_array_to_json_string AT flags child arr (int level))
     (''['' @ nl_text flags @ words_text flags level False ws @ close_text flags level (ws \<noteq> []) '']'')"
proof -
  have len: "length ws = length (al_list arr)" using el by (simp add: list_all2_lengthD)
  then have al: "al_length arr = int (length ws)" using length_al_list[OF ok] by simp
  have w: "emits False (print_elems AT flags child (int level) arr (length ws) 0 False) (words_text flags level False ws)"
    using emits_elems[OF ok _ len, of child level 0 "length ws" flags False] el by (simp add: list_all2_conv_all_nth)
  have "emits_r (\<lambda>p. Option.bind (sp AT ''['' p) (\<lambda>p. Option.bind (when_flag (has_flag flags JSON_C_TO_STRING_PRETTY) (sp AT NL) p)
     (\<lambda>p. Option.bind (print_elems AT flags child (int level) arr (length ws) 0 False p) (print_close AT flags (int level) (ws \<noteq> []) '']''))))
     (''['' @ nl_text flags @ words_text flags level False ws @ close_text flags level (ws \<noteq> []) '']'')"
    by (rule emits_r_then[OF emits_sp emits_r_then[OF emits_nl emits_r_then[OF w emits_close]]])
  moreover have "al_length arr > 0 \<longleftrightarrow> ws \<noteq> []" using al by simp
  ultimately show ?thesis using al by (simp add: json_object_array_to_json_string_def[abs_def] array_list_length_def)
qed

lemma emits_object:
  assumes ok: "lh_ok t" and el: "list_all2 (\<lambda>(k, r) (k', w). k' = k \<and> emits True (print_child AT child (int level) r) w) (lh_items t) kws"
  shows "emits_r (json_object_object_to_json_string AT flags child t (int level))
     (''{'' @ nl_text flags @ words_text flags level False (map (\<lambda>(k, w). QUOTE @ esc k @ colon_text flags @ w) kws)
        @ close_text flags level (kws \<noteq> []) ''}'')"
proof -
  obtain ixs where ixs: "lh_foreach t = Some ixs" using ok lh_rep_foreach by (auto simp: lh_ok_def)
  then have items: "map (\<lambda>i. lh_item (lh_tab t ! i)) ixs = lh_items t" by (simp add: lh_items_def)
  have ne: "ixs \<noteq> [] \<longleftrightarrow> kws \<noteq> []" using list_all2_lengthD[OF el] items[symmetric] by auto
  have "emits_r (\<lambda>p. Option.bind (sp AT ''{'' p) (\<lambda>p. Option.bind (when_flag (has_flag flags JSON_C_TO_STRING_PRETTY) (sp AT NL) p)
     (\<lambda>p. Option.bind (print_entries AT flags child (int level) (lh_items t) False p) (print_close AT flags (int level) (kws \<noteq> []) ''}''))))
     (''{'' @ nl_text flags @ words_text flags level False (map (\<lambda>(k, w). QUOTE @ esc k @ colon_text flags @ w) kws)
        @ close_text flags level (kws \<noteq> []) ''}'')"
    by (rule emits_r_then[OF emits_sp emits_r_then[OF emits_nl emits_r_then[OF emits_entries[OF el] emits_close]]])
  then show ?thesis using ixs items ne by (simp add: json_object_object_to_json_string_def[abs_def] Let_def)
qed

section \<open>Whole values\<close>

fun height :: "jval \<Rightarrow> nat" and heights :: "jval list \<Rightarrow> nat" and item_heights :: "(string \<times> jval) list \<Rightarrow> nat" where
  "height VNull = 0"
| "height (VBool b) = 1"
| "height (VInt i) = 1"
| "height (VDouble d) = 1"
| "height (VStr s) = 1"
| "height (VArr vs) = Suc (heights vs)"
| "height (VObj kvs) = Suc (item_heights kvs)"
| "heights [] = 0"
| "heights (v # vs) = max (height v) (heights vs)"
| "item_heights [] = 0"
| "item_heights ((k, v) # kvs) = max (height v) (item_heights kvs)"

lemma heights_le: "v \<in> set vs \<Longrightarrow> height v \<le> heights vs"
  by (induction vs) auto

lemma item_heights_le: "(k, v) \<in> set kvs \<Longrightarrow> height v \<le> item_heights kvs"
  by (induction kvs) auto

lemma to_json_emits:
  "reprs h (Some a) v \<Longrightarrow> height v \<le> fuel \<Longrightarrow>
   emits_r (to_json fuel AT U flags h a (int level)) (render flags level v)"
proof (induction fuel arbitrary: a v level)
  case 0
  then show ?case by (cases v) auto
next
  case (Suc fuel)
  have child: "emits True (print_child AT (to_json fuel AT U flags h) (int level) r) (render flags (level + 1) u)"
    if "reprs h r u" "height u \<le> fuel" for r u
  proof (cases r)
    case None
    then have "u = VNull" using that(1) by (cases u) (auto simp: std_obj_def)
    then show ?thesis using None emits_sp by (simp add: print_child_def[abs_def])
  next
    case (Some c)
    then show ?thesis using Suc.IH[of c u "level + 1"] that emits_r_snd
      by (simp add: print_child_def[abs_def] add.commute)
  qed
  have std: "\<exists>ob. jh_map h a = Some ob \<and> jo_to_json ob = Some (Std ty) \<and> jo_o ob = Some u" if "std_obj h (Some a) ty u" for ty u
    using that by (auto simp: std_obj_def)
  show ?case
  proof (cases v)
    case VNull
    then show ?thesis using Suc.prems by simp
  next
    case (VBool b)
    then obtain i where i: "std_obj h (Some a) json_type_boolean (C_boolean i)" "b = (i \<noteq> 0)" using Suc.prems by auto
    then show ?thesis using std[OF i(1)] emits_boolean[of i] VBool by (auto simp: to_json.simps(2)[abs_def])
  next
    case (VInt i)
    then have i: "std_obj h (Some a) json_type_int (C_int64 i)" using Suc.prems by simp
    then show ?thesis using std[OF i] emits_int[of i] VInt by (auto simp: to_json.simps(2)[abs_def])
  next
    case (VDouble d)
    then have d: "std_obj h (Some a) json_type_double (C_double d)" "double_ok d" "length (double_fmt d) \<le> 127"
      using Suc.prems by simp_all
    then show ?thesis using std[OF d(1)] emits_double[OF d(2,3), of flags] VDouble by (auto simp: to_json.simps(2)[abs_def])
  next
    case (VStr s)
    then have s: "std_obj h (Some a) json_type_string (C_string (Some s) (int (length s)))" using Suc.prems by simp
    then show ?thesis using std[OF s] emits_string[of s] VStr by (auto simp: to_json.simps(2)[abs_def])
  next
    case (VArr vs)
    then obtain arr where arr: "std_obj h (Some a) json_type_array (C_array (Some arr))" "al_ok arr"
      "list_all2 (reprs h) (al_list arr) vs" using Suc.prems by (auto simp: reprs_list_iff)
    have "list_all2 (\<lambda>r w. emits True (print_child AT (to_json fuel AT U flags h) (int level) r) w) (al_list arr)
        (map (render flags (level + 1)) vs)"
      unfolding list_all2_map2
    proof (rule list.rel_mono_strong[OF arr(3)])
      fix r u assume ru: "r \<in> set (al_list arr)" "u \<in> set vs" "reprs h r u"
      then have "height u \<le> fuel" using heights_le[of u vs] Suc.prems(2) VArr by simp
      then show "emits True (print_child AT (to_json fuel AT U flags h) (int level) r) (render flags (level + 1) u)"
        using child ru(3) by simp
    qed
    from emits_array[OF arr(2) this, of flags]
    show ?thesis using std[OF arr(1)] VArr by (auto simp: to_json.simps(2)[abs_def] render_list_words)
  next
    case (VObj kvs)
    then obtain t where t: "std_obj h (Some a) json_type_object (C_object t)" "lh_ok t"
      "list_all2 (\<lambda>(k', r) (k, v). k' = k \<and> reprs h r v) (lh_items t) kvs" using Suc.prems by (auto simp: reprs_items_iff)
    have "list_all2 (\<lambda>(k, r) (k', w). k' = k \<and> emits True (print_child AT (to_json fuel AT U flags h) (int level) r) w)
        (lh_items t) (map (\<lambda>(k, v). (k, render flags (level + 1) v)) kvs)"
      unfolding list_all2_map2
    proof (rule list.rel_mono_strong[OF t(3)])
      fix x y assume xy: "x \<in> set (lh_items t)" "y \<in> set kvs" "(\<lambda>(k', r) (k, v). k' = k \<and> reprs h r v) x y"
      then have "height (snd y) \<le> fuel" using item_heights_le[of "fst y" "snd y" kvs] Suc.prems(2) VObj by simp
      then show "(\<lambda>(k, r) (k', w). k' = k \<and> emits True (print_child AT (to_json fuel AT U flags h) (int level) r) w) x
          ((\<lambda>(k, v). (k, render flags (level + 1) v)) y)"
        using xy child by (auto split: prod.splits)
    qed
    from emits_object[OF t(2) this, of flags]
    show ?thesis using std[OF t(1)] VObj
      by (auto simp: to_json.simps(2)[abs_def] render_items_words comp_def case_prod_unfold)
  qed
qed

section \<open>Enough fuel\<close>

lemma list_all2_fun_eq:
  "list_all2 P rs vs \<Longrightarrow> list_all2 P rs vs' \<Longrightarrow> (\<And>r v v'. v \<in> set vs \<Longrightarrow> P r v \<Longrightarrow> P r v' \<Longrightarrow> v = v') \<Longrightarrow> vs = vs'"
proof (induction rs vs arbitrary: vs' rule: list_all2_induct)
  case (Cons r rs v vs)
  obtain u us where vs': "vs' = u # us" "P r u" "list_all2 P rs us" using Cons.prems(1) by (cases vs') auto
  have "v = u" using Cons.prems(2)[of v r u] Cons.hyps(1) vs'(2) by simp
  moreover have "vs = us" using Cons.IH[OF vs'(3)] Cons.prems(2) by simp
  ultimately show ?case using vs'(1) by simp
qed simp

lemma reprs_fun: "reprs h r v \<Longrightarrow> reprs h r v' \<Longrightarrow> v = v'"
proof (induction v arbitrary: r v')
  case (VArr vs)
  then obtain arr where arr: "std_obj h r json_type_array (C_array (Some arr))" "list_all2 (reprs h) (al_list arr) vs"
    by (auto simp: reprs_list_iff)
  obtain vs' where vs': "v' = VArr vs'" "list_all2 (reprs h) (al_list arr) vs'"
    using VArr.prems(2) arr(1) by (cases v') (auto simp: reprs_list_iff std_obj_def)
  then show ?case using list_all2_fun_eq[OF arr(2) vs'(2)] VArr.IH by blast
next
  case (VObj kvs)
  let ?P = "\<lambda>(k', r) (k, v). k' = k \<and> reprs h r v"
  obtain t where t: "std_obj h r json_type_object (C_object t)" "list_all2 ?P (lh_items t) kvs"
    using VObj.prems(1) by (auto simp: reprs_items_iff)
  obtain kvs' where kvs': "v' = VObj kvs'" "list_all2 ?P (lh_items t) kvs'"
    using VObj.prems(2) t(1) by (cases v') (auto simp: reprs_items_iff std_obj_def)
  have "kvs = kvs'" using list_all2_fun_eq[OF t(2) kvs'(2)] VObj.IH by (fastforce split: prod.splits)
  then show ?case using kvs'(1) by simp
qed (case_tac v'; auto simp: std_obj_def)+

text \<open>The objects along a longest path below a value are different, so the height of a represented value is
  at most the number of addresses handed out.\<close>

lemma max_height_in: "0 < heights vs \<Longrightarrow> \<exists>v \<in> set vs. height v = heights vs"
  by (induction vs) (auto simp: max_def)

lemma max_item_height_in: "0 < item_heights kvs \<Longrightarrow> \<exists>(k, v) \<in> set kvs. height v = item_heights kvs"
  by (induction kvs) (auto simp: max_def split: if_splits)

lemma list_all2_right: "list_all2 P xs ys \<Longrightarrow> y \<in> set ys \<Longrightarrow> \<exists>x \<in> set xs. P x y"
  by (induction xs ys rule: list_all2_induct) auto

lemma height_child:
  assumes "reprs h r v" "height v = Suc (Suc n)"
  shows "\<exists>r' u. reprs h r' u \<and> height u = Suc n \<and> size u < size v"
proof (cases v)
  case (VArr vs)
  then obtain u where u: "u \<in> set vs" "height u = Suc n" using assms(2) max_height_in[of vs] by auto
  moreover obtain arr where "list_all2 (reprs h) (al_list arr) vs" using assms(1) VArr by (auto simp: reprs_list_iff)
  ultimately obtain r' where "reprs h r' u" using list_all2_right by metis
  then show ?thesis using u VArr size_list_estimation'[OF u(1), of "size u" size]
    by (intro exI[of _ r'] exI[of _ u]) simp
next
  case (VObj kvs)
  then obtain k u where u: "(k, u) \<in> set kvs" "height u = Suc n" using assms(2) max_item_height_in[of kvs] by auto
  let ?P = "\<lambda>(k', r) (k, v). k' = k \<and> reprs h r v"
  obtain t where "list_all2 ?P (lh_items t) kvs" using assms(1) VObj by (auto simp: reprs_items_iff)
  from list_all2_right[OF this u(1)] obtain r' where "reprs h r' u" by (auto split: prod.splits)
  then show ?thesis using u VObj size_list_estimation'[OF u(1), of "size u" "size_prod (\<lambda>_. 0) size"]
    by (intro exI[of _ r'] exI[of _ u]) simp
qed (use assms in auto)

lemma height_path:
  assumes "reprs h r v" "height v = n"
  shows "\<exists>as. length as = n \<and> distinct as \<and> (\<forall>a \<in> set as. \<exists>u. reprs h (Some a) u \<and> u \<noteq> VNull \<and> size u \<le> size v)"
  using assms
proof (induction n arbitrary: r v)
  case 0
  then show ?case by (intro exI[of _ "[]"]) simp
next
  case (Suc n)
  then have "v \<noteq> VNull" by auto
  then obtain a where a: "r = Some a" using Suc.prems(1) by (cases v) (auto simp: std_obj_def)
  show ?case
  proof (cases n)
    case 0
    then show ?thesis using Suc.prems a \<open>v \<noteq> VNull\<close> by (intro exI[of _ "[a]"]) auto
  next
    case (Suc m)
    obtain r' u where u: "reprs h r' u" "height u = n" "size u < size v"
      using height_child[of h r v m] Suc.prems Suc by auto
    obtain as where as: "length as = n" "distinct as" "\<forall>b \<in> set as. \<exists>w. reprs h (Some b) w \<and> w \<noteq> VNull \<and> size w \<le> size u"
      using Suc.IH[OF u(1,2)] by blast
    have "a \<notin> set as"
    proof
      assume "a \<in> set as"
      then obtain w where "reprs h (Some a) w" "size w \<le> size u" using as(3) by auto
      then show False using reprs_fun[of h "Some a" w v] Suc.prems(1) a u(3) by simp
    qed
    moreover have "\<exists>w. reprs h (Some b) w \<and> w \<noteq> VNull \<and> size w \<le> size v" if "b \<in> set (a # as)" for b
    proof (cases "b = a")
      case True
      then show ?thesis using a Suc.prems(1) \<open>v \<noteq> VNull\<close> by blast
    next
      case False
      then obtain w where "reprs h (Some b) w" "w \<noteq> VNull" "size w \<le> size u" using as(3) \<open>b \<in> set (a # as)\<close> by auto
      then show ?thesis using u(3) by (intro exI[of _ w]) simp
    qed
    ultimately show ?thesis using as(1,2) by (intro exI[of _ "a # as"]) simp
  qed
qed

definition jh_ok :: "jheap \<Rightarrow> bool" where
  "jh_ok h \<longleftrightarrow> (\<forall>a ob. jh_map h a = Some ob \<longrightarrow> a < jh_next h)"

lemma height_bound:
  assumes "jh_ok h" "reprs h r v"
  shows "height v \<le> jh_next h"
proof -
  obtain as where as: "length as = height v" "distinct as" "\<forall>a \<in> set as. \<exists>u. reprs h (Some a) u \<and> u \<noteq> VNull"
    using height_path[OF assms(2) refl] by blast
  have "a < jh_next h" if a: "a \<in> set as" for a
  proof -
    obtain u where "reprs h (Some a) u" "u \<noteq> VNull" using bspec[OF as(3) a] by blast
    then show ?thesis using assms(1) by (cases u) (auto simp: std_obj_def jh_ok_def)
  qed
  then have "set as \<subseteq> {..<jh_next h}" by auto
  then have "card (set as) \<le> jh_next h" by (metis card_lessThan card_mono finite_lessThan)
  then show ?thesis using as(1,2) by (simp add: distinct_card)
qed

section \<open>The text has no terminator inside\<close>

lemma double_fmt_NUL:
  assumes "double_ok d" shows "NUL \<notin> set (double_fmt d)"
proof (cases d)
  case (Fin s m e)
  obtain a b where ab: "scale2 m 1 e = (a, b)" by force
  have "0 \<le> a" "0 \<le> b" using ab assms Fin by (auto simp: scale2_def split: if_splits)
  then have "0 \<le> round_div (a * 10 ^ 6) b" by (simp add: round_div_nonneg)
  then have n: "0 \<le> round_div (a * 10 ^ 6) b div 10 ^ 6" "0 \<le> round_div (a * 10 ^ 6) b mod 10 ^ 6"
    by (simp_all add: pos_imp_zdiv_nonneg_iff)
  have "NUL \<notin> set ''-''" "NUL \<notin> set ''.''" "NUL \<noteq> CHR ''0''" by (simp_all add: NUL_def)
  then show ?thesis using Fin ab digit_not_NUL[OF n(1)] digit_not_NUL[OF n(2)]
    by (simp add: Let_def dec6_def)
qed (auto simp: NUL_def)

lemma double_text_NUL:
  assumes "double_ok d" shows "NUL \<notin> set (double_text flags d)"
proof (cases "has_flag flags JSON_C_TO_STRING_NOZERO \<and> CHR ''.'' \<in> set (double_fmt d)")
  case True
  then obtain ip fp where s: "double_fmt d = ip @ CHR ''.'' # fp" "CHR ''.'' \<notin> set ip" "fp \<noteq> []"
    using double_fmt_shape[OF assms] by blast
  obtain f fs where fp: "fp = f # fs" using s(3) by (cases fp) auto
  have tw: "takeWhile ((\<noteq>) CHR ''.'') (double_fmt d) = ip" using s by (simp, subst takeWhile_append2) auto
  then have dt: "double_text flags d = ip @ ''.'' @ f # rev (dropWhile ((=) CHR ''0'') (rev fs))"
    using True s fp by (simp add: double_text_def trim_decimals_def Let_def)
  have "set (dropWhile ((=) CHR ''0'') (rev fs)) \<subseteq> set fs" using set_dropWhileD by fastforce
  moreover have "NUL \<notin> set (double_fmt d)" by (rule double_fmt_NUL[OF assms])
  then have "NUL \<notin> set ip" "NUL \<noteq> CHR ''.''" "NUL \<noteq> f" "NUL \<notin> set fs" using s(1) fp by auto
  ultimately show ?thesis unfolding dt by auto
next
  case False
  then have "double_text flags d = double_fmt d" by (auto simp: double_text_def)
  then show ?thesis using double_fmt_NUL[OF assms] by simp
qed

lemma hex_char_NUL: "i < 16 \<Longrightarrow> json_hex_chars ! i \<noteq> NUL"
proof -
  have "list_all (\<lambda>c. c \<noteq> NUL) json_hex_chars" by code_simp
  moreover have "length json_hex_chars = 22" by code_simp
  ultimately show "i < 16 \<Longrightarrow> json_hex_chars ! i \<noteq> NUL" by (simp add: list_all_length)
qed

lemma esc_NUL: "NUL \<notin> set (esc s)"
proof -
  have u: "NUL \<notin> set (u_escape c)" if "cc c < 32" for c
  proof -
    have "cc c div 16 < 16" "cc c mod 16 < 16" using that by linarith simp
    then have "json_hex_chars ! (cc c div 16) \<noteq> NUL" "json_hex_chars ! (cc c mod 16) \<noteq> NUL" using hex_char_NUL by blast+
    then show ?thesis by (auto simp: u_escape_def NUL_def)
  qed
  have "NUL \<notin> set (esc_char c)" for c
    using u[of c] by (cases "c = NUL") (auto simp: esc_char_def short_escape_def NUL_def)
  then show ?thesis by (auto simp: esc_def)
qed

lemma punctuation_NUL [simp]:
  "NUL \<notin> set (nl_text flags)" "NUL \<notin> set (sep_text flags level had)" "NUL \<notin> set (colon_text flags)"
  "NUL \<notin> set QUOTE" "NUL \<notin> set (close_text flags level had '']'')" "NUL \<notin> set (close_text flags level had ''}'')"
  by (auto simp: nl_text_def sep_text_def colon_text_def close_text_def sp_text_def indent_text_def NL_def QUOTE_def NUL_def
      split: if_splits)

lemma render_NUL:
  "reprs h r v \<Longrightarrow> NUL \<notin> set (render flags level v)"
proof (induction v arbitrary: r level)
  case (VInt i)
  then show ?case using digit_not_NUL[of i] digit_not_NUL[of "- i"] by (auto simp: dec_int_def NUL_def)
next
  case (VDouble d)
  then show ?case using double_text_NUL by simp
next
  case (VArr vs)
  obtain rs where "list_all2 (reprs h) rs vs" using VArr.prems by (auto simp: reprs_list_iff)
  then have "\<forall>v \<in> set vs. NUL \<notin> set (render flags (level + 1) v)" using VArr.IH list_all2_right by metis
  then have "NUL \<notin> set (words_text flags level had (map (render flags (level + 1)) vs))" for had
    by (induction vs arbitrary: had) auto
  moreover have "NUL \<notin> set ''[''" by (simp add: NUL_def)
  ultimately show ?case by (simp add: render_list_words)
next
  case (VObj kvs)
  let ?P = "\<lambda>(k', r) (k, v). k' = k \<and> reprs h r v"
  obtain rs where "list_all2 ?P rs kvs" using VObj.prems by (auto simp: reprs_items_iff)
  then have "\<exists>r. reprs h r v" if "(k, v) \<in> set kvs" for k v using list_all2_right[OF _ that] by fastforce
  then have "\<forall>(k, v) \<in> set kvs. NUL \<notin> set (render flags (level + 1) v)" using VObj.IH by fastforce
  then have "NUL \<notin> set (words_text flags level had (map (\<lambda>(k, v). QUOTE @ esc k @ colon_text flags @ render flags (level + 1) v) kvs))" for had
    using esc_NUL by (induction kvs arbitrary: had) auto
  moreover have "NUL \<notin> set ''{''" by (simp add: NUL_def)
  ultimately show ?case by (simp add: render_items_words)
qed (auto simp: NUL_def esc_NUL[unfolded NUL_def] QUOTE_def)

section \<open>Properties\<close>

text \<open>C3: \<^verbatim>\<open>json_object_to_json_string_ext\<close> on an object that represents the value \<open>v\<close> returns, for every
  combination of flags, exactly the text that \<open>render\<close> specifies for \<open>v\<close>, as long as it stays below the
  limit of the buffer. It returns (the nesting is bounded by the number of objects, even where
  objects are shared), leaves every other object as it is, and keeps a good buffer in the object.\<close>

theorem json_to_string_correct:
  assumes "jh_ok h" "reprs h (Some a) v" "jh_map h a = Some ob" "\<forall>pb. jo_pb ob = Some pb \<longrightarrow> pb_good pb"
    "length (render flags 0 v) \<le> pb_limit"
  shows "\<exists>pb. json_object_to_json_string_ext (\<lambda>_. True) U h (Some a) flags
      = Some (Some (render flags 0 v), jh_set h a (ob\<lparr>jo_pb := Some pb\<rparr>)) \<and> pb_good pb"
proof -
  obtain p0 where p0: "(case jo_pb ob of Some pb \<Rightarrow> Some pb | None \<Rightarrow> printbuf_new AT) = Some p0" "pb_good p0"
  proof (cases "jo_pb ob")
    case None
    obtain p where "printbuf_new AT = Some p" by (simp add: printbuf_new_def)
    then show ?thesis using that[of p] pb_new_good[of AT p] None by simp
  qed (use that assms(4) in auto)
  obtain p1 where p1: "printbuf_reset p0 = Some p1" "pb_good p1" "pb_text p1 = []" using reset_good[OF p0(2)] by blast
  have "emits_r (to_json (jh_next h) AT U flags h a (int 0)) (render flags 0 v)"
    by (rule to_json_emits[OF assms(2) height_bound[OF assms(1,2)]])
  then obtain r q where q: "to_json (jh_next h) AT U flags h a 0 p1 = Some (r, q)" "0 \<le> r" "pb_good q"
    "pb_text q = render flags 0 v" "pb_terminated q"
    using p1 assms(5) by (fastforce simp: emits_r_def)
  have "c_string (pb_buf q) = Some (render flags 0 v)"
    using pb_terminated_c_string[of q] q render_NUL[OF assms(2)] by (simp add: pb_good_def)
  then show ?thesis using p0 p1 q assms(3)
    by (intro exI[of _ q]) (simp add: json_object_to_json_string_ext_def)
qed

text \<open>An array that holds an integer, a string with a character to escape, and \<^verbatim>\<open>NULL\<close>.\<close>

definition jp_example :: "(nat option \<times> jheap) option" where
  "jp_example = do {
     (a, h) \<leftarrow> json_object_new_array (\<lambda>_. True) \<lparr>jh_map = \<lambda>_. None, jh_next = 0, jh_log = []\<rparr>;
     (i, h) \<leftarrow> json_object_new_int (\<lambda>_. True) h (- 7);
     (s, h) \<leftarrow> json_object_new_string (\<lambda>_. True) h ''a/b'';
     (x, h) \<leftarrow> json_object_array_add (\<lambda>_. True) h (the a) i;
     (x, h) \<leftarrow> json_object_array_add (\<lambda>_. True) h (the a) s;
     (x, h) \<leftarrow> json_object_array_add (\<lambda>_. True) h (the a) None;
     Some (a, h) }"

lemma jp_example_value:
  "\<exists>h ob. jp_example = Some (Some 0, h) \<and> jh_ok h \<and> jh_map h 0 = Some ob \<and> jo_pb ob = None
     \<and> reprs h (Some 0) (VArr [VInt (- 7), VStr ''a/b'', VNull])"
proof -
  have al: "array_list_new AT = Some \<lparr>al_array = replicate 32 None, al_length = 0, al_size = 32\<rparr>"
    by (simp add: array_list_new_def ARRAY_LIST_DEFAULT_SIZE_def)
  have tk: "take 3 ((replicate 32 None)[0 := x, Suc 0 := y, 2 := z]) = [x, y, z]" for x y z :: "nat option"
    by (simp add: numeral_eq_Suc)
  show ?thesis
    by (simp add: tk jp_example_def json_object_new_array_def json_new_with_def json_object_new_def al jh_set_def
        json_object_new_int_def json_object_new_string_def json_object_array_add_def json_object_array_put_idx_def
        jo_array_def array_list_put_idx_def array_list_expand_internal_def c_int_def INT_MAX_def INT_MIN_def
        ipeek_def peek_def ipoke_def poke_def jh_ok_def std_obj_def al_ok_def al_list_def)
qed

theorem json_to_string_correct_witness:
  "\<exists>h pb ob. json_object_to_json_string_ext (\<lambda>_. True) (\<lambda>_ _ _ _. ([], 0)) h (Some 0) 0
      = Some (Some (render 0 0 (VArr [VInt (- 7), VStr ''a/b'', VNull])), jh_set h 0 (ob\<lparr>jo_pb := Some pb\<rparr>))
    \<and> length (render 0 0 (VArr [VInt (- 7), VStr ''a/b'', VNull])) = 16"
proof -
  obtain h ob where h: "jh_ok h" "jh_map h 0 = Some ob" "jo_pb ob = None"
    "reprs h (Some 0) (VArr [VInt (- 7), VStr ''a/b'', VNull])" using jp_example_value by blast
  have len: "length (render 0 0 (VArr [VInt (- 7), VStr ''a/b'', VNull])) = 16" by code_simp
  then have "length (render 0 0 (VArr [VInt (- 7), VStr ''a/b'', VNull])) \<le> pb_limit" by (simp add: pb_limit_def)
  then show ?thesis
    using json_to_string_correct[OF h(1,4,2), of 0 "\<lambda>_ _ _ _. ([], 0)"] h(3) len by auto
qed

text \<open>The serializer of a double reads past the end of its 128-byte stack buffer for every number whose
  magnitude has more than 128 digits: \<^verbatim>\<open>snprintf\<close> returns the length of the whole text, and the code copies
  that many bytes.\<close>

theorem json_double_overread:
  assumes "0 \<le> e" "10 ^ 128 \<le> m * 2 ^ nat e"
  shows "json_object_double_to_json_string A (Fin s m e) flags pb = None"
proof -
  let ?n = "m * 2 ^ nat e" and ?s = "double_fmt (Fin s m e)"
  let ?ip = "(if s then ''-'' else []) @ dec_pos ?n"
  have n: "0 \<le> ?n" using assms(2) by (meson order_trans zero_le_power zero_le_numeral)
  have fmt: "?s = ?ip @ ''.'' @ dec6 0"
    using assms(1) by (simp add: scale2_def round_div_def Let_def)
  have len: "128 < length ?ip" using dec_pos_length[OF assms(2)] by simp
  have clean: "CHR ''.'' \<notin> set ?ip" "CHR '','' \<notin> set ?ip" using no_comma_dec_pos[OF n] by auto
  have tk: "take 127 ?s = take 127 ?ip" using len unfolding fmt by simp
  have "strchr (take 127 ?s) CHR '','' = None" "strchr (take 127 ?s) CHR ''.'' = None"
    unfolding tk strchr_def using clean by (auto dest!: in_set_takeD simp del: double_fmt.simps)
  moreover have "\<not> length ?s \<le> 128" using len unfolding fmt by simp
  ultimately show ?thesis by (simp add: json_object_double_to_json_string_def Let_def del: double_fmt.simps)
qed

theorem json_double_overread_witness:
  "json_object_double_to_json_string (\<lambda>_. True) (Fin False 1 500) 0 \<lparr>pb_buf = [], pb_bpos = 0, pb_size = 0\<rparr> = None"
  by (rule json_double_overread) simp_all

end
