(* ===== verification/JsonRef.thy ===== *)
theory JsonRef
  imports JsonObject
begin

text \<open>
  Ownership of JSON objects. \<open>heap_ok h E\<close> relates the reference counts of a heap to the references that
  exist: those held by containers in the heap and those in the multiset \<open>E\<close>, which the client holds. The
  main result is that \<^verbatim>\<open>json_object_put\<close> on a reference that the client holds never touches freed memory,
  whatever is shared and whatever is released in the cascade, and leaves an exact heap.
\<close>

section \<open>References held by objects\<close>

definition kids :: "json_object \<Rightarrow> nat list" where
  "kids ob = (case (jo_delete ob, jo_o ob) of
     (object_delete, Some (C_object t)) \<Rightarrow> List.map_filter snd (lh_items t)
   | (array_delete, Some (C_array (Some arr))) \<Rightarrow> List.map_filter id (al_list arr)
   | _ \<Rightarrow> [])"

definition ob_ok :: "json_object \<Rightarrow> bool" where
  "ob_ok ob \<longleftrightarrow> (case jo_delete ob of
     object_delete \<Rightarrow> (\<exists>t. jo_o ob = Some (C_object t) \<and> lh_ok t \<and> lh_free_fn t)
   | array_delete \<Rightarrow> (\<exists>arr. jo_o ob = Some (C_array (Some arr)) \<and> al_ok arr)
   | _ \<Rightarrow> True)"

abbreviation jdom :: "jheap \<Rightarrow> nat set" where "jdom h \<equiv> dom (jh_map h)"

definition kids_at :: "jheap \<Rightarrow> nat \<Rightarrow> nat multiset" where
  "kids_at h a = (case jh_map h a of None \<Rightarrow> {#} | Some ob \<Rightarrow> mset (kids ob))"

definition refs :: "jheap \<Rightarrow> nat set \<Rightarrow> nat multiset" where
  "refs h S = sum (kids_at h) S"

text \<open>In the middle of a release the objects in \<open>D\<close> are dying: their count is zero, and their references
  have passed to \<open>E\<close>.\<close>

definition ob_exact :: "nat multiset \<Rightarrow> nat set \<Rightarrow> nat \<Rightarrow> json_object \<Rightarrow> bool" where
  "ob_exact R D a ob \<longleftrightarrow> ob_ok ob \<and> jo_ref ob = int (count R a) \<and> jo_ref ob \<le> INT_MAX \<and> (a \<in> D \<longleftrightarrow> jo_ref ob = 0)"

definition heap_inv :: "jheap \<Rightarrow> nat set \<Rightarrow> nat multiset \<Rightarrow> bool" where
  "heap_inv h D E \<longleftrightarrow> jdom h \<subseteq> {..<jh_next h} \<and> D \<subseteq> jdom h
     \<and> (\<forall>a ob. jh_map h a = Some ob \<longrightarrow> ob_exact (E + refs h (jdom h - D)) D a ob)
     \<and> set_mset (E + refs h (jdom h - D)) \<subseteq> jdom h"

lemma heap_invI:
  assumes "jdom h \<subseteq> {..<jh_next h}" "D \<subseteq> jdom h" "\<And>a ob. jh_map h a = Some ob \<Longrightarrow> ob_exact (E + refs h (jdom h - D)) D a ob"
    "set_mset (E + refs h (jdom h - D)) \<subseteq> jdom h"
  shows "heap_inv h D E"
  unfolding heap_inv_def using assms by blast

lemma heap_invD:
  assumes "heap_inv h D E"
  shows "jdom h \<subseteq> {..<jh_next h}" "D \<subseteq> jdom h" "jh_map h a = Some ob \<Longrightarrow> ob_exact (E + refs h (jdom h - D)) D a ob"
    "set_mset (E + refs h (jdom h - D)) \<subseteq> jdom h"
  using assms unfolding heap_inv_def by blast+

definition heap_ok :: "jheap \<Rightarrow> nat multiset \<Rightarrow> bool" where
  "heap_ok h E \<longleftrightarrow> heap_inv h {} E"

text \<open>The objects of \<open>h'\<close> are those of \<open>h\<close>, but for their counts.\<close>

definition jh_sub :: "jheap \<Rightarrow> jheap \<Rightarrow> bool" where
  "jh_sub h' h \<longleftrightarrow> jh_next h' = jh_next h \<and>
     (\<forall>a ob'. jh_map h' a = Some ob' \<longrightarrow> (\<exists>ob. jh_map h a = Some ob \<and> ob' = ob\<lparr>jo_ref := jo_ref ob'\<rparr>))"

lemma jh_sub_refl [simp]: "jh_sub h h"
  by (simp add: jh_sub_def)

lemma jh_sub_trans: "jh_sub h2 h1 \<Longrightarrow> jh_sub h1 h0 \<Longrightarrow> jh_sub h2 h0"
  unfolding jh_sub_def
proof (intro conjI allI impI; elim conjE)
  fix a ob2
  assume 1: "\<forall>a ob'. jh_map h2 a = Some ob' \<longrightarrow> (\<exists>ob. jh_map h1 a = Some ob \<and> ob' = ob\<lparr>jo_ref := jo_ref ob'\<rparr>)"
    and 0: "\<forall>a ob'. jh_map h1 a = Some ob' \<longrightarrow> (\<exists>ob. jh_map h0 a = Some ob \<and> ob' = ob\<lparr>jo_ref := jo_ref ob'\<rparr>)"
    and "jh_map h2 a = Some ob2"
  then obtain ob1 ob0 where "jh_map h1 a = Some ob1" "ob2 = ob1\<lparr>jo_ref := jo_ref ob2\<rparr>" "jh_map h0 a = Some ob0"
    "ob1 = ob0\<lparr>jo_ref := jo_ref ob1\<rparr>" by metis
  then have "ob2 = ob0\<lparr>jo_ref := jo_ref ob2\<rparr>" by (metis json_object.surjective json_object.update_convs(4))
  then show "\<exists>ob. jh_map h0 a = Some ob \<and> ob2 = ob\<lparr>jo_ref := jo_ref ob2\<rparr>" using \<open>jh_map h0 a = Some ob0\<close> by blast
qed simp

lemma kids_ref [simp]: "kids (ob\<lparr>jo_ref := r\<rparr>) = kids ob"
  by (simp add: kids_def)

lemma ob_ok_ref [simp]: "ob_ok (ob\<lparr>jo_ref := r\<rparr>) = ob_ok ob"
  by (cases "jo_delete ob") (simp_all add: ob_ok_def)

lemma heap_inv_finite: "heap_inv h D E \<Longrightarrow> finite (jdom h)"
  by (auto simp: heap_inv_def intro: finite_subset)

lemma refs_cong: "(\<And>a. a \<in> S \<Longrightarrow> kids_at h a = kids_at h' a) \<Longrightarrow> refs h S = refs h' S"
  by (simp add: refs_def)

lemma refs_remove: "finite S \<Longrightarrow> a \<in> S \<Longrightarrow> refs h S = kids_at h a + refs h (S - {a})"
  unfolding refs_def by (rule sum.remove)

section \<open>Releases\<close>

lemma ref_held:
  assumes "heap_inv h D E" "a \<in># E"
  shows "\<exists>ob. jh_map h a = Some ob \<and> 0 < jo_ref ob \<and> a \<notin> D \<and> ob_ok ob \<and> jo_ref ob \<le> INT_MAX"
proof -
  have "a \<in> jdom h" using assms(2) heap_invD(4)[OF assms(1)] by auto
  then obtain ob where ob: "jh_map h a = Some ob" by auto
  then have I: "ob_exact (E + refs h (jdom h - D)) D a ob" using heap_invD(3)[OF assms(1)] by blast
  have "0 < count E a" using assms(2) by simp
  then have "0 < int (count (E + refs h (jdom h - D)) a)" by (simp add: add_pos_nonneg)
  then show ?thesis using ob I by (auto simp: ob_exact_def)
qed

text \<open>Giving up one reference, without or with the death of the object.\<close>

lemma drop_ref:
  assumes inv: "heap_inv h D E" and a: "a \<in># E" "jh_map h a = Some ob"
  shows "jo_ref ob \<noteq> 1 \<Longrightarrow> heap_inv (jh_set h a (ob\<lparr>jo_ref := jo_ref ob - 1\<rparr>)) D (E - {#a#})"
    and "jo_ref ob = 1 \<Longrightarrow> heap_inv (jh_set h a (ob\<lparr>jo_ref := 0\<rparr>)) (insert a D) (E - {#a#} + mset (kids ob))"
proof -
  have pos: "0 < jo_ref ob" "a \<notin> D" using ref_held[OF inv a(1)] a(2) by auto
  let ?h = "\<lambda>r. jh_set h a (ob\<lparr>jo_ref := r\<rparr>)"
  have dom: "jdom (?h r) = jdom h" for r using a(2) by (auto simp: jh_set_def)
  have kid: "kids_at (?h r) b = kids_at h b" for r b using a(2) by (simp add: kids_at_def jh_set_def)
  have refs: "refs (?h r) S = refs h S" for r S by (simp add: refs_def kid)
  obtain E' where E': "E = add_mset a E'" using a(1) by (metis multi_member_split)
  note I = heap_invD(3)[OF inv]
  have S: "set_mset (E' + refs h (jdom h - D)) \<subseteq> jdom h" using heap_invD(4)[OF inv] E' by auto
  have next': "jh_next (?h r) = jh_next h" for r by (simp add: jh_set_def)
  have Ia: "jo_ref ob = int (count (E' + refs h (jdom h - D)) a) + 1" "ob_ok ob" "jo_ref ob \<le> INT_MAX"
    using I[OF a(2)] E' by (simp_all add: ob_exact_def)
  have other: "ob_exact (E' + refs h (jdom h - D)) D' b o'"
    if "jh_map h b = Some o'" "b \<noteq> a" "b \<in> D' \<longleftrightarrow> b \<in> D" for b o' D'
    using I[OF that(1)] that E' by (simp add: ob_exact_def)
  { assume r: "jo_ref ob \<noteq> 1"
    have "ob_exact (E' + refs h (jdom h - D)) D b o'" if "jh_map (?h (jo_ref ob - 1)) b = Some o'" for b o'
    proof (cases "b = a")
      case True
      then show ?thesis using that Ia r pos by (auto simp: jh_set_def ob_exact_def)
    next
      case False
      then show ?thesis using that other[of b o' D] by (simp add: jh_set_def)
    qed
    then show "heap_inv (?h (jo_ref ob - 1)) D (E - {#a#})"
      using S E' heap_invD(1,2)[OF inv] by (intro heap_invI) (simp_all add: dom refs next') }
  { assume r: "jo_ref ob = 1"
    have fin: "finite (jdom h - D)" using heap_inv_finite[OF inv] by simp
    have ain: "a \<in> jdom h - D" using a(2) pos by auto
    have ka: "kids_at h a = mset (kids ob)" using a(2) by (simp add: kids_at_def)
    have "jdom h - insert a D = jdom h - D - {a}" by auto
    then have split: "E' + mset (kids ob) + refs h (jdom h - insert a D) = E' + refs h (jdom h - D)"
      using refs_remove[OF fin ain, of h] ka by (simp add: ac_simps)
    have "ob_exact (E' + refs h (jdom h - D)) (insert a D) b o'" if "jh_map (?h 0) b = Some o'" for b o'
    proof (cases "b = a")
      case True
      then show ?thesis using that Ia r by (auto simp: jh_set_def ob_exact_def c_eval)
    next
      case False
      then show ?thesis using that other[of b o' "insert a D"] by (simp add: jh_set_def)
    qed
    moreover have "E - {#a#} + mset (kids ob) + refs h (jdom h - insert a D) = E' + refs h (jdom h - D)"
      using split E' by simp
    ultimately show "heap_inv (?h 0) (insert a D) (E - {#a#} + mset (kids ob))"
      using S heap_invD(1,2)[OF inv] ain unfolding heap_inv_def dom refs next' by auto }
qed

text \<open>Freeing a dying object whose references have been given up.\<close>

lemma free_dying:
  assumes inv: "heap_inv h (insert a D) E" and a: "a \<notin> D"
  shows "heap_inv (h\<lparr>jh_map := (jh_map h)(a := None)\<rparr>) D E"
proof -
  let ?h = "h\<lparr>jh_map := (jh_map h)(a := None)\<rparr>"
  have dom: "jdom ?h - D = jdom h - insert a D" using a by auto
  have refs: "refs ?h (jdom h - insert a D) = refs h (jdom h - insert a D)"
    by (rule refs_cong) (simp add: kids_at_def)
  note I = heap_invD(3)[OF inv]
  have S: "set_mset (E + refs h (jdom h - insert a D)) \<subseteq> jdom h" "insert a D \<subseteq> jdom h"
    using heap_invD[OF inv] by blast+
  obtain ob where ob: "jh_map h a = Some ob" using S(2) by auto
  then have "int (count (E + refs h (jdom h - insert a D)) a) = 0" using I[OF ob] by (simp add: ob_exact_def)
  then have "a \<notin># E + refs h (jdom h - insert a D)" by (simp add: not_in_iff)
  then have "set_mset (E + refs h (jdom h - insert a D)) \<subseteq> jdom ?h" using S(1) by auto
  moreover have "ob_exact (E + refs h (jdom h - insert a D)) D b o'" if "jh_map ?h b = Some o'" for b o'
    using I[of b o'] that by (auto simp: ob_exact_def split: if_splits)
  moreover have "jdom ?h \<subseteq> {..<jh_next ?h}" "D \<subseteq> jdom ?h" using heap_invD(1)[OF inv] S(2) a by auto
  ultimately show ?thesis unfolding dom[symmetric] refs[symmetric]
    by (intro heap_invI) (simp_all only: dom refs)
qed

lemma heap_inv_log [simp]: "heap_inv (h\<lparr>jh_log := l\<rparr>) D E = heap_inv h D E"
proof -
  have "kids_at (h\<lparr>jh_log := l\<rparr>) = kids_at h" by (simp add: kids_at_def fun_eq_iff)
  then show ?thesis by (simp add: heap_inv_def refs_def)
qed

section \<open>The cascade\<close>

definition somes :: "'a option list \<Rightarrow> 'a list" where
  "somes rs = List.map_filter id rs"

lemma somes_simps [simp]: "somes [] = []" "somes (None # rs) = somes rs" "somes (Some a # rs) = a # somes rs"
  "somes (map Some xs) = xs"
  by (simp_all add: somes_def map_filter_def comp_def)

lemma map_filter_somes: "List.map_filter f xs = somes (map f xs)"
  by (induction xs) (simp_all add: somes_def map_filter_simps split: option.split)

lemma kids_object: "jo_delete ob = object_delete \<Longrightarrow> jo_o ob = Some (C_object t) \<Longrightarrow> kids ob = somes (map snd (lh_items t))"
  by (simp add: kids_def map_filter_somes)

lemma kids_array: "jo_delete ob = array_delete \<Longrightarrow> jo_o ob = Some (C_array (Some arr)) \<Longrightarrow> kids ob = somes (al_list arr)"
  by (simp add: kids_def map_filter_somes)

lemma kids_leaf: "jo_delete ob \<noteq> object_delete \<Longrightarrow> jo_delete ob \<noteq> array_delete \<Longrightarrow> kids ob = []"
  by (cases "jo_delete ob") (simp_all add: kids_def)

lemma array_free_eq: "al_ok arr \<Longrightarrow> array_list_free arr = Some (somes (al_list arr))"
  by (simp add: array_list_free_ok somes_def)

lemma table_free_eq:
  assumes "lh_ok t" "lh_free_fn t"
  shows "\<exists>ents. lh_table_free t = Some ents \<and> map json_object_lh_entry_free ents = map snd (lh_items t)"
proof -
  obtain ents where e: "lh_table_free t = Some ents" "map lh_item ents = lh_items t"
    using lh_table_free_ok[OF assms(1)] assms(2) by auto
  have "json_object_lh_entry_free = snd \<circ> lh_item" by (simp add: fun_eq_iff json_object_lh_entry_free_def lh_item_def)
  then have "map json_object_lh_entry_free ents = map snd (map lh_item ents)" by simp
  then show ?thesis using e by auto
qed

definition put_spec :: "(jheap \<Rightarrow> nat option \<Rightarrow> (int \<times> jheap) option) \<Rightarrow> nat \<Rightarrow> bool" where
  "put_spec put n \<longleftrightarrow> (\<forall>h. put h None = Some (0, h)) \<and> (\<forall>h D E a. heap_inv h D E \<longrightarrow> a \<in># E \<longrightarrow> card (jdom h - D) \<le> n \<longrightarrow>
     (\<exists>r h'. put h (Some a) = Some (r, h') \<and> heap_inv h' D (E - {#a#}) \<and> jh_sub h' h \<and> (r = 1 \<longleftrightarrow> jh_map h' a = None)))"

lemma jh_sub_dom: "jh_sub h' h \<Longrightarrow> jdom h' \<subseteq> jdom h"
  by (fastforce simp: jh_sub_def)

lemma put_all_ok:
  assumes put: "put_spec put n"
  shows "heap_inv h D (E + mset (somes rs)) \<Longrightarrow> card (jdom h - D) \<le> n
    \<Longrightarrow> \<exists>h'. put_all put h rs = Some h' \<and> heap_inv h' D E \<and> jh_sub h' h"
proof (induction rs arbitrary: h)
  case (Cons r rs)
  show ?case
  proof (cases r)
    case None
    then show ?thesis using Cons put by (simp add: put_spec_def)
  next
    case (Some a)
    then have "heap_inv h D (E + mset (somes rs) + {#a#})" using Cons.prems(1) by simp
    then obtain x h1 where h1: "put h (Some a) = Some (x, h1)" "heap_inv h1 D (E + mset (somes rs))" "jh_sub h1 h"
      using put Cons.prems(2) unfolding put_spec_def by (metis add_diff_cancel_right' union_single_eq_member add_mset_add_single)
    have "jdom h1 - D \<subseteq> jdom h - D" using jh_sub_dom[OF h1(3)] by blast
    then have "card (jdom h1 - D) \<le> card (jdom h - D)" using heap_inv_finite[OF Cons.prems(1)] by (intro card_mono) auto
    then have "card (jdom h1 - D) \<le> n" using Cons.prems(2) by linarith
    then obtain h2 where "put_all put h1 rs = Some h2" "heap_inv h2 D E" "jh_sub h2 h1" using Cons.IH[OF h1(2)] by blast
    then show ?thesis using Some h1 jh_sub_trans by auto
  qed
qed simp

text \<open>The release of the kids of an object whose count has reached zero, and of the object.\<close>

definition jo_deleter :: "(jheap \<Rightarrow> nat option \<Rightarrow> (int \<times> jheap) option) \<Rightarrow> deleter \<Rightarrow> jheap \<Rightarrow> nat \<Rightarrow> jheap option" where
  "jo_deleter put d h a = (case d of
     generic_delete \<Rightarrow> json_object_generic_delete h a
   | object_delete \<Rightarrow> json_object_object_delete put h a
   | string_delete \<Rightarrow> json_object_string_delete h a
   | array_delete \<Rightarrow> json_object_array_delete put h a)"

lemma deleter_ok:
  assumes put: "put_spec put n" and inv: "heap_inv h (insert a D) (E + mset (kids ob))" and a: "a \<notin> D"
    and ob: "jh_map h a = Some ob" "ob_ok ob" and n: "card (jdom h - insert a D) \<le> n"
  shows "\<exists>h'. jo_deleter put (jo_delete ob) h a = Some h' \<and> heap_inv h' D E \<and> jh_sub h' h \<and> jh_map h' a = None"
proof -
  have free: "\<exists>h'. json_object_generic_delete h1 a = Some h' \<and> heap_inv h' D E \<and> jh_sub h' h \<and> jh_map h' a = None"
    if i1: "heap_inv h1 (insert a D) E" and s1: "jh_sub h1 h" for h1
  proof -
    obtain o1 where "jh_map h1 a = Some o1" using heap_invD(2)[OF i1] by auto
    moreover have "jh_sub (h1\<lparr>jh_map := (jh_map h1)(a := None)\<rparr>) h" using s1 by (auto simp: jh_sub_def)
    ultimately show ?thesis using free_dying[OF i1 a] by (simp add: json_object_generic_delete_def)
  qed
  have release: "\<exists>h1. put_all put h rs = Some h1 \<and> heap_inv h1 (insert a D) E \<and> jh_sub h1 h" if "somes rs = kids ob" for rs
    using put_all_ok[OF put _ n, of E rs] inv that by simp
  show ?thesis
  proof (cases "jo_delete ob")
    case object_delete
    then obtain t where t: "jo_o ob = Some (C_object t)" "lh_ok t" "lh_free_fn t" using ob(2) by (auto simp: ob_ok_def)
    obtain ents where e: "lh_table_free t = Some ents" "map json_object_lh_entry_free ents = map snd (lh_items t)"
      using table_free_eq[OF t(2,3)] by blast
    obtain h1 where "put_all put h (map snd (lh_items t)) = Some h1" "heap_inv h1 (insert a D) E" "jh_sub h1 h"
      using release kids_object[OF object_delete t(1)] by metis
    then show ?thesis using free[of h1] object_delete ob(1) t(1) e
      by (simp add: jo_deleter_def json_object_object_delete_def)
  next
    case array_delete
    then obtain arr where arr: "jo_o ob = Some (C_array (Some arr))" "al_ok arr" using ob(2) by (auto simp: ob_ok_def)
    obtain h1 where "put_all put h (map Some (somes (al_list arr))) = Some h1" "heap_inv h1 (insert a D) E" "jh_sub h1 h"
      using release[of "map Some (somes (al_list arr))"] kids_array[OF array_delete arr(1)] by auto
    then show ?thesis using free[of h1] array_delete ob(1) arr
      by (simp add: jo_deleter_def json_object_array_delete_def array_free_eq)
  next
    case generic_delete
    then show ?thesis using free[of h] inv kids_leaf[of ob] by (simp add: jo_deleter_def)
  next
    case string_delete
    then show ?thesis using free[of h] inv kids_leaf[of ob] by (simp add: jo_deleter_def json_object_string_delete_def)
  qed
qed

lemma jh_sub_set: "jh_map h a = Some ob \<Longrightarrow> jh_sub (jh_set h a (ob\<lparr>jo_ref := r\<rparr>)) h"
  by (auto simp: jh_sub_def jh_set_def)

lemma jh_sub_log: "jh_sub (h\<lparr>jh_log := l\<rparr>) h' = jh_sub h h'"
  by (simp add: jh_sub_def)

lemma json_put_ok: "put_spec (json_put fuel) fuel"
proof (induction fuel)
  case 0
  have "\<not> card (jdom h - D) \<le> 0" if "heap_inv h D E" "a \<in># E" for h D E a
    using ref_held[OF that] heap_inv_finite[OF that(1)] by (auto simp: card_eq_0_iff)
  then show ?case by (auto simp: put_spec_def)
next
  case (Suc fuel)
  { fix h D E a assume inv: "heap_inv h D E" and a: "a \<in># E" and n: "card (jdom h - D) \<le> Suc fuel"
    obtain ob where ob: "jh_map h a = Some ob" "0 < jo_ref ob" "a \<notin> D" "ob_ok ob" "jo_ref ob \<le> INT_MAX"
      using ref_held[OF inv a] by blast
    have rc: "c_int (jo_ref ob - 1) = Some (jo_ref ob - 1)" using ob by (intro c_int_Some) (auto simp: c_eval)
    have "\<exists>r h'. json_put (Suc fuel) h (Some a) = Some (r, h') \<and> heap_inv h' D (E - {#a#}) \<and> jh_sub h' h \<and> (r = 1 \<longleftrightarrow> jh_map h' a = None)"
    proof (cases "jo_ref ob = 1")
      case False
      then show ?thesis
        using drop_ref(1)[OF inv a ob(1)] rc ob(1) jh_sub_set[OF ob(1)] by (simp add: Let_def jh_set_def)
    next
      case True
      define h0 where "h0 = jh_set h a (ob\<lparr>jo_ref := 0\<rparr>)"
      define h1 where "h1 = (case jo_user_delete ob of None \<Rightarrow> h0 | Some f \<Rightarrow> h0\<lparr>jh_log := jh_log h0 @ [(f, a, jo_userdata ob)]\<rparr>)"
      have inv1: "heap_inv h1 (insert a D) (E - {#a#} + mset (kids (ob\<lparr>jo_ref := 0\<rparr>)))"
        using drop_ref(2)[OF inv a ob(1) True] by (simp add: h1_def h0_def split: option.split)
      have m1: "jh_map h1 a = Some (ob\<lparr>jo_ref := 0\<rparr>)" "jdom h1 = jdom h" "jh_sub h1 h"
        using ob(1) jh_sub_set[OF ob(1)] by (auto simp: h1_def h0_def jh_set_def jh_sub_log split: option.split)
      have "card (jdom h - insert a D) = card (jdom h - D) - 1"
        using ob(1,3) by (metis Diff_iff Diff_insert card_Diff_singleton domI)
      then have n1: "card (jdom h1 - insert a D) \<le> fuel" using n m1(2) by simp
      obtain h2 where h2: "jo_deleter (json_put fuel) (jo_delete (ob\<lparr>jo_ref := 0\<rparr>)) h1 a = Some h2" "heap_inv h2 D (E - {#a#})"
        "jh_sub h2 h1" "jh_map h2 a = None"
        using deleter_ok[OF Suc.IH inv1 ob(3) m1(1) _ n1] ob(4) by auto
      have "json_put (Suc fuel) h (Some a) = Option.bind (jo_deleter (json_put fuel) (jo_delete ob) h1 a) (\<lambda>h. Some (1, h))"
        using ob(1) rc True unfolding h1_def h0_def jo_deleter_def by (simp add: Let_def)
      then have "json_put (Suc fuel) h (Some a) = Some (1, h2)" using h2(1) by simp
      then show ?thesis using h2 jh_sub_trans[OF h2(3) m1(3)] by auto
    qed }
  then show ?case by (simp add: put_spec_def)
qed

section \<open>Operations on containers\<close>

text \<open>Replacing the contents of an object, when the references it gains come from the client and those it
  gives up go to the client.\<close>

lemma move_refs:
  assumes ok: "heap_ok h E" and ob: "jh_map h a = Some ob" and ob': "ob_ok ob'" "jo_ref ob' = jo_ref ob"
    and bal: "E' + mset (kids ob') = E + mset (kids ob)"
  shows "heap_ok (jh_set h a ob') E'"
proof -
  let ?h = "jh_set h a ob'"
  have inv: "heap_inv h {} E" using ok by (simp add: heap_ok_def)
  have dom: "jdom ?h = jdom h" using ob by (auto simp: jh_set_def)
  have fin: "finite (jdom h)" "a \<in> jdom h" using heap_inv_finite[OF inv] ob by auto
  have rest: "refs ?h (jdom h - {a}) = refs h (jdom h - {a})"
    by (rule refs_cong) (simp add: kids_at_def jh_set_def)
  have ka: "kids_at ?h a = mset (kids ob')" "kids_at h a = mset (kids ob)" using ob by (simp_all add: kids_at_def jh_set_def)
  have eq: "E' + refs ?h (jdom ?h - {}) = E + refs h (jdom h - {})"
  proof -
    have "E' + refs ?h (jdom h) = E' + mset (kids ob') + refs h (jdom h - {a})"
      using refs_remove[OF fin, of ?h] ka rest by (simp add: add.assoc)
    also have "\<dots> = E + refs h (jdom h)" using refs_remove[OF fin, of h] ka bal by (simp add: add.assoc)
    finally show ?thesis using dom by simp
  qed
  have "ob_exact (E + refs h (jdom h - {})) {} b o'" if "jh_map ?h b = Some o'" for b o'
    using heap_invD(3)[OF inv, of b] heap_invD(3)[OF inv ob] ob' that
    by (cases "b = a") (auto simp: jh_set_def ob_exact_def)
  then show ?thesis
    unfolding heap_ok_def using heap_invD(1,4)[OF inv] dom eq by (intro heap_invI) (simp_all add: jh_set_def)
qed

lemma heap_ok_ob: "heap_ok h E \<Longrightarrow> jh_map h a = Some ob \<Longrightarrow> ob_ok ob"
  by (auto simp: heap_ok_def ob_exact_def dest: heap_invD(3))

lemma ob_ok_table:
  "ob_ok ob \<Longrightarrow> jo_delete ob = object_delete \<Longrightarrow> \<exists>t. jo_table ob = Some t \<and> jo_o ob = Some (C_object t) \<and> lh_ok t \<and> lh_free_fn t"
  by (auto simp: ob_ok_def jo_table_def)

lemma ob_ok_array:
  "ob_ok ob \<Longrightarrow> jo_delete ob = array_delete \<Longrightarrow> \<exists>arr. jo_array ob = Some arr \<and> jo_o ob = Some (C_array (Some arr)) \<and> al_ok arr"
  by (auto simp: ob_ok_def jo_array_def)

lemma somes_append [simp]: "somes (xs @ ys) = somes xs @ somes ys"
  by (induction xs) (simp_all add: somes_def map_filter_simps split: option.split)

lemma kids_set_table:
  "jo_delete ob = object_delete \<Longrightarrow> kids (ob\<lparr>jo_o := Some (C_object t)\<rparr>) = somes (map snd (lh_items t))"
  by (rule kids_object) simp_all

lemma object_add_new_ok:
  assumes ok: "heap_ok h (E + mset (somes [val]))" and ob: "jh_map h a = Some ob" "jo_delete ob = object_delete"
    and t: "jo_table ob = Some t" "lh_room t" "key \<notin> fst ` set (lh_items t)"
  shows "\<exists>h' t'. json_object_object_add (\<lambda>_. True) h a key val = Some h' \<and> heap_ok h' E
    \<and> h' = jh_set h a (ob\<lparr>jo_o := Some (C_object t')\<rparr>) \<and> lh_items t' = lh_items t @ [(key, val)]"
proof -
  have tt: "jo_o ob = Some (C_object t)" "lh_ok t" "lh_free_fn t"
    using ob_ok_table[OF heap_ok_ob[OF ok ob(1)] ob(2)] t(1) by auto
  obtain ord where rep: "lh_rep t ord" using tt(2) by (auto simp: lh_ok_def)
  let ?t = "t\<lparr>lh_lookups := lh_lookups t + 1\<rparr>"
  obtain r where r: "lh_table_lookup_entry t key = Some (r, ?t)"
    "case r of Some i \<Rightarrow> i \<in> set ord \<and> fst (lh_item (lh_tab t ! i)) = key | None \<Rightarrow> key \<notin> fst ` set (lh_items t)"
    using lh_lookup_entry_ok[OF rep] by blast
  have "r = None"
  proof (rule ccontr)
    assume "r \<noteq> None"
    then obtain i where "i \<in> set ord" "fst (lh_item (lh_tab t ! i)) = key" using r(2) by auto
    then have "key \<in> fst ` set (lh_items t)" using lh_rep_items[OF rep] by force
    then show False using t(3) by simp
  qed
  obtain t' where t': "lh_table_insert (\<lambda>_. True) ?t key val = Some t'" "lh_ok t'" "lh_items t' = lh_items t @ [(key, val)]" "lh_free_fn t'"
    using lh_table_insert_ok[of ?t "\<lambda>_. True" key val] tt t(2) by (auto simp: lh_room_def)
  let ?ob = "ob\<lparr>jo_o := Some (C_object t')\<rparr>"
  have "heap_ok (jh_set h a ?ob) E"
  proof (rule move_refs[OF ok ob(1)])
    show "ob_ok ?ob" using ob(2) t' by (simp add: ob_ok_def)
    show "E + mset (kids ?ob) = E + mset (somes [val]) + mset (kids ob)"
      using kids_set_table[OF ob(2)] kids_object[OF ob(2) tt(1)] t'(3) by (simp add: ac_simps)
  qed simp
  then show ?thesis using ob(1) t(1) r(1) \<open>r = None\<close> t'(1,3) by (auto simp: json_object_object_add_def)
qed

lemma array_add_ok:
  assumes ok: "heap_ok h (E + mset (somes [val]))" and ob: "jh_map h a = Some ob" "jo_delete ob = array_delete"
    and arr: "jo_array ob = Some arr" "al_size arr * 2 \<le> INT_MAX"
  shows "\<exists>h' arr'. json_object_array_add (\<lambda>_. True) h a val = Some (0, h') \<and> heap_ok h' E
    \<and> h' = jh_set h a (ob\<lparr>jo_o := Some (C_array (Some arr'))\<rparr>) \<and> al_list arr' = al_list arr @ [val]"
proof -
  have aa: "jo_o ob = Some (C_array (Some arr))" "al_ok arr"
    using ob_ok_array[OF heap_ok_ob[OF ok ob(1)] ob(2)] arr(1) by auto
  have "al_length arr < INT_MAX" using aa(2) arr(2) by (auto simp: al_ok_def)
  then obtain arr' where arr': "array_list_put_idx (\<lambda>_. True) arr (al_length arr) val = Some (0, [], arr')" "al_ok arr'"
    "al_list arr' = al_list arr @ [val]"
    using add_ok[OF aa(2) arr(2), of "\<lambda>_. True" val] by (auto simp: array_list_add_def)
  let ?ob = "ob\<lparr>jo_o := Some (C_array (Some arr'))\<rparr>"
  have "heap_ok (jh_set h a ?ob) E"
  proof (rule move_refs[OF ok ob(1)])
    show "ob_ok ?ob" using ob(2) arr' by (simp add: ob_ok_def)
    have "kids ?ob = somes (al_list arr')" by (rule kids_array) (simp_all add: ob(2))
    then show "E + mset (kids ?ob) = E + mset (somes [val]) + mset (kids ob)"
      using kids_array[OF ob(2) aa(1)] arr'(3) by (simp add: ac_simps)
  qed simp
  then show ?thesis using ob(1) arr(1) arr'(1,3)
    by (auto simp: json_object_array_add_def json_object_array_put_idx_def)
qed

lemma object_put_ok:
  assumes "heap_ok h E" "a \<in># E"
  shows "\<exists>r h'. json_object_put h (Some a) = Some (r, h') \<and> heap_ok h' (E - {#a#}) \<and> jh_sub h' h \<and> (r = 1 \<longleftrightarrow> jh_map h' a = None)"
proof -
  have inv: "heap_inv h {} E" using assms(1) by (simp add: heap_ok_def)
  have "card (jdom h - {}) \<le> jh_next h"
    using heap_invD(1)[OF inv] by (metis Diff_empty card_lessThan card_mono finite_lessThan)
  then have "card (jdom h - {}) \<le> Suc (jh_next h)" by simp
  then show ?thesis
    using json_put_ok[of "Suc (jh_next h)"] inv assms(2) unfolding put_spec_def json_object_put_def heap_ok_def by blast
qed

lemma put_all_heap_ok:
  "heap_ok h (E + mset (somes rs)) \<Longrightarrow> \<exists>h'. put_all json_object_put h rs = Some h' \<and> heap_ok h' E \<and> jh_sub h' h"
proof (induction rs arbitrary: h)
  case (Cons r rs)
  show ?case
  proof (cases r)
    case None
    then show ?thesis using Cons by (simp add: json_object_put_def)
  next
    case (Some a)
    obtain x h1 where h1: "json_object_put h (Some a) = Some (x, h1)" "heap_ok h1 (E + mset (somes rs))" "jh_sub h1 h"
      using object_put_ok[OF Cons.prems, of a] Some by auto
    then show ?thesis using Cons.IH[OF h1(2)] Some jh_sub_trans by fastforce
  qed
qed simp

lemma somes_split:
  "mset (somes (map snd xs)) = mset (somes (map snd (filter (\<lambda>(k', _). k' \<noteq> key) xs)))
     + mset (somes (map snd (filter (\<lambda>(k', _). k' = key) xs)))"
proof (induction xs)
  case (Cons x xs)
  then show ?case by (cases x; cases "snd x") auto
qed simp

lemma object_del_ok:
  assumes ok: "heap_ok h E" and ob: "jh_map h a = Some ob" "jo_delete ob = object_delete" "a \<in># E"
    and t: "jo_table ob = Some t" "distinct (map fst (lh_items t))"
  shows "\<exists>h' ob' t'. json_object_object_del h a key = Some h' \<and> heap_ok h' E \<and> jh_map h' a = Some ob' \<and> jo_table ob' = Some t'
    \<and> lh_items t' = filter (\<lambda>(k, _). k \<noteq> key) (lh_items t)"
proof -
  have tt: "jo_o ob = Some (C_object t)" "lh_ok t" "lh_free_fn t"
    using ob_ok_table[OF heap_ok_ob[OF ok ob(1)] ob(2)] t(1) by auto
  obtain r t' freed where d: "lh_table_delete t key = Some (r, t', freed)" "lh_ok t'"
    "lh_items t' = filter (\<lambda>(k', _). k' \<noteq> key) (lh_items t)" "map lh_item freed = filter (\<lambda>(k', _). k' = key) (lh_items t)"
    "lh_free_fn t'"
    using lh_delete_ok[OF tt(2) t(2), of key] tt(3) by auto
  have "json_object_lh_entry_free = snd \<circ> lh_item" by (simp add: fun_eq_iff json_object_lh_entry_free_def lh_item_def)
  then have fr: "map json_object_lh_entry_free freed = map snd (filter (\<lambda>(k', _). k' = key) (lh_items t))"
    using d(4) by (metis map_map)
  let ?ob = "ob\<lparr>jo_o := Some (C_object t')\<rparr>"
  have bal: "mset (somes (map snd (lh_items t))) = mset (somes (map snd (lh_items t')))
      + mset (somes (map json_object_lh_entry_free freed))"
    unfolding d(3) fr by (rule somes_split)
  have "heap_ok (jh_set h a ?ob) (E + mset (somes (map json_object_lh_entry_free freed)))"
  proof (rule move_refs[OF ok ob(1)])
    show "ob_ok ?ob" using ob(2) d by (simp add: ob_ok_def)
    show "E + mset (somes (map json_object_lh_entry_free freed)) + mset (kids ?ob) = E + mset (kids ob)"
      using kids_set_table[OF ob(2)] kids_object[OF ob(2) tt(1)] bal by (simp add: ac_simps)
  qed simp
  from put_all_heap_ok[OF this] obtain h' where h': "put_all json_object_put (jh_set h a ?ob) (map json_object_lh_entry_free freed) = Some h'"
    "heap_ok h' E" "jh_sub h' (jh_set h a ?ob)" by blast
  obtain ob' where ob': "jh_map h' a = Some ob'" using ref_held[of h' "{}" E a] h'(2) ob(3) by (auto simp: heap_ok_def)
  then obtain rc where "ob' = ?ob\<lparr>jo_ref := rc\<rparr>" using h'(3) by (fastforce simp: jh_sub_def jh_set_def)
  then have "jo_table ob' = Some t'" by (simp add: jo_table_def)
  then show ?thesis using h' ob' ob(1) t(1) d(1,3) by (simp add: json_object_object_del_def)
qed

lemma object_get_ok:
  assumes ok: "heap_ok h E" and ob: "jh_map h a = Some ob" "jo_ref ob < INT_MAX"
  shows "\<exists>h'. json_object_get h (Some a) = Some (Some a, h') \<and> heap_ok h' (E + {#a#})"
proof -
  let ?h = "jh_set h a (ob\<lparr>jo_ref := jo_ref ob + 1\<rparr>)"
  have inv: "heap_inv h {} E" using ok by (simp add: heap_ok_def)
  have X: "ob_exact (E + refs h (jdom h - {})) {} a ob" using heap_invD(3)[OF inv ob(1)] .
  have dom: "jdom ?h = jdom h" using ob(1) by (auto simp: jh_set_def)
  have refs: "refs ?h (jdom ?h - {}) = refs h (jdom h - {})"
    unfolding dom by (rule refs_cong) (use ob(1) in \<open>simp add: kids_at_def jh_set_def\<close>)
  have "ob_exact (E + {#a#} + refs h (jdom h - {})) {} b o'" if "jh_map ?h b = Some o'" for b o'
    using heap_invD(3)[OF inv, of b] X ob that by (cases "b = a") (auto simp: jh_set_def ob_exact_def)
  then have "heap_ok ?h (E + {#a#})"
    unfolding heap_ok_def
  proof (intro heap_invI)
    show "jdom ?h \<subseteq> {..<jh_next ?h}" using heap_invD(1)[OF inv] dom by (simp add: jh_set_def)
    have "a \<in> jdom h" using ob(1) by auto
    then show "set_mset (E + {#a#} + refs ?h (jdom ?h - {})) \<subseteq> jdom ?h"
      using heap_invD(4)[OF inv] unfolding refs unfolding dom by simp
  qed (simp_all add: refs[simplified])
  moreover have "c_int (jo_ref ob + 1) = Some (jo_ref ob + 1)"
    using X ob(2) by (intro c_int_Some) (auto simp: ob_exact_def c_eval)
  ultimately show ?thesis using ob(1) by (simp add: json_object_get_def)
qed

lemma new_with_ok:
  assumes ok: "heap_ok h E" and f: "\<And>ob. jo_ref ob = 1 \<Longrightarrow> jo_delete ob = generic_delete \<Longrightarrow> jo_ref (f ob) = 1 \<and> ob_ok (f ob) \<and> kids (f ob) = []"
  shows "\<exists>h'. json_new_with AL h ty f = (if AL 1 then Some (Some (jh_next h), h') else Some (None, h))
    \<and> (AL 1 \<longrightarrow> heap_ok h' (E + {#jh_next h#}))"
proof (cases "AL 1")
  case False
  then show ?thesis by (simp add: json_new_with_def json_object_new_def)
next
  case True
  let ?a = "jh_next h"
  obtain ob h1 where h1: "json_object_new AL h ty = (Some ?a, h1)" "h1 = h\<lparr>jh_next := ?a + 1, jh_map := (jh_map h)(?a := Some ob)\<rparr>"
    "jo_ref ob = 1" "jo_delete ob = generic_delete" using True by (simp add: json_object_new_def)
  let ?h = "jh_set h1 ?a (f ob)"
  have inv: "heap_inv h {} E" using ok by (simp add: heap_ok_def)
  have fresh: "?a \<notin> jdom h" using heap_invD(1)[OF inv] by auto
  have F: "jo_ref (f ob) = 1" "ob_ok (f ob)" "kids (f ob) = []" using f h1(3,4) by auto
  have map': "jh_map ?h = (jh_map h)(?a := Some (f ob))" using h1(2) by (auto simp: jh_set_def)
  have dom: "jdom ?h = insert ?a (jdom h)" using map' by auto
  have "refs ?h (jdom ?h) = kids_at ?h ?a + refs ?h (jdom h)"
    unfolding refs_def dom using heap_inv_finite[OF inv] fresh by simp
  also have "refs ?h (jdom h) = refs h (jdom h)"
    by (rule refs_cong) (use fresh map' in \<open>auto simp: kids_at_def\<close>)
  also have "kids_at ?h ?a = {#}" using map' F(3) by (simp add: kids_at_def)
  finally have refs: "refs ?h (jdom ?h - {}) = refs h (jdom h - {})" by simp
  have zero: "count (E + refs h (jdom h - {})) ?a = 0"
    using heap_invD(4)[OF inv] fresh by (metis count_inI subsetD)
  have "ob_exact (E + {#?a#} + refs h (jdom h - {})) {} b o'" if "jh_map ?h b = Some o'" for b o'
    using heap_invD(3)[OF inv, of b] F zero that fresh map'
    by (cases "b = ?a") (auto simp: ob_exact_def c_eval)
  moreover have "jdom ?h \<subseteq> {..<jh_next ?h}" using heap_invD(1)[OF inv] dom h1(2) by (auto simp: jh_set_def)
  ultimately have "heap_ok ?h (E + {#?a#})"
    unfolding heap_ok_def
  proof (intro heap_invI)
    show "set_mset (E + {#?a#} + refs ?h (jdom ?h - {})) \<subseteq> jdom ?h"
      using heap_invD(4)[OF inv] unfolding refs unfolding dom by auto
  qed (simp_all add: refs[simplified])
  then show ?thesis using True h1 by (auto simp: json_new_with_def intro!: exI[of _ ?h])
qed

section \<open>The interface of counted references\<close>

text \<open>What a client of reference-counted objects relies on: \<open>ok h E\<close> says that the references in \<open>E\<close> are the
  client's own. Acquiring and releasing balance.\<close>

locale counted_refs =
  fixes ok :: "'h \<Rightarrow> 'a multiset \<Rightarrow> bool" and few :: "'h \<Rightarrow> 'a \<Rightarrow> bool"
    and acquire :: "'h \<Rightarrow> 'a \<Rightarrow> 'h option" and release :: "'h \<Rightarrow> 'a \<Rightarrow> 'h option"
  assumes acquire_law: "ok h E \<Longrightarrow> a \<in># E \<Longrightarrow> few h a \<Longrightarrow> \<exists>h'. acquire h a = Some h' \<and> ok h' (E + {#a#})"
    and release_law: "ok h E \<Longrightarrow> a \<in># E \<Longrightarrow> \<exists>h'. release h a = Some h' \<and> ok h' (E - {#a#})"
begin

lemma acquire_release:
  assumes "ok h E" "a \<in># E" "few h a"
  shows "\<exists>h1 h2. acquire h a = Some h1 \<and> release h1 a = Some h2 \<and> ok h2 E"
  using acquire_law[OF assms] release_law by (metis add_diff_cancel_right' union_iff union_single_eq_member)

lemma release_all:
  "ok h (mset as + E) \<Longrightarrow> \<exists>h'. fold (\<lambda>a ho. Option.bind ho (\<lambda>h. release h a)) as (Some h) = Some h' \<and> ok h' E"
proof (induction as arbitrary: h)
  case (Cons a as)
  obtain h1 where "release h a = Some h1" "ok h1 (mset as + E)" using release_law[OF Cons.prems, of a] by auto
  then show ?case using Cons.IH by simp
qed simp

end

interpretation jref: counted_refs heap_ok "\<lambda>h a. \<forall>ob. jh_map h a = Some ob \<longrightarrow> jo_ref ob < INT_MAX"
  "\<lambda>h a. map_option snd (json_object_get h (Some a))" "\<lambda>h a. map_option snd (json_object_put h (Some a))"
proof (unfold_locales, goal_cases)
  case (1 h E a)
  obtain ob where "jh_map h a = Some ob" using ref_held[of h "{}" E a] 1 by (auto simp: heap_ok_def)
  then show ?case using object_get_ok[OF 1(1)] 1(3) by fastforce
next
  case (2 h E a)
  then show ?case using object_put_ok[OF 2] by fastforce
qed

section \<open>Properties\<close>

text \<open>C13: \<^verbatim>\<open>json_object_put\<close> of a reference that the client holds, on a heap whose counts are exact, never accesses
  a freed object, however the objects are shared and whatever the cascade of releases; it returns
  within the fuel, 1 exactly when the object has been freed. Afterwards the counts are exact for the
  remaining references of the client, every object still referenced is there with its contents
  unchanged, and none is kept without a reference.\<close>

theorem json_object_put_safe:
  assumes "heap_ok h E" "a \<in># E"
  shows "\<exists>r h'. json_object_put h (Some a) = Some (r, h') \<and> heap_ok h' (E - {#a#})
    \<and> (r = 1 \<longleftrightarrow> jh_map h' a = None)
    \<and> (\<forall>b ob'. jh_map h' b = Some ob' \<longrightarrow> (\<exists>ob. jh_map h b = Some ob \<and> ob' = ob\<lparr>jo_ref := jo_ref ob'\<rparr>) \<and> 0 < jo_ref ob')
    \<and> set_mset (E - {#a#}) \<subseteq> dom (jh_map h')"
proof -
  obtain r h' where h': "json_object_put h (Some a) = Some (r, h')" "heap_ok h' (E - {#a#})" "jh_sub h' h" "(r = 1) = (jh_map h' a = None)"
    using object_put_ok[OF assms] by (elim exE conjE) (rule that)
  have inv: "heap_inv h' {} (E - {#a#})" using h'(2) by (simp add: heap_ok_def)
  have "0 < jo_ref ob'" if "jh_map h' b = Some ob'" for b ob'
    using heap_invD(3)[OF inv that] by (auto simp: ob_exact_def)
  moreover have "set_mset (E - {#a#}) \<subseteq> dom (jh_map h')" using heap_invD(4)[OF inv] by simp
  ultimately show ?thesis using h' unfolding jh_sub_def by (intro exI[of _ r] exI[of _ h']) simp
qed

definition jh_empty :: jheap where "jh_empty = \<lparr>jh_map = \<lambda>_. None, jh_next = 0, jh_log = []\<rparr>"

lemma jh_empty_ok: "heap_ok jh_empty {#}"
  by (simp add: heap_ok_def heap_inv_def jh_empty_def refs_def)

lemma new_int_ok:
  "heap_ok h E \<Longrightarrow> \<exists>h'. json_object_new_int (\<lambda>_. True) h i = Some (Some (jh_next h), h') \<and> heap_ok h' (E + {#jh_next h#})"
  using new_with_ok[of h E _ "\<lambda>_. True"] by (auto simp: json_object_new_int_def ob_ok_def kids_def)

theorem json_object_put_safe_witness:
  "\<exists>h r h'. json_object_new_int (\<lambda>_. True) jh_empty 5 = Some (Some 0, h) \<and> json_object_put h (Some 0) = Some (r, h') \<and> heap_ok h' {#}"
proof -
  have n: "jh_next jh_empty = 0" by (simp add: jh_empty_def)
  obtain h where h: "json_object_new_int (\<lambda>_. True) jh_empty 5 = Some (Some 0, h)" "heap_ok h {#0#}"
    using new_int_ok[OF jh_empty_ok, of 5] n by auto
  then show ?thesis using json_object_put_safe[of h "{#0#}" 0] by auto
qed


lemma new_array_ok:
  "heap_ok h E \<Longrightarrow> \<exists>h' ob arr. json_object_new_array (\<lambda>_. True) h = Some (Some (jh_next h), h') \<and> heap_ok h' (E + {#jh_next h#})
     \<and> jh_map h' (jh_next h) = Some ob \<and> jo_delete ob = array_delete \<and> jo_array ob = Some arr \<and> al_size arr = 32 \<and> al_list arr = []"
proof -
  assume ok: "heap_ok h E"
  obtain arr where arr: "array_list_new (\<lambda>_. True) = Some arr" "al_size arr = 32" "al_list arr = []" "al_ok (arr :: nat array_list)"
    by (simp add: array_list_new_def ARRAY_LIST_DEFAULT_SIZE_def al_list_def al_ok_def INT_MAX_def)
  let ?f = "\<lambda>jso. jso\<lparr>jo_delete := array_delete, jo_to_json := Some (Std json_type_array), jo_o := Some (C_array (Some arr))\<rparr>"
  have "ob_ok (?f ob) \<and> kids (?f ob) = []" for ob
    using arr by (simp add: ob_ok_def kids_def List.map_filter_simps)
  then obtain h' where "json_new_with (\<lambda>_. True) h json_type_array ?f = Some (Some (jh_next h), h')" "heap_ok h' (E + {#jh_next h#})"
    using new_with_ok[OF ok, of ?f "\<lambda>_. True" json_type_array] by auto
  moreover then have "\<exists>ob. jh_map h' (jh_next h) = Some ob \<and> jo_delete ob = array_delete \<and> jo_array ob = Some arr"
    by (auto simp: json_new_with_def json_object_new_def jh_set_def jo_array_def)
  ultimately show ?thesis using arr by (auto simp: json_object_new_array_def)
qed


text \<open>C28: \<^verbatim>\<open>json_object_object_del\<close> on an object that the client holds returns without touching freed memory,
  removes exactly the given key, and releases its value: the counts are exact afterwards for the
  same references of the client.\<close>

theorem json_object_object_del_safe:
  assumes "heap_ok h E" "jh_map h a = Some ob" "jo_delete ob = object_delete" "a \<in># E" "jo_table ob = Some t"
    "distinct (map fst (lh_items t))"
  shows "\<exists>h' ob' t'. json_object_object_del h a key = Some h' \<and> heap_ok h' E \<and> jh_map h' a = Some ob' \<and> jo_table ob' = Some t'
    \<and> lh_items t' = filter (\<lambda>(k, _). k \<noteq> key) (lh_items t)"
  by (rule object_del_ok[OF assms])

theorem json_object_object_del_safe_witness:
  "\<exists>h1 h2. json_object_new_object (\<lambda>_. True) jh_empty = Some (Some 0, h1) \<and> json_object_object_del h1 0 ''k'' = Some h2 \<and> heap_ok h2 {#0#}"
proof -
  obtain t :: "(string, nat) lh_table" where t: "lh_kchar_table_new (\<lambda>_. True) 16 [] True = Some t" "lh_ok t" "lh_items t = []"
    using lh_new_string_ok[of 16 "[]" True] by auto
  have fr: "lh_free_fn t" using t(1) by (auto simp: lh_kchar_table_new_def lh_table_new_def split: if_splits)
  let ?f = "\<lambda>jso. jso\<lparr>jo_delete := object_delete, jo_to_json := Some (Std json_type_object), jo_o := Some (C_object t)\<rparr>"
  have "ob_ok (?f ob) \<and> kids (?f ob) = []" for ob
    using t fr by (simp add: ob_ok_def kids_def List.map_filter_simps)
  then obtain h1 where h1: "json_new_with (\<lambda>_. True) jh_empty json_type_object ?f = Some (Some 0, h1)" "heap_ok h1 {#0#}"
    using new_with_ok[OF jh_empty_ok, of ?f "\<lambda>_. True" json_type_object] by (auto simp: jh_empty_def)
  then have n: "json_object_new_object (\<lambda>_. True) jh_empty = Some (Some 0, h1)"
    using t(1) by (simp add: json_object_new_object_def JSON_OBJECT_DEF_HASH_ENTRIES_def)
  obtain ob where "jh_map h1 0 = Some ob" "jo_delete ob = object_delete" "jo_table ob = Some t"
    using h1(1) by (auto simp: json_new_with_def json_object_new_def jh_set_def jo_table_def jh_empty_def)
  then show ?thesis using json_object_object_del_safe[of h1 "{#0#}" 0 ob t "''k''"] n h1(2) t(3) by auto
qed

end
