(* ===== verification/JsonIter.thy ===== *)
theory JsonIter
  imports JsonObject
begin

text \<open>
  The iterators of \<^verbatim>\<open>src/Json/json_object_iterator.c\<close>. A valid iterator points to an entry of the table of an
  object; the pointer is given by the object, the number of resizes of its table so far, and the slot, because a
  resize moves the entries and leaves pointers to freed memory. \<^verbatim>\<open>JASSERT\<close> is empty in the default build, so a
  misuse is a fault where the code reads through the pointer.
\<close>

section \<open>Iterators\<close>

record json_object_iterator =
  it_opaque :: "(nat \<times> u32 \<times> nat) option"

definition kObjectEndIterValue :: "(nat \<times> u32 \<times> nat) option" where
  "kObjectEndIterValue = None"

definition json_object_iter_init_default :: json_object_iterator where
  "json_object_iter_init_default = \<lparr>it_opaque = None\<rparr>"

definition json_object_iter_begin :: "jheap \<Rightarrow> nat option \<Rightarrow> json_object_iterator option" where
  "json_object_iter_begin h obj = do {
     pTable \<leftarrow> json_object_get_object h obj;
     t \<leftarrow> pTable;
     a \<leftarrow> obj;
     Some \<lparr>it_opaque = map_option (\<lambda>i. (a, lh_resizes t, i)) (lh_head t)\<rparr> }"

definition json_object_iter_end :: "nat option \<Rightarrow> json_object_iterator" where
  "json_object_iter_end obj = \<lparr>it_opaque = kObjectEndIterValue\<rparr>"

text \<open>The entry that an iterator points to.\<close>

definition iter_entry :: "jheap \<Rightarrow> json_object_iterator \<Rightarrow> (string, nat) lh_entry option" where
  "iter_entry h iter = do {
     (a, gen, i) \<leftarrow> it_opaque iter;
     ob \<leftarrow> jh_map h a;
     t \<leftarrow> jo_table ob;
     if lh_resizes t = gen then peek (lh_tab t) i else None }"

definition json_object_iter_next :: "jheap \<Rightarrow> json_object_iterator \<Rightarrow> json_object_iterator option" where
  "json_object_iter_next h iter = do {
     e \<leftarrow> iter_entry h iter;
     (a, gen, i) \<leftarrow> it_opaque iter;
     Some (iter\<lparr>it_opaque := map_option (\<lambda>j. (a, gen, j)) (e_next e)\<rparr>) }"

definition json_object_iter_peek_name :: "jheap \<Rightarrow> json_object_iterator \<Rightarrow> string lh_key option" where
  "json_object_iter_peek_name h iter = map_option e_k (iter_entry h iter)"

definition json_object_iter_peek_value :: "jheap \<Rightarrow> json_object_iterator \<Rightarrow> nat option option" where
  "json_object_iter_peek_value h iter = map_option e_v (iter_entry h iter)"

definition json_object_iter_equal :: "json_object_iterator \<Rightarrow> json_object_iterator \<Rightarrow> bool" where
  "json_object_iter_equal iter1 iter2 \<longleftrightarrow> it_opaque iter1 = it_opaque iter2"

section \<open>The documented loop\<close>

text \<open>The loop that the header gives as the use of the interface, here collecting the pairs.\<close>

fun iter_loop :: "nat \<Rightarrow> jheap \<Rightarrow> json_object_iterator \<Rightarrow> json_object_iterator \<Rightarrow> (string lh_key \<times> nat option) list option" where
  "iter_loop 0 h it itEnd = None"
| "iter_loop (Suc n) h it itEnd =
     (if json_object_iter_equal it itEnd then Some []
      else do {
        k \<leftarrow> json_object_iter_peek_name h it;
        v \<leftarrow> json_object_iter_peek_value h it;
        it \<leftarrow> json_object_iter_next h it;
        rest \<leftarrow> iter_loop n h it itEnd;
        Some ((k, v) # rest) })"

lemma iter_loop_seg:
  assumes "jh_map h a = Some ob" "jo_table ob = Some t" "lh_seg (lh_tab t) p xs None" "set xs \<subseteq> {..<length (lh_tab t)}"
    "length xs < n"
  shows "iter_loop n h \<lparr>it_opaque = map_option (\<lambda>i. (a, lh_resizes t, i)) (first_of xs None)\<rparr> (json_object_iter_end obj)
    = Some (map (\<lambda>i. (e_k (lh_tab t ! i), e_v (lh_tab t ! i))) xs)"
  using assms(3-5)
proof (induction xs arbitrary: p n)
  case Nil
  then obtain n' where "n = Suc n'" by (cases n) auto
  then show ?case
    by (simp add: json_object_iter_equal_def json_object_iter_end_def kObjectEndIterValue_def)
next
  case (Cons x xs)
  then obtain n' where n: "n = Suc n'" "length xs < n'" by (cases n) auto
  have x: "peek (lh_tab t) x = Some (lh_tab t ! x)" using Cons.prems(2) by (simp add: peek_def)
  have nx: "e_next (lh_tab t ! x) = first_of xs None" "lh_seg (lh_tab t) (Some x) xs None" using Cons.prems(1) by auto
  show ?case
    using Cons.IH[OF nx(2) _ n(2)] Cons.prems(2) x assms(1,2) nx(1)
    by (simp add: n(1) json_object_iter_equal_def json_object_iter_end_def kObjectEndIterValue_def
        json_object_iter_peek_name_def json_object_iter_peek_value_def json_object_iter_next_def iter_entry_def)
qed

text \<open>C31: The documented loop from \<^verbatim>\<open>json_object_iter_begin\<close> to \<^verbatim>\<open>json_object_iter_end\<close> visits exactly the pairs of the
  object, in their order, and ends after as many rounds as there are pairs.\<close>

theorem json_object_iter_correct:
  assumes "jh_map h a = Some ob" "jo_type ob = json_type_object" "jo_table ob = Some t" "lh_ok t"
  shows "\<exists>it. json_object_iter_begin h (Some a) = Some it
    \<and> iter_loop (Suc (length (lh_items t))) h it (json_object_iter_end (Some a))
      = Some (map (\<lambda>(k, v). (Key k, v)) (lh_items t))"
proof -
  obtain ord where r: "lh_rep t ord" using assms(4) by (auto simp: lh_ok_def)
  let ?it = "\<lparr>it_opaque = map_option (\<lambda>i. (a, lh_resizes t, i)) (first_of ord None)\<rparr>"
  have "json_object_iter_begin h (Some a) = Some ?it"
    using assms r by (simp add: json_object_iter_begin_def json_object_get_object_def lh_rep_def)
  moreover have "iter_loop (Suc (length ord)) h ?it (json_object_iter_end (Some a))
      = Some (map (\<lambda>i. (e_k (lh_tab t ! i), e_v (lh_tab t ! i))) ord)"
    by (rule iter_loop_seg[OF assms(1,3)]) (use r lh_rep_bounds[OF r] in \<open>auto simp: lh_rep_def\<close>)
  moreover have "(e_k (lh_tab t ! i), e_v (lh_tab t ! i)) = (\<lambda>(k, v). (Key k, v)) (lh_item (lh_tab t ! i))" if "i \<in> set ord" for i
  proof -
    have "lh_keyed (lh_tab t ! i)" using r that by (auto simp: lh_rep_def)
    then show ?thesis by (cases "e_k (lh_tab t ! i)") (auto simp: lh_item_def lh_keyed_def)
  qed
  ultimately show ?thesis by (simp add: lh_rep_items[OF r] cong: map_cong)
qed


theorem json_object_iter_correct_witness:
  "\<exists>h it. json_object_iter_begin h (Some 0) = Some it
    \<and> iter_loop 3 h it (json_object_iter_end (Some 0)) = Some [(Key ''a'', Some 5), (Key ''b'', None)]"
proof -
  obtain t :: "(string, nat) lh_table" where t: "lh_ok t" "lh_items t = []" "lh_size t = 16"
    using lh_new_string_ok[of 16] by force
  obtain t1 :: "(string, nat) lh_table" where t1: "lh_ok t1" "lh_items t1 = [(''a'', Some 5)]" "lh_size t1 = 16 \<or> lh_size t1 = 32"
    using lh_table_insert_ok[of t "\<lambda>_. True" "''a''" "Some 5"] t by (auto simp: lh_room_def INT_MAX_def)
  obtain t2 :: "(string, nat) lh_table" where t2: "lh_ok t2" "lh_items t2 = [(''a'', Some 5), (''b'', None)]"
    using lh_table_insert_ok[of t1 "\<lambda>_. True" "''b''" None] t1 by (auto simp: lh_room_def INT_MAX_def)
  let ?ob = "\<lparr>jo_type = json_type_object, jo_delete = object_delete, jo_to_json = None, jo_ref = 1, jo_pb = None,
    jo_o = Some (C_object t2), jo_user_delete = None, jo_userdata = None\<rparr>"
  let ?h = "\<lparr>jh_map = [0 \<mapsto> ?ob], jh_next = 1, jh_log = []\<rparr>"
  have "\<exists>it. json_object_iter_begin ?h (Some 0) = Some it
    \<and> iter_loop (Suc (length (lh_items t2))) ?h it (json_object_iter_end (Some 0))
      = Some (map (\<lambda>(k, v). (Key k, v)) (lh_items t2))"
    by (rule json_object_iter_correct[of _ _ ?ob]) (simp_all add: jo_table_def t2)
  then show ?thesis by (intro exI[of _ ?h]) (simp add: t2 numeral_eq_Suc del: iter_loop.simps)
qed

end
