(* ===== verification/JsonTokener.thy ===== *)
theory JsonTokener
  imports JsonPrint
begin

unbundle bit_operations_syntax

text \<open>
  The incremental parser of \<^verbatim>\<open>src/Json/json_tokener.c\<close> and \<^verbatim>\<open>json_tokener.h\<close>: a state machine with a stack of
  levels. The input is the memory \<open>mem\<close> at \<^verbatim>\<open>str\<close> with the length \<open>len\<close> given, \<open>-1\<close> for a text that ends with
  its terminator; the code advances \<^verbatim>\<open>str\<close> and \<^verbatim>\<open>char_offset\<close> together, so \<^verbatim>\<open>str[i]\<close> is \<open>mem\<close> at \<open>char_offset + i\<close>.
  A state of the machine (one pass through the \<^verbatim>\<open>switch\<close>) is one definition, which ends with \<open>Redo\<close>
  (\<^verbatim>\<open>goto redo_char\<close>), \<open>Next\<close> (\<^verbatim>\<open>break\<close>) or \<open>Out\<close> (\<^verbatim>\<open>goto out\<close>); \<open>None\<close> is a fault, as in \<open>JsonObject\<close>. The field
  \<^verbatim>\<open>obj\<close> of the levels and \<^verbatim>\<open>str\<close> of the tokener are never used by the code; \<^verbatim>\<open>setlocale\<close> is not modelled.
\<close>

section \<open>Errors and states\<close>

datatype json_tokener_error =
    json_tokener_success | json_tokener_continue | json_tokener_error_depth | json_tokener_error_parse_eof
  | json_tokener_error_parse_unexpected | json_tokener_error_parse_null | json_tokener_error_parse_boolean
  | json_tokener_error_parse_number | json_tokener_error_parse_array | json_tokener_error_parse_object_key_name
  | json_tokener_error_parse_object_key_sep | json_tokener_error_parse_object_value_sep
  | json_tokener_error_parse_string | json_tokener_error_parse_comment

definition json_tokener_error_values :: "json_tokener_error list" where
  "json_tokener_error_values =
     [json_tokener_success, json_tokener_continue, json_tokener_error_depth, json_tokener_error_parse_eof,
      json_tokener_error_parse_unexpected, json_tokener_error_parse_null, json_tokener_error_parse_boolean,
      json_tokener_error_parse_number, json_tokener_error_parse_array, json_tokener_error_parse_object_key_name,
      json_tokener_error_parse_object_key_sep, json_tokener_error_parse_object_value_sep,
      json_tokener_error_parse_string, json_tokener_error_parse_comment]"

definition json_tokener_errors :: "string list" where
  "json_tokener_errors =
     [''success'', ''continue'', ''nesting too deep'', ''unexpected end of data'', ''unexpected character'',
      ''null expected'', ''boolean expected'', ''number expected'',
      ''array value separator '' @ [CHR 0x27, CHR 0x2C, CHR 0x27] @ '' expected'',
      ''quoted object property name expected'',
      ''object property name separator '' @ [CHR 0x27, CHR 0x3A, CHR 0x27] @ '' expected'',
      ''object value separator '' @ [CHR 0x27, CHR 0x2C, CHR 0x27] @ '' expected'',
      ''invalid string sequence'', ''expected comment'']"

text \<open>\<^verbatim>\<open>sizeof(json_tokener_errors)\<close> counts the bytes of the pointers, 8 each.\<close>

definition json_tokener_error_desc :: "int \<Rightarrow> string option" where
  "json_tokener_error_desc jerr =
     (if jerr < 0 \<or> jerr > int (8 * length json_tokener_errors)
      then Some ''Unknown error, invalid json_tokener_error value passed to json_tokener_error_desc()''
      else ipeek json_tokener_errors jerr)"

datatype json_tokener_state =
    json_tokener_state_eatws | json_tokener_state_start | json_tokener_state_finish | json_tokener_state_null
  | json_tokener_state_comment_start | json_tokener_state_comment | json_tokener_state_comment_eol
  | json_tokener_state_comment_end | json_tokener_state_string | json_tokener_state_string_escape
  | json_tokener_state_escape_unicode | json_tokener_state_boolean | json_tokener_state_number
  | json_tokener_state_array | json_tokener_state_array_add | json_tokener_state_array_sep
  | json_tokener_state_object_field_start | json_tokener_state_object_field | json_tokener_state_object_field_end
  | json_tokener_state_object_value | json_tokener_state_object_value_add | json_tokener_state_object_sep
  | json_tokener_state_array_after_sep | json_tokener_state_object_field_start_after_sep

definition JSON_TOKENER_DEFAULT_DEPTH :: int where "JSON_TOKENER_DEFAULT_DEPTH = 32"
definition JSON_TOKENER_STRICT :: u32 where "JSON_TOKENER_STRICT = 1"

definition json_null_str :: string where "json_null_str = ''null''"
definition json_true_str :: string where "json_true_str = ''true''"
definition json_false_str :: string where "json_false_str = ''false''"

section \<open>Tokeners\<close>

record json_tokener_srec =
  sr_state :: json_tokener_state
  sr_saved_state :: json_tokener_state
  sr_current :: "nat option"
  sr_obj_field_name :: "string option"

record json_tokener =
  tk_pb :: "printbuf option"
  tk_max_depth :: int
  tk_depth :: int
  tk_is_double :: bool
  tk_st_pos :: int
  tk_char_offset :: int
  tk_err :: json_tokener_error
  tk_ucs_char :: u32
  tk_quote_char :: char
  tk_stack :: "json_tokener_srec list"
  tk_flags :: u32

definition json_tokener_get_error :: "json_tokener \<Rightarrow> json_tokener_error" where
  "json_tokener_get_error tok = tk_err tok"

definition json_tokener_set_flags :: "json_tokener \<Rightarrow> u32 \<Rightarrow> json_tokener" where
  "json_tokener_set_flags tok flags = tok\<lparr>tk_flags := flags\<rparr>"

definition sr_reset :: json_tokener_srec where
  "sr_reset = \<lparr>sr_state = json_tokener_state_eatws, sr_saved_state = json_tokener_state_start,
               sr_current = None, sr_obj_field_name = None\<rparr>"

definition json_tokener_reset_level :: "json_tokener \<Rightarrow> jheap \<Rightarrow> int \<Rightarrow> (json_tokener \<times> jheap) option" where
  "json_tokener_reset_level tok h depth = do {
     sr \<leftarrow> ipeek (tk_stack tok) depth;
     (r, h) \<leftarrow> json_object_put h (sr_current sr);
     st \<leftarrow> ipoke (tk_stack tok) depth sr_reset;
     Some (tok\<lparr>tk_stack := st\<rparr>, h) }"

text \<open>The loop from level \<open>n - 1\<close> down to level 0.\<close>

fun reset_levels :: "nat \<Rightarrow> json_tokener \<Rightarrow> jheap \<Rightarrow> (json_tokener \<times> jheap) option" where
  "reset_levels 0 tok h = Some (tok, h)"
| "reset_levels (Suc i) tok h = do {
     (tok, h) \<leftarrow> json_tokener_reset_level tok h (int i);
     reset_levels i tok h }"

definition json_tokener_reset :: "json_tokener \<Rightarrow> jheap \<Rightarrow> (json_tokener \<times> jheap) option" where
  "json_tokener_reset tok h = do {
     (tok, h) \<leftarrow> reset_levels (nat (tk_depth tok + 1)) tok h;
     Some (tok\<lparr>tk_depth := 0, tk_err := json_tokener_success\<rparr>, h) }"

text \<open>\<^verbatim>\<open>calloc\<close> refuses a negative number of levels, which is converted to a huge unsigned one; the memory
  it returns is zero, the first value of the enumerations. A level has 32 bytes.\<close>

definition json_tokener_new_ex :: "allocator \<Rightarrow> jheap \<Rightarrow> int \<Rightarrow> (json_tokener option \<times> jheap) option" where
  "json_tokener_new_ex A h depth =
     (if \<not> A 1 \<or> depth < 0 \<or> \<not> A (depth * 32) then Some (None, h)
      else do {
        let tok = \<lparr>tk_pb = printbuf_new A, tk_max_depth = depth, tk_depth = 0, tk_is_double = False,
                   tk_st_pos = 0, tk_char_offset = 0, tk_err = json_tokener_success, tk_ucs_char = 0,
                   tk_quote_char = NUL,
                   tk_stack = replicate (nat depth)
                     \<lparr>sr_state = json_tokener_state_eatws, sr_saved_state = json_tokener_state_eatws,
                      sr_current = None, sr_obj_field_name = None\<rparr>,
                   tk_flags = 0\<rparr>;
        (tok, h) \<leftarrow> json_tokener_reset tok h;
        Some (Some tok, h) })"

definition json_tokener_new :: "allocator \<Rightarrow> jheap \<Rightarrow> (json_tokener option \<times> jheap) option" where
  "json_tokener_new A h = json_tokener_new_ex A h JSON_TOKENER_DEFAULT_DEPTH"

text \<open>\<^verbatim>\<open>json_tokener_free\<close>: the tokener is gone afterwards, the heap remains.\<close>

definition json_tokener_free :: "json_tokener \<Rightarrow> jheap \<Rightarrow> jheap option" where
  "json_tokener_free tok h = do { (tok, h) \<leftarrow> json_tokener_reset tok h; Some h }"

section \<open>The input\<close>

text \<open>The local state of \<^verbatim>\<open>json_tokener_parse_ex\<close>: the tokener, the heap, the character \<^verbatim>\<open>c\<close> and \<^verbatim>\<open>obj\<close>.\<close>

record pstate =
  ps_tok :: json_tokener
  ps_heap :: jheap
  ps_c :: char
  ps_obj :: "nat option"

datatype outcome = Redo | Next | Out

definition tok_upd :: "(json_tokener \<Rightarrow> json_tokener) \<Rightarrow> pstate \<Rightarrow> pstate" where
  "tok_upd f ps = ps\<lparr>ps_tok := f (ps_tok ps)\<rparr>"

text \<open>The current level, \<^verbatim>\<open>tok->stack[tok->depth]\<close>, and an assignment to some of its fields.\<close>

definition lvl :: "pstate \<Rightarrow> json_tokener_srec option" where
  "lvl ps = ipeek (tk_stack (ps_tok ps)) (tk_depth (ps_tok ps))"

definition lvl_upd :: "(json_tokener_srec \<Rightarrow> json_tokener_srec) \<Rightarrow> pstate \<Rightarrow> pstate option" where
  "lvl_upd f ps = do {
     sr \<leftarrow> lvl ps;
     st \<leftarrow> ipoke (tk_stack (ps_tok ps)) (tk_depth (ps_tok ps)) (f sr);
     Some (tok_upd (\<lambda>t. t\<lparr>tk_stack := st\<rparr>) ps) }"

definition set_state :: "json_tokener_state \<Rightarrow> json_tokener_srec \<Rightarrow> json_tokener_srec" where
  "set_state s sr = sr\<lparr>sr_state := s\<rparr>"

definition set_states :: "json_tokener_state \<Rightarrow> json_tokener_state \<Rightarrow> json_tokener_srec \<Rightarrow> json_tokener_srec" where
  "set_states sv s sr = sr\<lparr>sr_saved_state := sv, sr_state := s\<rparr>"

text \<open>Leaving the switch: \<open>go\<close> after an assignment to the level, \<open>fail\<close> with an error.\<close>

definition go :: "outcome \<Rightarrow> (json_tokener_srec \<Rightarrow> json_tokener_srec) \<Rightarrow> pstate \<Rightarrow> (outcome \<times> pstate) option" where
  "go out f ps = map_option (Pair out) (lvl_upd f ps)"

definition fail :: "json_tokener_error \<Rightarrow> pstate \<Rightarrow> (outcome \<times> pstate) option" where
  "fail e ps = Some (Out, tok_upd (\<lambda>t. t\<lparr>tk_err := e\<rparr>) ps)"

definition append_pb :: "allocator \<Rightarrow> string \<Rightarrow> pstate \<Rightarrow> pstate option" where
  "append_pb A s ps = do {
     pb \<leftarrow> tk_pb (ps_tok ps);
     pb \<leftarrow> printbuf_memappend_fast A pb s;
     Some (tok_upd (\<lambda>t. t\<lparr>tk_pb := Some pb\<rparr>) ps) }"

definition reset_pb :: "pstate \<Rightarrow> pstate option" where
  "reset_pb ps = do {
     pb \<leftarrow> tk_pb (ps_tok ps);
     pb \<leftarrow> printbuf_reset pb;
     Some (tok_upd (\<lambda>t. t\<lparr>tk_pb := Some pb\<rparr>) ps) }"

text \<open>\<^verbatim>\<open>PEEK_CHAR\<close>.\<close>

definition peek_char :: "string \<Rightarrow> int \<Rightarrow> pstate \<Rightarrow> (bool \<times> pstate) option" where
  "peek_char mem len ps =
     (if tk_char_offset (ps_tok ps) = len
      then do {
        done \<leftarrow> (if tk_depth (ps_tok ps) = 0
               then map_option (\<lambda>sr. sr_state sr = json_tokener_state_eatws
                                   \<and> sr_saved_state sr = json_tokener_state_finish) (lvl ps)
               else Some False);
        Some (False, tok_upd (\<lambda>t. t\<lparr>tk_err := if done then json_tokener_success else json_tokener_continue\<rparr>) ps) }
      else do { c \<leftarrow> ipeek mem (tk_char_offset (ps_tok ps)); Some (True, ps\<lparr>ps_c := c\<rparr>) })"

text \<open>\<^verbatim>\<open>ADVANCE_CHAR\<close>, whose value is \<^verbatim>\<open>c\<close>, and the condition \<^verbatim>\<open>ADVANCE_CHAR(str, tok) && PEEK_CHAR(c, tok)\<close>.\<close>

definition advance_char :: "pstate \<Rightarrow> pstate option" where
  "advance_char ps = do {
     off \<leftarrow> c_int (tk_char_offset (ps_tok ps) + 1);
     Some (tok_upd (\<lambda>t. t\<lparr>tk_char_offset := off\<rparr>) ps) }"

definition next_char :: "string \<Rightarrow> int \<Rightarrow> pstate \<Rightarrow> (bool \<times> pstate) option" where
  "next_char mem len ps = do {
     ps' \<leftarrow> advance_char ps;
     if ps_c ps = NUL then Some (False, ps') else peek_char mem len ps' }"

text \<open>The tight loops \<^verbatim>\<open>while (P(c)) { body; if (!ADVANCE_CHAR || !PEEK_CHAR) ... }\<close>; the result says whether
  the loop ended by its condition. Every round reads a character, which bounds the rounds.\<close>

fun char_loop ::
  "(char \<Rightarrow> bool) \<Rightarrow> (pstate \<Rightarrow> pstate) \<Rightarrow> nat \<Rightarrow> string \<Rightarrow> int \<Rightarrow> pstate \<Rightarrow> (bool \<times> pstate) option" where
  "char_loop P body 0 mem len ps = None"
| "char_loop P body (Suc n) mem len ps =
     (if P (ps_c ps)
      then do {
        (ok, ps) \<leftarrow> next_char mem len (body ps);
        if ok then char_loop P body n mem len ps else Some (False, ps) }
      else Some (True, ps))"

definition while_char ::
  "(char \<Rightarrow> bool) \<Rightarrow> (pstate \<Rightarrow> pstate) \<Rightarrow> string \<Rightarrow> int \<Rightarrow> pstate \<Rightarrow> (bool \<times> pstate) option" where
  "while_char P body mem len ps = char_loop P body (Suc (Suc (length mem))) mem len ps"

text \<open>The text from \<^verbatim>\<open>case_start\<close> up to \<^verbatim>\<open>str\<close>.\<close>

definition since :: "string \<Rightarrow> int \<Rightarrow> pstate \<Rightarrow> string" where
  "since mem start ps = take (nat (tk_char_offset (ps_tok ps) - start)) (drop (nat start) mem)"

text \<open>The loop common to comments, strings and names: \<open>k\<close> goes on with the text it passed, and at the end of the
  input the text is appended before \<^verbatim>\<open>goto out\<close>.\<close>

definition gather ::
  "allocator \<Rightarrow> (char \<Rightarrow> bool) \<Rightarrow> string \<Rightarrow> int \<Rightarrow> pstate \<Rightarrow> (pstate \<Rightarrow> string \<Rightarrow> (outcome \<times> pstate) option)
   \<Rightarrow> (outcome \<times> pstate) option" where
  "gather A P mem len ps k = do {
     let start = tk_char_offset (ps_tok ps);
     (ok, ps) \<leftarrow> while_char P id mem len ps;
     if ok then k ps (since mem start ps)
     else do { ps \<leftarrow> append_pb A (since mem start ps) ps; Some (Out, ps) } }"

section \<open>The states\<close>

definition tk_eatws :: "allocator \<Rightarrow> string \<Rightarrow> int \<Rightarrow> pstate \<Rightarrow> (outcome \<times> pstate) option" where
  "tk_eatws A mem len ps = do {
     (ok, ps) \<leftarrow> while_char c_isspace id mem len ps;
     if \<not> ok then Some (Out, ps)
     else if ps_c ps = CHR ''/''
     then do { ps \<leftarrow> reset_pb ps; ps \<leftarrow> append_pb A [ps_c ps] ps; go Next (set_state json_tokener_state_comment_start) ps }
     else go Redo (\<lambda>sr. sr\<lparr>sr_state := sr_saved_state sr\<rparr>) ps }"

text \<open>Starting a container with a constructor.\<close>

definition tk_open ::
  "(jheap \<Rightarrow> (nat option \<times> jheap) option) \<Rightarrow> json_tokener_state \<Rightarrow> pstate \<Rightarrow> (outcome \<times> pstate) option" where
  "tk_open new sv ps = do {
     (a, h) \<leftarrow> new (ps_heap ps);
     go Next (\<lambda>sr. (set_states sv json_tokener_state_eatws sr)\<lparr>sr_current := a\<rparr>) (ps\<lparr>ps_heap := h\<rparr>) }"

definition tk_start :: "allocator \<Rightarrow> pstate \<Rightarrow> (outcome \<times> pstate) option" where
  "tk_start A ps =
     (let c = ps_c ps
      in if c = CHR ''{'' then tk_open (json_object_new_object A) json_tokener_state_object_field_start ps
         else if c = CHR ''['' then tk_open (json_object_new_array A) json_tokener_state_array ps
         else if c = CHR ''N'' \<or> c = CHR ''n'' then do {
           ps \<leftarrow> lvl_upd (set_state json_tokener_state_null) ps;
           ps \<leftarrow> reset_pb ps;
           Some (Redo, tok_upd (\<lambda>t. t\<lparr>tk_st_pos := 0\<rparr>) ps) }
         else if c = CHR 0x22 \<or> c = CHR 0x27 then do {
           ps \<leftarrow> lvl_upd (set_state json_tokener_state_string) ps;
           ps \<leftarrow> reset_pb ps;
           Some (Next, tok_upd (\<lambda>t. t\<lparr>tk_quote_char := c\<rparr>) ps) }
         else if c = CHR ''T'' \<or> c = CHR ''t'' \<or> c = CHR ''F'' \<or> c = CHR ''f'' then do {
           ps \<leftarrow> lvl_upd (set_state json_tokener_state_boolean) ps;
           ps \<leftarrow> reset_pb ps;
           Some (Redo, tok_upd (\<lambda>t. t\<lparr>tk_st_pos := 0\<rparr>) ps) }
         else if c_isdigit c \<or> c = CHR ''-'' then do {
           ps \<leftarrow> lvl_upd (set_state json_tokener_state_number) ps;
           ps \<leftarrow> reset_pb ps;
           Some (Redo, tok_upd (\<lambda>t. t\<lparr>tk_is_double := False\<rparr>) ps) }
         else fail json_tokener_error_parse_unexpected ps)"

definition tk_finish :: "pstate \<Rightarrow> (outcome \<times> pstate) option" where
  "tk_finish ps =
     (if tk_depth (ps_tok ps) = 0 then Some (Out, ps)
      else do {
        sr \<leftarrow> lvl ps;
        (ob, h) \<leftarrow> json_object_get (ps_heap ps) (sr_current sr);
        (tok, h) \<leftarrow> json_tokener_reset_level (ps_tok ps) h (tk_depth (ps_tok ps));
        Some (Redo, ps\<lparr>ps_obj := ob, ps_heap := h, ps_tok := tok\<lparr>tk_depth := tk_depth tok - 1\<rparr>\<rparr>) })"

text \<open>\<^verbatim>\<open>strncasecmp\<close> of a literal, with its terminator, and the buffer: whether the first \<open>n\<close> characters agree.\<close>

fun strncasecmp_eq :: "nat \<Rightarrow> string \<Rightarrow> char option list \<Rightarrow> bool option" where
  "strncasecmp_eq 0 a b = Some True"
| "strncasecmp_eq (Suc n) (x # a) (Some y # b) =
     (if c_tolower x \<noteq> c_tolower y then Some False
      else if x = NUL then Some True else strncasecmp_eq n a b)"
| "strncasecmp_eq (Suc n) a b = None"

definition word_matches :: "string \<Rightarrow> pstate \<Rightarrow> bool option" where
  "word_matches lit ps = do {
     pb \<leftarrow> tk_pb (ps_tok ps);
     strncasecmp_eq (nat (min (tk_st_pos (ps_tok ps) + 1) (int (length lit)))) (lit @ [NUL]) (pb_buf pb) }"

definition st_pos_inc :: "pstate \<Rightarrow> (outcome \<times> pstate) option" where
  "st_pos_inc ps = do {
     n \<leftarrow> c_int (tk_st_pos (ps_tok ps) + 1);
     Some (Next, tok_upd (\<lambda>t. t\<lparr>tk_st_pos := n\<rparr>) ps) }"

text \<open>A value is complete: it is the current object, and \<^verbatim>\<open>eatws\<close> leads to \<^verbatim>\<open>finish\<close>.\<close>

definition tk_value :: "outcome \<Rightarrow> nat option \<Rightarrow> pstate \<Rightarrow> (outcome \<times> pstate) option" where
  "tk_value out a ps =
     go out (\<lambda>sr. (set_states json_tokener_state_finish json_tokener_state_eatws sr)\<lparr>sr_current := a\<rparr>) ps"

definition tk_null :: "allocator \<Rightarrow> pstate \<Rightarrow> (outcome \<times> pstate) option" where
  "tk_null A ps = do {
     ps \<leftarrow> append_pb A [ps_c ps] ps;
     same \<leftarrow> word_matches json_null_str ps;
     if \<not> same then fail json_tokener_error_parse_null ps
     else if tk_st_pos (ps_tok ps) = int (length json_null_str) then tk_value Redo None ps
     else st_pos_inc ps }"

definition tk_boolean :: "allocator \<Rightarrow> pstate \<Rightarrow> (outcome \<times> pstate) option" where
  "tk_boolean A ps = do {
     ps \<leftarrow> append_pb A [ps_c ps] ps;
     is_true \<leftarrow> word_matches json_true_str ps;
     if is_true
     then (if tk_st_pos (ps_tok ps) = int (length json_true_str)
           then do { (a, h) \<leftarrow> json_object_new_boolean A (ps_heap ps) 1; tk_value Redo a (ps\<lparr>ps_heap := h\<rparr>) }
           else st_pos_inc ps)
     else do {
       is_false \<leftarrow> word_matches json_false_str ps;
       if \<not> is_false then fail json_tokener_error_parse_boolean ps
       else if tk_st_pos (ps_tok ps) = int (length json_false_str)
       then do { (a, h) \<leftarrow> json_object_new_boolean A (ps_heap ps) 0; tk_value Redo a (ps\<lparr>ps_heap := h\<rparr>) }
       else st_pos_inc ps } }"

definition tk_comment_start :: "allocator \<Rightarrow> pstate \<Rightarrow> (outcome \<times> pstate) option" where
  "tk_comment_start A ps =
     (if ps_c ps = CHR ''*'' \<or> ps_c ps = CHR ''/''
      then do {
        ps \<leftarrow> lvl_upd (set_state (if ps_c ps = CHR ''*'' then json_tokener_state_comment
                                else json_tokener_state_comment_eol)) ps;
        ps \<leftarrow> append_pb A [ps_c ps] ps;
        Some (Next, ps) }
      else fail json_tokener_error_parse_comment ps)"

definition tk_comment :: "allocator \<Rightarrow> string \<Rightarrow> int \<Rightarrow> pstate \<Rightarrow> (outcome \<times> pstate) option" where
  "tk_comment A mem len ps =
     gather A (\<lambda>c. c \<noteq> CHR ''*'') mem len ps (\<lambda>ps text. do {
       ps \<leftarrow> append_pb A (text @ [ps_c ps]) ps;
       go Next (set_state json_tokener_state_comment_end) ps })"

definition tk_comment_eol :: "allocator \<Rightarrow> string \<Rightarrow> int \<Rightarrow> pstate \<Rightarrow> (outcome \<times> pstate) option" where
  "tk_comment_eol A mem len ps =
     gather A (\<lambda>c. c \<noteq> CHR 0x0A) mem len ps (\<lambda>ps text. do {
       ps \<leftarrow> append_pb A text ps;
       go Next (set_state json_tokener_state_eatws) ps })"

definition tk_comment_end :: "allocator \<Rightarrow> pstate \<Rightarrow> (outcome \<times> pstate) option" where
  "tk_comment_end A ps = do {
     ps \<leftarrow> append_pb A [ps_c ps] ps;
     go Next (set_state (if ps_c ps = CHR ''/'' then json_tokener_state_eatws else json_tokener_state_comment)) ps }"

text \<open>The plain characters of a string or a name, up to the quote, after which \<open>k\<close> goes on, or a backslash.\<close>

definition tk_quoted ::
  "allocator \<Rightarrow> string \<Rightarrow> int \<Rightarrow> json_tokener_state \<Rightarrow> pstate \<Rightarrow> (pstate \<Rightarrow> (outcome \<times> pstate) option)
   \<Rightarrow> (outcome \<times> pstate) option" where
  "tk_quoted A mem len back ps k =
     (let quote = tk_quote_char (ps_tok ps)
      in gather A (\<lambda>c. c \<noteq> quote \<and> c \<noteq> CHR 0x5C) mem len ps (\<lambda>ps text. do {
           ps \<leftarrow> append_pb A text ps;
           if ps_c ps = quote then k ps else go Next (set_states back json_tokener_state_string_escape) ps }))"

definition tk_string :: "allocator \<Rightarrow> string \<Rightarrow> int \<Rightarrow> pstate \<Rightarrow> (outcome \<times> pstate) option" where
  "tk_string A mem len ps =
     tk_quoted A mem len json_tokener_state_string ps (\<lambda>ps. do {
       pb \<leftarrow> tk_pb (ps_tok ps);
       s \<leftarrow> those (take (nat (pb_bpos pb)) (pb_buf pb));
       (a, h) \<leftarrow> json_object_new_string_len A (ps_heap ps) s (pb_bpos pb);
       tk_value Next a (ps\<lparr>ps_heap := h\<rparr>) })"

definition tk_string_escape :: "allocator \<Rightarrow> pstate \<Rightarrow> (outcome \<times> pstate) option" where
  "tk_string_escape A ps =
     (let c = ps_c ps; back = (\<lambda>ps. go Next (\<lambda>sr. sr\<lparr>sr_state := sr_saved_state sr\<rparr>) ps)
      in if c = CHR 0x22 \<or> c = CHR 0x5C \<or> c = CHR ''/'' then do { ps \<leftarrow> append_pb A [c] ps; back ps }
         else if c = CHR ''b'' then do { ps \<leftarrow> append_pb A [CHR 0x08] ps; back ps }
         else if c = CHR ''n'' then do { ps \<leftarrow> append_pb A [CHR 0x0A] ps; back ps }
         else if c = CHR ''r'' then do { ps \<leftarrow> append_pb A [CHR 0x0D] ps; back ps }
         else if c = CHR ''t'' then do { ps \<leftarrow> append_pb A [CHR 0x09] ps; back ps }
         else if c = CHR ''f'' then do { ps \<leftarrow> append_pb A [CHR 0x0C] ps; back ps }
         else if c = CHR ''u'' then
           go Next (set_state json_tokener_state_escape_unicode)
             (tok_upd (\<lambda>t. t\<lparr>tk_ucs_char := 0, tk_st_pos := 0\<rparr>) ps)
         else fail json_tokener_error_parse_string ps)"

definition IS_HIGH_SURROGATE :: "u32 \<Rightarrow> bool" where "IS_HIGH_SURROGATE uc \<longleftrightarrow> uc AND 0xFC00 = 0xD800"
definition IS_LOW_SURROGATE :: "u32 \<Rightarrow> bool" where "IS_LOW_SURROGATE uc \<longleftrightarrow> uc AND 0xFC00 = 0xDC00"
definition DECODE_SURROGATE_PAIR :: "u32 \<Rightarrow> u32 \<Rightarrow> u32" where
  "DECODE_SURROGATE_PAIR hi lo = push_bit 10 (hi AND 0x3FF) + (lo AND 0x3FF) + 0x10000"
definition utf8_replacement_char :: string where
  "utf8_replacement_char = [CHR 0xEF, CHR 0xBF, CHR 0xBD]"

text \<open>\<^verbatim>\<open>strchr(json_hex_chars, c)\<close> also finds the terminator of the string.\<close>

definition is_hex_char :: "char \<Rightarrow> bool" where
  "is_hex_char c \<longleftrightarrow> c \<in> set json_hex_chars \<or> c = NUL"

definition hexdigit :: "char \<Rightarrow> u32" where
  "hexdigit c = (if cc c \<le> 57 then word_of_int (int (cc c) - 48) else of_nat (cc c mod 8 + 9))"

definition byte_chr :: "u32 \<Rightarrow> char" where
  "byte_chr w = char_of (unat w)"

text \<open>The bytes appended for a character; a high surrogate is treated before.\<close>

definition unescaped_utf :: "u32 \<Rightarrow> string" where
  "unescaped_utf uc =
     (if uc < 0x80 then [byte_chr uc]
      else if uc < 0x800 then [byte_chr (0xc0 OR drop_bit 6 uc), byte_chr (0x80 OR (uc AND 0x3f))]
      else if IS_LOW_SURROGATE uc then utf8_replacement_char
      else if uc < 0x10000 then
        [byte_chr (0xe0 OR drop_bit 12 uc), byte_chr (0x80 OR (drop_bit 6 uc AND 0x3f)),
         byte_chr (0x80 OR (uc AND 0x3f))]
      else if uc < 0x110000 then
        [byte_chr (0xf0 OR (drop_bit 18 uc AND 0x07)), byte_chr (0x80 OR (drop_bit 12 uc AND 0x3f)),
         byte_chr (0x80 OR (drop_bit 6 uc AND 0x3f)), byte_chr (0x80 OR (uc AND 0x3f))]
      else utf8_replacement_char)"

text \<open>Whether the next two characters are \<^verbatim>\<open>\u\<close>, with the reads of the code.\<close>

definition u_follows :: "string \<Rightarrow> int \<Rightarrow> pstate \<Rightarrow> bool option" where
  "u_follows mem len ps =
     (let off = tk_char_offset (ps_tok ps)
      in if off + 1 = len \<or> off + 2 = len then Some False
         else do {
           c1 \<leftarrow> ipeek mem (off + 1);
           if c1 \<noteq> CHR 0x5C then Some False
           else do { c2 \<leftarrow> ipeek mem (off + 2); Some (c2 = CHR ''u'') } })"

text \<open>Adding the digit \<^verbatim>\<open>c\<close>; the shift count must not be negative.\<close>

definition uni_digit :: "pstate \<Rightarrow> pstate option" where
  "uni_digit ps =
     (let tok = ps_tok ps; k = 3 - tk_st_pos tok
      in if k < 0 then None
         else Some (tok_upd (\<lambda>t. t\<lparr>tk_ucs_char := tk_ucs_char tok + push_bit (nat (k * 4)) (hexdigit (ps_c ps)),
                                  tk_st_pos := tk_st_pos tok + 1\<rparr>) ps))"

text \<open>The end of a sequence after a pending high surrogate \<open>hi\<close> (0 for none).\<close>

definition uni_pair :: "allocator \<Rightarrow> u32 \<Rightarrow> pstate \<Rightarrow> pstate option" where
  "uni_pair A hi ps =
     (if hi = 0 then Some ps
      else if IS_LOW_SURROGATE (tk_ucs_char (ps_tok ps))
      then Some (tok_upd (\<lambda>t. t\<lparr>tk_ucs_char := DECODE_SURROGATE_PAIR hi (tk_ucs_char t)\<rparr>) ps)
      else append_pb A utf8_replacement_char ps)"

text \<open>Passing the \<^verbatim>\<open>\u\<close> of the second sequence.\<close>

definition uni_skip :: "allocator \<Rightarrow> pstate \<Rightarrow> pstate option" where
  "uni_skip A ps = do {
     ps \<leftarrow> advance_char ps;
     if ps_c ps = NUL then append_pb A utf8_replacement_char ps else advance_char ps }"

definition uni_done :: "pstate \<Rightarrow> (outcome \<times> pstate) option" where
  "uni_done ps = go Next (\<lambda>sr. sr\<lparr>sr_state := sr_saved_state sr\<rparr>) ps"

fun uni_loop :: "allocator \<Rightarrow> nat \<Rightarrow> string \<Rightarrow> int \<Rightarrow> u32 \<Rightarrow> pstate \<Rightarrow> (outcome \<times> pstate) option" where
  "uni_loop A 0 mem len hi ps = None"
| "uni_loop A (Suc n) mem len hi ps =
     (if \<not> is_hex_char (ps_c ps) then fail json_tokener_error_parse_string ps
      else do {
        ps \<leftarrow> uni_digit ps;
        if tk_st_pos (ps_tok ps) = 4
        then do {
          ps \<leftarrow> uni_pair A hi ps;
          let uc = tk_ucs_char (ps_tok ps);
          if 0x800 \<le> uc \<and> IS_HIGH_SURROGATE uc
          then do {
            more \<leftarrow> u_follows mem len ps;
            if more
            then do {
              ps \<leftarrow> uni_skip A ps;
              (ok, ps) \<leftarrow> next_char mem len ps;
              if \<not> ok then do { ps \<leftarrow> append_pb A utf8_replacement_char ps; Some (Out, ps) }
              else uni_loop A n mem len uc (tok_upd (\<lambda>t. t\<lparr>tk_ucs_char := 0, tk_st_pos := 0\<rparr>) ps) }
            else do { ps \<leftarrow> append_pb A utf8_replacement_char ps; uni_done ps } }
          else do { ps \<leftarrow> append_pb A (unescaped_utf uc) ps; uni_done ps } }
        else do {
          (ok, ps) \<leftarrow> next_char mem len ps;
          if ok then uni_loop A n mem len hi ps
          else do {
            ps \<leftarrow> (if hi \<noteq> 0 then append_pb A utf8_replacement_char ps else Some ps);
            Some (Out, ps) } } })"

definition tk_escape_unicode :: "allocator \<Rightarrow> string \<Rightarrow> int \<Rightarrow> pstate \<Rightarrow> (outcome \<times> pstate) option" where
  "tk_escape_unicode A mem len ps = uni_loop A (Suc (Suc (length mem))) mem len 0 ps"

definition tk_number_text :: "allocator \<Rightarrow> string \<Rightarrow> int \<Rightarrow> pstate \<Rightarrow> (bool \<times> pstate) option" where
  "tk_number_text A mem len ps = do {
     let start = tk_char_offset (ps_tok ps);
     (ok, ps) \<leftarrow> while_char (\<lambda>c. c \<noteq> NUL \<and> c \<in> set json_number_chars)
       (\<lambda>ps. if ps_c ps = CHR ''.'' \<or> ps_c ps = CHR ''e'' \<or> ps_c ps = CHR ''E''
             then tok_upd (\<lambda>t. t\<lparr>tk_is_double := True\<rparr>) ps else ps) mem len ps;
     let text = since mem start ps;
     ps \<leftarrow> (if \<not> ok \<or> text \<noteq> [] then append_pb A text ps else Some ps);
     Some (ok, ps) }"

definition tk_number_value :: "allocator \<Rightarrow> pstate \<Rightarrow> (outcome \<times> pstate) option" where
  "tk_number_value A ps = do {
     pb \<leftarrow> tk_pb (ps_tok ps);
     s \<leftarrow> c_string (pb_buf pb);
     if \<not> tk_is_double (ps_tok ps)
     then (case json_parse_int64 scan_saturating s of
             Some num64 \<Rightarrow> do { (a, h) \<leftarrow> json_object_new_int64 A (ps_heap ps) num64; tk_value Redo a (ps\<lparr>ps_heap := h\<rparr>) }
           | None \<Rightarrow> fail json_tokener_error_parse_number ps)
     else (case json_parse_double s of
             Some numd \<Rightarrow> do { (a, h) \<leftarrow> json_object_new_double A (ps_heap ps) numd; tk_value Redo a (ps\<lparr>ps_heap := h\<rparr>) }
           | None \<Rightarrow> fail json_tokener_error_parse_number ps) }"

definition tk_number :: "allocator \<Rightarrow> string \<Rightarrow> int \<Rightarrow> pstate \<Rightarrow> (outcome \<times> pstate) option" where
  "tk_number A mem len ps = do {
     (ok, ps) \<leftarrow> tk_number_text A mem len ps;
     if ok then tk_number_value A ps else Some (Out, ps) }"

text \<open>Starting a new level, whose value the state \<open>back\<close> of this level takes.\<close>

definition tk_push :: "json_tokener_state \<Rightarrow> pstate \<Rightarrow> (outcome \<times> pstate) option" where
  "tk_push back ps =
     (if tk_depth (ps_tok ps) \<ge> tk_max_depth (ps_tok ps) - 1 then fail json_tokener_error_depth ps
      else do {
        ps \<leftarrow> lvl_upd (set_state back) ps;
        let d = tk_depth (ps_tok ps) + 1;
        (tok, h) \<leftarrow> json_tokener_reset_level (ps_tok ps\<lparr>tk_depth := d\<rparr>) (ps_heap ps) d;
        Some (Redo, ps\<lparr>ps_tok := tok, ps_heap := h\<rparr>) })"

text \<open>The end of a container, refused after a comma in strict mode.\<close>

definition tk_close :: "bool \<Rightarrow> pstate \<Rightarrow> (outcome \<times> pstate) option" where
  "tk_close after_sep ps =
     (if after_sep \<and> tk_flags (ps_tok ps) AND JSON_TOKENER_STRICT \<noteq> 0
      then fail json_tokener_error_parse_unexpected ps
      else go Next (set_states json_tokener_state_finish json_tokener_state_eatws) ps)"

definition tk_array :: "bool \<Rightarrow> pstate \<Rightarrow> (outcome \<times> pstate) option" where
  "tk_array after_sep ps =
     (if ps_c ps = CHR '']'' then tk_close after_sep ps else tk_push json_tokener_state_array_add ps)"

definition tk_array_add :: "allocator \<Rightarrow> pstate \<Rightarrow> (outcome \<times> pstate) option" where
  "tk_array_add A ps = do {
     sr \<leftarrow> lvl ps;
     a \<leftarrow> sr_current sr;
     (r, h) \<leftarrow> json_object_array_add A (ps_heap ps) a (ps_obj ps);
     go Redo (set_states json_tokener_state_array_sep json_tokener_state_eatws) (ps\<lparr>ps_heap := h\<rparr>) }"

definition tk_sep ::
  "char \<Rightarrow> json_tokener_state \<Rightarrow> json_tokener_error \<Rightarrow> pstate \<Rightarrow> (outcome \<times> pstate) option" where
  "tk_sep close after e ps =
     (if ps_c ps = close then go Next (set_states json_tokener_state_finish json_tokener_state_eatws) ps
      else if ps_c ps = CHR '','' then go Next (set_states after json_tokener_state_eatws) ps
      else fail e ps)"

definition tk_array_sep :: "pstate \<Rightarrow> (outcome \<times> pstate) option" where
  "tk_array_sep ps = tk_sep CHR '']'' json_tokener_state_array_after_sep json_tokener_error_parse_array ps"

definition tk_object_field_start :: "bool \<Rightarrow> pstate \<Rightarrow> (outcome \<times> pstate) option" where
  "tk_object_field_start after_sep ps =
     (if ps_c ps = CHR ''}'' then tk_close after_sep ps
      else if ps_c ps = CHR 0x22 \<or> ps_c ps = CHR 0x27 then do {
        ps \<leftarrow> reset_pb (tok_upd (\<lambda>t. t\<lparr>tk_quote_char := ps_c ps\<rparr>) ps);
        go Next (set_state json_tokener_state_object_field) ps }
      else fail json_tokener_error_parse_object_key_name ps)"

text \<open>A refused \<^verbatim>\<open>strdup\<close> leaves no name.\<close>

definition tk_object_field :: "allocator \<Rightarrow> string \<Rightarrow> int \<Rightarrow> pstate \<Rightarrow> (outcome \<times> pstate) option" where
  "tk_object_field A mem len ps =
     tk_quoted A mem len json_tokener_state_object_field ps (\<lambda>ps. do {
       pb \<leftarrow> tk_pb (ps_tok ps);
       s \<leftarrow> c_string (pb_buf pb);
       go Next (\<lambda>sr. (set_states json_tokener_state_object_field_end json_tokener_state_eatws sr)
         \<lparr>sr_obj_field_name := (if A (int (length s) + 1) then Some s else None)\<rparr>) ps })"

definition tk_object_field_end :: "pstate \<Rightarrow> (outcome \<times> pstate) option" where
  "tk_object_field_end ps =
     (if ps_c ps = CHR '':'' then go Next (set_states json_tokener_state_object_value json_tokener_state_eatws) ps
      else fail json_tokener_error_parse_object_key_sep ps)"

definition tk_object_value :: "pstate \<Rightarrow> (outcome \<times> pstate) option" where
  "tk_object_value ps = tk_push json_tokener_state_object_value_add ps"

definition tk_object_value_add :: "allocator \<Rightarrow> pstate \<Rightarrow> (outcome \<times> pstate) option" where
  "tk_object_value_add A ps = do {
     sr \<leftarrow> lvl ps;
     a \<leftarrow> sr_current sr;
     key \<leftarrow> sr_obj_field_name sr;
     h \<leftarrow> json_object_object_add A (ps_heap ps) a key (ps_obj ps);
     go Redo (\<lambda>sr. (set_states json_tokener_state_object_sep json_tokener_state_eatws sr)\<lparr>sr_obj_field_name := None\<rparr>)
       (ps\<lparr>ps_heap := h\<rparr>) }"

definition tk_object_sep :: "pstate \<Rightarrow> (outcome \<times> pstate) option" where
  "tk_object_sep ps =
     tk_sep CHR ''}'' json_tokener_state_object_field_start_after_sep json_tokener_error_parse_object_value_sep ps"

section \<open>The parser\<close>

text \<open>One pass through the \<^verbatim>\<open>switch\<close>.\<close>

definition tk_switch ::
  "allocator \<Rightarrow> string \<Rightarrow> int \<Rightarrow> json_tokener_state \<Rightarrow> pstate \<Rightarrow> (outcome \<times> pstate) option" where
  "tk_switch A mem len s ps =
     (case s of
        json_tokener_state_eatws \<Rightarrow> tk_eatws A mem len ps
      | json_tokener_state_start \<Rightarrow> tk_start A ps
      | json_tokener_state_finish \<Rightarrow> tk_finish ps
      | json_tokener_state_null \<Rightarrow> tk_null A ps
      | json_tokener_state_comment_start \<Rightarrow> tk_comment_start A ps
      | json_tokener_state_comment \<Rightarrow> tk_comment A mem len ps
      | json_tokener_state_comment_eol \<Rightarrow> tk_comment_eol A mem len ps
      | json_tokener_state_comment_end \<Rightarrow> tk_comment_end A ps
      | json_tokener_state_string \<Rightarrow> tk_string A mem len ps
      | json_tokener_state_string_escape \<Rightarrow> tk_string_escape A ps
      | json_tokener_state_escape_unicode \<Rightarrow> tk_escape_unicode A mem len ps
      | json_tokener_state_boolean \<Rightarrow> tk_boolean A ps
      | json_tokener_state_number \<Rightarrow> tk_number A mem len ps
      | json_tokener_state_array \<Rightarrow> tk_array False ps
      | json_tokener_state_array_after_sep \<Rightarrow> tk_array True ps
      | json_tokener_state_array_add \<Rightarrow> tk_array_add A ps
      | json_tokener_state_array_sep \<Rightarrow> tk_array_sep ps
      | json_tokener_state_object_field_start \<Rightarrow> tk_object_field_start False ps
      | json_tokener_state_object_field_start_after_sep \<Rightarrow> tk_object_field_start True ps
      | json_tokener_state_object_field \<Rightarrow> tk_object_field A mem len ps
      | json_tokener_state_object_field_end \<Rightarrow> tk_object_field_end ps
      | json_tokener_state_object_value \<Rightarrow> tk_object_value ps
      | json_tokener_state_object_value_add \<Rightarrow> tk_object_value_add A ps
      | json_tokener_state_object_sep \<Rightarrow> tk_object_sep ps)"

text \<open>From \<^verbatim>\<open>redo_char\<close> to \<^verbatim>\<open>out\<close>; \<open>Suc n\<close> allows \<open>n + 1\<close> passes.\<close>

fun parse_loop :: "allocator \<Rightarrow> nat \<Rightarrow> string \<Rightarrow> int \<Rightarrow> pstate \<Rightarrow> pstate option" where
  "parse_loop A 0 mem len ps = None"
| "parse_loop A (Suc n) mem len ps = do {
     sr \<leftarrow> lvl ps;
     (out, ps) \<leftarrow> tk_switch A mem len (sr_state sr) ps;
     case out of
       Out \<Rightarrow> Some ps
     | Redo \<Rightarrow> parse_loop A n mem len ps
     | Next \<Rightarrow> do {
         (ok, ps) \<leftarrow> next_char mem len ps;
         if ok then parse_loop A n mem len ps else Some ps } }"

definition parse_fuel :: "string \<Rightarrow> nat" where
  "parse_fuel mem = 11 * (length mem + 2)"

text \<open>The code after \<^verbatim>\<open>out\<close>.\<close>

definition parse_out :: "pstate \<Rightarrow> (nat option \<times> json_tokener \<times> jheap) option" where
  "parse_out ps = do {
     sr \<leftarrow> lvl ps;
     let tok = ps_tok ps;
     let tok = (if ps_c ps = NUL \<and> sr_state sr \<noteq> json_tokener_state_finish
                  \<and> sr_saved_state sr \<noteq> json_tokener_state_finish
                then tok\<lparr>tk_err := json_tokener_error_parse_eof\<rparr> else tok);
     if tk_err tok = json_tokener_success
     then do {
       (ret, h) \<leftarrow> json_object_get (ps_heap ps) (sr_current sr);
       (tok, h) \<leftarrow> reset_levels (nat (tk_depth tok + 1)) tok h;
       Some (ret, tok, h) }
     else Some (None, tok, ps_heap ps) }"

definition json_tokener_parse_ex ::
  "allocator \<Rightarrow> json_tokener \<Rightarrow> jheap \<Rightarrow> string \<Rightarrow> int \<Rightarrow> (nat option \<times> json_tokener \<times> jheap) option" where
  "json_tokener_parse_ex A tok h mem len = do {
     let ps = \<lparr>ps_tok = tok\<lparr>tk_char_offset := 0, tk_err := json_tokener_success\<rparr>, ps_heap = h,
               ps_c = CHR 0x01, ps_obj = None\<rparr>;
     (ok, ps) \<leftarrow> peek_char mem len ps;
     ps \<leftarrow> (if ok then parse_loop A (parse_fuel mem) mem len ps else Some ps);
     parse_out ps }"

text \<open>\<^verbatim>\<open>json_tokener_parse_verbose\<close>; the error is \<open>None\<close> when \<^verbatim>\<open>*error\<close> is not assigned.\<close>

definition json_tokener_parse_verbose ::
  "allocator \<Rightarrow> jheap \<Rightarrow> string \<Rightarrow> (nat option \<times> json_tokener_error option \<times> jheap) option" where
  "json_tokener_parse_verbose A h mem = do {
     (tok, h) \<leftarrow> json_tokener_new A h;
     case tok of None \<Rightarrow> Some (None, None, h)
     | Some tok \<Rightarrow> do {
         (obj, tok, h) \<leftarrow> json_tokener_parse_ex A tok h mem (-1);
         let e = tk_err tok;
         (obj, h) \<leftarrow> (if e \<noteq> json_tokener_success
                    then do { (r, h) \<leftarrow> json_object_put h obj; Some (None, h) } else Some (obj, h));
         h \<leftarrow> json_tokener_free tok h;
         Some (obj, Some e, h) } }"

definition json_tokener_parse :: "allocator \<Rightarrow> jheap \<Rightarrow> string \<Rightarrow> (nat option \<times> jheap) option" where
  "json_tokener_parse A h mem = do {
     (obj, e, h) \<leftarrow> json_tokener_parse_verbose A h mem;
     Some (obj, h) }"

end
