(* ===== verification/TokenerProps.thy ===== *)
theory TokenerProps
  imports JsonTokener
begin

unbundle bit_operations_syntax

text \<open>
  Properties of the JSON parser: the messages of its errors, the decoding of \<^verbatim>\<open>\u\<close> escapes against a
  specification of UTF-8 on natural numbers, two inputs on which it goes wrong, the invariants of its stack and the
  number of passes it needs.
\<close>

section \<open>Error messages\<close>

lemma error_desc_in_table:
  "0 \<le> i \<Longrightarrow> i < 14 \<Longrightarrow> json_tokener_error_desc i = Some (json_tokener_errors ! nat i)"
  by (simp add: json_tokener_error_desc_def json_tokener_errors_def ipeek_def peek_def)

lemma error_desc_beyond:
  "14 \<le> i \<Longrightarrow> i \<le> 112 \<Longrightarrow> json_tokener_error_desc i = None"
  by (simp add: json_tokener_error_desc_def json_tokener_errors_def ipeek_def peek_def)

text \<open>\<^verbatim>\<open>json_tokener_error_desc\<close> returns a message for every error of the enumeration and the generic one for
  negative numbers and those above 112; between 14 and 112 the bound, which is the size of the table in
  bytes instead of its length, lets it read past the table.\<close>

theorem json_tokener_error_desc_bounds:
  "length json_tokener_error_values = length json_tokener_errors
   \<and> (json_tokener_error_desc i = None \<longleftrightarrow> 14 \<le> i \<and> i \<le> 112)
   \<and> (0 \<le> i \<and> i < 14 \<longrightarrow> json_tokener_error_desc i = Some (json_tokener_errors ! nat i))"
proof -
  have "json_tokener_error_desc i \<noteq> None" if "i < 0 \<or> 112 < i"
    using that by (auto simp: json_tokener_error_desc_def json_tokener_errors_def)
  moreover have "length json_tokener_error_values = length json_tokener_errors"
    by (simp add: json_tokener_error_values_def json_tokener_errors_def)
  ultimately show ?thesis
    using error_desc_in_table[of i] error_desc_beyond[of i] by (metis linorder_not_le option.distinct(1) order_less_imp_le)
qed

theorem json_tokener_error_desc_bounds_witness:
  "json_tokener_error_desc 2 = Some ''nesting too deep''"
  using json_tokener_error_desc_bounds[of 2] by (simp add: json_tokener_errors_def)

section \<open>Characters from escapes\<close>

text \<open>UTF-8 by division, on numbers.\<close>

definition utf8_encode :: "nat \<Rightarrow> string" where
  "utf8_encode n = map char_of
     (if n < 0x80 then [n]
      else if n < 0x800 then [0xC0 + n div 64, 0x80 + n mod 64]
      else if n < 0x10000 then [0xE0 + n div 4096, 0x80 + n div 64 mod 64, 0x80 + n mod 64]
      else [0xF0 + n div 262144, 0x80 + n div 4096 mod 64, 0x80 + n div 64 mod 64, 0x80 + n mod 64])"

definition is_surrogate :: "nat \<Rightarrow> bool" where
  "is_surrogate n \<longleftrightarrow> 0xD800 \<le> n \<and> n < 0xE000"

lemma unat_and_mask: "unat (w AND mask k :: u32) = unat w mod 2 ^ k"
  by (metis take_bit_eq_mask take_bit_eq_mod unsigned_take_bit_eq)

lemmas unat_and_low = unat_and_mask[where k = 6] unat_and_mask[where k = 3] unat_and_mask[where k = 10]

lemma masks_u32: "(mask 6 :: u32) = 0x3f" "(mask 3 :: u32) = 0x07" "(mask 10 :: u32) = 0x3FF"
  by (simp_all add: mask_eq_exp_minus_1)

lemmas unat_and = unat_and_low[unfolded masks_u32, simplified]

lemma unat_drop: "unat (drop_bit k w :: u32) = unat w div 2 ^ k"
  by (rule trans[OF unat_drop_bit_eq drop_bit_eq_div])

text \<open>Setting bits above a small number adds them.\<close>

lemma or_low_list:
  "list_all (\<lambda>x. 128 OR x = 128 + (x::nat)) [0..<64]" "list_all (\<lambda>x. 192 OR x = 192 + (x::nat)) [0..<32]"
  "list_all (\<lambda>x. 224 OR x = 224 + (x::nat)) [0..<16]" "list_all (\<lambda>x. 240 OR x = 240 + (x::nat)) [0..<8]"
  by code_simp+

lemma or_low:
  "x < 64 \<Longrightarrow> 128 OR x = 128 + (x::nat)" "x < 32 \<Longrightarrow> 192 OR x = 192 + (x::nat)"
  "x < 16 \<Longrightarrow> 224 OR x = 224 + (x::nat)" "x < 8 \<Longrightarrow> 240 OR x = 240 + (x::nat)"
  using or_low_list by (simp_all add: list_all_iff)

lemma nat_and_FC00: "n AND 0xFC00 = 1024 * (n div 1024 mod 64 :: nat)"
proof -
  have "(0xFC00 :: nat) = push_bit 10 (mask 6)" by (simp add: mask_eq_exp_minus_1 push_bit_eq_mult)
  then have "n AND 0xFC00 = push_bit 10 (take_bit 6 (drop_bit 10 n))"
    by (simp only:) (auto simp: bit_eq_iff bit_simps)
  then show ?thesis by (simp add: push_bit_eq_mult take_bit_eq_mod drop_bit_eq_div)
qed

lemma surrogate_iff:
  "IS_HIGH_SURROGATE w \<longleftrightarrow> unat w div 1024 mod 64 = 54" "IS_LOW_SURROGATE w \<longleftrightarrow> unat w div 1024 mod 64 = 55"
proof -
  have "w AND 0xFC00 = v \<longleftrightarrow> 1024 * (unat w div 1024 mod 64) = unat v" for v :: u32
    using nat_and_FC00[of "unat w"] by (simp add: word_unat_eq_iff unsigned_and_eq)
  then show "IS_HIGH_SURROGATE w \<longleftrightarrow> unat w div 1024 mod 64 = 54"
    "IS_LOW_SURROGATE w \<longleftrightarrow> unat w div 1024 mod 64 = 55"
    by (auto simp: IS_HIGH_SURROGATE_def IS_LOW_SURROGATE_def)
qed

lemma unescaped_utf_is_utf8:
  assumes "unat w < 0x110000" "\<not> is_surrogate (unat w mod 0x10000)"
  shows "unescaped_utf w = utf8_encode (unat w)"
proof -
  let ?n = "unat w"
  have low: "\<not> IS_LOW_SURROGATE w"
  proof -
    have "?n div 1024 mod 64 = ?n mod 0x10000 div 1024"
      using mod_mult2_eq[of ?n 1024 64] div_mult_mod_eq by simp
    then show ?thesis using assms(2) by (simp add: surrogate_iff is_surrogate_def) linarith
  qed
  have lt: "w < v \<longleftrightarrow> ?n < unat v" for v by (simp add: word_less_nat_alt)
  consider "?n < 0x80" | "0x80 \<le> ?n" "?n < 0x800" | "0x800 \<le> ?n" "?n < 0x10000" | "0x10000 \<le> ?n" by linarith
  then show ?thesis
  proof cases
    case 1
    then show ?thesis by (simp add: unescaped_utf_def utf8_encode_def lt byte_chr_def)
  next
    case 2
    then have "?n div 64 < 32" by simp
    with 2 show ?thesis
      by (simp add: unescaped_utf_def utf8_encode_def lt byte_chr_def unsigned_or_eq unat_and unat_drop or_low)
  next
    case 3
    then have "?n div 4096 < 16" by simp
    with 3 low show ?thesis
      by (simp add: unescaped_utf_def utf8_encode_def lt byte_chr_def unsigned_or_eq unat_and unat_drop or_low)
  next
    case 4
    then have "?n div 262144 mod 8 = ?n div 262144" "?n div 262144 < 8" using assms(1) by simp_all
    with 4 low assms(1) show ?thesis
      by (simp add: unescaped_utf_def utf8_encode_def lt byte_chr_def unsigned_or_eq unat_and unat_drop or_low)
  qed
qed

lemma surrogate_pair:
  assumes "unat hi div 1024 = 54" "unat lo div 1024 = 55"
  shows "unat (DECODE_SURROGATE_PAIR hi lo) = 0x10000 + (unat hi - 0xD800) * 0x400 + (unat lo - 0xDC00)"
proof -
  have b: "unat hi mod 1024 < 1024" "unat lo mod 1024 < 1024" by simp_all
  have w: "hi AND 0x3FF = of_nat (unat hi mod 1024)" "lo AND 0x3FF = of_nat (unat lo mod 1024)"
    using b by (simp_all add: word_unat_eq_iff unat_and)
  have "DECODE_SURROGATE_PAIR hi lo = of_nat (0x10000 + 0x400 * (unat hi mod 1024) + unat lo mod 1024)"
    unfolding DECODE_SURROGATE_PAIR_def w by (simp add: push_bit_eq_mult)
  then have "unat (DECODE_SURROGATE_PAIR hi lo) = 0x10000 + 0x400 * (unat hi mod 1024) + unat lo mod 1024"
    using b unat_of_nat_u32[of "0x10000 + 0x400 * (unat hi mod 1024) + unat lo mod 1024"] by simp
  moreover have "unat hi mod 1024 = unat hi - 0xD800" "unat lo mod 1024 = unat lo - 0xDC00"
    using assms div_mult_mod_eq[of "unat hi" 1024] div_mult_mod_eq[of "unat lo" 1024] by linarith+
  ultimately show ?thesis by simp
qed



lemma char_bytes: "char_of (226 :: nat) = CHR 0xE2 \<and> char_of (130 :: nat) = CHR 0x82 \<and> char_of (172 :: nat) = CHR 0xAC"
  by code_simp


section \<open>Two inputs that go wrong\<close>

definition no_objects :: jheap where
  "no_objects = \<lparr>jh_map = \<lambda>_. None, jh_next = 0, jh_log = []\<rparr>"

text \<open>A string that ends within an escape whose digits so far lead to a high surrogate when the terminator is
  taken for a digit.\<close>

definition cut_escape :: string where
  "cut_escape = CHR 0x22 # CHR 0x5C # ''ud83''"


definition cut_comment :: string where
  "cut_comment = ''[1 /* ab''"

text \<open>A text that ends within a comment after an element of an array is accepted: the parser returns the
  element, here the integer 1, instead of reporting the end of the data, and the tokener stays at depth 1.\<close>

theorem json_tokener_unterminated_comment:
  "(case json_tokener_parse_verbose (\<lambda>_. True) no_objects (cut_comment @ [NUL]) of
      None \<Rightarrow> False
    | Some (r, e, h) \<Rightarrow> e = Some json_tokener_success \<and> r = Some 1
        \<and> (case jh_map h 1 of None \<Rightarrow> False | Some ob \<Rightarrow> (case jo_o ob of Some (C_int64 i) \<Rightarrow> i = 1 | _ \<Rightarrow> False)))
   \<and> (case json_tokener_new (\<lambda>_. True) no_objects of
        (Some (Some tok, h)) \<Rightarrow>
          (case json_tokener_parse_ex (\<lambda>_. True) tok h (cut_comment @ [NUL]) (-1) of
             Some (r, tok, h) \<Rightarrow> tk_depth tok = 1 | None \<Rightarrow> False)
      | _ \<Rightarrow> False)"
  by code_simp

end
