(* ===== verification/TokenerRun.thy ===== *)
theory TokenerRun
  imports TokenerProps
begin

text \<open>
  The runs of the parser: the invariant of its stack, which every pass through the \<^verbatim>\<open>switch\<close> preserves, and a
  potential that every pass decreases. The potential bounds the passes, so that the fuel of the model is always enough.
\<close>

section \<open>The invariant\<close>

definition is_add :: "json_tokener_state \<Rightarrow> bool" where
  "is_add s \<longleftrightarrow> s = json_tokener_state_array_add \<or> s = json_tokener_state_object_value_add"

text \<open>The levels below the current one wait for a value; no level up to the current one has \<^verbatim>\<open>eatws\<close> saved.\<close>

definition tk_ok :: "json_tokener \<Rightarrow> bool" where
  "tk_ok t \<longleftrightarrow> 0 \<le> tk_depth t \<and> tk_depth t < tk_max_depth t \<and> int (length (tk_stack t)) = tk_max_depth t
     \<and> (\<forall>i < nat (tk_depth t). is_add (sr_state (tk_stack t ! i)))
     \<and> (\<forall>i \<le> nat (tk_depth t). sr_saved_state (tk_stack t ! i) \<noteq> json_tokener_state_eatws)"

abbreviation ps_ok :: "pstate \<Rightarrow> bool" where "ps_ok ps \<equiv> tk_ok (ps_tok ps)"
abbreviation off :: "pstate \<Rightarrow> int" where "off ps \<equiv> tk_char_offset (ps_tok ps)"

fun rank1 :: "json_tokener_state \<Rightarrow> nat" where
  "rank1 json_tokener_state_array = 9"
| "rank1 json_tokener_state_array_after_sep = 9"
| "rank1 json_tokener_state_object_value = 9"
| "rank1 json_tokener_state_start = 7"
| "rank1 json_tokener_state_null = 6"
| "rank1 json_tokener_state_boolean = 6"
| "rank1 json_tokener_state_number = 6"
| "rank1 json_tokener_state_finish = 4"
| "rank1 json_tokener_state_array_add = 3"
| "rank1 json_tokener_state_object_value_add = 3"
| "rank1 s = 1"

definition sr_rank :: "json_tokener_srec \<Rightarrow> nat" where
  "sr_rank sr = (if sr_state sr = json_tokener_state_eatws then 1 + rank1 (sr_saved_state sr) else rank1 (sr_state sr))"

definition rank :: "pstate \<Rightarrow> nat" where
  "rank ps = (case lvl ps of None \<Rightarrow> 0 | Some sr \<Rightarrow> sr_rank sr)"

lemma rank1_le: "rank1 s \<le> 9" "rank1 s \<le> 10"
  by (cases s; simp)+

lemma rank_le: "rank ps \<le> 10"
  by (simp add: rank_def sr_rank_def rank1_le split: option.split)

text \<open>Steps that leave the stack alone.\<close>

definition frame :: "pstate \<Rightarrow> pstate \<Rightarrow> bool" where
  "frame ps ps' \<longleftrightarrow> tk_stack (ps_tok ps') = tk_stack (ps_tok ps) \<and> tk_depth (ps_tok ps') = tk_depth (ps_tok ps)
     \<and> tk_max_depth (ps_tok ps') = tk_max_depth (ps_tok ps) \<and> off ps \<le> off ps'"

lemma frame_refl [intro, simp]: "frame ps ps"
  by (simp add: frame_def)

lemma frame_trans: "frame a b \<Longrightarrow> frame b c \<Longrightarrow> frame a c"
  by (simp add: frame_def)

lemma frame_keeps: "frame ps ps' \<Longrightarrow> ps_ok ps' = ps_ok ps \<and> lvl ps' = lvl ps \<and> rank ps' = rank ps \<and> off ps \<le> off ps'"
  by (simp add: frame_def tk_ok_def lvl_def rank_def)

lemma frame_tok [simp]:
  "frame ps (tok_upd (\<lambda>t. t\<lparr>tk_pb := x1\<rparr>) ps)" "frame ps (tok_upd (\<lambda>t. t\<lparr>tk_err := x2\<rparr>) ps)"
  "frame ps (tok_upd (\<lambda>t. t\<lparr>tk_st_pos := x3\<rparr>) ps)" "frame ps (tok_upd (\<lambda>t. t\<lparr>tk_quote_char := x4\<rparr>) ps)"
  "frame ps (tok_upd (\<lambda>t. t\<lparr>tk_is_double := x5\<rparr>) ps)" "frame ps (ps\<lparr>ps_heap := x6\<rparr>)" "frame ps (ps\<lparr>ps_c := x7\<rparr>)"
  "frame ps (tok_upd (\<lambda>t. t\<lparr>tk_ucs_char := x8, tk_st_pos := x9\<rparr>) ps)" "frame ps (tok_upd (\<lambda>t. t\<lparr>tk_ucs_char := f t\<rparr>) ps)"
  by (simp_all add: frame_def tok_upd_def)

lemma frame_append: "append_pb A s ps = Some ps' \<Longrightarrow> frame ps ps'"
  by (auto simp: append_pb_def split: Option.bind_splits)

lemma frame_reset: "reset_pb ps = Some ps' \<Longrightarrow> frame ps ps'"
  by (auto simp: reset_pb_def split: Option.bind_splits)

lemma frame_advance: "advance_char ps = Some ps' \<Longrightarrow> frame ps ps' \<and> off ps' = off ps + 1"
  by (auto simp: advance_char_def frame_def tok_upd_def c_int_eq_Some split: Option.bind_splits)

lemma frame_peek: "peek_char mem len ps = Some (ok, ps') \<Longrightarrow> frame ps ps' \<and> off ps' = off ps"
  by (auto simp: peek_char_def tok_upd_def frame_def split: if_splits Option.bind_splits)

lemma peek_char_reads: "peek_char mem len ps = Some (True, ps') \<Longrightarrow> 0 \<le> off ps \<Longrightarrow> off ps' < int (length mem)"
  by (auto simp: peek_char_def ipeek_def peek_Some_iff split: if_splits Option.bind_splits)

lemma frame_next:
  assumes "next_char mem len ps = Some (ok, ps')"
  shows "frame ps ps' \<and> off ps' = off ps + 1"
  using assms frame_advance frame_peek frame_trans
  by (fastforce simp: next_char_def split: if_splits Option.bind_splits)

lemma next_char_reads:
  assumes "next_char mem len ps = Some (True, ps')" "0 \<le> off ps"
  shows "off ps' < int (length mem)"
proof -
  obtain p1 where "advance_char ps = Some p1" "peek_char mem len p1 = Some (True, ps')"
    using assms(1) by (auto simp: next_char_def split: if_splits Option.bind_splits)
  then show ?thesis using frame_advance peek_char_reads assms(2) by force
qed

lemma frame_char_loop:
  assumes "char_loop P body n mem len ps = Some (ok, ps')" "\<And>q. frame q (body q)"
  shows "frame ps ps'"
  using assms(1)
proof (induction n arbitrary: ps)
  case (Suc n)
  show ?case
  proof (cases "P (ps_c ps)")
    case True
    then obtain ok1 q where q: "next_char mem len (body ps) = Some (ok1, q)"
      "(if ok1 then char_loop P body n mem len q else Some (False, q)) = Some (ok, ps')"
      using Suc.prems by (auto split: Option.bind_splits)
    have "frame ps q" using q(1) frame_next assms(2) frame_trans by blast
    then show ?thesis using q(2) Suc.IH frame_trans by (cases ok1) auto
  qed (use Suc.prems in auto)
qed simp

lemma frame_while:
  "while_char P body mem len ps = Some (ok, ps') \<Longrightarrow> (\<And>q. frame q (body q)) \<Longrightarrow> frame ps ps'"
  unfolding while_char_def by (rule frame_char_loop)

section \<open>Passes\<close>

text \<open>A pass that started in \<open>ps\<close> and ended with \<open>out\<close> in \<open>ps'\<close>.\<close>

definition pass_ok :: "pstate \<Rightarrow> outcome \<Rightarrow> pstate \<Rightarrow> bool" where
  "pass_ok ps out ps' \<longleftrightarrow> ps_ok ps' \<and> off ps \<le> off ps' \<and> tk_max_depth (ps_tok ps') = tk_max_depth (ps_tok ps)
     \<and> (out = Redo \<longrightarrow> off ps < off ps' \<or> rank ps' < rank ps)"

lemma pass_frame:
  assumes "ps_ok ps" "frame ps ps'" "out \<noteq> Redo"
  shows "pass_ok ps out ps'"
  using assms frame_keeps[OF assms(2)] by (simp add: pass_ok_def frame_def)

lemma pass_after_frame:
  assumes "frame ps p1" "pass_ok p1 out ps'"
  shows "pass_ok ps out ps'"
  using assms frame_keeps[OF assms(1)] by (auto simp: pass_ok_def frame_def)

lemma pass_fail: "ps_ok ps \<Longrightarrow> fail e ps = Some (out, ps') \<Longrightarrow> pass_ok ps out ps'"
  by (auto simp: fail_def intro: pass_frame)

lemma lvl_upd_eq:
  assumes "lvl_upd f ps = Some ps'" "ps_ok ps"
  shows "\<exists>sr. lvl ps = Some sr \<and> lvl ps' = Some (f sr) \<and> off ps' = off ps
    \<and> tk_depth (ps_tok ps') = tk_depth (ps_tok ps) \<and> tk_max_depth (ps_tok ps') = tk_max_depth (ps_tok ps)
    \<and> tk_stack (ps_tok ps') = (tk_stack (ps_tok ps))[nat (tk_depth (ps_tok ps)) := f sr]
    \<and> (sr_saved_state (f sr) \<noteq> json_tokener_state_eatws \<longrightarrow> ps_ok ps')"
  using assms
  by (auto simp: lvl_upd_def lvl_def tok_upd_def ipeek_def ipoke_def peek_Some_iff poke_Some_iff tk_ok_def nth_list_update
      split: Option.bind_splits if_splits)

lemma saved_ok: "ps_ok ps \<Longrightarrow> lvl ps = Some sr \<Longrightarrow> sr_saved_state sr \<noteq> json_tokener_state_eatws"
  by (auto simp: tk_ok_def lvl_def ipeek_def peek_Some_iff split: if_splits)

lemma pass_go:
  assumes "ps_ok ps" "lvl ps = Some sr" "go o1 f ps = Some (out, ps')"
    "sr_saved_state (f sr) \<noteq> json_tokener_state_eatws" "o1 = Redo \<longrightarrow> sr_rank (f sr) < sr_rank sr"
  shows "pass_ok ps out ps'"
proof -
  have "lvl_upd f ps = Some ps'" "out = o1" using assms(3) by (auto simp: go_def)
  then show ?thesis using lvl_upd_eq[OF _ assms(1), of f ps'] assms(2,4,5) by (auto simp: pass_ok_def rank_def)
qed

text \<open>A pass that changes only the level and then leaves the stack alone.\<close>

lemma pass_lvl:
  assumes "ps_ok ps" "lvl ps = Some sr" "lvl_upd f ps = Some p1" "frame p1 ps'"
    "sr_saved_state (f sr) \<noteq> json_tokener_state_eatws" "out = Redo \<longrightarrow> sr_rank (f sr) < sr_rank sr"
  shows "pass_ok ps out ps'"
proof -
  have "pass_ok ps out p1" by (rule pass_go[of _ _ out f]) (use assms in \<open>auto simp: go_def\<close>)
  then show ?thesis using frame_keeps[OF assms(4)] assms(4) by (auto simp: pass_ok_def frame_def)
qed

lemma tk_eatws_pass:
  assumes "ps_ok ps" "lvl ps = Some sr" "sr_state sr = json_tokener_state_eatws" "tk_eatws A mem len ps = Some (out, ps')"
  shows "pass_ok ps out ps'"
proof -
  obtain ok p1 where w: "while_char c_isspace id mem len ps = Some (ok, p1)"
    using assms(4) by (auto simp: tk_eatws_def split: Option.bind_splits)
  have fr: "frame ps p1" by (rule frame_while[OF w]) simp
  then have l1: "ps_ok p1" "lvl p1 = Some sr" using frame_keeps assms(1,2) by auto
  have sv: "sr_saved_state sr \<noteq> json_tokener_state_eatws" using saved_ok assms(1,2) by blast
  consider "\<not> ok" | "ok" "ps_c p1 = CHR ''/''" | "ok" "ps_c p1 \<noteq> CHR ''/''" by blast
  then show ?thesis
  proof cases
    case 1
    then have "ps' = p1" "out = Out" using assms(4) w by (auto simp: tk_eatws_def)
    then show ?thesis using pass_frame assms(1) fr by blast
  next
    case 2
    then obtain p2 p3 where p: "reset_pb p1 = Some p2" "append_pb A [ps_c p2] p2 = Some p3"
      "go Next (set_state json_tokener_state_comment_start) p3 = Some (out, ps')"
      using assms(4) w by (auto simp: tk_eatws_def split: Option.bind_splits)
    have f3: "frame p1 p3" using frame_reset[OF p(1)] frame_append[OF p(2)] frame_trans by blast
    have "pass_ok p3 out ps'"
      by (rule pass_go[OF _ _ p(3), of sr]) (use frame_keeps[OF f3] l1 sv in \<open>auto simp: set_state_def\<close>)
    then show ?thesis using pass_after_frame fr f3 frame_trans by blast
  next
    case 3
    then have "go Redo (\<lambda>sr. sr\<lparr>sr_state := sr_saved_state sr\<rparr>) p1 = Some (out, ps')"
      using assms(4) w by (auto simp: tk_eatws_def)
    then have "pass_ok p1 out ps'"
      by (rule pass_go[OF l1]) (use sv assms(3) in \<open>auto simp: sr_rank_def\<close>)
    then show ?thesis using pass_after_frame fr by blast
  qed
qed

lemma tk_open_pass:
  assumes "ps_ok ps" "lvl ps = Some sr" "tk_open new sv ps = Some (out, ps')" "sv \<noteq> json_tokener_state_eatws"
  shows "pass_ok ps out ps'"
proof -
  obtain a h where g: "go Next (\<lambda>sr. (set_states sv json_tokener_state_eatws sr)\<lparr>sr_current := a\<rparr>) (ps\<lparr>ps_heap := h\<rparr>) = Some (out, ps')"
    using assms(3) by (auto simp: tk_open_def split: Option.bind_splits)
  have "pass_ok (ps\<lparr>ps_heap := h\<rparr>) out ps'"
    by (rule pass_go[OF _ _ g, of sr]) (use assms in \<open>auto simp: set_states_def lvl_def\<close>)
  then show ?thesis by (rule pass_after_frame[rotated]) simp
qed

lemma tk_start_pass:
  assumes "ps_ok ps" "lvl ps = Some sr" "sr_state sr = json_tokener_state_start" "tk_start A ps = Some (out, ps')"
  shows "pass_ok ps out ps'"
proof -
  have sv: "sr_saved_state sr \<noteq> json_tokener_state_eatws" using saved_ok assms(1,2) by blast
  have word: "pass_ok ps o1 p3"
    if u: "lvl_upd (set_state s) ps = Some p1" "reset_pb p1 = Some p2" "frame p2 p3"
      and o: "o1 = Redo \<longrightarrow> rank1 s < 7 \<and> s \<noteq> json_tokener_state_eatws" for s p1 p2 p3 o1
    by (rule pass_lvl[OF assms(1,2) u(1)])
      (use frame_reset[OF u(2)] u(3) o sv assms(3) frame_trans in \<open>auto simp: set_state_def sr_rank_def\<close>)
  show ?thesis
    using assms(4) tk_open_pass[OF assms(1,2)] pass_fail[OF assms(1)]
    by (auto simp: tk_start_def Let_def split: if_splits Option.bind_splits intro!: word)
qed

lemma reset_level_eq:
  "json_tokener_reset_level t h d = Some (t', h') \<Longrightarrow>
    0 \<le> d \<and> nat d < length (tk_stack t) \<and> t' = t\<lparr>tk_stack := (tk_stack t)[nat d := sr_reset]\<rparr>"
  by (auto simp: json_tokener_reset_level_def ipeek_def ipoke_def peek_Some_iff poke_Some_iff split: Option.bind_splits if_splits)

lemma tk_finish_pass:
  assumes "ps_ok ps" "lvl ps = Some sr" "sr_state sr = json_tokener_state_finish" "tk_finish ps = Some (out, ps')"
  shows "pass_ok ps out ps'"
proof (cases "tk_depth (ps_tok ps) = 0")
  case True
  then show ?thesis using assms by (auto simp: tk_finish_def intro: pass_frame)
next
  case False
  let ?t = "ps_tok ps" and ?d = "tk_depth (ps_tok ps)"
  obtain ob h tok h' where r: "json_tokener_reset_level ?t h ?d = Some (tok, h')" "out = Redo"
    "ps' = ps\<lparr>ps_obj := ob, ps_heap := h', ps_tok := tok\<lparr>tk_depth := tk_depth tok - 1\<rparr>\<rparr>"
    using assms(4) False by (auto simp: tk_finish_def split: Option.bind_splits)
  have t: "tok = ?t\<lparr>tk_stack := (tk_stack ?t)[nat ?d := sr_reset]\<rparr>" using reset_level_eq[OF r(1)] by simp
  have d: "0 < ?d" "nat (?d - 1) < nat ?d" "nat ?d < length (tk_stack ?t)"
    using assms(1) False reset_level_eq[OF r(1)] by (auto simp: tk_ok_def)
  have add: "is_add (sr_state (tk_stack ?t ! nat (?d - 1)))" using assms(1) d by (simp add: tk_ok_def)
  then have "rank ps' = 3" using d unfolding r t
    by (auto simp: rank_def lvl_def ipeek_def peek_def sr_rank_def is_add_def)
  moreover have "rank ps = 4" using assms(2,3) by (simp add: rank_def sr_rank_def)
  moreover have "ps_ok ps'" using assms(1) d unfolding r t by (auto simp: tk_ok_def)
  ultimately show ?thesis using r t by (simp add: pass_ok_def)
qed

lemma tk_push_pass:
  assumes "ps_ok ps" "lvl ps = Some sr" "rank1 (sr_state sr) = 9" "tk_push back ps = Some (out, ps')" "is_add back"
  shows "pass_ok ps out ps'"
proof (cases "tk_depth (ps_tok ps) \<ge> tk_max_depth (ps_tok ps) - 1")
  case True
  then show ?thesis using assms(1,4) by (auto simp: tk_push_def intro: pass_fail)
next
  case False
  let ?d = "tk_depth (ps_tok ps)"
  obtain p1 tok h where p: "lvl_upd (set_state back) ps = Some p1" "out = Redo"
    "json_tokener_reset_level (ps_tok p1\<lparr>tk_depth := tk_depth (ps_tok p1) + 1\<rparr>) (ps_heap p1) (tk_depth (ps_tok p1) + 1) = Some (tok, h)"
    "ps' = p1\<lparr>ps_tok := tok, ps_heap := h\<rparr>"
    using assms(4) False by (auto simp: tk_push_def Let_def split: Option.bind_splits)
  have sv: "sr_saved_state sr \<noteq> json_tokener_state_eatws" using saved_ok assms(1,2) by blast
  have u: "off p1 = off ps" "tk_depth (ps_tok p1) = ?d" "tk_max_depth (ps_tok p1) = tk_max_depth (ps_tok ps)"
    "tk_stack (ps_tok p1) = (tk_stack (ps_tok ps))[nat ?d := set_state back sr]"
    using lvl_upd_eq[OF p(1) assms(1)] assms(2) by auto
  note t = reset_level_eq[OF p(3)]
  have d: "0 \<le> ?d" "nat (?d + 1) = Suc (nat ?d)" "nat (?d + 1) < length (tk_stack (ps_tok ps))"
    using assms(1) t u by (auto simp: tk_ok_def)
  have ok: "ps_ok ps'" using assms(1,5) False t u d sv
    by (auto simp: p(4) tk_ok_def nth_list_update less_Suc_eq set_state_def sr_reset_def)
  have "sr_rank sr = 9" using assms(3) by (auto simp: sr_rank_def)
  then have "rank ps = 9" using assms(2) by (simp add: rank_def)
  moreover have "rank ps' = 8" using t u d
    by (simp add: p(4) rank_def lvl_def ipeek_def peek_def sr_rank_def sr_reset_def)
  ultimately show ?thesis using ok t u p by (simp add: pass_ok_def)
qed

lemma tk_value_pass:
  assumes "ps_ok ps" "frame ps p1" "lvl ps = Some sr" "tk_value o1 a p1 = Some (out, ps')"
    "o1 = Redo \<longrightarrow> rank1 (sr_state sr) = 6 \<and> sr_state sr \<noteq> json_tokener_state_eatws"
  shows "pass_ok ps out ps'"
proof -
  have "pass_ok p1 out ps'"
    by (rule pass_go[OF _ _ assms(4)[unfolded tk_value_def], of sr])
      (use assms frame_keeps[OF assms(2)] in \<open>auto simp: set_states_def sr_rank_def\<close>)
  then show ?thesis by (rule pass_after_frame[OF assms(2)])
qed

lemma st_pos_inc_pass:
  "ps_ok ps \<Longrightarrow> frame ps p1 \<Longrightarrow> st_pos_inc p1 = Some (out, ps') \<Longrightarrow> pass_ok ps out ps'"
  by (rule pass_frame) (auto simp: st_pos_inc_def split: Option.bind_splits intro: frame_trans)

lemma fail_pass: "ps_ok ps \<Longrightarrow> frame ps p1 \<Longrightarrow> fail e p1 = Some (out, ps') \<Longrightarrow> pass_ok ps out ps'"
  by (rule pass_frame) (auto simp: fail_def intro: frame_trans)

lemma tk_null_pass:
  assumes "ps_ok ps" "lvl ps = Some sr" "sr_state sr = json_tokener_state_null" "tk_null A ps = Some (out, ps')"
  shows "pass_ok ps out ps'"
proof -
  obtain p1 where a: "append_pb A [ps_c ps] ps = Some p1" using assms(4) by (auto simp: tk_null_def split: Option.bind_splits)
  note fr = frame_append[OF a]
  show ?thesis
    using assms a tk_value_pass[OF assms(1) fr assms(2), of Redo None out ps'] st_pos_inc_pass[OF assms(1) fr] fail_pass[OF assms(1) fr]
    by (auto simp: tk_null_def split: if_splits Option.bind_splits)
qed

lemma tk_boolean_pass:
  assumes "ps_ok ps" "lvl ps = Some sr" "sr_state sr = json_tokener_state_boolean" "tk_boolean A ps = Some (out, ps')"
  shows "pass_ok ps out ps'"
proof -
  obtain p1 where a: "append_pb A [ps_c ps] ps = Some p1" using assms(4) by (auto simp: tk_boolean_def split: Option.bind_splits)
  note fr = frame_append[OF a]
  have v: "pass_ok ps out ps'" if "tk_value Redo x (p1\<lparr>ps_heap := h\<rparr>) = Some (out, ps')" for x h
    by (rule tk_value_pass[OF assms(1) _ assms(2) that]) (use frame_trans[OF fr] assms(3) in auto)
  show ?thesis
    using assms a v st_pos_inc_pass[OF assms(1) fr] fail_pass[OF assms(1) fr]
    by (auto simp: tk_boolean_def split: if_splits Option.bind_splits)
qed

text \<open>A pass that leaves the stack alone and then sets the level without redoing.\<close>

lemma pass_next:
  assumes "ps_ok ps" "lvl ps = Some sr" "frame ps p1" "go Next f p1 = Some (out, ps')"
    "sr_saved_state (f sr) \<noteq> json_tokener_state_eatws"
  shows "pass_ok ps out ps'"
proof -
  have "pass_ok p1 out ps'" by (rule pass_go[OF _ _ assms(4), of sr]) (use assms frame_keeps[OF assms(3)] in auto)
  then show ?thesis by (rule pass_after_frame[OF assms(3)])
qed

lemma gather_pass:
  assumes "ps_ok ps" "gather A P mem len ps k = Some (out, ps')"
    "\<And>p1 text. frame ps p1 \<Longrightarrow> k p1 text = Some (out, ps') \<Longrightarrow> pass_ok ps out ps'"
  shows "pass_ok ps out ps'"
proof -
  obtain ok p1 where w: "while_char P id mem len ps = Some (ok, p1)"
    using assms(2) by (auto simp: gather_def Let_def split: Option.bind_splits)
  have fr: "frame ps p1" by (rule frame_while[OF w]) simp
  show ?thesis
  proof (cases ok)
    case True
    then show ?thesis using assms(2) w assms(3)[OF fr] by (auto simp: gather_def Let_def)
  next
    case False
    then obtain p2 where "append_pb A (since mem (off ps) p1) p1 = Some p2" "out = Out" "ps' = p2"
      using assms(2) w by (auto simp: gather_def Let_def split: Option.bind_splits)
    then show ?thesis using pass_frame[OF assms(1) frame_trans[OF fr frame_append]] by blast
  qed
qed

lemma tk_comment_start_pass:
  assumes "ps_ok ps" "lvl ps = Some sr" "tk_comment_start A ps = Some (out, ps')"
  shows "pass_ok ps out ps'"
proof -
  have sv: "sr_saved_state sr \<noteq> json_tokener_state_eatws" using saved_ok assms(1,2) by blast
  have "pass_ok ps Next p2" if u: "lvl_upd (set_state s) ps = Some p1" "append_pb A x p1 = Some p2" for s x p1 p2
    by (rule pass_lvl[OF assms(1,2) u(1) frame_append[OF u(2)]]) (use sv in \<open>auto simp: set_state_def\<close>)
  then show ?thesis using assms pass_fail by (auto simp: tk_comment_start_def split: if_splits Option.bind_splits)
qed

lemma append_then_pass:
  assumes "ps_ok ps" "lvl ps = Some sr" "frame ps p1"
    "do { q \<leftarrow> append_pb A s p1; go Next (set_state st) q } = Some (out, ps')"
  shows "pass_ok ps out ps'"
proof -
  obtain q where q: "append_pb A s p1 = Some q" "go Next (set_state st) q = Some (out, ps')"
    using assms(4) by (auto split: Option.bind_splits)
  show ?thesis
    by (rule pass_next[OF assms(1,2) frame_trans[OF assms(3) frame_append[OF q(1)]] q(2)])
      (use saved_ok[OF assms(1,2)] in \<open>simp add: set_state_def\<close>)
qed

lemma tk_comment_pass:
  assumes "ps_ok ps" "lvl ps = Some sr" "tk_comment A mem len ps = Some (out, ps')"
  shows "pass_ok ps out ps'"
  using assms(3) unfolding tk_comment_def
  by (rule gather_pass[OF assms(1)]) (erule append_then_pass[OF assms(1,2), rotated], simp)

lemma tk_comment_eol_pass:
  assumes "ps_ok ps" "lvl ps = Some sr" "tk_comment_eol A mem len ps = Some (out, ps')"
  shows "pass_ok ps out ps'"
  using assms(3) unfolding tk_comment_eol_def
  by (rule gather_pass[OF assms(1)]) (erule append_then_pass[OF assms(1,2), rotated], simp)

lemma tk_comment_end_pass:
  assumes "ps_ok ps" "lvl ps = Some sr" "tk_comment_end A ps = Some (out, ps')"
  shows "pass_ok ps out ps'"
  using assms(3) saved_ok[OF assms(1,2)]
  by (auto simp: tk_comment_end_def set_state_def intro!: pass_next[OF assms(1,2) frame_append] split: Option.bind_splits)

lemma tk_quoted_pass:
  assumes "ps_ok ps" "lvl ps = Some sr" "tk_quoted A mem len back ps k = Some (out, ps')"
    "back \<noteq> json_tokener_state_eatws" "\<And>p1. frame ps p1 \<Longrightarrow> k p1 = Some (out, ps') \<Longrightarrow> pass_ok ps out ps'"
  shows "pass_ok ps out ps'"
  using assms(3) unfolding tk_quoted_def Let_def
proof (rule gather_pass[OF assms(1)])
  fix p1 w assume fr: "frame ps p1" and k: "do { q \<leftarrow> append_pb A w p1;
    if ps_c q = tk_quote_char (ps_tok ps) then k q else go Next (set_states back json_tokener_state_string_escape) q }
    = Some (out, ps')"
  then obtain q where q: "append_pb A w p1 = Some q" by (auto split: Option.bind_splits)
  have f2: "frame ps q" using fr frame_append[OF q] frame_trans by blast
  show "pass_ok ps out ps'"
    using k q assms(5)[OF f2] pass_next[OF assms(1,2) f2] assms(4) by (auto simp: set_states_def split: if_splits)
qed

lemma tk_string_pass:
  assumes "ps_ok ps" "lvl ps = Some sr" "tk_string A mem len ps = Some (out, ps')"
  shows "pass_ok ps out ps'"
  using assms(3) unfolding tk_string_def
proof (rule tk_quoted_pass[OF assms(1,2)])
  fix p1 assume fr: "frame ps p1" and k: "do { pb \<leftarrow> tk_pb (ps_tok p1); s \<leftarrow> those (take (nat (pb_bpos pb)) (pb_buf pb));
       (a, h) \<leftarrow> json_object_new_string_len A (ps_heap p1) s (pb_bpos pb); tk_value Next a (p1\<lparr>ps_heap := h\<rparr>) } = Some (out, ps')"
  then obtain a h where "tk_value Next a (p1\<lparr>ps_heap := h\<rparr>) = Some (out, ps')" by (auto split: Option.bind_splits)
  then have v: "tk_value Next a (p1\<lparr>ps_heap := h\<rparr>) = Some (out, ps')" .
  show "pass_ok ps out ps'" by (rule tk_value_pass[OF assms(1) frame_trans[OF fr] assms(2) v]) auto
qed simp

lemma tk_object_field_pass:
  assumes "ps_ok ps" "lvl ps = Some sr" "tk_object_field A mem len ps = Some (out, ps')"
  shows "pass_ok ps out ps'"
  using assms(3) unfolding tk_object_field_def
  by (rule tk_quoted_pass[OF assms(1,2)])
    (auto simp: set_states_def intro!: pass_next[OF assms(1,2)] split: Option.bind_splits)

lemma tk_string_escape_pass:
  assumes "ps_ok ps" "lvl ps = Some sr" "tk_string_escape A ps = Some (out, ps')"
  shows "pass_ok ps out ps'"
proof -
  have sv: "sr_saved_state sr \<noteq> json_tokener_state_eatws" using saved_ok assms(1,2) by blast
  have bk: "pass_ok ps out ps'"
    if "append_pb A x ps = Some q" "go Next (\<lambda>sr. sr\<lparr>sr_state := sr_saved_state sr\<rparr>) q = Some (out, ps')" for x q
    by (rule pass_next[OF assms(1,2) frame_append[OF that(1)] that(2)]) (use sv in simp)
  have uni: "pass_ok ps out ps'"
    if "go Next (set_state json_tokener_state_escape_unicode) (tok_upd (\<lambda>t. t\<lparr>tk_ucs_char := 0, tk_st_pos := 0\<rparr>) ps) = Some (out, ps')"
    by (rule pass_next[OF assms(1,2) _ that]) (use sv in \<open>auto simp: set_state_def\<close>)
  show ?thesis using assms(3) bk uni pass_fail[OF assms(1)]
    by (auto simp: tk_string_escape_def Let_def split: if_splits Option.bind_splits)
qed

lemma uni_done_pass:
  assumes "ps_ok ps" "lvl ps = Some sr" "frame ps p1" "uni_done p1 = Some (out, ps')"
  shows "pass_ok ps out ps'"
  by (rule pass_next[OF assms(1-3) assms(4)[unfolded uni_done_def]]) (use saved_ok[OF assms(1,2)] in simp)

lemma frame_uni:
  "uni_digit ps = Some p1 \<Longrightarrow> frame ps p1" "uni_pair A hi ps = Some p1 \<Longrightarrow> frame ps p1"
  "uni_skip A ps = Some p1 \<Longrightarrow> frame ps p1"
proof -
  show "uni_digit ps = Some p1 \<Longrightarrow> frame ps p1"
    by (auto simp: uni_digit_def Let_def frame_def tok_upd_def split: if_splits)
  show "uni_pair A hi ps = Some p1 \<Longrightarrow> frame ps p1"
    by (auto simp: uni_pair_def intro: frame_append split: if_splits)
  assume "uni_skip A ps = Some p1"
  then obtain q where q: "advance_char ps = Some q"
    "(if ps_c q = NUL then append_pb A utf8_replacement_char q else advance_char q) = Some p1"
    by (auto simp: uni_skip_def split: Option.bind_splits)
  show "frame ps p1" using frame_trans[of ps q p1] frame_advance[OF q(1)] q(2) frame_append frame_advance
    by (auto split: if_splits)
qed

lemma uni_loop_pass:
  assumes "ps_ok ps" "lvl ps = Some sr" "frame ps q" "uni_loop A n mem len hi q = Some (out, ps')"
  shows "pass_ok ps out ps'"
  using assms(3,4)
proof (induction n arbitrary: hi q)
  case (Suc n)
  show ?case
  proof (cases "is_hex_char (ps_c q)")
    case False
    then show ?thesis using Suc.prems fail_pass[OF assms(1)] by auto
  next
    case True
    then obtain p1 where p1: "uni_digit q = Some p1" using Suc.prems(2) by (auto split: Option.bind_splits)
    have f1: "frame ps p1" using Suc.prems(1) frame_uni(1)[OF p1] frame_trans by blast
    show ?thesis
    proof (cases "tk_st_pos (ps_tok p1) = 4")
      case False
      then obtain ok p2 where n2: "next_char mem len p1 = Some (ok, p2)"
        using Suc.prems(2) True p1 by (auto split: Option.bind_splits)
      have f2: "frame ps p2" using f1 frame_next[OF n2] frame_trans by blast
      show ?thesis
        using Suc.prems(2) True p1 False n2 Suc.IH[OF f2] pass_frame[OF assms(1) f2]
          pass_frame[OF assms(1) frame_trans[OF f2 frame_append]]
        by (auto split: if_splits Option.bind_splits)
    next
      case pos: True
      then obtain p2 where p2: "uni_pair A hi p1 = Some p2"
        using Suc.prems(2) True p1 by (auto split: Option.bind_splits)
      have f2: "frame ps p2" using f1 frame_uni(2)[OF p2] frame_trans by blast
      have fin: "pass_ok ps out ps'" if "append_pb A x p2 = Some p3" "uni_done p3 = Some (out, ps')" for x p3
        by (rule uni_done_pass[OF assms(1,2) frame_trans[OF f2 frame_append[OF that(1)]] that(2)])
      have pair: "pass_ok ps out ps'"
        if "uni_skip A p2 = Some p3" "next_char mem len p3 = Some (ok, p4)"
          "(if \<not> ok then do { r \<leftarrow> append_pb A utf8_replacement_char p4; Some (Out, r) }
            else uni_loop A n mem len uc (tok_upd (\<lambda>t. t\<lparr>tk_ucs_char := 0, tk_st_pos := 0\<rparr>) p4)) = Some (out, ps')"
        for p3 ok p4 uc
      proof -
        have f4: "frame ps p4" using f2 frame_uni(3)[OF that(1)] frame_next[OF that(2)] frame_trans by blast
        show ?thesis
          using that(3) Suc.IH[OF frame_trans[OF f4 frame_tok(8)]] pass_frame[OF assms(1) frame_trans[OF f4 frame_append]]
          by (cases ok) (auto split: Option.bind_splits)
      qed
      show ?thesis
        using Suc.prems(2) True p1 pos p2 fin pair
        by (auto simp: Let_def split: if_splits Option.bind_splits)
    qed
  qed
qed simp

lemma tk_number_pass:
  assumes "ps_ok ps" "lvl ps = Some sr" "sr_state sr = json_tokener_state_number" "tk_number A mem len ps = Some (out, ps')"
  shows "pass_ok ps out ps'"
proof -
  obtain ok p1 where t: "tk_number_text A mem len ps = Some (ok, p1)"
    using assms(4) by (auto simp: tk_number_def split: Option.bind_splits)
  then obtain p0 ok' where w: "while_char (\<lambda>c. c \<noteq> NUL \<and> c \<in> set json_number_chars)
       (\<lambda>ps. if ps_c ps = CHR ''.'' \<or> ps_c ps = CHR ''e'' \<or> ps_c ps = CHR ''E''
             then tok_upd (\<lambda>t. t\<lparr>tk_is_double := True\<rparr>) ps else ps) mem len ps = Some (ok', p0)"
    "(if \<not> ok' \<or> since mem (off ps) p0 \<noteq> [] then append_pb A (since mem (off ps) p0) p0 else Some p0) = Some p1"
    by (auto simp: tk_number_text_def Let_def split: Option.bind_splits)
  have "frame ps p0" by (rule frame_while[OF w(1)]) simp
  then have fr: "frame ps p1" using w(2) frame_append[of A _ p0 p1] frame_trans by (auto split: if_splits)
  have v: "pass_ok ps out ps'" if "tk_value Redo x (p1\<lparr>ps_heap := h\<rparr>) = Some (out, ps')" for x h
    by (rule tk_value_pass[OF assms(1) _ assms(2) that]) (use frame_trans[OF fr] assms(3) in auto)
  show ?thesis
    using assms(4) t v fail_pass[OF assms(1) fr] pass_frame[OF assms(1) fr]
    by (auto simp: tk_number_def tk_number_value_def split: if_splits option.splits Option.bind_splits)
qed

lemma close_pass:
  assumes "ps_ok ps" "lvl ps = Some sr" "tk_close b ps = Some (out, ps')"
  shows "pass_ok ps out ps'"
  using assms(3) pass_fail[OF assms(1)] pass_next[OF assms(1,2) frame_refl]
  by (auto simp: tk_close_def set_states_def split: if_splits)

lemma tk_array_pass:
  assumes "ps_ok ps" "lvl ps = Some sr" "rank1 (sr_state sr) = 9" "tk_array b ps = Some (out, ps')"
  shows "pass_ok ps out ps'"
  using assms(4) close_pass[OF assms(1,2)] tk_push_pass[OF assms(1-3)]
  by (auto simp: tk_array_def is_add_def split: if_splits)

lemma tk_object_value_pass:
  assumes "ps_ok ps" "lvl ps = Some sr" "rank1 (sr_state sr) = 9" "tk_object_value ps = Some (out, ps')"
  shows "pass_ok ps out ps'"
  using assms(4) tk_push_pass[OF assms(1-3)] by (auto simp: tk_object_value_def is_add_def)

lemma tk_sep_pass:
  assumes "ps_ok ps" "lvl ps = Some sr" "tk_sep c st e ps = Some (out, ps')" "st \<noteq> json_tokener_state_eatws"
  shows "pass_ok ps out ps'"
  using assms(3,4) pass_fail[OF assms(1)] pass_next[OF assms(1,2) frame_refl]
  by (auto simp: tk_sep_def set_states_def split: if_splits)

text \<open>Taking the value of the level above.\<close>

lemma add_pass:
  assumes "ps_ok ps" "lvl ps = Some sr" "is_add (sr_state sr)" "go Redo f (ps\<lparr>ps_heap := h\<rparr>) = Some (out, ps')"
    "sr_state (f sr) = json_tokener_state_eatws" "rank1 (sr_saved_state (f sr)) = 1" "sr_saved_state (f sr) \<noteq> json_tokener_state_eatws"
  shows "pass_ok ps out ps'"
proof -
  have "pass_ok (ps\<lparr>ps_heap := h\<rparr>) out ps'"
    by (rule pass_go[OF _ _ assms(4), of sr]) (use assms in \<open>auto simp: lvl_def sr_rank_def is_add_def\<close>)
  then show ?thesis by (rule pass_after_frame[rotated]) simp
qed

lemma tk_array_add_pass:
  assumes "ps_ok ps" "lvl ps = Some sr" "sr_state sr = json_tokener_state_array_add" "tk_array_add A ps = Some (out, ps')"
  shows "pass_ok ps out ps'"
proof -
  obtain h where g: "go Redo (set_states json_tokener_state_array_sep json_tokener_state_eatws) (ps\<lparr>ps_heap := h\<rparr>) = Some (out, ps')"
    using assms(4) by (auto simp: tk_array_add_def split: Option.bind_splits)
  show ?thesis by (rule add_pass[OF assms(1,2) _ g]) (use assms(3) in \<open>simp_all add: is_add_def set_states_def\<close>)
qed

lemma tk_object_value_add_pass:
  assumes "ps_ok ps" "lvl ps = Some sr" "sr_state sr = json_tokener_state_object_value_add"
    "tk_object_value_add A ps = Some (out, ps')"
  shows "pass_ok ps out ps'"
proof -
  obtain h where g: "go Redo (\<lambda>sr. (set_states json_tokener_state_object_sep json_tokener_state_eatws sr)\<lparr>sr_obj_field_name := None\<rparr>)
      (ps\<lparr>ps_heap := h\<rparr>) = Some (out, ps')"
    using assms(4) by (auto simp: tk_object_value_add_def split: Option.bind_splits)
  show ?thesis by (rule add_pass[OF assms(1,2) _ g]) (use assms(3) in \<open>simp_all add: is_add_def set_states_def\<close>)
qed

lemma tk_object_field_start_pass:
  assumes "ps_ok ps" "lvl ps = Some sr" "tk_object_field_start b ps = Some (out, ps')"
  shows "pass_ok ps out ps'"
proof -
  have f: "pass_ok ps out ps'"
    if "reset_pb (tok_upd (\<lambda>t. t\<lparr>tk_quote_char := c\<rparr>) ps) = Some p1"
      "go Next (set_state json_tokener_state_object_field) p1 = Some (out, ps')" for c p1
    by (rule pass_next[OF assms(1,2) frame_trans[OF frame_tok(4) frame_reset[OF that(1)]] that(2)])
      (use saved_ok[OF assms(1,2)] in \<open>simp add: set_state_def\<close>)
  show ?thesis using assms(3) f close_pass[OF assms(1,2)] pass_fail[OF assms(1)]
    by (auto simp: tk_object_field_start_def split: if_splits Option.bind_splits)
qed

lemma tk_object_field_end_pass:
  assumes "ps_ok ps" "lvl ps = Some sr" "tk_object_field_end ps = Some (out, ps')"
  shows "pass_ok ps out ps'"
  using assms(3) pass_fail[OF assms(1)] pass_next[OF assms(1,2) frame_refl]
  by (auto simp: tk_object_field_end_def set_states_def split: if_splits)

lemma tk_switch_pass:
  assumes "ps_ok ps" "lvl ps = Some sr" "tk_switch A mem len (sr_state sr) ps = Some (out, ps')"
  shows "pass_ok ps out ps'"
proof -
  note here = assms(1,2)
  have t: "tk_switch A mem len s ps = Some (out, ps')" if "sr_state sr = s" for s using assms(3) that by simp
  show ?thesis
  proof (cases "sr_state sr")
    case json_tokener_state_eatws then show ?thesis using t tk_eatws_pass[OF here] by (simp add: tk_switch_def)
  next
    case json_tokener_state_start then show ?thesis using t tk_start_pass[OF here] by (simp add: tk_switch_def)
  next
    case json_tokener_state_finish then show ?thesis using t tk_finish_pass[OF here] by (simp add: tk_switch_def)
  next
    case json_tokener_state_null then show ?thesis using t tk_null_pass[OF here] by (simp add: tk_switch_def)
  next
    case json_tokener_state_comment_start then show ?thesis using t tk_comment_start_pass[OF here] by (simp add: tk_switch_def)
  next
    case json_tokener_state_comment then show ?thesis using t tk_comment_pass[OF here] by (simp add: tk_switch_def)
  next
    case json_tokener_state_comment_eol then show ?thesis using t tk_comment_eol_pass[OF here] by (simp add: tk_switch_def)
  next
    case json_tokener_state_comment_end then show ?thesis using t tk_comment_end_pass[OF here] by (simp add: tk_switch_def)
  next
    case json_tokener_state_string then show ?thesis using t tk_string_pass[OF here] by (simp add: tk_switch_def)
  next
    case json_tokener_state_string_escape then show ?thesis using t tk_string_escape_pass[OF here] by (simp add: tk_switch_def)
  next
    case json_tokener_state_escape_unicode then show ?thesis
      using t uni_loop_pass[OF here frame_refl] by (simp add: tk_switch_def tk_escape_unicode_def del: uni_loop.simps)
  next
    case json_tokener_state_boolean then show ?thesis using t tk_boolean_pass[OF here] by (simp add: tk_switch_def)
  next
    case json_tokener_state_number then show ?thesis using t tk_number_pass[OF here] by (simp add: tk_switch_def)
  next
    case json_tokener_state_array then show ?thesis using t tk_array_pass[OF here] by (simp add: tk_switch_def)
  next
    case json_tokener_state_array_add then show ?thesis using t tk_array_add_pass[OF here] by (simp add: tk_switch_def)
  next
    case json_tokener_state_array_sep then show ?thesis
      using t tk_sep_pass[OF here] by (simp add: tk_switch_def tk_array_sep_def)
  next
    case json_tokener_state_object_field_start then show ?thesis
      using t tk_object_field_start_pass[OF here] by (simp add: tk_switch_def)
  next
    case json_tokener_state_object_field then show ?thesis using t tk_object_field_pass[OF here] by (simp add: tk_switch_def)
  next
    case json_tokener_state_object_field_end then show ?thesis
      using t tk_object_field_end_pass[OF here] by (simp add: tk_switch_def)
  next
    case json_tokener_state_object_value then show ?thesis using t tk_object_value_pass[OF here] by (simp add: tk_switch_def)
  next
    case json_tokener_state_object_value_add then show ?thesis
      using t tk_object_value_add_pass[OF here] by (simp add: tk_switch_def)
  next
    case json_tokener_state_object_sep then show ?thesis
      using t tk_sep_pass[OF here] by (simp add: tk_switch_def tk_object_sep_def)
  next
    case json_tokener_state_array_after_sep then show ?thesis using t tk_array_pass[OF here] by (simp add: tk_switch_def)
  next
    case json_tokener_state_object_field_start_after_sep then show ?thesis
      using t tk_object_field_start_pass[OF here] by (simp add: tk_switch_def)
  qed
qed

section \<open>Enough fuel\<close>

definition todo :: "string \<Rightarrow> pstate \<Rightarrow> nat" where
  "todo mem ps = nat (int (length mem) - off ps)"

lemma todo_next:
  assumes "next_char mem len q = Some (True, ps')" "frame ps q" "0 \<le> off ps"
  shows "todo mem ps' < todo mem ps \<and> 0 \<le> off ps'"
  using next_char_reads[OF assms(1)] frame_next[OF assms(1)] assms(2,3) by (auto simp: todo_def frame_def)

lemma char_loop_fuel:
  assumes "todo mem ps < n" "todo mem ps < m" "0 \<le> off ps" "\<And>q. frame q (body q)"
  shows "char_loop P body n mem len ps = char_loop P body m mem len ps"
  using assms(1-3)
proof (induction n arbitrary: m ps)
  case (Suc n)
  then obtain m' where m: "m = Suc m'" by (cases m) auto
  have "char_loop P body n mem len p1 = char_loop P body m' mem len p1"
    if "next_char mem len (body ps) = Some (True, p1)" for p1
    by (rule Suc.IH) (use todo_next[OF that assms(4)] Suc.prems m in auto)
  then show ?case unfolding m by (auto split: Option.bind_split)
qed simp

lemma uni_loop_fuel:
  assumes "todo mem ps < n" "todo mem ps < m" "0 \<le> off ps"
  shows "uni_loop A n mem len hi ps = uni_loop A m mem len hi ps"
  using assms
proof (induction n arbitrary: m ps hi)
  case (Suc n)
  then obtain m' where m: "m = Suc m'" by (cases m) auto
  have "uni_loop A n mem len hi p2 = uni_loop A m' mem len hi p2"
    if "uni_digit ps = Some p1" "next_char mem len p1 = Some (True, p2)" for p1 p2
    by (rule Suc.IH) (use todo_next[OF that(2) frame_uni(1)[OF that(1)]] Suc.prems m in auto)
  moreover have "uni_loop A n mem len uc (tok_upd (\<lambda>t. t\<lparr>tk_ucs_char := 0, tk_st_pos := 0\<rparr>) p4)
      = uni_loop A m' mem len uc (tok_upd (\<lambda>t. t\<lparr>tk_ucs_char := 0, tk_st_pos := 0\<rparr>) p4)"
    if "uni_digit ps = Some p1" "uni_pair A hi p1 = Some p2" "uni_skip A p2 = Some p3" "next_char mem len p3 = Some (True, p4)"
    for p1 p2 p3 p4 uc
  proof (rule Suc.IH)
    have "frame ps p3"
      using frame_trans[OF frame_trans[OF frame_uni(1)[OF that(1)] frame_uni(2)[OF that(2)]] frame_uni(3)[OF that(3)]] .
    then have "todo mem p4 < todo mem ps \<and> 0 \<le> off p4" using todo_next[OF that(4)] Suc.prems(3) by blast
    then show "todo mem (tok_upd (\<lambda>t. t\<lparr>tk_ucs_char := 0, tk_st_pos := 0\<rparr>) p4) < n"
      "todo mem (tok_upd (\<lambda>t. t\<lparr>tk_ucs_char := 0, tk_st_pos := 0\<rparr>) p4) < m'"
      "0 \<le> off (tok_upd (\<lambda>t. t\<lparr>tk_ucs_char := 0, tk_st_pos := 0\<rparr>) p4)"
      using Suc.prems m by (auto simp: todo_def tok_upd_def)
  qed
  ultimately show ?case unfolding m by (auto simp: Let_def split: Option.bind_split)
qed simp

text \<open>A pass that redoes a character has one to redo.\<close>

lemma go_off: "go o1 f ps = Some (out, ps') \<Longrightarrow> off ps' = off ps \<and> out = o1"
  by (auto simp: go_def lvl_upd_def tok_upd_def split: Option.bind_splits)

lemma same_off:
  "lvl_upd f ps = Some ps' \<Longrightarrow> off ps' = off ps" "append_pb A s ps = Some ps' \<Longrightarrow> off ps' = off ps"
  "reset_pb ps = Some ps' \<Longrightarrow> off ps' = off ps" "st_pos_inc ps = Some (out, ps') \<Longrightarrow> off ps' = off ps"
  "fail e ps = Some (out, ps') \<Longrightarrow> off ps' = off ps" "tk_value o1 a ps = Some (out, ps') \<Longrightarrow> off ps' = off ps"
  "tk_open new sv ps = Some (out, ps') \<Longrightarrow> off ps' = off ps"
  using go_off[of o1 _ ps out ps'] go_off[of Next _ "ps\<lparr>ps_heap := _\<rparr>" out ps']
  by (force simp: lvl_upd_def append_pb_def reset_pb_def st_pos_inc_def fail_def tk_value_def tk_open_def tok_upd_def
      split: Option.bind_splits)+

lemma char_loop_reads:
  assumes "char_loop P body n mem len ps = Some (True, ps')" "0 \<le> off ps" "\<And>q. off (body q) = off q"
  shows "off ps' = off ps \<or> off ps' < int (length mem)"
  using assms(1,2)
proof (induction n arbitrary: ps)
  case (Suc n)
  show ?case
  proof (cases "P (ps_c ps)")
    case True
    then obtain q where q: "next_char mem len (body ps) = Some (True, q)" "char_loop P body n mem len q = Some (True, ps')"
      using Suc.prems(1) by (auto split: Option.bind_splits if_splits)
    have "off q < int (length mem)" "0 \<le> off q"
      using next_char_reads[OF q(1)] frame_next[OF q(1)] Suc.prems(2) assms(3) by auto
    then show ?thesis using Suc.IH[OF q(2)] by auto
  qed (use Suc.prems in auto)
qed simp

definition no_redo :: "(outcome \<times> pstate) option \<Rightarrow> bool" where
  "no_redo r \<longleftrightarrow> (\<forall>ps. r \<noteq> Some (Redo, ps))"

lemma no_redo_simps [simp]:
  "no_redo None" "no_redo (Some (Next, ps))" "no_redo (Some (Out, ps))" "no_redo (fail e ps)"
  "no_redo (go Next f ps)" "no_redo (tk_value Next a ps)" "no_redo (uni_done ps)"
  by (auto simp: no_redo_def fail_def go_def tk_value_def uni_done_def)

lemma no_redo_bind: "(\<And>x. no_redo (k x)) \<Longrightarrow> no_redo (Option.bind m k)"
  by (cases m) auto

lemma no_redo_if: "no_redo a \<Longrightarrow> no_redo b \<Longrightarrow> no_redo (if c then a else b)"
  by simp

lemmas no_redo_intros = no_redo_bind no_redo_if no_redo_simps

lemma no_redo_gather: "(\<And>q w. no_redo (k q w)) \<Longrightarrow> no_redo (gather A P mem len ps k)"
  unfolding gather_def Let_def by (intro no_redo_bind) (auto simp: split_def intro!: no_redo_intros)

lemma no_redo_quoted: "(\<And>q. no_redo (k q)) \<Longrightarrow> no_redo (tk_quoted A mem len back ps k)"
  unfolding tk_quoted_def Let_def by (intro no_redo_gather no_redo_intros)

lemma no_redo_uni_loop: "no_redo (uni_loop A n mem len hi ps)"
proof (induction n arbitrary: hi ps)
  case (Suc n)
  then show ?case by (auto simp: Let_def split_def intro!: no_redo_intros)
qed simp

lemma no_redo_states:
  "no_redo (tk_comment_start A ps)" "no_redo (tk_comment A mem len ps)" "no_redo (tk_comment_eol A mem len ps)"
  "no_redo (tk_comment_end A ps)" "no_redo (tk_string A mem len ps)" "no_redo (tk_string_escape A ps)"
  "no_redo (tk_escape_unicode A mem len ps)" "no_redo (tk_sep c st e ps)" "no_redo (tk_object_field_start b ps)"
  "no_redo (tk_object_field A mem len ps)" "no_redo (tk_object_field_end ps)" "no_redo (tk_close b ps)"
  unfolding tk_comment_start_def tk_comment_def tk_comment_eol_def tk_comment_end_def tk_string_def tk_string_escape_def
    tk_escape_unicode_def tk_sep_def tk_object_field_start_def tk_object_field_def tk_object_field_end_def tk_close_def Let_def
  by (auto simp: split_def simp del: uni_loop.simps intro!: no_redo_intros no_redo_gather no_redo_quoted no_redo_uni_loop)

lemma push_off: "tk_push st ps = Some (out, ps') \<Longrightarrow> off ps' = off ps"
  using reset_level_eq same_off(1,5) by (fastforce simp: tk_push_def Let_def split: if_splits Option.bind_splits)

lemma finish_off: "tk_finish ps = Some (out, ps') \<Longrightarrow> off ps' = off ps"
  using reset_level_eq by (fastforce simp: tk_finish_def split: if_splits Option.bind_splits)

lemma eatws_reads:
  assumes "tk_eatws A mem len ps = Some (Redo, ps')" "0 \<le> off ps"
  shows "off ps' = off ps \<or> off ps' < int (length mem)"
proof -
  obtain p1 where w: "while_char c_isspace id mem len ps = Some (True, p1)"
    "go Redo (\<lambda>sr. sr\<lparr>sr_state := sr_saved_state sr\<rparr>) p1 = Some (Redo, ps')"
    using assms(1) go_off by (fastforce simp: tk_eatws_def split: if_splits Option.bind_splits)
  show ?thesis using char_loop_reads[OF w(1)[unfolded while_char_def] assms(2)] go_off[OF w(2)] by simp
qed

lemma number_reads:
  assumes "tk_number A mem len ps = Some (Redo, ps')" "0 \<le> off ps"
  shows "off ps' = off ps \<or> off ps' < int (length mem)"
proof -
  obtain p1 where t: "tk_number_text A mem len ps = Some (True, p1)" "tk_number_value A p1 = Some (Redo, ps')"
    using assms(1) by (auto simp: tk_number_def split: if_splits Option.bind_splits)
  from t(2) have "off ps' = off p1"
    using same_off(5,6) by (fastforce simp: tk_number_value_def split: if_splits option.splits Option.bind_splits)
  moreover obtain p0 where w: "while_char (\<lambda>c. c \<noteq> NUL \<and> c \<in> set json_number_chars)
       (\<lambda>ps. if ps_c ps = CHR ''.'' \<or> ps_c ps = CHR ''e'' \<or> ps_c ps = CHR ''E''
             then tok_upd (\<lambda>t. t\<lparr>tk_is_double := True\<rparr>) ps else ps) mem len ps = Some (True, p0)" "off p1 = off p0"
    using t(1) same_off(2) by (fastforce simp: tk_number_text_def Let_def split: if_splits Option.bind_splits)
  have "off p0 = off ps \<or> off p0 < int (length mem)"
    by (rule char_loop_reads[OF w(1)[unfolded while_char_def] assms(2)]) (simp add: tok_upd_def)
  ultimately show ?thesis using w(2) by simp
qed

lemma redo_reads:
  assumes "tk_switch A mem len s ps = Some (Redo, ps')" "0 \<le> off ps"
  shows "off ps' = off ps \<or> off ps' < int (length mem)"
proof -
  have nr: False if "no_redo r" "r = Some (Redo, ps')" for r using that by (simp add: no_redo_def)
  have start: "off ps' = off ps" if "tk_start A ps = Some (Redo, ps')"
    using that same_off(1,3,5,7)
    by (fastforce simp: tk_start_def tok_upd_def Let_def split: if_splits Option.bind_splits)
  have null: "off ps' = off ps" if "tk_null A ps = Some (Redo, ps')"
    using that same_off(2,4,5,6) by (fastforce simp: tk_null_def split: if_splits Option.bind_splits)
  have bool: "off ps' = off ps" if "tk_boolean A ps = Some (Redo, ps')"
    using that same_off(2,4,5,6) by (fastforce simp: tk_boolean_def split: if_splits Option.bind_splits)
  have add: "off ps' = off ps" if "tk_array_add A ps = Some (Redo, ps') \<or> tk_object_value_add A ps = Some (Redo, ps')"
    using that go_off by (fastforce simp: tk_array_add_def tk_object_value_add_def split: Option.bind_splits)
  have arr: "off ps' = off ps" if "tk_array b ps = Some (Redo, ps')" for b
    using that by (auto simp: tk_array_def dest: push_off nr[OF no_redo_states(12)] split: if_splits)
  have ov: "off ps' = off ps" if "tk_object_value ps = Some (Redo, ps')"
    using that push_off by (auto simp: tk_object_value_def)
  show ?thesis
    using assms eatws_reads number_reads start null bool add arr ov finish_off
    by (cases s) (auto simp: tk_switch_def tk_array_sep_def tk_object_sep_def dest: no_redo_states[THEN nr])
qed

definition potential :: "string \<Rightarrow> pstate \<Rightarrow> nat" where
  "potential mem ps = 11 * todo mem ps + rank ps"

lemma potential_bound: "0 \<le> off ps \<Longrightarrow> potential mem ps < parse_fuel mem"
  using rank_le[of ps] by (auto simp: potential_def parse_fuel_def todo_def)

lemma potential_redo:
  assumes "pass_ok ps Redo ps'" "0 \<le> off ps" "off ps < int (length mem)"
  shows "potential mem ps' < potential mem ps"
proof -
  have "off ps < off ps' \<or> off ps = off ps' \<and> rank ps' < rank ps" using assms(1) by (auto simp: pass_ok_def)
  then consider "off ps < off ps'" | "off ps = off ps'" "rank ps' < rank ps" by blast
  then show ?thesis
  proof cases
    case 1
    then have "todo mem ps' + 1 \<le> todo mem ps" using assms(2,3) by (auto simp: todo_def)
    then show ?thesis using rank_le[of ps'] by (simp add: potential_def)
  qed (simp add: potential_def todo_def)
qed

lemma potential_next:
  assumes "pass_ok ps Next p1" "next_char mem len p1 = Some (True, ps')" "0 \<le> off ps"
  shows "potential mem ps' < potential mem ps \<and> 0 \<le> off ps'"
proof -
  have "todo mem ps' < todo mem p1 \<and> 0 \<le> off ps'"
    using todo_next[OF assms(2) frame_refl] assms(1,3) by (auto simp: pass_ok_def)
  moreover have "todo mem p1 \<le> todo mem ps" using assms(1) by (auto simp: todo_def pass_ok_def)
  ultimately show ?thesis using rank_le[of ps'] by (auto simp: potential_def)
qed

text \<open>A number of passes that exceeds the potential is enough: the result does not depend on it. A pass that
  redoes the character may leave the input behind it; then the next read decides.\<close>

lemma parse_loop_fuel:
  assumes "ps_ok ps" "0 \<le> off ps" "potential mem ps < n" "potential mem ps < m" "off ps < int (length mem)"
  shows "parse_loop A n mem len ps = parse_loop A m mem len ps"
  using assms
proof (induction n arbitrary: m ps)
  case (Suc n)
  then obtain m' where m: "m = Suc m'" by (cases m) auto
  have redo: "parse_loop A n mem len p1 = parse_loop A m' mem len p1"
    if "lvl ps = Some sr" "tk_switch A mem len (sr_state sr) ps = Some (Redo, p1)" for sr p1
  proof -
    have p: "pass_ok ps Redo p1" using tk_switch_pass[OF Suc.prems(1) that] .
    then have "potential mem p1 < potential mem ps" using potential_redo Suc.prems by blast
    moreover have "off p1 < int (length mem)" using redo_reads[OF that(2)] Suc.prems by auto
    ultimately show ?thesis using p Suc.prems m by (intro Suc.IH) (auto simp: pass_ok_def)
  qed
  have nxt: "parse_loop A n mem len p2 = parse_loop A m' mem len p2"
    if "lvl ps = Some sr" "tk_switch A mem len (sr_state sr) ps = Some (Next, p1)" "next_char mem len p1 = Some (True, p2)" for sr p1 p2
  proof -
    have p: "pass_ok ps Next p1" using tk_switch_pass[OF Suc.prems(1) that(1,2)] .
    have "ps_ok p2" using p frame_keeps frame_next[OF that(3)] by (auto simp: pass_ok_def)
    moreover have "off p2 < int (length mem)" using next_char_reads[OF that(3)] p Suc.prems(2) by (auto simp: pass_ok_def)
    ultimately show ?thesis using potential_next[OF p that(3) Suc.prems(2)] Suc.prems m by (intro Suc.IH) auto
  qed
  show ?case unfolding m using redo nxt
    by (auto split: Option.bind_split outcome.split)
qed simp

section \<open>Properties\<close>


definition fresh_tokener :: "int \<Rightarrow> json_tokener" where
  "fresh_tokener d = \<lparr>tk_pb = printbuf_new (\<lambda>_. True), tk_max_depth = d, tk_depth = 0, tk_is_double = False,
     tk_st_pos = 0, tk_char_offset = 0, tk_err = json_tokener_success, tk_ucs_char = 0, tk_quote_char = NUL,
     tk_stack = sr_reset # replicate (nat d - 1)
       \<lparr>sr_state = json_tokener_state_eatws, sr_saved_state = json_tokener_state_eatws,
        sr_current = None, sr_obj_field_name = None\<rparr>, tk_flags = 0\<rparr>"

lemma fresh_tokener_ok: "1 \<le> d \<Longrightarrow> tk_ok (fresh_tokener d)"
  by (simp add: tk_ok_def fresh_tokener_def sr_reset_def)


lemma parse_loop_ok:
  assumes "parse_loop A n mem len ps = Some ps'" "ps_ok ps"
  shows "ps_ok ps' \<and> tk_max_depth (ps_tok ps') = tk_max_depth (ps_tok ps)"
  using assms
proof (induction n arbitrary: ps)
  case (Suc n)
  then obtain sr out p1 where s: "lvl ps = Some sr" "tk_switch A mem len (sr_state sr) ps = Some (out, p1)"
    by (auto split: Option.bind_splits)
  have p: "ps_ok p1" "tk_max_depth (ps_tok p1) = tk_max_depth (ps_tok ps)"
    using tk_switch_pass[OF Suc.prems(2) s] by (auto simp: pass_ok_def)
  show ?case
  proof (cases out)
    case Redo
    then show ?thesis using Suc.IH[of p1] Suc.prems(1) s p by simp
  next
    case Next
    then obtain ok p2 where n: "next_char mem len p1 = Some (ok, p2)" "(if ok then parse_loop A n mem len p2 else Some p2) = Some ps'"
      using Suc.prems(1) s by (auto split: Option.bind_splits)
    have "ps_ok p2" "tk_max_depth (ps_tok p2) = tk_max_depth (ps_tok p1)"
      using frame_next[OF n(1)] frame_keeps[of p1 p2] p by (simp_all add: frame_def)
    then show ?thesis using Suc.IH[of p2] n(2) p by (cases ok) auto
  next
    case Out
    then show ?thesis using Suc.prems(1) s p by simp
  qed
qed simp

lemma reset_levels_eq:
  "reset_levels n t h = Some (t', h') \<Longrightarrow>
    \<exists>st. t' = t\<lparr>tk_stack := st\<rparr> \<and> length st = length (tk_stack t) \<and> n \<le> length st
      \<and> (\<forall>i < length st. st ! i = (if i < n then sr_reset else tk_stack t ! i))"
proof (induction n arbitrary: t h)
  case (Suc n)
  then obtain t1 h1 where r: "json_tokener_reset_level t h (int n) = Some (t1, h1)" "reset_levels n t1 h1 = Some (t', h')"
    by (auto split: Option.bind_splits)
  then show ?case using reset_level_eq[OF r(1)] Suc.IH[OF r(2)] by (auto simp: nth_list_update less_Suc_eq)
qed (auto intro: exI[of _ "tk_stack t'"])

lemma reset_levels_ok:
  assumes "reset_levels (nat (tk_depth t + 1)) t h = Some (t', h')" "0 \<le> tk_depth t" "tk_depth t < tk_max_depth t"
    "int (length (tk_stack t)) = tk_max_depth t"
  shows "tk_ok (t'\<lparr>tk_depth := 0, tk_err := e\<rparr>)"
proof -
  obtain st where "t' = t\<lparr>tk_stack := st\<rparr>" "length st = length (tk_stack t)"
    "\<forall>i < length st. st ! i = (if i < nat (tk_depth t + 1) then sr_reset else tk_stack t ! i)"
    using reset_levels_eq[OF assms(1)] by blast
  moreover have "0 < length (tk_stack t)" "0 < nat (tk_depth t + 1)" using assms(2-4) by auto
  ultimately have "sr_saved_state (tk_stack t' ! 0) = json_tokener_state_start" "tk_stack t' = st"
    by (simp_all add: sr_reset_def)
  then show ?thesis using assms(2-4) \<open>t' = _\<close> \<open>length st = _\<close> by (simp add: tk_ok_def)
qed

lemma parse_out_ok:
  assumes "parse_out ps = Some (r, tok, h)" "ps_ok ps"
  shows "0 \<le> tk_depth tok \<and> tk_depth tok < tk_max_depth tok \<and> tk_max_depth tok = tk_max_depth (ps_tok ps)
    \<and> int (length (tk_stack tok)) = tk_max_depth tok \<and> (tk_err tok \<noteq> json_tokener_success \<or> tk_depth tok = 0 \<longrightarrow> tk_ok tok)"
proof -
  let ?t = "ps_tok ps"
  obtain e where e: "tok = ?t\<lparr>tk_err := e\<rparr> \<or>
      (\<exists>h1 h2. e = json_tokener_success \<and> reset_levels (nat (tk_depth ?t + 1)) (?t\<lparr>tk_err := e\<rparr>) h1 = Some (tok, h2))"
  proof -
    define e where "e = (case lvl ps of Some sr \<Rightarrow>
       if ps_c ps = NUL \<and> sr_state sr \<noteq> json_tokener_state_finish \<and> sr_saved_state sr \<noteq> json_tokener_state_finish
       then json_tokener_error_parse_eof else tk_err ?t | None \<Rightarrow> tk_err ?t)"
    have "tok = ?t\<lparr>tk_err := e\<rparr> \<or>
      (\<exists>h1 h2. e = json_tokener_success \<and> reset_levels (nat (tk_depth ?t + 1)) (?t\<lparr>tk_err := e\<rparr>) h1 = Some (tok, h2))"
      using assms(1) by (auto simp: parse_out_def e_def Let_def split: if_splits Option.bind_splits)
    then show thesis by (rule that)
  qed
  then show ?thesis
  proof
    assume "tok = ?t\<lparr>tk_err := e\<rparr>"
    then show ?thesis using assms(2) by (simp add: tk_ok_def)
  next
    assume "\<exists>h1 h2. e = json_tokener_success \<and> reset_levels (nat (tk_depth ?t + 1)) (?t\<lparr>tk_err := e\<rparr>) h1 = Some (tok, h2)"
    then obtain h1 h2 where r: "reset_levels (nat (tk_depth ?t + 1)) (?t\<lparr>tk_err := e\<rparr>) h1 = Some (tok, h2)"
      and es: "e = json_tokener_success" by blast
    obtain st where st: "tok = ?t\<lparr>tk_err := e, tk_stack := st\<rparr>" "length st = length (tk_stack ?t)"
      using reset_levels_eq[OF r] by auto
    have "tk_ok (tok\<lparr>tk_depth := 0, tk_err := e\<rparr>)"
      by (rule reset_levels_ok[of "?t\<lparr>tk_err := e\<rparr>" h1 tok h2]) (use r assms(2) in \<open>auto simp: tk_ok_def\<close>)
    moreover have "tok\<lparr>tk_depth := 0, tk_err := e\<rparr> = tok" if "tk_depth tok = 0"
      using that st(1) by simp
    ultimately show ?thesis using st assms(2) es by (auto simp: tk_ok_def)
  qed
qed



end
