(* ===== verification/CJson.thy ===== *)
theory CJson
  imports CLib
begin

unbundle bit_operations_syntax

text \<open>
  The items of \<^verbatim>\<open>src/cJSON/cJSON.c\<close> and the operations on their lists. The heap maps addresses to items
  and to strings; an address is used once, so that an access through a pointer to released memory finds nothing and
  is a fault (\<open>None\<close>), and so is releasing a string twice or releasing a literal. \<open>A\<close> is the allocator, the
  function behind \<^verbatim>\<open>cJSON_malloc\<close>; an item has 64 bytes. Loops over the lists of items have a fuel of one more than
  the number of addresses used, which only a cyclic list exhausts.
\<close>

section \<open>Types\<close>


definition cJSON_False :: u32 where [c_eval]: "cJSON_False = 0"
definition cJSON_True :: u32 where [c_eval]: "cJSON_True = 1"
definition cJSON_NULL :: u32 where [c_eval]: "cJSON_NULL = 2"
definition cJSON_Number :: u32 where [c_eval]: "cJSON_Number = 3"
definition cJSON_String :: u32 where [c_eval]: "cJSON_String = 4"
definition cJSON_Array :: u32 where [c_eval]: "cJSON_Array = 5"
definition cJSON_Object :: u32 where [c_eval]: "cJSON_Object = 6"
definition cJSON_IsReference :: u32 where [c_eval]: "cJSON_IsReference = 256"
definition cJSON_StringIsConst :: u32 where [c_eval]: "cJSON_StringIsConst = 512"

record cJSON =
  cj_next :: "nat option"
  cj_prev :: "nat option"
  cj_child :: "nat option"
  cj_type :: u32
  cj_valuestring :: "nat option"
  cj_valueint :: int
  cj_valuedouble :: double
  cj_string :: "nat option"

text \<open>A string is a literal (not from the heap) or a block of the heap.\<close>

record cheap =
  ch_node :: "nat \<Rightarrow> cJSON option"
  ch_str :: "nat \<Rightarrow> (bool \<times> string) option"
  ch_top :: nat

definition cj_fuel :: "cheap \<Rightarrow> nat" where
  "cj_fuel h = Suc (ch_top h)"

definition is_ref :: "cJSON \<Rightarrow> bool" where
  "is_ref nd \<longleftrightarrow> cj_type nd AND cJSON_IsReference \<noteq> 0"

definition is_const :: "cJSON \<Rightarrow> bool" where
  "is_const nd \<longleftrightarrow> cj_type nd AND cJSON_StringIsConst \<noteq> 0"

definition node_upd :: "cheap \<Rightarrow> nat \<Rightarrow> (cJSON \<Rightarrow> cJSON) \<Rightarrow> cheap option" where
  "node_upd h a f = do {
     nd \<leftarrow> ch_node h a;
     Some (h\<lparr>ch_node := (ch_node h)(a \<mapsto> f nd)\<rparr>) }"

definition str_free :: "cheap \<Rightarrow> nat \<Rightarrow> cheap option" where
  "str_free h a =
     (case ch_str h a of
        Some (literal, s) \<Rightarrow> if literal then None else Some (h\<lparr>ch_str := (ch_str h)(a := None)\<rparr>)
      | None \<Rightarrow> None)"

definition node_free :: "cheap \<Rightarrow> nat \<Rightarrow> cheap option" where
  "node_free h a = do { nd \<leftarrow> ch_node h a; Some (h\<lparr>ch_node := (ch_node h)(a := None)\<rparr>) }"

text \<open>The text of a string that may be \<^verbatim>\<open>NULL\<close>.\<close>

definition str_at :: "cheap \<Rightarrow> nat option \<Rightarrow> string option option" where
  "str_at h p = (case p of None \<Rightarrow> Some None | Some a \<Rightarrow> map_option (\<lambda>(l, s). Some s) (ch_str h a))"

section \<open>Strings and allocation\<close>

text \<open>\<^verbatim>\<open>cJSON_InitHooks\<close>: the allocator used from now on; \<open>None\<close> is a null pointer.\<close>

definition cJSON_InitHooks :: "allocator \<Rightarrow> allocator option option \<Rightarrow> allocator" where
  "cJSON_InitHooks malloc hooks =
     (case hooks of None \<Rightarrow> malloc | Some malloc_fn \<Rightarrow> (case malloc_fn of None \<Rightarrow> malloc | Some f \<Rightarrow> f))"

text \<open>The comparison loop, on the texts before the terminators.\<close>

fun strcasecmp_loop :: "string \<Rightarrow> string \<Rightarrow> int" where
  "strcasecmp_loop (x # a) (y # b) =
     (if c_tolower x = c_tolower y then strcasecmp_loop a b else int (cc (c_tolower x)) - int (cc (c_tolower y)))"
| "strcasecmp_loop [] [] = 0"
| "strcasecmp_loop [] (y # b) = - int (cc (c_tolower y))"
| "strcasecmp_loop (x # a) [] = int (cc (c_tolower x))"

definition cJSON_strcasecmp :: "string option \<Rightarrow> string option \<Rightarrow> int" where
  "cJSON_strcasecmp s1 s2 =
     (case s1 of None \<Rightarrow> (if s2 = None then 0 else 1)
      | Some a \<Rightarrow> (case s2 of None \<Rightarrow> 1 | Some b \<Rightarrow> strcasecmp_loop a b))"

definition new_string :: "cheap \<Rightarrow> string \<Rightarrow> nat \<times> cheap" where
  "new_string h s = (ch_top h, h\<lparr>ch_str := (ch_str h)(ch_top h \<mapsto> (False, s)), ch_top := ch_top h + 1\<rparr>)"

definition cJSON_strdup :: "allocator \<Rightarrow> cheap \<Rightarrow> string \<Rightarrow> nat option \<times> cheap" where
  "cJSON_strdup A h s =
     (if A (int (length s) + 1) then (case new_string h s of (a, h) \<Rightarrow> (Some a, h)) else (None, h))"

text \<open>The double with all bits zero.\<close>

definition double_zero :: double where "double_zero = Fin False 0 (- 1074)"

definition cJSON_New_Item :: "allocator \<Rightarrow> cheap \<Rightarrow> nat option \<times> cheap" where
  "cJSON_New_Item A h =
     (if A 64
      then (Some (ch_top h),
            h\<lparr>ch_node := (ch_node h)(ch_top h \<mapsto>
                \<lparr>cj_next = None, cj_prev = None, cj_child = None, cj_type = 0, cj_valuestring = None,
                 cj_valueint = 0, cj_valuedouble = double_zero, cj_string = None\<rparr>),
              ch_top := ch_top h + 1\<rparr>)
      else (None, h))"

section \<open>Deletion\<close>

definition free_opt :: "bool \<Rightarrow> cheap \<Rightarrow> nat option \<Rightarrow> cheap option" where
  "free_opt b h p = (case p of Some a \<Rightarrow> if b then str_free h a else Some h | None \<Rightarrow> Some h)"

text \<open>\<^verbatim>\<open>cJSON_Delete\<close>: the recursion into the child and the loop over \<^verbatim>\<open>next\<close>. The fields are read again after the
  recursive call, as the code does.\<close>

fun cj_delete :: "nat \<Rightarrow> cheap \<Rightarrow> nat option \<Rightarrow> cheap option" where
  "cj_delete n h None = Some h"
| "cj_delete 0 h (Some c) = None"
| "cj_delete (Suc n) h (Some c) = do {
     nd \<leftarrow> ch_node h c;
     let nxt = cj_next nd;
     h \<leftarrow> (if \<not> is_ref nd \<and> cj_child nd \<noteq> None then cj_delete n h (cj_child nd) else Some h);
     nd \<leftarrow> ch_node h c;
     h \<leftarrow> free_opt (\<not> is_ref nd) h (cj_valuestring nd);
     h \<leftarrow> free_opt (\<not> is_const nd) h (cj_string nd);
     h \<leftarrow> node_free h c;
     cj_delete n h nxt }"

definition cJSON_Delete :: "cheap \<Rightarrow> nat option \<Rightarrow> cheap option" where
  "cJSON_Delete h c = cj_delete (cj_fuel h) h c"

section \<open>Walking the list of children\<close>

definition child_of :: "cheap \<Rightarrow> nat \<Rightarrow> nat option option" where
  "child_of h a = map_option cj_child (ch_node h a)"

fun count_loop :: "nat \<Rightarrow> cheap \<Rightarrow> nat option \<Rightarrow> int option" where
  "count_loop n h None = Some 0"
| "count_loop 0 h (Some c) = None"
| "count_loop (Suc n) h (Some c) = do {
     nd \<leftarrow> ch_node h c;
     i \<leftarrow> count_loop n h (cj_next nd);
     c_int (i + 1) }"

definition cJSON_GetArraySize :: "cheap \<Rightarrow> nat \<Rightarrow> int option" where
  "cJSON_GetArraySize h array = do { c \<leftarrow> child_of h array; count_loop (cj_fuel h) h c }"

text \<open>\<^verbatim>\<open>while (c && which > 0) c = c->next, which--\<close>.\<close>

fun skip_loop :: "nat \<Rightarrow> cheap \<Rightarrow> nat option \<Rightarrow> nat option option" where
  "skip_loop 0 h c = Some c"
| "skip_loop (Suc which) h None = Some None"
| "skip_loop (Suc which) h (Some c) = do { nd \<leftarrow> ch_node h c; skip_loop which h (cj_next nd) }"

definition nth_child :: "cheap \<Rightarrow> nat \<Rightarrow> int \<Rightarrow> nat option option" where
  "nth_child h array which = do { c \<leftarrow> child_of h array; skip_loop (nat which) h c }"

definition cJSON_GetArrayItem :: "cheap \<Rightarrow> nat \<Rightarrow> int \<Rightarrow> nat option option" where
  "cJSON_GetArrayItem h array item = nth_child h array item"

text \<open>The search by name, with the number of items passed.\<close>

fun find_loop :: "nat \<Rightarrow> cheap \<Rightarrow> string \<Rightarrow> nat option \<Rightarrow> int \<Rightarrow> (nat option \<times> int) option" where
  "find_loop n h key None i = Some (None, i)"
| "find_loop 0 h key (Some c) i = None"
| "find_loop (Suc n) h key (Some c) i = do {
     nd \<leftarrow> ch_node h c;
     s \<leftarrow> str_at h (cj_string nd);
     if cJSON_strcasecmp s (Some key) = 0 then Some (Some c, i)
     else do { i \<leftarrow> c_int (i + 1); find_loop n h key (cj_next nd) i } }"

definition find_child :: "cheap \<Rightarrow> nat \<Rightarrow> string \<Rightarrow> (nat option \<times> int) option" where
  "find_child h object' key = do { c \<leftarrow> child_of h object'; find_loop (cj_fuel h) h key c 0 }"

definition cJSON_GetObjectItem :: "cheap \<Rightarrow> nat \<Rightarrow> string \<Rightarrow> nat option option" where
  "cJSON_GetObjectItem h object' string' = map_option fst (find_child h object' string')"

section \<open>Adding items\<close>

text \<open>The last item: \<^verbatim>\<open>while (c && c->next) c = c->next\<close>.\<close>

fun last_loop :: "nat \<Rightarrow> cheap \<Rightarrow> nat \<Rightarrow> nat option" where
  "last_loop 0 h c = None"
| "last_loop (Suc n) h c = do {
     nd \<leftarrow> ch_node h c;
     case cj_next nd of None \<Rightarrow> Some c | Some d \<Rightarrow> last_loop n h d }"

definition suffix_object :: "cheap \<Rightarrow> nat \<Rightarrow> nat \<Rightarrow> cheap option" where
  "suffix_object h prev item = do {
     h \<leftarrow> node_upd h prev (\<lambda>nd. nd\<lparr>cj_next := Some item\<rparr>);
     node_upd h item (\<lambda>nd. nd\<lparr>cj_prev := Some prev\<rparr>) }"

definition create_reference :: "allocator \<Rightarrow> cheap \<Rightarrow> nat \<Rightarrow> (nat option \<times> cheap) option" where
  "create_reference A h item =
     (case cJSON_New_Item A h of
        (None, h) \<Rightarrow> Some (None, h)
      | (Some ref, h) \<Rightarrow> do {
          nd \<leftarrow> ch_node h item;
          h \<leftarrow> node_upd h ref (\<lambda>r. nd\<lparr>cj_string := None, cj_type := cj_type nd OR cJSON_IsReference,
                                    cj_next := None, cj_prev := None\<rparr>);
          Some (Some ref, h) })"

definition cJSON_AddItemToArray :: "cheap \<Rightarrow> nat \<Rightarrow> nat option \<Rightarrow> cheap option" where
  "cJSON_AddItemToArray h array item = do {
     c \<leftarrow> child_of h array;
     case item of None \<Rightarrow> Some h
     | Some x \<Rightarrow>
         (case c of
            None \<Rightarrow> node_upd h array (\<lambda>nd. nd\<lparr>cj_child := Some x\<rparr>)
          | Some c \<Rightarrow> do { l \<leftarrow> last_loop (cj_fuel h) h c; suffix_object h l x }) }"

text \<open>The name of the item is released whether or not it is a literal; \<^verbatim>\<open>strdup\<close> may refuse.\<close>

definition cJSON_AddItemToObject :: "allocator \<Rightarrow> cheap \<Rightarrow> nat \<Rightarrow> string \<Rightarrow> nat option \<Rightarrow> cheap option" where
  "cJSON_AddItemToObject A h object' string' item =
     (case item of None \<Rightarrow> Some h
      | Some x \<Rightarrow> do {
          nd \<leftarrow> ch_node h x;
          h \<leftarrow> free_opt True h (cj_string nd);
          let (d, h) = cJSON_strdup A h string';
          h \<leftarrow> node_upd h x (\<lambda>nd. nd\<lparr>cj_string := d\<rparr>);
          cJSON_AddItemToArray h object' (Some x) })"

text \<open>The literal \<open>string'\<close> is given by its address.\<close>

definition cJSON_AddItemToObjectCS :: "cheap \<Rightarrow> nat \<Rightarrow> nat \<Rightarrow> nat option \<Rightarrow> cheap option" where
  "cJSON_AddItemToObjectCS h object' string' item =
     (case item of None \<Rightarrow> Some h
      | Some x \<Rightarrow> do {
          nd \<leftarrow> ch_node h x;
          h \<leftarrow> free_opt (\<not> is_const nd) h (cj_string nd);
          h \<leftarrow> node_upd h x (\<lambda>nd. nd\<lparr>cj_string := Some string', cj_type := cj_type nd OR cJSON_StringIsConst\<rparr>);
          cJSON_AddItemToArray h object' (Some x) })"

definition cJSON_AddItemReferenceToArray :: "allocator \<Rightarrow> cheap \<Rightarrow> nat \<Rightarrow> nat \<Rightarrow> cheap option" where
  "cJSON_AddItemReferenceToArray A h array item = do {
     (r, h) \<leftarrow> create_reference A h item;
     cJSON_AddItemToArray h array r }"

definition cJSON_AddItemReferenceToObject :: "allocator \<Rightarrow> cheap \<Rightarrow> nat \<Rightarrow> string \<Rightarrow> nat \<Rightarrow> cheap option" where
  "cJSON_AddItemReferenceToObject A h object' string' item = do {
     (r, h) \<leftarrow> create_reference A h item;
     cJSON_AddItemToObject A h object' string' r }"

section \<open>Removing and replacing items\<close>

text \<open>An assignment through a pointer that may be \<^verbatim>\<open>NULL\<close>, guarded by a test of it.\<close>

definition if_node :: "cheap \<Rightarrow> nat option \<Rightarrow> (cJSON \<Rightarrow> cJSON) \<Rightarrow> cheap option" where
  "if_node h p f = (case p of None \<Rightarrow> Some h | Some a \<Rightarrow> node_upd h a f)"

definition cJSON_DetachItemFromArray :: "cheap \<Rightarrow> nat \<Rightarrow> int \<Rightarrow> (nat option \<times> cheap) option" where
  "cJSON_DetachItemFromArray h array which = do {
     c \<leftarrow> nth_child h array which;
     case c of None \<Rightarrow> Some (None, h)
     | Some c \<Rightarrow> do {
         nd \<leftarrow> ch_node h c;
         h \<leftarrow> if_node h (cj_prev nd) (\<lambda>p. p\<lparr>cj_next := cj_next nd\<rparr>);
         h \<leftarrow> if_node h (cj_next nd) (\<lambda>n. n\<lparr>cj_prev := cj_prev nd\<rparr>);
         first \<leftarrow> child_of h array;
         h \<leftarrow> (if Some c = first then node_upd h array (\<lambda>a. a\<lparr>cj_child := cj_next nd\<rparr>) else Some h);
         h \<leftarrow> node_upd h c (\<lambda>nd. nd\<lparr>cj_prev := None, cj_next := None\<rparr>);
         Some (Some c, h) } }"

definition cJSON_DeleteItemFromArray :: "cheap \<Rightarrow> nat \<Rightarrow> int \<Rightarrow> cheap option" where
  "cJSON_DeleteItemFromArray h array which = do {
     (c, h) \<leftarrow> cJSON_DetachItemFromArray h array which;
     cJSON_Delete h c }"

definition cJSON_DetachItemFromObject :: "cheap \<Rightarrow> nat \<Rightarrow> string \<Rightarrow> (nat option \<times> cheap) option" where
  "cJSON_DetachItemFromObject h object' string' = do {
     (c, i) \<leftarrow> find_child h object' string';
     if c \<noteq> None then cJSON_DetachItemFromArray h object' i else Some (None, h) }"

definition cJSON_DeleteItemFromObject :: "cheap \<Rightarrow> nat \<Rightarrow> string \<Rightarrow> cheap option" where
  "cJSON_DeleteItemFromObject h object' string' = do {
     (c, h) \<leftarrow> cJSON_DetachItemFromObject h object' string';
     cJSON_Delete h c }"

definition cJSON_InsertItemInArray :: "cheap \<Rightarrow> nat \<Rightarrow> int \<Rightarrow> nat option \<Rightarrow> cheap option" where
  "cJSON_InsertItemInArray h array which newitem = do {
     c \<leftarrow> nth_child h array which;
     case c of None \<Rightarrow> cJSON_AddItemToArray h array newitem
     | Some c \<Rightarrow> do {
         n \<leftarrow> newitem;
         nd \<leftarrow> ch_node h c;
         h \<leftarrow> node_upd h n (\<lambda>x. x\<lparr>cj_next := Some c, cj_prev := cj_prev nd\<rparr>);
         h \<leftarrow> node_upd h c (\<lambda>x. x\<lparr>cj_prev := Some n\<rparr>);
         first \<leftarrow> child_of h array;
         if Some c = first then node_upd h array (\<lambda>a. a\<lparr>cj_child := Some n\<rparr>)
         else do {
           nn \<leftarrow> ch_node h n;
           p \<leftarrow> cj_prev nn;
           node_upd h p (\<lambda>x. x\<lparr>cj_next := Some n\<rparr>) } } }"

definition cJSON_ReplaceItemInArray :: "cheap \<Rightarrow> nat \<Rightarrow> int \<Rightarrow> nat option \<Rightarrow> cheap option" where
  "cJSON_ReplaceItemInArray h array which newitem = do {
     c \<leftarrow> nth_child h array which;
     case c of None \<Rightarrow> Some h
     | Some c \<Rightarrow> do {
         n \<leftarrow> newitem;
         nd \<leftarrow> ch_node h c;
         h \<leftarrow> node_upd h n (\<lambda>x. x\<lparr>cj_next := cj_next nd, cj_prev := cj_prev nd\<rparr>);
         h \<leftarrow> if_node h (cj_next nd) (\<lambda>x. x\<lparr>cj_prev := Some n\<rparr>);
         first \<leftarrow> child_of h array;
         h \<leftarrow> (if Some c = first then node_upd h array (\<lambda>a. a\<lparr>cj_child := Some n\<rparr>)
              else do {
                nn \<leftarrow> ch_node h n;
                p \<leftarrow> cj_prev nn;
                node_upd h p (\<lambda>x. x\<lparr>cj_next := Some n\<rparr>) });
         h \<leftarrow> node_upd h c (\<lambda>x. x\<lparr>cj_next := None, cj_prev := None\<rparr>);
         cJSON_Delete h (Some c) } }"

definition cJSON_ReplaceItemInObject :: "allocator \<Rightarrow> cheap \<Rightarrow> nat \<Rightarrow> string \<Rightarrow> nat \<Rightarrow> cheap option" where
  "cJSON_ReplaceItemInObject A h object' string' newitem = do {
     (c, i) \<leftarrow> find_child h object' string';
     if c = None then Some h
     else do {
       let (d, h) = cJSON_strdup A h string';
       h \<leftarrow> node_upd h newitem (\<lambda>x. x\<lparr>cj_string := d\<rparr>);
       cJSON_ReplaceItemInArray h object' i (Some newitem) } }"

section \<open>Creating items\<close>

definition create_with :: "allocator \<Rightarrow> cheap \<Rightarrow> (cJSON \<Rightarrow> cJSON) \<Rightarrow> (nat option \<times> cheap) option" where
  "create_with A h f =
     (case cJSON_New_Item A h of
        (None, h) \<Rightarrow> Some (None, h)
      | (Some a, h) \<Rightarrow> do { h \<leftarrow> node_upd h a f; Some (Some a, h) })"

definition cJSON_CreateNull :: "allocator \<Rightarrow> cheap \<Rightarrow> (nat option \<times> cheap) option" where
  "cJSON_CreateNull A h = create_with A h (\<lambda>item. item\<lparr>cj_type := cJSON_NULL\<rparr>)"

definition cJSON_CreateTrue :: "allocator \<Rightarrow> cheap \<Rightarrow> (nat option \<times> cheap) option" where
  "cJSON_CreateTrue A h = create_with A h (\<lambda>item. item\<lparr>cj_type := cJSON_True\<rparr>)"

definition cJSON_CreateFalse :: "allocator \<Rightarrow> cheap \<Rightarrow> (nat option \<times> cheap) option" where
  "cJSON_CreateFalse A h = create_with A h (\<lambda>item. item\<lparr>cj_type := cJSON_False\<rparr>)"

definition cJSON_CreateBool :: "allocator \<Rightarrow> cheap \<Rightarrow> int \<Rightarrow> (nat option \<times> cheap) option" where
  "cJSON_CreateBool A h b =
     create_with A h (\<lambda>item. item\<lparr>cj_type := (if b \<noteq> 0 then cJSON_True else cJSON_False)\<rparr>)"

text \<open>The conversion of a number out of the range of \<^verbatim>\<open>int\<close> is undefined.\<close>

definition cJSON_CreateNumber :: "allocator \<Rightarrow> cheap \<Rightarrow> double \<Rightarrow> (nat option \<times> cheap) option" where
  "cJSON_CreateNumber A h num =
     (case cJSON_New_Item A h of
        (None, h) \<Rightarrow> Some (None, h)
      | (Some a, h) \<Rightarrow> do {
          i \<leftarrow> double_to_range INT_MIN INT_MAX num;
          h \<leftarrow> node_upd h a (\<lambda>item. item\<lparr>cj_type := cJSON_Number, cj_valuedouble := num, cj_valueint := i\<rparr>);
          Some (Some a, h) })"

definition cJSON_CreateString :: "allocator \<Rightarrow> cheap \<Rightarrow> string \<Rightarrow> (nat option \<times> cheap) option" where
  "cJSON_CreateString A h string' =
     (case cJSON_New_Item A h of
        (None, h) \<Rightarrow> Some (None, h)
      | (Some a, h) \<Rightarrow> do {
          let (d, h) = cJSON_strdup A h string';
          h \<leftarrow> node_upd h a (\<lambda>item. item\<lparr>cj_type := cJSON_String, cj_valuestring := d\<rparr>);
          Some (Some a, h) })"

definition cJSON_CreateArray :: "allocator \<Rightarrow> cheap \<Rightarrow> (nat option \<times> cheap) option" where
  "cJSON_CreateArray A h = create_with A h (\<lambda>item. item\<lparr>cj_type := cJSON_Array\<rparr>)"

definition cJSON_CreateObject :: "allocator \<Rightarrow> cheap \<Rightarrow> (nat option \<times> cheap) option" where
  "cJSON_CreateObject A h = create_with A h (\<lambda>item. item\<lparr>cj_type := cJSON_Object\<rparr>)"

text \<open>The loop common to the constructors of arrays; linking a refused item to the one before it, or an
  item to a refused first one, writes through a null pointer.\<close>

fun array_loop ::
  "(cheap \<Rightarrow> 'x \<Rightarrow> (nat option \<times> cheap) option) \<Rightarrow> nat \<Rightarrow> 'x list \<Rightarrow> bool \<Rightarrow> nat option \<Rightarrow> cheap \<Rightarrow> cheap option" where
  "array_loop create a [] first p h = Some h"
| "array_loop create a (x # xs) first p h = do {
     (n, h) \<leftarrow> create h x;
     h \<leftarrow> (if first then node_upd h a (\<lambda>nd. nd\<lparr>cj_child := n\<rparr>)
          else do { p \<leftarrow> p; n \<leftarrow> n; suffix_object h p n });
     array_loop create a xs False n h }"

definition create_array ::
  "allocator \<Rightarrow> (cheap \<Rightarrow> 'x \<Rightarrow> (nat option \<times> cheap) option) \<Rightarrow> cheap \<Rightarrow> 'x list \<Rightarrow> (nat option \<times> cheap) option" where
  "create_array A create h xs = do {
     (a, h) \<leftarrow> cJSON_CreateArray A h;
     case a of None \<Rightarrow> Some (None, h)
     | Some a' \<Rightarrow> do { h \<leftarrow> array_loop create a' xs True None h; Some (a, h) } }"

definition cJSON_CreateIntArray :: "allocator \<Rightarrow> cheap \<Rightarrow> int list \<Rightarrow> (nat option \<times> cheap) option" where
  "cJSON_CreateIntArray A h numbers = create_array A (\<lambda>h i. cJSON_CreateNumber A h (double_of_int i)) h numbers"

text \<open>A \<^verbatim>\<open>float\<close> converts to a \<^verbatim>\<open>double\<close> of the same value, by which it is given here.\<close>

definition cJSON_CreateFloatArray :: "allocator \<Rightarrow> cheap \<Rightarrow> double list \<Rightarrow> (nat option \<times> cheap) option" where
  "cJSON_CreateFloatArray A h numbers = create_array A (cJSON_CreateNumber A) h numbers"

definition cJSON_CreateDoubleArray :: "allocator \<Rightarrow> cheap \<Rightarrow> double list \<Rightarrow> (nat option \<times> cheap) option" where
  "cJSON_CreateDoubleArray A h numbers = create_array A (cJSON_CreateNumber A) h numbers"

definition cJSON_CreateStringArray :: "allocator \<Rightarrow> cheap \<Rightarrow> string list \<Rightarrow> (nat option \<times> cheap) option" where
  "cJSON_CreateStringArray A h strings = create_array A (cJSON_CreateString A) h strings"

section \<open>Duplication\<close>

text \<open>Copying a string of the item; on a refused allocation the new item is deleted: \<open>Inl\<close>.\<close>

definition dup_string ::
  "allocator \<Rightarrow> cheap \<Rightarrow> nat \<Rightarrow> nat option \<Rightarrow> (nat \<Rightarrow> cJSON \<Rightarrow> cJSON) \<Rightarrow> (cheap + cheap) option" where
  "dup_string A h newitem src assign =
     (case src of None \<Rightarrow> Some (Inr h)
      | Some a \<Rightarrow> do {
          (l, s) \<leftarrow> ch_str h a;
          case cJSON_strdup A h s of
            (None, h) \<Rightarrow> do { h \<leftarrow> cJSON_Delete h (Some newitem); Some (Inl h) }
          | (Some d, h) \<Rightarrow> do { h \<leftarrow> node_upd h newitem (assign d); Some (Inr h) } })"

text \<open>The copy of an item (\<open>dup\<close>) and of a list of children (\<open>dup_list\<close>), which appends to \<open>newitem\<close> after \<open>nptr\<close>.\<close>

fun dup :: "nat \<Rightarrow> allocator \<Rightarrow> cheap \<Rightarrow> nat option \<Rightarrow> bool \<Rightarrow> (nat option \<times> cheap) option"
  and dup_list :: "nat \<Rightarrow> allocator \<Rightarrow> cheap \<Rightarrow> nat \<Rightarrow> nat option \<Rightarrow> nat option \<Rightarrow> (nat option \<times> cheap) option" where
  "dup n A h None recurse = Some (None, h)"
| "dup 0 A h (Some item) recurse = None"
| "dup (Suc n) A h (Some item) recurse =
     (case cJSON_New_Item A h of
        (None, h) \<Rightarrow> Some (None, h)
      | (Some newitem, h) \<Rightarrow> do {
          nd \<leftarrow> ch_node h item;
          h \<leftarrow> node_upd h newitem (\<lambda>x. x\<lparr>cj_type := cj_type nd AND NOT cJSON_IsReference,
                 cj_valueint := cj_valueint nd, cj_valuedouble := cj_valuedouble nd\<rparr>);
          r \<leftarrow> dup_string A h newitem (cj_valuestring nd) (\<lambda>d x. x\<lparr>cj_valuestring := Some d\<rparr>);
          case r of Inl h \<Rightarrow> Some (None, h)
          | Inr h \<Rightarrow> do {
              r \<leftarrow> dup_string A h newitem (cj_string nd) (\<lambda>d x. x\<lparr>cj_string := Some d\<rparr>);
              case r of Inl h \<Rightarrow> Some (None, h)
              | Inr h \<Rightarrow> if \<not> recurse then Some (Some newitem, h)
                          else dup_list n A h newitem None (cj_child nd) } })"
| "dup_list n A h newitem nptr None = Some (Some newitem, h)"
| "dup_list 0 A h newitem nptr (Some cptr) = None"
| "dup_list (Suc n) A h newitem nptr (Some cptr) = do {
     (newchild, h) \<leftarrow> dup n A h (Some cptr) True;
     case newchild of
       None \<Rightarrow> do { h \<leftarrow> cJSON_Delete h (Some newitem); Some (None, h) }
     | Some c \<Rightarrow> do {
         h \<leftarrow> (case nptr of
                Some p \<Rightarrow> suffix_object h p c
              | None \<Rightarrow> node_upd h newitem (\<lambda>x. x\<lparr>cj_child := Some c\<rparr>));
         nd \<leftarrow> ch_node h cptr;
         dup_list n A h newitem (Some c) (cj_next nd) } }"

definition cJSON_Duplicate :: "allocator \<Rightarrow> cheap \<Rightarrow> nat option \<Rightarrow> int \<Rightarrow> (nat option \<times> cheap) option" where
  "cJSON_Duplicate A h item recurse = dup (2 * cj_fuel h) A h item (recurse \<noteq> 0)"

section \<open>The macros of the header\<close>

definition cJSON_AddNullToObject :: "allocator \<Rightarrow> cheap \<Rightarrow> nat \<Rightarrow> string \<Rightarrow> cheap option" where
  "cJSON_AddNullToObject A h object' name = do {
     (x, h) \<leftarrow> cJSON_CreateNull A h; cJSON_AddItemToObject A h object' name x }"

definition cJSON_AddTrueToObject :: "allocator \<Rightarrow> cheap \<Rightarrow> nat \<Rightarrow> string \<Rightarrow> cheap option" where
  "cJSON_AddTrueToObject A h object' name = do {
     (x, h) \<leftarrow> cJSON_CreateTrue A h; cJSON_AddItemToObject A h object' name x }"

definition cJSON_AddFalseToObject :: "allocator \<Rightarrow> cheap \<Rightarrow> nat \<Rightarrow> string \<Rightarrow> cheap option" where
  "cJSON_AddFalseToObject A h object' name = do {
     (x, h) \<leftarrow> cJSON_CreateFalse A h; cJSON_AddItemToObject A h object' name x }"

definition cJSON_AddBoolToObject :: "allocator \<Rightarrow> cheap \<Rightarrow> nat \<Rightarrow> string \<Rightarrow> int \<Rightarrow> cheap option" where
  "cJSON_AddBoolToObject A h object' name b = do {
     (x, h) \<leftarrow> cJSON_CreateBool A h b; cJSON_AddItemToObject A h object' name x }"

definition cJSON_AddNumberToObject :: "allocator \<Rightarrow> cheap \<Rightarrow> nat \<Rightarrow> string \<Rightarrow> double \<Rightarrow> cheap option" where
  "cJSON_AddNumberToObject A h object' name n = do {
     (x, h) \<leftarrow> cJSON_CreateNumber A h n; cJSON_AddItemToObject A h object' name x }"

definition cJSON_AddStringToObject :: "allocator \<Rightarrow> cheap \<Rightarrow> nat \<Rightarrow> string \<Rightarrow> string \<Rightarrow> cheap option" where
  "cJSON_AddStringToObject A h object' name s = do {
     (x, h) \<leftarrow> cJSON_CreateString A h s; cJSON_AddItemToObject A h object' name x }"

text \<open>The value is assigned to \<^verbatim>\<open>valuedouble\<close> first and converted from there; it is given as a double.\<close>

definition cJSON_SetNumberValue :: "cheap \<Rightarrow> nat option \<Rightarrow> double \<Rightarrow> cheap option" where
  "cJSON_SetNumberValue h object' val =
     (case object' of None \<Rightarrow> Some h
      | Some a \<Rightarrow> do {
          i \<leftarrow> double_to_range INT_MIN INT_MAX val;
          node_upd h a (\<lambda>x. x\<lparr>cj_valuedouble := val, cj_valueint := i\<rparr>) })"

definition cJSON_SetIntValue :: "cheap \<Rightarrow> nat option \<Rightarrow> int \<Rightarrow> cheap option" where
  "cJSON_SetIntValue h object' val = cJSON_SetNumberValue h object' (double_of_int val)"

end
