(* ===== verification/CJsonParse.thy ===== *)
theory CJsonParse
  imports CJson
begin

unbundle bit_operations_syntax

text \<open>
  The parser of \<^verbatim>\<open>src/cJSON/cJSON.c\<close> and \<^verbatim>\<open>cJSON_Minify\<close>. The text is the memory \<open>mem\<close> at the pointer given;
  a pointer into it is a position, and a read beyond it is a fault. \<open>pow10 x\<close> is the result of \<^verbatim>\<open>pow(10.0, x)\<close>.
  The parser keeps the heap of items and the global error pointer \<^verbatim>\<open>ep\<close>; a position \<open>None\<close> is the null pointer that
  a failed parse returns. The recursion of \<open>parse_value\<close> has a fuel, one unit for each level of nesting.
\<close>

section \<open>Arithmetic on doubles\<close>

fun double_mul :: "double \<Rightarrow> double \<Rightarrow> double" where
  "double_mul (Fin s m e) (Fin s' m' e') =
     (let (a, b) = scale2 (m * m') 1 (e + e') in double_of_ratio (s \<noteq> s') a b)"
| "double_mul (Inf s) (Fin s' m' e') = (if m' = 0 then NaN else Inf (s \<noteq> s'))"
| "double_mul (Fin s m e) (Inf s') = (if m = 0 then NaN else Inf (s \<noteq> s'))"
| "double_mul (Inf s) (Inf s') = Inf (s \<noteq> s')"
| "double_mul NaN y = NaN"
| "double_mul x NaN = NaN"

fun double_add :: "double \<Rightarrow> double \<Rightarrow> double" where
  "double_add (Fin s m e) (Fin s' m' e') =
     (let k = min e e'; x = m * 2 ^ nat (e - k); y = m' * 2 ^ nat (e' - k);
          v = (if s then - x else x) + (if s' then - y else y); (a, b) = scale2 \<bar>v\<bar> 1 k
      in double_of_ratio (if v = 0 then s \<and> s' else v < 0) a b)"
| "double_add (Inf s) (Inf s') = (if s = s' then Inf s else NaN)"
| "double_add (Inf s) (Fin s' m' e') = Inf s"
| "double_add (Fin s m e) (Inf s') = Inf s'"
| "double_add NaN y = NaN"
| "double_add x NaN = NaN"

section \<open>Scanning\<close>

function scan_while :: "(char \<Rightarrow> bool) \<Rightarrow> string \<Rightarrow> nat \<Rightarrow> nat option" where
  "scan_while P mem p =
     (if p < length mem then (if P (mem ! p) then scan_while P mem (p + 1) else Some p) else None)"
  by pat_completeness auto
termination by (relation "measure (\<lambda>(P, mem, p). length mem - p)") auto

declare scan_while.simps [simp del]

text \<open>\<^verbatim>\<open>skip\<close>, on a pointer that may be null.\<close>

definition skip :: "string \<Rightarrow> nat option \<Rightarrow> nat option option" where
  "skip mem p =
     (case p of None \<Rightarrow> Some None | Some p \<Rightarrow> map_option Some (scan_while (\<lambda>c. c \<noteq> NUL \<and> cc c \<le> 32) mem p))"

record cjp =
  cp_heap :: cheap
  cp_ep :: "nat option"

type_synonym presult = "(nat option \<times> cjp) option"

definition cJSON_GetErrorPtr :: "cjp \<Rightarrow> nat option" where
  "cJSON_GetErrorPtr st = cp_ep st"

text \<open>A failure: at a position, which the error pointer keeps, or without one.\<close>

definition perr :: "nat \<Rightarrow> cjp \<Rightarrow> presult" where
  "perr p st = Some (None, st\<lparr>cp_ep := Some p\<rparr>)"

definition pfail :: "cjp \<Rightarrow> presult" where
  "pfail st = Some (None, st)"

definition item_upd :: "cjp \<Rightarrow> nat \<Rightarrow> (cJSON \<Rightarrow> cJSON) \<Rightarrow> cjp option" where
  "item_upd st a f = map_option (\<lambda>h. st\<lparr>cp_heap := h\<rparr>) (node_upd (cp_heap st) a f)"

section \<open>Numbers\<close>

text \<open>\<^verbatim>\<open>n = (n * 10.0) + (*num++ - '0')\<close> while there are digits; \<open>k\<close> counts them.\<close>

function digits_loop :: "string \<Rightarrow> double \<Rightarrow> int \<Rightarrow> nat \<Rightarrow> (double \<times> int \<times> nat) option" where
  "digits_loop mem n k p =
     (if p < length mem
      then (if c_isdigit (mem ! p)
            then digits_loop mem (double_add (double_mul n (double_of_int 10)) (double_of_int (int (digit_val (mem ! p))))) (k + 1) (p + 1)
            else Some (n, k, p))
      else None)"
  by pat_completeness auto
termination by (relation "measure (\<lambda>(mem, n, k, p). length mem - p)") auto

declare digits_loop.simps [simp del]

function exp_loop :: "string \<Rightarrow> int \<Rightarrow> nat \<Rightarrow> (int \<times> nat) option" where
  "exp_loop mem subscale p =
     (if p < length mem
      then (if c_isdigit (mem ! p)
            then (case c_int (subscale * 10) of None \<Rightarrow> None
                  | Some x \<Rightarrow> (case c_int (x + int (digit_val (mem ! p))) of None \<Rightarrow> None
                               | Some y \<Rightarrow> exp_loop mem y (p + 1)))
            else Some (subscale, p))
      else None)"
  by pat_completeness auto
termination by (relation "measure (\<lambda>(mem, n, p). length mem - p)") auto

declare exp_loop.simps [simp del]

text \<open>The digits before the point, the fraction and the exponent.\<close>

definition num_int :: "string \<Rightarrow> double \<Rightarrow> nat \<Rightarrow> (double \<times> nat) option" where
  "num_int mem n p = do {
     c \<leftarrow> peek mem p;
     if c_isdigit c \<and> c \<noteq> CHR ''0''
     then do { (n, k, p) \<leftarrow> digits_loop mem n 0 p; Some (n, p) } else Some (n, p) }"

definition num_frac :: "string \<Rightarrow> double \<Rightarrow> nat \<Rightarrow> (double \<times> int \<times> nat) option" where
  "num_frac mem n p = do {
     c \<leftarrow> peek mem p;
     if c \<noteq> CHR ''.'' then Some (n, 0, p)
     else do {
       d \<leftarrow> peek mem (p + 1);
       if c_isdigit d then do { (n, k, p) \<leftarrow> digits_loop mem n 0 (p + 1); Some (n, - k, p) }
       else Some (n, 0, p) } }"

definition num_exp :: "string \<Rightarrow> nat \<Rightarrow> (int \<times> int \<times> nat) option" where
  "num_exp mem p = do {
     c \<leftarrow> peek mem p;
     if c = CHR ''e'' \<or> c = CHR ''E''
     then do {
       s \<leftarrow> peek mem (p + 1);
       let (sign, p) = (if s = CHR ''+'' then (1, p + 2) else if s = CHR ''-'' then (-1, p + 2) else (1, p + 1));
       (subscale, p) \<leftarrow> exp_loop mem 0 p;
       Some (sign, subscale, p) }
     else Some (1, 0, p) }"

definition parse_number :: "(int \<Rightarrow> double) \<Rightarrow> string \<Rightarrow> cjp \<Rightarrow> nat \<Rightarrow> nat \<Rightarrow> presult" where
  "parse_number pow10 mem st item num = do {
     c \<leftarrow> peek mem num;
     let (neg, num) = (if c = CHR ''-'' then (True, num + 1) else (False, num));
     c \<leftarrow> peek mem num;
     let num = (if c = CHR ''0'' then num + 1 else num);
     (n, num) \<leftarrow> num_int mem (double_of_int 0) num;
     (n, scale, num) \<leftarrow> num_frac mem n num;
     (signsubscale, subscale, num) \<leftarrow> num_exp mem num;
     let n = double_mul (double_mul (double_of_int (if neg then -1 else 1)) n) (pow10 (scale + subscale * signsubscale));
     i \<leftarrow> double_to_range INT_MIN INT_MAX n;
     st \<leftarrow> item_upd st item (\<lambda>x. x\<lparr>cj_valuedouble := n, cj_valueint := i, cj_type := cJSON_Number\<rparr>);
     Some (Some num, st) }"

section \<open>Strings\<close>

definition hex_value :: "char \<Rightarrow> nat option" where
  "hex_value c =
     (if c_isdigit c then Some (cc c - 48)
      else if 65 \<le> cc c \<and> cc c \<le> 70 then Some (10 + (cc c - 65))
      else if 97 \<le> cc c \<and> cc c \<le> 102 then Some (10 + (cc c - 97))
      else None)"

text \<open>The four rounds of \<^verbatim>\<open>parse_hex4\<close>, which the code has unrolled.\<close>

fun hex4_loop :: "nat \<Rightarrow> string \<Rightarrow> nat \<Rightarrow> u32 \<Rightarrow> u32 option" where
  "hex4_loop 0 mem p h = Some h"
| "hex4_loop (Suc k) mem p h = do {
     c \<leftarrow> peek mem p;
     case hex_value c of
       None \<Rightarrow> Some 0
     | Some d \<Rightarrow> hex4_loop k mem (p + 1) (push_bit 4 h + of_nat d) }"

definition parse_hex4 :: "string \<Rightarrow> nat \<Rightarrow> u32 option" where
  "parse_hex4 mem p = hex4_loop 4 mem p 0"

definition firstByteMark :: "u32 list" where
  "firstByteMark = [0x00, 0x00, 0xC0, 0xE0, 0xF0, 0xF8, 0xFC]"

definition u_byte :: "u32 \<Rightarrow> char" where
  "u_byte w = char_of (unat w)"

text \<open>The cases of the inner \<^verbatim>\<open>switch (len)\<close>, which fall through and write from the end; \<open>k\<close> bytes to go.\<close>

fun utf8_fill :: "nat \<Rightarrow> nat \<Rightarrow> u32 \<Rightarrow> string \<Rightarrow> string" where
  "utf8_fill len 0 uc acc = acc"
| "utf8_fill len (Suc 0) uc acc = u_byte (uc OR firstByteMark ! len) # acc"
| "utf8_fill len (Suc (Suc k)) uc acc =
     utf8_fill len (Suc k) (drop_bit 6 uc) (u_byte ((uc OR 0x80) AND 0xBF) # acc)"

definition utf8_of :: "u32 \<Rightarrow> string" where
  "utf8_of uc =
     (let len = (if uc < 0x80 then 1 else if uc < 0x800 then 2 else if uc < 0x10000 then 3 else 4)
      in utf8_fill len len uc [])"

text \<open>The case \<^verbatim>\<open>'u'\<close>, with \<open>ptr\<close> at the letter: the bytes to write (none for an invalid character) and the new
  \<open>ptr\<close>.\<close>

definition parse_u :: "string \<Rightarrow> nat \<Rightarrow> (string \<times> nat) option" where
  "parse_u mem ptr = do {
     uc \<leftarrow> parse_hex4 mem (ptr + 1);
     let ptr = ptr + 4;
     if (0xDC00 \<le> uc \<and> uc \<le> 0xDFFF) \<or> uc = 0 then Some ([], ptr)
     else if 0xD800 \<le> uc \<and> uc \<le> 0xDBFF then do {
       c1 \<leftarrow> peek mem (ptr + 1);
       c2 \<leftarrow> (if c1 \<noteq> CHR 0x5C then Some NUL else peek mem (ptr + 2));
       if c1 \<noteq> CHR 0x5C \<or> c2 \<noteq> CHR ''u'' then Some ([], ptr)
       else do {
         uc2 \<leftarrow> parse_hex4 mem (ptr + 3);
         let ptr = ptr + 6;
         if uc2 < 0xDC00 \<or> uc2 > 0xDFFF then Some ([], ptr)
         else Some (utf8_of (0x10000 + (push_bit 10 (uc AND 0x3FF) OR (uc2 AND 0x3FF))), ptr) } }
     else Some (utf8_of uc, ptr) }"

text \<open>The count of the first loop.\<close>

function count_chars :: "string \<Rightarrow> nat \<Rightarrow> nat \<Rightarrow> nat option" where
  "count_chars mem ptr len =
     (if ptr < length mem
      then (if mem ! ptr = CHR 0x22 \<or> mem ! ptr = NUL then Some len
            else count_chars mem (if mem ! ptr = CHR 0x5C then ptr + 2 else ptr + 1) (len + 1))
      else None)"
  by pat_completeness auto
termination by (relation "measure (\<lambda>(mem, p, n). length mem - p)") auto

declare count_chars.simps [simp del]

text \<open>The character an escape stands for; other characters stand for themselves.\<close>

definition unescape :: "char \<Rightarrow> char" where
  "unescape c =
     (if c = CHR ''b'' then CHR 0x08 else if c = CHR ''f'' then CHR 0x0C else if c = CHR ''n'' then CHR 0x0A
      else if c = CHR ''r'' then CHR 0x0D else if c = CHR ''t'' then CHR 0x09 else c)"

text \<open>The second loop, which writes to \<open>out\<close> at \<open>ptr2\<close>; every round advances \<open>ptr\<close>, which bounds the rounds.\<close>

fun copy_loop ::
  "nat \<Rightarrow> string \<Rightarrow> nat \<Rightarrow> nat \<Rightarrow> char option list \<Rightarrow> (nat \<times> nat \<times> char option list) option" where
  "copy_loop 0 mem ptr ptr2 out = None"
| "copy_loop (Suc n) mem ptr ptr2 out = do {
     c \<leftarrow> peek mem ptr;
     if c = CHR 0x22 \<or> c = NUL then Some (ptr, ptr2, out)
     else if c \<noteq> CHR 0x5C then do { out \<leftarrow> poke out ptr2 (Some c); copy_loop n mem (ptr + 1) (ptr2 + 1) out }
     else do {
       e \<leftarrow> peek mem (ptr + 1);
       (bytes, ptr) \<leftarrow> (if e = CHR ''u'' then parse_u mem (ptr + 1) else Some ([unescape e], ptr + 1));
       out \<leftarrow> mem_write out (int ptr2) (map Some bytes);
       copy_loop n mem (ptr + 1) (ptr2 + length bytes) out } }"

definition parse_string :: "allocator \<Rightarrow> string \<Rightarrow> cjp \<Rightarrow> nat \<Rightarrow> nat \<Rightarrow> presult" where
  "parse_string A mem st item str = do {
     c \<leftarrow> peek mem str;
     if c \<noteq> CHR 0x22 then perr str st
     else do {
       len \<leftarrow> count_chars mem (str + 1) 0;
       size \<leftarrow> c_int (int len + 1);
       if \<not> A size then pfail st
       else do {
         (ptr, ptr2, out) \<leftarrow> copy_loop (Suc (length mem)) mem (str + 1) 0 (replicate (nat size) None);
         out \<leftarrow> poke out ptr2 (Some NUL);
         s \<leftarrow> those (take ptr2 out);
         c \<leftarrow> peek mem ptr;
         let ptr = (if c = CHR 0x22 then ptr + 1 else ptr);
         let (a, h) = new_string (cp_heap st) (c_str s);
         st \<leftarrow> item_upd (st\<lparr>cp_heap := h\<rparr>) item (\<lambda>x. x\<lparr>cj_valuestring := Some a, cj_type := cJSON_String\<rparr>);
         Some (Some ptr, st) } } }"

section \<open>Values\<close>

text \<open>\<^verbatim>\<open>!strncmp(value, lit, n)\<close> with the length of the literal.\<close>

fun starts_with :: "string \<Rightarrow> string \<Rightarrow> nat \<Rightarrow> bool option" where
  "starts_with [] mem p = Some True"
| "starts_with (x # lit) mem p = do { c \<leftarrow> peek mem p; if c = x then starts_with lit mem (p + 1) else Some False }"

text \<open>A new item for an array or an object: the first child of \<open>item\<close>, or the one linked after \<open>child\<close>.\<close>

definition first_child :: "allocator \<Rightarrow> cjp \<Rightarrow> nat \<Rightarrow> (nat option \<times> cjp) option" where
  "first_child A st item =
     (let (c, h) = cJSON_New_Item A (cp_heap st)
      in map_option (\<lambda>st. (c, st)) (item_upd (st\<lparr>cp_heap := h\<rparr>) item (\<lambda>x. x\<lparr>cj_child := c\<rparr>)))"

definition next_child :: "allocator \<Rightarrow> cjp \<Rightarrow> nat \<Rightarrow> (nat option \<times> cjp) option" where
  "next_child A st child =
     (case cJSON_New_Item A (cp_heap st) of
        (None, h) \<Rightarrow> Some (None, st\<lparr>cp_heap := h\<rparr>)
      | (Some n, h) \<Rightarrow> map_option (\<lambda>h. (Some n, st\<lparr>cp_heap := h\<rparr>)) (suffix_object h child n))"

text \<open>\<^verbatim>\<open>child->string = child->valuestring; child->valuestring = 0\<close>.\<close>

definition take_name :: "cjp \<Rightarrow> nat \<Rightarrow> cjp option" where
  "take_name st child = item_upd st child (\<lambda>x. x\<lparr>cj_string := cj_valuestring x, cj_valuestring := None\<rparr>)"

text \<open>Continuing with the position of a successful call, after the spaces.\<close>

definition then_skip :: "string \<Rightarrow> presult \<Rightarrow> (cjp \<Rightarrow> nat \<Rightarrow> presult) \<Rightarrow> presult" where
  "then_skip mem r k = do {
     (v, st) \<leftarrow> r;
     v \<leftarrow> skip mem v;
     case v of None \<Rightarrow> pfail st | Some p \<Rightarrow> k st p }"

text \<open>The functions for containers take the parser of their values, \<open>pv\<close>. \<open>parse_elems\<close> and \<open>parse_members\<close> are the
  loops over the items after \<open>child\<close>, with the position after its value; every round passes a comma, which
  bounds the rounds. \<open>parse_member\<close> parses a name, the colon and a value into \<open>child\<close>.\<close>

type_synonym value_parser = "cjp \<Rightarrow> nat \<Rightarrow> nat option \<Rightarrow> presult"

fun parse_elems :: "nat \<Rightarrow> value_parser \<Rightarrow> allocator \<Rightarrow> string \<Rightarrow> cjp \<Rightarrow> nat \<Rightarrow> nat \<Rightarrow> presult" where
  "parse_elems 0 pv A mem st child p = None"
| "parse_elems (Suc n) pv A mem st child p = do {
     c \<leftarrow> peek mem p;
     if c = CHR '','' then do {
       (new_item, st) \<leftarrow> next_child A st child;
       case new_item of None \<Rightarrow> pfail st
       | Some child \<Rightarrow>
           then_skip mem (Some (Some (p + 1), st)) (\<lambda>st p.
             then_skip mem (pv st child (Some p)) (\<lambda>st p. parse_elems n pv A mem st child p)) }
     else if c = CHR '']'' then Some (Some (p + 1), st)
     else perr p st }"

definition parse_array :: "value_parser \<Rightarrow> allocator \<Rightarrow> string \<Rightarrow> cjp \<Rightarrow> nat \<Rightarrow> nat \<Rightarrow> presult" where
  "parse_array pv A mem st item p = do {
     c \<leftarrow> peek mem p;
     if c \<noteq> CHR ''['' then perr p st
     else do {
       st \<leftarrow> item_upd st item (\<lambda>x. x\<lparr>cj_type := cJSON_Array\<rparr>);
       then_skip mem (Some (Some (p + 1), st)) (\<lambda>st p. do {
         c \<leftarrow> peek mem p;
         if c = CHR '']'' then Some (Some (p + 1), st)
         else do {
           (child, st) \<leftarrow> first_child A st item;
           case child of None \<Rightarrow> pfail st
           | Some child \<Rightarrow>
               then_skip mem (Some (Some p, st)) (\<lambda>st p.
                 then_skip mem (pv st child (Some p)) (\<lambda>st p.
                   parse_elems (Suc (length mem)) pv A mem st child p)) } }) } }"

definition parse_member :: "value_parser \<Rightarrow> allocator \<Rightarrow> string \<Rightarrow> cjp \<Rightarrow> nat \<Rightarrow> nat \<Rightarrow> presult" where
  "parse_member pv A mem st child p =
     then_skip mem (Some (Some p, st)) (\<lambda>st p.
       then_skip mem (parse_string A mem st child p) (\<lambda>st p. do {
         st \<leftarrow> take_name st child;
         c \<leftarrow> peek mem p;
         if c \<noteq> CHR '':'' then perr p st
         else then_skip mem (Some (Some (p + 1), st)) (\<lambda>st p. pv st child (Some p)) }))"

fun parse_members :: "nat \<Rightarrow> value_parser \<Rightarrow> allocator \<Rightarrow> string \<Rightarrow> cjp \<Rightarrow> nat \<Rightarrow> nat \<Rightarrow> presult" where
  "parse_members 0 pv A mem st child p = None"
| "parse_members (Suc n) pv A mem st child p = do {
     c \<leftarrow> peek mem p;
     if c = CHR '','' then do {
       (new_item, st) \<leftarrow> next_child A st child;
       case new_item of None \<Rightarrow> pfail st
       | Some child \<Rightarrow>
           then_skip mem (parse_member pv A mem st child (p + 1)) (\<lambda>st p. parse_members n pv A mem st child p) }
     else if c = CHR ''}'' then Some (Some (p + 1), st)
     else perr p st }"

definition parse_object :: "value_parser \<Rightarrow> allocator \<Rightarrow> string \<Rightarrow> cjp \<Rightarrow> nat \<Rightarrow> nat \<Rightarrow> presult" where
  "parse_object pv A mem st item p = do {
     c \<leftarrow> peek mem p;
     if c \<noteq> CHR ''{'' then perr p st
     else do {
       st \<leftarrow> item_upd st item (\<lambda>x. x\<lparr>cj_type := cJSON_Object\<rparr>);
       then_skip mem (Some (Some (p + 1), st)) (\<lambda>st p. do {
         c \<leftarrow> peek mem p;
         if c = CHR ''}'' then Some (Some (p + 1), st)
         else do {
           (child, st) \<leftarrow> first_child A st item;
           case child of None \<Rightarrow> pfail st
           | Some child \<Rightarrow>
               then_skip mem (parse_member pv A mem st child p) (\<lambda>st p.
                 parse_members (Suc (length mem)) pv A mem st child p) } }) } }"

fun parse_value :: "nat \<Rightarrow> (int \<Rightarrow> double) \<Rightarrow> allocator \<Rightarrow> string \<Rightarrow> value_parser" where
  "parse_value 0 pow10 A mem st item v = None"
| "parse_value (Suc n) pow10 A mem st item v =
     (case v of None \<Rightarrow> pfail st
      | Some p \<Rightarrow> do {
          is_null \<leftarrow> starts_with ''null'' mem p;
          is_false \<leftarrow> starts_with ''false'' mem p;
          is_true \<leftarrow> starts_with ''true'' mem p;
          c \<leftarrow> peek mem p;
          if is_null then do { st \<leftarrow> item_upd st item (\<lambda>x. x\<lparr>cj_type := cJSON_NULL\<rparr>); Some (Some (p + 4), st) }
          else if is_false then do { st \<leftarrow> item_upd st item (\<lambda>x. x\<lparr>cj_type := cJSON_False\<rparr>); Some (Some (p + 5), st) }
          else if is_true
          then do { st \<leftarrow> item_upd st item (\<lambda>x. x\<lparr>cj_type := cJSON_True, cj_valueint := 1\<rparr>); Some (Some (p + 4), st) }
          else if c = CHR 0x22 then parse_string A mem st item p
          else if c = CHR ''-'' \<or> c_isdigit c then parse_number pow10 mem st item p
          else if c = CHR ''['' then parse_array (parse_value n pow10 A mem) A mem st item p
          else if c = CHR ''{'' then parse_object (parse_value n pow10 A mem) A mem st item p
          else perr p st })"

text \<open>The result: the item, the end of the parse (\<^verbatim>\<open>*return_parse_end\<close>, when it is assigned), the error pointer and
  the heap.\<close>

definition cJSON_ParseWithOpts ::
  "(int \<Rightarrow> double) \<Rightarrow> allocator \<Rightarrow> cheap \<Rightarrow> string \<Rightarrow> bool \<Rightarrow> (nat option \<times> nat option \<times> cjp) option" where
  "cJSON_ParseWithOpts pow10 A h mem require_null_terminated =
     (case cJSON_New_Item A h of
        (None, h) \<Rightarrow> Some (None, None, \<lparr>cp_heap = h, cp_ep = None\<rparr>)
      | (Some c, h) \<Rightarrow> do {
          let st = \<lparr>cp_heap = h, cp_ep = None\<rparr>;
          v \<leftarrow> skip mem (Some 0);
          (e, st) \<leftarrow> parse_value (Suc (length mem)) pow10 A mem st c v;
          case e of
            None \<Rightarrow> do { h \<leftarrow> cJSON_Delete (cp_heap st) (Some c); Some (None, None, st\<lparr>cp_heap := h\<rparr>) }
          | Some p \<Rightarrow>
              if require_null_terminated
              then do {
                e \<leftarrow> skip mem (Some p);
                p \<leftarrow> e;
                ch \<leftarrow> peek mem p;
                if ch \<noteq> NUL
                then do { h \<leftarrow> cJSON_Delete (cp_heap st) (Some c); Some (None, None, \<lparr>cp_heap = h, cp_ep = Some p\<rparr>) }
                else Some (Some c, Some p, st) }
              else Some (Some c, Some p, st) })"

definition cJSON_Parse :: "(int \<Rightarrow> double) \<Rightarrow> allocator \<Rightarrow> cheap \<Rightarrow> string \<Rightarrow> (nat option \<times> cjp) option" where
  "cJSON_Parse pow10 A h mem = map_option (\<lambda>(c, e, st). (c, st)) (cJSON_ParseWithOpts pow10 A h mem False)"

section \<open>Minification\<close>

text \<open>The text is changed in place: \<open>into\<close> is behind the position \<open>p\<close> that is read.\<close>

function line_end :: "string \<Rightarrow> nat \<Rightarrow> nat option" where
  "line_end mem p =
     (if p < length mem then (if mem ! p \<noteq> NUL \<and> mem ! p \<noteq> CHR 0x0A then line_end mem (p + 1) else Some p) else None)"
  by pat_completeness auto
termination by (relation "measure (\<lambda>(mem, p). length mem - p)") auto

declare line_end.simps [simp del]

text \<open>To the end of a comment: \<^verbatim>\<open>while (*json && !(*json=='*' && json[1]=='/')) json++\<close>.\<close>

function comment_end :: "string \<Rightarrow> nat \<Rightarrow> nat option" where
  "comment_end mem p =
     (if p < length mem
      then (if mem ! p = NUL then Some p
            else if mem ! p = CHR ''*''
            then (if Suc p < length mem then (if mem ! Suc p = CHR ''/'' then Some p else comment_end mem (Suc p)) else None)
            else comment_end mem (Suc p))
      else None)"
  by pat_completeness auto
termination by (relation "measure (\<lambda>(mem, p). length mem - p)") auto

declare comment_end.simps [simp del]

text \<open>\<^verbatim>\<open>*into++ = *json++\<close>.\<close>

definition move :: "string \<Rightarrow> nat \<Rightarrow> nat \<Rightarrow> string option" where
  "move mem into p = do { c \<leftarrow> peek mem p; poke mem into c }"

text \<open>The inside of a string, up to the quote or the terminator.\<close>

fun string_loop :: "nat \<Rightarrow> string \<Rightarrow> nat \<Rightarrow> nat \<Rightarrow> (string \<times> nat \<times> nat) option" where
  "string_loop 0 mem into p = None"
| "string_loop (Suc n) mem into p = do {
     c \<leftarrow> peek mem p;
     if c = NUL \<or> c = CHR 0x22 then Some (mem, into, p)
     else do {
       (mem, into, p) \<leftarrow> (if c = CHR 0x5C then do { mem \<leftarrow> move mem into p; Some (mem, into + 1, p + 1) }
                         else Some (mem, into, p));
       mem \<leftarrow> move mem into p;
       string_loop n mem (into + 1) (p + 1) } }"

fun minify_loop :: "nat \<Rightarrow> string \<Rightarrow> nat \<Rightarrow> nat \<Rightarrow> string option" where
  "minify_loop 0 mem into p = None"
| "minify_loop (Suc n) mem into p = do {
     c \<leftarrow> peek mem p;
     if c = NUL then poke mem into NUL
     else if c = CHR '' '' \<or> c = CHR 0x09 \<or> c = CHR 0x0D \<or> c = CHR 0x0A then minify_loop n mem into (p + 1)
     else do {
       d \<leftarrow> (if c = CHR ''/'' then peek mem (p + 1) else Some NUL);
       if d = CHR ''/'' then do { p \<leftarrow> line_end mem p; minify_loop n mem into p }
       else if d = CHR ''*'' then do { p \<leftarrow> comment_end mem p; minify_loop n mem into (p + 2) }
       else if c = CHR 0x22 then do {
         mem \<leftarrow> move mem into p;
         (mem, into, p) \<leftarrow> string_loop (Suc (length mem)) mem (into + 1) (p + 1);
         mem \<leftarrow> move mem into p;
         minify_loop n mem (into + 1) (p + 1) }
       else do { mem \<leftarrow> move mem into p; minify_loop n mem (into + 1) (p + 1) } } }"

definition cJSON_Minify :: "string \<Rightarrow> string option" where
  "cJSON_Minify mem = minify_loop (Suc (length mem)) mem 0 0"

end
