(* ===== verification/CJsonPrint.thy ===== *)
theory CJsonPrint
  imports CJsonParse PrintBuf
begin

unbundle bit_operations_syntax

text \<open>
  The conversion of items to text of \<^verbatim>\<open>src/cJSON/cJSON.c\<close>, with its two strategies: every function has a version
  for a null \<^verbatim>\<open>printbuffer\<close> (suffix \<open>_new\<close>), which allocates each text, and one for a buffer (suffix \<open>_buf\<close>). The
  allocated block has the size that the code computes: a text that does not fit is a fault. \<open>Some None\<close> is a null
  result. Printing does not change the items; the blocks allocated in between are released by the code.
\<close>

section \<open>Comparing and formatting doubles\<close>

text \<open>The value of a finite double as a fraction of \<open>2 ^ k\<close>.\<close>

definition fin_at :: "int \<Rightarrow> bool \<Rightarrow> int \<Rightarrow> int \<Rightarrow> int" where
  "fin_at k s m e = (let x = m * 2 ^ nat (e - k) in if s then - x else x)"

fun double_le :: "double \<Rightarrow> double \<Rightarrow> bool" where
  "double_le (Fin s m e) (Fin s' m' e') = (let k = min e e' in fin_at k s m e \<le> fin_at k s' m' e')"
| "double_le NaN y = False"
| "double_le x NaN = False"
| "double_le (Inf s) y = (s \<or> y = Inf False)"
| "double_le x (Inf s') = (\<not> s')"

definition double_lt :: "double \<Rightarrow> double \<Rightarrow> bool" where
  "double_lt x y \<longleftrightarrow> double_le x y \<and> \<not> double_le y x"

fun double_neg :: "double \<Rightarrow> double" where
  "double_neg (Fin s m e) = Fin (\<not> s) m e" | "double_neg (Inf s) = Inf (\<not> s)" | "double_neg NaN = NaN"

fun double_abs :: "double \<Rightarrow> double" where
  "double_abs (Fin s m e) = Fin False m e" | "double_abs (Inf s) = Inf False" | "double_abs NaN = NaN"

fun double_floor :: "double \<Rightarrow> double" where
  "double_floor (Fin s m e) =
     (if e \<ge> 0 \<or> m = 0 then Fin s m e
      else let v = (if s then - m else m) div 2 ^ nat (- e) in double_of_ratio s \<bar>v\<bar> 1)"
| "double_floor (Inf s) = Inf s"
| "double_floor NaN = NaN"

definition DBL_EPSILON :: double where "DBL_EPSILON = Fin False (2 ^ 52) (- 104)"

text \<open>\<^verbatim>\<open>fabs(x - y) <= DBL_EPSILON\<close>.\<close>

definition double_near :: "double \<Rightarrow> double \<Rightarrow> bool" where
  "double_near x y \<longleftrightarrow> double_le (double_abs (double_add x (double_neg y))) DBL_EPSILON"

text \<open>\<^verbatim>\<open>%.0f\<close> and \<^verbatim>\<open>%e\<close>.\<close>

fun double_fmt0 :: "double \<Rightarrow> string" where
  "double_fmt0 (Fin s m e) = (let (a, b) = scale2 m 1 e in (if s then ''-'' else []) @ dec_pos (round_div a b))"
| "double_fmt0 (Inf s) = (if s then ''-inf'' else ''inf'')"
| "double_fmt0 NaN = ''nan''"

definition dec2 :: "int \<Rightarrow> string" where
  "dec2 n = (if n < 10 then CHR ''0'' # dec_pos n else dec_pos n)"

definition exp_text :: "int \<Rightarrow> int \<Rightarrow> string" where
  "exp_text n x = dec_pos (n div 10 ^ 6) @ ''.'' @ dec6 (n mod 10 ^ 6)
     @ (if x < 0 then ''e-'' else ''e+'') @ dec2 \<bar>x\<bar>"

fun double_fmt_e :: "double \<Rightarrow> string" where
  "double_fmt_e (Fin s m e) = (if s then ''-'' else []) @
     (if m = 0 then exp_text 0 0
      else let (a, b) = scale2 m 1 e;
               x = (if b \<le> a then int (length (dec_pos (a div b))) - 1 else - int (length (dec_pos ((b - 1) div a))));
               n = (if x \<le> 6 then round_div (a * 10 ^ nat (6 - x)) b else round_div a (b * 10 ^ nat (x - 6)))
           in if n = 10 ^ 7 then exp_text (10 ^ 6) (x + 1) else exp_text n x)"
| "double_fmt_e (Inf s) = (if s then ''-inf'' else ''inf'')"
| "double_fmt_e NaN = ''nan''"

section \<open>The buffer\<close>

definition pow2gt :: "int \<Rightarrow> int option" where
  "pow2gt x = do {
     x \<leftarrow> c_int (x - 1);
     let w = (word_of_int x :: 32 word);
     let w = w OR signed_drop_bit 1 w;
     let w = w OR signed_drop_bit 2 w;
     let w = w OR signed_drop_bit 4 w;
     let w = w OR signed_drop_bit 8 w;
     let w = w OR signed_drop_bit 16 w;
     c_int (sint w + 1) }"

record printbuffer =
  cb_buffer :: "char option list option"
  cb_length :: int
  cb_offset :: int

text \<open>The result is the position \<^verbatim>\<open>p->offset\<close> in the buffer, or \<^verbatim>\<open>NULL\<close>; a negative size is a huge unsigned one, which
  \<^verbatim>\<open>malloc\<close> refuses.\<close>

definition ensure :: "allocator \<Rightarrow> printbuffer \<Rightarrow> int \<Rightarrow> (int option \<times> printbuffer) option" where
  "ensure A p needed =
     (case cb_buffer p of
        None \<Rightarrow> Some (None, p)
      | Some buf \<Rightarrow> do {
          needed \<leftarrow> c_int (needed + cb_offset p);
          if needed \<le> cb_length p then Some (Some (cb_offset p), p)
          else do {
            newsize \<leftarrow> pow2gt needed;
            if newsize < 0 \<or> \<not> A newsize then Some (None, p\<lparr>cb_length := 0, cb_buffer := None\<rparr>)
            else Some (Some (cb_offset p),
                       p\<lparr>cb_length := newsize, cb_buffer := Some (buf @ replicate (nat newsize - length buf) None)\<rparr>) } })"

definition update :: "printbuffer \<Rightarrow> int option" where
  "update p =
     (case cb_buffer p of
        None \<Rightarrow> Some 0
      | Some buf \<Rightarrow>
          (if cb_offset p < 0 then None
           else map_option (\<lambda>s. cb_offset p + int (length s)) (c_string (drop (nat (cb_offset p)) buf))))"

text \<open>Writing characters at a position of the buffer.\<close>

definition buf_write :: "printbuffer \<Rightarrow> int \<Rightarrow> string \<Rightarrow> printbuffer option" where
  "buf_write p pos s = do {
     buf \<leftarrow> cb_buffer p;
     buf \<leftarrow> mem_write buf pos (map Some s);
     Some (p\<lparr>cb_buffer := Some buf\<rparr>) }"

text \<open>A text with its terminator, in a new block or in the buffer, for which \<open>needed\<close> bytes are requested.\<close>

definition put_new :: "allocator \<Rightarrow> int \<Rightarrow> string \<Rightarrow> string option option" where
  "put_new A needed s =
     (if A needed then (if int (length s) + 1 \<le> needed then Some (Some s) else None) else Some None)"

definition put_buf :: "allocator \<Rightarrow> int \<Rightarrow> string \<Rightarrow> printbuffer \<Rightarrow> (int option \<times> printbuffer) option" where
  "put_buf A needed s p = do {
     (pos, p) \<leftarrow> ensure A p needed;
     case pos of None \<Rightarrow> Some (None, p)
     | Some i \<Rightarrow> do { p \<leftarrow> buf_write p i (s @ [NUL]); Some (Some i, p) } }"

text \<open>The same without the terminator, moving the offset behind it; \<open>k\<close> goes on, and \<^verbatim>\<open>NULL\<close> is returned when the buffer
  cannot grow.\<close>

definition add_buf ::
  "allocator \<Rightarrow> int \<Rightarrow> string \<Rightarrow> bool \<Rightarrow> printbuffer \<Rightarrow> (printbuffer \<Rightarrow> (int option \<times> printbuffer) option)
   \<Rightarrow> (int option \<times> printbuffer) option" where
  "add_buf A needed s terminate p k = do {
     (pos, p) \<leftarrow> ensure A p needed;
     case pos of None \<Rightarrow> Some (None, p)
     | Some i \<Rightarrow> do {
         p \<leftarrow> buf_write p i (s @ (if terminate then [NUL] else []));
         off \<leftarrow> c_int (cb_offset p + int (length s));
         k (p\<lparr>cb_offset := off\<rparr>) } }"

section \<open>Numbers and strings\<close>

text \<open>The bytes that \<^verbatim>\<open>print_number\<close> requests and the text it writes.\<close>

definition number_text :: "cJSON \<Rightarrow> int \<times> string" where
  "number_text item =
     (let d = cj_valuedouble item
      in if \<not> double_nonzero d then (2, ''0'')
         else if double_near (double_of_int (cj_valueint item)) d \<and> double_le d (double_of_int INT_MAX)
              \<and> double_le (double_of_int INT_MIN) d
         then (21, dec_int (cj_valueint item))
         else (64,
           if double_near (double_floor d) d \<and> double_lt (double_abs d) (double_of_ratio False (10 ^ 60) 1)
           then double_fmt0 d
           else if double_lt (double_abs d) (double_of_ratio False 1 (10 ^ 6))
                \<or> double_lt (double_of_ratio False (10 ^ 9) 1) (double_abs d)
           then double_fmt_e d
           else double_fmt d))"

definition special :: "char \<Rightarrow> bool" where
  "special c \<longleftrightarrow> (0 < cc c \<and> cc c < 32) \<or> c = CHR 0x22 \<or> c = CHR 0x5C"

definition short_letter :: "char \<Rightarrow> char option" where
  "short_letter c =
     (if c = CHR 0x5C then Some CHR 0x5C else if c = CHR 0x22 then Some CHR 0x22
      else if c = CHR 0x08 then Some CHR ''b'' else if c = CHR 0x0C then Some CHR ''f''
      else if c = CHR 0x0A then Some CHR ''n'' else if c = CHR 0x0D then Some CHR ''r''
      else if c = CHR 0x09 then Some CHR ''t'' else None)"

definition hex_digit_char :: "nat \<Rightarrow> char" where
  "hex_digit_char d = (if d < 10 then char_of (48 + d) else char_of (87 + d))"

text \<open>The escaped form of a character; a byte has the form \<^verbatim>\<open>u00xx\<close> in \<^verbatim>\<open>u%04x\<close>.\<close>

definition c_escape :: "char \<Rightarrow> string" where
  "c_escape c =
     (if 31 < cc c \<and> c \<noteq> CHR 0x22 \<and> c \<noteq> CHR 0x5C then [c]
      else CHR 0x5C # (case short_letter c of
             Some l \<Rightarrow> [l]
           | None \<Rightarrow> ''u00'' @ [hex_digit_char (cc c div 16), hex_digit_char (cc c mod 16)]))"

text \<open>The length that the counting loop adds for a character.\<close>

definition escape_len :: "char \<Rightarrow> int" where
  "escape_len c = (if short_letter c \<noteq> None then 2 else if cc c < 32 then 6 else 1)"

text \<open>The bytes that \<^verbatim>\<open>print_string_ptr\<close> requests and the text it writes. A null string is read before it is
  tested.\<close>

definition string_text :: "string option \<Rightarrow> (int \<times> string) option" where
  "string_text str = do {
     s \<leftarrow> str;
     if \<not> list_ex special s
     then do { n \<leftarrow> c_int (int (length s) + 3); Some (n, [CHR 0x22] @ s @ [CHR 0x22]) }
     else do {
       n \<leftarrow> c_int (sum_list (map escape_len s) + 3);
       Some (n, [CHR 0x22] @ concat (map c_escape s) @ [CHR 0x22]) } }"

definition print_string_ptr_new :: "allocator \<Rightarrow> string option \<Rightarrow> string option option" where
  "print_string_ptr_new A str = do { (n, s) \<leftarrow> string_text str; put_new A n s }"

definition print_string_ptr_buf ::
  "allocator \<Rightarrow> string option \<Rightarrow> printbuffer \<Rightarrow> (int option \<times> printbuffer) option" where
  "print_string_ptr_buf A str p = do { (n, s) \<leftarrow> string_text str; put_buf A n s p }"

definition print_number_new :: "allocator \<Rightarrow> cJSON \<Rightarrow> string option option" where
  "print_number_new A item = (case number_text item of (n, s) \<Rightarrow> put_new A n s)"

definition print_number_buf :: "allocator \<Rightarrow> cJSON \<Rightarrow> printbuffer \<Rightarrow> (int option \<times> printbuffer) option" where
  "print_number_buf A item p = (case number_text item of (n, s) \<Rightarrow> put_buf A n s p)"

definition print_string_new :: "allocator \<Rightarrow> cheap \<Rightarrow> nat option \<Rightarrow> string option option" where
  "print_string_new A h str = do { s \<leftarrow> str_at h str; print_string_ptr_new A s }"

definition print_string_buf ::
  "allocator \<Rightarrow> cheap \<Rightarrow> nat option \<Rightarrow> printbuffer \<Rightarrow> (int option \<times> printbuffer) option" where
  "print_string_buf A h str p = do { s \<leftarrow> str_at h str; print_string_ptr_buf A s p }"

section \<open>Arrays and objects, each text in its own block\<close>

text \<open>The items of a list, in the order of \<^verbatim>\<open>next\<close>.\<close>

fun items :: "nat \<Rightarrow> cheap \<Rightarrow> nat option \<Rightarrow> nat list option" where
  "items n h None = Some []"
| "items 0 h (Some c) = None"
| "items (Suc n) h (Some c) = do {
     nd \<leftarrow> ch_node h c;
     cs \<leftarrow> items n h (cj_next nd);
     Some (c # cs) }"

text \<open>The texts of the items and the length that the code adds up, from \<open>len\<close>. For an array the loop ends with
  the first text that is null; for an object it goes on.\<close>

fun array_entries ::
  "(nat \<Rightarrow> string option option) \<Rightarrow> bool \<Rightarrow> nat list \<Rightarrow> int \<Rightarrow> (string list \<times> int) option option" where
  "array_entries pv fmt [] len = Some (Some ([], len))"
| "array_entries pv fmt (c # cs) len = do {
     ret \<leftarrow> pv c;
     case ret of None \<Rightarrow> Some None
     | Some r \<Rightarrow> do {
         len \<leftarrow> c_int (len + int (length r) + 2 + (if fmt then 1 else 0));
         rest \<leftarrow> array_entries pv fmt cs len;
         Some (map_option (\<lambda>(es, len). (r # es, len)) rest) } }"

fun object_entries ::
  "(nat \<Rightarrow> string option option) \<Rightarrow> (nat \<Rightarrow> string option option) \<Rightarrow> bool \<Rightarrow> int \<Rightarrow> nat list \<Rightarrow> int
   \<Rightarrow> ((string \<times> string) list \<times> int) option option" where
  "object_entries ps pv fmt depth [] len = Some (Some ([], len))"
| "object_entries ps pv fmt depth (c # cs) len = do {
     str \<leftarrow> ps c;
     ret \<leftarrow> pv c;
     case (str, ret) of
       (Some s, Some r) \<Rightarrow> do {
         len \<leftarrow> c_int (len + int (length r) + int (length s) + 2 + (if fmt then 2 + depth else 0));
         rest \<leftarrow> object_entries ps pv fmt depth cs len;
         Some (map_option (\<lambda>(es, len). ((s, r) # es, len)) rest) }
     | _ \<Rightarrow> do { rest \<leftarrow> object_entries ps pv fmt depth cs len; Some None } }"

definition tabs :: "int \<Rightarrow> string" where
  "tabs n = replicate (nat n) CHR 0x09"

fun array_body :: "bool \<Rightarrow> string list \<Rightarrow> string" where
  "array_body fmt [] = '']''"
| "array_body fmt [e] = e @ '']''"
| "array_body fmt (e # es) = e @ (if fmt then '', '' else '','') @ array_body fmt es"

fun object_body :: "bool \<Rightarrow> int \<Rightarrow> (string \<times> string) list \<Rightarrow> string" where
  "object_body fmt depth [] = (if fmt then tabs (depth - 1) else []) @ ''}''"
| "object_body fmt depth ((s, r) # es) =
     (if fmt then tabs depth else []) @ s @ '':'' @ (if fmt then [CHR 0x09] else []) @ r
     @ (if es = [] then [] else '','') @ (if fmt then [CHR 0x0A] else []) @ object_body fmt depth es"

definition empty_object :: "bool \<Rightarrow> int \<Rightarrow> string" where
  "empty_object fmt depth = ''{'' @ (if fmt then CHR 0x0A # tabs (depth - 1) else []) @ ''}''"

definition print_array_new ::
  "(nat \<Rightarrow> string option option) \<Rightarrow> allocator \<Rightarrow> cheap \<Rightarrow> nat option \<Rightarrow> bool \<Rightarrow> string option option" where
  "print_array_new pv A h child fmt = do {
     cs \<leftarrow> items (cj_fuel h) h child;
     if cs = [] then put_new A 3 ''[]''
     else if \<not> A (int (length cs) * 8) then Some None
     else do {
       r \<leftarrow> array_entries pv fmt cs 5;
       case r of None \<Rightarrow> Some None
       | Some (es, len) \<Rightarrow> put_new A len (''['' @ array_body fmt es) } }"

definition print_object_new ::
  "(nat \<Rightarrow> string option option) \<Rightarrow> (nat \<Rightarrow> string option option) \<Rightarrow> allocator \<Rightarrow> cheap \<Rightarrow> nat option
   \<Rightarrow> int \<Rightarrow> bool \<Rightarrow> string option option" where
  "print_object_new ps pv A h child depth fmt = do {
     cs \<leftarrow> items (cj_fuel h) h child;
     if cs = []
     then do {
       n \<leftarrow> (if fmt then c_int (depth + 4) else Some 3);
       put_new A n (empty_object fmt depth) }
     else if \<not> A (int (length cs) * 8) then Some None
     else do {
       depth \<leftarrow> c_int (depth + 1);
       len \<leftarrow> c_int (if fmt then 7 + depth else 7);
       r \<leftarrow> object_entries ps pv fmt depth cs len;
       case r of None \<Rightarrow> Some None
       | Some (es, len) \<Rightarrow>
           put_new A len (''{'' @ (if fmt then [CHR 0x0A] else []) @ object_body fmt depth es) } }"

text \<open>\<^verbatim>\<open>print_value\<close> without a buffer; \<open>n\<close> bounds the nesting.\<close>

definition strdup_new :: "allocator \<Rightarrow> string \<Rightarrow> string option option" where
  "strdup_new A s = put_new A (int (length s) + 1) s"

fun print_value_new :: "nat \<Rightarrow> allocator \<Rightarrow> cheap \<Rightarrow> int \<Rightarrow> bool \<Rightarrow> nat \<Rightarrow> string option option" where
  "print_value_new 0 A h depth fmt item = None"
| "print_value_new (Suc n) A h depth fmt item = do {
     nd \<leftarrow> ch_node h item;
     let t = cj_type nd AND 255;
     if t = cJSON_NULL then strdup_new A ''null''
     else if t = cJSON_False then strdup_new A ''false''
     else if t = cJSON_True then strdup_new A ''true''
     else if t = cJSON_Number then print_number_new A nd
     else if t = cJSON_String then print_string_new A h (cj_valuestring nd)
     else if t = cJSON_Array
     then print_array_new (print_value_new n A h (depth + 1) fmt) A h (cj_child nd) fmt
     else if t = cJSON_Object
     then print_object_new (\<lambda>c. do { k \<leftarrow> ch_node h c; print_string_new A h (cj_string k) })
            (print_value_new n A h (depth + 1) fmt) A h (cj_child nd) depth fmt
     else Some None }"

section \<open>Arrays and objects in the buffer\<close>

definition to_end :: "printbuffer \<Rightarrow> printbuffer option" where
  "to_end p = do { off \<leftarrow> update p; off \<leftarrow> c_int off; Some (p\<lparr>cb_offset := off\<rparr>) }"

fun array_loop_buf ::
  "(nat \<Rightarrow> printbuffer \<Rightarrow> (int option \<times> printbuffer) option) \<Rightarrow> allocator \<Rightarrow> bool
   \<Rightarrow> (printbuffer \<Rightarrow> (int option \<times> printbuffer) option) \<Rightarrow> nat list \<Rightarrow> printbuffer
   \<Rightarrow> (int option \<times> printbuffer) option" where
  "array_loop_buf pv A fmt k [] p = k p"
| "array_loop_buf pv A fmt k (c # cs) p = do {
     (r, p) \<leftarrow> pv c p;
     p \<leftarrow> to_end p;
     if cs = [] then array_loop_buf pv A fmt k cs p
     else add_buf A (if fmt then 3 else 2) (if fmt then '', '' else '','') True p (array_loop_buf pv A fmt k cs) }"

definition close_buf ::
  "allocator \<Rightarrow> int \<Rightarrow> string \<Rightarrow> int \<Rightarrow> printbuffer \<Rightarrow> (int option \<times> printbuffer) option" where
  "close_buf A needed s i p = do {
     (r, p) \<leftarrow> put_buf A needed s p;
     Some (case r of None \<Rightarrow> None | Some j \<Rightarrow> Some i, p) }"

definition print_array_buf ::
  "(nat \<Rightarrow> printbuffer \<Rightarrow> (int option \<times> printbuffer) option) \<Rightarrow> allocator \<Rightarrow> cheap \<Rightarrow> nat option \<Rightarrow> bool
   \<Rightarrow> printbuffer \<Rightarrow> (int option \<times> printbuffer) option" where
  "print_array_buf pv A h child fmt p = do {
     cs \<leftarrow> items (cj_fuel h) h child;
     if cs = [] then put_buf A 3 ''[]'' p
     else do {
       let i = cb_offset p;
       add_buf A 1 ''['' False p (array_loop_buf pv A fmt (close_buf A 2 '']'' i) cs) } }"

fun object_loop_buf ::
  "(nat \<Rightarrow> printbuffer \<Rightarrow> (int option \<times> printbuffer) option)
   \<Rightarrow> (nat \<Rightarrow> printbuffer \<Rightarrow> (int option \<times> printbuffer) option) \<Rightarrow> allocator \<Rightarrow> int \<Rightarrow> bool
   \<Rightarrow> (printbuffer \<Rightarrow> (int option \<times> printbuffer) option) \<Rightarrow> nat list \<Rightarrow> printbuffer
   \<Rightarrow> (int option \<times> printbuffer) option" where
  "object_loop_buf ps pv A depth fmt k [] p = k p"
| "object_loop_buf ps pv A depth fmt k (c # cs) p =
     (if fmt then add_buf A depth (tabs depth) False p else (\<lambda>k. k p)) (\<lambda>p. do {
       (s, p) \<leftarrow> ps c p;
       p \<leftarrow> to_end p;
       add_buf A (if fmt then 2 else 1) ('':'' @ (if fmt then [CHR 0x09] else [])) False p (\<lambda>p. do {
         (r, p) \<leftarrow> pv c p;
         p \<leftarrow> to_end p;
         let s = (if cs = [] then [] else '','') @ (if fmt then [CHR 0x0A] else []);
         add_buf A (int (length s) + 1) s True p (object_loop_buf ps pv A depth fmt k cs) }) })"

definition print_object_buf ::
  "(nat \<Rightarrow> printbuffer \<Rightarrow> (int option \<times> printbuffer) option)
   \<Rightarrow> (nat \<Rightarrow> printbuffer \<Rightarrow> (int option \<times> printbuffer) option) \<Rightarrow> allocator \<Rightarrow> cheap \<Rightarrow> nat option
   \<Rightarrow> int \<Rightarrow> bool \<Rightarrow> printbuffer \<Rightarrow> (int option \<times> printbuffer) option" where
  "print_object_buf ps pv A h child depth fmt p = do {
     cs \<leftarrow> items (cj_fuel h) h child;
     if cs = []
     then do {
       n \<leftarrow> (if fmt then c_int (depth + 4) else Some 3);
       put_buf A n (empty_object fmt depth) p }
     else do {
       let i = cb_offset p;
       add_buf A (if fmt then 3 else 2) (''{'' @ (if fmt then [CHR 0x0A] else [])) True p (\<lambda>p. do {
         depth \<leftarrow> c_int (depth + 1);
         object_loop_buf ps pv A depth fmt
           (close_buf A (if fmt then depth + 1 else 2) ((if fmt then tabs (depth - 1) else []) @ ''}'') i) cs p }) } }"

fun print_value_buf ::
  "nat \<Rightarrow> allocator \<Rightarrow> cheap \<Rightarrow> int \<Rightarrow> bool \<Rightarrow> nat \<Rightarrow> printbuffer \<Rightarrow> (int option \<times> printbuffer) option" where
  "print_value_buf 0 A h depth fmt item p = None"
| "print_value_buf (Suc n) A h depth fmt item p = do {
     nd \<leftarrow> ch_node h item;
     let t = cj_type nd AND 255;
     if t = cJSON_NULL then put_buf A 5 ''null'' p
     else if t = cJSON_False then put_buf A 6 ''false'' p
     else if t = cJSON_True then put_buf A 5 ''true'' p
     else if t = cJSON_Number then print_number_buf A nd p
     else if t = cJSON_String then print_string_buf A h (cj_valuestring nd) p
     else if t = cJSON_Array
     then print_array_buf (print_value_buf n A h (depth + 1) fmt) A h (cj_child nd) fmt p
     else if t = cJSON_Object
     then print_object_buf (\<lambda>c p. do { k \<leftarrow> ch_node h c; print_string_buf A h (cj_string k) p })
            (print_value_buf n A h (depth + 1) fmt) A h (cj_child nd) depth fmt p
     else Some (None, p) }"

section \<open>The interface\<close>

definition print_root :: "allocator \<Rightarrow> cheap \<Rightarrow> nat option \<Rightarrow> bool \<Rightarrow> string option option" where
  "print_root A h item fmt =
     (case item of None \<Rightarrow> Some None | Some a \<Rightarrow> print_value_new (cj_fuel h) A h 0 fmt a)"

definition cJSON_Print :: "allocator \<Rightarrow> cheap \<Rightarrow> nat option \<Rightarrow> string option option" where
  "cJSON_Print A h item = print_root A h item True"

definition cJSON_PrintUnformatted :: "allocator \<Rightarrow> cheap \<Rightarrow> nat option \<Rightarrow> string option option" where
  "cJSON_PrintUnformatted A h item = print_root A h item False"

text \<open>The text at the pointer that is returned.\<close>

definition text_at :: "int option \<times> printbuffer \<Rightarrow> string option option" where
  "text_at r = (case r of (None, p) \<Rightarrow> Some None
     | (Some i, p) \<Rightarrow> do { buf \<leftarrow> cb_buffer p; s \<leftarrow> c_string (drop (nat i) buf); Some (Some s) })"

definition cJSON_PrintBuffered :: "allocator \<Rightarrow> cheap \<Rightarrow> nat option \<Rightarrow> int \<Rightarrow> int \<Rightarrow> string option option" where
  "cJSON_PrintBuffered A h item prebuffer fmt =
     (let p = \<lparr>cb_buffer = (if prebuffer < 0 \<or> \<not> A prebuffer then None else Some (replicate (nat prebuffer) None)),
               cb_length = prebuffer, cb_offset = 0\<rparr>
      in case item of None \<Rightarrow> Some None
         | Some a \<Rightarrow> do { r \<leftarrow> print_value_buf (cj_fuel h) A h 0 (fmt \<noteq> 0) a p; text_at r })"

end
