(* ===== verification/CJsonText.thy ===== *)
theory CJsonText
  imports CJsonPrint
begin

unbundle bit_operations_syntax

text \<open>
  The texts of numbers and strings of \<^verbatim>\<open>src/cJSON/cJSON.c\<close> against the sizes that the code reserves for them, and
  the growth of the print buffer.
\<close>

section \<open>Numbers\<close>

text \<open>The doubles that exist.\<close>

fun ieee :: "double \<Rightarrow> bool" where
  "ieee (Fin s m e) \<longleftrightarrow> 0 \<le> m \<and> m < 2 ^ 53 \<and> - 1074 \<le> e \<and> e \<le> 971"
| "ieee (Inf s) \<longleftrightarrow> True"
| "ieee NaN \<longleftrightarrow> True"

lemma scale2_props:
  assumes "scale2 m 1 e = (a, b)" "0 \<le> m"
  shows "0 \<le> a" "0 < b"
  using assms by (auto simp: scale2_def split: if_splits)

lemma fin_at_shift: "k \<le> e \<Longrightarrow> fin_at k False m e = m * 2 ^ nat (e - k)"
  by (simp add: fin_at_def)

lemma double_le_ratio:
  assumes "scale2 m 1 e = (a, b)" "scale2 m' 1 e' = (a', b')"
  shows "double_le (Fin False m e) (Fin False m' e') \<longleftrightarrow> a * b' \<le> a' * b"
proof -
  let ?k = "min e e'"
  have le: "double_le (Fin False m e) (Fin False m' e') \<longleftrightarrow> m * 2 ^ nat (e - ?k) \<le> m' * 2 ^ nat (e' - ?k)"
    by (simp add: fin_at_shift Let_def)
  have scaled: "x * c \<le> y * c \<longleftrightarrow> x \<le> y" if "0 < c" for x y c :: int using that by simp
  consider "0 \<le> e \<and> 0 \<le> e'" | "0 \<le> e \<and> e' < 0" | "e < 0 \<and> 0 \<le> e'" | "e < 0 \<and> e' < 0" by linarith
  then show ?thesis
  proof cases
    case 1
    then have "nat e = nat (e - ?k) + nat ?k" "nat e' = nat (e' - ?k) + nat ?k" by linarith+
    then have "a = m * 2 ^ nat (e - ?k) * 2 ^ nat ?k" "a' = m' * 2 ^ nat (e' - ?k) * 2 ^ nat ?k" "b = 1" "b' = 1"
      using assms 1 by (auto simp: scale2_def power_add mult.assoc)
    then show ?thesis unfolding le by (simp del: mult_le_cancel_right add: scaled)
  next
    case 2
    then have k: "?k = e'" "nat (e - e') = nat e + nat (- e')" by linarith+
    show ?thesis unfolding le k using assms 2 by (auto simp: scale2_def power_add mult.assoc)
  next
    case 3
    then have k: "?k = e" "nat (e' - e) = nat e' + nat (- e)" by linarith+
    show ?thesis unfolding le k using assms 3 by (auto simp: scale2_def power_add mult.assoc)
  next
    case 4
    then have "nat (- ?k) = nat (e - ?k) + nat (- e)" "nat (- ?k) = nat (e' - ?k) + nat (- e')" by linarith+
    then have pw: "2 ^ nat (- e) * 2 ^ nat (e - ?k) = (2 ^ nat (- ?k) :: int)"
      "2 ^ nat (- e') * 2 ^ nat (e' - ?k) = (2 ^ nat (- ?k) :: int)" by (simp_all flip: power_add add: add.commute)
    have ab: "a = m" "b = 2 ^ nat (- e)" "a' = m'" "b' = 2 ^ nat (- e')" using assms 4 by (auto simp: scale2_def)
    have "a * b' \<le> a' * b \<longleftrightarrow> (a * b') * (2 ^ nat (e - ?k) * 2 ^ nat (e' - ?k)) \<le> (a' * b) * (2 ^ nat (e - ?k) * 2 ^ nat (e' - ?k))"
      by (rule scaled [symmetric]) simp
    also have "(a * b') * (2 ^ nat (e - ?k) * 2 ^ nat (e' - ?k)) = (m * 2 ^ nat (e - ?k)) * 2 ^ nat (- ?k)"
      unfolding ab pw(2) [symmetric] by (simp only: ac_simps)
    also have "(a' * b) * (2 ^ nat (e - ?k) * 2 ^ nat (e' - ?k)) = (m' * 2 ^ nat (e' - ?k)) * 2 ^ nat (- ?k)"
      unfolding ab pw(1) [symmetric] by (simp only: ac_simps)
    finally show ?thesis unfolding le by (simp del: mult_le_cancel_right add: scaled)
  qed
qed

lemma const_1e60: "double_of_ratio False (10 ^ 60) 1 = Fin False 5605193857299268 147"
  and const_1e9: "double_of_ratio False (10 ^ 9) 1 = Fin False 8388608000000000 (- 23)"
  by code_simp+

lemma NUL_neq [simp]: "NUL \<noteq> CHR ''-''" "NUL \<noteq> CHR ''.''" "NUL \<noteq> CHR ''0''" "NUL \<noteq> CHR ''e''" "NUL \<noteq> CHR ''+''"
  "NUL \<noteq> CHR 0x22"
  by (simp_all add: NUL_def)

lemma fmt0_fits:
  assumes "ieee d" "double_lt (double_abs d) (double_of_ratio False (10 ^ 60) 1)"
  shows "length (double_fmt0 d) \<le> 62 \<and> NUL \<notin> set (double_fmt0 d)"
proof (cases d)
  case (Fin s m e)
  obtain a b where ab: "scale2 m 1 e = (a, b)" by force
  have m: "0 \<le> m" using assms(1) Fin by simp
  note ab' = scale2_props [OF ab m]
  obtain a' b' where c: "scale2 5605193857299268 1 147 = (a', b')" by force
  have "double_le (Fin False m e) (Fin False 5605193857299268 147)"
    using assms(2) Fin unfolding const_1e60 by (simp add: double_lt_def)
  then have "a * b' \<le> a' * b" unfolding double_le_ratio [OF ab c] .
  then have "a \<le> (5605193857299268 * 2 ^ 147) * b" using c by (simp add: scale2_def)
  also have "\<dots> \<le> 10 ^ 60 * b" using ab'(2) by (intro mult_right_mono) simp_all
  finally have "round_div a b \<le> 10 ^ 60" by (rule round_div_le [OF _ ab'(2)])
  then have r: "round_div a b < 10 ^ 61" by simp
  have z: "0 \<le> round_div a b" using ab' by (intro round_div_nonneg) auto
  have "length (dec_pos (round_div a b)) \<le> 61" by (rule dec_pos_length_le [OF z r]) simp
  then show ?thesis using Fin ab digit_not_NUL [OF z] by auto
qed (use assms(2) [unfolded const_1e60] in \<open>auto simp: double_lt_def NUL_def\<close>)

lemma dec6_length: "0 \<le> n \<Longrightarrow> n < 10 ^ 6 \<Longrightarrow> length (dec6 n) = 6 \<and> NUL \<notin> set (dec6 n)"
  using dec_pos_length_le [of n 6] digit_not_NUL [of n] by (auto simp: dec6_def Let_def)

lemma fmt_fits:
  assumes "ieee d" "\<not> double_lt (double_of_ratio False (10 ^ 9) 1) (double_abs d)"
  shows "length (double_fmt d) \<le> 20 \<and> NUL \<notin> set (double_fmt d)"
proof (cases d)
  case (Fin s m e)
  obtain a b where ab: "scale2 m 1 e = (a, b)" by force
  have m: "0 \<le> m" using assms(1) Fin by simp
  note ab' = scale2_props [OF ab m]
  obtain a' b' where c: "scale2 8388608000000000 1 (- 23) = (a', b')" by force
  have "\<not> double_lt (Fin False 8388608000000000 (- 23)) (Fin False m e)"
    using assms(2) Fin unfolding const_1e9 by simp
  then have "a * b' \<le> a' * b"
    unfolding double_lt_def double_le_ratio [OF ab c] double_le_ratio [OF c ab] by linarith
  then have "a \<le> 10 ^ 9 * b" using c by (simp add: scale2_def)
  then have "a * 10 ^ 6 \<le> 10 ^ 15 * b" by simp
  then have le: "round_div (a * 10 ^ 6) b \<le> 10 ^ 15" by (rule round_div_le [OF _ ab'(2)])
  let ?n = "round_div (a * 10 ^ 6) b"
  have z: "0 \<le> ?n" using ab' by (intro round_div_nonneg) auto
  then have z': "0 \<le> ?n div 10 ^ 6" by simp
  have "?n div 10 ^ 6 \<le> 10 ^ 15 div 10 ^ 6" using le by (rule zdiv_mono1) simp
  then have lt: "?n div 10 ^ 6 < 10 ^ 10" by simp
  have "length (dec_pos (?n div 10 ^ 6)) \<le> 10" by (rule dec_pos_length_le [OF z' lt]) simp
  moreover have "length (dec6 (?n mod 10 ^ 6)) = 6" "NUL \<notin> set (dec6 (?n mod 10 ^ 6))"
    using dec6_length [of "?n mod 10 ^ 6"] by simp_all
  ultimately show ?thesis using Fin ab digit_not_NUL [OF z'] by (simp add: Let_def)
qed (auto simp: NUL_def)

lemma exp_text_fits:
  assumes "0 \<le> n" "n < 10 ^ 7" "\<bar>x\<bar> < 10 ^ 3"
  shows "length (exp_text n x) \<le> 14 \<and> NUL \<notin> set (exp_text n x)"
proof -
  have "length (dec_pos (n div 10 ^ 6)) \<le> 1" using assms by (intro dec_pos_length_le) auto
  moreover have "length (dec6 (n mod 10 ^ 6)) = 6" "NUL \<notin> set (dec6 (n mod 10 ^ 6))"
    using dec6_length [of "n mod 10 ^ 6"] by simp_all
  moreover have "length (dec2 \<bar>x\<bar>) \<le> 4"
    using dec_pos_length_le [of "\<bar>x\<bar>" 3] assms(3) by (auto simp: dec2_def)
  moreover have "0 \<le> n div 10 ^ 6" using assms(1) by simp
  ultimately show ?thesis using digit_not_NUL [of "n div 10 ^ 6"] digit_not_NUL [of "\<bar>x\<bar>"]
    by (auto simp: exp_text_def dec2_def)
qed

lemma div_less_mult:
  assumes "(x::int) div y < n" "0 < y" shows "x < n * y"
proof -
  have "(x div y + 1) * y \<le> n * y" using assms by (intro mult_right_mono) auto
  moreover have "x = (x div y) * y + x mod y" "x mod y < y" using assms(2) by simp_all
  ultimately show ?thesis unfolding distrib_right by linarith
qed

text \<open>\<^verbatim>\<open>%e\<close>: the decimal exponent is the right one, so that the significand has one digit before the point.\<close>

lemma fmt_e_significand:
  assumes "0 < a" "0 < b"
  shows "let x = (if b \<le> a then int (length (dec_pos (a div b))) - 1 else - int (length (dec_pos ((b - 1) div a))))
         in (if x \<le> 6 then round_div (a * 10 ^ nat (6 - x)) b else round_div a (b * 10 ^ nat (x - 6))) \<le> 10 ^ 7"
proof (cases "b \<le> a")
  case True
  let ?L = "length (dec_pos (a div b))"
  have q: "0 \<le> a div b" using assms by (simp add: pos_imp_zdiv_nonneg_iff)
  have "a div b < 10 ^ ?L" using int_of_dec_bound [OF dec_pos_digits [OF q]] q by simp
  then have "a < 10 ^ ?L * b" by (rule div_less_mult [OF _ assms(2)])
  then have a: "a \<le> 10 ^ ?L * b" by simp
  have L: "0 < ?L" by simp
  show ?thesis
  proof (cases "int ?L - 1 \<le> 6")
    case le: True
    then have "nat (6 - (int ?L - 1)) = 7 - ?L" "?L \<le> 7" by linarith+
    then have e: "(10::int) ^ ?L * 10 ^ nat (6 - (int ?L - 1)) = 10 ^ 7" by (simp flip: power_add)
    have "a * 10 ^ nat (6 - (int ?L - 1)) \<le> 10 ^ ?L * b * 10 ^ nat (6 - (int ?L - 1))"
      using a by (intro mult_right_mono) simp_all
    also have "\<dots> = 10 ^ 7 * b" unfolding e [symmetric] by (simp only: ac_simps)
    finally show ?thesis using True le round_div_le [OF _ assms(2)] by (simp add: Let_def)
  next
    case gt: False
    then have "nat (int ?L - 1 - 6) = ?L - 7" "7 \<le> ?L" by linarith+
    then have e: "(10::int) ^ 7 * 10 ^ nat (int ?L - 1 - 6) = 10 ^ ?L" by (metis le_add_diff_inverse power_add)
    have "a \<le> 10 ^ 7 * (b * 10 ^ nat (int ?L - 1 - 6))" using a unfolding e [symmetric] by (simp only: ac_simps)
    moreover have "0 < b * 10 ^ nat (int ?L - 1 - 6)" using assms(2) by simp
    ultimately show ?thesis using True gt round_div_le by (simp add: Let_def)
  qed
next
  case False
  let ?q = "(b - 1) div a" let ?L = "length (dec_pos ?q)"
  have "a * 1 \<le> b - 1" using False by simp
  then have q: "1 \<le> ?q" using assms(1) by (simp add: pos_imp_zdiv_pos_iff int_one_le_iff_zero_less)
  have "10 ^ (?L - 1) * a \<le> ?q * a" using dec_pos_lower [OF q] assms(1) by (intro mult_right_mono) auto
  also have "?q * a \<le> b - 1"
  proof -
    have "b - 1 = ?q * a + (b - 1) mod a" by simp
    moreover have "0 \<le> (b - 1) mod a" using assms(1) by simp
    ultimately show ?thesis by linarith
  qed
  finally have a: "10 ^ (?L - 1) * a \<le> b" by simp
  have "nat (6 + int ?L) = 7 + (?L - 1)" by (simp add: nat_add_distrib Suc_leI)
  then have "(10::int) ^ nat (6 + int ?L) = 10 ^ 7 * 10 ^ (?L - 1)" by (simp only: power_add)
  then have "a * 10 ^ nat (6 + int ?L) = 10 ^ 7 * (10 ^ (?L - 1) * a)" by (simp only: ac_simps)
  also have "\<dots> \<le> 10 ^ 7 * b" using a by (intro mult_left_mono) simp_all
  finally show ?thesis using False round_div_le [OF _ assms(2)] by (simp add: Let_def)
qed

lemma fmt_e_fits:
  assumes "ieee d" shows "length (double_fmt_e d) \<le> 20 \<and> NUL \<notin> set (double_fmt_e d)"
proof (cases d)
  case (Fin s m e)
  obtain a b where ab: "scale2 m 1 e = (a, b)" by force
  have m: "0 \<le> m" "m < 2 ^ 53" "- 1074 \<le> e" "e \<le> 971" using assms Fin by auto
  note ab' = scale2_props [OF ab m(1)]
  show ?thesis
  proof (cases "m = 0")
    case True
    then show ?thesis using Fin exp_text_fits [of 0 0] by auto
  next
    case False
    then have a: "0 < a" using ab m(1) by (auto simp: scale2_def split: if_splits)
    let ?x = "if b \<le> a then int (length (dec_pos (a div b))) - 1 else - int (length (dec_pos ((b - 1) div a)))"
    let ?n = "if ?x \<le> 6 then round_div (a * 10 ^ nat (6 - ?x)) b else round_div a (b * 10 ^ nat (?x - 6))"
    have n: "?n \<le> 10 ^ 7" using fmt_e_significand [OF a ab'(2)] by (simp only: Let_def)
    have z: "0 \<le> ?n" using ab' by (auto intro!: round_div_nonneg)
    have "(2::int) ^ nat e \<le> 2 ^ 971" "(2::int) ^ nat (- e) \<le> 2 ^ 1074" using m by (intro power_increasing; simp)+
    moreover have "m * 2 ^ nat e \<le> 2 ^ 53 * 2 ^ 971"
      by (rule mult_mono [OF less_imp_le [OF m(2)] calculation(1)]) simp_all
    moreover have "m \<le> 2 ^ 53 * 2 ^ 971" using m(2) by simp
    ultimately have "a \<le> 2 ^ 53 * 2 ^ 971" "b \<le> 2 ^ 1074"
      using ab m by (auto simp: scale2_def split: if_splits)
    moreover have "(2::int) ^ 53 * 2 ^ 971 < 10 ^ 400" "(2::int) ^ 1074 < 10 ^ 400" by simp_all
    ultimately have big: "a < 10 ^ 400" "b < 10 ^ 400" by linarith+
    have "a div b \<le> a" "(b - 1) div a \<le> b - 1"
      using zdiv_mono2 [of a 1 b] zdiv_mono2 [of "b - 1" 1 a] a ab' by simp_all
    then have lt: "a div b < 10 ^ 400" "(b - 1) div a < 10 ^ 400" using big by linarith+
    have nn: "0 \<le> a div b" "0 \<le> (b - 1) div a" using a ab' by (simp_all add: pos_imp_zdiv_nonneg_iff)
    have "length (dec_pos (a div b)) \<le> 400" "length (dec_pos ((b - 1) div a)) \<le> 400"
      using dec_pos_length_le [OF nn(1) lt(1)] dec_pos_length_le [OF nn(2) lt(2)] by linarith+
    then have x: "\<bar>?x\<bar> < 10 ^ 3 - 1" by auto
    have "double_fmt_e d = (if s then ''-'' else []) @ (if ?n = 10 ^ 7 then exp_text (10 ^ 6) (?x + 1) else exp_text ?n ?x)"
      using Fin False ab by (simp add: Let_def)
    moreover obtain x n where xn: "x = ?x" "n = ?n" by blast
    ultimately have fmt: "double_fmt_e d = (if s then ''-'' else []) @ (if n = 10 ^ 7 then exp_text (10 ^ 6) (x + 1) else exp_text n x)"
      by simp
    have x': "\<bar>x\<bar> < 10 ^ 3 - 1" unfolding xn(1) by (rule x)
    then have b: "\<bar>x\<bar> < 10 ^ 3" "\<bar>x + 1\<bar> < 10 ^ 3" by linarith+
    have c: "0 \<le> n" "n \<le> 10 ^ 7" unfolding xn(2) by (rule z) (rule n)
    have "length (exp_text (10 ^ 6) (x + 1)) \<le> 14 \<and> NUL \<notin> set (exp_text (10 ^ 6) (x + 1))"
      by (rule exp_text_fits [OF _ _ b(2)]) simp_all
    moreover have "length (exp_text n x) \<le> 14 \<and> NUL \<notin> set (exp_text n x)" if "n \<noteq> 10 ^ 7"
      by (rule exp_text_fits [OF c(1) _ b(1)]) (use c(2) that in linarith)
    ultimately show ?thesis unfolding fmt by auto
  qed
qed (auto simp: NUL_def)

lemma dec_int_fits:
  assumes "INT_MIN \<le> i" "i \<le> INT_MAX" shows "length (dec_int i) \<le> 11 \<and> NUL \<notin> set (dec_int i)"
proof -
  have "length (dec_pos \<bar>i\<bar>) \<le> 10" using assms by (intro dec_pos_length_le) (auto simp: INT_MIN_def INT_MAX_def)
  then show ?thesis using digit_not_NUL [of "\<bar>i\<bar>"] by (auto simp: dec_int_def abs_if split: if_splits)
qed

lemma number_text_fits:
  assumes "ieee (cj_valuedouble nd)" "INT_MIN \<le> cj_valueint nd" "cj_valueint nd \<le> INT_MAX"
  shows "case number_text nd of (n, s) \<Rightarrow> int (length s) + 1 \<le> n \<and> n \<le> 64 \<and> NUL \<notin> set s"
proof -
  let ?d = "cj_valuedouble nd"
  have i: "int (length (dec_int (cj_valueint nd))) + 1 \<le> 21" "NUL \<notin> set (dec_int (cj_valueint nd))"
    using dec_int_fits [OF assms(2,3)] by auto
  have f0: "double_lt (double_abs ?d) (double_of_ratio False (10 ^ 60) 1) \<Longrightarrow>
      int (length (double_fmt0 ?d)) + 1 \<le> 64 \<and> NUL \<notin> set (double_fmt0 ?d)" using fmt0_fits [OF assms(1)] by auto
  have fe: "int (length (double_fmt_e ?d)) + 1 \<le> 64 \<and> NUL \<notin> set (double_fmt_e ?d)" using fmt_e_fits [OF assms(1)] by auto
  have f: "\<not> double_lt (double_of_ratio False (10 ^ 9) 1) (double_abs ?d) \<Longrightarrow>
      int (length (double_fmt ?d)) + 1 \<le> 64 \<and> NUL \<notin> set (double_fmt ?d)" using fmt_fits [OF assms(1)] by auto
  show ?thesis unfolding number_text_def Let_def using i f0 fe f by (simp split: if_split del: power_numeral)
qed

section \<open>Strings\<close>

definition quoted :: "string \<Rightarrow> string" where
  "quoted s = [CHR 0x22] @ concat (map c_escape s) @ [CHR 0x22]"

lemma cc_eq_0: "cc c = 0 \<longleftrightarrow> c = NUL"
proof -
  have "cc NUL = 0" by (simp add: NUL_def)
  then show ?thesis using of_char_eq_iff [of c NUL] by metis
qed

lemma escape_len_correct: "c \<noteq> NUL \<Longrightarrow> int (length (c_escape c)) = escape_len c"
  by (auto simp: c_escape_def escape_len_def short_letter_def split: option.splits)

lemma c_escape_plain: "c \<noteq> NUL \<Longrightarrow> \<not> special c \<Longrightarrow> c_escape c = [c]"
  using cc_eq_0 [of c] by (auto simp: c_escape_def special_def)

lemma hex_digit_char_NUL: "d < 16 \<Longrightarrow> hex_digit_char d \<noteq> NUL"
  by (auto simp: hex_digit_char_def NUL_def dest: arg_cong [of _ _ cc])

lemma c_escape_NUL: "c \<noteq> NUL \<Longrightarrow> NUL \<notin> set (c_escape c)"
  using hex_digit_char_NUL [of "cc c div 16"] hex_digit_char_NUL [of "cc c mod 16"]
    less_mult_imp_div_less [of "cc c" 16 16]
  by (auto simp: c_escape_def short_letter_def NUL_def split: option.splits if_splits)

lemma quoted_NUL: "NUL \<notin> set s \<Longrightarrow> NUL \<notin> set (quoted s)"
proof -
  assume "NUL \<notin> set s"
  then have "\<forall>c \<in> set s. NUL \<notin> set (c_escape c)" using c_escape_NUL by metis
  then show ?thesis by (simp add: quoted_def)
qed

lemma string_text_quoted:
  assumes "NUL \<notin> set s" "int (length (quoted s)) + 1 \<le> INT_MAX"
  shows "string_text (Some s) = Some (int (length (quoted s)) + 1, quoted s)"
proof -
  have sum: "sum_list (map escape_len s) = int (length (concat (map c_escape s)))"
    using assms(1) by (induction s) (auto simp: escape_len_correct)
  have plain: "\<not> list_ex special s \<Longrightarrow> concat (map c_escape s) = s"
    using assms(1) by (induction s) (auto simp: c_escape_plain)
  show ?thesis
  proof (cases "list_ex special s")
    case True
    then show ?thesis using assms(2) sum by (simp add: string_text_def quoted_def INT_MIN_def)
  next
    case False
    then show ?thesis using assms(2) plain by (simp add: string_text_def quoted_def INT_MIN_def)
  qed
qed

section \<open>The size of the buffer\<close>

text \<open>Every step of \<^verbatim>\<open>pow2gt\<close> doubles the distance over which set bits spread downwards.\<close>

definition spread :: "nat \<Rightarrow> 32 word \<Rightarrow> 32 word \<Rightarrow> bool" where
  "spread d w r \<longleftrightarrow> (\<forall>n. bit r n \<longleftrightarrow> (\<exists>i<d. bit w (n + i)))"

lemma spread_double: "spread d w r \<Longrightarrow> spread (d + d) w (r OR drop_bit d r)"
proof -
  have "(\<exists>i<d. P (n + i)) \<or> (\<exists>i<d. P (d + n + i)) \<longleftrightarrow> (\<exists>i<d + d. P (n + i))" for P and n :: nat
  proof
    assume "\<exists>i<d + d. P (n + i)"
    then obtain i where i: "i < d + d" "P (n + i)" by blast
    then show "(\<exists>i<d. P (n + i)) \<or> (\<exists>i<d. P (d + n + i))"
      by (cases "i < d") (auto intro: exI [of _ "i - d"])
  next
    assume "(\<exists>i<d. P (n + i)) \<or> (\<exists>i<d. P (d + n + i))"
    then show "\<exists>i<d + d. P (n + i)"
    proof
      assume "\<exists>i<d. P (d + n + i)"
      then obtain i where "i < d" "P (n + (d + i))" by (auto simp: ac_simps)
      then show ?thesis by (intro exI [of _ "d + i"]) auto
    qed (auto intro: trans_less_add1)
  qed
  then show "spread d w r \<Longrightarrow> spread (d + d) w (r OR drop_bit d r)"
    by (simp add: spread_def bit_or_iff bit_drop_bit_eq)
qed

lemma spread_high: "spread d w r \<Longrightarrow> \<not> bit w 31 \<Longrightarrow> \<not> bit r 31"
proof -
  assume s: "spread d w r" and w: "\<not> bit w 31"
  have "\<not> bit w (31 + i)" for i
    using w bit_imp_le_length [of w "31 + i"] by (cases "i = 0") auto
  with s show ?thesis by (simp add: spread_def)
qed

lemma signed_drop_pos: "\<not> bit (w :: 32 word) 31 \<Longrightarrow> signed_drop_bit n w = drop_bit n w"
proof (rule bit_word_eqI)
  fix k assume "\<not> bit w 31"
  then show "bit (signed_drop_bit n w) k = bit (drop_bit n w) k" if "k < LENGTH(32)"
    using that bit_imp_le_length [of w "n + k"]
    by (auto simp: bit_signed_drop_bit_iff bit_drop_bit_eq)
qed

lemma spread_top:
  assumes "spread 32 w r" "bit w m" "\<And>j. m < j \<Longrightarrow> \<not> bit w j"
  shows "r = mask (Suc m)"
proof (rule bit_word_eqI)
  have "m < 32" using bit_imp_le_length [OF assms(2)] by simp
  fix n assume "n < LENGTH(32)"
  have "(\<exists>i<32. bit w (n + i)) \<longleftrightarrow> n \<le> m"
  proof
    assume "\<exists>i<32. bit w (n + i)"
    then obtain i where "bit w (n + i)" by blast
    then have "n + i \<le> m" using assms(3) by (meson not_le)
    then show "n \<le> m" by simp
  next
    assume "n \<le> m"
    then have "m - n < 32 \<and> bit w (n + (m - n))" using \<open>m < 32\<close> assms(2) by simp
    then show "\<exists>i<32. bit w (n + i)" by blast
  qed
  then show "bit r n = bit (mask (Suc m) :: 32 word) n"
    using assms(1) \<open>n < LENGTH(32)\<close> by (auto simp: spread_def bit_mask_iff less_Suc_eq_le)
qed

lemma bit_top_nat:
  assumes "2 ^ m \<le> n" "n < 2 ^ Suc m"
  shows "bit (n::nat) m" "m < j \<Longrightarrow> \<not> bit n j"
proof -
  have "n div 2 ^ m = 1" using assms by (intro div_nat_eqI) auto
  then show "bit n m" by (simp add: bit_iff_odd)
  assume "m < j"
  then have "2 ^ Suc m \<le> (2::nat) ^ j" by (intro power_increasing) auto
  then have "n div 2 ^ j = 0" using assms(2) by simp
  then show "\<not> bit n j" by (simp add: bit_iff_odd)
qed

lemma pow2gt_spread:
  assumes "0 < x" "x \<le> INT_MAX" "2 ^ m \<le> nat (x - 1)" "nat (x - 1) < 2 ^ Suc m"
  shows "pow2gt x = c_int (2 ^ Suc m)"
proof -
  obtain w :: "32 word" where w: "w = word_of_int (x - 1)" by blast
  have "int (nat (x - 1)) = x - 1" using assms(1) by simp
  then have w': "w = of_nat (nat (x - 1))" using w by (metis of_int_of_nat_eq)
  have m: "m < 31"
  proof (rule ccontr)
    assume "\<not> m < 31"
    then have "(2::nat) ^ 31 \<le> 2 ^ m" by (intro power_increasing) auto
    then have "2 ^ 31 \<le> nat (x - 1)" using assms(3) by linarith
    then show False using assms(2) by (simp add: INT_MAX_def)
  qed
  have u: "unat w = nat (x - 1)" using assms(2) unfolding w' by (intro unat_of_nat_u32) (simp add: INT_MAX_def)
  have bits: "bit w n \<longleftrightarrow> bit (nat (x - 1)) n" for n unfolding u [symmetric] by (simp add: bit_unsigned_iff)
  have top: "bit w m" "\<And>j. m < j \<Longrightarrow> \<not> bit w j" unfolding bits using bit_top_nat [OF assms(3,4)] by auto
  have no31: "\<not> bit w 31" using top(2) m by auto
  have s1: "spread 1 w w" by (simp add: spread_def)
  obtain w1 w2 w3 w4 w5 where ws: "w1 = w OR drop_bit 1 w" "w2 = w1 OR drop_bit 2 w1" "w3 = w2 OR drop_bit 4 w2"
    "w4 = w3 OR drop_bit 8 w3" "w5 = w4 OR drop_bit 16 w4" by blast
  have s2: "spread 2 w w1" using spread_double [OF s1] unfolding ws(1) one_add_one .
  have s4: "spread 4 w w2" using spread_double [OF s2] ws(2) by simp
  have s8: "spread 8 w w3" using spread_double [OF s4] ws(3) by simp
  have s16: "spread 16 w w4" using spread_double [OF s8] ws(4) by simp
  have s32: "spread 32 w w5" using spread_double [OF s16] ws(5) by simp
  note sd = signed_drop_pos [OF no31] signed_drop_pos [OF spread_high [OF s2 no31]]
    signed_drop_pos [OF spread_high [OF s4 no31]] signed_drop_pos [OF spread_high [OF s8 no31]]
    signed_drop_pos [OF spread_high [OF s16 no31]]
  have w5: "w5 = mask (Suc m)" by (rule spread_top [OF s32 top])
  have le: "(2::int) ^ Suc m \<le> 2 ^ 31" using m by (intro power_increasing) auto
  have "w5 = word_of_int (2 ^ Suc m - 1)" unfolding w5 mask_eq_exp_minus_1 by simp
  then have "uint w5 = take_bit 32 (2 ^ Suc m - 1)" by (simp only: unsigned_of_int len_num1 len_bit0) simp
  also have "\<dots> = 2 ^ Suc m - 1" using le by (intro take_bit_int_eq_self) auto
  finally have "uint w5 = 2 ^ Suc m - 1" .
  moreover have "signed_take_bit 31 (2 ^ Suc m - 1) = 2 ^ Suc m - (1::int)"
  proof (rule signed_take_bit_int_eq_self)
    have "- (2 ^ 31) \<le> (0::int)" by simp
    also have "0 \<le> 2 ^ Suc m - (1::int)" by simp
    finally show "- (2 ^ 31) \<le> 2 ^ Suc m - (1::int)" .
  qed (use le in linarith)
  ultimately have sint: "sint w5 = 2 ^ Suc m - 1" by (simp add: sint_uint)
  have "pow2gt x = c_int (sint w5 + 1)"
  proof -
    have "c_int (x - 1) = Some (x - 1)" using assms(1,2) by (intro c_int_Some) (auto simp: INT_MIN_def)
    then show ?thesis unfolding pow2gt_def by (simp only: Let_def bind.simps w [symmetric] sd ws [symmetric])
  qed
  then show ?thesis by (simp add: sint)
qed

lemma pow2gt_one: "pow2gt 1 = Some 1"
  by code_simp

lemma pow2gt_bounds:
  assumes "0 < x" "x \<le> 2 ^ 30"
  shows "\<exists>k. pow2gt x = Some (2 ^ k) \<and> x \<le> 2 ^ k \<and> 2 ^ k < 2 * x"
proof (cases "x = 1")
  case True
  then show ?thesis using pow2gt_one by (intro exI [of _ 0]) simp
next
  case False
  have "1 \<le> nat (x - 1)" using assms False by simp
  then obtain m where m: "2 ^ m \<le> nat (x - 1)" "nat (x - 1) < 2 ^ Suc m"
    using ex_power_ivl1 [of 2 "nat (x - 1)"] by auto
  have "int (2 ^ m) \<le> x - 1" "x - 1 < int (2 ^ Suc m)" using m assms by linarith+
  then have b: "2 ^ m \<le> x - 1" "x - 1 < 2 ^ Suc m" by simp_all
  have "(2::int) ^ m < 2 ^ 30" using b(1) assms(2) by linarith
  then have "2 ^ Suc m \<le> INT_MAX" by (simp add: INT_MAX_def)
  moreover have "INT_MIN \<le> 2 ^ Suc m" by (rule order_trans [of _ 0]) (simp_all add: INT_MIN_def)
  ultimately have "c_int (2 ^ Suc m) = Some (2 ^ Suc m)" by (intro c_int_Some)
  moreover have "x \<le> INT_MAX" using assms(2) by (simp add: INT_MAX_def)
  ultimately have "pow2gt x = Some (2 ^ Suc m)" using pow2gt_spread [OF assms(1) _ m] by simp
  then show ?thesis using b by (intro exI [of _ "Suc m"]) auto
qed

lemma pow2gt_overflow:
  assumes "2 ^ 30 < x" "x \<le> INT_MAX" shows "pow2gt x = None"
proof -
  have "2 ^ 30 \<le> nat (x - 1)" "nat (x - 1) < 2 ^ Suc 30" "0 < x" using assms by (simp_all add: INT_MAX_def)
  then show ?thesis using pow2gt_spread [OF _ assms(2), of 30] by (simp add: c_int_def INT_MAX_def)
qed

text \<open>\<^verbatim>\<open>pow2gt\<close> is the least power of two that is not below its argument, for arguments up to \<open>2 ^ 30\<close>; for greater
  ones its last addition overflows.\<close>

theorem pow2gt_correct:
  assumes "0 < x" "x \<le> INT_MAX"
  shows "if x \<le> 2 ^ 30 then \<exists>k. pow2gt x = Some (2 ^ k) \<and> x \<le> 2 ^ k \<and> 2 ^ k < 2 * x else pow2gt x = None"
  using pow2gt_bounds [OF assms(1)] pow2gt_overflow [OF _ assms(2)] by simp

lemma pow2gt_correct_witness:
  "(\<exists>k. pow2gt 1000 = Some (2 ^ k) \<and> 1000 \<le> (2::int) ^ k \<and> (2::int) ^ k < 2000) \<and> pow2gt 1073741825 = None"
  using pow2gt_correct [of 1000] pow2gt_correct [of 1073741825] by (simp add: INT_MAX_def)

section \<open>The buffer\<close>

text \<open>\<open>holds p t\<close>: the buffer is well formed and its text up to the offset is \<open>t\<close>; \<open>ends p t s\<close>: \<open>s\<close> follows with its
  terminator, and the offset is somewhere in it; \<open>dead p\<close>: an allocation was refused and the buffer released.\<close>

definition holds :: "printbuffer \<Rightarrow> string \<Rightarrow> bool" where
  "holds p t \<longleftrightarrow> (\<exists>rest. cb_buffer p = Some (map Some t @ rest) \<and> cb_length p = int (length t + length rest)
     \<and> cb_offset p = int (length t))"

definition ends :: "printbuffer \<Rightarrow> string \<Rightarrow> string \<Rightarrow> bool" where
  "ends p t s \<longleftrightarrow> (\<exists>rest. cb_buffer p = Some (map Some (t @ s @ [NUL]) @ rest)
     \<and> cb_length p = int (length (t @ s @ [NUL]) + length rest)
     \<and> int (length t) \<le> cb_offset p \<and> cb_offset p \<le> int (length (t @ s)))"

definition dead :: "printbuffer \<Rightarrow> bool" where
  "dead p \<longleftrightarrow> cb_buffer p = None"

definition refuses :: "allocator \<Rightarrow> bool" where
  "refuses A \<longleftrightarrow> (\<exists>n\<ge>0. \<not> A n)"

lemma ensure_holds:
  assumes "holds p t" "0 < needed" "int (length t) + needed \<le> 2 ^ 30"
  shows "(\<exists>p' rest. ensure A p needed = Some (Some (int (length t)), p') \<and> cb_buffer p' = Some (map Some t @ rest)
            \<and> cb_length p' = int (length t + length rest) \<and> cb_offset p' = int (length t) \<and> needed \<le> int (length rest))
         \<or> refuses A \<and> (\<exists>p'. ensure A p needed = Some (None, p') \<and> dead p')"
proof -
  from assms(1) obtain rest where r: "cb_buffer p = Some (map Some t @ rest)"
    "cb_length p = int (length t + length rest)" "cb_offset p = int (length t)" by (auto simp: holds_def)
  let ?n = "needed + int (length t)"
  have c: "c_int ?n = Some ?n" by (rule c_int_Some) (use assms in \<open>auto simp: INT_MIN_def INT_MAX_def\<close>)
  show ?thesis
  proof (cases "?n \<le> cb_length p")
    case True
    then show ?thesis using r c by (intro disjI1 exI [of _ p] exI [of _ rest]) (simp add: ensure_def)
  next
    case False
    from pow2gt_bounds [of ?n] assms obtain k where k: "pow2gt ?n = Some (2 ^ k)" "?n \<le> 2 ^ k" by auto
    let ?s = "2 ^ k :: int"
    have s: "0 \<le> ?s" by simp
    have e: "ensure A p needed = (if \<not> A ?s then Some (None, p\<lparr>cb_length := 0, cb_buffer := None\<rparr>)
       else Some (Some (int (length t)), p\<lparr>cb_length := ?s,
         cb_buffer := Some ((map Some t @ rest) @ replicate (nat ?s - length (map Some t @ rest)) None)\<rparr>))"
      using r c k(1) False s by (simp add: ensure_def)
    show ?thesis
    proof (cases "A ?s")
      case True
      let ?rest = "rest @ replicate (nat ?s - length (map Some t @ rest)) None"
      have "length t + length rest \<le> nat ?s" using False k(2) r(2) by linarith
      then have "int (length ?rest) = ?s - int (length t)" by simp
      then show ?thesis using e True k(2) r(3)
        by (intro disjI1 exI [of _ "p\<lparr>cb_length := ?s, cb_buffer := Some (map Some t @ ?rest)\<rparr>"] exI [of _ ?rest]) simp
    next
      case F: False
      then have "refuses A" unfolding refuses_def using s by blast
      then show ?thesis using e F by (simp add: dead_def)
    qed
  qed
qed

lemma ensure_dead: "dead p \<Longrightarrow> ensure A p needed = Some (None, p)"
  by (simp add: dead_def ensure_def)

lemma buf_write_at:
  assumes "cb_buffer p = Some (map Some t @ rest)" "length s \<le> length rest"
  shows "buf_write p (int (length t)) s = Some (p\<lparr>cb_buffer := Some (map Some (t @ s) @ drop (length s) rest)\<rparr>)"
  using assms by (simp add: buf_write_def mem_write_def)

lemma put_buf_holds:
  assumes "holds p t" "int (length s) + 1 \<le> needed" "int (length t) + needed \<le> 2 ^ 30"
  shows "(\<exists>p'. put_buf A needed s p = Some (Some (int (length t)), p') \<and> ends p' t s)
         \<or> refuses A \<and> (\<exists>p'. put_buf A needed s p = Some (None, p') \<and> dead p')"
proof -
  have "0 < needed" using assms(2) by simp
  from ensure_holds [OF assms(1) this assms(3), of A] show ?thesis
  proof (elim disjE exE conjE)
    fix p' rest assume e: "ensure A p needed = Some (Some (int (length t)), p')" "cb_buffer p' = Some (map Some t @ rest)"
      "cb_length p' = int (length t + length rest)" "cb_offset p' = int (length t)" "needed \<le> int (length rest)"
    have l: "length (s @ [NUL]) \<le> length rest" using e(5) assms(2) by simp
    let ?p = "p'\<lparr>cb_buffer := Some (map Some (t @ s @ [NUL]) @ drop (length (s @ [NUL])) rest)\<rparr>"
    have "put_buf A needed s p = Some (Some (int (length t)), ?p)"
      using e(1) buf_write_at [OF e(2) l] by (simp add: put_buf_def)
    moreover have "ends ?p t s" unfolding ends_def using e(3,4) l
      by (intro exI [of _ "drop (length (s @ [NUL])) rest"]) simp
    ultimately show ?thesis by blast
  qed (auto simp: put_buf_def)
qed

lemma put_buf_dead: "dead p \<Longrightarrow> put_buf A needed s p = Some (None, p)"
  by (simp add: put_buf_def ensure_dead)

lemma add_buf_holds:
  assumes "holds p t" "int (length s) + (if terminate then 1 else 0) \<le> needed" "0 < needed" "int (length t) + needed \<le> 2 ^ 30"
  shows "(\<exists>p'. add_buf A needed s terminate p k = k p' \<and> holds p' (t @ s))
         \<or> refuses A \<and> (\<exists>p'. add_buf A needed s terminate p k = Some (None, p') \<and> dead p')"
proof -
  from ensure_holds [OF assms(1,3,4), of A] show ?thesis
  proof (elim disjE exE conjE)
    fix p' rest assume e: "ensure A p needed = Some (Some (int (length t)), p')" "cb_buffer p' = Some (map Some t @ rest)"
      "cb_length p' = int (length t + length rest)" "cb_offset p' = int (length t)" "needed \<le> int (length rest)"
    let ?s = "s @ (if terminate then [NUL] else [])"
    have l: "length ?s \<le> length rest" using e(5) assms(2) by (auto split: if_splits)
    have c: "c_int (int (length t) + int (length s)) = Some (int (length t) + int (length s))"
      using assms by (intro c_int_Some) (auto simp: INT_MIN_def INT_MAX_def split: if_splits)
    let ?p = "p'\<lparr>cb_buffer := Some (map Some (t @ ?s) @ drop (length ?s) rest), cb_offset := int (length t) + int (length s)\<rparr>"
    have "add_buf A needed s terminate p k = k ?p"
      using e(1,4) c buf_write_at [OF e(2) l] by (simp add: add_buf_def)
    moreover have "holds ?p (t @ s)" unfolding holds_def using e(3) l
      by (intro exI [of _ "(if terminate then [Some NUL] else []) @ drop (length ?s) rest"]) (auto split: if_splits)
    ultimately show ?thesis by blast
  qed (auto simp: add_buf_def)
qed

lemma add_buf_dead: "dead p \<Longrightarrow> add_buf A needed s terminate p k = Some (None, p)"
  by (simp add: add_buf_def ensure_dead)

lemma c_string_text: "NUL \<notin> set s \<Longrightarrow> c_string (map Some s @ Some NUL # rest) = Some s"
  by (induction s) auto

lemma to_end_ends:
  assumes "ends p t s" "NUL \<notin> set s" "int (length (t @ s)) \<le> 2 ^ 30"
  shows "\<exists>p'. to_end p = Some p' \<and> holds p' (t @ s)"
proof -
  from assms(1) obtain rest where r: "cb_buffer p = Some (map Some (t @ s @ [NUL]) @ rest)"
     "cb_length p = int (length (t @ s @ [NUL]) + length rest)"
     "int (length t) \<le> cb_offset p" "cb_offset p \<le> int (length (t @ s))" by (auto simp: ends_def)
  obtain i where i: "cb_offset p = int (length t + i)" "i \<le> length s"
    using r(3,4) by (intro that [of "nat (cb_offset p) - length t"]) auto
  have n: "nat (cb_offset p) = length t + i" using i(1) by simp
  have "drop (length t + i) (map Some (t @ s @ [NUL]) @ rest) = map Some (drop i s) @ Some NUL # rest"
    using i(2) by (simp add: drop_map)
  moreover have "NUL \<notin> set (drop i s)" using assms(2) by (meson in_set_dropD)
  ultimately have u: "update p = Some (int (length (t @ s)))"
    using r(1) i c_string_text [of "drop i s" rest] n by (simp add: update_def)
  have c: "c_int (int (length (t @ s))) = Some (int (length (t @ s)))"
    using assms(3) by (intro c_int_Some) (auto simp: INT_MIN_def INT_MAX_def)
  show ?thesis using u c r(1,2) by (auto simp: to_end_def holds_def)
qed

lemma to_end_dead: "dead p \<Longrightarrow> \<exists>p'. to_end p = Some p' \<and> dead p'"
  by (simp add: to_end_def update_def dead_def INT_MIN_def INT_MAX_def)

end
