(* ===== verification/CJsonList.thy ===== *)
theory CJsonList
  imports CJson
begin

text \<open>
  The children of an item as a list: the segments of the doubly linked list, what the operations of
  \<^verbatim>\<open>src/cJSON/cJSON.c\<close> on arrays do to that list, and the sequence interface they implement.
\<close>

section \<open>Segments\<close>

text \<open>The items \<open>xs\<close> from \<open>p\<close>, whose predecessor is \<open>pr\<close>, up to \<open>q\<close>, whose predecessor is \<open>l\<close>.\<close>

fun dll :: "(nat \<Rightarrow> cJSON option) \<Rightarrow> nat option \<Rightarrow> nat option \<Rightarrow> nat list \<Rightarrow> nat option \<Rightarrow> nat option \<Rightarrow> bool" where
  "dll m p pr [] q l \<longleftrightarrow> p = q \<and> pr = l"
| "dll m p pr (a # as) q l \<longleftrightarrow>
     p = Some a \<and> (\<exists>nd. m a = Some nd \<and> cj_prev nd = pr \<and> dll m (cj_next nd) (Some a) as q l)"

lemma dll_append [simp]:
  "dll m p pr (as @ bs) q l \<longleftrightarrow> (\<exists>r k. dll m p pr as r k \<and> dll m r k bs q l)"
  by (induction as arbitrary: p pr) auto

lemma dll_frame [simp]: "b \<notin> set as \<Longrightarrow> dll (m(b := x)) p pr as q l = dll m p pr as q l"
  by (induction as arbitrary: p pr) auto

lemma dll_cong: "(\<And>b. b \<in> set as \<Longrightarrow> m b = m' b) \<Longrightarrow> dll m p pr as q l = dll m' p pr as q l"
  by (induction as arbitrary: p pr) auto

lemma dll_last: "dll m p pr as q l \<Longrightarrow> l = (if as = [] then pr else Some (last as))"
  by (induction as arbitrary: p pr) auto

lemma dll_dom: "dll m p pr as q l \<Longrightarrow> set as \<subseteq> dom m"
  by (induction as arbitrary: p pr) auto

lemma dll_unique: "dll m p pr as None l \<Longrightarrow> dll m p pr' bs None l' \<Longrightarrow> as = bs"
proof (induction as arbitrary: p pr pr' bs)
  case Nil
  then show ?case by (cases bs) auto
next
  case (Cons a as)
  then show ?case by (cases bs) auto
qed

lemma dll_distinct: "dll m p pr as None l \<Longrightarrow> distinct as"
proof (induction as arbitrary: p pr)
  case (Cons a as)
  then obtain nd where nd: "m a = Some nd" "dll m (cj_next nd) (Some a) as None l" by auto
  have "a \<notin> set as"
  proof
    assume "a \<in> set as"
    then obtain us vs where as: "as = us @ a # vs" by (auto simp: in_set_conv_decomp)
    with nd have "dll m (cj_next nd) (Some a) vs None l" by auto
    from dll_unique [OF nd(2) this] as show False by auto
  qed
  with Cons.IH nd show ?case by auto
qed simp

lemma dll_Some: "dll m (Some a) pr as None l \<longleftrightarrow>
   (\<exists>nd bs. as = a # bs \<and> m a = Some nd \<and> cj_prev nd = pr \<and> dll m (cj_next nd) (Some a) bs None l)"
  by (cases as) auto

lemma dll_None [simp]: "dll m None pr as None l \<longleftrightarrow> as = [] \<and> pr = l"
  by (cases as) auto

section \<open>The children of an item\<close>

definition cj_bounded :: "cheap \<Rightarrow> bool" where
  "cj_bounded h \<longleftrightarrow> (\<forall>a. ch_node h a \<noteq> None \<longrightarrow> a < ch_top h)"

definition children :: "nat \<Rightarrow> cheap \<Rightarrow> nat list \<Rightarrow> bool" where
  "children a h xs \<longleftrightarrow> cj_bounded h \<and> a \<notin> set xs \<and> int (length xs) \<le> INT_MAX \<and>
     (\<exists>nd l. ch_node h a = Some nd \<and> dll (ch_node h) (cj_child nd) None xs None l)"

lemma children_distinct: "children a h xs \<Longrightarrow> distinct xs"
  unfolding children_def using dll_distinct by blast

lemma bounded_length:
  assumes "cj_bounded h" "set xs \<subseteq> dom (ch_node h)" "distinct xs"
  shows "length xs \<le> ch_top h"
proof -
  have "set xs \<subseteq> {..<ch_top h}" using assms by (auto simp: cj_bounded_def dom_def)
  then have "card (set xs) \<le> card {..<ch_top h}" by (intro card_mono) auto
  with assms show ?thesis by (simp add: distinct_card)
qed

lemma children_fuel: "children a h xs \<Longrightarrow> length xs < cj_fuel h"
  using bounded_length [of h xs] children_distinct [of a h xs] dll_dom
  unfolding children_def cj_fuel_def by (metis less_Suc_eq_le)

subsection \<open>Walks\<close>

lemma count_loop_dll: "dll (ch_node h) p pr xs None l \<Longrightarrow> length xs < n \<Longrightarrow> int (length xs) \<le> INT_MAX
  \<Longrightarrow> count_loop n h p = Some (int (length xs))"
proof (induction xs arbitrary: p pr n)
  case (Cons x xs)
  then show ?case by (cases n) (auto simp: c_int_eq_Some INT_MIN_def)
qed simp

lemma skip_loop_dll: "dll (ch_node h) p pr xs None l \<Longrightarrow>
   skip_loop i h p = Some (if i < length xs then Some (xs ! i) else None)"
proof (induction xs arbitrary: p pr i)
  case Nil
  then show ?case by (cases i) auto
next
  case (Cons x xs)
  then show ?case by (cases i) auto
qed

lemma last_loop_dll: "dll (ch_node h) (Some c) pr xs None l \<Longrightarrow> length xs < n \<Longrightarrow> last_loop n h c = Some (last xs)"
proof (induction xs arbitrary: c pr n)
  case (Cons x xs)
  then obtain m where n: "n = Suc m" by (cases n) auto
  from Cons.prems obtain nd where nd: "x = c" "ch_node h c = Some nd" "dll (ch_node h) (cj_next nd) (Some c) xs None l"
    by auto
  show ?case
  proof (cases xs)
    case Nil
    with nd n show ?thesis by simp
  next
    case (Cons y ys)
    then have "cj_next nd = Some y" using nd by simp
    with Cons.IH [of y "Some c" m] nd n Cons Cons.prems(2) show ?thesis by simp
  qed
qed simp

lemma GetArraySize_children: "children a h xs \<Longrightarrow> cJSON_GetArraySize h a = Some (int (length xs))"
  using children_fuel [of a h xs] count_loop_dll
  by (auto simp: cJSON_GetArraySize_def child_of_def children_def)

lemma nth_child_children:
  "children a h xs \<Longrightarrow> nth_child h a i = Some (if nat i < length xs then Some (xs ! nat i) else None)"
  using skip_loop_dll by (auto simp: nth_child_def child_of_def children_def)

subsection \<open>Changing links\<close>

lemma seg_next:
  "dll m p pr us r k \<Longrightarrow> distinct us \<Longrightarrow> us \<noteq> [] \<Longrightarrow>
   \<exists>nd. m (last us) = Some nd \<and> cj_next nd = r \<and> k = Some (last us)
     \<and> dll (m(last us \<mapsto> nd\<lparr>cj_next := q\<rparr>)) p pr us q k"
proof (induction us arbitrary: p pr)
  case (Cons u us)
  then obtain nd where nd: "p = Some u" "m u = Some nd" "cj_prev nd = pr" "dll m (cj_next nd) (Some u) us r k" by auto
  show ?case
  proof (cases "us = []")
    case True
    with nd show ?thesis by auto
  next
    case False
    from Cons.IH [OF nd(4)] Cons.prems False obtain nl where
      nl: "m (last us) = Some nl" "cj_next nl = r" "k = Some (last us)"
        "dll (m(last us \<mapsto> nl\<lparr>cj_next := q\<rparr>)) (cj_next nd) (Some u) us q k"
      by (meson distinct.simps(2))
    moreover have "u \<noteq> last us" using Cons.prems False by auto
    ultimately show ?thesis using nd False
      by (intro exI [of _ nl]) (simp del: fun_upd_apply add: fun_upd_other)
  qed
qed simp

lemma seg_prev:
  "dll m s k0 vs None l \<Longrightarrow> distinct vs \<Longrightarrow> vs \<noteq> [] \<Longrightarrow>
   \<exists>nd. s = Some (hd vs) \<and> m (hd vs) = Some nd \<and> cj_prev nd = k0 \<and> dll (m(hd vs \<mapsto> nd\<lparr>cj_prev := k\<rparr>)) s k vs None l"
  by (cases vs) auto

text \<open>What an operation on the children of \<open>a\<close> may change: the links of the items involved, and nothing else.\<close>

definition links_only :: "nat set \<Rightarrow> cheap \<Rightarrow> cheap \<Rightarrow> bool" where
  "links_only S h h' \<longleftrightarrow> ch_str h' = ch_str h \<and> ch_top h' = ch_top h \<and> (\<forall>b. b \<notin> S \<longrightarrow> ch_node h' b = ch_node h b) \<and>
     (\<forall>b. map_option (\<lambda>n. n\<lparr>cj_next := None, cj_prev := None, cj_child := None\<rparr>) (ch_node h' b)
        = map_option (\<lambda>n. n\<lparr>cj_next := None, cj_prev := None, cj_child := None\<rparr>) (ch_node h b))"

lemma links_only_refl [simp]: "links_only S h h"
  by (simp add: links_only_def)

lemma links_only_trans: "links_only S h h' \<Longrightarrow> links_only S h' h'' \<Longrightarrow> links_only S h h''"
  by (simp add: links_only_def)

lemma links_only_upd:
  assumes "links_only S h h'" "b \<in> S" "ch_node h' b = Some nd"
    "x\<lparr>cj_next := None, cj_prev := None, cj_child := None\<rparr> = nd\<lparr>cj_next := None, cj_prev := None, cj_child := None\<rparr>"
  shows "links_only S h (h'\<lparr>ch_node := (ch_node h')(b \<mapsto> x)\<rparr>)"
  unfolding links_only_def
proof (intro conjI allI impI, goal_cases)
  case (4 c)
  let ?d = "map_option (\<lambda>n. n\<lparr>cj_next := None, cj_prev := None, cj_child := None\<rparr>)"
  have "?d (ch_node h' b) = ?d (ch_node h b)" using assms(1) by (simp add: links_only_def)
  with assms 4 show ?case by (cases "c = b") (simp_all add: links_only_def)
qed (use assms in \<open>auto simp: links_only_def\<close>)

lemma links_only_dom: "links_only S h h' \<Longrightarrow> (ch_node h' b = None) = (ch_node h b = None)"
  unfolding links_only_def by (metis option.map_disc_iff)

lemma links_only_bounded: "links_only S h h' \<Longrightarrow> cj_bounded h' = cj_bounded h"
  using links_only_dom [of S h h'] by (simp add: cj_bounded_def links_only_def)

lemma childrenI:
  "links_only S h h' \<Longrightarrow> cj_bounded h \<Longrightarrow> a \<notin> set xs \<Longrightarrow> int (length xs) \<le> INT_MAX \<Longrightarrow> ch_node h' a = Some nd \<Longrightarrow>
   dll (ch_node h') (cj_child nd) None xs None l \<Longrightarrow> children a h' xs"
  by (auto simp: children_def links_only_bounded)

lemma children_other:
  assumes "children b h ys" "links_only S h h'" "b \<notin> S" "set ys \<inter> S = {}"
  shows "children b h' ys"
proof -
  have eq: "c \<notin> S \<Longrightarrow> ch_node h' c = ch_node h c" for c using assms(2) by (simp add: links_only_def)
  then have "dll (ch_node h') p pr ys q l = dll (ch_node h) p pr ys q l" for p pr q l
    using assms(4) by (intro dll_cong) auto
  with eq [OF assms(3)] assms(1) show ?thesis
    by (simp add: children_def links_only_bounded [OF assms(2)])
qed

text \<open>An item outside every list: no neighbours, and not a child of \<open>a\<close>.\<close>

definition loose :: "nat \<Rightarrow> cheap \<Rightarrow> nat \<Rightarrow> bool" where
  "loose a h x \<longleftrightarrow> x \<noteq> a \<and> (\<exists>nd. ch_node h x = Some nd \<and> cj_next nd = None \<and> cj_prev nd = None)
     \<and> child_of h a \<noteq> Some (Some x)"

lemma loose_not_child: "children a h xs \<Longrightarrow> loose a h x \<Longrightarrow> x \<notin> set xs"
proof
  assume ch: "children a h xs" and lo: "loose a h x" and "x \<in> set xs"
  then obtain us vs where xs: "xs = us @ x # vs" by (auto simp: in_set_conv_decomp)
  from ch obtain nd l k nx where d: "ch_node h a = Some nd" "dll (ch_node h) (cj_child nd) None us (Some x) k"
    "ch_node h x = Some nx" "cj_prev nx = k" by (auto simp: children_def xs)
  from dll_last [OF d(2)] lo d show False
    by (cases us) (auto simp: loose_def child_of_def)
qed

lemma node_upd_Some: "ch_node h a = Some nd \<Longrightarrow> node_upd h a f = Some (h\<lparr>ch_node := (ch_node h)(a \<mapsto> f nd)\<rparr>)"
  by (simp add: node_upd_def)

lemma if_node_Some: "ch_node h a = Some nd \<Longrightarrow> if_node h (Some a) f = Some (h\<lparr>ch_node := (ch_node h)(a \<mapsto> f nd)\<rparr>)"
  by (simp add: if_node_def node_upd_def)

subsection \<open>Adding at the end\<close>

lemma AddItemToArray_children:
  assumes ch: "children a h xs" and lo: "loose a h x" and len: "int (length xs) < INT_MAX"
  shows "\<exists>h'. cJSON_AddItemToArray h a (Some x) = Some h' \<and> children a h' (xs @ [x])
           \<and> links_only (insert a (insert x (set xs))) h h'"
proof -
  from ch obtain nd l where nd: "ch_node h a = Some nd" "dll (ch_node h) (cj_child nd) None xs None l"
    and b: "cj_bounded h" "a \<notin> set xs" by (auto simp: children_def)
  from lo obtain nx where nx: "ch_node h x = Some nx" "cj_next nx = None" "cj_prev nx = None" "x \<noteq> a"
    by (auto simp: loose_def)
  have x: "x \<notin> set xs" by (rule loose_not_child [OF ch lo])
  have dist: "distinct xs" by (rule children_distinct [OF ch])
  show ?thesis
  proof (cases xs)
    case Nil
    let ?h = "h\<lparr>ch_node := (ch_node h)(a \<mapsto> nd\<lparr>cj_child := Some x\<rparr>)\<rparr>"
    have L: "links_only (insert a (insert x (set xs))) h ?h" by (rule links_only_upd) (use nd in auto)
    have "cJSON_AddItemToArray h a (Some x) = Some ?h"
      using Nil nd by (simp add: cJSON_AddItemToArray_def child_of_def node_upd_def)
    moreover have "children a ?h (xs @ [x])"
      by (rule childrenI [OF L]) (use Nil nd nx b len in auto)
    ultimately show ?thesis using L by blast
  next
    case (Cons c cs)
    let ?l = "last xs"
    from seg_next [OF nd(2) dist, of "Some x"] Cons obtain nl where
      nl: "ch_node h ?l = Some nl" "l = Some ?l"
        "dll ((ch_node h)(?l \<mapsto> nl\<lparr>cj_next := Some x\<rparr>)) (cj_child nd) None xs (Some x) l" by auto
    have in_xs: "?l \<in> set xs" using Cons by auto
    then have ne: "?l \<noteq> x" "?l \<noteq> a" using x b by auto
    let ?h1 = "h\<lparr>ch_node := (ch_node h)(?l \<mapsto> nl\<lparr>cj_next := Some x\<rparr>)\<rparr>"
    let ?h2 = "?h1\<lparr>ch_node := (ch_node ?h1)(x \<mapsto> nx\<lparr>cj_prev := Some ?l\<rparr>)\<rparr>"
    have L1: "links_only (insert a (insert x (set xs))) h ?h1" by (rule links_only_upd) (use nl in_xs in auto)
    have L: "links_only (insert a (insert x (set xs))) h ?h2" by (rule links_only_upd [OF L1]) (use nx ne in auto)
    have "last_loop (cj_fuel h) h c = Some ?l"
      using last_loop_dll [of h c None xs l] nd Cons children_fuel [OF ch] by auto
    then have "cJSON_AddItemToArray h a (Some x) = Some ?h2"
      using Cons nd nl nx ne
      by (simp add: cJSON_AddItemToArray_def child_of_def suffix_object_def node_upd_def)
    moreover have "children a ?h2 (xs @ [x])"
      by (rule childrenI [OF L]) (use nd nl nx b x ne len in auto)
    ultimately show ?thesis using L by blast
  qed
qed

subsection \<open>Detaching\<close>

lemma children_split:
  assumes "children a h xs" "i < length xs"
  obtains nd c nc us vs k l where "ch_node h a = Some nd" "xs = us @ c # vs" "us = take i xs" "vs = drop (Suc i) xs"
    "c = xs ! i" "dll (ch_node h) (cj_child nd) None us (Some c) k" "ch_node h c = Some nc" "cj_prev nc = k"
    "dll (ch_node h) (cj_next nc) (Some c) vs None l" "c \<noteq> a" "c \<notin> set us" "c \<notin> set vs" "distinct us" "distinct vs"
    "a \<notin> set us" "a \<notin> set vs" "set us \<inter> set vs = {}" "k = (if us = [] then None else Some (last us))"
    "(Some c = cj_child nd) = (us = [])"
proof -
  let ?us = "take i xs" and ?vs = "drop (Suc i) xs" and ?c = "xs ! i"
  have xs: "xs = ?us @ ?c # ?vs" using assms(2) by (simp add: id_take_nth_drop)
  from assms(1) obtain nd l where nd: "ch_node h a = Some nd" "dll (ch_node h) (cj_child nd) None xs None l" "a \<notin> set xs"
    by (auto simp: children_def)
  from nd(2) have "dll (ch_node h) (cj_child nd) None (?us @ ?c # ?vs) None l" using xs by simp
  then obtain k nc where d: "dll (ch_node h) (cj_child nd) None ?us (Some ?c) k" "ch_node h ?c = Some nc" "cj_prev nc = k"
    "dll (ch_node h) (cj_next nc) (Some ?c) ?vs None l" by auto
  have dist: "distinct (?us @ ?c # ?vs)" using children_distinct [OF assms(1)] xs by simp
  have a: "a \<notin> set (?us @ ?c # ?vs)" using nd(3) xs by simp
  have k: "k = (if ?us = [] then None else Some (last ?us))" by (rule dll_last [OF d(1)])
  have first: "(Some ?c = cj_child nd) = (?us = [])"
    using d(1) dist by (cases ?us) auto
  show thesis by (rule that [OF nd(1) xs refl refl refl d(1) d(2) d(3) d(4)]) (use dist a k first in auto)
qed

lemma DetachItemFromArray_children:
  assumes ch: "children a h xs" and i: "nat which < length xs"
  shows "\<exists>h'. cJSON_DetachItemFromArray h a which = Some (Some (xs ! nat which), h')
           \<and> children a h' (take (nat which) xs @ drop (Suc (nat which)) xs)
           \<and> loose a h' (xs ! nat which) \<and> links_only (insert a (set xs)) h h'
           \<and> ch_node h' (xs ! nat which) = map_option (\<lambda>n. n\<lparr>cj_prev := None, cj_next := None\<rparr>) (ch_node h (xs ! nat which))"
proof -
  let ?i = "nat which"
  have nth: "nth_child h a which = Some (Some (xs ! ?i))" using nth_child_children [OF ch] i by simp
  obtain nd c nc us vs k l where
    d: "ch_node h a = Some nd" "xs = us @ c # vs" "us = take ?i xs" "vs = drop (Suc ?i) xs" "c = xs ! ?i"
      "dll (ch_node h) (cj_child nd) None us (Some c) k" "ch_node h c = Some nc" "cj_prev nc = k"
      "dll (ch_node h) (cj_next nc) (Some c) vs None l"
    and x: "c \<noteq> a" "c \<notin> set us" "c \<notin> set vs" "distinct us" "distinct vs" "a \<notin> set us" "a \<notin> set vs"
      "set us \<inter> set vs = {}"
    and k: "k = (if us = [] then None else Some (last us))" and first: "(Some c = cj_child nd) = (us = [])"
    by (rule children_split [OF ch i])
  let ?S = "insert a (set xs)" and ?s = "cj_next nc"
  have bnd: "cj_bounded h" using ch by (simp add: children_def)
  obtain h1 where h1: "if_node h k (\<lambda>p. p\<lparr>cj_next := ?s\<rparr>) = Some h1" "links_only ?S h h1"
    "dll (ch_node h1) (if us = [] then ?s else cj_child nd) None us ?s k"
    "\<And>b. b \<notin> set us \<Longrightarrow> ch_node h1 b = ch_node h b"
  proof (cases "us = []")
    case True
    with k show thesis by (intro that [of h]) (auto simp: if_node_def)
  next
    case False
    from seg_next [OF d(6) x(4) False, of ?s] obtain n where
      n: "ch_node h (last us) = Some n" "dll ((ch_node h)(last us \<mapsto> n\<lparr>cj_next := ?s\<rparr>)) (cj_child nd) None us ?s k"
      by auto
    let ?h = "h\<lparr>ch_node := (ch_node h)(last us \<mapsto> n\<lparr>cj_next := ?s\<rparr>)\<rparr>"
    have last: "last us \<in> set us" using False by simp
    then have "links_only ?S h ?h" using n(1) d(2) by (intro links_only_upd [OF links_only_refl, of _ _ _ n]) auto
    moreover have "if_node h k (\<lambda>p. p\<lparr>cj_next := ?s\<rparr>) = Some ?h" using k False n(1) if_node_Some by simp
    ultimately show thesis using n(2) last False by (intro that [of ?h]) auto
  qed
  have vs1: "dll (ch_node h1) ?s (Some c) vs None l"
    using d(9) h1(4) x by (subst dll_cong [of vs "ch_node h1" "ch_node h"]) auto
  obtain h2 l2 where h2: "if_node h1 ?s (\<lambda>n. n\<lparr>cj_prev := k\<rparr>) = Some h2" "links_only ?S h h2"
    "dll (ch_node h2) ?s k vs None l2" "\<And>b. b \<notin> set vs \<Longrightarrow> ch_node h2 b = ch_node h1 b"
  proof (cases "vs = []")
    case True
    with vs1 h1(2) show thesis by (intro that [of h1]) (auto simp: if_node_def)
  next
    case False
    from seg_prev [OF vs1 x(5) False, of k] obtain n where
      n: "?s = Some (hd vs)" "ch_node h1 (hd vs) = Some n" "dll ((ch_node h1)(hd vs \<mapsto> n\<lparr>cj_prev := k\<rparr>)) ?s k vs None l"
      by auto
    let ?h = "h1\<lparr>ch_node := (ch_node h1)(hd vs \<mapsto> n\<lparr>cj_prev := k\<rparr>)\<rparr>"
    have hd: "hd vs \<in> set vs" using False by simp
    then have "links_only ?S h ?h" using n(2) d(2) by (intro links_only_upd [OF h1(2), of _ n]) auto
    moreover have "if_node h1 ?s (\<lambda>n. n\<lparr>cj_prev := k\<rparr>) = Some ?h" unfolding n(1) using n(2) by (rule if_node_Some)
    ultimately show thesis using n(3) hd by (intro that [of ?h l]) auto
  qed
  have keep: "ch_node h2 a = Some nd" "ch_node h2 c = Some nc" 
    using h1(4) [of a] h1(4) [of c] h2(4) [of a] h2(4) [of c] x(1,2,3,6,7) d(1,7) by simp_all
  let ?p = "if us = [] then ?s else cj_child nd"
  let ?nd = "if us = [] then nd\<lparr>cj_child := ?s\<rparr> else nd"
  let ?h3 = "if us = [] then h2\<lparr>ch_node := (ch_node h2)(a \<mapsto> ?nd)\<rparr> else h2"
  let ?h4 = "?h3\<lparr>ch_node := (ch_node ?h3)(c \<mapsto> nc\<lparr>cj_prev := None, cj_next := None\<rparr>)\<rparr>"
  have L3: "links_only ?S h ?h3" using h2(2) keep by (auto intro!: links_only_upd)
  have n3: "ch_node ?h3 = (ch_node h2)(a \<mapsto> ?nd)" using keep by auto
  have L4: "links_only ?S h ?h4"
    by (rule links_only_upd [OF L3, of c nc]) (use n3 keep x d(2) in auto)
  have eq: "cJSON_DetachItemFromArray h a which = Some (Some c, ?h4)"
    using nth d(5,7,8) h1(1) h2(1) keep first x
    by (auto simp: cJSON_DetachItemFromArray_def child_of_def node_upd_def)
  have us2: "dll (ch_node h2) ?p None us ?s k"
    using h1(3) h2(4) x by (subst dll_cong [of us "ch_node h2" "ch_node h1"]) auto
  have n4: "ch_node ?h4 = (ch_node h2)(a \<mapsto> ?nd, c \<mapsto> nc\<lparr>cj_prev := None, cj_next := None\<rparr>)" using n3 by simp
  have "children a ?h4 (us @ vs)"
  proof (rule childrenI [OF L4 bnd])
    show "int (length (us @ vs)) \<le> INT_MAX" using ch d(2) by (simp add: children_def)
    show "ch_node ?h4 a = Some ?nd" using n4 x by simp
    show "dll (ch_node ?h4) (cj_child ?nd) None (us @ vs) None l2"
      unfolding n4 using us2 h2(3) x by auto
  qed (use x in auto)
  moreover have "loose a ?h4 c"
  proof -
    have "?s \<noteq> Some c" using h2(3) x(3) by (cases vs) auto
    then have "cj_child ?nd \<noteq> Some c" using first by auto
    then show ?thesis using n4 x(1) by (auto simp: loose_def child_of_def)
  qed
  moreover have "ch_node ?h4 c = map_option (\<lambda>n. n\<lparr>cj_prev := None, cj_next := None\<rparr>) (ch_node h c)"
    using n4 d(7) by simp
  ultimately show ?thesis using eq L4 d(3,4,5) by blast
qed

lemma DetachItemFromArray_none:
  "children a h xs \<Longrightarrow> length xs \<le> nat which \<Longrightarrow> cJSON_DetachItemFromArray h a which = Some (None, h)"
  using nth_child_children [of a h xs which] by (simp add: cJSON_DetachItemFromArray_def)

subsection \<open>Inserting\<close>

lemma InsertItemInArray_children:
  assumes ch: "children a h xs" and lo: "loose a h x" and len: "int (length xs) < INT_MAX"
  shows "\<exists>h'. cJSON_InsertItemInArray h a which (Some x) = Some h'
           \<and> children a h' (take (nat which) xs @ x # drop (nat which) xs)
           \<and> links_only (insert a (insert x (set xs))) h h'"
proof (cases "nat which < length xs")
  case False
  then have "nth_child h a which = Some None" using nth_child_children [OF ch] by simp
  with AddItemToArray_children [OF assms] False show ?thesis by (simp add: cJSON_InsertItemInArray_def)
next
  case True
  let ?i = "nat which"
  have nth: "nth_child h a which = Some (Some (xs ! ?i))" using nth_child_children [OF ch] True by simp
  obtain nd c nc us vs k l where
    d: "ch_node h a = Some nd" "xs = us @ c # vs" "us = take ?i xs" "vs = drop (Suc ?i) xs" "c = xs ! ?i"
      "dll (ch_node h) (cj_child nd) None us (Some c) k" "ch_node h c = Some nc" "cj_prev nc = k"
      "dll (ch_node h) (cj_next nc) (Some c) vs None l"
    and x: "c \<noteq> a" "c \<notin> set us" "c \<notin> set vs" "distinct us" "distinct vs" "a \<notin> set us" "a \<notin> set vs"
      "set us \<inter> set vs = {}"
    and k: "k = (if us = [] then None else Some (last us))" and first: "(Some c = cj_child nd) = (us = [])"
    by (rule children_split [OF ch True])
  from lo obtain nx where nx: "ch_node h x = Some nx" "x \<noteq> a" by (auto simp: loose_def)
  have x_out: "x \<notin> set us" "x \<noteq> c" "x \<notin> set vs" using loose_not_child [OF ch lo] d(2) by auto
  let ?S = "insert a (insert x (set xs))"
  have bnd: "cj_bounded h" using ch by (simp add: children_def)
  let ?nx = "nx\<lparr>cj_next := Some c, cj_prev := k\<rparr>" and ?nc = "nc\<lparr>cj_prev := Some x\<rparr>"
  let ?h1 = "h\<lparr>ch_node := (ch_node h)(x \<mapsto> ?nx)\<rparr>"
  let ?h2 = "?h1\<lparr>ch_node := (ch_node ?h1)(c \<mapsto> ?nc)\<rparr>"
  have L1: "links_only ?S h ?h1" by (rule links_only_upd [OF links_only_refl _ nx(1)]) auto
  have L2: "links_only ?S h ?h2" by (rule links_only_upd [OF L1, of c nc]) (use d(2,7) x_out in auto)
  have n2: "ch_node ?h2 = (ch_node h)(x \<mapsto> ?nx, c \<mapsto> ?nc)" by simp
  have drop_i: "drop ?i xs = c # vs" using d(2,3) True by (metis append_eq_conv_conj length_take min.absorb4)
  have len': "int (length (us @ x # c # vs)) \<le> INT_MAX" using len d(2) by simp
  show ?thesis
  proof (cases "us = []")
    case us: True
    let ?nd = "nd\<lparr>cj_child := Some x\<rparr>"
    let ?h3 = "?h2\<lparr>ch_node := (ch_node ?h2)(a \<mapsto> ?nd)\<rparr>"
    have L3: "links_only ?S h ?h3" by (rule links_only_upd [OF L2, of a nd]) (use d(1) x(1) nx(2) in auto)
    have "cj_child nd = Some c" using first us by auto
    then have "cJSON_InsertItemInArray h a which (Some x) = Some ?h3"
      using nth [folded d(5)] d(1,7,8) nx x(1) x_out(2)
      by (simp add: cJSON_InsertItemInArray_def node_upd_def child_of_def)
    moreover have "children a ?h3 (x # c # vs)"
    proof (rule childrenI [OF L3 bnd])
      show "dll (ch_node ?h3) (cj_child ?nd) None (x # c # vs) None l"
        using d(6,9) x x_out nx(2) k us by auto
    qed (use x nx x_out len' us in auto)
    ultimately show ?thesis using L3 us drop_i d(3) by auto
  next
    case us: False
    from seg_next [OF d(6) x(4) us, of "Some x"] obtain n where
      n: "ch_node h (last us) = Some n" "dll ((ch_node h)(last us \<mapsto> n\<lparr>cj_next := Some x\<rparr>)) (cj_child nd) None us (Some x) k"
      by auto
    have last: "last us \<in> set us" using us by simp
    then have ne: "last us \<noteq> x" "last us \<noteq> c" "last us \<noteq> a" "last us \<notin> set vs" using x x_out by auto
    let ?h3 = "?h2\<lparr>ch_node := (ch_node ?h2)(last us \<mapsto> n\<lparr>cj_next := Some x\<rparr>)\<rparr>"
    have L3: "links_only ?S h ?h3" by (rule links_only_upd [OF L2, of _ n]) (use n(1) ne last d(2) in auto)
    have "cj_child nd \<noteq> Some c" using first us by auto
    then have "cJSON_InsertItemInArray h a which (Some x) = Some ?h3"
      using nth [folded d(5)] d(1,7,8) nx x(1) x_out(2) us n(1) ne k
      by (simp add: cJSON_InsertItemInArray_def node_upd_def child_of_def)
    moreover have "children a ?h3 (us @ x # c # vs)"
    proof (rule childrenI [OF L3 bnd])
      have n3: "ch_node ?h3 = (ch_node h)(last us \<mapsto> n\<lparr>cj_next := Some x\<rparr>, x \<mapsto> ?nx, c \<mapsto> ?nc)"
        using ne by (auto simp: fun_eq_iff)
      show "dll (ch_node ?h3) (cj_child nd) None (us @ x # c # vs) None l"
        unfolding n3 using n(2) d(9) x x_out ne by auto
      show "ch_node ?h3 a = Some nd" using d(1) ne nx x(1) by simp
    qed (use x nx x_out len' in auto)
    ultimately show ?thesis using L3 drop_i d(3) by auto
  qed
qed

section \<open>The sequence interface\<close>

lemma loose_iff: "children a h xs \<Longrightarrow> loose a h y \<longleftrightarrow>
   y \<noteq> a \<and> y \<notin> set xs \<and> (\<exists>nd. ch_node h y = Some nd \<and> cj_next nd = None \<and> cj_prev nd = None)"
  using loose_not_child [of a h xs y] by (cases xs) (auto simp: loose_def child_of_def children_def)

lemma loose_keep:
  assumes "children a h xs" "children a h' xs'" "links_only S h h'" "S \<subseteq> insert a (insert x (set xs))"
    "set xs' \<subseteq> insert x (set xs)" "loose a h y" "y \<noteq> x"
  shows "loose a h' y"
proof -
  have y: "y \<noteq> a" "y \<notin> set xs" "\<exists>nd. ch_node h y = Some nd \<and> cj_next nd = None \<and> cj_prev nd = None"
    using loose_iff [OF assms(1), of y] assms(6) by simp_all
  then have "y \<notin> S" "y \<notin> set xs'" using assms(4,5,7) by auto
  with assms(3) have "ch_node h' y = ch_node h y" by (simp add: links_only_def)
  with y \<open>y \<notin> set xs'\<close> show ?thesis by (simp add: loose_iff [OF assms(2)])
qed

text \<open>A container of items as a sequence: the positions past the end mean the end for \<open>ins\<close> and nothing for
  \<open>detach\<close>.\<close>

locale item_seq =
  fixes view :: "'h \<Rightarrow> 'x list \<Rightarrow> bool"
    and free :: "'h \<Rightarrow> 'x \<Rightarrow> bool"
    and ins :: "'h \<Rightarrow> int \<Rightarrow> 'x \<Rightarrow> 'h option"
    and detach :: "'h \<Rightarrow> int \<Rightarrow> ('x option \<times> 'h) option"
    and cap :: int
  assumes ins_law: "view h xs \<Longrightarrow> free h x \<Longrightarrow> int (length xs) < cap \<Longrightarrow>
      \<exists>h'. ins h i x = Some h' \<and> view h' (take (nat i) xs @ x # drop (nat i) xs) \<and> (\<forall>y. y \<noteq> x \<longrightarrow> free h y \<longrightarrow> free h' y)"
    and detach_law: "view h xs \<Longrightarrow> nat i < length xs \<Longrightarrow>
      \<exists>h'. detach h i = Some (Some (xs ! nat i), h') \<and> view h' (take (nat i) xs @ drop (Suc (nat i)) xs)
        \<and> free h' (xs ! nat i) \<and> (\<forall>y. free h y \<longrightarrow> free h' y)"
    and detach_none: "view h xs \<Longrightarrow> length xs \<le> nat i \<Longrightarrow> detach h i = Some (None, h)"
begin

lemma ins_detach:
  assumes "view h xs" "free h x" "int (length xs) < cap" "0 \<le> i" "i \<le> int (length xs)"
  shows "\<exists>h' h''. ins h i x = Some h' \<and> detach h' i = Some (Some x, h'') \<and> view h'' xs \<and> free h'' x"
proof -
  from ins_law [OF assms(1-3), of i] obtain h' where
    h': "ins h i x = Some h'" "view h' (take (nat i) xs @ x # drop (nat i) xs)" by blast
  have len: "length (take (nat i) xs) = nat i" "nat i < Suc (length xs)" using assms by auto
  with detach_law [OF h'(2), of i] obtain h'' where
    "detach h' i = Some (Some x, h'')" "view h'' (take (nat i) xs @ drop (nat i) xs)" "free h'' x"
    by (auto simp: nth_append)
  with h' show ?thesis by auto
qed

lemma move:
  assumes "view h xs" "nat i < length xs" "int (length xs) \<le> cap"
  shows "\<exists>h' h''. detach h i = Some (Some (xs ! nat i), h') \<and> ins h' j (xs ! nat i) = Some h''
     \<and> view h'' (let ys = take (nat i) xs @ drop (Suc (nat i)) xs in take (nat j) ys @ (xs ! nat i) # drop (nat j) ys)"
proof -
  from detach_law [OF assms(1,2)] obtain h' where
    h': "detach h i = Some (Some (xs ! nat i), h')" "view h' (take (nat i) xs @ drop (Suc (nat i)) xs)" "free h' (xs ! nat i)"
    by blast
  have "int (length (take (nat i) xs @ drop (Suc (nat i)) xs)) < cap" using assms by auto
  from ins_law [OF h'(2,3) this, of j] h'(1) show ?thesis by (auto simp: Let_def)
qed

lemma fill:
  "view h xs \<Longrightarrow> list_all (free h) ys \<Longrightarrow> distinct ys \<Longrightarrow> int (length xs + length ys) \<le> cap \<Longrightarrow>
   \<exists>h'. fold (\<lambda>y r. Option.bind r (\<lambda>h. ins h cap y)) ys (Some h) = Some h' \<and> view h' (xs @ ys)"
proof (induction ys arbitrary: h xs)
  case (Cons y ys)
  then have "length xs \<le> nat cap" "int (length xs) < cap" by auto
  with ins_law [OF Cons.prems(1), of y cap] Cons.prems(2) obtain h' where
    h': "ins h cap y = Some h'" "view h' (xs @ [y])" "\<forall>z. z \<noteq> y \<longrightarrow> free h z \<longrightarrow> free h' z" by auto
  have "list_all (free h') ys" using h'(3) Cons.prems(2,3) by (auto simp: list_all_iff)
  from Cons.IH [OF h'(2) this] Cons.prems h'(1) show ?case by auto
qed auto

lemma drain:
  "view h xs \<Longrightarrow> \<exists>h'. fold (\<lambda>_ r. Option.bind r (\<lambda>(out, h).
        map_option (\<lambda>(x, h). (out @ [x], h)) (detach h 0))) xs (Some (out, h)) = Some (out @ map Some xs, h') \<and> view h' []"
proof (induction xs arbitrary: h out)
  case (Cons x xs)
  from detach_law [OF Cons.prems, of 0] obtain h' where h': "detach h 0 = Some (Some x, h')" "view h' xs" by auto
  from Cons.IH [OF h'(2), of "out @ [Some x]"] h'(1) show ?case by auto
qed auto

end

interpretation cj_array: item_seq "children a" "loose a" "\<lambda>h i x. cJSON_InsertItemInArray h a i (Some x)"
  "\<lambda>h i. cJSON_DetachItemFromArray h a i" INT_MAX for a
proof
  fix h xs x i assume ch: "children a h xs" and lo: "loose a h x" and len: "int (length xs) < INT_MAX"
  from InsertItemInArray_children [OF this, of i] obtain h' where
    h': "cJSON_InsertItemInArray h a i (Some x) = Some h'" "children a h' (take (nat i) xs @ x # drop (nat i) xs)"
      "links_only (insert a (insert x (set xs))) h h'" by blast
  have "set (take (nat i) xs @ x # drop (nat i) xs) \<subseteq> insert x (set xs)"
    using set_take_subset set_drop_subset by fastforce
  from loose_keep [OF ch h'(2,3) subset_refl this] h' show
    "\<exists>h'. cJSON_InsertItemInArray h a i (Some x) = Some h' \<and> children a h' (take (nat i) xs @ x # drop (nat i) xs)
       \<and> (\<forall>y. y \<noteq> x \<longrightarrow> loose a h y \<longrightarrow> loose a h' y)" by blast
next
  fix h xs i assume ch: "children a h xs" and i: "nat i < length xs"
  from DetachItemFromArray_children [OF this] obtain h' where
    h': "cJSON_DetachItemFromArray h a i = Some (Some (xs ! nat i), h')"
      "children a h' (take (nat i) xs @ drop (Suc (nat i)) xs)" "loose a h' (xs ! nat i)"
      "links_only (insert a (set xs)) h h'" by blast
  have "set (take (nat i) xs @ drop (Suc (nat i)) xs) \<subseteq> insert (xs ! nat i) (set xs)"
    using set_take_subset set_drop_subset by fastforce
  from loose_keep [OF ch h'(2,4) _ this] h'(3) have "loose a h y \<Longrightarrow> loose a h' y" for y by blast
  with h' show "\<exists>h'. cJSON_DetachItemFromArray h a i = Some (Some (xs ! nat i), h') \<and>
      children a h' (take (nat i) xs @ drop (Suc (nat i)) xs) \<and> loose a h' (xs ! nat i) \<and>
      (\<forall>y. loose a h y \<longrightarrow> loose a h' y)" by blast
qed (simp add: DetachItemFromArray_none)

section \<open>Properties\<close>

text \<open>An array of three items at the addresses 1 to 3, the item 4 outside it and the array itself at 0.\<close>

definition sample_item :: "nat option \<Rightarrow> nat option \<Rightarrow> nat option \<Rightarrow> u32 \<Rightarrow> cJSON" where
  "sample_item nxt prev child t = \<lparr>cj_next = nxt, cj_prev = prev, cj_child = child, cj_type = t, cj_valuestring = None,
     cj_valueint = 0, cj_valuedouble = double_zero, cj_string = None\<rparr>"

definition sample_heap :: cheap where
  "sample_heap = \<lparr>ch_node = [0 \<mapsto> sample_item None None (Some 1) cJSON_Array,
       1 \<mapsto> sample_item (Some 2) None None cJSON_NULL, 2 \<mapsto> sample_item (Some 3) (Some 1) None cJSON_True,
       3 \<mapsto> sample_item None (Some 2) None cJSON_NULL, 4 \<mapsto> sample_item None None None cJSON_False],
     ch_str = Map.empty, ch_top = 5\<rparr>"

lemma sample_children: "children 0 sample_heap [1, 2, 3]"
  by (auto simp: children_def cj_bounded_def sample_heap_def sample_item_def INT_MAX_def split: if_splits)

lemma sample_loose: "loose 0 sample_heap 4"
  by (simp add: loose_def sample_heap_def sample_item_def child_of_def)

text \<open>C20: On an item whose children are the doubly linked list \<open>xs\<close>, \<^verbatim>\<open>cJSON_GetArraySize\<close> is the length of \<open>xs\<close>,
  \<^verbatim>\<open>cJSON_GetArrayItem\<close> its element, \<^verbatim>\<open>cJSON_AddItemToArray\<close> appends an item, \<^verbatim>\<open>cJSON_InsertItemInArray\<close> inserts it
  at a position (at the end when there is none) and \<^verbatim>\<open>cJSON_DetachItemFromArray\<close> removes the item at a position, which
  has no neighbours afterwards. The operations change only links, and only those of the items concerned.\<close>

theorem cJSON_array_refinement:
  assumes "children a h xs" "loose a h x" "int (length xs) < INT_MAX"
  shows "cJSON_GetArraySize h a = Some (int (length xs))
    \<and> cJSON_GetArrayItem h a i = Some (if nat i < length xs then Some (xs ! nat i) else None)
    \<and> (\<exists>h'. cJSON_AddItemToArray h a (Some x) = Some h' \<and> children a h' (xs @ [x])
          \<and> links_only (insert a (insert x (set xs))) h h')
    \<and> (\<exists>h'. cJSON_InsertItemInArray h a i (Some x) = Some h' \<and> children a h' (take (nat i) xs @ x # drop (nat i) xs)
          \<and> links_only (insert a (insert x (set xs))) h h')
    \<and> (if nat i < length xs
       then \<exists>h'. cJSON_DetachItemFromArray h a i = Some (Some (xs ! nat i), h')
              \<and> children a h' (take (nat i) xs @ drop (Suc (nat i)) xs) \<and> loose a h' (xs ! nat i)
              \<and> links_only (insert a (set xs)) h h'
       else cJSON_DetachItemFromArray h a i = Some (None, h))"
  using GetArraySize_children [OF assms(1)] nth_child_children [OF assms(1)] AddItemToArray_children [OF assms]
    InsertItemInArray_children [OF assms] DetachItemFromArray_children [OF assms(1), of i] DetachItemFromArray_none [OF assms(1)]
  by (simp add: cJSON_GetArrayItem_def not_less) blast

lemma cJSON_array_refinement_witness:
  "cJSON_GetArraySize sample_heap 0 = Some 3 \<and> cJSON_GetArrayItem sample_heap 0 1 = Some (Some 2)
   \<and> (\<exists>h'. cJSON_InsertItemInArray sample_heap 0 1 (Some 4) = Some h' \<and> children 0 h' [1, 4, 2, 3])"
  using cJSON_array_refinement [OF sample_children sample_loose, of 1] by (auto simp: INT_MAX_def)

text \<open>Inserting an item at a position of an array and detaching that position restores the array and returns the
  item.\<close>

theorem cJSON_insert_detach:
  assumes "children a h xs" "loose a h x" "int (length xs) < INT_MAX" "0 \<le> i" "i \<le> int (length xs)"
  shows "\<exists>h' h''. cJSON_InsertItemInArray h a i (Some x) = Some h'
     \<and> cJSON_DetachItemFromArray h' a i = Some (Some x, h'') \<and> children a h'' xs \<and> loose a h'' x"
  by (rule cj_array.ins_detach [OF assms])

lemma cJSON_insert_detach_witness:
  "\<exists>h' h''. cJSON_InsertItemInArray sample_heap 0 3 (Some 4) = Some h'
     \<and> cJSON_DetachItemFromArray h' 0 3 = Some (Some 4, h'') \<and> children 0 h'' [1, 2, 3] \<and> loose 0 h'' 4"
  using cJSON_insert_detach [OF sample_children sample_loose, of 3] by (simp add: INT_MAX_def)

text \<open>An array returns its items first in, first out: detaching position 0 as often as there are items yields them
  in the order in which they were added, and leaves it empty.\<close>

theorem cJSON_fill_drain:
  assumes "children a h xs" "list_all (loose a h) ys" "distinct ys" "int (length xs + length ys) \<le> INT_MAX"
  shows "\<exists>h' h''. fold (\<lambda>y r. Option.bind r (\<lambda>h. cJSON_InsertItemInArray h a INT_MAX (Some y))) ys (Some h) = Some h'
     \<and> fold (\<lambda>_ r. Option.bind r (\<lambda>(out, h). map_option (\<lambda>(x, h). (out @ [x], h)) (cJSON_DetachItemFromArray h a 0)))
         (xs @ ys) (Some ([], h')) = Some (map Some (xs @ ys), h'') \<and> children a h'' []"
  using cj_array.fill [OF assms] cj_array.drain [of a _ "xs @ ys" "[]"] by fastforce

lemma cJSON_fill_drain_witness:
  "\<exists>h' h''. cJSON_InsertItemInArray sample_heap 0 INT_MAX (Some 4) = Some h'
     \<and> fold (\<lambda>_ r. Option.bind r (\<lambda>(out, h). map_option (\<lambda>(x, h). (out @ [x], h)) (cJSON_DetachItemFromArray h 0 0)))
         [1, 2, 3, 4::nat] (Some ([], h')) = Some ([Some 1, Some 2, Some 3, Some 4], h'') \<and> children 0 h'' []"
  using cJSON_fill_drain [OF sample_children, of "[4]"] sample_loose by (simp add: INT_MAX_def)

end
