(* ===== verification/CJsonTree.thy ===== *)
theory CJsonTree
  imports CJsonList
begin

text \<open>
  Trees of items of \<^verbatim>\<open>src/cJSON/cJSON.c\<close>: the shape that a pointer to an item denotes, what \<^verbatim>\<open>cJSON_Delete\<close>
  releases, and errors in the ownership of names.
\<close>

section \<open>Forests\<close>

text \<open>An item with its texts and its children; \<open>addrs\<close> are its addresses and \<open>span\<close> the longest way down it.\<close>

datatype ctree = CT (ct_addr: nat) (ct_node: cJSON) (ct_value: "string option") (ct_name: "string option")
  (ct_kids: "ctree list")

fun addrs :: "ctree list \<Rightarrow> nat list" where
  "addrs [] = []"
| "addrs (CT a nd v nm ks # ts) = a # addrs ks @ addrs ts"

fun span :: "ctree list \<Rightarrow> nat" where
  "span [] = 0"
| "span (CT a nd v nm ks # ts) = Suc (max (span ks) (span ts))"

text \<open>The list of items from \<open>p\<close>, with all their children.\<close>

fun forest :: "cheap \<Rightarrow> nat option \<Rightarrow> ctree list \<Rightarrow> bool" where
  "forest h p [] \<longleftrightarrow> p = None"
| "forest h p (CT a nd v nm ks # ts) \<longleftrightarrow>
     p = Some a \<and> ch_node h a = Some nd \<and> str_at h (cj_valuestring nd) = Some v \<and> str_at h (cj_string nd) = Some nm
     \<and> forest h (cj_child nd) ks \<and> forest h (cj_next nd) ts"

lemma forest_None [simp]: "forest h None ts \<longleftrightarrow> ts = []"
  by (cases "(h, None::nat option, ts)" rule: forest.cases) auto

lemma forest_unique: "forest h p ts \<Longrightarrow> forest h p us \<Longrightarrow> ts = us"
proof (induction h p ts arbitrary: us rule: forest.induct)
  case (2 h p a nd v nm ks ts)
  then show ?case by (cases "(h, p, us)" rule: forest.cases) auto
qed simp

lemma forest_at:
  "forest h p ts \<Longrightarrow> a \<in> set (addrs ts) \<Longrightarrow> \<exists>us. forest h (Some a) us \<and> length (addrs us) \<le> length (addrs ts)"
proof (induction h p ts rule: forest.induct)
  case (2 h p b nd v nm ks ts)
  consider "a = b" | "a \<in> set (addrs ks)" | "a \<in> set (addrs ts)" using 2(4) by auto
  then show ?case
  proof cases
    case 1
    with 2(3) show ?thesis by (intro exI [of _ "CT b nd v nm ks # ts"]) auto
  qed (use 2 in fastforce)+
qed simp

lemma forest_fresh:
  assumes "forest h p (CT a nd v nm ks # ts)"
  shows "a \<notin> set (addrs ks)" "a \<notin> set (addrs ts)"
proof -
  have f: "forest h (Some a) (CT a nd v nm ks # ts)" using assms by simp
  show "a \<notin> set (addrs ks)"
  proof
    assume "a \<in> set (addrs ks)"
    then obtain us where us: "forest h (Some a) us" "length (addrs us) \<le> length (addrs ks)"
      using forest_at [of h "cj_child nd" ks a] assms by auto
    then show False using forest_unique [OF us(1) f] by simp
  qed
  show "a \<notin> set (addrs ts)"
  proof
    assume "a \<in> set (addrs ts)"
    then obtain us where us: "forest h (Some a) us" "length (addrs us) \<le> length (addrs ts)"
      using forest_at [of h "cj_next nd" ts a] assms by auto
    then show False using forest_unique [OF us(1) f] by simp
  qed
qed

lemma forest_dom: "forest h p ts \<Longrightarrow> set (addrs ts) \<subseteq> dom (ch_node h)"
  by (induction h p ts rule: forest.induct) auto

lemma span_card: "forest h p ts \<Longrightarrow> span ts \<le> card (set (addrs ts))"
proof (induction h p ts rule: forest.induct)
  case (2 h p a nd v nm ks ts)
  let ?K = "set (addrs ks)" and ?T = "set (addrs ts)"
  have "span ks \<le> card ?K" "span ts \<le> card ?T" using 2 by auto
  moreover have "card ?K \<le> card (?K \<union> ?T)" "card ?T \<le> card (?K \<union> ?T)" by (intro card_mono; simp)+
  moreover have "card (insert a (?K \<union> ?T)) = Suc (card (?K \<union> ?T))" using forest_fresh [OF 2(3)] by simp
  ultimately show ?case by simp
qed simp

text \<open>The fuel of the loops and recursions suffices for every tree of a heap.\<close>

lemma forest_fuel:
  assumes "cj_bounded h" "forest h p ts"
  shows "span ts < cj_fuel h"
proof -
  have "set (addrs ts) \<subseteq> {..<ch_top h}" using assms forest_dom [OF assms(2)] by (auto simp: cj_bounded_def dom_def)
  then have "card (set (addrs ts)) \<le> ch_top h" using card_mono [of "{..<ch_top h}"] by fastforce
  with span_card [OF assms(2)] show ?thesis by (simp add: cj_fuel_def)
qed

section \<open>Deletion\<close>

text \<open>The list of items that \<^verbatim>\<open>cJSON_Delete\<close> releases from \<open>p\<close>: it stops at references. Its strings are \<open>strs\<close>.\<close>

fun dforest :: "cheap \<Rightarrow> nat option \<Rightarrow> ctree list \<Rightarrow> bool" where
  "dforest h p [] \<longleftrightarrow> p = None"
| "dforest h p (CT a nd v nm ks # ts) \<longleftrightarrow>
     p = Some a \<and> ch_node h a = Some nd \<and> (if is_ref nd then ks = [] else dforest h (cj_child nd) ks)
     \<and> dforest h (cj_next nd) ts"

definition opt_list :: "nat option \<Rightarrow> nat list" where
  "opt_list p = (case p of None \<Rightarrow> [] | Some s \<Rightarrow> [s])"

fun strs :: "ctree list \<Rightarrow> nat list" where
  "strs [] = []"
| "strs (CT a nd v nm ks # ts) = strs ks @ (if is_ref nd then [] else opt_list (cj_valuestring nd))
     @ (if is_const nd then [] else opt_list (cj_string nd)) @ strs ts"

definition owned :: "cheap \<Rightarrow> nat option \<Rightarrow> ctree list \<Rightarrow> bool" where
  "owned h p ts \<longleftrightarrow> dforest h p ts \<and> distinct (addrs ts) \<and> distinct (strs ts)
     \<and> (\<forall>s \<in> set (strs ts). \<exists>x. ch_str h s = Some (False, x))"

text \<open>The heap without some items and strings.\<close>

definition without :: "cheap \<Rightarrow> nat set \<Rightarrow> nat set \<Rightarrow> cheap" where
  "without h N S = h\<lparr>ch_node := ch_node h |` (- N), ch_str := ch_str h |` (- S)\<rparr>"

lemma without_simps [simp]:
  "ch_node (without h N S) a = (if a \<in> N then None else ch_node h a)"
  "ch_str (without h N S) s = (if s \<in> S then None else ch_str h s)"
  "without (without h N S) N' S' = without h (N \<union> N') (S \<union> S')"
  "without h {} {} = h"
  by (auto simp: without_def restrict_map_def fun_eq_iff)

lemma dforest_frame: "dforest h p ts \<Longrightarrow> (\<And>b. b \<in> set (addrs ts) \<Longrightarrow> ch_node h' b = ch_node h b) \<Longrightarrow> dforest h' p ts"
proof (induction h p ts rule: dforest.induct)
  case (2 h p a nd v nm ks ts)
  then show ?case by (auto split: if_splits)
qed simp

lemma owned_frame:
  "owned h p ts \<Longrightarrow> set (addrs ts) \<inter> N = {} \<Longrightarrow> set (strs ts) \<inter> S = {} \<Longrightarrow> owned (without h N S) p ts"
  by (auto simp: owned_def intro!: dforest_frame [of h])

lemma free_opt_live:
  "(\<And>s. p = Some s \<Longrightarrow> b \<Longrightarrow> \<exists>x. ch_str h s = Some (False, x)) \<Longrightarrow>
   free_opt b h p = Some (without h {} (if b then set (opt_list p) else {}))"
  by (cases p; cases b)
    (auto simp: free_opt_def str_free_def opt_list_def without_def restrict_map_def fun_eq_iff split: option.splits prod.splits)

lemma node_free_live: "ch_node h a = Some nd \<Longrightarrow> node_free h a = Some (without h {a} {})"
  by (auto simp: node_free_def without_def restrict_map_def fun_eq_iff)

lemma dforest_None [simp]: "dforest h None ts \<longleftrightarrow> ts = []"
  by (cases "(h, None::nat option, ts)" rule: dforest.cases) auto

lemma cj_delete_owned:
  "owned h p ts \<Longrightarrow> span ts \<le> n \<Longrightarrow> cj_delete n h p = Some (without h (set (addrs ts)) (set (strs ts)))"
proof (induction n arbitrary: h p ts)
  case 0
  then have "ts = []" by (cases "(h, p, ts)" rule: dforest.cases) auto
  with 0 show ?case by (simp add: owned_def)
next
  case (Suc n)
  show ?case
  proof (cases "(h, p, ts)" rule: dforest.cases)
    case (1 h' p')
    with Suc show ?thesis by (simp add: owned_def)
  next
    case (2 h' p' a nd v nm ks us)
    then have ts: "ts = CT a nd v nm ks # us" by simp
    with Suc.prems have o: "p = Some a" "ch_node h a = Some nd" "dforest h (cj_next nd) us"
      "if is_ref nd then ks = [] else dforest h (cj_child nd) ks"
      "a \<notin> set (addrs ks)" "a \<notin> set (addrs us)" and sp: "span ks \<le> n" "span us \<le> n"
      and dist: "distinct (addrs ts)" "distinct (strs ts)" and live: "\<And>s. s \<in> set (strs ts) \<Longrightarrow> \<exists>x. ch_str h s = Some (False, x)"
      by (auto simp: owned_def)
    obtain v m where vm: "v = (if is_ref nd then [] else opt_list (cj_valuestring nd))"
      "m = (if is_const nd then [] else opt_list (cj_string nd))" by blast
    have st: "strs ts = strs ks @ v @ m @ strs us" by (simp add: ts vm)
    let ?h1 = "without h (set (addrs ks)) (set (strs ks))"
    have h1: "(if \<not> is_ref nd \<and> cj_child nd \<noteq> None then cj_delete n h (cj_child nd) else Some h) = Some ?h1"
    proof (cases "is_ref nd \<or> cj_child nd = None")
      case True
      with o(4) have "ks = []" by (auto split: if_splits)
      with True show ?thesis by auto
    next
      case False
      then have "owned h (cj_child nd) ks" using o(4) dist live by (auto simp: owned_def ts)
      with Suc.IH sp(1) False show ?thesis by auto
    qed
    have nd1: "ch_node ?h1 a = Some nd" using o by simp
    let ?h2 = "without ?h1 {} (set v)"
    have h2: "free_opt (\<not> is_ref nd) ?h1 (cj_valuestring nd) = Some ?h2"
      using live dist by (subst free_opt_live) (auto simp: st vm opt_list_def split: if_splits)
    let ?h3 = "without ?h2 {} (set m)"
    have h3: "free_opt (\<not> is_const nd) ?h2 (cj_string nd) = Some ?h3"
      using live dist by (subst free_opt_live) (auto simp: st vm opt_list_def split: if_splits)
    let ?h4 = "without ?h3 {a} {}"
    have h4: "node_free ?h3 a = Some ?h4" by (rule node_free_live [of _ _ nd]) (use nd1 in simp)
    have "owned h (cj_next nd) us" using o(3) dist live by (auto simp: owned_def ts)
    moreover have "?h4 = without h (insert a (set (addrs ks))) (set (strs ks) \<union> set v \<union> set m)" by simp
    ultimately have "owned ?h4 (cj_next nd) us"
      using dist o(6) unfolding st by (simp add: ts) (rule owned_frame; auto)
    then have "cj_delete n ?h4 (cj_next nd) = Some (without ?h4 (set (addrs us)) (set (strs us)))"
      by (rule Suc.IH [OF _ sp(2)])
    then have "cj_delete (Suc n) h p = Some (without h (set (addrs ts)) (set (strs ks @ v @ m @ strs us)))"
      using o(1,2) h1 nd1 h2 h3 h4 by (simp add: ts Un_commute Un_left_commute insert_commute)
    then show ?thesis unfolding st .
  qed
qed

lemma span_length: "span ts \<le> length (addrs ts)"
  by (induction ts rule: span.induct) auto

lemma dforest_dom: "dforest h p ts \<Longrightarrow> set (addrs ts) \<subseteq> dom (ch_node h)"
  by (induction h p ts rule: dforest.induct) (auto split: if_splits)

lemma owned_fuel:
  assumes "cj_bounded h" "owned h p ts"
  shows "span ts \<le> cj_fuel h"
  using bounded_length [OF assms(1), of "addrs ts"] assms(2) dforest_dom [of h p ts] span_length [of ts]
  by (simp add: owned_def cj_fuel_def)

lemma cJSON_Delete_owned:
  "cj_bounded h \<Longrightarrow> owned h p ts \<Longrightarrow> cJSON_Delete h p = Some (without h (set (addrs ts)) (set (strs ts)))"
  unfolding cJSON_Delete_def by (rule cj_delete_owned [OF _ owned_fuel])

section \<open>Properties\<close>

text \<open>C32: \<^verbatim>\<open>cJSON_Delete\<close> releases exactly the items of the list it is given, with their children up to references,
  and the strings they own, each once; it reads no released memory and ends. This includes the items after the one it
  is given.\<close>

theorem cJSON_Delete_exact:
  assumes "cj_bounded h" "owned h p ts"
  shows "\<exists>h'. cJSON_Delete h p = Some h' \<and> ch_top h' = ch_top h
    \<and> dom (ch_node h') = dom (ch_node h) - set (addrs ts) \<and> dom (ch_str h') = dom (ch_str h) - set (strs ts)
    \<and> (\<forall>a. a \<notin> set (addrs ts) \<longrightarrow> ch_node h' a = ch_node h a)
    \<and> (\<forall>s. s \<notin> set (strs ts) \<longrightarrow> ch_str h' s = ch_str h s)"
  using cJSON_Delete_owned [OF assms] by (auto simp: without_def restrict_map_def dom_def)

text \<open>An object with a literal name, a string and a reference, before another item.\<close>

definition sample_tree :: cheap where
  "sample_tree = \<lparr>ch_node = [
       0 \<mapsto> (sample_item (Some 4) None (Some 1) cJSON_Object),
       1 \<mapsto> (sample_item (Some 2) None None (cJSON_String OR cJSON_StringIsConst))\<lparr>cj_valuestring := Some 6, cj_string := Some 7\<rparr>,
       2 \<mapsto> (sample_item None (Some 1) (Some 3) (cJSON_Array OR cJSON_IsReference))\<lparr>cj_string := Some 8\<rparr>,
       3 \<mapsto> sample_item None None None cJSON_NULL, 4 \<mapsto> sample_item None (Some 0) None cJSON_True],
     ch_str = [6 \<mapsto> (False, ''v''), 7 \<mapsto> (True, ''a''), 8 \<mapsto> (False, ''b'')], ch_top = 9\<rparr>"

lemma sample_tree_owned: "owned sample_tree (Some 0)
    [CT 0 (the (ch_node sample_tree 0)) None None
       [CT 1 (the (ch_node sample_tree 1)) None None [], CT 2 (the (ch_node sample_tree 2)) None None []],
     CT 4 (the (ch_node sample_tree 4)) None None []]" (is "owned _ _ ?ts")
  and sample_tree_bounded: "cj_bounded sample_tree"
proof -
  show "cj_bounded sample_tree" by (auto simp: cj_bounded_def sample_tree_def split: if_splits)
  show "owned sample_tree (Some 0) ?ts"
    unfolding owned_def by (simp add: sample_tree_def sample_item_def is_ref_def is_const_def opt_list_def c_eval)
qed

lemma cJSON_Delete_exact_witness:
  "\<exists>h'. cJSON_Delete sample_tree (Some 0) = Some h' \<and> dom (ch_node h') = dom (ch_node sample_tree) - {0, 1, 2, 4}
     \<and> dom (ch_str h') = dom (ch_str sample_tree) - {6, 8}"
  using cJSON_Delete_exact [OF sample_tree_bounded sample_tree_owned]
  by (auto simp: sample_tree_def sample_item_def is_ref_def is_const_def opt_list_def c_eval)

text \<open>\<^verbatim>\<open>cJSON_DeleteItemFromArray\<close> releases the item at the position, its children and its strings, and nothing else:
  the other children keep their order.\<close>

theorem cJSON_DeleteItemFromArray_exact:
  assumes ch: "children a h xs" and i: "nat i < length xs"
    and nd: "ch_node h (xs ! nat i) = Some nd"
    and own: "owned (h\<lparr>ch_node := (ch_node h)(xs ! nat i \<mapsto> nd\<lparr>cj_next := None, cj_prev := None\<rparr>)\<rparr>) (Some (xs ! nat i)) ts"
    and sep: "set (addrs ts) \<inter> insert a (set xs) \<subseteq> {xs ! nat i}"
  shows "\<exists>h'. cJSON_DeleteItemFromArray h a i = Some h'
    \<and> children a h' (take (nat i) xs @ drop (Suc (nat i)) xs)
    \<and> dom (ch_node h') = dom (ch_node h) - set (addrs ts) \<and> dom (ch_str h') = dom (ch_str h) - set (strs ts)"
proof -
  let ?x = "xs ! nat i" and ?ys = "take (nat i) xs @ drop (Suc (nat i)) xs"
  let ?h0 = "h\<lparr>ch_node := (ch_node h)(?x \<mapsto> nd\<lparr>cj_next := None, cj_prev := None\<rparr>)\<rparr>"
  from DetachItemFromArray_children [OF ch i] obtain h' where
    h': "cJSON_DetachItemFromArray h a i = Some (Some ?x, h')" "children a h' ?ys" "loose a h' ?x"
      "links_only (insert a (set xs)) h h'" "ch_node h' ?x = Some (nd\<lparr>cj_next := None, cj_prev := None\<rparr>)"
    using nd by auto
  have x_out: "?x \<noteq> a" "?x \<notin> set ?ys" using h'(3) loose_not_child [OF h'(2,3)] by (simp_all add: loose_def)
  have sub: "set ?ys \<subseteq> set xs" using set_take_subset set_drop_subset by fastforce
  have strs: "ch_str h' = ch_str h" and dom: "dom (ch_node h') = dom (ch_node h)"
    using h'(4) links_only_dom [OF h'(4)] by (auto simp: links_only_def dom_def)
  have "dforest h' (Some ?x) ts"
  proof (rule dforest_frame)
    show "dforest ?h0 (Some ?x) ts" using own by (simp add: owned_def)
    fix b assume "b \<in> set (addrs ts)"
    then show "ch_node h' b = ch_node ?h0 b"
      using sep h'(4,5) by (cases "b = ?x") (auto simp: links_only_def)
  qed
  then have "owned h' (Some ?x) ts" using own strs by (simp add: owned_def)
  then have del: "cJSON_Delete h' (Some ?x) = Some (without h' (set (addrs ts)) (set (strs ts)))"
    using h'(2) by (intro cJSON_Delete_owned) (simp_all add: children_def)
  have out: "set ?ys \<inter> set (addrs ts) = {}" "a \<notin> set (addrs ts)" using sep sub x_out by auto
  from h'(2) obtain na l where na: "cj_bounded h'" "a \<notin> set ?ys" "int (length ?ys) \<le> INT_MAX" "ch_node h' a = Some na"
    "dll (ch_node h') (cj_child na) None ?ys None l" by (auto simp: children_def)
  have "dll (ch_node (without h' (set (addrs ts)) (set (strs ts)))) (cj_child na) None ?ys None l"
    using na(5) out(1) by (subst dll_cong [of ?ys _ "ch_node h'"]) auto
  then have "children a (without h' (set (addrs ts)) (set (strs ts))) ?ys"
    using na out by (auto simp: children_def cj_bounded_def without_def restrict_map_def)
  with del h'(1) show ?thesis
    by (intro exI [of _ "without h' (set (addrs ts)) (set (strs ts))"])
      (simp add: cJSON_DeleteItemFromArray_def without_def strs dom Diff_eq)
qed

lemma cJSON_DeleteItemFromArray_exact_witness:
  "\<exists>h'. cJSON_DeleteItemFromArray sample_heap 0 1 = Some h' \<and> children 0 h' [1, 3]
    \<and> dom (ch_node h') = dom (ch_node sample_heap) - {2}"
proof -
  let ?nd = "sample_item (Some 3) (Some 1) None cJSON_True"
  have "ch_node sample_heap ([1, 2, 3] ! nat 1) = Some ?nd" by (simp add: sample_heap_def)
  from cJSON_DeleteItemFromArray_exact [OF sample_children _ this, of "[CT 2 (?nd\<lparr>cj_next := None, cj_prev := None\<rparr>) None None []]"]
  show ?thesis by (auto simp: owned_def sample_item_def is_ref_def is_const_def opt_list_def c_eval)
qed

text \<open>\<^verbatim>\<open>cJSON_AddItemToObject\<close> releases the name of the item although it is a literal, when the item was given a
  literal name by \<^verbatim>\<open>cJSON_AddItemToObjectCS\<close> before.\<close>

theorem cJSON_AddItemToObject_literal:
  "(do { (x, h) \<leftarrow> cJSON_CreateNull (\<lambda>n. True) sample_tree;
         h \<leftarrow> cJSON_AddItemToObjectCS h 0 7 x;
         (y, h) \<leftarrow> cJSON_DetachItemFromObject h 0 ''a'';
         (y, h) \<leftarrow> cJSON_DetachItemFromObject h 0 ''a'';
         Some (y = x, cJSON_AddItemToObject (\<lambda>n. True) h 0 ''c'' y = None) }) = Some (True, True)"
  by code_simp

end
