(* ===== verification/CJsonRender.thy ===== *)
theory CJsonRender
  imports CJsonText CJsonTree
begin

unbundle bit_operations_syntax

text \<open>
  What the printers of \<^verbatim>\<open>src/cJSON/cJSON.c\<close> write: the text of a tree, which both the strategy that allocates every
  text and the one that fills a growing buffer produce, unless an allocation is refused.
\<close>

section \<open>The text of a tree\<close>

fun cj_text :: "bool \<Rightarrow> int \<Rightarrow> ctree \<Rightarrow> string" where
  "cj_text fmt depth (CT a nd v nm ks) =
     (let t = cj_type nd AND 255
      in if t = cJSON_NULL then ''null'' else if t = cJSON_False then ''false'' else if t = cJSON_True then ''true''
         else if t = cJSON_Number then snd (number_text nd)
         else if t = cJSON_String then quoted (the v)
         else if t = cJSON_Array
         then (if ks = [] then ''[]'' else ''['' @ array_body fmt (map (cj_text fmt (depth + 1)) ks))
         else (if ks = [] then empty_object fmt depth
               else ''{'' @ (if fmt then [CHR 0x0A] else [])
                 @ object_body fmt (depth + 1) (map (\<lambda>k. (quoted (the (ct_name k)), cj_text fmt (depth + 1) k)) ks)))"

text \<open>The trees that can be printed: known types, numbers that exist, strings where strings belong.\<close>

definition c_text :: "string option \<Rightarrow> bool" where
  "c_text v \<longleftrightarrow> (case v of None \<Rightarrow> False | Some s \<Rightarrow> NUL \<notin> set s)"

fun printable :: "ctree \<Rightarrow> bool" where
  "printable (CT a nd v nm ks) \<longleftrightarrow>
     (let t = cj_type nd AND 255
      in if t = cJSON_Number then ieee (cj_valuedouble nd) \<and> INT_MIN \<le> cj_valueint nd \<and> cj_valueint nd \<le> INT_MAX
         else if t = cJSON_String then c_text v
         else if t = cJSON_Array then (\<forall>k \<in> set ks. printable k)
         else if t = cJSON_Object then (\<forall>k \<in> set ks. printable k \<and> c_text (ct_name k))
         else t = cJSON_NULL \<or> t = cJSON_False \<or> t = cJSON_True)"

definition text_limit :: int where "text_limit = 2 ^ 30 - 100"

definition tree_at :: "cheap \<Rightarrow> ctree \<Rightarrow> bool" where
  "tree_at h t \<longleftrightarrow> ch_node h (ct_addr t) = Some (ct_node t) \<and> str_at h (cj_valuestring (ct_node t)) = Some (ct_value t)
     \<and> str_at h (cj_string (ct_node t)) = Some (ct_name t) \<and> forest h (cj_child (ct_node t)) (ct_kids t)"

lemma forest_trees: "forest h p ts \<Longrightarrow> t \<in> set ts \<Longrightarrow> tree_at h t"
  by (induction h p ts rule: forest.induct) (auto simp: tree_at_def)

lemma span_member: "t \<in> set ts \<Longrightarrow> span [t] \<le> span ts"
  by (induction ts rule: span.induct) (auto simp: le_max_iff_disj elim: le_SucI dest: order_trans)

lemma items_forest: "forest h p ts \<Longrightarrow> span ts \<le> n \<Longrightarrow> items n h p = Some (map ct_addr ts)"
proof (induction h p ts arbitrary: n rule: forest.induct)
  case (2 h p a nd v nm ks ts)
  then obtain m where "n = Suc m" by (cases n) auto
  with 2 show ?case by auto
qed simp

lemma items_kids: "cj_bounded h \<Longrightarrow> forest h p ts \<Longrightarrow> items (cj_fuel h) h p = Some (map ct_addr ts)"
  using forest_fuel items_forest by (metis less_imp_le)

section \<open>Lengths\<close>

lemma array_body_Cons:
  "array_body fmt (e # es) = e @ (if es = [] then '']'' else (if fmt then '', '' else '','') @ array_body fmt es)"
  by (cases es) auto

definition asum :: "bool \<Rightarrow> string list \<Rightarrow> int" where
  "asum fmt es = sum_list (map (\<lambda>e. int (length e) + 2 + (if fmt then 1 else 0)) es)"

definition osum :: "bool \<Rightarrow> int \<Rightarrow> (string \<times> string) list \<Rightarrow> int" where
  "osum fmt depth es = sum_list (map (\<lambda>(s, r). int (length r) + int (length s) + 2 + (if fmt then 2 + depth else 0)) es)"

lemma asum_simps [simp]:
  "asum fmt [] = 0" "asum fmt (e # es) = int (length e) + 2 + (if fmt then 1 else 0) + asum fmt es"
  by (simp_all add: asum_def)

lemma osum_simps [simp]:
  "osum fmt d [] = 0"
  "osum fmt d ((s, r) # es) = int (length r) + int (length s) + 2 + (if fmt then 2 + d else 0) + osum fmt d es"
  by (simp_all add: osum_def)

lemma asum_nonneg: "0 \<le> asum fmt es" and osum_nonneg: "0 \<le> d \<Longrightarrow> 0 \<le> osum fmt d ps"
  by (induction es; simp) (induction ps; auto)

lemma array_body_length:
  "es \<noteq> [] \<Longrightarrow> int (length (array_body fmt es)) + 1 \<le> asum fmt es \<and> asum fmt es \<le> 2 * int (length (array_body fmt es)) + 1"
  by (induction es) (auto simp: array_body_Cons)

lemma array_body_member: "e \<in> set es \<Longrightarrow> length e + 1 \<le> length (array_body fmt es)"
  by (induction es) (fastforce simp: array_body_Cons)+

lemma tabs_length [simp]: "0 \<le> n \<Longrightarrow> int (length (tabs n)) = n"
  by (simp add: tabs_def)

lemma object_body_length:
  "0 < d \<Longrightarrow> int (length (object_body fmt d es)) \<le> osum fmt d es + 1 + (if fmt then d - 1 else 0)
     \<and> osum fmt d es \<le> int (length (object_body fmt d es))"
  by (induction fmt d es rule: object_body.induct) auto

lemma object_body_member: "(s, r) \<in> set es \<Longrightarrow> length s + length r + 2 \<le> length (object_body fmt d es)"
  by (induction fmt d es rule: object_body.induct) auto

text \<open>The room that the children of a container need is within the room of the container.\<close>

lemma array_room:
  assumes "cj_type nd AND 255 = cJSON_Array" "k \<in> set ks"
  shows "depth + 1 + int (length (cj_text fmt (depth + 1) k)) \<le> depth + int (length (cj_text fmt depth (CT a nd v nm ks)))"
proof -
  have "length (cj_text fmt (depth + 1) k) + 1 \<le> length (array_body fmt (map (cj_text fmt (depth + 1)) ks))"
    using assms(2) by (intro array_body_member) auto
  then show ?thesis using assms by (auto simp: Let_def c_eval)
qed

lemma object_room:
  assumes "cj_type nd AND 255 = cJSON_Object" "k \<in> set ks"
  shows "depth + 1 + int (length (cj_text fmt (depth + 1) k)) + int (length (quoted (the (ct_name k))))
     \<le> depth + int (length (cj_text fmt depth (CT a nd v nm ks)))"
proof -
  have "length (quoted (the (ct_name k))) + length (cj_text fmt (depth + 1) k) + 2
      \<le> length (object_body fmt (depth + 1) (map (\<lambda>k. (quoted (the (ct_name k)), cj_text fmt (depth + 1) k)) ks))"
    using assms(2) by (intro object_body_member) auto
  then show ?thesis using assms by (auto simp: Let_def c_eval)
qed

section \<open>Printing without a buffer\<close>

definition prints :: "allocator \<Rightarrow> string option option \<Rightarrow> string \<Rightarrow> bool" where
  "prints A r s \<longleftrightarrow> r = Some (Some s) \<or> refuses A \<and> r = Some None"

lemma put_new_prints: "int (length s) + 1 \<le> needed \<Longrightarrow> prints A (put_new A needed s) s"
  by (auto simp: prints_def put_new_def refuses_def intro: exI [of _ needed])

lemma array_entries_prints:
  "list_all2 (\<lambda>c e. prints A (pv c) e) cs es \<Longrightarrow> 0 \<le> len \<Longrightarrow> len + asum fmt es \<le> INT_MAX \<Longrightarrow>
   array_entries pv fmt cs len = Some (Some (es, len + asum fmt es)) \<or> refuses A \<and> array_entries pv fmt cs len = Some None"
proof (induction cs es arbitrary: len rule: list_all2_induct)
  case (Cons c cs e es)
  let ?len = "len + int (length e) + 2 + (if fmt then 1 else 0)"
  have c: "c_int ?len = Some ?len"
    using Cons.prems asum_nonneg [of fmt es] by (intro c_int_Some) (auto simp: INT_MIN_def split: if_splits)
  show ?case using Cons.hyps(1) Cons.IH [of ?len] Cons.prems c by (auto simp: prints_def ac_simps)
qed simp

lemma object_entries_prints:
  "list_all2 (\<lambda>c (s, r). prints A (ps c) s \<and> prints A (pv c) r) cs es \<Longrightarrow> 0 \<le> len \<Longrightarrow> 0 \<le> depth \<Longrightarrow>
   len + osum fmt depth es \<le> INT_MAX \<Longrightarrow>
   object_entries ps pv fmt depth cs len = Some (Some (es, len + osum fmt depth es))
   \<or> refuses A \<and> object_entries ps pv fmt depth cs len = Some None"
proof (induction cs es arbitrary: len rule: list_all2_induct)
  case (Cons c cs e es)
  obtain s r where e: "e = (s, r)" by (cases e)
  let ?len = "len + int (length r) + int (length s) + 2 + (if fmt then 2 + depth else 0)"
  have room: "0 \<le> ?len" "?len + osum fmt depth es \<le> INT_MAX" using Cons.prems e by (auto split: if_splits)
  have c: "c_int ?len = Some ?len"
    using room osum_nonneg [OF Cons.prems(2), of fmt es] by (intro c_int_Some) (auto simp: INT_MIN_def)
  have skip: "len + osum fmt depth es \<le> INT_MAX" using Cons.prems e by (auto split: if_splits)
  from Cons.hyps(1) have "prints A (ps c) s" "prints A (pv c) r" by (simp_all add: e)
  then show ?case
    using Cons.IH [OF room(1) Cons.prems(2) room(2)] Cons.IH [OF Cons.prems(1,2) skip] c
    unfolding prints_def e by (elim disjE conjE) (auto simp: ac_simps)
qed simp

lemma print_string_new_prints:
  assumes "str_at h p = Some v" "c_text v" "int (length (quoted (the v))) \<le> text_limit"
  shows "prints A (print_string_new A h p) (quoted (the v))"
proof -
  obtain s where s: "v = Some s" "NUL \<notin> set s" using assms(2) by (auto simp: c_text_def split: option.splits)
  have "string_text (Some s) = Some (int (length (quoted s)) + 1, quoted s)"
    using assms(3) s by (intro string_text_quoted) (auto simp: text_limit_def INT_MAX_def)
  then show ?thesis using assms(1) s by (simp add: print_string_new_def print_string_ptr_new_def put_new_prints)
qed

lemma list_all2_kids: "(\<And>k. k \<in> set ks \<Longrightarrow> P (ct_addr k) (f k)) \<Longrightarrow> list_all2 P (map ct_addr ks) (map f ks)"
  by (auto simp: list_all2_conv_all_nth)

lemma print_array_new_prints:
  assumes "cj_bounded h" "forest h child ks" "0 \<le> depth"
    "\<And>k. k \<in> set ks \<Longrightarrow> prints A (pv (ct_addr k)) (f k)"
    "ks \<noteq> [] \<Longrightarrow> int (length (array_body fmt (map f ks))) \<le> text_limit"
  shows "prints A (print_array_new pv A h child fmt) (if ks = [] then ''[]'' else ''['' @ array_body fmt (map f ks))"
proof (cases "ks = []")
  case True
  then show ?thesis using items_kids [OF assms(1,2)] put_new_prints [of "''[]''" 3 A] by (simp add: print_array_new_def)
next
  case False
  let ?es = "map f ks"
  have b: "int (length (array_body fmt ?es)) + 1 \<le> asum fmt ?es" "asum fmt ?es \<le> 2 * int (length (array_body fmt ?es)) + 1"
    using array_body_length [of ?es fmt] False by auto
  have "5 + asum fmt ?es \<le> INT_MAX" using b(2) assms(5) [OF False] by (simp add: text_limit_def INT_MAX_def)
  from array_entries_prints [OF list_all2_kids [of ks "\<lambda>c e. prints A (pv c) e", OF assms(4)] _ this]
  have "array_entries pv fmt (map ct_addr ks) 5 = Some (Some (?es, 5 + asum fmt ?es))
     \<or> refuses A \<and> array_entries pv fmt (map ct_addr ks) 5 = Some None" by simp
  moreover have "prints A (put_new A (5 + asum fmt ?es) (''['' @ array_body fmt ?es)) (''['' @ array_body fmt ?es)"
    using b(1) by (intro put_new_prints) simp
  moreover have "\<not> A (int (length ks) * 8) \<Longrightarrow> refuses A" unfolding refuses_def by (intro exI [of _ "int (length ks) * 8"]) simp
  ultimately show ?thesis using items_kids [OF assms(1,2)] False
    by (auto simp: print_array_new_def prints_def)
qed

lemma print_object_new_prints:
  assumes "cj_bounded h" "forest h child ks" "0 \<le> depth"
    "\<And>k. k \<in> set ks \<Longrightarrow> prints A (ps (ct_addr k)) (g k) \<and> prints A (pv (ct_addr k)) (f k)"
    "depth \<le> text_limit"
    "ks \<noteq> [] \<Longrightarrow> int (length (object_body fmt (depth + 1) (map (\<lambda>k. (g k, f k)) ks))) \<le> text_limit"
  shows "prints A (print_object_new ps pv A h child depth fmt)
     (if ks = [] then empty_object fmt depth
      else ''{'' @ (if fmt then [CHR 0x0A] else []) @ object_body fmt (depth + 1) (map (\<lambda>k. (g k, f k)) ks))"
proof (cases "ks = []")
  case True
  have "length (empty_object fmt depth) = (if fmt then 3 + nat (depth - 1) else 2)" by (simp add: empty_object_def tabs_def)
  then have "int (length (empty_object fmt depth)) + 1 \<le> (if fmt then depth + 4 else 3)" using assms(3) by auto
  moreover have "c_int (depth + 4) = Some (depth + 4)"
    using assms(3,5) by (intro c_int_Some) (auto simp: text_limit_def INT_MIN_def INT_MAX_def)
  ultimately show ?thesis using True items_kids [OF assms(1,2)] put_new_prints [of "empty_object fmt depth" _ A]
    by (cases fmt) (simp_all add: print_object_new_def)
next
  case False
  let ?es = "map (\<lambda>k. (g k, f k)) ks" and ?d = "depth + 1"
  let ?len = "if fmt then 7 + ?d else 7"
  have b: "int (length (object_body fmt ?d ?es)) \<le> osum fmt ?d ?es + 1 + (if fmt then ?d - 1 else 0)"
    "osum fmt ?d ?es \<le> int (length (object_body fmt ?d ?es))"
    using object_body_length [of ?d fmt ?es] assms(3) by auto
  have room: "?len + osum fmt ?d ?es \<le> INT_MAX" using b(2) assms(5) assms(6) [OF False]
    by (cases fmt) (simp_all add: text_limit_def INT_MAX_def)
  have c: "c_int ?d = Some ?d" "c_int ?len = Some ?len"
    using assms(3,5) by (intro c_int_Some; auto simp: text_limit_def INT_MIN_def INT_MAX_def)+
  have "list_all2 (\<lambda>c (s, r). prints A (ps c) s \<and> prints A (pv c) r) (map ct_addr ks) ?es"
    by (rule list_all2_kids) (use assms(4) in auto)
  from object_entries_prints [OF this _ _ room]
  have "object_entries ps pv fmt ?d (map ct_addr ks) ?len = Some (Some (?es, ?len + osum fmt ?d ?es))
     \<or> refuses A \<and> object_entries ps pv fmt ?d (map ct_addr ks) ?len = Some None" using assms(3) by auto
  moreover let ?t = "''{'' @ (if fmt then [CHR 0x0A] else []) @ object_body fmt ?d ?es"
  have "prints A (put_new A (?len + osum fmt ?d ?es) ?t) ?t"
    using b(1) assms(3) by (intro put_new_prints) auto
  moreover have "\<not> A (int (length ks) * 8) \<Longrightarrow> refuses A" unfolding refuses_def by (intro exI [of _ "int (length ks) * 8"]) simp
  ultimately show ?thesis using items_kids [OF assms(1,2)] False c
    unfolding print_object_new_def prints_def by (elim disjE conjE) (simp_all split: if_split)
qed

lemma printable_cases:
  assumes "printable (CT a nd v nm ks)"
  obtains "cj_type nd AND 255 = cJSON_NULL" | "cj_type nd AND 255 = cJSON_False" | "cj_type nd AND 255 = cJSON_True"
  | "cj_type nd AND 255 = cJSON_Number" "ieee (cj_valuedouble nd)" "INT_MIN \<le> cj_valueint nd" "cj_valueint nd \<le> INT_MAX"
  | "cj_type nd AND 255 = cJSON_String" "c_text v"
  | "cj_type nd AND 255 = cJSON_Array" "\<And>k. k \<in> set ks \<Longrightarrow> printable k"
  | "cj_type nd AND 255 = cJSON_Object" "\<And>k. k \<in> set ks \<Longrightarrow> printable k" "\<And>k. k \<in> set ks \<Longrightarrow> c_text (ct_name k)"
  using assms by (simp add: Let_def split: if_splits) blast+

lemma print_value_new_prints:
  "tree_at h t \<Longrightarrow> printable t \<Longrightarrow> span [t] \<le> n \<Longrightarrow> cj_bounded h \<Longrightarrow> 0 \<le> depth \<Longrightarrow>
   depth + int (length (cj_text fmt depth t)) \<le> text_limit \<Longrightarrow>
   prints A (print_value_new n A h depth fmt (ct_addr t)) (cj_text fmt depth t)"
proof (induction n arbitrary: t depth)
  case 0
  then show ?case by (cases t) auto
next
  case (Suc n)
  obtain a nd v nm ks where t: "t = CT a nd v nm ks" by (cases t)
  have at: "ch_node h a = Some nd" "str_at h (cj_valuestring nd) = Some v" "forest h (cj_child nd) ks"
    using Suc.prems(1) by (simp_all add: tree_at_def t)
  have kid: "k \<in> set ks \<Longrightarrow> tree_at h k \<and> span [k] \<le> n" for k
    using forest_trees [OF at(3)] span_member [of k ks] Suc.prems(3) by (auto simp: t)
  show ?case
  proof (rule printable_cases [OF Suc.prems(2) [unfolded t]])
    assume num: "cj_type nd AND 255 = cJSON_Number" "ieee (cj_valuedouble nd)" "INT_MIN \<le> cj_valueint nd" "cj_valueint nd \<le> INT_MAX"
    obtain m s where ms: "number_text nd = (m, s)" by force
    with number_text_fits [OF num(2-)] have "int (length s) + 1 \<le> m" by simp
    then show ?thesis using at num(1) ms put_new_prints [of s m A] by (simp add: t c_eval print_number_new_def)
  next
    assume s: "cj_type nd AND 255 = cJSON_String" "c_text v"
    then have "int (length (quoted (the v))) \<le> text_limit" using Suc.prems(5,6) by (simp add: t Let_def c_eval)
    then show ?thesis using at s print_string_new_prints [OF at(2) s(2)] by (simp add: t c_eval)
  next
    assume arr: "cj_type nd AND 255 = cJSON_Array" "\<And>k. k \<in> set ks \<Longrightarrow> printable k"
    have "prints A (print_value_new n A h (depth + 1) fmt (ct_addr k)) (cj_text fmt (depth + 1) k)" if "k \<in> set ks" for k
      using array_room [OF arr(1) that, of depth fmt a v nm] kid [OF that] arr(2) [OF that] Suc.prems(4-6)
      by (intro Suc.IH) (auto simp: t)
    moreover have "int (length (array_body fmt (map (cj_text fmt (depth + 1)) ks))) \<le> text_limit" if "ks \<noteq> []"
      using Suc.prems(5,6) arr(1) that by (simp add: t Let_def c_eval)
    ultimately show ?thesis using at arr(1) print_array_new_prints [OF Suc.prems(4) at(3) Suc.prems(5)]
      by (simp add: t Let_def c_eval)
  next
    assume obj: "cj_type nd AND 255 = cJSON_Object" "\<And>k. k \<in> set ks \<Longrightarrow> printable k" "\<And>k. k \<in> set ks \<Longrightarrow> c_text (ct_name k)"
    let ?ps = "\<lambda>c. do { k \<leftarrow> ch_node h c; print_string_new A h (cj_string k) }"
    have "prints A (?ps (ct_addr k)) (quoted (the (ct_name k)))
        \<and> prints A (print_value_new n A h (depth + 1) fmt (ct_addr k)) (cj_text fmt (depth + 1) k)" if "k \<in> set ks" for k
    proof
      note room = object_room [OF obj(1) that, of depth fmt a v nm] Suc.prems(5,6)
      have "str_at h (cj_string (ct_node k)) = Some (ct_name k)" "ch_node h (ct_addr k) = Some (ct_node k)"
        using kid [OF that] by (simp_all add: tree_at_def)
      then show "prints A (?ps (ct_addr k)) (quoted (the (ct_name k)))"
        using print_string_new_prints [OF _ obj(3) [OF that], of h _ A] room by (simp add: t)
      show "prints A (print_value_new n A h (depth + 1) fmt (ct_addr k)) (cj_text fmt (depth + 1) k)"
        using room kid [OF that] obj(2) [OF that] Suc.prems(4) by (intro Suc.IH) (auto simp: t)
    qed
    moreover have "int (length (object_body fmt (depth + 1) (map (\<lambda>k. (quoted (the (ct_name k)), cj_text fmt (depth + 1) k)) ks)))
        \<le> text_limit" if "ks \<noteq> []"
      using Suc.prems(5,6) obj(1) that by (simp add: t Let_def c_eval)
    moreover have "depth \<le> text_limit" using Suc.prems(6) by simp
    ultimately show ?thesis
      using at obj(1) print_object_new_prints [OF Suc.prems(4) at(3) Suc.prems(5), of A ?ps "\<lambda>k. quoted (the (ct_name k))"]
      by (simp add: t Let_def c_eval)
  qed (use at in \<open>simp_all add: t c_eval strdup_new_def put_new_prints\<close>)
qed

section \<open>Printing to a buffer\<close>

definition refused :: "allocator \<Rightarrow> (int option \<times> printbuffer) option \<Rightarrow> bool" where
  "refused A r \<longleftrightarrow> refuses A \<and> (\<exists>p. r = Some (None, p) \<and> dead p)"

definition writes :: "allocator \<Rightarrow> string \<Rightarrow> (int option \<times> printbuffer) option \<Rightarrow> string \<Rightarrow> bool" where
  "writes A t r s \<longleftrightarrow> (\<exists>p. r = Some (Some (int (length t)), p) \<and> ends p t s) \<or> refused A r"

text \<open>\<open>writer A D w s\<close>: the writer \<open>w\<close> puts \<open>s\<close> behind the text of the buffer, given room for it and \<open>D\<close> more.\<close>

definition writer :: "allocator \<Rightarrow> int \<Rightarrow> (printbuffer \<Rightarrow> (int option \<times> printbuffer) option) \<Rightarrow> string \<Rightarrow> bool" where
  "writer A D w s \<longleftrightarrow> (\<forall>p t. holds p t \<longrightarrow> int (length t) + D + int (length s) \<le> text_limit \<longrightarrow> writes A t (w p) s)"

lemma ends_extend: "ends p (t @ u) s \<Longrightarrow> ends p t (u @ s)"
  unfolding ends_def by (elim exE conjE) (intro exI conjI, auto)

lemma put_buf_writes:
  assumes "holds p t" "int (length s) + 1 \<le> needed" "int (length t) + needed \<le> 2 ^ 30"
  shows "writes A t (put_buf A needed s p) s"
  using put_buf_holds [OF assms, of A] by (auto simp: writes_def refused_def)

lemma add_buf_writes:
  assumes "holds p t" "int (length s) + (if terminate then 1 else 0) \<le> needed" "0 < needed" "int (length t) + needed \<le> 2 ^ 30"
    "\<And>p'. holds p' (t @ s) \<Longrightarrow> Q (k p')" "\<And>r. refused A r \<Longrightarrow> Q r"
  shows "Q (add_buf A needed s terminate p k)"
  using add_buf_holds [OF assms(1-4), of A k] assms(5,6) by (auto simp: refused_def)

text \<open>After a writer the offset moves behind its text, or the buffer is gone, which every continuation reports.\<close>

lemma writes_then:
  assumes "writes A t r s" "NUL \<notin> set s" "int (length t) + int (length s) \<le> text_limit"
    "\<And>p'. holds p' (t @ s) \<Longrightarrow> Q (k p')" "\<And>p'. refuses A \<Longrightarrow> dead p' \<Longrightarrow> Q (k p')"
  shows "Q (do { (x, p) \<leftarrow> r; p \<leftarrow> to_end p; k p })"
proof -
  have len: "int (length (t @ s)) \<le> 2 ^ 30" using assms(3) by (simp add: text_limit_def)
  from assms(1) show ?thesis unfolding writes_def
  proof
    assume "\<exists>p. r = Some (Some (int (length t)), p) \<and> ends p t s"
    then obtain p where "r = Some (Some (int (length t)), p)" "ends p t s" by blast
    with to_end_ends [OF _ assms(2) len, of p] assms(4) show ?thesis by auto
  next
    assume "refused A r"
    then obtain p where "refuses A" "r = Some (None, p)" "dead p" by (auto simp: refused_def)
    with to_end_dead [of p] assms(5) show ?thesis by auto
  qed
qed

lemma close_buf_writes:
  assumes "holds p (t @ u)" "int (length s) + 1 \<le> needed" "int (length (t @ u)) + needed \<le> 2 ^ 30"
  shows "writes A t (close_buf A needed s (int (length t)) p) (u @ s)"
  using put_buf_writes [OF assms, of A] ends_extend [of _ t u s]
  by (auto simp: writes_def refused_def close_buf_def)

lemma close_buf_dead: "refuses A \<Longrightarrow> dead p \<Longrightarrow> refused A (close_buf A needed s i p)"
  by (simp add: close_buf_def put_buf_dead refused_def)

lemma add_buf_refused: "refuses A \<Longrightarrow> dead p \<Longrightarrow> refused A (add_buf A needed s terminate p k)"
  by (simp add: add_buf_dead refused_def)

lemma writes_refused: "refused A r \<Longrightarrow> writes A t r s"
  by (simp add: writes_def)

lemma array_loop_writes:
  assumes "list_all2 (\<lambda>c e. writer A D (pv c) e \<and> NUL \<notin> set e) cs es" "0 \<le> D"
  shows "es \<noteq> [] \<Longrightarrow> holds p (t @ u) \<Longrightarrow> int (length (t @ u)) + D + int (length (array_body fmt es)) \<le> text_limit + 1 \<Longrightarrow>
     writes A t (array_loop_buf pv A fmt (close_buf A 2 '']'' (int (length t))) cs p) (u @ array_body fmt es)"
  using assms(1)
proof (induction cs es arbitrary: p u rule: list_all2_induct)
  case (Cons c cs e es)
  let ?k = "close_buf A 2 '']'' (int (length t))"
  have room: "int (length (t @ u)) + D + int (length e) \<le> text_limit"
    using Cons.prems(3) array_body_member [of e "e # es" fmt] by auto
  have em: "writes A (t @ u) (pv c p) e" and nul: "NUL \<notin> set e"
    using Cons.hyps(1) Cons.prems room assms(2) by (auto simp: writer_def)
  have len: "int (length (t @ u)) + int (length e) \<le> text_limit" using room assms(2) by simp
  have cs: "cs = [] \<longleftrightarrow> es = []" using Cons.hyps(2) by (auto dest: list_all2_lengthD)
  let ?sep = "if fmt then '', '' else '',''" and ?need = "if fmt then 3 else 2 :: int"
  let ?go = "\<lambda>p. if cs = [] then array_loop_buf pv A fmt ?k cs p else add_buf A ?need ?sep True p (array_loop_buf pv A fmt ?k cs)"
  have "writes A t (do { (x, p) \<leftarrow> pv c p; p \<leftarrow> to_end p; ?go p }) (u @ array_body fmt (e # es))"
  proof (rule writes_then [OF em nul len])
    fix p' assume h: "holds p' ((t @ u) @ e)"
    show "writes A t (?go p') (u @ array_body fmt (e # es))"
    proof (cases "es = []")
      case True
      have "writes A t (?k p') ((u @ e) @ '']'')"
        using h len by (intro close_buf_writes) (simp_all add: text_limit_def)
      then show ?thesis using True cs by (simp add: array_body_Cons)
    next
      case False
      have "writes A t (add_buf A ?need ?sep True p' (array_loop_buf pv A fmt ?k cs)) (u @ array_body fmt (e # es))"
      proof (rule add_buf_writes [OF h])
        fix p'' assume "holds p'' (((t @ u) @ e) @ ?sep)"
        then show "writes A t (array_loop_buf pv A fmt ?k cs p'') (u @ array_body fmt (e # es))"
          using Cons.IH [of p'' "u @ e @ ?sep"] False Cons.prems(3) by (simp add: array_body_Cons)
      qed (use Cons.prems(3) assms(2) False in \<open>auto simp: text_limit_def array_body_Cons writes_refused split: if_splits\<close>)
      then show ?thesis using False cs by simp
    qed
  next
    fix p' assume "refuses A" "dead p'"
    then show "writes A t (?go p') (u @ array_body fmt (e # es))"
      by (simp add: writes_refused close_buf_dead add_buf_refused)
  qed
  then show ?case unfolding array_loop_buf.simps .
qed simp

lemma object_loop_writes:
  assumes "list_all2 (\<lambda>c (s, r). writer A 0 (ps c) s \<and> NUL \<notin> set s \<and> writer A D (pv c) r \<and> NUL \<notin> set r) cs es"
    "0 < D" "D \<le> text_limit"
  shows "holds p (t @ u) \<Longrightarrow> int (length (t @ u)) + D + int (length (object_body fmt D es)) \<le> text_limit + 1 \<Longrightarrow>
     writes A t (object_loop_buf ps pv A D fmt
        (close_buf A (if fmt then D + 1 else 2) ((if fmt then tabs (D - 1) else []) @ ''}'') (int (length t))) cs p)
       (u @ object_body fmt D es)"
  using assms(1)
proof (induction cs es arbitrary: p u rule: list_all2_induct)
  case Nil
  let ?s = "(if fmt then tabs (D - 1) else []) @ ''}''"
  have "int (length ?s) + 1 \<le> (if fmt then D + 1 else 2)" using assms(2) by simp
  moreover have "int (length (t @ u)) + (if fmt then D + 1 else 2) \<le> 2 ^ 30" using Nil.prems assms(2) by (auto simp: text_limit_def)
  ultimately show ?case using close_buf_writes [OF Nil.prems(1), of ?s] by simp
next
  case (Cons c cs e es)
  obtain s r where e: "e = (s, r)" by (cases e)
  let ?k = "close_buf A (if fmt then D + 1 else 2) ((if fmt then tabs (D - 1) else []) @ ''}'') (int (length t))"
  have hyp: "writer A 0 (ps c) s" "NUL \<notin> set s" "writer A D (pv c) r" "NUL \<notin> set r" using Cons.hyps(1) by (simp_all add: e)
  have cs: "cs = [] \<longleftrightarrow> es = []" using Cons.hyps(2) by (auto dest: list_all2_lengthD)
  let ?tab = "if fmt then tabs D else []" and ?col = "'':'' @ (if fmt then [CHR 0x09] else [])"
  let ?sep = "(if cs = [] then [] else '','') @ (if fmt then [CHR 0x0A] else [])"
  have body: "object_body fmt D (e # es) = ?tab @ s @ ?col @ r @ ?sep @ object_body fmt D es" by (simp add: e cs)
  have room: "int (length (t @ u)) + D + int (length (?tab @ s @ ?col @ r @ ?sep @ object_body fmt D es)) \<le> text_limit + 1"
    using Cons.prems(2) unfolding body .
  have "1 \<le> int (length (object_body fmt D es))" by (cases es) auto
  then have room3: "int (length (t @ u @ ?tab @ s @ ?col)) + D + int (length r) \<le> text_limit"
    using room unfolding length_append of_nat_add by linarith
  let ?Q = "\<lambda>x. writes A t x (u @ object_body fmt D (e # es))"
  let ?k3 = "\<lambda>p. do { (x, p) \<leftarrow> pv c p; p \<leftarrow> to_end p;
     add_buf A (int (length ?sep) + 1) ?sep True p (object_loop_buf ps pv A D fmt ?k cs) }"
  let ?k2 = "\<lambda>p. do { (x, p) \<leftarrow> ps c p; p \<leftarrow> to_end p; add_buf A (if fmt then 2 else 1) ?col False p ?k3 }"
  have q3: "?Q (?k3 p')" if h: "holds p' (t @ u @ ?tab @ s @ ?col)" for p'
  proof (rule writes_then [where t = "t @ u @ ?tab @ s @ ?col" and s = r])
    show "writes A (t @ u @ ?tab @ s @ ?col) (pv c p') r"
      using hyp(3) h room3 unfolding writer_def by blast
    show "int (length (t @ u @ ?tab @ s @ ?col)) + int (length r) \<le> text_limit" using room3 assms(2) by linarith
    fix p'' assume "holds p'' ((t @ u @ ?tab @ s @ ?col) @ r)"
    then show "?Q (add_buf A (int (length ?sep) + 1) ?sep True p'' (object_loop_buf ps pv A D fmt ?k cs))"
    proof (rule add_buf_writes)
      fix p3 assume h3: "holds p3 (((t @ u @ ?tab @ s @ ?col) @ r) @ ?sep)"
      have "writes A t (object_loop_buf ps pv A D fmt ?k cs p3) ((u @ ?tab @ s @ ?col @ r @ ?sep) @ object_body fmt D es)"
        by (rule Cons.IH) (use h3 room in simp_all)
      then show "?Q (object_loop_buf ps pv A D fmt ?k cs p3)" unfolding body by simp
    qed (use room assms(2) in \<open>auto simp: text_limit_def writes_refused\<close>)
  qed (use hyp in \<open>auto simp: writes_refused add_buf_refused\<close>)
  have q2: "?Q (?k2 p')" if h: "holds p' (t @ u @ ?tab)" for p'
  proof (rule writes_then [where t = "t @ u @ ?tab" and s = s])
    show "writes A (t @ u @ ?tab) (ps c p') s" using hyp(1) h room assms(2) by (simp add: writer_def)
    show "int (length (t @ u @ ?tab)) + int (length s) \<le> text_limit" using room assms(2) by simp
    fix p'' assume "holds p'' ((t @ u @ ?tab) @ s)"
    then show "?Q (add_buf A (if fmt then 2 else 1) ?col False p'' ?k3)"
    proof (rule add_buf_writes)
      fix p3 assume "holds p3 (((t @ u @ ?tab) @ s) @ ?col)"
      then show "?Q (?k3 p3)" by (intro q3) simp
    qed (use room assms(2) in \<open>auto simp: text_limit_def writes_refused\<close>)
  qed (use hyp in \<open>auto simp: writes_refused add_buf_refused\<close>)
  have "?Q ((if fmt then add_buf A D (tabs D) False p else (\<lambda>k. k p)) ?k2)"
  proof (cases fmt)
    case True
    have "?Q (add_buf A D (tabs D) False p ?k2)"
    proof (rule add_buf_writes [OF Cons.prems(1)])
      fix p' assume "holds p' ((t @ u) @ tabs D)"
      then show "?Q (?k2 p')" using True by (intro q2) simp
    qed (use room assms(2) True in \<open>auto simp: text_limit_def writes_refused\<close>)
    then show ?thesis using True by simp
  next
    case False
    then show ?thesis using q2 [of p] Cons.prems(1) by simp
  qed
  then show ?case unfolding object_loop_buf.simps Let_def .
qed

lemma tabs_NUL [simp]: "NUL \<notin> set (tabs n)"
  by (simp add: tabs_def NUL_def)

lemma array_body_NUL: "(\<And>e. e \<in> set es \<Longrightarrow> NUL \<notin> set e) \<Longrightarrow> NUL \<notin> set (array_body fmt es)"
  by (induction es) (auto simp: array_body_Cons NUL_def)

lemma object_body_NUL:
  "(\<And>s r. (s, r) \<in> set es \<Longrightarrow> NUL \<notin> set s \<and> NUL \<notin> set r) \<Longrightarrow> NUL \<notin> set (object_body fmt d es)"
proof (induction fmt d es rule: object_body.induct)
  case (1 fmt depth)
  then show ?case using tabs_NUL by (simp add: NUL_def)
next
  case (2 fmt depth s r es)
  then have "NUL \<notin> set (object_body fmt depth es)" "NUL \<notin> set s" "NUL \<notin> set r" by auto
  then show ?case using tabs_NUL by (simp add: NUL_def)
qed

lemma cj_text_NUL: "printable t \<Longrightarrow> NUL \<notin> set (cj_text fmt depth t)"
proof (induction t arbitrary: depth)
  case (CT a nd v nm ks)
  show ?case
  proof (rule printable_cases [OF CT.prems])
    assume num: "cj_type nd AND 255 = cJSON_Number" "ieee (cj_valuedouble nd)" "INT_MIN \<le> cj_valueint nd" "cj_valueint nd \<le> INT_MAX"
    with number_text_fits [OF num(2-)] show ?thesis by (simp add: c_eval split: prod.splits)
  next
    assume "cj_type nd AND 255 = cJSON_String" "c_text v"
    then show ?thesis using quoted_NUL by (auto simp: c_eval c_text_def split: option.splits)
  next
    assume arr: "cj_type nd AND 255 = cJSON_Array" "\<And>k. k \<in> set ks \<Longrightarrow> printable k"
    have "NUL \<notin> set (array_body fmt (map (cj_text fmt (depth + 1)) ks))"
      by (rule array_body_NUL) (use arr CT.IH in auto)
    then show ?thesis using arr(1) by (simp add: Let_def c_eval)
  next
    assume obj: "cj_type nd AND 255 = cJSON_Object" "\<And>k. k \<in> set ks \<Longrightarrow> printable k" "\<And>k. k \<in> set ks \<Longrightarrow> c_text (ct_name k)"
    have "NUL \<notin> set (quoted (the (ct_name k)))" if "k \<in> set ks" for k
      using obj(3) [OF that] quoted_NUL by (auto simp: c_text_def split: option.splits)
    then have "NUL \<notin> set (object_body fmt (depth + 1) (map (\<lambda>k. (quoted (the (ct_name k)), cj_text fmt (depth + 1) k)) ks))"
      by (intro object_body_NUL) (use obj CT.IH in auto)
    then show ?thesis using obj(1) tabs_NUL by (simp add: Let_def c_eval empty_object_def)
  qed (simp_all add: c_eval)
qed

lemma print_string_buf_writer:
  assumes "str_at h p = Some v" "c_text v"
  shows "writer A 0 (print_string_buf A h p) (quoted (the v))"
  unfolding writer_def
proof (intro allI impI)
  fix b t assume b: "holds b t" "int (length t) + 0 + int (length (quoted (the v))) \<le> text_limit"
  obtain s where s: "v = Some s" "NUL \<notin> set s" using assms(2) by (auto simp: c_text_def split: option.splits)
  have "string_text (Some s) = Some (int (length (quoted s)) + 1, quoted s)"
    using b(2) s by (intro string_text_quoted) (auto simp: text_limit_def INT_MAX_def)
  then have "print_string_buf A h p b = put_buf A (int (length (quoted s)) + 1) (quoted s) b"
    using assms(1) s by (simp add: print_string_buf_def print_string_ptr_buf_def)
  then show "writes A t (print_string_buf A h p b) (quoted (the v))"
    using b put_buf_writes [OF b(1), of "quoted s" "int (length (quoted s)) + 1"] s by (simp add: text_limit_def)
qed

lemma print_array_buf_writes:
  assumes "cj_bounded h" "forest h child ks" "0 \<le> D"
    "\<And>k. k \<in> set ks \<Longrightarrow> writer A D (pv (ct_addr k)) (f k) \<and> NUL \<notin> set (f k)" "holds p t"
    "int (length t) + D + int (length (if ks = [] then ''[]'' else ''['' @ array_body fmt (map f ks))) \<le> text_limit + 1"
  shows "writes A t (print_array_buf pv A h child fmt p) (if ks = [] then ''[]'' else ''['' @ array_body fmt (map f ks))"
proof (cases "ks = []")
  case True
  then show ?thesis using items_kids [OF assms(1,2)] put_buf_writes [OF assms(5), of "''[]''" 3] assms(3,6)
    by (simp add: print_array_buf_def text_limit_def)
next
  case False
  let ?loop = "array_loop_buf pv A fmt (close_buf A 2 '']'' (int (length t))) (map ct_addr ks)"
  have L: "list_all2 (\<lambda>c e. writer A D (pv c) e \<and> NUL \<notin> set e) (map ct_addr ks) (map f ks)"
    by (rule list_all2_kids) (rule assms(4))
  have "writes A t (add_buf A 1 ''['' False p ?loop) (''['' @ array_body fmt (map f ks))"
  proof (rule add_buf_writes [OF assms(5)])
    fix p' assume h: "holds p' (t @ ''['')"
    show "writes A t (?loop p') (''['' @ array_body fmt (map f ks))"
      by (rule array_loop_writes [OF L assms(3) _ h]) (use False assms(6) in auto)
  qed (use assms(3,6) False in \<open>auto simp: text_limit_def writes_refused\<close>)
  moreover have "cb_offset p = int (length t)" using assms(5) by (auto simp: holds_def)
  ultimately show ?thesis using items_kids [OF assms(1,2)] False by (simp add: print_array_buf_def)
qed

lemma print_object_buf_writes:
  assumes "cj_bounded h" "forest h child ks" "0 \<le> depth"
    "\<And>k. k \<in> set ks \<Longrightarrow> writer A 0 (ps (ct_addr k)) (g k) \<and> NUL \<notin> set (g k)
        \<and> writer A (depth + 1) (pv (ct_addr k)) (f k) \<and> NUL \<notin> set (f k)" "holds p t"
    "int (length t) + depth + int (length (if ks = [] then empty_object fmt depth
       else ''{'' @ (if fmt then [CHR 0x0A] else []) @ object_body fmt (depth + 1) (map (\<lambda>k. (g k, f k)) ks))) \<le> text_limit"
  shows "writes A t (print_object_buf ps pv A h child depth fmt p)
     (if ks = [] then empty_object fmt depth
      else ''{'' @ (if fmt then [CHR 0x0A] else []) @ object_body fmt (depth + 1) (map (\<lambda>k. (g k, f k)) ks))"
proof (cases "ks = []")
  case True
  have "length (empty_object fmt depth) = (if fmt then 3 + nat (depth - 1) else 2)" by (simp add: empty_object_def tabs_def)
  then have "int (length (empty_object fmt depth)) + 1 \<le> (if fmt then depth + 4 else 3)" using assms(3) by auto
  moreover have "c_int (depth + 4) = Some (depth + 4)"
    using assms(3,6) by (intro c_int_Some) (auto simp: text_limit_def INT_MIN_def INT_MAX_def)
  moreover have "int (length t) + (if fmt then depth + 4 else 3) \<le> 2 ^ 30" using assms(3,6) by (auto simp: text_limit_def)
  ultimately show ?thesis using True items_kids [OF assms(1,2)] put_buf_writes [OF assms(5), of "empty_object fmt depth" _ A]
    by (cases fmt) (simp_all add: print_object_buf_def)
next
  case False
  let ?es = "map (\<lambda>k. (g k, f k)) ks" and ?d = "depth + 1" and ?open = "''{'' @ (if fmt then [CHR 0x0A] else [])"
  let ?close = "close_buf A (if fmt then ?d + 1 else 2) ((if fmt then tabs (?d - 1) else []) @ ''}'') (int (length t))"
  have L: "list_all2 (\<lambda>c (s, r). writer A 0 (ps c) s \<and> NUL \<notin> set s \<and> writer A ?d (pv c) r \<and> NUL \<notin> set r) (map ct_addr ks) ?es"
    by (rule list_all2_kids) (use assms(4) in auto)
  have d: "c_int ?d = Some ?d" "?d \<le> text_limit"
    using assms(3,6) False by (auto simp: text_limit_def INT_MIN_def INT_MAX_def c_int_def)
  let ?k = "\<lambda>p. do { depth \<leftarrow> c_int (depth + 1); object_loop_buf ps pv A depth fmt
     (close_buf A (if fmt then depth + 1 else 2) ((if fmt then tabs (depth - 1) else []) @ ''}'') (int (length t))) (map ct_addr ks) p }"
  have "writes A t (add_buf A (if fmt then 3 else 2) ?open True p ?k) (?open @ object_body fmt ?d ?es)"
  proof (rule add_buf_writes [OF assms(5)])
    fix p' assume h: "holds p' (t @ ?open)"
    have "writes A t (object_loop_buf ps pv A ?d fmt ?close (map ct_addr ks) p') (?open @ object_body fmt ?d ?es)"
      by (rule object_loop_writes [OF L _ d(2) h]) (use assms(3,6) False in \<open>auto split: if_splits\<close>)
    then show "writes A t (?k p') (?open @ object_body fmt ?d ?es)" using d(1) by simp
  qed (use assms(3,6) False in \<open>auto simp: text_limit_def writes_refused\<close>)
  moreover have "cb_offset p = int (length t)" using assms(5) by (auto simp: holds_def)
  ultimately show ?thesis using items_kids [OF assms(1,2)] False by (simp add: print_object_buf_def)
qed

lemma print_value_buf_writer:
  "tree_at h t \<Longrightarrow> printable t \<Longrightarrow> span [t] \<le> n \<Longrightarrow> cj_bounded h \<Longrightarrow> 0 \<le> depth \<Longrightarrow>
   writer A depth (print_value_buf n A h depth fmt (ct_addr t)) (cj_text fmt depth t)"
proof (induction n arbitrary: t depth)
  case 0
  then show ?case by (cases t) auto
next
  case (Suc n)
  obtain a nd v nm ks where t: "t = CT a nd v nm ks" by (cases t)
  have at: "ch_node h a = Some nd" "str_at h (cj_valuestring nd) = Some v" "forest h (cj_child nd) ks"
    using Suc.prems(1) by (simp_all add: tree_at_def t)
  have kid: "k \<in> set ks \<Longrightarrow> tree_at h k \<and> span [k] \<le> n" for k
    using forest_trees [OF at(3)] span_member [of k ks] Suc.prems(3) by (auto simp: t)
  have sub: "writer A (depth + 1) (print_value_buf n A h (depth + 1) fmt (ct_addr k)) (cj_text fmt (depth + 1) k)
      \<and> NUL \<notin> set (cj_text fmt (depth + 1) k)" if "k \<in> set ks" "printable k" for k
    using Suc.IH [of k "depth + 1"] kid [OF that(1)] that(2) Suc.prems(4,5) cj_text_NUL by auto
  show ?case unfolding writer_def
  proof (intro allI impI)
    fix p u assume h: "holds p u" and room: "int (length u) + depth + int (length (cj_text fmt depth t)) \<le> text_limit"
    show "writes A u (print_value_buf (Suc n) A h depth fmt (ct_addr t) p) (cj_text fmt depth t)"
    proof (rule printable_cases [OF Suc.prems(2) [unfolded t]])
      assume num: "cj_type nd AND 255 = cJSON_Number" "ieee (cj_valuedouble nd)" "INT_MIN \<le> cj_valueint nd" "cj_valueint nd \<le> INT_MAX"
      obtain m s where ms: "number_text nd = (m, s)" by force
      with number_text_fits [OF num(2-)] have "int (length s) + 1 \<le> m" "m \<le> 64" by simp_all
      then show ?thesis using at num(1) ms put_buf_writes [OF h, of s m] room Suc.prems(5)
        by (simp add: t c_eval print_number_buf_def text_limit_def)
    next
      assume s: "cj_type nd AND 255 = cJSON_String" "c_text v"
      then show ?thesis using at s print_string_buf_writer [OF at(2) s(2), of A] h room Suc.prems(5)
        by (auto simp: t c_eval writer_def)
    next
      assume arr: "cj_type nd AND 255 = cJSON_Array" "\<And>k. k \<in> set ks \<Longrightarrow> printable k"
      show ?thesis
        using print_array_buf_writes [OF Suc.prems(4) at(3) _ _ h, of "depth + 1" A "print_value_buf n A h (depth + 1) fmt"
            "cj_text fmt (depth + 1)" fmt] sub arr at(1) room Suc.prems(5)
        by (simp add: t Let_def c_eval)
    next
      assume obj: "cj_type nd AND 255 = cJSON_Object" "\<And>k. k \<in> set ks \<Longrightarrow> printable k" "\<And>k. k \<in> set ks \<Longrightarrow> c_text (ct_name k)"
      let ?ps = "\<lambda>c p. do { k \<leftarrow> ch_node h c; print_string_buf A h (cj_string k) p }"
      have "writer A 0 (?ps (ct_addr k)) (quoted (the (ct_name k))) \<and> NUL \<notin> set (quoted (the (ct_name k)))" if "k \<in> set ks" for k
      proof -
        have k: "str_at h (cj_string (ct_node k)) = Some (ct_name k)" "ch_node h (ct_addr k) = Some (ct_node k)"
          using kid [OF that] by (simp_all add: tree_at_def)
        have "?ps (ct_addr k) = print_string_buf A h (cj_string (ct_node k))" using k(2) by (simp add: fun_eq_iff)
        moreover have "NUL \<notin> set (quoted (the (ct_name k)))"
          using obj(3) [OF that] quoted_NUL by (auto simp: c_text_def split: option.splits)
        ultimately show ?thesis using print_string_buf_writer [OF k(1) obj(3) [OF that]] by simp
      qed
      with sub obj(2) show ?thesis
        using print_object_buf_writes [OF Suc.prems(4) at(3) Suc.prems(5) _ h, of A ?ps "\<lambda>k. quoted (the (ct_name k))"
            "print_value_buf n A h (depth + 1) fmt" "cj_text fmt (depth + 1)" fmt] obj(1) at(1) room
        by (simp add: t Let_def c_eval)
    qed (use at room Suc.prems(5) put_buf_writes [OF h] in \<open>simp_all add: t c_eval text_limit_def\<close>)
  qed
qed

lemma print_value_buf_dead:
  assumes "tree_at h t" "printable t" "cj_bounded h" "0 \<le> depth" "depth + int (length (cj_text fmt depth t)) \<le> text_limit" "dead p"
  shows "print_value_buf (Suc n) A h depth fmt (ct_addr t) p = Some (None, p)"
proof -
  obtain a nd v nm ks where t: "t = CT a nd v nm ks" by (cases t)
  have at: "ch_node h a = Some nd" "str_at h (cj_valuestring nd) = Some v" "forest h (cj_child nd) ks"
    using assms(1) by (simp_all add: tree_at_def t)
  note dead = put_buf_dead [OF assms(6)] add_buf_dead [OF assms(6)] items_kids [OF assms(3) at(3)]
  show ?thesis
  proof (rule printable_cases [OF assms(2) [unfolded t]])
    assume s: "cj_type nd AND 255 = cJSON_String" "c_text v"
    then obtain x where x: "v = Some x" "NUL \<notin> set x" by (auto simp: c_text_def split: option.splits)
    have "string_text (Some x) = Some (int (length (quoted x)) + 1, quoted x)"
      using assms(4,5) s(1) x by (intro string_text_quoted) (auto simp: t c_eval text_limit_def INT_MAX_def)
    then show ?thesis using at s(1) x dead
      by (simp add: t c_eval print_string_buf_def print_string_ptr_buf_def)
  next
    assume "cj_type nd AND 255 = cJSON_Object"
    moreover have "c_int (depth + 4) = Some (depth + 4)"
      using assms(4,5) by (intro c_int_Some) (auto simp: text_limit_def INT_MIN_def INT_MAX_def)
    ultimately show ?thesis using at dead by (simp add: t c_eval print_object_buf_def)
  qed (use at dead in \<open>auto simp: t c_eval print_number_buf_def print_array_buf_def split: prod.splits\<close>)
qed

section \<open>Properties\<close>

lemma root_facts:
  assumes "cj_bounded h" "forest h (Some a) (t # ts)"
  shows "ct_addr t = a" "tree_at h t" "span [t] \<le> cj_fuel h"
proof -
  show "ct_addr t = a" using assms(2) by (cases t) auto
  show "tree_at h t" using forest_trees [OF assms(2)] by simp
  show "span [t] \<le> cj_fuel h" using forest_fuel [OF assms] span_member [of t "t # ts"] by simp
qed

lemma print_root_prints:
  assumes "cj_bounded h" "forest h (Some a) (t # ts)" "printable t" "int (length (cj_text fmt 0 t)) \<le> text_limit"
  shows "prints A (print_root A h (Some a) fmt) (cj_text fmt 0 t)"
  using print_value_new_prints [OF root_facts(2) [OF assms(1,2)] assms(3) root_facts(3) [OF assms(1,2)] assms(1), of 0]
    root_facts(1) [OF assms(1,2)] assms(4) by (simp add: print_root_def)

lemma PrintBuffered_prints:
  assumes "cj_bounded h" "forest h (Some a) (t # ts)" "printable t" "int (length (cj_text (fmt \<noteq> 0) 0 t)) \<le> text_limit"
    "0 \<le> prebuffer"
  shows "prints A (cJSON_PrintBuffered A h (Some a) prebuffer fmt) (cj_text (fmt \<noteq> 0) 0 t)"
proof -
  let ?p = "\<lparr>cb_buffer = (if prebuffer < 0 \<or> \<not> A prebuffer then None else Some (replicate (nat prebuffer) None)),
    cb_length = prebuffer, cb_offset = 0\<rparr>"
  let ?s = "cj_text (fmt \<noteq> 0) 0 t" and ?r = "print_value_buf (cj_fuel h) A h 0 (fmt \<noteq> 0) a ?p"
  have eq: "cJSON_PrintBuffered A h (Some a) prebuffer fmt = do { r \<leftarrow> ?r; text_at r }"
    by (simp add: cJSON_PrintBuffered_def Let_def)
  have w: "writer A 0 (print_value_buf (cj_fuel h) A h 0 (fmt \<noteq> 0) a) ?s"
    using print_value_buf_writer [OF root_facts(2) [OF assms(1,2)] assms(3) root_facts(3) [OF assms(1,2)] assms(1), of 0]
      root_facts(1) [OF assms(1,2)] by simp
  show ?thesis
  proof (cases "A prebuffer")
    case True
    then have "holds ?p []" using assms(5) by (simp add: holds_def)
    with w assms(4) have "writes A [] ?r ?s" by (simp add: writer_def)
    then show ?thesis unfolding writes_def
    proof
      assume "\<exists>p. ?r = Some (Some (int (length [])), p) \<and> ends p [] ?s"
      then obtain p rest where p: "?r = Some (Some 0, p)" "cb_buffer p = Some (map Some (?s @ [NUL]) @ rest)"
        by (auto simp: ends_def)
      have "c_string (map Some ?s @ Some NUL # rest) = Some ?s" by (rule c_string_text [OF cj_text_NUL [OF assms(3)]])
      then show ?thesis unfolding eq p(1) using p(2) by (simp add: text_at_def prints_def)
    next
      assume "refused A ?r"
      then obtain p where "refuses A" "?r = Some (None, p)" by (auto simp: refused_def)
      then show ?thesis unfolding eq by (simp add: text_at_def prints_def)
    qed
  next
    case False
    then have ref: "refuses A" using assms(5) by (auto simp: refuses_def)
    have "dead ?p" using False by (simp add: dead_def)
    then have "?r = Some (None, ?p)"
      using print_value_buf_dead [OF root_facts(2) [OF assms(1,2)] assms(3,1), of 0 "fmt \<noteq> 0" ?p "ch_top h" A]
        root_facts(1) [OF assms(1,2)] assms(4) by (simp add: cj_fuel_def)
    then show ?thesis unfolding eq using ref by (simp add: text_at_def prints_def)
  qed
qed

text \<open>C12: On every printable tree, formatted or not, with or without a buffer and for every size of the buffer to begin
  with, the printers return the text of the tree, or \<^verbatim>\<open>NULL\<close> when the allocator refuses some size. In particular no
  block or buffer is written past its end.\<close>

theorem cJSON_print_correct:
  assumes "cj_bounded h" "forest h (Some a) (t # ts)" "printable t" "0 \<le> prebuffer"
    "int (length (cj_text True 0 t)) \<le> text_limit" "int (length (cj_text False 0 t)) \<le> text_limit"
  shows "prints A (cJSON_Print A h (Some a)) (cj_text True 0 t)
    \<and> prints A (cJSON_PrintUnformatted A h (Some a)) (cj_text False 0 t)
    \<and> prints A (cJSON_PrintBuffered A h (Some a) prebuffer fmt) (cj_text (fmt \<noteq> 0) 0 t)"
proof -
  have "int (length (cj_text (fmt \<noteq> 0) 0 t)) \<le> text_limit" using assms(5,6) by (cases "fmt = 0") auto
  from PrintBuffered_prints [OF assms(1-3) this assms(4)] print_root_prints [OF assms(1-3), of True]
    print_root_prints [OF assms(1-3), of False] assms(5,6)
  show ?thesis unfolding cJSON_Print_def cJSON_PrintUnformatted_def by blast
qed

text \<open>The printed tree of the heap \<open>sample_tree\<close>.\<close>

definition sample_printed :: ctree where
  "sample_printed = CT 0 (the (ch_node sample_tree 0)) None None
     [CT 1 (the (ch_node sample_tree 1)) (Some ''v'') (Some ''a'') [],
      CT 2 (the (ch_node sample_tree 2)) None (Some ''b'') [CT 3 (the (ch_node sample_tree 3)) None None []]]"

lemma sample_printed_facts:
  "forest sample_tree (Some 0) [sample_printed, CT 4 (the (ch_node sample_tree 4)) None None []]"
  "printable sample_printed" "length (cj_text True 0 sample_printed) \<le> 30" "length (cj_text False 0 sample_printed) = 20"
  by (simp add: sample_printed_def sample_tree_def sample_item_def str_at_def) code_simp+

lemma cJSON_print_correct_witness:
  "cJSON_Print (\<lambda>_. True) sample_tree (Some 0) = Some (Some (cj_text True 0 sample_printed))
   \<and> cJSON_PrintBuffered (\<lambda>_. True) sample_tree (Some 0) 3 1 = Some (Some (cj_text True 0 sample_printed))"
  using cJSON_print_correct [OF sample_tree_bounded sample_printed_facts(1,2), of 3 "\<lambda>_. True" 1] sample_printed_facts(3,4)
  by (auto simp: prints_def refuses_def text_limit_def)



text \<open>An item that is not of a known type makes \<^verbatim>\<open>cJSON_Print\<close> return \<^verbatim>\<open>NULL\<close>, but \<^verbatim>\<open>cJSON_PrintBuffered\<close> read memory
  that was never written; and a string item without a text makes both read through a null pointer.\<close>

theorem cJSON_print_bad_items:
  "(let h = \<lparr>ch_node = [0 \<mapsto> sample_item None None (Some 1) cJSON_Array, 1 \<mapsto> sample_item None None None 7,
                      2 \<mapsto> sample_item None None None cJSON_String], ch_str = Map.empty, ch_top = 3\<rparr>
    in (cJSON_Print (\<lambda>_. True) h (Some 0), cJSON_PrintBuffered (\<lambda>_. True) h (Some 0) 16 1,
        cJSON_Print (\<lambda>_. True) h (Some 2), cJSON_PrintBuffered (\<lambda>_. True) h (Some 2) 16 1))
   = (Some None, None, None, None)"
  by code_simp

end
