(* ===== verification/MinHeap.thy ===== *)
theory MinHeap
  imports CLib "HOL-Library.Multiset"
begin

text \<open>
  The queue of timeouts of libevent, \<^verbatim>\<open>src/libevent/minheap-internal.h\<close>: a binary heap of pointers to events, ordered
  by their timeouts. Every event keeps its position in the heap, by which it can be removed from the middle. Unsigned
  arithmetic is modulo \<open>2 ^ 32\<close>; an access outside the array, to an element that was never written or to an event that
  does not exist is a fault.
\<close>

section \<open>Events and their timeouts\<close>

datatype timeval = Timeval (tv_sec: int) (tv_usec: int)

text \<open>\<^verbatim>\<open>evutil_timercmp\<close> with the relational operator as an argument.\<close>

definition evutil_timercmp :: "timeval \<Rightarrow> timeval \<Rightarrow> (int \<Rightarrow> int \<Rightarrow> bool) \<Rightarrow> bool" where
  "evutil_timercmp tvp uvp cmp =
     (if tv_sec tvp = tv_sec uvp then cmp (tv_usec tvp) (tv_usec uvp) else cmp (tv_sec tvp) (tv_sec uvp))"

text \<open>Timeouts in the order that the heap maintains.\<close>

instantiation timeval :: linorder
begin

definition less_eq_timeval :: "timeval \<Rightarrow> timeval \<Rightarrow> bool" where
  "less_eq_timeval s t \<longleftrightarrow> tv_sec s < tv_sec t \<or> tv_sec s = tv_sec t \<and> tv_usec s \<le> tv_usec t"

definition less_timeval :: "timeval \<Rightarrow> timeval \<Rightarrow> bool" where
  "less_timeval s t \<longleftrightarrow> tv_sec s < tv_sec t \<or> tv_sec s = tv_sec t \<and> tv_usec s < tv_usec t"

instance
  by standard (auto simp: less_eq_timeval_def less_timeval_def timeval.expand)

end

lemma timercmp_greater: "evutil_timercmp s t (>) \<longleftrightarrow> s > t"
  by (auto simp: evutil_timercmp_def less_timeval_def)

text \<open>\<^verbatim>\<open>evutil_timeradd\<close> and \<^verbatim>\<open>evutil_timersub\<close>.\<close>

definition evutil_timeradd :: "timeval \<Rightarrow> timeval \<Rightarrow> timeval" where
  "evutil_timeradd tvp uvp =
     (let sec = tv_sec tvp + tv_sec uvp; usec = tv_usec tvp + tv_usec uvp
      in if usec \<ge> 1000000 then Timeval (sec + 1) (usec - 1000000) else Timeval sec usec)"

definition evutil_timersub :: "timeval \<Rightarrow> timeval \<Rightarrow> timeval" where
  "evutil_timersub tvp uvp =
     (let sec = tv_sec tvp - tv_sec uvp; usec = tv_usec tvp - tv_usec uvp
      in if usec < 0 then Timeval (sec - 1) (usec + 1000000) else Timeval sec usec)"

record event =
  ev_timeout :: timeval
  min_heap_idx :: int

record min_heap =
  mh_p :: "nat option list"
  mh_n :: nat
  mh_a :: nat

text \<open>The heap and the events it points to.\<close>

record mh_state =
  mh_heap :: min_heap
  mh_ev :: "nat \<Rightarrow> event option"

section \<open>Operations\<close>

definition u32_of :: "int \<Rightarrow> nat" where
  "u32_of x = nat (x mod 2 ^ 32)"

definition elem :: "mh_state \<Rightarrow> nat \<Rightarrow> nat option" where
  "elem s i = Option.bind (peek (mh_p (mh_heap s)) i) id"

text \<open>\<^verbatim>\<open>(s->p[i] = e)->ev_timeout_pos.min_heap_idx = i\<close>; the index is converted to \<^verbatim>\<open>int\<close>.\<close>

definition place :: "mh_state \<Rightarrow> nat \<Rightarrow> nat \<Rightarrow> mh_state option" where
  "place s i e = do {
     p \<leftarrow> poke (mh_p (mh_heap s)) i (Some e);
     ev \<leftarrow> mh_ev s e;
     Some (s\<lparr>mh_heap := (mh_heap s)\<lparr>mh_p := p\<rparr>,
            mh_ev := (mh_ev s)(e \<mapsto> ev\<lparr>min_heap_idx := (if int i < 2 ^ 31 then int i else int i - 2 ^ 32)\<rparr>)\<rparr>) }"

definition set_idx :: "mh_state \<Rightarrow> nat \<Rightarrow> int \<Rightarrow> mh_state option" where
  "set_idx s e i = do { ev \<leftarrow> mh_ev s e; Some (s\<lparr>mh_ev := (mh_ev s)(e \<mapsto> ev\<lparr>min_heap_idx := i\<rparr>)\<rparr>) }"

definition min_heap_elem_greater :: "mh_state \<Rightarrow> nat \<Rightarrow> nat \<Rightarrow> bool option" where
  "min_heap_elem_greater s a b = do {
     x \<leftarrow> mh_ev s a;
     y \<leftarrow> mh_ev s b;
     Some (evutil_timercmp (ev_timeout x) (ev_timeout y) (>)) }"

definition min_heap_ctor :: min_heap where
  "min_heap_ctor = \<lparr>mh_p = [], mh_n = 0, mh_a = 0\<rparr>"

text \<open>The freed array has no elements any more.\<close>

definition min_heap_dtor :: "mh_state \<Rightarrow> mh_state" where
  "min_heap_dtor s = s\<lparr>mh_heap := (mh_heap s)\<lparr>mh_p := []\<rparr>\<rparr>"

definition min_heap_elem_init :: "mh_state \<Rightarrow> nat \<Rightarrow> mh_state option" where
  "min_heap_elem_init s e = set_idx s e (- 1)"

definition min_heap_empty :: "mh_state \<Rightarrow> bool" where
  "min_heap_empty s \<longleftrightarrow> 0 = mh_n (mh_heap s)"

definition min_heap_size :: "mh_state \<Rightarrow> nat" where
  "min_heap_size s = mh_n (mh_heap s)"

definition min_heap_top :: "mh_state \<Rightarrow> nat option option" where
  "min_heap_top s = (if mh_n (mh_heap s) \<noteq> 0 then map_option Some (elem s 0) else Some None)"

text \<open>The array grows by doubling; \<open>A\<close> is the allocator behind \<^verbatim>\<open>mm_realloc\<close>. The result is \<open>0\<close> or \<open>-1\<close>.\<close>

definition min_heap_reserve :: "allocator \<Rightarrow> mh_state \<Rightarrow> nat \<Rightarrow> int \<times> mh_state" where
  "min_heap_reserve A s n =
     (let hp = mh_heap s
      in if mh_a hp < n
         then (let a = (if mh_a hp \<noteq> 0 then u32_of (int (mh_a hp) * 2) else 8);
                   a = (if a < n then n else a)
               in if \<not> A (int a * 8) then (- 1, s)
                  else (0, s\<lparr>mh_heap := hp\<lparr>mh_p := mh_p hp @ replicate (a - length (mh_p hp)) None, mh_a := a\<rparr>\<rparr>))
         else (0, s))"

function min_heap_shift_up :: "mh_state \<Rightarrow> nat \<Rightarrow> nat \<Rightarrow> mh_state option" where
  "min_heap_shift_up s hole_index e =
     (if hole_index = 0 then place s hole_index e
      else let parent = (hole_index - 1) div 2 in
        do {
          q \<leftarrow> elem s parent;
          g \<leftarrow> min_heap_elem_greater s q e;
          if g then do { s \<leftarrow> place s hole_index q; min_heap_shift_up s parent e }
          else place s hole_index e })"
  by pat_completeness auto
termination by (relation "measure (\<lambda>(s, i, e). i)") auto

declare min_heap_shift_up.simps [simp del]

text \<open>The loop of \<^verbatim>\<open>min_heap_shift_down_\<close>, with a fuel; every round moves the hole down.\<close>

fun shift_down_loop :: "nat \<Rightarrow> mh_state \<Rightarrow> nat \<Rightarrow> nat \<Rightarrow> mh_state option" where
  "shift_down_loop 0 s hole_index e = None"
| "shift_down_loop (Suc k) s hole_index e =
     (let min_child = u32_of (2 * (int hole_index + 1)); n = mh_n (mh_heap s)
      in if min_child \<le> n
         then do {
           g \<leftarrow> (if min_child = n then Some True
                else do { x \<leftarrow> elem s min_child; y \<leftarrow> elem s (min_child - 1); min_heap_elem_greater s x y });
           let min_child = (if g then min_child - 1 else min_child);
           c \<leftarrow> elem s min_child;
           g \<leftarrow> min_heap_elem_greater s e c;
           if \<not> g then place s hole_index e
           else do { s \<leftarrow> place s hole_index c; shift_down_loop k s min_child e } }
         else place s hole_index e)"

definition min_heap_shift_down :: "mh_state \<Rightarrow> nat \<Rightarrow> nat \<Rightarrow> mh_state option" where
  "min_heap_shift_down s hole_index e = shift_down_loop (Suc (mh_n (mh_heap s))) s hole_index e"

definition set_n :: "mh_state \<Rightarrow> nat \<Rightarrow> mh_state" where
  "set_n s n = s\<lparr>mh_heap := (mh_heap s)\<lparr>mh_n := n\<rparr>\<rparr>"

definition min_heap_push :: "allocator \<Rightarrow> mh_state \<Rightarrow> nat \<Rightarrow> (int \<times> mh_state) option" where
  "min_heap_push A s e =
     (case min_heap_reserve A s (u32_of (int (mh_n (mh_heap s)) + 1)) of
        (r, s) \<Rightarrow>
          if r \<noteq> 0 then Some (- 1, s)
          else do {
            let n = mh_n (mh_heap s);
            s \<leftarrow> min_heap_shift_up (set_n s (u32_of (int n + 1))) n e;
            Some (0, s) })"

definition min_heap_pop :: "mh_state \<Rightarrow> (nat option \<times> mh_state) option" where
  "min_heap_pop s =
     (if mh_n (mh_heap s) \<noteq> 0
      then do {
        e \<leftarrow> elem s 0;
        let s = set_n s (mh_n (mh_heap s) - 1);
        l \<leftarrow> elem s (mh_n (mh_heap s));
        s \<leftarrow> min_heap_shift_down s 0 l;
        s \<leftarrow> set_idx s e (- 1);
        Some (Some e, s) }
      else Some (None, s))"

definition min_heap_elt_is_top :: "mh_state \<Rightarrow> nat \<Rightarrow> bool option" where
  "min_heap_elt_is_top s e = map_option (\<lambda>ev. min_heap_idx ev = 0) (mh_ev s e)"

definition min_heap_erase :: "mh_state \<Rightarrow> nat \<Rightarrow> (int \<times> mh_state) option" where
  "min_heap_erase s e = do {
     ev \<leftarrow> mh_ev s e;
     let i = min_heap_idx ev;
     if i = - 1 then Some (- 1, s)
     else do {
       let s = set_n s (u32_of (int (mh_n (mh_heap s)) - 1));
       l \<leftarrow> elem s (mh_n (mh_heap s));
       up \<leftarrow> (if i > 0
             then do { q \<leftarrow> elem s (nat ((i - 1) div 2)); min_heap_elem_greater s q l }
             else Some False);
       s \<leftarrow> (if up then min_heap_shift_up s (u32_of i) l else min_heap_shift_down s (u32_of i) l);
       s \<leftarrow> set_idx s e (- 1);
       Some (0, s) } }"

section \<open>Heaps as lists\<close>

definition par :: "nat \<Rightarrow> nat" where "par i = (i - 1) div 2"

definition heap_ord :: "('e \<Rightarrow> 'k::linorder) \<Rightarrow> 'e list \<Rightarrow> bool" where
  "heap_ord K xs \<longleftrightarrow> (\<forall>i. 0 < i \<longrightarrow> i < length xs \<longrightarrow> K (xs ! par i) \<le> K (xs ! i))"

text \<open>A heap but for the element at \<open>h\<close>, which may be too small (\<open>up_ok\<close>) or too great (\<open>down_ok\<close>) for its place.\<close>

definition over_ok :: "('e \<Rightarrow> 'k::linorder) \<Rightarrow> 'e list \<Rightarrow> nat \<Rightarrow> bool" where
  "over_ok K xs h \<longleftrightarrow> (\<forall>i. 0 < i \<longrightarrow> i < length xs \<longrightarrow> par i = h \<longrightarrow> 0 < h \<longrightarrow> K (xs ! par h) \<le> K (xs ! i))"

definition up_ok :: "('e \<Rightarrow> 'k::linorder) \<Rightarrow> 'e list \<Rightarrow> nat \<Rightarrow> bool" where
  "up_ok K xs h \<longleftrightarrow> (\<forall>i. 0 < i \<longrightarrow> i < length xs \<longrightarrow> i \<noteq> h \<longrightarrow> K (xs ! par i) \<le> K (xs ! i)) \<and> over_ok K xs h"

definition down_ok :: "('e \<Rightarrow> 'k::linorder) \<Rightarrow> 'e list \<Rightarrow> nat \<Rightarrow> bool" where
  "down_ok K xs h \<longleftrightarrow> (\<forall>i. 0 < i \<longrightarrow> i < length xs \<longrightarrow> par i \<noteq> h \<longrightarrow> K (xs ! par i) \<le> K (xs ! i)) \<and> over_ok K xs h"

definition swap :: "'e list \<Rightarrow> nat \<Rightarrow> nat \<Rightarrow> 'e list" where
  "swap xs i j = xs[i := xs ! j, j := xs ! i]"

lemma par_fold: "(i - Suc 0) div 2 = par i"
  by (simp add: par_def)

lemma par_less: "0 < i \<Longrightarrow> par i < i"
  by (simp add: par_def)

lemma length_swap [simp]: "length (swap xs i j) = length xs"
  by (simp add: swap_def)

lemma nth_swap: "i < length xs \<Longrightarrow> j < length xs \<Longrightarrow>
    swap xs i j ! k = (if k = j then xs ! i else if k = i then xs ! j else xs ! k)"
  by (simp add: swap_def nth_list_update)

lemma mset_swapped: "i < length xs \<Longrightarrow> j < length xs \<Longrightarrow> mset (swap xs i j) = mset xs"
  unfolding swap_def by (rule mset_swap)

lemma up_step:
  assumes "up_ok K xs h" "0 < h" "h < length xs" "K (xs ! h) < K (xs ! par h)"
  shows "up_ok K (swap xs h (par h)) (par h)"
proof -
  let ?p = "par h" and ?ys = "swap xs h (par h)"
  have p: "?p < h" "?p < length xs" using par_less [OF assms(2)] assms(3) by auto
  have nth: "?ys ! k = (if k = ?p then xs ! h else if k = h then xs ! ?p else xs ! k)" for k
    using nth_swap [OF assms(3) p(2)] .
  have c1: "\<And>i. 0 < i \<Longrightarrow> i < length xs \<Longrightarrow> i \<noteq> h \<Longrightarrow> K (xs ! par i) \<le> K (xs ! i)" using assms(1) by (simp add: up_ok_def)
  have c2: "\<And>i. 0 < i \<Longrightarrow> i < length xs \<Longrightarrow> par i = h \<Longrightarrow> K (xs ! ?p) \<le> K (xs ! i)"
    using assms(1,2) by (simp add: up_ok_def over_ok_def)
  have "K (?ys ! par i) \<le> K (?ys ! i)" if i: "0 < i" "i < length xs" "i \<noteq> ?p" for i
  proof (cases "i = h")
    case True
    then show ?thesis using assms(4) p by (simp add: nth)
  next
    case False
    consider "par i = h" | "par i = ?p" | "par i \<noteq> h" "par i \<noteq> ?p" by blast
    then show ?thesis
    proof cases
      case 1
      then show ?thesis using c2 i False p by (simp add: nth)
    next
      case 2
      then show ?thesis using c1 [OF i(1,2) False] assms(4) i False by (simp add: nth)
    next
      case 3
      then show ?thesis using c1 [OF i(1,2) False] i False by (simp add: nth)
    qed
  qed
  moreover have "K (?ys ! par ?p) \<le> K (?ys ! i)" if i: "0 < i" "i < length xs" "par i = ?p" "0 < ?p" for i
  proof -
    have pp: "par ?p < ?p" by (rule par_less [OF i(4)])
    have a: "K (xs ! par ?p) \<le> K (xs ! ?p)" using c1 [OF i(4) p(2)] p by simp
    show ?thesis using a c1 [OF i(1,2)] i pp p par_less [OF i(1)] by (auto simp: nth)
  qed
  ultimately show ?thesis by (simp add: up_ok_def over_ok_def)
qed

lemma up_done: "up_ok K xs h \<Longrightarrow> h = 0 \<or> K (xs ! par h) \<le> K (xs ! h) \<Longrightarrow> heap_ord K xs"
  by (auto simp: up_ok_def heap_ord_def)

lemma down_step:
  assumes "down_ok K xs h" "par c = h" "0 < c" "c < length xs" "K (xs ! c) < K (xs ! h)"
    "\<And>i. 0 < i \<Longrightarrow> i < length xs \<Longrightarrow> par i = h \<Longrightarrow> K (xs ! c) \<le> K (xs ! i)"
  shows "down_ok K (swap xs h c) c"
proof -
  let ?ys = "swap xs h c"
  have h: "h < c" "h < length xs" using par_less [OF assms(3)] assms(2,4) by auto
  have nth: "?ys ! k = (if k = c then xs ! h else if k = h then xs ! c else xs ! k)" for k
    using nth_swap [OF h(2) assms(4)] .
  have c1: "\<And>i. 0 < i \<Longrightarrow> i < length xs \<Longrightarrow> par i \<noteq> h \<Longrightarrow> K (xs ! par i) \<le> K (xs ! i)" using assms(1) by (simp add: down_ok_def)
  have c2: "0 < h \<Longrightarrow> K (xs ! par h) \<le> K (xs ! c)" using assms(1-4) by (simp add: down_ok_def over_ok_def)
  have "K (?ys ! par i) \<le> K (?ys ! i)" if i: "0 < i" "i < length xs" "par i \<noteq> c" for i
  proof -
    have pi: "par i < i" by (rule par_less [OF i(1)])
    consider "i = c" | "i \<noteq> c" "par i = h" | "i = h" | "i \<noteq> c" "i \<noteq> h" "par i \<noteq> h" by blast
    then show ?thesis
    proof cases
      case 1
      then show ?thesis using assms(2,5) h by (simp add: nth)
    next
      case 2
      then show ?thesis using assms(6) i pi h by (simp add: nth)
    next
      case 3
      then show ?thesis using c2 i pi h by (simp add: nth)
    next
      case 4
      then show ?thesis using c1 i by (simp add: nth)
    qed
  qed
  moreover have "K (?ys ! par c) \<le> K (?ys ! i)" if i: "0 < i" "i < length xs" "par i = c" for i
    using c1 [OF i(1,2)] i h assms(2) par_less [OF i(1)] by (simp add: nth)
  ultimately show ?thesis by (simp add: down_ok_def over_ok_def)
qed

lemma down_done:
  "down_ok K xs h \<Longrightarrow> (\<And>i. 0 < i \<Longrightarrow> i < length xs \<Longrightarrow> par i = h \<Longrightarrow> K (xs ! h) \<le> K (xs ! i)) \<Longrightarrow> heap_ord K xs"
  unfolding down_ok_def heap_ord_def by metis

lemma heap_ord_top: "heap_ord K xs \<Longrightarrow> i < length xs \<Longrightarrow> K (xs ! 0) \<le> K (xs ! i)"
proof (induction i rule: less_induct)
  case (less i)
  show ?case
  proof (cases "i = 0")
    case False
    then have "K (xs ! 0) \<le> K (xs ! par i)" using less par_less [of i] by simp
    also have "\<dots> \<le> K (xs ! i)" using less.prems False by (simp add: heap_ord_def)
    finally show ?thesis .
  qed simp
qed

text \<open>The children of \<open>h\<close> are at \<open>2 * h + 1\<close> and \<open>2 * h + 2\<close>.\<close>

lemma par_eq_iff: "0 < i \<Longrightarrow> par i = h \<longleftrightarrow> i = 2 * h + 1 \<or> i = 2 * h + 2"
  unfolding par_def by presburger

section \<open>The array against the list\<close>

text \<open>\<open>holed K s xs h\<close>: the array holds \<open>xs\<close> with the positions recorded in the events, except at \<open>h\<close>, where \<open>xs ! h\<close>
  is still to be written. \<open>K\<close> gives the timeouts of all events.\<close>

definition mh_base :: "(nat \<Rightarrow> timeval) \<Rightarrow> mh_state \<Rightarrow> nat list \<Rightarrow> bool" where
  "mh_base K s xs \<longleftrightarrow> mh_n (mh_heap s) = length xs \<and> length (mh_p (mh_heap s)) = mh_a (mh_heap s)
     \<and> length xs \<le> mh_a (mh_heap s) \<and> distinct xs \<and> length xs < 2 ^ 31 - 1 \<and> set xs \<subseteq> dom (mh_ev s)
     \<and> (\<forall>e ev. mh_ev s e = Some ev \<longrightarrow> ev_timeout ev = K e)"

definition held :: "mh_state \<Rightarrow> nat list \<Rightarrow> nat \<Rightarrow> bool" where
  "held s xs i \<longleftrightarrow> mh_p (mh_heap s) ! i = Some (xs ! i) \<and> (\<exists>ev. mh_ev s (xs ! i) = Some ev \<and> min_heap_idx ev = int i)"

definition holed :: "(nat \<Rightarrow> timeval) \<Rightarrow> mh_state \<Rightarrow> nat list \<Rightarrow> nat \<Rightarrow> bool" where
  "holed K s xs h \<longleftrightarrow> mh_base K s xs \<and> h < length xs \<and> (\<forall>i. i < length xs \<longrightarrow> i \<noteq> h \<longrightarrow> held s xs i)"

definition full :: "(nat \<Rightarrow> timeval) \<Rightarrow> mh_state \<Rightarrow> nat list \<Rightarrow> bool" where
  "full K s xs \<longleftrightarrow> mh_base K s xs \<and> (\<forall>i. i < length xs \<longrightarrow> held s xs i)"

definition untouched :: "mh_state \<Rightarrow> mh_state \<Rightarrow> nat set \<Rightarrow> bool" where
  "untouched s s' S \<longleftrightarrow> (\<forall>e. e \<notin> S \<longrightarrow> mh_ev s' e = mh_ev s e) \<and> mh_a (mh_heap s') = mh_a (mh_heap s) \<and> dom (mh_ev s') = dom (mh_ev s)"

lemma untouched_refl [simp]: "untouched s s S"
  by (simp add: untouched_def)

lemma untouched_trans: "untouched s s' S \<Longrightarrow> untouched s' s'' S \<Longrightarrow> untouched s s'' S"
  by (simp add: untouched_def)

lemma place_effect:
  assumes "mh_base K s xs" "i < length xs" "e \<in> set xs"
  obtains s' ev where "place s i e = Some s'" "mh_heap s' = (mh_heap s)\<lparr>mh_p := (mh_p (mh_heap s))[i := Some e]\<rparr>"
    "mh_ev s e = Some ev" "mh_ev s' = (mh_ev s)(e \<mapsto> ev\<lparr>min_heap_idx := int i\<rparr>)" "untouched s s' (set xs)" "mh_base K s' xs"
proof -
  obtain ev where ev: "mh_ev s e = Some ev" "ev_timeout ev = K e" using assms(1,3) by (auto simp: mh_base_def)
  have i: "i < length (mh_p (mh_heap s))" "int i < 2 ^ 31" using assms(1,2) by (auto simp: mh_base_def)
  let ?s = "s\<lparr>mh_heap := (mh_heap s)\<lparr>mh_p := (mh_p (mh_heap s))[i := Some e]\<rparr>, mh_ev := (mh_ev s)(e \<mapsto> ev\<lparr>min_heap_idx := int i\<rparr>)\<rparr>"
  have "place s i e = Some ?s"
    using ev i by (simp add: place_def poke_def)
  moreover have "mh_base K ?s xs" using assms(1) ev by (auto simp: mh_base_def)
  moreover have "untouched s ?s (set xs)" using assms(3) ev by (auto simp: untouched_def)
  ultimately show thesis using ev(1) by (intro that [of ?s ev]) auto
qed

lemma place_full:
  assumes "holed K s xs h"
  shows "\<exists>s'. place s h (xs ! h) = Some s' \<and> full K s' xs \<and> untouched s s' (set xs)"
proof -
  have b: "mh_base K s xs" "h < length xs" using assms by (simp_all add: holed_def)
  then obtain s' ev where s': "place s h (xs ! h) = Some s'"
    "mh_heap s' = (mh_heap s)\<lparr>mh_p := (mh_p (mh_heap s))[h := Some (xs ! h)]\<rparr>"
    "mh_ev s' = (mh_ev s)(xs ! h \<mapsto> ev\<lparr>min_heap_idx := int h\<rparr>)" "untouched s s' (set xs)" "mh_base K s' xs"
    using place_effect [OF b, of "xs ! h"] by (metis nth_mem)
  have "held s' xs i" if "i < length xs" for i
  proof (cases "i = h")
    case True
    have "h < length (mh_p (mh_heap s))" using b by (simp add: mh_base_def)
    then show ?thesis using s'(2,3) True by (simp add: held_def)
  next
    case False
    then have "xs ! i \<noteq> xs ! h" using b that by (auto simp: mh_base_def nth_eq_iff_index_eq)
    then show ?thesis using s'(2,3) assms False that by (auto simp: held_def holed_def)
  qed
  then show ?thesis using s' by (auto simp: full_def)
qed

lemma place_move:
  assumes "holed K s xs h" "c < length xs" "c \<noteq> h"
  shows "\<exists>s'. place s h (xs ! c) = Some s' \<and> holed K s' (swap xs h c) c \<and> untouched s s' (set xs)"
proof -
  have b: "mh_base K s xs" "h < length xs" using assms by (simp_all add: holed_def)
  then obtain s' ev where s': "place s h (xs ! c) = Some s'"
    "mh_heap s' = (mh_heap s)\<lparr>mh_p := (mh_p (mh_heap s))[h := Some (xs ! c)]\<rparr>"
    "mh_ev s' = (mh_ev s)(xs ! c \<mapsto> ev\<lparr>min_heap_idx := int h\<rparr>)" "untouched s s' (set xs)" "mh_base K s' xs"
    using place_effect [OF b, of "xs ! c"] assms(2) by (metis nth_mem)
  let ?ys = "swap xs h c"
  have set: "set ?ys = set xs" using mset_eq_setD [OF mset_swapped [OF b(2) assms(2)]] .
  have dist: "distinct ?ys" using mset_eq_imp_distinct_iff [OF mset_swapped [OF b(2) assms(2)]] b(1) by (simp add: mh_base_def)
  have nth: "?ys ! k = (if k = c then xs ! h else if k = h then xs ! c else xs ! k)" for k
    by (rule nth_swap [OF b(2) assms(2)])
  have "held s' ?ys i" if i: "i < length xs" "i \<noteq> c" for i
  proof (cases "i = h")
    case True
    have "h < length (mh_p (mh_heap s))" using b by (simp add: mh_base_def)
    then show ?thesis using s'(2,3) True assms(3) by (simp add: held_def nth)
  next
    case False
    then have "xs ! i \<noteq> xs ! c" using b assms(2) i by (auto simp: mh_base_def nth_eq_iff_index_eq)
    then show ?thesis using s'(2,3) assms(1) False i by (auto simp: held_def holed_def nth)
  qed
  moreover have "mh_base K s' ?ys" using s'(5) set dist by (simp add: mh_base_def)
  ultimately show ?thesis using s'(1,4) assms(2) by (auto simp: holed_def)
qed

lemma elem_held: "mh_base K s xs \<Longrightarrow> i < length xs \<Longrightarrow> held s xs i \<Longrightarrow> elem s i = Some (xs ! i)"
  by (simp add: elem_def peek_def held_def mh_base_def)

lemma greater_known:
  "mh_base K s xs \<Longrightarrow> a \<in> set xs \<Longrightarrow> b \<in> set xs \<Longrightarrow> min_heap_elem_greater s a b = Some (K b < K a)"
proof -
  assume b: "mh_base K s xs" and "a \<in> set xs" "b \<in> set xs"
  then obtain x y where "mh_ev s a = Some x" "mh_ev s b = Some y" by (force simp: mh_base_def)
  moreover from this b have "ev_timeout x = K a" "ev_timeout y = K b" by (auto simp: mh_base_def)
  ultimately show ?thesis by (simp add: min_heap_elem_greater_def timercmp_greater)
qed

lemma shift_up_correct:
  "holed K s xs h \<Longrightarrow> up_ok K xs h \<Longrightarrow>
   \<exists>s' ys. min_heap_shift_up s h (xs ! h) = Some s' \<and> full K s' ys \<and> heap_ord K ys \<and> mset ys = mset xs \<and> untouched s s' (set xs)"
proof (induction h arbitrary: s xs rule: less_induct)
  case (less h)
  have b: "mh_base K s xs" "h < length xs" using less.prems(1) by (simp_all add: holed_def)
  show ?case
  proof (cases "h = 0 \<or> K (xs ! par h) \<le> K (xs ! h)")
    case True
    then have "min_heap_shift_up s h (xs ! h) = place s h (xs ! h)"
    proof (cases "h = 0")
      case False
      then have p: "par h < h" "par h < length xs" using par_less [of h] b(2) by auto
      then have "elem s (par h) = Some (xs ! par h)" using less.prems(1) by (intro elem_held [OF b(1)]) (auto simp: holed_def)
      then show ?thesis using False True greater_known [OF b(1), of "xs ! par h" "xs ! h"] p b(2)
        by (subst min_heap_shift_up.simps) (auto simp: par_fold Let_def dest: leD)
    qed (subst min_heap_shift_up.simps, simp)
    then show ?thesis using place_full [OF less.prems(1)] up_done [OF less.prems(2) True] by auto
  next
    case False
    then have h: "0 < h" and lt: "K (xs ! h) < K (xs ! par h)" by auto
    have p: "par h < h" "par h < length xs" using par_less [OF h] b(2) by auto
    then have el: "elem s (par h) = Some (xs ! par h)" using less.prems(1) by (intro elem_held [OF b(1)]) (auto simp: holed_def)
    obtain s1 where s1: "place s h (xs ! par h) = Some s1" "holed K s1 (swap xs h (par h)) (par h)" "untouched s s1 (set xs)"
      using place_move [OF less.prems(1) p(2)] p by auto
    have step: "min_heap_shift_up s h (xs ! h) = min_heap_shift_up s1 (par h) (xs ! h)"
      using h el s1(1) lt greater_known [OF b(1), of "xs ! par h" "xs ! h"] p b(2)
      by (subst min_heap_shift_up.simps) (simp add: par_fold Let_def)
    have hd: "swap xs h (par h) ! par h = xs ! h" using nth_swap [OF b(2) p(2)] by simp
    have m: "mset (swap xs h (par h)) = mset xs" by (rule mset_swapped [OF b(2) p(2)])
    from less.IH [OF p(1) s1(2) up_step [OF less.prems(2) h b(2) lt]] show ?thesis
      unfolding step hd m mset_eq_setD [OF m] using untouched_trans [OF s1(3)] by blast
  qed
qed

lemma u32_small: "0 \<le> x \<Longrightarrow> x < 2 ^ 32 \<Longrightarrow> u32_of x = nat x"
  by (simp add: u32_of_def)

lemma min_child_cases:
  assumes "holed K s xs h"
  shows "(length xs \<le> 2 * h + 1 \<and> shift_down_loop (Suc k) s h e = place s h e)
    \<or> (\<exists>c. c < length xs \<and> par c = h \<and> 0 < c \<and> (\<forall>i. 0 < i \<longrightarrow> i < length xs \<longrightarrow> par i = h \<longrightarrow> K (xs ! c) \<le> K (xs ! i))
        \<and> shift_down_loop (Suc k) s h e = do {
             g \<leftarrow> min_heap_elem_greater s e (xs ! c);
             if \<not> g then place s h e else do { s \<leftarrow> place s h (xs ! c); shift_down_loop k s c e } })"
proof -
  have b: "mh_base K s xs" "h < length xs" "mh_n (mh_heap s) = length xs" "length xs < 2 ^ 31 - 1"
    using assms by (simp_all add: holed_def mh_base_def)
  have mc: "u32_of (2 * (int h + 1)) = 2 * h + 2" using b(2,4) by (subst u32_small) auto
  have el: "i < length xs \<Longrightarrow> i \<noteq> h \<Longrightarrow> elem s i = Some (xs ! i)" for i
    using assms by (intro elem_held [OF b(1)]) (auto simp: holed_def)
  consider "length xs \<le> 2 * h + 1" | "length xs = 2 * h + 2" | "2 * h + 2 < length xs" by linarith
  then show ?thesis
  proof cases
    case 1
    then show ?thesis using b(3) mc by (simp add: Let_def)
  next
    case 2
    then show ?thesis using b(3) mc el [of "2 * h + 1"]
      by (intro disjI2 exI [of _ "2 * h + 1"]) (auto simp: Let_def par_eq_iff cong: if_cong)
  next
    case 3
    let ?g = "K (xs ! (2 * h + 1)) < K (xs ! (2 * h + 2))"
    let ?c = "if ?g then 2 * h + 1 else 2 * h + 2"
    have g: "min_heap_elem_greater s (xs ! (2 * h + 2)) (xs ! (2 * h + 1)) = Some ?g"
      using 3 by (intro greater_known [OF b(1)]) auto
    have "K (xs ! ?c) \<le> K (xs ! i)" if "0 < i" "par i = h" for i
      using that by (auto simp: par_eq_iff)
    moreover have "shift_down_loop (Suc k) s h e = do {
        g \<leftarrow> min_heap_elem_greater s e (xs ! ?c);
        if \<not> g then place s h e else do { s \<leftarrow> place s h (xs ! ?c); shift_down_loop k s ?c e } }"
      using 3 b(3) mc el [of "2 * h + 1"] el [of "2 * h + 2"] g by (cases ?g) (simp_all add: Let_def cong: if_cong)
    moreover have "par ?c = h" "?c < length xs" "0 < ?c" using 3 by (auto simp: par_eq_iff)
    ultimately show ?thesis by blast
  qed
qed

lemma shift_down_correct:
  "holed K s xs h \<Longrightarrow> down_ok K xs h \<Longrightarrow> length xs \<le> k + h \<Longrightarrow>
   \<exists>s' ys. shift_down_loop k s h (xs ! h) = Some s' \<and> full K s' ys \<and> heap_ord K ys \<and> mset ys = mset xs \<and> untouched s s' (set xs)"
proof (induction k arbitrary: s xs h)
  case 0
  then show ?case by (simp add: holed_def)
next
  case (Suc k)
  have b: "mh_base K s xs" "h < length xs" using Suc.prems(1) by (simp_all add: holed_def)
  from min_child_cases [OF Suc.prems(1), of k "xs ! h"] show ?case
  proof (elim disjE conjE exE)
    assume "length xs \<le> 2 * h + 1" "shift_down_loop (Suc k) s h (xs ! h) = place s h (xs ! h)"
    moreover from this have "heap_ord K xs" by (intro down_done [OF Suc.prems(2)]) (auto simp: par_eq_iff)
    ultimately show ?thesis using place_full [OF Suc.prems(1)] by auto
  next
    fix c assume c: "c < length xs" "par c = h" "0 < c"
      and least: "\<forall>i. 0 < i \<longrightarrow> i < length xs \<longrightarrow> par i = h \<longrightarrow> K (xs ! c) \<le> K (xs ! i)"
      and step: "shift_down_loop (Suc k) s h (xs ! h) = do {
             g \<leftarrow> min_heap_elem_greater s (xs ! h) (xs ! c);
             if \<not> g then place s h (xs ! h) else do { s \<leftarrow> place s h (xs ! c); shift_down_loop k s c (xs ! h) } }"
    have hc: "h < c" using par_less [OF c(3)] c(2) by simp
    have g: "min_heap_elem_greater s (xs ! h) (xs ! c) = Some (K (xs ! c) < K (xs ! h))"
      using b c by (intro greater_known [OF b(1)]) auto
    show ?thesis
    proof (cases "K (xs ! c) < K (xs ! h)")
      case False
      then have "K (xs ! h) \<le> K (xs ! i)" if "0 < i" "i < length xs" "par i = h" for i
        using least that order_trans [OF leI [OF False]] by blast
      then have "heap_ord K xs" by (rule down_done [OF Suc.prems(2)])
      then show ?thesis using place_full [OF Suc.prems(1)] step g False by auto
    next
      case True
      obtain s1 where s1: "place s h (xs ! c) = Some s1" "holed K s1 (swap xs h c) c" "untouched s s1 (set xs)"
        using place_move [OF Suc.prems(1) c(1)] hc by auto
      have hd: "swap xs h c ! c = xs ! h" using nth_swap [OF b(2) c(1)] by simp
      have m: "mset (swap xs h c) = mset xs" by (rule mset_swapped [OF b(2) c(1)])
      have "down_ok K (swap xs h c) c" using least by (intro down_step [OF Suc.prems(2) c(2,3,1) True]) auto
      from Suc.IH [OF s1(2) this] hc Suc.prems(3) obtain s' ys where
        "shift_down_loop k s1 c (xs ! h) = Some s'" "full K s' ys" "heap_ord K ys" "mset ys = mset xs" "untouched s1 s' (set xs)"
        unfolding hd m mset_eq_setD [OF m] by auto
      then show ?thesis using step g True s1(1) untouched_trans [OF s1(3)] by auto
    qed
  qed
qed

section \<open>The operations\<close>

text \<open>The heap holds the events \<open>es\<close>, in heap order; the events outside have the index \<open>-1\<close>.\<close>

definition mh_ok :: "(nat \<Rightarrow> timeval) \<Rightarrow> mh_state \<Rightarrow> nat list \<Rightarrow> bool" where
  "mh_ok K s es \<longleftrightarrow> full K s es \<and> heap_ord K es \<and> (\<forall>e ev. mh_ev s e = Some ev \<longrightarrow> e \<notin> set es \<longrightarrow> min_heap_idx ev = - 1)"

lemma reserve_ok:
  assumes "mh_ok K s es" "n = length es + 1" "int n < 2 ^ 31 - 1"
  shows "(\<exists>s'. min_heap_reserve A s n = (0, s') \<and> mh_ok K s' es \<and> n \<le> mh_a (mh_heap s') \<and> mh_ev s' = mh_ev s)
         \<or> min_heap_reserve A s n = (- 1, s) \<and> (\<exists>k\<ge>0. \<not> A k)"
proof (cases "mh_a (mh_heap s) < n")
  case False
  then show ?thesis using assms(1) by (simp add: min_heap_reserve_def Let_def)
next
  case True
  obtain a where a: "a = (let a = (if mh_a (mh_heap s) \<noteq> 0 then u32_of (int (mh_a (mh_heap s)) * 2) else 8) in if a < n then n else a)"
    by blast
  have n: "n \<le> a" by (simp add: a Let_def)
  have eq: "min_heap_reserve A s n = (if \<not> A (int a * 8) then (- 1, s)
     else (0, s\<lparr>mh_heap := (mh_heap s)\<lparr>mh_p := mh_p (mh_heap s) @ replicate (a - length (mh_p (mh_heap s))) None, mh_a := a\<rparr>\<rparr>))"
    using True unfolding min_heap_reserve_def a by (simp add: Let_def)
  show ?thesis
  proof (cases "A (int a * 8)")
    case False
    then show ?thesis using eq by (auto intro: exI [of _ "int a * 8"])
  next
    case A: True
    let ?s = "s\<lparr>mh_heap := (mh_heap s)\<lparr>mh_p := mh_p (mh_heap s) @ replicate (a - length (mh_p (mh_heap s))) None, mh_a := a\<rparr>\<rparr>"
    have f: "mh_base K s es" "\<And>i. i < length es \<Longrightarrow> held s es i" using assms(1) by (simp_all add: mh_ok_def full_def)
    have "mh_base K ?s es" using f(1) n True assms(2) by (auto simp: mh_base_def)
    moreover have "held ?s es i" if "i < length es" for i
      using f that by (auto simp: held_def nth_append mh_base_def)
    ultimately have "mh_ok K ?s es" using assms(1) by (simp add: mh_ok_def full_def)
    then show ?thesis using eq A n by simp
  qed
qed

lemma mh_ok_after:
  assumes "full K s' ys" "heap_ord K ys" "mset ys = mset xs" "untouched s s' (set xs)"
    "\<And>e ev. mh_ev s e = Some ev \<Longrightarrow> e \<notin> set xs \<Longrightarrow> min_heap_idx ev = - 1"
  shows "mh_ok K s' ys"
  using assms mset_eq_setD [OF assms(3)] by (auto simp: mh_ok_def untouched_def)

lemma min_heap_push_ok:
  assumes "mh_ok K s es" "e \<in> dom (mh_ev s)" "e \<notin> set es" "int (length es) + 1 < 2 ^ 31 - 1"
  shows "(\<exists>s' ys. min_heap_push A s e = Some (0, s') \<and> mh_ok K s' ys \<and> mset ys = add_mset e (mset es) \<and> dom (mh_ev s') = dom (mh_ev s))
         \<or> min_heap_push A s e = Some (- 1, s) \<and> (\<exists>k\<ge>0. \<not> A k)"
proof -
  have n: "mh_n (mh_heap s) = length es" using assms(1) by (simp add: mh_ok_def full_def mh_base_def)
  have u: "u32_of (int (length es) + 1) = length es + 1" using assms(4) by (subst u32_small) auto
  have "int (length es + 1) < 2 ^ 31 - 1" using assms(4) by simp
  from reserve_ok [OF assms(1) refl this, of A] show ?thesis
  proof (elim disjE exE conjE)
    fix s1 assume s1: "min_heap_reserve A s (length es + 1) = (0, s1)" "mh_ok K s1 es" "length es + 1 \<le> mh_a (mh_heap s1)"
      "mh_ev s1 = mh_ev s"
    let ?xs = "es @ [e]" and ?s = "set_n s1 (length es + 1)"
    have f: "mh_base K s1 es" "\<And>i. i < length es \<Longrightarrow> held s1 es i" "heap_ord K es" using s1(2) by (simp_all add: mh_ok_def full_def)
    have "holed K ?s ?xs (length es)"
      unfolding holed_def
    proof (intro conjI allI impI)
      show "mh_base K ?s ?xs" using f(1) s1(3,4) assms(2-4) by (auto simp: mh_base_def set_n_def)
      fix i assume "i < length ?xs" "i \<noteq> length es"
      then show "held ?s ?xs i" using f(2) [of i] by (auto simp: held_def set_n_def nth_append)
    qed simp
    moreover have "up_ok K ?xs (length es)"
    proof -
      have "par i \<noteq> length es" if "0 < i" "i < length ?xs" for i using par_less [OF that(1)] that by auto
      moreover have "K (?xs ! par i) \<le> K (?xs ! i)" if "0 < i" "i < length ?xs" "i \<noteq> length es" for i
        using f(3) that par_less [OF that(1)] by (auto simp: heap_ord_def nth_append)
      ultimately show ?thesis by (auto simp: up_ok_def over_ok_def)
    qed
    ultimately obtain s' ys where s': "min_heap_shift_up ?s (length es) e = Some s'" "full K s' ys" "heap_ord K ys"
      "mset ys = mset ?xs" "untouched ?s s' (set ?xs)" using shift_up_correct [of K ?s ?xs "length es"] by auto
    have "mh_ok K s' ys"
      by (rule mh_ok_after [OF s'(2-5)]) (use s1(2,4) assms(1) in \<open>auto simp: mh_ok_def set_n_def\<close>)
    moreover have "mh_n (mh_heap s1) = length es" using f(1) by (simp add: mh_base_def)
    ultimately show ?thesis using s' s1(1,4) n u by (auto simp: min_heap_push_def untouched_def set_n_def)
  qed (use n u in \<open>auto simp: min_heap_push_def\<close>)
qed

text \<open>Removing the element at \<open>i\<close>: the last one takes its place.\<close>

lemma without_last:
  assumes "mh_ok K s es" "i < length es" "i \<noteq> length es - 1"
  shows "holed K (set_n s (length es - 1)) ((butlast es)[i := last es]) i"
    and "mset ((butlast es)[i := last es]) = mset es - {#es ! i#}"
    and "es ! i \<notin> set ((butlast es)[i := last es])"
proof -
  let ?m = "length es - 1" and ?xs = "(butlast es)[i := last es]"
  have f: "mh_base K s es" "\<And>i. i < length es \<Longrightarrow> held s es i" using assms(1) by (simp_all add: mh_ok_def full_def)
  have ne: "es \<noteq> []" and im: "i < ?m" using assms(2,3) by auto
  have sw: "?xs @ [es ! i] = swap es i ?m"
  proof (rule nth_equalityI)
    fix j assume "j < length (?xs @ [es ! i])"
    then have "j < ?m \<or> j = ?m" by auto
    then show "(?xs @ [es ! i]) ! j = swap es i ?m ! j"
      using im by (subst nth_swap [OF assms(2)]) (auto simp: nth_append nth_butlast nth_list_update last_conv_nth [OF ne])
  qed (use ne im in simp)
  have mset: "mset (?xs @ [es ! i]) = mset es" unfolding sw using im by (intro mset_swapped) auto
  then have "mset es = add_mset (es ! i) (mset ?xs)" by simp
  then show "mset ?xs = mset es - {#es ! i#}" by simp
  have d: "distinct (?xs @ [es ! i])" using mset_eq_imp_distinct_iff [OF mset] f(1) by (simp add: mh_base_def)
  then show "es ! i \<notin> set ?xs" by simp
  have sub: "set ?xs \<subseteq> set es" using mset_eq_setD [OF mset] by auto
  show "holed K (set_n s ?m) ?xs i"
    unfolding holed_def
  proof (intro conjI allI impI)
    show "mh_base K (set_n s ?m) ?xs" using f(1) d sub by (auto simp: mh_base_def set_n_def)
    show "i < length ?xs" using im by simp
    fix j assume "j < length ?xs" "j \<noteq> i"
    then show "held (set_n s ?m) ?xs j" using f(2) [of j] by (simp add: held_def set_n_def nth_butlast)
  qed
qed

text \<open>The same events exist and the array has the same size.\<close>

definition same_store :: "mh_state \<Rightarrow> mh_state \<Rightarrow> bool" where
  "same_store s s' \<longleftrightarrow> dom (mh_ev s') = dom (mh_ev s) \<and> mh_a (mh_heap s') = mh_a (mh_heap s)"

lemma set_idx_ok:
  assumes "full K s xs" "heap_ord K xs" "e \<notin> set xs" "e \<in> dom (mh_ev s)"
    "\<And>x ev. mh_ev s x = Some ev \<Longrightarrow> x \<notin> set xs \<Longrightarrow> x \<noteq> e \<Longrightarrow> min_heap_idx ev = - 1"
  shows "\<exists>s'. set_idx s e (- 1) = Some s' \<and> mh_ok K s' xs \<and> same_store s s'"
proof -
  obtain ev where ev: "mh_ev s e = Some ev" using assms(4) by blast
  let ?s = "s\<lparr>mh_ev := (mh_ev s)(e \<mapsto> ev\<lparr>min_heap_idx := - 1\<rparr>)\<rparr>"
  have b: "mh_base K s xs" "\<And>i. i < length xs \<Longrightarrow> held s xs i" using assms(1) by (simp_all add: full_def)
  have "ev_timeout ev = K e" using b(1) ev by (simp add: mh_base_def)
  then have "mh_base K ?s xs" using b(1) by (auto simp: mh_base_def)
  moreover have "held ?s xs i" if "i < length xs" for i
  proof -
    have "xs ! i \<noteq> e" using that assms(3) by auto
    then show ?thesis using b(2) [OF that] by (simp add: held_def)
  qed
  ultimately have "mh_ok K ?s xs" using assms(2,5) by (auto simp: mh_ok_def full_def)
  moreover have "set_idx s e (- 1) = Some ?s" using ev by (simp add: set_idx_def)
  moreover have "same_store s ?s" using ev by (auto simp: same_store_def)
  ultimately show ?thesis by blast
qed

lemma heap_ord_butlast: "heap_ord K es \<Longrightarrow> heap_ord K (butlast es)"
  unfolding heap_ord_def
proof (intro allI impI)
  fix i assume h: "\<forall>i>0. i < length es \<longrightarrow> K (es ! par i) \<le> K (es ! i)" and i: "0 < i" "i < length (butlast es)"
  have "par i < length (butlast es)" using par_less [OF i(1)] i(2) by simp
  moreover have "K (es ! par i) \<le> K (es ! i)" using h i by simp
  ultimately show "K (butlast es ! par i) \<le> K (butlast es ! i)" using i(2) by (simp add: nth_butlast)
qed

text \<open>Removing the last element leaves the others in place.\<close>

lemma remove_last:
  assumes "mh_ok K s es" "es \<noteq> []"
  shows "\<exists>s1 s2. min_heap_shift_down (set_n s (length es - 1)) (length es - 1) (last es) = Some s1
     \<and> set_idx s1 (last es) (- 1) = Some s2 \<and> mh_ok K s2 (butlast es) \<and> same_store s s2"
proof -
  let ?m = "length es - 1" and ?s = "set_n s (length es - 1)"
  have f: "mh_base K s es" "\<And>i. i < length es \<Longrightarrow> held s es i" "heap_ord K es"
    "\<And>e ev. mh_ev s e = Some ev \<Longrightarrow> e \<notin> set es \<Longrightarrow> min_heap_idx ev = - 1"
    using assms(1) by (simp_all add: mh_ok_def full_def)
  obtain ev where ev: "mh_ev s (last es) = Some ev" using f(1) assms(2) by (force simp: mh_base_def)
  have "0 < length es" using assms(2) by (simp only: length_greater_0_conv not_False_eq_True)
  then have lt: "?m < length es" by linarith
  have "length es \<le> length (mh_p (mh_heap s))" "int (length es) < 2 ^ 31" using f(1) by (simp_all add: mh_base_def)
  with lt have m: "?m < length (mh_p (mh_heap s))" "int ?m < 2 ^ 31" by linarith+
  let ?s1 = "?s\<lparr>mh_heap := (mh_heap ?s)\<lparr>mh_p := (mh_p (mh_heap s))[?m := Some (last es)]\<rparr>,
     mh_ev := (mh_ev s)(last es \<mapsto> ev\<lparr>min_heap_idx := int ?m\<rparr>)\<rparr>"
  have "u32_of (2 * (int ?m + 1)) = 2 * ?m + 2"
    using f(1) assms(2) by (subst u32_small) (auto simp: mh_base_def nat_add_distrib nat_mult_distrib)
  then have "min_heap_shift_down ?s ?m (last es) = place ?s ?m (last es)"
    by (simp add: min_heap_shift_down_def set_n_def Let_def)
  also have "\<dots> = Some ?s1" using ev m by (simp add: place_def poke_def set_n_def)
  finally have down: "min_heap_shift_down ?s ?m (last es) = Some ?s1" .
  have notin: "last es \<notin> set (butlast es)"
    using f(1) assms(2) by (metis append_butlast_last_id distinct_butlast mh_base_def not_distinct_conv_prefix)
  have "full K ?s1 (butlast es)"
    unfolding full_def
  proof (intro conjI allI impI)
    have "ev_timeout ev = K (last es)" using f(1) ev by (simp add: mh_base_def)
    then show "mh_base K ?s1 (butlast es)"
      using f(1) ev by (auto simp: mh_base_def set_n_def distinct_butlast dest: in_set_butlastD)
    fix i assume i: "i < length (butlast es)"
    then have "butlast es ! i \<noteq> last es" using notin nth_mem by metis
    then show "held ?s1 (butlast es) i" using f(2) [of i] i by (auto simp: held_def set_n_def nth_butlast)
  qed
  moreover have "x \<notin> set (butlast es) \<Longrightarrow> x \<noteq> last es \<Longrightarrow> x \<notin> set es" for x
    using assms(2) by (metis append_butlast_last_id in_set_conv_decomp rotate1.simps(2) set_ConsD set_rotate1 append_Cons append_Nil Un_iff set_append)
  ultimately have "\<exists>s2. set_idx ?s1 (last es) (- 1) = Some s2 \<and> mh_ok K s2 (butlast es) \<and> same_store ?s1 s2"
    using f(4) by (intro set_idx_ok [OF _ heap_ord_butlast [OF f(3)] notin]) (auto split: if_splits)
  moreover have "same_store s s2" if "same_store ?s1 s2" for s2 using that ev by (auto simp: same_store_def set_n_def)
  ultimately show ?thesis using down by blast
qed

lemma down_start:
  assumes "heap_ord K es" "i < length es" "i \<noteq> length es - 1" "i = 0 \<or> K (es ! par i) \<le> K (last es)"
  shows "down_ok K ((butlast es)[i := last es]) i"
proof -
  let ?xs = "(butlast es)[i := last es]"
  have len: "length ?xs = length es - 1" by simp
  have nth: "?xs ! j = (if j = i then last es else es ! j)" if "j < length es - 1" for j
    using that by (simp add: nth_list_update nth_butlast)
  have ord: "0 < j \<Longrightarrow> j < length es - 1 \<Longrightarrow> K (es ! par j) \<le> K (es ! j)" for j using assms(1) by (simp add: heap_ord_def)
  have i: "i < length es - 1" using assms(2,3) by simp
  show ?thesis unfolding down_ok_def over_ok_def
  proof (intro conjI allI impI)
    fix j assume "0 < j" "j < length ?xs" and ne: "par j \<noteq> i"
    then have j: "0 < j" "j < length es - 1" by (simp_all only: len)
    then have p: "par j < length es - 1" using par_less [OF j(1)] by linarith
    show "K (?xs ! par j) \<le> K (?xs ! j)"
      using ord [OF j] assms(4) ne j(1) unfolding nth [OF p] nth [OF j(2)] by auto
  next
    fix j assume "0 < j" "j < length ?xs" and pj: "par j = i" and i0: "0 < i"
    then have j: "0 < j" "j < length es - 1" by (simp_all only: len)
    have p: "par i < length es - 1" using par_less [OF i0] i by linarith
    have "K (es ! par i) \<le> K (es ! i)" using ord [OF i0 i] .
    also have "K (es ! i) \<le> K (es ! j)" using ord [OF j] pj by simp
    finally show "K (?xs ! par i) \<le> K (?xs ! j)"
      using par_less [OF i0] par_less [OF j(1)] pj unfolding nth [OF p] nth [OF j(2)] by simp
  qed
qed

lemma up_start:
  assumes "heap_ord K es" "i < length es" "i \<noteq> length es - 1" "0 < i" "K (last es) < K (es ! par i)"
  shows "up_ok K ((butlast es)[i := last es]) i"
proof -
  let ?xs = "(butlast es)[i := last es]"
  have len: "length ?xs = length es - 1" by simp
  have nth: "?xs ! j = (if j = i then last es else es ! j)" if "j < length es - 1" for j
    using that by (simp add: nth_list_update nth_butlast)
  have ord: "0 < j \<Longrightarrow> j < length es - 1 \<Longrightarrow> K (es ! par j) \<le> K (es ! j)" for j using assms(1) by (simp add: heap_ord_def)
  have i: "i < length es - 1" using assms(2,3) by simp
  have pi: "K (es ! par i) \<le> K (es ! i)" using ord [OF assms(4) i] .
  show ?thesis unfolding up_ok_def over_ok_def
  proof (intro conjI allI impI)
    fix j assume "0 < j" "j < length ?xs" and ne: "j \<noteq> i"
    then have j: "0 < j" "j < length es - 1" by (simp_all only: len)
    then have p: "par j < length es - 1" using par_less [OF j(1)] by linarith
    show "K (?xs ! par j) \<le> K (?xs ! j)"
      using ord [OF j] ne pi assms(5) unfolding nth [OF p] nth [OF j(2)] by auto
  next
    fix j assume "0 < j" "j < length ?xs" and pj: "par j = i" and i0: "0 < i"
    then have j: "0 < j" "j < length es - 1" by (simp_all only: len)
    have p: "par i < length es - 1" using par_less [OF i0] i by linarith
    have "K (es ! i) \<le> K (es ! j)" using ord [OF j] pj by simp
    then show "K (?xs ! par i) \<le> K (?xs ! j)"
      using pi par_less [OF i0] par_less [OF j(1)] pj unfolding nth [OF p] nth [OF j(2)] by simp
  qed
qed

text \<open>The element \<open>l\<close> from the end of the array in the place of the removed one, in either direction.\<close>

lemma refill_ok:
  assumes "mh_ok K s es" "i < length es" "i \<noteq> length es - 1"
    "full K s1 ys" "heap_ord K ys" "mset ys = mset ((butlast es)[i := last es])"
    "untouched (set_n s (length es - 1)) s1 (set ((butlast es)[i := last es]))"
  shows "\<exists>s'. set_idx s1 (es ! i) (- 1) = Some s' \<and> mh_ok K s' ys \<and> mset ys = mset es - {#es ! i#} \<and> same_store s s'"
proof -
  let ?xs = "(butlast es)[i := last es]"
  note w = without_last [OF assms(1-3)]
  have ys: "mset ys = mset es - {#es ! i#}" using assms(6) w(2) by simp
  have set: "set ys = set ?xs" using assms(6) by (rule mset_eq_setD)
  have "es ! i \<in> dom (mh_ev s)" using assms(1) nth_mem [OF assms(2)] by (auto simp: mh_ok_def full_def mh_base_def)
  then have dom: "es ! i \<in> dom (mh_ev s1)" using assms(7) by (simp add: untouched_def set_n_def)
  have out: "min_heap_idx ev = - 1" if "mh_ev s1 x = Some ev" "x \<notin> set ys" "x \<noteq> es ! i" for x ev
  proof -
    have "mset es = add_mset (es ! i) (mset ys)" using ys assms(2) by simp
    then have "set es = insert (es ! i) (set ys)" by (metis set_mset_add_mset_insert set_mset_mset)
    then have "x \<notin> set es" using that by simp
    moreover have "mh_ev s x = Some ev" using assms(7) that(1,2) set by (simp add: untouched_def set_n_def)
    ultimately show ?thesis using assms(1) by (simp add: mh_ok_def)
  qed
  have "same_store s s'" if "same_store s1 s'" for s' using that assms(7) by (simp add: untouched_def set_n_def same_store_def)
  moreover have notin: "es ! i \<notin> set ys" using w(3) set by simp
  have "\<exists>s'. set_idx s1 (es ! i) (- 1) = Some s' \<and> mh_ok K s' ys \<and> same_store s1 s'"
    by (rule set_idx_ok [OF assms(4,5) notin dom]) (rule out)
  ultimately show ?thesis using ys by blast
qed

lemma refill_down:
  assumes "mh_ok K s es" "i < length es" "i \<noteq> length es - 1" "i = 0 \<or> K (es ! par i) \<le> K (last es)"
  shows "\<exists>s1 s' ys. min_heap_shift_down (set_n s (length es - 1)) i (last es) = Some s1 \<and> set_idx s1 (es ! i) (- 1) = Some s'
     \<and> mh_ok K s' ys \<and> mset ys = mset es - {#es ! i#} \<and> same_store s s'"
proof -
  let ?xs = "(butlast es)[i := last es]"
  have ho: "heap_ord K es" using assms(1) by (simp add: mh_ok_def)
  have l: "?xs ! i = last es" using assms(2,3) by (subst nth_list_update_eq) auto
  have "length ?xs \<le> Suc (mh_n (mh_heap (set_n s (length es - 1)))) + i" by (simp add: set_n_def)
  from shift_down_correct [OF without_last(1) [OF assms(1-3)] down_start [OF ho assms(2-4)] this]
  obtain s1 ys where s1: "min_heap_shift_down (set_n s (length es - 1)) i (last es) = Some s1" "full K s1 ys" "heap_ord K ys"
    "mset ys = mset ?xs" "untouched (set_n s (length es - 1)) s1 (set ?xs)"
    unfolding l min_heap_shift_down_def by blast
  then show ?thesis using refill_ok [OF assms(1-3) s1(2-5)] by blast
qed

lemma refill_up:
  assumes "mh_ok K s es" "i < length es" "i \<noteq> length es - 1" "0 < i" "K (last es) < K (es ! par i)"
  shows "\<exists>s1 s' ys. min_heap_shift_up (set_n s (length es - 1)) i (last es) = Some s1 \<and> set_idx s1 (es ! i) (- 1) = Some s'
     \<and> mh_ok K s' ys \<and> mset ys = mset es - {#es ! i#} \<and> same_store s s'"
proof -
  let ?xs = "(butlast es)[i := last es]"
  have ho: "heap_ord K es" using assms(1) by (simp add: mh_ok_def)
  have l: "?xs ! i = last es" using assms(2,3) by (subst nth_list_update_eq) auto
  from shift_up_correct [OF without_last(1) [OF assms(1-3)] up_start [OF ho assms(2-5)]]
  obtain s1 ys where s1: "min_heap_shift_up (set_n s (length es - 1)) i (last es) = Some s1" "full K s1 ys" "heap_ord K ys"
    "mset ys = mset ?xs" "untouched (set_n s (length es - 1)) s1 (set ?xs)"
    unfolding l by blast
  then show ?thesis using refill_ok [OF assms(1-3) s1(2-5)] by blast
qed

text \<open>What is read of the array before the element is taken out.\<close>

lemma elem_ok:
  assumes "mh_ok K s es" "j < length es"
  shows "elem (set_n s n) j = Some (es ! j)" "elem s j = Some (es ! j)"
  using assms elem_held [of K s es j] by (auto simp: mh_ok_def full_def elem_def set_n_def)

lemma min_heap_pop_ok:
  assumes "mh_ok K s es" "es \<noteq> []"
  shows "\<exists>s' ys. min_heap_pop s = Some (Some (es ! 0), s') \<and> mh_ok K s' ys \<and> mset ys = mset es - {#es ! 0#} \<and> same_store s s'"
proof -
  have n: "mh_n (mh_heap s) = length es" using assms(1) by (simp add: mh_ok_def full_def mh_base_def)
  have lt: "0 < length es" "length es - 1 < length es" using assms(2) by auto
  have l: "elem (set_n s (length es - 1)) (length es - 1) = Some (last es)"
    using elem_ok(1) [OF assms(1) lt(2)] last_conv_nth [OF assms(2)] by simp
  have eq: "min_heap_pop s = do { s \<leftarrow> min_heap_shift_down (set_n s (length es - 1)) 0 (last es); s \<leftarrow> set_idx s (es ! 0) (- 1); Some (Some (es ! 0), s) }"
    using n assms(2) l elem_ok(2) [OF assms(1) lt(1)] by (simp add: min_heap_pop_def set_n_def Let_def)
  show ?thesis
  proof (cases "length es = 1")
    case True
    then have "es ! 0 = last es" "butlast es = []" "mset es - {#last es#} = {#}"
      by (auto simp: length_Suc_conv last_conv_nth)
    then show ?thesis using remove_last [OF assms] eq True by auto
  next
    case False
    then have "0 \<noteq> length es - 1" using lt(1) by linarith
    from refill_down [OF assms(1) lt(1) this] show ?thesis using eq by auto
  qed
qed

lemma ev_ok:
  assumes "mh_ok K s es" "i < length es"
  obtains ev where "mh_ev s (es ! i) = Some ev" "min_heap_idx ev = int i"
  using assms by (auto simp: mh_ok_def full_def held_def)

lemma erase_unfold:
  assumes "mh_ok K s es" "i < length es"
  shows "min_heap_erase s (es ! i) = do {
     s \<leftarrow> (if 0 < i \<and> K (last es) < K (es ! par i) then min_heap_shift_up (set_n s (length es - 1)) i (last es)
          else min_heap_shift_down (set_n s (length es - 1)) i (last es));
     s \<leftarrow> set_idx s (es ! i) (- 1);
     Some (0, s) }"
proof -
  obtain ev where ev: "mh_ev s (es ! i) = Some ev" "min_heap_idx ev = int i" using ev_ok [OF assms] .
  have b: "mh_base K s es" using assms(1) by (simp add: mh_ok_def full_def)
  then have n: "mh_n (mh_heap s) = length es" "int (length es) < 2 ^ 31" by (simp_all add: mh_base_def)
  have ne: "es \<noteq> []" "length es - 1 < length es" using assms(2) by auto
  have u: "u32_of (int (length es) - 1) = length es - 1" "u32_of (int i) = i"
    using n(2) assms(2) by (subst u32_small; force)+
  have l: "elem (set_n s (length es - 1)) (length es - 1) = Some (last es)"
    using elem_ok(1) [OF assms(1) ne(2)] last_conv_nth [OF ne(1)] by simp
  have up: "(if 0 < int i then do { q \<leftarrow> elem (set_n s (length es - 1)) (nat ((int i - 1) div 2));
        min_heap_elem_greater (set_n s (length es - 1)) q (last es) } else Some False) = Some (0 < i \<and> K (last es) < K (es ! par i))"
  proof (cases "0 < i")
    case True
    have p: "par i < length es" using par_less [OF True] assms(2) by simp
    have "nat ((int i - 1) div 2) = par i" using True unfolding par_def by linarith
    then have "elem (set_n s (length es - 1)) (nat ((int i - 1) div 2)) = Some (es ! par i)" using elem_ok(1) [OF assms(1) p] by simp
    moreover have "min_heap_elem_greater (set_n s (length es - 1)) (es ! par i) (last es) = Some (K (last es) < K (es ! par i))"
      using greater_known [OF b nth_mem [OF p] last_in_set [OF ne(1)]] by (simp add: min_heap_elem_greater_def set_n_def)
    ultimately show ?thesis using True by simp
  qed simp
  have mn: "mh_n (mh_heap (set_n s k)) = k" for k by (simp add: set_n_def)
  show ?thesis
    unfolding min_heap_erase_def ev(1) Let_def Option.bind.bind_lunit n(1) u ev(2) mn l up by simp
qed

lemma min_heap_erase_ok:
  assumes "mh_ok K s es" "i < length es"
  shows "\<exists>s' ys. min_heap_erase s (es ! i) = Some (0, s') \<and> mh_ok K s' ys \<and> mset ys = mset es - {#es ! i#} \<and> same_store s s'"
proof (cases "i = length es - 1")
  case True
  have ne: "es \<noteq> []" using assms(2) by auto
  then have l: "es ! i = last es" using True by (simp add: last_conv_nth)
  have "mset es = add_mset (last es) (mset (butlast es))"
    using ne by (metis append_butlast_last_id mset_append mset.simps add_mset_add_single)
  then have m: "mset (butlast es) = mset es - {#es ! i#}" using l by simp
  have "\<not> (0 < i \<and> K (last es) < K (es ! par i))"
    using assms by (auto simp: mh_ok_def heap_ord_def l [symmetric] dest: leD)
  then show ?thesis using remove_last [OF assms(1) ne] m l True by (subst erase_unfold [OF assms]) auto
next
  case False
  show ?thesis
  proof (cases "0 < i \<and> K (last es) < K (es ! par i)")
    case True
    then show ?thesis using refill_up [OF assms False] by (subst erase_unfold [OF assms]) auto
  next
    case no: False
    then have "i = 0 \<or> K (es ! par i) \<le> K (last es)" by auto
    then show ?thesis using refill_down [OF assms False] no by (subst erase_unfold [OF assms]) auto
  qed
qed

lemma min_heap_erase_out:
  "mh_ok K s es \<Longrightarrow> e \<in> dom (mh_ev s) \<Longrightarrow> e \<notin> set es \<Longrightarrow> min_heap_erase s e = Some (- 1, s)"
  by (auto simp: mh_ok_def min_heap_erase_def)

lemma min_heap_top_ok: "mh_ok K s es \<Longrightarrow> min_heap_top s = Some (if es = [] then None else Some (es ! 0))"
  using elem_ok(2) [of K s es 0] by (auto simp: min_heap_top_def mh_ok_def full_def mh_base_def)

lemma min_heap_pop_empty: "mh_ok K s [] \<Longrightarrow> min_heap_pop s = Some (None, s)"
  by (simp add: min_heap_pop_def mh_ok_def full_def mh_base_def)

section \<open>The heap as a priority queue\<close>

text \<open>Popping until the queue is empty, \<open>n\<close> times at most.\<close>

primrec drain :: "('s \<Rightarrow> ('e option \<times> 's) option) \<Rightarrow> nat \<Rightarrow> 's \<Rightarrow> ('e list \<times> 's) option" where
  "drain pop 0 s = Some ([], s)"
| "drain pop (Suc n) s = do {
     (e, s) \<leftarrow> pop s;
     case e of None \<Rightarrow> Some ([], s) | Some e \<Rightarrow> do { (es, s) \<leftarrow> drain pop n s; Some (e # es, s) } }"

text \<open>What the timer code relies on: the state \<open>s\<close> queues the set \<open>S\<close> of elements, of which \<open>pop\<close> gives one with the
  least key, \<open>push\<close> adds one that is not queued (or reports that memory is exhausted and changes nothing) and \<open>erase\<close>
  removes any, queued or not.\<close>

locale priority_queue =
  fixes queue :: "'s \<Rightarrow> 'e set \<Rightarrow> bool"
    and key :: "'e \<Rightarrow> 'k::linorder"
    and room :: "'s \<Rightarrow> 'e \<Rightarrow> bool"
    and push :: "'s \<Rightarrow> 'e \<Rightarrow> (int \<times> 's) option"
    and pop :: "'s \<Rightarrow> ('e option \<times> 's) option"
    and erase :: "'s \<Rightarrow> 'e \<Rightarrow> (int \<times> 's) option"
  assumes finite_queue: "queue s S \<Longrightarrow> finite S"
    and push_new: "queue s S \<Longrightarrow> e \<notin> S \<Longrightarrow> room s e \<Longrightarrow>
      (\<exists>s'. push s e = Some (0, s') \<and> queue s' (insert e S)) \<or> push s e = Some (- 1, s)"
    and pop_least: "queue s S \<Longrightarrow> S \<noteq> {} \<Longrightarrow>
      \<exists>e s'. pop s = Some (Some e, s') \<and> e \<in> S \<and> (\<forall>x\<in>S. key e \<le> key x) \<and> queue s' (S - {e})"
    and pop_none: "queue s {} \<Longrightarrow> pop s = Some (None, s)"
    and erase_queued: "queue s S \<Longrightarrow> e \<in> S \<Longrightarrow> \<exists>s'. erase s e = Some (0, s') \<and> queue s' (S - {e})"
begin

lemma drain_sorted:
  "queue s S \<Longrightarrow> card S \<le> n \<Longrightarrow> \<exists>es s'. drain pop n s = Some (es, s') \<and> distinct es \<and> set es = S \<and> sorted (map key es) \<and> queue s' {}"
proof (induction n arbitrary: s S)
  case 0
  then show ?case using finite_queue [OF 0(1)] by auto
next
  case (Suc n)
  show ?case
  proof (cases "S = {}")
    case True
    then show ?thesis using pop_none Suc.prems(1) by auto
  next
    case False
    obtain e s1 where e: "pop s = Some (Some e, s1)" "e \<in> S" "\<forall>x\<in>S. key e \<le> key x" "queue s1 (S - {e})"
      using pop_least [OF Suc.prems(1) False] by blast
    have "card (S - {e}) \<le> n" using Suc.prems(2) e(2) finite_queue [OF Suc.prems(1)] by simp
    from Suc.IH [OF e(4) this] obtain es s' where
      "drain pop n s1 = Some (es, s')" "distinct es" "set es = S - {e}" "sorted (map key es)" "queue s' {}" by blast
    with e show ?thesis by (intro exI [of _ "e # es"]) auto
  qed
qed

text \<open>Taking out one element before leaves the others, in order.\<close>

lemma erase_then_drain:
  assumes "queue s S" "e \<in> S" "card S \<le> Suc n"
  shows "\<exists>s1 es s'. erase s e = Some (0, s1) \<and> drain pop n s1 = Some (es, s') \<and> distinct es \<and> set es = S - {e}
     \<and> sorted (map key es) \<and> queue s' {}"
proof -
  obtain s1 where s1: "erase s e = Some (0, s1)" "queue s1 (S - {e})" using erase_queued [OF assms(1,2)] by blast
  have "card (S - {e}) \<le> n" using assms finite_queue [OF assms(1)] by simp
  from drain_sorted [OF s1(2) this] show ?thesis using s1(1) by blast
qed

end

text \<open>The events \<open>S\<close> are in the heap, with the timeouts \<open>K\<close>.\<close>

definition mh_queue :: "(nat \<Rightarrow> timeval) \<Rightarrow> mh_state \<Rightarrow> nat set \<Rightarrow> bool" where
  "mh_queue K s S \<longleftrightarrow> (\<exists>es. mh_ok K s es \<and> set es = S)"

definition mh_room :: "mh_state \<Rightarrow> nat \<Rightarrow> bool" where
  "mh_room s e \<longleftrightarrow> e \<in> dom (mh_ev s) \<and> int (mh_n (mh_heap s)) + 1 < 2 ^ 31 - 1"

lemma mh_ok_distinct: "mh_ok K s es \<Longrightarrow> distinct es"
  by (simp add: mh_ok_def full_def mh_base_def)

lemma mset_remove_set:
  assumes "mh_ok K s' ys" "distinct es" "mset ys = mset es - {#x#}"
  shows "set ys = set es - {x}"
proof -
  have "mset ys = mset (remove1 x es)" using assms(3) by simp
  then have "set ys = set (remove1 x es)" by (rule mset_eq_setD)
  then show ?thesis using assms(2) by simp
qed

lemma mh_queue_erase:
  assumes "mh_queue K s S" "e \<in> S"
  shows "\<exists>s'. min_heap_erase s e = Some (0, s') \<and> mh_queue K s' (S - {e}) \<and> same_store s s'"
proof -
  obtain es i where es: "mh_ok K s es" "set es = S" "i < length es" "e = es ! i" using assms by (auto simp: mh_queue_def in_set_conv_nth)
  obtain s' ys where s': "min_heap_erase s e = Some (0, s')" "mh_ok K s' ys" "mset ys = mset es - {#e#}" "same_store s s'"
    using min_heap_erase_ok [OF es(1,3)] es(4) by blast
  then show ?thesis using mset_remove_set [OF s'(2) mh_ok_distinct [OF es(1)] s'(3)] es(2) by (auto simp: mh_queue_def)
qed

interpretation mh: priority_queue "mh_queue K" K mh_room "min_heap_push A" min_heap_pop min_heap_erase for K A
proof unfold_locales
  fix s S e
  show "mh_queue K s S \<Longrightarrow> finite S" by (auto simp: mh_queue_def)
  show "(\<exists>s'. min_heap_push A s e = Some (0, s') \<and> mh_queue K s' (insert e S)) \<or> min_heap_push A s e = Some (- 1, s)"
    if q: "mh_queue K s S" "e \<notin> S" "mh_room s e"
  proof -
    obtain es where es: "mh_ok K s es" "set es = S" using q(1) by (auto simp: mh_queue_def)
    then have "mh_n (mh_heap s) = length es" by (simp add: mh_ok_def full_def mh_base_def)
    then have "e \<in> dom (mh_ev s)" "int (length es) + 1 < 2 ^ 31 - 1" using q(3) by (auto simp: mh_room_def)
    from min_heap_push_ok [OF es(1) this(1) _ this(2), of A] es(2) q(2)
    have "(\<exists>s' ys. min_heap_push A s e = Some (0, s') \<and> mh_ok K s' ys \<and> mset ys = mset (e # es)) \<or> min_heap_push A s e = Some (- 1, s)"
      by auto
    moreover have "mset ys = mset (e # es) \<Longrightarrow> set ys = insert e S" for ys using mset_eq_setD [of ys "e # es"] es(2) by simp
    ultimately show ?thesis unfolding mh_queue_def by blast
  qed
  show "\<exists>e s'. min_heap_pop s = Some (Some e, s') \<and> e \<in> S \<and> (\<forall>x\<in>S. K e \<le> K x) \<and> mh_queue K s' (S - {e})"
    if q: "mh_queue K s S" "S \<noteq> {}"
  proof -
    obtain es where es: "mh_ok K s es" "set es = S" "es \<noteq> []" using q by (auto simp: mh_queue_def)
    obtain s' ys where s': "min_heap_pop s = Some (Some (es ! 0), s')" "mh_ok K s' ys" "mset ys = mset es - {#es ! 0#}"
      using min_heap_pop_ok [OF es(1,3)] by blast
    have "\<forall>x\<in>S. K (es ! 0) \<le> K x" using heap_ord_top [of K es] es(1,2) by (auto simp: mh_ok_def in_set_conv_nth)
    moreover have "mh_queue K s' (S - {es ! 0})" using mset_remove_set [OF s'(2) mh_ok_distinct [OF es(1)] s'(3)] s'(2) es(2) by (auto simp: mh_queue_def)
    moreover have "es ! 0 \<in> S" using es(2,3) by auto
    ultimately show ?thesis using s'(1) by blast
  qed
  show "mh_queue K s {} \<Longrightarrow> min_heap_pop s = Some (None, s)" by (auto simp: mh_queue_def intro: min_heap_pop_empty)
  show "mh_queue K s S \<Longrightarrow> e \<in> S \<Longrightarrow> \<exists>s'. min_heap_erase s e = Some (0, s') \<and> mh_queue K s' (S - {e})"
    using mh_queue_erase by blast
qed

text \<open>The operations on the queue together with what they leave alone. After a successful \<^verbatim>\<open>min_heap_reserve\<close> a push needs
  no memory.\<close>

lemma mh_queue_size: "mh_queue K s S \<Longrightarrow> mh_n (mh_heap s) = card S"
  by (auto simp: mh_queue_def mh_ok_def full_def mh_base_def distinct_card)

lemma mh_queue_push:
  assumes "mh_queue K s S" "e \<notin> S" "e \<in> dom (mh_ev s)" "card S < mh_a (mh_heap s)" "int (card S) + 1 < 2 ^ 31 - 1"
  shows "\<exists>s'. min_heap_push A s e = Some (0, s') \<and> mh_queue K s' (insert e S) \<and> dom (mh_ev s') = dom (mh_ev s)"
proof -
  obtain es where es: "mh_ok K s es" "set es = S" using assms(1) by (auto simp: mh_queue_def)
  have n: "length es = card S" "mh_n (mh_heap s) = card S" using es mh_queue_size [OF assms(1)] mh_ok_distinct [OF es(1)] distinct_card [of es] by auto
  have "u32_of (int (card S) + 1) = card S + 1" using assms(5) by (subst u32_small) auto
  then have nofail: "min_heap_push A s e = Some (- 1, s) \<Longrightarrow> False"
    using assms(4) n by (auto simp: min_heap_push_def min_heap_reserve_def Let_def bind_eq_Some_conv)
  have "(\<exists>s' ys. min_heap_push A s e = Some (0, s') \<and> mh_ok K s' ys \<and> mset ys = mset (e # es) \<and> dom (mh_ev s') = dom (mh_ev s))"
    using min_heap_push_ok [OF es(1) assms(3), of A] nofail es(2) assms(2,5) n(1) by auto
  moreover have "mset ys = mset (e # es) \<Longrightarrow> set ys = insert e S" for ys using mset_eq_setD [of ys "e # es"] es(2) by simp
  ultimately show ?thesis unfolding mh_queue_def by blast
qed

lemma mh_queue_reserve:
  assumes "mh_queue K s S" "int (card S) + 1 < 2 ^ 31 - 1"
  shows "(\<exists>s'. min_heap_reserve A s (u32_of (1 + int (min_heap_size s))) = (0, s') \<and> mh_queue K s' S \<and> card S < mh_a (mh_heap s') \<and> mh_ev s' = mh_ev s)
         \<or> min_heap_reserve A s (u32_of (1 + int (min_heap_size s))) = (- 1, s)"
proof -
  obtain es where es: "mh_ok K s es" "set es = S" using assms(1) by (auto simp: mh_queue_def)
  have n: "length es = card S" using es mh_ok_distinct [OF es(1)] distinct_card [of es] by auto
  have u: "u32_of (1 + int (min_heap_size s)) = length es + 1"
    unfolding min_heap_size_def mh_queue_size [OF assms(1)] n using assms(2) by (subst u32_small) auto
  have "int (length es + 1) < 2 ^ 31 - 1" using assms(2) n by simp
  from reserve_ok [OF es(1) refl this, of A] show ?thesis unfolding u mh_queue_def using es(2) n by force
qed

lemma mh_queue_top:
  assumes "mh_queue K s S"
  shows "(S = {} \<and> min_heap_top s = Some None) \<or> (\<exists>t \<in> S. min_heap_top s = Some (Some t) \<and> (\<forall>x \<in> S. K t \<le> K x))"
proof -
  obtain es where es: "mh_ok K s es" "set es = S" using assms by (auto simp: mh_queue_def)
  show ?thesis
  proof (cases "es = []")
    case True
    then show ?thesis using min_heap_top_ok [OF es(1)] es(2) by auto
  next
    case False
    have "\<forall>x \<in> S. K (es ! 0) \<le> K x" using heap_ord_top [of K es] es by (auto simp: mh_ok_def in_set_conv_nth)
    moreover have "es ! 0 \<in> S" using es(2) False by auto
    ultimately show ?thesis using min_heap_top_ok [OF es(1)] False by auto
  qed
qed

section \<open>Properties\<close>

text \<open>\<^verbatim>\<open>min_heap_pop\<close> called until the heap is empty gives every event that was in it exactly once, in the order of the
  timeouts, and never faults; afterwards no event has an index of the heap any more.\<close>

theorem min_heap_pop_sorts:
  assumes "mh_queue K s S" "card S \<le> n"
  shows "\<exists>es s'. drain min_heap_pop n s = Some (es, s') \<and> distinct es \<and> set es = S \<and> sorted (map K es)
     \<and> min_heap_empty s' \<and> (\<forall>ev \<in> ran (mh_ev s'). min_heap_idx ev = - 1)"
proof -
  have "min_heap_empty s \<and> (\<forall>ev \<in> ran (mh_ev s). min_heap_idx ev = - 1)" if "mh_queue K s {}" for s
    using that by (auto simp: mh_queue_def mh_ok_def full_def mh_base_def min_heap_empty_def ran_def)
  then show ?thesis using mh.drain_sorted [OF assms] by blast
qed

text \<open>C14: \<^verbatim>\<open>min_heap_erase\<close> takes any event out of the heap by the index the event keeps, wherever it is: the call returns 0,
  the other events stay, with their indices right and every event no earlier than its parent, so the remaining ones still
  come out in order; an event that is not in the heap is refused with -1 and nothing changes.\<close>

theorem min_heap_erase_refines:
  assumes "mh_queue K s S" "e \<in> dom (mh_ev s)" "card S \<le> Suc n"
  shows "if e \<in> S
     then \<exists>s1 es s'. min_heap_erase s e = Some (0, s1) \<and> mh_queue K s1 (S - {e}) \<and> drain min_heap_pop n s1 = Some (es, s')
            \<and> distinct es \<and> set es = S - {e} \<and> sorted (map K es)
     else min_heap_erase s e = Some (- 1, s)"
proof (cases "e \<in> S")
  case True
  then show ?thesis using mh.erase_then_drain [OF assms(1) True assms(3)] mh.erase_queued [OF assms(1) True] by auto
next
  case False
  then show ?thesis using assms(1,2) by (auto simp: mh_queue_def intro: min_heap_erase_out)
qed

text \<open>\<^verbatim>\<open>min_heap_push\<close> adds an event that is not in the heap; when the array cannot grow it returns -1 and leaves the heap
  as it was. Afterwards \<^verbatim>\<open>min_heap_top\<close> is an event of the heap with the least timeout.\<close>

theorem min_heap_push_refines:
  assumes "mh_queue K s S" "e \<notin> S" "mh_room s e"
  shows "min_heap_push A s e = Some (- 1, s) \<or>
     (\<exists>s' t. min_heap_push A s e = Some (0, s') \<and> mh_queue K s' (insert e S) \<and> min_heap_top s' = Some (Some t)
        \<and> t \<in> insert e S \<and> (\<forall>x \<in> insert e S. K t \<le> K x))"
proof -
  have top: "\<exists>t. min_heap_top s' = Some (Some t) \<and> t \<in> T \<and> (\<forall>x \<in> T. K t \<le> K x)" if "mh_queue K s' T" "T \<noteq> {}" for s' T
    using mh_queue_top [OF that(1)] that(2) by blast
  show ?thesis using mh.push_new [OF assms, of A] top by blast
qed

section \<open>Concrete heaps\<close>

definition mh_events :: "nat \<Rightarrow> event option" where
  "mh_events = [0 \<mapsto> \<lparr>ev_timeout = Timeval 5 0, min_heap_idx = - 1\<rparr>, 1 \<mapsto> \<lparr>ev_timeout = Timeval 3 200, min_heap_idx = - 1\<rparr>,
     2 \<mapsto> \<lparr>ev_timeout = Timeval 3 100, min_heap_idx = - 1\<rparr>, 3 \<mapsto> \<lparr>ev_timeout = Timeval 9 0, min_heap_idx = - 1\<rparr>]"

definition mh_times :: "nat \<Rightarrow> timeval" where
  "mh_times e = (case mh_events e of Some ev \<Rightarrow> ev_timeout ev | None \<Rightarrow> Timeval 0 0)"

definition mh_start :: mh_state where
  "mh_start = \<lparr>mh_heap = min_heap_ctor, mh_ev = mh_events\<rparr>"

lemma mh_start_queue: "mh_queue mh_times mh_start {}"
  by (auto simp: mh_queue_def mh_ok_def full_def mh_base_def heap_ord_def mh_start_def min_heap_ctor_def mh_times_def
      mh_events_def split: if_splits)

text \<open>The heap after the four events were pushed in the order of their numbers.\<close>

definition mh_sample :: mh_state where
  "mh_sample = \<lparr>mh_heap = \<lparr>mh_p = [Some 2, Some 0, Some 1, Some 3, None, None, None, None], mh_n = 4, mh_a = 8\<rparr>,
     mh_ev = [0 \<mapsto> \<lparr>ev_timeout = Timeval 5 0, min_heap_idx = 1\<rparr>, 1 \<mapsto> \<lparr>ev_timeout = Timeval 3 200, min_heap_idx = 2\<rparr>,
       2 \<mapsto> \<lparr>ev_timeout = Timeval 3 100, min_heap_idx = 0\<rparr>, 3 \<mapsto> \<lparr>ev_timeout = Timeval 9 0, min_heap_idx = 3\<rparr>]\<rparr>"

lemma mh_sample_ok: "mh_ok mh_times mh_sample [2, 0, 1, 3]"
proof -
  have i: "i < length [2, 0, 1, 3::nat] \<longleftrightarrow> i = 0 \<or> i = 1 \<or> i = 2 \<or> i = 3" for i by auto
  have "heap_ord mh_times [2, 0, 1, 3]"
    unfolding heap_ord_def i by (auto simp: par_def mh_times_def mh_events_def less_eq_timeval_def)
  moreover have "held mh_sample [2, 0, 1, 3] i" if "i < length [2, 0, 1, 3::nat]" for i
    using that unfolding i by (auto simp: held_def mh_sample_def)
  ultimately show ?thesis
    by (auto simp: mh_ok_def full_def mh_base_def mh_sample_def mh_times_def mh_events_def split: if_splits)
qed

lemma mh_sample_queue: "mh_queue mh_times mh_sample {0, 1, 2, 3}"
  using mh_sample_ok by (force simp: mh_queue_def)

text \<open>The four events come out in the order of their timeouts.\<close>

theorem min_heap_pop_sorts_witness:
  "mh_queue mh_times mh_sample {0, 1, 2, 3} \<and> card {0, 1, 2, 3::nat} \<le> 4 \<and>
   (\<exists>es s'. drain min_heap_pop 4 mh_sample = Some (es, s') \<and> distinct es \<and> set es = {0, 1, 2, 3} \<and> sorted (map mh_times es)
     \<and> min_heap_empty s' \<and> (\<forall>ev \<in> ran (mh_ev s'). min_heap_idx ev = - 1))
   \<and> map_option fst (drain min_heap_pop 4 mh_sample) = Some [2, 1, 0, 3]"
proof -
  have "map_option fst (drain min_heap_pop 4 mh_sample) = Some [2, 1, 0, 3]" by code_simp
  moreover have "card {0, 1, 2, 3::nat} \<le> 4" by simp
  ultimately show ?thesis using min_heap_pop_sorts [OF mh_sample_queue, of 4] mh_sample_queue by blast
qed

text \<open>The event in the middle of the heap is taken out, and event 3 moves.\<close>

theorem min_heap_erase_refines_witness:
  "mh_queue mh_times mh_sample {0, 1, 2, 3} \<and> 0 \<in> dom (mh_ev mh_sample) \<and> card {0, 1, 2, 3::nat} \<le> Suc 3 \<and>
   (\<exists>s1 es s'. min_heap_erase mh_sample 0 = Some (0, s1) \<and> mh_queue mh_times s1 ({0, 1, 2, 3} - {0})
      \<and> drain min_heap_pop 3 s1 = Some (es, s') \<and> distinct es \<and> set es = {0, 1, 2, 3} - {0} \<and> sorted (map mh_times es))"
proof -
  have d: "0 \<in> dom (mh_ev mh_sample)" by (simp add: mh_sample_def)
  have c: "card {0, 1, 2, 3::nat} \<le> Suc 3" by simp
  show ?thesis using min_heap_erase_refines [OF mh_sample_queue d c] mh_sample_queue d c by simp
qed

theorem min_heap_push_refines_witness:
  "mh_queue mh_times mh_start {} \<and> 3 \<notin> ({}::nat set) \<and> mh_room mh_start 3 \<and>
   (min_heap_push (\<lambda>k. k < 64) mh_start 3 = Some (- 1, mh_start) \<or>
     (\<exists>s' t. min_heap_push (\<lambda>k. k < 64) mh_start 3 = Some (0, s') \<and> mh_queue mh_times s' (insert 3 {}) \<and> min_heap_top s' = Some (Some t)
        \<and> t \<in> insert 3 {} \<and> (\<forall>x \<in> insert 3 {}. mh_times t \<le> mh_times x)))
   \<and> map_option fst (min_heap_push (\<lambda>k. k < 64) mh_start 3) = Some (- 1)
   \<and> map_option fst (min_heap_push (\<lambda>k. k < 65) mh_start 3) = Some 0"
proof -
  have r: "mh_room mh_start 3" by (simp add: mh_room_def mh_start_def mh_events_def min_heap_ctor_def)
  have e: "map_option fst (min_heap_push (\<lambda>k. k < 64) mh_start 3) = Some (- 1)"
    "map_option fst (min_heap_push (\<lambda>k. k < 65) mh_start 3) = Some 0" by code_simp+
  show ?thesis using min_heap_push_refines [OF mh_start_queue _ r, of "\<lambda>k. k < 64"] mh_start_queue r e by simp
qed

end
