(* ===== verification/EventBase.thy ===== *)
theory EventBase
  imports MinHeap
begin

unbundle bit_operations_syntax

text \<open>
  The core of libevent, \<^verbatim>\<open>src/libevent/event.c\<close> and \<^verbatim>\<open>src/libevent/evmap.c\<close>: an event base with its events, the queue of
  the added events, the queues of the active ones, the heap and the common queues of timeouts, and the maps from file
  descriptors and signals to events. Modelled is the build without threads and with the debug mode off, on a system
  whose descriptors are small numbers (no \<^verbatim>\<open>EVMAP_USE_HT\<close>); there the locks and the wake-ups of another thread do nothing.

  The backend (\<^verbatim>\<open>struct eventop\<close>), the clocks, the memory allocator and the callbacks of the user are parameters. The lists
  of \<^verbatim>\<open>sys/queue.h\<close> are lists of events; removing an element that is not in the list is a fault. A fault, a failed
  \<^verbatim>\<open>EVUTIL_ASSERT\<close> and the exit by \<^verbatim>\<open>event_errx\<close> are \<open>None\<close>. Bit masks are the sets of their bits.
\<close>

section \<open>Events\<close>

datatype ev_what = EV_TIMEOUT | EV_READ | EV_WRITE | EV_SIGNAL | EV_PERSIST | EV_ET

datatype evlist = EVLIST_TIMEOUT | EVLIST_INSERTED | EVLIST_SIGNAL | EVLIST_ACTIVE | EVLIST_INTERNAL | EVLIST_INIT

datatype ev_closure = EV_CLOSURE_NONE | EV_CLOSURE_SIGNAL | EV_CLOSURE_PERSIST

text \<open>The callback of the user, or the one of the common timeout queue with that index.\<close>

datatype ev_callback = User_cb | Common_timeout_cb nat

text \<open>\<^verbatim>\<open>struct event\<close> without the fields the heap uses, which are in \<open>mh_ev\<close>. \<open>ev_base\<close> says whether the base is set. The
  variable that \<^verbatim>\<open>ev_pncalls\<close> points to is named by a number. The index in the heap shares its memory with the links of
  a common timeout queue, but is only read of events in the heap; \<^verbatim>\<open>ev_io_timeout\<close> shares its memory with \<^verbatim>\<open>ev_ncalls\<close> and
  \<^verbatim>\<open>ev_pncalls\<close>, but the one is used for persistent events that are not signals and the others for signals.\<close>

record ev_info =
  ev_fd :: int
  ev_base :: bool
  ev_events :: "ev_what set"
  ev_res :: "ev_what set"
  ev_flags :: "evlist set"
  ev_pri :: nat
  ev_closure :: ev_closure
  ev_io_timeout :: timeval
  ev_ncalls :: int
  ev_pncalls :: "nat option"
  ev_callback :: ev_callback

record evmap_io =
  io_events :: "nat list"
  io_nread :: int
  io_nwrite :: int

record common_timeout_list =
  ctl_events :: "nat list"
  ctl_duration :: timeval
  ctl_timeout_event :: nat

text \<open>The base with its events. \<open>evbase\<close> is the data of the backend, \<open>bs_reads\<close> counts the readings of the clocks,
  \<open>activequeues_id\<close> changes when the array of the active queues is allocated anew and
  \<open>bs_frames\<close> has the variables \<^verbatim>\<open>ncalls\<close> of the calls of \<^verbatim>\<open>event_signal_closure\<close> that are running.\<close>

record 'b event_base =
  timeheap :: mh_state
  bs_info :: "nat \<Rightarrow> ev_info option"
  eventqueue :: "nat list"
  activequeues :: "nat list list"
  activequeues_id :: nat
  common_timeout_queues :: "common_timeout_list list"
  n_common_timeouts_allocated :: nat
  bs_io :: "evmap_io option list"
  bs_sigmap :: "nat list option list"
  virtual_event_count :: int
  event_count :: int
  event_count_active :: int
  event_gotterm :: bool
  event_break :: bool
  event_continue :: bool
  event_running_priority :: int
  running_loop :: bool
  deferred_cb_list :: "nat list"
  defer_active_count :: int
  cb_queued :: "nat \<Rightarrow> bool"
  event_tv :: timeval
  tv_cache :: timeval
  tv_clock_diff :: timeval
  last_updated_clock_diff :: int
  no_cache_time :: bool
  evbase :: 'b
  bs_reads :: nat
  bs_frames :: "nat \<Rightarrow> int option"
  bs_next_frame :: nat

text \<open>The environment: the allocator, the functions of the backend for descriptors (\<open>evsel\<close>: its data, the descriptor, the
  events so far and the events to add or delete; they return 0 or -1) and for signals (\<open>evsigsel\<close>, which may use the
  base), the clocks at their \<open>n\<close>-th reading and the waiting for events.\<close>

record 'b env =
  mm_alloc :: allocator
  evsel_fdinfo_len :: int
  evsel_add :: "'b \<Rightarrow> int \<Rightarrow> ev_what set \<Rightarrow> ev_what set \<Rightarrow> int \<times> 'b"
  evsel_del :: "'b \<Rightarrow> int \<Rightarrow> ev_what set \<Rightarrow> ev_what set \<Rightarrow> int \<times> 'b"
  evsigsel_fdinfo_len :: int
  evsigsel_add :: "'b event_base \<Rightarrow> int \<Rightarrow> int \<times> 'b event_base"
  evsigsel_del :: "'b event_base \<Rightarrow> int \<Rightarrow> int \<times> 'b event_base"
  use_monotonic :: bool
  clock_monotonic :: "nat \<Rightarrow> (int \<times> int) option"
  clock_wall :: "nat \<Rightarrow> timeval"

section \<open>Access to events and queues\<close>

definition info_upd :: "'b event_base \<Rightarrow> nat \<Rightarrow> (ev_info \<Rightarrow> ev_info) \<Rightarrow> 'b event_base option" where
  "info_upd s e f = do { i \<leftarrow> bs_info s e; Some (s\<lparr>bs_info := (bs_info s)(e \<mapsto> f i)\<rparr>) }"

definition timeout_of :: "'b event_base \<Rightarrow> nat \<Rightarrow> timeval option" where
  "timeout_of s e = map_option ev_timeout (mh_ev (timeheap s) e)"

definition set_timeout :: "'b event_base \<Rightarrow> nat \<Rightarrow> timeval \<Rightarrow> 'b event_base option" where
  "set_timeout s e tv = do {
     ev \<leftarrow> mh_ev (timeheap s) e;
     Some (s\<lparr>timeheap := (timeheap s)\<lparr>mh_ev := (mh_ev (timeheap s))(e \<mapsto> ev\<lparr>ev_timeout := tv\<rparr>)\<rparr>\<rparr>) }"

definition tailq_remove :: "nat list \<Rightarrow> nat \<Rightarrow> nat list option" where
  "tailq_remove es e = (if e \<in> set es then Some (remove1 e es) else None)"

section \<open>Time\<close>

text \<open>\<^verbatim>\<open>gettime\<close>: \<open>None\<close> for a failing clock.\<close>

definition gettime :: "'b env \<Rightarrow> 'b event_base \<Rightarrow> timeval option \<times> 'b event_base" where
  "gettime E s =
     (if tv_sec (tv_cache s) \<noteq> 0 then (Some (tv_cache s), s)
      else let k = bs_reads s; s = s\<lparr>bs_reads := k + 1\<rparr>
        in if use_monotonic E
           then case clock_monotonic E k of
                  None \<Rightarrow> (None, s)
                | Some (sec, nsec) \<Rightarrow>
                    let tp = Timeval sec (nsec div 1000)
                    in if last_updated_clock_diff s + (- 1) < sec
                       then (Some tp, s\<lparr>tv_clock_diff := evutil_timersub (clock_wall E k) tp, last_updated_clock_diff := sec\<rparr>)
                       else (Some tp, s)
           else (Some (clock_wall E k), s))"

definition clear_time_cache :: "'b event_base \<Rightarrow> 'b event_base" where
  "clear_time_cache s = s\<lparr>tv_cache := Timeval 0 (tv_usec (tv_cache s))\<rparr>"

definition update_time_cache :: "'b env \<Rightarrow> 'b event_base \<Rightarrow> 'b event_base" where
  "update_time_cache E s =
     (let s = clear_time_cache s
      in if no_cache_time s then s
         else case gettime E s of (Some tv, s) \<Rightarrow> s\<lparr>tv_cache := tv\<rparr> | (None, s) \<Rightarrow> s)"

section \<open>Common timeouts\<close>

definition MICROSECONDS_MASK :: int where "MICROSECONDS_MASK = 0x000fffff"
definition COMMON_TIMEOUT_IDX_MASK :: int where "COMMON_TIMEOUT_IDX_MASK = 0x0ff00000"
definition COMMON_TIMEOUT_MASK :: int where "COMMON_TIMEOUT_MASK = 0xf0000000"
definition COMMON_TIMEOUT_MAGIC :: int where "COMMON_TIMEOUT_MAGIC = 0x50000000"

definition COMMON_TIMEOUT_IDX :: "timeval \<Rightarrow> nat" where
  "COMMON_TIMEOUT_IDX tv = nat (drop_bit 20 (tv_usec tv AND COMMON_TIMEOUT_IDX_MASK))"

definition is_common_timeout :: "timeval \<Rightarrow> 'b event_base \<Rightarrow> bool" where
  "is_common_timeout tv s \<longleftrightarrow>
     tv_usec tv AND COMMON_TIMEOUT_MASK = COMMON_TIMEOUT_MAGIC \<and> COMMON_TIMEOUT_IDX tv < length (common_timeout_queues s)"

definition is_same_common_timeout :: "timeval \<Rightarrow> timeval \<Rightarrow> bool" where
  "is_same_common_timeout tv1 tv2 \<longleftrightarrow> tv_usec tv1 AND NOT MICROSECONDS_MASK = tv_usec tv2 AND NOT MICROSECONDS_MASK"

definition get_common_timeout_list :: "'b event_base \<Rightarrow> timeval \<Rightarrow> common_timeout_list option" where
  "get_common_timeout_list s tv = peek (common_timeout_queues s) (COMMON_TIMEOUT_IDX tv)"

definition set_ctl_events :: "'b event_base \<Rightarrow> timeval \<Rightarrow> nat list \<Rightarrow> 'b event_base" where
  "set_ctl_events s tv es =
     s\<lparr>common_timeout_queues := (common_timeout_queues s)[COMMON_TIMEOUT_IDX tv :=
         (common_timeout_queues s ! COMMON_TIMEOUT_IDX tv)\<lparr>ctl_events := es\<rparr>]\<rparr>"

definition mask_usec :: "timeval \<Rightarrow> timeval" where
  "mask_usec tv = Timeval (tv_sec tv) (tv_usec tv AND MICROSECONDS_MASK)"

text \<open>\<^verbatim>\<open>insert_common_timeout_inorder\<close>: the search goes from the end of the list, here the reversed list.\<close>

fun insert_from_end :: "'b event_base \<Rightarrow> nat list \<Rightarrow> nat \<Rightarrow> timeval \<Rightarrow> nat list option" where
  "insert_from_end s [] ev tv = Some [ev]"
| "insert_from_end s (e # es) ev tv = do {
     t \<leftarrow> timeout_of s e;
     if \<not> is_same_common_timeout t tv then None
     else if evutil_timercmp tv t (\<ge>) then Some (ev # e # es)
     else map_option ((#) e) (insert_from_end s es ev tv) }"

definition insert_common_timeout_inorder :: "'b event_base \<Rightarrow> nat \<Rightarrow> timeval \<Rightarrow> 'b event_base option" where
  "insert_common_timeout_inorder s ev tv = do {
     ctl \<leftarrow> get_common_timeout_list s tv;
     es \<leftarrow> insert_from_end s (rev (ctl_events ctl)) ev tv;
     Some (set_ctl_events s tv (rev es)) }"

section \<open>The queues\<close>

definition event_queue_remove :: "'b event_base \<Rightarrow> nat \<Rightarrow> evlist \<Rightarrow> 'b event_base option" where
  "event_queue_remove s ev queue = do {
     i \<leftarrow> bs_info s ev;
     if queue \<notin> ev_flags i then None
     else do {
       let s = (if EVLIST_INTERNAL \<notin> ev_flags i then s\<lparr>event_count := event_count s - 1\<rparr> else s);
       s \<leftarrow> info_upd s ev (\<lambda>i. i\<lparr>ev_flags := ev_flags i - {queue}\<rparr>);
       case queue of
         EVLIST_INSERTED \<Rightarrow> do { es \<leftarrow> tailq_remove (eventqueue s) ev; Some (s\<lparr>eventqueue := es\<rparr>) }
       | EVLIST_ACTIVE \<Rightarrow> do {
           let s = s\<lparr>event_count_active := event_count_active s - 1\<rparr>;
           q \<leftarrow> peek (activequeues s) (ev_pri i);
           es \<leftarrow> tailq_remove q ev;
           Some (s\<lparr>activequeues := (activequeues s)[ev_pri i := es]\<rparr>) }
       | EVLIST_TIMEOUT \<Rightarrow> do {
           tv \<leftarrow> timeout_of s ev;
           if is_common_timeout tv s
           then do {
             ctl \<leftarrow> get_common_timeout_list s tv;
             es \<leftarrow> tailq_remove (ctl_events ctl) ev;
             Some (set_ctl_events s tv es) }
           else do { (r, h) \<leftarrow> min_heap_erase (timeheap s) ev; Some (s\<lparr>timeheap := h\<rparr>) } }
       | _ \<Rightarrow> None } }"

definition event_queue_insert :: "'b env \<Rightarrow> 'b event_base \<Rightarrow> nat \<Rightarrow> evlist \<Rightarrow> 'b event_base option" where
  "event_queue_insert E s ev queue = do {
     i \<leftarrow> bs_info s ev;
     if queue \<in> ev_flags i then (if queue = EVLIST_ACTIVE then Some s else None)
     else do {
       let s = (if EVLIST_INTERNAL \<notin> ev_flags i then s\<lparr>event_count := event_count s + 1\<rparr> else s);
       s \<leftarrow> info_upd s ev (\<lambda>i. i\<lparr>ev_flags := insert queue (ev_flags i)\<rparr>);
       case queue of
         EVLIST_INSERTED \<Rightarrow> Some (s\<lparr>eventqueue := eventqueue s @ [ev]\<rparr>)
       | EVLIST_ACTIVE \<Rightarrow> do {
           let s = s\<lparr>event_count_active := event_count_active s + 1\<rparr>;
           q \<leftarrow> peek (activequeues s) (ev_pri i);
           Some (s\<lparr>activequeues := (activequeues s)[ev_pri i := q @ [ev]]\<rparr>) }
       | EVLIST_TIMEOUT \<Rightarrow> do {
           tv \<leftarrow> timeout_of s ev;
           if is_common_timeout tv s then insert_common_timeout_inorder s ev tv
           else do { (r, h) \<leftarrow> min_heap_push (mm_alloc E) (timeheap s) ev; Some (s\<lparr>timeheap := h\<rparr>) } }
       | _ \<Rightarrow> None } }"

section \<open>The maps from descriptors and signals to events\<close>

text \<open>The doubling of \<^verbatim>\<open>evmap_make_space\<close>; a shift out of the range of \<^verbatim>\<open>int\<close> is undefined.\<close>

function grow_entries :: "int \<Rightarrow> int \<Rightarrow> int option" where
  "grow_entries nentries slot =
     (if nentries \<le> slot then (if 0 < nentries \<and> 2 * nentries < 2 ^ 31 then grow_entries (2 * nentries) slot else None)
      else Some nentries)"
  by pat_completeness auto
termination by (relation "measure (\<lambda>(n, slot). nat (slot + 1 - n))") auto

declare grow_entries.simps [simp del]

definition evmap_make_space :: "allocator \<Rightarrow> 'a option list \<Rightarrow> int \<Rightarrow> int \<Rightarrow> (int \<times> 'a option list) option" where
  "evmap_make_space A entries slot msize =
     (let n = int (length entries)
      in if n \<le> slot
         then do {
           nentries \<leftarrow> grow_entries (if n \<noteq> 0 then n else 32) slot;
           if 2 ^ 31 \<le> nentries * msize then None
           else if \<not> A (nentries * msize) then Some (- 1, entries)
           else Some (0, entries @ replicate (nat (nentries - n)) None) }
         else Some (0, entries))"

definition evmap_io_init :: evmap_io where
  "evmap_io_init = \<lparr>io_events = [], io_nread = 0, io_nwrite = 0\<rparr>"

text \<open>\<^verbatim>\<open>GET_SIGNAL_SLOT_AND_CTOR\<close>: the entry at \<open>slot\<close>, constructed when it is missing; \<open>None\<close> inside is the return of -1.\<close>

definition get_slot_and_ctor :: "allocator \<Rightarrow> 'a option list \<Rightarrow> int \<Rightarrow> 'a \<Rightarrow> int \<Rightarrow> ('a \<times> 'a option list) option option" where
  "get_slot_and_ctor A entries slot ctor bytes =
     (if slot < 0 then None
      else do {
        x \<leftarrow> peek entries (nat slot);
        case x of
          Some c \<Rightarrow> Some (Some (c, entries))
        | None \<Rightarrow> if \<not> A bytes then Some None else Some (Some (ctor, entries[nat slot := Some ctor])) })"

definition set_slot :: "'b event_base \<Rightarrow> int \<Rightarrow> evmap_io \<Rightarrow> 'b event_base" where
  "set_slot s fd ctx = s\<lparr>bs_io := (bs_io s)[nat fd := Some ctx]\<rparr>"

definition wanted :: "bool \<Rightarrow> bool \<Rightarrow> ev_what set" where
  "wanted r w = (if r then {EV_READ} else {}) \<union> (if w then {EV_WRITE} else {})"

text \<open>The part of \<^verbatim>\<open>evmap_io_add\<close> after the entry of the descriptor was found.\<close>

definition evmap_io_enter :: "'b env \<Rightarrow> 'b event_base \<Rightarrow> int \<Rightarrow> nat \<Rightarrow> ev_info \<Rightarrow> evmap_io \<Rightarrow> int \<times> 'b event_base" where
  "evmap_io_enter E s fd ev i ctx =
     (let old = wanted (io_nread ctx \<noteq> 0) (io_nwrite ctx \<noteq> 0);
          nread = io_nread ctx + (if EV_READ \<in> ev_events i then 1 else 0);
          nwrite = io_nwrite ctx + (if EV_WRITE \<in> ev_events i then 1 else 0);
          res = wanted (EV_READ \<in> ev_events i \<and> nread = 1) (EV_WRITE \<in> ev_events i \<and> nwrite = 1);
          ctx' = ctx\<lparr>io_nread := nread, io_nwrite := nwrite, io_events := io_events ctx @ [ev]\<rparr>
      in if nread > 0xffff \<or> nwrite > 0xffff then (- 1, s)
         else if res \<noteq> {}
         then (case evsel_add E (evbase s) (ev_fd i) old ((ev_events i \<inter> {EV_ET}) \<union> res) of
                 (r, b) \<Rightarrow> if r = - 1 then (- 1, s\<lparr>evbase := b\<rparr>) else (1, set_slot (s\<lparr>evbase := b\<rparr>) fd ctx'))
         else (0, set_slot s fd ctx'))"

definition evmap_io_add :: "'b env \<Rightarrow> 'b event_base \<Rightarrow> int \<Rightarrow> nat \<Rightarrow> (int \<times> 'b event_base) option" where
  "evmap_io_add E s fd ev = do {
     i \<leftarrow> bs_info s ev;
     if fd \<noteq> ev_fd i then None
     else if fd < 0 then Some (0, s)
     else do {
       (r, io) \<leftarrow> evmap_make_space (mm_alloc E) (bs_io s) fd 8;
       if r = - 1 then Some (- 1, s)
       else do {
         x \<leftarrow> get_slot_and_ctor (mm_alloc E) io fd evmap_io_init (24 + evsel_fdinfo_len E);
         case x of
           None \<Rightarrow> Some (- 1, s\<lparr>bs_io := io\<rparr>)
         | Some (ctx, io) \<Rightarrow> Some (evmap_io_enter E (s\<lparr>bs_io := io\<rparr>) fd ev i ctx) } } }"

definition evmap_io_leave :: "'b env \<Rightarrow> 'b event_base \<Rightarrow> int \<Rightarrow> nat \<Rightarrow> ev_info \<Rightarrow> evmap_io \<Rightarrow> (int \<times> 'b event_base) option" where
  "evmap_io_leave E s fd ev i ctx =
     (let old = wanted (io_nread ctx \<noteq> 0) (io_nwrite ctx \<noteq> 0);
          nread = io_nread ctx - (if EV_READ \<in> ev_events i then 1 else 0);
          nwrite = io_nwrite ctx - (if EV_WRITE \<in> ev_events i then 1 else 0);
          res = wanted (EV_READ \<in> ev_events i \<and> nread = 0) (EV_WRITE \<in> ev_events i \<and> nwrite = 0);
          done = (\<lambda>r s. do {
            es \<leftarrow> tailq_remove (io_events ctx) ev;
            Some (r, set_slot s fd (ctx\<lparr>io_nread := nread, io_nwrite := nwrite, io_events := es\<rparr>)) })
      in if nread < 0 \<or> nwrite < 0 then None
         else if res \<noteq> {}
         then (case evsel_del E (evbase s) (ev_fd i) old res of
                 (r, b) \<Rightarrow> if r = - 1 then Some (- 1, s\<lparr>evbase := b\<rparr>) else done 1 (s\<lparr>evbase := b\<rparr>))
         else done 0 s)"

definition evmap_io_del :: "'b env \<Rightarrow> 'b event_base \<Rightarrow> int \<Rightarrow> nat \<Rightarrow> (int \<times> 'b event_base) option" where
  "evmap_io_del E s fd ev =
     (if fd < 0 then Some (0, s)
      else do {
        i \<leftarrow> bs_info s ev;
        if fd \<noteq> ev_fd i then None
        else if int (length (bs_io s)) \<le> fd then Some (- 1, s)
        else do {
          x \<leftarrow> peek (bs_io s) (nat fd);
          ctx \<leftarrow> x;
          evmap_io_leave E s fd ev i ctx } })"

definition evmap_signal_add :: "'b env \<Rightarrow> 'b event_base \<Rightarrow> int \<Rightarrow> nat \<Rightarrow> (int \<times> 'b event_base) option" where
  "evmap_signal_add E s sig ev = do {
     (r, map) \<leftarrow> evmap_make_space (mm_alloc E) (bs_sigmap s) sig 8;
     if r = - 1 then Some (- 1, s)
     else do {
       x \<leftarrow> get_slot_and_ctor (mm_alloc E) map sig [] (16 + evsigsel_fdinfo_len E);
       case x of
         None \<Rightarrow> Some (- 1, s\<lparr>bs_sigmap := map\<rparr>)
       | Some (es, map) \<Rightarrow> do {
           i \<leftarrow> bs_info s ev;
           let s = s\<lparr>bs_sigmap := map\<rparr>;
           let (r, s) = (if es = [] then evsigsel_add E s (ev_fd i) else (0, s));
           if r = - 1 then Some (- 1, s)
           else do {
             x \<leftarrow> peek (bs_sigmap s) (nat sig);
             es \<leftarrow> x;
             Some (1, s\<lparr>bs_sigmap := (bs_sigmap s)[nat sig := Some (es @ [ev])]\<rparr>) } } } }"

text \<open>The first and the last event of the list are the same if it has at most one.\<close>

definition evmap_signal_del :: "'b env \<Rightarrow> 'b event_base \<Rightarrow> int \<Rightarrow> nat \<Rightarrow> (int \<times> 'b event_base) option" where
  "evmap_signal_del E s sig ev =
     (if int (length (bs_sigmap s)) \<le> sig then Some (- 1, s)
      else if sig < 0 then None
      else do {
        x \<leftarrow> peek (bs_sigmap s) (nat sig);
        es \<leftarrow> x;
        i \<leftarrow> bs_info s ev;
        let (r, s) = (if length es \<le> 1 then evsigsel_del E s (ev_fd i) else (0, s));
        if r = - 1 then Some (- 1, s)
        else do {
          x \<leftarrow> peek (bs_sigmap s) (nat sig);
          es \<leftarrow> x;
          es \<leftarrow> tailq_remove es ev;
          Some (1, s\<lparr>bs_sigmap := (bs_sigmap s)[nat sig := Some es]\<rparr>) } })"

section \<open>Adding, deleting and activating events\<close>

text \<open>\<^verbatim>\<open>if (ev->ev_ncalls && ev->ev_pncalls) *ev->ev_pncalls = 0\<close>: writing to the variable of a call that has returned is a
  fault.\<close>

definition abort_calls :: "'b event_base \<Rightarrow> ev_info \<Rightarrow> 'b event_base option" where
  "abort_calls s i =
     (if EV_SIGNAL \<in> ev_events i \<and> ev_ncalls i \<noteq> 0
      then case ev_pncalls i of
             None \<Rightarrow> Some s
           | Some f \<Rightarrow> (case bs_frames s f of None \<Rightarrow> None | Some n \<Rightarrow> Some (s\<lparr>bs_frames := (bs_frames s)(f \<mapsto> 0)\<rparr>))
      else Some s)"

definition event_del_internal :: "'b env \<Rightarrow> 'b event_base \<Rightarrow> nat \<Rightarrow> (int \<times> 'b event_base) option" where
  "event_del_internal E s ev = do {
     i \<leftarrow> bs_info s ev;
     if \<not> ev_base i then Some (- 1, s)
     else do {
       s \<leftarrow> abort_calls s i;
       s \<leftarrow> (if EVLIST_TIMEOUT \<in> ev_flags i then event_queue_remove s ev EVLIST_TIMEOUT else Some s);
       s \<leftarrow> (if EVLIST_ACTIVE \<in> ev_flags i then event_queue_remove s ev EVLIST_ACTIVE else Some s);
       if EVLIST_INSERTED \<in> ev_flags i
       then do {
         s \<leftarrow> event_queue_remove s ev EVLIST_INSERTED;
         (res, s) \<leftarrow> (if ev_events i \<inter> {EV_READ, EV_WRITE} \<noteq> {} then evmap_io_del E s (ev_fd i) ev
                      else evmap_signal_del E s (ev_fd i) ev);
         Some (if res = 1 then 0 else res, s) }
       else Some (0, s) } }"

definition event_active_nolock :: "'b env \<Rightarrow> 'b event_base \<Rightarrow> nat \<Rightarrow> ev_what set \<Rightarrow> int \<Rightarrow> 'b event_base option" where
  "event_active_nolock E s ev res ncalls = do {
     i \<leftarrow> bs_info s ev;
     if EVLIST_ACTIVE \<in> ev_flags i then info_upd s ev (\<lambda>i. i\<lparr>ev_res := ev_res i \<union> res\<rparr>)
     else do {
       s \<leftarrow> info_upd s ev (\<lambda>i. i\<lparr>ev_res := res\<rparr>);
       let s = (if int (ev_pri i) < event_running_priority s then s\<lparr>event_continue := True\<rparr> else s);
       s \<leftarrow> (if EV_SIGNAL \<in> ev_events i then info_upd s ev (\<lambda>i. i\<lparr>ev_ncalls := ncalls, ev_pncalls := None\<rparr>) else Some s);
       event_queue_insert E s ev EVLIST_ACTIVE } }"

text \<open>The part of \<^verbatim>\<open>event_add_internal\<close> that enters the event into the map of its descriptor or signal.\<close>

definition add_to_map :: "'b env \<Rightarrow> 'b event_base \<Rightarrow> nat \<Rightarrow> ev_info \<Rightarrow> (int \<times> 'b event_base) option" where
  "add_to_map E s ev i =
     (if ev_events i \<inter> {EV_READ, EV_WRITE, EV_SIGNAL} \<noteq> {} \<and> ev_flags i \<inter> {EVLIST_INSERTED, EVLIST_ACTIVE} = {}
      then do {
        (res, s) \<leftarrow> (if ev_events i \<inter> {EV_READ, EV_WRITE} \<noteq> {} then evmap_io_add E s (ev_fd i) ev
                     else evmap_signal_add E s (ev_fd i) ev);
        s \<leftarrow> (if res \<noteq> - 1 then event_queue_insert E s ev EVLIST_INSERTED else Some s);
        Some (if res = 1 then 0 else res, s) }
      else Some (0, s))"

text \<open>The part that takes the event out of the queues it is in because of an earlier timeout.\<close>

definition drop_timeout :: "'b event_base \<Rightarrow> nat \<Rightarrow> 'b event_base option" where
  "drop_timeout s ev = do {
     i \<leftarrow> bs_info s ev;
     s \<leftarrow> (if EVLIST_TIMEOUT \<in> ev_flags i then event_queue_remove s ev EVLIST_TIMEOUT else Some s);
     if EVLIST_ACTIVE \<in> ev_flags i \<and> EV_TIMEOUT \<in> ev_res i
     then do { s \<leftarrow> abort_calls s i; event_queue_remove s ev EVLIST_ACTIVE }
     else Some s }"

text \<open>The time at which the event is due. The clock's failure is ignored: without a time the sum is undefined.\<close>

definition due_time :: "'b event_base \<Rightarrow> timeval option \<Rightarrow> timeval \<Rightarrow> bool \<Rightarrow> timeval option" where
  "due_time s now tv tv_is_absolute =
     (if tv_is_absolute then Some tv
      else do {
        now \<leftarrow> now;
        if is_common_timeout tv s
        then let t = evutil_timeradd now (mask_usec tv)
             in Some (Timeval (tv_sec t) (tv_usec t OR (tv_usec tv AND NOT MICROSECONDS_MASK)))
        else Some (evutil_timeradd now tv) })"

text \<open>\<^verbatim>\<open>event_add_internal\<close>. It calls itself through \<^verbatim>\<open>common_timeout_schedule\<close>, for the event of a common timeout queue with a
  time that is not common; the first argument bounds the depth of the calls.\<close>

fun event_add_internal :: "nat \<Rightarrow> 'b env \<Rightarrow> 'b event_base \<Rightarrow> nat \<Rightarrow> timeval option \<Rightarrow> bool \<Rightarrow> (int \<times> 'b event_base) option" where
  "event_add_internal 0 E s ev tv tv_is_absolute = None"
| "event_add_internal (Suc n) E s ev tv tv_is_absolute = do {
     i \<leftarrow> bs_info s ev;
     let (r, h) = (if tv \<noteq> None \<and> EVLIST_TIMEOUT \<notin> ev_flags i
                   then min_heap_reserve (mm_alloc E) (timeheap s) (u32_of (1 + int (min_heap_size (timeheap s))))
                   else (0, timeheap s));
     if r = - 1 then Some (- 1, s)
     else do {
       (res, s) \<leftarrow> add_to_map E (s\<lparr>timeheap := h\<rparr>) ev i;
       case tv of
         None \<Rightarrow> Some (res, s)
       | Some tv \<Rightarrow>
           if res = - 1 then Some (res, s)
           else do {
             s \<leftarrow> (if ev_closure i = EV_CLOSURE_PERSIST \<and> \<not> tv_is_absolute then info_upd s ev (\<lambda>i. i\<lparr>ev_io_timeout := tv\<rparr>) else Some s);
             s \<leftarrow> drop_timeout s ev;
             let (now, s) = gettime E s;
             due \<leftarrow> due_time s now tv tv_is_absolute;
             s \<leftarrow> set_timeout s ev due;
             s \<leftarrow> event_queue_insert E s ev EVLIST_TIMEOUT;
             if is_common_timeout tv s
             then do {
               ctl \<leftarrow> get_common_timeout_list s due;
               if ctl_events ctl \<noteq> [] \<and> hd (ctl_events ctl) = ev
               then do { (r, s) \<leftarrow> event_add_internal n E s (ctl_timeout_event ctl) (Some (mask_usec due)) True; Some (res, s) }
               else Some (res, s) }
             else Some (res, s) } } }"

definition common_timeout_schedule :: "'b env \<Rightarrow> 'b event_base \<Rightarrow> common_timeout_list \<Rightarrow> nat \<Rightarrow> 'b event_base option" where
  "common_timeout_schedule E s ctl head = do {
     timeout \<leftarrow> timeout_of s head;
     (r, s) \<leftarrow> event_add_internal 2 E s (ctl_timeout_event ctl) (Some (mask_usec timeout)) True;
     Some s }"

definition event_add :: "'b env \<Rightarrow> 'b event_base \<Rightarrow> nat \<Rightarrow> timeval option \<Rightarrow> (int \<times> 'b event_base) option" where
  "event_add E s ev tv = do {
     i \<leftarrow> bs_info s ev;
     if \<not> ev_base i then Some (- 1, s) else event_add_internal 2 E s ev tv False }"

definition event_del :: "'b env \<Rightarrow> 'b event_base \<Rightarrow> nat \<Rightarrow> (int \<times> 'b event_base) option" where
  "event_del E s ev = do {
     i \<leftarrow> bs_info s ev;
     if \<not> ev_base i then Some (- 1, s) else event_del_internal E s ev }"

definition event_active :: "'b env \<Rightarrow> 'b event_base \<Rightarrow> nat \<Rightarrow> ev_what set \<Rightarrow> int \<Rightarrow> 'b event_base option" where
  "event_active E s ev res ncalls = do {
     i \<leftarrow> bs_info s ev;
     if \<not> ev_base i then Some s else event_active_nolock E s ev res ncalls }"

end
