(* ===== verification/EventLoop.thy ===== *)
theory EventLoop
  imports EventBase
begin

text \<open>
  The use of the event base, \<^verbatim>\<open>src/libevent/event.c\<close>: setting up events, activation by descriptors, signals and timeouts,
  and the loop that runs the callbacks. Loops that may not end are partial functions, whose value is then \<open>None\<close>, like
  that of a fault.
\<close>

section \<open>Setting up events\<close>

text \<open>\<^verbatim>\<open>event_assign\<close> on memory that is there already; \<open>i\<close> has the fields it leaves alone.\<close>

definition event_assign :: "'b event_base \<Rightarrow> nat \<Rightarrow> bool \<Rightarrow> int \<Rightarrow> ev_what set \<Rightarrow> ev_callback \<Rightarrow> (int \<times> 'b event_base) option" where
  "event_assign s ev base fd events callback = do {
     s \<leftarrow> info_upd s ev (\<lambda>i. i\<lparr>ev_base := base, ev_callback := callback, ev_fd := fd, ev_events := events, ev_res := {},
            ev_flags := {EVLIST_INIT}, ev_ncalls := 0, ev_pncalls := None\<rparr>);
     if EV_SIGNAL \<in> events \<and> events \<inter> {EV_READ, EV_WRITE} \<noteq> {} then Some (- 1, s)
     else do {
       s \<leftarrow> info_upd s ev (\<lambda>i.
              if EV_SIGNAL \<in> events then i\<lparr>ev_closure := EV_CLOSURE_SIGNAL\<rparr>
              else if EV_PERSIST \<in> events then i\<lparr>ev_io_timeout := Timeval 0 0, ev_closure := EV_CLOSURE_PERSIST\<rparr>
              else i\<lparr>ev_closure := EV_CLOSURE_NONE\<rparr>);
       h \<leftarrow> min_heap_elem_init (timeheap s) ev;
       s \<leftarrow> (if base then info_upd s ev (\<lambda>i. i\<lparr>ev_pri := length (activequeues s) div 2\<rparr>) else Some s);
       Some (0, s\<lparr>timeheap := h\<rparr>) } }"

text \<open>Memory for an event at the address \<open>ev\<close>; what it holds is given by \<open>junk\<close>.\<close>

definition new_event :: "'b event_base \<Rightarrow> nat \<Rightarrow> event \<times> ev_info \<Rightarrow> 'b event_base" where
  "new_event s ev junk =
     s\<lparr>timeheap := (timeheap s)\<lparr>mh_ev := (mh_ev (timeheap s))(ev \<mapsto> fst junk)\<rparr>, bs_info := (bs_info s)(ev \<mapsto> snd junk)\<rparr>"

definition free_event :: "'b event_base \<Rightarrow> nat \<Rightarrow> 'b event_base" where
  "free_event s ev =
     s\<lparr>timeheap := (timeheap s)\<lparr>mh_ev := (mh_ev (timeheap s))(ev := None)\<rparr>, bs_info := (bs_info s)(ev := None)\<rparr>"

definition event_new :: "'b env \<Rightarrow> 'b event_base \<Rightarrow> nat \<Rightarrow> event \<times> ev_info \<Rightarrow> int \<Rightarrow> ev_what set \<Rightarrow> ev_callback \<Rightarrow> (nat option \<times> 'b event_base) option" where
  "event_new E s a junk fd events cb =
     (if \<not> mm_alloc E 136 then Some (None, s)
      else do {
        (r, s) \<leftarrow> event_assign (new_event s a junk) a True fd events cb;
        if r < 0 then Some (None, free_event s a) else Some (Some a, s) })"

definition event_free :: "'b env \<Rightarrow> 'b event_base \<Rightarrow> nat \<Rightarrow> 'b event_base option" where
  "event_free E s ev = do { (r, s) \<leftarrow> event_del E s ev; Some (free_event s ev) }"

definition event_priority_set :: "'b event_base \<Rightarrow> nat \<Rightarrow> int \<Rightarrow> (int \<times> 'b event_base) option" where
  "event_priority_set s ev pri = do {
     i \<leftarrow> bs_info s ev;
     if EVLIST_ACTIVE \<in> ev_flags i then Some (- 1, s)
     else if pri < 0 \<or> pri \<ge> int (length (activequeues s)) then Some (- 1, s)
     else do { s \<leftarrow> info_upd s ev (\<lambda>i. i\<lparr>ev_pri := nat pri\<rparr>); Some (0, s) } }"

text \<open>\<^verbatim>\<open>event_pending\<close>: the flags and the time it stores if \<^verbatim>\<open>tv\<close> is given.\<close>

definition event_pending :: "'b event_base \<Rightarrow> nat \<Rightarrow> ev_what set \<Rightarrow> (ev_what set \<times> timeval option) option" where
  "event_pending s ev event = do {
     i \<leftarrow> bs_info s ev;
     t \<leftarrow> timeout_of s ev;
     if \<not> ev_base i then Some ({}, None)
     else do {
       let flags = (if EVLIST_INSERTED \<in> ev_flags i then ev_events i \<inter> {EV_READ, EV_WRITE, EV_SIGNAL} else {})
                 \<union> (if EVLIST_ACTIVE \<in> ev_flags i then ev_res i else {})
                 \<union> (if EVLIST_TIMEOUT \<in> ev_flags i then {EV_TIMEOUT} else {});
       let event = event \<inter> {EV_TIMEOUT, EV_READ, EV_WRITE, EV_SIGNAL};
       Some (flags \<inter> event,
         if EV_TIMEOUT \<in> flags \<inter> event then Some (evutil_timeradd (tv_clock_diff s) (mask_usec t)) else None) } }"

definition n_active_callbacks :: "'b event_base \<Rightarrow> int" where
  "n_active_callbacks s = event_count_active s + defer_active_count s"

definition event_base_priority_init :: "'b env \<Rightarrow> 'b event_base \<Rightarrow> int \<Rightarrow> int \<times> 'b event_base" where
  "event_base_priority_init E s npriorities =
     (if n_active_callbacks s \<noteq> 0 \<or> npriorities < 1 \<or> npriorities \<ge> 256 then (- 1, s)
      else if npriorities = int (length (activequeues s)) then (0, s)
      else let s = s\<lparr>activequeues := [], activequeues_id := activequeues_id s + 1\<rparr>
        in if \<not> mm_alloc E (npriorities * 16) then (- 1, s)
           else (0, s\<lparr>activequeues := replicate (nat npriorities) []\<rparr>))"

definition event_haveevents :: "'b event_base \<Rightarrow> bool" where
  "event_haveevents s \<longleftrightarrow> virtual_event_count s > 0 \<or> event_count s > 0"

definition event_base_add_virtual :: "'b event_base \<Rightarrow> 'b event_base" where
  "event_base_add_virtual s = s\<lparr>virtual_event_count := virtual_event_count s + 1\<rparr>"

definition event_base_del_virtual :: "'b event_base \<Rightarrow> 'b event_base option" where
  "event_base_del_virtual s =
     (if virtual_event_count s > 0 then Some (s\<lparr>virtual_event_count := virtual_event_count s - 1\<rparr>) else None)"

definition event_base_loopbreak :: "'b event_base \<Rightarrow> int \<times> 'b event_base" where
  "event_base_loopbreak s = (0, s\<lparr>event_break := True\<rparr>)"

definition event_loopexit_cb :: "'b event_base \<Rightarrow> 'b event_base" where
  "event_loopexit_cb s = s\<lparr>event_gotterm := True\<rparr>"

text \<open>\<^verbatim>\<open>event_base_init_common_timeout\<close>: the duration with the magic number, if there is one. The new queue and its event
  are allocated at \<open>a\<close>; the memory is zeroed. \<open>176\<close> stands for the size of a queue.\<close>

definition zero_event :: "event \<times> ev_info" where
  "zero_event = (\<lparr>ev_timeout = Timeval 0 0, min_heap_idx = 0\<rparr>,
     \<lparr>ev_fd = 0, ev_base = False, ev_events = {}, ev_res = {}, ev_flags = {}, ev_pri = 0, ev_closure = EV_CLOSURE_NONE,
      ev_io_timeout = Timeval 0 0, ev_ncalls = 0, ev_pncalls = None, ev_callback = User_cb\<rparr>)"

definition normalise_duration :: "'b event_base \<Rightarrow> timeval \<Rightarrow> timeval" where
  "normalise_duration s d =
     (if tv_usec d > 1000000
      then let u = (if is_common_timeout d s then tv_usec d AND MICROSECONDS_MASK else tv_usec d)
           in Timeval (tv_sec d + u div 1000000) (u mod 1000000)
      else d)"

definition event_base_init_common_timeout :: "'b env \<Rightarrow> 'b event_base \<Rightarrow> nat \<Rightarrow> timeval \<Rightarrow> (timeval option \<times> 'b event_base) option" where
  "event_base_init_common_timeout E s a duration =
     (let d = normalise_duration s duration; q = common_timeout_queues s; n = length q
      in case List.find (\<lambda>ctl. tv_sec d = tv_sec (ctl_duration ctl) \<and> tv_usec d = tv_usec (ctl_duration ctl) AND MICROSECONDS_MASK) q of
           Some ctl \<Rightarrow> if is_common_timeout (ctl_duration ctl) s then Some (Some (ctl_duration ctl), s) else None
         | None \<Rightarrow>
             if n = 256 then Some (None, s)
             else let full = (n_common_timeouts_allocated s = n); m = (if n < 16 then 16 else n * 2)
               in if full \<and> \<not> mm_alloc E (int m * 8) then Some (None, s)
                  else let s = (if full then s\<lparr>n_common_timeouts_allocated := m\<rparr> else s)
                    in if \<not> mm_alloc E 176 then Some (None, s)
                       else do {
                         let res = Timeval (tv_sec d) ((tv_usec d OR COMMON_TIMEOUT_MAGIC) OR push_bit 20 (int n));
                         (r, s) \<leftarrow> event_assign (new_event s a zero_event) a True (- 1) {} (Common_timeout_cb n);
                         s \<leftarrow> info_upd s a (\<lambda>i. i\<lparr>ev_flags := insert EVLIST_INTERNAL (ev_flags i)\<rparr>);
                         (r, s) \<leftarrow> event_priority_set s a 0;
                         let s = s\<lparr>common_timeout_queues := q @ [\<lparr>ctl_events = [], ctl_duration = res, ctl_timeout_event = a\<rparr>]\<rparr>;
                         if is_common_timeout res s then Some (Some res, s) else None })"

text \<open>A new base, as \<^verbatim>\<open>event_base_new_with_config\<close> leaves it when the backend \<open>b\<close> was set up.\<close>

definition event_base_new :: "'b env \<Rightarrow> bool \<Rightarrow> 'b \<Rightarrow> 'b event_base" where
  "event_base_new E nocache b =
     (let s = \<lparr>timeheap = \<lparr>mh_heap = min_heap_ctor, mh_ev = (\<lambda>e. None)\<rparr>, bs_info = (\<lambda>e. None), eventqueue = [], activequeues = [[]],
            activequeues_id = 0, common_timeout_queues = [], n_common_timeouts_allocated = 0, bs_io = [], bs_sigmap = [],
            virtual_event_count = 0, event_count = 0, event_count_active = 0, event_gotterm = False, event_break = False,
            event_continue = False, event_running_priority = 0, running_loop = False, deferred_cb_list = [], defer_active_count = 0,
            cb_queued = (\<lambda>c. False), event_tv = Timeval 0 0, tv_cache = Timeval 0 0, tv_clock_diff = Timeval 0 0,
            last_updated_clock_diff = 0, no_cache_time = nocache, evbase = b, bs_reads = 0, bs_frames = (\<lambda>f. None),
            bs_next_frame = 0\<rparr>
      in case gettime E s of (Some t, s) \<Rightarrow> s\<lparr>event_tv := t\<rparr> | (None, s) \<Rightarrow> s)"

section \<open>The integrity check\<close>

definition info_has :: "'b event_base \<Rightarrow> nat \<Rightarrow> (ev_info \<Rightarrow> bool) \<Rightarrow> bool" where
  "info_has s ev P = (case bs_info s ev of None \<Rightarrow> False | Some i \<Rightarrow> P i)"

definition io_lists :: "'b event_base \<Rightarrow> nat list list" where
  "io_lists s = map (\<lambda>x. case x of None \<Rightarrow> [] | Some ctx \<Rightarrow> io_events ctx) (bs_io s)"

definition sig_lists :: "'b event_base \<Rightarrow> nat list list" where
  "sig_lists s = map (\<lambda>x. case x of None \<Rightarrow> [] | Some es \<Rightarrow> es) (bs_sigmap s)"

text \<open>\<^verbatim>\<open>evmap_check_integrity\<close>: the marks \<^verbatim>\<open>EVLIST_X_IOFOUND\<close> and \<^verbatim>\<open>EVLIST_X_SIGFOUND\<close> say that no event is met twice.\<close>

definition listed_at :: "'b event_base \<Rightarrow> nat list list \<Rightarrow> bool" where
  "listed_at s ls \<longleftrightarrow> distinct (concat ls) \<and> (\<forall>(n, es) \<in> set (enumerate 0 ls). \<forall>ev \<in> set es. info_has s ev (\<lambda>i. ev_fd i = int n))"

definition queued_with :: "'b event_base \<Rightarrow> ev_what set \<Rightarrow> nat list" where
  "queued_with s what = filter (\<lambda>ev. info_has s ev (\<lambda>i. ev_events i \<inter> what \<noteq> {})) (eventqueue s)"

definition evmap_check_integrity :: "'b event_base \<Rightarrow> bool" where
  "evmap_check_integrity s \<longleftrightarrow>
     (\<forall>ev \<in> set (eventqueue s). info_has s ev (\<lambda>i. EVLIST_INSERTED \<in> ev_flags i \<and> EVLIST_INIT \<in> ev_flags i))
     \<and> listed_at s (io_lists s) \<and> listed_at s (sig_lists s)
     \<and> (\<forall>ev \<in> set (queued_with s {EV_READ, EV_WRITE}). ev \<in> set (concat (io_lists s)))
     \<and> (\<forall>ev \<in> set (queued_with s {EV_SIGNAL}). ev \<in> set (concat (sig_lists s)))
     \<and> length (concat (io_lists s)) = length (queued_with s {EV_READ, EV_WRITE})
     \<and> length (concat (sig_lists s)) = length (queued_with s {EV_SIGNAL})"

definition heap_check :: "'b event_base \<Rightarrow> nat \<Rightarrow> bool" where
  "heap_check s i =
     (case (elem (timeheap s) i, elem (timeheap s) ((i - 1) div 2)) of
        (Some ev, Some p_ev) \<Rightarrow>
          info_has s ev (\<lambda>f. EVLIST_TIMEOUT \<in> ev_flags f)
          \<and> (case (mh_ev (timeheap s) ev, mh_ev (timeheap s) p_ev) of
               (Some e, Some p) \<Rightarrow> evutil_timercmp (ev_timeout p) (ev_timeout e) (\<le>) \<and> min_heap_idx e = int i
             | _ \<Rightarrow> False)
      | _ \<Rightarrow> False)"

fun common_check :: "'b event_base \<Rightarrow> nat \<Rightarrow> timeval option \<Rightarrow> nat list \<Rightarrow> bool" where
  "common_check s n prev [] = True"
| "common_check s n prev (ev # es) =
     (case timeout_of s ev of
        None \<Rightarrow> False
      | Some t \<Rightarrow> (case prev of None \<Rightarrow> True | Some l \<Rightarrow> evutil_timercmp l t (\<le>))
          \<and> info_has s ev (\<lambda>f. EVLIST_TIMEOUT \<in> ev_flags f) \<and> is_common_timeout t s \<and> COMMON_TIMEOUT_IDX t = n
          \<and> common_check s n (Some t) es)"

definition event_base_assert_ok :: "'b event_base \<Rightarrow> bool" where
  "event_base_assert_ok s \<longleftrightarrow>
     evmap_check_integrity s
     \<and> (\<forall>i \<in> set [1..<mh_n (mh_heap (timeheap s))]. heap_check s i)
     \<and> (\<forall>(n, ctl) \<in> set (enumerate 0 (common_timeout_queues s)). common_check s n None (ctl_events ctl))"

section \<open>Deferred callbacks\<close>

definition event_deferred_cb_cancel :: "'b event_base \<Rightarrow> nat \<Rightarrow> 'b event_base option" where
  "event_deferred_cb_cancel s cb =
     (if cb_queued s cb
      then do {
        l \<leftarrow> tailq_remove (deferred_cb_list s) cb;
        Some (s\<lparr>deferred_cb_list := l, defer_active_count := defer_active_count s - 1, cb_queued := (cb_queued s)(cb := False)\<rparr>) }
      else Some s)"

definition event_deferred_cb_schedule :: "'b event_base \<Rightarrow> nat \<Rightarrow> 'b event_base" where
  "event_deferred_cb_schedule s cb =
     (if \<not> cb_queued s cb
      then s\<lparr>cb_queued := (cb_queued s)(cb := True), deferred_cb_list := deferred_cb_list s @ [cb],
             defer_active_count := defer_active_count s + 1\<rparr>
      else s)"

section \<open>Activation\<close>

fun active_all :: "'b env \<Rightarrow> (ev_info \<Rightarrow> ev_what set) \<Rightarrow> int \<Rightarrow> nat list \<Rightarrow> 'b event_base \<Rightarrow> 'b event_base option" where
  "active_all E res ncalls [] s = Some s"
| "active_all E res ncalls (ev # es) s = do {
     i \<leftarrow> bs_info s ev;
     s \<leftarrow> (if res i \<noteq> {} then event_active_nolock E s ev (res i) ncalls else Some s);
     active_all E res ncalls es s }"

definition evmap_io_active :: "'b env \<Rightarrow> 'b event_base \<Rightarrow> int \<Rightarrow> ev_what set \<Rightarrow> 'b event_base option" where
  "evmap_io_active E s fd events =
     (if fd < 0 then None
      else do {
        x \<leftarrow> peek (bs_io s) (nat fd);
        ctx \<leftarrow> x;
        active_all E (\<lambda>i. ev_events i \<inter> events) 1 (io_events ctx) s })"

definition evmap_signal_active :: "'b env \<Rightarrow> 'b event_base \<Rightarrow> int \<Rightarrow> int \<Rightarrow> 'b event_base option" where
  "evmap_signal_active E s sig ncalls =
     (if sig < 0 then None
      else do {
        x \<leftarrow> peek (bs_sigmap s) (nat sig);
        es \<leftarrow> x;
        active_all E (\<lambda>i. {EV_SIGNAL}) ncalls es s })"

text \<open>\<^verbatim>\<open>timeout_next\<close>: the result, the new \<^verbatim>\<open>tv_p\<close> and the base. \<open>tv\<close> is the value of \<^verbatim>\<open>*tv_p\<close>, \<open>None\<close> if it has none yet; a
  new \<^verbatim>\<open>tv_p\<close> of \<open>None\<close> is the null pointer, to wait without limit.\<close>

definition timeout_next :: "'b env \<Rightarrow> 'b event_base \<Rightarrow> timeval option \<Rightarrow> (int \<times> timeval option option \<times> 'b event_base) option" where
  "timeout_next E s tv = do {
     top \<leftarrow> min_heap_top (timeheap s);
     case top of
       None \<Rightarrow> Some (0, None, s)
     | Some ev \<Rightarrow>
         (case gettime E s of
            (None, s) \<Rightarrow> Some (- 1, Some tv, s)
          | (Some now, s) \<Rightarrow> do {
              t \<leftarrow> timeout_of s ev;
              if evutil_timercmp t now (\<le>) then Some (0, Some (Some (Timeval 0 0)), s)
              else let d = evutil_timersub t now
                in if tv_sec d \<ge> 0 \<and> tv_usec d \<ge> 0 then Some (0, Some (Some d), s) else None }) }"

text \<open>The two loops of \<^verbatim>\<open>timeout_correct\<close>, over the heap and over the common queues.\<close>

fun shift_times :: "(timeval \<Rightarrow> timeval) \<Rightarrow> nat list \<Rightarrow> 'b event_base \<Rightarrow> 'b event_base option" where
  "shift_times f [] s = Some s"
| "shift_times f (ev # es) s = do { t \<leftarrow> timeout_of s ev; s \<leftarrow> set_timeout s ev (f t); shift_times f es s }"

definition heap_events :: "'b event_base \<Rightarrow> nat list option" where
  "heap_events s = those (map (elem (timeheap s)) [0..<mh_n (mh_heap (timeheap s))])"

fun shift_common :: "timeval \<Rightarrow> nat \<Rightarrow> common_timeout_list list \<Rightarrow> 'b event_base \<Rightarrow> 'b event_base option" where
  "shift_common off i [] s = Some s"
| "shift_common off i (ctl # ctls) s = do {
     s \<leftarrow> shift_times (\<lambda>t. let d = evutil_timersub (mask_usec t) off
            in Timeval (tv_sec d) (tv_usec d OR (COMMON_TIMEOUT_MAGIC OR push_bit 20 (int i)))) (ctl_events ctl) s;
     shift_common off (Suc i) ctls s }"

text \<open>\<^verbatim>\<open>timeout_correct\<close>: the new value of \<^verbatim>\<open>*tv\<close> and the base. Without the monotonic clock \<^verbatim>\<open>gettime\<close> does not fail.\<close>

definition timeout_correct :: "'b env \<Rightarrow> 'b event_base \<Rightarrow> timeval option \<Rightarrow> (timeval option \<times> 'b event_base) option" where
  "timeout_correct E s tv =
     (if use_monotonic E then Some (tv, s)
      else case gettime E s of
        (None, s) \<Rightarrow> None
      | (Some tv, s) \<Rightarrow>
          if evutil_timercmp tv (event_tv s) (\<ge>) then Some (Some tv, s\<lparr>event_tv := tv\<rparr>)
          else do {
            let off = evutil_timersub (event_tv s) tv;
            es \<leftarrow> heap_events s;
            s \<leftarrow> shift_times (\<lambda>t. evutil_timersub t off) es s;
            s \<leftarrow> shift_common off 0 (common_timeout_queues s) s;
            Some (Some tv, s\<lparr>event_tv := tv\<rparr>) })"

partial_function (option) timeout_loop :: "'b env \<Rightarrow> timeval \<Rightarrow> 'b event_base \<Rightarrow> 'b event_base option" where
  [code]: "timeout_loop E now s = do {
     top \<leftarrow> min_heap_top (timeheap s);
     case top of
       None \<Rightarrow> Some s
     | Some ev \<Rightarrow> do {
         t \<leftarrow> timeout_of s ev;
         if evutil_timercmp t now (>) then Some s
         else do {
           (r, s) \<leftarrow> event_del_internal E s ev;
           s \<leftarrow> event_active_nolock E s ev {EV_TIMEOUT} 1;
           timeout_loop E now s } } }"

definition timeout_process :: "'b env \<Rightarrow> 'b event_base \<Rightarrow> 'b event_base option" where
  "timeout_process E s =
     (if min_heap_empty (timeheap s) then Some s
      else case gettime E s of (None, s) \<Rightarrow> None | (Some now, s) \<Rightarrow> timeout_loop E now s)"

section \<open>Running the callbacks\<close>

text \<open>The code that is called back: of events (with the event, its descriptor and the result), of deferred callbacks, and
  the waiting of the backend (\<^verbatim>\<open>evsel->dispatch\<close>), which activates events by \<open>evmap_io_active\<close> and \<open>evmap_signal_active\<close>.\<close>

record 'b code =
  run_cb :: "nat \<Rightarrow> int \<Rightarrow> ev_what set \<Rightarrow> 'b event_base \<Rightarrow> 'b event_base option"
  run_deferred :: "nat \<Rightarrow> 'b event_base \<Rightarrow> 'b event_base option"
  evsel_dispatch :: "'b event_base \<Rightarrow> timeval option \<Rightarrow> (int \<times> 'b event_base) option"

partial_function (option) common_loop :: "'b env \<Rightarrow> timeval \<Rightarrow> nat \<Rightarrow> 'b event_base \<Rightarrow> (nat option \<times> 'b event_base) option" where
  [code]: "common_loop E now idx s = do {
     ctl \<leftarrow> peek (common_timeout_queues s) idx;
     case ctl_events ctl of
       [] \<Rightarrow> Some (None, s)
     | ev # es \<Rightarrow> do {
         t \<leftarrow> timeout_of s ev;
         if tv_sec t > tv_sec now \<or> (tv_sec t = tv_sec now \<and> tv_usec t AND MICROSECONDS_MASK > tv_usec now) then Some (Some ev, s)
         else do {
           (r, s) \<leftarrow> event_del_internal E s ev;
           s \<leftarrow> event_active_nolock E s ev {EV_TIMEOUT} 1;
           common_loop E now idx s } } }"

definition common_timeout_callback :: "'b env \<Rightarrow> nat \<Rightarrow> 'b event_base \<Rightarrow> 'b event_base option" where
  "common_timeout_callback E idx s =
     (case gettime E s of
        (None, s) \<Rightarrow> None
      | (Some now, s) \<Rightarrow> do {
          (ev, s) \<leftarrow> common_loop E now idx s;
          case ev of
            None \<Rightarrow> Some s
          | Some ev \<Rightarrow> do { ctl \<leftarrow> peek (common_timeout_queues s) idx; common_timeout_schedule E s ctl ev } })"

definition call_back :: "'b env \<Rightarrow> 'b code \<Rightarrow> nat \<Rightarrow> ev_info \<Rightarrow> 'b event_base \<Rightarrow> 'b event_base option" where
  "call_back E C ev i s =
     (case ev_callback i of
        User_cb \<Rightarrow> run_cb C ev (ev_fd i) (ev_res i) s
      | Common_timeout_cb idx \<Rightarrow> common_timeout_callback E idx s)"

text \<open>\<^verbatim>\<open>ncalls--\<close> on a \<^verbatim>\<open>short\<close>.\<close>

definition short_dec :: "int \<Rightarrow> int" where
  "short_dec n = (if n = - 32768 then 32767 else n - 1)"

text \<open>The loop of \<^verbatim>\<open>event_signal_closure\<close>; its variable \<^verbatim>\<open>ncalls\<close> is \<open>f\<close>, and deleting the event in the callback sets it to 0.\<close>

partial_function (option) signal_loop :: "'b env \<Rightarrow> 'b code \<Rightarrow> nat \<Rightarrow> nat \<Rightarrow> 'b event_base \<Rightarrow> 'b event_base option" where
  [code]: "signal_loop E C f ev s = do {
     n \<leftarrow> bs_frames s f;
     if n = 0 then Some s
     else do {
       let n = short_dec n;
       let s = s\<lparr>bs_frames := (bs_frames s)(f \<mapsto> n)\<rparr>;
       s \<leftarrow> info_upd s ev (\<lambda>i. if n = 0 then i\<lparr>ev_ncalls := n, ev_pncalls := None\<rparr> else i\<lparr>ev_ncalls := n\<rparr>);
       i \<leftarrow> bs_info s ev;
       s \<leftarrow> call_back E C ev i s;
       if event_break s
       then do {
         n \<leftarrow> bs_frames s f;
         if n \<noteq> 0 then info_upd s ev (\<lambda>i. i\<lparr>ev_pncalls := None\<rparr>) else Some s }
       else signal_loop E C f ev s } }"

definition event_signal_closure :: "'b env \<Rightarrow> 'b code \<Rightarrow> nat \<Rightarrow> 'b event_base \<Rightarrow> 'b event_base option" where
  "event_signal_closure E C ev s = do {
     i \<leftarrow> bs_info s ev;
     let f = bs_next_frame s;
     let s = s\<lparr>bs_next_frame := f + 1, bs_frames := (bs_frames s)(f \<mapsto> ev_ncalls i)\<rparr>;
     s \<leftarrow> (if ev_ncalls i \<noteq> 0 then info_upd s ev (\<lambda>i. i\<lparr>ev_pncalls := Some f\<rparr>) else Some s);
     s \<leftarrow> signal_loop E C f ev s;
     Some (s\<lparr>bs_frames := (bs_frames s)(f := None)\<rparr>) }"

text \<open>The time at which a persistent event runs again; \<open>t\<close> is the time it was due.\<close>

definition run_again_at :: "'b event_base \<Rightarrow> ev_info \<Rightarrow> timeval \<Rightarrow> timeval \<Rightarrow> timeval" where
  "run_again_at s i t now =
     (let common = is_common_timeout t s;
          usec_mask = (if common then tv_usec (ev_io_timeout i) AND NOT MICROSECONDS_MASK else 0);
          delay = (if common then mask_usec (ev_io_timeout i) else ev_io_timeout i);
          relative_to = (if EV_TIMEOUT \<in> ev_res i then (if common then mask_usec t else t) else now);
          run_at = evutil_timeradd relative_to delay;
          run_at = (if evutil_timercmp run_at now (<) then evutil_timeradd now delay else run_at)
      in Timeval (tv_sec run_at) (tv_usec run_at OR usec_mask))"

definition event_persist_closure :: "'b env \<Rightarrow> 'b code \<Rightarrow> nat \<Rightarrow> 'b event_base \<Rightarrow> 'b event_base option" where
  "event_persist_closure E C ev s = do {
     i \<leftarrow> bs_info s ev;
     s \<leftarrow> (if tv_sec (ev_io_timeout i) \<noteq> 0 \<or> tv_usec (ev_io_timeout i) \<noteq> 0
          then do {
            t \<leftarrow> timeout_of s ev;
            if \<not> is_same_common_timeout t (ev_io_timeout i) then None
            else case gettime E s of
              (None, s) \<Rightarrow> None
            | (Some now, s) \<Rightarrow> do { (r, s) \<leftarrow> event_add_internal 2 E s ev (Some (run_again_at s i t now)) True; Some s } }
          else Some s);
     i \<leftarrow> bs_info s ev;
     call_back E C ev i s }"

definition run_event :: "'b env \<Rightarrow> 'b code \<Rightarrow> nat \<Rightarrow> ev_closure \<Rightarrow> 'b event_base \<Rightarrow> 'b event_base option" where
  "run_event E C ev c s =
     (case c of
        EV_CLOSURE_SIGNAL \<Rightarrow> event_signal_closure E C ev s
      | EV_CLOSURE_PERSIST \<Rightarrow> event_persist_closure E C ev s
      | EV_CLOSURE_NONE \<Rightarrow> do { i \<leftarrow> bs_info s ev; call_back E C ev i s })"

text \<open>\<^verbatim>\<open>event_process_active_single_queue\<close> on the queue of priority \<open>pri\<close> in the array \<open>a\<close>; an array that was released
  meanwhile is not read.\<close>

partial_function (option) event_process_active_single_queue ::
  "'b env \<Rightarrow> 'b code \<Rightarrow> nat \<Rightarrow> nat \<Rightarrow> int \<Rightarrow> 'b event_base \<Rightarrow> (int \<times> 'b event_base) option" where
  [code]: "event_process_active_single_queue E C a pri cnt s =
     (if activequeues_id s \<noteq> a then None
      else do {
        q \<leftarrow> peek (activequeues s) pri;
        case q of
          [] \<Rightarrow> Some (cnt, s)
        | ev # es \<Rightarrow> do {
            i \<leftarrow> bs_info s ev;
            s \<leftarrow> (if EV_PERSIST \<in> ev_events i then event_queue_remove s ev EVLIST_ACTIVE
                 else map_option snd (event_del_internal E s ev));
            let cnt = (if EVLIST_INTERNAL \<notin> ev_flags i then cnt + 1 else cnt);
            s \<leftarrow> run_event E C ev (ev_closure i) s;
            if event_break s then Some (- 1, s)
            else if event_continue s then Some (cnt, s)
            else event_process_active_single_queue E C a pri cnt s } })"

fun deferred_loop :: "'b code \<Rightarrow> nat \<Rightarrow> int \<Rightarrow> 'b event_base \<Rightarrow> (int \<times> 'b event_base) option" where
  "deferred_loop C 0 cnt s = Some (cnt, s)"
| "deferred_loop C (Suc n) cnt s =
     (case deferred_cb_list s of
        [] \<Rightarrow> Some (cnt, s)
      | cb # cbs \<Rightarrow> do {
          let s = s\<lparr>cb_queued := (cb_queued s)(cb := False), deferred_cb_list := cbs, defer_active_count := defer_active_count s - 1\<rparr>;
          s \<leftarrow> run_deferred C cb s;
          if event_break s then Some (- 1, s) else deferred_loop C n (cnt + 1) s })"

definition event_process_deferred_callbacks :: "'b code \<Rightarrow> 'b event_base \<Rightarrow> (int \<times> 'b event_base) option" where
  "event_process_deferred_callbacks C s = deferred_loop C 16 0 s"

text \<open>The loop over the priorities in \<^verbatim>\<open>event_process_active\<close>; it ends with the last count.\<close>

partial_function (option) active_loop :: "'b env \<Rightarrow> 'b code \<Rightarrow> nat \<Rightarrow> int \<Rightarrow> 'b event_base \<Rightarrow> (int \<times> 'b event_base) option" where
  [code]: "active_loop E C i c s =
     (if length (activequeues s) \<le> i then Some (c, s)
      else if activequeues s ! i = [] then active_loop E C (i + 1) c s
      else do {
        (c, s) \<leftarrow> event_process_active_single_queue E C (activequeues_id s) i 0 (s\<lparr>event_running_priority := int i\<rparr>);
        if c \<noteq> 0 then Some (c, s) else active_loop E C (i + 1) c s })"

definition event_process_active :: "'b env \<Rightarrow> 'b code \<Rightarrow> 'b event_base \<Rightarrow> (int \<times> 'b event_base) option" where
  "event_process_active E C s = do {
     (c, s) \<leftarrow> active_loop E C 0 0 s;
     if c < 0 then Some (- 1, s\<lparr>event_running_priority := - 1\<rparr>)
     else do {
       (n, s) \<leftarrow> event_process_deferred_callbacks C s;
       Some (c, s\<lparr>event_running_priority := - 1\<rparr>) } }"

section \<open>The event loop\<close>

datatype evloop_flag = EVLOOP_ONCE | EVLOOP_NONBLOCK

text \<open>\<^verbatim>\<open>event_base_loop\<close> after its start. \<open>tv\<close> is the variable of the loop, without a value at first; waiting for a time that
  was never set is undefined.\<close>

partial_function (option) base_loop :: "'b env \<Rightarrow> 'b code \<Rightarrow> evloop_flag set \<Rightarrow> timeval option \<Rightarrow> 'b event_base \<Rightarrow> (int \<times> 'b event_base) option" where
  [code]: "base_loop E C flags tv s = do {
     let s = s\<lparr>event_continue := False\<rparr>;
     if event_gotterm s \<or> event_break s then Some (0, s)
     else do {
       (tv, s) \<leftarrow> timeout_correct E s tv;
       (tv_p, s) \<leftarrow> (if n_active_callbacks s = 0 \<and> EVLOOP_NONBLOCK \<notin> flags
                     then map_option snd (timeout_next E s tv) else Some (Some (Some (Timeval 0 0)), s));
       if \<not> event_haveevents s \<and> n_active_callbacks s = 0 then Some (1, s)
       else do {
         let s = (case gettime E s of (Some t, s) \<Rightarrow> s\<lparr>event_tv := t\<rparr> | (None, s) \<Rightarrow> s);
         let s = clear_time_cache s;
         wait \<leftarrow> (case tv_p of None \<Rightarrow> Some None | Some t \<Rightarrow> map_option Some t);
         (res, s) \<leftarrow> evsel_dispatch C s wait;
         if res = - 1 then Some (- 1, s)
         else do {
           let s = update_time_cache E s;
           s \<leftarrow> timeout_process E s;
           let tv = (case tv_p of None \<Rightarrow> tv | Some t \<Rightarrow> t);
           if n_active_callbacks s \<noteq> 0
           then do {
             (n, s) \<leftarrow> event_process_active E C s;
             if EVLOOP_ONCE \<in> flags \<and> n_active_callbacks s = 0 \<and> n \<noteq> 0 then Some (0, s)
             else base_loop E C flags tv s }
           else if EVLOOP_NONBLOCK \<in> flags then Some (0, s)
           else base_loop E C flags tv s } } } }"

definition event_base_loop :: "'b env \<Rightarrow> 'b code \<Rightarrow> evloop_flag set \<Rightarrow> 'b event_base \<Rightarrow> (int \<times> 'b event_base) option" where
  "event_base_loop E C flags s =
     (if running_loop s then Some (- 1, s)
      else do {
        let s = clear_time_cache (s\<lparr>running_loop := True\<rparr>);
        (retval, s) \<leftarrow> base_loop E C flags None (s\<lparr>event_gotterm := False, event_break := False\<rparr>);
        Some (retval, (clear_time_cache s)\<lparr>running_loop := False\<rparr>) })"

end
