(* ===== verification/EventInv.thy ===== *)
theory EventInv
  imports EventLoop
begin

text \<open>
  The invariant of an event base without common timeout queues, and that the operations on the queues and maps keep it:
  the flags of the events say in which queues they are, the counters count them, and the maps list the inserted events
  under their descriptors and signals.
\<close>

section \<open>The queues\<close>

definition flagged :: "(nat \<Rightarrow> ev_info option) \<Rightarrow> evlist \<Rightarrow> nat set" where
  "flagged I q = {e. \<exists>i. I e = Some i \<and> q \<in> ev_flags i}"

definition user_flagged :: "(nat \<Rightarrow> ev_info option) \<Rightarrow> evlist \<Rightarrow> nat set" where
  "user_flagged I q = {e. \<exists>i. I e = Some i \<and> q \<in> ev_flags i \<and> EVLIST_INTERNAL \<notin> ev_flags i}"

definition active_at :: "(nat \<Rightarrow> ev_info option) \<Rightarrow> nat \<Rightarrow> nat set" where
  "active_at I p = {e. \<exists>i. I e = Some i \<and> EVLIST_ACTIVE \<in> ev_flags i \<and> ev_pri i = p}"

definition inserted_ok :: "'b event_base \<Rightarrow> bool" where
  "inserted_ok s \<longleftrightarrow> distinct (eventqueue s) \<and> set (eventqueue s) = flagged (bs_info s) EVLIST_INSERTED"

definition active_ok :: "'b event_base \<Rightarrow> bool" where
  "active_ok s \<longleftrightarrow> (\<forall>p < length (activequeues s). distinct (activequeues s ! p) \<and> set (activequeues s ! p) = active_at (bs_info s) p)
     \<and> (\<forall>i \<in> ran (bs_info s). ev_pri i < length (activequeues s)) \<and> activequeues s \<noteq> []"

definition counts_ok :: "'b event_base \<Rightarrow> bool" where
  "counts_ok s \<longleftrightarrow> event_count_active s = int (card (flagged (bs_info s) EVLIST_ACTIVE))
     \<and> event_count s = int (card (user_flagged (bs_info s) EVLIST_TIMEOUT)) + int (card (user_flagged (bs_info s) EVLIST_INSERTED))
         + int (card (user_flagged (bs_info s) EVLIST_ACTIVE))"

definition queues_ok :: "(nat \<Rightarrow> timeval) \<Rightarrow> 'b event_base \<Rightarrow> bool" where
  "queues_ok K s \<longleftrightarrow> common_timeout_queues s = [] \<and> dom (bs_info s) = dom (mh_ev (timeheap s))
     \<and> mh_queue K (timeheap s) (flagged (bs_info s) EVLIST_TIMEOUT) \<and> inserted_ok s \<and> active_ok s \<and> counts_ok s"

text \<open>Setting and clearing one flag.\<close>

definition with_flag :: "evlist \<Rightarrow> ev_info \<Rightarrow> ev_info" where
  "with_flag q i = i\<lparr>ev_flags := insert q (ev_flags i)\<rparr>"

definition without_flag :: "evlist \<Rightarrow> ev_info \<Rightarrow> ev_info" where
  "without_flag q i = i\<lparr>ev_flags := ev_flags i - {q}\<rparr>"

lemma flag_sels [simp]:
  "ev_flags (with_flag q i) = insert q (ev_flags i)" "ev_flags (without_flag q i) = ev_flags i - {q}"
  "ev_pri (with_flag q i) = ev_pri i" "ev_pri (without_flag q i) = ev_pri i"
  "ev_events (with_flag q i) = ev_events i" "ev_events (without_flag q i) = ev_events i"
  "ev_fd (with_flag q i) = ev_fd i" "ev_fd (without_flag q i) = ev_fd i"
  "ev_base (with_flag q i) = ev_base i" "ev_base (without_flag q i) = ev_base i"
  "ev_res (with_flag q i) = ev_res i" "ev_res (without_flag q i) = ev_res i"
  "ev_closure (with_flag q i) = ev_closure i" "ev_closure (without_flag q i) = ev_closure i"
  "ev_ncalls (with_flag q i) = ev_ncalls i" "ev_ncalls (without_flag q i) = ev_ncalls i"
  "ev_pncalls (with_flag q i) = ev_pncalls i" "ev_pncalls (without_flag q i) = ev_pncalls i"
  by (simp_all add: with_flag_def without_flag_def)

lemma flagged_set:
  assumes "I e = Some i"
  shows "flagged (I(e \<mapsto> with_flag q i)) q' = (if q' = q then insert e (flagged I q') else flagged I q')"
  using assms by (auto simp: flagged_def)

lemma flagged_clear:
  assumes "I e = Some i"
  shows "flagged (I(e \<mapsto> without_flag q i)) q' = (if q' = q then flagged I q' - {e} else flagged I q')"
  using assms by (auto simp: flagged_def)

lemma user_flagged_set:
  assumes "I e = Some i" "q \<noteq> EVLIST_INTERNAL"
  shows "user_flagged (I(e \<mapsto> with_flag q i)) q' =
    (if q' = q \<and> EVLIST_INTERNAL \<notin> ev_flags i then insert e (user_flagged I q') else user_flagged I q')"
  using assms by (auto simp: user_flagged_def)

lemma user_flagged_clear:
  assumes "I e = Some i" "q \<noteq> EVLIST_INTERNAL"
  shows "user_flagged (I(e \<mapsto> without_flag q i)) q' =
    (if q' = q \<and> EVLIST_INTERNAL \<notin> ev_flags i then user_flagged I q' - {e} else user_flagged I q')"
  using assms by (auto simp: user_flagged_def)

lemma flagged_other:
  assumes "I e = Some i" "ev_flags j = ev_flags i"
  shows "flagged (I(e \<mapsto> j)) q = flagged I q" "user_flagged (I(e \<mapsto> j)) q = user_flagged I q"
  unfolding flagged_def user_flagged_def by (rule Collect_cong, simp add: assms)+

lemma active_at_other:
  assumes "I e = Some i" "EVLIST_ACTIVE \<in> ev_flags j \<longleftrightarrow> EVLIST_ACTIVE \<in> ev_flags i" "ev_pri j = ev_pri i"
  shows "active_at (I(e \<mapsto> j)) p = active_at I p"
  using assms by (auto simp: active_at_def)

lemma ran_upd_same: "I e = Some i \<Longrightarrow> (\<forall>i \<in> ran I. P (f i)) \<Longrightarrow> f j = f i \<Longrightarrow> \<forall>i \<in> ran (I(e \<mapsto> j)). P (f i)"
  by (auto simp: ran_def split: if_splits)

lemma user_sub: "user_flagged I q \<subseteq> flagged I q"
  by (auto simp: user_flagged_def flagged_def)

text \<open>The sets are finite, as they are listed in the queues.\<close>

lemma queues_finite:
  assumes "queues_ok K s" "q \<in> {EVLIST_TIMEOUT, EVLIST_INSERTED, EVLIST_ACTIVE}"
  shows "finite (flagged (bs_info s) q)" "finite (user_flagged (bs_info s) q)"
proof -
  have "flagged (bs_info s) EVLIST_ACTIVE \<subseteq> (\<Union>p < length (activequeues s). set (activequeues s ! p))"
    using assms(1) by (force simp: queues_ok_def active_ok_def flagged_def active_at_def ran_def)
  then have "finite (flagged (bs_info s) EVLIST_ACTIVE)" by (rule finite_subset) auto
  moreover have "finite (flagged (bs_info s) EVLIST_INSERTED)"
    using assms(1) finite_set [of "eventqueue s"] by (auto simp: queues_ok_def inserted_ok_def)
  moreover have "finite (flagged (bs_info s) EVLIST_TIMEOUT)"
    using assms(1) mh.finite_queue by (auto simp: queues_ok_def)
  ultimately show "finite (flagged (bs_info s) q)" using assms(2) by auto
  then show "finite (user_flagged (bs_info s) q)" by (rule finite_subset [OF user_sub])
qed

text \<open>The counters follow the flags.\<close>

definition count_by :: "'b event_base \<Rightarrow> ev_info \<Rightarrow> int \<Rightarrow> int" where
  "count_by s i d = event_count s + (if EVLIST_INTERNAL \<in> ev_flags i then 0 else d)"

lemma counts_set:
  assumes "queues_ok K s" "bs_info s e = Some i" "q \<in> {EVLIST_TIMEOUT, EVLIST_INSERTED, EVLIST_ACTIVE}" "q \<notin> ev_flags i"
    "bs_info s' = (bs_info s)(e \<mapsto> with_flag q i)" "event_count s' = count_by s i 1"
    "event_count_active s' = event_count_active s + (if q = EVLIST_ACTIVE then 1 else 0)"
  shows "counts_ok s'"
proof -
  have fin: "finite (flagged (bs_info s) q)" "finite (user_flagged (bs_info s) q)" using queues_finite [OF assms(1,3)] by simp_all
  have new: "e \<notin> flagged (bs_info s) q" "e \<notin> user_flagged (bs_info s) q" using assms(2,4) by (auto simp: flagged_def user_flagged_def)
  have q: "q \<noteq> EVLIST_INTERNAL" using assms(3) by auto
  have "counts_ok s" using assms(1) by (simp add: queues_ok_def)
  then show ?thesis
    using assms(3,6,7) fin new unfolding counts_ok_def assms(5) flagged_set [of "bs_info s", OF assms(2)] user_flagged_set [of "bs_info s", OF assms(2) q] count_by_def
    by auto
qed

lemma counts_clear:
  assumes "queues_ok K s" "bs_info s e = Some i" "q \<in> {EVLIST_TIMEOUT, EVLIST_INSERTED, EVLIST_ACTIVE}" "q \<in> ev_flags i"
    "bs_info s' = (bs_info s)(e \<mapsto> without_flag q i)" "event_count s' = count_by s i (- 1)"
    "event_count_active s' = event_count_active s - (if q = EVLIST_ACTIVE then 1 else 0)"
  shows "counts_ok s'"
proof -
  have fin: "finite (flagged (bs_info s) q)" "finite (user_flagged (bs_info s) q)" using queues_finite [OF assms(1,3)] by simp_all
  have old: "e \<in> flagged (bs_info s) q" "EVLIST_INTERNAL \<notin> ev_flags i \<Longrightarrow> e \<in> user_flagged (bs_info s) q"
    using assms(2,4) by (auto simp: flagged_def user_flagged_def)
  have dec: "int (card (X - {e})) = int (card X) - 1" if "finite X" "e \<in> X" for X :: "nat set"
    using card.remove [OF that] by simp
  have q: "q \<noteq> EVLIST_INTERNAL" using assms(3) by auto
  have "counts_ok s" using assms(1) by (simp add: queues_ok_def)
  then show ?thesis
    using assms(3,6,7) dec [OF fin(1) old(1)] dec [OF fin(2) old(2)]
    unfolding counts_ok_def assms(5) flagged_clear [of "bs_info s", OF assms(2)] user_flagged_clear [of "bs_info s", OF assms(2) q] count_by_def
    by (auto split: if_splits)
qed

section \<open>Operations on the queues\<close>

text \<open>Nothing but the queues, the counters and the events has changed.\<close>

definition same_rest :: "'b event_base \<Rightarrow> 'b event_base \<Rightarrow> bool" where
  "same_rest s s' \<longleftrightarrow> s'\<lparr>timeheap := timeheap s, bs_info := bs_info s, eventqueue := eventqueue s, activequeues := activequeues s,
     event_count := event_count s, event_count_active := event_count_active s, event_continue := event_continue s\<rparr> = s \<and> length (activequeues s') = length (activequeues s)"

lemma same_rest_refl [simp]: "same_rest s s"
  by (simp add: same_rest_def)

lemma same_rest_sels:
  assumes "same_rest s s'"
  shows "common_timeout_queues s' = common_timeout_queues s" "bs_io s' = bs_io s" "bs_sigmap s' = bs_sigmap s" "bs_frames s' = bs_frames s"
    "tv_cache s' = tv_cache s" "evbase s' = evbase s" "bs_reads s' = bs_reads s" "length (activequeues s') = length (activequeues s)"
    "event_running_priority s' = event_running_priority s" "event_tv s' = event_tv s"
  using assms by (cases s; cases s'; simp add: same_rest_def)+

lemma same_rest_trans: "same_rest s s' \<Longrightarrow> same_rest s' s'' \<Longrightarrow> same_rest s s''"
  by (cases s; cases s'; cases s''; simp add: same_rest_def)

lemma not_common [simp]: "common_timeout_queues s = [] \<Longrightarrow> \<not> is_common_timeout tv s"
  by (simp add: is_common_timeout_def)

lemma queue_timeout:
  assumes "queues_ok K s" "bs_info s e = Some i"
  shows "timeout_of s e = Some (K e)" "e \<in> dom (mh_ev (timeheap s))"
proof -
  have "dom (bs_info s) = dom (mh_ev (timeheap s))" using assms(1) by (simp add: queues_ok_def)
  then show d: "e \<in> dom (mh_ev (timeheap s))" using assms(2) by blast
  then show "timeout_of s e = Some (K e)" using assms(1) by (auto simp: timeout_of_def queues_ok_def mh_queue_def mh_ok_def full_def mh_base_def)
qed

lemma active_ok_other:
  assumes "active_ok s" "bs_info s e = Some i" "EVLIST_ACTIVE \<in> ev_flags j \<longleftrightarrow> EVLIST_ACTIVE \<in> ev_flags i" "ev_pri j = ev_pri i"
    "bs_info s' = (bs_info s)(e \<mapsto> j)" "activequeues s' = activequeues s"
  shows "active_ok s'"
  using assms ran_upd_same [of "bs_info s" e i "\<lambda>p. p < length (activequeues s)" ev_pri j]
  by (simp add: active_ok_def active_at_other [of "bs_info s" e i j])

lemma inserted_ok_other:
  assumes "inserted_ok s" "bs_info s e = Some i" "EVLIST_INSERTED \<in> ev_flags j \<longleftrightarrow> EVLIST_INSERTED \<in> ev_flags i"
    "bs_info s' = (bs_info s)(e \<mapsto> j)" "eventqueue s' = eventqueue s"
  shows "inserted_ok s'"
proof -
  have "flagged ((bs_info s)(e \<mapsto> j)) EVLIST_INSERTED = flagged (bs_info s) EVLIST_INSERTED" using assms(2,3) by (auto simp: flagged_def)
  then show ?thesis using assms by (simp add: inserted_ok_def)
qed

text \<open>Removing an event from a queue clears the flag of the queue and nothing else.\<close>

lemma remove_inserted:
  assumes "queues_ok K s" "bs_info s e = Some i" "EVLIST_INSERTED \<in> ev_flags i"
  shows "\<exists>s'. event_queue_remove s e EVLIST_INSERTED = Some s' \<and> queues_ok K s' \<and> bs_info s' = (bs_info s)(e \<mapsto> without_flag EVLIST_INSERTED i)
    \<and> same_rest s s' \<and> timeheap s' = timeheap s \<and> activequeues s' = activequeues s"
proof -
  let ?s = "s\<lparr>event_count := count_by s i (- 1), bs_info := (bs_info s)(e \<mapsto> without_flag EVLIST_INSERTED i), eventqueue := remove1 e (eventqueue s)\<rparr>"
  have q: "common_timeout_queues s = []" "dom (bs_info s) = dom (mh_ev (timeheap s))" "inserted_ok s" "active_ok s"
    "mh_queue K (timeheap s) (flagged (bs_info s) EVLIST_TIMEOUT)" using assms(1) by (simp_all add: queues_ok_def)
  have "e \<in> set (eventqueue s)" using q(3) assms(2,3) by (auto simp: inserted_ok_def flagged_def)
  then have "event_queue_remove s e EVLIST_INSERTED = Some ?s"
    using assms(2,3) by (simp add: event_queue_remove_def info_upd_def tailq_remove_def count_by_def without_flag_def)
  moreover have "queues_ok K ?s" unfolding queues_ok_def
  proof (intro conjI)
    show "inserted_ok ?s" using q(3) assms(2) by (simp add: inserted_ok_def flagged_clear)
    show "active_ok ?s" by (rule active_ok_other [OF q(4) assms(2)]) auto
    show "counts_ok ?s" by (rule counts_clear [OF assms(1,2) _ assms(3)]) auto
    show "dom (bs_info ?s) = dom (mh_ev (timeheap ?s))" using q(2) assms(2) by auto
    show "mh_queue K (timeheap ?s) (flagged (bs_info ?s) EVLIST_TIMEOUT)" using q(5) assms(2) by (simp add: flagged_clear)
  qed (use q(1) in simp)
  ultimately show ?thesis by (auto simp: same_rest_def)
qed

lemma filtered_queues:
  assumes "active_ok s" "bs_info s e = Some i"
  shows "(activequeues s)[ev_pri i := remove1 e (activequeues s ! ev_pri i)] = map (filter (\<lambda>x. x \<noteq> e)) (activequeues s)"
    "EVLIST_ACTIVE \<notin> ev_flags i \<Longrightarrow> map (filter (\<lambda>x. x \<noteq> e)) (activequeues s) = activequeues s"
proof -
  have d: "distinct (activequeues s ! p)" "set (activequeues s ! p) = active_at (bs_info s) p" if "p < length (activequeues s)" for p
    using assms(1) that by (simp_all add: active_ok_def)
  have same: "filter (\<lambda>x. x \<noteq> e) xs = xs" if "e \<notin> set xs" for xs :: "nat list" using that by (induction xs) auto
  show "(activequeues s)[ev_pri i := remove1 e (activequeues s ! ev_pri i)] = map (filter (\<lambda>x. x \<noteq> e)) (activequeues s)"
  proof (rule nth_equalityI)
    fix p assume p: "p < length ((activequeues s)[ev_pri i := remove1 e (activequeues s ! ev_pri i)])"
    show "(activequeues s)[ev_pri i := remove1 e (activequeues s ! ev_pri i)] ! p = map (filter (\<lambda>x. x \<noteq> e)) (activequeues s) ! p"
    proof (cases "p = ev_pri i")
      case True
      then show ?thesis using p d(1) [of p] by (simp add: distinct_remove1_removeAll removeAll_filter_not_eq) (metis (mono_tags, lifting))
    next
      case False
      then have "e \<notin> set (activequeues s ! p)" using p d(2) [of p] assms(2) by (auto simp: active_at_def)
      then show ?thesis using p False same by simp
    qed
  qed simp
  assume "EVLIST_ACTIVE \<notin> ev_flags i"
  then have "e \<notin> set (activequeues s ! p)" if "p < length (activequeues s)" for p using d(2) [OF that] assms(2) by (auto simp: active_at_def)
  then show "map (filter (\<lambda>x. x \<noteq> e)) (activequeues s) = activequeues s" by (intro nth_equalityI) (simp_all add: same)
qed

lemma remove_active:
  assumes "queues_ok K s" "bs_info s e = Some i" "EVLIST_ACTIVE \<in> ev_flags i"
  shows "\<exists>s'. event_queue_remove s e EVLIST_ACTIVE = Some s' \<and> queues_ok K s' \<and> bs_info s' = (bs_info s)(e \<mapsto> without_flag EVLIST_ACTIVE i)
    \<and> same_rest s s' \<and> timeheap s' = timeheap s \<and> activequeues s' = map (filter (\<lambda>x. x \<noteq> e)) (activequeues s)"
proof -
  let ?p = "ev_pri i"
  let ?s = "s\<lparr>event_count := count_by s i (- 1), bs_info := (bs_info s)(e \<mapsto> without_flag EVLIST_ACTIVE i),
     event_count_active := event_count_active s - 1, activequeues := (activequeues s)[?p := remove1 e (activequeues s ! ?p)]\<rparr>"
  have q: "common_timeout_queues s = []" "dom (bs_info s) = dom (mh_ev (timeheap s))" "inserted_ok s" "active_ok s"
    "mh_queue K (timeheap s) (flagged (bs_info s) EVLIST_TIMEOUT)" using assms(1) by (simp_all add: queues_ok_def)
  have p: "?p < length (activequeues s)" using q(4) assms(2) by (auto simp: active_ok_def ran_def)
  then have "e \<in> set (activequeues s ! ?p)" using q(4) assms(2,3) by (auto simp: active_ok_def active_at_def)
  then have "event_queue_remove s e EVLIST_ACTIVE = Some ?s"
    using assms(2,3) p by (simp add: event_queue_remove_def info_upd_def tailq_remove_def count_by_def without_flag_def peek_def)
  moreover have "queues_ok K ?s" unfolding queues_ok_def
  proof (intro conjI)
    show "inserted_ok ?s" by (rule inserted_ok_other [OF q(3) assms(2)]) auto
    have "active_at ((bs_info s)(e \<mapsto> without_flag EVLIST_ACTIVE i)) r = (if r = ?p then active_at (bs_info s) r - {e} else active_at (bs_info s) r)" for r
      using assms(2) by (auto simp: active_at_def)
    then show "active_ok ?s"
      using q(4) p ran_upd_same [of "bs_info s" e i "\<lambda>p. p < length (activequeues s)" ev_pri "without_flag EVLIST_ACTIVE i", OF assms(2)] by (auto simp: active_ok_def nth_list_update)
    show "counts_ok ?s" by (rule counts_clear [OF assms(1,2) _ assms(3)]) auto
    show "dom (bs_info ?s) = dom (mh_ev (timeheap ?s))" using q(2) assms(2) by auto
    show "mh_queue K (timeheap ?s) (flagged (bs_info ?s) EVLIST_TIMEOUT)" using q(5) assms(2) by (simp add: flagged_clear)
  qed (use q(1) in simp)
  moreover have "same_rest s ?s" "timeheap ?s = timeheap s" by (simp_all add: same_rest_def)
  moreover have "activequeues ?s = map (filter (\<lambda>x. x \<noteq> e)) (activequeues s)"
    using filtered_queues [OF q(4) assms(2)] by simp
  ultimately show ?thesis by (intro exI [of _ ?s]) simp
qed

lemma remove_timeout:
  assumes "queues_ok K s" "bs_info s e = Some i" "EVLIST_TIMEOUT \<in> ev_flags i"
  shows "\<exists>s'. event_queue_remove s e EVLIST_TIMEOUT = Some s' \<and> queues_ok K s' \<and> bs_info s' = (bs_info s)(e \<mapsto> without_flag EVLIST_TIMEOUT i)
    \<and> same_rest s s' \<and> same_store (timeheap s) (timeheap s') \<and> activequeues s' = activequeues s"
proof -
  have q: "common_timeout_queues s = []" "dom (bs_info s) = dom (mh_ev (timeheap s))" "inserted_ok s" "active_ok s"
    "mh_queue K (timeheap s) (flagged (bs_info s) EVLIST_TIMEOUT)" using assms(1) by (simp_all add: queues_ok_def)
  have "e \<in> flagged (bs_info s) EVLIST_TIMEOUT" using assms(2,3) by (auto simp: flagged_def)
  from mh_queue_erase [OF q(5) this] obtain h where h: "min_heap_erase (timeheap s) e = Some (0, h)"
    "mh_queue K h (flagged (bs_info s) EVLIST_TIMEOUT - {e})" "same_store (timeheap s) h" by blast
  let ?s = "s\<lparr>event_count := count_by s i (- 1), bs_info := (bs_info s)(e \<mapsto> without_flag EVLIST_TIMEOUT i), timeheap := h\<rparr>"
  have "event_queue_remove s e EVLIST_TIMEOUT = Some ?s"
    using assms(2,3) h(1) q(1) queue_timeout(1) [OF assms(1,2)]
    by (auto simp: event_queue_remove_def info_upd_def count_by_def without_flag_def timeout_of_def is_common_timeout_def)
  moreover have "queues_ok K ?s" unfolding queues_ok_def
  proof (intro conjI)
    show "inserted_ok ?s" by (rule inserted_ok_other [OF q(3) assms(2)]) auto
    show "active_ok ?s" by (rule active_ok_other [OF q(4) assms(2)]) auto
    show "counts_ok ?s" by (rule counts_clear [OF assms(1,2) _ assms(3)]) auto
    show "dom (bs_info ?s) = dom (mh_ev (timeheap ?s))" using q(2) assms(2) h(3) by (auto simp: same_store_def)
    show "mh_queue K (timeheap ?s) (flagged (bs_info ?s) EVLIST_TIMEOUT)" using h(2) assms(2) by (simp add: flagged_clear)
  qed (use q(1) in simp)
  ultimately show ?thesis using h(3) by (auto simp: same_rest_def)
qed

text \<open>Inserting an event into a queue sets its flag and nothing else.\<close>

lemma insert_inserted:
  assumes "queues_ok K s" "bs_info s e = Some i" "EVLIST_INSERTED \<notin> ev_flags i"
  shows "\<exists>s'. event_queue_insert E s e EVLIST_INSERTED = Some s' \<and> queues_ok K s' \<and> bs_info s' = (bs_info s)(e \<mapsto> with_flag EVLIST_INSERTED i)
    \<and> same_rest s s' \<and> timeheap s' = timeheap s"
proof -
  let ?s = "s\<lparr>event_count := count_by s i 1, bs_info := (bs_info s)(e \<mapsto> with_flag EVLIST_INSERTED i), eventqueue := eventqueue s @ [e]\<rparr>"
  have q: "common_timeout_queues s = []" "dom (bs_info s) = dom (mh_ev (timeheap s))" "inserted_ok s" "active_ok s"
    "mh_queue K (timeheap s) (flagged (bs_info s) EVLIST_TIMEOUT)" using assms(1) by (simp_all add: queues_ok_def)
  have "e \<notin> set (eventqueue s)" using q(3) assms(2,3) by (auto simp: inserted_ok_def flagged_def)
  then have ins: "inserted_ok ?s" using q(3) assms(2) by (simp add: inserted_ok_def flagged_set)
  have "event_queue_insert E s e EVLIST_INSERTED = Some ?s"
    using assms(2,3) by (simp add: event_queue_insert_def info_upd_def count_by_def with_flag_def)
  moreover have "queues_ok K ?s" unfolding queues_ok_def
  proof (intro conjI)
    show "active_ok ?s" by (rule active_ok_other [OF q(4) assms(2)]) auto
    show "counts_ok ?s" by (rule counts_set [OF assms(1,2) _ assms(3)]) auto
    show "dom (bs_info ?s) = dom (mh_ev (timeheap ?s))" using q(2) assms(2) by auto
    show "mh_queue K (timeheap ?s) (flagged (bs_info ?s) EVLIST_TIMEOUT)" using q(5) assms(2) by (simp add: flagged_set)
  qed (use q(1) ins in simp_all)
  ultimately show ?thesis by (auto simp: same_rest_def)
qed

lemma insert_active:
  assumes "queues_ok K s" "bs_info s e = Some i" "EVLIST_ACTIVE \<notin> ev_flags i"
  shows "\<exists>s'. event_queue_insert E s e EVLIST_ACTIVE = Some s' \<and> queues_ok K s' \<and> bs_info s' = (bs_info s)(e \<mapsto> with_flag EVLIST_ACTIVE i)
    \<and> same_rest s s' \<and> timeheap s' = timeheap s
    \<and> activequeues s' = (activequeues s)[ev_pri i := activequeues s ! ev_pri i @ [e]]"
proof -
  let ?p = "ev_pri i"
  let ?s = "s\<lparr>event_count := count_by s i 1, bs_info := (bs_info s)(e \<mapsto> with_flag EVLIST_ACTIVE i),
     event_count_active := event_count_active s + 1, activequeues := (activequeues s)[?p := activequeues s ! ?p @ [e]]\<rparr>"
  have q: "common_timeout_queues s = []" "dom (bs_info s) = dom (mh_ev (timeheap s))" "inserted_ok s" "active_ok s"
    "mh_queue K (timeheap s) (flagged (bs_info s) EVLIST_TIMEOUT)" using assms(1) by (simp_all add: queues_ok_def)
  have p: "?p < length (activequeues s)" using q(4) assms(2) by (auto simp: active_ok_def ran_def)
  then have new: "e \<notin> set (activequeues s ! ?p)" using q(4) assms(2,3) by (auto simp: active_ok_def active_at_def)
  have "event_queue_insert E s e EVLIST_ACTIVE = Some ?s"
    using assms(2,3) p by (simp add: event_queue_insert_def info_upd_def count_by_def with_flag_def peek_def)
  moreover have "queues_ok K ?s" unfolding queues_ok_def
  proof (intro conjI)
    show "inserted_ok ?s" by (rule inserted_ok_other [OF q(3) assms(2)]) auto
    have "active_at ((bs_info s)(e \<mapsto> with_flag EVLIST_ACTIVE i)) r = (if r = ?p then insert e (active_at (bs_info s) r) else active_at (bs_info s) r)" for r
      using assms(2,3) by (auto simp: active_at_def)
    then show "active_ok ?s"
      using q(4) p new ran_upd_same [of "bs_info s" e i "\<lambda>p. p < length (activequeues s)" ev_pri "with_flag EVLIST_ACTIVE i", OF assms(2)] by (auto simp: active_ok_def nth_list_update)
    show "counts_ok ?s" by (rule counts_set [OF assms(1,2) _ assms(3)]) auto
    show "dom (bs_info ?s) = dom (mh_ev (timeheap ?s))" using q(2) assms(2) by auto
    show "mh_queue K (timeheap ?s) (flagged (bs_info ?s) EVLIST_TIMEOUT)" using q(5) assms(2) by (simp add: flagged_set)
  qed (use q(1) in simp)
  ultimately show ?thesis by (auto simp: same_rest_def)
qed

lemma insert_timeout:
  assumes "queues_ok K s" "bs_info s e = Some i" "EVLIST_TIMEOUT \<notin> ev_flags i"
    "card (flagged (bs_info s) EVLIST_TIMEOUT) < mh_a (mh_heap (timeheap s))" "int (card (flagged (bs_info s) EVLIST_TIMEOUT)) + 1 < 2 ^ 31 - 1"
  shows "\<exists>s'. event_queue_insert E s e EVLIST_TIMEOUT = Some s' \<and> queues_ok K s' \<and> bs_info s' = (bs_info s)(e \<mapsto> with_flag EVLIST_TIMEOUT i)
    \<and> same_rest s s'"
proof -
  have q: "common_timeout_queues s = []" "dom (bs_info s) = dom (mh_ev (timeheap s))" "inserted_ok s" "active_ok s"
    "mh_queue K (timeheap s) (flagged (bs_info s) EVLIST_TIMEOUT)" using assms(1) by (simp_all add: queues_ok_def)
  have "e \<notin> flagged (bs_info s) EVLIST_TIMEOUT" using assms(2,3) by (auto simp: flagged_def)
  from mh_queue_push [OF q(5) this queue_timeout(2) [OF assms(1,2)] assms(4,5)]
  obtain h where h: "min_heap_push (mm_alloc E) (timeheap s) e = Some (0, h)"
    "mh_queue K h (insert e (flagged (bs_info s) EVLIST_TIMEOUT))" "dom (mh_ev h) = dom (mh_ev (timeheap s))" by blast
  let ?s = "s\<lparr>event_count := count_by s i 1, bs_info := (bs_info s)(e \<mapsto> with_flag EVLIST_TIMEOUT i), timeheap := h\<rparr>"
  have "event_queue_insert E s e EVLIST_TIMEOUT = Some ?s"
    using assms(2,3) h(1) q(1) queue_timeout(1) [OF assms(1,2)]
    by (auto simp: event_queue_insert_def info_upd_def count_by_def with_flag_def timeout_of_def is_common_timeout_def)
  moreover have "queues_ok K ?s" unfolding queues_ok_def
  proof (intro conjI)
    show "inserted_ok ?s" by (rule inserted_ok_other [OF q(3) assms(2)]) auto
    show "active_ok ?s" by (rule active_ok_other [OF q(4) assms(2)]) auto
    show "counts_ok ?s" by (rule counts_set [OF assms(1,2) _ assms(3)]) auto
    show "dom (bs_info ?s) = dom (mh_ev (timeheap ?s))" using q(2) assms(2) h(3) by auto
    show "mh_queue K (timeheap ?s) (flagged (bs_info ?s) EVLIST_TIMEOUT)" using h(2) assms(2) by (simp add: flagged_set)
  qed (use q(1) in simp)
  ultimately show ?thesis by (auto simp: same_rest_def)
qed

lemma queues_ok_cong:
  assumes "queues_ok K s" "timeheap s' = timeheap s" "bs_info s' = bs_info s" "eventqueue s' = eventqueue s" "activequeues s' = activequeues s"
    "common_timeout_queues s' = common_timeout_queues s" "event_count s' = event_count s" "event_count_active s' = event_count_active s"
  shows "queues_ok K s'"
  using assms by (simp add: queues_ok_def inserted_ok_def active_ok_def counts_ok_def)

lemma queues_ok_info:
  assumes "queues_ok K s" "bs_info s e = Some i" "ev_flags j = ev_flags i" "ev_pri j = ev_pri i"
  shows "queues_ok K (s\<lparr>bs_info := (bs_info s)(e \<mapsto> j)\<rparr>)"
proof -
  let ?I = "(bs_info s)(e \<mapsto> j)"
  have f: "flagged ?I q = flagged (bs_info s) q" "user_flagged ?I q = user_flagged (bs_info s) q" for q
    by (rule flagged_other [of "bs_info s", OF assms(2,3)])+
  have "active_ok s" using assms(1) by (simp add: queues_ok_def)
  then have "active_ok (s\<lparr>bs_info := ?I\<rparr>)" by (rule active_ok_other [OF _ assms(2)]) (simp_all add: assms(3,4))
  moreover have "dom ?I = dom (bs_info s)" using assms(2) by auto
  ultimately show ?thesis using assms(1) by (simp add: queues_ok_def inserted_ok_def counts_ok_def f del: dom_fun_upd)
qed

section \<open>Activation\<close>

text \<open>\<^verbatim>\<open>event_active_nolock\<close>: the event gets the flag and the results; it goes to the end of the queue of its priority if it
  was not active before.\<close>

lemma event_active_ok:
  assumes "queues_ok K s" "bs_info s e = Some i"
  shows "\<exists>s' j. event_active_nolock E s e res n = Some s' \<and> queues_ok K s' \<and> same_rest s s' \<and> timeheap s' = timeheap s
    \<and> bs_info s' = (bs_info s)(e \<mapsto> j) \<and> ev_flags j = insert EVLIST_ACTIVE (ev_flags i) \<and> ev_fd j = ev_fd i \<and> ev_events j = ev_events i
    \<and> ev_base j = ev_base i \<and> ev_pri j = ev_pri i \<and> (ev_ncalls j = ev_ncalls i \<and> ev_pncalls j = ev_pncalls i \<or> ev_pncalls j = None) \<and> ev_res j = (if EVLIST_ACTIVE \<in> ev_flags i then ev_res i \<union> res else res)
    \<and> activequeues s' = (if EVLIST_ACTIVE \<in> ev_flags i then activequeues s
         else (activequeues s)[ev_pri i := activequeues s ! ev_pri i @ [e]])"
proof (cases "EVLIST_ACTIVE \<in> ev_flags i")
  case True
  let ?j = "i\<lparr>ev_res := ev_res i \<union> res\<rparr>"
  have "event_active_nolock E s e res n = Some (s\<lparr>bs_info := (bs_info s)(e \<mapsto> ?j)\<rparr>)"
    using True assms(2) by (simp add: event_active_nolock_def info_upd_def)
  moreover have "queues_ok K (s\<lparr>bs_info := (bs_info s)(e \<mapsto> ?j)\<rparr>)" by (rule queues_ok_info [OF assms]) auto
  ultimately show ?thesis using True by (auto simp: same_rest_def insert_absorb)
next
  case False
  let ?j = "if EV_SIGNAL \<in> ev_events i then i\<lparr>ev_res := res, ev_ncalls := n, ev_pncalls := None\<rparr> else i\<lparr>ev_res := res\<rparr>"
  let ?s = "s\<lparr>bs_info := (bs_info s)(e \<mapsto> ?j), event_continue := (if int (ev_pri i) < event_running_priority s then True else event_continue s)\<rparr>"
  have j: "ev_flags ?j = ev_flags i" "ev_pri ?j = ev_pri i" "ev_fd ?j = ev_fd i" "ev_events ?j = ev_events i" "ev_base ?j = ev_base i" "ev_res ?j = res"
    "ev_ncalls ?j = ev_ncalls i \<and> ev_pncalls ?j = ev_pncalls i \<or> ev_pncalls ?j = None" by simp_all
  have comm: "s\<lparr>event_continue := a, bs_info := b\<rparr> = s\<lparr>bs_info := b, event_continue := a\<rparr>" for a b by simp
  have eq: "event_active_nolock E s e res n = event_queue_insert E ?s e EVLIST_ACTIVE"
    using False assms(2) by (simp add: event_active_nolock_def info_upd_def comm)
  have "queues_ok K (s\<lparr>bs_info := (bs_info s)(e \<mapsto> ?j)\<rparr>)" by (rule queues_ok_info [OF assms j(1,2)])
  then have q: "queues_ok K ?s" by (rule queues_ok_cong) simp_all
  have lk: "bs_info ?s e = Some ?j" by simp
  have nf: "EVLIST_ACTIVE \<notin> ev_flags ?j" using False j(1) by simp
  from insert_active [OF q lk nf, of E] obtain s' where s': "event_queue_insert E ?s e EVLIST_ACTIVE = Some s'" "queues_ok K s'"
    "bs_info s' = (bs_info ?s)(e \<mapsto> with_flag EVLIST_ACTIVE ?j)" "same_rest ?s s'" "timeheap s' = timeheap ?s"
    "activequeues s' = (activequeues ?s)[ev_pri ?j := activequeues ?s ! ev_pri ?j @ [e]]" by blast
  have "same_rest s ?s" by (simp add: same_rest_def)
  then have "same_rest s s'" by (rule same_rest_trans [OF _ s'(4)])
  then show ?thesis unfolding eq using False s' j
    by (intro exI [of _ s'] exI [of _ "with_flag EVLIST_ACTIVE ?j"]) (simp add: j)
qed

section \<open>The maps\<close>

abbreviation io_kind :: "ev_info \<Rightarrow> bool" where
  "io_kind i \<equiv> ev_events i \<inter> {EV_READ, EV_WRITE} \<noteq> {}"

text \<open>The events of \<open>M\<close> that want what, on a descriptor.\<close>

definition on_fd :: "(nat \<Rightarrow> ev_info option) \<Rightarrow> nat set \<Rightarrow> ev_what set \<Rightarrow> nat \<Rightarrow> nat set" where
  "on_fd I M what n = {e \<in> M. \<exists>i. I e = Some i \<and> ev_events i \<inter> what \<noteq> {} \<and> ev_fd i = int n}"

definition on_sig :: "(nat \<Rightarrow> ev_info option) \<Rightarrow> nat set \<Rightarrow> nat \<Rightarrow> nat set" where
  "on_sig I M n = {e \<in> M. \<exists>i. I e = Some i \<and> \<not> io_kind i \<and> ev_fd i = int n}"

definition io_ok :: "'b event_base \<Rightarrow> nat set \<Rightarrow> bool" where
  "io_ok s M \<longleftrightarrow> (\<forall>n < length (bs_io s). \<forall>ctx. bs_io s ! n = Some ctx \<longrightarrow>
      distinct (io_events ctx) \<and> set (io_events ctx) = on_fd (bs_info s) M {EV_READ, EV_WRITE} n
      \<and> io_nread ctx = int (card (on_fd (bs_info s) M {EV_READ} n)) \<and> io_nwrite ctx = int (card (on_fd (bs_info s) M {EV_WRITE} n)))
    \<and> (\<forall>e \<in> M. \<forall>i. bs_info s e = Some i \<longrightarrow> io_kind i \<longrightarrow> 0 \<le> ev_fd i \<and> nat (ev_fd i) < length (bs_io s) \<and> bs_io s ! nat (ev_fd i) \<noteq> None)"

definition sig_ok :: "'b event_base \<Rightarrow> nat set \<Rightarrow> bool" where
  "sig_ok s M \<longleftrightarrow> (\<forall>n < length (bs_sigmap s). \<forall>es. bs_sigmap s ! n = Some es \<longrightarrow> distinct es \<and> set es = on_sig (bs_info s) M n)
    \<and> (\<forall>e \<in> M. \<forall>i. bs_info s e = Some i \<longrightarrow> \<not> io_kind i \<longrightarrow> 0 \<le> ev_fd i \<and> nat (ev_fd i) < length (bs_sigmap s) \<and> bs_sigmap s ! nat (ev_fd i) \<noteq> None)"

definition maps_ok :: "'b event_base \<Rightarrow> nat set \<Rightarrow> bool" where
  "maps_ok s M \<longleftrightarrow> finite M \<and> M \<subseteq> dom (bs_info s) \<and> io_ok s M \<and> sig_ok s M"

lemma on_fd_finite: "finite M \<Longrightarrow> finite (on_fd I M what n)"
  by (simp add: on_fd_def)

lemma on_fd_insert:
  assumes "I e = Some i"
  shows "on_fd I (insert e M) what n = (if ev_events i \<inter> what \<noteq> {} \<and> ev_fd i = int n then insert e (on_fd I M what n) else on_fd I M what n)"
  using assms by (auto simp: on_fd_def)

lemma on_fd_remove:
  assumes "I e = Some i"
  shows "on_fd I (M - {e}) what n = (if ev_events i \<inter> what \<noteq> {} \<and> ev_fd i = int n then on_fd I M what n - {e} else on_fd I M what n)"
  using assms by (auto simp: on_fd_def)

text \<open>The maps depend on the events and the descriptors only.\<close>

lemma maps_ok_info:
  assumes "maps_ok s M" "bs_info s e = Some i" "ev_events j = ev_events i" "ev_fd j = ev_fd i"
    "bs_info s' = (bs_info s)(e \<mapsto> j)" "bs_io s' = bs_io s" "bs_sigmap s' = bs_sigmap s"
  shows "maps_ok s' M"
proof -
  have f: "on_fd (bs_info s') M what n = on_fd (bs_info s) M what n" "on_sig (bs_info s') M n = on_sig (bs_info s) M n" for what n
    using assms(2-5) by (auto simp: on_fd_def on_sig_def)
  show ?thesis using assms unfolding maps_ok_def io_ok_def sig_ok_def f by auto
qed

text \<open>The doubling of the arrays ends for every descriptor below \<open>2 ^ 27\<close>.\<close>

lemma grow_entries_ok:
  assumes "0 < n" "slot < 2 ^ 27"
  shows "\<exists>m. grow_entries n slot = Some m \<and> slot < m \<and> n \<le> m \<and> (m = n \<or> m \<le> 2 * slot)"
  using assms
proof (induction n slot rule: grow_entries.induct)
  case (1 n slot)
  show ?case
  proof (cases "n \<le> slot")
    case True
    have lt: "2 * n < 2 ^ 31" using True 1(3) by simp
    from 1(1) [OF True] 1(2,3) lt obtain m where "grow_entries (2 * n) slot = Some m" "slot < m" "2 * n \<le> m" "m = 2 * n \<or> m \<le> 2 * slot" by auto
    then show ?thesis using True lt 1(2) by (subst grow_entries.simps) auto
  qed (subst grow_entries.simps, auto)
qed

lemma make_space_ok:
  assumes "0 \<le> slot" "slot < 2 ^ 27"
  shows "evmap_make_space A entries slot 8 = Some (- 1, entries) \<or>
    (\<exists>k. evmap_make_space A entries slot 8 = Some (0, entries @ replicate k None) \<and> nat slot < length entries + k)"
proof (cases "int (length entries) \<le> slot")
  case True
  let ?n = "if int (length entries) \<noteq> 0 then int (length entries) else 32"
  have pos: "0 < ?n" by auto
  obtain m where m: "grow_entries ?n slot = Some m" "slot < m" "?n \<le> m" "m = ?n \<or> m \<le> 2 * slot"
    using grow_entries_ok [OF pos assms(2)] by blast
  have lt: "m * 8 < 2 ^ 31" using m(4) True assms by (auto split: if_splits)
  have "nat slot < length entries + nat (m - int (length entries))" using m(2) assms(1) by linarith
  then show ?thesis using True m(1) lt by (auto simp: evmap_make_space_def Let_def)
next
  case False
  then show ?thesis using assms(1) by (auto simp: evmap_make_space_def intro!: exI [of _ 0])
qed

text \<open>New and empty entries change nothing.\<close>

lemma io_ok_grow: "io_ok s M \<Longrightarrow> io_ok (s\<lparr>bs_io := bs_io s @ replicate k None\<rparr>) M"
  by (auto simp: io_ok_def nth_append)

lemma io_ok_ctor:
  assumes "io_ok s M" "n < length (bs_io s)" "bs_io s ! n = None"
  shows "io_ok (s\<lparr>bs_io := (bs_io s)[n := Some evmap_io_init]\<rparr>) M"
proof -
  have "on_fd (bs_info s) M {EV_READ, EV_WRITE} n = {}"
    using assms by (fastforce simp: io_ok_def on_fd_def)
  moreover have "on_fd (bs_info s) M what n \<subseteq> on_fd (bs_info s) M {EV_READ, EV_WRITE} n" if "what \<subseteq> {EV_READ, EV_WRITE}" for what
    using that by (auto simp: on_fd_def)
  ultimately have "on_fd (bs_info s) M {EV_READ, EV_WRITE} n = {}" "on_fd (bs_info s) M {EV_READ} n = {}" "on_fd (bs_info s) M {EV_WRITE} n = {}"
    by blast+
  then show ?thesis using assms by (auto simp: io_ok_def nth_list_update evmap_io_init_def)
qed

text \<open>An entry whose list and numbers follow the set of events.\<close>

lemma io_ok_set:
  assumes "io_ok s M" "n < length (bs_io s)" "bs_info s' = bs_info s" "bs_io s' = (bs_io s)[n := Some ctx]"
    "\<And>m what. m \<noteq> n \<Longrightarrow> on_fd (bs_info s) M' what m = on_fd (bs_info s) M what m"
    "distinct (io_events ctx)" "set (io_events ctx) = on_fd (bs_info s) M' {EV_READ, EV_WRITE} n"
    "io_nread ctx = int (card (on_fd (bs_info s) M' {EV_READ} n))" "io_nwrite ctx = int (card (on_fd (bs_info s) M' {EV_WRITE} n))"
    "\<And>e i. e \<in> M' - M \<Longrightarrow> bs_info s e = Some i \<Longrightarrow> io_kind i \<Longrightarrow> ev_fd i = int n"
  shows "io_ok s' M'"
  unfolding io_ok_def assms(3,4)
proof (intro conjI allI impI ballI)
  fix m c assume m: "m < length ((bs_io s)[n := Some ctx])" "(bs_io s)[n := Some ctx] ! m = Some c"
  have "distinct (io_events c) \<and> set (io_events c) = on_fd (bs_info s) M' {EV_READ, EV_WRITE} m
      \<and> io_nread c = int (card (on_fd (bs_info s) M' {EV_READ} m)) \<and> io_nwrite c = int (card (on_fd (bs_info s) M' {EV_WRITE} m))"
  proof (cases "m = n")
    case True
    then show ?thesis using m assms(2,6-9) by simp
  next
    case False
    then show ?thesis using m assms(1) unfolding assms(5) [OF False] by (simp add: io_ok_def)
  qed
  then show "distinct (io_events c)" "set (io_events c) = on_fd (bs_info s) M' {EV_READ, EV_WRITE} m"
    "io_nread c = int (card (on_fd (bs_info s) M' {EV_READ} m))" "io_nwrite c = int (card (on_fd (bs_info s) M' {EV_WRITE} m))" by simp_all
next
  fix e i assume e: "e \<in> M'" "bs_info s e = Some i" "io_kind i"
  have "0 \<le> ev_fd i \<and> nat (ev_fd i) < length (bs_io s) \<and> (bs_io s)[n := Some ctx] ! nat (ev_fd i) \<noteq> None"
  proof (cases "e \<in> M")
    case True
    then have "0 \<le> ev_fd i \<and> nat (ev_fd i) < length (bs_io s) \<and> bs_io s ! nat (ev_fd i) \<noteq> None"
      using assms(1) e(2,3) unfolding io_ok_def by blast
    then show ?thesis by (cases "nat (ev_fd i) = n") auto
  next
    case False
    then show ?thesis using assms(2,10) e by simp
  qed
  then show "0 \<le> ev_fd i" "nat (ev_fd i) < length ((bs_io s)[n := Some ctx])" "(bs_io s)[n := Some ctx] ! nat (ev_fd i) \<noteq> None" by simp_all
qed

lemma enter_cases:
  shows "\<exists>b. evmap_io_enter E s fd e i ctx = (- 1, s\<lparr>evbase := b\<rparr>)
    \<or> (\<exists>r \<in> {0, 1}. evmap_io_enter E s fd e i ctx = (r, s\<lparr>evbase := b, bs_io := (bs_io s)[nat fd :=
         Some (ctx\<lparr>io_nread := io_nread ctx + (if EV_READ \<in> ev_events i then 1 else 0),
     io_nwrite := io_nwrite ctx + (if EV_WRITE \<in> ev_events i then 1 else 0), io_events := io_events ctx @ [e]\<rparr>)]\<rparr>))"
    (is "\<exists>b. ?fail b \<or> ?done b")
proof -
  obtain nr nw where n: "nr = io_nread ctx + (if EV_READ \<in> ev_events i then 1 else 0)" "nw = io_nwrite ctx + (if EV_WRITE \<in> ev_events i then 1 else 0)"
    by blast
  obtain res old where w: "res = wanted (EV_READ \<in> ev_events i \<and> nr = 1) (EV_WRITE \<in> ev_events i \<and> nw = 1)"
    "old = wanted (io_nread ctx \<noteq> 0) (io_nwrite ctx \<noteq> 0)" by blast
  obtain r b where rb: "evsel_add E (evbase s) (ev_fd i) old ((ev_events i \<inter> {EV_ET}) \<union> res) = (r, b)" by fastforce
  consider "nr > 0xffff \<or> nw > 0xffff" | "\<not> (nr > 0xffff \<or> nw > 0xffff)" "res = {}" | "\<not> (nr > 0xffff \<or> nw > 0xffff)" "res \<noteq> {}" by blast
  then show ?thesis
  proof cases
    case 1
    then have "?fail (evbase s)" unfolding evmap_io_enter_def Let_def n [symmetric] by simp
    then show ?thesis by blast
  next
    case 2
    then have "?done (evbase s)" unfolding evmap_io_enter_def Let_def n [symmetric] w [symmetric] set_slot_def by simp
    then show ?thesis by blast
  next
    case 3
    then have "?fail b \<or> ?done b" unfolding evmap_io_enter_def Let_def n [symmetric] w [symmetric] set_slot_def rb by simp
    then show ?thesis by blast
  qed
qed

lemma enter_ok:
  assumes "io_ok s M" "finite M" "e \<notin> M" "bs_info s e = Some i" "io_kind i" "0 \<le> ev_fd i" "nat (ev_fd i) < length (bs_io s)"
    "bs_io s ! nat (ev_fd i) = Some ctx"
  shows "\<exists>r b io. evmap_io_enter E s (ev_fd i) e i ctx = (r, s\<lparr>evbase := b, bs_io := io\<rparr>) \<and> r \<in> {- 1, 0, 1}
    \<and> io_ok (s\<lparr>evbase := b, bs_io := io\<rparr>) (if r = - 1 then M else insert e M)"
proof -
  let ?n = "nat (ev_fd i)"
  let ?ctx = "ctx\<lparr>io_nread := io_nread ctx + (if EV_READ \<in> ev_events i then 1 else 0),
     io_nwrite := io_nwrite ctx + (if EV_WRITE \<in> ev_events i then 1 else 0), io_events := io_events ctx @ [e]\<rparr>"
  have c: "distinct (io_events ctx)" "set (io_events ctx) = on_fd (bs_info s) M {EV_READ, EV_WRITE} ?n"
    "io_nread ctx = int (card (on_fd (bs_info s) M {EV_READ} ?n))" "io_nwrite ctx = int (card (on_fd (bs_info s) M {EV_WRITE} ?n))"
    using assms(1,7,8) by (auto simp: io_ok_def)
  have fd: "ev_fd i = int ?n" using assms(6) by simp
  have new: "e \<notin> on_fd (bs_info s) M what m" for what m using assms(3) by (simp add: on_fd_def)
  have ins: "on_fd (bs_info s) (insert e M) what ?n =
      (if ev_events i \<inter> what \<noteq> {} then insert e (on_fd (bs_info s) M what ?n) else on_fd (bs_info s) M what ?n)" for what
    unfolding on_fd_insert [of "bs_info s", OF assms(4)] using fd by simp
  have added: "io_ok (s\<lparr>evbase := b, bs_io := (bs_io s)[?n := Some ?ctx]\<rparr>) (insert e M)" for b
  proof (rule io_ok_set [OF assms(1,7)])
    show "on_fd (bs_info s) (insert e M) what m = on_fd (bs_info s) M what m" if "m \<noteq> ?n" for m what
      unfolding on_fd_insert [of "bs_info s", OF assms(4)] using that fd by auto
    show "distinct (io_events ?ctx)" using c(1,2) new by simp
    show "set (io_events ?ctx) = on_fd (bs_info s) (insert e M) {EV_READ, EV_WRITE} ?n" unfolding ins using c(2) assms(5) by simp
    show "io_nread ?ctx = int (card (on_fd (bs_info s) (insert e M) {EV_READ} ?n))"
      unfolding ins using c(3) new on_fd_finite [OF assms(2)] by simp
    show "io_nwrite ?ctx = int (card (on_fd (bs_info s) (insert e M) {EV_WRITE} ?n))"
      unfolding ins using c(4) new on_fd_finite [OF assms(2)] by simp
    show "\<And>e' i'. e' \<in> insert e M - M \<Longrightarrow> bs_info s e' = Some i' \<Longrightarrow> io_kind i' \<Longrightarrow> ev_fd i' = int ?n" using assms(4) fd by auto
  qed simp_all
  have kept: "io_ok (s\<lparr>evbase := b\<rparr>) M" for b using assms(1) by (simp add: io_ok_def)
  obtain b where "evmap_io_enter E s (ev_fd i) e i ctx = (- 1, s\<lparr>evbase := b\<rparr>)
      \<or> (\<exists>r \<in> {0, 1}. evmap_io_enter E s (ev_fd i) e i ctx = (r, s\<lparr>evbase := b, bs_io := (bs_io s)[?n := Some ?ctx]\<rparr>))"
    by (rule exE [OF enter_cases [of E s "ev_fd i" e i ctx]])
  then show ?thesis
  proof (elim disjE bexE)
    assume "evmap_io_enter E s (ev_fd i) e i ctx = (- 1, s\<lparr>evbase := b\<rparr>)"
    then show ?thesis using kept [of b] by (intro exI [of _ "- 1"] exI [of _ b] exI [of _ "bs_io s"]) simp
  next
    fix r :: int assume r: "r \<in> {0, 1}" and eq: "evmap_io_enter E s (ev_fd i) e i ctx = (r, s\<lparr>evbase := b, bs_io := (bs_io s)[?n := Some ?ctx]\<rparr>)"
    have "r \<noteq> - 1" "r \<in> {- 1, 0, 1}" using r by auto
    then show ?thesis using eq added [of b]
      by (intro exI [of _ r] exI [of _ b] exI [of _ "(bs_io s)[?n := Some ?ctx]"]) (simp only: if_False simp_thms)
  qed
qed

lemma io_ok_frame: "io_ok s M \<Longrightarrow> bs_info s' = bs_info s \<Longrightarrow> bs_io s' = bs_io s \<Longrightarrow> io_ok s' M"
  by (simp add: io_ok_def)

lemma sig_ok_frame: "sig_ok s M \<Longrightarrow> bs_info s' = bs_info s \<Longrightarrow> bs_sigmap s' = bs_sigmap s \<Longrightarrow> sig_ok s' M"
  by (simp add: sig_ok_def)

lemma sig_ok_io:
  assumes "bs_info s e = Some i" "io_kind i" "M - {e} = M' - {e}" "bs_info s' = bs_info s" "bs_sigmap s' = bs_sigmap s" "sig_ok s M"
  shows "sig_ok s' M'"
proof -
  have in_iff: "x \<in> M' \<longleftrightarrow> x \<in> M" if "x \<noteq> e" for x using assms(3) that by blast
  have "on_sig (bs_info s) M' n = on_sig (bs_info s) M n" for n
    unfolding on_sig_def using assms(1,2) in_iff by force
  moreover have "x \<in> M" if "x \<in> M'" "bs_info s x = Some j" "\<not> io_kind j" for x j using that assms(1,2) in_iff by force
  ultimately show ?thesis using assms(6) unfolding sig_ok_def assms(4,5) by fastforce
qed

text \<open>\<^verbatim>\<open>evmap_io_add\<close> enters the event, or fails and leaves the map to the events it had.\<close>

lemma evmap_io_add_ok:
  assumes "maps_ok s M" "e \<notin> M" "bs_info s e = Some i" "io_kind i" "ev_fd i < 2 ^ 27"
  shows "\<exists>r b io. evmap_io_add E s (ev_fd i) e = Some (r, s\<lparr>evbase := b, bs_io := io\<rparr>) \<and> r \<in> {- 1, 0, 1}
    \<and> maps_ok (s\<lparr>evbase := b, bs_io := io\<rparr>) (if r = - 1 \<or> ev_fd i < 0 then M else insert e M)"
proof (cases "ev_fd i < 0")
  case True
  then have "evmap_io_add E s (ev_fd i) e = Some (0, s\<lparr>evbase := evbase s, bs_io := bs_io s\<rparr>)" using assms(3) by (simp add: evmap_io_add_def)
  moreover have "maps_ok (s\<lparr>evbase := evbase s, bs_io := bs_io s\<rparr>) M" using assms(1) by simp
  ultimately show ?thesis using True by (intro exI [of _ 0] exI [of _ "evbase s"] exI [of _ "bs_io s"]) simp
next
  case False
  let ?n = "nat (ev_fd i)"
  have m: "finite M" "M \<subseteq> dom (bs_info s)" "io_ok s M" "sig_ok s M" using assms(1) by (simp_all add: maps_ok_def)
  have maps: "maps_ok (s\<lparr>evbase := b, bs_io := io\<rparr>) M'" if "io_ok (s\<lparr>evbase := b, bs_io := io\<rparr>) M'" "M' = M \<or> M' = insert e M" for b io M'
  proof -
    have "sig_ok (s\<lparr>evbase := b, bs_io := io\<rparr>) M'" by (rule sig_ok_io [OF assms(3,4) _ _ _ m(4)]) (use that(2) in auto)
    moreover have "finite M'" "M' \<subseteq> dom (bs_info s)" using that(2) m(1,2) assms(3) by auto
    ultimately show ?thesis using that(1) by (simp add: maps_ok_def)
  qed
  have keep: "maps_ok (s\<lparr>evbase := evbase s, bs_io := io\<rparr>) M" if "io_ok (s\<lparr>bs_io := io\<rparr>) M" for io using maps [where b = "evbase s" and io = io and M' = M] that by simp
  from False have fd: "0 \<le> ev_fd i" by simp
  from make_space_ok [OF fd assms(5), of "mm_alloc E" "bs_io s"] show ?thesis
  proof (elim disjE exE conjE)
    assume "evmap_make_space (mm_alloc E) (bs_io s) (ev_fd i) 8 = Some (- 1, bs_io s)"
    then have "evmap_io_add E s (ev_fd i) e = Some (- 1, s\<lparr>evbase := evbase s, bs_io := bs_io s\<rparr>)" using assms(3) fd by (simp add: evmap_io_add_def)
    then show ?thesis using keep [of "bs_io s"] m(3) by (intro exI [of _ "- 1"] exI [of _ "evbase s"] exI [of _ "bs_io s"]) simp
  next
    fix k assume sp: "evmap_make_space (mm_alloc E) (bs_io s) (ev_fd i) 8 = Some (0, bs_io s @ replicate k None)" "?n < length (bs_io s) + k"
    let ?io = "bs_io s @ replicate k None"
    have ok: "io_ok (s\<lparr>bs_io := ?io\<rparr>) M" by (rule io_ok_grow [OF m(3)])
    show ?thesis
    proof (cases "?io ! ?n = None \<and> \<not> mm_alloc E (24 + evsel_fdinfo_len E)")
      case True
      then have "evmap_io_add E s (ev_fd i) e = Some (- 1, s\<lparr>evbase := evbase s, bs_io := ?io\<rparr>)"
        using assms(3) fd sp by (simp add: evmap_io_add_def get_slot_and_ctor_def peek_def)
      then show ?thesis using keep [OF ok] by (intro exI [of _ "- 1"] exI [of _ "evbase s"] exI [of _ ?io]) simp
    next
      case room: False
      obtain ctx io where c: "get_slot_and_ctor (mm_alloc E) ?io (ev_fd i) evmap_io_init (24 + evsel_fdinfo_len E) = Some (Some (ctx, io))"
        "?n < length io" "io ! ?n = Some ctx" "io_ok (s\<lparr>bs_io := io\<rparr>) M"
      proof (cases "?io ! ?n")
        case None
        then show thesis using that [of evmap_io_init "?io[?n := Some evmap_io_init]"] io_ok_ctor [OF ok, of ?n] room fd sp(2)
          by (simp add: get_slot_and_ctor_def peek_def)
      next
        case (Some c)
        then show thesis using that [of c ?io] ok fd sp(2) by (simp add: get_slot_and_ctor_def peek_def)
      qed
      have "\<exists>r b io'. evmap_io_enter E (s\<lparr>bs_io := io\<rparr>) (ev_fd i) e i ctx = (r, (s\<lparr>bs_io := io\<rparr>)\<lparr>evbase := b, bs_io := io'\<rparr>) \<and> r \<in> {- 1, 0, 1}
          \<and> io_ok ((s\<lparr>bs_io := io\<rparr>)\<lparr>evbase := b, bs_io := io'\<rparr>) (if r = - 1 then M else insert e M)"
        by (rule enter_ok) (use c assms m(1) fd in auto)
      then obtain r b io' where r: "evmap_io_enter E (s\<lparr>bs_io := io\<rparr>) (ev_fd i) e i ctx = (r, s\<lparr>evbase := b, bs_io := io'\<rparr>)" "r \<in> {- 1, 0, 1}"
        "io_ok (s\<lparr>evbase := b, bs_io := io'\<rparr>) (if r = - 1 then M else insert e M)" by auto
      have "evmap_io_add E s (ev_fd i) e = Some (r, s\<lparr>evbase := b, bs_io := io'\<rparr>)"
        using assms(3) fd sp(1) c(1) r(1) by (simp add: evmap_io_add_def)
      moreover have "maps_ok (s\<lparr>evbase := b, bs_io := io'\<rparr>) (if r = - 1 then M else insert e M)" by (rule maps [OF r(3)]) simp
      ultimately show ?thesis using r(2) fd by (intro exI [of _ r] exI [of _ b] exI [of _ io']) simp
    qed
  qed
qed

lemma leave_cases:
  assumes "e \<in> set (io_events ctx)" "EV_READ \<in> ev_events i \<Longrightarrow> 0 < io_nread ctx" "EV_WRITE \<in> ev_events i \<Longrightarrow> 0 < io_nwrite ctx"
    "0 \<le> io_nread ctx" "0 \<le> io_nwrite ctx"
  shows "\<exists>b. (evmap_io_leave E s fd e i ctx = Some (- 1, s\<lparr>evbase := b\<rparr>) \<and> (\<exists>old ev. fst (evsel_del E (evbase s) (ev_fd i) old ev) = - 1))
    \<or> (\<exists>r \<in> {0, 1}. evmap_io_leave E s fd e i ctx = Some (r, s\<lparr>evbase := b, bs_io := (bs_io s)[nat fd :=
         Some (ctx\<lparr>io_nread := io_nread ctx - (if EV_READ \<in> ev_events i then 1 else 0),
     io_nwrite := io_nwrite ctx - (if EV_WRITE \<in> ev_events i then 1 else 0), io_events := remove1 e (io_events ctx)\<rparr>)]\<rparr>))"
    (is "\<exists>b. ?fail b \<or> ?done b")
proof -
  obtain nr nw where n: "nr = io_nread ctx - (if EV_READ \<in> ev_events i then 1 else 0)" "nw = io_nwrite ctx - (if EV_WRITE \<in> ev_events i then 1 else 0)"
    by blast
  have ge: "\<not> (nr < 0 \<or> nw < 0)" using assms(2-5) n by auto
  obtain res old where w: "res = wanted (EV_READ \<in> ev_events i \<and> nr = 0) (EV_WRITE \<in> ev_events i \<and> nw = 0)"
    "old = wanted (io_nread ctx \<noteq> 0) (io_nwrite ctx \<noteq> 0)" by blast
  obtain r b where rb: "evsel_del E (evbase s) (ev_fd i) old res = (r, b)" by fastforce
  have rm: "tailq_remove (io_events ctx) e = Some (remove1 e (io_events ctx))" using assms(1) by (simp add: tailq_remove_def)
  consider "res = {}" | "res \<noteq> {}" "r \<noteq> - 1" | "res \<noteq> {}" "r = - 1" by blast
  then show ?thesis
  proof cases
    case 1
    then have "?done (evbase s)" unfolding evmap_io_leave_def Let_def n [symmetric] w [symmetric] set_slot_def rm using ge by simp
    then show ?thesis by blast
  next
    case 2
    then have "?done b" unfolding evmap_io_leave_def Let_def n [symmetric] w [symmetric] set_slot_def rb rm using ge by simp
    then show ?thesis by blast
  next
    case 3
    have "fst (evsel_del E (evbase s) (ev_fd i) old res) = - 1" using rb 3 by simp
    moreover have "evmap_io_leave E s fd e i ctx = Some (- 1, s\<lparr>evbase := b\<rparr>)"
      using 3 unfolding evmap_io_leave_def Let_def n [symmetric] w [symmetric] set_slot_def rb using ge by simp
    ultimately show ?thesis by blast
  qed
qed

lemma leave_ok:
  assumes "io_ok s M" "finite M" "e \<in> M" "bs_info s e = Some i" "io_kind i" "bs_io s ! nat (ev_fd i) = Some ctx"
  shows "\<exists>r b io. evmap_io_leave E s (ev_fd i) e i ctx = Some (r, s\<lparr>evbase := b, bs_io := io\<rparr>) \<and> r \<in> {- 1, 0, 1}
    \<and> io_ok (s\<lparr>evbase := b, bs_io := io\<rparr>) (if r = - 1 then M else M - {e})
    \<and> (r = - 1 \<longrightarrow> (\<exists>old ev. fst (evsel_del E (evbase s) (ev_fd i) old ev) = - 1))"
proof -
  let ?n = "nat (ev_fd i)"
  let ?ctx = "ctx\<lparr>io_nread := io_nread ctx - (if EV_READ \<in> ev_events i then 1 else 0),
     io_nwrite := io_nwrite ctx - (if EV_WRITE \<in> ev_events i then 1 else 0), io_events := remove1 e (io_events ctx)\<rparr>"
  have "0 \<le> ev_fd i \<and> ?n < length (bs_io s)" using assms(1,3-5) unfolding io_ok_def by blast
  then have fd: "ev_fd i = int ?n" and len: "?n < length (bs_io s)" by auto
  have c: "distinct (io_events ctx)" "set (io_events ctx) = on_fd (bs_info s) M {EV_READ, EV_WRITE} ?n"
    "io_nread ctx = int (card (on_fd (bs_info s) M {EV_READ} ?n))" "io_nwrite ctx = int (card (on_fd (bs_info s) M {EV_WRITE} ?n))"
    using assms(1,6) len unfolding io_ok_def by blast+
  have old: "e \<in> on_fd (bs_info s) M what ?n" if "ev_events i \<inter> what \<noteq> {}" for what using assms(3,4) fd that by (auto simp: on_fd_def)
  have pos: "0 < card (on_fd (bs_info s) M what ?n)" if "ev_events i \<inter> what \<noteq> {}" for what
    using old [OF that] on_fd_finite [OF assms(2)] by (metis card_gt_0_iff empty_iff)
  have rem: "on_fd (bs_info s) (M - {e}) what ?n =
      (if ev_events i \<inter> what \<noteq> {} then on_fd (bs_info s) M what ?n - {e} else on_fd (bs_info s) M what ?n)" for what
    unfolding on_fd_remove [of "bs_info s", OF assms(4)] using fd by simp
  have dec: "int (card (on_fd (bs_info s) (M - {e}) what ?n)) = int (card (on_fd (bs_info s) M what ?n)) - (if ev_events i \<inter> what \<noteq> {} then 1 else 0)" for what
    unfolding rem using card.remove [OF on_fd_finite [OF assms(2)] old] by (auto simp: )
  have gone: "io_ok (s\<lparr>evbase := b, bs_io := (bs_io s)[?n := Some ?ctx]\<rparr>) (M - {e})" for b
  proof (rule io_ok_set [OF assms(1) len])
    show "on_fd (bs_info s) (M - {e}) what m = on_fd (bs_info s) M what m" if "m \<noteq> ?n" for m what
      unfolding on_fd_remove [of "bs_info s", OF assms(4)] using that fd by auto
    show "set (io_events ?ctx) = on_fd (bs_info s) (M - {e}) {EV_READ, EV_WRITE} ?n" unfolding rem using c(1,2) assms(5) by simp
    show "io_nread ?ctx = int (card (on_fd (bs_info s) (M - {e}) {EV_READ} ?n))" unfolding dec using c(3) by simp
    show "io_nwrite ?ctx = int (card (on_fd (bs_info s) (M - {e}) {EV_WRITE} ?n))" unfolding dec using c(4) by simp
  qed (use c(1) in auto)
  have kept: "io_ok (s\<lparr>evbase := b\<rparr>) M" for b using assms(1) by (simp add: io_ok_def)
  have "\<exists>b. (evmap_io_leave E s (ev_fd i) e i ctx = Some (- 1, s\<lparr>evbase := b\<rparr>) \<and> (\<exists>old ev. fst (evsel_del E (evbase s) (ev_fd i) old ev) = - 1))
      \<or> (\<exists>r \<in> {0, 1}. evmap_io_leave E s (ev_fd i) e i ctx = Some (r, s\<lparr>evbase := b, bs_io := (bs_io s)[?n := Some ?ctx]\<rparr>))"
    by (rule leave_cases) (use c old [OF assms(5)] pos in auto)
  then show ?thesis
  proof (elim exE disjE bexE conjE)
    fix b old ev assume "evmap_io_leave E s (ev_fd i) e i ctx = Some (- 1, s\<lparr>evbase := b\<rparr>)" "fst (evsel_del E (evbase s) (ev_fd i) old ev) = - 1"
    then show ?thesis using kept [of b] by (intro exI [of _ "- 1"] exI [of _ b] exI [of _ "bs_io s"]) (simp, blast)
  next
    fix b and r :: int assume r: "r \<in> {0, 1}"
      and eq: "evmap_io_leave E s (ev_fd i) e i ctx = Some (r, s\<lparr>evbase := b, bs_io := (bs_io s)[?n := Some ?ctx]\<rparr>)"
    have "r \<noteq> - 1" "r \<in> {- 1, 0, 1}" using r by auto
    then show ?thesis using eq gone [of b]
      by (intro exI [of _ r] exI [of _ b] exI [of _ "(bs_io s)[?n := Some ?ctx]"]) (simp only: if_False simp_thms)
  qed
qed

text \<open>\<^verbatim>\<open>evmap_io_del\<close> removes the event; when the backend refuses, the event stays in the map.\<close>

lemma evmap_io_del_ok:
  assumes "maps_ok s M" "e \<in> M" "bs_info s e = Some i" "io_kind i"
  shows "\<exists>r b io. evmap_io_del E s (ev_fd i) e = Some (r, s\<lparr>evbase := b, bs_io := io\<rparr>) \<and> r \<in> {- 1, 0, 1}
    \<and> maps_ok (s\<lparr>evbase := b, bs_io := io\<rparr>) (if r = - 1 then M else M - {e})
    \<and> (r = - 1 \<longrightarrow> (\<exists>old ev. fst (evsel_del E (evbase s) (ev_fd i) old ev) = - 1))"
proof -
  have m: "finite M" "M \<subseteq> dom (bs_info s)" "io_ok s M" "sig_ok s M" using assms(1) by (simp_all add: maps_ok_def)
  have "0 \<le> ev_fd i \<and> nat (ev_fd i) < length (bs_io s) \<and> bs_io s ! nat (ev_fd i) \<noteq> None" using m(3) assms(2-4) unfolding io_ok_def by blast
  then obtain ctx where fd: "0 \<le> ev_fd i" "nat (ev_fd i) < length (bs_io s)" "bs_io s ! nat (ev_fd i) = Some ctx" by blast
  from leave_ok [OF m(3,1) assms(2-4) fd(3), of E] obtain r b io where
    r: "evmap_io_leave E s (ev_fd i) e i ctx = Some (r, s\<lparr>evbase := b, bs_io := io\<rparr>)" "r \<in> {- 1, 0, 1}"
      "io_ok (s\<lparr>evbase := b, bs_io := io\<rparr>) (if r = - 1 then M else M - {e})" "r = - 1 \<longrightarrow> (\<exists>old ev. fst (evsel_del E (evbase s) (ev_fd i) old ev) = - 1)"
    by blast
  have in_range: "\<not> int (length (bs_io s)) \<le> ev_fd i" using fd(1,2) by linarith
  have "evmap_io_del E s (ev_fd i) e = Some (r, s\<lparr>evbase := b, bs_io := io\<rparr>)"
    using fd r(1) assms(3) in_range by (simp add: evmap_io_del_def peek_def)
  moreover have "sig_ok (s\<lparr>evbase := b, bs_io := io\<rparr>) (if r = - 1 then M else M - {e})"
    by (rule sig_ok_io [OF assms(3,4) _ _ _ m(4)]) auto
  then have "maps_ok (s\<lparr>evbase := b, bs_io := io\<rparr>) (if r = - 1 then M else M - {e})"
    unfolding maps_ok_def using r(3) m(1,2) by auto
  ultimately show ?thesis using r(2,4) by blast
qed

section \<open>Signals\<close>

text \<open>A backend for signals that changes nothing but its own data.\<close>

definition sig_frame :: "'b env \<Rightarrow> bool" where
  "sig_frame E \<longleftrightarrow> (\<forall>s g. (\<exists>r b. evsigsel_add E s g = (r, s\<lparr>evbase := b\<rparr>)) \<and> (\<exists>r b. evsigsel_del E s g = (r, s\<lparr>evbase := b\<rparr>)))"

lemma io_ok_sig:
  assumes "bs_info s e = Some i" "\<not> io_kind i" "M - {e} = M' - {e}" "bs_info s' = bs_info s" "bs_io s' = bs_io s" "io_ok s M"
  shows "io_ok s' M'"
proof -
  have in_iff: "x \<in> M' \<longleftrightarrow> x \<in> M" if "x \<noteq> e" for x using assms(3) that by blast
  have "on_fd (bs_info s) M' what n = on_fd (bs_info s) M what n" if "what \<subseteq> {EV_READ, EV_WRITE}" for what n
    unfolding on_fd_def using assms(1,2) in_iff that by force
  moreover have "x \<in> M" if "x \<in> M'" "bs_info s x = Some j" "io_kind j" for x j using that assms(1,2) in_iff by force
  ultimately show ?thesis using assms(6) unfolding io_ok_def assms(4,5) by fastforce
qed

lemma sig_ok_set:
  assumes "sig_ok s M" "n < length (bs_sigmap s)" "bs_info s' = bs_info s" "bs_sigmap s' = (bs_sigmap s)[n := Some es]"
    "bs_info s e = Some i" "\<not> io_kind i" "ev_fd i = int n" "M' = insert e M \<or> M' = M - {e}"
    "distinct es" "set es = on_sig (bs_info s) M' n"
  shows "sig_ok s' M'"
proof -
  have other: "on_sig (bs_info s) M' m = on_sig (bs_info s) M m" if "m \<noteq> n" for m
    using assms(5-8) that by (auto simp: on_sig_def)
  have "0 \<le> ev_fd j \<and> nat (ev_fd j) < length (bs_sigmap s) \<and> (bs_sigmap s)[n := Some es] ! nat (ev_fd j) \<noteq> None"
    if x: "x \<in> M'" "bs_info s x = Some j" "\<not> io_kind j" for x j
  proof (cases "x = e")
    case True
    then show ?thesis using assms(2,5,7) x(2) by simp
  next
    case False
    then have "x \<in> M" using x(1) assms(8) by blast
    then have "0 \<le> ev_fd j \<and> nat (ev_fd j) < length (bs_sigmap s) \<and> bs_sigmap s ! nat (ev_fd j) \<noteq> None"
      using assms(1) x(2,3) unfolding sig_ok_def by blast
    then show ?thesis by (cases "nat (ev_fd j) = n") auto
  qed
  moreover have "distinct fs \<and> set fs = on_sig (bs_info s) M' m" if "m < length (bs_sigmap s)" "(bs_sigmap s)[n := Some es] ! m = Some fs" for m fs
    using that assms(1,2,9,10) other by (cases "m = n") (auto simp: sig_ok_def)
  ultimately show ?thesis unfolding sig_ok_def assms(3,4) by simp
qed

lemma sig_ok_grow: "sig_ok s M \<Longrightarrow> sig_ok (s\<lparr>bs_sigmap := bs_sigmap s @ replicate k None\<rparr>) M"
  by (auto simp: sig_ok_def nth_append)

lemma sig_ok_ctor:
  assumes "sig_ok s M" "n < length (bs_sigmap s)" "bs_sigmap s ! n = None"
  shows "sig_ok (s\<lparr>bs_sigmap := (bs_sigmap s)[n := Some []]\<rparr>) M"
proof -
  have "on_sig (bs_info s) M n = {}" using assms by (fastforce simp: sig_ok_def on_sig_def)
  then show ?thesis using assms by (auto simp: sig_ok_def nth_list_update)
qed

lemma evmap_signal_add_ok:
  assumes "maps_ok s M" "e \<notin> M" "bs_info s e = Some i" "\<not> io_kind i" "0 \<le> ev_fd i" "ev_fd i < 2 ^ 27" "sig_frame E"
  shows "\<exists>r b sm. evmap_signal_add E s (ev_fd i) e = Some (r, s\<lparr>evbase := b, bs_sigmap := sm\<rparr>) \<and> r \<in> {- 1, 0, 1}
    \<and> maps_ok (s\<lparr>evbase := b, bs_sigmap := sm\<rparr>) (if r = - 1 then M else insert e M)"
proof -
  let ?n = "nat (ev_fd i)"
  have m: "finite M" "M \<subseteq> dom (bs_info s)" "io_ok s M" "sig_ok s M" using assms(1) by (simp_all add: maps_ok_def)
  have maps: "maps_ok (s\<lparr>evbase := b, bs_sigmap := sm\<rparr>) M'" if "sig_ok (s\<lparr>evbase := b, bs_sigmap := sm\<rparr>) M'" "M' = M \<or> M' = insert e M" for b sm M'
  proof -
    have "io_ok (s\<lparr>evbase := b, bs_sigmap := sm\<rparr>) M'" by (rule io_ok_sig [OF assms(3,4) _ _ _ m(3)]) (use that(2) in auto)
    moreover have "finite M'" "M' \<subseteq> dom (bs_info s)" using that(2) m(1,2) assms(3) by auto
    ultimately show ?thesis using that(1) by (simp add: maps_ok_def)
  qed
  have keep: "maps_ok (s\<lparr>evbase := b, bs_sigmap := sm\<rparr>) M" if "sig_ok (s\<lparr>bs_sigmap := sm\<rparr>) M" for b sm
    by (rule maps [OF sig_ok_frame [OF that]]) simp_all
  from make_space_ok [OF assms(5,6), of "mm_alloc E" "bs_sigmap s"] show ?thesis
  proof (elim disjE exE conjE)
    assume "evmap_make_space (mm_alloc E) (bs_sigmap s) (ev_fd i) 8 = Some (- 1, bs_sigmap s)"
    then have "evmap_signal_add E s (ev_fd i) e = Some (- 1, s\<lparr>evbase := evbase s, bs_sigmap := bs_sigmap s\<rparr>)" by (simp add: evmap_signal_add_def)
    then show ?thesis using keep [of "bs_sigmap s" "evbase s"] m(4) by (intro exI [of _ "- 1"] exI [of _ "evbase s"] exI [of _ "bs_sigmap s"]) simp
  next
    fix k assume sp: "evmap_make_space (mm_alloc E) (bs_sigmap s) (ev_fd i) 8 = Some (0, bs_sigmap s @ replicate k None)" "?n < length (bs_sigmap s) + k"
    let ?sm = "bs_sigmap s @ replicate k None"
    have ok: "sig_ok (s\<lparr>bs_sigmap := ?sm\<rparr>) M" by (rule sig_ok_grow [OF m(4)])
    show ?thesis
    proof (cases "?sm ! ?n = None \<and> \<not> mm_alloc E (16 + evsigsel_fdinfo_len E)")
      case True
      then have "evmap_signal_add E s (ev_fd i) e = Some (- 1, s\<lparr>evbase := evbase s, bs_sigmap := ?sm\<rparr>)"
        using assms(5) sp by (simp add: evmap_signal_add_def get_slot_and_ctor_def peek_def)
      then show ?thesis using keep [OF ok, of "evbase s"] by (intro exI [of _ "- 1"] exI [of _ "evbase s"] exI [of _ ?sm]) simp
    next
      case room: False
      obtain es sm where c: "get_slot_and_ctor (mm_alloc E) ?sm (ev_fd i) [] (16 + evsigsel_fdinfo_len E) = Some (Some (es, sm))"
        "?n < length sm" "sm ! ?n = Some es" "sig_ok (s\<lparr>bs_sigmap := sm\<rparr>) M"
      proof (cases "?sm ! ?n")
        case None
        then show thesis using that [of "[]" "?sm[?n := Some []]"] sig_ok_ctor [OF ok, of ?n] room assms(5) sp(2)
          by (simp add: get_slot_and_ctor_def peek_def)
      next
        case (Some c)
        then show thesis using that [of c ?sm] ok assms(5) sp(2) by (simp add: get_slot_and_ctor_def peek_def)
      qed
      obtain r b where rb: "(if es = [] then evsigsel_add E (s\<lparr>bs_sigmap := sm\<rparr>) (ev_fd i) else (0, s\<lparr>bs_sigmap := sm\<rparr>)) = (r, s\<lparr>evbase := b, bs_sigmap := sm\<rparr>)"
      proof (cases "es = []")
        case True
        obtain r b where "evsigsel_add E (s\<lparr>bs_sigmap := sm\<rparr>) (ev_fd i) = (r, s\<lparr>bs_sigmap := sm, evbase := b\<rparr>)"
          using assms(7) unfolding sig_frame_def by blast
        moreover have "s\<lparr>bs_sigmap := sm, evbase := b\<rparr> = s\<lparr>evbase := b, bs_sigmap := sm\<rparr>" by simp
        ultimately show thesis using that [of r b] True by simp
      next
        case False
        then show thesis using that [of 0 "evbase s"] by simp
      qed
      have es: "distinct es" "set es = on_sig (bs_info s) M ?n" using c(2-4) by (auto simp: sig_ok_def)
      show ?thesis
      proof (cases "r = - 1")
        case True
        then have "evmap_signal_add E s (ev_fd i) e = Some (- 1, s\<lparr>evbase := b, bs_sigmap := sm\<rparr>)"
          using sp(1) c(1) assms(3) rb by (simp add: evmap_signal_add_def)
        then show ?thesis using keep [OF c(4), of b] by (intro exI [of _ "- 1"] exI [of _ b] exI [of _ sm]) simp
      next
        case False
        have eq: "evmap_signal_add E s (ev_fd i) e = Some (1, s\<lparr>evbase := b, bs_sigmap := sm[?n := Some (es @ [e])]\<rparr>)"
          using sp(1) c(1-3) assms(3) rb False by (simp add: evmap_signal_add_def peek_def)
        have "on_sig (bs_info s) (insert e M) ?n = insert e (on_sig (bs_info s) M ?n)" using assms(3,4,5) by (auto simp: on_sig_def)
        moreover have "e \<notin> on_sig (bs_info s) M ?n" using assms(2) by (simp add: on_sig_def)
        ultimately have "sig_ok (s\<lparr>evbase := b, bs_sigmap := sm[?n := Some (es @ [e])]\<rparr>) (insert e M)"
          by (intro sig_ok_set [where es = "es @ [e]" and n = ?n and e = e and i = i, OF c(4)]) (use c(2) es assms(3-5) in auto)
        then have "maps_ok (s\<lparr>evbase := b, bs_sigmap := sm[?n := Some (es @ [e])]\<rparr>) (insert e M)" by (rule maps) simp
        then show ?thesis using eq by (intro exI [of _ 1] exI [of _ b] exI [of _ "sm[?n := Some (es @ [e])]"]) simp
      qed
    qed
  qed
qed

lemma evmap_signal_del_ok:
  assumes "maps_ok s M" "e \<in> M" "bs_info s e = Some i" "\<not> io_kind i" "sig_frame E"
  shows "\<exists>r b sm. evmap_signal_del E s (ev_fd i) e = Some (r, s\<lparr>evbase := b, bs_sigmap := sm\<rparr>) \<and> r \<in> {- 1, 0, 1}
    \<and> maps_ok (s\<lparr>evbase := b, bs_sigmap := sm\<rparr>) (if r = - 1 then M else M - {e})
    \<and> (r = - 1 \<longrightarrow> fst (evsigsel_del E s (ev_fd i)) = - 1)"
proof -
  let ?n = "nat (ev_fd i)"
  have m: "finite M" "M \<subseteq> dom (bs_info s)" "io_ok s M" "sig_ok s M" using assms(1) by (simp_all add: maps_ok_def)
  have "0 \<le> ev_fd i \<and> ?n < length (bs_sigmap s) \<and> bs_sigmap s ! ?n \<noteq> None" using m(4) assms(2-4) unfolding sig_ok_def by blast
  then obtain es where fd: "0 \<le> ev_fd i" "?n < length (bs_sigmap s)" "bs_sigmap s ! ?n = Some es" by blast
  have es: "distinct es" "set es = on_sig (bs_info s) M ?n" using m(4) fd by (auto simp: sig_ok_def)
  have e: "e \<in> set es" using es(2) assms(2-4) fd(1) by (auto simp: on_sig_def)
  have in_range: "\<not> int (length (bs_sigmap s)) \<le> ev_fd i" "\<not> ev_fd i < 0" using fd(1,2) by linarith+
  obtain r b where rb: "(if length es \<le> 1 then evsigsel_del E s (ev_fd i) else (0, s)) = (r, s\<lparr>evbase := b\<rparr>)" "r = - 1 \<Longrightarrow> fst (evsigsel_del E s (ev_fd i)) = - 1"
  proof (cases "length es \<le> 1")
    case True
    obtain r b where "evsigsel_del E s (ev_fd i) = (r, s\<lparr>evbase := b\<rparr>)" using assms(5) unfolding sig_frame_def by blast
    then show thesis using that [of r b] True by simp
  next
    case False
    then show thesis using that [of 0 "evbase s"] by simp
  qed
  show ?thesis
  proof (cases "r = - 1")
    case True
    then have "evmap_signal_del E s (ev_fd i) e = Some (- 1, s\<lparr>evbase := b\<rparr>)"
      using in_range fd assms(3) rb(1) by (simp add: evmap_signal_del_def peek_def)
    moreover have "maps_ok (s\<lparr>evbase := b\<rparr>) M" using assms(1) by (simp add: maps_ok_def io_ok_def sig_ok_def)
    ultimately show ?thesis using True rb(2) by (intro exI [of _ "- 1"] exI [of _ b] exI [of _ "bs_sigmap s"]) simp
  next
    case False
    let ?s = "s\<lparr>evbase := b, bs_sigmap := (bs_sigmap s)[?n := Some (remove1 e es)]\<rparr>"
    have "evmap_signal_del E s (ev_fd i) e = Some (1, ?s)"
      using in_range fd assms(3) rb(1) False e by (simp add: evmap_signal_del_def peek_def tailq_remove_def)
    moreover have "set (remove1 e es) = on_sig (bs_info s) (M - {e}) ?n" using es assms(3) by (auto simp: on_sig_def)
    then have "sig_ok ?s (M - {e})" by (intro sig_ok_set [where es = "remove1 e es" and e = e and i = i, OF m(4) fd(2)]) (use es(1) assms(3,4) fd(1) in auto)
    moreover have "io_ok ?s (M - {e})" by (rule io_ok_sig [OF assms(3,4) _ _ _ m(3)]) auto
    ultimately have "evmap_signal_del E s (ev_fd i) e = Some (1, ?s)" "maps_ok ?s (M - {e})" unfolding maps_ok_def using m(1,2) by auto
    then show ?thesis by (intro exI [of _ 1] exI [of _ b] exI [of _ "(bs_sigmap s)[?n := Some (remove1 e es)]"]) simp
  qed
qed

end
