(* ===== verification/EventProps.thy ===== *)
theory EventProps
  imports EventInv
begin

text \<open>
  What the event base guarantees: adding, deleting and activating events keeps the invariant, exactly the events that are
  due are activated by their timeouts, the integrity check of the code never fails, and the cases where the code goes
  wrong.
\<close>

section \<open>The invariant of the base\<close>

text \<open>The inserted events with a place in a map: an event on a negative descriptor has none.\<close>

definition mapped :: "(nat \<Rightarrow> ev_info option) \<Rightarrow> nat set" where
  "mapped I = {e. \<exists>i. I e = Some i \<and> EVLIST_INSERTED \<in> ev_flags i \<and> (io_kind i \<longrightarrow> 0 \<le> ev_fd i)}"

definition base_ok :: "(nat \<Rightarrow> timeval) \<Rightarrow> 'b event_base \<Rightarrow> bool" where
  "base_ok K s \<longleftrightarrow> queues_ok K s \<and> maps_ok s (mapped (bs_info s))"

lemma mapped_set:
  assumes "I e = Some i" "ev_events j = ev_events i" "ev_fd j = ev_fd i"
  shows "mapped (I(e \<mapsto> j)) = (if EVLIST_INSERTED \<in> ev_flags j \<and> (io_kind i \<longrightarrow> 0 \<le> ev_fd i) then insert e (mapped I) else mapped I - {e})"
  using assms(2,3) by (simp add: mapped_def) blast

lemma mapped_same:
  assumes "I e = Some i" "ev_events j = ev_events i" "ev_fd j = ev_fd i" "EVLIST_INSERTED \<in> ev_flags j \<longleftrightarrow> EVLIST_INSERTED \<in> ev_flags i"
  shows "mapped (I(e \<mapsto> j)) = mapped I"
  unfolding mapped_def by (rule Collect_cong) (simp add: assms)

text \<open>A step on the queues alone.\<close>

lemma base_ok_queues:
  assumes "base_ok K s" "queues_ok K' s'" "same_rest s s'" "bs_info s e = Some i" "bs_info s' = (bs_info s)(e \<mapsto> j)"
    "ev_events j = ev_events i" "ev_fd j = ev_fd i" "EVLIST_INSERTED \<in> ev_flags j \<longleftrightarrow> EVLIST_INSERTED \<in> ev_flags i"
  shows "base_ok K' s'"
proof -
  have "maps_ok s (mapped (bs_info s))" using assms(1) by (simp add: base_ok_def)
  from maps_ok_info [OF this assms(4,6,7,5) same_rest_sels(2,3) [OF assms(3)]] have "maps_ok s' (mapped (bs_info s))" .
  moreover have "mapped (bs_info s') = mapped (bs_info s)" unfolding assms(5) by (rule mapped_same [of "bs_info s", OF assms(4,6-8)])
  ultimately show ?thesis using assms(2) by (simp add: base_ok_def)
qed

section \<open>Deleting\<close>

text \<open>The pointer to the count of a call of \<^verbatim>\<open>event_signal_closure\<close> that is over.\<close>

definition stale :: "'b event_base \<Rightarrow> ev_info \<Rightarrow> bool" where
  "stale s i \<longleftrightarrow> EV_SIGNAL \<in> ev_events i \<and> ev_ncalls i \<noteq> 0 \<and> (\<exists>f. ev_pncalls i = Some f \<and> bs_frames s f = None)"

lemma abort_calls_ok: "\<not> stale s i \<Longrightarrow> \<exists>F. abort_calls s i = Some (s\<lparr>bs_frames := F\<rparr>)"
proof -
  assume n: "\<not> stale s i"
  have triv: "Some s = Some (s\<lparr>bs_frames := bs_frames s\<rparr>)" by simp
  show ?thesis
  proof (cases "EV_SIGNAL \<in> ev_events i \<and> ev_ncalls i \<noteq> 0 \<and> ev_pncalls i \<noteq> None")
    case True
    then obtain f m where "ev_pncalls i = Some f" "bs_frames s f = Some m" using n by (auto simp: stale_def)
    then show ?thesis using True by (auto simp: abort_calls_def)
  next
    case False
    then have "abort_calls s i = Some s" by (auto simp: abort_calls_def split: option.splits)
    then show ?thesis using triv by metis
  qed
qed

lemma abort_calls_stale: "stale s i \<Longrightarrow> abort_calls s i = None"
  by (auto simp: stale_def abort_calls_def)

lemma remove_if:
  assumes "queues_ok K s" "bs_info s e = Some i" "q \<in> {EVLIST_TIMEOUT, EVLIST_INSERTED, EVLIST_ACTIVE}"
  shows "\<exists>s'. (if q \<in> ev_flags i then event_queue_remove s e q else Some s) = Some s' \<and> queues_ok K s'
    \<and> bs_info s' = (bs_info s)(e \<mapsto> without_flag q i) \<and> same_rest s s' \<and> same_store (timeheap s) (timeheap s')
    \<and> activequeues s' = (if q = EVLIST_ACTIVE then map (filter (\<lambda>x. x \<noteq> e)) (activequeues s) else activequeues s)"
proof (cases "q \<in> ev_flags i")
  case True
  consider "q = EVLIST_TIMEOUT" | "q = EVLIST_INSERTED" | "q = EVLIST_ACTIVE" using assms(3) by blast
  then show ?thesis
  proof cases
    case 1
    then show ?thesis using remove_timeout [OF assms(1,2)] True by simp
  next
    case 2
    from remove_inserted [OF assms(1,2)] True 2 obtain s' where "event_queue_remove s e q = Some s'" "queues_ok K s'"
      "bs_info s' = (bs_info s)(e \<mapsto> without_flag q i)" "same_rest s s'" "timeheap s' = timeheap s" "activequeues s' = activequeues s" by blast
    then show ?thesis using True 2 by (simp add: same_store_def)
  next
    case 3
    from remove_active [OF assms(1,2)] True 3 obtain s' where "event_queue_remove s e q = Some s'" "queues_ok K s'"
      "bs_info s' = (bs_info s)(e \<mapsto> without_flag q i)" "same_rest s s'" "timeheap s' = timeheap s" "activequeues s' = map (filter (\<lambda>x. x \<noteq> e)) (activequeues s)" by blast
    then show ?thesis using True 3 by (simp add: same_store_def)
  qed
next
  case False
  then have "without_flag q i = i" by (simp add: without_flag_def)
  moreover have "q = EVLIST_ACTIVE \<Longrightarrow> map (filter (\<lambda>x. x \<noteq> e)) (activequeues s) = activequeues s"
    using filtered_queues(2) [of s e i] assms(1,2) False by (simp add: queues_ok_def)
  ultimately show ?thesis using False assms(1,2) by (simp add: same_store_def fun_upd_idem)
qed

text \<open>The event is in no queue any more.\<close>

definition idle :: "ev_info \<Rightarrow> ev_info" where
  "idle i = i\<lparr>ev_flags := ev_flags i - {EVLIST_TIMEOUT, EVLIST_ACTIVE, EVLIST_INSERTED}\<rparr>"

lemma idle_eq: "idle i = without_flag EVLIST_INSERTED (without_flag EVLIST_ACTIVE (without_flag EVLIST_TIMEOUT i))"
proof -
  have "S - {a, b, c} = S - {a} - {b} - {c}" for S and a b c :: evlist by blast
  then show ?thesis by (simp add: idle_def without_flag_def)
qed

lemma idle_sels [simp]: "ev_events (idle i) = ev_events i" "ev_fd (idle i) = ev_fd i" "ev_pri (idle i) = ev_pri i" "ev_base (idle i) = ev_base i"
  "ev_flags (idle i) = ev_flags i - {EVLIST_TIMEOUT, EVLIST_ACTIVE, EVLIST_INSERTED}"
  by (simp_all add: idle_def)

definition dels_ok :: "'b env \<Rightarrow> bool" where
  "dels_ok E \<longleftrightarrow> (\<forall>b fd old ev. fst (evsel_del E b fd old ev) \<noteq> - 1) \<and> (\<forall>s g. fst (evsigsel_del E s g) \<noteq> - 1)"

text \<open>The clock, the number of priorities and the running calls are as before.\<close>

definition unmoved :: "'b event_base \<Rightarrow> 'b event_base \<Rightarrow> bool" where
  "unmoved s s' \<longleftrightarrow> tv_cache s' = tv_cache s \<and> bs_reads s' = bs_reads s \<and> length (activequeues s') = length (activequeues s)
     \<and> dom (bs_frames s') = dom (bs_frames s)"

lemma unmoved_refl [simp]: "unmoved s s"
  by (simp add: unmoved_def)

lemma unmoved_trans: "unmoved s s' \<Longrightarrow> unmoved s' s'' \<Longrightarrow> unmoved s s''"
  by (simp add: unmoved_def)

lemma same_rest_unmoved: "same_rest s s' \<Longrightarrow> unmoved s s'"
  by (simp add: unmoved_def same_rest_sels)

text \<open>Nothing but the maps and the data of the backend has changed.\<close>

definition map_rest :: "'b event_base \<Rightarrow> 'b event_base \<Rightarrow> bool" where
  "map_rest s s' \<longleftrightarrow> (\<exists>b io sm. s' = s\<lparr>evbase := b, bs_io := io, bs_sigmap := sm\<rparr>)"

lemma map_rest_intros [simp]:
  "map_rest s s" "map_rest s (s\<lparr>evbase := b, bs_io := io\<rparr>)" "map_rest s (s\<lparr>evbase := b, bs_sigmap := sm\<rparr>)"
  unfolding map_rest_def
  by (rule exI [of _ "evbase s"], rule exI [of _ "bs_io s"], rule exI [of _ "bs_sigmap s"], simp)
    (rule exI [of _ b], rule exI [of _ io], rule exI [of _ "bs_sigmap s"], simp,
     rule exI [of _ b], rule exI [of _ "bs_io s"], rule exI [of _ sm], simp)

lemma map_rest_queues: "queues_ok K s \<Longrightarrow> map_rest s s' \<Longrightarrow> queues_ok K s'"
  by (erule queues_ok_cong) (auto simp: map_rest_def)

lemma map_rest_sels:
  assumes "map_rest s s'"
  shows "bs_info s' = bs_info s" "timeheap s' = timeheap s" "activequeues s' = activequeues s" "tv_cache s' = tv_cache s" "bs_reads s' = bs_reads s"
    "bs_frames s' = bs_frames s" "event_running_priority s' = event_running_priority s" "common_timeout_queues s' = common_timeout_queues s"
  using assms by (auto simp: map_rest_def)

lemma map_rest_unmoved: "map_rest s s' \<Longrightarrow> unmoved s s'"
  by (simp add: unmoved_def map_rest_sels)

text \<open>The removal from the map, on a base whose event is out of the queues already.\<close>

lemma leave_map_ok:
  assumes "queues_ok K s" "maps_ok s M" "bs_info s e = Some i" "e \<in> M \<longleftrightarrow> (io_kind i \<longrightarrow> 0 \<le> ev_fd i)" "sig_frame E"
  shows "\<exists>r s'. (if io_kind i then evmap_io_del E s (ev_fd i) e else evmap_signal_del E s (ev_fd i) e) = Some (r, s') \<and> r \<in> {- 1, 0, 1}
    \<and> map_rest s s' \<and> maps_ok s' (if r = - 1 then M else M - {e}) \<and> (r = - 1 \<longrightarrow> \<not> dels_ok E)"
proof -
  consider "io_kind i" "ev_fd i < 0" | "io_kind i" "0 \<le> ev_fd i" | "\<not> io_kind i" by linarith
  then show ?thesis
  proof cases
    case 1
    then have "e \<notin> M" using assms(4) by auto
    then have "M - {e} = M" by blast
    moreover have "evmap_io_del E s (ev_fd i) e = Some (0, s)" using 1 by (simp add: evmap_io_del_def)
    ultimately show ?thesis using 1 assms(2) by (intro exI [of _ 0] exI [of _ s]) simp
  next
    case 2
    then have "e \<in> M" using assms(4) by simp
    from evmap_io_del_ok [OF assms(2) this assms(3) 2(1), of E] obtain r b io where
      r: "evmap_io_del E s (ev_fd i) e = Some (r, s\<lparr>evbase := b, bs_io := io\<rparr>)" "r \<in> {- 1, 0, 1}"
        "maps_ok (s\<lparr>evbase := b, bs_io := io\<rparr>) (if r = - 1 then M else M - {e})" "r = - 1 \<longrightarrow> (\<exists>old ev. fst (evsel_del E (evbase s) (ev_fd i) old ev) = - 1)" by blast
    then have "r = - 1 \<longrightarrow> \<not> dels_ok E" unfolding dels_ok_def by blast
    with r(1-3) 2(1) show ?thesis by (intro exI [of _ r] exI [of _ "s\<lparr>evbase := b, bs_io := io\<rparr>"]) simp
  next
    case 3
    then have "e \<in> M" using assms(4) by simp
    from evmap_signal_del_ok [OF assms(2) this assms(3) 3 assms(5)] obtain r b sm where
      r: "evmap_signal_del E s (ev_fd i) e = Some (r, s\<lparr>evbase := b, bs_sigmap := sm\<rparr>)" "r \<in> {- 1, 0, 1}"
        "maps_ok (s\<lparr>evbase := b, bs_sigmap := sm\<rparr>) (if r = - 1 then M else M - {e})" "r = - 1 \<longrightarrow> fst (evsigsel_del E s (ev_fd i)) = - 1" by blast
    then have "r = - 1 \<longrightarrow> \<not> dels_ok E" unfolding dels_ok_def by blast
    with r(1-3) 3 show ?thesis by (intro exI [of _ r] exI [of _ "s\<lparr>evbase := b, bs_sigmap := sm\<rparr>"]) simp
  qed
qed

lemma queue_flags: "EVLIST_TIMEOUT \<in> {EVLIST_TIMEOUT, EVLIST_INSERTED, EVLIST_ACTIVE}" "EVLIST_INSERTED \<in> {EVLIST_TIMEOUT, EVLIST_INSERTED, EVLIST_ACTIVE}"
  "EVLIST_ACTIVE \<in> {EVLIST_TIMEOUT, EVLIST_INSERTED, EVLIST_ACTIVE}" "(EVLIST_TIMEOUT = EVLIST_ACTIVE) = False" "(EVLIST_INSERTED = EVLIST_ACTIVE) = False"
  by simp_all

text \<open>Out of all queues.\<close>

definition remove_queues :: "'b event_base \<Rightarrow> nat \<Rightarrow> ev_info \<Rightarrow> 'b event_base option" where
  "remove_queues s e i = do {
     s \<leftarrow> (if EVLIST_TIMEOUT \<in> ev_flags i then event_queue_remove s e EVLIST_TIMEOUT else Some s);
     s \<leftarrow> (if EVLIST_ACTIVE \<in> ev_flags i then event_queue_remove s e EVLIST_ACTIVE else Some s);
     if EVLIST_INSERTED \<in> ev_flags i then event_queue_remove s e EVLIST_INSERTED else Some s }"

lemma del_by_queues:
  assumes "bs_info s e = Some i" "ev_base i"
  shows "event_del_internal E s e = do {
     s \<leftarrow> abort_calls s i;
     s \<leftarrow> remove_queues s e i;
     if EVLIST_INSERTED \<in> ev_flags i
     then do { (res, s) \<leftarrow> (if io_kind i then evmap_io_del E s (ev_fd i) e else evmap_signal_del E s (ev_fd i) e); Some (if res = 1 then 0 else res, s) }
     else Some (0, s) }"
  using assms by (cases "EVLIST_INSERTED \<in> ev_flags i") (simp_all add: event_del_internal_def remove_queues_def cong: if_cong)

lemma remove_all:
  assumes "queues_ok K s" "bs_info s e = Some i"
  shows "\<exists>s'. remove_queues s e i = Some s' \<and> queues_ok K s' \<and> bs_info s' = (bs_info s)(e \<mapsto> idle i) \<and> same_rest s s'
    \<and> same_store (timeheap s) (timeheap s') \<and> activequeues s' = map (filter (\<lambda>x. x \<noteq> e)) (activequeues s)"
proof -
  let ?i1 = "without_flag EVLIST_TIMEOUT i"
  let ?i2 = "without_flag EVLIST_ACTIVE ?i1"
  obtain s1 where s1: "(if EVLIST_TIMEOUT \<in> ev_flags i then event_queue_remove s e EVLIST_TIMEOUT else Some s) = Some s1" "queues_ok K s1"
    "bs_info s1 = (bs_info s)(e \<mapsto> ?i1)" "same_rest s s1" "same_store (timeheap s) (timeheap s1)" "activequeues s1 = activequeues s"
    using remove_if [OF assms queue_flags(1)] unfolding queue_flags(4,5) if_False by blast
  have lk1: "bs_info s1 e = Some ?i1" using s1(3) by simp
  obtain s2 where s2: "(if EVLIST_ACTIVE \<in> ev_flags ?i1 then event_queue_remove s1 e EVLIST_ACTIVE else Some s1) = Some s2" "queues_ok K s2"
    "bs_info s2 = (bs_info s1)(e \<mapsto> ?i2)" "same_rest s1 s2" "same_store (timeheap s1) (timeheap s2)"
    "activequeues s2 = map (filter (\<lambda>x. x \<noteq> e)) (activequeues s1)"
    using remove_if [OF s1(2) lk1 queue_flags(3)] unfolding if_P [OF refl] by blast
  have lk2: "bs_info s2 e = Some ?i2" using s2(3) by simp
  obtain s3 where s3: "(if EVLIST_INSERTED \<in> ev_flags ?i2 then event_queue_remove s2 e EVLIST_INSERTED else Some s2) = Some s3" "queues_ok K s3"
    "bs_info s3 = (bs_info s2)(e \<mapsto> without_flag EVLIST_INSERTED ?i2)" "same_rest s2 s3" "same_store (timeheap s2) (timeheap s3)"
    "activequeues s3 = activequeues s2"
    using remove_if [OF s2(2) lk2 queue_flags(2)] unfolding queue_flags(4,5) if_False by blast
  have "remove_queues s e i = Some s3"
    using s1(1) s2(1) s3(1) unfolding remove_queues_def by simp
  moreover have "bs_info s3 = (bs_info s)(e \<mapsto> idle i)" using s1(3) s2(3) s3(3) by (simp add: idle_eq)
  moreover have "same_rest s s3" by (rule same_rest_trans [OF same_rest_trans [OF s1(4) s2(4)] s3(4)])
  moreover have "same_store (timeheap s) (timeheap s3)" using s1(5) s2(5) s3(5) by (simp add: same_store_def)
  ultimately show ?thesis using s3(2) s1(6) s2(6) s3(6) by (intro exI [of _ s3]) simp
qed

text \<open>\<^verbatim>\<open>event_del_internal\<close>. If the backend refuses to forget the descriptor the event is out of all queues but still in the
  map.\<close>

lemma event_del_ok:
  assumes "base_ok K s" "bs_info s e = Some i" "ev_base i" "\<not> stale s i" "sig_frame E"
  shows "\<exists>r s'. event_del_internal E s e = Some (r, s') \<and> r \<in> {- 1, 0} \<and> queues_ok K s' \<and> unmoved s s' \<and> same_store (timeheap s) (timeheap s')
    \<and> bs_info s' = (bs_info s)(e \<mapsto> idle i) \<and> maps_ok s' (if r = - 1 then mapped (bs_info s) else mapped (bs_info s) - {e})
    \<and> activequeues s' = map (filter (\<lambda>x. x \<noteq> e)) (activequeues s) \<and> (r = - 1 \<longrightarrow> \<not> dels_ok E)"
proof -
  let ?M = "mapped (bs_info s)"
  have b: "queues_ok K s" "maps_ok s ?M" using assms(1) by (simp_all add: base_ok_def)
  obtain F where F: "abort_calls s i = Some (s\<lparr>bs_frames := F\<rparr>)" using abort_calls_ok [OF assms(4)] by blast
  have domF: "dom F = dom (bs_frames s)" using F by (auto simp: abort_calls_def split: if_splits option.splits dest!: arg_cong [where f = bs_frames])
  let ?s0 = "s\<lparr>bs_frames := F\<rparr>"
  have q0: "queues_ok K ?s0" by (rule queues_ok_cong [OF b(1)]) simp_all
  have lk0: "bs_info ?s0 e = Some i" using assms(2) by simp
  from remove_all [OF q0 lk0] obtain s3 where s3: "remove_queues ?s0 e i = Some s3" "queues_ok K s3" "bs_info s3 = (bs_info ?s0)(e \<mapsto> idle i)"
    "same_rest ?s0 s3" "same_store (timeheap ?s0) (timeheap s3)" "activequeues s3 = map (filter (\<lambda>x. x \<noteq> e)) (activequeues ?s0)" by blast
  have inf3: "bs_info s3 = (bs_info s)(e \<mapsto> idle i)" and aq: "activequeues s3 = map (filter (\<lambda>x. x \<noteq> e)) (activequeues s)"
    and store: "same_store (timeheap s) (timeheap s3)" using s3(3,5,6) by simp_all
  have "unmoved ?s0 s3" by (rule same_rest_unmoved [OF s3(4)])
  then have un: "unmoved s s3" using domF by (simp add: unmoved_def)
  have m3: "maps_ok s3 ?M" by (rule maps_ok_info [OF b(2) assms(2) _ _ inf3]) (use same_rest_sels [OF s3(4)] in auto)
  have lk3: "bs_info s3 e = Some (idle i)" using inf3 by simp
  have del: "event_del_internal E s e = (if EVLIST_INSERTED \<in> ev_flags i
      then do { (res, s) \<leftarrow> (if io_kind i then evmap_io_del E s3 (ev_fd i) e else evmap_signal_del E s3 (ev_fd i) e); Some (if res = 1 then 0 else res, s) }
      else Some (0, s3))"
    unfolding del_by_queues [OF assms(2,3)] F by (simp add: s3(1))
  show ?thesis
  proof (cases "EVLIST_INSERTED \<in> ev_flags i")
    case True
    have e: "e \<in> ?M \<longleftrightarrow> (io_kind (idle i) \<longrightarrow> 0 \<le> ev_fd (idle i))" using assms(2) True by (simp add: mapped_def)
    obtain r s' where
      r: "(if io_kind i then evmap_io_del E s3 (ev_fd i) e else evmap_signal_del E s3 (ev_fd i) e) = Some (r, s')" "r \<in> {- 1, 0, 1}"
        "map_rest s3 s'" "maps_ok s' (if r = - 1 then ?M else ?M - {e})" "r = - 1 \<longrightarrow> \<not> dels_ok E"
      using leave_map_ok [OF s3(2) m3 lk3 e assms(5)] unfolding idle_sels by blast
    have "event_del_internal E s e = Some (if r = 1 then 0 else r, s')" unfolding del using True r(1) by simp
    moreover have "queues_ok K s'" by (rule map_rest_queues [OF s3(2) r(3)])
    moreover have "unmoved s s'" by (rule unmoved_trans [OF un map_rest_unmoved [OF r(3)]])
    ultimately show ?thesis using r(2,4,5) inf3 store aq map_rest_sels(1-3) [OF r(3)]
      by (intro exI [of _ "if r = 1 then 0 else r"] exI [of _ s']) auto
  next
    case False
    then have "?M - {e} = ?M" using assms(2) by (auto simp: mapped_def)
    then show ?thesis using del False s3(2) un store inf3 m3 aq by (intro exI [of _ 0] exI [of _ s3]) simp
  qed
qed

section \<open>Timeouts\<close>

definition live :: "'b event_base \<Rightarrow> bool" where
  "live s \<longleftrightarrow> (\<forall>i \<in> ran (bs_info s). ev_base i \<and> \<not> stale s i)"

definition fired :: "ev_info \<Rightarrow> ev_info \<Rightarrow> bool" where
  "fired i j \<longleftrightarrow> ev_flags j = insert EVLIST_ACTIVE (ev_flags i - {EVLIST_TIMEOUT, EVLIST_INSERTED}) \<and> ev_res j = {EV_TIMEOUT}
     \<and> ev_events j = ev_events i \<and> ev_fd j = ev_fd i \<and> ev_pri j = ev_pri i"

definition pri_of :: "(nat \<Rightarrow> ev_info option) \<Rightarrow> nat \<Rightarrow> nat" where
  "pri_of I e = (case I e of None \<Rightarrow> 0 | Some i \<Rightarrow> ev_pri i)"

lemma live_upd:
  assumes "live s" "bs_info s e = Some i" "bs_info s' = (bs_info s)(e \<mapsto> j)" "dom (bs_frames s') = dom (bs_frames s)"
    "ev_base j = ev_base i" "ev_events j = ev_events i" "ev_ncalls j = ev_ncalls i \<and> ev_pncalls j = ev_pncalls i \<or> ev_pncalls j = None"
  shows "live s'"
proof -
  have "bs_frames s' f = None \<longleftrightarrow> bs_frames s f = None" for f using assms(4) by (metis domIff)
  then have f: "stale s' k = stale s k" for k by (simp add: stale_def)
  have i: "ev_base i \<and> \<not> stale s i" using assms(1,2) by (auto simp: live_def ran_def)
  then have "ev_base j \<and> \<not> stale s j" using assms(5-7) by (auto simp: stale_def)
  then show ?thesis using assms(1) unfolding live_def assms(3) f by (auto simp: ran_def)
qed

lemma base_ok_queues_ok: "base_ok K s \<Longrightarrow> queues_ok K s"
  by (simp add: base_ok_def)

text \<open>One round of the loop: the event leaves all queues and becomes active.\<close>

lemma fire_one:
  assumes "base_ok K s" "live s" "sig_frame E" "dels_ok E" "bs_info s e = Some i"
  shows "\<exists>s1 s' j. event_del_internal E s e = Some (0, s1) \<and> event_active_nolock E s1 e {EV_TIMEOUT} 1 = Some s' \<and> base_ok K s' \<and> live s'
    \<and> unmoved s s' \<and> bs_info s' = (bs_info s)(e \<mapsto> j) \<and> fired i j
    \<and> activequeues s' = (map (filter (\<lambda>x. x \<noteq> e)) (activequeues s))[ev_pri i := filter (\<lambda>x. x \<noteq> e) (activequeues s ! ev_pri i) @ [e]]"
proof -
  have l: "ev_base i" "\<not> stale s i" using assms(2,5) by (auto simp: live_def ran_def)
  from event_del_ok [OF assms(1,5) l assms(3)] assms(4) obtain s1 where s1: "event_del_internal E s e = Some (0, s1)" "queues_ok K s1" "unmoved s s1"
    "bs_info s1 = (bs_info s)(e \<mapsto> idle i)" "maps_ok s1 (mapped (bs_info s) - {e})" "activequeues s1 = map (filter (\<lambda>x. x \<noteq> e)) (activequeues s)"
    by fastforce
  have lk: "bs_info s1 e = Some (idle i)" using s1(4) by simp
  have "mapped (bs_info s1) = mapped (bs_info s) - {e}" unfolding s1(4) using mapped_set [of "bs_info s", OF assms(5), of "idle i"] by simp
  then have b1: "base_ok K s1" using s1(2,5) by (simp add: base_ok_def)
  have "live s1" by (rule live_upd [OF assms(2,5) s1(4)]) (use s1(3) in \<open>auto simp: unmoved_def idle_def\<close>)
  from event_active_ok [OF s1(2) lk, of E "{EV_TIMEOUT}" 1] obtain s' j where s': "event_active_nolock E s1 e {EV_TIMEOUT} 1 = Some s'" "queues_ok K s'"
    "same_rest s1 s'" "bs_info s' = (bs_info s1)(e \<mapsto> j)" "ev_flags j = insert EVLIST_ACTIVE (ev_flags (idle i))" "ev_fd j = ev_fd (idle i)"
    "ev_events j = ev_events (idle i)" "ev_base j = ev_base (idle i)" "ev_pri j = ev_pri (idle i)"
    "ev_ncalls j = ev_ncalls (idle i) \<and> ev_pncalls j = ev_pncalls (idle i) \<or> ev_pncalls j = None" "ev_res j = {EV_TIMEOUT}"
    "activequeues s' = (activequeues s1)[ev_pri (idle i) := activequeues s1 ! ev_pri (idle i) @ [e]]" by auto
  have "base_ok K s'" by (rule base_ok_queues [OF b1 s'(2,3) lk s'(4,7,6)]) (use s'(5) in simp)
  moreover have "live s'" by (rule live_upd [OF \<open>live s1\<close> lk s'(4)]) (use s'(3,7,8,10) in \<open>auto simp: same_rest_sels\<close>)
  moreover have "unmoved s s'" by (rule unmoved_trans [OF s1(3) same_rest_unmoved [OF s'(3)]])
  moreover have "fired i j" using s'(5-11) by (auto simp: fired_def)
  moreover have "ev_pri i < length (activequeues s)" using assms(1,5) by (auto simp: base_ok_def queues_ok_def active_ok_def ran_def)
  ultimately show ?thesis using s1(1,4,6) s'(1,4,12) by (intro exI [of _ s1] exI [of _ s'] exI [of _ j]) simp
qed

definition due :: "(nat \<Rightarrow> timeval) \<Rightarrow> 'b event_base \<Rightarrow> timeval \<Rightarrow> nat set" where
  "due K s now = {e \<in> flagged (bs_info s) EVLIST_TIMEOUT. K e \<le> now}"

text \<open>What the loop does: the events that are due leave their queues and become active in the order of their times.\<close>

definition fired_all :: "(nat \<Rightarrow> timeval) \<Rightarrow> 'b event_base \<Rightarrow> nat set \<Rightarrow> nat list \<Rightarrow> 'b event_base \<Rightarrow> bool" where
  "fired_all K s D es s' \<longleftrightarrow> distinct es \<and> set es = D \<and> sorted (map K es) \<and> (\<forall>e. e \<notin> D \<longrightarrow> bs_info s' e = bs_info s e)
     \<and> (\<forall>e \<in> D. \<exists>i j. bs_info s e = Some i \<and> bs_info s' e = Some j \<and> fired i j)
     \<and> (\<forall>p < length (activequeues s). activequeues s' ! p =
          filter (\<lambda>e. e \<notin> D) (activequeues s ! p) @ filter (\<lambda>e. pri_of (bs_info s) e = p) es)"

lemma fired_all_step:
  assumes "fired_all K s1 D es s'" "e \<notin> D" "bs_info s e = Some i" "bs_info s1 = (bs_info s)(e \<mapsto> j)" "fired i j" "\<forall>x \<in> D. K e \<le> K x"
    "activequeues s1 = (map (filter (\<lambda>x. x \<noteq> e)) (activequeues s))[ev_pri i := filter (\<lambda>x. x \<noteq> e) (activequeues s ! ev_pri i) @ [e]]"
  shows "fired_all K s (insert e D) (e # es) s'"
  unfolding fired_all_def
proof (intro conjI ballI allI impI)
  have f: "distinct es" "set es = D" "sorted (map K es)" "\<And>x. x \<notin> D \<Longrightarrow> bs_info s' x = bs_info s1 x"
    "\<And>x. x \<in> D \<Longrightarrow> \<exists>i j. bs_info s1 x = Some i \<and> bs_info s' x = Some j \<and> fired i j"
    using assms(1) by (auto simp: fired_all_def)
  show "distinct (e # es)" "set (e # es) = insert e D" "sorted (map K (e # es))" using f(1-3) assms(2,6) by auto
  fix x
  show "bs_info s' x = bs_info s x" if "x \<notin> insert e D" using f(4) [of x] assms(4) that by simp
  show "\<exists>i j. bs_info s x = Some i \<and> bs_info s' x = Some j \<and> fired i j" if "x \<in> insert e D"
  proof (cases "x = e")
    case True
    then show ?thesis using f(4) [of e] assms(2-5) by simp
  next
    case False
    then show ?thesis using f(5) [of x] assms(4) that by simp
  qed
next
  fix p assume p: "p < length (activequeues s)"
  have "filter (\<lambda>x. pri_of (bs_info s1) x = p) es = filter (\<lambda>x. pri_of (bs_info s) x = p) es"
    using assms(3-5) by (intro filter_cong) (auto simp: pri_of_def fired_def)
  moreover have "activequeues s1 ! p = filter (\<lambda>x. x \<noteq> e) (activequeues s ! p) @ (if p = ev_pri i then [e] else [])"
    using p by (simp add: assms(7) nth_list_update)
  moreover have "activequeues s' ! p = filter (\<lambda>e. e \<notin> D) (activequeues s1 ! p) @ filter (\<lambda>e. pri_of (bs_info s1) e = p) es"
    using assms(1,7) p by (simp add: fired_all_def)
  moreover have "pri_of (bs_info s) e = ev_pri i" using assms(3) by (simp add: pri_of_def)
  ultimately show "activequeues s' ! p = filter (\<lambda>x. x \<notin> insert e D) (activequeues s ! p) @ filter (\<lambda>x. pri_of (bs_info s) x = p) (e # es)"
    using assms(2) by (simp add: conj_commute)
qed

lemma timeout_loop_ok:
  assumes "sig_frame E" "dels_ok E"
  shows "base_ok K s \<Longrightarrow> live s \<Longrightarrow> card (due K s now) = n \<Longrightarrow>
    \<exists>es s'. timeout_loop E now s = Some s' \<and> fired_all K s (due K s now) es s' \<and> base_ok K s' \<and> live s' \<and> unmoved s s'"
proof (induction n arbitrary: s)
  case (0 s)
  have q: "queues_ok K s" using 0(1) by (simp add: base_ok_def)
  then have heap: "mh_queue K (timeheap s) (flagged (bs_info s) EVLIST_TIMEOUT)" by (simp add: queues_ok_def)
  have "finite (due K s now)" using queues_finite(1) [OF q, of EVLIST_TIMEOUT] by (simp add: due_def)
  then have none: "due K s now = {}" using 0(3) by simp
  have "timeout_loop E now s = Some s"
    using mh_queue_top [OF heap]
  proof (elim disjE conjE bexE)
    assume "min_heap_top (timeheap s) = Some None"
    then show ?thesis by (subst timeout_loop.simps) simp
  next
    fix t assume t: "t \<in> flagged (bs_info s) EVLIST_TIMEOUT" "min_heap_top (timeheap s) = Some (Some t)"
    then have "timeout_of s t = Some (K t)" using queue_timeout(1) [OF q] by (auto simp: flagged_def)
    moreover have "now < K t" using t none by (auto simp: due_def)
    ultimately show ?thesis using t(2) by (subst timeout_loop.simps) (simp add: timercmp_greater)
  qed
  moreover have "fired_all K s (due K s now) [] s" unfolding none by (simp add: fired_all_def)
  ultimately show ?case using 0(1,2) unmoved_refl by blast
next
  case (Suc n s)
  have q: "queues_ok K s" using Suc.prems(1) by (simp add: base_ok_def)
  then have heap: "mh_queue K (timeheap s) (flagged (bs_info s) EVLIST_TIMEOUT)" by (simp add: queues_ok_def)
  have fin: "finite (due K s now)" using queues_finite(1) [OF q, of EVLIST_TIMEOUT] by (simp add: due_def)
  obtain d where d: "d \<in> due K s now" using Suc.prems(3) by (metis all_not_in_conv card.empty old.nat.distinct(2))
  obtain e where e: "e \<in> flagged (bs_info s) EVLIST_TIMEOUT" "min_heap_top (timeheap s) = Some (Some e)"
    "\<forall>x \<in> flagged (bs_info s) EVLIST_TIMEOUT. K e \<le> K x" using mh_queue_top [OF heap] d by (auto simp: due_def)
  obtain i where i: "bs_info s e = Some i" "EVLIST_TIMEOUT \<in> ev_flags i" using e(1) by (auto simp: flagged_def)
  have le: "K e \<le> now" using e(3) d by (force simp: due_def)
  obtain s0 s1 j where s1: "event_del_internal E s e = Some (0, s0)" "event_active_nolock E s0 e {EV_TIMEOUT} 1 = Some s1" "base_ok K s1" "live s1"
    "unmoved s s1" "bs_info s1 = (bs_info s)(e \<mapsto> j)" "fired i j"
    "activequeues s1 = (map (filter (\<lambda>x. x \<noteq> e)) (activequeues s))[ev_pri i := filter (\<lambda>x. x \<noteq> e) (activequeues s ! ev_pri i) @ [e]]"
    using fire_one [OF Suc.prems(1,2) assms i(1)] by blast
  have step: "timeout_loop E now s = timeout_loop E now s1"
    using e(2) queue_timeout(1) [OF q i(1)] leD [OF le] s1(1,2) by (subst timeout_loop.simps) (simp add: timercmp_greater)
  have D: "due K s1 now = due K s now - {e}" using s1(6,7) by (auto simp: due_def flagged_def fired_def)
  have eD: "e \<in> due K s now" using e(1) le by (simp add: due_def)
  then have "card (due K s1 now) = n" using Suc.prems(3) fin D by simp
  from Suc.IH [OF s1(3,4) this] obtain es s' where s': "timeout_loop E now s1 = Some s'" "fired_all K s1 (due K s1 now) es s'"
    "base_ok K s'" "live s'" "unmoved s1 s'" by blast
  have "fired_all K s (insert e (due K s1 now)) (e # es) s'"
    by (rule fired_all_step [OF s'(2) _ i(1) s1(6,7) _ s1(8)]) (use D e(3) in \<open>auto simp: due_def\<close>)
  moreover have "insert e (due K s1 now) = due K s now" using D eD by blast
  ultimately show ?case using step s'(1,3,4) unmoved_trans [OF s1(5) s'(5)] by auto
qed

end
