(* ===== verification/EventAdd.thy ===== *)
theory EventAdd
  imports EventProps
begin

text \<open>
  Adding events: \<^verbatim>\<open>event_add\<close> enters the event into the map of its descriptor or signal and into the heap, or fails and
  leaves the queues as they are. The memory the heap needs is reserved before anything is changed, so that the push
  cannot fail.
\<close>

section \<open>The steps\<close>

text \<open>An event outside the heap may come, change and go.\<close>

lemma mh_queue_outside:
  assumes "mh_queue K h S" "e \<notin> S" "\<And>ev. x = Some ev \<Longrightarrow> ev_timeout ev = t \<and> min_heap_idx ev = - 1"
  shows "mh_queue (K(e := t)) (h\<lparr>mh_ev := (mh_ev h)(e := x)\<rparr>) S"
proof -
  let ?h = "h\<lparr>mh_ev := (mh_ev h)(e := x)\<rparr>"
  obtain es where es: "mh_ok K h es" "set es = S" using assms(1) by (auto simp: mh_queue_def)
  have ne: "es ! i \<noteq> e" if "i < length es" for i using that assms(2) es(2) by auto
  have "mh_base (K(e := t)) ?h es" using es assms(2,3) by (auto simp: mh_ok_def full_def mh_base_def)
  moreover have "held ?h es i" if "i < length es" for i
    using es(1) that ne [OF that] by (auto simp: mh_ok_def full_def held_def)
  moreover have "heap_ord (K(e := t)) es" unfolding heap_ord_def
  proof (intro allI impI)
    fix i assume i: "0 < i" "i < length es"
    have "par i < length es" using par_less [OF i(1)] i(2) by simp
    then show "(K(e := t)) (es ! par i) \<le> (K(e := t)) (es ! i)" using es(1) i ne by (simp add: mh_ok_def heap_ord_def)
  qed
  moreover have "x' \<notin> set es \<Longrightarrow> mh_ev ?h x' = Some w \<Longrightarrow> min_heap_idx w = - 1" for x' w
    using es assms(3) by (auto simp: mh_ok_def split: if_splits)
  ultimately show ?thesis using es(2) unfolding mh_queue_def mh_ok_def full_def by blast
qed

lemma mh_queue_retime:
  assumes "mh_queue K h S" "e \<notin> S" "mh_ev h e = Some ev"
  shows "mh_queue (K(e := t)) (h\<lparr>mh_ev := (mh_ev h)(e \<mapsto> ev\<lparr>ev_timeout := t\<rparr>)\<rparr>) S"
proof -
  have "min_heap_idx ev = - 1" using assms by (auto simp: mh_queue_def mh_ok_def)
  then show ?thesis by (intro mh_queue_outside [OF assms(1,2)]) auto
qed

lemma mh_queue_fits: "mh_queue K h S \<Longrightarrow> card S \<le> mh_a (mh_heap h)"
  by (auto simp: mh_queue_def mh_ok_def full_def mh_base_def distinct_card)

lemma set_timeout_ok:
  assumes "queues_ok K s" "bs_info s e = Some i" "EVLIST_TIMEOUT \<notin> ev_flags i"
  shows "\<exists>h. set_timeout s e t = Some (s\<lparr>timeheap := h\<rparr>) \<and> queues_ok (K(e := t)) (s\<lparr>timeheap := h\<rparr>) \<and> same_store (timeheap s) h"
proof -
  obtain ev where ev: "mh_ev (timeheap s) e = Some ev" using queue_timeout(2) [OF assms(1,2)] by blast
  let ?h = "(timeheap s)\<lparr>mh_ev := (mh_ev (timeheap s))(e \<mapsto> ev\<lparr>ev_timeout := t\<rparr>)\<rparr>"
  have "e \<notin> flagged (bs_info s) EVLIST_TIMEOUT" using assms(2,3) by (auto simp: flagged_def)
  then have "mh_queue (K(e := t)) ?h (flagged (bs_info s) EVLIST_TIMEOUT)"
    using assms(1) by (intro mh_queue_retime [OF _ _ ev]) (simp_all add: queues_ok_def)
  moreover have "dom (mh_ev ?h) = dom (mh_ev (timeheap s))" using ev by auto
  ultimately have "queues_ok (K(e := t)) (s\<lparr>timeheap := ?h\<rparr>)" "same_store (timeheap s) ?h"
    using assms(1) by (simp_all add: queues_ok_def inserted_ok_def active_ok_def counts_ok_def same_store_def del: dom_fun_upd)
  then show ?thesis using ev by (intro exI [of _ ?h]) (simp add: set_timeout_def)
qed

lemma gettime_frame: "\<exists>n d l. snd (gettime E s) = s\<lparr>bs_reads := n, tv_clock_diff := d, last_updated_clock_diff := l\<rparr>"
proof -
  have triv: "s = s\<lparr>bs_reads := bs_reads s, tv_clock_diff := tv_clock_diff s, last_updated_clock_diff := last_updated_clock_diff s\<rparr>"
    "s\<lparr>bs_reads := n\<rparr> = s\<lparr>bs_reads := n, tv_clock_diff := tv_clock_diff s, last_updated_clock_diff := last_updated_clock_diff s\<rparr>" for n by simp_all
  have "snd (gettime E s) = s \<or> (\<exists>n. snd (gettime E s) = s\<lparr>bs_reads := n\<rparr>)
      \<or> (\<exists>n d l. snd (gettime E s) = s\<lparr>bs_reads := n, tv_clock_diff := d, last_updated_clock_diff := l\<rparr>)"
    by (cases "clock_monotonic E (bs_reads s)") (auto simp: gettime_def Let_def split: prod.splits)
  then show ?thesis using triv by metis
qed

lemma gettime_same: "unmoved s s' \<Longrightarrow> fst (gettime E s') = fst (gettime E s)"
  by (simp add: gettime_def unmoved_def Let_def split: option.splits prod.splits)

text \<open>What \<^verbatim>\<open>drop_timeout\<close> leaves of the flags.\<close>

definition dropped :: "ev_info \<Rightarrow> ev_info" where
  "dropped i = (if EVLIST_ACTIVE \<in> ev_flags i \<and> EV_TIMEOUT \<in> ev_res i then without_flag EVLIST_ACTIVE (without_flag EVLIST_TIMEOUT i)
     else without_flag EVLIST_TIMEOUT i)"

lemma dropped_sels [simp]: "ev_events (dropped i) = ev_events i" "ev_fd (dropped i) = ev_fd i" "ev_pri (dropped i) = ev_pri i"
  "ev_base (dropped i) = ev_base i" "EVLIST_TIMEOUT \<notin> ev_flags (dropped i)" "EVLIST_INSERTED \<in> ev_flags (dropped i) \<longleftrightarrow> EVLIST_INSERTED \<in> ev_flags i"
  "ev_flags (dropped i) = ev_flags i - {EVLIST_TIMEOUT} - (if EV_TIMEOUT \<in> ev_res i then {EVLIST_ACTIVE} else {})"
  "ev_ncalls (dropped i) = ev_ncalls i" "ev_pncalls (dropped i) = ev_pncalls i"
  by (auto simp: dropped_def)

lemma drop_timeout_ok:
  assumes "queues_ok K s" "bs_info s e = Some i" "\<not> stale s i"
  shows "\<exists>s'. drop_timeout s e = Some s' \<and> queues_ok K s' \<and> unmoved s s' \<and> bs_io s' = bs_io s \<and> bs_sigmap s' = bs_sigmap s
    \<and> same_store (timeheap s) (timeheap s') \<and> bs_info s' = (bs_info s)(e \<mapsto> dropped i)"
proof -
  let ?i1 = "without_flag EVLIST_TIMEOUT i"
  obtain s1 where s1: "(if EVLIST_TIMEOUT \<in> ev_flags i then event_queue_remove s e EVLIST_TIMEOUT else Some s) = Some s1" "queues_ok K s1"
    "bs_info s1 = (bs_info s)(e \<mapsto> ?i1)" "same_rest s s1" "same_store (timeheap s) (timeheap s1)"
    using remove_if [OF assms(1,2) queue_flags(1)] by blast
  note un1 = same_rest_unmoved [OF s1(4)] and sel1 = same_rest_sels [OF s1(4)]
  show ?thesis
  proof (cases "EVLIST_ACTIVE \<in> ev_flags i \<and> EV_TIMEOUT \<in> ev_res i")
    case False
    then have "drop_timeout s e = Some s1" using s1(1) assms(2) unfolding drop_timeout_def by auto
    moreover have "dropped i = ?i1" using False by (auto simp: dropped_def)
    ultimately show ?thesis using s1(2,3,5) un1 sel1(2,3) by (intro exI [of _ s1]) simp
  next
    case True
    have "\<not> stale s1 i" using assms(3) sel1(4) by (simp add: stale_def)
    then obtain F where F: "abort_calls s1 i = Some (s1\<lparr>bs_frames := F\<rparr>)" using abort_calls_ok by blast
    have domF: "dom F = dom (bs_frames s1)"
      using F by (auto simp: abort_calls_def split: if_splits option.splits dest!: arg_cong [where f = bs_frames])
    let ?s1 = "s1\<lparr>bs_frames := F\<rparr>"
    have q1: "queues_ok K ?s1" by (rule queues_ok_cong [OF s1(2)]) simp_all
    have lk1: "bs_info ?s1 e = Some ?i1" using s1(3) by simp
    have act: "EVLIST_ACTIVE \<in> ev_flags ?i1" using True by simp
    obtain s2 where s2: "event_queue_remove ?s1 e EVLIST_ACTIVE = Some s2" "queues_ok K s2" "bs_info s2 = (bs_info ?s1)(e \<mapsto> without_flag EVLIST_ACTIVE ?i1)"
      "same_rest ?s1 s2" "timeheap s2 = timeheap ?s1" using remove_active [OF q1 lk1 act] by blast
    have "drop_timeout s e = Some s2" using s1(1) F s2(1) True assms(2) unfolding drop_timeout_def by simp
    moreover have "unmoved ?s1 s2" by (rule same_rest_unmoved [OF s2(4)])
    then have "unmoved s1 s2" using domF by (simp add: unmoved_def)
    then have "unmoved s s2" by (rule unmoved_trans [OF un1])
    moreover have "bs_info s2 = (bs_info s)(e \<mapsto> dropped i)" using s2(3) s1(3) True by (simp add: dropped_def)
    ultimately show ?thesis using s2(2,5) s1(5) same_rest_sels(2,3) [OF s2(4)] sel1(2,3) by (intro exI [of _ s2]) simp
  qed
qed

text \<open>The entry into the map.\<close>

definition joins :: "ev_info \<Rightarrow> bool" where
  "joins i \<longleftrightarrow> ev_events i \<inter> {EV_READ, EV_WRITE, EV_SIGNAL} \<noteq> {} \<and> ev_flags i \<inter> {EVLIST_INSERTED, EVLIST_ACTIVE} = {}"

definition joined :: "ev_info \<Rightarrow> ev_info" where
  "joined i = (if joins i then with_flag EVLIST_INSERTED i else i)"

text \<open>The descriptor is small, and a signal is not negative.\<close>

definition fd_ok :: "ev_info \<Rightarrow> bool" where
  "fd_ok i \<longleftrightarrow> ev_fd i < 2 ^ 27 \<and> (\<not> io_kind i \<longrightarrow> EV_SIGNAL \<in> ev_events i \<longrightarrow> 0 \<le> ev_fd i)"

lemma add_to_map_ok:
  assumes "base_ok K s" "bs_info s e = Some i" "sig_frame E" "fd_ok i"
  shows "\<exists>r s'. add_to_map E s e i = Some (r, s') \<and> r \<in> {- 1, 0} \<and> base_ok K s' \<and> timeheap s' = timeheap s \<and> unmoved s s'
    \<and> bs_info s' = (if r = - 1 then bs_info s else (bs_info s)(e \<mapsto> joined i))"
proof (cases "joins i")
  case False
  then have "add_to_map E s e i = Some (0, s)" by (auto simp: add_to_map_def joins_def)
  then show ?thesis using assms(1,2) False by (intro exI [of _ 0] exI [of _ s]) (simp add: joined_def fun_upd_idem)
next
  case True
  let ?M = "mapped (bs_info s)"
  have b: "queues_ok K s" "maps_ok s ?M" using assms(1) by (simp_all add: base_ok_def)
  have nf: "EVLIST_INSERTED \<notin> ev_flags i" using True by (auto simp: joins_def)
  then have new: "e \<notin> ?M" using assms(2) by (simp add: mapped_def)
  have "\<exists>r s1. (if io_kind i then evmap_io_add E s (ev_fd i) e else evmap_signal_add E s (ev_fd i) e) = Some (r, s1) \<and> r \<in> {- 1, 0, 1} \<and> map_rest s s1
      \<and> maps_ok s1 (if r = - 1 \<or> io_kind i \<and> ev_fd i < 0 then ?M else insert e ?M)"
  proof (cases "io_kind i")
    case io: True
    have "ev_fd i < 2 ^ 27" using assms(4) by (simp add: fd_ok_def)
    from evmap_io_add_ok [OF b(2) new assms(2) io this, of E] show ?thesis using io map_rest_intros(2) by fastforce
  next
    case sig: False
    then have "EV_SIGNAL \<in> ev_events i" using True by (auto simp: joins_def)
    then have "0 \<le> ev_fd i" "ev_fd i < 2 ^ 27" using assms(4) sig by (auto simp: fd_ok_def)
    from evmap_signal_add_ok [OF b(2) new assms(2) sig this assms(3)] show ?thesis using sig map_rest_intros(3) by fastforce
  qed
  then obtain r s1 where r: "(if io_kind i then evmap_io_add E s (ev_fd i) e else evmap_signal_add E s (ev_fd i) e) = Some (r, s1)" "r \<in> {- 1, 0, 1}"
    "map_rest s s1" "maps_ok s1 (if r = - 1 \<or> io_kind i \<and> ev_fd i < 0 then ?M else insert e ?M)" by blast
  have q1: "queues_ok K s1" by (rule map_rest_queues [OF b(1) r(3)])
  have un: "unmoved s s1" by (rule map_rest_unmoved [OF r(3)])
  have sel: "bs_info s1 = bs_info s" "timeheap s1 = timeheap s" by (rule map_rest_sels [OF r(3)])+
  have add: "add_to_map E s e i = do { s \<leftarrow> (if r \<noteq> - 1 then event_queue_insert E s1 e EVLIST_INSERTED else Some s1); Some (if r = 1 then 0 else r, s) }"
    using True r(1) by (simp add: add_to_map_def joins_def)
  show ?thesis
  proof (cases "r = - 1")
    case fail: True
    then have "base_ok K s1" using q1 r(4) sel(1) by (simp add: base_ok_def)
    then show ?thesis using add fail un sel by (intro exI [of _ "- 1"] exI [of _ s1]) simp
  next
    case False
    have lk: "bs_info s1 e = Some i" using sel(1) assms(2) by simp
    from insert_inserted [OF q1 lk nf, of E] obtain s2 where s2: "event_queue_insert E s1 e EVLIST_INSERTED = Some s2" "queues_ok K s2"
      "bs_info s2 = (bs_info s1)(e \<mapsto> with_flag EVLIST_INSERTED i)" "same_rest s1 s2" "timeheap s2 = timeheap s1" by blast
    have "maps_ok s2 (if io_kind i \<and> ev_fd i < 0 then ?M else insert e ?M)"
      by (rule maps_ok_info [OF _ lk _ _ s2(3)]) (use r(4) False same_rest_sels [OF s2(4)] in auto)
    moreover have "mapped (bs_info s2) = (if io_kind i \<and> ev_fd i < 0 then ?M else insert e ?M)"
      unfolding s2(3) sel(1) using mapped_set [of "bs_info s", OF assms(2), of "with_flag EVLIST_INSERTED i"] new by auto
    ultimately have "base_ok K s2" using s2(2) by (simp add: base_ok_def)
    moreover have "unmoved s s2" by (rule unmoved_trans [OF un same_rest_unmoved [OF s2(4)]])
    moreover have "add_to_map E s e i = Some (0, s2)" unfolding add using False r(2) s2(1) by auto
    ultimately show ?thesis using s2(3,5) sel True by (intro exI [of _ 0] exI [of _ s2]) (simp add: joined_def)
  qed
qed

text \<open>The timeout, once the event is in its map: it leaves the heap and, if it was active because of the timeout, the queue
  of active events, and goes into the heap with its new time.\<close>

definition set_due :: "'b env \<Rightarrow> 'b event_base \<Rightarrow> nat \<Rightarrow> timeval \<Rightarrow> bool \<Rightarrow> 'b event_base option" where
  "set_due E s ev tv tv_is_absolute = do {
     s \<leftarrow> drop_timeout s ev;
     let (now, s) = gettime E s;
     due \<leftarrow> due_time s now tv tv_is_absolute;
     s \<leftarrow> set_timeout s ev due;
     event_queue_insert E s ev EVLIST_TIMEOUT }"

lemma set_due_ok:
  assumes "base_ok K s" "bs_info s e = Some i" "\<not> stale s i" "fst (gettime E s) = Some now" "\<not> is_abs"
    "EVLIST_TIMEOUT \<notin> ev_flags i \<Longrightarrow> card (flagged (bs_info s) EVLIST_TIMEOUT) < mh_a (mh_heap (timeheap s))"
    "int (card (flagged (bs_info s) EVLIST_TIMEOUT)) + 1 < 2 ^ 31 - 1"
  shows "\<exists>s'. set_due E s e tv is_abs = Some s' \<and> base_ok (K(e := evutil_timeradd now tv)) s' \<and> common_timeout_queues s' = [] \<and> dom (bs_frames s') = dom (bs_frames s)
    \<and> bs_info s' = (bs_info s)(e \<mapsto> with_flag EVLIST_TIMEOUT (dropped i))"
proof -
  let ?T = "flagged (bs_info s) EVLIST_TIMEOUT" and ?K = "K(e := evutil_timeradd now tv)"
  have q: "queues_ok K s" using assms(1) by (simp add: base_ok_def)
  obtain s1 where s1: "drop_timeout s e = Some s1" "queues_ok K s1" "unmoved s s1" "bs_io s1 = bs_io s" "bs_sigmap s1 = bs_sigmap s"
    "same_store (timeheap s) (timeheap s1)" "bs_info s1 = (bs_info s)(e \<mapsto> dropped i)" using drop_timeout_ok [OF q assms(2,3)] by blast
  obtain n d l where g: "gettime E s1 = (Some now, s1\<lparr>bs_reads := n, tv_clock_diff := d, last_updated_clock_diff := l\<rparr>)"
    using gettime_frame [of E s1] gettime_same [OF s1(3), of E] assms(4) by (metis prod.collapse)
  let ?s2 = "s1\<lparr>bs_reads := n, tv_clock_diff := d, last_updated_clock_diff := l\<rparr>"
  have q2: "queues_ok K ?s2" by (rule queues_ok_cong [OF s1(2)]) simp_all
  have lk2: "bs_info ?s2 e = Some (dropped i)" using s1(7) by simp
  obtain h where h: "set_timeout ?s2 e (evutil_timeradd now tv) = Some (?s2\<lparr>timeheap := h\<rparr>)" "queues_ok ?K (?s2\<lparr>timeheap := h\<rparr>)"
    "same_store (timeheap ?s2) h" using set_timeout_ok [OF q2 lk2 dropped_sels(5)] by blast
  let ?s3 = "?s2\<lparr>timeheap := h\<rparr>"
  have lk3: "bs_info ?s3 e = Some (dropped i)" using s1(7) by simp
  have T: "flagged (bs_info ?s3) EVLIST_TIMEOUT = ?T - {e}" using s1(7) assms(2) by (auto simp: flagged_def)
  have fin: "finite ?T" using queues_finite(1) [OF q] by simp
  have "card ?T \<le> mh_a (mh_heap (timeheap s))"
    using q by (auto simp: queues_ok_def intro: mh_queue_fits)
  moreover have "e \<in> ?T \<longleftrightarrow> EVLIST_TIMEOUT \<in> ev_flags i" using assms(2) by (simp add: flagged_def)
  moreover have "mh_a (mh_heap (timeheap s)) = mh_a (mh_heap (timeheap ?s3))" using s1(6) h(3) by (simp add: same_store_def)
  ultimately have room: "card (flagged (bs_info ?s3) EVLIST_TIMEOUT) < mh_a (mh_heap (timeheap ?s3))"
    unfolding T using assms(6) card_Diff1_less [OF fin, of e] by (cases "e \<in> ?T") auto
  have size: "int (card (flagged (bs_info ?s3) EVLIST_TIMEOUT)) + 1 < 2 ^ 31 - 1"
    unfolding T using assms(7) card_Diff1_le [of ?T e] by linarith
  obtain s' where s': "event_queue_insert E ?s3 e EVLIST_TIMEOUT = Some s'" "queues_ok ?K s'"
    "bs_info s' = (bs_info ?s3)(e \<mapsto> with_flag EVLIST_TIMEOUT (dropped i))" "same_rest ?s3 s'"
    using insert_timeout [OF h(2) lk3 dropped_sels(5) room size] by blast
  have nc: "common_timeout_queues s1 = []" using s1(2) by (simp add: queues_ok_def)
  have "set_due E s e tv is_abs = Some s'"
    using s1(1) g h(1) s'(1) assms(5) nc by (simp add: set_due_def due_time_def is_common_timeout_def)
  moreover have inf: "bs_info s' = (bs_info s)(e \<mapsto> with_flag EVLIST_TIMEOUT (dropped i))" using s'(3) s1(7) by simp
  moreover have "maps_ok s' (mapped (bs_info s))"
    by (rule maps_ok_info [OF _ assms(2) _ _ inf]) (use assms(1) same_rest_sels [OF s'(4)] s1(4,5) in \<open>auto simp: base_ok_def\<close>)
  moreover have "mapped (bs_info s') = mapped (bs_info s)" unfolding inf by (rule mapped_same [of "bs_info s", OF assms(2)]) auto
  moreover have "dom (bs_frames s') = dom (bs_frames s)" using s1(3) same_rest_sels(4) [OF s'(4)] by (simp add: unmoved_def)
  ultimately show ?thesis using s'(2) nc same_rest_sels(1) [OF s'(4)] by (intro exI [of _ s']) (simp add: base_ok_def)
qed

section \<open>\<^verbatim>\<open>event_add\<close>\<close>

text \<open>The event after a successful call.\<close>

definition added :: "ev_info \<Rightarrow> timeval option \<Rightarrow> ev_info" where
  "added i tv = (case tv of
     None \<Rightarrow> joined i
   | Some t \<Rightarrow> with_flag EVLIST_TIMEOUT (dropped (if ev_closure i = EV_CLOSURE_PERSIST then (joined i)\<lparr>ev_io_timeout := t\<rparr> else joined i)))"

lemma joined_sels [simp]: "ev_events (joined i) = ev_events i" "ev_fd (joined i) = ev_fd i" "ev_pri (joined i) = ev_pri i" "ev_base (joined i) = ev_base i"
  "EVLIST_TIMEOUT \<in> ev_flags (joined i) \<longleftrightarrow> EVLIST_TIMEOUT \<in> ev_flags i" "ev_closure (joined i) = ev_closure i"
  "ev_ncalls (joined i) = ev_ncalls i" "ev_pncalls (joined i) = ev_pncalls i"
  by (auto simp: joined_def)

lemma add_unfold:
  assumes "bs_info s e = Some i" "common_timeout_queues s = []"
    "(if EVLIST_TIMEOUT \<notin> ev_flags i then min_heap_reserve (mm_alloc E) (timeheap s) (u32_of (1 + int (min_heap_size (timeheap s)))) else (0, timeheap s)) = (0, h)"
    "add_to_map E (s\<lparr>timeheap := h\<rparr>) e i = Some (0, s1)"
    "set_due E (if ev_closure i = EV_CLOSURE_PERSIST then s1\<lparr>bs_info := (bs_info s1)(e \<mapsto> (joined i)\<lparr>ev_io_timeout := t\<rparr>)\<rparr> else s1) e t False = Some s2"
    "bs_info s1 e = Some (joined i)" "common_timeout_queues s2 = []"
  shows "event_add_internal (Suc n) E s e (Some t) False = Some (0, s2)"
proof -
  let ?s1 = "if ev_closure i = EV_CLOSURE_PERSIST then s1\<lparr>bs_info := (bs_info s1)(e \<mapsto> (joined i)\<lparr>ev_io_timeout := t\<rparr>)\<rparr> else s1"
  obtain s3 where s3: "drop_timeout ?s1 e = Some s3" using assms(5) unfolding set_due_def bind_eq_Some_conv by blast
  obtain now s4 where g: "gettime E s3 = (now, s4)" by fastforce
  have "do { due \<leftarrow> due_time s4 now t False; s \<leftarrow> set_timeout s4 e due; event_queue_insert E s e EVLIST_TIMEOUT } = Some s2"
    using assms(5) s3 g by (simp add: set_due_def)
  then obtain due s5 where d: "due_time s4 now t False = Some due" "set_timeout s4 e due = Some s5" "event_queue_insert E s5 e EVLIST_TIMEOUT = Some s2"
    by (auto simp: bind_eq_Some_conv)
  have io: "(if ev_closure i = EV_CLOSURE_PERSIST then info_upd s1 e (\<lambda>i. i\<lparr>ev_io_timeout := t\<rparr>) else Some s1) = Some ?s1"
    using assms(6) by (simp add: info_upd_def)
  show ?thesis
    using assms(1,3,4,7) io s3 g d by (simp add: is_common_timeout_def cong: if_cong)
qed

lemma base_ok_heap:
  assumes "base_ok K s" "mh_queue K h (flagged (bs_info s) EVLIST_TIMEOUT)" "mh_ev h = mh_ev (timeheap s)"
  shows "base_ok K (s\<lparr>timeheap := h\<rparr>)"
proof -
  have "queues_ok K (s\<lparr>timeheap := h\<rparr>)" using assms by (simp add: base_ok_def queues_ok_def inserted_ok_def active_ok_def counts_ok_def)
  moreover have "maps_ok (s\<lparr>timeheap := h\<rparr>) M = maps_ok s M" for M by (simp add: maps_ok_def io_ok_def sig_ok_def)
  ultimately show ?thesis using assms(1) by (simp add: base_ok_def)
qed

lemma base_ok_io_timeout:
  assumes "base_ok K s" "bs_info s e = Some i"
  shows "base_ok K (s\<lparr>bs_info := (bs_info s)(e \<mapsto> i\<lparr>ev_io_timeout := t\<rparr>)\<rparr>)"
proof -
  let ?s = "s\<lparr>bs_info := (bs_info s)(e \<mapsto> i\<lparr>ev_io_timeout := t\<rparr>)\<rparr>"
  have "queues_ok K ?s" using assms by (intro queues_ok_info) (simp_all add: base_ok_def)
  then show ?thesis
    by (rule base_ok_queues [where e = e and i = i and j = "i\<lparr>ev_io_timeout := t\<rparr>", OF assms(1)]) (simp_all add: same_rest_def assms(2))
qed

text \<open>The timeout is added after the map was joined; \<open>h\<close> is the heap with the memory reserved.\<close>

lemma add_after_reserve:
  assumes "base_ok K s" "bs_info s e = Some i" "\<not> stale s i" "fd_ok i" "sig_frame E" "fst (gettime E s) = Some now"
    "int (card (flagged (bs_info s) EVLIST_TIMEOUT)) + 1 < 2 ^ 31 - 1"
    "(if EVLIST_TIMEOUT \<notin> ev_flags i then min_heap_reserve (mm_alloc E) (timeheap s) (u32_of (1 + int (min_heap_size (timeheap s)))) else (0, timeheap s)) = (0, h)"
    "mh_queue K h (flagged (bs_info s) EVLIST_TIMEOUT)" "mh_ev h = mh_ev (timeheap s)"
    "EVLIST_TIMEOUT \<notin> ev_flags i \<Longrightarrow> card (flagged (bs_info s) EVLIST_TIMEOUT) < mh_a (mh_heap h)"
  shows "\<exists>r s'. event_add_internal (Suc n) E s e (Some t) False = Some (r, s') \<and> dom (bs_frames s') = dom (bs_frames s) \<and> (r = - 1 \<and> base_ok K s' \<and> bs_info s' = bs_info s
    \<or> r = 0 \<and> base_ok (K(e := evutil_timeradd now t)) s' \<and> bs_info s' = (bs_info s)(e \<mapsto> added i (Some t)))"
proof -
  let ?s = "s\<lparr>timeheap := h\<rparr>"
  have b: "base_ok K ?s" by (rule base_ok_heap [OF assms(1,9,10)])
  have lk: "bs_info ?s e = Some i" using assms(2) by simp
  obtain r s1 where s1: "add_to_map E ?s e i = Some (r, s1)" "r \<in> {- 1, 0}" "base_ok K s1" "timeheap s1 = timeheap ?s" "unmoved ?s s1"
    "bs_info s1 = (if r = - 1 then bs_info ?s else (bs_info ?s)(e \<mapsto> joined i))" using add_to_map_ok [OF b lk assms(5,4)] by blast
  show ?thesis
  proof (cases "r = - 1")
    case True
    then have "event_add_internal (Suc n) E s e (Some t) False = Some (- 1, s1)" using assms(2,8) s1(1) by simp
    then show ?thesis using True s1(3,5,6) by (simp add: unmoved_def)
  next
    case False
    then have s0: "add_to_map E ?s e i = Some (0, s1)" and inf1: "bs_info s1 = (bs_info s)(e \<mapsto> joined i)" using s1(1,2,6) by auto
    let ?j = "if ev_closure i = EV_CLOSURE_PERSIST then (joined i)\<lparr>ev_io_timeout := t\<rparr> else joined i"
    let ?s1 = "if ev_closure i = EV_CLOSURE_PERSIST then s1\<lparr>bs_info := (bs_info s1)(e \<mapsto> (joined i)\<lparr>ev_io_timeout := t\<rparr>)\<rparr> else s1"
    have lk1: "bs_info s1 e = Some (joined i)" using inf1 by simp
    have b1: "base_ok K ?s1" using s1(3) base_ok_io_timeout [OF s1(3) lk1, of t] by simp
    have lk2: "bs_info ?s1 e = Some ?j" using lk1 by simp
    have inf2: "bs_info ?s1 = (bs_info s)(e \<mapsto> ?j)" using inf1 by simp
    have un: "unmoved s ?s1" using s1(5) by (simp add: unmoved_def)
    then have g: "fst (gettime E ?s1) = Some now" using gettime_same assms(6) by metis
    have fl: "EVLIST_TIMEOUT \<in> ev_flags ?j \<longleftrightarrow> EVLIST_TIMEOUT \<in> ev_flags i" by simp
    have T: "flagged (bs_info ?s1) EVLIST_TIMEOUT = flagged (bs_info s) EVLIST_TIMEOUT" unfolding inf2 using assms(2) fl by (auto simp: flagged_def)
    have "dom (bs_frames s1) = dom (bs_frames s)" using s1(5) by (simp add: unmoved_def)
    then have "bs_frames s1 f = None \<longleftrightarrow> bs_frames s f = None" for f by (metis domIff)
    then have "stale ?s1 ?j = stale s i" by (simp add: stale_def)
    then have st: "\<not> stale ?s1 ?j" using assms(3) by simp
    have room: "EVLIST_TIMEOUT \<notin> ev_flags ?j \<Longrightarrow> card (flagged (bs_info ?s1) EVLIST_TIMEOUT) < mh_a (mh_heap (timeheap ?s1))"
      unfolding T using assms(11) fl s1(4) by simp
    have size: "int (card (flagged (bs_info ?s1) EVLIST_TIMEOUT)) + 1 < 2 ^ 31 - 1" unfolding T by (rule assms(7))
    obtain s2 where s2: "set_due E ?s1 e t False = Some s2" "base_ok (K(e := evutil_timeradd now t)) s2" "common_timeout_queues s2 = []"
      "dom (bs_frames s2) = dom (bs_frames ?s1)" "bs_info s2 = (bs_info ?s1)(e \<mapsto> with_flag EVLIST_TIMEOUT (dropped ?j))" using set_due_ok [OF b1 lk2 st g _ room size, of False t] by auto
    have "event_add_internal (Suc n) E s e (Some t) False = Some (0, s2)"
      by (rule add_unfold [OF assms(2) _ assms(8) s0 s2(1) lk1 s2(3)]) (use assms(1) in \<open>simp add: base_ok_def queues_ok_def\<close>)
    moreover have "bs_info s2 = (bs_info s)(e \<mapsto> added i (Some t))" using s2(5) inf2 by (simp add: added_def)
    moreover have "dom (bs_frames s2) = dom (bs_frames s)" using s2(4) un by (simp add: unmoved_def)
    ultimately show ?thesis using s2(2) by blast
  qed
qed

lemma event_add_ok:
  assumes "base_ok K s" "bs_info s e = Some i" "ev_base i" "\<not> stale s i" "fd_ok i" "sig_frame E" "fst (gettime E s) = Some now"
    "int (card (flagged (bs_info s) EVLIST_TIMEOUT)) + 1 < 2 ^ 31 - 1"
  shows "\<exists>r s'. event_add E s e tv = Some (r, s') \<and> dom (bs_frames s') = dom (bs_frames s) \<and> (r = - 1 \<and> base_ok K s' \<and> bs_info s' = bs_info s
    \<or> r = 0 \<and> base_ok (case tv of None \<Rightarrow> K | Some t \<Rightarrow> K(e := evutil_timeradd now t)) s' \<and> bs_info s' = (bs_info s)(e \<mapsto> added i tv))"
proof (cases tv)
  case None
  obtain r s1 where "add_to_map E s e i = Some (r, s1)" "r \<in> {- 1, 0}" "base_ok K s1" "unmoved s s1"
    "bs_info s1 = (if r = - 1 then bs_info s else (bs_info s)(e \<mapsto> joined i))" using add_to_map_ok [OF assms(1,2,6,5)] by blast
  then show ?thesis using None assms(2,3) by (auto simp: event_add_def added_def numeral_2_eq_2 unmoved_def)
next
  case (Some t)
  let ?T = "flagged (bs_info s) EVLIST_TIMEOUT"
  have heap: "mh_queue K (timeheap s) ?T" using assms(1) by (simp add: base_ok_def queues_ok_def)
  note step = add_after_reserve [OF assms(1,2,4-8)]
  have eq: "event_add E s e (Some t) = event_add_internal (Suc (Suc 0)) E s e (Some t) False" using assms(2,3) by (simp add: event_add_def numeral_2_eq_2)
  show ?thesis
  proof (cases "EVLIST_TIMEOUT \<in> ev_flags i")
    case True
    show ?thesis unfolding Some option.case eq by (rule step [OF _ heap]) (use True in auto)
  next
    case False
    from mh_queue_reserve [OF heap assms(8), of "mm_alloc E"] show ?thesis
    proof (elim disjE exE conjE)
      fix h assume "min_heap_reserve (mm_alloc E) (timeheap s) (u32_of (1 + int (min_heap_size (timeheap s)))) = (0, h)" "mh_queue K h ?T"
        "card ?T < mh_a (mh_heap h)" "mh_ev h = mh_ev (timeheap s)"
      then show ?thesis unfolding Some option.case eq using False by (intro step [of h]) auto
    next
      assume "min_heap_reserve (mm_alloc E) (timeheap s) (u32_of (1 + int (min_heap_size (timeheap s)))) = (- 1, timeheap s)"
      then have "event_add_internal (Suc (Suc 0)) E s e (Some t) False = Some (- 1, s)" using False assms(2) by simp
      then show ?thesis unfolding Some option.case eq using assms(1) by blast
    qed
  qed
qed

end
