(* ===== verification/EventRun.thy ===== *)
theory EventRun
  imports EventAdd
begin

text \<open>
  Runs of an event base: its operations as steps, the invariant of the states they reach, and that the integrity check
  of the code, \<^verbatim>\<open>event_base_assert_ok\<close>, holds in all of them.
\<close>

section \<open>Well-typed events\<close>

definition typed_info :: "ev_info \<Rightarrow> bool" where
  "typed_info i \<longleftrightarrow> EVLIST_INIT \<in> ev_flags i \<and> fd_ok i \<and> (io_kind i \<longrightarrow> 0 \<le> ev_fd i \<and> EV_SIGNAL \<notin> ev_events i)
     \<and> (EVLIST_INSERTED \<in> ev_flags i \<longrightarrow> io_kind i \<or> EV_SIGNAL \<in> ev_events i)"

definition typed :: "'b event_base \<Rightarrow> bool" where
  "typed s \<longleftrightarrow> (\<forall>i \<in> ran (bs_info s). typed_info i)"

definition good :: "(nat \<Rightarrow> timeval) \<Rightarrow> 'b event_base \<Rightarrow> bool" where
  "good K s \<longleftrightarrow> base_ok K s \<and> typed s \<and> live s"

lemma typed_upd: "typed s \<Longrightarrow> bs_info s' = (bs_info s)(e \<mapsto> j) \<Longrightarrow> typed_info j \<Longrightarrow> typed s'"
  by (auto simp: typed_def ran_def)

lemma good_info:
  assumes "good K s" "bs_info s e = Some i"
  shows "base_ok K s" "typed_info i" "ev_base i" "\<not> stale s i"
  using assms by (auto simp: good_def typed_def live_def ran_def)

section \<open>The integrity check\<close>

lemma in_concat_nth: "x \<in> set (concat ls) \<longleftrightarrow> (\<exists>i < length ls. x \<in> set (ls ! i))"
  unfolding set_concat by (metis UN_iff in_set_conv_nth)

lemma distinct_concat_by:
  "(\<And>i. i < length ls \<Longrightarrow> distinct (ls ! i) \<and> (\<forall>x \<in> set (ls ! i). f x = k + i)) \<Longrightarrow> distinct (concat ls)"
proof (induction ls arbitrary: k)
  case (Cons l ls)
  have rest: "distinct (ls ! i) \<and> (\<forall>x \<in> set (ls ! i). f x = Suc k + i)" if "i < length ls" for i using Cons.prems [of "Suc i"] that by simp
  have "f x = k" if "x \<in> set l" for x using Cons.prems [of 0] that by simp
  moreover have "f x \<noteq> k" if x: "x \<in> set (concat ls)" for x
  proof -
    obtain i where "i < length ls" "x \<in> set (ls ! i)" using x unfolding in_concat_nth by blast
    then show ?thesis using rest [of i] by auto
  qed
  ultimately have "set l \<inter> set (concat ls) = {}" by blast
  then show ?case using Cons.IH [OF rest] Cons.prems [of 0] by simp
qed simp

lemma listed_by:
  assumes "\<And>n. n < length ls \<Longrightarrow> distinct (ls ! n) \<and> set (ls ! n) = {e \<in> M. info_has s e (\<lambda>i. P i \<and> ev_fd i = int n)}"
    "\<And>e. e \<in> M \<Longrightarrow> info_has s e (\<lambda>i. P i \<longrightarrow> 0 \<le> ev_fd i \<and> nat (ev_fd i) < length ls)"
  shows "listed_at s ls" "set (concat ls) = {e \<in> M. info_has s e P}"
proof -
  let ?f = "\<lambda>e. nat (case bs_info s e of None \<Rightarrow> 0 | Some i \<Rightarrow> ev_fd i)"
  have "distinct (concat ls)"
    using assms(1) by (intro distinct_concat_by [of ls ?f 0]) (auto simp: info_has_def split: option.splits)
  moreover have "info_has s ev (\<lambda>i. ev_fd i = int n)" if "(n, es) \<in> set (enumerate 0 ls)" "ev \<in> set es" for n es ev
  proof -
    have "n < length ls" "es = ls ! n" using that(1) by (auto simp: in_set_enumerate_eq)
    then show ?thesis using assms(1) [of n] that(2) by (auto simp: info_has_def split: option.splits)
  qed
  ultimately show "listed_at s ls" by (auto simp: listed_at_def)
  show "set (concat ls) = {e \<in> M. info_has s e P}"
  proof (intro equalityI subsetI)
    fix e assume "e \<in> set (concat ls)"
    then obtain n where "n < length ls" "e \<in> set (ls ! n)" unfolding in_concat_nth by blast
    then show "e \<in> {e \<in> M. info_has s e P}" using assms(1) by (auto simp: info_has_def split: option.splits)
  next
    fix e assume "e \<in> {e \<in> M. info_has s e P}"
    then obtain i where i: "e \<in> M" "bs_info s e = Some i" "P i" by (auto simp: info_has_def split: option.splits)
    then have "0 \<le> ev_fd i" "nat (ev_fd i) < length ls" using assms(2) [of e] by (auto simp: info_has_def)
    then have "e \<in> set (ls ! nat (ev_fd i))" using assms(1) [of "nat (ev_fd i)"] i by (simp add: info_has_def)
    then show "e \<in> set (concat ls)" using \<open>nat (ev_fd i) < length ls\<close> unfolding in_concat_nth by blast
  qed
qed

lemma io_lists_ok:
  assumes "io_ok s M" "M \<subseteq> dom (bs_info s)"
  shows "listed_at s (io_lists s)" "set (concat (io_lists s)) = {e \<in> M. info_has s e io_kind}"
proof -
  have len: "length (io_lists s) = length (bs_io s)" by (simp add: io_lists_def)
  have each: "distinct (io_lists s ! n) \<and> set (io_lists s ! n) = {e \<in> M. info_has s e (\<lambda>i. io_kind i \<and> ev_fd i = int n)}" if n: "n < length (io_lists s)" for n
  proof (cases "bs_io s ! n")
    case None
    have "\<not> (io_kind i \<and> ev_fd i = int n)" if "e \<in> M" "bs_info s e = Some i" for e i
    proof
      assume "io_kind i \<and> ev_fd i = int n"
      then have "bs_io s ! nat (ev_fd i) \<noteq> None" using assms(1) that unfolding io_ok_def by blast
      then show False using None \<open>io_kind i \<and> ev_fd i = int n\<close> by simp
    qed
    then show ?thesis using None n len by (auto simp: io_lists_def info_has_def split: option.splits)
  next
    case (Some ctx)
    then have "distinct (io_events ctx)" "set (io_events ctx) = on_fd (bs_info s) M {EV_READ, EV_WRITE} n"
      using assms(1) n len unfolding io_ok_def by metis+
    moreover have "on_fd (bs_info s) M {EV_READ, EV_WRITE} n = {e \<in> M. info_has s e (\<lambda>i. io_kind i \<and> ev_fd i = int n)}"
      by (auto simp: on_fd_def info_has_def split: option.splits)
    ultimately show ?thesis using Some n len by (simp add: io_lists_def)
  qed
  have fits: "info_has s e (\<lambda>i. io_kind i \<longrightarrow> 0 \<le> ev_fd i \<and> nat (ev_fd i) < length (io_lists s))" if e: "e \<in> M" for e
  proof -
    obtain i where i: "bs_info s e = Some i" using assms(2) e by blast
    then have "io_kind i \<longrightarrow> 0 \<le> ev_fd i \<and> nat (ev_fd i) < length (bs_io s)" using assms(1) e unfolding io_ok_def by blast
    then show ?thesis using i by (simp add: info_has_def len)
  qed
  show "listed_at s (io_lists s)" by (rule listed_by(1) [OF each fits])
  show "set (concat (io_lists s)) = {e \<in> M. info_has s e io_kind}" by (rule listed_by(2) [OF each fits])
qed

lemma sig_lists_ok:
  assumes "sig_ok s M" "M \<subseteq> dom (bs_info s)"
  shows "listed_at s (sig_lists s)" "set (concat (sig_lists s)) = {e \<in> M. info_has s e (\<lambda>i. \<not> io_kind i)}"
proof -
  have len: "length (sig_lists s) = length (bs_sigmap s)" by (simp add: sig_lists_def)
  have each: "distinct (sig_lists s ! n) \<and> set (sig_lists s ! n) = {e \<in> M. info_has s e (\<lambda>i. \<not> io_kind i \<and> ev_fd i = int n)}" if n: "n < length (sig_lists s)" for n
  proof (cases "bs_sigmap s ! n")
    case None
    have "\<not> (\<not> io_kind i \<and> ev_fd i = int n)" if "e \<in> M" "bs_info s e = Some i" for e i
    proof
      assume "\<not> io_kind i \<and> ev_fd i = int n"
      then have "bs_sigmap s ! nat (ev_fd i) \<noteq> None" using assms(1) that unfolding sig_ok_def by blast
      then show False using None \<open>\<not> io_kind i \<and> ev_fd i = int n\<close> by simp
    qed
    then show ?thesis using None n len by (auto simp: sig_lists_def info_has_def split: option.splits)
  next
    case (Some es)
    then have "distinct es" "set es = on_sig (bs_info s) M n"
      using assms(1) n len unfolding sig_ok_def by metis+
    moreover have "on_sig (bs_info s) M n = {e \<in> M. info_has s e (\<lambda>i. \<not> io_kind i \<and> ev_fd i = int n)}"
      by (auto simp: on_sig_def info_has_def split: option.splits)
    ultimately show ?thesis using Some n len by (simp add: sig_lists_def)
  qed
  have fits: "info_has s e (\<lambda>i. \<not> io_kind i \<longrightarrow> 0 \<le> ev_fd i \<and> nat (ev_fd i) < length (sig_lists s))" if e: "e \<in> M" for e
  proof -
    obtain i where i: "bs_info s e = Some i" using assms(2) e by blast
    then have "\<not> io_kind i \<longrightarrow> 0 \<le> ev_fd i \<and> nat (ev_fd i) < length (bs_sigmap s)" using assms(1) e unfolding sig_ok_def by blast
    then show ?thesis using i by (simp add: info_has_def len)
  qed
  show "listed_at s (sig_lists s)" by (rule listed_by(1) [OF each fits])
  show "set (concat (sig_lists s)) = {e \<in> M. info_has s e (\<lambda>i. \<not> io_kind i)}" by (rule listed_by(2) [OF each fits])
qed

lemma good_integrity:
  assumes "good K s"
  shows "evmap_check_integrity s"
proof -
  let ?M = "mapped (bs_info s)"
  have b: "inserted_ok s" "io_ok s ?M" "sig_ok s ?M" "?M \<subseteq> dom (bs_info s)"
    using assms unfolding good_def base_ok_def queues_ok_def maps_ok_def by blast+
  have t: "typed_info i" if "bs_info s e = Some i" for e i using assms that by (auto simp: good_def typed_def ran_def)
  have M: "?M = set (eventqueue s)" using b(1) t by (fastforce simp: mapped_def inserted_ok_def flagged_def typed_info_def)
  have ev: "\<exists>i. bs_info s e = Some i \<and> EVLIST_INSERTED \<in> ev_flags i" if "e \<in> set (eventqueue s)" for e
    using b(1) that by (auto simp: inserted_ok_def flagged_def)
  have io: "set (queued_with s {EV_READ, EV_WRITE}) = set (concat (io_lists s))"
    unfolding io_lists_ok(2) [OF b(2,4)] M by (auto simp: queued_with_def)
  have sig: "set (queued_with s {EV_SIGNAL}) = set (concat (sig_lists s))"
    unfolding sig_lists_ok(2) [OF b(3,4)] M using ev t by (fastforce simp: queued_with_def info_has_def typed_info_def)
  have d: "distinct (queued_with s w)" for w using b(1) by (simp add: queued_with_def inserted_ok_def)
  have l: "listed_at s (io_lists s)" "listed_at s (sig_lists s)" using io_lists_ok(1) [OF b(2,4)] sig_lists_ok(1) [OF b(3,4)] by simp_all
  then have "length (concat (io_lists s)) = length (queued_with s {EV_READ, EV_WRITE})" "length (concat (sig_lists s)) = length (queued_with s {EV_SIGNAL})"
    using d io sig by (metis distinct_card listed_at_def)+
  moreover have "\<forall>e \<in> set (eventqueue s). info_has s e (\<lambda>i. EVLIST_INSERTED \<in> ev_flags i \<and> EVLIST_INIT \<in> ev_flags i)"
    using ev t by (fastforce simp: info_has_def typed_info_def)
  ultimately show ?thesis using l io sig unfolding evmap_check_integrity_def by blast
qed

lemma good_heap_check:
  assumes "good K s" "0 < n" "n < mh_n (mh_heap (timeheap s))"
  shows "heap_check s n"
proof -
  obtain es where es: "mh_ok K (timeheap s) es" "set es = flagged (bs_info s) EVLIST_TIMEOUT"
    using assms(1) by (auto simp: good_def base_ok_def queues_ok_def mh_queue_def)
  have len: "n < length es" using assms(3) es(1) by (simp add: mh_ok_def full_def mh_base_def)
  then have plen: "par n < length es" using par_less [OF assms(2)] by simp
  obtain x where x: "mh_ev (timeheap s) (es ! n) = Some x" "min_heap_idx x = int n" using ev_ok [OF es(1) len] .
  obtain p where p: "mh_ev (timeheap s) (es ! par n) = Some p" using ev_ok [OF es(1) plen] by blast
  have "ev_timeout x = K (es ! n)" "ev_timeout p = K (es ! par n)" using x(1) p es(1) by (auto simp: mh_ok_def full_def mh_base_def)
  moreover have "K (es ! par n) \<le> K (es ! n)" using es(1) assms(2) len by (simp add: mh_ok_def heap_ord_def)
  ultimately have "evutil_timercmp (ev_timeout p) (ev_timeout x) (\<le>)" by (auto simp: evutil_timercmp_def less_eq_timeval_def)
  moreover have "info_has s (es ! n) (\<lambda>f. EVLIST_TIMEOUT \<in> ev_flags f)" using es(2) nth_mem [OF len] by (auto simp: flagged_def info_has_def)
  ultimately show ?thesis
    using elem_ok(2) [OF es(1) len] elem_ok(2) [OF es(1) plen] x p by (simp add: heap_check_def par_fold)
qed

lemma good_assert_ok: "good K s \<Longrightarrow> event_base_assert_ok s"
proof -
  assume g: "good K s"
  then have "common_timeout_queues s = []" by (simp add: good_def base_ok_def queues_ok_def)
  moreover have "heap_check s i" if "i \<in> set [1..<mh_n (mh_heap (timeheap s))]" for i using good_heap_check [OF g] that by simp
  ultimately show ?thesis using good_integrity [OF g] by (simp add: event_base_assert_ok_def)
qed

section \<open>Every operation keeps the invariant\<close>

text \<open>A working environment: clocks that give a time, a backend that can always forget, and that leaves the base alone.\<close>

definition env_ok :: "'b env \<Rightarrow> bool" where
  "env_ok E \<longleftrightarrow> sig_frame E \<and> dels_ok E \<and> (use_monotonic E \<longrightarrow> (\<forall>n. clock_monotonic E n \<noteq> None))"

lemma env_clock: "env_ok E \<Longrightarrow> \<exists>now. fst (gettime E s) = Some now"
proof -
  assume e: "env_ok E"
  show ?thesis
  proof (cases "use_monotonic E")
    case True
    then obtain sec nsec where "clock_monotonic E (bs_reads s) = Some (sec, nsec)" using e by (fastforce simp: env_ok_def)
    then show ?thesis by (simp add: gettime_def Let_def)
  qed (simp add: gettime_def Let_def)
qed

lemma typed_changes:
  assumes "typed_info i"
  shows "typed_info (added i tv)" "typed_info (idle i)" "fired i j \<Longrightarrow> typed_info j"
    "ev_flags j = insert EVLIST_ACTIVE (ev_flags i) \<Longrightarrow> ev_fd j = ev_fd i \<Longrightarrow> ev_events j = ev_events i \<Longrightarrow> typed_info j"
proof -
  have j: "typed_info (joined i)" using assms by (auto simp: typed_info_def joined_def joins_def fd_ok_def)
  then have "typed_info (with_flag EVLIST_TIMEOUT (dropped (if ev_closure i = EV_CLOSURE_PERSIST then (joined i)\<lparr>ev_io_timeout := t\<rparr> else joined i)))" for t
    by (auto simp: typed_info_def fd_ok_def)
  then show "typed_info (added i tv)" using j by (simp add: added_def split: option.split)
  show "typed_info (idle i)" "fired i j \<Longrightarrow> typed_info j"
    "ev_flags j = insert EVLIST_ACTIVE (ev_flags i) \<Longrightarrow> ev_fd j = ev_fd i \<Longrightarrow> ev_events j = ev_events i \<Longrightarrow> typed_info j"
    using assms by (auto simp: typed_info_def fd_ok_def fired_def)
qed

lemma live_frames:
  assumes "live s" "bs_frames s' = bs_frames s" "bs_info s' = (bs_info s)(e \<mapsto> j)" "bs_info s e = Some i" "ev_base j = ev_base i" "ev_events j = ev_events i"
    "ev_ncalls j = ev_ncalls i \<and> ev_pncalls j = ev_pncalls i \<or> ev_pncalls j = None"
  shows "live s'"
  using live_upd [OF assms(1,4,3) _ assms(5-7)] assms(2) by simp

lemma good_active:
  assumes "good K s" "bs_info s e = Some i"
  shows "\<exists>s' j. event_active_nolock E s e res n = Some s' \<and> good K s' \<and> bs_info s' = (bs_info s)(e \<mapsto> j) \<and> ev_events j = ev_events i"
proof -
  note g = good_info [OF assms]
  have q: "queues_ok K s" using g(1) by (simp add: base_ok_def)
  obtain s' j where s': "event_active_nolock E s e res n = Some s'" "queues_ok K s'" "same_rest s s'" "bs_info s' = (bs_info s)(e \<mapsto> j)"
    "ev_flags j = insert EVLIST_ACTIVE (ev_flags i)" "ev_fd j = ev_fd i" "ev_events j = ev_events i" "ev_base j = ev_base i"
    "ev_ncalls j = ev_ncalls i \<and> ev_pncalls j = ev_pncalls i \<or> ev_pncalls j = None" using event_active_ok [OF q assms(2), of E res n] by (elim exE conjE, intro that) assumption+
  have "base_ok K s'" by (rule base_ok_queues [OF g(1) s'(2,3) assms(2) s'(4,7,6)]) (use s'(5) in simp)
  moreover have "typed s'" by (rule typed_upd [OF _ s'(4) typed_changes(4) [OF g(2) s'(5-7)]]) (use assms(1) in \<open>simp add: good_def\<close>)
  moreover have "live s'"
    by (rule live_frames [OF _ same_rest_sels(4) [OF s'(3)] s'(4) assms(2) s'(8,7,9)]) (use assms(1) in \<open>simp add: good_def\<close>)
  ultimately show ?thesis using s'(1,4,7) by (auto simp: good_def)
qed

lemma good_active_all:
  assumes "good K s" "set es \<subseteq> dom (bs_info s)"
  shows "\<exists>s'. active_all E res n es s = Some s' \<and> good K s' \<and> dom (bs_info s') = dom (bs_info s)"
  using assms
proof (induction es arbitrary: s)
  case (Cons e es)
  obtain i where i: "bs_info s e = Some i" using Cons.prems(2) by auto
  obtain s1 where s1: "(if res i \<noteq> {} then event_active_nolock E s e (res i) n else Some s) = Some s1" "good K s1" "dom (bs_info s1) = dom (bs_info s)"
  proof (cases "res i = {}")
    case False
    obtain s1 j where "event_active_nolock E s e (res i) n = Some s1" "good K s1" "bs_info s1 = (bs_info s)(e \<mapsto> j)"
      using good_active [OF Cons.prems(1) i, of E "res i" n] by blast
    then show thesis using that [of s1] False i by auto
  qed (use that [of s] Cons.prems(1) in simp)
  then show ?case using Cons.IH [OF s1(2)] Cons.prems(2) i by (auto simp: Let_def)
qed simp

lemma good_add_result:
  assumes "good K s" "env_ok E" "bs_info s e = Some i" "int (card (flagged (bs_info s) EVLIST_TIMEOUT)) + 1 < 2 ^ 31 - 1" "fst (gettime E s) = Some now"
  shows "\<exists>r s'. event_add E s e tv = Some (r, s') \<and> (r = - 1 \<and> good K s' \<and> bs_info s' = bs_info s
    \<or> r = 0 \<and> good (case tv of None \<Rightarrow> K | Some t \<Rightarrow> K(e := evutil_timeradd now t)) s' \<and> bs_info s' = (bs_info s)(e \<mapsto> added i tv))"
proof -
  note g = good_info [OF assms(1,3)]
  have fd: "fd_ok i" "sig_frame E" using g(2) assms(2) by (simp_all add: typed_info_def env_ok_def)
  have calls: "ev_ncalls (added i tv) = ev_ncalls i" "ev_pncalls (added i tv) = ev_pncalls i" "ev_base (added i tv) = ev_base i" "ev_events (added i tv) = ev_events i"
    by (auto simp: added_def split: option.splits)
  have l: "live s" "typed s" using assms(1) by (simp_all add: good_def)
  obtain r s' where s': "event_add E s e tv = Some (r, s')" "dom (bs_frames s') = dom (bs_frames s)" "r = - 1 \<and> base_ok K s' \<and> bs_info s' = bs_info s
    \<or> r = 0 \<and> base_ok (case tv of None \<Rightarrow> K | Some t \<Rightarrow> K(e := evutil_timeradd now t)) s' \<and> bs_info s' = (bs_info s)(e \<mapsto> added i tv)"
    using event_add_ok [OF g(1) assms(3) g(3,4) fd assms(5,4), of tv] by blast
  from s'(3) show ?thesis
  proof (elim disjE conjE)
    assume a: "r = - 1" "base_ok K s'" "bs_info s' = bs_info s"
    then have same: "bs_info s' = (bs_info s)(e \<mapsto> i)" using assms(3) by (simp add: fun_upd_idem)
    have "live s'" by (rule live_upd [OF l(1) assms(3) same s'(2)]) simp_all
    moreover have "typed s'" by (rule typed_upd [OF l(2) same g(2)])
    ultimately have "good K s'" using a(2) by (simp add: good_def)
    then show ?thesis using a(1,3) s'(1) by blast
  next
    assume a: "r = 0" "base_ok (case tv of None \<Rightarrow> K | Some t \<Rightarrow> K(e := evutil_timeradd now t)) s'" "bs_info s' = (bs_info s)(e \<mapsto> added i tv)"
    have "live s'" by (rule live_upd [OF l(1) assms(3) a(3) s'(2)]) (simp_all add: calls)
    moreover have "typed s'" by (rule typed_upd [OF l(2) a(3) typed_changes(1) [OF g(2)]])
    ultimately have "good (case tv of None \<Rightarrow> K | Some t \<Rightarrow> K(e := evutil_timeradd now t)) s'" using a(2) by (simp add: good_def)
    then show ?thesis using a(1,3) s'(1) by blast
  qed
qed

lemma good_add:
  assumes "good K s" "env_ok E" "bs_info s e = Some i" "int (card (flagged (bs_info s) EVLIST_TIMEOUT)) + 1 < 2 ^ 31 - 1"
  shows "\<exists>K' r s'. event_add E s e tv = Some (r, s') \<and> good K' s'"
  using env_clock [OF assms(2), of s] good_add_result [OF assms, of _ tv] by blast

lemma good_del:
  assumes "good K s" "env_ok E" "bs_info s e = Some i"
  shows "\<exists>s'. event_del E s e = Some (0, s') \<and> good K s' \<and> bs_info s' = (bs_info s)(e \<mapsto> idle i) \<and> activequeues s' = map (filter (\<lambda>x. x \<noteq> e)) (activequeues s)"
proof -
  note g = good_info [OF assms(1,3)]
  have l: "live s" "typed s" using assms(1) by (simp_all add: good_def)
  have E: "sig_frame E" "dels_ok E" using assms(2) by (simp_all add: env_ok_def)
  obtain r s' where s': "event_del_internal E s e = Some (r, s')" "r \<in> {- 1, 0}" "queues_ok K s'" "unmoved s s'" "bs_info s' = (bs_info s)(e \<mapsto> idle i)"
    "maps_ok s' (if r = - 1 then mapped (bs_info s) else mapped (bs_info s) - {e})" "r = - 1 \<longrightarrow> \<not> dels_ok E"
    "activequeues s' = map (filter (\<lambda>x. x \<noteq> e)) (activequeues s)" using event_del_ok [OF g(1) assms(3) g(3,4) E(1)] by blast
  have r: "r = 0" using s'(2,7) E(2) by auto
  have "mapped (bs_info s') = mapped (bs_info s) - {e}" unfolding s'(5) using mapped_set [of "bs_info s", OF assms(3), of "idle i"] by simp
  then have "base_ok K s'" using s'(3,6) r by (simp add: base_ok_def)
  moreover have "live s'" by (rule live_upd [OF l(1) assms(3) s'(5)]) (use s'(4) in \<open>auto simp: unmoved_def idle_def\<close>)
  moreover have "typed s'" by (rule typed_upd [OF l(2) s'(5) typed_changes(2) [OF g(2)]])
  ultimately show ?thesis using s'(1,5,8) r assms(3) g(3) by (auto simp: good_def event_del_def)
qed

lemma good_size:
  assumes "good K s"
  shows "card (flagged (bs_info s) EVLIST_TIMEOUT) = min_heap_size (timeheap s)"
proof -
  obtain es where es: "mh_ok K (timeheap s) es" "set es = flagged (bs_info s) EVLIST_TIMEOUT"
    using assms by (auto simp: good_def base_ok_def queues_ok_def mh_queue_def)
  then show ?thesis using distinct_card [OF mh_ok_distinct [OF es(1)]]
    by (simp add: min_heap_size_def mh_ok_def full_def mh_base_def)
qed

lemma good_timeouts:
  assumes "good K s" "env_ok E" "fst (gettime E s) = Some now"
  shows "\<exists>es s'. timeout_process E s = Some s' \<and> good K s' \<and> fired_all K s (due K s now) es s'"
proof (cases "min_heap_empty (timeheap s)")
  case True
  have "finite (flagged (bs_info s) EVLIST_TIMEOUT)" using assms(1) queues_finite(1) [of K s EVLIST_TIMEOUT] by (simp add: good_def base_ok_def)
  then have "due K s now = {}" using True good_size [OF assms(1)] by (auto simp: due_def min_heap_size_def min_heap_empty_def)
  then have "fired_all K s (due K s now) [] s" by (simp add: fired_all_def)
  then show ?thesis using True assms(1) by (auto simp: timeout_process_def)
next
  case False
  obtain n d l where gt: "gettime E s = (Some now, s\<lparr>bs_reads := n, tv_clock_diff := d, last_updated_clock_diff := l\<rparr>)"
    using assms(3) gettime_frame [of E s] by (metis prod.collapse)
  let ?s = "s\<lparr>bs_reads := n, tv_clock_diff := d, last_updated_clock_diff := l\<rparr>"
  have g: "base_ok K s" "typed s" "live s" using assms(1) by (simp_all add: good_def)
  have "queues_ok K ?s" by (rule queues_ok_cong [OF base_ok_queues_ok [OF g(1)]]) simp_all
  moreover have "maps_ok ?s M = maps_ok s M" for M by (simp add: maps_ok_def io_ok_def sig_ok_def)
  ultimately have b: "base_ok K ?s" using g(1) by (simp add: base_ok_def)
  have lv: "live ?s" using g(3) by (simp add: live_def stale_def)
  have E: "sig_frame E" "dels_ok E" using assms(2) by (simp_all add: env_ok_def)
  have "due K ?s now = due K s now" "fired_all K ?s D es s' = fired_all K s D es s'" for D es s' by (simp_all add: due_def fired_all_def)
  then obtain es s' where s': "timeout_loop E now ?s = Some s'" "fired_all K s (due K s now) es s'" "base_ok K s'" "live s'"
    using timeout_loop_ok [OF E b lv refl] by metis
  have "typed_info j" if j: "bs_info s' e = Some j" for e j
  proof (cases "e \<in> due K s now")
    case True
    then obtain i where "bs_info s e = Some i" "fired i j" using s'(2) j unfolding fired_all_def by fastforce
    then show ?thesis using g(2) typed_changes(3) by (auto simp: typed_def ran_def)
  next
    case False
    then show ?thesis using s'(2) j g(2) by (auto simp: fired_all_def typed_def ran_def)
  qed
  then have "typed s'" by (auto simp: typed_def ran_def)
  then show ?thesis using s' gt False by (auto simp: good_def timeout_process_def)
qed

section \<open>Creating and freeing events\<close>

lemma queues_ok_outside:
  assumes "queues_ok K s" "\<And>i. bs_info s e = Some i \<Longrightarrow> ev_flags i \<inter> {EVLIST_TIMEOUT, EVLIST_INSERTED, EVLIST_ACTIVE} = {}"
    "\<And>j. x = Some j \<Longrightarrow> ev_flags j \<inter> {EVLIST_TIMEOUT, EVLIST_INSERTED, EVLIST_ACTIVE} = {} \<and> ev_pri j < length (activequeues s)"
    "\<And>ev. y = Some ev \<Longrightarrow> ev_timeout ev = t \<and> min_heap_idx ev = - 1" "x = None \<longleftrightarrow> y = None"
  shows "queues_ok (K(e := t)) (s\<lparr>timeheap := (timeheap s)\<lparr>mh_ev := (mh_ev (timeheap s))(e := y)\<rparr>, bs_info := (bs_info s)(e := x)\<rparr>)"
    (is "queues_ok ?K ?s")
proof -
  have no: "q \<notin> ev_flags i" if "bs_info s e = Some i \<or> x = Some i" "q \<in> {EVLIST_TIMEOUT, EVLIST_INSERTED, EVLIST_ACTIVE}" for q i
    using that assms(2,3) by blast
  have f: "flagged ((bs_info s)(e := x)) q = flagged (bs_info s) q" "user_flagged ((bs_info s)(e := x)) q = user_flagged (bs_info s) q"
    if q: "q \<in> {EVLIST_TIMEOUT, EVLIST_INSERTED, EVLIST_ACTIVE}" for q
    unfolding flagged_def user_flagged_def by (rule Collect_cong, use no [OF _ q] in auto)+
  have a: "active_at ((bs_info s)(e := x)) p = active_at (bs_info s) p" for p
    unfolding active_at_def using no [of _ EVLIST_ACTIVE] by (intro Collect_cong) auto
  have q: "common_timeout_queues s = []" "dom (bs_info s) = dom (mh_ev (timeheap s))" "mh_queue K (timeheap s) (flagged (bs_info s) EVLIST_TIMEOUT)"
    "inserted_ok s" "active_ok s" "counts_ok s" using assms(1) by (simp_all add: queues_ok_def)
  have "e \<notin> flagged (bs_info s) EVLIST_TIMEOUT" using assms(2) by (auto simp: flagged_def)
  then have "mh_queue ?K (timeheap ?s) (flagged (bs_info ?s) EVLIST_TIMEOUT)"
    using mh_queue_outside [OF q(3) _ assms(4)] f(1) [of EVLIST_TIMEOUT] by simp
  moreover have "\<forall>i \<in> ran ((bs_info s)(e := x)). ev_pri i < length (activequeues s)"
    using q(5) assms(3) by (auto simp: active_ok_def ran_def split: if_splits)
  then have "active_ok ?s" using q(5) a by (simp add: active_ok_def)
  moreover have "dom (bs_info ?s) = dom (mh_ev (timeheap ?s))" using q(2) assms(5) by (auto simp: dom_def set_eq_iff)
  ultimately show ?thesis using q(1,4,6) f by (simp add: queues_ok_def inserted_ok_def counts_ok_def)
qed

lemma good_outside:
  assumes "good K s" "\<And>i. bs_info s e = Some i \<Longrightarrow> ev_flags i \<inter> {EVLIST_TIMEOUT, EVLIST_INSERTED, EVLIST_ACTIVE} = {}"
    "\<And>j. x = Some j \<Longrightarrow> ev_flags j \<inter> {EVLIST_TIMEOUT, EVLIST_INSERTED, EVLIST_ACTIVE} = {} \<and> ev_pri j < length (activequeues s)
       \<and> typed_info j \<and> ev_base j \<and> ev_ncalls j = 0"
    "\<And>ev. y = Some ev \<Longrightarrow> ev_timeout ev = t \<and> min_heap_idx ev = - 1" "x = None \<longleftrightarrow> y = None"
  shows "good (K(e := t)) (s\<lparr>timeheap := (timeheap s)\<lparr>mh_ev := (mh_ev (timeheap s))(e := y)\<rparr>, bs_info := (bs_info s)(e := x)\<rparr>)"
    (is "good ?K ?s")
proof -
  let ?M = "mapped (bs_info s)"
  have g: "queues_ok K s" "maps_ok s ?M" "typed s" "live s" using assms(1) by (simp_all add: good_def base_ok_def)
  have "queues_ok ?K ?s" by (rule queues_ok_outside [OF g(1) assms(2) _ assms(4,5)]) (use assms(3) in auto)
  moreover have out: "e \<notin> ?M" using assms(2) by (auto simp: mapped_def)
  have "EVLIST_INSERTED \<notin> ev_flags i" if "bs_info s e = Some i \<or> x = Some i" for i using that assms(2,3) by blast
  then have M: "mapped (bs_info ?s) = ?M" unfolding mapped_def by (intro Collect_cong) auto
  have "on_fd ((bs_info s)(e := x)) ?M what n = on_fd (bs_info s) ?M what n" "on_sig ((bs_info s)(e := x)) ?M n = on_sig (bs_info s) ?M n" for what n
    using out unfolding on_fd_def on_sig_def by (intro Collect_cong; force)+
  then have "maps_ok ?s ?M" using g(2) out unfolding maps_ok_def io_ok_def sig_ok_def by (simp add: subset_iff dom_def)
  ultimately have "base_ok ?K ?s" using M by (simp add: base_ok_def)
  moreover have "typed ?s" using g(3) assms(3) by (auto simp: typed_def ran_def split: if_splits)
  moreover have "live ?s" using g(4) assms(3) by (auto simp: live_def stale_def ran_def split: if_splits)
  ultimately show ?thesis by (simp add: good_def)
qed

text \<open>\<^verbatim>\<open>event_new\<close>: an event that asks for a signal and for a descriptor at once is refused and its memory released.\<close>

definition new_info :: "'b event_base \<Rightarrow> ev_info \<Rightarrow> int \<Rightarrow> ev_what set \<Rightarrow> ev_info" where
  "new_info s i fd events =
     (let i = i\<lparr>ev_base := True, ev_callback := User_cb, ev_fd := fd, ev_events := events, ev_res := {}, ev_flags := {EVLIST_INIT},
            ev_ncalls := 0, ev_pncalls := None\<rparr>;
          i = (if EV_SIGNAL \<in> events then i\<lparr>ev_closure := EV_CLOSURE_SIGNAL\<rparr>
               else if EV_PERSIST \<in> events then i\<lparr>ev_io_timeout := Timeval 0 0, ev_closure := EV_CLOSURE_PERSIST\<rparr>
               else i\<lparr>ev_closure := EV_CLOSURE_NONE\<rparr>)
      in i\<lparr>ev_pri := length (activequeues s) div 2\<rparr>)"

lemma new_info_sels: "ev_flags (new_info s i fd ev) = {EVLIST_INIT}" "ev_pri (new_info s i fd ev) = length (activequeues s) div 2"
  "ev_base (new_info s i fd ev)" "ev_ncalls (new_info s i fd ev) = 0" "ev_fd (new_info s i fd ev) = fd" "ev_events (new_info s i fd ev) = ev"
  by (simp_all add: new_info_def Let_def)

lemma event_new_eq:
  assumes "bs_info s a = None" "mh_ev (timeheap s) a = None" "mm_alloc E 136"
  shows "event_new E s a junk fd events User_cb =
    (if EV_SIGNAL \<in> events \<and> events \<inter> {EV_READ, EV_WRITE} \<noteq> {} then Some (None, s)
     else Some (Some a, s\<lparr>timeheap := (timeheap s)\<lparr>mh_ev := (mh_ev (timeheap s))(a \<mapsto> (fst junk)\<lparr>min_heap_idx := - 1\<rparr>)\<rparr>,
            bs_info := (bs_info s)(a \<mapsto> new_info s (snd junk) fd events)\<rparr>))"
proof -
  have "(bs_info s)(a := None) = bs_info s" "(mh_ev (timeheap s))(a := None) = mh_ev (timeheap s)" using assms(1,2) by (simp_all add: fun_upd_idem)
  moreover have "s\<lparr>bs_info := p, timeheap := q\<rparr> = s\<lparr>timeheap := q, bs_info := p\<rparr>" for p q by simp
  ultimately show ?thesis using assms(3)
    by (simp add: event_new_def event_assign_def info_upd_def new_event_def free_event_def min_heap_elem_init_def set_idx_def new_info_def Let_def)
qed

lemma good_new:
  assumes "good K s" "bs_info s a = None" "fd < 2 ^ 27" "events \<inter> {EV_READ, EV_WRITE, EV_SIGNAL} \<noteq> {} \<longrightarrow> 0 \<le> fd"
  shows "\<exists>K' r s'. event_new E s a junk fd events User_cb = Some (r, s') \<and> good K' s' \<and> (r = None \<longrightarrow> s' = s)"
proof (cases "mm_alloc E 136 \<and> \<not> (EV_SIGNAL \<in> events \<and> events \<inter> {EV_READ, EV_WRITE} \<noteq> {})")
  case False
  have "mh_ev (timeheap s) a = None" using assms(1,2) by (auto simp: good_def base_ok_def queues_ok_def)
  then have "event_new E s a junk fd events User_cb = Some (None, s)"
    using False event_new_eq [OF assms(2), of E junk fd events] by (cases "mm_alloc E 136") (auto simp: event_new_def)
  then show ?thesis using assms(1) by blast
next
  case True
  let ?i = "new_info s (snd junk) fd events" and ?ev = "(fst junk)\<lparr>min_heap_idx := - 1\<rparr>"
  have n: "mh_ev (timeheap s) a = None" using assms(1,2) by (auto simp: good_def base_ok_def queues_ok_def)
  have ne: "activequeues s \<noteq> []" using assms(1) by (simp add: good_def base_ok_def queues_ok_def active_ok_def)
  have t: "typed_info ?i" using True assms(3,4) by (auto simp: typed_info_def fd_ok_def new_info_sels)
  have "good (K(a := ev_timeout (fst junk)))
      (s\<lparr>timeheap := (timeheap s)\<lparr>mh_ev := (mh_ev (timeheap s))(a := Some ?ev)\<rparr>, bs_info := (bs_info s)(a := Some ?i)\<rparr>)"
    by (rule good_outside [OF assms(1)]) (use assms(2) t ne in \<open>auto simp: new_info_sels\<close>)
  moreover have "event_new E s a junk fd events User_cb = Some (Some a,
      s\<lparr>timeheap := (timeheap s)\<lparr>mh_ev := (mh_ev (timeheap s))(a := Some ?ev)\<rparr>, bs_info := (bs_info s)(a := Some ?i)\<rparr>)"
    using event_new_eq [OF assms(2) n] True by auto
  ultimately show ?thesis by blast
qed

lemma good_free:
  assumes "good K s" "env_ok E" "bs_info s e = Some i"
  shows "\<exists>s'. event_free E s e = Some s' \<and> good K s' \<and> bs_info s' = (bs_info s)(e := None)"
proof -
  obtain s1 where s1: "event_del E s e = Some (0, s1)" "good K s1" "bs_info s1 = (bs_info s)(e \<mapsto> idle i)" using good_del [OF assms] by blast
  have "good (K(e := K e)) (s1\<lparr>timeheap := (timeheap s1)\<lparr>mh_ev := (mh_ev (timeheap s1))(e := None)\<rparr>, bs_info := (bs_info s1)(e := None)\<rparr>)"
    by (rule good_outside [OF s1(2)]) (use s1(3) in auto)
  then have "good K (free_event s1 e)" by (simp add: free_event_def)
  then show ?thesis using s1(1,3) by (auto simp: event_free_def free_event_def)
qed

section \<open>Runs\<close>

text \<open>The operations of the user and of the loop, in any order. New events are made at free addresses, on descriptors of a
  reasonable size.\<close>

inductive base_step :: "'b env \<Rightarrow> 'b event_base \<Rightarrow> 'b event_base \<Rightarrow> bool" for E where
  new: "bs_info s a = None \<Longrightarrow> fd < 2 ^ 27 \<Longrightarrow> events \<inter> {EV_READ, EV_WRITE, EV_SIGNAL} \<noteq> {} \<longrightarrow> 0 \<le> fd \<Longrightarrow>
    event_new E s a junk fd events User_cb = Some (r, s') \<Longrightarrow> base_step E s s'"
| add: "int (min_heap_size (timeheap s)) + 1 < 2 ^ 31 - 1 \<Longrightarrow> event_add E s e tv = Some (r, s') \<Longrightarrow> base_step E s s'"
| del: "event_del E s e = Some (r, s') \<Longrightarrow> base_step E s s'"
| free: "event_free E s e = Some s' \<Longrightarrow> base_step E s s'"
| active: "event_active E s e res n = Some s' \<Longrightarrow> base_step E s s'"
| io_active: "evmap_io_active E s fd res = Some s' \<Longrightarrow> base_step E s s'"
| signal_active: "evmap_signal_active E s g n = Some s' \<Longrightarrow> base_step E s s'"
| timeouts: "timeout_process E s = Some s' \<Longrightarrow> base_step E s s'"

inductive_cases base_stepE: "base_step E s s'"

inductive base_run :: "'b env \<Rightarrow> bool \<Rightarrow> 'b \<Rightarrow> 'b event_base \<Rightarrow> bool" for E nc b where
  start: "base_run E nc b (event_base_new E nc b)"
| step: "base_run E nc b s \<Longrightarrow> base_step E s s' \<Longrightarrow> base_run E nc b s'"

lemma good_start: "\<exists>K. good K (event_base_new E nc b)"
proof -
  let ?s = "event_base_new E nc b"
  have "bs_info ?s = (\<lambda>e. None) \<and> timeheap ?s = \<lparr>mh_heap = min_heap_ctor, mh_ev = (\<lambda>e. None)\<rparr> \<and> eventqueue ?s = [] \<and> activequeues ?s = [[]]
      \<and> common_timeout_queues ?s = [] \<and> event_count ?s = 0 \<and> event_count_active ?s = 0 \<and> bs_io ?s = [] \<and> bs_sigmap ?s = []"
    by (auto simp: event_base_new_def gettime_def Let_def split: option.splits prod.splits)
  moreover have "mh_ok K \<lparr>mh_heap = min_heap_ctor, mh_ev = (\<lambda>e. None)\<rparr> []" for K
    by (simp add: mh_ok_def full_def mh_base_def heap_ord_def min_heap_ctor_def)
  ultimately have "good (\<lambda>e. Timeval 0 0) ?s"
    by (auto simp: good_def base_ok_def queues_ok_def mh_queue_def flagged_def user_flagged_def inserted_ok_def active_ok_def counts_ok_def active_at_def
        maps_ok_def mapped_def io_ok_def sig_ok_def typed_def live_def)
  then show ?thesis by blast
qed

lemma good_add_E:
  assumes "good K s" "env_ok E" "event_add E s e tv = Some (r, s')" "int (min_heap_size (timeheap s)) + 1 < 2 ^ 31 - 1"
  shows "\<exists>K. good K s'"
proof -
  have room: "int (card (flagged (bs_info s) EVLIST_TIMEOUT)) + 1 < 2 ^ 31 - 1" using assms(4) good_size [OF assms(1)] by simp
  obtain i where i: "bs_info s e = Some i" using assms(3) by (auto simp: event_add_def bind_eq_Some_conv)
  show ?thesis using good_add [OF assms(1,2) i room, of tv] assms(3) by auto
qed

lemma listed_dom:
  assumes "good K s"
  shows "peek (bs_io s) n = Some (Some ctx) \<Longrightarrow> set (io_events ctx) \<subseteq> dom (bs_info s)"
    "peek (bs_sigmap s) n = Some (Some es) \<Longrightarrow> set es \<subseteq> dom (bs_info s)"
proof -
  have m: "io_ok s (mapped (bs_info s))" "sig_ok s (mapped (bs_info s))" using assms by (simp_all add: good_def base_ok_def maps_ok_def)
  show "peek (bs_io s) n = Some (Some ctx) \<Longrightarrow> set (io_events ctx) \<subseteq> dom (bs_info s)"
    using m(1) by (auto simp: io_ok_def peek_def on_fd_def split: if_splits)
  show "peek (bs_sigmap s) n = Some (Some es) \<Longrightarrow> set es \<subseteq> dom (bs_info s)"
    using m(2) by (auto simp: sig_ok_def peek_def on_sig_def split: if_splits)
qed

lemma good_step:
  assumes "base_step E s s'" "good K s" "env_ok E"
  shows "\<exists>K. good K s'"
  using assms(1)
proof cases
  case (new a fd events junk r)
  then show ?thesis using good_new [OF assms(2) new(1-3), of E junk] by auto
next
  case (add e tv r)
  then show ?thesis using good_add_E [OF assms(2,3)] by blast
next
  case (del e r)
  then obtain i where "bs_info s e = Some i" by (auto simp: event_del_def bind_eq_Some_conv)
  then show ?thesis using good_del [OF assms(2,3)] del by fastforce
next
  case (free e)
  then obtain i where "bs_info s e = Some i" by (auto simp: event_free_def event_del_def bind_eq_Some_conv)
  then show ?thesis using good_free [OF assms(2,3)] free by fastforce
next
  case (active e res n)
  then obtain i where i: "bs_info s e = Some i" by (auto simp: event_active_def bind_eq_Some_conv)
  then show ?thesis using good_active [OF assms(2) i, of E res n] good_info(3) [OF assms(2) i] active by (auto simp: event_active_def)
next
  case (io_active fd res)
  then obtain ctx where "peek (bs_io s) (nat fd) = Some (Some ctx)" "active_all E (\<lambda>i. ev_events i \<inter> res) 1 (io_events ctx) s = Some s'"
    by (auto simp: evmap_io_active_def bind_eq_Some_conv split: if_splits)
  then show ?thesis using good_active_all [OF assms(2) listed_dom(1) [OF assms(2)], of "nat fd" ctx E] by (metis option.inject)
next
  case (signal_active g n)
  then obtain es where "peek (bs_sigmap s) (nat g) = Some (Some es)" "active_all E (\<lambda>i. {EV_SIGNAL}) n es s = Some s'"
    by (auto simp: evmap_signal_active_def bind_eq_Some_conv split: if_splits)
  then show ?thesis using good_active_all [OF assms(2) listed_dom(2) [OF assms(2)], of "nat g" es E] by (metis option.inject)
next
  case timeouts
  then show ?thesis using env_clock [OF assms(3), of s] good_timeouts [OF assms(2,3)] by fastforce
qed

lemma good_run: "base_run E nc b s \<Longrightarrow> env_ok E \<Longrightarrow> \<exists>K. good K s"
proof (induction rule: base_run.induct)
  case start
  show ?case by (rule good_start)
next
  case (step s s')
  then show ?case using good_step by blast
qed

end
