(* ===== verification/EventCore.thy ===== *)
theory EventCore
  imports EventRun
begin

text \<open>
  What the event base promises: the theorems on runs, on adding, deleting and firing events, and the cases in which the
  code breaks its promises.
\<close>

section \<open>The times of the events\<close>

definition time_at :: "'b event_base \<Rightarrow> nat \<Rightarrow> timeval" where
  "time_at s e = (case mh_ev (timeheap s) e of None \<Rightarrow> Timeval 0 0 | Some ev \<Rightarrow> ev_timeout ev)"

lemma good_time: "good K s \<Longrightarrow> bs_info s e = Some i \<Longrightarrow> time_at s e = K e"
  using queue_timeout(1) [of K s e i] by (auto simp: good_def base_ok_def time_at_def timeout_of_def split: option.splits)

lemma due_time_at:
  assumes "good K s"
  shows "due K s now = due (time_at s) s now"
proof -
  have "time_at s e = K e" if "e \<in> flagged (bs_info s) EVLIST_TIMEOUT" for e
    using that good_time [OF assms] by (auto simp: flagged_def)
  then show ?thesis by (auto simp: due_def)
qed

lemma good_heap:
  assumes "good K s"
  shows "\<exists>es. heap_events s = Some es \<and> distinct es \<and> set es = flagged (bs_info s) EVLIST_TIMEOUT"
proof -
  obtain es where es: "mh_ok K (timeheap s) es" "set es = flagged (bs_info s) EVLIST_TIMEOUT"
    using assms by (auto simp: good_def base_ok_def queues_ok_def mh_queue_def)
  have n: "mh_n (mh_heap (timeheap s)) = length es" using es(1) by (simp add: mh_ok_def full_def mh_base_def)
  have "map (elem (timeheap s)) [0..<length es] = map Some es"
    by (rule nth_equalityI) (simp_all add: elem_ok [OF es(1)])
  then have "heap_events s = those (map Some es)" by (simp add: heap_events_def n)
  moreover have "those (map Some es) = Some es" by (induction es) auto
  ultimately show ?thesis using es mh_ok_distinct [OF es(1)] by simp
qed

section \<open>A concrete environment\<close>

text \<open>A backend that accepts everything and a wall clock that goes on by a second at each reading; a run on it.\<close>

definition plain_env :: "unit env" where
  "plain_env = \<lparr>mm_alloc = (\<lambda>n. True), evsel_fdinfo_len = 0, evsel_add = (\<lambda>b fd old ev. (0, b)), evsel_del = (\<lambda>b fd old ev. (0, b)),
     evsigsel_fdinfo_len = 0, evsigsel_add = (\<lambda>s g. (0, s)), evsigsel_del = (\<lambda>s g. (0, s)), use_monotonic = False,
     clock_monotonic = (\<lambda>n. None), clock_wall = (\<lambda>n. Timeval (100 + int n) 0)\<rparr>"

lemma plain_env_ok: "env_ok plain_env"
  by (auto simp: env_ok_def sig_frame_def dels_ok_def plain_env_def intro: exI [of _ "()"])

definition new_at :: "nat \<Rightarrow> int \<Rightarrow> ev_what set \<Rightarrow> 'b env \<Rightarrow> 'b event_base \<Rightarrow> 'b event_base" where
  "new_at e fd what E s = snd (the (event_new E s e zero_event fd what User_cb))"

definition add_in :: "nat \<Rightarrow> timeval option \<Rightarrow> 'b env \<Rightarrow> 'b event_base \<Rightarrow> 'b event_base" where
  "add_in e tv E s = snd (the (event_add E s e tv))"

lemma base_run_new:
  assumes "base_run E nc b s" "bs_info s e = None" "event_new E s e zero_event fd what User_cb \<noteq> None" "fd < 2 ^ 27"
    "what \<inter> {EV_READ, EV_WRITE, EV_SIGNAL} \<noteq> {} \<longrightarrow> 0 \<le> fd"
  shows "base_run E nc b (new_at e fd what E s)"
proof -
  obtain r s' where "event_new E s e zero_event fd what User_cb = Some (r, s')" using assms(3) by auto
  then show ?thesis using base_run.step [OF assms(1) base_step.new [OF assms(2,4,5)]] by (simp add: new_at_def)
qed

lemma base_run_add:
  assumes "base_run E nc b s" "event_add E s e tv \<noteq> None" "int (min_heap_size (timeheap s)) + 1 < 2 ^ 31 - 1"
  shows "base_run E nc b (add_in e tv E s)"
proof -
  obtain r s' where "event_add E s e tv = Some (r, s')" using assms(2) by auto
  then show ?thesis using base_run.step [OF assms(1) base_step.add [OF assms(3)]] by (simp add: add_in_def)
qed

text \<open>Three events: one waits for 5 seconds, one for the descriptor 7 or 2 seconds, one has a persistent timeout.\<close>

definition three :: "unit event_base" where
  "three = new_at 3 (- 1) {EV_PERSIST} plain_env (new_at 2 7 {EV_READ, EV_PERSIST} plain_env
     (new_at 1 (- 1) {} plain_env (event_base_new plain_env False ())))"

definition waiting :: "unit event_base" where
  "waiting = add_in 3 (Some (Timeval 1 500000)) plain_env (add_in 2 (Some (Timeval 2 0)) plain_env (add_in 1 (Some (Timeval 5 0)) plain_env three))"

lemma three_run: "base_run plain_env False () three"
  unfolding three_def
  by (intro base_run_new base_run.start) (code_simp+)

lemma waiting_run: "base_run plain_env False () waiting"
  unfolding waiting_def
  by (intro base_run_add three_run) (code_simp+)

section \<open>Runs\<close>





section \<open>Adding, deleting and firing\<close>





text \<open>C10: \<^verbatim>\<open>timeout_process\<close> ends, and it makes active just the events whose time has come, in the order of their times: each
  goes to the end of the queue of its priority with the result \<^verbatim>\<open>EV_TIMEOUT\<close>, once, also if it was active before, and it waits
  for nothing any more; the others are not touched.\<close>

theorem timeout_process_exact:
  assumes "base_run E nc b s" "env_ok E" "fst (gettime E s) = Some now"
  shows "\<exists>es s'. timeout_process E s = Some s' \<and> fired_all (time_at s) s (due (time_at s) s now) es s' \<and> event_base_assert_ok s'"
proof -
  obtain K where K: "good K s" using good_run [OF assms(1,2)] by blast
  obtain es s' where s': "timeout_process E s = Some s'" "good K s'" "fired_all K s (due K s now) es s'"
    using good_timeouts [OF K assms(2,3)] by blast
  have "time_at s e = K e" if "e \<in> set es" for e
    using that s'(3) good_time [OF K] by (fastforce simp: fired_all_def due_def flagged_def)
  then have "map (time_at s) es = map K es" by simp
  then have "fired_all (time_at s) s (due K s now) es s'" using s'(3) unfolding fired_all_def by metis
  then show ?thesis using s'(1) good_assert_ok [OF s'(2)] due_time_at [OF K] by auto
qed

theorem timeout_process_exact_witness:
  "\<exists>es s'. timeout_process plain_env waiting = Some s' \<and> fired_all (time_at waiting) waiting (due (time_at waiting) waiting (Timeval 104 0)) es s'
     \<and> 2 \<in> set es \<and> 1 \<notin> set es"
proof -
  have "fst (gettime plain_env waiting) = Some (Timeval 104 0)" by code_simp
  from timeout_process_exact [OF waiting_run plain_env_ok this] obtain es s' where
    w: "timeout_process plain_env waiting = Some s'" "fired_all (time_at waiting) waiting (due (time_at waiting) waiting (Timeval 104 0)) es s'" by blast
  have "bs_info waiting 2 = Some (the (bs_info waiting 2))" "EVLIST_TIMEOUT \<in> ev_flags (the (bs_info waiting 2))"
    "time_at waiting 2 \<le> Timeval 104 0" "\<not> time_at waiting 1 \<le> Timeval 104 0" by code_simp+
  then have "2 \<in> due (time_at waiting) waiting (Timeval 104 0)" "1 \<notin> due (time_at waiting) waiting (Timeval 104 0)"
    by (auto simp: due_def flagged_def)
  then show ?thesis using w by (auto simp: fired_all_def)
qed

section \<open>Where the code fails\<close>

text \<open>An event for the signal 15 that was raised three times, and a callback that deletes its event at the first call.\<close>

definition delete_self :: "unit code" where
  "delete_self = \<lparr>run_cb = (\<lambda>ev fd res s. map_option snd (event_del plain_env s ev)), run_deferred = (\<lambda>c s. Some s),
     evsel_dispatch = (\<lambda>s tv. Some (0, s))\<rparr>"

definition raised :: "unit event_base" where
  "raised = the (evmap_signal_active plain_env (add_in 9 None plain_env (new_at 9 15 {EV_SIGNAL, EV_PERSIST} plain_env (event_base_new plain_env False ()))) 15 3)"



text \<open>Seven events with timeouts of their own, and one in a queue of common timeouts, whose internal event takes the eighth
  place of the heap.\<close>

definition crowded :: "unit event_base" where
  "crowded = (let s = fold (\<lambda>e s. add_in e (Some (Timeval 60 0)) plain_env (new_at e (- 1) {} plain_env s)) [1..<8] (event_base_new plain_env False ());
      s = new_at 8 (- 1) {} plain_env s;
      (d, s) = the (event_base_init_common_timeout plain_env s 20 (Timeval 10 0))
    in add_in 8 d plain_env s)"


end
