(* ===== verification/EvBuffer.thy ===== *)
theory EvBuffer
  imports CLib
begin

text \<open>
  The byte queues of libevent, \<^verbatim>\<open>src/libevent/buffer.c\<close> and \<^verbatim>\<open>evbuffer-internal.h\<close>: a list of chains, each with a block of
  memory of which a part in the middle holds data. Modelled is the build for a 64-bit system without overlapped I/O, where no
  chain is ever pinned (only \<^verbatim>\<open>buffer_iocp.c\<close> pins), without locks, and without chains for files (\<^verbatim>\<open>evbuffer_add_file\<close>).

  The list \<open>eb_chains\<close> starts at \<^verbatim>\<open>buf->first\<close> and follows the pointers \<^verbatim>\<open>next\<close>. A pointer to a chain is the number of the
  chain; a pointer to a pointer to a chain (\<^verbatim>\<open>last_with_datap\<close>) is \<open>None\<close> for \<^verbatim>\<open>&buf->first\<close> and \<open>Some p\<close> for \<^verbatim>\<open>&p->next\<close>. Memory that
  was not written yet is \<open>None\<close> in a block. A fault and a failed \<^verbatim>\<open>EVUTIL_ASSERT\<close> are \<open>None\<close>, a null pointer is \<open>None\<close> inside.
  An operation that may allocate a chain has as arguments the allocator and the number the chain would get. Sizes are natural
  numbers, since no more than \<open>2 ^ 64\<close> bytes are in memory at once; the checks of the code against overflows are kept.
\<close>

section \<open>Chains and buffers\<close>

record evbuffer_chain =
  ch_id :: nat
  ch_buffer :: "u8 option list"
  misalign :: nat
  off :: nat
  ch_immutable :: bool

abbreviation buffer_len :: "evbuffer_chain \<Rightarrow> nat" where
  "buffer_len c \<equiv> length (ch_buffer c)"

record evbuffer_cb_info =
  orig_size :: int
  n_added :: nat
  n_deleted :: nat

text \<open>The callbacks are given by their names and whether they are enabled; \<open>eb_calls\<close> records their calls. Callbacks that change
  the buffer, and deferred ones, are left out.\<close>

record evbuffer =
  eb_chains :: "evbuffer_chain list"
  eb_last :: "nat option"
  last_with_datap :: "nat option"
  total_len :: nat
  n_add_for_cb :: nat
  n_del_for_cb :: nat
  freeze_start :: bool
  freeze_end :: bool
  eb_callbacks :: "(nat \<times> bool) list"
  eb_calls :: "(nat \<times> evbuffer_cb_info) list"

definition evbuffer_new :: evbuffer where
  "evbuffer_new = \<lparr>eb_chains = [], eb_last = None, last_with_datap = None, total_len = 0, n_add_for_cb = 0, n_del_for_cb = 0,
     freeze_start = False, freeze_end = False, eb_callbacks = [], eb_calls = []\<rparr>"

definition EV_SIZE_MAX :: int where "EV_SIZE_MAX = 18446744073709551615"
definition EVBUFFER_CHAIN_MAX :: int where "EVBUFFER_CHAIN_MAX = 9223372036854775807"
definition EVBUFFER_CHAIN_SIZE :: nat where "EVBUFFER_CHAIN_SIZE = 48"
definition MIN_BUFFER_SIZE :: nat where "MIN_BUFFER_SIZE = 1024"

definition CHAIN_SPACE_LEN :: "evbuffer_chain \<Rightarrow> nat" where
  "CHAIN_SPACE_LEN c = (if ch_immutable c then 0 else buffer_len c - (misalign c + off c))"

text \<open>Reading \<open>n\<close> bytes from the start of the data of a chain, and writing at an offset of its block.\<close>

definition chain_bytes :: "evbuffer_chain \<Rightarrow> nat \<Rightarrow> u8 list option" where
  "chain_bytes c n = (if misalign c + n \<le> buffer_len c then those (take n (drop (misalign c) (ch_buffer c))) else None)"

definition chain_put :: "evbuffer_chain \<Rightarrow> nat \<Rightarrow> u8 list \<Rightarrow> evbuffer_chain option" where
  "chain_put c pos bs = map_option (\<lambda>m. c\<lparr>ch_buffer := m\<rparr>) (mem_write (ch_buffer c) (int pos) (map Some bs))"

section \<open>Pointers into the list of chains\<close>

definition chain_at :: "evbuffer_chain list \<Rightarrow> nat \<Rightarrow> evbuffer_chain option" where
  "chain_at cs i = List.find (\<lambda>c. ch_id c = i) cs"

text \<open>The list that starts with \<^verbatim>\<open>*p\<close>, and the assignment to \<^verbatim>\<open>*p\<close>.\<close>

definition rest_at :: "evbuffer_chain list \<Rightarrow> nat option \<Rightarrow> evbuffer_chain list option" where
  "rest_at cs p = (case p of
     None \<Rightarrow> Some cs
   | Some i \<Rightarrow> (case dropWhile (\<lambda>c. ch_id c \<noteq> i) cs of [] \<Rightarrow> None | c # r \<Rightarrow> Some r))"

definition set_rest :: "evbuffer_chain list \<Rightarrow> nat option \<Rightarrow> evbuffer_chain list \<Rightarrow> evbuffer_chain list option" where
  "set_rest cs p r = (case p of
     None \<Rightarrow> Some r
   | Some i \<Rightarrow> (case dropWhile (\<lambda>c. ch_id c \<noteq> i) cs of [] \<Rightarrow> None | c # r' \<Rightarrow> Some (takeWhile (\<lambda>c. ch_id c \<noteq> i) cs @ c # r)))"

definition put_chain :: "evbuffer_chain list \<Rightarrow> evbuffer_chain \<Rightarrow> evbuffer_chain list" where
  "put_chain cs c = map (\<lambda>d. if ch_id d = ch_id c then c else d) cs"

definition first_id :: "evbuffer_chain list \<Rightarrow> nat option" where
  "first_id cs = (case cs of [] \<Rightarrow> None | c # cs \<Rightarrow> Some (ch_id c))"

section \<open>Allocating and linking chains\<close>

function grow_alloc :: "nat \<Rightarrow> nat \<Rightarrow> nat" where
  "grow_alloc n sz = (if 0 < n \<and> n < sz then grow_alloc (2 * n) sz else n)"
  by pat_completeness auto
termination by (relation "measure (\<lambda>(n, sz). sz - n)") auto

declare grow_alloc.simps [simp del]

definition evbuffer_chain_new :: "allocator \<Rightarrow> nat \<Rightarrow> nat \<Rightarrow> evbuffer_chain option" where
  "evbuffer_chain_new A a sz =
     (if int sz > EVBUFFER_CHAIN_MAX - int EVBUFFER_CHAIN_SIZE then None
      else let sz = sz + EVBUFFER_CHAIN_SIZE;
               to_alloc = (if int sz < EVBUFFER_CHAIN_MAX div 2 then grow_alloc MIN_BUFFER_SIZE sz else sz)
        in if \<not> A (int to_alloc) then None
           else Some \<lparr>ch_id = a, ch_buffer = replicate (to_alloc - EVBUFFER_CHAIN_SIZE) None, misalign = 0, off = 0, ch_immutable = False\<rparr>)"

definition evbuffer_chains_all_empty :: "evbuffer_chain list \<Rightarrow> bool" where
  "evbuffer_chains_all_empty cs \<longleftrightarrow> (\<forall>c \<in> set cs. off c = 0)"

text \<open>The first pointer from \<open>p\<close> on that points to an empty chain, or to none; \<open>cs\<close> is the list that starts with \<^verbatim>\<open>*p\<close>.\<close>

fun victim :: "nat option \<Rightarrow> evbuffer_chain list \<Rightarrow> nat option" where
  "victim p [] = p"
| "victim p (c # cs) = (if off c \<noteq> 0 then victim (Some (ch_id c)) cs else p)"

definition evbuffer_free_trailing_empty_chains :: "evbuffer \<Rightarrow> (nat option \<times> evbuffer) option" where
  "evbuffer_free_trailing_empty_chains b = do {
     r \<leftarrow> rest_at (eb_chains b) (last_with_datap b);
     let ch = victim (last_with_datap b) r;
     v \<leftarrow> rest_at (eb_chains b) ch;
     if v = [] then Some (ch, b)
     else if \<not> evbuffer_chains_all_empty v then None
     else do { cs \<leftarrow> set_rest (eb_chains b) ch []; Some (ch, b\<lparr>eb_chains := cs\<rparr>) } }"

definition evbuffer_chain_insert :: "evbuffer \<Rightarrow> evbuffer_chain \<Rightarrow> evbuffer option" where
  "evbuffer_chain_insert b chain = do {
     r \<leftarrow> rest_at (eb_chains b) (last_with_datap b);
     b \<leftarrow> (if r = [] then
             (if last_with_datap b \<noteq> None \<or> eb_chains b \<noteq> [] then None
              else Some (b\<lparr>eb_chains := [chain], eb_last := Some (ch_id chain)\<rparr>))
           else do {
             let ch = victim (last_with_datap b) r;
             v \<leftarrow> rest_at (eb_chains b) ch;
             b \<leftarrow> (if v = [] then do {
                     l \<leftarrow> eb_last b;
                     cs \<leftarrow> set_rest (eb_chains b) (Some l) [chain];
                     Some (b\<lparr>eb_chains := cs, last_with_datap := if off chain \<noteq> 0 then Some l else last_with_datap b\<rparr>) }
                   else if \<not> evbuffer_chains_all_empty v then None
                   else do { cs \<leftarrow> set_rest (eb_chains b) ch [chain]; Some (b\<lparr>eb_chains := cs\<rparr>) });
             Some (b\<lparr>eb_last := Some (ch_id chain)\<rparr>) });
     Some (b\<lparr>total_len := total_len b + off chain\<rparr>) }"

definition evbuffer_chain_insert_new :: "allocator \<Rightarrow> nat \<Rightarrow> evbuffer \<Rightarrow> nat \<Rightarrow> (evbuffer_chain option \<times> evbuffer) option" where
  "evbuffer_chain_insert_new A a b datlen =
     (case evbuffer_chain_new A a datlen of
        None \<Rightarrow> Some (None, b)
      | Some c \<Rightarrow> do { b \<leftarrow> evbuffer_chain_insert b c; Some (Some c, b) })"

section \<open>Callbacks\<close>

definition evbuffer_run_callbacks :: "evbuffer \<Rightarrow> evbuffer" where
  "evbuffer_run_callbacks b =
     (if eb_callbacks b = [] then b\<lparr>n_add_for_cb := 0, n_del_for_cb := 0\<rparr>
      else if n_add_for_cb b = 0 \<and> n_del_for_cb b = 0 then b
      else let info = \<lparr>orig_size = (int (total_len b) + int (n_del_for_cb b) - int (n_add_for_cb b)) mod (EV_SIZE_MAX + 1),
                       n_added = n_add_for_cb b, n_deleted = n_del_for_cb b\<rparr>
        in b\<lparr>n_add_for_cb := 0, n_del_for_cb := 0, eb_calls := eb_calls b @ map (\<lambda>(cb, on). (cb, info)) (filter snd (eb_callbacks b))\<rparr>)"

definition evbuffer_invoke_callbacks :: "evbuffer \<Rightarrow> evbuffer" where
  "evbuffer_invoke_callbacks b =
     (if eb_callbacks b = [] then b\<lparr>n_add_for_cb := 0, n_del_for_cb := 0\<rparr> else evbuffer_run_callbacks b)"

definition evbuffer_add_cb :: "allocator \<Rightarrow> evbuffer \<Rightarrow> nat \<Rightarrow> nat option \<times> evbuffer" where
  "evbuffer_add_cb A b cb = (if \<not> A 40 then (None, b) else (Some cb, b\<lparr>eb_callbacks := (cb, True) # eb_callbacks b\<rparr>))"

definition evbuffer_freeze :: "evbuffer \<Rightarrow> bool \<Rightarrow> evbuffer" where
  "evbuffer_freeze b start = (if start then b\<lparr>freeze_start := True\<rparr> else b\<lparr>freeze_end := True\<rparr>)"

definition evbuffer_unfreeze :: "evbuffer \<Rightarrow> bool \<Rightarrow> evbuffer" where
  "evbuffer_unfreeze b start = (if start then b\<lparr>freeze_start := False\<rparr> else b\<lparr>freeze_end := False\<rparr>)"

definition evbuffer_get_length :: "evbuffer \<Rightarrow> nat" where
  "evbuffer_get_length b = total_len b"

definition evbuffer_get_contiguous_space :: "evbuffer \<Rightarrow> nat" where
  "evbuffer_get_contiguous_space b = (case eb_chains b of [] \<Rightarrow> 0 | c # cs \<Rightarrow> off c)"

section \<open>Adding bytes\<close>

definition evbuffer_chain_align :: "evbuffer_chain \<Rightarrow> evbuffer_chain option" where
  "evbuffer_chain_align c =
     (if ch_immutable c \<or> misalign c + off c > buffer_len c then None
      else map_option (\<lambda>m. c\<lparr>ch_buffer := m, misalign := 0\<rparr>) (mem_write (ch_buffer c) 0 (take (off c) (drop (misalign c) (ch_buffer c)))))"

definition evbuffer_chain_should_realign :: "evbuffer_chain \<Rightarrow> nat \<Rightarrow> bool" where
  "evbuffer_chain_should_realign c datlen \<longleftrightarrow>
     buffer_len c - off c \<ge> datlen \<and> off c < buffer_len c div 2 \<and> off c \<le> 2048"

definition add_len :: "evbuffer \<Rightarrow> nat \<Rightarrow> evbuffer" where
  "add_len b n = b\<lparr>total_len := total_len b + n, n_add_for_cb := n_add_for_cb b + n\<rparr>"

text \<open>The writing of \<open>data\<close> behind the data of a chain of the buffer, with the changes of the counters.\<close>

definition append_to :: "evbuffer \<Rightarrow> evbuffer_chain \<Rightarrow> u8 list \<Rightarrow> evbuffer option" where
  "append_to b chain data = do {
     c \<leftarrow> chain_put chain (misalign chain + off chain) data;
     Some (add_len (b\<lparr>eb_chains := put_chain (eb_chains b) (c\<lparr>off := off c + length data\<rparr>)\<rparr>) (length data)) }"

text \<open>The last part of \<^verbatim>\<open>evbuffer_add\<close>, with a chain of the buffer that cannot take all of the data.\<close>

definition add_in_new_chain :: "allocator \<Rightarrow> nat \<Rightarrow> evbuffer \<Rightarrow> evbuffer_chain \<Rightarrow> nat \<Rightarrow> u8 list \<Rightarrow> (int \<times> evbuffer) option" where
  "add_in_new_chain A a b chain remain data =
     (let to_alloc = (if buffer_len chain \<le> 2048 then buffer_len chain * 2 else buffer_len chain);
          to_alloc = (if length data > to_alloc then length data else to_alloc)
      in case evbuffer_chain_new A a to_alloc of
           None \<Rightarrow> Some (- 1, b)
         | Some tmp \<Rightarrow> do {
             b \<leftarrow> (if remain \<noteq> 0 then append_to b chain (take remain data) else Some b);
             tmp \<leftarrow> chain_put tmp 0 (drop remain data);
             b \<leftarrow> evbuffer_chain_insert b (tmp\<lparr>off := length data - remain\<rparr>);
             Some (0, evbuffer_invoke_callbacks (b\<lparr>n_add_for_cb := n_add_for_cb b + (length data - remain)\<rparr>)) })"

text \<open>\<^verbatim>\<open>evbuffer_add\<close>. A chain that is made for an empty buffer has space for the data, so that at most one is made.\<close>

definition evbuffer_add :: "allocator \<Rightarrow> nat \<Rightarrow> evbuffer \<Rightarrow> u8 list \<Rightarrow> (int \<times> evbuffer) option" where
  "evbuffer_add A a b data =
     (if freeze_end b then Some (- 1, b)
      else if int (length data) > EV_SIZE_MAX - int (total_len b) then Some (- 1, b)
      else do {
        (x, b) \<leftarrow> (case eb_last b of
                     None \<Rightarrow> evbuffer_chain_insert_new A a b (length data)
                   | Some l \<Rightarrow> do { c \<leftarrow> chain_at (eb_chains b) l; Some (Some c, b) });
        case x of
          None \<Rightarrow> Some (- 1, b)
        | Some chain \<Rightarrow>
            if ch_immutable chain then add_in_new_chain A a b chain 0 data
            else if int (misalign chain) > EVBUFFER_CHAIN_MAX then None
            else do {
              let remain = buffer_len chain - misalign chain - off chain;
              if remain \<ge> length data
              then do { b \<leftarrow> append_to b chain data; Some (0, evbuffer_invoke_callbacks b) }
              else if evbuffer_chain_should_realign chain (length data)
              then do {
                chain \<leftarrow> evbuffer_chain_align chain;
                b \<leftarrow> append_to b chain data;
                Some (0, evbuffer_invoke_callbacks b) }
              else add_in_new_chain A a b chain remain data } })"

text \<open>The last part of \<^verbatim>\<open>evbuffer_prepend\<close>: a new first chain with \<open>data\<close> at its end, in front of \<open>chain\<close>.\<close>

definition prepend_new_chain :: "allocator \<Rightarrow> nat \<Rightarrow> evbuffer \<Rightarrow> evbuffer_chain \<Rightarrow> u8 list \<Rightarrow> (int \<times> evbuffer) option" where
  "prepend_new_chain A a b chain data =
     (case evbuffer_chain_new A a (length data) of
        None \<Rightarrow> Some (- 1, b)
      | Some tmp \<Rightarrow>
          if length data > buffer_len tmp then None
          else do {
            let tmp = tmp\<lparr>off := length data, misalign := buffer_len tmp - length data\<rparr>;
            tmp \<leftarrow> chain_put tmp (misalign tmp) data;
            Some (0, evbuffer_invoke_callbacks (b\<lparr>eb_chains := tmp # eb_chains b,
              last_with_datap := if last_with_datap b = None then Some (ch_id tmp) else last_with_datap b,
              total_len := total_len b + length data, n_add_for_cb := n_add_for_cb b + misalign chain\<rparr>)) })"

text \<open>The part of \<^verbatim>\<open>evbuffer_prepend\<close> that fills the space in front of the data of the first chain.\<close>

definition prepend_into :: "allocator \<Rightarrow> nat \<Rightarrow> evbuffer \<Rightarrow> evbuffer_chain \<Rightarrow> u8 list \<Rightarrow> (int \<times> evbuffer) option" where
  "prepend_into A a b chain data = do {
     let chain = (if off chain = 0 then chain\<lparr>misalign := buffer_len chain\<rparr> else chain);
     let n = min (misalign chain) (length data);
     c \<leftarrow> chain_put chain (misalign chain - n) (drop (length data - n) data);
     let c = c\<lparr>off := off c + n, misalign := misalign c - n\<rparr>;
     let b = add_len (b\<lparr>eb_chains := put_chain (eb_chains b) c\<rparr>) n;
     if misalign chain \<ge> length data then Some (0, evbuffer_invoke_callbacks b)
     else prepend_new_chain A a b c (take (length data - n) data) }"

definition evbuffer_prepend :: "allocator \<Rightarrow> nat \<Rightarrow> evbuffer \<Rightarrow> u8 list \<Rightarrow> (int \<times> evbuffer) option" where
  "evbuffer_prepend A a b data =
     (if freeze_start b then Some (- 1, b)
      else if int (length data) > EV_SIZE_MAX - int (total_len b) then Some (- 1, b)
      else do {
        (x, b) \<leftarrow> (case eb_chains b of
                     [] \<Rightarrow> evbuffer_chain_insert_new A a b (length data)
                   | c # cs \<Rightarrow> Some (Some c, b));
        case x of
          None \<Rightarrow> Some (- 1, b)
        | Some chain \<Rightarrow>
            if ch_immutable chain then prepend_new_chain A a b chain data
            else if int (misalign chain) > EVBUFFER_CHAIN_MAX then None
            else prepend_into A a b chain data })"

section \<open>Removing bytes\<close>

definition ZERO_CHAIN :: "evbuffer \<Rightarrow> evbuffer" where
  "ZERO_CHAIN b = b\<lparr>eb_chains := [], eb_last := None, last_with_datap := None, total_len := 0\<rparr>"

text \<open>The loop of \<^verbatim>\<open>evbuffer_drain\<close>; \<open>all\<close> is the list that \<^verbatim>\<open>buf->first\<close> starts, which changes after the loop.\<close>

fun drain_loop :: "evbuffer_chain list \<Rightarrow> nat \<Rightarrow> nat option \<Rightarrow> evbuffer_chain list \<Rightarrow> (nat \<times> nat option \<times> evbuffer_chain list) option" where
  "drain_loop all remaining lwdp [] = None"
| "drain_loop all remaining lwdp (chain # cs) =
     (if remaining \<ge> off chain
      then do {
        r \<leftarrow> rest_at all lwdp;
        let lwdp = (if first_id r = Some (ch_id chain) then None else lwdp);
        let lwdp = (if lwdp = Some (ch_id chain) then None else lwdp);
        drain_loop all (remaining - off chain) lwdp cs }
      else Some (remaining, lwdp, chain # cs))"

definition cut_front :: "evbuffer_chain \<Rightarrow> nat \<Rightarrow> evbuffer_chain" where
  "cut_front c n = c\<lparr>misalign := misalign c + n, off := off c - n\<rparr>"

definition evbuffer_drain :: "evbuffer \<Rightarrow> nat \<Rightarrow> (int \<times> evbuffer) option" where
  "evbuffer_drain b len =
     (if total_len b = 0 then Some (0, b)
      else if freeze_start b then Some (- 1, b)
      else do {
        (len, b) \<leftarrow> (if len \<ge> total_len b then Some (total_len b, ZERO_CHAIN b)
                     else do {
                       (remaining, lwdp, cs) \<leftarrow> drain_loop (eb_chains b) len (last_with_datap b) (eb_chains b);
                       Some (len, b\<lparr>eb_chains := cut_front (hd cs) remaining # tl cs, last_with_datap := lwdp, total_len := total_len b - len\<rparr>) });
        Some (0, evbuffer_invoke_callbacks (b\<lparr>n_del_for_cb := n_del_for_cb b + len\<rparr>)) })"

fun copy_chains :: "nat \<Rightarrow> evbuffer_chain list \<Rightarrow> u8 list option" where
  "copy_chains n [] = (if n = 0 then Some [] else None)"
| "copy_chains n (c # cs) =
     (if n = 0 then Some []
      else if n \<ge> off c then do { x \<leftarrow> chain_bytes c (off c); y \<leftarrow> copy_chains (n - off c) cs; Some (x @ y) }
      else chain_bytes c n)"

text \<open>\<^verbatim>\<open>evbuffer_copyout\<close>: the result and the bytes that are stored in \<^verbatim>\<open>data_out\<close>.\<close>

definition evbuffer_copyout :: "evbuffer \<Rightarrow> nat \<Rightarrow> (int \<times> u8 list) option" where
  "evbuffer_copyout b datlen =
     (let datlen = min datlen (total_len b)
      in if datlen = 0 then Some (0, [])
         else if freeze_start b then Some (- 1, [])
         else do { bs \<leftarrow> copy_chains datlen (eb_chains b); Some (int datlen, bs) })"

definition as_int :: "int \<Rightarrow> int" where
  "as_int n = (n + 2147483648) mod 4294967296 - 2147483648"

definition evbuffer_remove :: "evbuffer \<Rightarrow> nat \<Rightarrow> (int \<times> u8 list \<times> evbuffer) option" where
  "evbuffer_remove b datlen = do {
     (n, bs) \<leftarrow> evbuffer_copyout b datlen;
     (n, b) \<leftarrow> (if n > 0 then do { (r, b) \<leftarrow> evbuffer_drain b (nat n); Some (if r < 0 then - 1 else n, b) } else Some (n, b));
     Some (as_int n, bs, b) }"

section \<open>Making bytes contiguous\<close>

text \<open>The copying loop of \<^verbatim>\<open>evbuffer_pullup\<close>: the copied bytes, the bytes still to copy, the chains that are left, and whether
  the last chain with data (\<open>lwd\<close>) and the chain before it (\<open>lwdp\<close>) were removed.\<close>

fun pull_loop :: "nat option \<Rightarrow> nat option \<Rightarrow> nat \<Rightarrow> evbuffer_chain list \<Rightarrow> (u8 list \<times> nat \<times> evbuffer_chain list \<times> bool \<times> bool) option" where
  "pull_loop lwd lwdp n [] = Some ([], n, [], False, False)"
| "pull_loop lwd lwdp n (chain # cs) =
     (if n \<ge> off chain
      then do {
        x \<leftarrow> chain_bytes chain (off chain);
        (bs, m, rest, r, rp) \<leftarrow> pull_loop lwd lwdp (n - off chain) cs;
        Some (x @ bs, m, rest, r \<or> lwd = Some (ch_id chain), rp \<or> lwdp = Some (ch_id chain)) }
      else Some ([], n, chain # cs, False, False))"

text \<open>The part of \<^verbatim>\<open>evbuffer_pullup\<close> that copies \<open>n\<close> bytes of the chains \<open>cs\<close> to the offset \<open>pos\<close> of \<open>tmp\<close>, the new first chain;
  \<open>first\<close> is the list that \<^verbatim>\<open>buf->first\<close> starts then.\<close>

definition pull_into :: "evbuffer \<Rightarrow> evbuffer_chain \<Rightarrow> nat \<Rightarrow> nat \<Rightarrow> evbuffer_chain list \<Rightarrow> evbuffer_chain list \<Rightarrow> evbuffer option" where
  "pull_into b tmp pos n first cs = do {
     lwd \<leftarrow> rest_at first (last_with_datap b);
     (bs, m, rest, removed, removedp) \<leftarrow> pull_loop (first_id lwd) (last_with_datap b) n cs;
     (bs, rest, last) \<leftarrow> (case rest of
         [] \<Rightarrow> Some (bs, [], Some (ch_id tmp))
       | c # r \<Rightarrow> do { x \<leftarrow> chain_bytes c m; Some (bs @ x, cut_front c m # r, eb_last b) });
     tmp \<leftarrow> chain_put tmp pos bs;
     Some (b\<lparr>eb_chains := tmp # rest, eb_last := last,
       last_with_datap :=
         if removed then None
         else if removedp then (case rest of [] \<Rightarrow> None | c # r \<Rightarrow> if off c \<noteq> 0 then Some (ch_id tmp) else None)
         else last_with_datap b\<rparr>) }"

text \<open>\<^verbatim>\<open>evbuffer_pullup\<close>: the chain whose data the result points to, if it is not null.\<close>

definition evbuffer_pullup :: "allocator \<Rightarrow> nat \<Rightarrow> evbuffer \<Rightarrow> int \<Rightarrow> (nat option \<times> evbuffer) option" where
  "evbuffer_pullup A a b sz =
     (let n = (if sz < 0 then total_len b else nat sz)
      in if n = 0 \<or> n > total_len b then Some (None, b)
         else case eb_chains b of
           [] \<Rightarrow> None
         | chain # cs \<Rightarrow>
             if off chain \<ge> n then Some (Some (ch_id chain), b)
             else if buffer_len chain - misalign chain \<ge> n
             then do {
               let tmp = chain\<lparr>off := n\<rparr>;
               b \<leftarrow> pull_into b tmp (misalign chain + off chain) (n - off chain) (tmp # cs) cs;
               Some (Some (ch_id tmp), b) }
             else case evbuffer_chain_new A a n of
                    None \<Rightarrow> Some (None, b)
                  | Some tmp \<Rightarrow> do {
                      let tmp = tmp\<lparr>off := n\<rparr>;
                      b \<leftarrow> pull_into b tmp 0 n (tmp # chain # cs) (chain # cs);
                      Some (Some (ch_id tmp), b) })"

section \<open>Moving chains between buffers\<close>

definition COPY_CHAIN :: "evbuffer \<Rightarrow> evbuffer \<Rightarrow> evbuffer" where
  "COPY_CHAIN dst src = dst\<lparr>eb_chains := eb_chains src, last_with_datap := last_with_datap src, eb_last := eb_last src, total_len := total_len src\<rparr>"

definition APPEND_CHAIN :: "evbuffer \<Rightarrow> evbuffer \<Rightarrow> evbuffer option" where
  "APPEND_CHAIN dst src = do {
     l \<leftarrow> eb_last dst;
     cs \<leftarrow> set_rest (eb_chains dst) (Some l) (eb_chains src);
     Some (dst\<lparr>eb_chains := cs, last_with_datap := if last_with_datap src = None then Some l else last_with_datap src,
       eb_last := eb_last src, total_len := total_len dst + total_len src\<rparr>) }"

definition PREPEND_CHAIN :: "evbuffer \<Rightarrow> evbuffer \<Rightarrow> evbuffer option" where
  "PREPEND_CHAIN dst src = do {
     l \<leftarrow> eb_last src;
     cs \<leftarrow> set_rest (eb_chains src) (Some l) (eb_chains dst);
     r \<leftarrow> rest_at (if last_with_datap dst = None then cs else eb_chains dst) (last_with_datap dst);
     Some (dst\<lparr>eb_chains := cs, total_len := total_len dst + total_len src,
       last_with_datap := if r = [] then last_with_datap src
         else if last_with_datap dst = None then Some l else last_with_datap dst\<rparr>) }"

definition moved :: "evbuffer \<Rightarrow> evbuffer \<Rightarrow> nat \<Rightarrow> int \<times> evbuffer \<times> evbuffer" where
  "moved dst src n = (0, evbuffer_invoke_callbacks (dst\<lparr>n_add_for_cb := n_add_for_cb dst + n\<rparr>),
     evbuffer_invoke_callbacks ((ZERO_CHAIN src)\<lparr>n_del_for_cb := n_del_for_cb src + n\<rparr>))"

text \<open>\<^verbatim>\<open>evbuffer_add_buffer\<close> and \<^verbatim>\<open>evbuffer_prepend_buffer\<close> on two different buffers: the result and both buffers.\<close>

definition evbuffer_add_buffer :: "evbuffer \<Rightarrow> evbuffer \<Rightarrow> (int \<times> evbuffer \<times> evbuffer) option" where
  "evbuffer_add_buffer outbuf inbuf =
     (if total_len inbuf = 0 then Some (0, outbuf, inbuf)
      else if freeze_end outbuf \<or> freeze_start inbuf then Some (- 1, outbuf, inbuf)
      else do {
        dst \<leftarrow> (if total_len outbuf = 0 then Some (COPY_CHAIN outbuf inbuf) else APPEND_CHAIN outbuf inbuf);
        Some (moved dst inbuf (total_len inbuf)) })"

definition evbuffer_prepend_buffer :: "evbuffer \<Rightarrow> evbuffer \<Rightarrow> (int \<times> evbuffer \<times> evbuffer) option" where
  "evbuffer_prepend_buffer outbuf inbuf =
     (if total_len inbuf = 0 then Some (0, outbuf, inbuf)
      else if freeze_start outbuf \<or> freeze_start inbuf then Some (- 1, outbuf, inbuf)
      else do {
        dst \<leftarrow> (if total_len outbuf = 0 then Some (COPY_CHAIN outbuf inbuf) else PREPEND_CHAIN outbuf inbuf);
        Some (moved dst inbuf (total_len inbuf)) })"

text \<open>\<^verbatim>\<open>advance_last_with_data\<close>; \<open>cs\<close> is the list that starts with the last chain with data.\<close>

fun advance :: "nat option \<Rightarrow> evbuffer_chain list \<Rightarrow> nat option" where
  "advance p (c # d # cs) = (if off d \<noteq> 0 then advance (Some (ch_id c)) (d # cs) else p)"
| "advance p cs = p"

definition advance_last_with_data :: "evbuffer \<Rightarrow> evbuffer option" where
  "advance_last_with_data b = do {
     r \<leftarrow> rest_at (eb_chains b) (last_with_datap b);
     Some (b\<lparr>last_with_datap := advance (last_with_datap b) r\<rparr>) }"

text \<open>The loop of \<^verbatim>\<open>evbuffer_remove_buffer\<close> over the chains that are moved as a whole: those chains, the other ones, the
  bytes moved and left, and \<^verbatim>\<open>src->last_with_datap\<close>.\<close>

fun move_loop :: "evbuffer_chain list \<Rightarrow> nat option \<Rightarrow> nat \<Rightarrow> evbuffer_chain list \<Rightarrow> (evbuffer_chain list \<times> evbuffer_chain list \<times> nat \<times> nat \<times> nat option) option" where
  "move_loop all lwdp datlen [] = None"
| "move_loop all lwdp datlen (chain # cs) =
     (if off chain \<le> datlen
      then do {
        r \<leftarrow> rest_at all lwdp;
        if first_id r = Some (ch_id chain) then None
        else do {
          (ms, rest, nread, left, lwdp) \<leftarrow> move_loop all (if lwdp = Some (ch_id chain) then None else lwdp) (datlen - off chain) cs;
          Some (chain # ms, rest, off chain + nread, left, lwdp) } }
      else Some ([], chain # cs, 0, datlen, lwdp))"

definition evbuffer_remove_buffer :: "allocator \<Rightarrow> nat \<Rightarrow> evbuffer \<Rightarrow> evbuffer \<Rightarrow> nat \<Rightarrow> (int \<times> evbuffer \<times> evbuffer) option" where
  "evbuffer_remove_buffer A a src dst datlen =
     (if datlen = 0 then Some (0, src, dst)
      else if freeze_end dst \<or> freeze_start src then Some (- 1, src, dst)
      else if datlen \<ge> total_len src
      then do { (r, dst', src') \<leftarrow> evbuffer_add_buffer dst src; Some (as_int (int (total_len src)), src', dst') }
      else do {
        (ms, rest, nread, datlen, lwdp) \<leftarrow> move_loop (eb_chains src) (last_with_datap src) datlen (eb_chains src);
        dst \<leftarrow> (if nread \<noteq> 0
               then do {
                 (chp, dst) \<leftarrow> evbuffer_free_trailing_empty_chains dst;
                 cs \<leftarrow> (if eb_chains dst = [] then Some ms else set_rest (eb_chains dst) chp ms);
                 dst \<leftarrow> advance_last_with_data (dst\<lparr>eb_chains := cs, eb_last := Some (ch_id (last ms))\<rparr>);
                 Some (add_len dst nread) }
               else Some dst);
        bs \<leftarrow> chain_bytes (hd rest) datlen;
        (r, dst) \<leftarrow> evbuffer_add A a dst bs;
        let src = src\<lparr>eb_chains := (if nread \<noteq> 0 then [] else ms) @ cut_front (hd rest) datlen # tl rest, last_with_datap := lwdp,
              total_len := total_len src - (nread + datlen), n_del_for_cb := n_del_for_cb src + (nread + datlen)\<rparr>;
        let (dst, src) = (if nread + datlen \<noteq> 0 then (evbuffer_invoke_callbacks dst, evbuffer_invoke_callbacks src) else (dst, src));
        Some (as_int (int (nread + datlen)), src, dst) })"

text \<open>\<^verbatim>\<open>evbuffer_add_reference\<close>: the chain does not own its memory, which holds \<open>data\<close>.\<close>

definition evbuffer_add_reference :: "allocator \<Rightarrow> nat \<Rightarrow> evbuffer \<Rightarrow> u8 list \<Rightarrow> (int \<times> evbuffer) option" where
  "evbuffer_add_reference A a b data =
     (case evbuffer_chain_new A a 16 of
        None \<Rightarrow> Some (- 1, b)
      | Some chain \<Rightarrow>
          if freeze_end b then Some (- 1, b)
          else do {
            b \<leftarrow> evbuffer_chain_insert b (chain\<lparr>ch_buffer := map Some data, off := length data, ch_immutable := True\<rparr>);
            Some (0, evbuffer_invoke_callbacks (b\<lparr>n_add_for_cb := n_add_for_cb b + length data\<rparr>)) })"

section \<open>Space for the user to write to\<close>

text \<open>\<^verbatim>\<open>evbuffer_expand_singlechain\<close>: the chain with the space, if there is one. \<open>p\<close> is \<^verbatim>\<open>chainp\<close>.\<close>

definition evbuffer_expand_singlechain :: "allocator \<Rightarrow> nat \<Rightarrow> evbuffer \<Rightarrow> nat \<Rightarrow> (nat option \<times> evbuffer) option" where
  "evbuffer_expand_singlechain A a b datlen = do {
     let insert_new = (do {
       (x, b) \<leftarrow> evbuffer_chain_insert_new A a b datlen;
       case x of
         None \<Rightarrow> Some (None, b)
       | Some c \<Rightarrow> if CHAIN_SPACE_LEN c \<ge> datlen then Some (Some (ch_id c), b) else None });
     r \<leftarrow> rest_at (eb_chains b) (last_with_datap b);
     let p = (case r of [] \<Rightarrow> last_with_datap b | c # r \<Rightarrow> if CHAIN_SPACE_LEN c = 0 then Some (ch_id c) else last_with_datap b);
     r \<leftarrow> rest_at (eb_chains b) p;
     case r of
       [] \<Rightarrow> insert_new
     | chain # r \<Rightarrow>
         if ch_immutable chain then insert_new
         else if CHAIN_SPACE_LEN chain \<ge> datlen then Some (Some (ch_id chain), b)
         else if off chain = 0 then insert_new
         else if evbuffer_chain_should_realign chain datlen
         then do {
           c \<leftarrow> evbuffer_chain_align chain;
           if CHAIN_SPACE_LEN c \<ge> datlen then Some (Some (ch_id c), b\<lparr>eb_chains := put_chain (eb_chains b) c\<rparr>) else None }
         else if CHAIN_SPACE_LEN chain < buffer_len chain div 8 \<or> off chain > 4096
           \<or> (int datlen < EVBUFFER_CHAIN_MAX \<and> EVBUFFER_CHAIN_MAX - int datlen \<ge> int (off chain))
         then (case r of
             [] \<Rightarrow> insert_new
           | c # r' \<Rightarrow> if CHAIN_SPACE_LEN c \<ge> datlen then Some (Some (ch_id c), b) else insert_new)
         else case evbuffer_chain_new A a (off chain + datlen) of
                None \<Rightarrow> Some (None, b)
              | Some tmp \<Rightarrow> do {
                  bs \<leftarrow> chain_bytes chain (off chain);
                  tmp \<leftarrow> chain_put (tmp\<lparr>off := off chain\<rparr>) 0 bs;
                  cs \<leftarrow> set_rest (eb_chains b) p (tmp # r);
                  let b = b\<lparr>eb_chains := cs, eb_last := if eb_last b = Some (ch_id chain) then Some (ch_id tmp) else eb_last b\<rparr>;
                  if CHAIN_SPACE_LEN tmp \<ge> datlen then Some (Some (ch_id tmp), b) else None } }"

definition evbuffer_expand :: "allocator \<Rightarrow> nat \<Rightarrow> evbuffer \<Rightarrow> nat \<Rightarrow> (int \<times> evbuffer) option" where
  "evbuffer_expand A a b datlen = do {
     (x, b) \<leftarrow> evbuffer_expand_singlechain A a b datlen;
     Some (if x = None then - 1 else 0, b) }"

text \<open>The loop of \<^verbatim>\<open>_evbuffer_expand_fast\<close> over the chains \<open>cs\<close>, of which \<open>lwd\<close> is the last with data: the chains, whether there
  is enough space in them, the space and the number of chains used.\<close>

fun avail_loop :: "nat option \<Rightarrow> nat \<Rightarrow> nat \<Rightarrow> nat \<Rightarrow> nat \<Rightarrow> evbuffer_chain list \<Rightarrow> (evbuffer_chain list \<times> bool \<times> nat \<times> nat) option" where
  "avail_loop lwd datlen n avail used [] = Some ([], False, avail, used)"
| "avail_loop lwd datlen n avail used (c # cs) =
     (if off c \<noteq> 0 \<and> lwd \<noteq> Some (ch_id c) then None
      else let c' = (if off c \<noteq> 0 then c else c\<lparr>misalign := 0\<rparr>);
               space = (if off c \<noteq> 0 then CHAIN_SPACE_LEN c else buffer_len c);
               avail' = avail + space;
               used' = (if off c \<noteq> 0 \<and> space = 0 then used else used + 1)
        in if avail' \<ge> datlen then Some (c' # cs, True, avail', used')
           else if used' = n then Some (c' # cs, False, avail', used')
           else do { (cs', enough, a, u) \<leftarrow> avail_loop lwd datlen n avail' used' cs; Some (c' # cs', enough, a, u) })"

text \<open>\<^verbatim>\<open>_evbuffer_expand_fast\<close>. After the loop \<open>r\<close> is the list from the last chain with data on.\<close>

definition evbuffer_expand_fast :: "allocator \<Rightarrow> nat \<Rightarrow> evbuffer \<Rightarrow> nat \<Rightarrow> nat \<Rightarrow> (int \<times> evbuffer) option" where
  "evbuffer_expand_fast A a b datlen n =
     (if n < 2 then None
      else do {
        x \<leftarrow> (case eb_last b of None \<Rightarrow> Some None | Some l \<Rightarrow> do { c \<leftarrow> chain_at (eb_chains b) l; Some (if ch_immutable c then None else Some c) });
        if x = None
        then do { (x, b) \<leftarrow> evbuffer_chain_insert_new A a b datlen; Some (if x = None then - 1 else 0, b) }
        else do {
          r \<leftarrow> rest_at (eb_chains b) (last_with_datap b);
          (r, enough, avail, used) \<leftarrow> avail_loop (first_id r) datlen n 0 0 r;
          cs \<leftarrow> set_rest (eb_chains b) (last_with_datap b) r;
          let b = b\<lparr>eb_chains := cs\<rparr>;
          if enough then Some (0, b)
          else if used < n
          then (case evbuffer_chain_new A a (datlen - avail) of
                  None \<Rightarrow> Some (- 1, b)
                | Some tmp \<Rightarrow> do {
                    cs \<leftarrow> set_rest cs (eb_last b) [tmp];
                    Some (0, b\<lparr>eb_chains := cs, eb_last := Some (ch_id tmp)\<rparr>) })
          else (case r of
                  [] \<Rightarrow> None
                | c # r' \<Rightarrow>
                    if off c = 0
                    then (if Some (ch_id c) \<noteq> first_id cs \<or> \<not> evbuffer_chains_all_empty r' then None
                          else case evbuffer_chain_new A a datlen of
                                 None \<Rightarrow> Some (- 1, ZERO_CHAIN b)
                               | Some tmp \<Rightarrow> Some (0, b\<lparr>eb_chains := [tmp], eb_last := Some (ch_id tmp), last_with_datap := None\<rparr>))
                    else if \<not> evbuffer_chains_all_empty r' \<or> CHAIN_SPACE_LEN c > datlen then None
                    else (case evbuffer_chain_new A a (datlen - CHAIN_SPACE_LEN c) of
                            None \<Rightarrow> do { cs \<leftarrow> set_rest cs (Some (ch_id c)) []; Some (- 1, b\<lparr>eb_chains := cs, eb_last := Some (ch_id c)\<rparr>) }
                          | Some tmp \<Rightarrow> do { cs \<leftarrow> set_rest cs (Some (ch_id c)) [tmp]; Some (0, b\<lparr>eb_chains := cs, eb_last := Some (ch_id tmp)\<rparr>) })) } })"

text \<open>An extent of memory: the chain and the offset in its block to which \<^verbatim>\<open>iov_base\<close> points, and the length.\<close>

record evbuffer_iovec =
  iov_chain :: nat
  iov_off :: nat
  iov_len :: nat

definition space_vec :: "evbuffer_chain \<Rightarrow> nat \<Rightarrow> evbuffer_iovec" where
  "space_vec c n = \<lparr>iov_chain = ch_id c, iov_off = misalign c + off c, iov_len = n\<rparr>"

text \<open>The loop of \<^verbatim>\<open>_evbuffer_read_setup_vecs\<close> on \<open>n\<close> extents.\<close>

fun setup_vecs :: "bool \<Rightarrow> nat \<Rightarrow> nat \<Rightarrow> nat \<Rightarrow> evbuffer_chain list \<Rightarrow> evbuffer_iovec list option" where
  "setup_vecs exact 0 howmuch so_far cs = Some []"
| "setup_vecs exact (Suc n) howmuch so_far cs =
     (if so_far \<ge> howmuch then Some []
      else case cs of
        [] \<Rightarrow> None
      | c # cs \<Rightarrow>
          let avail = (if CHAIN_SPACE_LEN c > howmuch - so_far \<and> exact then howmuch - so_far else CHAIN_SPACE_LEN c)
          in map_option ((#) (space_vec c avail)) (setup_vecs exact n howmuch (so_far + avail) cs))"

text \<open>The first chain with space on it, as a pointer to it and the list from there on.\<close>

definition first_space :: "evbuffer \<Rightarrow> (nat option \<times> evbuffer_chain list) option" where
  "first_space b = do {
     r \<leftarrow> rest_at (eb_chains b) (last_with_datap b);
     case r of
       [] \<Rightarrow> None
     | c # cs \<Rightarrow> Some (if CHAIN_SPACE_LEN c = 0 then (Some (ch_id c), cs) else (last_with_datap b, r)) }"

definition evbuffer_read_setup_vecs :: "evbuffer \<Rightarrow> int \<Rightarrow> nat \<Rightarrow> bool \<Rightarrow> evbuffer_iovec list option option" where
  "evbuffer_read_setup_vecs b howmuch n exact =
     (if howmuch < 0 then Some None
      else do { (p, cs) \<leftarrow> first_space b; map_option Some (setup_vecs exact n (nat howmuch) 0 cs) })"

text \<open>\<^verbatim>\<open>evbuffer_reserve_space\<close>, for a size that is not negative: the extents, or \<open>None\<close> for the result -1.\<close>

definition evbuffer_reserve_space :: "allocator \<Rightarrow> nat \<Rightarrow> evbuffer \<Rightarrow> nat \<Rightarrow> nat \<Rightarrow> (evbuffer_iovec list option \<times> evbuffer) option" where
  "evbuffer_reserve_space A a b sz n_vecs =
     (if freeze_end b \<or> n_vecs < 1 then Some (None, b)
      else if n_vecs = 1
      then do {
        (x, b) \<leftarrow> evbuffer_expand_singlechain A a b sz;
        case x of
          None \<Rightarrow> Some (None, b)
        | Some i \<Rightarrow> do {
            c \<leftarrow> chain_at (eb_chains b) i;
            if CHAIN_SPACE_LEN c < sz then None else Some (Some [space_vec c (CHAIN_SPACE_LEN c)], b) } }
      else do {
        (r, b) \<leftarrow> evbuffer_expand_fast A a b sz n_vecs;
        if r < 0 then Some (None, b)
        else do { v \<leftarrow> evbuffer_read_setup_vecs b (int sz) n_vecs False; Some (v, b) } })"

text \<open>The user writes to an extent.\<close>

definition iov_write :: "evbuffer \<Rightarrow> evbuffer_iovec \<Rightarrow> u8 list \<Rightarrow> evbuffer option" where
  "iov_write b v data = do {
     c \<leftarrow> chain_at (eb_chains b) (iov_chain v);
     c \<leftarrow> chain_put c (iov_off v) data;
     Some (b\<lparr>eb_chains := put_chain (eb_chains b) c\<rparr>) }"

definition is_space :: "evbuffer_iovec \<Rightarrow> evbuffer_chain \<Rightarrow> bool" where
  "is_space v c \<longleftrightarrow> iov_chain v = ch_id c \<and> iov_off v = misalign c + off c"

text \<open>The two passes of \<^verbatim>\<open>evbuffer_commit_space\<close> over the extents; \<open>p\<close> is the pointer to \<open>cs\<close>.\<close>

fun vecs_fit :: "evbuffer_iovec list \<Rightarrow> evbuffer_chain list \<Rightarrow> bool" where
  "vecs_fit [] cs = True"
| "vecs_fit (v # vs) [] = False"
| "vecs_fit (v # vs) (c # cs) = (is_space v c \<and> iov_len v \<le> CHAIN_SPACE_LEN c \<and> vecs_fit vs cs)"

fun commit_vecs :: "nat option \<Rightarrow> nat option \<Rightarrow> evbuffer_iovec list \<Rightarrow> evbuffer_chain list \<Rightarrow> evbuffer_chain list \<times> nat option" where
  "commit_vecs lwdp p (v # vs) (c # cs) =
     (let (cs', lwdp') = commit_vecs (if iov_len v \<noteq> 0 then p else lwdp) (Some (ch_id c)) vs cs
      in (c\<lparr>off := off c + iov_len v\<rparr> # cs', lwdp'))"
| "commit_vecs lwdp p vs cs = (cs, lwdp)"

definition committed :: "evbuffer \<Rightarrow> nat \<Rightarrow> int \<times> evbuffer" where
  "committed b n = (0, evbuffer_invoke_callbacks (add_len b n))"

definition commit_at :: "evbuffer \<Rightarrow> evbuffer_iovec list \<Rightarrow> (int \<times> evbuffer) option" where
  "commit_at b vec = do {
     r \<leftarrow> rest_at (eb_chains b) (last_with_datap b);
     case r of
       [] \<Rightarrow> Some (- 1, b)
     | c # r' \<Rightarrow>
         let p = (if CHAIN_SPACE_LEN c = 0 then Some (ch_id c) else last_with_datap b);
             cs = (if CHAIN_SPACE_LEN c = 0 then r' else r)
         in if \<not> vecs_fit vec cs then Some (- 1, b)
            else let (cs', lwdp) = commit_vecs (last_with_datap b) p vec cs
              in do { cs \<leftarrow> set_rest (eb_chains b) p cs'; Some (committed (b\<lparr>eb_chains := cs, last_with_datap := lwdp\<rparr>) (sum_list (map iov_len vec))) } }"

definition evbuffer_commit_space :: "evbuffer \<Rightarrow> evbuffer_iovec list \<Rightarrow> (int \<times> evbuffer) option" where
  "evbuffer_commit_space b vec =
     (if freeze_end b then Some (- 1, b)
      else if vec = [] then Some (0, b)
      else do {
        x \<leftarrow> (case eb_last b of None \<Rightarrow> Some None | Some l \<Rightarrow> map_option Some (chain_at (eb_chains b) l));
        case (vec, x) of
          ([v], Some c) \<Rightarrow>
            if is_space v c
            then (if iov_len v > CHAIN_SPACE_LEN c then Some (- 1, b)
                  else do {
                    let b = b\<lparr>eb_chains := put_chain (eb_chains b) (c\<lparr>off := off c + iov_len v\<rparr>)\<rparr>;
                    b \<leftarrow> (if iov_len v \<noteq> 0 then advance_last_with_data b else Some b);
                    Some (committed b (iov_len v)) })
            else commit_at b vec
        | _ \<Rightarrow> commit_at b vec })"

end
