(* ===== verification/EvBufferProps.thy ===== *)
theory EvBufferProps
  imports EvBuffer
begin

text \<open>
  The byte queues of libevent refine lists of bytes: the invariant \<open>eb_ok\<close> of a buffer, the list of the bytes it holds, and what
  the operations do to it.
\<close>

section \<open>The bytes of a buffer\<close>

definition chain_ok :: "evbuffer_chain \<Rightarrow> bool" where
  "chain_ok c \<longleftrightarrow> misalign c + off c \<le> buffer_len c \<and> None \<notin> set (take (off c) (drop (misalign c) (ch_buffer c)))
     \<and> int (buffer_len c) \<le> EVBUFFER_CHAIN_MAX \<and> 0 < buffer_len c \<and> (ch_immutable c \<longrightarrow> off c \<noteq> 0)"

definition cdata :: "evbuffer_chain \<Rightarrow> u8 list" where
  "cdata c = map the (take (off c) (drop (misalign c) (ch_buffer c)))"

definition contents :: "evbuffer \<Rightarrow> u8 list" where
  "contents b = concat (map cdata (eb_chains b))"

definition last_of :: "evbuffer_chain list \<Rightarrow> nat option" where
  "last_of cs = (if cs = [] then None else Some (ch_id (last cs)))"

definition lwdp_of :: "evbuffer_chain list \<Rightarrow> nat option" where
  "lwdp_of cs = last_of (butlast cs)"

text \<open>The last chain is the last one with data, and a chain is only empty if it is the only one.\<close>

definition eb_ok :: "evbuffer \<Rightarrow> bool" where
  "eb_ok b \<longleftrightarrow> (\<forall>c \<in> set (eb_chains b). chain_ok c) \<and> distinct (map ch_id (eb_chains b)) \<and> eb_last b = last_of (eb_chains b)
     \<and> last_with_datap b = lwdp_of (eb_chains b) \<and> total_len b = length (contents b)
     \<and> (length (eb_chains b) > 1 \<longrightarrow> (\<forall>c \<in> set (eb_chains b). off c \<noteq> 0))"

lemma cdata_len: "chain_ok c \<Longrightarrow> length (cdata c) = off c"
  by (auto simp: chain_ok_def cdata_def)

lemma those_take: "None \<notin> set xs \<Longrightarrow> those xs = Some (map the xs)"
proof (induction xs)
  case (Cons x xs)
  then show ?case by (cases x) auto
qed simp

lemma chain_bytes_ok:
  assumes "chain_ok c" "n \<le> off c"
  shows "chain_bytes c n = Some (take n (cdata c))"
proof -
  have "take n (drop (misalign c) (ch_buffer c)) = take n (take (off c) (drop (misalign c) (ch_buffer c)))" using assms(2) by (simp add: min_def)
  moreover have "None \<notin> set (take n (take (off c) (drop (misalign c) (ch_buffer c))))" using assms(1) set_take_subset [of n "take (off c) (drop (misalign c) (ch_buffer c))"] unfolding chain_ok_def by blast
  ultimately show ?thesis using assms by (simp add: chain_bytes_def those_take chain_ok_def cdata_def take_map)
qed

lemma chain_bytes_all: "chain_ok c \<Longrightarrow> chain_bytes c (off c) = Some (cdata c)"
  using chain_bytes_ok [of c "off c"] cdata_len [of c] by simp

lemma cdata_empty [simp]: "off c = 0 \<Longrightarrow> cdata c = []"
  by (simp add: cdata_def)

lemma cut_front_ok:
  assumes "chain_ok c" "n < off c"
  shows "chain_ok (cut_front c n)" "cdata (cut_front c n) = drop n (cdata c)"
proof -
  have e: "take (off c - n) (drop (misalign c + n) (ch_buffer c)) = drop n (take (off c) (drop (misalign c) (ch_buffer c)))"
    by (simp add: drop_take add.commute)
  then show "cdata (cut_front c n) = drop n (cdata c)" by (simp add: cut_front_def cdata_def drop_map)
  have "None \<notin> set (drop n (take (off c) (drop (misalign c) (ch_buffer c))))" using assms(1) by (auto simp: chain_ok_def dest: in_set_dropD)
  then show "chain_ok (cut_front c n)" using assms e by (auto simp: chain_ok_def cut_front_def)
qed

lemma cut_front_sels [simp]: "ch_id (cut_front c n) = ch_id c" "off (cut_front c n) = off c - n" "ch_immutable (cut_front c n) = ch_immutable c"
  by (simp_all add: cut_front_def)

section \<open>Pointers\<close>

lemma ids_notin: "distinct (map ch_id (xs @ c # ys)) \<Longrightarrow> x \<in> set xs \<or> x \<in> set ys \<Longrightarrow> ch_id x \<noteq> ch_id c"
  by (auto simp: image_iff)

lemma skip_ids:
  assumes "distinct (map ch_id (xs @ c # ys))"
  shows "dropWhile (\<lambda>d. ch_id d \<noteq> ch_id c) (xs @ c # ys) = c # ys" "takeWhile (\<lambda>d. ch_id d \<noteq> ch_id c) (xs @ c # ys) = xs"
proof -
  have "dropWhile (\<lambda>d. ch_id d \<noteq> ch_id c) (zs @ c # ys) = c # ys \<and> takeWhile (\<lambda>d. ch_id d \<noteq> ch_id c) (zs @ c # ys) = zs"
    if "\<forall>x \<in> set zs. ch_id x \<noteq> ch_id c" for zs using that by (induction zs) auto
  then show "dropWhile (\<lambda>d. ch_id d \<noteq> ch_id c) (xs @ c # ys) = c # ys" "takeWhile (\<lambda>d. ch_id d \<noteq> ch_id c) (xs @ c # ys) = xs"
    using ids_notin [OF assms] by blast+
qed

lemma rest_split:
  assumes "distinct (map ch_id (xs @ c # ys))"
  shows "rest_at (xs @ c # ys) (Some (ch_id c)) = Some ys" "set_rest (xs @ c # ys) (Some (ch_id c)) r = Some (xs @ c # r)"
  using skip_ids [OF assms] by (simp_all add: rest_at_def set_rest_def)

lemma rest_lwdp:
  assumes "distinct (map ch_id (xs @ [c]))"
  shows "rest_at (xs @ [c]) (lwdp_of (xs @ [c])) = Some [c] \<and> set_rest (xs @ [c]) (lwdp_of (xs @ [c])) r = Some (xs @ r)"
proof (cases xs rule: rev_cases)
  case Nil
  then show ?thesis by (simp add: lwdp_of_def last_of_def rest_at_def set_rest_def)
next
  case (snoc ys d)
  then show ?thesis using rest_split [of ys d "[c]"] assms by (simp add: lwdp_of_def last_of_def butlast_append)
qed

lemma chain_at_split: "distinct (map ch_id (xs @ c # ys)) \<Longrightarrow> chain_at (xs @ c # ys) (ch_id c) = Some c"
  by (induction xs) (auto simp: chain_at_def)

lemma put_chain_split:
  assumes "distinct (map ch_id (xs @ c # ys))" "ch_id c' = ch_id c"
  shows "put_chain (xs @ c # ys) c' = xs @ c' # ys"
proof -
  have "ch_id d \<noteq> ch_id c'" if "d \<in> set xs \<or> d \<in> set ys" for d using ids_notin [OF assms(1) that] assms(2) by simp
  then have "map (\<lambda>d. if ch_id d = ch_id c' then c' else d) xs = xs" "map (\<lambda>d. if ch_id d = ch_id c' then c' else d) ys = ys"
    by (auto intro!: map_idI)
  then show ?thesis using assms(2) by (simp add: put_chain_def)
qed

section \<open>Linking a chain\<close>

lemma eb_okI:
  assumes "\<forall>c \<in> set (eb_chains b). chain_ok c" "distinct (map ch_id (eb_chains b))" "eb_last b = last_of (eb_chains b)"
    "last_with_datap b = lwdp_of (eb_chains b)" "total_len b = length (contents b)"
    "length (eb_chains b) > 1 \<Longrightarrow> \<forall>c \<in> set (eb_chains b). off c \<noteq> 0"
  shows "eb_ok b"
  using assms by (simp add: eb_ok_def)

text \<open>Everything but the bytes: the settings, the callbacks and their records.\<close>

definition same_setup :: "evbuffer \<Rightarrow> evbuffer \<Rightarrow> bool" where
  "same_setup b b' \<longleftrightarrow> freeze_start b' = freeze_start b \<and> freeze_end b' = freeze_end b \<and> eb_callbacks b' = eb_callbacks b"

lemma same_setup_trans: "same_setup b b' \<Longrightarrow> same_setup b' b'' \<Longrightarrow> same_setup b b''"
  by (simp add: same_setup_def)

lemma last_snoc [simp]: "last_of (xs @ [c]) = Some (ch_id c)" "lwdp_of (xs @ [c]) = last_of xs" "last_of [] = None" "lwdp_of [] = None" "lwdp_of [c] = None"
  "lwdp_of (xs @ [d, c]) = Some (ch_id d)"
  by (simp_all add: last_of_def lwdp_of_def butlast_append)

lemma chain_insert_ok:
  assumes "eb_ok b" "chain_ok chain" "ch_id chain \<notin> ch_id ` set (eb_chains b)" "off chain \<noteq> 0 \<or> eb_chains b = []"
  shows "\<exists>b'. evbuffer_chain_insert b chain = Some b' \<and> eb_ok b' \<and> contents b' = contents b @ cdata chain \<and> same_setup b b'
    \<and> n_add_for_cb b' = n_add_for_cb b \<and> n_del_for_cb b' = n_del_for_cb b \<and> eb_calls b' = eb_calls b \<and> (eb_chains b = [] \<longrightarrow> eb_chains b' = [chain])"
proof (cases "eb_chains b" rule: rev_cases)
  case Nil
  then show ?thesis using assms cdata_len [OF assms(2)]
    by (auto simp: evbuffer_chain_insert_def rest_at_def eb_ok_def contents_def same_setup_def last_of_def)
next
  case (snoc xs c)
  note ok = assms(1)[unfolded eb_ok_def snoc]
  have d: "distinct (map ch_id (xs @ [c]))" and lw: "last_with_datap b = lwdp_of (xs @ [c])" and la: "eb_last b = Some (ch_id c)"
    and tot: "total_len b = length (contents b)" and oks: "\<forall>c \<in> set (xs @ [c]). chain_ok c" using ok by simp_all
  have dc: "distinct (map ch_id (xs @ [c, chain]))" using d assms(3) snoc by auto
  note r = rest_lwdp [OF d]
  show ?thesis
  proof (cases "off c = 0")
    case False
    have "rest_at (xs @ [c]) (Some (ch_id c)) = Some []" "set_rest (xs @ [c]) (Some (ch_id c)) [chain] = Some (xs @ [c, chain])"
      using rest_split [of xs c "[]"] d by simp_all
    then have eq: "evbuffer_chain_insert b chain = Some (b\<lparr>eb_chains := xs @ [c, chain], eb_last := Some (ch_id chain),
        last_with_datap := Some (ch_id c), total_len := total_len b + off chain\<rparr>)" (is "_ = Some ?b")
      using r lw la snoc False assms(4) by (simp add: evbuffer_chain_insert_def)
    have ct: "contents ?b = contents b @ cdata chain" using snoc by (simp add: contents_def)
    have "\<forall>c \<in> set (xs @ [c]). off c \<noteq> 0" using ok False by (cases xs) auto
    then have "eb_ok ?b"
      using oks assms(2,4) dc tot ct snoc cdata_len [OF assms(2)] by (intro eb_okI) (auto simp: last_of_def)
    then show ?thesis using eq ct snoc by (auto simp: same_setup_def)
  next
    case True
    have xs: "xs = []" using ok True by (cases xs) auto
    have eq: "evbuffer_chain_insert b chain = Some (b\<lparr>eb_chains := [chain], eb_last := Some (ch_id chain), total_len := total_len b + off chain\<rparr>)"
        (is "_ = Some ?b")
      using xs lw True snoc by (simp add: evbuffer_chain_insert_def rest_at_def set_rest_def evbuffer_chains_all_empty_def)
    have ct: "contents ?b = contents b @ cdata chain" using snoc xs True by (simp add: contents_def)
    have "eb_ok ?b" using assms(2) ct tot lw xs cdata_len [OF assms(2)] by (intro eb_okI) (auto simp: last_of_def)
    then show ?thesis using eq ct snoc by (auto simp: same_setup_def)
  qed
qed

section \<open>New chains and writing to chains\<close>

lemma grow_alloc_ok:
  assumes "0 < n"
  shows "sz \<le> grow_alloc n sz \<and> n \<le> grow_alloc n sz \<and> (grow_alloc n sz = n \<or> grow_alloc n sz < 2 * sz)"
  using assms
proof (induction n sz rule: grow_alloc.induct)
  case (1 n sz)
  then show ?case by (cases "n < sz") (auto simp: grow_alloc.simps [of n sz])
qed

lemma chain_new_ok:
  assumes "evbuffer_chain_new A a n = Some c"
  shows "ch_id c = a" "off c = 0" "misalign c = 0" "\<not> ch_immutable c" "n \<le> buffer_len c" "chain_ok c"
proof -
  let ?sz = "n + EVBUFFER_CHAIN_SIZE"
  let ?t = "if int ?sz < EVBUFFER_CHAIN_MAX div 2 then grow_alloc MIN_BUFFER_SIZE ?sz else ?sz"
  have c: "c = \<lparr>ch_id = a, ch_buffer = replicate (?t - EVBUFFER_CHAIN_SIZE) None, misalign = 0, off = 0, ch_immutable = False\<rparr>"
    and le: "int n \<le> EVBUFFER_CHAIN_MAX - int EVBUFFER_CHAIN_SIZE"
    using assms unfolding evbuffer_chain_new_def Let_def by (auto split: if_splits)
  have "0 < MIN_BUFFER_SIZE" by (simp add: MIN_BUFFER_SIZE_def)
  note g = grow_alloc_ok [OF this, of ?sz]
  show "ch_id c = a" "off c = 0" "misalign c = 0" "\<not> ch_immutable c" using c by simp_all
  have t: "?sz \<le> ?t" using g by simp
  then show "n \<le> buffer_len c" using c by simp
  have "int ?t \<le> EVBUFFER_CHAIN_MAX"
  proof (cases "int ?sz < EVBUFFER_CHAIN_MAX div 2")
    case True
    then show ?thesis using g by (auto simp: MIN_BUFFER_SIZE_def EVBUFFER_CHAIN_MAX_def)
  qed (use le in simp)
  moreover have "EVBUFFER_CHAIN_SIZE < ?t" using t g by (auto simp: MIN_BUFFER_SIZE_def EVBUFFER_CHAIN_SIZE_def EVBUFFER_CHAIN_MAX_def)
  ultimately show "chain_ok c" using c by (simp add: chain_ok_def)
qed

lemma write_behind: "m + n + length d \<le> length xs \<Longrightarrow>
    take (n + length d) (drop m (take (m + n) xs @ d @ drop (m + n + length d) xs)) = take n (drop m xs) @ d"
  by (cases d) (auto simp: drop_take min_def)

lemma write_before: "length d \<le> m \<Longrightarrow> m \<le> length xs \<Longrightarrow>
    take (n + length d) (drop (m - length d) (take (m - length d) xs @ d @ drop m xs)) = d @ take n (drop m xs)"
  by (simp add: min_def)

lemma put_behind:
  assumes "chain_ok c" "misalign c + off c + length d \<le> buffer_len c"
  shows "\<exists>m. chain_put c (misalign c + off c) d = Some (c\<lparr>ch_buffer := m\<rparr>) \<and> length m = buffer_len c
    \<and> chain_ok (c\<lparr>ch_buffer := m, off := off c + length d\<rparr>) \<and> cdata (c\<lparr>ch_buffer := m, off := off c + length d\<rparr>) = cdata c @ d"
proof -
  let ?m = "take (misalign c + off c) (ch_buffer c) @ map Some d @ drop (misalign c + off c + length d) (ch_buffer c)"
  have e: "take (off c + length d) (drop (misalign c) ?m) = take (off c) (drop (misalign c) (ch_buffer c)) @ map Some d"
    using write_behind [of "misalign c" "off c" "map Some d" "ch_buffer c"] assms(2) by simp
  have "chain_put c (misalign c + off c) d = Some (c\<lparr>ch_buffer := ?m\<rparr>)" using assms(2) by (simp add: chain_put_def mem_write_def nat_int_add)
  moreover have "length ?m = buffer_len c" using assms(2) by simp
  moreover have "chain_ok (c\<lparr>ch_buffer := ?m, off := off c + length d\<rparr>)" using assms e by (simp add: chain_ok_def)
  moreover have "cdata (c\<lparr>ch_buffer := ?m, off := off c + length d\<rparr>) = cdata c @ d" using e by (simp add: cdata_def comp_def)
  ultimately show ?thesis by blast
qed

lemma put_before:
  assumes "chain_ok c" "length d \<le> misalign c"
  shows "\<exists>m. chain_put c (misalign c - length d) d = Some (c\<lparr>ch_buffer := m\<rparr>) \<and> length m = buffer_len c
    \<and> chain_ok (c\<lparr>ch_buffer := m, off := off c + length d, misalign := misalign c - length d\<rparr>)
    \<and> cdata (c\<lparr>ch_buffer := m, off := off c + length d, misalign := misalign c - length d\<rparr>) = d @ cdata c"
proof -
  define m where "m = take (misalign c - length d) (ch_buffer c) @ map Some d @ drop (misalign c) (ch_buffer c)"
  have le: "misalign c \<le> buffer_len c" using assms(1) by (simp add: chain_ok_def)
  have e: "take (off c + length d) (drop (misalign c - length d) m) = map Some d @ take (off c) (drop (misalign c) (ch_buffer c))"
    using write_before [of "map Some d" "misalign c" "ch_buffer c" "off c"] assms(2) le by (simp add: m_def)
  have "chain_put c (misalign c - length d) d = Some (c\<lparr>ch_buffer := m\<rparr>)" using assms(2) le unfolding chain_put_def mem_write_def nat_int m_def by simp
  moreover have l: "length m = buffer_len c" using assms(2) le by (simp add: m_def)
  moreover have "chain_ok (c\<lparr>ch_buffer := m, off := off c + length d, misalign := misalign c - length d\<rparr>)"
    using assms e l by (auto simp: chain_ok_def)
  moreover have "cdata (c\<lparr>ch_buffer := m, off := off c + length d, misalign := misalign c - length d\<rparr>) = d @ cdata c"
    using e by (simp add: cdata_def comp_def)
  ultimately show ?thesis by blast
qed

lemma align_ok:
  assumes "chain_ok c" "\<not> ch_immutable c"
  shows "\<exists>m. evbuffer_chain_align c = Some (c\<lparr>ch_buffer := m, misalign := 0\<rparr>) \<and> length m = buffer_len c
    \<and> chain_ok (c\<lparr>ch_buffer := m, misalign := 0\<rparr>) \<and> cdata (c\<lparr>ch_buffer := m, misalign := 0\<rparr>) = cdata c"
proof -
  let ?d = "take (off c) (drop (misalign c) (ch_buffer c))"
  let ?m = "?d @ drop (off c) (ch_buffer c)"
  have l: "length ?d = off c" "off c \<le> buffer_len c" using assms(1) by (auto simp: chain_ok_def)
  have "evbuffer_chain_align c = Some (c\<lparr>ch_buffer := ?m, misalign := 0\<rparr>)"
    using assms l by (simp add: evbuffer_chain_align_def mem_write_def chain_ok_def)
  moreover have "take (off c) ?m = ?d" using l by simp
  moreover have "length ?m = buffer_len c" using l by simp
  ultimately show ?thesis using assms(1) l by (intro exI [of _ ?m]) (auto simp: chain_ok_def cdata_def)
qed

section \<open>Adding\<close>

lemma callbacks_sels [simp]:
  "eb_chains (evbuffer_invoke_callbacks b) = eb_chains b" "eb_last (evbuffer_invoke_callbacks b) = eb_last b"
  "last_with_datap (evbuffer_invoke_callbacks b) = last_with_datap b" "total_len (evbuffer_invoke_callbacks b) = total_len b"
  "freeze_start (evbuffer_invoke_callbacks b) = freeze_start b" "freeze_end (evbuffer_invoke_callbacks b) = freeze_end b"
  "eb_callbacks (evbuffer_invoke_callbacks b) = eb_callbacks b" "contents (evbuffer_invoke_callbacks b) = contents b"
  by (simp_all add: evbuffer_invoke_callbacks_def evbuffer_run_callbacks_def Let_def contents_def)

lemma callbacks_ok [simp]: "eb_ok (evbuffer_invoke_callbacks b) = eb_ok b" "same_setup b (evbuffer_invoke_callbacks b')= same_setup b b'"
  by (simp_all add: eb_ok_def same_setup_def)

lemma counters_ok [simp]: "eb_ok (b\<lparr>n_add_for_cb := n\<rparr>) = eb_ok b" "eb_ok (b\<lparr>n_del_for_cb := n\<rparr>) = eb_ok b"
  "contents (b\<lparr>n_add_for_cb := n\<rparr>) = contents b" "contents (b\<lparr>n_del_for_cb := n\<rparr>) = contents b"
  "same_setup b' (b\<lparr>n_add_for_cb := n\<rparr>) = same_setup b' b" "same_setup b' (b\<lparr>n_del_for_cb := n\<rparr>) = same_setup b' b"
  by (simp_all add: eb_ok_def contents_def same_setup_def)

text \<open>Replacing a chain by one with the same number that holds more bytes.\<close>

lemma last_of_same: "ch_id c' = ch_id c \<Longrightarrow> last_of (xs @ c' # ys) = last_of (xs @ c # ys)" "ch_id c' = ch_id c \<Longrightarrow> lwdp_of (xs @ c' # ys) = lwdp_of (xs @ c # ys)"
proof -
  show l: "last_of (xs @ c' # ys) = last_of (xs @ c # ys)" if "ch_id c' = ch_id c" for xs ys using that by (simp add: last_of_def)
  show "lwdp_of (xs @ c' # ys) = lwdp_of (xs @ c # ys)" if "ch_id c' = ch_id c"
    using l [OF that, of xs "butlast ys"] by (cases ys rule: rev_cases) (simp_all add: lwdp_of_def butlast_append)
qed

lemma replace_ok:
  assumes "eb_ok b" "eb_chains b = xs @ c # ys" "chain_ok c'" "ch_id c' = ch_id c" "off c' \<noteq> 0 \<or> off c = 0"
    "eb_chains b' = xs @ c' # ys" "eb_last b' = eb_last b" "last_with_datap b' = last_with_datap b"
    "total_len b' = total_len b + off c' - off c" "off c \<le> off c'"
  shows "eb_ok b'"
proof -
  have l: "total_len b = length (contents b)" using assms(1) by (simp add: eb_ok_def)
  have c: "chain_ok c" using assms(1,2) by (simp add: eb_ok_def)
  have "length (contents b') = length (contents b) + off c' - off c"
    using assms(2,6,10) cdata_len [OF c] cdata_len [OF assms(3)] by (simp add: contents_def)
  moreover have "length (eb_chains b') > 1 \<Longrightarrow> \<forall>c \<in> set (eb_chains b'). off c \<noteq> 0" using assms(1,2,5,6) by (auto simp: eb_ok_def)
  ultimately show ?thesis
    using assms l last_of_same [OF assms(4), of xs ys] by (intro eb_okI) (auto simp: eb_ok_def)
qed

lemma append_to_ok:
  assumes "eb_ok b" "eb_chains b = xs @ [c0]" "chain_ok c" "ch_id c = ch_id c0" "off c = off c0" "cdata c = cdata c0"
    "misalign c + off c + length d \<le> buffer_len c"
  shows "\<exists>b'. append_to b c d = Some b' \<and> eb_ok b' \<and> contents b' = contents b @ d \<and> same_setup b b'
    \<and> n_add_for_cb b' = n_add_for_cb b + length d \<and> n_del_for_cb b' = n_del_for_cb b \<and> eb_calls b' = eb_calls b \<and> (\<exists>c'. eb_chains b' = xs @ [c'] \<and> ch_id c' = ch_id c0)"
proof -
  obtain m where m: "chain_put c (misalign c + off c) d = Some (c\<lparr>ch_buffer := m\<rparr>)" "chain_ok (c\<lparr>ch_buffer := m, off := off c + length d\<rparr>)"
    "cdata (c\<lparr>ch_buffer := m, off := off c + length d\<rparr>) = cdata c @ d" using put_behind [OF assms(3,7)] by blast
  let ?c = "c\<lparr>ch_buffer := m, off := off c + length d\<rparr>"
  have d: "distinct (map ch_id (xs @ [c0]))" using assms(1,2) by (simp add: eb_ok_def)
  have "put_chain (xs @ [c0]) ?c = xs @ [?c]" by (rule put_chain_split [OF d]) (use assms(4) in simp)
  then have eq: "append_to b c d = Some (add_len (b\<lparr>eb_chains := xs @ [?c]\<rparr>) (length d))" (is "_ = Some ?b")
    using m(1) assms(2) by (simp add: append_to_def)
  have "eb_ok ?b" by (rule replace_ok [OF assms(1,2) m(2)]) (use assms(4,5) in \<open>auto simp: add_len_def\<close>)
  moreover have "contents ?b = contents b @ d" using assms(2,6) m(3) by (simp add: contents_def add_len_def)
  ultimately show ?thesis using eq assms(4) by (auto simp: same_setup_def add_len_def)
qed

text \<open>What an operation that adds bytes gives: success with all of them, or failure with nothing changed.\<close>

definition adds :: "evbuffer \<Rightarrow> u8 list \<Rightarrow> (int \<times> evbuffer) option \<Rightarrow> bool" where
  "adds b d x \<longleftrightarrow> (\<exists>r b'. x = Some (r, b') \<and> eb_ok b' \<and> same_setup b b' \<and> (r = 0 \<and> contents b' = contents b @ d \<or> r = - 1 \<and> b' = b))"

lemma add_in_new_chain_ok:
  assumes "eb_ok b" "eb_chains b = xs @ [c]" "remain = (if ch_immutable c then 0 else buffer_len c - misalign c - off c)"
    "remain < length d" "a \<notin> ch_id ` set (eb_chains b)"
  shows "adds b d (add_in_new_chain A a b c remain d)"
proof -
  let ?t = "let t = (if buffer_len c \<le> 2048 then buffer_len c * 2 else buffer_len c) in if length d > t then length d else t"
  have c: "chain_ok c" using assms(1,2) by (simp add: eb_ok_def)
  show ?thesis
  proof (cases "evbuffer_chain_new A a ?t")
    case None
    then show ?thesis using assms(1) by (simp add: adds_def add_in_new_chain_def same_setup_def Let_def)
  next
    case (Some tmp)
    note n = chain_new_ok [OF Some]
    obtain b1 where b1: "(if remain \<noteq> 0 then append_to b c (take remain d) else Some b) = Some b1" "eb_ok b1" "contents b1 = contents b @ take remain d"
      "same_setup b b1" "ch_id ` set (eb_chains b1) = ch_id ` set (eb_chains b)"
    proof (cases "remain = 0")
      case False
      have "misalign c + off c + length (take remain d) \<le> buffer_len c" using False assms(3,4) c by (auto simp: chain_ok_def split: if_splits)
      from append_to_ok [OF assms(1,2) c refl refl refl this] obtain b' c' where "append_to b c (take remain d) = Some b'" "eb_ok b'"
        "contents b' = contents b @ take remain d" "same_setup b b'" "eb_chains b' = xs @ [c']" "ch_id c' = ch_id c" by blast
      then show thesis using that [of b'] False assms(2) by simp
    qed (use that [of b] assms(1) in \<open>simp add: same_setup_def\<close>)
    have "misalign tmp + off tmp + length (drop remain d) \<le> buffer_len tmp" using n(2,3,5) by (auto simp: Let_def split: if_splits)
    from put_behind [OF n(6) this] obtain m where m: "chain_put tmp 0 (drop remain d) = Some (tmp\<lparr>ch_buffer := m\<rparr>)"
      "chain_ok (tmp\<lparr>ch_buffer := m, off := length d - remain\<rparr>)" "cdata (tmp\<lparr>ch_buffer := m, off := length d - remain\<rparr>) = drop remain d"
      using n(2,3) by auto
    have f: "ch_id (tmp\<lparr>ch_buffer := m, off := length d - remain\<rparr>) \<notin> ch_id ` set (eb_chains b1)" using assms(5) b1(5) n(1) by simp
    have "off (tmp\<lparr>ch_buffer := m, off := length d - remain\<rparr>) \<noteq> 0 \<or> eb_chains b1 = []" using assms(4) by simp
    from chain_insert_ok [OF b1(2) m(2) f this] obtain b2 where "evbuffer_chain_insert b1 (tmp\<lparr>ch_buffer := m, off := length d - remain\<rparr>) = Some b2"
      "eb_ok b2" "contents b2 = contents b1 @ drop remain d" "same_setup b1 b2" unfolding m(3) by blast
    then show ?thesis using Some b1 m(1) same_setup_trans [OF b1(4)] by (simp add: adds_def add_in_new_chain_def Let_def)
  qed
qed

lemma evbuffer_add_ok:
  assumes "eb_ok b" "d \<noteq> []" "a \<notin> ch_id ` set (eb_chains b)"
  shows "adds b d (evbuffer_add A a b d)"
proof (cases "freeze_end b \<or> int (length d) > EV_SIZE_MAX - int (total_len b)")
  case True
  then show ?thesis using assms(1) by (auto simp: adds_def evbuffer_add_def same_setup_def)
next
  case False
  show ?thesis
  proof (cases "eb_chains b" rule: rev_cases)
    case Nil
    then have la: "eb_last b = None" using assms(1) by (simp add: eb_ok_def)
    show ?thesis
    proof (cases "evbuffer_chain_new A a (length d)")
      case None
      then show ?thesis using False la assms(1) by (simp add: adds_def evbuffer_add_def evbuffer_chain_insert_new_def same_setup_def)
    next
      case (Some c)
      note n = chain_new_ok [OF Some]
      have "ch_id c \<notin> ch_id ` set (eb_chains b)" "off c \<noteq> 0 \<or> eb_chains b = []" using Nil by simp_all
      from chain_insert_ok [OF assms(1) n(6) this] obtain b1 where b1: "evbuffer_chain_insert b c = Some b1" "eb_ok b1"
        "contents b1 = contents b" "same_setup b b1" "eb_chains b1 = [] @ [c]" using Nil n(2) by auto
      have fit: "misalign c + off c + length d \<le> buffer_len c" using n(2,3,5) by simp
      from append_to_ok [OF b1(2,5) n(6) refl refl refl fit] obtain b2 where "append_to b1 c d = Some b2" "eb_ok b2" "contents b2 = contents b1 @ d"
        "same_setup b1 b2" by blast
      then show ?thesis using False la Some b1 n(2-5) same_setup_trans [OF b1(4)]
        by (simp add: adds_def evbuffer_add_def evbuffer_chain_insert_new_def EVBUFFER_CHAIN_MAX_def)
    qed
  next
    case (snoc xs c)
    have d: "distinct (map ch_id (xs @ [c]))" and la: "eb_last b = Some (ch_id c)" and c: "chain_ok c" using assms(1) snoc by (simp_all add: eb_ok_def)
    have at: "chain_at (eb_chains b) (ch_id c) = Some c" using chain_at_split [of xs c "[]"] d snoc by simp
    have m: "\<not> int (misalign c) > EVBUFFER_CHAIN_MAX" using c by (auto simp: chain_ok_def)
    let ?remain = "buffer_len c - misalign c - off c"
    note new = add_in_new_chain_ok [OF assms(1) snoc _ _ assms(3), of _ d A]
    consider "ch_immutable c" | "\<not> ch_immutable c" "length d \<le> ?remain" | "\<not> ch_immutable c" "?remain < length d" "evbuffer_chain_should_realign c (length d)"
      | "\<not> ch_immutable c" "?remain < length d" "\<not> evbuffer_chain_should_realign c (length d)" by linarith
    then show ?thesis
    proof cases
      case 1
      then show ?thesis using new [of 0] False la at assms(2) by (simp add: evbuffer_add_def)
    next
      case 2
      then have "misalign c + off c + length d \<le> buffer_len c" using c assms(2) by (cases d) (auto simp: chain_ok_def)
      from append_to_ok [OF assms(1) snoc c refl refl refl this] obtain b1 where "append_to b c d = Some b1" "eb_ok b1" "contents b1 = contents b @ d"
        "same_setup b b1" by blast
      then show ?thesis using 2 False la at m by (simp add: adds_def evbuffer_add_def)
    next
      case 3
      obtain mm where al: "evbuffer_chain_align c = Some (c\<lparr>ch_buffer := mm, misalign := 0\<rparr>)" "length mm = buffer_len c"
        "chain_ok (c\<lparr>ch_buffer := mm, misalign := 0\<rparr>)" "cdata (c\<lparr>ch_buffer := mm, misalign := 0\<rparr>) = cdata c" using align_ok [OF c 3(1)] by blast
      let ?c = "c\<lparr>ch_buffer := mm, misalign := 0\<rparr>"
      have "misalign ?c + off ?c + length d \<le> buffer_len ?c" using 3(3) al(2) c by (auto simp: evbuffer_chain_should_realign_def chain_ok_def)
      from append_to_ok [OF assms(1) snoc al(3) _ _ al(4) this] obtain b1 where "append_to b ?c d = Some b1" "eb_ok b1" "contents b1 = contents b @ d"
        "same_setup b b1" by auto
      then show ?thesis using 3 False la at m al(1) by (simp add: adds_def evbuffer_add_def)
    next
      case 4
      then show ?thesis using new [of ?remain] False la at m by (simp add: evbuffer_add_def)
    qed
  qed
qed

section \<open>Reading and removing\<close>

lemma copy_chains_ok:
  "\<forall>c \<in> set cs. chain_ok c \<Longrightarrow> n \<le> length (concat (map cdata cs)) \<Longrightarrow> copy_chains n cs = Some (take n (concat (map cdata cs)))"
proof (induction cs arbitrary: n)
  case (Cons c cs)
  have c: "chain_ok c" using Cons.prems by simp
  show ?case
  proof (cases "off c \<le> n")
    case True
    have "copy_chains (n - off c) cs = Some (take (n - off c) (concat (map cdata cs)))"
      by (rule Cons.IH) (use Cons.prems cdata_len [OF c] in auto)
    then show ?thesis using True chain_bytes_all [OF c] cdata_len [OF c] by simp
  next
    case False
    then show ?thesis using chain_bytes_ok [OF c, of n] cdata_len [OF c] by simp
  qed
qed simp

lemma last_of_append [simp]: "ys \<noteq> [] \<Longrightarrow> last_of (xs @ ys) = last_of ys"
  by (simp add: last_of_def)

lemma rest_at_lwdp_suffix:
  assumes "distinct (map ch_id (ps @ c # d # cs))"
  shows "rest_at (ps @ c # d # cs) (lwdp_of (c # d # cs)) = Some [last (d # cs)]" "ch_id (last (d # cs)) \<noteq> ch_id c"
proof -
  obtain zs z where z: "d # cs = zs @ [z]" by (metis list.distinct(1) rev_exhaust)
  have "rest_at ((ps @ c # zs) @ [z]) (lwdp_of ((ps @ c # zs) @ [z])) = Some [z]" using rest_lwdp [of "ps @ c # zs" z "[]"] assms z by simp
  moreover have "lwdp_of ((ps @ c # zs) @ [z]) = lwdp_of (c # d # cs)"
    unfolding last_snoc z using last_snoc(2) [of "c # zs" z] by (simp add: last_of_def)
  ultimately show "rest_at (ps @ c # d # cs) (lwdp_of (c # d # cs)) = Some [last (d # cs)]" using z by simp
  have "last (d # cs) \<in> set (d # cs)" by (rule last_in_set) simp
  then show "ch_id (last (d # cs)) \<noteq> ch_id c" using ids_notin [OF assms] by blast
qed

lemma lwdp_tail: "(if lwdp_of (c # d # cs) = Some (ch_id c) then None else lwdp_of (c # d # cs)) = lwdp_of (d # cs)" if "distinct (map ch_id (c # d # cs))"
proof (cases cs rule: rev_cases)
  case Nil
  then show ?thesis using last_snoc(2) [of "[c]" d] by (simp add: last_of_def)
next
  case (snoc zs z)
  have "lwdp_of (c # d # cs) = last_of (d # zs)" "lwdp_of (d # cs) = last_of (d # zs)"
    using snoc last_snoc(2) [of "c # d # zs" z] last_snoc(2) [of "d # zs" z] by (simp_all add: last_of_def)
  moreover have "last_of (d # zs) = Some (ch_id (last (d # zs)))" "last (d # zs) \<in> set (d # zs)" by (simp_all add: last_of_def)
  ultimately show ?thesis using that snoc ids_notin [of "[]" c "d # zs"] by auto
qed

lemma drain_loop_ok:
  assumes "distinct (map ch_id (ps @ cs))" "\<forall>c \<in> set cs. chain_ok c" "n < length (concat (map cdata cs))"
  shows "\<exists>ms c rest k. cs = ms @ c # rest \<and> drain_loop (ps @ cs) n (lwdp_of cs) cs = Some (k, lwdp_of (c # rest), c # rest)
    \<and> n = length (concat (map cdata ms)) + k \<and> k < off c"
  using assms
proof (induction cs arbitrary: ps n)
  case (Cons c cs)
  have c: "chain_ok c" using Cons.prems by simp
  show ?case
  proof (cases "off c \<le> n")
    case True
    have n: "n - off c < length (concat (map cdata cs))" using Cons.prems(3) True cdata_len [OF c] by simp
    obtain d ds where cs: "cs = d # ds" using n by (cases cs) auto
    have dd: "distinct (map ch_id ((ps @ [c]) @ cs))" "\<forall>c \<in> set cs. chain_ok c" using Cons.prems by simp_all
    obtain ms e rest k where ih: "cs = ms @ e # rest" "drain_loop ((ps @ [c]) @ cs) (n - off c) (lwdp_of cs) cs = Some (k, lwdp_of (e # rest), e # rest)"
      "n - off c = length (concat (map cdata ms)) + k" "k < off e" using Cons.IH [OF dd n] by blast
    have "distinct (map ch_id (c # d # ds))" using Cons.prems(1) cs by simp
    note l = lwdp_tail [OF this]
    have r: "rest_at (ps @ c # cs) (lwdp_of (c # cs)) = Some [last cs]" "ch_id (last cs) \<noteq> ch_id c"
      using rest_at_lwdp_suffix [of ps c d ds] Cons.prems(1) cs by simp_all
    have "drain_loop (ps @ c # cs) n (lwdp_of (c # cs)) (c # cs) = Some (k, lwdp_of (e # rest), e # rest)"
      using True r l ih(2) cs by (simp add: first_id_def)
    moreover have "n = length (concat (map cdata (c # ms))) + k" using ih(3) True cdata_len [OF c] by simp
    ultimately show ?thesis using ih(1,4) by (intro exI [of _ "c # ms"] exI [of _ e] exI [of _ rest] exI [of _ k]) simp
  next
    case False
    then show ?thesis by (intro exI [of _ "[]"] exI [of _ c] exI [of _ cs] exI [of _ n]) simp
  qed
qed simp

lemma drop_concat: "n = length (concat (map cdata ms)) + k \<Longrightarrow> k \<le> length (cdata c) \<Longrightarrow>
    drop n (concat (map cdata (ms @ c # rest))) = drop k (cdata c) @ concat (map cdata rest)"
  by simp

lemma suffix_ok:
  assumes "eb_ok b" "eb_chains b = ms @ c # rest" "n = length (concat (map cdata ms)) + k" "k < off c"
    "eb_chains b' = cut_front c k # rest" "eb_last b' = eb_last b" "last_with_datap b' = lwdp_of (c # rest)" "total_len b' = total_len b - n"
  shows "eb_ok b'" "contents b' = drop n (contents b)"
proof -
  have ok: "\<forall>x \<in> set (ms @ c # rest). chain_ok x" "distinct (map ch_id (ms @ c # rest))" "eb_last b = last_of (ms @ c # rest)" "total_len b = length (contents b)"
    "length (ms @ c # rest) > 1 \<longrightarrow> (\<forall>c \<in> set (ms @ c # rest). off c \<noteq> 0)" using assms(1,2) by (simp_all add: eb_ok_def)
  have c: "chain_ok c" using ok(1) by simp
  have cut: "chain_ok (cut_front c k)" "cdata (cut_front c k) = drop k (cdata c)" using cut_front_ok [OF c] assms(4) by simp_all
  have "k \<le> length (cdata c)" using assms(4) cdata_len [OF c] by simp
  then show ct: "contents b' = drop n (contents b)" using cut(2) assms(2,3,5) drop_concat [OF assms(3)] by (simp add: contents_def)
  show "eb_ok b'"
    using ok assms(4-8) ct cut(1) last_of_same [of "cut_front c k" c "[]" rest] by (intro eb_okI) auto
qed

lemma evbuffer_drain_ok:
  assumes "eb_ok b"
  shows "\<exists>r b'. evbuffer_drain b n = Some (r, b') \<and> eb_ok b' \<and> same_setup b b'
    \<and> (if freeze_start b \<and> contents b \<noteq> [] then r = - 1 \<and> b' = b else r = 0 \<and> contents b' = drop n (contents b))"
proof -
  have tot: "total_len b = length (contents b)" using assms by (simp add: eb_ok_def)
  consider "total_len b = 0" | "total_len b \<noteq> 0" "freeze_start b" | "total_len b \<noteq> 0" "\<not> freeze_start b" "total_len b \<le> n"
    | "total_len b \<noteq> 0" "\<not> freeze_start b" "n < total_len b" by linarith
  then show ?thesis
  proof cases
    case 3
    have "eb_ok (ZERO_CHAIN b)" "contents (ZERO_CHAIN b) = []" "same_setup b (ZERO_CHAIN b)"
      by (simp_all add: eb_ok_def ZERO_CHAIN_def contents_def same_setup_def)
    then show ?thesis using 3 tot by (simp add: evbuffer_drain_def)
  next
    case 4
    have "distinct (map ch_id ([] @ eb_chains b))" "\<forall>c \<in> set (eb_chains b). chain_ok c" "n < length (concat (map cdata (eb_chains b)))"
      using assms 4(3) by (simp_all add: eb_ok_def contents_def)
    note loop = drain_loop_ok [OF this]
    have lw: "last_with_datap b = lwdp_of (eb_chains b)" using assms by (simp add: eb_ok_def)
    from loop obtain ms c rest k where d: "eb_chains b = ms @ c # rest"
      "drain_loop (eb_chains b) n (last_with_datap b) (eb_chains b) = Some (k, lwdp_of (c # rest), c # rest)"
      "n = length (concat (map cdata ms)) + k" "k < off c" unfolding append_Nil lw by blast
    let ?b = "b\<lparr>eb_chains := cut_front c k # rest, last_with_datap := lwdp_of (c # rest), total_len := total_len b - n\<rparr>"
    have "eb_ok ?b" "contents ?b = drop n (contents b)" using suffix_ok [OF assms d(1,3,4), of ?b] by simp_all
    then show ?thesis using 4 d(2) tot by (simp add: evbuffer_drain_def same_setup_def)
  qed (use assms tot in \<open>simp_all add: evbuffer_drain_def same_setup_def\<close>)
qed

lemma evbuffer_copyout_ok:
  assumes "eb_ok b"
  shows "evbuffer_copyout b n = Some (if freeze_start b \<and> n \<noteq> 0 \<and> contents b \<noteq> [] then (- 1, [])
    else (int (min n (length (contents b))), take n (contents b)))"
proof -
  have tot: "total_len b = length (contents b)" and oks: "\<forall>c \<in> set (eb_chains b). chain_ok c" using assms by (simp_all add: eb_ok_def)
  have "copy_chains (min n (length (contents b))) (eb_chains b) = Some (take (min n (length (contents b))) (contents b))"
    using copy_chains_ok [OF oks, of "min n (length (contents b))"] by (simp add: contents_def)
  then show ?thesis using tot by (cases "n = 0 \<or> contents b = []") (auto simp: evbuffer_copyout_def Let_def min_def)
qed

lemma evbuffer_remove_ok:
  assumes "eb_ok b" "\<not> freeze_start b"
  shows "\<exists>b'. evbuffer_remove b n = Some (as_int (int (min n (length (contents b)))), take n (contents b), b') \<and> eb_ok b' \<and> same_setup b b'
    \<and> contents b' = drop n (contents b)"
proof -
  let ?n = "min n (length (contents b))"
  have c: "evbuffer_copyout b n = Some (int ?n, take n (contents b))" using evbuffer_copyout_ok [OF assms(1)] assms(2) by simp
  show ?thesis
  proof (cases "?n = 0")
    case True
    then have "n = 0 \<or> contents b = []" by (auto simp: min_def split: if_splits)
    then have "drop n (contents b) = contents b" by auto
    then show ?thesis using True c assms(1) by (simp add: evbuffer_remove_def same_setup_def)
  next
    case False
    obtain b' where "evbuffer_drain b ?n = Some (0, b')" "eb_ok b'" "same_setup b b'" "contents b' = drop ?n (contents b)"
      using evbuffer_drain_ok [OF assms(1), of ?n] assms(2) by auto
    moreover have "drop ?n (contents b) = drop n (contents b)" by (simp add: min_def)
    ultimately show ?thesis using False c by (simp add: evbuffer_remove_def nat_int)
  qed
qed

section \<open>Pulling bytes up\<close>

lemma pull_loop_ok:
  "\<forall>c \<in> set cs. chain_ok c \<Longrightarrow> n \<le> length (concat (map cdata cs)) \<Longrightarrow>
    \<exists>ms rest m. cs = ms @ rest \<and> pull_loop lwd lwdp n cs = Some (concat (map cdata ms), m, rest, lwd \<in> Some ` ch_id ` set ms, lwdp \<in> Some ` ch_id ` set ms)
      \<and> n = length (concat (map cdata ms)) + m \<and> (rest = [] \<longrightarrow> m = 0) \<and> (\<forall>c r. rest = c # r \<longrightarrow> m < off c)"
proof (induction cs arbitrary: n)
  case (Cons c cs)
  have c: "chain_ok c" using Cons.prems by simp
  show ?case
  proof (cases "off c \<le> n")
    case True
    have "n - off c \<le> length (concat (map cdata cs))" "\<forall>c \<in> set cs. chain_ok c" using Cons.prems True cdata_len [OF c] by simp_all
    then obtain ms rest m where ih: "cs = ms @ rest"
      "pull_loop lwd lwdp (n - off c) cs = Some (concat (map cdata ms), m, rest, lwd \<in> Some ` ch_id ` set ms, lwdp \<in> Some ` ch_id ` set ms)"
      "n - off c = length (concat (map cdata ms)) + m" "rest = [] \<longrightarrow> m = 0" "\<forall>c r. rest = c # r \<longrightarrow> m < off c" using Cons.IH by blast
    have "pull_loop lwd lwdp n (c # cs) = Some (concat (map cdata (c # ms)), m, rest, lwd \<in> Some ` ch_id ` set (c # ms), lwdp \<in> Some ` ch_id ` set (c # ms))"
      using True ih(2) chain_bytes_all [OF c] by auto
    moreover have "n = length (concat (map cdata (c # ms))) + m" using ih(3) True cdata_len [OF c] by simp
    ultimately show ?thesis using ih(1,4,5) by (intro exI [of _ "c # ms"] exI [of _ rest] exI [of _ m]) simp
  next
    case False
    then show ?thesis by (intro exI [of _ "[]"] exI [of _ "c # cs"] exI [of _ n]) simp
  qed
qed simp

text \<open>Which chains the flags of the loop speak of, when the first chains \<open>ms\<close> are gone.\<close>

lemma last_mem: "cs \<noteq> [] \<Longrightarrow> last_of (xs @ cs) \<in> Some ` ch_id ` set cs"
  by (simp add: last_of_def)

lemma lwdp_removed:
  assumes "distinct (map ch_id (t # ms @ c # r))"
  shows "(if lwdp_of (t # ms @ c # r) \<in> Some ` ch_id ` set ms then Some (ch_id t) else lwdp_of (t # ms @ c # r)) = lwdp_of (t # c # r)"
    "last_of (t # ms @ c # r) \<notin> Some ` ch_id ` set ms"
proof -
  have out: "Some (ch_id x) \<notin> Some ` ch_id ` set ms" if "x \<in> set (c # r)" for x using assms that by (auto simp: image_iff)
  have "last (c # r) \<in> set (c # r)" by (rule last_in_set) simp
  then show "last_of (t # ms @ c # r) \<notin> Some ` ch_id ` set ms" using out by (simp add: last_of_def)
  show "(if lwdp_of (t # ms @ c # r) \<in> Some ` ch_id ` set ms then Some (ch_id t) else lwdp_of (t # ms @ c # r)) = lwdp_of (t # c # r)"
  proof (cases r rule: rev_cases)
    case Nil
    then have "lwdp_of (t # ms @ c # r) = last_of (t # ms)" "lwdp_of (t # c # r) = Some (ch_id t)"
      using last_snoc(2) [of "t # ms" c] last_snoc(2) [of "[t]" c] by (simp_all add: last_of_def)
    then show ?thesis by (auto simp: last_of_def)
  next
    case (snoc zs z)
    have "lwdp_of (t # ms @ c # r) = last_of (c # zs)" "lwdp_of (t # c # r) = last_of (c # zs)"
      using snoc last_snoc(2) [of "t # ms @ c # zs" z] last_snoc(2) [of "t # c # zs" z] by (simp_all add: last_of_def)
    moreover have "last (c # zs) \<in> set (c # r)" using snoc last_in_set [of "c # zs"] by (cases zs) auto
    ultimately show ?thesis using out by (simp add: last_of_def)
  qed
qed

lemma pull_into_ok:
  assumes "\<forall>c \<in> set cs. chain_ok c \<and> off c \<noteq> 0" "distinct (map ch_id (tmp # cs))" "cs \<noteq> []" "last_with_datap b = lwdp_of (tmp # cs)"
    "eb_last b = last_of cs" "n \<le> length (concat (map cdata cs))" "0 < n"
    "\<And>bs. length bs = n \<Longrightarrow> \<exists>t. chain_put tmp pos bs = Some t \<and> chain_ok t \<and> cdata t = pre @ bs \<and> ch_id t = ch_id tmp \<and> off t = length pre + n"
    "total_len b = length pre + length (concat (map cdata cs))"
  shows "\<exists>b' t. pull_into b tmp pos n (tmp # cs) cs = Some b' \<and> eb_ok b' \<and> contents b' = pre @ concat (map cdata cs) \<and> same_setup b b'
    \<and> hd (eb_chains b') = t \<and> eb_chains b' \<noteq> [] \<and> ch_id t = ch_id tmp \<and> off t = length pre + n"
proof -
  obtain c0 cs0 where cs0: "cs = c0 # cs0" using assms(3) by (cases cs) auto
  have lwd: "rest_at (tmp # cs) (last_with_datap b) = Some [last cs]"
    using rest_at_lwdp_suffix(1) [of "[]" tmp c0 cs0] assms(2,4) cs0 by simp
  have oks: "\<forall>c \<in> set cs. chain_ok c" using assms(1) by blast
  obtain ms rest m where l: "cs = ms @ rest" "pull_loop (first_id [last cs]) (last_with_datap b) n cs
        = Some (concat (map cdata ms), m, rest, first_id [last cs] \<in> Some ` ch_id ` set ms, last_with_datap b \<in> Some ` ch_id ` set ms)"
    "n = length (concat (map cdata ms)) + m" "rest = [] \<longrightarrow> m = 0" "\<forall>c r. rest = c # r \<longrightarrow> m < off c" 
    using pull_loop_ok [OF oks assms(6), of "first_id [last cs]" "last_with_datap b"] by (elim exE conjE, intro that) assumption+
  have fl: "first_id [last cs] = last_of (tmp # cs)" using assms(3) by (simp add: first_id_def last_of_def)
  show ?thesis
  proof (cases rest)
    case Nil
    then have ms: "cs = ms" "n = length (concat (map cdata ms))" using l by simp_all
    obtain t where t: "chain_put tmp pos (concat (map cdata ms)) = Some t" "chain_ok t" "cdata t = pre @ concat (map cdata ms)" "ch_id t = ch_id tmp" "off t = length pre + n"
      using assms(8) ms(2) by blast
    have "first_id [last cs] \<in> Some ` ch_id ` set ms" using assms(3) ms(1) by (simp add: first_id_def)
    then have eq: "pull_into b tmp pos n (tmp # cs) cs = Some (b\<lparr>eb_chains := [t], eb_last := Some (ch_id t), last_with_datap := None\<rparr>)" (is "_ = Some ?b")
      using lwd l(2) Nil t(1,4) by (simp add: pull_into_def)
    have "eb_ok ?b" using t assms(9) ms by (intro eb_okI) (auto simp: contents_def last_of_def)
    then show ?thesis using eq t ms(1) by (auto simp: contents_def same_setup_def)
  next
    case (Cons c r)
    have m: "m < off c" using l(5) Cons by simp
    have c: "chain_ok c" using oks l(1) Cons by simp
    have len: "length (concat (map cdata ms) @ take m (cdata c)) = n" using l(3) m cdata_len [OF c] by simp
    obtain t where t: "chain_put tmp pos (concat (map cdata ms) @ take m (cdata c)) = Some t" "chain_ok t"
      "cdata t = pre @ concat (map cdata ms) @ take m (cdata c)" "ch_id t = ch_id tmp" "off t = length pre + n" using assms(8) [OF len] by blast
    have d: "distinct (map ch_id (tmp # ms @ c # r))" using assms(2) l(1) Cons by simp
    note rm = lwdp_removed [OF d]
    have lw: "last_with_datap b = lwdp_of (tmp # ms @ c # r)" using assms(4) l(1) Cons by simp
    have nr: "first_id [last cs] \<notin> Some ` ch_id ` set ms" using rm(2) fl l(1) Cons by simp
    have cb: "chain_bytes c m = Some (take m (cdata c))" using chain_bytes_ok [OF c] m by simp
    have eq: "pull_into b tmp pos n (tmp # cs) cs = Some (b\<lparr>eb_chains := t # cut_front c m # r, last_with_datap := lwdp_of (tmp # c # r)\<rparr>)" (is "_ = Some ?b")
    proof -
      let ?p = "last_with_datap b \<in> Some ` ch_id ` set ms"
      have "pull_into b tmp pos n (tmp # cs) cs = Some (b\<lparr>eb_chains := t # cut_front c m # r, eb_last := eb_last b,
          last_with_datap := if ?p then Some (ch_id t) else last_with_datap b\<rparr>)"
        using lwd l(2) Cons t(1) nr m cb by (simp add: pull_into_def)
      moreover have "(if ?p then Some (ch_id t) else last_with_datap b) = lwdp_of (tmp # c # r)" unfolding t(4) by (rule rm(1) [folded lw])
      moreover have "b\<lparr>eb_chains := X, eb_last := eb_last b, last_with_datap := y\<rparr> = b\<lparr>eb_chains := X, last_with_datap := y\<rparr>" for X y by (cases b) simp
      ultimately show ?thesis by simp
    qed
    have cut: "chain_ok (cut_front c m)" "cdata (cut_front c m) = drop m (cdata c)" using cut_front_ok [OF c] m by simp_all
    have "take m (cdata c) @ drop m (cdata c) @ concat (map cdata r) = cdata c @ concat (map cdata r)" by simp
    then have ct: "contents ?b = pre @ concat (map cdata cs)" using t(3) cut(2) l(1) Cons by (simp add: contents_def del: append_take_drop_id)
    have "lwdp_of (t # cut_front c m # r) = lwdp_of (tmp # c # r)"
      using last_of_same(2) [of t tmp "[]" "cut_front c m # r"] last_of_same(2) [of "cut_front c m" c "[tmp]" r] t(4) by simp
    moreover have "last_of (t # cut_front c m # r) = eb_last b"
      using last_of_same(1) [of "cut_front c m" c "[t]" r] assms(5) l(1) Cons by (simp add: last_of_def)
    moreover have "\<forall>x \<in> set (t # cut_front c m # r). off x \<noteq> 0 \<and> chain_ok x" using t cut(1) m assms(1,7) l(1) Cons by auto
    moreover have "distinct (map ch_id (t # cut_front c m # r))" using d t(4) by auto
    ultimately have "eb_ok ?b" using ct assms(9) by (intro eb_okI) auto
    then show ?thesis using eq ct t by (auto simp: same_setup_def)
  qed
qed

lemma contents_Cons: "eb_chains b = c # cs \<Longrightarrow> contents b = cdata c @ concat (map cdata cs)"
  by (simp add: contents_def)

lemma chain_put_off: "chain_put (c\<lparr>off := n\<rparr>) p d = map_option (\<lambda>c. c\<lparr>off := n\<rparr>) (chain_put c p d)"
  by (cases "mem_write (ch_buffer c) (int p) (map Some d)") (simp_all add: chain_put_def)

lemma chain_put_Some: "chain_put c p d = Some (c\<lparr>ch_buffer := m\<rparr>) \<longleftrightarrow> mem_write (ch_buffer c) (int p) (map Some d) = Some m"
  by (auto simp: chain_put_def dest: arg_cong [where f = ch_buffer])

lemma evbuffer_pullup_ok:
  assumes "eb_ok b" "a \<notin> ch_id ` set (eb_chains b)" "n = (if sz < 0 then length (contents b) else nat sz)"
  shows "\<exists>x b'. evbuffer_pullup A a b sz = Some (x, b') \<and> eb_ok b' \<and> contents b' = contents b \<and> same_setup b b'
    \<and> (x = None \<longrightarrow> b' = b \<and> (n = 0 \<or> length (contents b) < n \<or> evbuffer_chain_new A a n = None))
    \<and> (\<forall>i. x = Some i \<longrightarrow> eb_chains b' \<noteq> [] \<and> ch_id (hd (eb_chains b')) = i \<and> 0 < n \<and> n \<le> off (hd (eb_chains b')))"
proof -
  have tot: "total_len b = length (contents b)" using assms(1) by (simp add: eb_ok_def)
  then have n: "n = (if sz < 0 then total_len b else nat sz)" using assms(3) by simp
  show ?thesis
  proof (cases "n = 0 \<or> n > total_len b")
    case True
    then show ?thesis using assms(1) tot n by (auto simp: evbuffer_pullup_def same_setup_def Let_def)
  next
    case False
    then have pos: "0 < n" "n \<le> length (contents b)" using tot by simp_all
    then obtain c cs where ch: "eb_chains b = c # cs" by (cases "eb_chains b") (auto simp: contents_def)
    have c: "chain_ok c" using assms(1) ch by (simp add: eb_ok_def)
    have ct: "contents b = cdata c @ concat (map cdata cs)" by (rule contents_Cons [OF ch])
    consider "n \<le> off c" | "off c < n" "n \<le> buffer_len c - misalign c" | "off c < n" "buffer_len c - misalign c < n" by linarith
    then show ?thesis
    proof cases
      case 1
      then show ?thesis using False pos assms(1) n ch by (auto simp: evbuffer_pullup_def same_setup_def Let_def)
    next
      case 2
      let ?t = "c\<lparr>off := n\<rparr>"
      have ne: "cs \<noteq> []" using 2(1) pos(2) ct cdata_len [OF c] by (cases cs) auto
      have oks: "\<forall>c \<in> set cs. chain_ok c \<and> off c \<noteq> 0" "distinct (map ch_id (?t # cs))" using assms(1) ch ne by (auto simp: eb_ok_def)
      have lw: "last_with_datap b = lwdp_of (?t # cs)" "eb_last b = last_of cs"
        using assms(1) ch ne last_of_same(2) [of ?t c "[]" cs] by (simp_all add: eb_ok_def last_of_def)
      have put: "\<exists>t. chain_put ?t (misalign c + off c) bs = Some t \<and> chain_ok t \<and> cdata t = cdata c @ bs \<and> ch_id t = ch_id ?t \<and> off t = length (cdata c) + (n - off c)"
        if bs: "length bs = n - off c" for bs
      proof -
        have "misalign c + off c + length bs \<le> buffer_len c" using bs 2 by simp
        from put_behind [OF c this] obtain m where "chain_put c (misalign c + off c) bs = Some (c\<lparr>ch_buffer := m\<rparr>)"
          "chain_ok (c\<lparr>ch_buffer := m, off := n\<rparr>)" "cdata (c\<lparr>ch_buffer := m, off := n\<rparr>) = cdata c @ bs" using bs 2(1) by auto
        then show ?thesis using cdata_len [OF c] 2(1) by (simp add: chain_put_off)
      qed
      have "n - off c \<le> length (concat (map cdata cs))" "0 < n - off c" "total_len b = length (cdata c) + length (concat (map cdata cs))"
        using pos(2) ct cdata_len [OF c] 2(1) tot by simp_all
      from pull_into_ok [OF oks ne lw this(1,2) put this(3)] obtain b' where "pull_into b ?t (misalign c + off c) (n - off c) (?t # cs) cs = Some b'" "eb_ok b'"
        "contents b' = contents b" "same_setup b b'" "eb_chains b' \<noteq> []" "ch_id (hd (eb_chains b')) = ch_id c" "off (hd (eb_chains b')) = n"
        unfolding ct using cdata_len [OF c] 2(1) by auto
      then show ?thesis using False n ch 2 pos(1) by (simp add: evbuffer_pullup_def Let_def)
    next
      case 3
      show ?thesis
      proof (cases "evbuffer_chain_new A a n")
        case None
        then show ?thesis using False n ch 3 assms(1) by (auto simp: evbuffer_pullup_def Let_def same_setup_def)
      next
        case (Some tmp)
        note nw = chain_new_ok [OF Some]
        let ?t = "tmp\<lparr>off := n\<rparr>"
        have "cs \<noteq> []" using 3(1) pos(2) ct cdata_len [OF c] by (cases cs) auto
        then obtain d ds where cs: "cs = d # ds" by (cases cs) auto
        have oks: "\<forall>c \<in> set (c # cs). chain_ok c \<and> off c \<noteq> 0" "distinct (map ch_id (?t # c # cs))" using assms(1,2) ch cs nw(1) by (auto simp: eb_ok_def)
        have lw: "last_with_datap b = lwdp_of (?t # c # cs)" "eb_last b = last_of (c # cs)"
          using assms(1) ch cs by (simp_all add: eb_ok_def last_of_def lwdp_of_def)
        have put: "\<exists>t. chain_put ?t 0 bs = Some t \<and> chain_ok t \<and> cdata t = [] @ bs \<and> ch_id t = ch_id ?t \<and> off t = length ([] :: u8 list) + n"
          if bs: "length bs = n" for bs
        proof -
          have "misalign tmp + off tmp + length bs \<le> buffer_len tmp" using bs nw by simp
          from put_behind [OF nw(6) this] obtain m where "chain_put tmp 0 bs = Some (tmp\<lparr>ch_buffer := m\<rparr>)"
            "chain_ok (tmp\<lparr>ch_buffer := m, off := n\<rparr>)" "cdata (tmp\<lparr>ch_buffer := m, off := n\<rparr>) = bs" using bs nw by auto
          then show ?thesis by (simp add: chain_put_off)
        qed
        have "n \<le> length (concat (map cdata (c # cs)))" "total_len b = length ([] :: u8 list) + length (concat (map cdata (c # cs)))" using pos(2) ct tot by simp_all
        from pull_into_ok [OF oks _ lw this(1) pos(1) put this(2)] obtain b' where "pull_into b ?t 0 n (?t # c # cs) (c # cs) = Some b'" "eb_ok b'"
          "contents b' = contents b" "same_setup b b'" "eb_chains b' \<noteq> []" "ch_id (hd (eb_chains b')) = ch_id tmp" "off (hd (eb_chains b')) = n" unfolding ct by auto
        then show ?thesis using False n ch 3 pos(1) Some by (simp add: evbuffer_pullup_def Let_def)
      qed
    qed
  qed
qed

section \<open>Prepending\<close>

lemma prepend_new_chain_ok:
  assumes "eb_ok b" "eb_chains b = c # cs" "off c \<noteq> 0" "d \<noteq> []" "a \<notin> ch_id ` set (eb_chains b)"
  shows "\<exists>r b'. prepend_new_chain A a b c d = Some (r, b') \<and> eb_ok b' \<and> same_setup b b'
    \<and> (r = 0 \<and> contents b' = d @ contents b \<or> r = - 1 \<and> b' = b)"
proof (cases "evbuffer_chain_new A a (length d)")
  case None
  then show ?thesis using assms(1) by (simp add: prepend_new_chain_def same_setup_def)
next
  case (Some tmp)
  note nw = chain_new_ok [OF Some]
  let ?t = "tmp\<lparr>misalign := buffer_len tmp\<rparr>"
  have t: "chain_ok ?t" using nw by (simp add: chain_ok_def)
  have "length d \<le> misalign ?t" using nw(5) by simp
  from put_before [OF t this] obtain m where pm: "chain_put ?t (misalign ?t - length d) d = Some (?t\<lparr>ch_buffer := m\<rparr>)"
    "chain_ok (?t\<lparr>ch_buffer := m, off := off ?t + length d, misalign := misalign ?t - length d\<rparr>)"
    "cdata (?t\<lparr>ch_buffer := m, off := off ?t + length d, misalign := misalign ?t - length d\<rparr>) = d @ cdata ?t" by blast
  have "mem_write (ch_buffer tmp) (int (buffer_len tmp - length d)) (map Some d) = Some m" using pm(1) unfolding chain_put_Some by simp
  moreover have "cdata ?t = []" using nw(2) by simp
  ultimately have m: "mem_write (ch_buffer tmp) (int (buffer_len tmp - length d)) (map Some d) = Some m"
    "chain_ok (tmp\<lparr>ch_buffer := m, off := length d, misalign := buffer_len tmp - length d\<rparr>)"
    "cdata (tmp\<lparr>ch_buffer := m, off := length d, misalign := buffer_len tmp - length d\<rparr>) = d"
    using pm(2,3) nw(2) by simp_all
  let ?c = "tmp\<lparr>ch_buffer := m, off := length d, misalign := buffer_len tmp - length d\<rparr>"
  let ?b = "b\<lparr>eb_chains := ?c # c # cs, last_with_datap := if last_with_datap b = None then Some (ch_id tmp) else last_with_datap b,
      total_len := total_len b + length d, n_add_for_cb := n_add_for_cb b + misalign c\<rparr>"
  have put: "chain_put (tmp\<lparr>off := length d, misalign := buffer_len tmp - length d\<rparr>) (buffer_len tmp - length d) d = Some ?c"
    using m(1) by (auto simp: chain_put_def)
  have eq: "prepend_new_chain A a b c d = Some (0, evbuffer_invoke_callbacks ?b)"
    using Some nw(5) put assms(2) by (simp add: prepend_new_chain_def Let_def)
  have ct: "contents ?b = d @ contents b" using m(3) assms(2) by (simp add: contents_def)
  have lw: "last_with_datap b = lwdp_of (c # cs)" "eb_last b = last_of (c # cs)" "distinct (map ch_id (c # cs))" using assms(1,2) by (simp_all add: eb_ok_def)
  have "(if last_with_datap b = None then Some (ch_id tmp) else last_with_datap b) = lwdp_of (?c # c # cs)"
    unfolding lw(1) by (cases cs) (simp_all add: lwdp_of_def last_of_def)
  moreover have "eb_last b = last_of (?c # c # cs)" using lw(2) by (simp add: last_of_def)
  moreover have "distinct (map ch_id (?c # c # cs))" using lw(3) assms(2,5) nw(1) by auto
  moreover have "\<forall>x \<in> set (?c # c # cs). chain_ok x \<and> off x \<noteq> 0" using m(2) assms(1-4) by (auto simp: eb_ok_def)
  ultimately have "eb_ok ?b" using ct assms(1) by (intro eb_okI) (auto simp: eb_ok_def)
  then show ?thesis using eq ct by (simp add: same_setup_def)
qed

lemma evbuffer_prepend_ok:
  assumes "eb_ok b" "d \<noteq> []" "a \<notin> ch_id ` set (eb_chains b)"
  shows "\<exists>r b'. evbuffer_prepend A a b d = Some (r, b') \<and> eb_ok b' \<and> same_setup b b'
    \<and> (r = 0 \<and> contents b' = d @ contents b \<or> r = - 1 \<and> (\<exists>k. contents b' = drop k d @ contents b))"
proof -
  define goal where "goal x \<longleftrightarrow> (\<exists>r b'. x = Some (r, b') \<and> eb_ok b' \<and> same_setup b b'
    \<and> (r = 0 \<and> contents b' = d @ contents b \<or> r = - 1 \<and> (\<exists>k. contents b' = drop k d @ contents b)))" for x :: "(int \<times> evbuffer) option"
  have "goal (evbuffer_prepend A a b d)"
  proof (cases "freeze_start b \<or> int (length d) > EV_SIZE_MAX - int (total_len b)")
    case True
    then have "evbuffer_prepend A a b d = Some (- 1, b)" by (auto simp: evbuffer_prepend_def)
    moreover have "contents b = drop (length d) d @ contents b" by simp
    ultimately show ?thesis using assms(1) unfolding goal_def same_setup_def by blast
  next
    case False
    have body: "goal (prepend_into A a b1 c d)"
      if b1: "eb_ok b1" "eb_chains b1 = c # cs" "contents b1 = contents b" "same_setup b b1" "a \<notin> ch_id ` set (c # cs) \<or> length d \<le> buffer_len c \<and> off c = 0" for b1 c cs
    proof -
      define h where "h = (if off c = 0 then c\<lparr>misalign := buffer_len c\<rparr> else c)"
      define n where "n = min (misalign h) (length d)"
      have c: "chain_ok c" using b1(1,2) by (simp add: eb_ok_def)
      have h: "chain_ok h" "ch_id h = ch_id c" "off h = off c" "cdata h = cdata c" "buffer_len h = buffer_len c" "off c = 0 \<Longrightarrow> misalign h = buffer_len c"
        using c by (auto simp: h_def chain_ok_def cdata_def)
      have len: "length (drop (length d - n) d) = n" by (simp add: n_def)
      then have "length (drop (length d - n) d) \<le> misalign h" by (simp add: n_def)
      from put_before [OF h(1) this] obtain m where m: "chain_put h (misalign h - n) (drop (length d - n) d) = Some (h\<lparr>ch_buffer := m\<rparr>)"
        "chain_ok (h\<lparr>ch_buffer := m, off := off h + n, misalign := misalign h - n\<rparr>)"
        "cdata (h\<lparr>ch_buffer := m, off := off h + n, misalign := misalign h - n\<rparr>) = drop (length d - n) d @ cdata c" unfolding len h(4) by blast
      define c' where "c' = h\<lparr>ch_buffer := m, off := off h + n, misalign := misalign h - n\<rparr>"
      define b2 where "b2 = add_len (b1\<lparr>eb_chains := c' # cs\<rparr>) n"
      have id: "ch_id c' = ch_id c" "off c' = off c + n" using h(2,3) by (simp_all add: c'_def)
      have "distinct (map ch_id ([] @ c # cs))" using b1(1,2) by (simp add: eb_ok_def)
      then have "put_chain (eb_chains b1) c' = c' # cs" using put_chain_split [of "[]" c cs c'] id(1) b1(2) by simp
      then have x: "prepend_into A a b1 c d = (if length d \<le> misalign h then Some (0, evbuffer_invoke_callbacks b2) else prepend_new_chain A a b2 c' (take (length d - n) d))"
        using m(1) by (simp add: prepend_into_def h_def [symmetric] n_def [symmetric] c'_def b2_def Let_def)
      have ct2: "contents b2 = drop (length d - n) d @ contents b"
        using m(3) b1(2,3) by (simp add: contents_def b2_def add_len_def c'_def)
      have s2: "same_setup b b2" using b1(4) by (simp add: same_setup_def b2_def add_len_def)
      show "goal (prepend_into A a b1 c d)"
      proof (cases "length d \<le> misalign h")
        case True
        then have "n \<noteq> 0" "contents b2 = d @ contents b" using ct2 assms(2) by (simp_all add: n_def)
        moreover have "eb_ok b2"
          by (rule replace_ok [where xs = "[]" and ys = cs, OF b1(1) _ m(2)])
            (use b1(2) id \<open>n \<noteq> 0\<close> in \<open>auto simp: b2_def add_len_def c'_def\<close>)
        ultimately show ?thesis using x True s2 unfolding goal_def by auto
      next
        case False
        have nm: "n = misalign h" "n < length d" using False by (simp_all add: n_def)
        have "off c' \<noteq> 0" using h(6) nm(1) c id(2) by (cases "off c = 0") (auto simp: chain_ok_def)
        moreover have ok2: "eb_ok b2"
          by (rule replace_ok [where xs = "[]" and ys = cs, OF b1(1) _ m(2)])
            (use b1(2) id \<open>off c' \<noteq> 0\<close> in \<open>auto simp: b2_def add_len_def c'_def\<close>)
        moreover have "a \<notin> ch_id ` set (eb_chains b2)" using b1(5) False h(6) id(1) by (auto simp: b2_def add_len_def)
        moreover have "eb_chains b2 = c' # cs" "take (length d - n) d \<noteq> []" using nm(2) by (auto simp: b2_def add_len_def)
        ultimately obtain r b' where p: "prepend_new_chain A a b2 c' (take (length d - n) d) = Some (r, b')" "eb_ok b'" "same_setup b2 b'"
          "r = 0 \<and> contents b' = take (length d - n) d @ contents b2 \<or> r = - 1 \<and> b' = b2"
          using prepend_new_chain_ok [of b2 c' cs "take (length d - n) d" a A] by blast
        have "take (length d - n) d @ contents b2 = d @ contents b" using ct2 by simp
        then have "r = 0 \<and> contents b' = d @ contents b \<or> r = - 1 \<and> (\<exists>k. contents b' = drop k d @ contents b)" using p(4) ct2 by auto
        then show ?thesis using x False p(1,2) same_setup_trans [OF s2 p(3)] unfolding goal_def by simp
      qed
    qed
    show ?thesis
    proof (cases "eb_chains b")
      case Nil
      show ?thesis
      proof (cases "evbuffer_chain_new A a (length d)")
        case None
        have "contents b = drop (length d) d @ contents b" by simp
        moreover have "evbuffer_prepend A a b d = Some (- 1, b)" using None False Nil by (simp add: evbuffer_prepend_def evbuffer_chain_insert_new_def)
        ultimately show ?thesis using assms(1) unfolding goal_def same_setup_def by blast
      next
        case (Some c)
        note nw = chain_new_ok [OF Some]
        have "ch_id c \<notin> ch_id ` set (eb_chains b)" "off c \<noteq> 0 \<or> eb_chains b = []" using Nil by simp_all
        from chain_insert_ok [OF assms(1) nw(6) this] obtain b1 where b1: "evbuffer_chain_insert b c = Some b1" "eb_ok b1"
          "contents b1 = contents b" "same_setup b b1" "eb_chains b1 = c # []" using Nil nw(2) by auto
        have "a \<notin> ch_id ` set [c] \<or> length d \<le> buffer_len c \<and> off c = 0" using nw by simp
        from body [OF b1(2,5,3,4) this] show ?thesis
          using False Nil Some b1(1) nw(3,4) by (simp add: evbuffer_prepend_def evbuffer_chain_insert_new_def EVBUFFER_CHAIN_MAX_def)
      qed
    next
      case (Cons c cs)
      have c: "chain_ok c" using assms(1) Cons by (simp add: eb_ok_def)
      have m: "\<not> int (misalign c) > EVBUFFER_CHAIN_MAX" using c by (auto simp: chain_ok_def)
      show ?thesis
      proof (cases "ch_immutable c")
        case True
        then have "off c \<noteq> 0" using c by (simp add: chain_ok_def)
        from prepend_new_chain_ok [OF assms(1) Cons this assms(2,3)] obtain r b' where p: "prepend_new_chain A a b c d = Some (r, b')" "eb_ok b'" "same_setup b b'"
          "r = 0 \<and> contents b' = d @ contents b \<or> r = - 1 \<and> b' = b" by blast
        have "contents b = drop (length d) d @ contents b" by simp
        then have "r = 0 \<and> contents b' = d @ contents b \<or> r = - 1 \<and> (\<exists>k. contents b' = drop k d @ contents b)" using p(4) by auto
        moreover have "evbuffer_prepend A a b d = Some (r, b')" using False Cons True p(1) by (simp add: evbuffer_prepend_def)
        ultimately show ?thesis using p(2,3) unfolding goal_def by blast
      next
        case im: False
        have "a \<notin> ch_id ` set (c # cs) \<or> length d \<le> buffer_len c \<and> off c = 0" using assms(3) Cons by simp
        from body [OF assms(1) Cons refl _ this] show ?thesis using False Cons im m by (simp add: evbuffer_prepend_def same_setup_def)
      qed
    qed
  qed
  then show ?thesis by (simp add: goal_def)
qed

end
