(* ===== verification/EvTag.thy ===== *)
theory EvTag
  imports EvBufferProps
begin

text \<open>
  Tagged data in byte queues, \<^verbatim>\<open>src/libevent/event_tagging.c\<close>: a record is a tag (seven bits in each byte, the eighth says that
  more follow), the length of its data as an integer, and the data. An integer is stored by half-bytes: the number of
  half-bytes less one, then the half-bytes, the least significant first.

  A new chain gets a number that no chain of the buffer has. A pointer from \<^verbatim>\<open>evbuffer_pullup\<close> is read through with
  \<open>read_at\<close>, which faults outside the block and on memory that was not written. The functions that store through a pointer
  return the stored value, if they store one.
\<close>

section \<open>Writing\<close>

definition fresh_id :: "evbuffer \<Rightarrow> nat" where
  "fresh_id b = Suc (foldr max (map ch_id (eb_chains b)) 0)"

text \<open>\<^verbatim>\<open>evbuffer_add\<close> with its result ignored.\<close>

definition evb_put :: "allocator \<Rightarrow> u8 list \<Rightarrow> evbuffer \<Rightarrow> evbuffer option" where
  "evb_put A d b = map_option snd (evbuffer_add A (fresh_id b) b d)"

text \<open>The loop of \<^verbatim>\<open>ENCODE_INT_INTERNAL\<close>: the bytes and the value of \<^verbatim>\<open>off\<close>.\<close>

function encode_loop :: "int \<Rightarrow> nat \<Rightarrow> u8 list \<Rightarrow> (u8 list \<times> nat) option" where
  "encode_loop number k data =
     (if number \<le> 0 then Some (data, k)
      else do {
        x \<leftarrow> peek data (k div 2);
        data \<leftarrow> poke data (k div 2)
          (if odd k then (x AND 0xf0) OR (of_int number AND 0x0f) else (x AND 0x0f) OR push_bit 4 (of_int number AND 0x0f));
        encode_loop (number div 16) (k + 1) data })"
  by pat_completeness auto
termination by (relation "measure (\<lambda>(number, k, data). nat number)") auto

declare encode_loop.simps [simp del]

text \<open>\<open>bytes\<close> is \<^verbatim>\<open>sizeof(number)\<close>.\<close>

definition encode_int_internal :: "nat \<Rightarrow> int \<Rightarrow> u8 list option" where
  "encode_int_internal bytes number = do {
     (data, k) \<leftarrow> encode_loop number 1 (replicate (bytes + 1) 0);
     x \<leftarrow> peek data 0;
     data \<leftarrow> poke data 0 ((x AND 0x0f) OR push_bit 4 (of_nat (if k > 2 then k - 2 else 0) AND 0x0f));
     if (k + 1) div 2 \<le> length data then Some (take ((k + 1) div 2) data) else None }"

definition evtag_encode_int :: "allocator \<Rightarrow> u32 \<Rightarrow> evbuffer \<Rightarrow> evbuffer option" where
  "evtag_encode_int A number b = do { d \<leftarrow> encode_int_internal 4 (uint number); evb_put A d b }"

definition evtag_encode_int64 :: "allocator \<Rightarrow> u64 \<Rightarrow> evbuffer \<Rightarrow> evbuffer option" where
  "evtag_encode_int64 A number b = do { d \<leftarrow> encode_int_internal 8 (uint number); evb_put A d b }"

function tag_bytes :: "int \<Rightarrow> u8 list" where
  "tag_bytes tag = (if tag div 128 > 0 then ((of_int tag AND 0x7f) OR 0x80) # tag_bytes (tag div 128) else [of_int tag AND 0x7f])"
  by pat_completeness auto
termination by (relation "measure nat") auto

declare tag_bytes.simps [simp del]

text \<open>\<^verbatim>\<open>evtag_encode_tag\<close>, whose array has five bytes.\<close>

definition evtag_encode_tag :: "allocator \<Rightarrow> u32 \<Rightarrow> evbuffer option \<Rightarrow> (int \<times> evbuffer option) option" where
  "evtag_encode_tag A tag b =
     (let d = tag_bytes (uint tag)
      in if length d > 5 then None
         else case b of
           None \<Rightarrow> Some (int (length d), None)
         | Some b \<Rightarrow> do { b \<leftarrow> evb_put A d b; Some (int (length d), Some b) })"

definition put_tag :: "allocator \<Rightarrow> u32 \<Rightarrow> evbuffer \<Rightarrow> evbuffer option" where
  "put_tag A tag b = do { (n, b) \<leftarrow> evtag_encode_tag A tag (Some b); b }"

definition evtag_marshal :: "allocator \<Rightarrow> u32 \<Rightarrow> u8 list \<Rightarrow> evbuffer \<Rightarrow> evbuffer option" where
  "evtag_marshal A tag data b = do {
     b \<leftarrow> put_tag A tag b;
     b \<leftarrow> evtag_encode_int A (of_nat (length data)) b;
     evb_put A data b }"

definition evtag_marshal_buffer :: "allocator \<Rightarrow> u32 \<Rightarrow> evbuffer \<Rightarrow> evbuffer \<Rightarrow> (evbuffer \<times> evbuffer) option" where
  "evtag_marshal_buffer A tag data b = do {
     b \<leftarrow> put_tag A tag b;
     b \<leftarrow> evtag_encode_int A (of_nat (evbuffer_get_length data)) b;
     (r, b, data) \<leftarrow> evbuffer_add_buffer b data;
     Some (b, data) }"

text \<open>\<^verbatim>\<open>evtag_marshal_int\<close> and \<^verbatim>\<open>evtag_marshal_int64\<close>, for integers of that many bytes.\<close>

definition marshal_integer :: "allocator \<Rightarrow> nat \<Rightarrow> u32 \<Rightarrow> int \<Rightarrow> evbuffer \<Rightarrow> evbuffer option" where
  "marshal_integer A bytes tag integer b = do {
     d \<leftarrow> encode_int_internal bytes integer;
     b \<leftarrow> put_tag A tag b;
     b \<leftarrow> evtag_encode_int A (of_nat (length d)) b;
     evb_put A d b }"

definition evtag_marshal_int :: "allocator \<Rightarrow> u32 \<Rightarrow> u32 \<Rightarrow> evbuffer \<Rightarrow> evbuffer option" where
  "evtag_marshal_int A tag integer b = marshal_integer A 4 tag (uint integer) b"

definition evtag_marshal_int64 :: "allocator \<Rightarrow> u32 \<Rightarrow> u64 \<Rightarrow> evbuffer \<Rightarrow> evbuffer option" where
  "evtag_marshal_int64 A tag integer b = marshal_integer A 8 tag (uint integer) b"

text \<open>A string is its bytes without the final zero.\<close>

definition evtag_marshal_string :: "allocator \<Rightarrow> u32 \<Rightarrow> u8 list \<Rightarrow> evbuffer \<Rightarrow> evbuffer option" where
  "evtag_marshal_string A tag str b = evtag_marshal A tag (takeWhile (\<lambda>c. c \<noteq> 0) str) b"

definition evtag_marshal_timeval :: "allocator \<Rightarrow> u32 \<Rightarrow> int \<times> int \<Rightarrow> evbuffer \<Rightarrow> evbuffer option" where
  "evtag_marshal_timeval A tag tv b = do {
     d \<leftarrow> encode_int_internal 4 (uint (of_int (fst tv) :: u32));
     e \<leftarrow> encode_int_internal 4 (uint (of_int (snd tv) :: u32));
     evtag_marshal A tag (d @ e) b }"

section \<open>Reading\<close>

definition read_at :: "evbuffer \<Rightarrow> nat \<Rightarrow> nat \<Rightarrow> u8 option" where
  "read_at b i k = do { c \<leftarrow> chain_at (eb_chains b) i; x \<leftarrow> peek (ch_buffer c) (misalign c + k); x }"

text \<open>The loop of \<^verbatim>\<open>decode_tag_internal\<close>: the number and \<^verbatim>\<open>count\<close>, unless the buffer ends first. A shift by 32 or more is
  undefined; a shift into or over the sign bit of an \<^verbatim>\<open>int\<close> is taken as the compilers define it, modulo \<open>2 ^ 32\<close>.\<close>

fun tag_loop :: "evbuffer \<Rightarrow> nat \<Rightarrow> nat \<Rightarrow> nat \<Rightarrow> u32 \<Rightarrow> (u32 \<times> nat) option option" where
  "tag_loop b i 0 count number = Some None"
| "tag_loop b i (Suc left) count number = do {
     lower \<leftarrow> read_at b i count;
     if 7 * count \<ge> 32 then None
     else let number = number OR push_bit (7 * count) (ucast (lower AND 0x7f))
       in if lower AND 0x80 = 0 then Some (Some (number, count + 1)) else tag_loop b i left (count + 1) number }"

text \<open>The result, the tag and the buffer; the length of the buffer is \<open>total_len\<close>.\<close>

definition decode_tag_internal :: "allocator \<Rightarrow> evbuffer \<Rightarrow> bool \<Rightarrow> (int \<times> u32 option \<times> evbuffer) option" where
  "decode_tag_internal A b dodrain = do {
     let len = evbuffer_get_length b;
     (p, b) \<leftarrow> evbuffer_pullup A (fresh_id b) b (int (if len < 5 then len else 5));
     case p of
       None \<Rightarrow> Some (- 1, None, b)
     | Some i \<Rightarrow> do {
         x \<leftarrow> tag_loop b i len 0 0;
         case x of
           None \<Rightarrow> Some (- 1, None, b)
         | Some (number, count) \<Rightarrow> do {
             b \<leftarrow> (if dodrain then map_option snd (evbuffer_drain b count) else Some b);
             Some (int count, Some number, b) } } }"

definition evtag_decode_tag :: "allocator \<Rightarrow> evbuffer \<Rightarrow> (int \<times> u32 option \<times> evbuffer) option" where
  "evtag_decode_tag A b = decode_tag_internal A b True"

definition evtag_peek :: "allocator \<Rightarrow> evbuffer \<Rightarrow> (int \<times> u32 option \<times> evbuffer) option" where
  "evtag_peek A b = decode_tag_internal A b False"

text \<open>A pointer with an offset: a null pointer plus an offset is not null, and reading through it is a fault.\<close>

definition pulled :: "allocator \<Rightarrow> evbuffer \<Rightarrow> nat \<Rightarrow> nat \<Rightarrow> (nat option \<times> evbuffer) option" where
  "pulled A b n offset = do {
     (p, b) \<leftarrow> evbuffer_pullup A (fresh_id b) b (int (offset + n));
     if p = None \<and> offset \<noteq> 0 then None else Some (p, b) }"

fun nibble_loop :: "evbuffer \<Rightarrow> nat \<Rightarrow> nat \<Rightarrow> nat \<Rightarrow> int \<Rightarrow> int option" where
  "nibble_loop b i offset 0 number = Some number"
| "nibble_loop b i offset (Suc n) number = do {
     x \<leftarrow> read_at b i (offset + Suc n div 2);
     nibble_loop b i offset n (number * 16 + uint (if odd (Suc n) then x AND 0x0f else drop_bit 4 (x AND 0xf0))) }"

text \<open>\<^verbatim>\<open>DECODE_INT_INTERNAL\<close>; at most 8 or 16 half-bytes are read, so the number stays in its type.\<close>

definition decode_integer :: "allocator \<Rightarrow> nat \<Rightarrow> evbuffer \<Rightarrow> nat \<Rightarrow> (int \<times> int option \<times> evbuffer) option" where
  "decode_integer A maxnibbles b offset =
     (let len = int (evbuffer_get_length b) - int offset
      in if len \<le> 0 then Some (- 1, None, b)
         else do {
           (p, b) \<leftarrow> pulled A b 1 offset;
           case p of
             None \<Rightarrow> Some (- 1, None, b)
           | Some i \<Rightarrow> do {
               x \<leftarrow> read_at b i offset;
               let nibbles = unat (drop_bit 4 (x AND 0xf0)) + 1;
               if nibbles > maxnibbles \<or> int (nibbles div 2 + 1) > len then Some (- 1, None, b)
               else do {
                 (p, b) \<leftarrow> pulled A b (nibbles div 2 + 1) offset;
                 case p of
                   None \<Rightarrow> Some (- 1, None, b)
                 | Some i \<Rightarrow> do {
                     number \<leftarrow> nibble_loop b i offset nibbles 0;
                     Some (int (nibbles div 2 + 1), Some number, b) } } } })"

definition drain_result :: "int \<times> int option \<times> evbuffer \<Rightarrow> (int \<times> int option \<times> evbuffer) option" where
  "drain_result x = (case x of (res, number, b) \<Rightarrow> do {
     b \<leftarrow> (if res \<noteq> - 1 then map_option snd (evbuffer_drain b (nat res)) else Some b);
     Some (if res = - 1 then - 1 else 0, number, b) })"

definition evtag_decode_int :: "allocator \<Rightarrow> evbuffer \<Rightarrow> (int \<times> int option \<times> evbuffer) option" where
  "evtag_decode_int A b = do { x \<leftarrow> decode_integer A 8 b 0; drain_result x }"

definition evtag_decode_int64 :: "allocator \<Rightarrow> evbuffer \<Rightarrow> (int \<times> int option \<times> evbuffer) option" where
  "evtag_decode_int64 A b = do { x \<leftarrow> decode_integer A 16 b 0; drain_result x }"

definition payload_length :: "allocator \<Rightarrow> evbuffer \<Rightarrow> (int \<times> int \<times> u32 option \<times> evbuffer) option" where
  "payload_length A b = do {
     (len, tag, b) \<leftarrow> decode_tag_internal A b False;
     if len = - 1 then Some (- 1, len, None, b)
     else do {
       (res, n, b) \<leftarrow> decode_integer A 8 b (nat len);
       Some (res, len, map_option of_int n, b) } }"

definition evtag_payload_length :: "allocator \<Rightarrow> evbuffer \<Rightarrow> (int \<times> u32 option \<times> evbuffer) option" where
  "evtag_payload_length A b = do { (res, len, n, b) \<leftarrow> payload_length A b; Some (if res = - 1 then - 1 else 0, n, b) }"

definition evtag_peek_length :: "allocator \<Rightarrow> evbuffer \<Rightarrow> (int \<times> u32 option \<times> evbuffer) option" where
  "evtag_peek_length A b = do {
     (res, len, n, b) \<leftarrow> payload_length A b;
     Some (if res = - 1 then (- 1, n, b) else (0, map_option (\<lambda>n. n + of_int (res + len)) n, b)) }"

definition evtag_unmarshal_header :: "allocator \<Rightarrow> evbuffer \<Rightarrow> (int \<times> u32 option \<times> evbuffer) option" where
  "evtag_unmarshal_header A b = do {
     (r, tag, b) \<leftarrow> decode_tag_internal A b True;
     if r = - 1 then Some (- 1, tag, b)
     else do {
       (r, len, b) \<leftarrow> evtag_decode_int A b;
       if r = - 1 then Some (- 1, tag, b)
       else do {
         len \<leftarrow> len;
         Some (if int (evbuffer_get_length b) < len then - 1 else as_int len, tag, b) } } }"

text \<open>A negative length becomes a huge size.\<close>

definition size_of_int :: "int \<Rightarrow> nat" where
  "size_of_int n = nat (n mod (EV_SIZE_MAX + 1))"

definition evtag_consume :: "allocator \<Rightarrow> evbuffer \<Rightarrow> (int \<times> evbuffer) option" where
  "evtag_consume A b = do {
     (len, tag, b) \<leftarrow> evtag_unmarshal_header A b;
     if len = - 1 then Some (- 1, b)
     else do { (r, b) \<leftarrow> evbuffer_drain b (size_of_int len); Some (0, b) } }"

definition unmarshal_integer :: "allocator \<Rightarrow> nat \<Rightarrow> evbuffer \<Rightarrow> u32 \<Rightarrow> (int \<times> int option \<times> evbuffer) option" where
  "unmarshal_integer A maxnibbles b need_tag = do {
     (r, tag, b) \<leftarrow> decode_tag_internal A b True;
     if r = - 1 then Some (- 1, None, b)
     else if tag \<noteq> Some need_tag then Some (- 1, None, b)
     else do {
       (r, len, b) \<leftarrow> evtag_decode_int A b;
       if r = - 1 then Some (- 1, None, b)
       else do {
         len \<leftarrow> len;
         if int (evbuffer_get_length b) < len then Some (- 1, None, b)
         else do {
           (result, integer, b) \<leftarrow> decode_integer A maxnibbles b 0;
           (r, b) \<leftarrow> evbuffer_drain b (nat len);
           Some (if result < 0 \<or> result > len then - 1 else result, integer, b) } } } }"

definition evtag_unmarshal_int :: "allocator \<Rightarrow> evbuffer \<Rightarrow> u32 \<Rightarrow> (int \<times> int option \<times> evbuffer) option" where
  "evtag_unmarshal_int A b need_tag = unmarshal_integer A 8 b need_tag"

definition evtag_unmarshal_int64 :: "allocator \<Rightarrow> evbuffer \<Rightarrow> u32 \<Rightarrow> (int \<times> int option \<times> evbuffer) option" where
  "evtag_unmarshal_int64 A b need_tag = unmarshal_integer A 16 b need_tag"

definition evtag_unmarshal_fixed :: "allocator \<Rightarrow> evbuffer \<Rightarrow> u32 \<Rightarrow> nat \<Rightarrow> (int \<times> u8 list \<times> evbuffer) option" where
  "evtag_unmarshal_fixed A b need_tag len = do {
     (tag_len, tag, b) \<leftarrow> evtag_unmarshal_header A b;
     if tag_len < 0 \<or> tag \<noteq> Some need_tag then Some (- 1, [], b)
     else if tag_len \<noteq> int len then Some (- 1, [], b)
     else do { (n, d, b) \<leftarrow> evbuffer_remove b len; Some (0, d, b) } }"

text \<open>A negative length, if that much memory can be had, stores the final zero before the start of the string.\<close>

definition evtag_unmarshal_string :: "allocator \<Rightarrow> evbuffer \<Rightarrow> u32 \<Rightarrow> (int \<times> u8 list \<times> evbuffer) option" where
  "evtag_unmarshal_string A b need_tag = do {
     (tag_len, tag, b) \<leftarrow> evtag_unmarshal_header A b;
     if tag_len = - 1 \<or> tag \<noteq> Some need_tag then Some (- 1, [], b)
     else if \<not> A (int (size_of_int (tag_len + 1))) then Some (- 1, [], b)
     else if tag_len < 0 then None
     else do { (n, d, b) \<leftarrow> evbuffer_remove b (nat tag_len); Some (0, d @ [0], b) } }"

definition evtag_unmarshal_timeval :: "allocator \<Rightarrow> evbuffer \<Rightarrow> u32 \<Rightarrow> (int \<times> (int option \<times> int option) \<times> evbuffer) option" where
  "evtag_unmarshal_timeval A b need_tag = do {
     (len, tag, b) \<leftarrow> evtag_unmarshal_header A b;
     if len = - 1 then Some (- 1, (None, None), b)
     else do {
       (result, tv, b) \<leftarrow>
         (if tag \<noteq> Some need_tag then Some (- 1, (None, None), b)
          else do {
            (offset, sec, b) \<leftarrow> decode_integer A 8 b 0;
            if offset = - 1 then Some (- 1, (None, None), b)
            else do {
              (offset2, usec, b) \<leftarrow> decode_integer A 8 b (nat offset);
              if offset2 = - 1 then Some (- 1, (sec, None), b)
              else Some (if offset + offset2 > len then - 1 else 0, (sec, usec), b) } });
       (r, b) \<leftarrow> evbuffer_drain b (size_of_int len);
       Some (result, tv, b) } }"

fun read_all :: "evbuffer \<Rightarrow> nat \<Rightarrow> nat \<Rightarrow> nat \<Rightarrow> u8 list option" where
  "read_all b i k 0 = Some []"
| "read_all b i k (Suc n) = do { x \<leftarrow> read_at b i k; xs \<leftarrow> read_all b i (k + 1) n; Some (x # xs) }"

text \<open>\<^verbatim>\<open>evtag_unmarshal\<close>: the result, the tag, the source and the destination. \<^verbatim>\<open>evbuffer_add\<close> has no memory for a size that was
  negative; it reads through a null pointer if \<^verbatim>\<open>evbuffer_pullup\<close> had no memory and it has.\<close>

definition evtag_unmarshal :: "allocator \<Rightarrow> evbuffer \<Rightarrow> evbuffer \<Rightarrow> (int \<times> u32 option \<times> evbuffer \<times> evbuffer) option" where
  "evtag_unmarshal A src dst = do {
     (len, tag, src) \<leftarrow> evtag_unmarshal_header A src;
     if len = - 1 then Some (- 1, tag, src, dst)
     else do {
       (p, src) \<leftarrow> evbuffer_pullup A (fresh_id src) src len;
       if len < 0 then Some (- 1, tag, src, dst)
       else do {
         d \<leftarrow> (case p of None \<Rightarrow> Some (replicate (nat len) 0) | Some i \<Rightarrow> read_all src i 0 (nat len));
         (r, dst) \<leftarrow> evbuffer_add A (fresh_id dst) dst d;
         if r = - 1 then Some (- 1, tag, src, dst)
         else if p = None \<and> len \<noteq> 0 then None
         else do { (r, src) \<leftarrow> evbuffer_drain src (nat len); Some (len, tag, src, dst) } } } }"

end
