(* ===== verification/EvSearch.thy ===== *)
theory EvSearch
  imports EvTag
begin

text \<open>
  Positions in byte queues, searching, lines, and the input and output of \<^verbatim>\<open>src/libevent/buffer.c\<close>. A position is a record
  \<open>evbuffer_ptr\<close> with the offset and the chain; a loop over chains runs on the list of chains that starts at the position. The
  system calls \<^verbatim>\<open>ioctl\<close>, \<^verbatim>\<open>readv\<close> and \<^verbatim>\<open>writev\<close> are represented by their results.
\<close>

section \<open>Positions\<close>

record evbuffer_ptr =
  p_pos :: int
  p_chain :: "nat option"
  p_in :: nat

definition chains_from :: "evbuffer \<Rightarrow> nat option \<Rightarrow> evbuffer_chain list option" where
  "chains_from b p = (case p of
     None \<Rightarrow> Some []
   | Some i \<Rightarrow> (case dropWhile (\<lambda>c. ch_id c \<noteq> i) (eb_chains b) of [] \<Rightarrow> None | c # cs \<Rightarrow> Some (c # cs)))"

text \<open>The bytes of a chain from its byte \<open>i\<close> on.\<close>

definition chain_from :: "evbuffer_chain \<Rightarrow> nat \<Rightarrow> u8 list option" where
  "chain_from c i = (if i \<le> off c then chain_bytes (cut_front c i) (off c - i) else None)"

definition ptr_first :: "evbuffer \<Rightarrow> evbuffer_ptr" where
  "ptr_first b = \<lparr>p_pos = 0, p_chain = first_id (eb_chains b), p_in = 0\<rparr>"

datatype evbuffer_ptr_how = EVBUFFER_PTR_SET | EVBUFFER_PTR_ADD

fun skip_chains :: "nat \<Rightarrow> nat \<Rightarrow> evbuffer_chain list \<Rightarrow> (nat \<times> nat) option" where
  "skip_chains position left [] = None"
| "skip_chains position left (c # cs) =
     (if position + left \<ge> off c then skip_chains 0 (position + left - off c) cs else Some (ch_id c, position + left))"

definition evbuffer_ptr_set :: "evbuffer \<Rightarrow> evbuffer_ptr \<Rightarrow> nat \<Rightarrow> evbuffer_ptr_how \<Rightarrow> (int \<times> evbuffer_ptr) option" where
  "evbuffer_ptr_set b pos position how =
     (if how = EVBUFFER_PTR_ADD \<and> (p_pos pos < 0 \<or> EV_SIZE_MAX - int position < p_pos pos) then Some (- 1, pos)
      else do {
        (cs, pos, start) \<leftarrow> (case how of
            EVBUFFER_PTR_SET \<Rightarrow> Some (eb_chains b, pos\<lparr>p_pos := int position\<rparr>, 0)
          | EVBUFFER_PTR_ADD \<Rightarrow> do { cs \<leftarrow> chains_from b (p_chain pos); Some (cs, pos\<lparr>p_pos := p_pos pos + int position\<rparr>, p_in pos) });
        if EV_SIZE_MAX - int position < int start then None
        else case skip_chains start position cs of
               Some (i, k) \<Rightarrow> Some (0, pos\<lparr>p_chain := Some i, p_in := k\<rparr>)
             | None \<Rightarrow> Some (- 1, pos\<lparr>p_chain := None, p_pos := - 1\<rparr>) })"

section \<open>Scanning\<close>

text \<open>\<^verbatim>\<open>memchr\<close>.\<close>

fun memchr :: "u8 \<Rightarrow> u8 list \<Rightarrow> nat option" where
  "memchr x [] = None"
| "memchr x (y # ys) = (if x = y then Some 0 else map_option Suc (memchr x ys))"

text \<open>The loop of \<^verbatim>\<open>evbuffer_strchr\<close> and \<^verbatim>\<open>evbuffer_find_eol_char\<close>, which differ in what they look for: whether it was found, and
  the position. \<open>it\<close> is the position at the start, \<open>pos\<close> the offset reached.\<close>

fun scan_chains :: "(u8 list \<Rightarrow> nat option) \<Rightarrow> evbuffer_ptr \<Rightarrow> int \<Rightarrow> nat \<Rightarrow> evbuffer_chain list \<Rightarrow> (bool \<times> evbuffer_ptr) option" where
  "scan_chains look it pos i [] = Some (False, it\<lparr>p_pos := pos\<rparr>)"
| "scan_chains look it pos i (c # cs) = do {
     x \<leftarrow> chain_from c i;
     case look x of
       Some k \<Rightarrow> Some (True, \<lparr>p_pos = pos + int k, p_chain = Some (ch_id c), p_in = i + k\<rparr>)
     | None \<Rightarrow> scan_chains look it (pos + int (off c - i)) 0 cs }"

definition evbuffer_strchr :: "evbuffer \<Rightarrow> evbuffer_ptr \<Rightarrow> u8 \<Rightarrow> (bool \<times> evbuffer_ptr) option" where
  "evbuffer_strchr b it chr = do { cs \<leftarrow> chains_from b (p_chain it); scan_chains (memchr chr) it (p_pos it) (p_in it) cs }"

definition CHUNK_SZ :: nat where "CHUNK_SZ = 128"

function find_eol_char :: "u8 list \<Rightarrow> nat option" where
  "find_eol_char s =
     (if s = [] then None
      else case (memchr 13 (take CHUNK_SZ s), memchr 10 (take CHUNK_SZ s)) of
        (Some cr, Some lf) \<Rightarrow> Some (if lf < cr then lf else cr)
      | (Some cr, None) \<Rightarrow> Some cr
      | (None, Some lf) \<Rightarrow> Some lf
      | (None, None) \<Rightarrow> map_option (\<lambda>k. CHUNK_SZ + k) (find_eol_char (drop CHUNK_SZ s)))"
  by pat_completeness auto
termination by (relation "measure length") (auto simp: CHUNK_SZ_def)

declare find_eol_char.simps [simp del]

definition evbuffer_find_eol_char :: "evbuffer \<Rightarrow> evbuffer_ptr \<Rightarrow> (bool \<times> evbuffer_ptr) option" where
  "evbuffer_find_eol_char b it = do { cs \<leftarrow> chains_from b (p_chain it); scan_chains find_eol_char it (p_pos it) (p_in it) cs }"

fun span_chains :: "u8 set \<Rightarrow> evbuffer_ptr \<Rightarrow> nat \<Rightarrow> nat \<Rightarrow> evbuffer_chain list \<Rightarrow> (int \<times> evbuffer_ptr) option" where
  "span_chains chrset it count i [] = None"
| "span_chains chrset it count i (c # cs) = do {
     x \<leftarrow> (if i < off c then chain_from c i else Some []);
     let k = length (takeWhile (\<lambda>y. y \<in> chrset) x);
     if k < length x
     then Some (int (count + k), \<lparr>p_pos = p_pos it + int (count + k), p_chain = Some (ch_id c), p_in = i + k\<rparr>)
     else if cs = [] then Some (int (count + k), \<lparr>p_pos = p_pos it + int (count + k), p_chain = Some (ch_id c), p_in = 0\<rparr>)
     else span_chains chrset it (count + k) 0 cs }"

definition evbuffer_strspn :: "evbuffer \<Rightarrow> evbuffer_ptr \<Rightarrow> u8 set \<Rightarrow> (int \<times> evbuffer_ptr) option" where
  "evbuffer_strspn b it chrset = do {
     cs \<leftarrow> chains_from b (p_chain it);
     if cs = [] then Some (- 1, it) else span_chains chrset it 0 (p_in it) cs }"

definition evbuffer_getchr :: "evbuffer \<Rightarrow> evbuffer_ptr \<Rightarrow> u8 option" where
  "evbuffer_getchr b it = do { i \<leftarrow> p_chain it; read_at b i (p_in it) }"

section \<open>Searching for a string\<close>

text \<open>The loop of \<^verbatim>\<open>evbuffer_ptr_memcmp\<close>: whether the bytes are equal.\<close>

fun cmp_chains :: "nat \<Rightarrow> u8 list \<Rightarrow> evbuffer_chain list \<Rightarrow> bool option" where
  "cmp_chains i mem [] = Some True"
| "cmp_chains i mem (c # cs) =
     (if mem = [] then Some True
      else do {
        x \<leftarrow> chain_from c i;
        let n = (if length mem + i > off c then off c - i else length mem);
        if take n x \<noteq> take n mem then Some False else cmp_chains 0 (drop n mem) cs })"

definition evbuffer_ptr_memcmp :: "evbuffer \<Rightarrow> evbuffer_ptr \<Rightarrow> u8 list \<Rightarrow> bool option" where
  "evbuffer_ptr_memcmp b pos mem =
     (if p_pos pos < 0 \<or> EV_SIZE_MAX - int (length mem) < p_pos pos \<or> p_pos pos + int (length mem) > int (total_len b) then Some False
      else do { cs \<leftarrow> chains_from b (p_chain pos); cmp_chains (p_in pos) mem cs })"

definition not_found :: "evbuffer_ptr \<Rightarrow> evbuffer_ptr" where
  "not_found pos = pos\<lparr>p_pos := - 1, p_chain := None\<rparr>"

lemma memchr_less: "memchr x xs = Some k \<Longrightarrow> k < length xs"
  by (induction xs arbitrary: k) (auto split: if_splits)

lemma those_length: "those xs = Some ys \<Longrightarrow> length ys = length xs"
  by (induction xs arbitrary: ys) (auto split: option.splits)

lemma chain_from_length: "chain_from c i = Some x \<Longrightarrow> i \<le> off c \<and> length x = off c - i"
  by (auto simp: chain_from_def chain_bytes_def cut_front_def dest!: those_length split: if_splits)

text \<open>The loop of \<^verbatim>\<open>evbuffer_search_range\<close> from the byte \<open>i\<close> of the first of the chains on.\<close>

function search_loop :: "evbuffer \<Rightarrow> u8 list \<Rightarrow> evbuffer_ptr option \<Rightarrow> evbuffer_chain list \<Rightarrow> int \<Rightarrow> nat \<Rightarrow> evbuffer_ptr option" where
  "search_loop b what fin [] pos i = Some (not_found \<lparr>p_pos = pos, p_chain = None, p_in = i\<rparr>)"
| "search_loop b what fin (c # cs) pos i =
     (case chain_from c i of
        None \<Rightarrow> None
      | Some x \<Rightarrow>
          (case memchr (hd what) x of
             Some k \<Rightarrow>
               (let it = \<lparr>p_pos = pos + int k, p_chain = Some (ch_id c), p_in = i + k\<rparr>
                in case evbuffer_ptr_memcmp b it what of
                     None \<Rightarrow> None
                   | Some equal \<Rightarrow>
                       if equal then (case fin of
                           None \<Rightarrow> Some it
                         | Some e \<Rightarrow> Some (if p_pos it + int (length what) > p_pos e then not_found it else it))
                       else if i + k + 1 = off c then search_loop b what fin cs (pos + int k + 1) 0
                       else search_loop b what fin (c # cs) (pos + int k + 1) (i + k + 1))
           | None \<Rightarrow>
               (if (case fin of None \<Rightarrow> False | Some e \<Rightarrow> p_chain e = Some (ch_id c))
                then Some (not_found \<lparr>p_pos = pos, p_chain = Some (ch_id c), p_in = i\<rparr>)
                else search_loop b what fin cs (pos + int (off c - i)) 0)))"
  by pat_completeness auto
termination
  by (relation "measures [\<lambda>(b, what, fin, cs, pos, i). length cs, \<lambda>(b, what, fin, cs, pos, i). (case cs of [] \<Rightarrow> 0 | c # _ \<Rightarrow> off c) - i]")
    (auto dest!: chain_from_length memchr_less)

definition evbuffer_search_range :: "evbuffer \<Rightarrow> u8 list \<Rightarrow> evbuffer_ptr option \<Rightarrow> evbuffer_ptr option \<Rightarrow> evbuffer_ptr option" where
  "evbuffer_search_range b what start fin =
     (let pos = (case start of None \<Rightarrow> ptr_first b | Some p \<Rightarrow> p)
      in if what = [] \<or> int (length what) > EVBUFFER_CHAIN_MAX then Some pos
         else do { cs \<leftarrow> chains_from b (p_chain pos); search_loop b what fin cs (p_pos pos) (p_in pos) })"

definition evbuffer_search :: "evbuffer \<Rightarrow> u8 list \<Rightarrow> evbuffer_ptr option \<Rightarrow> evbuffer_ptr option" where
  "evbuffer_search b what start = evbuffer_search_range b what start None"

text \<open>\<^verbatim>\<open>evbuffer_find\<close>: the chain and the offset in its data of the bytes.\<close>

definition evbuffer_find :: "allocator \<Rightarrow> nat \<Rightarrow> evbuffer \<Rightarrow> u8 list \<Rightarrow> ((nat \<times> nat) option \<times> evbuffer) option" where
  "evbuffer_find A a b what = do {
     p \<leftarrow> evbuffer_search b what None;
     if p_pos p < 0 then Some (None, b)
     else do {
       (x, b) \<leftarrow> evbuffer_pullup A a b (p_pos p + int (length what));
       Some (map_option (\<lambda>i. (i, nat (p_pos p))) x, b) } }"

section \<open>Lines\<close>

datatype evbuffer_eol_style = EVBUFFER_EOL_ANY | EVBUFFER_EOL_CRLF | EVBUFFER_EOL_CRLF_STRICT | EVBUFFER_EOL_LF

text \<open>The loop for \<^verbatim>\<open>EVBUFFER_EOL_CRLF\<close>: whether an end of line was found, its length, and the position.\<close>

partial_function (option) crlf_loop :: "evbuffer \<Rightarrow> evbuffer_ptr \<Rightarrow> (bool \<times> nat \<times> evbuffer_ptr) option" where
  "crlf_loop b it = do {
     (found, it) \<leftarrow> evbuffer_find_eol_char b it;
     if \<not> found then Some (False, 0, it)
     else do {
       x \<leftarrow> evbuffer_getchr b it;
       if x = 10 then Some (True, 1, it)
       else do {
         equal \<leftarrow> evbuffer_ptr_memcmp b it [13, 10];
         if equal then Some (True, 2, it)
         else do {
           (r, it) \<leftarrow> evbuffer_ptr_set b it 1 EVBUFFER_PTR_ADD;
           if r < 0 then Some (False, 0, it) else crlf_loop b it } } } }"

definition search_eol :: "evbuffer \<Rightarrow> evbuffer_ptr \<Rightarrow> evbuffer_eol_style \<Rightarrow> (bool \<times> nat \<times> evbuffer_ptr) option" where
  "search_eol b it eol_style = (case eol_style of
     EVBUFFER_EOL_ANY \<Rightarrow> do {
       (found, it) \<leftarrow> evbuffer_find_eol_char b it;
       if \<not> found then Some (False, 0, it)
       else do { (n, it2) \<leftarrow> evbuffer_strspn b it {13, 10}; Some (True, size_of_int n, it) } }
   | EVBUFFER_EOL_CRLF_STRICT \<Rightarrow> do {
       it \<leftarrow> evbuffer_search b [13, 10] (Some it);
       Some (if p_pos it < 0 then (False, 0, it) else (True, 2, it)) }
   | EVBUFFER_EOL_CRLF \<Rightarrow> crlf_loop b it
   | EVBUFFER_EOL_LF \<Rightarrow> do {
       (found, it) \<leftarrow> evbuffer_strchr b it 10;
       Some (found, if found then 1 else 0, it) })"

text \<open>\<^verbatim>\<open>evbuffer_search_eol\<close>: the position of the end of line and its length.\<close>

definition evbuffer_search_eol :: "evbuffer \<Rightarrow> evbuffer_ptr option \<Rightarrow> evbuffer_eol_style \<Rightarrow> (evbuffer_ptr \<times> nat) option" where
  "evbuffer_search_eol b start eol_style = do {
     (found, extra_drain, it) \<leftarrow> search_eol b (case start of None \<Rightarrow> ptr_first b | Some p \<Rightarrow> p) eol_style;
     Some (if found then it else it\<lparr>p_pos := - 1\<rparr>, extra_drain) }"

text \<open>\<^verbatim>\<open>evbuffer_readln\<close>: the line with its final zero, its length without, and the buffer. A line with bytes that were
  not written would be a fault.\<close>

definition evbuffer_readln :: "allocator \<Rightarrow> evbuffer \<Rightarrow> evbuffer_eol_style \<Rightarrow> (u8 list option \<times> nat \<times> evbuffer) option" where
  "evbuffer_readln A b eol_style =
     (if freeze_start b then Some (None, 0, b)
      else do {
        (it, extra_drain) \<leftarrow> evbuffer_search_eol b None eol_style;
        if p_pos it < 0 then Some (None, 0, b)
        else do {
          let n_to_copy = nat (p_pos it);
          if \<not> A (int n_to_copy + 1) then Some (None, 0, b)
          else do {
            (r, line, b) \<leftarrow> evbuffer_remove b n_to_copy;
            if length line < n_to_copy then None
            else do { (r, b) \<leftarrow> evbuffer_drain b extra_drain; Some (Some (line @ [0]), n_to_copy, b) } } } })"

definition evbuffer_readline :: "allocator \<Rightarrow> evbuffer \<Rightarrow> (u8 list option \<times> evbuffer) option" where
  "evbuffer_readline A b = do { (line, n, b) \<leftarrow> evbuffer_readln A b EVBUFFER_EOL_ANY; Some (line, b) }"

end
