(* ===== verification/EvTagProps.thy ===== *)
theory EvTagProps
  imports EvTag
begin

text \<open>
  Tagged integers: what is written is read back. The encoding of an integer is described by its half-bytes (\<open>nib\<close>, \<open>code_of\<close>),
  which both loops of the code work on.
\<close>

section \<open>Half-bytes\<close>

lemma nibble_words:
  fixes x v :: u8
  shows "((x AND 0xf0) OR (v AND 0x0f)) AND 0x0f = v AND 0x0f" "((x AND 0xf0) OR (v AND 0x0f)) AND 0xf0 = x AND 0xf0"
    "((x AND 0x0f) OR push_bit 4 (v AND 0x0f)) AND 0x0f = x AND 0x0f" "drop_bit 4 (((x AND 0x0f) OR push_bit 4 (v AND 0x0f)) AND 0xf0) = v AND 0x0f"
proof -
  have c: "n < 8 \<Longrightarrow> n = 0 \<or> n = 1 \<or> n = 2 \<or> n = 3 \<or> n = 4 \<or> n = 5 \<or> n = 6 \<or> n = 7" for n :: nat by arith
  show "((x AND 0xf0) OR (v AND 0x0f)) AND 0x0f = v AND 0x0f"
    by (rule bit_word_eqI) (auto simp: bit_simps dest!: c)
  show "((x AND 0xf0) OR (v AND 0x0f)) AND 0xf0 = x AND 0xf0"
    by (rule bit_word_eqI) (auto simp: bit_simps dest!: c)
  show "((x AND 0x0f) OR push_bit 4 (v AND 0x0f)) AND 0x0f = x AND 0x0f"
    by (rule bit_word_eqI) (auto simp: bit_simps dest!: c)
  show "drop_bit 4 (((x AND 0x0f) OR push_bit 4 (v AND 0x0f)) AND 0xf0) = v AND 0x0f"
    by (rule bit_word_eqI) (auto simp: bit_simps dest!: c)
qed

lemma uint_low: "uint (of_int n AND 0x0f :: u8) = n mod 16"
proof -
  have "(0x0f :: u8) = mask 4" by (simp add: mask_eq_exp_minus_1)
  then have "(of_int n AND 0x0f :: u8) = take_bit 4 (of_int n)" by (simp only: take_bit_eq_mask)
  then have "uint (of_int n AND 0x0f :: u8) = take_bit 4 (take_bit 8 n)"
    by (simp add: unsigned_take_bit_eq unsigned_of_int)
  then show ?thesis by (simp add: take_bit_eq_mod mod_mod_cancel)
qed

definition low_half :: "u8 \<Rightarrow> u8" where "low_half x = x AND 0x0f"
definition high_half :: "u8 \<Rightarrow> u8" where "high_half x = drop_bit 4 (x AND 0xf0)"
definition set_low :: "int \<Rightarrow> u8 \<Rightarrow> u8" where "set_low n x = (x AND 0xf0) OR (of_int n AND 0x0f)"
definition set_high :: "int \<Rightarrow> u8 \<Rightarrow> u8" where "set_high n x = (x AND 0x0f) OR push_bit 4 (of_int n AND 0x0f)"

lemma halves [simp]:
  "uint (low_half (set_low n x)) = n mod 16" "uint (high_half (set_high n x)) = n mod 16"
  "high_half (set_low n x) = high_half x" "low_half (set_high n x) = low_half x"
proof -
  show "uint (low_half (set_low n x)) = n mod 16" unfolding low_half_def set_low_def nibble_words uint_low by (rule refl)
  show "uint (high_half (set_high n x)) = n mod 16" unfolding high_half_def set_high_def nibble_words uint_low by (rule refl)
  show "high_half (set_low n x) = high_half x" unfolding high_half_def set_low_def nibble_words by (rule refl)
  show "low_half (set_high n x) = low_half x" unfolding low_half_def set_high_def nibble_words by (rule refl)
qed

lemmas half_defs = low_half_def [symmetric] high_half_def [symmetric] set_low_def [symmetric] set_high_def [symmetric]

definition nib :: "u8 list \<Rightarrow> nat \<Rightarrow> int" where
  "nib d i = uint (if odd i then low_half (d ! (i div 2)) else high_half (d ! (i div 2)))"

text \<open>Setting the half-byte \<open>k\<close>.\<close>

definition set_nib :: "u8 list \<Rightarrow> nat \<Rightarrow> int \<Rightarrow> u8 list" where
  "set_nib d k n = d[k div 2 := (if odd k then set_low n else set_high n) (d ! (k div 2))]"

lemma nib_set: "k div 2 < length d \<Longrightarrow> nib (set_nib d k n) i = (if i = k then n mod 16 else nib d i)"
proof -
  assume k: "k div 2 < length d"
  show ?thesis
  proof (cases "i div 2 = k div 2")
    case True
    show ?thesis
    proof (cases "odd i = odd k")
      case True': True
      have "i = k" using True True' by (metis div_mult_mod_eq even_iff_mod_2_eq_zero odd_iff_mod_2_eq_one)
      then show ?thesis using k by (simp add: nib_def set_nib_def)
    next
      case False
      then have "i \<noteq> k" by blast
      then show ?thesis using False True k by (auto simp: nib_def set_nib_def)
    qed
  next
    case False
    then show ?thesis by (auto simp: nib_def set_nib_def)
  qed
qed

lemma set_nib_length [simp]: "length (set_nib d k n) = length d"
  by (simp add: set_nib_def)

section \<open>Encoding\<close>

lemma encode_step:
  assumes "0 < n" "k div 2 < length d"
  shows "encode_loop n k d = encode_loop (n div 16) (k + 1) (set_nib d k n)"
  using assms by (subst encode_loop.simps) (auto simp: peek_def poke_def set_nib_def set_low_def set_high_def)

lemma encode_loop_ok:
  assumes "0 \<le> n" "n < 16 ^ m" "k + m \<le> 2 * length d"
  shows "\<exists>d' j. encode_loop n k d = Some (d', k + j) \<and> j \<le> m \<and> length d' = length d \<and> n < 16 ^ j \<and> (n = 0 \<longrightarrow> j = 0) \<and> (n \<noteq> 0 \<longrightarrow> 0 < j)
    \<and> (\<forall>i. nib d' i = (if k \<le> i \<and> i < k + j then n div 16 ^ (i - k) mod 16 else nib d i))"
  using assms
proof (induction m arbitrary: n k d)
  case 0
  then have "n = 0" by simp
  then show ?case by (intro exI [of _ d] exI [of _ 0]) (simp add: encode_loop.simps)
next
  case (Suc m)
  show ?case
  proof (cases "n = 0")
    case True
    then show ?thesis by (intro exI [of _ d] exI [of _ 0]) (simp add: encode_loop.simps)
  next
    case False
    have k: "k div 2 < length d" using Suc.prems(3) by auto
    have n: "0 \<le> n div 16" "n div 16 < 16 ^ m" "(k + 1) + m \<le> 2 * length (set_nib d k n)" using Suc.prems by auto
    obtain d' j where ih: "encode_loop (n div 16) (k + 1) (set_nib d k n) = Some (d', k + 1 + j)" "j \<le> m" "length d' = length d" "n div 16 < 16 ^ j"
      "\<forall>i. nib d' i = (if k + 1 \<le> i \<and> i < k + 1 + j then n div 16 div 16 ^ (i - (k + 1)) mod 16 else nib (set_nib d k n) i)"
      using Suc.IH [OF n] by auto
    have eq: "encode_loop n k d = Some (d', k + Suc j)" using encode_step [of n k d] False Suc.prems(1) k ih(1) by simp
    have nibs: "nib d' i = (if k \<le> i \<and> i < k + Suc j then n div 16 ^ (i - k) mod 16 else nib d i)" for i
    proof (cases "k + 1 \<le> i \<and> i < k + 1 + j")
      case True
      have "i - k = Suc (i - (k + 1))" using True by arith
      then have "n div 16 div 16 ^ (i - (k + 1)) = n div 16 ^ (i - k)" by (simp only: power_Suc) (simp add: zdiv_zmult2_eq [symmetric])
      then show ?thesis using True ih(5) by simp
    next
      case False
      then show ?thesis using ih(5) nib_set [OF k, of n i] by (cases "i = k") auto
    qed
    have "n < 16 ^ Suc j" using ih(4) by auto
    then show ?thesis using eq ih(2,3) nibs False by (intro exI [of _ d'] exI [of _ "Suc j"]) simp
  qed
qed

text \<open>The bytes \<open>d\<close> encode the number \<open>v\<close> with \<open>n\<close> half-bytes.\<close>

definition code_of :: "u8 list \<Rightarrow> nat \<Rightarrow> int \<Rightarrow> bool" where
  "code_of d n v \<longleftrightarrow> 0 < n \<and> length d = n div 2 + 1 \<and> nib d 0 = int n - 1 \<and> (\<forall>i. 1 \<le> i \<and> i \<le> n \<longrightarrow> nib d i = v div 16 ^ (i - 1) mod 16)
     \<and> 0 \<le> v \<and> v < 16 ^ n"

lemma nib_take: "i div 2 < m \<Longrightarrow> nib (take m d) i = nib d i"
  by (simp add: nib_def)

lemma encode_int_ok:
  assumes "0 \<le> v" "v < 16 ^ (2 * bytes)" "0 < bytes" "bytes \<le> 8"
  shows "\<exists>d n. encode_int_internal bytes v = Some d \<and> code_of d n v \<and> n \<le> 2 * bytes"
proof -
  let ?z = "replicate (bytes + 1) (0 :: u8)"
  have "1 + 2 * bytes \<le> 2 * length ?z" by simp
  from encode_loop_ok [OF assms(1,2) this] obtain d j where l: "encode_loop v 1 ?z = Some (d, 1 + j)" "j \<le> 2 * bytes" "length d = bytes + 1" "v < 16 ^ j"
    "v = 0 \<longrightarrow> j = 0" "v \<noteq> 0 \<longrightarrow> 0 < j" "\<forall>i. nib d i = (if 1 \<le> i \<and> i < 1 + j then v div 16 ^ (i - 1) mod 16 else nib ?z i)"
    by (metis length_replicate)
  define n where "n = (if j = 0 then 1 else j)"
  have n: "0 < n" "n \<le> 2 * bytes" "j = 0 \<Longrightarrow> n = 1" "j \<noteq> 0 \<Longrightarrow> n = j" using l(2) assms(3) by (auto simp: n_def)
  define e where "e = set_nib d 0 (int (n - 1))"
  have "0 div 2 < length d" using l(3) by simp
  from nib_set [OF this] have e: "nib e i = (if i = 0 then int (n - 1) mod 16 else nib d i)" for i by (simp add: e_def)
  have el: "length e = bytes + 1" using l(3) by (simp add: e_def)
  have len: "(1 + j + 1) div 2 = n div 2 + 1" using n(3,4) by (cases "j = 0") simp_all
  have le: "n div 2 + 1 \<le> length e" using n(2) el by simp
  have hd: "(if 1 + j > 2 then 1 + j - 2 else 0) = n - 1" using n(3,4) by (cases "j = 0") auto
  have "encode_int_internal bytes v = Some (take (n div 2 + 1) e)"
    unfolding encode_int_internal_def l(1) len using le el l(3) hd n(3,4)
    by (cases "j = 0"; cases "j = 1") (auto simp: peek_def poke_def e_def set_nib_def set_high_def split: if_splits)
  moreover have "code_of (take (n div 2 + 1) e) n v"
  proof -
    have "nib (take (n div 2 + 1) e) 0 = int n - 1" using nib_take [of 0 "n div 2 + 1" e] e [of 0] n(1,2) assms(4) by simp
    moreover have "nib (take (n div 2 + 1) e) i = v div 16 ^ (i - 1) mod 16" if i: "1 \<le> i \<and> i \<le> n" for i
    proof -
      have "i div 2 < n div 2 + 1" using i by (meson div_le_mono less_add_one order.strict_trans1)
      then have "nib (take (n div 2 + 1) e) i = nib d i" using nib_take e [of i] i by simp
      also have "\<dots> = v div 16 ^ (i - 1) mod 16"
      proof (cases "j = 0")
        case True
        then have "i = 1" "v = 0" using i n(3) l(6) by auto
        moreover have "nib ?z 1 = 0" using assms(3) by (simp add: nib_def low_half_def)
        ultimately show ?thesis using l(7) True by simp
      next
        case False
        then show ?thesis using l(7) i n(4) by auto
      qed
      finally show ?thesis .
    qed
    moreover have "v < 16 ^ n" using l(4,6) n(3,4) assms(1) by (cases "j = 0") auto
    ultimately show ?thesis using assms(1) n(1) le unfolding code_of_def by simp
  qed
  ultimately show ?thesis using n(2) by blast
qed

section \<open>Reading the start of a buffer\<close>

lemma fresh_id_ok: "fresh_id b \<notin> ch_id ` set (eb_chains b)"
proof -
  have "x \<in> set xs \<Longrightarrow> x \<le> foldr max xs 0" for x :: nat and xs by (induction xs) auto
  then have "ch_id c \<le> foldr max (map ch_id (eb_chains b)) 0" if "c \<in> set (eb_chains b)" for c using that by simp
  then show ?thesis unfolding fresh_id_def by fastforce
qed

lemma read_at_ok:
  assumes "eb_ok b" "eb_chains b \<noteq> []" "ch_id (hd (eb_chains b)) = i" "k < off (hd (eb_chains b))"
  shows "read_at b i k = Some (contents b ! k)"
proof -
  obtain c cs where ch: "eb_chains b = c # cs" using assms(2) by (cases "eb_chains b") auto
  have c: "chain_ok c" using assms(1) ch by (simp add: eb_ok_def)
  let ?xs = "take (off c) (drop (misalign c) (ch_buffer c))"
  have k: "k < off c" using assms(4) ch by simp
  have le: "misalign c + off c \<le> buffer_len c" using c by (simp add: chain_ok_def)
  have x: "?xs ! k = ch_buffer c ! (misalign c + k)" "k < length ?xs" using k le by simp_all
  have "?xs ! k \<in> set ?xs" using x(2) by (rule nth_mem)
  then have "?xs ! k \<noteq> None" using c unfolding chain_ok_def by metis
  moreover have "contents b ! k = cdata c ! k" using ch k cdata_len [OF c] by (simp add: contents_def nth_append)
  moreover have "cdata c ! k = the (?xs ! k)" using x(2) by (simp add: cdata_def)
  ultimately show ?thesis using assms(3) ch k le x(1) by (auto simp: read_at_def chain_at_def peek_def)
qed

lemma small_chain_new:
  assumes "\<forall>k. A k" "n \<le> 4096"
  shows "evbuffer_chain_new A a n \<noteq> None"
  using assms by (auto simp: evbuffer_chain_new_def EVBUFFER_CHAIN_MAX_def EVBUFFER_CHAIN_SIZE_def Let_def)

text \<open>A pull-up of a few bytes that are there gives a pointer through which they can be read.\<close>

lemma pullup_reads:
  assumes "eb_ok b" "\<forall>k. A k" "0 < n" "n \<le> length (contents b)" "n \<le> 4096"
  shows "\<exists>i b'. evbuffer_pullup A (fresh_id b) b (int n) = Some (Some i, b') \<and> eb_ok b' \<and> contents b' = contents b \<and> same_setup b b'
    \<and> (\<forall>k < n. read_at b' i k = Some (contents b ! k))"
proof -
  obtain x b' where p: "evbuffer_pullup A (fresh_id b) b (int n) = Some (x, b')" "eb_ok b'" "contents b' = contents b" "same_setup b b'"
    "x = None \<longrightarrow> b' = b \<and> (n = 0 \<or> length (contents b) < n \<or> evbuffer_chain_new A (fresh_id b) n = None)"
    "\<forall>i. x = Some i \<longrightarrow> eb_chains b' \<noteq> [] \<and> ch_id (hd (eb_chains b')) = i \<and> 0 < n \<and> n \<le> off (hd (eb_chains b'))"
    using evbuffer_pullup_ok [OF assms(1) fresh_id_ok, of n "int n" A] by auto
  obtain i where i: "x = Some i" using p(5) assms(3,4) small_chain_new [OF assms(2,5)] by (cases x) auto
  have "read_at b' i k = Some (contents b ! k)" if "k < n" for k
  proof -
    have h: "eb_chains b' \<noteq> []" "ch_id (hd (eb_chains b')) = i" "k < off (hd (eb_chains b'))" using p(6) i that by auto
    show ?thesis using read_at_ok [OF p(2) h] p(3) by simp
  qed
  then show ?thesis using p(1-4) i by blast
qed

lemma pulled_reads:
  assumes "eb_ok b" "\<forall>k. A k" "0 < n" "offset + n \<le> length (contents b)" "offset + n \<le> 4096"
  shows "\<exists>i b'. pulled A b n offset = Some (Some i, b') \<and> eb_ok b' \<and> contents b' = contents b \<and> same_setup b b'
    \<and> (\<forall>k < n. read_at b' i (offset + k) = Some (contents b ! (offset + k)))"
proof -
  have "0 < offset + n" using assms(3) by simp
  from pullup_reads [OF assms(1,2) this assms(4,5)] show ?thesis unfolding pulled_def by auto
qed

section \<open>Decoding\<close>

lemma nibble_loop_ok:
  assumes "\<forall>k < length d. read_at b i (offset + k) = Some (d ! k)" "\<forall>j. 1 \<le> j \<and> j \<le> n \<longrightarrow> nib d j = v div 16 ^ (j - 1) mod 16" "n div 2 < length d"
  shows "nibble_loop b i offset n acc = Some (acc * 16 ^ n + v mod 16 ^ n)"
  using assms(2,3)
proof (induction n arbitrary: acc)
  case (Suc n)
  have r: "read_at b i (offset + Suc n div 2) = Some (d ! (Suc n div 2))" using assms(1) Suc.prems(2) by simp
  have n: "nib d (Suc n) = v div 16 ^ n mod 16" using Suc.prems(1) by simp
  have "n div 2 < length d" using Suc.prems(2) by (meson div_le_mono le_SucI le_refl order.strict_trans1)
  then have ih: "nibble_loop b i offset n x = Some (x * 16 ^ n + v mod 16 ^ n)" for x using Suc by simp
  have "nibble_loop b i offset (Suc n) acc = nibble_loop b i offset n (acc * 16 + nib d (Suc n))"
    unfolding nibble_loop.simps r nib_def low_half_def high_half_def by simp
  also have "\<dots> = Some ((acc * 16 + v div 16 ^ n mod 16) * 16 ^ n + v mod 16 ^ n)" unfolding ih n by (rule refl)
  also have "(acc * 16 + v div 16 ^ n mod 16) * 16 ^ n + v mod 16 ^ n = acc * 16 ^ Suc n + v mod 16 ^ Suc n"
    using mod_mult2_eq' [of v "16 ^ n" 16] by (simp add: algebra_simps)
  finally show ?case .
qed simp

lemma decode_integer_ok:
  assumes "eb_ok b" "\<forall>k. A k" "contents b = pre @ d @ post" "length pre = offset" "offset \<le> 64" "code_of d n v" "n \<le> maxn" "n \<le> 16"
  shows "\<exists>b'. decode_integer A maxn b offset = Some (int (length d), Some v, b') \<and> eb_ok b' \<and> contents b' = contents b \<and> same_setup b b'"
proof -
  note co = assms(6)[unfolded code_of_def]
  have d: "length d = n div 2 + 1" "0 < n" using co by simp_all
  have tot: "total_len b' = length (contents b')" if "eb_ok b'" for b' using that by (simp add: eb_ok_def)
  have at: "contents b ! (offset + k) = d ! k" if "k < length d" for k using assms(3,4) that by (auto simp: nth_append)
  have len: "offset + length d \<le> length (contents b)" "length d \<le> 9" using assms(3,4,8) d by simp_all
  have "offset + 1 \<le> length (contents b)" "offset + 1 \<le> 4096" using len d assms(5) by simp_all
  from pulled_reads [OF assms(1,2) _ this] obtain i b1 where p1: "pulled A b 1 offset = Some (Some i, b1)" "eb_ok b1"
    "contents b1 = contents b" "same_setup b b1" "\<forall>k < 1. read_at b1 i (offset + k) = Some (contents b ! (offset + k))" by auto
  have rd: "read_at b1 i offset = Some (d ! 0)" using p1(5) at [of 0] d by simp
  have "uint (drop_bit 4 (d ! 0 AND 0xf0)) = int n - 1" using co by (simp add: nib_def high_half_def)
  then have nn: "unat (drop_bit 4 (d ! 0 AND 0xf0)) + 1 = n" using d(2) by (simp add: nat_minus_as_int flip: nat_uint_eq)
  have "offset + (n div 2 + 1) \<le> length (contents b1)" "offset + (n div 2 + 1) \<le> 4096" using len d(1) assms(5) p1(3) by simp_all
  from pulled_reads [OF p1(2) assms(2) _ this] obtain i' b2 where p2: "pulled A b1 (n div 2 + 1) offset = Some (Some i', b2)" "eb_ok b2"
    "contents b2 = contents b" "same_setup b1 b2" "\<forall>k < n div 2 + 1. read_at b2 i' (offset + k) = Some (contents b ! (offset + k))"
    using p1(3) by auto
  have "\<forall>k < length d. read_at b2 i' (offset + k) = Some (d ! k)" using p2(5) at d(1) by simp
  from nibble_loop_ok [OF this, of n v 0] have nl: "nibble_loop b2 i' offset n 0 = Some v" using co d by simp
  have "int (evbuffer_get_length b) - int offset \<ge> int (n div 2 + 1)" using tot [OF assms(1)] len d(1) by (simp add: evbuffer_get_length_def)
  then have "decode_integer A maxn b offset = Some (int (n div 2 + 1), Some v, b2)"
    unfolding decode_integer_def Let_def using p1(1) rd nn p2(1) nl assms(7) by simp
  then show ?thesis using p2(2,3) same_setup_trans [OF p1(4) p2(4)] d(1) by simp
qed

end
