(* ===== verification/EvTagQueue.thy ===== *)
theory EvTagQueue
  imports EvTagProps
begin

text \<open>
  Queues of tagged records: tags are read back, a sequence of records written to a queue is read back in the same order, and a
  tag of more than five bytes makes the reader leave the bytes it may read.
\<close>

section \<open>Tags\<close>

definition tag_rest :: "u32 \<Rightarrow> u32" where "tag_rest w = drop_bit 7 w"

lemma uint_tag_rest: "uint (tag_rest w) = uint w div 128"
  by (simp add: tag_rest_def drop_bit_eq_div uint_div)

lemma tag_rest_0: "tag_rest w = 0 \<longleftrightarrow> uint w < 128"
proof -
  have "tag_rest w = 0 \<longleftrightarrow> uint (tag_rest w) = 0" by (rule unsigned_eq_0_iff [symmetric])
  also have "\<dots> \<longleftrightarrow> uint w < 128" using uint_ge_0 [of w] unfolding uint_tag_rest by (auto simp: zdiv_eq_0_iff)
  finally show ?thesis .
qed

lemma tag_bytes_word:
  "tag_rest w = 0 \<Longrightarrow> tag_bytes (uint w) = [ucast w AND 0x7f]"
  "tag_rest w \<noteq> 0 \<Longrightarrow> tag_bytes (uint w) = ((ucast w AND 0x7f) OR 0x80) # tag_bytes (uint (tag_rest w))"
proof -
  have o: "(of_int (uint w) :: u8) = ucast w" by simp
  show "tag_bytes (uint w) = [ucast w AND 0x7f]" if "tag_rest w = 0"
    using that tag_bytes.simps [of "uint w"] by (simp add: tag_rest_0 o)
  have "tag_rest w \<noteq> 0 \<Longrightarrow> 0 < uint w div 128" unfolding tag_rest_0 by (simp add: pos_imp_zdiv_pos_iff)
  then show "tag_rest w \<noteq> 0 \<Longrightarrow> tag_bytes (uint w) = ((ucast w AND 0x7f) OR 0x80) # tag_bytes (uint (tag_rest w))"
    using tag_bytes.simps [of "uint w"] unfolding uint_tag_rest o by simp
qed

lemma tag_bits:
  fixes w :: u32
  shows "(ucast (((ucast w :: u8) AND 0x7f) AND 0x7f) :: u32) = take_bit 7 w"
    "(ucast (((ucast w AND 0x7f) OR 0x80 :: u8) AND 0x7f) :: u32) = take_bit 7 w"
    "((ucast w AND 0x7f) OR 0x80 :: u8) AND 0x80 \<noteq> 0" "((ucast w :: u8) AND 0x7f) AND 0x80 = 0"
    "push_bit (7 * k) (take_bit 7 w) OR push_bit (7 * (k + 1)) (tag_rest w) = push_bit (7 * k) w"
proof -
  have m: "(0x7f :: u8) = mask 7" by (simp add: mask_eq_exp_minus_1)
  have c: "n < 7 \<Longrightarrow> n = 0 \<or> n = 1 \<or> n = 2 \<or> n = 3 \<or> n = 4 \<or> n = 5 \<or> n = 6" for n :: nat by arith
  have z: "\<not> bit (0x80 :: int) n" if "n < 7" for n using c [OF that] by auto
  have h: "bit (0x80 :: u8) 7" by simp
  have x: "((ucast w AND 0x7f) OR 0x80 :: u8) AND 0x7f = (ucast w AND 0x7f) AND 0x7f"
    unfolding m by (rule bit_word_eqI) (auto simp: bit_simps z)
  show y: "(ucast (((ucast w :: u8) AND 0x7f) AND 0x7f) :: u32) = take_bit 7 w"
    unfolding m by (rule bit_word_eqI) (auto simp: bit_simps)
  show "(ucast (((ucast w AND 0x7f) OR 0x80 :: u8) AND 0x7f) :: u32) = take_bit 7 w" unfolding x by (rule y)
  have "bit (((ucast w AND 0x7f) OR 0x80 :: u8) AND 0x80) 7" using h by (simp only: bit_and_iff bit_or_iff simp_thms)
  then show "((ucast w AND 0x7f) OR 0x80 :: u8) AND 0x80 \<noteq> 0" by (metis bit_0_eq bot_apply bot_bool_def)
  show "((ucast w :: u8) AND 0x7f) AND 0x80 = 0" unfolding m by (rule bit_word_eqI) (auto simp: bit_simps z)
  have ix: "n - k * 7 < 7 \<or> 7 + (n - (7 + k * 7)) = n - k * 7" for n :: nat by arith
  show "push_bit (7 * k) (take_bit 7 w) OR push_bit (7 * (k + 1)) (tag_rest w) = push_bit (7 * k) w"
    unfolding tag_rest_def
  proof (rule bit_word_eqI)
    fix n
    assume "n < LENGTH(32)"
    then show "bit (push_bit (7 * k) (take_bit 7 w) OR push_bit (7 * (k + 1)) (drop_bit 7 w)) n = bit (push_bit (7 * k) w) n"
      using ix [of n] by (auto simp: bit_simps algebra_simps)
  qed
qed

lemma tag_bytes_length:
  assumes "uint (w :: u32) < 128 ^ Suc k"
  shows "length (tag_bytes (uint w)) \<le> Suc k \<and> tag_bytes (uint w) \<noteq> []"
  using assms
proof (induction k arbitrary: w)
  case 0
  then have "tag_rest w = 0" by (simp add: tag_rest_0)
  then show ?case by (simp add: tag_bytes_word)
next
  case (Suc k)
  have "uint (tag_rest w) < 128 ^ Suc k" using Suc.prems by (simp add: uint_tag_rest)
  from Suc.IH [OF this] show ?case by (cases "tag_rest w = 0") (simp_all add: tag_bytes_word)
qed

lemma tag_bytes_five: "length (tag_bytes (uint (w :: u32))) \<le> 5" "tag_bytes (uint (w :: u32)) \<noteq> []"
proof -
  have "uint w < 2 ^ 32" using uint_lt2p [of w] by simp
  then have "uint w < 128 ^ Suc 4" by simp
  from tag_bytes_length [OF this] show "length (tag_bytes (uint w)) \<le> 5" "tag_bytes (uint w) \<noteq> []" by simp_all
qed

lemma tag_loop_ok:
  assumes "uint (w :: u32) < 128 ^ Suc k" "\<forall>j < length (tag_bytes (uint w)). read_at b i (count + j) = Some (tag_bytes (uint w) ! j)"
    "count + k < 5" "length (tag_bytes (uint w)) \<le> left"
  shows "tag_loop b i left count number = Some (Some (number OR push_bit (7 * count) w, count + length (tag_bytes (uint w))))"
  using assms
proof (induction k arbitrary: w count number left)
  case 0
  then have d: "tag_rest w = 0" by (simp add: tag_rest_0)
  then have t: "tag_bytes (uint w) = [ucast w AND 0x7f]" by (simp add: tag_bytes_word)
  have "take_bit 7 w = w" using tag_bits(5) [of 0 w] d by simp
  moreover obtain l where l: "left = Suc l" using 0 t by (cases left) auto
  moreover have "read_at b i count = Some (ucast w AND 0x7f)" using 0(2) t by simp
  ultimately show ?case using t 0(3) tag_bits(1,4) [of w] by simp
next
  case (Suc k)
  obtain l where l: "left = Suc l" using Suc.prems(4) tag_bytes_length [OF Suc.prems(1)] by (cases left) auto
  show ?case
  proof (cases "tag_rest w = 0")
    case True
    then have t: "tag_bytes (uint w) = [ucast w AND 0x7f]" by (simp add: tag_bytes_word)
    have "take_bit 7 w = w" using tag_bits(5) [of 0 w] True by simp
    moreover have "read_at b i count = Some (ucast w AND 0x7f)" using Suc.prems(2) t by simp
    ultimately show ?thesis using t l Suc.prems(3) tag_bits(1,4) [of w] by simp
  next
    case False
    then have t: "tag_bytes (uint w) = ((ucast w AND 0x7f) OR 0x80) # tag_bytes (uint (tag_rest w))" by (simp add: tag_bytes_word)
    have u: "uint (tag_rest w) < 128 ^ Suc k" using Suc.prems(1) by (simp add: uint_tag_rest)
    have r: "read_at b i count = Some ((ucast w AND 0x7f) OR 0x80)" using Suc.prems(2) t by auto
    have "\<forall>j < length (tag_bytes (uint (tag_rest w))). read_at b i (count + 1 + j) = Some (tag_bytes (uint (tag_rest w)) ! j)"
      using Suc.prems(2) t by (auto dest: spec [of _ "Suc _"])
    note ih = Suc.IH [OF u this, of l "number OR push_bit (7 * count) (take_bit 7 w)"]
    have "tag_loop b i left count number = tag_loop b i l (count + 1) (number OR push_bit (7 * count) (take_bit 7 w))"
      unfolding l tag_loop.simps r Let_def bind.bind_lunit tag_bits(2) using tag_bits(3) [of w] Suc.prems(3) by simp
    then show ?thesis using ih Suc.prems(3,4) t l tag_bits(5) [of count w] by (simp add: or.assoc)
  qed
qed

lemma decode_tag_ok:
  assumes "eb_ok b" "\<forall>k. A k" "contents b = tag_bytes (uint w) @ post" "\<not> freeze_start b"
  shows "\<exists>b'. decode_tag_internal A b dodrain = Some (int (length (tag_bytes (uint w))), Some w, b') \<and> eb_ok b' \<and> same_setup b b'
    \<and> contents b' = (if dodrain then post else contents b)"
proof -
  let ?t = "tag_bytes (uint w)"
  have tot: "total_len b = length (contents b)" using assms(1) by (simp add: eb_ok_def)
  define n where "n = (if total_len b < 5 then total_len b else 5)"
  have t: "length ?t \<le> n" "0 < n" "n \<le> length (contents b)" "n \<le> 4096"
    using tag_bytes_five [of w] assms(3) tot by (auto simp: n_def)
  from pullup_reads [OF assms(1,2) t(2-4)] obtain i b1 where p: "evbuffer_pullup A (fresh_id b) b (int n) = Some (Some i, b1)" "eb_ok b1"
    "contents b1 = contents b" "same_setup b b1" "\<forall>k < n. read_at b1 i k = Some (contents b ! k)" by blast
  have "uint w < 2 ^ 32" using uint_lt2p [of w] by simp
  then have u: "uint w < 128 ^ Suc 4" by simp
  have r: "\<forall>j < length ?t. read_at b1 i (0 + j) = Some (?t ! j)" using p(5) t(1) assms(3) by (auto simp: nth_append)
  have l: "tag_loop b1 i (total_len b) 0 0 = Some (Some (w, length ?t))"
    using tag_loop_ok [OF u r, of "total_len b" 0] assms(3) tot by simp
  obtain b2 where d: "evbuffer_drain b1 (length ?t) = Some (0, b2)" "eb_ok b2" "same_setup b1 b2" "contents b2 = post"
    using evbuffer_drain_ok [OF p(2), of "length ?t"] assms(3,4) p(3,4) by (auto simp: same_setup_def)
  have x: "evbuffer_pullup A (fresh_id b) b (int (if total_len b < 5 then total_len b else 5)) = Some (Some i, b1)" using p(1) by (simp only: n_def)
  show ?thesis
  proof (cases dodrain)
    case True
    then have "decode_tag_internal A b dodrain = Some (int (length ?t), Some w, b2)"
      unfolding decode_tag_internal_def Let_def evbuffer_get_length_def x using l d(1) by simp
    then show ?thesis using True d same_setup_trans [OF p(4) d(3)] by simp
  next
    case False
    then have "decode_tag_internal A b dodrain = Some (int (length ?t), Some w, b1)"
      unfolding decode_tag_internal_def Let_def evbuffer_get_length_def x using l by simp
    then show ?thesis using False p by simp
  qed
qed

section \<open>Writing records\<close>

text \<open>The buffer grew by \<open>d\<close>, or some of the bytes were lost because memory was.\<close>

definition grows :: "evbuffer \<Rightarrow> u8 list \<Rightarrow> evbuffer \<Rightarrow> bool" where
  "grows b d b' \<longleftrightarrow> eb_ok b' \<and> same_setup b b' \<and> length (contents b') \<le> length (contents b) + length d
     \<and> (length (contents b') = length (contents b) + length d \<longrightarrow> contents b' = contents b @ d)"

lemma grows_refl: "eb_ok b \<Longrightarrow> grows b [] b"
  by (simp add: grows_def same_setup_def)

lemma grows_trans: "grows b d b1 \<Longrightarrow> grows b1 e b2 \<Longrightarrow> grows b (d @ e) b2"
  by (auto simp: grows_def same_setup_def)

lemma evb_put_ok: "eb_ok b \<Longrightarrow> d \<noteq> [] \<Longrightarrow> \<exists>b'. evb_put A d b = Some b' \<and> grows b d b'"
  using evbuffer_add_ok [OF _ _ fresh_id_ok, of b d A] by (auto simp: adds_def evb_put_def grows_def same_setup_def)

lemma evb_put3:
  assumes "eb_ok b" "t \<noteq> []" "l \<noteq> []" "d \<noteq> []"
  shows "\<exists>b1 b2 b3. evb_put A t b = Some b1 \<and> evb_put A l b1 = Some b2 \<and> evb_put A d b2 = Some b3 \<and> grows b (t @ l @ d) b3"
proof -
  obtain b1 where b1: "evb_put A t b = Some b1" "grows b t b1" using evb_put_ok [OF assms(1,2)] by blast
  obtain b2 where b2: "evb_put A l b1 = Some b2" "grows b1 l b2" using evb_put_ok [of b1 l A] b1(2) assms(3) by (auto simp: grows_def)
  obtain b3 where b3: "evb_put A d b2 = Some b3" "grows b2 d b3" using evb_put_ok [of b2 d A] b2(2) assms(4) by (auto simp: grows_def)
  then show ?thesis using b1 b2 grows_trans by blast
qed

lemma put_tag_eq: "put_tag A tag b = evb_put A (tag_bytes (uint tag)) b"
  using tag_bytes_five [of tag] by (cases "evb_put A (tag_bytes (uint tag)) b") (simp_all add: put_tag_def evtag_encode_tag_def Let_def)

text \<open>The values of records, and how the functions write and read them.\<close>

datatype tagged = TInt u32 | TInt64 u64 | TString "u8 list"

datatype tagged_kind = KInt | KInt64 | KString

fun kind_of :: "tagged \<Rightarrow> tagged_kind" where
  "kind_of (TInt n) = KInt"
| "kind_of (TInt64 n) = KInt64"
| "kind_of (TString s) = KString"

text \<open>Strings are not empty and shorter than \<open>2 ^ 31\<close>.\<close>

fun valid_value :: "tagged \<Rightarrow> bool" where
  "valid_value (TString s) = (s \<noteq> [] \<and> 0 \<notin> set s \<and> int (length s) < 2147483648)"
| "valid_value v = True"

fun marshal_value :: "allocator \<Rightarrow> u32 \<Rightarrow> tagged \<Rightarrow> evbuffer \<Rightarrow> evbuffer option" where
  "marshal_value A tag (TInt n) b = evtag_marshal_int A tag n b"
| "marshal_value A tag (TInt64 n) b = evtag_marshal_int64 A tag n b"
| "marshal_value A tag (TString s) b = evtag_marshal_string A tag s b"

fun unmarshal_value :: "allocator \<Rightarrow> u32 \<Rightarrow> tagged_kind \<Rightarrow> evbuffer \<Rightarrow> (tagged option \<times> evbuffer) option" where
  "unmarshal_value A tag KInt b = do {
     (r, n, b) \<leftarrow> evtag_unmarshal_int A b tag; Some (if r = - 1 then None else map_option (TInt \<circ> of_int) n, b) }"
| "unmarshal_value A tag KInt64 b = do {
     (r, n, b) \<leftarrow> evtag_unmarshal_int64 A b tag; Some (if r = - 1 then None else map_option (TInt64 \<circ> of_int) n, b) }"
| "unmarshal_value A tag KString b = do {
     (r, s, b) \<leftarrow> evtag_unmarshal_string A b tag; Some (if r = - 1 then None else Some (TString (butlast s)), b) }"

fun marshal_all :: "allocator \<Rightarrow> (u32 \<times> tagged) list \<Rightarrow> evbuffer \<Rightarrow> evbuffer option" where
  "marshal_all A [] b = Some b"
| "marshal_all A ((tag, v) # rs) b = do { b \<leftarrow> marshal_value A tag v b; marshal_all A rs b }"

fun unmarshal_all :: "allocator \<Rightarrow> (u32 \<times> tagged_kind) list \<Rightarrow> evbuffer \<Rightarrow> (tagged option list \<times> evbuffer) option" where
  "unmarshal_all A [] b = Some ([], b)"
| "unmarshal_all A ((tag, k) # rs) b = do {
     (v, b) \<leftarrow> unmarshal_value A tag k b; (vs, b) \<leftarrow> unmarshal_all A rs b; Some (v # vs, b) }"

text \<open>The bytes of a record.\<close>

fun value_bytes :: "tagged \<Rightarrow> u8 list option" where
  "value_bytes (TInt n) = encode_int_internal 4 (uint n)"
| "value_bytes (TInt64 n) = encode_int_internal 8 (uint n)"
| "value_bytes (TString s) = Some s"

definition record_bytes :: "u32 \<times> tagged \<Rightarrow> u8 list option" where
  "record_bytes r = do {
     d \<leftarrow> value_bytes (snd r);
     l \<leftarrow> encode_int_internal 4 (int (length d));
     Some (tag_bytes (uint (fst r)) @ l @ d) }"

lemma encode_word:
  "\<exists>d n. encode_int_internal 4 (uint (w :: u32)) = Some d \<and> code_of d n (uint w) \<and> n \<le> 8"
  "\<exists>d n. encode_int_internal 8 (uint (x :: u64)) = Some d \<and> code_of d n (uint x) \<and> n \<le> 16"
proof -
  have "uint w < 2 ^ 32" "uint x < 2 ^ 64" using uint_lt2p [of w] uint_lt2p [of x] by simp_all
  then show "\<exists>d n. encode_int_internal 4 (uint (w :: u32)) = Some d \<and> code_of d n (uint w) \<and> n \<le> 8"
    "\<exists>d n. encode_int_internal 8 (uint (x :: u64)) = Some d \<and> code_of d n (uint x) \<and> n \<le> 16"
    using encode_int_ok [of "uint w" 4] encode_int_ok [of "uint x" 8] by simp_all
qed

lemma code_of_length: "code_of d n v \<Longrightarrow> length d = n div 2 + 1" "code_of d n v \<Longrightarrow> d \<noteq> []"
  by (auto simp: code_of_def)

lemma code_of_short: "code_of d n v \<Longrightarrow> n \<le> 16 \<Longrightarrow> d \<noteq> [] \<and> length d < 2147483648"
  by (auto simp: code_of_def)

lemma value_bytes_ok:
  assumes "valid_value v"
  shows "\<exists>d. value_bytes v = Some d \<and> d \<noteq> [] \<and> int (length d) < 2147483648"
proof (cases v)
  case (TInt n)
  then show ?thesis using encode_word(1) [of n] code_of_short by fastforce
next
  case (TInt64 n)
  then show ?thesis using encode_word(2) [of n] code_of_short by fastforce
next
  case (TString s)
  then show ?thesis using assms by simp
qed

lemma length_word: "int n < 2147483648 \<Longrightarrow> uint (of_nat n :: u32) = int n"
  by (simp add: unsigned_of_nat take_bit_nat_eq_self_iff)

lemma marshal_value_ok:
  assumes "eb_ok b" "valid_value v"
  shows "\<exists>b' x. marshal_value A tag v b = Some b' \<and> record_bytes (tag, v) = Some x \<and> grows b x b'"
proof -
  obtain d where d: "value_bytes v = Some d" "d \<noteq> []" "int (length d) < 2147483648" using value_bytes_ok [OF assms(2)] by blast
  let ?w = "of_nat (length d) :: u32"
  obtain l n where l: "encode_int_internal 4 (uint ?w) = Some l" "code_of l n (uint ?w)" using encode_word(1) [of ?w] by blast
  have x: "record_bytes (tag, v) = Some (tag_bytes (uint tag) @ l @ d)" using d l(1) length_word [OF d(3)] by (simp add: record_bytes_def)
  obtain b1 b2 b3 where b: "evb_put A (tag_bytes (uint tag)) b = Some b1" "evb_put A l b1 = Some b2" "evb_put A d b2 = Some b3"
    "grows b (tag_bytes (uint tag) @ l @ d) b3"
    using evb_put3 [OF assms(1) tag_bytes_five(2) code_of_length(2) [OF l(2)] d(2)] by blast
  have e: "evtag_encode_int A ?w b1 = Some b2" using l(1) b(2) by (simp add: evtag_encode_int_def)
  have "marshal_value A tag v b = Some b3"
  proof (cases v)
    case (TInt n)
    then show ?thesis using d(1) b e by (simp add: evtag_marshal_int_def marshal_integer_def put_tag_eq)
  next
    case (TInt64 n)
    then show ?thesis using d(1) b e by (simp add: evtag_marshal_int64_def marshal_integer_def put_tag_eq)
  next
    case (TString s)
    have t: "takeWhile (\<lambda>c. c \<noteq> 0) s = s" using TString assms(2) by (auto simp: takeWhile_eq_all_conv)
    have "evtag_marshal_string A tag s b = evtag_marshal A tag s b" unfolding evtag_marshal_string_def t by (rule refl)
    then show ?thesis using TString d(1) b e by (simp add: evtag_marshal_def put_tag_eq)
  qed
  then show ?thesis using x b(4) by blast
qed

lemma marshal_all_ok:
  assumes "eb_ok b" "list_all (valid_value \<circ> snd) rs"
  shows "\<exists>b' xs. marshal_all A rs b = Some b' \<and> those (map record_bytes rs) = Some xs \<and> grows b (concat xs) b'"
  using assms
proof (induction rs arbitrary: b)
  case Nil
  then show ?case by (simp add: grows_refl)
next
  case (Cons r rs)
  obtain tag v where r: "r = (tag, v)" by (cases r)
  then obtain b1 x where b1: "marshal_value A tag v b = Some b1" "record_bytes (tag, v) = Some x" "grows b x b1"
    using marshal_value_ok [of b v A tag] Cons.prems by auto
  then obtain b' xs where "marshal_all A rs b1 = Some b'" "those (map record_bytes rs) = Some xs" "grows b1 (concat xs) b'"
    using Cons.IH [of b1] Cons.prems(2) by (auto simp: grows_def)
  then show ?case using r b1 grows_trans [OF b1(3)] by (intro exI [of _ b'] exI [of _ "x # xs"]) simp
qed

section \<open>Reading records\<close>

lemma decode_int_ok:
  assumes "eb_ok b" "\<forall>k. A k" "contents b = d @ post" "code_of d n v" "n \<le> 8" "\<not> freeze_start b"
  shows "\<exists>b'. evtag_decode_int A b = Some (0, Some v, b') \<and> eb_ok b' \<and> contents b' = post \<and> same_setup b b'"
proof -
  have "contents b = [] @ d @ post" using assms(3) by simp
  from decode_integer_ok [OF assms(1,2) this _ _ assms(4,5)] assms(5) obtain b1 where b1: "decode_integer A 8 b 0 = Some (int (length d), Some v, b1)"
    "eb_ok b1" "contents b1 = contents b" "same_setup b b1" by auto
  obtain b2 where "evbuffer_drain b1 (length d) = Some (0, b2)" "eb_ok b2" "same_setup b1 b2" "contents b2 = post"
    using evbuffer_drain_ok [OF b1(2), of "length d"] assms(3,6) b1(3,4) by (auto simp: same_setup_def)
  then show ?thesis using b1 by (auto simp: evtag_decode_int_def drain_result_def same_setup_def)
qed

lemma as_int_small: "0 \<le> n \<Longrightarrow> n < 2147483648 \<Longrightarrow> as_int n = n"
  by (simp add: as_int_def)

text \<open>The tag and the length of a record.\<close>

lemma header_ok:
  assumes "eb_ok b" "\<forall>k. A k" "contents b = tag_bytes (uint tag) @ l @ d @ post" "code_of l n (int (length d))" "n \<le> 8" "\<not> freeze_start b"
  shows "\<exists>b1 b2. decode_tag_internal A b True = Some (int (length (tag_bytes (uint tag))), Some tag, b1)
    \<and> evtag_decode_int A b1 = Some (0, Some (int (length d)), b2) \<and> eb_ok b2 \<and> contents b2 = d @ post \<and> same_setup b b2"
proof -
  obtain b1 where b1: "decode_tag_internal A b True = Some (int (length (tag_bytes (uint tag))), Some tag, b1)" "eb_ok b1" "same_setup b b1"
    "contents b1 = l @ d @ post" using decode_tag_ok [OF assms(1-3,6), of True] by auto
  have "\<not> freeze_start b1" using b1(3) assms(6) by (simp add: same_setup_def)
  from decode_int_ok [OF b1(2) assms(2) b1(4) assms(4,5) this] show ?thesis using b1 same_setup_trans by blast
qed

lemma unmarshal_integer_ok:
  assumes "eb_ok b" "\<forall>k. A k" "contents b = tag_bytes (uint tag) @ l @ d @ post" "code_of l n (int (length d))" "n \<le> 8" "\<not> freeze_start b"
    "code_of d m v" "m \<le> maxn" "m \<le> 16"
  shows "\<exists>b'. unmarshal_integer A maxn b tag = Some (int (length d), Some v, b') \<and> eb_ok b' \<and> contents b' = post \<and> same_setup b b'"
proof -
  obtain b1 b2 where h: "decode_tag_internal A b True = Some (int (length (tag_bytes (uint tag))), Some tag, b1)"
    "evtag_decode_int A b1 = Some (0, Some (int (length d)), b2)" "eb_ok b2" "contents b2 = d @ post" "same_setup b b2"
    using header_ok [OF assms(1-6)] by blast
  have "contents b2 = [] @ d @ post" using h(4) by simp
  from decode_integer_ok [OF h(3) assms(2) this _ _ assms(7-9)] obtain b3 where b3: "decode_integer A maxn b2 0 = Some (int (length d), Some v, b3)"
    "eb_ok b3" "contents b3 = d @ post" "same_setup b2 b3" using h(4) by auto
  obtain b4 where b4: "evbuffer_drain b3 (length d) = Some (0, b4)" "eb_ok b4" "same_setup b3 b4" "contents b4 = post"
    using evbuffer_drain_ok [OF b3(2), of "length d"] assms(6) b3(3,4) h(5) by (auto simp: same_setup_def)
  have "total_len b2 = length (contents b2)" using h(3) by (simp add: eb_ok_def)
  then have "unmarshal_integer A maxn b tag = Some (int (length d), Some v, b4)"
    using h b3(1) b4(1) by (simp add: unmarshal_integer_def evbuffer_get_length_def)
  then show ?thesis using b4(2,4) same_setup_trans [OF same_setup_trans [OF h(5) b3(4)] b4(3)] by blast
qed

lemma unmarshal_string_ok:
  assumes "eb_ok b" "\<forall>k. A k" "contents b = tag_bytes (uint tag) @ l @ d @ post" "code_of l n (int (length d))" "n \<le> 8" "\<not> freeze_start b"
    "int (length d) < 2147483648"
  shows "\<exists>b'. evtag_unmarshal_string A b tag = Some (0, d @ [0], b') \<and> eb_ok b' \<and> contents b' = post \<and> same_setup b b'"
proof -
  obtain b1 b2 where h: "decode_tag_internal A b True = Some (int (length (tag_bytes (uint tag))), Some tag, b1)"
    "evtag_decode_int A b1 = Some (0, Some (int (length d)), b2)" "eb_ok b2" "contents b2 = d @ post" "same_setup b b2"
    using header_ok [OF assms(1-6)] by blast
  have "total_len b2 = length (contents b2)" using h(3) by (simp add: eb_ok_def)
  then have hd: "evtag_unmarshal_header A b = Some (int (length d), Some tag, b2)"
    using h as_int_small [of "int (length d)"] assms(7) by (simp add: evtag_unmarshal_header_def evbuffer_get_length_def)
  have "\<not> freeze_start b2" using h(5) assms(6) by (simp add: same_setup_def)
  from evbuffer_remove_ok [OF h(3) this, of "length d"] obtain b' where "evbuffer_remove b2 (length d) = Some (int (length d), d, b')" "eb_ok b'"
    "same_setup b2 b'" "contents b' = post" using h(4) as_int_small [of "int (length d)"] assms(7) by auto
  then show ?thesis using hd assms(2) same_setup_trans [OF h(5)] by (auto simp: evtag_unmarshal_string_def)
qed

lemma of_code: "of_int (uint (w :: 'a :: len word)) = w"
  by simp

lemma unmarshal_value_ok:
  assumes "eb_ok b" "\<forall>k. A k" "valid_value v" "record_bytes (tag, v) = Some x" "contents b = x @ post" "\<not> freeze_start b"
  shows "\<exists>b'. unmarshal_value A tag (kind_of v) b = Some (Some v, b') \<and> eb_ok b' \<and> contents b' = post \<and> same_setup b b'"
proof -
  obtain d where d: "value_bytes v = Some d" "d \<noteq> []" "int (length d) < 2147483648" using value_bytes_ok [OF assms(3)] by blast
  obtain l n where l: "encode_int_internal 4 (uint (of_nat (length d) :: u32)) = Some l" "code_of l n (uint (of_nat (length d) :: u32))" "n \<le> 8"
    using encode_word(1) by blast
  have l: "encode_int_internal 4 (int (length d)) = Some l" "code_of l n (int (length d))" "n \<le> 8" using l length_word [OF d(3)] by simp_all
  have x: "contents b = tag_bytes (uint tag) @ l @ d @ post" using assms(4,5) d(1) l(1) by (auto simp: record_bytes_def)
  show ?thesis
  proof (cases v)
    case (TInt w)
    then obtain m where m: "code_of d m (uint w)" "m \<le> 8" using d(1) encode_word(1) [of w] by auto
    have "m \<le> 16" using m(2) by simp
    from unmarshal_integer_ok [OF assms(1,2) x l(2,3) assms(6) m this] show ?thesis using TInt by (auto simp: evtag_unmarshal_int_def)
  next
    case (TInt64 w)
    then obtain m where m: "code_of d m (uint w)" "m \<le> 16" using d(1) encode_word(2) [of w] by auto
    from unmarshal_integer_ok [OF assms(1,2) x l(2,3) assms(6) m(1) m(2) m(2)] show ?thesis using TInt64 by (auto simp: evtag_unmarshal_int64_def)
  next
    case (TString s)
    from unmarshal_string_ok [OF assms(1,2) x l(2,3) assms(6) d(3)] show ?thesis using TString d(1) by auto
  qed
qed

lemma unmarshal_all_ok:
  assumes "eb_ok b" "\<forall>k. A k" "list_all (valid_value \<circ> snd) rs" "those (map record_bytes rs) = Some xs" "contents b = concat xs @ post" "\<not> freeze_start b"
  shows "\<exists>b'. unmarshal_all A (map (map_prod id kind_of) rs) b = Some (map (Some \<circ> snd) rs, b') \<and> eb_ok b' \<and> contents b' = post \<and> same_setup b b'"
  using assms
proof (induction rs arbitrary: b xs)
  case Nil
  then show ?case by (simp add: same_setup_def)
next
  case (Cons r rs)
  obtain tag v where r: "r = (tag, v)" by (cases r)
  obtain x ys where xs: "record_bytes (tag, v) = Some x" "those (map record_bytes rs) = Some ys" "xs = x # ys"
    using Cons.prems(4) r by (auto split: option.splits)
  have "contents b = x @ concat ys @ post" "valid_value v" using Cons.prems(3,5) r xs(3) by simp_all
  from unmarshal_value_ok [OF Cons.prems(1,2) this(2) xs(1) this(1) Cons.prems(6)] obtain b1 where
    b1: "unmarshal_value A tag (kind_of v) b = Some (Some v, b1)" "eb_ok b1" "contents b1 = concat ys @ post" "same_setup b b1" by blast
  have "list_all (valid_value \<circ> snd) rs" "\<not> freeze_start b1" using Cons.prems(3,6) b1(4) by (simp_all add: same_setup_def comp_def)
  from Cons.IH [OF b1(2) Cons.prems(2) this(1) xs(2) b1(3) this(2)] show ?case using r b1(1) same_setup_trans [OF b1(4)] by auto
qed

section \<open>Properties\<close>

definition records_length :: "(u32 \<times> tagged) list \<Rightarrow> nat option" where
  "records_length rs = map_option (sum_list \<circ> map length) (those (map record_bytes rs))"

text \<open>C7: Records of any tags and values written with \<^verbatim>\<open>evtag_marshal_int\<close>, \<^verbatim>\<open>evtag_marshal_int64\<close> and \<^verbatim>\<open>evtag_marshal_string\<close> behind
  the bytes of a buffer never fault; if no allocation for them failed (all their bytes are there), then draining the old bytes and
  reading the records by their tags and kinds gives back the values in the order they were written, and the buffer is empty.\<close>

theorem evtag_queue_roundtrip:
  assumes "eb_ok b" "\<not> freeze_start b" "\<forall>k. A k" "list_all (valid_value \<circ> snd) rs" "records_length rs = Some n"
    "map_option evbuffer_get_length (marshal_all A rs b) = Some (evbuffer_get_length b + n)"
  shows "\<exists>b1 b2 b3. marshal_all A rs b = Some b1 \<and> evbuffer_drain b1 (evbuffer_get_length b) = Some (0, b2)
    \<and> unmarshal_all A (map (map_prod id kind_of) rs) b2 = Some (map (Some \<circ> snd) rs, b3) \<and> evbuffer_get_length b3 = 0"
proof -
  obtain b1 xs where b1: "marshal_all A rs b = Some b1" "those (map record_bytes rs) = Some xs" "grows b (concat xs) b1"
    using marshal_all_ok [OF assms(1,4)] by blast
  have tot: "total_len b' = length (contents b')" if "eb_ok b'" for b' using that by (simp add: eb_ok_def)
  have ok1: "eb_ok b1" "same_setup b b1" using b1(3) by (simp_all add: grows_def)
  have "n = length (concat xs)" using assms(5) b1(2) by (simp add: records_length_def length_concat)
  then have ct: "contents b1 = contents b @ concat xs" using assms(6) b1(1,3) tot [OF assms(1)] tot [OF ok1(1)]
    by (simp add: grows_def evbuffer_get_length_def)
  obtain b2 where b2: "evbuffer_drain b1 (length (contents b)) = Some (0, b2)" "eb_ok b2" "same_setup b1 b2" "contents b2 = concat xs"
    using evbuffer_drain_ok [OF ok1(1), of "length (contents b)"] assms(2) ok1(2) ct by (auto simp: same_setup_def)
  have "contents b2 = concat xs @ []" "\<not> freeze_start b2" using b2(3,4) ok1(2) assms(2) by (simp_all add: same_setup_def)
  from unmarshal_all_ok [OF b2(2) assms(3,4) b1(2) this] obtain b3 where
    "unmarshal_all A (map (map_prod id kind_of) rs) b2 = Some (map (Some \<circ> snd) rs, b3)" "eb_ok b3" "contents b3 = []" by blast
  then show ?thesis using b1(1) b2(1) tot [of b3] tot [OF assms(1)] by (simp add: evbuffer_get_length_def)
qed

lemma evbuffer_new_ok: "eb_ok evbuffer_new" "\<not> freeze_start evbuffer_new" "contents evbuffer_new = []"
  by (simp_all add: eb_ok_def evbuffer_new_def contents_def last_of_def lwdp_of_def)

definition some_records :: "(u32 \<times> tagged) list" where
  "some_records = [(0x166, TInt 0xdeadbeef), (7, TInt64 0x123456789abcdef0), (0, TString [65, 66]), (9, TInt 0)]"

lemma evtag_queue_roundtrip_witness:
  "\<exists>b1 b2 b3. marshal_all (\<lambda>_. True) some_records evbuffer_new = Some b1 \<and> evbuffer_drain b1 (evbuffer_get_length evbuffer_new) = Some (0, b2)
    \<and> unmarshal_all (\<lambda>_. True) (map (map_prod id kind_of) some_records) b2 = Some (map (Some \<circ> snd) some_records, b3) \<and> evbuffer_get_length b3 = 0"
proof (rule evtag_queue_roundtrip [where n = 26])
  show "eb_ok evbuffer_new" "\<not> freeze_start evbuffer_new" by (rule evbuffer_new_ok)+
  show "\<forall>k :: int. True" by simp
  show "list_all (valid_value \<circ> snd) some_records" by code_simp
  show "records_length some_records = Some 26" by code_simp
  show "map_option evbuffer_get_length (marshal_all (\<lambda>_. True) some_records evbuffer_new) = Some (evbuffer_get_length evbuffer_new + 26)" by code_simp
qed

lemma tag_loop_overrun:
  assumes "\<forall>j < k. \<exists>x. read_at b i (count + j) = Some x \<and> x AND 0x80 \<noteq> 0" "count + k = 5" "k < left"
  shows "tag_loop b i left count number = None"
  using assms
proof (induction k arbitrary: count left number)
  case 0
  then obtain l where "left = Suc l" by (cases left) auto
  then show ?case using 0 by (cases "read_at b i count") auto
next
  case (Suc k)
  then obtain l where l: "left = Suc l" by (cases left) auto
  obtain x where x: "read_at b i count = Some x" "x AND 0x80 \<noteq> 0" using Suc.prems(1) by force
  have "\<forall>j < k. \<exists>x. read_at b i (count + 1 + j) = Some x \<and> x AND 0x80 \<noteq> 0" using Suc.prems(1) by (auto dest: spec [of _ "Suc _"])
  then show ?case using Suc.IH [of "count + 1" l] Suc.prems(2,3) x l by simp
qed

text \<open>C38: The reader of tags does not stop after the five bytes it made readable: a buffer that starts with five bytes whose
  eighth bit is set and holds at least one more byte makes \<^verbatim>\<open>evtag_decode_tag\<close> and \<^verbatim>\<open>evtag_peek\<close> read on and shift a 32-bit
  number by 35.\<close>

theorem evtag_decode_tag_overruns:
  assumes "eb_ok b" "\<forall>k. A k" "5 < evbuffer_get_length b" "list_all (\<lambda>x. x AND 0x80 \<noteq> 0) (take 5 (contents b))"
  shows "evtag_decode_tag A b = None \<and> evtag_peek A b = None"
proof -
  have tot: "total_len b = length (contents b)" using assms(1) by (simp add: eb_ok_def)
  then have "0 < (5 :: nat)" "5 \<le> length (contents b)" "(5 :: nat) \<le> 4096" using assms(3) by (simp_all add: evbuffer_get_length_def)
  from pullup_reads [OF assms(1,2) this] obtain i b1 where p: "evbuffer_pullup A (fresh_id b) b 5 = Some (Some i, b1)"
    "\<forall>k < 5. read_at b1 i k = Some (contents b ! k)" by auto
  have "\<forall>j < 5. \<exists>x. read_at b1 i (0 + j) = Some x \<and> x AND 0x80 \<noteq> 0"
    using p(2) assms(4) \<open>5 \<le> length (contents b)\<close> by (auto simp: list_all_length)
  from tag_loop_overrun [OF this, of "total_len b" 0] have "decode_tag_internal A b dodrain = None" for dodrain
    using p(1) assms(3) by (simp add: decode_tag_internal_def Let_def evbuffer_get_length_def)
  then show ?thesis by (simp add: evtag_decode_tag_def evtag_peek_def)
qed

definition long_tag :: evbuffer where
  "long_tag = (case evbuffer_add (\<lambda>_. True) 1 evbuffer_new [0x80, 0x80, 0x80, 0x80, 0x80, 0] of Some (r, b) \<Rightarrow> b | None \<Rightarrow> evbuffer_new)"

lemma evtag_decode_tag_overruns_witness: "evtag_decode_tag (\<lambda>_. True) long_tag = None \<and> evtag_peek (\<lambda>_. True) long_tag = None"
proof -
  have ok: "eb_ok long_tag" "\<forall>k :: int. True" by code_simp simp
  have hyps: "5 < evbuffer_get_length long_tag" "list_all (\<lambda>x. x AND 0x80 \<noteq> 0) (take 5 (contents long_tag))" by code_simp+
  show ?thesis using evtag_decode_tag_overruns [OF ok hyps] by simp
qed

end
