(* ===== verification/EvBufferCore.thy ===== *)
theory EvBufferCore
  imports EvTagQueue
begin

text \<open>
  What the byte queues of libevent promise to their users: every sequence of operations that add, prepend, remove, look at and
  freeze refines the same sequence on a list of bytes; whole buffers move; and where the promises are broken.
\<close>

section \<open>Sequences of operations\<close>

text \<open>A step of a component returns a result and the new state, or faults. Its contract is a relation on abstract states.\<close>

fun run_ops :: "('op \<Rightarrow> 's \<Rightarrow> ('r \<times> 's) option) \<Rightarrow> 'op list \<Rightarrow> 's \<Rightarrow> ('r list \<times> 's) option" where
  "run_ops step [] s = Some ([], s)"
| "run_ops step (op # ops) s = do { (r, s) \<leftarrow> step op s; (rs, s) \<leftarrow> run_ops step ops s; Some (r # rs, s) }"

inductive spec_run :: "('op \<Rightarrow> 'q \<Rightarrow> 'r \<Rightarrow> 'q \<Rightarrow> bool) \<Rightarrow> 'op list \<Rightarrow> 'q \<Rightarrow> 'r list \<Rightarrow> 'q \<Rightarrow> bool" for spec where
  spec_nil: "spec_run spec [] q [] q"
| spec_cons: "spec op q r q1 \<Longrightarrow> spec_run spec ops q1 rs q2 \<Longrightarrow> spec_run spec (op # ops) q (r # rs) q2"

inductive_cases spec_run_consE: "spec_run spec (op # ops) q rs q'"

locale op_refinement =
  fixes ok :: "'s \<Rightarrow> bool" and abs :: "'s \<Rightarrow> 'q" and step :: "'op \<Rightarrow> 's \<Rightarrow> ('r \<times> 's) option"
    and spec :: "'op \<Rightarrow> 'q \<Rightarrow> 'r \<Rightarrow> 'q \<Rightarrow> bool" and valid :: "'op \<Rightarrow> bool"
  assumes step_law: "ok s \<Longrightarrow> valid op \<Longrightarrow> \<exists>r s'. step op s = Some (r, s') \<and> ok s' \<and> spec op (abs s) r (abs s')"
begin

lemma run_refines:
  "ok s \<Longrightarrow> list_all valid ops \<Longrightarrow> \<exists>rs s'. run_ops step ops s = Some (rs, s') \<and> ok s' \<and> spec_run spec ops (abs s) rs (abs s')"
proof (induction ops arbitrary: s)
  case Nil
  then show ?case by (auto intro: spec_nil)
next
  case (Cons op ops)
  obtain r s1 where s1: "step op s = Some (r, s1)" "ok s1" "spec op (abs s) r (abs s1)" using step_law [of s op] Cons.prems by auto
  obtain rs s2 where s2: "run_ops step ops s1 = Some (rs, s2)" "ok s2" "spec_run spec ops (abs s1) rs (abs s2)"
    using Cons.IH [OF s1(2)] Cons.prems(2) by auto
  have "run_ops step (op # ops) s = Some (r # rs, s2)" using s1(1) s2(1) by simp
  then show ?case using s2(2) spec_cons [of spec, OF s1(3) s2(3)] by blast
qed

end

section \<open>Buffers and lists of bytes\<close>

datatype evb_op = EAdd "u8 list" | EPrepend "u8 list" | EDrain nat | ERemove nat | ECopyout nat | EPullup int | EFreeze bool | EUnfreeze bool

text \<open>An operation, with the number it returns and the bytes its user gets; after a pull-up the user reads the bytes through the
  pointer.\<close>

fun evb_step :: "allocator \<Rightarrow> evb_op \<Rightarrow> evbuffer \<Rightarrow> ((int \<times> u8 list) \<times> evbuffer) option" where
  "evb_step A (EAdd d) b = do { (r, b) \<leftarrow> evbuffer_add A (fresh_id b) b d; Some ((r, []), b) }"
| "evb_step A (EPrepend d) b = do { (r, b) \<leftarrow> evbuffer_prepend A (fresh_id b) b d; Some ((r, []), b) }"
| "evb_step A (EDrain n) b = do { (r, b) \<leftarrow> evbuffer_drain b n; Some ((r, []), b) }"
| "evb_step A (ERemove n) b = do { (r, d, b) \<leftarrow> evbuffer_remove b n; Some ((r, d), b) }"
| "evb_step A (ECopyout n) b = do { (r, d) \<leftarrow> evbuffer_copyout b n; Some ((r, d), b) }"
| "evb_step A (EPullup n) b = do {
     (p, b) \<leftarrow> evbuffer_pullup A (fresh_id b) b n;
     case p of
       None \<Rightarrow> Some ((- 1, []), b)
     | Some i \<Rightarrow> do { d \<leftarrow> read_all b i 0 (if n < 0 then evbuffer_get_length b else nat n); Some ((0, d), b) } }"
| "evb_step A (EFreeze start) b = Some ((0, []), evbuffer_freeze b start)"
| "evb_step A (EUnfreeze start) b = Some ((0, []), evbuffer_unfreeze b start)"

record queue =
  q_bytes :: "u8 list"
  q_front :: bool
  q_back :: bool

definition abs_queue :: "evbuffer \<Rightarrow> queue" where
  "abs_queue b = \<lparr>q_bytes = contents b, q_front = freeze_start b, q_back = freeze_end b\<rparr>"

text \<open>The contract. An addition may fail and then changes nothing; a failed prepending may have prepended the end of the data.\<close>

fun evb_spec :: "evb_op \<Rightarrow> queue \<Rightarrow> int \<times> u8 list \<Rightarrow> queue \<Rightarrow> bool" where
  "evb_spec (EAdd d) q (r, out) q' = (out = [] \<and>
     (r = 0 \<and> \<not> q_back q \<and> q' = q\<lparr>q_bytes := q_bytes q @ d\<rparr> \<or> r = - 1 \<and> q' = q))"
| "evb_spec (EPrepend d) q (r, out) q' = (out = [] \<and>
     (r = 0 \<and> \<not> q_front q \<and> q' = q\<lparr>q_bytes := d @ q_bytes q\<rparr> \<or> r = - 1 \<and> (\<exists>k. q' = q\<lparr>q_bytes := drop k d @ q_bytes q\<rparr>)))"
| "evb_spec (EDrain n) q (r, out) q' = (out = [] \<and>
     (if q_front q \<and> q_bytes q \<noteq> [] then r = - 1 \<and> q' = q else r = 0 \<and> q' = q\<lparr>q_bytes := drop n (q_bytes q)\<rparr>))"
| "evb_spec (ERemove n) q (r, out) q' =
     (if q_front q \<and> n \<noteq> 0 \<and> q_bytes q \<noteq> [] then r = - 1 \<and> out = [] \<and> q' = q
      else r = as_int (int (min n (length (q_bytes q)))) \<and> out = take n (q_bytes q) \<and> q' = q\<lparr>q_bytes := drop n (q_bytes q)\<rparr>)"
| "evb_spec (ECopyout n) q (r, out) q' = (q' = q \<and>
     (if q_front q \<and> n \<noteq> 0 \<and> q_bytes q \<noteq> [] then r = - 1 \<and> out = []
      else r = int (min n (length (q_bytes q))) \<and> out = take n (q_bytes q)))"
| "evb_spec (EPullup n) q (r, out) q' = (q' = q \<and>
     (r = - 1 \<and> out = [] \<or> r = 0 \<and> 0 < length out \<and> out = (if n < 0 then q_bytes q else take (nat n) (q_bytes q))))"
| "evb_spec (EFreeze start) q (r, out) q' = (r = 0 \<and> out = [] \<and> q' = (if start then q\<lparr>q_front := True\<rparr> else q\<lparr>q_back := True\<rparr>))"
| "evb_spec (EUnfreeze start) q (r, out) q' = (r = 0 \<and> out = [] \<and> q' = (if start then q\<lparr>q_front := False\<rparr> else q\<lparr>q_back := False\<rparr>))"

fun evb_valid :: "evb_op \<Rightarrow> bool" where
  "evb_valid (EAdd d) = (d \<noteq> [])"
| "evb_valid (EPrepend d) = (d \<noteq> [])"
| "evb_valid _ = True"

lemma abs_same: "same_setup b b' \<Longrightarrow> abs_queue b' = (abs_queue b)\<lparr>q_bytes := contents b'\<rparr>"
  by (simp add: abs_queue_def same_setup_def)

lemma abs_sels [simp]: "q_bytes (abs_queue b) = contents b" "q_front (abs_queue b) = freeze_start b" "q_back (abs_queue b) = freeze_end b"
  "contents b' = contents b \<Longrightarrow> (abs_queue b)\<lparr>q_bytes := contents b'\<rparr> = abs_queue b"
  by (simp_all add: abs_queue_def)

lemma read_all_ok:
  assumes "eb_ok b" "eb_chains b \<noteq> []" "ch_id (hd (eb_chains b)) = i" "k + n \<le> off (hd (eb_chains b))"
  shows "read_all b i k n = Some (take n (drop k (contents b)))"
  using assms(4)
proof (induction n arbitrary: k)
  case (Suc n)
  have "off (hd (eb_chains b)) \<le> length (contents b)"
    using assms(1,2) cdata_len [of "hd (eb_chains b)"] by (cases "eb_chains b") (simp_all add: contents_def eb_ok_def)
  then have "drop k (contents b) = contents b ! k # drop (k + 1) (contents b)" using Suc.prems by (simp add: Cons_nth_drop_Suc)
  then show ?case using Suc.IH [of "k + 1"] read_at_ok [OF assms(1-3), of k] Suc.prems by simp
qed simp

lemma freeze_ok: "eb_ok b \<Longrightarrow> eb_ok (evbuffer_freeze b start)" "eb_ok b \<Longrightarrow> eb_ok (evbuffer_unfreeze b start)"
  by (simp_all add: eb_ok_def evbuffer_freeze_def evbuffer_unfreeze_def contents_def)

lemma add_frozen: "evbuffer_add A a b d = Some (0, b') \<Longrightarrow> \<not> freeze_end b"
  by (auto simp: evbuffer_add_def)

lemma prepend_frozen: "evbuffer_prepend A a b d = Some (0, b') \<Longrightarrow> \<not> freeze_start b"
  by (auto simp: evbuffer_prepend_def)

lemma remove_frozen:
  assumes "eb_ok b" "freeze_start b"
  shows "evbuffer_remove b n = Some (if n \<noteq> 0 \<and> contents b \<noteq> [] then (- 1, [], b) else (0, [], b))"
  using evbuffer_copyout_ok [OF assms(1), of n] assms(2) by (auto simp: evbuffer_remove_def as_int_def)

lemma evb_step_ok:
  assumes "eb_ok b" "evb_valid op"
  shows "\<exists>r b'. evb_step A op b = Some (r, b') \<and> eb_ok b' \<and> evb_spec op (abs_queue b) r (abs_queue b')"
proof (cases op)
  case (EAdd d)
  then have "adds b d (evbuffer_add A (fresh_id b) b d)" using evbuffer_add_ok [OF assms(1) _ fresh_id_ok] assms(2) by simp
  then obtain r b' where "evbuffer_add A (fresh_id b) b d = Some (r, b')" "eb_ok b'" "same_setup b b'"
    "r = 0 \<and> contents b' = contents b @ d \<or> r = - 1 \<and> b' = b" by (auto simp: adds_def)
  then show ?thesis using EAdd add_frozen [of A _ b d] abs_same [of b b'] by auto
next
  case (EPrepend d)
  then obtain r b' where "evbuffer_prepend A (fresh_id b) b d = Some (r, b')" "eb_ok b'" "same_setup b b'"
    "r = 0 \<and> contents b' = d @ contents b \<or> r = - 1 \<and> (\<exists>k. contents b' = drop k d @ contents b)"
    using evbuffer_prepend_ok [OF assms(1) _ fresh_id_ok, of d A] assms(2) by auto
  then show ?thesis using EPrepend prepend_frozen [of A _ b d] abs_same [of b b'] by auto
next
  case (EDrain n)
  obtain r b' where d: "evbuffer_drain b n = Some (r, b')" "eb_ok b'" "same_setup b b'"
    "if freeze_start b \<and> contents b \<noteq> [] then r = - 1 \<and> b' = b else r = 0 \<and> contents b' = drop n (contents b)"
    using evbuffer_drain_ok [OF assms(1), of n] by blast
  then show ?thesis using EDrain abs_same [OF d(3)] by (auto split: if_splits)
next
  case (ERemove n)
  show ?thesis
  proof (cases "freeze_start b")
    case True
    then show ?thesis using ERemove remove_frozen [OF assms(1) True, of n] assms(1) by (auto simp: as_int_def)
  next
    case False
    obtain b' where r: "evbuffer_remove b n = Some (as_int (int (min n (length (contents b)))), take n (contents b), b')" "eb_ok b'" "same_setup b b'"
      "contents b' = drop n (contents b)" using evbuffer_remove_ok [OF assms(1) False, of n] by blast
    then show ?thesis using ERemove abs_same [OF r(3)] False by simp
  qed
next
  case (ECopyout n)
  then show ?thesis using evbuffer_copyout_ok [OF assms(1), of n] assms(1) by auto
next
  case (EPullup n)
  define m where "m = (if n < 0 then length (contents b) else nat n)"
  obtain x b' where p: "evbuffer_pullup A (fresh_id b) b n = Some (x, b')" "eb_ok b'" "contents b' = contents b" "same_setup b b'"
    "\<forall>i. x = Some i \<longrightarrow> eb_chains b' \<noteq> [] \<and> ch_id (hd (eb_chains b')) = i \<and> 0 < m \<and> m \<le> off (hd (eb_chains b'))"
    using evbuffer_pullup_ok [OF assms(1) fresh_id_ok m_def, of A] by blast
  have q: "abs_queue b' = abs_queue b" using abs_same [OF p(4)] p(3) by simp
  show ?thesis
  proof (cases x)
    case None
    then show ?thesis using EPullup p(1,2) q by simp
  next
    case (Some i)
    then have h: "eb_chains b' \<noteq> []" "ch_id (hd (eb_chains b')) = i" "0 < m" "m \<le> off (hd (eb_chains b'))" using p(5) by auto
    have len: "total_len b' = length (contents b)" using p(2,3) by (simp add: eb_ok_def)
    have "read_all b' i 0 m = Some (take m (contents b))" using read_all_ok [OF p(2) h(1,2), of 0 m] h(4) p(3) by simp
    moreover have "off (hd (eb_chains b')) \<le> length (contents b')"
      using p(2) h(1) cdata_len [of "hd (eb_chains b')"] by (cases "eb_chains b'") (simp_all add: contents_def eb_ok_def)
    ultimately show ?thesis using EPullup p(1-3) q Some h(3,4) len by (auto simp: m_def evbuffer_get_length_def)
  qed
next
  case (EFreeze start)
  then show ?thesis using freeze_ok(1) [OF assms(1), of start] by (auto simp: evbuffer_freeze_def abs_queue_def contents_def)
next
  case (EUnfreeze start)
  then show ?thesis using freeze_ok(2) [OF assms(1), of start] by (auto simp: evbuffer_unfreeze_def abs_queue_def contents_def)
qed

interpretation evb: op_refinement eb_ok abs_queue "evb_step A" evb_spec evb_valid for A
  by unfold_locales (rule evb_step_ok)

text \<open>C5: Every sequence of additions and prependings of at least one byte, drains, removals, copies, pull-ups, freezes and unfreezes
  on a new buffer runs without a fault and without a failed assertion, whatever allocations fail, and its results are those of
  the same operations on a list of bytes; the buffer ends with the bytes of the list.\<close>

theorem evbuffer_refines:
  assumes "list_all evb_valid ops"
  shows "\<exists>rs b q. run_ops (evb_step A) ops evbuffer_new = Some (rs, b) \<and> spec_run evb_spec ops \<lparr>q_bytes = [], q_front = False, q_back = False\<rparr> rs q
    \<and> q_bytes q = contents b \<and> evbuffer_get_length b = length (q_bytes q)"
proof -
  have "abs_queue evbuffer_new = \<lparr>q_bytes = [], q_front = False, q_back = False\<rparr>"
    using evbuffer_new_ok by (simp add: abs_queue_def evbuffer_new_def)
  then obtain rs b where "run_ops (evb_step A) ops evbuffer_new = Some (rs, b)" "eb_ok b"
    "spec_run evb_spec ops \<lparr>q_bytes = [], q_front = False, q_back = False\<rparr> rs (abs_queue b)"
    using evb.run_refines [OF evbuffer_new_ok(1) assms, of A] by auto
  then show ?thesis by (auto simp: eb_ok_def evbuffer_get_length_def intro!: exI [of _ "abs_queue b"])
qed

lemma evbuffer_refines_witness:
  "\<exists>rs b q. run_ops (evb_step (\<lambda>_. True)) [EAdd [1, 2], EPrepend [3], EPullup 3, EFreeze True, ERemove 1, EUnfreeze True, ERemove 2] evbuffer_new = Some (rs, b)
    \<and> spec_run evb_spec [EAdd [1, 2], EPrepend [3], EPullup 3, EFreeze True, ERemove 1, EUnfreeze True, ERemove 2]
        \<lparr>q_bytes = [], q_front = False, q_back = False\<rparr> rs q \<and> q_bytes q = contents b \<and> evbuffer_get_length b = length (q_bytes q)"
  by (rule evbuffer_refines) simp

section \<open>Moving whole buffers\<close>

lemma invoke_ok [simp]: "eb_ok (evbuffer_invoke_callbacks b) = eb_ok b" "contents (evbuffer_invoke_callbacks b) = contents b"
  "same_setup a (evbuffer_invoke_callbacks b) = same_setup a b" "total_len (evbuffer_invoke_callbacks b) = total_len b"
  by (simp_all add: evbuffer_invoke_callbacks_def evbuffer_run_callbacks_def eb_ok_def contents_def same_setup_def Let_def)

lemma last_append: "ys \<noteq> [] \<Longrightarrow> last_of (xs @ ys) = last_of ys" "ys \<noteq> [] \<Longrightarrow> lwdp_of (xs @ ys) = (if lwdp_of ys = None then last_of xs else lwdp_of ys)"
  by (cases ys rule: rev_cases; auto simp: last_of_def lwdp_of_def butlast_append)+

text \<open>Two buffers with data, one behind the other.\<close>

lemma joined_ok:
  assumes "eb_ok x" "eb_ok y" "total_len x \<noteq> 0" "total_len y \<noteq> 0" "ch_id ` set (eb_chains x) \<inter> ch_id ` set (eb_chains y) = {}"
  shows "eb_ok (b\<lparr>eb_chains := eb_chains x @ eb_chains y, eb_last := eb_last y,
      last_with_datap := if last_with_datap y = None then eb_last x else last_with_datap y, total_len := total_len x + total_len y\<rparr>)"
proof -
  have full: "c \<in> set (eb_chains z) \<Longrightarrow> off c \<noteq> 0" if "eb_ok z" "total_len z \<noteq> 0" for z c
  proof (cases "length (eb_chains z) > 1")
    case False
    assume c: "c \<in> set (eb_chains z)"
    then have "eb_chains z = [c]" using False by (cases "eb_chains z") auto
    then show "off c \<noteq> 0" using that by (cases "off c = 0") (auto simp: eb_ok_def contents_def)
  qed (use that in \<open>auto simp: eb_ok_def\<close>)
  have ne: "eb_chains y \<noteq> []" using assms(2,4) by (auto simp: eb_ok_def contents_def)
  show ?thesis
    using assms(1,2,5) full [OF assms(1,3)] full [OF assms(2,4)] last_append [OF ne, of "eb_chains x"]
    by (intro eb_okI) (auto simp: eb_ok_def contents_def)
qed

lemma emptied_ok: "eb_ok ((ZERO_CHAIN b)\<lparr>n_del_for_cb := n\<rparr>)" "contents ((ZERO_CHAIN b)\<lparr>n_del_for_cb := n\<rparr>) = []"
  "same_setup b ((ZERO_CHAIN b)\<lparr>n_del_for_cb := n\<rparr>)"
  by (simp_all add: ZERO_CHAIN_def eb_ok_def contents_def same_setup_def)

lemma last_is: "eb_ok b \<Longrightarrow> total_len b \<noteq> 0 \<Longrightarrow> \<exists>xs c. eb_chains b = xs @ [c] \<and> eb_last b = Some (ch_id c) \<and> distinct (map ch_id (xs @ [c]))"
  by (cases "eb_chains b" rule: rev_cases) (auto simp: eb_ok_def contents_def last_of_def)

lemma add_len_eb_ok [simp]: "eb_ok (b\<lparr>n_add_for_cb := n\<rparr>) = eb_ok b" "contents (b\<lparr>n_add_for_cb := n\<rparr>) = contents b"
  by (simp_all add: eb_ok_def contents_def)

lemma copy_chain_ok: "eb_ok src \<Longrightarrow> eb_ok (COPY_CHAIN dst src)" "contents (COPY_CHAIN dst src) = contents src" "same_setup dst (COPY_CHAIN dst src)"
  by (simp_all add: COPY_CHAIN_def eb_ok_def contents_def same_setup_def)

lemma append_chain_ok:
  assumes "eb_ok dst" "eb_ok src" "total_len dst \<noteq> 0" "total_len src \<noteq> 0" "ch_id ` set (eb_chains dst) \<inter> ch_id ` set (eb_chains src) = {}"
  shows "\<exists>b. APPEND_CHAIN dst src = Some b \<and> eb_ok b \<and> contents b = contents dst @ contents src \<and> same_setup dst b"
proof -
  obtain xs c where l: "eb_chains dst = xs @ [c]" "eb_last dst = Some (ch_id c)" "distinct (map ch_id (xs @ [c]))" using last_is [OF assms(1,3)] by blast
  have "set_rest (xs @ [c]) (Some (ch_id c)) (eb_chains src) = Some ((xs @ [c]) @ eb_chains src)" using rest_split(2) [of xs c "[]"] l(3) by simp
  then have eq: "APPEND_CHAIN dst src = Some (dst\<lparr>eb_chains := eb_chains dst @ eb_chains src, eb_last := eb_last src,
      last_with_datap := if last_with_datap src = None then eb_last dst else last_with_datap src, total_len := total_len dst + total_len src\<rparr>)"
    using l(1,2) by (simp add: APPEND_CHAIN_def)
  show ?thesis unfolding eq using joined_ok [OF assms, of dst] by (simp add: contents_def same_setup_def)
qed

lemma prepend_chain_ok:
  assumes "eb_ok dst" "eb_ok src" "total_len dst \<noteq> 0" "total_len src \<noteq> 0" "ch_id ` set (eb_chains dst) \<inter> ch_id ` set (eb_chains src) = {}"
  shows "\<exists>b. PREPEND_CHAIN dst src = Some b \<and> eb_ok b \<and> contents b = contents src @ contents dst \<and> same_setup dst b"
proof -
  obtain xs c where l: "eb_chains src = xs @ [c]" "eb_last src = Some (ch_id c)" "distinct (map ch_id (xs @ [c]))" using last_is [OF assms(2,4)] by blast
  obtain ys d where m: "eb_chains dst = ys @ [d]" "distinct (map ch_id (ys @ [d]))" using last_is [OF assms(1,3)] by blast
  have s: "set_rest (xs @ [c]) (Some (ch_id c)) (eb_chains dst) = Some ((xs @ [c]) @ eb_chains dst)" using rest_split(2) [of xs c "[]"] l(3) by simp
  have lw: "last_with_datap dst = lwdp_of (ys @ [d])" using assms(1) m(1) by (simp add: eb_ok_def)
  have r: "rest_at (ys @ [d]) (last_with_datap dst) = Some [d]" unfolding lw using rest_lwdp [OF m(2)] by simp
  have eq: "PREPEND_CHAIN dst src = Some (dst\<lparr>eb_chains := eb_chains src @ eb_chains dst, eb_last := eb_last dst,
      last_with_datap := if last_with_datap dst = None then eb_last src else last_with_datap dst, total_len := total_len src + total_len dst\<rparr>)"
    using l(1,2) s m(1) r by (cases "last_with_datap dst") (simp_all add: PREPEND_CHAIN_def rest_at_def)
  have "ch_id ` set (eb_chains src) \<inter> ch_id ` set (eb_chains dst) = {}" using assms(5) by blast
  from joined_ok [OF assms(2,1,4,3) this, of dst] show ?thesis unfolding eq by (simp add: contents_def same_setup_def)
qed

text \<open>C37: \<^verbatim>\<open>evbuffer_add_buffer\<close> and \<^verbatim>\<open>evbuffer_prepend_buffer\<close> on two buffers that share no chain move all bytes of the second to the end, or to
  the start, of the first, copy none, cannot fail unless an end is frozen, and leave both buffers well formed.\<close>

theorem evbuffer_moves:
  assumes "eb_ok dst" "eb_ok src" "ch_id ` set (eb_chains dst) \<inter> ch_id ` set (eb_chains src) = {}"
    "\<not> freeze_start dst" "\<not> freeze_end dst" "\<not> freeze_start src"
  shows "(\<exists>b b'. evbuffer_add_buffer dst src = Some (0, b, b') \<and> eb_ok b \<and> eb_ok b' \<and> contents b = contents dst @ contents src \<and> contents b' = [])
    \<and> (\<exists>b b'. evbuffer_prepend_buffer dst src = Some (0, b, b') \<and> eb_ok b \<and> eb_ok b' \<and> contents b = contents src @ contents dst \<and> contents b' = [])"
proof -
  have tot: "total_len b = length (contents b)" if "eb_ok b" for b using that by (simp add: eb_ok_def)
  consider "total_len src = 0" | "total_len src \<noteq> 0" "total_len dst = 0" | "total_len src \<noteq> 0" "total_len dst \<noteq> 0" by blast
  then show ?thesis
  proof cases
    case 1
    then show ?thesis using assms tot [OF assms(2)] by (simp add: evbuffer_add_buffer_def evbuffer_prepend_buffer_def)
  next
    case 2
    then have "contents dst = []" using tot [OF assms(1)] by simp
    then show ?thesis using 2 assms copy_chain_ok(1) [OF assms(2), of dst] copy_chain_ok(2) [of dst src] emptied_ok [where b = src]
      by (simp add: evbuffer_add_buffer_def evbuffer_prepend_buffer_def moved_def)
  next
    case 3
    obtain a where a: "APPEND_CHAIN dst src = Some a" "eb_ok a" "contents a = contents dst @ contents src"
      using append_chain_ok [OF assms(1,2) 3(2,1) assms(3)] by blast
    obtain p where p: "PREPEND_CHAIN dst src = Some p" "eb_ok p" "contents p = contents src @ contents dst"
      using prepend_chain_ok [OF assms(1,2) 3(2,1) assms(3)] by blast
    show ?thesis using 3 assms(4-6) a p emptied_ok [where b = src]
      by (simp add: evbuffer_add_buffer_def evbuffer_prepend_buffer_def moved_def)
  qed
qed

definition one_chain :: "nat \<Rightarrow> u8 list \<Rightarrow> evbuffer" where
  "one_chain a d = (case evbuffer_add (\<lambda>_. True) a evbuffer_new d of Some (r, b) \<Rightarrow> b | None \<Rightarrow> evbuffer_new)"

lemma one_chain_facts:
  "eb_ok (one_chain 1 [1, 2])" "eb_ok (one_chain 2 [3])" "ch_id ` set (eb_chains (one_chain 1 [1, 2])) \<inter> ch_id ` set (eb_chains (one_chain 2 [3])) = {}"
  "contents (one_chain 1 [1, 2]) = [1, 2]" "contents (one_chain 2 [3]) = [3]"
  by code_simp+

lemma evbuffer_moves_witness:
  "(\<exists>b b'. evbuffer_add_buffer (one_chain 1 [1, 2]) (one_chain 2 [3]) = Some (0, b, b') \<and> eb_ok b \<and> eb_ok b' \<and> contents b = [1, 2, 3] \<and> contents b' = [])
    \<and> (\<exists>b b'. evbuffer_prepend_buffer (one_chain 1 [1, 2]) (one_chain 2 [3]) = Some (0, b, b') \<and> eb_ok b \<and> eb_ok b' \<and> contents b = [3, 1, 2] \<and> contents b' = [])"
proof -
  have f: "\<not> freeze_start (one_chain 1 [1, 2])" "\<not> freeze_end (one_chain 1 [1, 2])" "\<not> freeze_start (one_chain 2 [3])" by code_simp+
  show ?thesis using evbuffer_moves [OF one_chain_facts(1-3) f] unfolding one_chain_facts(4,5) by simp
qed

section \<open>Broken promises\<close>

text \<open>C39: If the first chain has fewer bytes of room in front of its data than are to be prepended and there is no memory for
  another chain, \<^verbatim>\<open>evbuffer_prepend\<close> returns -1, yet it has filled the room with the end of the data.\<close>

theorem evbuffer_prepend_partial:
  assumes "eb_ok b" "eb_chains b = c # cs" "\<not> ch_immutable c" "off c \<noteq> 0" "misalign c < length d"
    "\<forall>k. \<not> A k" "\<not> freeze_start b" "int (length d) \<le> EV_SIZE_MAX - int (evbuffer_get_length b)"
  shows "\<exists>b'. evbuffer_prepend A a b d = Some (- 1, b') \<and> contents b' = drop (length d - misalign c) d @ contents b
    \<and> evbuffer_get_length b' = evbuffer_get_length b + misalign c"
proof -
  have c: "chain_ok c" using assms(1,2) by (simp add: eb_ok_def)
  let ?d = "drop (length d - misalign c) d"
  have len: "length ?d = misalign c" using assms(5) by simp
  then have "length ?d \<le> misalign c" by simp
  from put_before [OF c this] obtain m where m: "chain_put c (misalign c - misalign c) ?d = Some (c\<lparr>ch_buffer := m\<rparr>)"
    "cdata (c\<lparr>ch_buffer := m, off := off c + misalign c, misalign := misalign c - misalign c\<rparr>) = ?d @ cdata c" unfolding len by blast
  define c' where "c' = c\<lparr>ch_buffer := m, off := off c + misalign c, misalign := 0\<rparr>"
  define b' where "b' = add_len (b\<lparr>eb_chains := c' # cs\<rparr>) (misalign c)"
  have "distinct (map ch_id ([] @ c # cs))" using assms(1,2) by (simp add: eb_ok_def)
  then have put: "put_chain (eb_chains b) c' = c' # cs" using put_chain_split [of "[]" c cs c'] assms(2) by (simp add: c'_def)
  have none: "evbuffer_chain_new A a n = None" for n using assms(6) by (simp add: evbuffer_chain_new_def Let_def)
  have min: "min (misalign c) (length d) = misalign c" using assms(5) by simp
  have "prepend_into A a b c d = Some (- 1, b')"
    using assms(4,5) m(1) put none min by (simp add: prepend_into_def Let_def prepend_new_chain_def c'_def b'_def)
  moreover have "\<not> int (misalign c) > EVBUFFER_CHAIN_MAX" using c by (auto simp: chain_ok_def)
  ultimately have "evbuffer_prepend A a b d = Some (- 1, b')"
    using assms(2,3,7,8) by (simp add: evbuffer_prepend_def evbuffer_get_length_def)
  moreover have "contents b' = ?d @ contents b" using m(2) assms(2) by (simp add: contents_def b'_def c'_def add_len_def)
  ultimately show ?thesis by (simp add: b'_def add_len_def evbuffer_get_length_def)
qed

definition drained :: evbuffer where
  "drained = (case evbuffer_drain (one_chain 1 [1, 2, 3, 4, 5]) 2 of Some (r, b) \<Rightarrow> b | None \<Rightarrow> evbuffer_new)"

lemma evbuffer_prepend_partial_witness:
  "\<exists>b'. evbuffer_prepend (\<lambda>_. False) 2 drained [7, 8, 9] = Some (- 1, b') \<and> contents b' = [8, 9, 3, 4, 5]"
proof -
  have f: "eb_ok drained" "\<not> ch_immutable (hd (eb_chains drained))" "off (hd (eb_chains drained)) \<noteq> 0" "misalign (hd (eb_chains drained)) = 2"
    "\<not> freeze_start drained" "evbuffer_get_length drained = 3" "contents drained = [3, 4, 5]" "eb_chains drained \<noteq> []"
    by code_simp+
  have "eb_chains drained = hd (eb_chains drained) # tl (eb_chains drained)" using f(8) by simp
  from evbuffer_prepend_partial [OF f(1) this f(2,3) _ _ f(5), of "[7, 8, 9]" "\<lambda>_. False" 2] show ?thesis
    using f(4,6,7) by (auto simp: EV_SIZE_MAX_def)
qed

text \<open>Three bytes are added, room for 2000 more is asked for, a fourth byte is added, and a fifth is written into reserved space.\<close>

definition add_then_commit :: "u8 \<Rightarrow> u8 \<Rightarrow> u8 \<Rightarrow> evbuffer option" where
  "add_then_commit x y z = do {
     (r, b) \<leftarrow> evbuffer_add (\<lambda>_. True) 1 evbuffer_new [x];
     (r, b) \<leftarrow> evbuffer_expand (\<lambda>_. True) 2 b 2000;
     (r, b) \<leftarrow> evbuffer_add (\<lambda>_. True) 3 b [y];
     (v, b) \<leftarrow> evbuffer_reserve_space (\<lambda>_. True) 4 b 1 1;
     vs \<leftarrow> v;
     let v = (hd vs)\<lparr>iov_len := 1\<rparr>;
     b \<leftarrow> iov_write b v [z];
     (r, b) \<leftarrow> evbuffer_commit_space b [v];
     if r = 0 then Some b else None }"


text \<open>A byte is added by reference, room is asked for with \<^verbatim>\<open>evbuffer_expand\<close>, then with \<^verbatim>\<open>evbuffer_reserve_space\<close> (which is
  not used), and another byte is added.\<close>

definition add_after_reserve :: "u8 \<Rightarrow> evbuffer option" where
  "add_after_reserve x = do {
     (r, b) \<leftarrow> evbuffer_add_reference (\<lambda>_. True) 1 evbuffer_new [x];
     (r, b) \<leftarrow> evbuffer_expand (\<lambda>_. True) 2 b 10;
     (v, b) \<leftarrow> evbuffer_reserve_space (\<lambda>_. True) 3 b 1000 2;
     (r, b) \<leftarrow> evbuffer_add (\<lambda>_. True) 4 b [x];
     Some b }"

text \<open>After \<^verbatim>\<open>evbuffer_reserve_space\<close> made a second spare chain, an addition leaves an empty chain between two chains with data;
  the next addition that needs a chain fails the assertion of \<^verbatim>\<open>evbuffer_chain_insert\<close> and stops the program.\<close>

theorem evbuffer_add_asserts:
  "map_option (map off \<circ> eb_chains) (add_after_reserve x) = Some [1, 0, 1]
    \<and> do { b \<leftarrow> add_after_reserve x; evbuffer_add_reference (\<lambda>_. True) 5 b [y] } = None"
  by code_simp

end
