(* ===== verification/EvSearchProps.thy ===== *)
theory EvSearchProps
  imports EvSearch EvBufferCore
begin

text \<open>
  Searching in a byte queue gives the first place in the list of its bytes, and reading a line takes the line and its end off the
  list, for each of the four styles of line ends.
\<close>

section \<open>The first place\<close>

fun first_idx :: "(u8 \<Rightarrow> bool) \<Rightarrow> u8 list \<Rightarrow> nat option" where
  "first_idx P [] = None"
| "first_idx P (x # xs) = (if P x then Some 0 else map_option Suc (first_idx P xs))"

lemma first_idx_append: "first_idx P (xs @ ys) = (case first_idx P xs of Some k \<Rightarrow> Some k | None \<Rightarrow> map_option ((+) (length xs)) (first_idx P ys))"
  by (induction xs) (cases "first_idx P ys"; auto split: option.splits)+

lemma first_idx_Some: "first_idx P xs = Some k \<Longrightarrow> k < length xs \<and> P (xs ! k) \<and> \<not> list_ex P (take k xs)"
  by (induction xs arbitrary: k) (auto split: if_splits)

lemma first_idx_None: "first_idx P xs = None \<longleftrightarrow> \<not> list_ex P xs"
  by (induction xs) auto

lemma memchr_is: "memchr x xs = first_idx ((=) x) xs"
  by (induction xs) auto

lemma find_eol_char_is: "find_eol_char xs = first_idx (\<lambda>x. x = 13 \<or> x = 10) xs"
proof (induction xs rule: find_eol_char.induct)
  case (1 s)
  let ?P = "\<lambda>x :: u8. x = 13 \<or> x = 10"
  have two: "first_idx ?P xs = (case (first_idx ((=) 13) xs, first_idx ((=) 10) xs) of
      (Some cr, Some lf) \<Rightarrow> Some (if lf < cr then lf else cr) | (Some cr, None) \<Rightarrow> Some cr | (None, Some lf) \<Rightarrow> Some lf | (None, None) \<Rightarrow> None)" for xs
    by (induction xs) (auto split: option.splits)
  have split: "first_idx ?P s = (case first_idx ?P (take CHUNK_SZ s) of Some k \<Rightarrow> Some k
      | None \<Rightarrow> map_option ((+) (length (take CHUNK_SZ s))) (first_idx ?P (drop CHUNK_SZ s)))"
    using first_idx_append [of ?P "take CHUNK_SZ s" "drop CHUNK_SZ s"] by simp
  show ?case
  proof (cases "s = []")
    case True
    then show ?thesis by (simp add: find_eol_char.simps)
  next
    case False
    show ?thesis
    proof (cases "first_idx ?P (take CHUNK_SZ s)")
      case (Some k)
      then show ?thesis using False split two [of "take CHUNK_SZ s"] by (subst find_eol_char.simps) (auto simp: memchr_is split: option.splits)
    next
      case None
      then have n: "memchr 13 (take CHUNK_SZ s) = None" "memchr 10 (take CHUNK_SZ s) = None"
        using two [of "take CHUNK_SZ s"] by (auto simp: memchr_is split: option.splits)
      have "first_idx ?P (drop CHUNK_SZ s) = None" if "length s \<le> CHUNK_SZ" using that by simp
      then have "map_option ((+) (length (take CHUNK_SZ s))) (first_idx ?P (drop CHUNK_SZ s)) = map_option (\<lambda>k. CHUNK_SZ + k) (first_idx ?P (drop CHUNK_SZ s))"
        by (cases "length s \<le> CHUNK_SZ") (auto simp: min_def)
      then show ?thesis using False n None split 1 by (subst find_eol_char.simps) simp
    qed
  qed
qed

text \<open>The first place where the list \<open>w\<close> starts.\<close>

fun first_match :: "u8 list \<Rightarrow> u8 list \<Rightarrow> nat option" where
  "first_match w [] = (if w = [] then Some 0 else None)"
| "first_match w (x # xs) = (if take (length w) (x # xs) = w then Some 0 else map_option Suc (first_match w xs))"

lemma first_match_here: "first_match w xs = Some 0 \<longleftrightarrow> take (length w) xs = w"
  by (cases xs) auto

lemma first_match_skip: "w \<noteq> [] \<Longrightarrow> hd w \<notin> set (take n xs) \<Longrightarrow> first_match w xs = map_option ((+) (length (take n xs))) (first_match w (drop n xs))"
proof (induction xs arbitrary: n)
  case (Cons x xs)
  show ?case
  proof (cases n)
    case (Suc m)
    obtain y v where w: "w = y # v" using Cons.prems(1) by (cases w) auto
    have "hd w \<notin> set (take m xs)" "x \<noteq> y" using Cons.prems(2) Suc w by auto
    then show ?thesis using Cons.IH [of m] Cons.prems(1) Suc w by (simp add: option.map_comp comp_def)
  qed (simp add: option.map_id0 option.map_ident)
qed (simp add: option.map_id0 option.map_ident)

lemma first_match_Some: "first_match w xs = Some k \<Longrightarrow> take (length w) (drop k xs) = w \<and> k \<le> length xs"
  by (induction xs arbitrary: k) (auto split: if_splits)

section \<open>Positions\<close>

text \<open>What searching needs of a buffer: empty chains may be anywhere.\<close>

definition eb_wf :: "evbuffer \<Rightarrow> bool" where
  "eb_wf b \<longleftrightarrow> (\<forall>c \<in> set (eb_chains b). chain_ok c) \<and> distinct (map ch_id (eb_chains b)) \<and> total_len b = length (contents b)"

lemma eb_ok_wf: "eb_ok b \<Longrightarrow> eb_wf b"
  by (simp add: eb_ok_def eb_wf_def)

lemma chain_from_ok: "chain_ok c \<Longrightarrow> i \<le> off c \<Longrightarrow> chain_from c i = Some (drop i (cdata c))"
proof -
  assume c: "chain_ok c" and i: "i \<le> off c"
  show ?thesis
  proof (cases "i = off c")
    case True
    then show ?thesis using c cdata_len [OF c] by (simp add: chain_from_def chain_bytes_def cut_front_def chain_ok_def)
  next
    case False
    then show ?thesis using cut_front_ok [OF c, of i] chain_bytes_all [of "cut_front c i"] i by (simp add: chain_from_def)
  qed
qed

abbreviation bytes_of :: "evbuffer_chain list \<Rightarrow> u8 list" where
  "bytes_of cs \<equiv> concat (map cdata cs)"

definition in_first :: "nat \<Rightarrow> evbuffer_chain list \<Rightarrow> bool" where
  "in_first i cs \<longleftrightarrow> i \<le> (case cs of [] \<Rightarrow> 0 | c # _ \<Rightarrow> off c)"

text \<open>The position \<open>it\<close> is that of the byte \<open>k\<close> of the buffer.\<close>

definition points :: "evbuffer \<Rightarrow> evbuffer_ptr \<Rightarrow> nat \<Rightarrow> bool" where
  "points b it k \<longleftrightarrow> (\<exists>xs cs. eb_chains b = xs @ cs \<and> p_chain it = first_id cs \<and> in_first (p_in it) cs \<and> p_pos it = int k
     \<and> k = length (bytes_of xs) + p_in it \<and> (cs = [] \<longrightarrow> xs = []))"

lemma points_first: "points b (ptr_first b) 0"
  unfolding points_def by (intro exI [of _ "[]"] exI [of _ "eb_chains b"]) (simp add: ptr_first_def in_first_def)

lemma pointsE:
  assumes "eb_wf b" "points b it k"
  obtains xs cs where "eb_chains b = xs @ cs" "chains_from b (p_chain it) = Some cs" "in_first (p_in it) cs" "p_pos it = int k"
    "k = length (bytes_of xs) + p_in it" "drop (p_in it) (bytes_of cs) = drop k (contents b)" "k \<le> length (contents b)" "\<forall>c \<in> set cs. chain_ok c"
proof -
  obtain xs cs where p: "eb_chains b = xs @ cs" "p_chain it = first_id cs" "in_first (p_in it) cs" "p_pos it = int k"
    "k = length (bytes_of xs) + p_in it" "cs = [] \<longrightarrow> xs = []" using assms(2) unfolding points_def by blast
  have oks: "\<forall>c \<in> set cs. chain_ok c" using assms(1) p(1) by (simp add: eb_wf_def)
  have "chains_from b (p_chain it) = Some cs"
  proof (cases cs)
    case (Cons c ds)
    have "distinct (map ch_id (xs @ c # ds))" using assms(1) p(1) Cons by (simp add: eb_wf_def)
    from skip_ids(1) [OF this] show ?thesis using p(1,2) Cons by (simp add: chains_from_def first_id_def)
  qed (use p in \<open>simp add: chains_from_def first_id_def\<close>)
  moreover have "drop (p_in it) (bytes_of cs) = drop k (contents b)" using p(1,5) by (simp add: contents_def)
  moreover have "p_in it \<le> length (bytes_of cs)" using p(3) oks by (cases cs) (auto simp: in_first_def cdata_len)
  then have "k \<le> length (contents b)" using p(1,5) by (simp add: contents_def)
  ultimately show ?thesis using p oks that by blast
qed

text \<open>The position is that of a byte.\<close>

definition points_in :: "evbuffer \<Rightarrow> evbuffer_ptr \<Rightarrow> nat \<Rightarrow> bool" where
  "points_in b it k \<longleftrightarrow> (\<exists>xs c cs. eb_chains b = xs @ c # cs \<and> p_chain it = Some (ch_id c) \<and> p_in it < off c \<and> p_pos it = int k
     \<and> k = length (bytes_of xs) + p_in it)"

lemma points_inD: "points_in b it k \<Longrightarrow> points b it k"
  unfolding points_in_def points_def by (elim exE, rename_tac xs c cs) (force simp: first_id_def in_first_def)

section \<open>Scanning and comparing\<close>

lemma scan_chains_ok:
  assumes "\<forall>xs. look xs = first_idx P xs" "\<forall>c \<in> set cs. chain_ok c" "eb_chains b = xs @ cs" "in_first i cs" "pos = int (length (bytes_of xs) + i)"
  shows "case first_idx P (drop i (bytes_of cs)) of
      None \<Rightarrow> \<exists>p. scan_chains look it pos i cs = Some (False, it\<lparr>p_pos := p\<rparr>)
    | Some k \<Rightarrow> \<exists>it'. scan_chains look it pos i cs = Some (True, it') \<and> points_in b it' (length (bytes_of xs) + i + k)"
  using assms(2-)
proof (induction cs arbitrary: xs i pos)
  case Nil
  then show ?case by auto
next
  case (Cons c cs)
  have c: "chain_ok c" "i \<le> off c" using Cons.prems by (simp_all add: in_first_def)
  note x = chain_from_ok [OF c]
  have d: "drop i (bytes_of (c # cs)) = drop i (cdata c) @ bytes_of cs" using c cdata_len [OF c(1)] by simp
  show ?case
  proof (cases "first_idx P (drop i (cdata c))")
    case (Some k)
    have k: "k < off c - i" using first_idx_Some [OF Some] cdata_len [OF c(1)] by simp
    let ?it = "\<lparr>p_pos = pos + int k, p_chain = Some (ch_id c), p_in = i + k\<rparr>"
    have "points_in b ?it (length (bytes_of xs) + i + k)" unfolding points_in_def
      using Cons.prems(2,4) k by (intro exI [of _ xs] exI [of _ c] exI [of _ cs]) simp
    then show ?thesis using Some x assms(1) d by (simp add: first_idx_append)
  next
    case None
    have "eb_chains b = (xs @ [c]) @ cs" "in_first 0 cs" "\<forall>c \<in> set cs. chain_ok c" using Cons.prems by (simp_all add: in_first_def split: list.splits)
    moreover have "pos + int (off c - i) = int (length (bytes_of (xs @ [c])) + 0)" using Cons.prems(4) c cdata_len [OF c(1)] by simp
    ultimately have ih: "case first_idx P (drop 0 (bytes_of cs)) of
      None \<Rightarrow> \<exists>p. scan_chains look it (pos + int (off c - i)) 0 cs = Some (False, it\<lparr>p_pos := p\<rparr>)
    | Some k \<Rightarrow> \<exists>it'. scan_chains look it (pos + int (off c - i)) 0 cs = Some (True, it') \<and> points_in b it' (length (bytes_of (xs @ [c])) + 0 + k)"
      by (intro Cons.IH) 
    have "scan_chains look it pos i (c # cs) = scan_chains look it (pos + int (off c - i)) 0 cs" using None x assms(1) by simp
    moreover have "length (bytes_of (xs @ [c])) = length (bytes_of xs) + i + (off c - i)" using c cdata_len [OF c(1)] by simp
    ultimately show ?thesis using ih None d c cdata_len [OF c(1)] by (auto simp: first_idx_append add.assoc split: option.splits)
  qed
qed

lemma scan_at:
  assumes "eb_wf b" "points b it k" "\<forall>xs. look xs = first_idx P xs"
  shows "case first_idx P (drop k (contents b)) of
      None \<Rightarrow> \<exists>p. do { cs \<leftarrow> chains_from b (p_chain it); scan_chains look it (p_pos it) (p_in it) cs } = Some (False, it\<lparr>p_pos := p\<rparr>)
    | Some j \<Rightarrow> \<exists>it'. do { cs \<leftarrow> chains_from b (p_chain it); scan_chains look it (p_pos it) (p_in it) cs } = Some (True, it') \<and> points_in b it' (k + j)"
proof -
  obtain xs cs where p: "eb_chains b = xs @ cs" "chains_from b (p_chain it) = Some cs" "in_first (p_in it) cs" "p_pos it = int k"
    "k = length (bytes_of xs) + p_in it" "drop (p_in it) (bytes_of cs) = drop k (contents b)" "\<forall>c \<in> set cs. chain_ok c"
    using pointsE [OF assms(1,2)] by metis
  have "p_pos it = int (length (bytes_of xs) + p_in it)" using p(4,5) by simp
  note s = scan_chains_ok [OF assms(3) p(7,1,3) this, of it, unfolded p(6), folded p(5)]
  have e: "do { cs \<leftarrow> chains_from b (p_chain it); scan_chains look it (p_pos it) (p_in it) cs } = scan_chains look it (p_pos it) (p_in it) cs"
    by (simp add: p(2))
  show ?thesis unfolding e by (rule s)
qed

lemmas strchr_at = scan_at [where look = "memchr x" and P = "(=) x" for x, folded evbuffer_strchr_def, OF _ _ allI [OF memchr_is]]
lemmas find_eol_at = scan_at [where look = find_eol_char, folded evbuffer_find_eol_char_def, OF _ _ allI [OF find_eol_char_is]]

lemma cmp_chains_ok:
  assumes "\<forall>c \<in> set cs. chain_ok c" "in_first i cs" "length mem \<le> length (drop i (bytes_of cs))"
  shows "cmp_chains i mem cs = Some (take (length mem) (drop i (bytes_of cs)) = mem)"
  using assms
proof (induction cs arbitrary: i mem)
  case (Cons c cs)
  have c: "chain_ok c" "i \<le> off c" using Cons.prems by (simp_all add: in_first_def)
  note x = chain_from_ok [OF c]
  have l: "length (drop i (cdata c)) = off c - i" using cdata_len [OF c(1)] by simp
  have d: "drop i (bytes_of (c # cs)) = drop i (cdata c) @ bytes_of cs" using c l cdata_len [OF c(1)] by simp
  show ?case
  proof (cases "length mem + i > off c")
    case False
    have "cmp_chains 0 [] cs = Some True" by (cases cs) auto
    then show ?thesis using False x d l by (auto simp: Let_def)
  next
    case True
    have "in_first 0 cs" "length (drop (off c - i) mem) \<le> length (drop 0 (bytes_of cs))" using Cons.prems(3) d l c(2) True
      by (simp_all add: in_first_def split: list.splits)
    then have ih: "cmp_chains 0 (drop (off c - i) mem) cs = Some (take (length mem - (off c - i)) (bytes_of cs) = drop (off c - i) mem)"
      using Cons.IH [of 0 "drop (off c - i) mem"] Cons.prems(1) by simp
    have "take (length mem) (drop i (bytes_of (c # cs))) = drop i (cdata c) @ take (length mem - (off c - i)) (bytes_of cs)"
      using d l c(2) True by simp
    also have "\<dots> = mem \<longleftrightarrow> drop i (cdata c) = take (off c - i) mem \<and> take (length mem - (off c - i)) (bytes_of cs) = drop (off c - i) mem"
      unfolding append_eq_conv_conj l by (rule refl)
    finally show ?thesis using x l True ih by (auto simp: Let_def)
  qed
qed (simp add: in_first_def)

lemma memcmp_at:
  assumes "eb_wf b" "points b it k" "int (total_len b) \<le> EVBUFFER_CHAIN_MAX"
  shows "evbuffer_ptr_memcmp b it mem = Some (take (length mem) (drop k (contents b)) = mem)"
proof -
  obtain xs cs where p: "eb_chains b = xs @ cs" "chains_from b (p_chain it) = Some cs" "in_first (p_in it) cs" "p_pos it = int k"
    "drop (p_in it) (bytes_of cs) = drop k (contents b)" "\<forall>c \<in> set cs. chain_ok c"
    using pointsE [OF assms(1,2)] by metis
  have tot: "total_len b = length (contents b)" using assms(1) by (simp add: eb_wf_def)
  show ?thesis
  proof (cases "k + length mem \<le> total_len b")
    case True
    then have "length mem \<le> length (drop (p_in it) (bytes_of cs))" using p(5) tot by simp
    from cmp_chains_ok [OF p(6,3) this] show ?thesis using True assms(3) p(2,4,5)
      by (simp add: evbuffer_ptr_memcmp_def EV_SIZE_MAX_def EVBUFFER_CHAIN_MAX_def)
  next
    case False
    moreover have "k \<le> length (contents b)" using pointsE [OF assms(1,2)] by metis
    ultimately have "length (take (length mem) (drop k (contents b))) < length mem" using tot by (simp add: min_def)
    then have "take (length mem) (drop k (contents b)) \<noteq> mem" by force
    then show ?thesis using False p(4) by (simp add: evbuffer_ptr_memcmp_def)
  qed
qed

section \<open>Searching\<close>

definition found_at :: "evbuffer \<Rightarrow> nat \<Rightarrow> nat option \<Rightarrow> evbuffer_ptr option \<Rightarrow> bool" where
  "found_at b k j x \<longleftrightarrow> (\<exists>it. x = Some it \<and> (case j of None \<Rightarrow> p_pos it = - 1 | Some j \<Rightarrow> points b it (k + j)))"

lemma found_at_skip: "found_at b (k + n) j x \<Longrightarrow> found_at b k (map_option ((+) n) j) x"
  by (cases j) (auto simp: found_at_def add.assoc)

lemma drop_past: "drop (length xs + i + k) (xs @ ys) = drop k (drop i ys)"
  by (simp add: add.commute)

lemma search_loop_ok:
  assumes "eb_wf b" "int (total_len b) \<le> EVBUFFER_CHAIN_MAX" "what \<noteq> []"
    "eb_chains b = xs @ cs" "in_first i cs" "pos = int (length (bytes_of xs) + i)"
  shows "found_at b (length (bytes_of xs) + i) (first_match what (drop i (bytes_of cs))) (search_loop b what None cs pos i)"
  using assms
proof (induction b what "None :: evbuffer_ptr option" cs pos i arbitrary: xs rule: search_loop.induct)
  case (1 b what pos i)
  then show ?case by (simp add: found_at_def not_found_def in_first_def)
next
  case (2 b what c cs pos i)
  have oks: "\<forall>c \<in> set (c # cs). chain_ok c" using 2(4,7) by (simp add: eb_wf_def)
  have c: "chain_ok c" "i \<le> off c" using oks 2(8) by (simp_all add: in_first_def)
  note x = chain_from_ok [OF c]
  have l: "length (drop i (cdata c)) = off c - i" using cdata_len [OF c(1)] by simp
  let ?r = "drop i (bytes_of (c # cs))"
  have d: "?r = drop i (cdata c) @ bytes_of cs" using c l cdata_len [OF c(1)] by simp
  have next_first: "in_first 0 cs" by (simp add: in_first_def split: list.splits)
  have next_chains: "eb_chains b = (xs @ [c]) @ cs" using 2(7) by simp
  have next_len: "length (bytes_of (xs @ [c])) = length (bytes_of xs) + i + (off c - i)" using c l cdata_len [OF c(1)] by simp
  show ?case
  proof (cases "memchr (hd what) (drop i (cdata c))")
    case None
    have "hd what \<notin> set (drop i (cdata c))" using None by (auto simp: memchr_is first_idx_None list_ex_iff)
    then have skip: "first_match what ?r = map_option ((+) (off c - i)) (first_match what (bytes_of cs))"
      using first_match_skip [OF 2(6), of "off c - i" ?r] d l by simp
    have ih: "found_at b (length (bytes_of (xs @ [c])) + 0) (first_match what (drop 0 (bytes_of cs))) (search_loop b what None cs (pos + int (off c - i)) 0)"
      by (rule 2(1) [OF x None]) (use 2(4-6,9) next_first next_chains next_len in simp_all)
    have "search_loop b what None (c # cs) pos i = search_loop b what None cs (pos + int (off c - i)) 0" using x None by simp
    then show ?thesis using found_at_skip [of b "length (bytes_of xs) + i" "off c - i"] ih skip unfolding next_len by simp
  next
    case (Some k)
    have k: "k < off c - i" using memchr_less [OF Some] l by simp
    let ?it = "\<lparr>p_pos = pos + int k, p_chain = Some (ch_id c), p_in = i + k\<rparr>"
    have pt: "points b ?it (length (bytes_of xs) + i + k)" unfolding points_def
      using 2(7,9) k by (intro exI [of _ xs] exI [of _ "c # cs"]) (simp add: first_id_def in_first_def)
    have rest: "drop (length (bytes_of xs) + i + k) (contents b) = drop k ?r"
      unfolding contents_def 2(7) map_append concat_append by (rule drop_past)
    have cmp: "evbuffer_ptr_memcmp b ?it what = Some (take (length what) (drop k ?r) = what)" using memcmp_at [OF 2(4) pt 2(5)] unfolding rest .
    have "hd what \<notin> set (take k (drop i (cdata c)))" using first_idx_Some [of "(=) (hd what)" "drop i (cdata c)" k] Some
      by (auto simp: memchr_is list_ex_iff)
    then have skip: "first_match what ?r = map_option ((+) k) (first_match what (drop k ?r))"
      using first_match_skip [OF 2(6), of k ?r] d l k by simp
    show ?thesis
    proof (cases "take (length what) (drop k ?r) = what")
      case True
      then have "first_match what ?r = Some k" using skip first_match_here [of what "drop k ?r"] by simp
      moreover have "search_loop b what None (c # cs) pos i = Some ?it" using x Some cmp True by simp
      ultimately show ?thesis using pt by (simp add: found_at_def)
    next
      case False
      have ne: "drop k ?r \<noteq> []" using d l k by simp
      then obtain y ys where y: "drop k ?r = y # ys" by (cases "drop k ?r") auto
      have fm: "first_match what (drop k ?r) = map_option Suc (first_match what ys)" using False unfolding y by simp
      have ys: "ys = drop (k + 1) ?r" using y by (metis Suc_eq_plus1 drop_Suc drop_drop list.sel(3) plus_1_eq_Suc tl_drop)
      have comp: "map_option ((+) k) (map_option Suc z) = map_option ((+) (k + 1)) z" for z by (cases z) simp_all
      have skip': "first_match what ?r = map_option ((+) (k + 1)) (first_match what (drop (k + 1) ?r))"
        unfolding skip fm comp ys by (rule refl)
      show ?thesis
      proof (cases "i + k + 1 = off c")
        case True
        have ih: "found_at b (length (bytes_of (xs @ [c])) + 0) (first_match what (drop 0 (bytes_of cs))) (search_loop b what None cs (pos + int k + 1) 0)"
          by (rule 2(2) [OF x Some refl cmp False True]) (use 2(4-6,9) next_first next_chains next_len True in simp_all)
        have "search_loop b what None (c # cs) pos i = search_loop b what None cs (pos + int k + 1) 0" using x Some cmp False True by simp
        moreover have "drop (k + 1) ?r = bytes_of cs" "off c - i = k + 1" using d l True by simp_all
        ultimately show ?thesis using found_at_skip [of b "length (bytes_of xs) + i" "k + 1"] ih skip' unfolding next_len by simp
      next
        case neq: False
        have ih: "found_at b (length (bytes_of xs) + (i + k + 1)) (first_match what (drop (i + k + 1) (bytes_of (c # cs)))) (search_loop b what None (c # cs) (pos + int k + 1) (i + k + 1))"
          by (rule 2(3) [OF x Some refl cmp False neq]) (use 2(4-7,9) k in \<open>simp_all add: in_first_def\<close>)
        have sl: "search_loop b what None (c # cs) pos i = search_loop b what None (c # cs) (pos + int k + 1) (i + k + 1)" using x Some cmp False neq by simp
        have dr: "drop (i + k + 1) (bytes_of (c # cs)) = drop (k + 1) ?r"
          using drop_past [of "[]" "i" "k + 1" "bytes_of (c # cs)"] unfolding append_Nil list.size(3) add_0 add.assoc .
        have ln: "length (bytes_of xs) + (i + k + 1) = length (bytes_of xs) + i + (k + 1)" by simp
        show ?thesis unfolding sl skip' by (rule found_at_skip [OF ih [unfolded ln dr]])
      qed
    qed
  qed
qed

lemma search_at:
  assumes "eb_wf b" "int (total_len b) \<le> EVBUFFER_CHAIN_MAX" "what \<noteq> []" "int (length what) \<le> EVBUFFER_CHAIN_MAX" "points b it k"
  shows "found_at b k (first_match what (drop k (contents b))) (evbuffer_search b what (Some it))"
proof -
  obtain xs cs where p: "eb_chains b = xs @ cs" "chains_from b (p_chain it) = Some cs" "in_first (p_in it) cs" "p_pos it = int k"
    "k = length (bytes_of xs) + p_in it" "drop (p_in it) (bytes_of cs) = drop k (contents b)"
    using pointsE [OF assms(1,5)] by metis
  have "p_pos it = int (length (bytes_of xs) + p_in it)" using p(4,5) by simp
  from search_loop_ok [OF assms(1-3) p(1,3) this] show ?thesis
    using assms(3,4) p(2,5,6) by (simp add: evbuffer_search_def evbuffer_search_range_def)
qed

section \<open>Lines\<close>

text \<open>Where a line ends, and how long its end is, in each of the styles.\<close>

fun crlf_end :: "u8 list \<Rightarrow> (nat \<times> nat) option" where
  "crlf_end [] = None"
| "crlf_end (x # xs) =
     (if x = 10 then Some (0, 1) else if x = 13 \<and> take 1 xs = [10] then Some (0, 2) else map_option (map_prod Suc id) (crlf_end xs))"

definition line_end :: "evbuffer_eol_style \<Rightarrow> u8 list \<Rightarrow> (nat \<times> nat) option" where
  "line_end eol_style xs = (case eol_style of
     EVBUFFER_EOL_ANY \<Rightarrow> map_option (\<lambda>k. (k, length (takeWhile (\<lambda>x. x = 13 \<or> x = 10) (drop k xs)))) (first_idx (\<lambda>x. x = 13 \<or> x = 10) xs)
   | EVBUFFER_EOL_CRLF \<Rightarrow> crlf_end xs
   | EVBUFFER_EOL_CRLF_STRICT \<Rightarrow> map_option (\<lambda>k. (k, 2)) (first_match [13, 10] xs)
   | EVBUFFER_EOL_LF \<Rightarrow> map_option (\<lambda>k. (k, 1)) (first_idx ((=) 10) xs))"

lemma chain_byte:
  assumes "chain_ok c" "k < off c"
  shows "peek (ch_buffer c) (misalign c + k) = Some (Some (cdata c ! k))"
proof -
  let ?xs = "take (off c) (drop (misalign c) (ch_buffer c))"
  have le: "misalign c + off c \<le> buffer_len c" using assms(1) by (simp add: chain_ok_def)
  have x: "?xs ! k = ch_buffer c ! (misalign c + k)" "k < length ?xs" using assms(2) le by simp_all
  have "?xs ! k \<in> set ?xs" using x(2) by (rule nth_mem)
  then have "?xs ! k \<noteq> None" using assms(1) unfolding chain_ok_def by metis
  moreover have "cdata c ! k = the (?xs ! k)" using x(2) by (simp add: cdata_def)
  ultimately show ?thesis using assms(2) le x(1) by (auto simp: peek_def)
qed

lemma points_inE:
  assumes "eb_wf b" "points_in b it k"
  obtains xs c cs where "eb_chains b = xs @ c # cs" "p_chain it = Some (ch_id c)" "p_in it < off c" "p_pos it = int k" "k = length (bytes_of xs) + p_in it"
    "chain_ok c" "distinct (map ch_id (xs @ c # cs))" "chains_from b (p_chain it) = Some (c # cs)" "k < length (contents b)" "contents b ! k = cdata c ! p_in it"
proof -
  obtain xs c cs where p: "eb_chains b = xs @ c # cs" "p_chain it = Some (ch_id c)" "p_in it < off c" "p_pos it = int k" "k = length (bytes_of xs) + p_in it"
    using assms(2) unfolding points_in_def by blast
  have ok: "chain_ok c" "distinct (map ch_id (xs @ c # cs))" using assms(1) p(1) by (auto simp: eb_wf_def)
  have "chains_from b (p_chain it) = Some (c # cs)" using skip_ids(1) [OF ok(2)] p(1,2) by (simp add: chains_from_def)
  moreover have "k < length (contents b)" "contents b ! k = cdata c ! p_in it" using p(1,3,5) cdata_len [OF ok(1)] by (simp_all add: contents_def nth_append)
  ultimately show ?thesis using that p ok by blast
qed

lemma getchr_at:
  assumes "eb_wf b" "points_in b it k"
  shows "evbuffer_getchr b it = Some (contents b ! k)"
proof -
  obtain xs c cs where p: "eb_chains b = xs @ c # cs" "p_chain it = Some (ch_id c)" "p_in it < off c" "chain_ok c" "distinct (map ch_id (xs @ c # cs))"
    "contents b ! k = cdata c ! p_in it" using points_inE [OF assms] by metis
  show ?thesis using chain_at_split [OF p(5)] chain_byte [OF p(4,3)] p(1,2,6) by (simp add: evbuffer_getchr_def read_at_def)
qed

lemma skip_chains_ok:
  assumes "\<forall>c \<in> set cs. chain_ok c"
  shows "if start + left < length (bytes_of cs)
    then \<exists>ys c zs m. cs = ys @ c # zs \<and> skip_chains start left cs = Some (ch_id c, m) \<and> m < off c \<and> length (bytes_of ys) + m = start + left
    else skip_chains start left cs = None"
  using assms
proof (induction cs arbitrary: start left)
  case (Cons c cs)
  have l: "length (cdata c) = off c" using Cons.prems cdata_len by simp
  show ?case
  proof (cases "start + left \<ge> off c")
    case False
    then have "skip_chains start left (c # cs) = Some (ch_id c, start + left)" by simp
    then show ?thesis using False l by (auto intro!: exI [of _ "[]"])
  next
    case True
    then have e: "skip_chains start left (c # cs) = skip_chains 0 (start + left - off c) cs" by simp
    have ih: "if 0 + (start + left - off c) < length (bytes_of cs)
      then \<exists>ys d zs m. cs = ys @ d # zs \<and> skip_chains 0 (start + left - off c) cs = Some (ch_id d, m) \<and> m < off d
        \<and> length (bytes_of ys) + m = 0 + (start + left - off c)
      else skip_chains 0 (start + left - off c) cs = None" by (rule Cons.IH) (use Cons.prems in simp)
    show ?thesis
    proof (cases "start + left - off c < length (bytes_of cs)")
      case False
      then have n: "skip_chains 0 (start + left - off c) cs = None" using ih by simp
      have "\<not> start + left < length (bytes_of (c # cs))" using False True l by simp
      then show ?thesis unfolding e n by (simp only: if_False)
    next
      case lt: True
      then obtain ys d zs m where d: "cs = ys @ d # zs" "skip_chains 0 (start + left - off c) cs = Some (ch_id d, m)" "m < off d"
        "length (bytes_of ys) + m = start + left - off c" using ih by auto
      have "c # cs = (c # ys) @ d # zs" "length (bytes_of (c # ys)) + m = start + left" using d(1,4) l True by simp_all
      moreover have "start + left < length (bytes_of (c # cs))" using lt True l by simp
      ultimately show ?thesis using d(2,3) unfolding e by (metis (full_types))
    qed
  qed
qed simp

lemma ptr_add_at:
  assumes "eb_wf b" "points_in b it k" "int (total_len b) \<le> EVBUFFER_CHAIN_MAX"
  shows "\<exists>r it'. evbuffer_ptr_set b it 1 EVBUFFER_PTR_ADD = Some (r, it') \<and> (if k + 1 < length (contents b) then r = 0 \<and> points_in b it' (k + 1) else r = - 1)"
proof -
  obtain xs c cs where p: "eb_chains b = xs @ c # cs" "p_chain it = Some (ch_id c)" "p_in it < off c" "p_pos it = int k" "k = length (bytes_of xs) + p_in it"
    "chain_ok c" "chains_from b (p_chain it) = Some (c # cs)" "k < length (contents b)" using points_inE [OF assms(1,2)] by metis
  have oks: "\<forall>d \<in> set (c # cs). chain_ok d" using assms(1) p(1) by (simp add: eb_wf_def)
  have tot: "total_len b = length (contents b)" using assms(1) by (simp add: eb_wf_def)
  have small: "\<not> p_pos it < 0" "\<not> EV_SIZE_MAX - int 1 < p_pos it" "\<not> EV_SIZE_MAX - int 1 < int (p_in it)"
    using p(4,5,8) assms(3) tot by (auto simp: EV_SIZE_MAX_def EVBUFFER_CHAIN_MAX_def)
  have len: "length (contents b) = length (bytes_of xs) + length (bytes_of (c # cs))" using p(1) by (simp add: contents_def)
  have eq: "evbuffer_ptr_set b it 1 EVBUFFER_PTR_ADD = (case skip_chains (p_in it) 1 (c # cs) of
      Some (i, m) \<Rightarrow> Some (0, it\<lparr>p_pos := p_pos it + 1, p_chain := Some i, p_in := m\<rparr>)
    | None \<Rightarrow> Some (- 1, it\<lparr>p_pos := - 1, p_chain := None\<rparr>))"
    using small p(7) by (simp add: evbuffer_ptr_set_def split: option.split)
  note s = skip_chains_ok [OF oks, of "p_in it" 1]
  show ?thesis
  proof (cases "k + 1 < length (contents b)")
    case True
    then have "p_in it + 1 < length (bytes_of (c # cs))" using len p(5) by simp
    with s obtain ys d zs m where d: "c # cs = ys @ d # zs" "skip_chains (p_in it) 1 (c # cs) = Some (ch_id d, m)" "m < off d"
      "length (bytes_of ys) + m = p_in it + 1" by (auto simp del: skip_chains.simps)
    have "eb_chains b = (xs @ ys) @ d # zs" "length (bytes_of (xs @ ys)) + m = k + 1" using p(1,5) d(1,4) by simp_all
    then have "points_in b (it\<lparr>p_pos := p_pos it + 1, p_chain := Some (ch_id d), p_in := m\<rparr>) (k + 1)"
      unfolding points_in_def using d(3) p(4) by (intro exI [of _ "xs @ ys"] exI [of _ d] exI [of _ zs]) simp
    then show ?thesis using True unfolding eq d(2) by simp
  next
    case False
    then have "\<not> p_in it + 1 < length (bytes_of (c # cs))" using len p(5) by simp
    with s have "skip_chains (p_in it) 1 (c # cs) = None" by (simp del: skip_chains.simps)
    then show ?thesis using False unfolding eq by simp
  qed
qed

lemma crlf_end_skip: "\<not> list_ex (\<lambda>x. x = 13 \<or> x = 10) (take j xs) \<Longrightarrow> crlf_end xs = map_option (map_prod ((+) (length (take j xs))) id) (crlf_end (drop j xs))"
proof (induction xs arbitrary: j)
  case (Cons x xs)
  then show ?case by (cases j; cases "crlf_end (drop (j - 1) xs)") (auto simp: map_prod_def option.map_id0 split: option.splits prod.splits)
qed simp

lemma crlf_end_none: "\<not> list_ex (\<lambda>x. x = 13 \<or> x = 10) xs \<Longrightarrow> crlf_end xs = None"
  by (induction xs) auto

definition eol_at :: "evbuffer \<Rightarrow> nat \<Rightarrow> (nat \<times> nat) option \<Rightarrow> (bool \<times> nat \<times> evbuffer_ptr) option \<Rightarrow> bool" where
  "eol_at b k e x \<longleftrightarrow> (\<exists>found n it. x = Some (found, n, it) \<and> (case e of None \<Rightarrow> \<not> found | Some (j, m) \<Rightarrow> found \<and> n = m \<and> points b it (k + j)))"

lemma eol_at_shift: "eol_at b (k + n) e x \<Longrightarrow> eol_at b k (map_option (map_prod ((+) n) id) e) x"
  by (cases e) (auto simp: eol_at_def add.assoc)

lemma crlf_loop_ok:
  assumes "eb_wf b" "points b it k" "int (total_len b) \<le> EVBUFFER_CHAIN_MAX"
  shows "eol_at b k (crlf_end (drop k (contents b))) (crlf_loop b it)"
  using assms(2)
proof (induction "length (contents b) - k" arbitrary: it k rule: less_induct)
  case less
  let ?P = "\<lambda>x :: u8. x = 13 \<or> x = 10"
  let ?r = "drop k (contents b)"
  note f = find_eol_at [OF assms(1) less.prems]
  show ?case
  proof (cases "first_idx ?P ?r")
    case None
    then obtain p where "evbuffer_find_eol_char b it = Some (False, it\<lparr>p_pos := p\<rparr>)" using f by auto
    then have "crlf_loop b it = Some (False, 0, it\<lparr>p_pos := p\<rparr>)" by (subst crlf_loop.simps) simp
    moreover have "crlf_end ?r = None" using crlf_end_none [of ?r] None by (simp add: first_idx_None)
    ultimately show ?thesis by (auto simp: eol_at_def)
  next
    case (Some j)
    then obtain it1 where i1: "evbuffer_find_eol_char b it = Some (True, it1)" "points_in b it1 (k + j)" using f by auto
    have j: "j < length ?r" "?P (?r ! j)" "\<not> list_ex ?P (take j ?r)" using first_idx_Some [OF Some] by simp_all
    have kj: "k + j < length (contents b)" "?r ! j = contents b ! (k + j)" using j(1) by simp_all
    have skip: "crlf_end ?r = map_option (map_prod ((+) j) id) (crlf_end (drop (k + j) (contents b)))"
      using crlf_end_skip [OF j(3)] j(1) by (simp add: add.commute)
    have cons: "drop (k + j) (contents b) = contents b ! (k + j) # drop (k + j + 1) (contents b)" using kj(1) by (simp add: Cons_nth_drop_Suc)
    note g = getchr_at [OF assms(1) i1(2)]
    show ?thesis
    proof (cases "contents b ! (k + j) = 10")
      case True
      have "crlf_loop b it = Some (True, 1, it1)" using i1(1) g True by (subst crlf_loop.simps) simp
      then show ?thesis using skip cons True points_inD [OF i1(2)] by (auto simp: eol_at_def)
    next
      case False
      then have x: "contents b ! (k + j) = 13" using j(2) kj(2) by simp
      have "take 2 (drop (k + j) (contents b)) = [13, 10] \<longleftrightarrow> take 1 (drop (k + j + 1) (contents b)) = [10]"
        unfolding cons x by simp
      then have m: "evbuffer_ptr_memcmp b it1 [13, 10] = Some (take 1 (drop (k + j + 1) (contents b)) = [10])"
        using memcmp_at [OF assms(1) points_inD [OF i1(2)] assms(3), of "[13, 10]"] by (simp add: numeral_2_eq_2)
      show ?thesis
      proof (cases "take 1 (drop (k + j + 1) (contents b)) = [10]")
        case True
        have "crlf_loop b it = Some (True, 2, it1)" using i1(1) g False m True by (subst crlf_loop.simps) simp
        then show ?thesis using skip cons x True points_inD [OF i1(2)] by (auto simp: eol_at_def)
      next
        case neq: False
        obtain r it2 where a: "evbuffer_ptr_set b it1 1 EVBUFFER_PTR_ADD = Some (r, it2)"
          "if k + j + 1 < length (contents b) then r = 0 \<and> points_in b it2 (k + j + 1) else r = - 1"
          using ptr_add_at [OF assms(1) i1(2) assms(3)] by blast
        have ce: "crlf_end (drop (k + j) (contents b)) = map_option (map_prod Suc id) (crlf_end (drop (k + j + 1) (contents b)))"
          using cons x neq by simp
        have l: "crlf_loop b it = (if r < 0 then Some (False, 0, it2) else crlf_loop b it2)"
          using i1(1) g False m neq a(1) by (subst crlf_loop.simps) simp
        show ?thesis
        proof (cases "k + j + 1 < length (contents b)")
          case True
          then have r: "r = 0" "points b it2 (k + j + 1)" using a(2) points_inD by auto
          have "eol_at b (k + j + 1) (crlf_end (drop (k + j + 1) (contents b))) (crlf_loop b it2)"
            by (rule less.hyps [OF _ r(2)]) (use True in simp)
          then have e: "eol_at b (k + (j + 1)) (crlf_end (drop (k + j + 1) (contents b))) (crlf_loop b it)" using l r(1) by (simp add: add.assoc)
          have comp: "map_option (map_prod ((+) j) id) (map_option (map_prod Suc id) z) = map_option (map_prod ((+) (j + 1)) id) z"
            for z :: "(nat \<times> nat) option" by (cases z) auto
          show ?thesis unfolding skip ce comp by (rule eol_at_shift [OF e])
        next
          case over: False
          then have "crlf_loop b it = Some (False, 0, it2)" using l a(2) by simp
          moreover have "drop (k + j + 1) (contents b) = []" using over by simp
          ultimately show ?thesis using skip ce by (auto simp: eol_at_def)
        qed
      qed
    qed
  qed
qed

lemma span_chains_ok:
  assumes "\<forall>c \<in> set cs. chain_ok c" "cs \<noteq> []" "in_first i cs"
  shows "\<exists>it'. span_chains S it count i cs = Some (int (count + length (takeWhile (\<lambda>y. y \<in> S) (drop i (bytes_of cs)))), it')"
  using assms
proof (induction cs arbitrary: i count)
  case (Cons c cs)
  have c: "chain_ok c" "i \<le> off c" using Cons.prems by (simp_all add: in_first_def)
  have x: "(if i < off c then chain_from c i else Some []) = Some (drop i (cdata c))" using chain_from_ok [OF c] c cdata_len [OF c(1)] by simp
  have d: "drop i (bytes_of (c # cs)) = drop i (cdata c) @ bytes_of cs" using c cdata_len [OF c(1)] by simp
  let ?t = "takeWhile (\<lambda>y. y \<in> S) (drop i (cdata c))"
  show ?case
  proof (cases "length ?t < length (drop i (cdata c))")
    case True
    then have "\<not> (\<forall>y \<in> set (drop i (cdata c)). y \<in> S)" by (metis less_irrefl takeWhile_eq_all_conv)
    then have "takeWhile (\<lambda>y. y \<in> S) (drop i (cdata c) @ bytes_of cs) = ?t" by (auto intro: takeWhile_append1)
    then show ?thesis using x d True by (simp add: Let_def)
  next
    case False
    then have t: "?t = drop i (cdata c)" by (metis linorder_neqE_nat length_takeWhile_le not_less takeWhile_eq_all_conv takeWhile_eq_take take_all)
    then have all: "takeWhile (\<lambda>y. y \<in> S) (drop i (cdata c) @ bytes_of cs) = drop i (cdata c) @ takeWhile (\<lambda>y. y \<in> S) (bytes_of cs)"
      by (intro takeWhile_append2) (auto simp: takeWhile_eq_all_conv)
    show ?thesis
    proof (cases "cs = []")
      case True
      then show ?thesis using x d t False by (simp add: Let_def)
    next
      case ne: False
      have "in_first 0 cs" by (simp add: in_first_def split: list.splits)
      then obtain it' where "span_chains S it (count + length ?t) 0 cs = Some (int (count + length ?t + length (takeWhile (\<lambda>y. y \<in> S) (drop 0 (bytes_of cs)))), it')"
        using Cons.IH [of 0 "count + length ?t"] Cons.prems(1) ne by auto
      moreover have "span_chains S it count i (c # cs) = span_chains S it (count + length ?t) 0 cs" using x ne False by (simp add: Let_def)
      moreover have "length (takeWhile (\<lambda>y. y \<in> S) (drop i (bytes_of (c # cs)))) = length ?t + length (takeWhile (\<lambda>y. y \<in> S) (drop 0 (bytes_of cs)))"
        unfolding d all t drop_0 by (rule length_append)
      ultimately show ?thesis by (simp only: add.assoc) blast
    qed
  qed
qed simp

lemma points_pos: "points b it k \<Longrightarrow> p_pos it = int k"
  by (auto simp: points_def)

lemma size_of_int_small: "int n \<le> EVBUFFER_CHAIN_MAX \<Longrightarrow> size_of_int (int n) = n"
  by (simp add: size_of_int_def EV_SIZE_MAX_def EVBUFFER_CHAIN_MAX_def)

lemma search_eol_ok:
  assumes "eb_wf b" "int (total_len b) \<le> EVBUFFER_CHAIN_MAX"
  shows "eol_at b 0 (line_end eol_style (contents b)) (search_eol b (ptr_first b) eol_style)"
proof (cases eol_style)
  case EVBUFFER_EOL_ANY
  note f = find_eol_at [OF assms(1) points_first]
  show ?thesis
  proof (cases "first_idx (\<lambda>x. x = 13 \<or> x = 10) (contents b)")
    case None
    then show ?thesis using f EVBUFFER_EOL_ANY by (auto simp: search_eol_def line_end_def eol_at_def)
  next
    case (Some j)
    then obtain it where it: "evbuffer_find_eol_char b (ptr_first b) = Some (True, it)" "points_in b it j" using f by auto
    obtain xs c cs where p: "chains_from b (p_chain it) = Some (c # cs)" "eb_chains b = xs @ c # cs" "j = length (bytes_of xs) + p_in it" "p_in it < off c"
      using points_inE [OF assms(1) it(2)] by metis
    let ?t = "takeWhile (\<lambda>x. x = 13 \<or> x = 10) (drop j (contents b))"
    have "drop (p_in it) (bytes_of (c # cs)) = drop j (contents b)"
      using drop_past [of "bytes_of xs" 0 "p_in it" "bytes_of (c # cs)"] unfolding contents_def p(2,3) map_append concat_append by simp
    then obtain it' where s: "evbuffer_strspn b it {13, 10} = Some (int (length ?t), it')"
      using span_chains_ok [of "c # cs" "p_in it" "{13, 10}" it 0] assms(1) p(1,2,4) by (auto simp: evbuffer_strspn_def in_first_def eb_wf_def)
    have "length ?t \<le> total_len b" using assms(1) length_takeWhile_le [of _ "drop j (contents b)"] by (simp add: eb_wf_def) (meson diff_le_self le_trans)
    then have "size_of_int (int (length ?t)) = length ?t" using assms(2) by (intro size_of_int_small) simp
    then have "search_eol b (ptr_first b) eol_style = Some (True, length ?t, it)" using it(1) s EVBUFFER_EOL_ANY by (simp add: search_eol_def)
    then show ?thesis using EVBUFFER_EOL_ANY Some points_inD [OF it(2)] by (auto simp: line_end_def eol_at_def)
  qed
next
  case EVBUFFER_EOL_CRLF
  then show ?thesis using crlf_loop_ok [OF assms(1) points_first assms(2)] by (simp add: search_eol_def line_end_def)
next
  case EVBUFFER_EOL_CRLF_STRICT
  have "found_at b 0 (first_match [13, 10] (drop 0 (contents b))) (evbuffer_search b [13, 10] (Some (ptr_first b)))"
    by (rule search_at [OF assms _ _ points_first]) (simp_all add: EVBUFFER_CHAIN_MAX_def)
  then show ?thesis using EVBUFFER_EOL_CRLF_STRICT
    by (cases "first_match [13, 10] (contents b)") (auto simp: search_eol_def line_end_def eol_at_def found_at_def points_pos)
next
  case EVBUFFER_EOL_LF
  have "case first_idx ((=) 10) (drop 0 (contents b)) of None \<Rightarrow> \<exists>p. evbuffer_strchr b (ptr_first b) 10 = Some (False, (ptr_first b)\<lparr>p_pos := p\<rparr>)
    | Some j \<Rightarrow> \<exists>it'. evbuffer_strchr b (ptr_first b) 10 = Some (True, it') \<and> points_in b it' (0 + j)"
    unfolding evbuffer_strchr_def by (rule scan_at [OF assms(1) points_first]) (simp add: memchr_is)
  then show ?thesis using EVBUFFER_EOL_LF points_inD
    by (cases "first_idx ((=) 10) (contents b)") (auto simp: search_eol_def line_end_def eol_at_def)
qed

section \<open>Properties\<close>

text \<open>C8: \<^verbatim>\<open>evbuffer_search\<close> returns the position of the first place where the bytes occur in the buffer, also across the borders of
  chains, and -1 if there is none; it always ends and reads no byte outside the data.\<close>

theorem evbuffer_search_correct:
  assumes "eb_wf b" "int (evbuffer_get_length b) \<le> EVBUFFER_CHAIN_MAX" "what \<noteq> []" "int (length what) \<le> EVBUFFER_CHAIN_MAX"
  shows "map_option p_pos (evbuffer_search b what None) = Some (case first_match what (contents b) of None \<Rightarrow> - 1 | Some k \<Rightarrow> int k)"
proof -
  have "found_at b 0 (first_match what (drop 0 (contents b))) (evbuffer_search b what (Some (ptr_first b)))"
    by (rule search_at [OF assms(1) _ assms(3,4) points_first]) (use assms(2) in \<open>simp add: evbuffer_get_length_def\<close>)
  moreover have "evbuffer_search b what (Some (ptr_first b)) = evbuffer_search b what None" by (simp add: evbuffer_search_def evbuffer_search_range_def)
  ultimately show ?thesis by (auto simp: found_at_def points_pos split: option.splits)
qed

definition two_chains :: "u8 list \<Rightarrow> u8 list \<Rightarrow> evbuffer" where
  "two_chains d e = (case evbuffer_add_buffer (one_chain 1 d) (one_chain 2 e) of Some (r, b, b') \<Rightarrow> b | None \<Rightarrow> evbuffer_new)"

lemma evbuffer_search_correct_witness:
  "map_option p_pos (evbuffer_search (two_chains [1, 1, 2] [1, 2, 3]) [1, 2, 3] None) = Some 3
    \<and> map_option p_pos (evbuffer_search (two_chains [1, 1, 2] [1, 2, 3]) [2, 1, 2, 4] None) = Some (- 1)"
proof -
  let ?b = "two_chains [1, 1, 2] [1, 2, 3]"
  have ok: "eb_wf ?b" "int (evbuffer_get_length ?b) \<le> EVBUFFER_CHAIN_MAX" "contents ?b = [1, 1, 2, 1, 2, 3]" by code_simp+
  show ?thesis using evbuffer_search_correct [OF ok(1,2), of "[1, 2, 3]"] evbuffer_search_correct [OF ok(1,2), of "[2, 1, 2, 4]"] ok(3)
    by (simp add: EVBUFFER_CHAIN_MAX_def)
qed

text \<open>C9: \<^verbatim>\<open>evbuffer_readln\<close> takes the first line off the buffer, for each style of line ends, and leaves the buffer as it is when
  there is no complete line; it always ends.\<close>

theorem evbuffer_readln_correct:
  assumes "eb_ok b" "int (evbuffer_get_length b) \<le> EVBUFFER_CHAIN_MAX" "\<not> freeze_start b" "\<forall>k. A k"
  shows "case line_end eol_style (contents b) of
      None \<Rightarrow> evbuffer_readln A b eol_style = Some (None, 0, b)
    | Some (k, n) \<Rightarrow> \<exists>b'. evbuffer_readln A b eol_style = Some (Some (take k (contents b) @ [0]), k, b') \<and> eb_ok b' \<and> contents b' = drop (k + n) (contents b)"
proof -
  have "int (total_len b) \<le> EVBUFFER_CHAIN_MAX" using assms(2) by (simp add: evbuffer_get_length_def)
  note s = search_eol_ok [OF eb_ok_wf [OF assms(1)] this, of eol_style, unfolded eol_at_def]
  show ?thesis
  proof (cases "line_end eol_style (contents b)")
    case None
    then show ?thesis using s assms(3) by (auto simp: evbuffer_readln_def evbuffer_search_eol_def)
  next
    case (Some e)
    obtain k n where e: "e = (k, n)" by (cases e)
    then obtain it where it: "search_eol b (ptr_first b) eol_style = Some (True, n, it)" "points b it k" using s Some by auto
    then have p: "p_pos it = int k" "k \<le> length (contents b)" using pointsE [OF eb_ok_wf [OF assms(1)] it(2)] by metis+
    obtain b1 where b1: "evbuffer_remove b k = Some (as_int (int (min k (length (contents b)))), take k (contents b), b1)" "eb_ok b1" "same_setup b b1"
      "contents b1 = drop k (contents b)" using evbuffer_remove_ok [OF assms(1,3)] by blast
    obtain b2 where b2: "evbuffer_drain b1 n = Some (0, b2)" "eb_ok b2" "contents b2 = drop n (contents b1)"
      using evbuffer_drain_ok [OF b1(2), of n] assms(3) b1(3) by (auto simp: same_setup_def)
    have "evbuffer_readln A b eol_style = Some (Some (take k (contents b) @ [0]), k, b2)"
      using it(1) p b1(1) b2(1) assms(3,4) by (simp add: evbuffer_readln_def evbuffer_search_eol_def Let_def)
    then show ?thesis using Some e b2(2,3) b1(4) by (simp add: add.commute)
  qed
qed

lemma evbuffer_readln_correct_witness:
  "map_option (fst \<circ> snd) (evbuffer_readln (\<lambda>_. True) (two_chains [65, 13] [10, 66]) EVBUFFER_EOL_CRLF) = Some 1
    \<and> evbuffer_readln (\<lambda>_. True) (two_chains [65, 13] [66, 67]) EVBUFFER_EOL_CRLF = Some (None, 0, two_chains [65, 13] [66, 67])"
proof -
  have ok: "eb_ok (two_chains [65, 13] [10, 66])" "int (evbuffer_get_length (two_chains [65, 13] [10, 66])) \<le> EVBUFFER_CHAIN_MAX"
    "\<not> freeze_start (two_chains [65, 13] [10, 66])" "line_end EVBUFFER_EOL_CRLF (contents (two_chains [65, 13] [10, 66])) = Some (1, 2)" by code_simp+
  have ok': "eb_ok (two_chains [65, 13] [66, 67])" "int (evbuffer_get_length (two_chains [65, 13] [66, 67])) \<le> EVBUFFER_CHAIN_MAX"
    "\<not> freeze_start (two_chains [65, 13] [66, 67])" "line_end EVBUFFER_EOL_CRLF (contents (two_chains [65, 13] [66, 67])) = None" by code_simp+
  show ?thesis using evbuffer_readln_correct [OF ok(1-3), of "\<lambda>_. True" EVBUFFER_EOL_CRLF] evbuffer_readln_correct [OF ok'(1-3), of "\<lambda>_. True" EVBUFFER_EOL_CRLF]
    ok(4) ok'(4) by auto
qed

end
