(* ===== verification/EvBufferIO.thy ===== *)
theory EvBufferIO
  imports EvSearch
begin

text \<open>
  Reading into a byte queue from a descriptor and writing from it, \<^verbatim>\<open>src/libevent/buffer.c\<close>, as built for a system with \<^verbatim>\<open>readv\<close> and
  \<^verbatim>\<open>writev\<close>. What the system calls do is a parameter: the number of bytes that \<^verbatim>\<open>ioctl\<close> says are there (or -1), the bytes \<^verbatim>\<open>readv\<close>
  would deliver if it had space for them (\<open>None\<close> for an error), and how many bytes \<^verbatim>\<open>writev\<close> takes.
\<close>

definition EVBUFFER_MAX_READ :: nat where "EVBUFFER_MAX_READ = 4096"
definition NUM_READ_IOVEC :: nat where "NUM_READ_IOVEC = 4"
definition NUM_WRITE_IOVEC :: nat where "NUM_WRITE_IOVEC = 128"

text \<open>\<^verbatim>\<open>readv\<close> stores the bytes in the extents one after the other.\<close>

fun readv :: "evbuffer \<Rightarrow> evbuffer_iovec list \<Rightarrow> u8 list \<Rightarrow> evbuffer option" where
  "readv b [] data = Some b"
| "readv b (v # vs) data = do { b \<leftarrow> iov_write b v (take (iov_len v) data); readv b vs (drop (iov_len v) data) }"

text \<open>The loop of \<^verbatim>\<open>evbuffer_read\<close> that counts the bytes to the chains; \<open>p\<close> is \<^verbatim>\<open>chainp\<close>.\<close>

fun read_commit :: "nat option \<Rightarrow> nat option \<Rightarrow> nat \<Rightarrow> nat \<Rightarrow> evbuffer_chain list \<Rightarrow> (evbuffer_chain list \<times> nat option) option" where
  "read_commit lwdp p 0 remaining cs = Some (cs, lwdp)"
| "read_commit lwdp p (Suc n) remaining [] = None"
| "read_commit lwdp p (Suc n) remaining (c # cs) =
     (let space = CHAIN_SPACE_LEN c;
          space = (if int space > EVBUFFER_CHAIN_MAX then nat EVBUFFER_CHAIN_MAX else space)
      in if space < remaining
         then do { (cs, lwdp) \<leftarrow> read_commit lwdp (Some (ch_id c)) n (remaining - space) cs; Some (c\<lparr>off := off c + space\<rparr> # cs, lwdp) }
         else Some (c\<lparr>off := off c + remaining\<rparr> # cs, p))"

text \<open>How many bytes to read, from what the caller and \<^verbatim>\<open>ioctl\<close> say.\<close>

definition read_size :: "int \<Rightarrow> int \<Rightarrow> int" where
  "read_size ready howmuch =
     (let n = (if ready \<le> 0 \<or> ready > int EVBUFFER_MAX_READ then int EVBUFFER_MAX_READ else ready)
      in if howmuch < 0 \<or> howmuch > n then n else howmuch)"

definition evbuffer_read :: "allocator \<Rightarrow> nat \<Rightarrow> evbuffer \<Rightarrow> int \<Rightarrow> u8 list option \<Rightarrow> int \<Rightarrow> (int \<times> evbuffer) option" where
  "evbuffer_read A a b ready incoming howmuch =
     (if freeze_end b then Some (- 1, b)
      else do {
        let howmuch = read_size ready howmuch;
        (r, b) \<leftarrow> evbuffer_expand_fast A a b (nat howmuch) NUM_READ_IOVEC;
        if r = - 1 then Some (- 1, b)
        else do {
          v \<leftarrow> evbuffer_read_setup_vecs b howmuch NUM_READ_IOVEC True;
          vecs \<leftarrow> v;
          case incoming of
            None \<Rightarrow> Some (- 1, b)
          | Some input \<Rightarrow> do {
              let data = take (sum_list (map iov_len vecs)) input;
              if data = [] then Some (0, b)
              else do {
                b \<leftarrow> readv b vecs data;
                (p, cs) \<leftarrow> first_space b;
                (cs, lwdp) \<leftarrow> read_commit (last_with_datap b) p (length vecs) (length data) cs;
                cs \<leftarrow> set_rest (eb_chains b) p cs;
                Some (int (length data), evbuffer_invoke_callbacks (add_len (b\<lparr>eb_chains := cs, last_with_datap := lwdp\<rparr>) (length data))) } } } })"

text \<open>The bytes that \<^verbatim>\<open>evbuffer_write_iovec\<close> offers to \<^verbatim>\<open>writev\<close>, in at most \<open>n\<close> extents.\<close>

fun write_vecs :: "nat \<Rightarrow> nat \<Rightarrow> evbuffer_chain list \<Rightarrow> u8 list option" where
  "write_vecs 0 howmuch cs = Some []"
| "write_vecs (Suc n) howmuch [] = Some []"
| "write_vecs (Suc n) howmuch (c # cs) =
     (if howmuch = 0 then Some []
      else if howmuch \<ge> off c then do { x \<leftarrow> chain_bytes c (off c); y \<leftarrow> write_vecs n (howmuch - off c) cs; Some (x @ y) }
      else chain_bytes c howmuch)"

text \<open>\<^verbatim>\<open>evbuffer_write_atmost\<close> on a buffer without chains for files; \<open>writev\<close> gives the result of the system call on the bytes it is
  offered. The result, the bytes that were taken, and the buffer.\<close>

definition evbuffer_write_atmost :: "evbuffer \<Rightarrow> (u8 list \<Rightarrow> int) \<Rightarrow> int \<Rightarrow> (int \<times> u8 list \<times> evbuffer) option" where
  "evbuffer_write_atmost b writev howmuch =
     (if freeze_start b then Some (- 1, [], b)
      else do {
        let howmuch = (if howmuch < 0 \<or> howmuch > int (total_len b) then total_len b else nat howmuch);
        (n, out) \<leftarrow> (if howmuch > 0
                     then do { x \<leftarrow> write_vecs NUM_WRITE_IOVEC howmuch (eb_chains b); Some (writev x, take (nat (writev x)) x) }
                     else Some (- 1, []));
        (r, b) \<leftarrow> (if n > 0 then evbuffer_drain b (nat n) else Some (0, b));
        Some (n, out, b) })"

definition evbuffer_write :: "evbuffer \<Rightarrow> (u8 list \<Rightarrow> int) \<Rightarrow> (int \<times> u8 list \<times> evbuffer) option" where
  "evbuffer_write b writev = evbuffer_write_atmost b writev (- 1)"

text \<open>\<^verbatim>\<open>evbuffer_peek\<close> without a start: the number of extents, and those that are stored, at most \<open>n_vec\<close>.\<close>

fun peek_loop :: "int \<Rightarrow> nat \<Rightarrow> nat \<Rightarrow> nat \<Rightarrow> evbuffer_chain list \<Rightarrow> nat \<times> evbuffer_iovec list" where
  "peek_loop len n_vec idx len_so_far [] = (idx, [])"
| "peek_loop len n_vec idx len_so_far (c # cs) =
     (if len \<ge> 0 \<and> int len_so_far \<ge> len then (idx, [])
      else if idx \<ge> n_vec \<and> len < 0 then (idx, [])
      else let (n, vs) = peek_loop len n_vec (idx + 1) (len_so_far + off c) cs
        in (n, if idx < n_vec then \<lparr>iov_chain = ch_id c, iov_off = misalign c, iov_len = off c\<rparr> # vs else vs))"

definition evbuffer_peek :: "evbuffer \<Rightarrow> int \<Rightarrow> evbuffer_ptr option \<Rightarrow> nat \<Rightarrow> (nat \<times> evbuffer_iovec list) option" where
  "evbuffer_peek b len start_at n_vec =
     (case start_at of
        None \<Rightarrow> Some (peek_loop (if n_vec = 0 \<and> len < 0 then int (total_len b) else len) n_vec 0 0 (eb_chains b))
      | Some p \<Rightarrow> do {
          cs \<leftarrow> chains_from b (p_chain p);
          case cs of
            [] \<Rightarrow> None
          | c # cs \<Rightarrow>
              if p_in p > off c then None
              else let (n, vs) = peek_loop (if n_vec = 0 \<and> len < 0 then int (total_len b) - p_pos p else len) n_vec 1 (off c - p_in p) cs
                in Some (n, if n_vec > 0 then \<lparr>iov_chain = ch_id c, iov_off = misalign c + p_in p, iov_len = off c - p_in p\<rparr> # vs else vs) })"

section \<open>Printing\<close>

text \<open>\<^verbatim>\<open>evbuffer_add_vprintf\<close>: \<open>text\<close> is what \<^verbatim>\<open>vsnprintf\<close> formats (\<open>None\<close> for an error). It writes as much of it as there is space for,
  with a final zero (\<^verbatim>\<open>evutil_vsnprintf\<close> returns 0 without space); a second round with enough space is always the last.\<close>

definition vsnprintf_into :: "evbuffer_chain \<Rightarrow> u8 list \<Rightarrow> evbuffer_chain option" where
  "vsnprintf_into c text =
     (if CHAIN_SPACE_LEN c = 0 then Some c
      else chain_put c (misalign c + off c) (take (CHAIN_SPACE_LEN c - 1) text @ [0]))"

fun vprintf_rounds :: "nat \<Rightarrow> allocator \<Rightarrow> nat \<Rightarrow> evbuffer \<Rightarrow> nat \<Rightarrow> u8 list option \<Rightarrow> (int \<times> evbuffer) option" where
  "vprintf_rounds 0 A a b i text = None"
| "vprintf_rounds (Suc k) A a b i text = do {
     chain \<leftarrow> chain_at (eb_chains b) i;
     case text of
       None \<Rightarrow> Some (- 1, b)
     | Some t \<Rightarrow> do {
         c \<leftarrow> vsnprintf_into chain t;
         let sz = (if CHAIN_SPACE_LEN chain = 0 then 0 else length t);
         if sz < CHAIN_SPACE_LEN chain
         then do {
           b \<leftarrow> advance_last_with_data (add_len (b\<lparr>eb_chains := put_chain (eb_chains b) (c\<lparr>off := off c + sz\<rparr>)\<rparr>) sz);
           Some (int sz, evbuffer_invoke_callbacks b) }
         else do {
           (x, b) \<leftarrow> evbuffer_expand_singlechain A a (b\<lparr>eb_chains := put_chain (eb_chains b) c\<rparr>) (sz + 1);
           case x of None \<Rightarrow> Some (- 1, b) | Some i \<Rightarrow> vprintf_rounds k A (Suc a) b i text } } }"

definition evbuffer_add_vprintf :: "allocator \<Rightarrow> nat \<Rightarrow> evbuffer \<Rightarrow> u8 list option \<Rightarrow> (int \<times> evbuffer) option" where
  "evbuffer_add_vprintf A a b text =
     (if freeze_end b then Some (- 1, b)
      else do {
        (x, b) \<leftarrow> evbuffer_expand_singlechain A a b 64;
        case x of None \<Rightarrow> Some (- 1, b) | Some i \<Rightarrow> vprintf_rounds 2 A (Suc a) b i text })"

section \<open>Callbacks\<close>

definition evbuffer_remove_all_callbacks :: "evbuffer \<Rightarrow> evbuffer" where
  "evbuffer_remove_all_callbacks b = b\<lparr>eb_callbacks := []\<rparr>"

text \<open>\<^verbatim>\<open>evbuffer_setcb\<close> uses the new entry without looking whether there was memory for it.\<close>

definition evbuffer_setcb :: "allocator \<Rightarrow> evbuffer \<Rightarrow> nat option \<Rightarrow> evbuffer option" where
  "evbuffer_setcb A b cb =
     (let b = evbuffer_remove_all_callbacks b
      in case cb of
           None \<Rightarrow> Some b
         | Some cb \<Rightarrow> (case evbuffer_add_cb A b cb of (None, b) \<Rightarrow> None | (Some e, b) \<Rightarrow> Some b))"

fun remove_first :: "nat \<Rightarrow> (nat \<times> bool) list \<Rightarrow> (nat \<times> bool) list option" where
  "remove_first cb [] = None"
| "remove_first cb (e # es) = (if fst e = cb then Some es else map_option ((#) e) (remove_first cb es))"

definition evbuffer_remove_cb :: "evbuffer \<Rightarrow> nat \<Rightarrow> int \<times> evbuffer" where
  "evbuffer_remove_cb b cb = (case remove_first cb (eb_callbacks b) of None \<Rightarrow> (- 1, b) | Some es \<Rightarrow> (0, b\<lparr>eb_callbacks := es\<rparr>))"

text \<open>The entry \<open>i\<close>; of the flags only \<^verbatim>\<open>EVBUFFER_CB_ENABLED\<close> matters without deferred callbacks.\<close>

definition evbuffer_cb_set_flags :: "evbuffer \<Rightarrow> nat \<Rightarrow> bool \<Rightarrow> evbuffer option" where
  "evbuffer_cb_set_flags b i enabled = do {
     e \<leftarrow> peek (eb_callbacks b) i;
     Some (b\<lparr>eb_callbacks := (eb_callbacks b)[i := (fst e, snd e \<or> enabled)]\<rparr>) }"

definition evbuffer_cb_clear_flags :: "evbuffer \<Rightarrow> nat \<Rightarrow> bool \<Rightarrow> evbuffer option" where
  "evbuffer_cb_clear_flags b i enabled = do {
     e \<leftarrow> peek (eb_callbacks b) i;
     Some (b\<lparr>eb_callbacks := (eb_callbacks b)[i := (fst e, snd e \<and> \<not> enabled)]\<rparr>) }"

end
