(* ===== verification/EvInput.thy ===== *)
theory EvInput
  imports EvSearchProps EvBufferIO
begin

text \<open>
  Byte queues that are filled by \<^verbatim>\<open>evbuffer_read\<close>: reading leaves spare chains at the end, and \<^verbatim>\<open>last_with_datap\<close> keeps track of the
  last chain with data. Sequences of reads, drains, removals, copies, searches and reads of lines refine the same on the
  stream of the bytes that arrived.
\<close>

section \<open>Buffers with spare chains\<close>

text \<open>The chains with data are \<open>ds\<close>, behind them are the spare chains \<open>es\<close>.\<close>

definition parts :: "evbuffer \<Rightarrow> evbuffer_chain list \<Rightarrow> evbuffer_chain list \<Rightarrow> bool" where
  "parts b ds es \<longleftrightarrow> eb_chains b = ds @ es \<and> (\<forall>c \<in> set (ds @ es). chain_ok c) \<and> distinct (map ch_id (ds @ es)) \<and> eb_last b = last_of (ds @ es)
     \<and> last_with_datap b = lwdp_of ds \<and> total_len b = length (bytes_of ds) \<and> (\<forall>c \<in> set ds. off c \<noteq> 0) \<and> (\<forall>c \<in> set es. off c = 0 \<and> CHAIN_SPACE_LEN c \<noteq> 0)"

definition in_ok :: "evbuffer \<Rightarrow> bool" where
  "in_ok b \<longleftrightarrow> (\<exists>ds es. parts b ds es)"

lemma bytes_empty: "\<forall>c \<in> set es. off c = 0 \<Longrightarrow> bytes_of es = []"
  by simp

lemma parts_contents: "parts b ds es \<Longrightarrow> contents b = bytes_of ds"
  using bytes_empty [of es] by (simp add: parts_def contents_def)

lemma parts_wf: "parts b ds es \<Longrightarrow> eb_wf b"
  using parts_contents [of b ds es] by (simp add: parts_def eb_wf_def)

lemma in_ok_wf: "in_ok b \<Longrightarrow> eb_wf b"
  using parts_wf by (auto simp: in_ok_def)

lemma eb_ok_in_ok:
  assumes ok: "eb_ok b" and space: "\<forall>c \<in> set (eb_chains b). off c = 0 \<longrightarrow> CHAIN_SPACE_LEN c \<noteq> 0"
  shows "in_ok b"
proof (cases "\<forall>c \<in> set (eb_chains b). off c \<noteq> 0")
  case True
  then have "parts b (eb_chains b) []" using ok by (simp add: parts_def eb_ok_def contents_def)
  then show ?thesis by (auto simp: in_ok_def)
next
  case False
  then have "\<not> length (eb_chains b) > 1" "eb_chains b \<noteq> []" using ok by (auto simp: eb_ok_def)
  then obtain c where c: "eb_chains b = [c]" by (cases "eb_chains b") auto
  then have "parts b [] [c]" using ok False space by (simp add: parts_def eb_ok_def contents_def)
  then show ?thesis by (auto simp: in_ok_def)
qed

lemma rest_last:
  assumes "distinct (map ch_id (xs @ ys))"
  shows "rest_at (xs @ ys) (last_of xs) = Some ys" "set_rest (xs @ ys) (last_of xs) r = Some (xs @ r)"
proof -
  have "rest_at (xs @ ys) (last_of xs) = Some ys \<and> set_rest (xs @ ys) (last_of xs) r = Some (xs @ r)"
  proof (cases xs rule: rev_cases)
    case Nil
    then show ?thesis by (simp add: rest_at_def set_rest_def)
  next
    case (snoc zs z)
    then show ?thesis using rest_split(1) [of zs z ys] rest_split(2) [of zs z ys r] assms by simp
  qed
  then show "rest_at (xs @ ys) (last_of xs) = Some ys" "set_rest (xs @ ys) (last_of xs) r = Some (xs @ r)" by simp_all
qed

section \<open>Draining\<close>

lemma drain_loop_in:
  assumes "distinct (map ch_id (ps @ cs @ es))" "\<forall>c \<in> set cs. chain_ok c" "n < length (bytes_of cs)"
  shows "\<exists>ms c rest k. cs = ms @ c # rest \<and> drain_loop (ps @ cs @ es) n (lwdp_of cs) (cs @ es) = Some (k, lwdp_of (c # rest), c # rest @ es)
    \<and> n = length (bytes_of ms) + k \<and> k < off c"
  using assms
proof (induction cs arbitrary: ps n)
  case (Cons c cs)
  have c: "chain_ok c" using Cons.prems by simp
  show ?case
  proof (cases "off c \<le> n")
    case True
    have n: "n - off c < length (bytes_of cs)" using Cons.prems(3) True cdata_len [OF c] by simp
    obtain zs z where z: "cs = zs @ [z]" using n by (cases cs rule: rev_cases) auto
    have dd: "distinct (map ch_id ((ps @ [c]) @ cs @ es))" "\<forall>c \<in> set cs. chain_ok c" using Cons.prems by simp_all
    obtain ms e rest k where ih: "cs = ms @ e # rest" "drain_loop ((ps @ [c]) @ cs @ es) (n - off c) (lwdp_of cs) (cs @ es) = Some (k, lwdp_of (e # rest), e # rest @ es)"
      "n - off c = length (bytes_of ms) + k" "k < off e" using Cons.IH [OF dd n] by blast
    have "distinct (map ch_id ((ps @ c # zs) @ (z # es)))" using Cons.prems(1) z by simp
    from rest_last(1) [OF this] have r: "rest_at (ps @ (c # cs) @ es) (lwdp_of (c # cs)) = Some (z # es)"
      using last_snoc(2) [of "c # zs" z] z by (simp add: last_of_def)
    have zc: "ch_id z \<noteq> ch_id c" using Cons.prems(1) z by auto
    obtain d ds where cs: "cs = d # ds" using z by (metis append_is_Nil_conv list.exhaust list.distinct(1))
    have "distinct (map ch_id (c # d # ds))" using Cons.prems(1) cs by simp
    note l = lwdp_tail [OF this, folded cs]
    have "drain_loop (ps @ (c # cs) @ es) n (lwdp_of (c # cs)) ((c # cs) @ es) = Some (k, lwdp_of (e # rest), e # rest @ es)"
      using True r l ih(2) zc by (simp add: first_id_def)
    moreover have "n = length (bytes_of (c # ms)) + k" using ih(3) True cdata_len [OF c] by simp
    ultimately show ?thesis using ih(1,4) by (intro exI [of _ "c # ms"] exI [of _ e] exI [of _ rest] exI [of _ k]) simp
  next
    case False
    then show ?thesis by (intro exI [of _ "[]"] exI [of _ c] exI [of _ cs] exI [of _ n]) simp
  qed
qed simp

lemma parts_setup: "parts (b\<lparr>n_del_for_cb := n\<rparr>) ds es = parts b ds es" "parts (b\<lparr>n_add_for_cb := n\<rparr>) ds es = parts b ds es"
  "parts (evbuffer_invoke_callbacks b) ds es = parts b ds es"
  by (simp_all add: parts_def evbuffer_invoke_callbacks_def evbuffer_run_callbacks_def Let_def)

lemma in_ok_setup [simp]: "in_ok (b\<lparr>n_del_for_cb := n\<rparr>) = in_ok b" "in_ok (b\<lparr>n_add_for_cb := n\<rparr>) = in_ok b" "in_ok (evbuffer_invoke_callbacks b) = in_ok b"
  by (simp_all add: in_ok_def parts_setup)

lemma zero_in_ok: "in_ok (ZERO_CHAIN b)"
  unfolding in_ok_def by (intro exI [of _ "[]"]) (simp add: parts_def ZERO_CHAIN_def)

lemma in_drain_ok:
  assumes "in_ok b"
  shows "\<exists>r b'. evbuffer_drain b n = Some (r, b') \<and> in_ok b' \<and> same_setup b b'
    \<and> (if freeze_start b \<and> contents b \<noteq> [] then r = - 1 \<and> b' = b else r = 0 \<and> contents b' = drop n (contents b))"
proof -
  obtain ds es where p: "parts b ds es" using assms by (auto simp: in_ok_def)
  have tot: "total_len b = length (contents b)" using p parts_contents [OF p] by (simp add: parts_def)
  consider "total_len b = 0" | "total_len b \<noteq> 0" "freeze_start b" | "total_len b \<noteq> 0" "\<not> freeze_start b" "total_len b \<le> n"
    | "total_len b \<noteq> 0" "\<not> freeze_start b" "n < total_len b" by linarith
  then show ?thesis
  proof cases
    case 3
    have "contents (ZERO_CHAIN b) = []" "same_setup b (ZERO_CHAIN b)" by (simp_all add: ZERO_CHAIN_def contents_def same_setup_def)
    then show ?thesis using 3 tot zero_in_ok [of b] by (simp add: evbuffer_drain_def same_setup_def)
  next
    case 4
    have d: "distinct (map ch_id ([] @ ds @ es))" "\<forall>c \<in> set ds. chain_ok c" "n < length (bytes_of ds)" using p 4(3) by (simp_all add: parts_def)
    obtain ms c rest k where l: "ds = ms @ c # rest" "drain_loop (ds @ es) n (lwdp_of ds) (ds @ es) = Some (k, lwdp_of (c # rest), c # rest @ es)"
      "n = length (bytes_of ms) + k" "k < off c" using drain_loop_in [OF d] by auto
    have c: "chain_ok c" using d(2) l(1) by simp
    note cut = cut_front_ok [OF c l(4)]
    let ?b = "b\<lparr>eb_chains := cut_front c k # rest @ es, last_with_datap := lwdp_of (c # rest), total_len := total_len b - n\<rparr>"
    have ct: "bytes_of (cut_front c k # rest) = drop n (bytes_of ds)" using cut(2) l(1,3,4) drop_concat [OF l(3), of c rest] cdata_len [OF c] by simp
    have "last_of (cut_front c k # rest @ es) = last_of ((ms @ c # rest) @ es)" using last_of_same(1) [of "cut_front c k" c "[]" "rest @ es"] by simp
    moreover have "lwdp_of (c # rest) = lwdp_of (cut_front c k # rest)" using last_of_same(2) [of "cut_front c k" c "[]" rest] by simp
    ultimately have "parts ?b (cut_front c k # rest) es"
      using p l(1,4) cut(1) ct parts_contents [OF p] tot unfolding parts_def by auto
    then have "in_ok ?b" "contents ?b = drop n (contents b)" using parts_contents ct parts_contents [OF p] by (auto simp: in_ok_def)
    moreover have "eb_chains b = ds @ es" "last_with_datap b = lwdp_of ds" using p by (simp_all add: parts_def)
    ultimately show ?thesis using 4 l(2) tot by (simp add: evbuffer_drain_def same_setup_def)
  qed (use assms tot in \<open>simp_all add: evbuffer_drain_def same_setup_def\<close>)
qed

lemma wf_copyout_ok:
  assumes "eb_wf b"
  shows "evbuffer_copyout b n = Some (if freeze_start b \<and> n \<noteq> 0 \<and> contents b \<noteq> [] then (- 1, [])
    else (int (min n (length (contents b))), take n (contents b)))"
proof -
  have tot: "total_len b = length (contents b)" and oks: "\<forall>c \<in> set (eb_chains b). chain_ok c" using assms by (simp_all add: eb_wf_def)
  have "copy_chains (min n (length (contents b))) (eb_chains b) = Some (take (min n (length (contents b))) (contents b))"
    using copy_chains_ok [OF oks, of "min n (length (contents b))"] by (simp add: contents_def)
  then show ?thesis using tot by (cases "n = 0 \<or> contents b = []") (auto simp: evbuffer_copyout_def Let_def min_def)
qed

lemma in_remove_ok:
  assumes "in_ok b"
  shows "\<exists>r b'. evbuffer_remove b n = Some (r, (if freeze_start b then [] else take n (contents b)), b') \<and> in_ok b' \<and> same_setup b b'
    \<and> (if freeze_start b then b' = b \<and> r = (if n \<noteq> 0 \<and> contents b \<noteq> [] then - 1 else 0)
       else r = as_int (int (min n (length (contents b)))) \<and> contents b' = drop n (contents b))"
proof -
  note c = wf_copyout_ok [OF in_ok_wf [OF assms], of n]
  let ?n = "min n (length (contents b))"
  show ?thesis
  proof (cases "freeze_start b")
    case True
    then show ?thesis using c assms by (auto simp: evbuffer_remove_def same_setup_def as_int_def)
  next
    case False
    show ?thesis
    proof (cases "?n = 0")
      case True
      then have "n = 0 \<or> contents b = []" by (auto simp: min_def split: if_splits)
      then have "drop n (contents b) = contents b" by auto
      then show ?thesis using True False c assms by (simp add: evbuffer_remove_def same_setup_def)
    next
      case pos: False
      obtain b' where "evbuffer_drain b ?n = Some (0, b')" "in_ok b'" "same_setup b b'" "contents b' = drop ?n (contents b)"
        using in_drain_ok [OF assms, of ?n] False by auto
      moreover have "drop ?n (contents b) = drop n (contents b)" by (simp add: min_def)
      ultimately show ?thesis using pos False c by (simp add: evbuffer_remove_def nat_int)
    qed
  qed
qed

section \<open>Making space\<close>

definition spaces :: "evbuffer_chain list \<Rightarrow> nat" where
  "spaces cs = sum_list (map CHAIN_SPACE_LEN cs)"

text \<open>The chains with space on them, and those before.\<close>

definition usable :: "evbuffer_chain list \<Rightarrow> evbuffer_chain list \<Rightarrow> evbuffer_chain list" where
  "usable ds es = (if ds = [] \<or> CHAIN_SPACE_LEN (last ds) = 0 then es else last ds # es)"

definition before :: "evbuffer_chain list \<Rightarrow> evbuffer_chain list" where
  "before ds = (if ds = [] \<or> CHAIN_SPACE_LEN (last ds) = 0 then ds else butlast ds)"

definition room :: "nat \<Rightarrow> nat \<Rightarrow> evbuffer_chain list \<Rightarrow> evbuffer_chain list \<Rightarrow> bool" where
  "room n datlen ds es \<longleftrightarrow> (\<exists>k \<le> n. datlen \<le> spaces (take k (usable ds es))) \<and> (ds = [] \<longrightarrow> es \<noteq> [] \<and> CHAIN_SPACE_LEN (hd es) \<noteq> 0)"

lemma before_usable: "before ds @ usable ds es = ds @ es"
  by (simp add: before_def usable_def)

lemma rest_parts:
  assumes "parts b ds es"
  shows "rest_at (eb_chains b) (last_with_datap b) = Some (if ds = [] then es else last ds # es)"
    "set_rest (eb_chains b) (last_with_datap b) r = Some (butlast ds @ r)"
proof -
  have "ds @ es = butlast ds @ (if ds = [] then es else last ds # es)" by simp
  moreover have "distinct (map ch_id (butlast ds @ (if ds = [] then es else last ds # es)))" using assms unfolding calculation [symmetric] by (simp add: parts_def)
  ultimately show "rest_at (eb_chains b) (last_with_datap b) = Some (if ds = [] then es else last ds # es)"
    "set_rest (eb_chains b) (last_with_datap b) r = Some (butlast ds @ r)"
    using rest_last [of "butlast ds" "if ds = [] then es else last ds # es"] assms by (simp_all add: parts_def lwdp_of_def)
qed

lemma first_space_ok:
  assumes "parts b ds es" "ds = [] \<longrightarrow> es \<noteq> [] \<and> CHAIN_SPACE_LEN (hd es) \<noteq> 0"
  shows "first_space b = Some (last_of (before ds), usable ds es)"
proof (cases ds rule: rev_cases)
  case Nil
  then show ?thesis using rest_parts(1) [OF assms(1)] assms by (cases es) (simp_all add: first_space_def usable_def before_def parts_def)
next
  case (snoc xs c)
  then show ?thesis using rest_parts(1) [OF assms(1)] assms(1) by (simp add: first_space_def usable_def before_def parts_def)
qed

text \<open>Spare chains of which some were realigned.\<close>

definition realigned :: "evbuffer_chain list \<Rightarrow> evbuffer_chain list \<Rightarrow> bool" where
  "realigned es es' \<longleftrightarrow> list_all2 (\<lambda>c c'. c' = c \<or> c' = c\<lparr>misalign := 0\<rparr>) es es'"

lemma realigned_ok:
  assumes "realigned es es'" "\<forall>c \<in> set es. chain_ok c \<and> off c = 0 \<and> CHAIN_SPACE_LEN c \<noteq> 0"
  shows "\<forall>c \<in> set es'. chain_ok c \<and> off c = 0 \<and> CHAIN_SPACE_LEN c \<noteq> 0" "map ch_id es' = map ch_id es" "length es' = length es"
proof -
  let ?R = "\<lambda>c c'. c' = c \<or> c' = c\<lparr>misalign := 0\<rparr>"
  let ?P = "\<lambda>c. chain_ok c \<and> off c = 0 \<and> CHAIN_SPACE_LEN c \<noteq> 0"
  have one: "?P c' \<and> ch_id c' = ch_id c" if "?R c c'" "?P c" for c c'
    using that(1)
  proof
    assume "c' = c\<lparr>misalign := 0\<rparr>"
    then show ?thesis using that(2) by (auto simp: chain_ok_def CHAIN_SPACE_LEN_def)
  qed (use that(2) in simp)
  have "list_all2 ?R es es'" using assms(1) by (simp add: realigned_def)
  then have m: "(\<forall>c \<in> set es'. ?P c) \<and> map ch_id es' = map ch_id es" using assms(2)
  proof (induction rule: list_all2_induct)
    case (Cons c cs c' cs')
    have "?P c" "\<forall>c \<in> set cs. ?P c" using Cons(4) by simp_all
    from one [OF Cons(1) this(1)] Cons(3) [OF this(2)] show ?case by (metis list.simps(9) set_ConsD)
  qed simp
  show "\<forall>c \<in> set es'. ?P c" "map ch_id es' = map ch_id es" by (rule conjunct1 [OF m], rule conjunct2 [OF m])
  show "length es' = length es" using map_eq_imp_length_eq [OF conjunct2 [OF m]] .
qed

lemma last_of_map: "map ch_id xs = map ch_id ys \<Longrightarrow> last_of xs = last_of ys"
  unfolding last_of_def by (metis last_map map_is_Nil_conv)

lemma avail_loop_spare:
  assumes "\<forall>c \<in> set es. chain_ok c \<and> off c = 0" "used < n" "avail < datlen \<or> es \<noteq> []"
  shows "\<exists>es' enough av us. avail_loop lwd datlen n avail used es = Some (es', enough, av, us) \<and> realigned es es'
    \<and> (es \<noteq> [] \<longrightarrow> CHAIN_SPACE_LEN (hd es') \<noteq> 0)
    \<and> (if enough then \<exists>k \<le> n - used. datlen \<le> avail + spaces (take k es')
       else av < datlen \<and> us \<le> n \<and> (us < n \<longrightarrow> us = used + length es \<and> av = avail + spaces es'))"
  using assms
proof (induction es arbitrary: avail used)
  case Nil
  then show ?case by (auto simp: realigned_def spaces_def)
next
  case (Cons c es)
  have c: "off c = 0" "\<not> ch_immutable c" "0 < buffer_len c" using Cons.prems(1) by (auto simp: chain_ok_def)
  let ?c = "c\<lparr>misalign := 0\<rparr>"
  have sp: "CHAIN_SPACE_LEN ?c = buffer_len c" using c by (simp add: CHAIN_SPACE_LEN_def)
  have hd: "CHAIN_SPACE_LEN (hd (?c # xs)) \<noteq> 0" for xs using sp c(3) by simp
  have same: "realigned (c # es) (?c # es)" by (simp add: realigned_def list_all2_same)
  have goal: ?case if "avail_loop lwd datlen n avail used (c # es) = Some (?c # xs, enough, av, us)" "realigned (c # es) (?c # xs)"
    "if enough then \<exists>k \<le> n - used. datlen \<le> avail + spaces (take k (?c # xs))
       else av < datlen \<and> us \<le> n \<and> (us < n \<longrightarrow> us = used + length (c # es) \<and> av = avail + spaces (?c # xs))" for xs enough av us
    using that hd [of xs] by blast
  consider "datlen \<le> avail + buffer_len c" | "avail + buffer_len c < datlen" "used + 1 = n" | "avail + buffer_len c < datlen" "used + 1 < n"
    using Cons.prems(2) by linarith
  then show ?case
  proof cases
    case 1
    have e: "avail_loop lwd datlen n avail used (c # es) = Some (?c # es, True, avail + buffer_len c, used + 1)" using 1 c by simp
    have "1 \<le> n - used" "datlen \<le> avail + spaces (take 1 (?c # es))" using 1 sp Cons.prems(2) by (simp_all add: spaces_def)
    then have k: "\<exists>k \<le> n - used. datlen \<le> avail + spaces (take k (?c # es))" by blast
    show ?thesis by (rule goal [OF e same]) (simp only: if_True k)
  next
    case 2
    have e: "avail_loop lwd datlen n avail used (c # es) = Some (?c # es, False, avail + buffer_len c, used + 1)"
      using 2(1) c unfolding 2(2) [symmetric] by simp
    show ?thesis by (rule goal [OF e same]) (use 2 in simp)
  next
    case 3
    obtain es' enough av us where ih: "avail_loop lwd datlen n (avail + buffer_len c) (used + 1) es = Some (es', enough, av, us)" "realigned es es'"
      "if enough then \<exists>k \<le> n - (used + 1). datlen \<le> (avail + buffer_len c) + spaces (take k es')
       else av < datlen \<and> us \<le> n \<and> (us < n \<longrightarrow> us = (used + 1) + length es \<and> av = (avail + buffer_len c) + spaces es')"
      using Cons.IH [of "used + 1" "avail + buffer_len c"] Cons.prems(1) 3 by auto
    have eq: "avail_loop lwd datlen n avail used (c # es) = Some (?c # es', enough, av, us)" using 3 c ih(1) by simp
    have r: "realigned (c # es) (?c # es')" using ih(2) by (simp add: realigned_def)
    have "if enough then \<exists>k \<le> n - used. datlen \<le> avail + spaces (take k (?c # es'))
       else av < datlen \<and> us \<le> n \<and> (us < n \<longrightarrow> us = used + length (c # es) \<and> av = avail + spaces (?c # es'))"
    proof (cases enough)
      case True
      then obtain k where k: "k \<le> n - (used + 1)" "datlen \<le> (avail + buffer_len c) + spaces (take k es')" using ih(3) by auto
      then have "Suc k \<le> n - used" "datlen \<le> avail + spaces (take (Suc k) (?c # es'))" using 3 sp by (simp_all add: spaces_def)
      then show ?thesis using True by (simp only: if_True) blast
    next
      case False
      then show ?thesis using ih(3) sp by (simp add: spaces_def)
    qed
    then show ?thesis by (rule goal [OF eq r])
  qed
qed

lemma with_spare:
  assumes "parts b ds es" "\<forall>c \<in> set es'. chain_ok c \<and> off c = 0 \<and> CHAIN_SPACE_LEN c \<noteq> 0" "distinct (map ch_id (ds @ es'))" "eb_chains b' = ds @ es'"
    "eb_last b' = last_of (ds @ es')" "last_with_datap b' = last_with_datap b" "total_len b' = total_len b"
  shows "parts b' ds es'"
  using assms unfolding parts_def by auto

lemma new_space: "evbuffer_chain_new A a n = Some c \<Longrightarrow> n \<le> CHAIN_SPACE_LEN c \<and> CHAIN_SPACE_LEN c \<noteq> 0 \<and> chain_ok c \<and> off c = 0 \<and> ch_id c = a"
  using chain_new_ok [of A a n c] by (auto simp: CHAIN_SPACE_LEN_def chain_ok_def)

lemma room_one: "datlen \<le> CHAIN_SPACE_LEN c \<Longrightarrow> CHAIN_SPACE_LEN c \<noteq> 0 \<Longrightarrow> ds = [] \<or> CHAIN_SPACE_LEN (last ds) = 0 \<Longrightarrow> 1 \<le> n \<Longrightarrow> room n datlen ds [c]"
  unfolding room_def usable_def by (auto simp: spaces_def intro!: exI [of _ 1])

definition expanded :: "allocator \<Rightarrow> nat \<Rightarrow> nat \<Rightarrow> evbuffer \<Rightarrow> evbuffer_chain list \<Rightarrow> (int \<times> evbuffer) option \<Rightarrow> bool" where
  "expanded A n datlen b ds x \<longleftrightarrow> (\<exists>r b'. x = Some (r, b') \<and> same_setup b b' \<and> contents b' = contents b
     \<and> (r = - 1 \<and> in_ok b' \<and> (\<exists>a. \<exists>k \<le> datlen. evbuffer_chain_new A a k = None) \<or> r = 0 \<and> (\<exists>es'. parts b' ds es' \<and> room n datlen ds es')))"

lemma expandedI:
  assumes "parts b ds es" "parts b' ds es'" "room n datlen ds es'" "same_setup b b'"
  shows "expanded A n datlen b ds (Some (0, b'))"
  unfolding expanded_def using assms parts_contents [OF assms(1)] parts_contents [OF assms(2)] by auto

lemma expanded_failed:
  assumes "evbuffer_chain_new A a k = None" "k \<le> datlen" "parts b ds es" "parts b' ds es'" "same_setup b b'"
  shows "expanded A n datlen b ds (Some (- 1, b'))"
proof -
  have "contents b' = contents b" "in_ok b'" using parts_contents [OF assms(3)] parts_contents [OF assms(4)] assms(4) by (auto simp: in_ok_def)
  then show ?thesis unfolding expanded_def using assms(1,2,5) by blast
qed

text \<open>A new chain behind the chains with data.\<close>

lemma insert_spare:
  assumes "parts b ds []" "a \<notin> ch_id ` set (eb_chains b)" "ds = [] \<or> CHAIN_SPACE_LEN (last ds) = 0" "1 \<le> n"
  shows "expanded A n datlen b ds (do { (x, b) \<leftarrow> evbuffer_chain_insert_new A a b datlen; Some (if x = None then - 1 else 0, b) })"
proof (cases "evbuffer_chain_new A a datlen")
  case None
  then show ?thesis using expanded_failed [OF None _ assms(1,1)] by (simp add: evbuffer_chain_insert_new_def same_setup_def)
next
  case (Some c)
  note c = new_space [OF Some]
  have p: "eb_chains b = ds" "distinct (map ch_id ds)" "eb_last b = last_of ds" "last_with_datap b = lwdp_of ds" "\<forall>c \<in> set ds. off c \<noteq> 0"
    using assms(1) by (simp_all add: parts_def)
  let ?b = "b\<lparr>eb_chains := ds @ [c], eb_last := Some (ch_id c)\<rparr>"
  have "evbuffer_chain_insert b c = Some ?b"
  proof (cases ds rule: rev_cases)
    case Nil
    then show ?thesis using p c by (simp add: evbuffer_chain_insert_def rest_at_def)
  next
    case (snoc xs z)
    have r: "rest_at (xs @ [z]) (lwdp_of (xs @ [z])) = Some [z]" using rest_parts(1) [OF assms(1)] p snoc by simp
    have e: "rest_at (xs @ [z]) (Some (ch_id z)) = Some []" "set_rest (xs @ [z]) (Some (ch_id z)) [c] = Some (xs @ [z, c])"
      using rest_split [of xs z "[]"] p(2) snoc by simp_all
    show ?thesis using p c snoc r e by (simp add: evbuffer_chain_insert_def)
  qed
  then have eq: "do { (x, b) \<leftarrow> evbuffer_chain_insert_new A a b datlen; Some (if x = None then - 1 else 0, b) } = Some (0, ?b)"
    using Some by (simp add: evbuffer_chain_insert_new_def)
  have "parts ?b ds [c]" by (rule with_spare [OF assms(1)]) (use c assms(2) p in auto)
  then show ?thesis unfolding eq using assms(3,4) c room_one [of datlen c ds n] by (intro expandedI [OF assms(1)]) (auto simp: same_setup_def)
qed

lemma spaces_simps [simp]: "spaces [] = 0" "spaces (c # cs) = CHAIN_SPACE_LEN c + spaces cs" "spaces (xs @ ys) = spaces xs + spaces ys"
  by (simp_all add: spaces_def)

lemma room_append:
  assumes "datlen \<le> spaces es + (if ds = [] then 0 else CHAIN_SPACE_LEN (last ds)) + CHAIN_SPACE_LEN c" "CHAIN_SPACE_LEN c \<noteq> 0"
    "length es + (if ds = [] \<or> CHAIN_SPACE_LEN (last ds) = 0 then 0 else 1) < n" "ds = [] \<and> es \<noteq> [] \<longrightarrow> CHAIN_SPACE_LEN (hd es) \<noteq> 0"
  shows "room n datlen ds (es @ [c])"
proof -
  have "length (usable ds (es @ [c])) \<le> n" using assms(3) by (auto simp: usable_def split: if_splits)
  moreover have "datlen \<le> spaces (usable ds (es @ [c]))" using assms(1) by (auto simp: usable_def split: if_splits)
  ultimately have "\<exists>k \<le> n. datlen \<le> spaces (take k (usable ds (es @ [c])))" by (metis take_all order_refl)
  then show ?thesis using assms(2,4) by (auto simp: room_def hd_append)
qed

lemma room_some:
  assumes "k \<le> n - u" "datlen \<le> (if ds = [] then 0 else CHAIN_SPACE_LEN (last ds)) + spaces (take k es)"
    "u = (if ds = [] \<or> CHAIN_SPACE_LEN (last ds) = 0 then 0 else 1)" "u < n" "ds = [] \<longrightarrow> es \<noteq> [] \<and> CHAIN_SPACE_LEN (hd es) \<noteq> 0"
  shows "room n datlen ds es"
proof (cases "u = 0")
  case True
  then have "datlen \<le> spaces (take k (usable ds es))" using assms(2,3) by (auto simp: usable_def split: if_splits)
  then show ?thesis using True assms(1,5) by (auto simp: room_def)
next
  case False
  then have "datlen \<le> spaces (take (Suc k) (usable ds es))" "Suc k \<le> n" using assms by (auto simp: usable_def split: if_splits)
  then show ?thesis using assms(5) unfolding room_def by blast
qed

text \<open>The part of \<^verbatim>\<open>_evbuffer_expand_fast\<close> behind the loop: the chains are now \<open>ds @ es\<close>, \<open>us\<close> of them were looked at.\<close>

lemma expand_tail_ok:
  assumes "parts b ds es" "a \<notin> ch_id ` set (eb_chains b)" "ds @ es \<noteq> []" "2 \<le> n" "ds = [] \<longrightarrow> CHAIN_SPACE_LEN (hd es) \<noteq> 0"
    "u = (if ds = [] \<or> CHAIN_SPACE_LEN (last ds) = 0 then 0 else 1)" "v = (if ds = [] then 0 else CHAIN_SPACE_LEN (last ds))"
    "if enough then room n datlen ds es else av < datlen \<and> v < datlen \<and> us \<le> n \<and> (us < n \<longrightarrow> us = u + length es \<and> av = v + spaces es)"
    "r = (if ds = [] then es else last ds # es)"
  shows "expanded A n datlen b ds
    (if enough then Some (0, b)
     else if us < n
     then (case evbuffer_chain_new A a (datlen - av) of
             None \<Rightarrow> Some (- 1, b)
           | Some tmp \<Rightarrow> do {
               cs \<leftarrow> set_rest (eb_chains b) (eb_last b) [tmp];
               Some (0, b\<lparr>eb_chains := cs, eb_last := Some (ch_id tmp)\<rparr>) })
     else (case r of
             [] \<Rightarrow> None
           | c # r' \<Rightarrow>
               if off c = 0
               then (if Some (ch_id c) \<noteq> first_id (eb_chains b) \<or> \<not> evbuffer_chains_all_empty r' then None
                     else case evbuffer_chain_new A a datlen of
                            None \<Rightarrow> Some (- 1, ZERO_CHAIN b)
                          | Some tmp \<Rightarrow> Some (0, b\<lparr>eb_chains := [tmp], eb_last := Some (ch_id tmp), last_with_datap := None\<rparr>))
               else if \<not> evbuffer_chains_all_empty r' \<or> CHAIN_SPACE_LEN c > datlen then None
               else (case evbuffer_chain_new A a (datlen - CHAIN_SPACE_LEN c) of
                       None \<Rightarrow> do { cs \<leftarrow> set_rest (eb_chains b) (Some (ch_id c)) []; Some (- 1, b\<lparr>eb_chains := cs, eb_last := Some (ch_id c)\<rparr>) }
                     | Some tmp \<Rightarrow> do { cs \<leftarrow> set_rest (eb_chains b) (Some (ch_id c)) [tmp]; Some (0, b\<lparr>eb_chains := cs, eb_last := Some (ch_id tmp)\<rparr>) })))"
    (is "expanded A n datlen b ds ?x")
proof -
  have p: "eb_chains b = ds @ es" "distinct (map ch_id (ds @ es))" "eb_last b = last_of (ds @ es)" "last_with_datap b = lwdp_of ds"
    "\<forall>c \<in> set ds. off c \<noteq> 0" "\<forall>c \<in> set es. off c = 0 \<and> CHAIN_SPACE_LEN c \<noteq> 0" "\<forall>c \<in> set (ds @ es). chain_ok c" "total_len b = length (bytes_of ds)"
    using assms(1) by (simp_all add: parts_def)
  have rf: "same_setup b b" by (simp add: same_setup_def)
  consider "enough" | "\<not> enough" "us < n" | "\<not> enough" "us = n" "ds = []" | "\<not> enough" "us = n" "ds \<noteq> []" using assms(8) by fastforce
  then show ?thesis
  proof cases
    case 1
    then show ?thesis using expandedI [OF assms(1,1) _ rf] assms(8) by simp
  next
    case 2
    show ?thesis
    proof (cases "evbuffer_chain_new A a (datlen - av)")
      case None
      then show ?thesis using 2 expanded_failed [OF None _ assms(1,1) rf] by simp
    next
      case (Some tmp)
      note t = new_space [OF Some]
      have "set_rest ((ds @ es) @ []) (last_of (ds @ es)) [tmp] = Some ((ds @ es) @ [tmp])" by (rule rest_last(2)) (use p(2) in simp)
      then have x: "?x = Some (0, b\<lparr>eb_chains := ds @ es @ [tmp], eb_last := Some (ch_id tmp)\<rparr>)" using 2 Some p(1,3) by simp
      have "parts (b\<lparr>eb_chains := ds @ es @ [tmp], eb_last := Some (ch_id tmp)\<rparr>) ds (es @ [tmp])"
        by (rule with_spare [OF assms(1)]) (use t p assms(2) in \<open>auto simp: last_of_def\<close>)
      moreover have "room n datlen ds (es @ [tmp])"
        by (rule room_append) (use 2 assms(5-8) t in \<open>auto split: if_splits\<close>)
      ultimately show ?thesis unfolding x by (intro expandedI [OF assms(1)]) (simp_all add: same_setup_def)
    qed
  next
    case 3
    obtain c r' where c: "es = c # r'" using assms(3) 3 by (cases es) auto
    have e: "evbuffer_chains_all_empty r'" "off c = 0" using p(6) c by (simp_all add: evbuffer_chains_all_empty_def)
    show ?thesis
    proof (cases "evbuffer_chain_new A a datlen")
      case None
      then have x: "?x = Some (- 1, ZERO_CHAIN b)" using 3 c e p(1) assms(9) by (simp add: first_id_def)
      have "parts (ZERO_CHAIN b) [] []" by (simp add: parts_def ZERO_CHAIN_def)
      then show ?thesis unfolding x using expanded_failed [OF None order_refl, of b "[]" es "ZERO_CHAIN b" "[]"] assms(1) 3 by (simp add: same_setup_def ZERO_CHAIN_def)
    next
      case (Some tmp)
      note t = new_space [OF Some]
      have x: "?x = Some (0, b\<lparr>eb_chains := [tmp], eb_last := Some (ch_id tmp), last_with_datap := None\<rparr>)" (is "_ = Some (0, ?b)")
        using Some 3 c e p(1) assms(9) by (simp add: first_id_def)
      have "parts ?b ds [tmp]" by (rule with_spare [OF assms(1)]) (use t 3 p in \<open>auto simp: last_of_def\<close>)
      moreover have "room n datlen ds [tmp]" by (rule room_one) (use t 3 assms(4) in auto)
      ultimately show ?thesis unfolding x by (intro expandedI [OF assms(1)]) (simp_all add: same_setup_def)
    qed
  next
    case 4
    obtain xs z where z: "ds = xs @ [z]" using 4(3) by (cases ds rule: rev_cases) auto
    have e: "evbuffer_chains_all_empty es" "off z \<noteq> 0" "\<not> CHAIN_SPACE_LEN z > datlen" using p(5,6) z assms(7,8) 4 by (simp_all add: evbuffer_chains_all_empty_def)
    have sr: "set_rest (eb_chains b) (Some (ch_id z)) y = Some (ds @ y)" for y using rest_split(2) [of xs z es y] p(1,2) z by simp
    show ?thesis
    proof (cases "evbuffer_chain_new A a (datlen - CHAIN_SPACE_LEN z)")
      case None
      then have x: "?x = Some (- 1, b\<lparr>eb_chains := ds @ [], eb_last := Some (ch_id z)\<rparr>)" (is "_ = Some (- 1, ?b)") using 4 e sr assms(9) z by simp
      have "parts ?b ds []" by (rule with_spare [OF assms(1)]) (use p z in auto)
      then show ?thesis unfolding x by (intro expanded_failed [OF None _ assms(1)]) (simp_all add: same_setup_def)
    next
      case (Some tmp)
      note t = new_space [OF Some]
      have x: "?x = Some (0, b\<lparr>eb_chains := ds @ [tmp], eb_last := Some (ch_id tmp)\<rparr>)" (is "_ = Some (0, ?b)") using Some 4 e sr assms(9) z by simp
      have "parts ?b ds [tmp]" by (rule with_spare [OF assms(1)]) (use p t assms(2) in auto)
      moreover have "room n datlen ds ([] @ [tmp])"
        by (rule room_append) (use t e z assms(4) 4 in auto)
      ultimately show ?thesis unfolding x by (intro expandedI [OF assms(1)]) (simp_all add: same_setup_def)
    qed
  qed
qed


text \<open>The loop from the last chain with data on.\<close>

lemma avail_loop_data:
  assumes "off c \<noteq> 0" "\<not> datlen \<le> CHAIN_SPACE_LEN c" "2 \<le> n"
  shows "avail_loop (Some (ch_id c)) datlen n 0 0 (c # es)
    = map_option (\<lambda>(es', r). (c # es', r)) (avail_loop (Some (ch_id c)) datlen n (CHAIN_SPACE_LEN c) (if CHAIN_SPACE_LEN c = 0 then 0 else 1) es)"
proof -
  define u where "u = (if CHAIN_SPACE_LEN c = 0 then 0 else 1 :: nat)"
  have "avail_loop (Some (ch_id c)) datlen n 0 0 (c # es) = do { (cs', enough, a, u) \<leftarrow> avail_loop (Some (ch_id c)) datlen n (CHAIN_SPACE_LEN c) u es; Some (c # cs', enough, a, u) }"
    using assms by (simp add: u_def Let_def del: avail_loop.simps(1))
  then show ?thesis unfolding u_def [symmetric]
    by (cases "avail_loop (Some (ch_id c)) datlen n (CHAIN_SPACE_LEN c) u es") (simp_all add: case_prod_unfold)
qed

lemma start_loop:
  assumes "\<forall>c \<in> set es. chain_ok c \<and> off c = 0 \<and> CHAIN_SPACE_LEN c \<noteq> 0" "2 \<le> n" "\<forall>c \<in> set ds. off c \<noteq> 0" "ds @ es = xs @ [z]"
  defines "r \<equiv> \<lambda>ys. if ds = [] then ys else last ds # ys"
  shows "\<exists>es' enough av us. avail_loop (first_id (r es)) datlen n 0 0 (r es) = Some (r es', enough, av, us) \<and> realigned es es'
    \<and> (es \<noteq> [] \<longrightarrow> ds = [] \<longrightarrow> CHAIN_SPACE_LEN (hd es') \<noteq> 0)
    \<and> (if enough then room n datlen ds es'
       else av < datlen \<and> (if ds = [] then 0 else CHAIN_SPACE_LEN (last ds)) < datlen \<and> us \<le> n
         \<and> (us < n \<longrightarrow> us = (if ds = [] \<or> CHAIN_SPACE_LEN (last ds) = 0 then 0 else 1) + length es' \<and> av = (if ds = [] then 0 else CHAIN_SPACE_LEN (last ds)) + spaces es'))"
proof (cases ds rule: rev_cases)
  case Nil
  have e0: "\<forall>c \<in> set es. chain_ok c \<and> off c = 0" using assms(1) by simp
  have "es \<noteq> []" using Nil assms(4) by auto
  then obtain es' enough av us where l: "avail_loop (first_id es) datlen n 0 0 es = Some (es', enough, av, us)" "realigned es es'" "CHAIN_SPACE_LEN (hd es') \<noteq> 0"
      "if enough then \<exists>k \<le> n - 0. datlen \<le> 0 + spaces (take k es') else av < datlen \<and> us \<le> n \<and> (us < n \<longrightarrow> us = 0 + length es \<and> av = 0 + spaces es')"
    using avail_loop_spare [OF e0, of 0 n 0 datlen "first_id es"] assms(2) by auto
  have "es' \<noteq> []" "length es' = length es" using \<open>es \<noteq> []\<close> realigned_ok [OF l(2) assms(1)] by auto
  then show ?thesis using l Nil room_some [of _ n 0 datlen ds es'] assms(2) unfolding r_def
    by (intro exI [of _ es'] exI [of _ enough] exI [of _ av] exI [of _ us]) (auto split: if_splits)
next
  case (snoc ys d)
  have e0: "\<forall>c \<in> set es. chain_ok c \<and> off c = 0" using assms(1) by simp
  let ?u = "if CHAIN_SPACE_LEN d = 0 then 0 else 1 :: nat"
  have d: "off d \<noteq> 0" using assms(3) snoc by simp
  show ?thesis
  proof (cases "CHAIN_SPACE_LEN d \<ge> datlen")
    case True
    have "room n datlen ds es" by (rule room_some [of 0 _ ?u]) (use True snoc assms(2) in auto)
    then show ?thesis using True snoc d unfolding r_def
      by (intro exI [of _ es] exI [of _ True] exI [of _ "CHAIN_SPACE_LEN d"] exI [of _ ?u]) (simp add: first_id_def realigned_def list_all2_same)
  next
    case False
    have un: "?u \<noteq> n" "?u < n" using assms(2) by auto
    have lt: "CHAIN_SPACE_LEN d < datlen \<or> es \<noteq> []" using False by simp
    obtain es' enough av us where l: "avail_loop (Some (ch_id d)) datlen n (CHAIN_SPACE_LEN d) ?u es = Some (es', enough, av, us)" "realigned es es'"
      "if enough then \<exists>k \<le> n - ?u. datlen \<le> CHAIN_SPACE_LEN d + spaces (take k es')
       else av < datlen \<and> us \<le> n \<and> (us < n \<longrightarrow> us = ?u + length es \<and> av = CHAIN_SPACE_LEN d + spaces es')"
      using avail_loop_spare [OF e0 un(2) lt, of "Some (ch_id d)"] by blast
    have len: "length es' = length es" using realigned_ok [OF l(2) assms(1)] by simp
    have "avail_loop (first_id (r es)) datlen n 0 0 (r es) = Some (r es', enough, av, us)"
      using avail_loop_data [OF d False assms(2), of es] l(1) snoc unfolding r_def by (simp add: first_id_def)
    moreover have "if enough then room n datlen ds es'
       else av < datlen \<and> (if ds = [] then 0 else CHAIN_SPACE_LEN (last ds)) < datlen \<and> us \<le> n
         \<and> (us < n \<longrightarrow> us = (if ds = [] \<or> CHAIN_SPACE_LEN (last ds) = 0 then 0 else 1) + length es' \<and> av = (if ds = [] then 0 else CHAIN_SPACE_LEN (last ds)) + spaces es')"
    proof (cases enough)
      case True
      then obtain k where k: "k \<le> n - ?u" "datlen \<le> CHAIN_SPACE_LEN d + spaces (take k es')" using l(3) by (simp only: if_True) blast
      have "room n datlen ds es'" by (rule room_some [OF k(1)]) (use k(2) snoc un in simp_all)
      then show ?thesis using True by simp
    next
      case no: False
      then show ?thesis using l(3) len snoc False by (simp only: if_False) simp
    qed
    moreover have "es \<noteq> [] \<longrightarrow> ds = [] \<longrightarrow> CHAIN_SPACE_LEN (hd es') \<noteq> 0" using snoc by simp
    ultimately show ?thesis using l(2) by blast
  qed
qed

lemma expand_fast_ok:
  assumes "parts b ds es" "a \<notin> ch_id ` set (eb_chains b)" "2 \<le> n"
  shows "expanded A n datlen b ds (evbuffer_expand_fast A a b datlen n)"
proof -
  have p: "eb_chains b = ds @ es" "distinct (map ch_id (ds @ es))" "eb_last b = last_of (ds @ es)" "last_with_datap b = lwdp_of ds"
    "\<forall>c \<in> set ds. off c \<noteq> 0" "\<forall>c \<in> set es. off c = 0 \<and> CHAIN_SPACE_LEN c \<noteq> 0" "\<forall>c \<in> set (ds @ es). chain_ok c"
    using assms(1) by (simp_all add: parts_def)
  define u where "u = (if ds = [] \<or> CHAIN_SPACE_LEN (last ds) = 0 then 0 else 1 :: nat)"
  define v where "v = (if ds = [] then 0 else CHAIN_SPACE_LEN (last ds))"
  define r where "r ys = (if ds = [] then ys else last ds # ys)" for ys
  let ?new = "do { (x, b) \<leftarrow> evbuffer_chain_insert_new A a b datlen; Some (if x = None then - 1 else 0, b) }"
  show ?thesis
  proof (cases "ds @ es = [] \<or> ch_immutable (last (ds @ es))")
    case True
    have im: "ds @ es \<noteq> [] \<Longrightarrow> ch_immutable (last (ds @ es)) \<Longrightarrow> es = []" using p(6,7) by (cases es rule: rev_cases) (auto simp: chain_ok_def)
    then have e1: "es = []" using True by auto
    have e: "es = []" "ds = [] \<or> CHAIN_SPACE_LEN (last ds) = 0" using True e1 by (auto simp: CHAIN_SPACE_LEN_def)
    have p0: "parts b ds []" using assms(1) e(1) by simp
    have "evbuffer_expand_fast A a b datlen n = ?new"
    proof (cases ds rule: rev_cases)
      case Nil
      then show ?thesis using p(3) e(1) assms(3) by (simp add: evbuffer_expand_fast_def)
    next
      case (snoc xs z)
      have "chain_at (eb_chains b) (ch_id z) = Some z" using chain_at_split [of xs z "[]"] p(1,2) snoc e(1) by simp
      then show ?thesis using snoc p(3) e(1) True assms(3) by (simp add: evbuffer_expand_fast_def)
    qed
    then show ?thesis using insert_spare [OF p0 assms(2) e(2), of n A datlen] assms(3) by simp
  next
    case False
    obtain xs z where z: "ds @ es = xs @ [z]" using False by (cases "ds @ es" rule: rev_cases) auto
    have zc: "chain_at (eb_chains b) (ch_id z) = Some z" "\<not> ch_immutable z" using chain_at_split [of xs z "[]"] p(1,2) z False by simp_all
    have es: "\<forall>c \<in> set es. chain_ok c \<and> off c = 0 \<and> CHAIN_SPACE_LEN c \<noteq> 0" using p(6,7) by simp
    obtain es' enough av us where l: "avail_loop (first_id (r es)) datlen n 0 0 (r es) = Some (r es', enough, av, us)" "realigned es es'" "es \<noteq> [] \<longrightarrow> ds = [] \<longrightarrow> CHAIN_SPACE_LEN (hd es') \<noteq> 0"
      "if enough then room n datlen ds es' else av < datlen \<and> v < datlen \<and> us \<le> n \<and> (us < n \<longrightarrow> us = u + length es' \<and> av = v + spaces es')"
      using start_loop [OF es assms(3) p(5) z(1)] unfolding u_def v_def r_def by blast
    note ra = realigned_ok [OF l(2) es]
    have ids: "map ch_id (ds @ es') = map ch_id (ds @ es)" using ra(2) by simp
    have ne: "ds @ es' \<noteq> []" "ds = [] \<longrightarrow> CHAIN_SPACE_LEN (hd es') \<noteq> 0" using z ra(3) l(3) by auto
    let ?b = "b\<lparr>eb_chains := ds @ es'\<rparr>"
    have pb: "parts ?b ds es'"
      by (rule with_spare [OF assms(1) ra(1)]) (use ids p(2,3) last_of_map [OF ids] in simp_all)
    have fr: "a \<notin> ch_id ` set (eb_chains ?b)" using assms(2) ids p(1) unfolding set_map [symmetric] by simp
    note t = expand_tail_ok [OF pb fr ne(1) assms(3) ne(2) u_def v_def l(4), of "r es'" A]
    have la: "eb_last b = Some (ch_id z)" using p(3) z by simp
    have rs: "rest_at (eb_chains b) (last_with_datap b) = Some (r es)" using rest_parts(1) [OF assms(1)] by (simp add: r_def)
    have sr: "set_rest (eb_chains b) (last_with_datap b) (r es') = Some (ds @ es')" using rest_parts(2) [OF assms(1)] by (simp add: r_def)
    have "evbuffer_expand_fast A a b datlen n = (if enough then Some (0, ?b)
     else if us < n
     then (case evbuffer_chain_new A a (datlen - av) of
             None \<Rightarrow> Some (- 1, ?b)
           | Some tmp \<Rightarrow> do {
               cs \<leftarrow> set_rest (eb_chains ?b) (eb_last ?b) [tmp];
               Some (0, ?b\<lparr>eb_chains := cs, eb_last := Some (ch_id tmp)\<rparr>) })
     else (case r es' of
             [] \<Rightarrow> None
           | c # r' \<Rightarrow>
               if off c = 0
               then (if Some (ch_id c) \<noteq> first_id (eb_chains ?b) \<or> \<not> evbuffer_chains_all_empty r' then None
                     else case evbuffer_chain_new A a datlen of
                            None \<Rightarrow> Some (- 1, ZERO_CHAIN ?b)
                          | Some tmp \<Rightarrow> Some (0, ?b\<lparr>eb_chains := [tmp], eb_last := Some (ch_id tmp), last_with_datap := None\<rparr>))
               else if \<not> evbuffer_chains_all_empty r' \<or> CHAIN_SPACE_LEN c > datlen then None
               else (case evbuffer_chain_new A a (datlen - CHAIN_SPACE_LEN c) of
                       None \<Rightarrow> do { cs \<leftarrow> set_rest (eb_chains ?b) (Some (ch_id c)) []; Some (- 1, ?b\<lparr>eb_chains := cs, eb_last := Some (ch_id c)\<rparr>) }
                     | Some tmp \<Rightarrow> do { cs \<leftarrow> set_rest (eb_chains ?b) (Some (ch_id c)) [tmp]; Some (0, ?b\<lparr>eb_chains := cs, eb_last := Some (ch_id tmp)\<rparr>) })))"
      using la zc rs sr l(1) assms(3)
      by (cases "r es'") (simp_all add: evbuffer_expand_fast_def Let_def cong: option.case_cong if_cong)
    then have "expanded A n datlen ?b ds (evbuffer_expand_fast A a b datlen n)" using t [OF r_def] by simp
    then show ?thesis using parts_contents [OF assms(1)] parts_contents [OF pb] by (simp add: expanded_def same_setup_def)
  qed
qed


section \<open>Reading\<close>

lemma chain_new_some: "\<forall>k. A k \<Longrightarrow> k \<le> EVBUFFER_MAX_READ \<Longrightarrow> evbuffer_chain_new A a k \<noteq> None"
  by (simp add: evbuffer_chain_new_def EVBUFFER_MAX_READ_def EVBUFFER_CHAIN_MAX_def EVBUFFER_CHAIN_SIZE_def Let_def)

text \<open>Extents for \<open>h\<close> bytes in the spaces of the chains.\<close>

fun extents :: "nat \<Rightarrow> evbuffer_chain list \<Rightarrow> evbuffer_iovec list \<Rightarrow> bool" where
  "extents h cs [] \<longleftrightarrow> h = 0"
| "extents h [] (v # vs) \<longleftrightarrow> False"
| "extents h (c # cs) (v # vs) \<longleftrightarrow> 0 < h \<and> v = space_vec c (min h (CHAIN_SPACE_LEN c)) \<and> extents (h - min h (CHAIN_SPACE_LEN c)) cs vs"

lemma extents_sum: "extents h cs vs \<Longrightarrow> sum_list (map iov_len vs) = h"
  by (induction h cs vs rule: extents.induct) (auto simp: space_vec_def)

lemma setup_extents:
  assumes "h \<le> s + spaces (take n cs)"
  shows "\<exists>vs. setup_vecs True n h s cs = Some vs \<and> extents (h - s) cs vs"
  using assms
proof (induction n arbitrary: s cs)
  case (Suc n)
  show ?case
  proof (cases "s \<ge> h")
    case False
    then obtain c cs' where c: "cs = c # cs'" using Suc.prems by (cases cs) auto
    let ?v = "min (h - s) (CHAIN_SPACE_LEN c)"
    have m: "(if CHAIN_SPACE_LEN c > h - s \<and> True then h - s else CHAIN_SPACE_LEN c) = ?v" by auto
    have "h \<le> s + ?v + spaces (take n cs')" using Suc.prems c False by (auto simp: min_def)
    from Suc.IH [OF this] obtain vs where "setup_vecs True n h (s + ?v) cs' = Some vs" "extents (h - (s + ?v)) cs' vs" by blast
    then show ?thesis using c False m by (intro exI [of _ "space_vec c ?v # vs"]) (simp add: Let_def)
  qed simp
qed simp

text \<open>What the memory of the chains is when \<open>data\<close> has been stored in their spaces, before it is counted.\<close>

fun stored :: "evbuffer_chain list \<Rightarrow> u8 list \<Rightarrow> evbuffer_chain list \<Rightarrow> bool" where
  "stored [] data cs' \<longleftrightarrow> data = [] \<and> cs' = []"
| "stored (c # cs) data [] \<longleftrightarrow> False"
| "stored (c # cs) data (c' # cs') \<longleftrightarrow>
     (let d = take (CHAIN_SPACE_LEN c) data in \<exists>m. c' = c\<lparr>ch_buffer := m\<rparr> \<and> length m = buffer_len c
       \<and> chain_ok (c\<lparr>ch_buffer := m, off := off c + length d\<rparr>) \<and> cdata (c\<lparr>ch_buffer := m, off := off c + length d\<rparr>) = cdata c @ d)
     \<and> stored cs (drop (CHAIN_SPACE_LEN c) data) cs'"

lemma stored_none: "\<forall>c \<in> set cs. chain_ok c \<Longrightarrow> stored cs [] cs"
proof (induction cs)
  case (Cons c cs)
  then show ?case by (auto intro!: exI [of _ "ch_buffer c"])
qed simp

lemma stored_ids: "stored cs data cs' \<Longrightarrow> map ch_id cs' = map ch_id cs"
  by (induction cs data cs' rule: stored.induct) (auto simp: Let_def)

lemma readv_ok:
  assumes "extents h cs vs" "length data \<le> h" "eb_chains b = xs @ cs" "distinct (map ch_id (xs @ cs))" "\<forall>c \<in> set cs. chain_ok c \<and> CHAIN_SPACE_LEN c \<noteq> 0"
  shows "\<exists>cs'. readv b vs data = Some (b\<lparr>eb_chains := xs @ cs'\<rparr>) \<and> stored cs data cs'"
  using assms
proof (induction h cs vs arbitrary: b xs data rule: extents.induct)
  case (1 h cs)
  then show ?case using stored_none [of cs] by (intro exI [of _ cs]) simp
next
  case (3 h c cs v vs)
  let ?d = "take (CHAIN_SPACE_LEN c) data"
  have v: "v = space_vec c (min h (CHAIN_SPACE_LEN c))" and ex: "extents (h - min h (CHAIN_SPACE_LEN c)) cs vs" using "3.prems"(1) by simp_all
  have c: "chain_ok c" "CHAIN_SPACE_LEN c \<noteq> 0" using "3.prems"(5) by simp_all
  have d: "take (iov_len v) data = ?d" "drop (iov_len v) data = drop (CHAIN_SPACE_LEN c) data" using v "3.prems"(2) by (auto simp: space_vec_def min_def)
  have "misalign c + off c + length ?d \<le> buffer_len c" using c(2) by (auto simp: CHAIN_SPACE_LEN_def split: if_splits)
  then obtain m where m: "chain_put c (misalign c + off c) ?d = Some (c\<lparr>ch_buffer := m\<rparr>)" "length m = buffer_len c"
    "chain_ok (c\<lparr>ch_buffer := m, off := off c + length ?d\<rparr>)" "cdata (c\<lparr>ch_buffer := m, off := off c + length ?d\<rparr>) = cdata c @ ?d"
    using put_behind [OF c(1), of ?d] by blast
  let ?b = "b\<lparr>eb_chains := (xs @ [c\<lparr>ch_buffer := m\<rparr>]) @ cs\<rparr>"
  have "put_chain (xs @ c # cs) (c\<lparr>ch_buffer := m\<rparr>) = (xs @ [c\<lparr>ch_buffer := m\<rparr>]) @ cs"
    using put_chain_split [of xs c cs "c\<lparr>ch_buffer := m\<rparr>"] "3.prems"(4) by simp
  moreover have "chain_at (xs @ c # cs) (ch_id c) = Some c" using chain_at_split "3.prems"(4) by blast
  ultimately have w: "iov_write b v (take (iov_len v) data) = Some ?b" using "3.prems"(3) d(1) m(1) v by (simp add: iov_write_def space_vec_def)
  have dd: "distinct (map ch_id ((xs @ [c\<lparr>ch_buffer := m\<rparr>]) @ cs))" using "3.prems"(4) by simp
  have le: "length (drop (CHAIN_SPACE_LEN c) data) \<le> h - min h (CHAIN_SPACE_LEN c)" using "3.prems"(2) by (auto simp: min_def)
  obtain cs' where r: "readv ?b vs (drop (CHAIN_SPACE_LEN c) data) = Some (?b\<lparr>eb_chains := (xs @ [c\<lparr>ch_buffer := m\<rparr>]) @ cs'\<rparr>)"
    "stored cs (drop (CHAIN_SPACE_LEN c) data) cs'" using "3.IH" [of "drop (CHAIN_SPACE_LEN c) data" ?b "xs @ [c\<lparr>ch_buffer := m\<rparr>]", OF ex le _ dd] "3.prems"(5) by auto
  have "readv b (v # vs) data = Some (b\<lparr>eb_chains := xs @ (c\<lparr>ch_buffer := m\<rparr> # cs')\<rparr>)" using w d(2) r(1) by simp
  moreover have "stored (c # cs) data (c\<lparr>ch_buffer := m\<rparr> # cs')" using m(2-4) r(2) by (auto simp: Let_def intro!: exI [of _ m])
  ultimately show ?case by blast
qed simp


text \<open>The chains after the bytes are counted: \<open>ms\<close> and \<open>c\<close> have data, \<open>es\<close> are spare.\<close>

lemma stored_empty:
  "stored cs [] cs' \<Longrightarrow> \<forall>c \<in> set cs. off c = 0 \<and> CHAIN_SPACE_LEN c \<noteq> 0 \<Longrightarrow> \<forall>c \<in> set cs'. chain_ok c \<and> off c = 0 \<and> CHAIN_SPACE_LEN c \<noteq> 0"
proof (induction cs arbitrary: cs')
  case (Cons c cs)
  obtain c' ds where cs': "cs' = c' # ds" using Cons.prems(1) by (cases cs') auto
  obtain m where m: "c' = c\<lparr>ch_buffer := m\<rparr>" "length m = buffer_len c" "chain_ok (c\<lparr>ch_buffer := m, off := off c\<rparr>)" and st: "stored cs [] ds"
    using Cons.prems(1) cs' by (auto simp: Let_def)
  have "c\<lparr>ch_buffer := m, off := off c\<rparr> = c'" unfolding m(1) by (cases c) simp
  then have "chain_ok c'" using m(3) by (simp only:)
  moreover have e: "off c' = off c" "CHAIN_SPACE_LEN c' = CHAIN_SPACE_LEN c" unfolding m(1) by (simp_all add: CHAIN_SPACE_LEN_def m(2))
  have "off c' = 0 \<and> CHAIN_SPACE_LEN c' \<noteq> 0" unfolding e using Cons.prems(2) by simp
  moreover have "\<forall>c \<in> set cs. off c = 0 \<and> CHAIN_SPACE_LEN c \<noteq> 0" using Cons.prems(2) by simp
  from Cons.IH [OF st this] have "\<forall>c \<in> set ds. chain_ok c \<and> off c = 0 \<and> CHAIN_SPACE_LEN c \<noteq> 0" .
  ultimately show ?case unfolding cs' by simp
qed simp

lemma read_commit_ok:
  assumes "stored cs data cs'" "extents h cs vs" "length data \<le> h" "data \<noteq> []" "\<forall>c \<in> set cs. chain_ok c \<and> CHAIN_SPACE_LEN c \<noteq> 0"
    "\<forall>c \<in> set (tl cs). off c = 0"
  shows "\<exists>ms c es. read_commit lwd p (length vs) (length data) cs' = Some (ms @ c # es, if ms = [] then p else last_of ms)
    \<and> map ch_id (ms @ c # es) = map ch_id cs \<and> (\<forall>c \<in> set (ms @ c # es). chain_ok c) \<and> (\<forall>c \<in> set (ms @ [c]). off c \<noteq> 0)
    \<and> (\<forall>c \<in> set es. off c = 0 \<and> CHAIN_SPACE_LEN c \<noteq> 0) \<and> bytes_of (ms @ [c]) = cdata (hd cs) @ data"
  using assms
proof (induction cs data cs' arbitrary: h vs p rule: stored.induct)
  case (3 c cs data c' cs')
  have c: "chain_ok c" "CHAIN_SPACE_LEN c \<noteq> 0" and rest: "\<forall>c \<in> set cs. off c = 0 \<and> CHAIN_SPACE_LEN c \<noteq> 0 \<and> chain_ok c" using "3.prems"(5,6) by simp_all
  let ?d = "take (CHAIN_SPACE_LEN c) data" and ?r = "drop (CHAIN_SPACE_LEN c) data"
  obtain m where m: "c' = c\<lparr>ch_buffer := m\<rparr>" "length m = buffer_len c" "chain_ok (c\<lparr>ch_buffer := m, off := off c + length ?d\<rparr>)"
    "cdata (c\<lparr>ch_buffer := m, off := off c + length ?d\<rparr>) = cdata c @ ?d" and st: "stored cs ?r cs'" using "3.prems"(1) by (auto simp: Let_def)
  obtain v ws where vs: "vs = v # ws" "extents (h - min h (CHAIN_SPACE_LEN c)) cs ws" using "3.prems"(2-4) by (cases vs) auto
  have sp: "CHAIN_SPACE_LEN c' = CHAIN_SPACE_LEN c" using m(1,2) by (simp add: CHAIN_SPACE_LEN_def)
  have big: "\<not> int (CHAIN_SPACE_LEN c) > EVBUFFER_CHAIN_MAX" using c(1) by (auto simp: chain_ok_def CHAIN_SPACE_LEN_def)
  let ?c = "c\<lparr>ch_buffer := m, off := off c + length ?d\<rparr>"
  have ne: "?d \<noteq> []" using "3.prems"(4) c(2) by simp
  show ?case
  proof (cases "CHAIN_SPACE_LEN c < length data")
    case False
    then have all: "?d = data" "?r = []" by simp_all
    have ids: "map ch_id (?c # cs') = map ch_id (c # cs)" using stored_ids [OF st] by simp
    have es: "\<forall>c \<in> set cs'. chain_ok c \<and> off c = 0 \<and> CHAIN_SPACE_LEN c \<noteq> 0" using stored_empty [of cs cs'] st all(2) rest by simp
    have "read_commit lwd p (length vs) (length data) (c' # cs') = Some (?c # cs', p)"
      using False vs(1) sp big m(1) all(1) by (simp add: Let_def)
    then show ?thesis using ids es m(3,4) all(1) ne by (intro exI [of _ "[]"] exI [of _ ?c] exI [of _ cs']) simp
  next
    case True
    have lt: "length ?d = CHAIN_SPACE_LEN c" "?r \<noteq> []" "length ?r = length data - CHAIN_SPACE_LEN c" using True by simp_all
    have le: "length ?r \<le> h - min h (CHAIN_SPACE_LEN c)" using "3.prems"(3) by (auto simp: min_def)
    have cne: "cs \<noteq> []" using st lt(2) by auto
    have "\<forall>c \<in> set cs. chain_ok c \<and> CHAIN_SPACE_LEN c \<noteq> 0" "\<forall>c \<in> set (tl cs). off c = 0" using rest list.set_sel(2) [of cs] by (auto dest: list.set_sel(2) [OF cne])
    from "3.IH" [OF st vs(2) le lt(2) this, of "Some (ch_id c')"] obtain ms e es where ih:
      "read_commit lwd (Some (ch_id c')) (length ws) (length ?r) cs' = Some (ms @ e # es, if ms = [] then Some (ch_id c') else last_of ms)"
      "map ch_id (ms @ e # es) = map ch_id cs" "\<forall>c \<in> set (ms @ e # es). chain_ok c" "\<forall>c \<in> set (ms @ [e]). off c \<noteq> 0"
      "\<forall>c \<in> set es. off c = 0 \<and> CHAIN_SPACE_LEN c \<noteq> 0" "bytes_of (ms @ [e]) = cdata (hd cs) @ ?r" by blast
    have "cdata (hd cs) = []" using rest cne cdata_len [of "hd cs"] by (cases cs) auto
    then have bs: "bytes_of ((?c # ms) @ [e]) = cdata c @ data" using m(4) ih(6) by simp
    have "read_commit lwd p (length vs) (length data) (c' # cs') = Some ((?c # ms) @ e # es, last_of (?c # ms))"
      using True vs(1) sp big m(1) ih(1) lt by (simp add: Let_def last_of_def)
    moreover have "map ch_id ((?c # ms) @ e # es) = map ch_id (c # cs)" using ih(2) by simp
    ultimately show ?thesis using ih(3-5) m(3) ne bs by (intro exI [of _ "?c # ms"] exI [of _ e] exI [of _ es]) simp
  qed
qed simp_all


lemma first_space_at:
  assumes "eb_chains b = before ds @ ys" "last_with_datap b = lwdp_of ds" "distinct (map ch_id (before ds @ ys))" "ys \<noteq> []" "CHAIN_SPACE_LEN (hd ys) \<noteq> 0"
  shows "first_space b = Some (last_of (before ds), ys)"
proof (cases ds rule: rev_cases)
  case Nil
  then show ?thesis using assms by (cases ys) (simp_all add: first_space_def before_def rest_at_def)
next
  case (snoc xs d)
  show ?thesis
  proof (cases "CHAIN_SPACE_LEN d = 0")
    case True
    then have "rest_at (xs @ d # ys) (last_of xs) = Some (d # ys)" using rest_last(1) [of xs "d # ys"] assms(3) snoc by (simp add: before_def)
    then show ?thesis using True assms snoc by (simp add: first_space_def before_def)
  next
    case False
    then have "rest_at (xs @ ys) (last_of xs) = Some ys" using rest_last(1) [of xs ys] assms(3) snoc by (simp add: before_def)
    then show ?thesis using False assms snoc by (cases ys) (simp_all add: first_space_def before_def)
  qed
qed

text \<open>From the space that was made to the buffer with the data.\<close>

lemma read_into:
  assumes "parts b ds es" "room n h ds es" "data \<noteq> []" "extents h (usable ds es) vs" "length data \<le> h"
  shows "\<exists>b1 p cs1 cs2 lwd cs3. readv b vs data = Some b1 \<and> first_space b1 = Some (p, cs1)
    \<and> read_commit (last_with_datap b1) p (length vs) (length data) cs1 = Some (cs2, lwd) \<and> set_rest (eb_chains b1) p cs2 = Some cs3
    \<and> in_ok (add_len (b1\<lparr>eb_chains := cs3, last_with_datap := lwd\<rparr>) (length data)) \<and> same_setup b b1
    \<and> contents (b1\<lparr>eb_chains := cs3\<rparr>) = contents b @ data"
proof -
  have p: "eb_chains b = before ds @ usable ds es" "distinct (map ch_id (before ds @ usable ds es))" "eb_last b = last_of (before ds @ usable ds es)"
    "last_with_datap b = lwdp_of ds" "\<forall>c \<in> set (before ds @ usable ds es). chain_ok c" "total_len b = length (bytes_of ds)"
    "\<forall>c \<in> set ds. off c \<noteq> 0" "\<forall>c \<in> set es. off c = 0 \<and> CHAIN_SPACE_LEN c \<noteq> 0"
    using assms(1) unfolding parts_def before_usable by simp_all
  have us: "\<forall>c \<in> set (usable ds es). chain_ok c \<and> CHAIN_SPACE_LEN c \<noteq> 0" using p(5,8) by (auto simp: usable_def)
  have tl: "\<forall>c \<in> set (tl (usable ds es)). off c = 0" using p(8) by (cases es) (auto simp: usable_def)
  have bf: "\<forall>c \<in> set (before ds). off c \<noteq> 0" using p(7) by (auto simp: before_def dest: in_set_butlastD split: if_splits)
  obtain cs1 where st: "readv b vs data = Some (b\<lparr>eb_chains := before ds @ cs1\<rparr>)" "stored (usable ds es) data cs1"
    using readv_ok [OF assms(4,5) p(1,2) us] by blast
  let ?b1 = "b\<lparr>eb_chains := before ds @ cs1\<rparr>"
  have ids: "map ch_id cs1 = map ch_id (usable ds es)" by (rule stored_ids [OF st(2)])
  obtain u ut c1 ct where u: "usable ds es = u # ut" "cs1 = c1 # ct" using st(2) assms(3) by (cases "usable ds es"; cases cs1) auto
  have "\<exists>m. c1 = u\<lparr>ch_buffer := m\<rparr> \<and> length m = buffer_len u" using st(2) unfolding u by (auto simp: Let_def)
  then have c1: "CHAIN_SPACE_LEN (hd cs1) \<noteq> 0" using us unfolding u by (auto simp: CHAIN_SPACE_LEN_def split: if_splits)
  have dd: "distinct (map ch_id (before ds @ cs1))" using p(2) ids by simp
  have fs: "first_space ?b1 = Some (last_of (before ds), cs1)" by (rule first_space_at [OF _ _ dd]) (use p(4) u(2) c1 in simp_all)
  obtain ms c es2 where rc: "read_commit (last_with_datap ?b1) (last_of (before ds)) (length vs) (length data) cs1
      = Some (ms @ c # es2, if ms = [] then last_of (before ds) else last_of ms)"
    "map ch_id (ms @ c # es2) = map ch_id (usable ds es)" "\<forall>c \<in> set (ms @ c # es2). chain_ok c" "\<forall>c \<in> set (ms @ [c]). off c \<noteq> 0"
    "\<forall>c \<in> set es2. off c = 0 \<and> CHAIN_SPACE_LEN c \<noteq> 0" "bytes_of (ms @ [c]) = cdata (hd (usable ds es)) @ data"
    using read_commit_ok [OF st(2) assms(4,5,3) us tl, of "last_with_datap ?b1" "last_of (before ds)"] by blast
  have sr: "set_rest (eb_chains ?b1) (last_of (before ds)) (ms @ c # es2) = Some (before ds @ ms @ c # es2)" using rest_last(2) [OF dd] by simp
  let ?lwd = "if ms = [] then last_of (before ds) else last_of ms"
  let ?b2 = "add_len (?b1\<lparr>eb_chains := before ds @ ms @ c # es2, last_with_datap := ?lwd\<rparr>) (length data)"
  have bytes: "bytes_of (before ds @ ms @ [c]) = bytes_of ds @ data"
  proof (cases "ds = [] \<or> CHAIN_SPACE_LEN (last ds) = 0")
    case True
    have "u \<in> set (usable ds es)" "usable ds es = es" using True u(1) by (simp, simp add: usable_def)
    then have "off u = 0" "chain_ok u" using p(8) us by metis+
    then have "cdata u = []" using cdata_len [of u] by simp
    then show ?thesis using True rc(6) u(1) by (auto simp: before_def)
  next
    case False
    then have "ds \<noteq> []" "last ds = u" using u(1) by (simp_all add: usable_def)
    then have "ds = butlast ds @ [u]" using append_butlast_last_id [of ds] by simp
    moreover have "bytes_of (butlast ds @ [u]) = bytes_of (butlast ds) @ cdata u" by simp
    ultimately have "bytes_of ds = bytes_of (butlast ds) @ cdata u" by metis
    then show ?thesis using False rc(6) u(1) by (simp add: before_def)
  qed
  have full: "map ch_id (before ds @ ms @ c # es2) = map ch_id (before ds @ usable ds es)" using rc(2) by simp
  have "distinct (map ch_id ((before ds @ ms @ [c]) @ es2))" using p(2) full by simp
  moreover have "eb_last b = last_of ((before ds @ ms @ [c]) @ es2)" using p(3) last_of_map [OF full] by simp
  moreover have "?lwd = lwdp_of (before ds @ ms @ [c])" by (cases ms rule: rev_cases) (simp_all add: lwdp_of_def butlast_append last_of_def)
  moreover have "\<forall>x \<in> set ((before ds @ ms @ [c]) @ es2). chain_ok x" using p(5) rc(3) by auto
  moreover have "\<forall>x \<in> set (before ds @ ms @ [c]). off x \<noteq> 0" using bf rc(4) by auto
  ultimately have pb: "parts ?b2 (before ds @ ms @ [c]) es2" using rc(5) bytes p(6) unfolding parts_def by (simp add: add_len_def)
  have "in_ok ?b2" unfolding in_ok_def using pb by blast
  moreover have "contents ?b2 = bytes_of ds @ data" using parts_contents [OF pb] bytes by simp
  moreover have "contents ?b2 = contents (?b1\<lparr>eb_chains := before ds @ ms @ c # es2\<rparr>)" by (simp add: contents_def add_len_def)
  ultimately show ?thesis using st(1) fs rc(1) sr parts_contents [OF assms(1)]
    by (intro exI [of _ ?b1] exI [of _ "last_of (before ds)"] exI [of _ cs1] exI [of _ "ms @ c # es2"] exI [of _ ?lwd] exI [of _ "before ds @ ms @ c # es2"])
      (simp add: same_setup_def)
qed


lemma read_size_bounds: "0 \<le> read_size ready howmuch \<and> read_size ready howmuch \<le> int EVBUFFER_MAX_READ"
  by (auto simp: read_size_def EVBUFFER_MAX_READ_def Let_def)

text \<open>What a reading returns: the bytes that arrived are at the end, or nothing is changed.\<close>

definition reads :: "allocator \<Rightarrow> evbuffer \<Rightarrow> int \<Rightarrow> u8 list option \<Rightarrow> int \<Rightarrow> int \<Rightarrow> u8 list \<Rightarrow> bool" where
  "reads A b ready incoming howmuch r bs \<longleftrightarrow>
     (r = - 1 \<and> bs = contents b \<and> (freeze_end b \<or> incoming = None \<or> \<not> (\<forall>k. A k)))
     \<or> \<not> freeze_end b \<and> (\<exists>input data. incoming = Some input \<and> data = take (nat (read_size ready howmuch)) input \<and> r = int (length data) \<and> bs = contents b @ data)"

lemma in_read_ok:
  assumes "in_ok b" "a \<notin> ch_id ` set (eb_chains b)"
  shows "\<exists>r b'. evbuffer_read A a b ready incoming howmuch = Some (r, b') \<and> in_ok b' \<and> same_setup b b' \<and> reads A b ready incoming howmuch r (contents b')"
proof (cases "freeze_end b")
  case True
  then show ?thesis using assms(1) by (simp add: evbuffer_read_def same_setup_def reads_def)
next
  case thawed: False
  let ?h = "nat (read_size ready howmuch)"
  have h: "0 \<le> read_size ready howmuch" "?h \<le> EVBUFFER_MAX_READ" using read_size_bounds [of ready howmuch] by auto
  obtain ds es where p: "parts b ds es" using assms(1) by (auto simp: in_ok_def)
  have "expanded A NUM_READ_IOVEC ?h b ds (evbuffer_expand_fast A a b ?h NUM_READ_IOVEC)"
    by (rule expand_fast_ok [OF p assms(2)]) (simp add: NUM_READ_IOVEC_def)
  then consider b1 a' k where "evbuffer_expand_fast A a b ?h NUM_READ_IOVEC = Some (- 1, b1)" "same_setup b b1" "contents b1 = contents b" "in_ok b1"
      "k \<le> ?h" "evbuffer_chain_new A a' k = None"
    | b1 es1 where "evbuffer_expand_fast A a b ?h NUM_READ_IOVEC = Some (0, b1)" "same_setup b b1" "contents b1 = contents b" "parts b1 ds es1"
      "room NUM_READ_IOVEC ?h ds es1" unfolding expanded_def by blast
  then show ?thesis
  proof cases
    case 1
    have "\<not> (\<forall>k. A k)" using chain_new_some [of A k a'] 1(5,6) h(2) by fastforce
    then show ?thesis using 1(1-4) thawed by (simp add: evbuffer_read_def reads_def)
  next
    case 2
    have fs: "first_space b1 = Some (last_of (before ds), usable ds es1)" by (rule first_space_ok [OF 2(4)]) (use 2(5) in \<open>auto simp: room_def\<close>)
    have ok1: "in_ok b1" using 2(4) by (auto simp: in_ok_def)
    obtain k where k: "k \<le> NUM_READ_IOVEC" "?h \<le> spaces (take k (usable ds es1))" using 2(5) by (auto simp: room_def)
    have "spaces (take k (usable ds es1)) \<le> spaces (take NUM_READ_IOVEC (usable ds es1))"
      using k(1) take_add [of k "NUM_READ_IOVEC - k" "usable ds es1"] by simp
    then obtain vs where vs: "setup_vecs True NUM_READ_IOVEC ?h 0 (usable ds es1) = Some vs" "extents ?h (usable ds es1) vs"
      using setup_extents [of ?h 0 NUM_READ_IOVEC "usable ds es1"] k(2) by auto
    have sv: "evbuffer_read_setup_vecs b1 (read_size ready howmuch) NUM_READ_IOVEC True = Some (Some vs)"
      using fs vs(1) h(1) by (simp add: evbuffer_read_setup_vecs_def)
    show ?thesis
    proof (cases incoming)
      case None
      then show ?thesis using 2(1-3) sv thawed ok1 by (simp add: evbuffer_read_def reads_def)
    next
      case (Some input)
      define data where "data = take ?h input"
      have sum: "sum_list (map iov_len vs) = ?h" by (rule extents_sum [OF vs(2)])
      show ?thesis
      proof (cases "data = []")
        case True
        then show ?thesis using 2(1-3) sv thawed ok1 Some sum by (auto simp: evbuffer_read_def reads_def data_def Let_def)
      next
        case False
        have len: "length data \<le> ?h" by (simp add: data_def)
        have td: "take (sum_list (map iov_len vs)) input = data" unfolding sum data_def by (rule HOL.refl)
        obtain b2 p cs1 cs2 lwd cs3 where x: "readv b1 vs data = Some b2" "first_space b2 = Some (p, cs1)"
          "read_commit (last_with_datap b2) p (length vs) (length data) cs1 = Some (cs2, lwd)" "set_rest (eb_chains b2) p cs2 = Some cs3"
          "in_ok (add_len (b2\<lparr>eb_chains := cs3, last_with_datap := lwd\<rparr>) (length data))" "same_setup b1 b2" "contents (b2\<lparr>eb_chains := cs3\<rparr>) = contents b1 @ data"
          using read_into [OF 2(4,5) False vs(2) len] by blast
        let ?b = "add_len (b2\<lparr>eb_chains := cs3, last_with_datap := lwd\<rparr>) (length data)"
        have "evbuffer_read A a b ready incoming howmuch = Some (int (length data), evbuffer_invoke_callbacks ?b)"
          using 2(1) sv thawed Some td x(1-4) False unfolding evbuffer_read_def Let_def by (simp del: take_eq_Nil take_eq_Nil2)
        moreover have "contents ?b = contents b @ data" using x(7) 2(3) by (simp add: contents_def add_len_def)
        moreover have "same_setup b ?b" using 2(2) x(6) by (simp add: same_setup_def add_len_def)
        ultimately show ?thesis using x(5) Some thawed unfolding reads_def by (auto simp: data_def)
      qed
    qed
  qed
qed

end
