(* ===== verification/EvInputQueue.thy ===== *)
theory EvInputQueue
  imports EvInput
begin

text \<open>
  A byte queue between two descriptors: bytes are read at its end, and written, removed and taken line by line at its front.
  Every sequence of these operations refines the same sequence on the list of the bytes that are inside. Searching needs
  the length to stay below \<^verbatim>\<open>EVBUFFER_CHAIN_MAX\<close>, so the contract has a budget: a bound on how much each operation adds.
\<close>

section \<open>Contracts with a budget\<close>

locale budget_refinement =
  fixes ok :: "'s \<Rightarrow> bool" and abs :: "'s \<Rightarrow> 'q" and step :: "'op \<Rightarrow> 's \<Rightarrow> ('r \<times> 's) option"
    and spec :: "'op \<Rightarrow> 'q \<Rightarrow> 'r \<Rightarrow> 'q \<Rightarrow> bool" and valid :: "'op \<Rightarrow> bool" and size :: "'s \<Rightarrow> nat" and grow :: nat and limit :: nat
  assumes step_law: "ok s \<Longrightarrow> valid op \<Longrightarrow> size s \<le> limit \<Longrightarrow>
    \<exists>r s'. step op s = Some (r, s') \<and> ok s' \<and> spec op (abs s) r (abs s') \<and> size s' \<le> size s + grow"
begin

lemma run_in_budget:
  "ok s \<Longrightarrow> list_all valid ops \<Longrightarrow> size s + grow * length ops \<le> limit \<Longrightarrow>
    \<exists>rs s'. run_ops step ops s = Some (rs, s') \<and> ok s' \<and> spec_run spec ops (abs s) rs (abs s')"
proof (induction ops arbitrary: s)
  case Nil
  then show ?case by (auto intro: spec_nil)
next
  case (Cons op ops)
  obtain r s1 where s1: "step op s = Some (r, s1)" "ok s1" "spec op (abs s) r (abs s1)" "size s1 \<le> size s + grow"
    using step_law [of s op] Cons.prems by auto
  obtain rs s2 where s2: "run_ops step ops s1 = Some (rs, s2)" "ok s2" "spec_run spec ops (abs s1) rs (abs s2)"
    using Cons.IH [OF s1(2)] Cons.prems s1(4) by auto
  have "run_ops step (op # ops) s = Some (r # rs, s2)" using s1(1) s2(1) by simp
  then show ?case using s2(2) spec_cons [of spec, OF s1(3) s2(3)] by blast
qed

end

text \<open>A contract without a budget is one that costs nothing.\<close>

sublocale op_refinement \<subseteq> unlimited: budget_refinement ok abs step spec valid "\<lambda>_. 0" 0 0
  by unfold_locales (use step_law in simp)

section \<open>The operations\<close>

text \<open>\<open>IRead ready incoming howmuch\<close> reads, with what \<^verbatim>\<open>ioctl\<close> says is there and the bytes \<^verbatim>\<open>readv\<close> can deliver; \<open>IWrite m howmuch\<close>
  writes, where \<^verbatim>\<open>writev\<close> takes at most \<open>m\<close> of the bytes it is offered, or returns \<open>m\<close> if that is negative.\<close>

datatype io_op = IRead int "u8 list option" int | IWrite int int | IDrain nat | IRemove nat | IFind "u8 list"
  | ILine evbuffer_eol_style | IFreeze bool | IUnfreeze bool

fun io_step :: "allocator \<Rightarrow> io_op \<Rightarrow> evbuffer \<Rightarrow> ((int \<times> u8 list) \<times> evbuffer) option" where
  "io_step A (IRead ready incoming howmuch) b = do { (r, b) \<leftarrow> evbuffer_read A (fresh_id b) b ready incoming howmuch; Some ((r, []), b) }"
| "io_step A (IWrite m howmuch) b = do { (n, out, b) \<leftarrow> evbuffer_write_atmost b (\<lambda>x. min m (int (length x))) howmuch; Some ((n, out), b) }"
| "io_step A (IDrain n) b = do { (r, b) \<leftarrow> evbuffer_drain b n; Some ((r, []), b) }"
| "io_step A (IRemove n) b = do { (r, d, b) \<leftarrow> evbuffer_remove b n; Some ((r, d), b) }"
| "io_step A (IFind w) b = do { p \<leftarrow> evbuffer_search b w None; Some ((p_pos p, []), b) }"
| "io_step A (ILine style) b = do {
     (line, n, b) \<leftarrow> evbuffer_readln A b style;
     case line of None \<Rightarrow> Some ((- 1, []), b) | Some l \<Rightarrow> Some ((int n, l), b) }"
| "io_step A (IFreeze start) b = Some ((0, []), evbuffer_freeze b start)"
| "io_step A (IUnfreeze start) b = Some ((0, []), evbuffer_unfreeze b start)"

fun io_spec :: "allocator \<Rightarrow> io_op \<Rightarrow> queue \<Rightarrow> int \<times> u8 list \<Rightarrow> queue \<Rightarrow> bool" where
  "io_spec A (IRead ready incoming howmuch) q (r, out) q' = (out = [] \<and>
     (r = - 1 \<and> q' = q \<and> (q_back q \<or> incoming = None \<or> \<not> (\<forall>k. A k))
      \<or> \<not> q_back q \<and> (\<exists>input data. incoming = Some input \<and> data = take (nat (read_size ready howmuch)) input \<and> r = int (length data)
          \<and> q' = q\<lparr>q_bytes := q_bytes q @ data\<rparr>)))"
| "io_spec A (IWrite m howmuch) q (r, out) q' =
     (if q_front q \<or> q_bytes q = [] \<or> howmuch = 0 then r = - 1 \<and> out = [] \<and> q' = q
      else (if m \<le> 0 then r = m else 0 < r \<and> r \<le> m) \<and> (0 < howmuch \<longrightarrow> r \<le> howmuch) \<and> out = take (nat r) (q_bytes q) \<and> length out = nat r
        \<and> q' = q\<lparr>q_bytes := drop (nat r) (q_bytes q)\<rparr>)"
| "io_spec A (IDrain n) q r q' = evb_spec (EDrain n) q r q'"
| "io_spec A (IRemove n) q r q' = evb_spec (ERemove n) q r q'"
| "io_spec A (IFind w) q (r, out) q' = (out = [] \<and> q' = q \<and> r = (case first_match w (q_bytes q) of None \<Rightarrow> - 1 | Some k \<Rightarrow> int k))"
| "io_spec A (ILine style) q (r, out) q' = (case line_end style (q_bytes q) of
     None \<Rightarrow> r = - 1 \<and> out = [] \<and> q' = q
   | Some (k, n) \<Rightarrow>
       if q_front q \<or> \<not> A (int k + 1) then r = - 1 \<and> out = [] \<and> q' = q
       else r = int k \<and> out = take k (q_bytes q) @ [0] \<and> q' = q\<lparr>q_bytes := drop (k + n) (q_bytes q)\<rparr>)"
| "io_spec A (IFreeze start) q r q' = evb_spec (EFreeze start) q r q'"
| "io_spec A (IUnfreeze start) q r q' = evb_spec (EUnfreeze start) q r q'"

fun io_valid :: "io_op \<Rightarrow> bool" where
  "io_valid (IFind w) = (w \<noteq> [] \<and> int (length w) \<le> EVBUFFER_CHAIN_MAX)"
| "io_valid _ = True"

section \<open>Lines\<close>

lemma in_readln_ok:
  assumes "in_ok b" "int (total_len b) \<le> EVBUFFER_CHAIN_MAX"
  shows "case line_end eol_style (contents b) of
      None \<Rightarrow> evbuffer_readln A b eol_style = Some (None, 0, b)
    | Some (k, n) \<Rightarrow>
        if freeze_start b \<or> \<not> A (int k + 1) then evbuffer_readln A b eol_style = Some (None, 0, b)
        else \<exists>b'. evbuffer_readln A b eol_style = Some (Some (take k (contents b) @ [0]), k, b') \<and> in_ok b' \<and> same_setup b b' \<and> contents b' = drop (k + n) (contents b)"
proof -
  note wf = in_ok_wf [OF assms(1)]
  note s = search_eol_ok [OF wf assms(2), of eol_style, unfolded eol_at_def]
  show ?thesis
  proof (cases "line_end eol_style (contents b)")
    case None
    then show ?thesis using s by (auto simp: evbuffer_readln_def evbuffer_search_eol_def)
  next
    case (Some e)
    obtain k n where e: "e = (k, n)" by (cases e)
    then obtain it where it: "search_eol b (ptr_first b) eol_style = Some (True, n, it)" "points b it k" using s Some by auto
    then have p: "p_pos it = int k" "k \<le> length (contents b)" using pointsE [OF wf it(2)] by metis+
    show ?thesis
    proof (cases "freeze_start b \<or> \<not> A (int k + 1)")
      case True
      then show ?thesis using Some e it(1) p(1) by (auto simp: evbuffer_readln_def evbuffer_search_eol_def Let_def)
    next
      case False
      obtain b1 where b1: "evbuffer_remove b k = Some (as_int (int (min k (length (contents b)))), take k (contents b), b1)" "in_ok b1" "same_setup b b1"
        "contents b1 = drop k (contents b)" using in_remove_ok [OF assms(1), of k] False by auto
      obtain b2 where b2: "evbuffer_drain b1 n = Some (0, b2)" "in_ok b2" "contents b2 = drop n (contents b1)" "same_setup b1 b2"
        using in_drain_ok [OF b1(2), of n] False b1(3) by (auto simp: same_setup_def)
      have "evbuffer_readln A b eol_style = Some (Some (take k (contents b) @ [0]), k, b2)"
        using it(1) p b1(1) b2(1) False by (simp add: evbuffer_readln_def evbuffer_search_eol_def Let_def)
      then show ?thesis using Some e False b2(2,3) b1(4) same_setup_trans [OF b1(3) b2(4)] by (simp add: add.commute)
    qed
  qed
qed

section \<open>Writing\<close>

lemma write_vecs_ok:
  "\<forall>c \<in> set cs. chain_ok c \<Longrightarrow> \<exists>x. write_vecs n h cs = Some x \<and> x = take (length x) (bytes_of cs) \<and> length x \<le> h
     \<and> length x \<le> length (bytes_of cs) \<and> (0 < n \<and> 0 < h \<and> cs \<noteq> [] \<and> off (hd cs) \<noteq> 0 \<longrightarrow> x \<noteq> [])"
proof (induction n h cs rule: write_vecs.induct)
  case (3 n h c cs)
  have c: "chain_ok c" using "3.prems" by simp
  consider "h = 0" | "h \<noteq> 0" "h \<ge> off c" | "h \<noteq> 0" "h < off c" by linarith
  then show ?case
  proof cases
    case 2
    then obtain x where x: "write_vecs n (h - off c) cs = Some x" "x = take (length x) (bytes_of cs)" "length x \<le> h - off c" "length x \<le> length (bytes_of cs)"
      using "3.IH" "3.prems" chain_bytes_all [OF c] by auto
    have "take (length (cdata c @ x)) (bytes_of (c # cs)) = cdata c @ x" using x(2) by simp
    then show ?thesis using 2 x chain_bytes_all [OF c] cdata_len [OF c] by (intro exI [of _ "cdata c @ x"]) auto
  next
    case 3
    then show ?thesis using chain_bytes_ok [OF c, of h] cdata_len [OF c] by (intro exI [of _ "take h (cdata c)"]) auto
  qed simp
qed simp_all

lemma in_write_ok:
  assumes "in_ok b"
  shows "\<exists>r out b'. evbuffer_write_atmost b (\<lambda>x. min m (int (length x))) howmuch = Some (r, out, b') \<and> in_ok b' \<and> same_setup b b'
    \<and> (if freeze_start b \<or> contents b = [] \<or> howmuch = 0 then r = - 1 \<and> out = [] \<and> b' = b
       else (if m \<le> 0 then r = m else 0 < r \<and> r \<le> m) \<and> (0 < howmuch \<longrightarrow> r \<le> howmuch) \<and> out = take (nat r) (contents b) \<and> length out = nat r
         \<and> contents b' = drop (nat r) (contents b))"
proof -
  obtain ds es where p: "parts b ds es" using assms by (auto simp: in_ok_def)
  have tot: "total_len b = length (contents b)" using p parts_contents [OF p] by (simp add: parts_def)
  define h where "h = (if howmuch < 0 \<or> howmuch > int (total_len b) then total_len b else nat howmuch)"
  show ?thesis
  proof (cases "freeze_start b \<or> contents b = [] \<or> howmuch = 0")
    case True
    then have "freeze_start b \<or> h = 0" using tot by (auto simp: h_def)
    then show ?thesis using True assms unfolding evbuffer_write_atmost_def Let_def h_def [symmetric] by (auto simp: same_setup_def)
  next
    case False
    have ds: "ds \<noteq> []" using False parts_contents [OF p] by auto
    have hd: "eb_chains b \<noteq> []" "off (hd (eb_chains b)) \<noteq> 0" "\<forall>c \<in> set (eb_chains b). chain_ok c" using p ds by (auto simp: parts_def)
    have h: "0 < h" "0 < howmuch \<longrightarrow> int h \<le> howmuch" using False tot by (auto simp: h_def)
    obtain x where x: "write_vecs NUM_WRITE_IOVEC h (eb_chains b) = Some x" "x = take (length x) (contents b)" "length x \<le> h" "length x \<le> length (contents b)" "x \<noteq> []"
      using write_vecs_ok [OF hd(3), of NUM_WRITE_IOVEC h] h(1) hd(1,2) unfolding contents_def by (auto simp: NUM_WRITE_IOVEC_def)
    let ?r = "min m (int (length x))"
    have r: "nat ?r \<le> length x" by simp
    have out: "take (nat ?r) x = take (nat ?r) (contents b)" using x(2) r by (metis take_take min.absorb1)
    have run: "evbuffer_write_atmost b (\<lambda>x. min m (int (length x))) howmuch
        = do { (r, b) \<leftarrow> (if ?r > 0 then evbuffer_drain b (nat ?r) else Some (0, b)); Some (?r, take (nat ?r) x, b) }"
      using False x(1) h(1) unfolding evbuffer_write_atmost_def Let_def h_def [symmetric] by simp
    obtain b' where b': "(if ?r > 0 then evbuffer_drain b (nat ?r) else Some (0, b)) = Some (0, b')" "in_ok b'" "same_setup b b'" "contents b' = drop (nat ?r) (contents b)"
    proof (cases "?r > 0")
      case True
      then show ?thesis using that in_drain_ok [OF assms, of "nat ?r"] False by auto
    next
      case no: False
      then have "?r \<le> 0" by (simp only: not_less)
      then have "nat ?r = 0" by (simp only: nat_le_0)
      then have "contents b = drop (nat ?r) (contents b)" by (simp only: drop_0)
      then show ?thesis by (rule that [OF if_not_P [OF no] assms, rotated]) (simp add: same_setup_def)
    qed
    have "evbuffer_write_atmost b (\<lambda>x. min m (int (length x))) howmuch = Some (?r, take (nat ?r) (contents b), b')" unfolding run b'(1) out by simp
    moreover have "length (take (nat ?r) (contents b)) = nat ?r" using r x(4) by (metis length_take min.absorb2 order_trans)
    moreover have "if m \<le> 0 then ?r = m else 0 < ?r \<and> ?r \<le> m" using x(5) by (auto simp: min_def)
    moreover have "0 < howmuch \<longrightarrow> ?r \<le> howmuch" using h(2) x(3) by auto
    ultimately show ?thesis unfolding if_not_P [OF False] using b'(2-4) by blast
  qed
qed


section \<open>The contract\<close>

lemma freeze_in_ok: "in_ok b \<Longrightarrow> in_ok (evbuffer_freeze b start)" "in_ok b \<Longrightarrow> in_ok (evbuffer_unfreeze b start)"
  by (auto simp: in_ok_def parts_def evbuffer_freeze_def evbuffer_unfreeze_def)

lemma in_ok_len: "in_ok b \<Longrightarrow> total_len b = length (contents b)"
  using in_ok_wf [of b] by (simp add: eb_wf_def)

lemma io_step_ok:
  assumes "in_ok b" "io_valid op" "length (contents b) \<le> nat EVBUFFER_CHAIN_MAX"
  shows "\<exists>r b'. io_step A op b = Some (r, b') \<and> in_ok b' \<and> io_spec A op (abs_queue b) r (abs_queue b') \<and> length (contents b') \<le> length (contents b) + EVBUFFER_MAX_READ"
proof (cases op)
  case (IRead ready incoming howmuch)
  obtain r b' where x: "evbuffer_read A (fresh_id b) b ready incoming howmuch = Some (r, b')" "in_ok b'" "same_setup b b'"
    "reads A b ready incoming howmuch r (contents b')" using in_read_ok [OF assms(1) fresh_id_ok, of A ready incoming howmuch] by blast
  have "length (contents b') \<le> length (contents b) + EVBUFFER_MAX_READ"
    using x(4) read_size_bounds [of ready howmuch] by (auto simp: reads_def)
  then show ?thesis using IRead x abs_same [OF x(3)] by (auto simp: reads_def)
next
  case (IWrite m howmuch)
  obtain r out b' where x: "evbuffer_write_atmost b (\<lambda>x. min m (int (length x))) howmuch = Some (r, out, b')" "in_ok b'" "same_setup b b'"
    "if freeze_start b \<or> contents b = [] \<or> howmuch = 0 then r = - 1 \<and> out = [] \<and> b' = b
     else (if m \<le> 0 then r = m else 0 < r \<and> r \<le> m) \<and> (0 < howmuch \<longrightarrow> r \<le> howmuch) \<and> out = take (nat r) (contents b) \<and> length out = nat r
       \<and> contents b' = drop (nat r) (contents b)" using in_write_ok [OF assms(1), of m howmuch] by blast
  have "length (contents b') \<le> length (contents b) + EVBUFFER_MAX_READ" using x(4) by (auto split: if_splits)
  then show ?thesis using IWrite x abs_same [OF x(3)] by (auto split: if_splits)
next
  case (IDrain n)
  obtain r b' where d: "evbuffer_drain b n = Some (r, b')" "in_ok b'" "same_setup b b'"
    "if freeze_start b \<and> contents b \<noteq> [] then r = - 1 \<and> b' = b else r = 0 \<and> contents b' = drop n (contents b)"
    using in_drain_ok [OF assms(1), of n] by blast
  then show ?thesis using IDrain abs_same [OF d(3)] by (auto split: if_splits)
next
  case (IRemove n)
  obtain r b' where d: "evbuffer_remove b n = Some (r, (if freeze_start b then [] else take n (contents b)), b')" "in_ok b'" "same_setup b b'"
    "if freeze_start b then b' = b \<and> r = (if n \<noteq> 0 \<and> contents b \<noteq> [] then - 1 else 0)
     else r = as_int (int (min n (length (contents b)))) \<and> contents b' = drop n (contents b)"
    using in_remove_ok [OF assms(1), of n] by blast
  show ?thesis
  proof (cases "freeze_start b")
    case True
    then show ?thesis using IRemove d by (auto simp: as_int_def)
  next
    case False
    then show ?thesis using IRemove d abs_same [OF d(3)] by simp
  qed
next
  case (IFind w)
  have "int (total_len b) \<le> EVBUFFER_CHAIN_MAX" using assms(3) in_ok_len [OF assms(1)] by (simp add: EVBUFFER_CHAIN_MAX_def)
  then have "found_at b 0 (first_match w (drop 0 (contents b))) (evbuffer_search b w (Some (ptr_first b)))"
    using search_at [OF in_ok_wf [OF assms(1)] _ _ _ points_first, of w] assms(2) IFind by simp
  moreover have "evbuffer_search b w (Some (ptr_first b)) = evbuffer_search b w None" by (simp add: evbuffer_search_def evbuffer_search_range_def)
  ultimately show ?thesis using IFind assms(1) by (auto simp: found_at_def points_pos split: option.splits)
next
  case (ILine style)
  have "int (total_len b) \<le> EVBUFFER_CHAIN_MAX" using assms(3) in_ok_len [OF assms(1)] by (simp add: EVBUFFER_CHAIN_MAX_def)
  note l = in_readln_ok [OF assms(1) this, of A style]
  show ?thesis
  proof (cases "line_end style (contents b)")
    case None
    then show ?thesis using l ILine assms(1) by simp
  next
    case (Some e)
    obtain k n where e: "e = (k, n)" by (cases e)
    show ?thesis
    proof (cases "freeze_start b \<or> \<not> A (int k + 1)")
      case True
      then show ?thesis using l ILine assms(1) Some e by auto
    next
      case False
      then obtain b' where x: "evbuffer_readln A b style = Some (Some (take k (contents b) @ [0]), k, b')" "in_ok b'" "same_setup b b'"
        "contents b' = drop (k + n) (contents b)" using l Some e by auto
      then show ?thesis using ILine Some e False abs_same [OF x(3)] by simp
    qed
  qed
next
  case (IFreeze start)
  then show ?thesis using freeze_in_ok(1) [OF assms(1), of start] by (auto simp: evbuffer_freeze_def abs_queue_def contents_def)
next
  case (IUnfreeze start)
  then show ?thesis using freeze_in_ok(2) [OF assms(1), of start] by (auto simp: evbuffer_unfreeze_def abs_queue_def contents_def)
qed

interpretation io: budget_refinement in_ok abs_queue "io_step A" "io_spec A" io_valid "\<lambda>b. length (contents b)" EVBUFFER_MAX_READ "nat EVBUFFER_CHAIN_MAX" for A
  by unfold_locales (rule io_step_ok)

lemma new_in_ok: "in_ok evbuffer_new"
  unfolding in_ok_def by (intro exI [of _ "[]"]) (simp add: parts_def evbuffer_new_def)

section \<open>Properties\<close>

text \<open>C6: Every sequence of reads from a descriptor, writes to a descriptor, drains, removals, searches, takings of lines, freezes and
  unfreezes on a new buffer, of at most 2^51 - 1 operations, runs without a fault and without a failed assertion, whatever arrives, whatever the
  system calls return and whatever allocations fail, and its results are those of the same operations on the list of the
  bytes inside: no byte is lost, doubled or reordered, also where a read spreads over several chains and leaves spare ones.\<close>

theorem evbuffer_io_refines:
  assumes "list_all io_valid ops" "EVBUFFER_MAX_READ * length ops \<le> nat EVBUFFER_CHAIN_MAX"
  shows "\<exists>rs b q. run_ops (io_step A) ops evbuffer_new = Some (rs, b) \<and> spec_run (io_spec A) ops \<lparr>q_bytes = [], q_front = False, q_back = False\<rparr> rs q
    \<and> q_bytes q = contents b \<and> evbuffer_get_length b = length (q_bytes q)"
proof -
  have new: "abs_queue evbuffer_new = \<lparr>q_bytes = [], q_front = False, q_back = False\<rparr>" "length (contents evbuffer_new) = 0"
    using evbuffer_new_ok by (simp_all add: abs_queue_def evbuffer_new_def contents_def)
  then obtain rs b where "run_ops (io_step A) ops evbuffer_new = Some (rs, b)" "in_ok b"
    "spec_run (io_spec A) ops \<lparr>q_bytes = [], q_front = False, q_back = False\<rparr> rs (abs_queue b)"
    using io.run_in_budget [OF new_in_ok assms(1), of A] assms(2) by auto
  then show ?thesis using in_ok_len by (auto simp: evbuffer_get_length_def intro!: exI [of _ "abs_queue b"])
qed

lemma evbuffer_io_refines_witness:
  "\<exists>rs b q. run_ops (io_step (\<lambda>_. True)) [IRead 5 (Some [65, 13, 10, 66, 67]) (- 1), ILine EVBUFFER_EOL_CRLF, IFind [67], IWrite 1 (- 1), IRead 0 None 2] evbuffer_new = Some (rs, b)
    \<and> spec_run (io_spec (\<lambda>_. True)) [IRead 5 (Some [65, 13, 10, 66, 67]) (- 1), ILine EVBUFFER_EOL_CRLF, IFind [67], IWrite 1 (- 1), IRead 0 None 2]
        \<lparr>q_bytes = [], q_front = False, q_back = False\<rparr> rs q \<and> q_bytes q = contents b \<and> evbuffer_get_length b = length (q_bytes q)"
  by (rule evbuffer_io_refines) (simp_all add: EVBUFFER_MAX_READ_def EVBUFFER_CHAIN_MAX_def)

end
